(* ===== verification/Driver_Prelude.thy ===== *)
theory Driver_Prelude
  imports Main "HOL-Library.Word" "HOL-Library.Monad_Syntax"
begin

text \<open>
  Shared vocabulary of the development: the C integer types the game driver uses, flag words,
  checked writes into a block of bytes, and the generic lemmas on words and lists that the
  component theories rely on.

  Conventions.  A C function that reads or writes memory through a computed offset returns an
  \<^typ>\<open>'a option\<close>: \<^const>\<open>None\<close> is an access outside the block (undefined behaviour in C) or
  a loop that would never end, so that a theorem concluding \<^term>\<open>Some y\<close> is a memory-safety and
  termination statement as well as a functional one.  \<^typ>\<open>'a word\<close> arithmetic wraps as the
  unsigned C types do.
\<close>

unbundle bit_operations_syntax

type_synonym u8 = "8 word"
type_synonym u16 = "16 word"
type_synonym u32 = "32 word"

named_theorems flag_simps \<open>rewriting of flag words tested against constant masks\<close>

section \<open>Words\<close>

lemma unat_inc_lt: "x < y \<Longrightarrow> unat (x + 1) = Suc (unat x)" for x y :: "'a::len word"
proof -
  assume "x < y"
  then have "unat x < unat y" by (simp add: word_less_nat_alt)
  moreover have "unat y < 2 ^ LENGTH('a)" by (rule unsigned_less)
  ultimately have "Suc (unat x) < 2 ^ LENGTH('a)" by linarith
  then show ?thesis by (simp add: unat_word_ariths)
qed

lemma unat_dec_nz: "x \<noteq> 0 \<Longrightarrow> unat (x - 1) = unat x - 1" for x :: "'a::len word"
  by (rule unat_minus_one)

lemma unat_add_lt:
  "unat x + n < 2 ^ LENGTH('a) \<Longrightarrow> unat (x + of_nat n) = unat x + n" for x :: "'a::len word"
  by (simp add: unat_word_ariths unat_of_nat)

lemma unat_sub_le:
  "n \<le> unat x \<Longrightarrow> unat (x - of_nat n) = unat x - n" for x :: "'a::len word"
proof -
  assume "n \<le> unat x"
  moreover have lt: "unat x < 2 ^ LENGTH('a)" by (rule unsigned_less)
  ultimately have "n < 2 ^ LENGTH('a)" by linarith
  then have n: "unat (of_nat n :: 'a word) = n" by (simp add: unat_of_nat)
  with \<open>n \<le> unat x\<close> have "(of_nat n :: 'a word) \<le> x" by (simp add: word_le_nat_alt)
  then show ?thesis by (simp add: unat_sub n)
qed

lemma unat16_lt [simp]: "unat (x :: u16) < 65536"
  using unsigned_less [of x, where ?'a = nat] by simp

section \<open>Flag words\<close>

text \<open>
  \<open>f & m\<close> used as a condition is \<open>has_flag f m\<close>; \<open>f |= m\<close> is \<open>f OR m\<close>; \<open>f &= ~m\<close> is
  \<open>f AND NOT m\<close>.
\<close>

definition has_flag :: "'a::len word \<Rightarrow> 'a word \<Rightarrow> bool" where
  "has_flag f m \<longleftrightarrow> f AND m \<noteq> 0"

lemma has_flag_or [flag_simps]: "has_flag (f OR m) n \<longleftrightarrow> has_flag f n \<or> m AND n \<noteq> 0"
proof -
  have "(f OR m) AND n = (f AND n) OR (m AND n)" by (rule bit.conj_disj_distrib2)
  then show ?thesis by (simp add: has_flag_def or_eq_0_iff)
qed

lemma has_flag_clear [flag_simps]: "has_flag (f AND NOT m) n \<longleftrightarrow> has_flag f (NOT m AND n)"
  by (simp add: has_flag_def and.assoc)

lemma has_flag_mask_or: "has_flag f (m OR n) \<longleftrightarrow> has_flag f m \<or> has_flag f n"
  by (simp add: has_flag_def bit.conj_disj_distrib or_eq_0_iff)

lemma has_flag_zero [simp]: "\<not> has_flag f 0" "\<not> has_flag 0 m"
  by (simp_all add: has_flag_def)

section \<open>Blocks of bytes\<close>

text \<open>\<open>memcpy(block + off, xs, length xs)\<close>, checked against the size of the block.\<close>

definition mem_write :: "'b list \<Rightarrow> nat \<Rightarrow> 'b list \<Rightarrow> 'b list option" where
  "mem_write blk off xs =
     (if off + length xs \<le> length blk
      then Some (take off blk @ xs @ drop (off + length xs) blk) else None)"

definition mem_read :: "'b list \<Rightarrow> nat \<Rightarrow> nat \<Rightarrow> 'b list option" where
  "mem_read blk off n = (if off + n \<le> length blk then Some (take n (drop off blk)) else None)"

lemma mem_write_Nil [simp]: "off \<le> length blk \<Longrightarrow> mem_write blk off [] = Some blk"
  by (simp add: mem_write_def)

lemma mem_write_Cons:
  "off < length blk \<Longrightarrow> mem_write blk off (x # xs) = mem_write (blk[off := x]) (Suc off) xs"
  by (auto simp: mem_write_def upd_conv_take_nth_drop take_Suc_conv_app_nth min_def ac_simps)

lemma mem_write_length: "mem_write blk off xs = Some blk' \<Longrightarrow> length blk' = length blk"
  by (auto simp: mem_write_def split: if_splits)

section \<open>Iterating a fallible operation\<close>

primrec put_all :: "('q \<Rightarrow> 'b \<Rightarrow> 'q option) \<Rightarrow> 'q \<Rightarrow> 'b list \<Rightarrow> 'q option" where
  "put_all put q [] = Some q"
| "put_all put q (x # xs) = put q x \<bind> (\<lambda>q'. put_all put q' xs)"

primrec get_n :: "('q \<Rightarrow> ('b \<times> 'q) option) \<Rightarrow> nat \<Rightarrow> 'q \<Rightarrow> ('b list \<times> 'q) option" where
  "get_n get 0 q = Some ([], q)"
| "get_n get (Suc n) q =
     get q \<bind> (\<lambda>(x, q'). map_option (\<lambda>(xs, q''). (x # xs, q'')) (get_n get n q'))"

lemma put_all_append:
  "put_all put q (xs @ ys) = put_all put q xs \<bind> (\<lambda>q'. put_all put q' ys)"
  by (induction xs arbitrary: q) (simp_all add: bind_assoc)

section \<open>Lists\<close>

lemma butlast_map_upt: "butlast (map f [0..<n]) = map f [0..<n - 1]"
  by (cases n) simp_all

lemma mod_shift_neq:
  "i < n \<Longrightarrow> n < s \<Longrightarrow> (r + i) mod s \<noteq> (r + n) mod s" for s :: nat
proof
  assume i: "i < n" and n: "n < s" and eq: "(r + i) mod s = (r + n) mod s"
  from eq have "s dvd (r + n) - (r + i)" using i by (metis mod_eq_dvd_iff_nat add_le_mono1
    add.commute less_imp_le_nat)
  then have "s dvd n - i" by simp
  with i n show False by (auto dest: dvd_imp_le)
qed

section \<open>Ends of linked lists\<close>

text \<open>The first node of a list followed by \<open>n\<close>, and the last node of a list after \<open>p\<close>.\<close>

definition hdo :: "'b list \<Rightarrow> 'b option \<Rightarrow> 'b option" where
  "hdo xs n = (case xs of [] \<Rightarrow> n | x # _ \<Rightarrow> Some x)"

definition lasto :: "'b option \<Rightarrow> 'b list \<Rightarrow> 'b option" where
  "lasto p xs = (if xs = [] then p else Some (last xs))"

lemma hdo_simps [simp]: "hdo [] n = n" "hdo (x # xs) n = Some x"
  by (simp_all add: hdo_def)

lemma lasto_simps [simp]:
  "lasto p [] = p" "lasto p (x # xs) = lasto (Some x) xs" "lasto p (xs @ [x]) = Some x"
  by (simp_all add: lasto_def)

lemma hdo_append: "hdo (xs @ ys) n = hdo xs (hdo ys n)"
  by (cases xs) simp_all

lemma lasto_append: "lasto p (xs @ ys) = lasto (lasto p xs) ys"
  by (induction xs arbitrary: p) simp_all

text \<open>The nodes of a singly linked chain; \<^const>\<open>None\<close> when the chain does not end.\<close>

partial_function (option) chain_from :: "('a \<Rightarrow> 'a option) \<Rightarrow> 'a option \<Rightarrow> 'a list option" where
  "chain_from nxt cur =
     (case cur of None \<Rightarrow> Some [] | Some x \<Rightarrow> do { xs \<leftarrow> chain_from nxt (nxt x); Some (x # xs) })"

fun linked :: "('a \<Rightarrow> 'a option) \<Rightarrow> 'a list \<Rightarrow> 'a option \<Rightarrow> bool" where
  "linked nxt [] n \<longleftrightarrow> True"
| "linked nxt (x # xs) n \<longleftrightarrow> nxt x = hdo xs n \<and> linked nxt xs n"

lemma linked_chain: "linked nxt xs None \<Longrightarrow> chain_from nxt (hdo xs None) = Some xs"
  by (induction xs) (simp_all add: chain_from.simps [of _ None] chain_from.simps [of _ "Some x" for x])

lemma linked_append: "linked nxt (xs @ ys) n \<longleftrightarrow> linked nxt xs (hdo ys n) \<and> linked nxt ys n"
  by (induction xs) (auto simp: hdo_append)

lemma linked_cong: "(\<And>x. x \<in> set xs \<Longrightarrow> nxt' x = nxt x) \<Longrightarrow> linked nxt' xs n = linked nxt xs n"
  by (induction xs) auto

lemma linked_skip:
  assumes "linked nxt (us @ u # x # vs) n" "distinct (us @ u # x # vs)"
  shows "linked (nxt(u := nxt x)) (us @ u # vs) n"
proof -
  have "linked (nxt(u := nxt x)) us (Some u) = linked nxt us (Some u)" "linked (nxt(u := nxt x)) vs n = linked nxt vs n"
    using assms(2) by (auto intro!: linked_cong)
  with assms(1) show ?thesis by (simp add: linked_append)
qed

text \<open>
  Doubly linked lists in fields \<open>prv\<close> and \<open>nxt\<close> indexed by address: the nodes \<open>xs\<close> between \<open>p\<close> and \<open>n\<close>.
\<close>

fun dlist :: "('a \<Rightarrow> 'a option) \<Rightarrow> ('a \<Rightarrow> 'a option) \<Rightarrow> 'a option \<Rightarrow> 'a list \<Rightarrow> 'a option \<Rightarrow> bool" where
  "dlist prv nxt p [] n \<longleftrightarrow> True"
| "dlist prv nxt p (x # xs) n \<longleftrightarrow> prv x = p \<and> nxt x = hdo xs n \<and> dlist prv nxt (Some x) xs n"

lemma dlist_append: "dlist prv nxt p (xs @ ys) n \<longleftrightarrow> dlist prv nxt p xs (hdo ys n) \<and> dlist prv nxt (lasto p xs) ys n"
  by (induction xs arbitrary: p) (auto simp: hdo_append)

lemma dlist_cong:
  "(\<And>x. x \<in> set xs \<Longrightarrow> prv' x = prv x \<and> nxt' x = nxt x) \<Longrightarrow> dlist prv' nxt' p xs n = dlist prv nxt p xs n"
  by (induction xs arbitrary: p) auto

lemma dlist_push:
  assumes "dlist prv nxt None xs None" "x \<notin> set xs" "distinct xs"
    and prv': "prv' = (case xs of [] \<Rightarrow> prv(x := None) | y # _ \<Rightarrow> prv(x := None, y := Some x))"
  shows "dlist prv' (nxt(x := hdo xs None)) None (x # xs) None"
proof (cases xs)
  case (Cons y ys)
  have "dlist prv' (nxt(x := hdo xs None)) (Some y) ys None = dlist prv nxt (Some y) ys None"
    using assms(2,3) Cons prv' by (intro dlist_cong) auto
  with assms Cons show ?thesis by auto
qed (simp add: prv')

lemma dlist_unlink:
  assumes "dlist prv nxt p (us @ x # vs) n" "distinct (us @ x # vs)"
    and nxt': "nxt' = (if us = [] then nxt else nxt(last us := hdo vs n))"
    and prv': "prv' = (case vs of [] \<Rightarrow> prv | v # _ \<Rightarrow> prv(v := lasto p us))"
  shows "dlist prv' nxt' p (us @ vs) n"
proof -
  have v: "dlist prv' nxt' (lasto p us) vs n"
  proof (cases vs)
    case (Cons v vs')
    have "set us \<inter> set vs = {}" using assms(2) by simp
    then have "last us \<notin> set vs" if "us \<noteq> []" using last_in_set [OF that] by blast
    then have "dlist prv' nxt' (Some v) vs' n = dlist prv nxt (Some v) vs' n"
      using assms(2) Cons by (intro dlist_cong) (auto simp: nxt' prv' split: list.splits)
    moreover have "nxt' v = nxt v" using \<open>us \<noteq> [] \<Longrightarrow> last us \<notin> set vs\<close> Cons by (auto simp: nxt' split: list.splits)
    ultimately show ?thesis using assms(1) Cons by (simp add: dlist_append prv')
  qed simp
  have "dlist prv' nxt' p us (hdo vs n)"
  proof (cases us rule: rev_cases)
    case (snoc us' u)
    have "dlist prv' nxt' p us' (Some u) = dlist prv nxt p us' (Some u)"
      using assms(2) snoc by (intro dlist_cong) (auto simp: nxt' prv' split: list.splits)
    moreover have "prv' u = prv u" using assms(2) snoc by (auto simp: prv' split: list.splits)
    moreover have "nxt' u = hdo vs n" using snoc by (simp add: nxt')
    ultimately show ?thesis using assms(1) snoc by (simp add: dlist_append)
  qed simp
  with v show ?thesis by (simp add: dlist_append)
qed

end
