(* ===== verification/Nqueue.thy ===== *)
theory Nqueue
  imports Driver_Prelude
begin

text \<open>
  Network queues (\<^verbatim>\<open>src/nqueue.c\<close>, \<^verbatim>\<open>src/nqueue.h\<close>): a ring buffer of bytes behind a header of
  four \<^verbatim>\<open>u_short\<close>s.  The header fields are the record fields below; \<open>qdata\<close> is the block of
  \<^verbatim>\<open>nq_size\<close> bytes that follows the header in the same allocation.  A read or write through
  \<^verbatim>\<open>nq_rptr()\<close>/\<^verbatim>\<open>nq_wptr()\<close> outside that block is \<^const>\<open>None\<close>.  The sockets of \<^verbatim>\<open>nq_recv\<close> and
  \<^verbatim>\<open>nq_send\<close> are parameters.  The theorems relate every operation to the list of queued bytes.
\<close>

section \<open>State and operations\<close>

record nqueue =
  qsize :: u16
  qlen :: u16
  qrptr :: u16
  qwptr :: u16
  qdata :: "u8 list"

definition nq_init :: "nqueue \<Rightarrow> nqueue" where
  "nq_init nq = nq\<lparr>qlen := 0, qrptr := 0, qwptr := 0\<rparr>"

text \<open>The block is not initialised by \<^verbatim>\<open>xalloc\<close>; the model fills it with zero bytes, which no
  operation can read back before it has written them.\<close>

definition nq_alloc :: "u16 \<Rightarrow> nqueue" where
  "nq_alloc sz = nq_init \<lparr>qsize = sz, qlen = 0, qrptr = 0, qwptr = 0,
                            qdata = replicate (unat sz) 0\<rparr>"

definition nq_size :: "nqueue \<Rightarrow> u16" where
  "nq_size nq = qsize nq"

definition nq_len :: "nqueue \<Rightarrow> u16" where
  "nq_len nq = qlen nq"

definition nq_avail :: "nqueue \<Rightarrow> u16" where
  "nq_avail nq = qsize nq - qlen nq"

text \<open>Pointers into the block are offsets from its start.\<close>

definition nq_rptr :: "nqueue \<Rightarrow> nat" where
  "nq_rptr nq = unat (qrptr nq)"

definition nq_wptr :: "nqueue \<Rightarrow> nat" where
  "nq_wptr nq = unat (qwptr nq)"

definition nq_empty :: "nqueue \<Rightarrow> bool" where
  "nq_empty nq \<longleftrightarrow> qlen nq = 0"

definition nq_full :: "nqueue \<Rightarrow> bool" where
  "nq_full nq \<longleftrightarrow> qlen nq = qsize nq"

definition nq_getc :: "nqueue \<Rightarrow> (u8 \<times> nqueue) option" where
  "nq_getc nq =
     (if nq_rptr nq < length (qdata nq)
      then let c = qdata nq ! nq_rptr nq;
               nq1 = nq\<lparr>qlen := qlen nq - 1, qrptr := qrptr nq + 1\<rparr>;
               nq2 = (if qrptr nq1 = qsize nq1 then nq1\<lparr>qrptr := 0\<rparr> else nq1)
           in Some (c, nq2)
      else None)"

definition nq_ungetc :: "nqueue \<Rightarrow> u8 \<Rightarrow> nqueue option" where
  "nq_ungetc nq c =
     (let nq1 = nq\<lparr>qlen := qlen nq + 1, qrptr := qrptr nq - 1\<rparr>;
          nq2 = (if qrptr nq = 0 then nq1\<lparr>qrptr := qsize nq - 1\<rparr> else nq1)
      in if nq_rptr nq2 < length (qdata nq2)
         then Some (nq2\<lparr>qdata := (qdata nq2)[nq_rptr nq2 := c]\<rparr>) else None)"

definition nq_putc :: "nqueue \<Rightarrow> u8 \<Rightarrow> nqueue option" where
  "nq_putc nq c =
     (if nq_wptr nq < length (qdata nq)
      then let nq1 = nq\<lparr>qdata := (qdata nq)[nq_wptr nq := c],
                        qlen := qlen nq + 1, qwptr := qwptr nq + 1\<rparr>
           in Some (if qwptr nq1 = qsize nq1 then nq1\<lparr>qwptr := 0\<rparr> else nq1)
      else None)"

text \<open>
  The contiguous free space \<^verbatim>\<open>nq_puts\<close> and \<^verbatim>\<open>nq_recv\<close> compute, in \<^verbatim>\<open>int\<close> arithmetic.
\<close>

definition nq_room :: "nqueue \<Rightarrow> int" where
  "nq_room nq =
     (if qrptr nq > qwptr nq then uint (qrptr nq) - uint (qwptr nq)
      else uint (qsize nq) - uint (qwptr nq))"

text \<open>
  Advancing the write pointer over \<open>n\<close> bytes copied behind it, common to the loop body of
  \<^verbatim>\<open>nq_puts\<close> and to \<^verbatim>\<open>nq_recv\<close>.
\<close>

definition nq_advance_w :: "nqueue \<Rightarrow> nat \<Rightarrow> nqueue" where
  "nq_advance_w nq n =
     (let nq1 = nq\<lparr>qlen := qlen nq + of_nat n, qwptr := qwptr nq + of_nat n\<rparr>
      in if qwptr nq1 = qsize nq1 then nq1\<lparr>qwptr := 0\<rparr> else nq1)"

text \<open>
  \<^verbatim>\<open>cp\<close> is the C string without its terminator.  When the computed chunk is not positive the C
  loop makes no progress (or calls \<^verbatim>\<open>memcpy\<close> with a negative size): \<^const>\<open>None\<close>.
\<close>

function nq_puts :: "nqueue \<Rightarrow> u8 list \<Rightarrow> nqueue option" where
  "nq_puts nq cp =
     (if cp = [] then Some nq
      else let sz = min (nq_room nq) (int (length cp)); n = nat sz
           in if sz \<le> 0 then None
              else (case mem_write (qdata nq) (nq_wptr nq) (take n cp) of
                      None \<Rightarrow> None
                    | Some d \<Rightarrow> nq_puts (nq_advance_w (nq\<lparr>qdata := d\<rparr>) n) (drop n cp)))"
  by pat_completeness auto
termination
  by (relation "measure (\<lambda>(nq, cp). length cp)") auto

declare nq_puts.simps [simp del]

definition nq_unputc :: "nqueue \<Rightarrow> nqueue" where
  "nq_unputc nq =
     (let nq1 = nq\<lparr>qlen := qlen nq - 1, qwptr := qwptr nq - 1\<rparr>
      in if qwptr nq = 0 then nq1\<lparr>qwptr := qsize nq - 1\<rparr> else nq1)"

text \<open>
  \<^verbatim>\<open>recv()\<close>: given the room, the bytes it stored (\<^term>\<open>[]\<close> is the end of the stream, result 0),
  or \<^const>\<open>None\<close> for its error result -1.  The result carries the queue, the byte counter
  \<^verbatim>\<open>*uip\<close> and the value returned.
\<close>

definition nq_recv ::
  "(int \<Rightarrow> u8 list option) \<Rightarrow> nqueue \<Rightarrow> u32 \<Rightarrow> (nqueue \<times> u32 \<times> int) option" where
  "nq_recv recv nq uip =
     (case recv (nq_room nq) of
        None \<Rightarrow> Some (nq, uip, -1)
      | Some bs \<Rightarrow>
          (if bs = [] then Some (nq, uip, 0)
           else (case mem_write (qdata nq) (nq_wptr nq) bs of
                   None \<Rightarrow> None
                 | Some d \<Rightarrow> Some (nq_advance_w (nq\<lparr>qdata := d\<rparr>) (length bs),
                                  uip + of_nat (length bs), int (length bs)))))"

text \<open>
  \<^verbatim>\<open>send()\<close> is a machine over a socket state \<open>'s\<close>: it is given the chunk and returns how many of
  its bytes it took, or -1.  The result of \<^verbatim>\<open>nq_send\<close> carries the queue, the counter, the
  value returned, the bytes the socket took, in order, and the socket state.
\<close>

definition nq_advance_r :: "nqueue \<Rightarrow> nat \<Rightarrow> nqueue" where
  "nq_advance_r nq n =
     (let nq1 = nq\<lparr>qlen := qlen nq - of_nat n, qrptr := qrptr nq + of_nat n\<rparr>
      in if qrptr nq1 = qsize nq1 then nq1\<lparr>qrptr := 0\<rparr> else nq1)"

lemma qlen_advance_r [simp]: "qlen (nq_advance_r nq n) = qlen nq - of_nat n"
  by (simp add: nq_advance_r_def Let_def)

function nq_send_loop ::
  "('s \<Rightarrow> u8 list \<Rightarrow> int \<times> 's) \<Rightarrow> 's \<Rightarrow> nqueue \<Rightarrow> u32 \<Rightarrow> int \<Rightarrow> u8 list \<Rightarrow>
     (nqueue \<times> u32 \<times> int \<times> u8 list \<times> 's) option" where
  "nq_send_loop send s nq uip cc0 sent =
     (if qlen nq = 0 then Some (nq, uip, cc0, sent, s)
      else let len = min (uint (qsize nq) - uint (qrptr nq)) (uint (qlen nq))
           in if len < 0 then None
              else (case mem_read (qdata nq) (nq_rptr nq) (nat len) of
                None \<Rightarrow> None
              | Some chunk \<Rightarrow>
                 (let (cc, s') = send s chunk;
                      n = (if cc > 0 then nat cc else 0);
                      nq' = (if cc > 0 then nq_advance_r nq n else nq);
                      uip' = (if cc > 0 then uip + of_nat n else uip);
                      sent' = sent @ take n chunk
                  in if cc \<noteq> len then Some (nq', uip', cc, sent', s')
                     else if cc = 0 then None
                     else nq_send_loop send s' nq' uip' cc sent')))"
  by pat_completeness auto
termination
proof (relation "measure (\<lambda>(send, s, nq, uip, cc0, sent). unat (qlen nq))", goal_cases)
  case 1
  show ?case by simp
next
  case (2 send s nq uip cc0 sent len chunk p cc s' n nq' uip' sent')
  from 2(3,11,12) have pos: "0 < cc" by linarith
  from 2(2,11) pos have le: "nat cc \<le> unat (qlen nq)"
    by (simp only: unat_eq_nat_uint) linarith
  from 2(7,8) pos have "nq' = nq_advance_r nq (nat cc)" by (simp only: if_True)
  then have "unat (qlen nq') = unat (qlen nq) - nat cc"
    using le by (simp only: qlen_advance_r unat_sub_le)
  with pos le show ?case by simp
qed

declare nq_send_loop.simps [simp del]

definition nq_send ::
  "('s \<Rightarrow> u8 list \<Rightarrow> int \<times> 's) \<Rightarrow> 's \<Rightarrow> nqueue \<Rightarrow> u32 \<Rightarrow>
     (nqueue \<times> u32 \<times> int \<times> u8 list \<times> 's) option" where
  "nq_send send s nq uip = nq_send_loop send s nq uip 0 []"

section \<open>Contents and invariant\<close>

text \<open>The bytes on the queue, oldest first.\<close>

definition nq_list :: "nqueue \<Rightarrow> u8 list" where
  "nq_list nq =
     map (\<lambda>i. qdata nq ! ((unat (qrptr nq) + i) mod unat (qsize nq))) [0..<unat (qlen nq)]"

definition nq_inv :: "nqueue \<Rightarrow> bool" where
  "nq_inv nq \<longleftrightarrow>
     qsize nq \<noteq> 0 \<and> length (qdata nq) = unat (qsize nq) \<and>
     qrptr nq < qsize nq \<and> qwptr nq < qsize nq \<and> qlen nq \<le> qsize nq \<and>
     unat (qwptr nq) = (unat (qrptr nq) + unat (qlen nq)) mod unat (qsize nq)"

abbreviation nq_cap :: "nqueue \<Rightarrow> nat" where
  "nq_cap nq \<equiv> unat (qsize nq)"

lemma length_nq_list [simp]: "length (nq_list nq) = unat (qlen nq)"
  by (simp add: nq_list_def)

lemma nq_invD:
  assumes "nq_inv nq"
  shows "0 < unat (qsize nq)" "length (qdata nq) = unat (qsize nq)"
    "unat (qrptr nq) < unat (qsize nq)" "unat (qwptr nq) < unat (qsize nq)"
    "unat (qlen nq) \<le> unat (qsize nq)"
    "unat (qwptr nq) = (unat (qrptr nq) + unat (qlen nq)) mod unat (qsize nq)"
  using assms by (auto simp: nq_inv_def word_less_nat_alt word_le_nat_alt unat_gt_0)

lemma nq_invI:
  assumes "0 < unat (qsize nq)" "length (qdata nq) = unat (qsize nq)"
    "unat (qrptr nq) < unat (qsize nq)" "unat (qwptr nq) < unat (qsize nq)"
    "unat (qlen nq) \<le> unat (qsize nq)"
    "unat (qwptr nq) = (unat (qrptr nq) + unat (qlen nq)) mod unat (qsize nq)"
  shows "nq_inv nq"
  using assms by (auto simp: nq_inv_def word_less_nat_alt word_le_nat_alt unat_gt_0)

lemma nq_avail_unat: "nq_inv nq \<Longrightarrow> unat (nq_avail nq) = nq_cap nq - unat (qlen nq)"
  by (simp add: nq_avail_def nq_inv_def unat_sub)

lemma nq_full_iff: "nq_full nq \<longleftrightarrow> unat (qlen nq) = nq_cap nq"
  by (simp add: nq_full_def word_unat_eq_iff)

lemma nq_empty_iff: "nq_empty nq \<longleftrightarrow> nq_list nq = []"
  by (simp add: nq_empty_def nq_list_def unat_eq_zero)

section \<open>The interface of a bounded byte queue\<close>

locale byte_queue =
  fixes invar :: "'q \<Rightarrow> bool"
    and content :: "'q \<Rightarrow> 'b list"
    and cap :: "'q \<Rightarrow> nat"
    and putc :: "'q \<Rightarrow> 'b \<Rightarrow> 'q option"
    and getc :: "'q \<Rightarrow> ('b \<times> 'q) option"
    and reset :: "'q \<Rightarrow> 'q"
  assumes bounded: "invar q \<Longrightarrow> length (content q) \<le> cap q"
    and putc_law: "invar q \<Longrightarrow> length (content q) < cap q \<Longrightarrow>
      \<exists>q'. putc q c = Some q' \<and> invar q' \<and> cap q' = cap q \<and> content q' = content q @ [c]"
    and getc_law: "invar q \<Longrightarrow> content q = c # cs \<Longrightarrow>
      \<exists>q'. getc q = Some (c, q') \<and> invar q' \<and> cap q' = cap q \<and> content q' = cs"
    and reset_law: "invar q \<Longrightarrow> invar (reset q) \<and> cap (reset q) = cap q \<and> content (reset q) = []"
begin

lemma put_all_law:
  "invar q \<Longrightarrow> length (content q) + length xs \<le> cap q \<Longrightarrow>
     \<exists>q'. put_all putc q xs = Some q' \<and> invar q' \<and> cap q' = cap q \<and> content q' = content q @ xs"
proof (induction xs arbitrary: q)
  case Nil
  then show ?case by simp
next
  case (Cons x xs)
  from Cons.prems have "length (content q) < cap q" by simp
  with Cons.prems obtain q1 where q1: "putc q x = Some q1" "invar q1" "cap q1 = cap q"
    "content q1 = content q @ [x]" using putc_law [of q x] by blast
  with Cons.prems have "length (content q1) + length xs \<le> cap q1" by simp
  with q1 Cons.IH [of q1] show ?case by auto
qed

lemma get_n_law:
  "invar q \<Longrightarrow> content q = xs @ ys \<Longrightarrow>
     \<exists>q'. get_n getc (length xs) q = Some (xs, q') \<and> invar q' \<and> cap q' = cap q \<and> content q' = ys"
proof (induction xs arbitrary: q)
  case Nil
  then show ?case by simp
next
  case (Cons x xs)
  then obtain q1 where "getc q = Some (x, q1)" "invar q1" "cap q1 = cap q" "content q1 = xs @ ys"
    using getc_law [of q x "xs @ ys"] by auto
  with Cons.IH [of q1] show ?case by auto
qed

lemma fifo:
  assumes "invar q" and "length (content q) + length xs \<le> cap q"
  shows "\<exists>q1 q2. put_all putc q xs = Some q1 \<and>
           get_n getc (length (content q) + length xs) q1 = Some (content q @ xs, q2) \<and>
           content q2 = []"
proof -
  from put_all_law [OF assms] obtain q1 where q1: "put_all putc q xs = Some q1" "invar q1"
    "content q1 = (content q @ xs) @ []" by auto
  from get_n_law [OF q1(2,3)] q1(1) show ?thesis by auto
qed

end

section \<open>The ring buffer implements the interface\<close>

lemma ring_index_split:
  "unat r < s \<Longrightarrow> n \<le> s \<Longrightarrow> (unat r + n) mod s = (if unat r + n < s then unat r + n else unat r + n - s)"
  for r :: u16
  by (simp add: mod_if)

lemma nq_putc_law:
  assumes inv: "nq_inv nq" and room: "length (nq_list nq) < nq_cap nq"
  shows "\<exists>nq'. nq_putc nq c = Some nq' \<and> nq_inv nq' \<and> nq_cap nq' = nq_cap nq \<and>
               nq_list nq' = nq_list nq @ [c]"
proof -
  note D = nq_invD [OF inv]
  let ?s = "unat (qsize nq)" and ?r = "unat (qrptr nq)" and ?n = "unat (qlen nq)"
    and ?w = "unat (qwptr nq)"
  from room have n: "?n < ?s" by simp
  have len: "unat (qlen nq + 1) = Suc ?n"
    using n unat_inc_lt [of "qlen nq" "qsize nq"] by (simp add: word_less_nat_alt)
  have w1: "unat (qwptr nq + 1) = Suc ?w"
    using D unat_inc_lt [of "qwptr nq" "qsize nq"] by (simp add: word_less_nat_alt)
  obtain nq' where nq': "nq_putc nq c = Some nq'"
    using D by (simp add: nq_putc_def nq_wptr_def Let_def)
  have f: "qsize nq' = qsize nq" "qrptr nq' = qrptr nq" "qlen nq' = qlen nq + 1"
    "qdata nq' = (qdata nq)[?w := c]"
    "unat (qwptr nq') = (if Suc ?w = ?s then 0 else Suc ?w)"
    using nq' D w1 by (auto simp: nq_putc_def nq_wptr_def Let_def word_unat_eq_iff split: if_splits)
  have wrap: "(if Suc ?w = ?s then 0 else Suc ?w) = (?r + Suc ?n) mod ?s"
    using D(6) by (simp add: mod_Suc)
  have inv': "nq_inv nq'"
  proof (rule nq_invI)
    show "unat (qwptr nq') < unat (qsize nq')" using D(1,4) f(1,5) by (auto split: if_splits)
    show "unat (qwptr nq') = (unat (qrptr nq') + unat (qlen nq')) mod unat (qsize nq')"
      using wrap f len by simp
  qed (use D f len n in simp_all)
  have keep: "qdata nq' ! ((?r + i) mod ?s) = qdata nq ! ((?r + i) mod ?s)" if "i < ?n" for i
    using mod_shift_neq [OF that n, of ?r] f D(6) by (simp add: nth_list_update)
  have new: "qdata nq' ! ((?r + ?n) mod ?s) = c"
    using f D by simp
  have "nq_list nq' = nq_list nq @ [c]"
    unfolding nq_list_def using f len keep new by simp
  with nq' inv' f show ?thesis by auto
qed

lemma nq_getc_law:
  assumes inv: "nq_inv nq" and cs: "nq_list nq = c # cs"
  shows "\<exists>nq'. nq_getc nq = Some (c, nq') \<and> nq_inv nq' \<and> nq_cap nq' = nq_cap nq \<and>
               nq_list nq' = cs"
proof -
  note D = nq_invD [OF inv]
  let ?s = "unat (qsize nq)" and ?r = "unat (qrptr nq)" and ?n = "unat (qlen nq)"
  from cs have n: "?n = Suc (length cs)" using length_nq_list [of nq] by simp
  have hd: "qdata nq ! ?r = c"
    using cs D(3) n by (simp add: nq_list_def upt_conv_Cons del: upt_Suc)
  have len: "unat (qlen nq - 1) = length cs"
    using n unat_dec_nz [of "qlen nq"] by (cases "qlen nq = 0") simp_all
  have r1: "unat (qrptr nq + 1) = Suc ?r"
    using D unat_inc_lt [of "qrptr nq" "qsize nq"] by (simp add: word_less_nat_alt)
  obtain nq' where nq': "nq_getc nq = Some (c, nq')"
    using D hd by (simp add: nq_getc_def nq_rptr_def Let_def)
  have f: "qsize nq' = qsize nq" "qwptr nq' = qwptr nq" "qlen nq' = qlen nq - 1"
    "qdata nq' = qdata nq" "unat (qrptr nq') = (if Suc ?r = ?s then 0 else Suc ?r)"
    using nq' D r1 by (auto simp: nq_getc_def nq_rptr_def Let_def word_unat_eq_iff split: if_splits)
  have shift: "(unat (qrptr nq') + i) mod ?s = (?r + Suc i) mod ?s" for i
    using f by (simp add: mod_simps) (metis add_Suc_right add.commute mod_add_self2)
  have inv': "nq_inv nq'"
  proof (rule nq_invI)
    show "unat (qwptr nq') = (unat (qrptr nq') + unat (qlen nq')) mod unat (qsize nq')"
      using D(6) f len n shift [of "length cs"] by simp
  qed (use D f len n in simp_all)
  have "nq_list nq' = map (\<lambda>i. qdata nq ! ((?r + Suc i) mod ?s)) [0..<length cs]"
    unfolding nq_list_def using f len shift by simp
  also have "\<dots> = cs"
    using cs n by (simp add: nq_list_def upt_conv_Cons map_Suc_upt [symmetric] comp_def
        del: upt_Suc)
  finally show ?thesis using nq' inv' f by auto
qed

lemma nq_init_law:
  "nq_inv nq \<Longrightarrow> nq_inv (nq_init nq) \<and> nq_cap (nq_init nq) = nq_cap nq \<and> nq_list (nq_init nq) = []"
  by (auto simp: nq_init_def nq_inv_def nq_list_def word_gt_0)

interpretation nqi: byte_queue nq_inv nq_list nq_cap nq_putc nq_getc nq_init
  by unfold_locales
    (simp_all add: nq_putc_law nq_getc_law nq_init_law nq_invD(5))

lemma nq_alloc_law:
  "0 < sz \<Longrightarrow> nq_inv (nq_alloc sz) \<and> nq_cap (nq_alloc sz) = unat sz \<and> nq_list (nq_alloc sz) = []"
  by (auto simp: nq_alloc_def nq_init_def nq_inv_def nq_list_def word_gt_0)

lemma nq_unputc_law:
  assumes inv: "nq_inv nq" and ne: "\<not> nq_empty nq"
  shows "nq_inv (nq_unputc nq) \<and> nq_cap (nq_unputc nq) = nq_cap nq \<and>
         nq_list (nq_unputc nq) = butlast (nq_list nq)"
proof -
  note D = nq_invD [OF inv]
  let ?s = "unat (qsize nq)" and ?r = "unat (qrptr nq)" and ?n = "unat (qlen nq)"
    and ?w = "unat (qwptr nq)"
  from ne have nz: "qlen nq \<noteq> 0" by (simp add: nq_empty_def)
  then have n: "0 < ?n" by (simp add: unat_gt_0)
  have len: "unat (qlen nq - 1) = ?n - 1" by (rule unat_dec_nz [OF nz])
  have f: "qsize (nq_unputc nq) = qsize nq" "qrptr (nq_unputc nq) = qrptr nq"
    "qlen (nq_unputc nq) = qlen nq - 1" "qdata (nq_unputc nq) = qdata nq"
    "qwptr (nq_unputc nq) = (if qwptr nq = 0 then qsize nq - 1 else qwptr nq - 1)"
    by (simp_all add: nq_unputc_def Let_def)
  have w: "unat (qwptr (nq_unputc nq)) = (if ?w = 0 then ?s - 1 else ?w - 1)"
    using f D(1) unat_dec_nz [of "qsize nq"] unat_dec_nz [of "qwptr nq"]
    by (simp add: unat_eq_zero unat_gt_0)
  have "nq_inv (nq_unputc nq)"
  proof (rule nq_invI)
    show "unat (qwptr (nq_unputc nq)) =
        (unat (qrptr (nq_unputc nq)) + unat (qlen (nq_unputc nq))) mod unat (qsize (nq_unputc nq))"
      using w f len n D(1,3,5,6) by (auto simp: mod_if split: if_splits)
    show "unat (qwptr (nq_unputc nq)) < unat (qsize (nq_unputc nq))"
      using w f D(1,4) by auto
  qed (use D f len n in simp_all)
  moreover have "nq_list (nq_unputc nq) = butlast (nq_list nq)"
    by (simp add: nq_list_def f len butlast_map_upt)
  ultimately show ?thesis using f by simp
qed

lemma nq_ungetc_law:
  assumes inv: "nq_inv nq" and room: "length (nq_list nq) < nq_cap nq"
  shows "\<exists>nq'. nq_ungetc nq c = Some nq' \<and> nq_inv nq' \<and> nq_cap nq' = nq_cap nq \<and>
               nq_list nq' = c # nq_list nq"
proof -
  note D = nq_invD [OF inv]
  let ?s = "unat (qsize nq)" and ?r = "unat (qrptr nq)" and ?n = "unat (qlen nq)"
  let ?r' = "if ?r = 0 then ?s - 1 else ?r - 1"
  from room have n: "?n < ?s" by simp
  have len: "unat (qlen nq + 1) = Suc ?n"
    using n unat_inc_lt [of "qlen nq" "qsize nq"] by (simp add: word_less_nat_alt)
  have r': "unat (if qrptr nq = 0 then qsize nq - 1 else qrptr nq - 1) = ?r'"
    using D(1) unat_dec_nz [of "qsize nq"] unat_dec_nz [of "qrptr nq"]
    by (simp add: unat_eq_zero unat_gt_0)
  have r'_lt: "?r' < ?s" using D(1,3) by auto
  define nq' where "nq' = nq\<lparr>qlen := qlen nq + 1,
    qrptr := (if qrptr nq = 0 then qsize nq - 1 else qrptr nq - 1), qdata := (qdata nq)[?r' := c]\<rparr>"
  have f: "qsize nq' = qsize nq" "qwptr nq' = qwptr nq" "qlen nq' = qlen nq + 1"
    "qdata nq' = (qdata nq)[?r' := c]" "unat (qrptr nq') = ?r'"
    using r' by (simp_all add: nq'_def)
  have nq': "nq_ungetc nq c = Some nq'"
    using r' r'_lt D(2)
    by (cases "qrptr nq = 0") (simp_all add: nq_ungetc_def nq_rptr_def Let_def nq'_def)
  have shift: "(?r' + Suc i) mod ?s = (?r + i) mod ?s" for i
    using D(1) by (auto simp: Suc_diff_Suc)
  have inv': "nq_inv nq'"
  proof (rule nq_invI)
    show "unat (qwptr nq') = (unat (qrptr nq') + unat (qlen nq')) mod unat (qsize nq')"
      unfolding f(1,2,3,5) len shift by (rule D(6))
    show "unat (qrptr nq') < unat (qsize nq')" using D(1,3) f by auto
  qed (use D f len n in simp_all)
  have keep: "qdata nq' ! ((?r' + Suc i) mod ?s) = qdata nq ! ((?r + i) mod ?s)" if "i < ?n" for i
  proof -
    have "(?r' + 0) mod ?s \<noteq> (?r' + Suc i) mod ?s"
      by (rule mod_shift_neq) (use that n in simp_all)
    then have "?r' \<noteq> (?r + i) mod ?s" using r'_lt shift [of i] by simp
    then show ?thesis unfolding shift f(4) by simp
  qed
  have "nq_list nq' = map (\<lambda>i. qdata nq' ! ((?r' + i) mod ?s)) (0 # map Suc [0..<?n])"
    unfolding nq_list_def f(1,3,5) len by (simp add: upt_conv_Cons map_Suc_upt del: upt_Suc)
  also have "\<dots> = c # nq_list nq"
    using keep r'_lt D(2) f(4) by (simp add: nq_list_def)
  finally show ?thesis using nq' inv' f by auto
qed

section \<open>Bulk operations\<close>

lemma nq_advance_w_simps [simp]:
  "qsize (nq_advance_w nq n) = qsize nq" "qdata (nq_advance_w nq n) = qdata nq"
  "qrptr (nq_advance_w nq n) = qrptr nq" "qlen (nq_advance_w nq n) = qlen nq + of_nat n"
  by (simp_all add: nq_advance_w_def Let_def)

lemma nq_advance_w_0: "nq_inv nq \<Longrightarrow> nq_advance_w nq 0 = nq"
  by (auto simp: nq_advance_w_def Let_def nq_inv_def)

lemma nq_advance_w_Suc:
  "qwptr nq + 1 \<noteq> qsize nq \<Longrightarrow>
   nq_advance_w (nq\<lparr>qlen := qlen nq + 1, qwptr := qwptr nq + 1, qdata := d\<rparr>) n =
   nq_advance_w (nq\<lparr>qdata := d\<rparr>) (Suc n)"
  by (simp add: nq_advance_w_def Let_def add.assoc)

text \<open>A block copy that does not cross the end of the ring is the byte-wise append.\<close>

lemma put_all_chunk:
  assumes "nq_inv nq" "nq_wptr nq + length xs \<le> nq_cap nq"
    "unat (qlen nq) + length xs \<le> nq_cap nq"
  shows "put_all nq_putc nq xs =
     map_option (\<lambda>d. nq_advance_w (nq\<lparr>qdata := d\<rparr>) (length xs)) (mem_write (qdata nq) (nq_wptr nq) xs)"
  using assms
proof (induction xs arbitrary: nq)
  case Nil
  then show ?case using nq_invD [OF Nil.prems(1)]
    by (simp add: nq_advance_w_0 nq_wptr_def)
next
  case (Cons x xs)
  note D = nq_invD [OF Cons.prems(1)]
  have w1: "unat (qwptr nq + 1) = Suc (nq_wptr nq)"
    using D(4) unat_inc_lt [of "qwptr nq" "qsize nq"] by (simp add: word_less_nat_alt nq_wptr_def)
  have lt: "nq_wptr nq < length (qdata nq)" using D by (simp add: nq_wptr_def)
  let ?nq1 = "nq\<lparr>qdata := (qdata nq)[nq_wptr nq := x], qlen := qlen nq + 1, qwptr := qwptr nq + 1\<rparr>"
  show ?case
  proof (cases "qwptr nq + 1 = qsize nq")
    case True
    then have "xs = []" using w1 Cons.prems(2) by (auto simp: nq_wptr_def)
    with lt True show ?thesis
      by (simp add: nq_putc_def nq_advance_w_def Let_def mem_write_Cons)
  next
    case False
    then have p: "nq_putc nq x = Some ?nq1" using lt by (simp add: nq_putc_def Let_def)
    obtain nq' where "nq_putc nq x = Some nq'" "nq_inv nq'" "nq_list nq' = nq_list nq @ [x]"
      using nq_putc_law [OF Cons.prems(1), of x] Cons.prems(3) by auto
    then have i: "nq_inv ?nq1" and "unat (qlen ?nq1) = Suc (unat (qlen nq))"
      using p length_nq_list [of ?nq1] by auto
    with Cons.prems w1 have "put_all nq_putc ?nq1 xs =
      map_option (\<lambda>d. nq_advance_w (?nq1\<lparr>qdata := d\<rparr>) (length xs))
        (mem_write (qdata ?nq1) (nq_wptr ?nq1) xs)"
      by (intro Cons.IH) (simp_all add: nq_wptr_def)
    then show ?thesis
      using p lt w1 False
      by (simp add: mem_write_Cons nq_wptr_def nq_advance_w_Suc)
  qed
qed

lemma nq_room_bounds:
  assumes inv: "nq_inv nq" and "\<not> nq_full nq"
  shows "0 < nq_room nq" "int (nq_wptr nq) + nq_room nq \<le> int (nq_cap nq)"
    "int (unat (qlen nq)) + nq_room nq \<le> int (nq_cap nq)"
proof -
  note D = nq_invD [OF inv]
  have "unat (qlen nq) < unat (qsize nq)" using D assms(2) by (simp add: nq_full_iff)
  with D(3,4,6) show "0 < nq_room nq" "int (nq_wptr nq) + nq_room nq \<le> int (nq_cap nq)"
    "int (unat (qlen nq)) + nq_room nq \<le> int (nq_cap nq)"
    by (auto simp: nq_room_def nq_wptr_def word_less_nat_alt mod_if uint_nat
        simp del: of_nat_unat split: if_splits)
qed

lemma nq_chunk_law:
  assumes "nq_inv nq" "nq_wptr nq + length xs \<le> nq_cap nq"
    "unat (qlen nq) + length xs \<le> nq_cap nq"
  shows "\<exists>d. mem_write (qdata nq) (nq_wptr nq) xs = Some d \<and>
    put_all nq_putc nq xs = Some (nq_advance_w (nq\<lparr>qdata := d\<rparr>) (length xs)) \<and>
    nq_inv (nq_advance_w (nq\<lparr>qdata := d\<rparr>) (length xs)) \<and>
    nq_list (nq_advance_w (nq\<lparr>qdata := d\<rparr>) (length xs)) = nq_list nq @ xs"
  using put_all_chunk [OF assms] nqi.put_all_law [OF assms(1), of xs] assms(3) by auto

lemma nq_puts_put_all:
  "nq_inv nq \<Longrightarrow> unat (qlen nq) + length cp \<le> nq_cap nq \<Longrightarrow> nq_puts nq cp = put_all nq_putc nq cp"
proof (induction nq cp rule: nq_puts.induct)
  case (1 nq cp)
  show ?case
  proof (cases "cp = []")
    case True
    then show ?thesis by (simp add: nq_puts.simps)
  next
    case False
    with 1 have nf: "\<not> nq_full nq" by (auto simp: nq_full_iff)
    define n where "n = nat (min (nq_room nq) (int (length cp)))"
    note B = nq_room_bounds [OF 1(2) nf]
    have n: "0 < n" "n \<le> length cp" "nq_wptr nq + n \<le> nq_cap nq" "unat (qlen nq) + n \<le> nq_cap nq"
      using B False unfolding n_def by (simp_all del: of_nat_unat)
    obtain d where d: "mem_write (qdata nq) (nq_wptr nq) (take n cp) = Some d"
      "put_all nq_putc nq (take n cp) = Some (nq_advance_w (nq\<lparr>qdata := d\<rparr>) n)"
      "nq_inv (nq_advance_w (nq\<lparr>qdata := d\<rparr>) n)"
      "nq_list (nq_advance_w (nq\<lparr>qdata := d\<rparr>) n) = nq_list nq @ take n cp"
      using nq_chunk_law [OF 1(2), of "take n cp"] n by auto
    let ?nq' = "nq_advance_w (nq\<lparr>qdata := d\<rparr>) n"
    from d(4) n(2) have "unat (qlen ?nq') = unat (qlen nq) + n"
      by (metis length_append length_nq_list length_take min.absorb2)
    with 1(1) [OF False refl n_def _ d(1)] d(3) 1(3) n(1,2) B(1) False
    have "nq_puts ?nq' (drop n cp) = put_all nq_putc ?nq' (drop n cp)"
      by simp
    moreover have "put_all nq_putc nq cp = put_all nq_putc ?nq' (drop n cp)"
      using put_all_append [of nq_putc nq "take n cp" "drop n cp"] d(2) by simp
    moreover have "nq_puts nq cp = nq_puts ?nq' (drop n cp)"
      using False B(1) d(1) by (subst nq_puts.simps) (simp add: Let_def n_def min_le_iff_disj)
    ultimately show ?thesis by simp
  qed
qed

lemma nq_puts_law:
  assumes "nq_inv nq" "unat (qlen nq) + length cp \<le> nq_cap nq"
  shows "\<exists>nq'. nq_puts nq cp = Some nq' \<and> nq_inv nq' \<and> nq_cap nq' = nq_cap nq \<and>
               nq_list nq' = nq_list nq @ cp"
  using nq_puts_put_all [OF assms] nqi.put_all_law [OF assms(1), of cp] assms(2) by simp

text \<open>What \<^verbatim>\<open>recv(2)\<close> and \<^verbatim>\<open>send(2)\<close> promise: no more bytes than asked for.\<close>

definition recv_ok :: "(int \<Rightarrow> u8 list option) \<Rightarrow> bool" where
  "recv_ok recv \<longleftrightarrow> (\<forall>n bs. recv n = Some bs \<longrightarrow> int (length bs) \<le> n)"

definition send_ok :: "('s \<Rightarrow> u8 list \<Rightarrow> int \<times> 's) \<Rightarrow> bool" where
  "send_ok send \<longleftrightarrow> (\<forall>s bs. fst (send s bs) \<le> int (length bs))"

lemma nq_recv_law:
  assumes inv: "nq_inv nq" and nf: "\<not> nq_full nq" and ok: "recv_ok recv"
  shows "\<exists>nq' bs cc. nq_recv recv nq uip = Some (nq', uip + of_nat (length bs), cc) \<and> nq_inv nq' \<and>
    nq_cap nq' = nq_cap nq \<and> nq_list nq' = nq_list nq @ bs \<and>
    bs = (case recv (nq_room nq) of None \<Rightarrow> [] | Some bs \<Rightarrow> bs) \<and>
    cc = (if recv (nq_room nq) = None then -1 else int (length bs))"
proof (cases "recv (nq_room nq)")
  case None
  then show ?thesis using inv by (simp add: nq_recv_def)
next
  case (Some bs)
  with ok have le: "int (length bs) \<le> nq_room nq" by (simp add: recv_ok_def)
  note B = nq_room_bounds [OF inv nf]
  show ?thesis
  proof (cases "bs = []")
    case True
    with Some inv show ?thesis by (simp add: nq_recv_def)
  next
    case False
    from le B have "nq_wptr nq + length bs \<le> nq_cap nq" "unat (qlen nq) + length bs \<le> nq_cap nq"
      by linarith+
    from nq_chunk_law [OF inv this] Some False show ?thesis by (auto simp: nq_recv_def)
  qed
qed

lemma nq_advance_r_law:
  assumes inv: "nq_inv nq" and n: "n \<le> unat (qlen nq)" "unat (qrptr nq) + n \<le> nq_cap nq"
  shows "nq_inv (nq_advance_r nq n)" "nq_list (nq_advance_r nq n) = drop n (nq_list nq)"
    "take n (nq_list nq) = take n (drop (unat (qrptr nq)) (qdata nq))"
proof -
  note D = nq_invD [OF inv]
  let ?s = "unat (qsize nq)" and ?r = "unat (qrptr nq)" and ?q = "nq_advance_r nq n"
  have len: "unat (qlen nq - of_nat n) = unat (qlen nq) - n"
    using n(1) by (rule unat_sub_le)
  have r1: "unat (qrptr nq + of_nat n) = ?r + n"
  proof (rule unat_add_lt)
    show "?r + n < 2 ^ LENGTH(16)" using n(2) unat16_lt [of "qsize nq"] by (simp del: unat16_lt)
  qed
  have f: "qsize ?q = qsize nq" "qwptr ?q = qwptr nq" "qdata ?q = qdata nq"
    "unat (qrptr ?q) = (if ?r + n = ?s then 0 else ?r + n)"
    using r1 by (auto simp: nq_advance_r_def Let_def word_unat_eq_iff)
  have shift: "(unat (qrptr ?q) + i) mod ?s = (?r + n + i) mod ?s" for i
    using f(4) by simp
  show "nq_inv ?q"
  proof (rule nq_invI)
    show "unat (qwptr ?q) = (unat (qrptr ?q) + unat (qlen ?q)) mod unat (qsize ?q)"
      unfolding f(1,2) shift qlen_advance_r len using n(1) D(6) by simp
    show "unat (qrptr ?q) < unat (qsize ?q)" using D(1) n(2) f by auto
  qed (use D f len n in simp_all)
  show "nq_list ?q = drop n (nq_list nq)"
    unfolding nq_list_def f(1,3) shift qlen_advance_r len drop_map drop_upt
    by (intro nth_equalityI) (simp_all add: add.assoc)
  show "take n (nq_list nq) = take n (drop ?r (qdata nq))"
    using n D(2) by (intro nth_equalityI) (simp_all add: nq_list_def)
qed

lemma nq_send_loop_law:
  "nq_inv nq \<Longrightarrow> send_ok send \<Longrightarrow>
   \<exists>nq' cc out s'. nq_send_loop send s nq uip cc0 sent =
       Some (nq', uip + of_nat (length out), cc, sent @ out, s') \<and>
     nq_inv nq' \<and> nq_cap nq' = nq_cap nq \<and> nq_list nq = out @ nq_list nq'"
proof (induction send s nq uip cc0 sent rule: nq_send_loop.induct)
  case (1 send s nq uip cc0 sent)
  note inv = 1(2) and ok = 1(3) and D = nq_invD [OF 1(2)]
  show ?case
  proof (cases "qlen nq = 0")
    case True
    with inv show ?thesis by (auto simp: nq_send_loop.simps [of send s nq])
  next
    case False
    define len where "len = min (uint (qsize nq) - uint (qrptr nq)) (uint (qlen nq))"
    define m where "m = min (nq_cap nq - unat (qrptr nq)) (unat (qlen nq))"
    have lm: "len = int m"
      using D(3) unfolding len_def m_def uint_nat by linarith
    have m: "0 < m" "m \<le> unat (qlen nq)" "unat (qrptr nq) + m \<le> nq_cap nq"
      using D(3) False by (auto simp: m_def unat_gt_0)
    let ?chunk = "take m (drop (unat (qrptr nq)) (qdata nq))"
    have rd: "mem_read (qdata nq) (nq_rptr nq) (nat len) = Some ?chunk"
      using m(3) D(2) by (simp add: mem_read_def nq_rptr_def lm)
    obtain cc s' where cc: "send s ?chunk = (cc, s')" by force
    have ccm: "cc \<le> int m"
      using ok m D(2) unfolding send_ok_def by (metis cc fst_conv length_take of_nat_mono
          min.cobounded2 min.commute order_trans)
    define n where "n = (if cc > 0 then nat cc else 0)"
    let ?nq' = "if cc > 0 then nq_advance_r nq n else nq"
    have nm: "n \<le> m" using ccm by (auto simp: n_def nat_le_iff)
    have A: "nq_inv ?nq'" "nq_list ?nq' = drop n (nq_list nq)" "take n ?chunk = take n (nq_list nq)"
      using nq_advance_r_law [OF inv, of n] nm m inv by (auto simp: n_def min_def)
    have cap: "nq_cap ?nq' = nq_cap nq" by (simp add: nq_advance_r_def Let_def)
    have ln: "length (take n (nq_list nq)) = n" using nm m by simp
    note S = nq_send_loop.simps [of send s nq uip cc0 sent, folded len_def]
    show ?thesis
    proof (cases "cc = len")
      case False
      then have "nq_send_loop send s nq uip cc0 sent =
          Some (?nq', uip + of_nat n, cc, sent @ take n (nq_list nq), s')"
        using \<open>qlen nq \<noteq> 0\<close> rd cc A(3) lm by (cases "cc > 0") (simp_all add: S Let_def n_def)
      with A cap ln show ?thesis by (metis append_take_drop_id)
    next
      case True
      then have pos: "cc > 0" using lm m by simp
      have eq: "nq_send_loop send s nq uip cc0 sent =
          nq_send_loop send s' ?nq' (uip + of_nat n) cc (sent @ take n (nq_list nq))"
        using \<open>qlen nq \<noteq> 0\<close> rd cc A(3) lm True pos by (simp add: S Let_def n_def)
      obtain nq2 cc2 out s2 where IH: "nq_send_loop send s' ?nq' (uip + of_nat n) cc
            (sent @ take n (nq_list nq)) =
          Some (nq2, uip + of_nat n + of_nat (length out), cc2, (sent @ take n (nq_list nq)) @ out, s2)"
          "nq_inv nq2" "nq_cap nq2 = nq_cap ?nq'" "nq_list ?nq' = out @ nq_list nq2"
        using 1(1) [OF \<open>qlen nq \<noteq> 0\<close> len_def _ rd cc [symmetric] refl n_def refl refl refl, simplified]
          A pos True lm ok by (auto simp: A(3))
      have "nq_list nq = (take n (nq_list nq) @ out) @ nq_list nq2"
        using A(2) IH(4) by (metis append.assoc append_take_drop_id)
      with IH cap eq ln show ?thesis
        by (intro exI [of _ nq2] exI [of _ cc2] exI [of _ "take n (nq_list nq) @ out"] exI [of _ s2])
          (simp add: add.assoc)
    qed
  qed
qed

end
