(* ===== verification/Ndesc.thy ===== *)
theory Ndesc
  imports Driver_Prelude
begin

text \<open>
  The network descriptor manager (\<^verbatim>\<open>src/ndesc.c\<close>, \<^verbatim>\<open>src/ndesc.h\<close>): the doubly linked list of
  attached descriptors, the \<^verbatim>\<open>fd_set\<close>s handed to \<^verbatim>\<open>select()\<close>, the table from file descriptors to
  descriptors, and the dispatch of callbacks.  Descriptors live in a heap indexed by their address;
  following a pointer to an address that is not allocated is \<^const>\<open>None\<close>.  The static variables of
  the C file are the fields of \<open>ndmgr\<close>.  Callbacks are of an arbitrary type \<open>'c\<close> with their calls as
  a parameter, \<^verbatim>\<open>xalloc\<close>, \<^verbatim>\<open>select\<close> and \<^verbatim>\<open>dup\<close> are parameters.
\<close>

section \<open>State\<close>

type_synonym nd_id = nat

record ('c, 'v) ndesc =
  nd_fd :: int
  nd_mask :: u32
  nd_rfunc :: "'c option"
  nd_wfunc :: "'c option"
  nd_xfunc :: "'c option"
  nd_cfunc :: "'c option"
  nd_sfunc :: "'c option"
  nd_vp :: 'v
  nd_next :: "nd_id option"
  nd_prev :: "nd_id option"

record ('c, 'v) ndmgr =
  nd_head :: "nd_id option"
  nd_tail :: "nd_id option"
  nd_max_fd :: int
  nd_rfds :: "int set"
  nd_wfds :: "int set"
  nd_xfds :: "int set"
  nd_ndesc :: "int \<Rightarrow> nd_id option"
  nd_do_gc :: int
  nd_heap :: "nd_id \<Rightarrow> ('c, 'v) ndesc option"

definition ND_R :: u32 where "ND_R = 0x01"
definition ND_W :: u32 where "ND_W = 0x02"
definition ND_X :: u32 where "ND_X = 0x04"
definition ND_C :: u32 where "ND_C = 0x08"
definition ND_MASK :: u32 where "ND_MASK = 0x0f"

lemmas nd_masks = ND_R_def ND_W_def ND_X_def ND_C_def ND_MASK_def

text \<open>The number of entries of an \<^verbatim>\<open>fd_set\<close> and of \<^verbatim>\<open>nd_ndesc\<close>.\<close>

definition FD_SETSIZE :: int where "FD_SETSIZE = 1024"

definition fd_ok :: "int \<Rightarrow> bool" where
  "fd_ok fd \<longleftrightarrow> 0 \<le> fd \<and> fd < FD_SETSIZE"

text \<open>\<^verbatim>\<open>p->field = v\<close> through a pointer.\<close>

definition nd_upd ::
  "('c, 'v) ndmgr \<Rightarrow> nd_id \<Rightarrow> (('c, 'v) ndesc \<Rightarrow> ('c, 'v) ndesc) \<Rightarrow> ('c, 'v) ndmgr option" where
  "nd_upd m a f =
     (case nd_heap m a of None \<Rightarrow> None | Some d \<Rightarrow> Some (m\<lparr>nd_heap := (nd_heap m)(a \<mapsto> f d)\<rparr>))"

section \<open>Operations\<close>

definition nd_initfd :: "('c, 'v) ndmgr \<Rightarrow> int \<Rightarrow> ('c, 'v) ndmgr option" where
  "nd_initfd m fd =
     (if fd_ok fd
      then Some (m\<lparr>nd_rfds := nd_rfds m - {fd}, nd_wfds := nd_wfds m - {fd},
                   nd_xfds := nd_xfds m - {fd}, nd_ndesc := (nd_ndesc m)(fd := None)\<rparr>)
      else None)"

definition nd_init :: "('c, 'v) ndmgr" where
  "nd_init = \<lparr>nd_head = None, nd_tail = None, nd_max_fd = -1,
              nd_rfds = {}, nd_wfds = {}, nd_xfds = {}, nd_ndesc = (\<lambda>_. None),
              nd_do_gc = 0, nd_heap = (\<lambda>_. None)\<rparr>"

definition nd_append :: "('c, 'v) ndmgr \<Rightarrow> nd_id \<Rightarrow> ('c, 'v) ndmgr option" where
  "nd_append m nd = do {
     m \<leftarrow> nd_upd m nd (\<lambda>d. d\<lparr>nd_next := None\<rparr>);
     m \<leftarrow> nd_upd m nd (\<lambda>d. d\<lparr>nd_prev := nd_tail m\<rparr>);
     m \<leftarrow> (case nd_tail m of
             Some p \<Rightarrow> nd_upd m p (\<lambda>d. d\<lparr>nd_next := Some nd\<rparr>)
           | None \<Rightarrow> Some (m\<lparr>nd_head := Some nd\<rparr>));
     Some (m\<lparr>nd_tail := Some nd\<rparr>) }"

definition nd_remove :: "('c, 'v) ndmgr \<Rightarrow> nd_id \<Rightarrow> ('c, 'v) ndmgr option" where
  "nd_remove m nd = do {
     d \<leftarrow> nd_heap m nd;
     m \<leftarrow> (case nd_next d of
             Some n \<Rightarrow> nd_upd m n (\<lambda>x. x\<lparr>nd_prev := nd_prev d\<rparr>)
           | None \<Rightarrow> Some (m\<lparr>nd_tail := nd_prev d\<rparr>));
     d \<leftarrow> nd_heap m nd;
     (case nd_prev d of
        Some p \<Rightarrow> nd_upd m p (\<lambda>x. x\<lparr>nd_next := nd_next d\<rparr>)
      | None \<Rightarrow> Some (m\<lparr>nd_head := nd_next d\<rparr>)) }"

text \<open>\<open>a\<close> is the address \<^verbatim>\<open>xalloc\<close> returned.\<close>

definition nd_attach ::
  "('c, 'v) ndmgr \<Rightarrow> nd_id \<Rightarrow> int \<Rightarrow> 'c option \<Rightarrow> 'c option \<Rightarrow> 'c option \<Rightarrow> 'c option \<Rightarrow>
     'c option \<Rightarrow> 'v \<Rightarrow> ('c, 'v) ndmgr option" where
  "nd_attach m a fd rfunc wfunc xfunc cfunc sfunc vp = do {
     m \<leftarrow> Some (m\<lparr>nd_heap := (nd_heap m)(a \<mapsto>
            \<lparr>nd_fd = fd, nd_mask = 0, nd_rfunc = rfunc, nd_wfunc = wfunc, nd_xfunc = xfunc,
             nd_cfunc = cfunc, nd_sfunc = sfunc, nd_vp = vp, nd_next = None, nd_prev = None\<rparr>)\<rparr>);
     m \<leftarrow> nd_append m a;
     m \<leftarrow> Some (if nd_max_fd m < fd then m\<lparr>nd_max_fd := fd\<rparr> else m);
     (if fd_ok fd then Some (m\<lparr>nd_ndesc := (nd_ndesc m)(fd \<mapsto> a)\<rparr>) else None) }"

definition nd_detach :: "('c, 'v) ndmgr \<Rightarrow> nd_id \<Rightarrow> ('c, 'v) ndmgr option" where
  "nd_detach m nd = do {
     m \<leftarrow> nd_remove m nd;
     d \<leftarrow> nd_heap m nd;
     m \<leftarrow> nd_initfd m (nd_fd d);
     Some (m\<lparr>nd_heap := (nd_heap m)(nd := None), nd_do_gc := nd_do_gc m + 1\<rparr>) }"

definition nd_enable :: "('c, 'v) ndmgr \<Rightarrow> nd_id \<Rightarrow> u32 \<Rightarrow> ('c, 'v) ndmgr option" where
  "nd_enable m nd msk = do {
     m \<leftarrow> nd_upd m nd (\<lambda>d. d\<lparr>nd_mask := nd_mask d OR (msk AND ND_MASK)\<rparr>);
     d \<leftarrow> nd_heap m nd;
     let fd = nd_fd d;
     m \<leftarrow> Some (if has_flag msk ND_R then m\<lparr>nd_rfds := insert fd (nd_rfds m)\<rparr> else m);
     m \<leftarrow> Some (if has_flag msk ND_W then m\<lparr>nd_wfds := insert fd (nd_wfds m)\<rparr> else m);
     Some (if has_flag msk ND_X then m\<lparr>nd_xfds := insert fd (nd_xfds m)\<rparr> else m) }"

definition nd_disable :: "('c, 'v) ndmgr \<Rightarrow> nd_id \<Rightarrow> u32 \<Rightarrow> ('c, 'v) ndmgr option" where
  "nd_disable m nd msk = do {
     m \<leftarrow> nd_upd m nd (\<lambda>d. d\<lparr>nd_mask := nd_mask d AND NOT msk\<rparr>);
     d \<leftarrow> nd_heap m nd;
     let fd = nd_fd d;
     m \<leftarrow> Some (if has_flag msk ND_R then m\<lparr>nd_rfds := nd_rfds m - {fd}\<rparr> else m);
     m \<leftarrow> Some (if has_flag msk ND_W then m\<lparr>nd_wfds := nd_wfds m - {fd}\<rparr> else m);
     Some (if has_flag msk ND_X then m\<lparr>nd_xfds := nd_xfds m - {fd}\<rparr> else m) }"

text \<open>
  \<^verbatim>\<open>nd_gc\<close>.  \<open>dup\<close> takes the set of descriptors the process has open and returns the new one, or
  -1; \<open>K\<close> is that set.  The inner \<^verbatim>\<open>while\<close> skips unused numbers at the top.
\<close>

function nd_gc_skip :: "('c, 'v) ndmgr \<Rightarrow> ('c, 'v) ndmgr" where
  "nd_gc_skip m =
     (if nd_max_fd m < 0 then m
      else if nd_ndesc m (nd_max_fd m) = None then nd_gc_skip (m\<lparr>nd_max_fd := nd_max_fd m - 1\<rparr>)
      else m)"
  by pat_completeness auto
termination
  by (relation "measure (\<lambda>m. nat (nd_max_fd m + 1))") auto

declare nd_gc_skip.simps [simp del]

text \<open>One pass of the \<^verbatim>\<open>for (;;)\<close>: moving the topmost descriptor to the number \<open>fd\<close> below it.\<close>

definition nd_gc_move :: "('c, 'v) ndmgr \<Rightarrow> int \<Rightarrow> ('c, 'v) ndmgr option" where
  "nd_gc_move m fd = do {
     let top = nd_max_fd m;
     m \<leftarrow> Some (if top \<in> nd_rfds m then m\<lparr>nd_rfds := insert fd (nd_rfds m)\<rparr> else m);
     m \<leftarrow> Some (if top \<in> nd_wfds m then m\<lparr>nd_wfds := insert fd (nd_wfds m)\<rparr> else m);
     m \<leftarrow> Some (if top \<in> nd_xfds m then m\<lparr>nd_xfds := insert fd (nd_xfds m)\<rparr> else m);
     a \<leftarrow> nd_ndesc m top;
     m \<leftarrow> Some (m\<lparr>nd_ndesc := (nd_ndesc m)(fd \<mapsto> a)\<rparr>);
     m \<leftarrow> nd_upd m a (\<lambda>d. d\<lparr>nd_fd := fd\<rparr>);
     nd_initfd m top }"

partial_function (option) nd_gc_loop ::
  "(int set \<Rightarrow> int) \<Rightarrow> int set \<Rightarrow> ('c, 'v) ndmgr \<Rightarrow> ('c, 'v) ndmgr option" where
  "nd_gc_loop dup K m =
     (let m1 = nd_gc_skip m in
      if nd_max_fd m1 = -1 then Some m1
      else let fd = dup K in
        if fd = -1 then Some m1
        else if fd < nd_max_fd m1
             then nd_gc_move m1 fd \<bind> (\<lambda>m2. nd_gc_loop dup (insert fd K - {nd_max_fd m1}) m2)
             else Some m1)"

definition nd_gc :: "(int set \<Rightarrow> int) \<Rightarrow> int set \<Rightarrow> ('c, 'v) ndmgr \<Rightarrow> ('c, 'v) ndmgr option" where
  "nd_gc dup K m =
     (let m1 = m\<lparr>nd_do_gc := 0\<rparr> in if nd_max_fd m1 = -1 then Some m1 else nd_gc_loop dup K m1)"

text \<open>
  \<^verbatim>\<open>nd_select\<close>.  \<open>call f nd vp\<close> runs the callback \<open>f\<close> on the manager and the rest of the world
  \<open>'e\<close>; calling a null callback is \<^const>\<open>None\<close>.  \<open>xfds\<close>, \<open>wfds\<close>, \<open>rfds\<close> are the sets \<^verbatim>\<open>select()\<close>
  returned.
\<close>

type_synonym ('c, 'v, 'e) nd_call =
  "'c \<Rightarrow> nd_id \<Rightarrow> 'v \<Rightarrow> ('c, 'v) ndmgr \<times> 'e \<Rightarrow> (('c, 'v) ndmgr \<times> 'e) option"

definition nd_invoke ::
  "('c, 'v, 'e) nd_call \<Rightarrow> (('c, 'v) ndesc \<Rightarrow> 'c option) \<Rightarrow> nd_id \<Rightarrow> ('c, 'v) ndmgr \<times> 'e \<Rightarrow>
     (('c, 'v) ndmgr \<times> 'e) option" where
  "nd_invoke call sel nd w = do {
     d \<leftarrow> nd_heap (fst w) nd;
     f \<leftarrow> sel d;
     call f nd (nd_vp d) w }"

definition nd_serve ::
  "('c, 'v, 'e) nd_call \<Rightarrow> int set \<Rightarrow> int set \<Rightarrow> int set \<Rightarrow> nd_id \<Rightarrow> int \<Rightarrow> ('c, 'v) ndmgr \<times> 'e \<Rightarrow>
     (int \<times> ('c, 'v) ndmgr \<times> 'e) option" where
  "nd_serve call xfds wfds rfds nd nfds w = do {
     d \<leftarrow> nd_heap (fst w) nd;
     let fd = nd_fd d;
     w \<leftarrow> (if fd \<in> xfds then nd_invoke call nd_xfunc nd w else Some w);
     w \<leftarrow> (if fd \<in> wfds then nd_invoke call nd_wfunc nd w else Some w);
     w \<leftarrow> (if fd \<in> rfds then nd_invoke call nd_rfunc nd w else Some w);
     let nfds = nfds - (if fd \<in> xfds \<or> fd \<in> wfds \<or> fd \<in> rfds then 1 else 0);
     d \<leftarrow> nd_heap (fst w) nd;
     w \<leftarrow> (if has_flag (nd_mask d) ND_C then nd_invoke call nd_cfunc nd w else Some w);
     Some (nfds, w) }"

partial_function (option) nd_select_loop ::
  "('c, 'v, 'e) nd_call \<Rightarrow> int set \<Rightarrow> int set \<Rightarrow> int set \<Rightarrow> nd_id option \<Rightarrow> int \<Rightarrow>
     ('c, 'v) ndmgr \<times> 'e \<Rightarrow> (('c, 'v) ndmgr \<times> 'e) option" where
  "nd_select_loop call xfds wfds rfds nd nfds w =
     (case nd of
        None \<Rightarrow> Some w
      | Some a \<Rightarrow>
          (if nfds = 0 then Some w
           else nd_heap (fst w) a \<bind> (\<lambda>d.
             let next = nd_next d in
             if nd_mask d = 0 then nd_select_loop call xfds wfds rfds next nfds w
             else nd_serve call xfds wfds rfds a nfds w \<bind> (\<lambda>(nfds', w').
                    nd_select_loop call xfds wfds rfds next nfds' w'))))"

definition nd_select ::
  "('c, 'v, 'e) nd_call \<Rightarrow> (int \<Rightarrow> int set \<Rightarrow> int set \<Rightarrow> int set \<Rightarrow> int \<times> int set \<times> int set \<times> int set) \<Rightarrow>
     (int set \<Rightarrow> int) \<Rightarrow> int set \<Rightarrow> ('c, 'v) ndmgr \<times> 'e \<Rightarrow> (('c, 'v) ndmgr \<times> 'e) option" where
  "nd_select call sel dup K w =
     (let (m, e) = w;
          (nfds, rfds, wfds, xfds) = sel (nd_max_fd m + 1) (nd_rfds m) (nd_wfds m) (nd_xfds m)
      in if nfds = -1 then Some w
         else nd_select_loop call xfds wfds rfds (nd_head m) nfds w \<bind> (\<lambda>(m', e').
                if nd_do_gc m' \<noteq> 0 then map_option (\<lambda>m''. (m'', e')) (nd_gc dup K m')
                else Some (m', e')))"

partial_function (option) nd_shutdown_loop ::
  "('c, 'v, 'e) nd_call \<Rightarrow> nd_id option \<Rightarrow> ('c, 'v) ndmgr \<times> 'e \<Rightarrow> (('c, 'v) ndmgr \<times> 'e) option" where
  "nd_shutdown_loop call nd w =
     (case nd of
        None \<Rightarrow> Some w
      | Some a \<Rightarrow>
          nd_heap (fst w) a \<bind> (\<lambda>d.
            (if nd_sfunc d \<noteq> None then nd_invoke call nd_sfunc a w else Some w) \<bind> (\<lambda>w'.
              nd_shutdown_loop call (nd_next d) w')))"

definition nd_shutdown ::
  "('c, 'v, 'e) nd_call \<Rightarrow> (int \<Rightarrow> int set \<Rightarrow> int set \<Rightarrow> int set \<Rightarrow> int \<times> int set \<times> int set \<times> int set) \<Rightarrow>
     (int set \<Rightarrow> int) \<Rightarrow> int set \<Rightarrow> ('c, 'v) ndmgr \<times> 'e \<Rightarrow> (('c, 'v) ndmgr \<times> 'e) option" where
  "nd_shutdown call sel dup K w =
     nd_select call sel dup K w \<bind> (\<lambda>w'. nd_shutdown_loop call (nd_head (fst w')) w')"

section \<open>The linked list\<close>

text \<open>A segment of the list: what comes before it, its nodes, what comes after it.\<close>

fun dseg ::
  "(nd_id \<Rightarrow> ('c, 'v) ndesc option) \<Rightarrow> nd_id option \<Rightarrow> nd_id list \<Rightarrow> nd_id option \<Rightarrow> bool" where
  "dseg h p [] n \<longleftrightarrow> True"
| "dseg h p (x # xs) n \<longleftrightarrow>
     (\<exists>d. h x = Some d \<and> nd_prev d = p \<and> nd_next d = hdo xs n \<and> dseg h (Some x) xs n)"

definition nd_list :: "('c, 'v) ndmgr \<Rightarrow> nd_id list \<Rightarrow> bool" where
  "nd_list m xs \<longleftrightarrow> distinct xs \<and> nd_head m = hdo xs None \<and> nd_tail m = lasto None xs \<and>
     dseg (nd_heap m) None xs None"

lemma dseg_append:
  "dseg h p (xs @ ys) n \<longleftrightarrow> dseg h p xs (hdo ys n) \<and> dseg h (lasto p xs) ys n"
  by (induction xs arbitrary: p) (auto simp: hdo_append)

lemma dseg_cong:
  "(\<And>a. a \<in> set xs \<Longrightarrow> h' a = h a) \<Longrightarrow> dseg h' p xs n = dseg h p xs n"
  by (induction xs arbitrary: p) auto

lemma dseg_upd_other [simp]: "a \<notin> set xs \<Longrightarrow> dseg (h(a := v)) p xs n = dseg h p xs n"
  by (rule dseg_cong) auto

lemma dseg_defined: "dseg h p xs n \<Longrightarrow> a \<in> set xs \<Longrightarrow> \<exists>d. h a = Some d"
  by (induction xs arbitrary: p) auto

text \<open>Changes of fields other than the links.\<close>

lemma dseg_upd_data:
  assumes "h a = Some d" "nd_next d' = nd_next d" "nd_prev d' = nd_prev d"
  shows "dseg (h(a \<mapsto> d')) p xs n = dseg h p xs n"
  by (induction xs arbitrary: p) (use assms in auto)

text \<open>Relinking the successor of the last node, and the predecessor of the first.\<close>

lemma dseg_set_next:
  assumes "dseg h p (xs @ [l]) n" "l \<notin> set xs" "h l = Some d"
  shows "dseg (h(l \<mapsto> d\<lparr>nd_next := n'\<rparr>)) p (xs @ [l]) n'"
  using assms by (auto simp: dseg_append)

lemma dseg_set_prev:
  assumes "dseg h p (x # xs) n" "x \<notin> set xs" "h x = Some d"
  shows "dseg (h(x \<mapsto> d\<lparr>nd_prev := p'\<rparr>)) p' (x # xs) n"
  using assms by auto

lemma nd_upd_Some: "nd_heap m a = Some d \<Longrightarrow> nd_upd m a f = Some (m\<lparr>nd_heap := (nd_heap m)(a \<mapsto> f d)\<rparr>)"
  by (simp add: nd_upd_def)

text \<open>Everything in a descriptor but its links.\<close>

definition nd_data :: "('c, 'v) ndesc \<Rightarrow> int \<times> u32 \<times> 'c option list \<times> 'v" where
  "nd_data d = (nd_fd d, nd_mask d,
     [nd_rfunc d, nd_wfunc d, nd_xfunc d, nd_cfunc d, nd_sfunc d], nd_vp d)"

definition nd_same_data ::
  "(nd_id \<Rightarrow> ('c, 'v) ndesc option) \<Rightarrow> (nd_id \<Rightarrow> ('c, 'v) ndesc option) \<Rightarrow> bool" where
  "nd_same_data h h' \<longleftrightarrow> (\<forall>a. map_option nd_data (h a) = map_option nd_data (h' a))"

lemma nd_append_law:
  assumes l: "nd_list m xs" and a: "a \<notin> set xs" and d: "nd_heap m a = Some d"
  shows "\<exists>h. nd_append m a = Some (m\<lparr>nd_heap := h, nd_head := hdo (xs @ [a]) None, nd_tail := Some a\<rparr>) \<and>
     nd_list (m\<lparr>nd_heap := h, nd_head := hdo (xs @ [a]) None, nd_tail := Some a\<rparr>) (xs @ [a]) \<and>
     nd_same_data h (nd_heap m)"
proof (cases xs rule: rev_cases)
  case Nil
  with l d show ?thesis
    by (intro exI [of _ "(nd_heap m)(a \<mapsto> d\<lparr>nd_next := None, nd_prev := None\<rparr>)"])
      (auto simp: nd_append_def nd_upd_def nd_list_def nd_same_data_def nd_data_def)
next
  case (snoc ys t)
  from l snoc obtain dt where dt: "nd_heap m t = Some dt"
    by (auto simp: nd_list_def dseg_append)
  let ?da = "d\<lparr>nd_next := None, nd_prev := Some t\<rparr>"
  let ?h = "(nd_heap m)(a \<mapsto> ?da, t \<mapsto> dt\<lparr>nd_next := Some a\<rparr>)"
  from a snoc have ne: "t \<noteq> a" "t \<notin> set ys" using l by (auto simp: nd_list_def)
  have head: "nd_head m = hdo (xs @ [a]) None" using l snoc
    by (cases ys) (auto simp: nd_list_def)
  have eq: "nd_append m a = Some (m\<lparr>nd_heap := ?h, nd_head := hdo (xs @ [a]) None, nd_tail := Some a\<rparr>)"
    using l snoc d dt ne head by (simp add: nd_append_def nd_upd_def nd_list_def)
  have "dseg ((nd_heap m)(a \<mapsto> ?da)) None (ys @ [t]) None"
    using l snoc a by (simp add: nd_list_def)
  from dseg_set_next [OF this, of dt "Some a"] dt ne have "dseg ?h None (ys @ [t]) (Some a)"
    by simp
  then have "dseg ?h None (xs @ [a]) None"
    using snoc ne by (simp add: dseg_append)
  then have "nd_list (m\<lparr>nd_heap := ?h, nd_head := hdo (xs @ [a]) None, nd_tail := Some a\<rparr>) (xs @ [a])"
    using l a by (simp add: nd_list_def)
  moreover have "nd_same_data ?h (nd_heap m)"
    using d dt by (auto simp: nd_same_data_def nd_data_def)
  ultimately show ?thesis using eq by (intro exI [of _ ?h]) simp
qed

lemma nd_remove_law:
  assumes l: "nd_list m (ys @ a # zs)"
  shows "\<exists>h. nd_remove m a = Some (m\<lparr>nd_heap := h, nd_head := hdo (ys @ zs) None,
        nd_tail := lasto None (ys @ zs)\<rparr>) \<and>
     nd_list (m\<lparr>nd_heap := h, nd_head := hdo (ys @ zs) None, nd_tail := lasto None (ys @ zs)\<rparr>) (ys @ zs) \<and>
     nd_same_data h (nd_heap m)"
proof -
  let ?p = "lasto None ys" and ?n = "hdo zs None"
  from l have dist: "distinct (ys @ a # zs)" and seg: "dseg (nd_heap m) None (ys @ a # zs) None"
    and ends: "nd_head m = hdo (ys @ a # zs) None" "nd_tail m = lasto None (ys @ a # zs)"
    by (simp_all add: nd_list_def)
  from seg obtain da where da: "nd_heap m a = Some da" "nd_prev da = ?p" "nd_next da = ?n"
    and sy: "dseg (nd_heap m) None ys (Some a)" and sz: "dseg (nd_heap m) (Some a) zs None"
    by (auto simp: dseg_append)
  define h1 where "h1 = (case zs of [] \<Rightarrow> nd_heap m
    | z # _ \<Rightarrow> (nd_heap m)(z \<mapsto> (the (nd_heap m z))\<lparr>nd_prev := ?p\<rparr>))"
  define h2 where "h2 = (case ?p of None \<Rightarrow> h1 | Some y \<Rightarrow> h1(y \<mapsto> (the (h1 y))\<lparr>nd_next := ?n\<rparr>))"
  have h1a: "h1 b = nd_heap m b" if "b \<notin> set zs" for b
    using that by (auto simp: h1_def split: list.splits)
  have h1z: "dseg h1 ?p zs None"
    using sz dist by (cases zs) (auto simp: h1_def)
  have h1y: "dseg h1 None ys (Some a)"
    using sy dist h1a by (subst dseg_cong [of _ h1 "nd_heap m"]) auto
  have same1: "nd_same_data h1 (nd_heap m)"
    using sz by (cases zs) (auto simp: h1_def nd_same_data_def nd_data_def)
  have h2y: "dseg h2 None ys ?n"
  proof (cases ys rule: rev_cases)
    case (snoc ys' y)
    then obtain dy where dy: "h1 y = Some dy" using h1y by (auto simp: dseg_append)
    from dseg_set_next [OF h1y [unfolded snoc], of dy ?n] dy dist snoc show ?thesis
      by (simp add: h2_def)
  qed simp
  have h2z: "dseg h2 ?p zs None"
    using h1z dist by (cases ys rule: rev_cases) (simp_all add: h2_def)
  have same2: "nd_same_data h2 h1"
    using h1y by (cases ys rule: rev_cases)
      (auto simp: h2_def nd_same_data_def nd_data_def dseg_append)
  have r1: "(case ?n of Some n \<Rightarrow> nd_upd m n (\<lambda>x. x\<lparr>nd_prev := ?p\<rparr>) | None \<Rightarrow> Some (m\<lparr>nd_tail := ?p\<rparr>)) =
      Some (m\<lparr>nd_heap := h1, nd_tail := lasto None (ys @ zs)\<rparr>)"
    using sz ends by (cases zs) (auto simp: h1_def nd_upd_def lasto_append)
  have r2: "(case ?p of Some p \<Rightarrow> nd_upd (m\<lparr>nd_heap := h1, nd_tail := t\<rparr>) p (\<lambda>x. x\<lparr>nd_next := ?n\<rparr>)
        | None \<Rightarrow> Some (m\<lparr>nd_heap := h1, nd_tail := t, nd_head := ?n\<rparr>)) =
      Some (m\<lparr>nd_heap := h2, nd_head := hdo (ys @ zs) None, nd_tail := t\<rparr>)" for t
  proof (cases ys rule: rev_cases)
    case Nil
    then show ?thesis by (simp add: h2_def)
  next
    case (snoc ys' y)
    then obtain dy where dy: "h1 y = Some dy" using h1y by (auto simp: dseg_append)
    have "nd_head m = hdo (ys @ zs) None" using ends snoc by (simp add: hdo_append)
    then show ?thesis using snoc dy by (simp add: h2_def nd_upd_def)
  qed
  have h1da: "nd_heap (m\<lparr>nd_heap := h1, nd_tail := lasto None (ys @ zs)\<rparr>) a = Some da"
    using da h1a dist by simp
  have eq: "nd_remove m a = Some (m\<lparr>nd_heap := h2, nd_head := hdo (ys @ zs) None,
      nd_tail := lasto None (ys @ zs)\<rparr>)"
    unfolding nd_remove_def by (simp only: da Option.bind.simps r1 h1da r2)
  have "nd_list (m\<lparr>nd_heap := h2, nd_head := hdo (ys @ zs) None, nd_tail := lasto None (ys @ zs)\<rparr>) (ys @ zs)"
    using h2y h2z dist by (simp add: nd_list_def dseg_append)
  with eq same1 same2 show ?thesis by (intro exI [of _ h2]) (simp add: nd_same_data_def)
qed

section \<open>The invariant of the manager\<close>

text \<open>
  An attached descriptor's number is a valid index, is at most \<^verbatim>\<open>nd_max_fd\<close>, leads back to the
  descriptor through \<^verbatim>\<open>nd_ndesc\<close>, and is in each \<^verbatim>\<open>fd_set\<close> exactly when its mask says so.
\<close>

definition nd_entry_ok :: "('c, 'v) ndmgr \<Rightarrow> nd_id \<Rightarrow> int \<Rightarrow> u32 \<Rightarrow> bool" where
  "nd_entry_ok m a fd mk \<longleftrightarrow> fd_ok fd \<and> fd \<le> nd_max_fd m \<and> nd_ndesc m fd = Some a \<and>
     (fd \<in> nd_rfds m \<longleftrightarrow> has_flag mk ND_R) \<and> (fd \<in> nd_wfds m \<longleftrightarrow> has_flag mk ND_W) \<and>
     (fd \<in> nd_xfds m \<longleftrightarrow> has_flag mk ND_X)"

definition nd_view :: "(nd_id \<Rightarrow> ('c, 'v) ndesc option) \<Rightarrow> nd_id \<Rightarrow> (int \<times> u32) option" where
  "nd_view h a = map_option (\<lambda>d. (nd_fd d, nd_mask d)) (h a)"

definition nd_reg :: "('c, 'v) ndmgr \<Rightarrow> bool" where
  "nd_reg m \<longleftrightarrow> -1 \<le> nd_max_fd m \<and>
     (\<forall>a fd mk. nd_view (nd_heap m) a = Some (fd, mk) \<longrightarrow> nd_entry_ok m a fd mk) \<and>
     (\<forall>fd a. nd_ndesc m fd = Some a \<longrightarrow> (\<exists>mk. nd_view (nd_heap m) a = Some (fd, mk))) \<and>
     nd_rfds m \<union> nd_wfds m \<union> nd_xfds m \<subseteq> {fd. nd_ndesc m fd \<noteq> None}"

definition nd_ok :: "('c, 'v) ndmgr \<Rightarrow> nd_id list \<Rightarrow> bool" where
  "nd_ok m xs \<longleftrightarrow> nd_list m xs \<and> dom (nd_heap m) = set xs \<and> nd_reg m"

lemma nd_view_upd [simp]: "nd_view (h(a \<mapsto> d)) = (nd_view h)(a \<mapsto> (nd_fd d, nd_mask d))"
  "nd_view (h(a := None)) = (nd_view h)(a := None)"
  by (auto simp: nd_view_def)

lemma nd_view_None: "nd_view h a = None \<longleftrightarrow> h a = None"
  by (simp add: nd_view_def)

lemma dom_nd_view: "dom (nd_view h) = dom h"
  by (auto simp: nd_view_def)

lemma nd_same_data_view: "nd_same_data h h' \<Longrightarrow> nd_view h = nd_view h'"
proof
  fix a
  assume "nd_same_data h h'"
  then have "map_option nd_data (h a) = map_option nd_data (h' a)" by (simp add: nd_same_data_def)
  then show "nd_view h a = nd_view h' a"
    by (cases "h a"; cases "h' a") (auto simp: nd_view_def nd_data_def)
qed

lemma nd_ok_init: "nd_ok nd_init []"
  by (simp add: nd_ok_def nd_init_def nd_list_def nd_reg_def nd_view_def)

lemma nd_regD:
  assumes "nd_reg m"
  shows "nd_view (nd_heap m) a = Some (fd, mk) \<Longrightarrow> nd_entry_ok m a fd mk"
    and "nd_ndesc m fd = Some a \<Longrightarrow> \<exists>mk. nd_view (nd_heap m) a = Some (fd, mk)"
    and "nd_ndesc m fd = None \<Longrightarrow> fd \<notin> nd_rfds m \<and> fd \<notin> nd_wfds m \<and> fd \<notin> nd_xfds m"
    and "-1 \<le> nd_max_fd m"
  using assms by (auto simp: nd_reg_def)

lemma nd_reg_attach:
  assumes r: "nd_reg m" and fresh: "nd_view (nd_heap m) a = None" and fd: "fd_ok fd" "nd_ndesc m fd = None"
    and m': "nd_view (nd_heap m') = (nd_view (nd_heap m))(a \<mapsto> (fd, 0))"
      "nd_rfds m' = nd_rfds m" "nd_wfds m' = nd_wfds m" "nd_xfds m' = nd_xfds m"
      "nd_ndesc m' = (nd_ndesc m)(fd \<mapsto> a)" "nd_max_fd m' = max (nd_max_fd m) fd"
  shows "nd_reg m'"
  unfolding nd_reg_def
proof (intro conjI allI impI)
  fix b g mk
  assume v: "nd_view (nd_heap m') b = Some (g, mk)"
  show "nd_entry_ok m' b g mk"
  proof (cases "b = a")
    case True
    with v m' have "g = fd" "mk = 0" by simp_all
    with True nd_regD(3) [OF r fd(2)] fd(1) m' show ?thesis
      by (simp add: nd_entry_ok_def)
  next
    case False
    with v m' have e: "nd_entry_ok m b g mk" using nd_regD(1) [OF r] by simp
    then have "g \<noteq> fd" using fd(2) by (auto simp: nd_entry_ok_def)
    with e m' show ?thesis by (auto simp: nd_entry_ok_def)
  qed
next
  fix g b
  assume "nd_ndesc m' g = Some b"
  then show "\<exists>mk. nd_view (nd_heap m') b = Some (g, mk)"
    using nd_regD(2) [OF r, of g b] fresh m' by (auto split: if_splits)
next
  show "-1 \<le> nd_max_fd m'" using nd_regD(4) [OF r] m' by simp
next
  show "nd_rfds m' \<union> nd_wfds m' \<union> nd_xfds m' \<subseteq> {fd. nd_ndesc m' fd \<noteq> None}"
    using r m' by (auto simp: nd_reg_def)
qed

lemma nd_attach_law:
  assumes ok: "nd_ok m xs" and fresh: "nd_heap m a = None" and fd: "fd_ok fd" "nd_ndesc m fd = None"
  shows "\<exists>m'. nd_attach m a fd r w x c s vp = Some m' \<and> nd_ok m' (xs @ [a])"
proof -
  let ?d = "\<lparr>nd_fd = fd, nd_mask = 0, nd_rfunc = r, nd_wfunc = w, nd_xfunc = x,
             nd_cfunc = c, nd_sfunc = s, nd_vp = vp, nd_next = None, nd_prev = None\<rparr>"
  let ?m1 = "m\<lparr>nd_heap := (nd_heap m)(a \<mapsto> ?d)\<rparr>"
  from ok fresh have a: "a \<notin> set xs" by (auto simp: nd_ok_def)
  with ok have l1: "nd_list ?m1 xs" by (simp add: nd_ok_def nd_list_def)
  obtain h where h: "nd_append ?m1 a = Some (?m1\<lparr>nd_heap := h, nd_head := hdo (xs @ [a]) None, nd_tail := Some a\<rparr>)"
    "nd_list (?m1\<lparr>nd_heap := h, nd_head := hdo (xs @ [a]) None, nd_tail := Some a\<rparr>) (xs @ [a])"
    "nd_same_data h (nd_heap ?m1)"
    using nd_append_law [OF l1 a, of ?d] by auto
  let ?m2 = "?m1\<lparr>nd_heap := h, nd_head := hdo (xs @ [a]) None, nd_tail := Some a\<rparr>"
  let ?m3 = "if nd_max_fd ?m2 < fd then ?m2\<lparr>nd_max_fd := fd\<rparr> else ?m2"
  let ?m4 = "?m3\<lparr>nd_ndesc := (nd_ndesc ?m3)(fd \<mapsto> a)\<rparr>"
  have eq: "nd_attach m a fd r w x c s vp = Some ?m4"
    using h(1) fd(1) by (simp add: nd_attach_def)
  have v: "nd_view h = (nd_view (nd_heap m))(a \<mapsto> (fd, 0))"
    using nd_same_data_view [OF h(3)] by simp
  have "nd_reg ?m4"
    by (rule nd_reg_attach [of m a fd]) (use ok fresh fd v in \<open>simp_all add: nd_ok_def nd_view_None max_def\<close>)
  moreover have "nd_list ?m4 (xs @ [a])" using h(2) by (simp add: nd_list_def)
  moreover have "dom h = set (xs @ [a])"
    using v ok by (simp flip: dom_nd_view add: nd_ok_def)
  ultimately have "nd_ok ?m4 (xs @ [a])" by (simp add: nd_ok_def)
  with eq show ?thesis by blast
qed

lemma nd_detach_law:
  assumes ok: "nd_ok m (ys @ a # zs)"
  shows "\<exists>m'. nd_detach m a = Some m' \<and> nd_ok m' (ys @ zs) \<and> nd_heap m' a = None \<and>
     nd_do_gc m' = nd_do_gc m + 1"
proof -
  obtain h where h: "nd_remove m a = Some (m\<lparr>nd_heap := h, nd_head := hdo (ys @ zs) None, nd_tail := lasto None (ys @ zs)\<rparr>)"
    "nd_list (m\<lparr>nd_heap := h, nd_head := hdo (ys @ zs) None, nd_tail := lasto None (ys @ zs)\<rparr>) (ys @ zs)"
    "nd_same_data h (nd_heap m)"
    using nd_remove_law [of m ys a zs] ok by (auto simp: nd_ok_def)
  let ?m1 = "m\<lparr>nd_heap := h, nd_head := hdo (ys @ zs) None, nd_tail := lasto None (ys @ zs)\<rparr>"
  have v: "nd_view h = nd_view (nd_heap m)" by (rule nd_same_data_view [OF h(3)])
  have dom: "dom h = set (ys @ a # zs)"
    using ok v by (metis dom_nd_view nd_ok_def)
  then obtain d where d: "h a = Some d" by force
  then have va: "nd_view (nd_heap m) a = Some (nd_fd d, nd_mask d)"
    by (simp flip: v) (simp add: nd_view_def)
  have r: "nd_reg m" using ok by (simp add: nd_ok_def)
  have e: "nd_entry_ok m a (nd_fd d) (nd_mask d)" using nd_regD(1) [OF r va] .
  let ?m2 = "?m1\<lparr>nd_rfds := nd_rfds m - {nd_fd d}, nd_wfds := nd_wfds m - {nd_fd d},
    nd_xfds := nd_xfds m - {nd_fd d}, nd_ndesc := (nd_ndesc m)(nd_fd d := None),
    nd_heap := h(a := None), nd_do_gc := nd_do_gc m + 1\<rparr>"
  have eq: "nd_detach m a = Some ?m2"
    using h(1) d e by (simp add: nd_detach_def nd_initfd_def nd_entry_ok_def)
  have a: "a \<notin> set (ys @ zs)" using ok by (auto simp: nd_ok_def nd_list_def)
  have l: "nd_list ?m2 (ys @ zs)" using h(2) a by (simp add: nd_list_def)
  have dm: "dom (nd_heap ?m2) = set (ys @ zs)" using dom a by auto
  have owner: "g \<noteq> nd_fd d" if "nd_view (nd_heap m) b = Some (g, mk)" "b \<noteq> a" for b g mk
    using nd_regD(1) [OF r that(1)] e that(2) by (auto simp: nd_entry_ok_def)
  have "nd_reg ?m2"
    unfolding nd_reg_def
  proof (intro conjI allI impI)
    fix b g mk assume "nd_view (nd_heap ?m2) b = Some (g, mk)"
    then have "b \<noteq> a" "nd_view (nd_heap m) b = Some (g, mk)" by (auto simp: v split: if_splits)
    with owner nd_regD(1) [OF r] show "nd_entry_ok ?m2 b g mk" by (auto simp: nd_entry_ok_def)
  next
    fix g b assume "nd_ndesc ?m2 g = Some b"
    then have g: "g \<noteq> nd_fd d" "nd_ndesc m g = Some b" by (auto split: if_splits)
    with nd_regD(2) [OF r g(2)] va show "\<exists>mk. nd_view (nd_heap ?m2) b = Some (g, mk)"
      by (auto simp: v)
  next
    show "-1 \<le> nd_max_fd ?m2" using nd_regD(4) [OF r] by simp
  next
    show "nd_rfds ?m2 \<union> nd_wfds ?m2 \<union> nd_xfds ?m2 \<subseteq> {fd. nd_ndesc ?m2 fd \<noteq> None}"
      using r by (auto simp: nd_reg_def)
  qed
  with eq l dm show ?thesis by (auto simp: nd_ok_def)
qed

lemma nd_upd_reg:
  assumes ok: "nd_ok m xs" and v: "nd_view (nd_heap m) a = Some (fd, mk)"
    and h: "nd_heap m a = Some d"
    and R: "R = (if has_flag mk' ND_R then insert fd (nd_rfds m) else nd_rfds m - {fd})"
    and W: "W = (if has_flag mk' ND_W then insert fd (nd_wfds m) else nd_wfds m - {fd})"
    and X: "X = (if has_flag mk' ND_X then insert fd (nd_xfds m) else nd_xfds m - {fd})"
  shows "nd_ok (m\<lparr>nd_heap := (nd_heap m)(a \<mapsto> d\<lparr>nd_mask := mk'\<rparr>), nd_rfds := R, nd_wfds := W, nd_xfds := X\<rparr>) xs"
    (is "nd_ok ?m xs")
proof -
  have r: "nd_reg m" and l: "nd_list m xs" and dm: "dom (nd_heap m) = set xs"
    using ok by (simp_all add: nd_ok_def)
  have fd: "nd_fd d = fd" using v h by (simp add: nd_view_def)
  have e: "nd_entry_ok m a fd mk" using nd_regD(1) [OF r v] .
  have "nd_list ?m xs" using l dseg_upd_data [where h = "nd_heap m" and a = a, OF h] by (simp add: nd_list_def)
  moreover have "dom (nd_heap ?m) = set xs" using dm h by auto
  moreover have "nd_reg ?m"
    unfolding nd_reg_def
  proof (intro conjI allI impI)
    fix b g mk2 assume b: "nd_view (nd_heap ?m) b = Some (g, mk2)"
    show "nd_entry_ok ?m b g mk2"
    proof (cases "b = a")
      case True
      with b e fd R W X show ?thesis by (simp add: nd_entry_ok_def)
    next
      case False
      with b have "nd_entry_ok m b g mk2" using nd_regD(1) [OF r] by simp
      moreover from this e False have "g \<noteq> fd" by (auto simp: nd_entry_ok_def)
      ultimately show ?thesis using R W X by (simp add: nd_entry_ok_def)
    qed
  next
    fix g b assume "nd_ndesc ?m g = Some b"
    with nd_regD(2) [OF r, of g b] v fd show "\<exists>mk. nd_view (nd_heap ?m) b = Some (g, mk)" by auto
  next
    show "-1 \<le> nd_max_fd ?m" using nd_regD(4) [OF r] by simp
  next
    show "nd_rfds ?m \<union> nd_wfds ?m \<union> nd_xfds ?m \<subseteq> {fd. nd_ndesc ?m fd \<noteq> None}"
      using r R W X e by (auto simp: nd_reg_def nd_entry_ok_def split: if_splits)
  qed
  ultimately show ?thesis by (simp add: nd_ok_def)
qed

lemma nd_flag_bits:
  "has_flag f ND_R \<longleftrightarrow> bit f 0" "has_flag f ND_W \<longleftrightarrow> bit f 1"
  "has_flag f ND_X \<longleftrightarrow> bit f 2" "has_flag f ND_C \<longleftrightarrow> bit f 3"
  using and_exp_eq_0_iff_not_bit [of f 0] and_exp_eq_0_iff_not_bit [of f 1]
    and_exp_eq_0_iff_not_bit [of f 2] and_exp_eq_0_iff_not_bit [of f 3]
  by (simp_all add: has_flag_def nd_masks)

lemma nd_mask_bits: "n < 4 \<Longrightarrow> bit (k AND ND_MASK) n \<longleftrightarrow> bit k n"
proof -
  assume n: "n < 4"
  then have "n = 0 \<or> n = 1 \<or> n = 2 \<or> n = 3" by arith
  then have "bit ND_MASK n" by (auto simp: ND_MASK_def)
  then show ?thesis by (simp add: bit_and_iff)
qed

lemma nd_ok_entry: "nd_ok m xs \<Longrightarrow> a \<in> set xs \<Longrightarrow> \<exists>d. nd_heap m a = Some d"
  by (auto simp: nd_ok_def)

lemma nd_enable_law:
  assumes ok: "nd_ok m xs" and h: "nd_heap m a = Some d"
  shows "\<exists>m'. nd_enable m a k = Some m' \<and> nd_ok m' xs \<and>
     nd_heap m' = (nd_heap m)(a \<mapsto> d\<lparr>nd_mask := nd_mask d OR (k AND ND_MASK)\<rparr>)"
proof -
  let ?mk = "nd_mask d OR (k AND ND_MASK)"
  have v: "nd_view (nd_heap m) a = Some (nd_fd d, nd_mask d)" using h by (simp add: nd_view_def)
  have e: "nd_entry_ok m a (nd_fd d) (nd_mask d)"
    using ok nd_regD(1) [OF _ v] by (simp add: nd_ok_def)
  let ?R = "if has_flag k ND_R then insert (nd_fd d) (nd_rfds m) else nd_rfds m"
  let ?W = "if has_flag k ND_W then insert (nd_fd d) (nd_wfds m) else nd_wfds m"
  let ?X = "if has_flag k ND_X then insert (nd_fd d) (nd_xfds m) else nd_xfds m"
  let ?m = "m\<lparr>nd_heap := (nd_heap m)(a \<mapsto> d\<lparr>nd_mask := ?mk\<rparr>), nd_rfds := ?R, nd_wfds := ?W, nd_xfds := ?X\<rparr>"
  have "nd_enable m a k = Some ?m"
    using h by (simp add: nd_enable_def nd_upd_def Let_def)
  moreover have "nd_ok ?m xs"
    by (rule nd_upd_reg [OF ok v h])
      (use e in \<open>auto simp: nd_entry_ok_def nd_flag_bits bit_or_iff nd_mask_bits\<close>)
  ultimately show ?thesis by simp
qed

lemma nd_disable_law:
  assumes ok: "nd_ok m xs" and h: "nd_heap m a = Some d"
  shows "\<exists>m'. nd_disable m a k = Some m' \<and> nd_ok m' xs \<and>
     nd_heap m' = (nd_heap m)(a \<mapsto> d\<lparr>nd_mask := nd_mask d AND NOT k\<rparr>)"
proof -
  let ?mk = "nd_mask d AND NOT k"
  have v: "nd_view (nd_heap m) a = Some (nd_fd d, nd_mask d)" using h by (simp add: nd_view_def)
  have e: "nd_entry_ok m a (nd_fd d) (nd_mask d)"
    using ok nd_regD(1) [OF _ v] by (simp add: nd_ok_def)
  let ?R = "if has_flag k ND_R then nd_rfds m - {nd_fd d} else nd_rfds m"
  let ?W = "if has_flag k ND_W then nd_wfds m - {nd_fd d} else nd_wfds m"
  let ?X = "if has_flag k ND_X then nd_xfds m - {nd_fd d} else nd_xfds m"
  let ?m = "m\<lparr>nd_heap := (nd_heap m)(a \<mapsto> d\<lparr>nd_mask := ?mk\<rparr>), nd_rfds := ?R, nd_wfds := ?W, nd_xfds := ?X\<rparr>"
  have "nd_disable m a k = Some ?m"
    using h by (simp add: nd_disable_def nd_upd_def Let_def)
  moreover have "nd_ok ?m xs"
    by (rule nd_upd_reg [OF ok v h])
      (use e in \<open>auto simp: nd_entry_ok_def nd_flag_bits bit_and_iff bit_not_iff\<close>)
  ultimately show ?thesis by simp
qed

section \<open>Garbage collection of descriptor numbers\<close>

text \<open>What \<^verbatim>\<open>dup(2)\<close> promises: -1, or a number that was not open.\<close>

definition dup_ok :: "(int set \<Rightarrow> int) \<Rightarrow> bool" where
  "dup_ok dup \<longleftrightarrow> (\<forall>K. dup K = -1 \<or> (0 \<le> dup K \<and> dup K \<notin> K))"

definition nd_fds :: "('c, 'v) ndmgr \<Rightarrow> int set" where
  "nd_fds m = {fd. nd_ndesc m fd \<noteq> None}"

lemma nd_reg_max:
  assumes "nd_reg m" "\<And>fd. nd_ndesc m fd \<noteq> None \<Longrightarrow> fd \<le> k" "-1 \<le> k"
  shows "nd_reg (m\<lparr>nd_max_fd := k\<rparr>)"
  using assms by (auto simp: nd_reg_def nd_entry_ok_def)

lemma nd_ok_fd_bound: "nd_ok m xs \<Longrightarrow> nd_ndesc m fd = Some a \<Longrightarrow> fd_ok fd \<and> fd \<le> nd_max_fd m"
  using nd_regD(1,2) [of m] by (fastforce simp: nd_ok_def nd_entry_ok_def)

lemma nd_gc_skip_law:
  assumes "nd_ok m xs"
  shows "nd_ok (nd_gc_skip m) xs \<and> nd_heap (nd_gc_skip m) = nd_heap m \<and>
     nd_ndesc (nd_gc_skip m) = nd_ndesc m \<and> nd_max_fd (nd_gc_skip m) \<le> nd_max_fd m \<and>
     (nd_max_fd (nd_gc_skip m) = -1 \<or> nd_ndesc m (nd_max_fd (nd_gc_skip m)) \<noteq> None)"
  using assms
proof (induction m rule: nd_gc_skip.induct)
  case (1 m)
  have r: "-1 \<le> nd_max_fd m" using 1(2) nd_regD(4) by (auto simp: nd_ok_def)
  show ?case
  proof (cases "nd_max_fd m < 0 \<or> nd_ndesc m (nd_max_fd m) \<noteq> None")
    case True
    then have "nd_gc_skip m = m" by (auto simp: nd_gc_skip.simps [of m])
    with True 1(2) r show ?thesis by auto
  next
    case False
    let ?m = "m\<lparr>nd_max_fd := nd_max_fd m - 1\<rparr>"
    have "fd \<le> nd_max_fd m - 1" if "nd_ndesc m fd \<noteq> None" for fd
      using nd_ok_fd_bound [OF 1(2)] that False by (cases "fd = nd_max_fd m") force+
    then have "nd_ok ?m xs"
      using 1(2) False nd_reg_max [of m "nd_max_fd m - 1"] by (auto simp: nd_ok_def nd_list_def)
    with 1(1) False show ?thesis by (auto simp: nd_gc_skip.simps [of m])
  qed
qed

lemma nd_gc_move_law:
  assumes ok: "nd_ok m xs" and top: "nd_ndesc m (nd_max_fd m) = Some a"
    and fd: "0 \<le> fd" "fd < nd_max_fd m" "nd_ndesc m fd = None"
  shows "\<exists>m' d. nd_gc_move m fd = Some m' \<and> nd_ok m' xs \<and> nd_heap m a = Some d \<and>
     nd_heap m' = (nd_heap m)(a \<mapsto> d\<lparr>nd_fd := fd\<rparr>) \<and>
     nd_max_fd m' = nd_max_fd m \<and> nd_ndesc m' = (nd_ndesc m)(fd \<mapsto> a, nd_max_fd m := None)"
proof -
  let ?t = "nd_max_fd m"
  have r: "nd_reg m" using ok by (simp add: nd_ok_def)
  obtain d where d: "nd_heap m a = Some d" "nd_fd d = ?t"
    using nd_regD(2) [OF r top] by (auto simp: nd_view_def)
  have va: "nd_view (nd_heap m) a = Some (?t, nd_mask d)" using d by (simp add: nd_view_def)
  have e: "nd_entry_ok m a ?t (nd_mask d)" using nd_regD(1) [OF r va] .
  let ?mv = "\<lambda>S. (if ?t \<in> S then insert fd S else S) - {?t}"
  let ?m = "m\<lparr>nd_rfds := ?mv (nd_rfds m), nd_wfds := ?mv (nd_wfds m), nd_xfds := ?mv (nd_xfds m),
    nd_ndesc := (nd_ndesc m)(fd \<mapsto> a, ?t := None), nd_heap := (nd_heap m)(a \<mapsto> d\<lparr>nd_fd := fd\<rparr>)\<rparr>"
  have eq: "nd_gc_move m fd = Some ?m"
    using e d top by (simp add: nd_gc_move_def nd_upd_def nd_initfd_def nd_entry_ok_def Let_def)
  have "nd_list ?m xs"
    using ok dseg_upd_data [where h = "nd_heap m" and a = a, OF d(1)] by (simp add: nd_ok_def nd_list_def)
  moreover have "dom (nd_heap ?m) = set xs" using ok d by (auto simp: nd_ok_def)
  moreover have "nd_reg ?m"
    unfolding nd_reg_def
  proof (intro conjI allI impI)
    fix b g mk assume b: "nd_view (nd_heap ?m) b = Some (g, mk)"
    show "nd_entry_ok ?m b g mk"
    proof (cases "b = a")
      case True
      with b e fd nd_regD(3) [OF r fd(3)] show ?thesis by (auto simp: nd_entry_ok_def fd_ok_def)
    next
      case False
      with b have b': "nd_entry_ok m b g mk" using nd_regD(1) [OF r] by simp
      then have "g \<noteq> ?t" "g \<noteq> fd" using False top fd(3) by (auto simp: nd_entry_ok_def)
      with b' show ?thesis by (simp add: nd_entry_ok_def)
    qed
  next
    fix g b assume "nd_ndesc ?m g = Some b"
    with nd_regD(2) [OF r, of g b] va show "\<exists>mk. nd_view (nd_heap ?m) b = Some (g, mk)"
      by (auto split: if_splits)
  next
    show "-1 \<le> nd_max_fd ?m" using nd_regD(4) [OF r] by simp
  next
    show "nd_rfds ?m \<union> nd_wfds ?m \<union> nd_xfds ?m \<subseteq> {fd. nd_ndesc ?m fd \<noteq> None}"
      using r by (auto simp: nd_reg_def)
  qed
  ultimately have "nd_ok ?m xs" by (simp add: nd_ok_def)
  with eq d show ?thesis by auto
qed

text \<open>Only the descriptor numbers change.\<close>

definition nd_moved :: "('c, 'v) ndmgr \<Rightarrow> ('c, 'v) ndmgr \<Rightarrow> bool" where
  "nd_moved m m' \<longleftrightarrow>
     (\<forall>a. map_option (\<lambda>d. d\<lparr>nd_fd := 0\<rparr>) (nd_heap m' a) = map_option (\<lambda>d. d\<lparr>nd_fd := 0\<rparr>) (nd_heap m a))"

lemma nd_gc_loop_law:
  assumes "nd_ok m xs" "dup_ok dup" "nd_fds m \<subseteq> K"
  shows "\<exists>m'. nd_gc_loop dup K m = Some m' \<and> nd_ok m' xs \<and> nd_moved m m'"
  using assms
proof (induction "2 * nat (nd_max_fd m + 1) + (if nd_ndesc m (nd_max_fd m) = None then 0 else 1)"
    arbitrary: m K rule: less_induct)
  case less
  let ?m1 = "nd_gc_skip m"
  note S = nd_gc_skip_law [OF less.prems(1)]
  then have ok1: "nd_ok ?m1 xs" by blast
  have mv: "nd_moved m ?m1" using S by (simp add: nd_moved_def)
  show ?case
  proof (cases "nd_max_fd ?m1 = -1 \<or> dup K = -1 \<or> \<not> dup K < nd_max_fd ?m1")
    case True
    then have "nd_gc_loop dup K m = Some ?m1" by (auto simp: nd_gc_loop.simps [of dup K m] Let_def)
    with ok1 mv show ?thesis by blast
  next
    case False
    from S False obtain a where a: "nd_ndesc ?m1 (nd_max_fd ?m1) = Some a" by auto
    have dk: "0 \<le> dup K" "dup K \<notin> K" using less.prems(2) False by (auto simp: dup_ok_def)
    then have "nd_ndesc ?m1 (dup K) = None" using less.prems(3) S by (auto simp: nd_fds_def)
    then obtain m2 d where m2: "nd_gc_move ?m1 (dup K) = Some m2" "nd_ok m2 xs"
      "nd_heap ?m1 a = Some d" "nd_heap m2 = (nd_heap ?m1)(a \<mapsto> d\<lparr>nd_fd := dup K\<rparr>)"
      "nd_max_fd m2 = nd_max_fd ?m1"
      "nd_ndesc m2 = (nd_ndesc ?m1)(dup K \<mapsto> a, nd_max_fd ?m1 := None)"
      using nd_gc_move_law [OF ok1 a dk(1)] False by blast
    let ?K = "insert (dup K) K - {nd_max_fd ?m1}"
    have lt: "2 * nat (nd_max_fd m2 + 1) + (if nd_ndesc m2 (nd_max_fd m2) = None then 0 else 1) <
        2 * nat (nd_max_fd m + 1) + (if nd_ndesc m (nd_max_fd m) = None then 0 else 1)"
      using S a m2(5,6) dk(1) False by (cases "nd_max_fd ?m1 = nd_max_fd m") auto
    have sub: "nd_fds m2 \<subseteq> ?K" using less.prems(3) S m2(6) by (auto simp: nd_fds_def split: if_splits)
    obtain m3 where m3: "nd_gc_loop dup ?K m2 = Some m3" "nd_ok m3 xs" "nd_moved m2 m3"
      using less.hyps [OF lt m2(2) less.prems(2) sub] by blast
    have "nd_gc_loop dup K m = Some m3"
      using False m2(1) m3(1) by (subst nd_gc_loop.simps) (simp add: Let_def)
    moreover have "nd_moved m m3" using m3(3) m2(3,4) S by (auto simp: nd_moved_def)
    ultimately show ?thesis using m3(2) by blast
  qed
qed

section \<open>Dispatch\<close>

text \<open>
  The order of the callbacks, observed through callbacks that only record themselves.  The
  specification walks the descriptors in the order they were attached, skips those with an empty
  mask, and stops as soon as all ready descriptors have been served.
\<close>

definition nd_record :: "('c, 'v, ('c \<times> nd_id) list) nd_call" where
  "nd_record f nd vp w = Some (fst w, snd w @ [(f, nd)])"

definition nd_ready :: "int set \<Rightarrow> int set \<Rightarrow> int set \<Rightarrow> int \<Rightarrow> bool" where
  "nd_ready xfds wfds rfds fd \<longleftrightarrow> fd \<in> xfds \<or> fd \<in> wfds \<or> fd \<in> rfds"

definition nd_events ::
  "int set \<Rightarrow> int set \<Rightarrow> int set \<Rightarrow> nd_id \<Rightarrow> ('c, 'v) ndesc \<Rightarrow> ('c \<times> nd_id) list" where
  "nd_events xfds wfds rfds a d =
     (let ev = (\<lambda>f. map (\<lambda>c. (c, a)) (case f of None \<Rightarrow> [] | Some c \<Rightarrow> [c]))
      in (if nd_fd d \<in> xfds then ev (nd_xfunc d) else []) @ (if nd_fd d \<in> wfds then ev (nd_wfunc d) else []) @
         (if nd_fd d \<in> rfds then ev (nd_rfunc d) else []) @
         (if has_flag (nd_mask d) ND_C then ev (nd_cfunc d) else []))"

fun nd_schedule ::
  "int set \<Rightarrow> int set \<Rightarrow> int set \<Rightarrow> (nd_id \<times> ('c, 'v) ndesc) list \<Rightarrow> int \<Rightarrow> ('c \<times> nd_id) list" where
  "nd_schedule xfds wfds rfds [] nfds = []"
| "nd_schedule xfds wfds rfds ((a, d) # ds) nfds =
     (if nfds = 0 then []
      else if nd_mask d = 0 then nd_schedule xfds wfds rfds ds nfds
      else nd_events xfds wfds rfds a d @
           nd_schedule xfds wfds rfds ds (nfds - (if nd_ready xfds wfds rfds (nd_fd d) then 1 else 0)))"

text \<open>No null callback is armed: the descriptor has a function for whatever \<^verbatim>\<open>select()\<close> may report.\<close>

definition nd_funcs_ok :: "int set \<Rightarrow> int set \<Rightarrow> int set \<Rightarrow> ('c, 'v) ndesc \<Rightarrow> bool" where
  "nd_funcs_ok xfds wfds rfds d \<longleftrightarrow>
     (nd_fd d \<in> xfds \<longrightarrow> nd_xfunc d \<noteq> None) \<and> (nd_fd d \<in> wfds \<longrightarrow> nd_wfunc d \<noteq> None) \<and>
     (nd_fd d \<in> rfds \<longrightarrow> nd_rfunc d \<noteq> None) \<and>
     (has_flag (nd_mask d) ND_C \<longrightarrow> nd_cfunc d \<noteq> None)"

lemma nd_serve_record:
  assumes "nd_heap m a = Some d" "nd_funcs_ok xfds wfds rfds d"
  shows "nd_serve nd_record xfds wfds rfds a nfds (m, e) =
     Some (nfds - (if nd_ready xfds wfds rfds (nd_fd d) then 1 else 0),
           m, e @ nd_events xfds wfds rfds a d)"
  using assms
  by (auto simp: nd_serve_def nd_invoke_def nd_record_def nd_events_def nd_ready_def nd_funcs_ok_def
      Let_def split: option.splits)

lemma nd_select_loop_record:
  assumes "dseg (nd_heap m) p xs None" "\<forall>a\<in>set xs. nd_funcs_ok X W R (the (nd_heap m a))"
  shows "nd_select_loop nd_record X W R (hdo xs None) nfds (m, e) =
     Some (m, e @ nd_schedule X W R (map (\<lambda>a. (a, the (nd_heap m a))) xs) nfds)"
  using assms
proof (induction xs arbitrary: p nfds e)
  case Nil
  then show ?case by (simp add: nd_select_loop.simps)
next
  case (Cons a xs)
  then obtain d where d: "nd_heap m a = Some d" "nd_next d = hdo xs None"
    "dseg (nd_heap m) (Some a) xs None" by auto
  note IH = Cons.IH [OF d(3)]
  show ?case
    using Cons.prems(2) d IH
    by (subst nd_select_loop.simps) (simp add: nd_serve_record Let_def)
qed

end
