(* ===== verification/Telnet.thy ===== *)
theory Telnet
  imports Nqueue Ndesc
begin

text \<open>
  The telnet server (\<^verbatim>\<open>src/telnet.c\<close>, \<^verbatim>\<open>src/telnet.h\<close>): the control block of a session, output
  with encapsulation and flow control, the option negotiation of RFC 1143, and the input state
  machine that turns raw bytes into lines.

  \<open>telnet\<close> is the C structure \<^verbatim>\<open>telnet_t\<close>.  A session runs in a \<open>tsys\<close>: its control block, the
  descriptor manager, the state \<open>'s\<close> of everything outside (sockets, the game), and the bytes the
  socket has taken so far.  What the driver calls outside this file is the parameter \<open>'s tenv\<close>:
  \<^verbatim>\<open>send\<close>, \<^verbatim>\<open>recv\<close>, \<^verbatim>\<open>errno\<close>, \<^verbatim>\<open>at_mark\<close>, and the two entries into the game,
  \<^verbatim>\<open>interactive_input\<close> and \<^verbatim>\<open>remove_interactive\<close>.  The game acts on a session only through the four
  functions \<^verbatim>\<open>telnet.h\<close> exports, so a call into the game is a list of such calls.  A result
  \<^const>\<open>None\<close> is an access outside an object or a loop that does not end.
\<close>

section \<open>Constants and data\<close>

subsection \<open>Protocol bytes\<close>

definition IAC :: u8 where "IAC = 255"
definition DONT :: u8 where "DONT = 254"
definition DO :: u8 where "DO = 253"
definition WONT :: u8 where "WONT = 252"
definition WILL :: u8 where "WILL = 251"
definition SB :: u8 where "SB = 250"
definition GA :: u8 where "GA = 249"
definition EL :: u8 where "EL = 248"
definition EC :: u8 where "EC = 247"
definition AYT :: u8 where "AYT = 246"
definition DM :: u8 where "DM = 242"
definition SE :: u8 where "SE = 240"
definition NUL :: u8 where "NUL = 0"
definition BEL :: u8 where "BEL = 7"
definition BS :: u8 where "BS = 8"
definition LF :: u8 where "LF = 10"
definition CR :: u8 where "CR = 13"
definition DEL :: u8 where "DEL = 127"

definition TELOPT_ECHO :: u8 where "TELOPT_ECHO = 1"
definition TELOPT_SGA :: u8 where "TELOPT_SGA = 3"
definition TELOPT_TM :: u8 where "TELOPT_TM = 6"
definition TELOPT_CDM :: u8 where "TELOPT_CDM = 205"

lemmas tn_bytes = IAC_def DONT_def DO_def WONT_def WILL_def SB_def GA_def EL_def EC_def AYT_def
  DM_def SE_def NUL_def BEL_def BS_def LF_def CR_def DEL_def
  TELOPT_ECHO_def TELOPT_SGA_def TELOPT_TM_def TELOPT_CDM_def

subsection \<open>Queue sizes and flags\<close>

definition TELNET_CANQ_SIZE :: u16 where "TELNET_CANQ_SIZE = 512"
definition TELNET_RAWQ_SIZE :: u16 where "TELNET_RAWQ_SIZE = 256"
definition TELNET_OPTQ_SIZE :: u16 where "TELNET_OPTQ_SIZE = 512"
definition TELNET_OUTQ_SIZE :: u16 where "TELNET_OUTQ_SIZE = 8192 + 1024"
definition TELNET_OUTQ_LOWAT :: u16 where "TELNET_OUTQ_LOWAT = 256"
definition TELNET_OUTQ_HIWAT :: u16 where "TELNET_OUTQ_HIWAT = TELNET_OUTQ_SIZE - 256"
definition TELNET_OUTQ_REQUIRED :: u16 where "TELNET_OUTQ_REQUIRED = 12"

lemmas tn_sizes = TELNET_CANQ_SIZE_def TELNET_RAWQ_SIZE_def TELNET_OPTQ_SIZE_def
  TELNET_OUTQ_SIZE_def TELNET_OUTQ_LOWAT_def TELNET_OUTQ_HIWAT_def TELNET_OUTQ_REQUIRED_def

definition TF_ATTACH :: u16 where "TF_ATTACH = 0x0001"
definition TF_ENABR :: u16 where "TF_ENABR = 0x0002"
definition TF_ENABW :: u16 where "TF_ENABW = 0x0004"
definition TF_FLOWC :: u16 where "TF_FLOWC = 0x0008"
definition TF_OVFLCANQ :: u16 where "TF_OVFLCANQ = 0x0010"
definition TF_OVFLOPTQ :: u16 where "TF_OVFLOPTQ = 0x0020"
definition TF_OVFLOUTQ :: u16 where "TF_OVFLOUTQ = 0x0040"
definition TF_SYNCH :: u16 where "TF_SYNCH = 0x0080"
definition TF_URGENT :: u16 where "TF_URGENT = 0x0100"
definition TF_GA :: u16 where "TF_GA = 0x0200"
definition TF_SGA :: u16 where "TF_SGA = 0x2000"

lemmas tf_defs = TF_ATTACH_def TF_ENABR_def TF_ENABW_def TF_FLOWC_def TF_OVFLCANQ_def
  TF_OVFLOPTQ_def TF_OVFLOUTQ_def TF_SYNCH_def TF_URGENT_def TF_GA_def TF_SGA_def

subsection \<open>Option states, the control block\<close>

datatype ostate = OS_NO | OS_YES | OS_WANTNO | OS_WANTYES

datatype oqueue = OQ_EMPTY | OQ_OPPOSITE

datatype oindex = OP_ECHO | OP_SGA | OP_CDM

datatype tstate = TS_DATA | TS_CR | TS_IAC | TS_IAC_SB | TS_IAC_SB_DATA | TS_IAC_SB_IAC
  | TS_IAC_WILL | TS_IAC_WONT | TS_IAC_DO | TS_IAC_DONT

datatype errno = EWOULDBLOCK | EINTR | EPROTO | ECONNRESET | EOTHER

datatype telnet_cb = Telnet_accept | Telnet_read | Telnet_write | Telnet_exception
  | Telnet_cleanup | Telnet_shutdown

record opt_t =
  o_us :: ostate
  o_usq :: oqueue
  o_him :: ostate
  o_himq :: oqueue

record telnet =
  t_flags :: u16
  t_state :: tstate
  t_opt :: u8
  t_optb :: "oindex \<Rightarrow> opt_t"
  t_nd :: nd_id
  t_rawq :: nqueue
  t_canq :: nqueue
  t_optq :: "nqueue option"
  t_outq :: nqueue
  t_ip :: "nat option"
  t_rblen :: u32
  t_sblen :: u32

type_synonym tmgr = "(telnet_cb, nat option) ndmgr"

record 's tsys =
  tp :: telnet
  nds :: tmgr
  sock :: 's
  wire :: "u8 list"

text \<open>The calls the rest of the driver makes on a session (\<^verbatim>\<open>telnet.h\<close>).\<close>

datatype tcall = Call_output "u8 list" | Call_enable_echo | Call_disable_echo | Call_detach

record 's tenv =
  e_send :: "'s \<Rightarrow> u8 list \<Rightarrow> int \<times> 's"
  e_recv :: "'s \<Rightarrow> int \<Rightarrow> u8 list option"
  e_recvd :: "'s \<Rightarrow> int \<Rightarrow> 's"
  e_errno :: "'s \<Rightarrow> errno"
  e_at_mark :: "'s \<Rightarrow> bool"
  e_input :: "'s \<Rightarrow> nat option \<Rightarrow> u8 list \<Rightarrow> tcall list \<times> 's"
  e_remove :: "'s \<Rightarrow> nat option \<Rightarrow> tcall list \<times> 's"

subsection \<open>Access to the control block\<close>

definition flag :: "'s tsys \<Rightarrow> u16 \<Rightarrow> bool" where
  "flag t m \<longleftrightarrow> has_flag (t_flags (tp t)) m"

definition setf :: "u16 \<Rightarrow> 's tsys \<Rightarrow> 's tsys" where
  "setf m t = t\<lparr>tp := (tp t)\<lparr>t_flags := t_flags (tp t) OR m\<rparr>\<rparr>"

definition clrf :: "u16 \<Rightarrow> 's tsys \<Rightarrow> 's tsys" where
  "clrf m t = t\<lparr>tp := (tp t)\<lparr>t_flags := t_flags (tp t) AND NOT m\<rparr>\<rparr>"

definition set_state :: "tstate \<Rightarrow> 's tsys \<Rightarrow> 's tsys" where
  "set_state st t = t\<lparr>tp := (tp t)\<lparr>t_state := st\<rparr>\<rparr>"

definition set_canq :: "nqueue \<Rightarrow> 's tsys \<Rightarrow> 's tsys" where
  "set_canq q t = t\<lparr>tp := (tp t)\<lparr>t_canq := q\<rparr>\<rparr>"

definition set_rawq :: "nqueue \<Rightarrow> 's tsys \<Rightarrow> 's tsys" where
  "set_rawq q t = t\<lparr>tp := (tp t)\<lparr>t_rawq := q\<rparr>\<rparr>"

definition set_outq :: "nqueue \<Rightarrow> 's tsys \<Rightarrow> 's tsys" where
  "set_outq q t = t\<lparr>tp := (tp t)\<lparr>t_outq := q\<rparr>\<rparr>"

definition set_optq :: "nqueue \<Rightarrow> 's tsys \<Rightarrow> 's tsys" where
  "set_optq q t = t\<lparr>tp := (tp t)\<lparr>t_optq := Some q\<rparr>\<rparr>"

definition outq_putc :: "u8 \<Rightarrow> 's tsys \<Rightarrow> 's tsys option" where
  "outq_putc c t = map_option (\<lambda>q. set_outq q t) (nq_putc (t_outq (tp t)) c)"

definition ndes :: "tmgr option \<Rightarrow> 's tsys \<Rightarrow> 's tsys option" where
  "ndes r t = map_option (\<lambda>m. t\<lparr>nds := m\<rparr>) r"

text \<open>The C string that starts at an offset of a block.\<close>

definition cstr :: "u8 list \<Rightarrow> u8 list" where
  "cstr bs = takeWhile (\<lambda>c. c \<noteq> 0) bs"

definition cstring_at :: "u8 list \<Rightarrow> nat \<Rightarrow> u8 list option" where
  "cstring_at blk off = (if 0 \<in> set (drop off blk) then Some (cstr (drop off blk)) else None)"

section \<open>Allocation, attachment, output\<close>

definition telnet_alloc :: telnet where
  "telnet_alloc =
     \<lparr>t_flags = TF_ENABW, t_state = TS_DATA, t_opt = 0,
      t_optb = (\<lambda>_. \<lparr>o_us = OS_NO, o_usq = OQ_EMPTY, o_him = OS_NO, o_himq = OQ_EMPTY\<rparr>),
      t_nd = 0, t_rawq = nq_alloc TELNET_RAWQ_SIZE, t_canq = nq_alloc TELNET_CANQ_SIZE,
      t_optq = None, t_outq = nq_alloc TELNET_OUTQ_SIZE, t_ip = None, t_rblen = 0, t_sblen = 0\<rparr>"

definition telnet_attach :: "nat \<Rightarrow> 's tsys \<Rightarrow> 's tsys" where
  "telnet_attach ip t = (let t = setf TF_ATTACH t in t\<lparr>tp := (tp t)\<lparr>t_ip := Some ip\<rparr>\<rparr>)"

definition telnet_detach :: "'s tsys \<Rightarrow> 's tsys option" where
  "telnet_detach t =
     (if \<not> flag t TF_ATTACH then Some t
      else let t1 = t\<lparr>tp := (tp t)\<lparr>t_flags := t_flags (tp t) XOR TF_ATTACH, t_ip := None\<rparr>\<rparr>
           in ndes (nd_enable (nds t1) (t_nd (tp t1)) ND_C) t1)"

text \<open>\<^verbatim>\<open>nq_send(tp->t_outq, nd_fd(tp->t_nd), &tp->t_sblen)\<close>, with the value it returns.\<close>

definition outq_send :: "'s tenv \<Rightarrow> 's tsys \<Rightarrow> (int \<times> 's tsys) option" where
  "outq_send E t =
     map_option (\<lambda>(q, n, cc, out, s).
        (cc, t\<lparr>tp := (tp t)\<lparr>t_outq := q, t_sblen := n\<rparr>, sock := s, wire := wire t @ out\<rparr>))
       (nq_send (e_send E) (sock t) (t_outq (tp t)) (t_sblen (tp t)))"

definition telnet_flush :: "'s tenv \<Rightarrow> 's tsys \<Rightarrow> 's tsys option" where
  "telnet_flush E t =
     (if \<not> nq_empty (t_outq (tp t)) then map_option snd (outq_send E t) else Some t)"

definition telnet_enabr :: "'s tsys \<Rightarrow> 's tsys option" where
  "telnet_enabr t =
     (if flag t TF_ENABR
      then let t1 = clrf TF_ENABR t in ndes (nd_enable (nds t1) (t_nd (tp t1)) ND_R) t1
      else Some t)"

definition telnet_enabw :: "'s tsys \<Rightarrow> 's tsys option" where
  "telnet_enabw t =
     (if flag t TF_ENABW
      then let t1 = clrf TF_ENABW t in ndes (nd_enable (nds t1) (t_nd (tp t1)) ND_W) t1
      else Some t)"

text \<open>The \<^verbatim>\<open>while\<close> loop of \<^verbatim>\<open>telnet_output\<close>; \<open>k\<close> is \<^verbatim>\<open>bp - buf\<close>.\<close>

fun telnet_encode :: "nat \<Rightarrow> u8 list \<Rightarrow> u8 list" where
  "telnet_encode k [] = []"
| "telnet_encode k (c # cs) =
     (if k < unat TELNET_OUTQ_SIZE
      then (if c = LF then CR # c # telnet_encode (k + 2) cs
            else if c = IAC then IAC # c # telnet_encode (k + 2) cs
            else c # telnet_encode (k + 1) cs)
      else [])"

definition telnet_output :: "'s tenv \<Rightarrow> u8 list \<Rightarrow> 's tsys \<Rightarrow> 's tsys option" where
  "telnet_output E cp t =
     (if flag t TF_OVFLOUTQ then Some t
      else let buf = telnet_encode 0 (cstr cp); len = length buf
           in if len = 0 then Some t
              else do {
                t1 \<leftarrow> (if unat (nq_len (t_outq (tp t))) + len \<ge> unat TELNET_OUTQ_HIWAT
                      then telnet_flush E t else Some t);
                (if unat (nq_len (t_outq (tp t1))) + len \<ge> unat TELNET_OUTQ_HIWAT
                 then telnet_enabw (setf TF_OVFLOUTQ t1)
                 else do {
                   q \<leftarrow> nq_puts (t_outq (tp t1)) buf;
                   telnet_enabw (set_outq q t1) }) })"

section \<open>Option negotiation\<close>

definition telnet_get_optp :: "u8 \<Rightarrow> oindex option" where
  "telnet_get_optp opt =
     (if opt = TELOPT_ECHO then Some OP_ECHO
      else if opt = TELOPT_SGA then Some OP_SGA
      else if opt = TELOPT_CDM then Some OP_CDM
      else None)"

definition telnet_lenabp :: "u8 \<Rightarrow> bool" where
  "telnet_lenabp opt \<longleftrightarrow> opt = TELOPT_ECHO \<or> opt = TELOPT_SGA \<or> opt = TELOPT_CDM"

definition telnet_renabp :: "u8 \<Rightarrow> bool" where
  "telnet_renabp opt \<longleftrightarrow> opt = TELOPT_SGA"

definition telnet_send_ga :: "'s tsys \<Rightarrow> 's tsys option" where
  "telnet_send_ga t = do { t \<leftarrow> outq_putc IAC t; t \<leftarrow> outq_putc GA t; telnet_enabw t }"

definition telnet_send_will :: "u8 \<Rightarrow> 's tsys \<Rightarrow> 's tsys option" where
  "telnet_send_will opt t = do {
     t \<leftarrow> outq_putc IAC t; t \<leftarrow> outq_putc WILL t; t \<leftarrow> outq_putc opt t; telnet_enabw t }"

definition telnet_send_wont :: "u8 \<Rightarrow> 's tsys \<Rightarrow> 's tsys option" where
  "telnet_send_wont opt t = do {
     t \<leftarrow> outq_putc IAC t; t \<leftarrow> outq_putc WONT t; t \<leftarrow> outq_putc opt t; telnet_enabw t }"

definition telnet_send_do :: "u8 \<Rightarrow> 's tsys \<Rightarrow> 's tsys option" where
  "telnet_send_do opt t = do {
     t \<leftarrow> outq_putc IAC t; t \<leftarrow> outq_putc DO t; t \<leftarrow> outq_putc opt t; telnet_enabw t }"

definition telnet_send_dont :: "u8 \<Rightarrow> 's tsys \<Rightarrow> 's tsys option" where
  "telnet_send_dont opt t = do {
     t \<leftarrow> outq_putc IAC t; t \<leftarrow> outq_putc DONT t; t \<leftarrow> outq_putc opt t; telnet_enabw t }"

definition telnet_ack_lenab :: "u8 \<Rightarrow> 's tsys \<Rightarrow> 's tsys" where
  "telnet_ack_lenab opt t = (if opt = TELOPT_SGA then setf TF_SGA t else t)"

definition telnet_ack_ldisab :: "u8 \<Rightarrow> 's tsys \<Rightarrow> 's tsys" where
  "telnet_ack_ldisab opt t = (if opt = TELOPT_SGA then clrf TF_SGA t else t)"

definition telnet_ack_renab :: "u8 \<Rightarrow> 's tsys \<Rightarrow> 's tsys" where
  "telnet_ack_renab opt t = t"

definition telnet_ack_rdisab :: "u8 \<Rightarrow> 's tsys \<Rightarrow> 's tsys" where
  "telnet_ack_rdisab opt t = t"

text \<open>\<^verbatim>\<open>op->o_us = v\<close> and its kin, through the pointer \<^verbatim>\<open>telnet_get_optp\<close> returned.\<close>

definition upd_opt :: "oindex \<Rightarrow> (opt_t \<Rightarrow> opt_t) \<Rightarrow> 's tsys \<Rightarrow> 's tsys" where
  "upd_opt i f t = t\<lparr>tp := (tp t)\<lparr>t_optb := (t_optb (tp t))(i := f (t_optb (tp t) i))\<rparr>\<rparr>"

definition set_us :: "oindex \<Rightarrow> ostate \<Rightarrow> 's tsys \<Rightarrow> 's tsys" where
  "set_us i v = upd_opt i (\<lambda>p. p\<lparr>o_us := v\<rparr>)"

definition set_usq :: "oindex \<Rightarrow> oqueue \<Rightarrow> 's tsys \<Rightarrow> 's tsys" where
  "set_usq i v = upd_opt i (\<lambda>p. p\<lparr>o_usq := v\<rparr>)"

definition set_him :: "oindex \<Rightarrow> ostate \<Rightarrow> 's tsys \<Rightarrow> 's tsys" where
  "set_him i v = upd_opt i (\<lambda>p. p\<lparr>o_him := v\<rparr>)"

definition set_himq :: "oindex \<Rightarrow> oqueue \<Rightarrow> 's tsys \<Rightarrow> 's tsys" where
  "set_himq i v = upd_opt i (\<lambda>p. p\<lparr>o_himq := v\<rparr>)"

definition telnet_neg_lenab :: "u8 \<Rightarrow> 's tsys \<Rightarrow> 's tsys option" where
  "telnet_neg_lenab opt t =
     (case telnet_get_optp opt of
        None \<Rightarrow> Some t
      | Some i \<Rightarrow>
          (case o_us (t_optb (tp t) i) of
             OS_NO \<Rightarrow> telnet_send_will opt (set_us i OS_WANTYES t)
           | OS_YES \<Rightarrow> Some t
           | OS_WANTNO \<Rightarrow>
               (case o_usq (t_optb (tp t) i) of
                  OQ_EMPTY \<Rightarrow> Some (set_usq i OQ_OPPOSITE t)
                | OQ_OPPOSITE \<Rightarrow> Some t)
           | OS_WANTYES \<Rightarrow>
               (case o_usq (t_optb (tp t) i) of
                  OQ_EMPTY \<Rightarrow> Some t
                | OQ_OPPOSITE \<Rightarrow> Some (set_usq i OQ_EMPTY t))))"

definition telnet_neg_ldisab :: "u8 \<Rightarrow> 's tsys \<Rightarrow> 's tsys option" where
  "telnet_neg_ldisab opt t =
     (case telnet_get_optp opt of
        None \<Rightarrow> Some t
      | Some i \<Rightarrow>
          (case o_us (t_optb (tp t) i) of
             OS_NO \<Rightarrow> Some t
           | OS_YES \<Rightarrow> telnet_send_wont opt (set_us i OS_WANTNO t)
           | OS_WANTNO \<Rightarrow>
               (case o_usq (t_optb (tp t) i) of
                  OQ_EMPTY \<Rightarrow> Some t
                | OQ_OPPOSITE \<Rightarrow> Some (set_usq i OQ_EMPTY t))
           | OS_WANTYES \<Rightarrow>
               (case o_usq (t_optb (tp t) i) of
                  OQ_EMPTY \<Rightarrow> Some (set_usq i OQ_OPPOSITE t)
                | OQ_OPPOSITE \<Rightarrow> Some t)))"

definition telnet_neg_renab :: "u8 \<Rightarrow> 's tsys \<Rightarrow> 's tsys option" where
  "telnet_neg_renab opt t =
     (case telnet_get_optp opt of
        None \<Rightarrow> Some t
      | Some i \<Rightarrow>
          (case o_him (t_optb (tp t) i) of
             OS_NO \<Rightarrow> telnet_send_do opt (set_him i OS_WANTYES t)
           | OS_YES \<Rightarrow> Some t
           | OS_WANTNO \<Rightarrow>
               (case o_himq (t_optb (tp t) i) of
                  OQ_EMPTY \<Rightarrow> Some (set_himq i OQ_OPPOSITE t)
                | OQ_OPPOSITE \<Rightarrow> Some t)
           | OS_WANTYES \<Rightarrow>
               (case o_himq (t_optb (tp t) i) of
                  OQ_EMPTY \<Rightarrow> Some t
                | OQ_OPPOSITE \<Rightarrow> Some (set_himq i OQ_EMPTY t))))"

definition telnet_enable_echo :: "'s tsys \<Rightarrow> 's tsys option" where
  "telnet_enable_echo t =
     (if nq_avail (t_outq (tp t)) < 3 then Some t else telnet_neg_lenab TELOPT_ECHO t)"

definition telnet_disable_echo :: "'s tsys \<Rightarrow> 's tsys option" where
  "telnet_disable_echo t =
     (if nq_avail (t_outq (tp t)) < 3 then Some t else telnet_neg_ldisab TELOPT_ECHO t)"

definition telnet_will :: "u8 \<Rightarrow> 's tsys \<Rightarrow> 's tsys option" where
  "telnet_will opt t =
     (case telnet_get_optp opt of
        None \<Rightarrow> telnet_send_dont opt t
      | Some i \<Rightarrow>
          (case o_him (t_optb (tp t) i) of
             OS_NO \<Rightarrow>
               (if telnet_renabp opt
                then map_option (telnet_ack_renab opt) (telnet_send_do opt (set_him i OS_YES t))
                else telnet_send_dont opt t)
           | OS_YES \<Rightarrow> Some t
           | OS_WANTNO \<Rightarrow>
               (case o_himq (t_optb (tp t) i) of
                  OQ_EMPTY \<Rightarrow> Some (telnet_ack_rdisab opt (set_him i OS_NO t))
                | OQ_OPPOSITE \<Rightarrow>
                    Some (telnet_ack_renab opt (set_himq i OQ_EMPTY (set_him i OS_YES t))))
           | OS_WANTYES \<Rightarrow>
               (case o_himq (t_optb (tp t) i) of
                  OQ_EMPTY \<Rightarrow> Some (telnet_ack_renab opt (set_him i OS_YES t))
                | OQ_OPPOSITE \<Rightarrow>
                    telnet_send_dont opt (set_himq i OQ_EMPTY (set_him i OS_WANTNO t)))))"

definition telnet_wont :: "u8 \<Rightarrow> 's tsys \<Rightarrow> 's tsys option" where
  "telnet_wont opt t =
     (case telnet_get_optp opt of
        None \<Rightarrow> Some t
      | Some i \<Rightarrow>
          (case o_him (t_optb (tp t) i) of
             OS_NO \<Rightarrow> Some t
           | OS_YES \<Rightarrow>
               map_option (telnet_ack_rdisab opt) (telnet_send_dont opt (set_him i OS_NO t))
           | OS_WANTNO \<Rightarrow>
               (case o_himq (t_optb (tp t) i) of
                  OQ_EMPTY \<Rightarrow> Some (telnet_ack_rdisab opt (set_him i OS_NO t))
                | OQ_OPPOSITE \<Rightarrow>
                    telnet_send_do opt (set_himq i OQ_EMPTY (set_him i OS_WANTYES t)))
           | OS_WANTYES \<Rightarrow>
               (case o_himq (t_optb (tp t) i) of
                  OQ_EMPTY \<Rightarrow> Some (telnet_ack_rdisab opt (set_him i OS_NO t))
                | OQ_OPPOSITE \<Rightarrow>
                    Some (telnet_ack_rdisab opt (set_himq i OQ_EMPTY (set_him i OS_NO t))))))"

definition telnet_do :: "u8 \<Rightarrow> 's tsys \<Rightarrow> 's tsys option" where
  "telnet_do opt t =
     (if opt = TELOPT_TM then telnet_send_will opt t
      else case telnet_get_optp opt of
        None \<Rightarrow> telnet_send_wont opt t
      | Some i \<Rightarrow>
          (case o_us (t_optb (tp t) i) of
             OS_NO \<Rightarrow>
               (if telnet_lenabp opt
                then map_option (telnet_ack_lenab opt) (telnet_send_will opt (set_us i OS_YES t))
                else telnet_send_wont opt t)
           | OS_YES \<Rightarrow> Some t
           | OS_WANTNO \<Rightarrow>
               (case o_usq (t_optb (tp t) i) of
                  OQ_EMPTY \<Rightarrow> Some (telnet_ack_ldisab opt (set_us i OS_NO t))
                | OQ_OPPOSITE \<Rightarrow>
                    Some (telnet_ack_lenab opt (set_usq i OQ_EMPTY (set_us i OS_YES t))))
           | OS_WANTYES \<Rightarrow>
               (case o_usq (t_optb (tp t) i) of
                  OQ_EMPTY \<Rightarrow> Some (telnet_ack_lenab opt (set_us i OS_YES t))
                | OQ_OPPOSITE \<Rightarrow>
                    telnet_send_wont opt (set_usq i OQ_EMPTY (set_us i OS_WANTNO t)))))"

definition telnet_dont :: "u8 \<Rightarrow> 's tsys \<Rightarrow> 's tsys option" where
  "telnet_dont opt t =
     (case telnet_get_optp opt of
        None \<Rightarrow> Some t
      | Some i \<Rightarrow>
          (case o_us (t_optb (tp t) i) of
             OS_NO \<Rightarrow> Some t
           | OS_YES \<Rightarrow>
               map_option (telnet_ack_ldisab opt) (telnet_send_wont opt (set_us i OS_NO t))
           | OS_WANTNO \<Rightarrow>
               (case o_usq (t_optb (tp t) i) of
                  OQ_EMPTY \<Rightarrow> Some (telnet_ack_ldisab opt (set_us i OS_NO t))
                | OQ_OPPOSITE \<Rightarrow>
                    telnet_send_will opt (set_usq i OQ_EMPTY (set_us i OS_WANTYES t)))
           | OS_WANTYES \<Rightarrow>
               (case o_usq (t_optb (tp t) i) of
                  OQ_EMPTY \<Rightarrow> Some (telnet_ack_ldisab opt (set_us i OS_NO t))
                | OQ_OPPOSITE \<Rightarrow>
                    Some (telnet_ack_ldisab opt (set_usq i OQ_EMPTY (set_us i OS_NO t))))))"

section \<open>Calls from the game\<close>

fun telnet_call :: "'s tenv \<Rightarrow> tcall \<Rightarrow> 's tsys \<Rightarrow> 's tsys option" where
  "telnet_call E (Call_output cp) t = telnet_output E cp t"
| "telnet_call E Call_enable_echo t = telnet_enable_echo t"
| "telnet_call E Call_disable_echo t = telnet_disable_echo t"
| "telnet_call E Call_detach t = telnet_detach t"

fun telnet_calls :: "'s tenv \<Rightarrow> tcall list \<Rightarrow> 's tsys \<Rightarrow> 's tsys option" where
  "telnet_calls E [] t = Some t"
| "telnet_calls E (c # cs) t = telnet_call E c t \<bind> telnet_calls E cs"

definition interactive_input :: "'s tenv \<Rightarrow> nat option \<Rightarrow> u8 list \<Rightarrow> 's tsys \<Rightarrow> 's tsys option" where
  "interactive_input E ip cp t =
     (let (cs, s) = e_input E (sock t) ip cp in telnet_calls E cs (t\<lparr>sock := s\<rparr>))"

definition remove_interactive :: "'s tenv \<Rightarrow> nat option \<Rightarrow> 's tsys \<Rightarrow> 's tsys option" where
  "remove_interactive E ip t =
     (let (cs, s) = e_remove E (sock t) ip in telnet_calls E cs (t\<lparr>sock := s\<rparr>))"

definition telnet_disconnect :: "'s tenv \<Rightarrow> 's tsys \<Rightarrow> 's tsys option" where
  "telnet_disconnect E t =
     (if \<not> flag t TF_ATTACH then Some t else remove_interactive E (t_ip (tp t)) t)"

section \<open>Line discipline\<close>

definition telnet_canq_putc :: "u8 \<Rightarrow> 's tsys \<Rightarrow> 's tsys option" where
  "telnet_canq_putc c t =
     (if flag t (TF_OVFLCANQ OR TF_SYNCH) then Some t
      else if \<not> nq_full (t_canq (tp t))
           then map_option (\<lambda>q. set_canq q t) (nq_putc (t_canq (tp t)) c)
           else let t1 = setf TF_OVFLCANQ t
                in if nq_avail (t_outq (tp t1)) > 0
                   then do { t2 \<leftarrow> outq_putc BEL t1; telnet_enabw t2 }
                   else Some t1)"

text \<open>Dereferencing the null \<^verbatim>\<open>t_optq\<close> is \<^const>\<open>None\<close>.\<close>

definition telnet_optq_putc :: "u8 \<Rightarrow> 's tsys \<Rightarrow> 's tsys option" where
  "telnet_optq_putc c t =
     (if flag t TF_OVFLOPTQ then Some t
      else do {
        q \<leftarrow> t_optq (tp t);
        (if \<not> nq_full q then map_option (\<lambda>q'. set_optq q' t) (nq_putc q c)
         else Some (setf TF_OVFLOPTQ t)) })"

definition telnet_eol :: "'s tenv \<Rightarrow> 's tsys \<Rightarrow> 's tsys option" where
  "telnet_eol E t =
     (if flag t TF_SYNCH then Some t
      else do {
        (cp, t1) \<leftarrow> (if nq_full (t_canq (tp t)) then Some ([], clrf TF_OVFLCANQ t)
                    else do {
                      q \<leftarrow> nq_putc (t_canq (tp t)) 0;
                      cp \<leftarrow> cstring_at (qdata q) (nq_rptr q);
                      Some (cp, set_canq q t) });
        t2 \<leftarrow> (if flag t1 TF_ATTACH then interactive_input E (t_ip (tp t1)) cp t1 else Some t1);
        Some (clrf TF_GA (set_canq (nq_init (t_canq (tp t2))) t2)) })"

definition telnet_dm :: "'s tsys \<Rightarrow> 's tsys" where
  "telnet_dm t = (if \<not> flag t TF_URGENT then clrf TF_SYNCH t else t)"

text \<open>
  \<^verbatim>\<open>sprintf(version, "[%6.8s%02d]\r\n", GAME_VERSION, PATCH_LEVEL)\<close> with the version
  \<^verbatim>\<open>"CD.04."\<close> of \<^verbatim>\<open>config.h\<close> and patch level 6.
\<close>

definition telnet_version :: "u8 list" where
  "telnet_version = [91, 67, 68, 46, 48, 52, 46, 48, 54, 93, 13, 10]"

definition telnet_ayt :: "'s tsys \<Rightarrow> 's tsys option" where
  "telnet_ayt t = do { q \<leftarrow> nq_puts (t_outq (tp t)) telnet_version; telnet_enabw (set_outq q t) }"

definition telnet_ec :: "'s tsys \<Rightarrow> 's tsys" where
  "telnet_ec t =
     (if flag t (TF_OVFLCANQ OR TF_SYNCH) then t
      else if \<not> nq_empty (t_canq (tp t)) then set_canq (nq_unputc (t_canq (tp t))) t
      else t)"

definition telnet_el :: "'s tsys \<Rightarrow> 's tsys" where
  "telnet_el t =
     (if flag t (TF_OVFLCANQ OR TF_SYNCH) then t else set_canq (nq_init (t_canq (tp t))) t)"

definition telnet_sb :: "u8 \<Rightarrow> 's tsys \<Rightarrow> 's tsys" where
  "telnet_sb opt t =
     (let t1 = (if t_optq (tp t) = None then set_optq (nq_alloc TELNET_OPTQ_SIZE) t else t)
      in t1\<lparr>tp := (tp t1)\<lparr>t_opt := opt\<rparr>\<rparr>)"

definition telnet_se :: "'s tsys \<Rightarrow> 's tsys option" where
  "telnet_se t = do {
     q \<leftarrow> t_optq (tp t);
     Some (set_optq (nq_init q) (clrf TF_OVFLOPTQ t)) }"

section \<open>The input state machine\<close>

text \<open>
  The body of the loop of \<^verbatim>\<open>telnet_input\<close> for one byte, one function per group of states.  The
  boolean says whether the C code returns from \<^verbatim>\<open>telnet_input\<close> after the byte.
\<close>

definition cont :: "'s tsys option \<Rightarrow> (bool \<times> 's tsys) option" where
  "cont r = map_option (\<lambda>t. (False, t)) r"

definition stop :: "'s tsys option \<Rightarrow> (bool \<times> 's tsys) option" where
  "stop r = map_option (\<lambda>t. (True, t)) r"

definition telnet_data :: "'s tenv \<Rightarrow> u8 \<Rightarrow> 's tsys \<Rightarrow> (bool \<times> 's tsys) option" where
  "telnet_data E c t =
     (if c = NUL then cont (Some t)
      else if c = BS then cont (Some (telnet_ec t))
      else if c = LF then stop (telnet_eol E t)
      else if c = CR then cont (Some (set_state TS_CR t))
      else if c = DEL then cont (Some (telnet_ec t))
      else if c = IAC then cont (Some (set_state TS_IAC t))
      else cont (telnet_canq_putc c t))"

definition telnet_iac :: "u8 \<Rightarrow> 's tsys \<Rightarrow> 's tsys option" where
  "telnet_iac c t0 =
     (let t = set_state TS_DATA t0
      in if c = DM then Some (telnet_dm t)
         else if c = AYT then telnet_ayt t
         else if c = EC then Some (telnet_ec t)
         else if c = EL then Some (telnet_el t)
         else if c = SB then Some (set_state TS_IAC_SB t)
         else if c = WILL then Some (set_state TS_IAC_WILL t)
         else if c = WONT then Some (set_state TS_IAC_WONT t)
         else if c = DO then Some (set_state TS_IAC_DO t)
         else if c = DONT then Some (set_state TS_IAC_DONT t)
         else if c = IAC then telnet_canq_putc c t
         else Some t)"

definition telnet_sb_iac :: "u8 \<Rightarrow> 's tsys \<Rightarrow> 's tsys option" where
  "telnet_sb_iac c t0 =
     (let t = set_state TS_IAC_SB_DATA t0
      in if c = SE then map_option (set_state TS_DATA) (telnet_se t)
         else if c = IAC then telnet_optq_putc c t
         else Some t)"

definition telnet_byte :: "'s tenv \<Rightarrow> u8 \<Rightarrow> 's tsys \<Rightarrow> (bool \<times> 's tsys) option" where
  "telnet_byte E c t =
     (case t_state (tp t) of
        TS_DATA \<Rightarrow> telnet_data E c t
      | TS_CR \<Rightarrow> stop (map_option (set_state TS_DATA) (telnet_eol E t))
      | TS_IAC \<Rightarrow> cont (telnet_iac c t)
      | TS_IAC_SB \<Rightarrow> cont (Some (set_state TS_IAC_SB_DATA (telnet_sb c t)))
      | TS_IAC_SB_DATA \<Rightarrow>
          (if c = IAC then cont (Some (set_state TS_IAC_SB_IAC t)) else cont (telnet_optq_putc c t))
      | TS_IAC_SB_IAC \<Rightarrow> cont (telnet_sb_iac c t)
      | TS_IAC_WILL \<Rightarrow> cont (map_option (set_state TS_DATA) (telnet_will c t))
      | TS_IAC_WONT \<Rightarrow> cont (map_option (set_state TS_DATA) (telnet_wont c t))
      | TS_IAC_DO \<Rightarrow> cont (map_option (set_state TS_DATA) (telnet_do c t))
      | TS_IAC_DONT \<Rightarrow> cont (map_option (set_state TS_DATA) (telnet_dont c t)))"

text \<open>After the loop, when the raw queue is empty.\<close>

definition telnet_input_done :: "nd_id \<Rightarrow> 's tsys \<Rightarrow> 's tsys option" where
  "telnet_input_done nd t = do {
     t \<leftarrow> (if \<not> flag t (TF_SGA OR TF_GA) \<and> nq_avail (t_outq (tp t)) \<ge> 2
          then telnet_send_ga (setf TF_GA t) else Some t);
     t \<leftarrow> telnet_enabr (set_rawq (nq_init (t_rawq (tp t))) t);
     ndes (nd_disable (nds t) nd ND_C) t }"

partial_function (option) telnet_input :: "'s tenv \<Rightarrow> nd_id \<Rightarrow> 's tsys \<Rightarrow> 's tsys option" where
  "telnet_input E nd t =
     (if nq_empty (t_rawq (tp t)) then telnet_input_done nd t
      else if nq_avail (t_outq (tp t)) < TELNET_OUTQ_REQUIRED
           then let t1 = setf TF_FLOWC t in ndes (nd_disable (nds t1) nd ND_C) t1
           else nq_getc (t_rawq (tp t)) \<bind> (\<lambda>(c, q).
                  telnet_byte E c (set_rawq q t) \<bind> (\<lambda>(ret, t1).
                    if ret then Some t1 else telnet_input E nd t1)))"

section \<open>Callbacks of the descriptor\<close>

definition errno_transient :: "errno \<Rightarrow> bool" where
  "errno_transient e \<longleftrightarrow> e = EWOULDBLOCK \<or> e = EINTR \<or> e = EPROTO"

text \<open>The tail of \<^verbatim>\<open>telnet_read\<close> after a successful or transiently failed \<^verbatim>\<open>recv\<close>, and its last two
  lines.\<close>

definition telnet_read_block :: "nd_id \<Rightarrow> 's tsys \<Rightarrow> 's tsys option" where
  "telnet_read_block nd t = (let t1 = setf TF_ENABR t in ndes (nd_disable (nds t1) nd ND_R) t1)"

definition telnet_read :: "'s tenv \<Rightarrow> nd_id \<Rightarrow> 's tsys \<Rightarrow> 's tsys option" where
  "telnet_read E nd t =
     (if nq_full (t_rawq (tp t)) then telnet_read_block nd t
      else do {
        t \<leftarrow> (if flag t TF_URGENT \<and> e_at_mark E (sock t)
             then let t1 = clrf TF_URGENT t in ndes (nd_enable (nds t1) nd ND_X) t1
             else Some t);
        (q, n, cc) \<leftarrow> nq_recv (e_recv E (sock t)) (t_rawq (tp t)) (t_rblen (tp t));
        t \<leftarrow> Some (t\<lparr>tp := (tp t)\<lparr>t_rawq := q, t_rblen := n\<rparr>, sock := e_recvd E (sock t) cc\<rparr>);
        (if cc = -1 \<and> \<not> errno_transient (e_errno E (sock t)) then telnet_disconnect E t
         else if cc = 0 then telnet_disconnect E t
         else do {
           t \<leftarrow> (if \<not> flag t TF_FLOWC then ndes (nd_enable (nds t) nd ND_C) t else Some t);
           t \<leftarrow> telnet_enabr t;
           (if \<not> nq_full (t_rawq (tp t)) then Some t else telnet_read_block nd t) }) })"

text \<open>\<^verbatim>\<open>"*** Truncated. ***\r\n"\<close>.\<close>

definition telnet_truncated :: "u8 list" where
  "telnet_truncated = [42, 42, 42, 32, 84, 114, 117, 110, 99, 97, 116, 101, 100, 46, 32, 42, 42, 42, 13, 10]"

text \<open>\<^verbatim>\<open>telnet_write\<close> after its \<^verbatim>\<open>nq_send\<close>.\<close>

definition telnet_write_done :: "nd_id \<Rightarrow> 's tsys \<Rightarrow> 's tsys option" where
  "telnet_write_done nd t = do {
     t \<leftarrow> (if flag t TF_OVFLOUTQ \<and> nq_len (t_outq (tp t)) < TELNET_OUTQ_LOWAT
          then let t1 = clrf TF_OVFLOUTQ t
               in map_option (\<lambda>q. set_outq q t1) (nq_puts (t_outq (tp t1)) telnet_truncated)
          else Some t);
     t \<leftarrow> (if flag t TF_FLOWC \<and> nq_len (t_outq (tp t)) < TELNET_OUTQ_HIWAT
          then let t1 = clrf TF_FLOWC t in ndes (nd_enable (nds t1) nd ND_C) t1
          else Some t);
     (if \<not> nq_empty (t_outq (tp t)) then Some t
      else let t1 = setf TF_ENABW (set_outq (nq_init (t_outq (tp t))) t)
           in ndes (nd_disable (nds t1) nd ND_W) t1) }"

definition telnet_write :: "'s tenv \<Rightarrow> nd_id \<Rightarrow> 's tsys \<Rightarrow> 's tsys option" where
  "telnet_write E nd t =
     (if nq_empty (t_outq (tp t)) then telnet_write_done nd t
      else do {
        (cc, t) \<leftarrow> outq_send E t;
        (if cc = -1 \<and> \<not> errno_transient (e_errno E (sock t)) then telnet_disconnect E t
         else telnet_write_done nd t) })"

definition telnet_exception :: "nd_id \<Rightarrow> 's tsys \<Rightarrow> 's tsys option" where
  "telnet_exception nd t =
     (let t1 = setf (TF_SYNCH OR TF_URGENT) t;
          t2 = set_canq (nq_init (t_canq (tp t1))) t1
      in ndes (nd_disable (nds t2) nd ND_X) t2)"

text \<open>\<^verbatim>\<open>telnet_free\<close> ends the life of the control block: the result is what is left of the world.\<close>

record 's tworld =
  w_nds :: tmgr
  w_sock :: 's
  w_wire :: "u8 list"

definition telnet_free :: "'s tsys \<Rightarrow> 's tworld" where
  "telnet_free t = \<lparr>w_nds = nds t, w_sock = sock t, w_wire = wire t\<rparr>"

definition telnet_shutdown :: "'s tenv \<Rightarrow> nd_id \<Rightarrow> 's tsys \<Rightarrow> 's tworld option" where
  "telnet_shutdown E nd t = do {
     t \<leftarrow> telnet_flush E t;
     m \<leftarrow> nd_detach (w_nds (telnet_free t)) nd;
     Some ((telnet_free t)\<lparr>w_nds := m\<rparr>) }"

definition telnet_cleanup :: "'s tenv \<Rightarrow> nd_id \<Rightarrow> 's tsys \<Rightarrow> ('s tworld + 's tsys) option" where
  "telnet_cleanup E nd t =
     (if \<not> flag t TF_ATTACH then map_option Inl (telnet_shutdown E nd t)
      else map_option Inr (telnet_input E nd t))"

text \<open>
  \<^verbatim>\<open>telnet_accept\<close>.  \<open>acc\<close> is the result of \<^verbatim>\<open>accept()\<close>, \<open>a\<close> the address of the new descriptor and
  \<open>cb\<close> the one of the control block; \<open>new_player\<close> runs the game's logon on the session and returns the
  address of the interactive, or \<^const>\<open>None\<close> when it refuses the connection.
\<close>

datatype 's accepted = Accept_fatal | Accept_ignored | Accept_refused "'s tworld" | Accept_session "'s tsys"

definition telnet_accept ::
  "'s tenv \<Rightarrow> errno + int \<Rightarrow> nd_id \<Rightarrow> nat \<Rightarrow> ('s \<Rightarrow> nat option \<times> tcall list \<times> 's) \<Rightarrow> tmgr \<Rightarrow> 's \<Rightarrow>
     's accepted option" where
  "telnet_accept E acc a cb new_player m s =
     (case acc of
        Inl e \<Rightarrow> Some (if errno_transient e \<or> e = ECONNRESET then Accept_ignored else Accept_fatal)
      | Inr fd \<Rightarrow> do {
          m \<leftarrow> nd_attach m a fd (Some Telnet_read) (Some Telnet_write) (Some Telnet_exception)
                 (Some Telnet_cleanup) (Some Telnet_shutdown) (Some cb);
          let t0 = \<lparr>tp = telnet_alloc\<lparr>t_nd := a\<rparr>, nds = m, sock = s, wire = []\<rparr>;
          let (ip, cs, s') = new_player s;
          t \<leftarrow> telnet_calls E cs (t0\<lparr>sock := s'\<rparr>);
          (case ip of
             None \<Rightarrow> map_option Accept_refused (telnet_shutdown E a t)
           | Some p \<Rightarrow>
               (let t1 = telnet_attach p t
                in map_option Accept_session (ndes (nd_enable (nds t1) a (ND_R OR ND_X OR ND_C)) t1))) })"

end
