(* ===== verification/Telnet_Safety.thy ===== *)
theory Telnet_Safety
  imports Telnet
begin

text \<open>
  Memory safety and termination of the telnet server: the invariant of a session and its
  preservation by every callback of \<^verbatim>\<open>src/telnet.c\<close> and by every call the game makes on it.
  The output side comes first, since every other operation may emit bytes.
\<close>

section \<open>The output side\<close>

text \<open>
  \<open>out_ok\<close> is the part of the invariant that output relies on; \<open>in_side\<close> is everything that only the
  input side changes, with the flags masked accordingly.
\<close>

abbreviation outq :: "'s tsys \<Rightarrow> nqueue" where
  "outq t \<equiv> t_outq (tp t)"

definition out_ok :: "'s tsys \<Rightarrow> bool" where
  "out_ok t \<longleftrightarrow> nq_inv (outq t) \<and> nq_cap (outq t) = unat TELNET_OUTQ_SIZE \<and>
     (\<exists>xs. nd_ok (nds t) xs \<and> t_nd (tp t) \<in> set xs)"

definition OUT_FLAGS :: u16 where
  "OUT_FLAGS = TF_ENABW OR TF_OVFLOUTQ OR TF_ATTACH OR TF_SGA"

definition in_side ::
  "'s tsys \<Rightarrow> nqueue \<times> nqueue \<times> nqueue option \<times> tstate \<times> u8 \<times> nd_id \<times> u16" where
  "in_side t = (t_rawq (tp t), t_canq (tp t), t_optq (tp t), t_state (tp t), t_opt (tp t), t_nd (tp t),
     t_flags (tp t) AND NOT OUT_FLAGS)"

text \<open>\<open>r\<close> succeeds, keeps both, and appends at most \<open>n\<close> bytes to the output queue.\<close>

definition emits :: "nat \<Rightarrow> 's tsys option \<Rightarrow> 's tsys \<Rightarrow> bool" where
  "emits n r t \<longleftrightarrow> (\<exists>t' bs. r = Some t' \<and> out_ok t' \<and> in_side t' = in_side t \<and>
     nq_list (outq t') = nq_list (outq t) @ bs \<and> length bs \<le> n)"

definition keeps :: "'s tsys option \<Rightarrow> 's tsys \<Rightarrow> bool" where
  "keeps r t \<longleftrightarrow> (\<exists>t'. r = Some t' \<and> out_ok t' \<and> in_side t' = in_side t)"

lemma emits_keeps: "emits n r t \<Longrightarrow> keeps r t"
  by (auto simp: emits_def keeps_def)

lemma emits_mono: "emits m r t \<Longrightarrow> m \<le> n \<Longrightarrow> emits n r t"
  by (fastforce simp: emits_def)

lemma emits_Some: "out_ok t \<Longrightarrow> emits n (Some t) t"
  by (auto simp: emits_def)

lemma emits_same:
  "emits n r t1 \<Longrightarrow> in_side t1 = in_side t \<Longrightarrow> outq t1 = outq t \<Longrightarrow> emits n r t"
  by (auto simp: emits_def)

lemma emits_map:
  assumes "emits n r t" "\<And>t. in_side (f t) = in_side t" "\<And>t. outq (f t) = outq t"
    "\<And>t. nds (f t) = nds t" "\<And>t. t_nd (tp (f t)) = t_nd (tp t)"
  shows "emits n (map_option f r) t"
  using assms by (auto simp: emits_def out_ok_def)

lemma keeps_bind:
  assumes "keeps r t" "\<And>t'. out_ok t' \<Longrightarrow> in_side t' = in_side t \<Longrightarrow> keeps (f t') t'"
  shows "keeps (r \<bind> f) t"
  using assms unfolding keeps_def by fastforce

lemma in_side_flag:
  assumes "in_side t' = in_side t" "m AND OUT_FLAGS = 0"
  shows "flag t' m = flag t m"
proof -
  have "f AND m = (f AND NOT OUT_FLAGS) AND m" for f
  proof (rule bit_word_eqI)
    fix n assume "n < LENGTH(16)"
    from assms(2) have "\<not> (bit m n \<and> bit OUT_FLAGS n)" by (metis bit_and_iff bit_0_eq bot_apply bot_bool_def)
    with \<open>n < LENGTH(16)\<close> show "bit (f AND m) n = bit ((f AND NOT OUT_FLAGS) AND m) n"
      by (auto simp: bit_and_iff bit_not_iff)
  qed
  then show ?thesis using assms(1) by (simp add: in_side_def flag_def has_flag_def) metis
qed

lemmas tsys_upd = setf_def clrf_def set_state_def set_canq_def set_rawq_def set_outq_def set_optq_def
  upd_opt_def set_us_def set_usq_def set_him_def set_himq_def

lemma in_side_simps [simp]:
  "in_side (set_outq q t) = in_side t"
  "in_side (set_us i v t) = in_side t" "in_side (set_usq i w t) = in_side t"
  "in_side (set_him i v t) = in_side t" "in_side (set_himq i w t) = in_side t"
  "in_side (t\<lparr>nds := m\<rparr>) = in_side t" "in_side (t\<lparr>sock := s\<rparr>) = in_side t"
  by (simp_all add: in_side_def tsys_upd)

lemma out_flags_clear:
  "k AND NOT OUT_FLAGS = 0 \<Longrightarrow> (f OR k) AND NOT OUT_FLAGS = f AND NOT OUT_FLAGS"
  "k AND NOT OUT_FLAGS = 0 \<Longrightarrow> (f AND NOT k) AND NOT OUT_FLAGS = f AND NOT OUT_FLAGS"
  "k AND NOT OUT_FLAGS = 0 \<Longrightarrow> (f XOR k) AND NOT OUT_FLAGS = f AND NOT OUT_FLAGS" for k :: u16
proof -
  assume a: "k AND NOT OUT_FLAGS = 0"
  then have b: "bit k n \<Longrightarrow> bit OUT_FLAGS n" for n
    using bit_imp_le_length [of k n] by (metis bit_and_iff bit_not_iff bit_0_eq bot_apply bot_bool_def
        possible_bit_word)
  show "(f OR k) AND NOT OUT_FLAGS = f AND NOT OUT_FLAGS"
    "(f AND NOT k) AND NOT OUT_FLAGS = f AND NOT OUT_FLAGS"
    "(f XOR k) AND NOT OUT_FLAGS = f AND NOT OUT_FLAGS"
    using b by (auto intro!: bit_word_eqI simp: bit_and_iff bit_or_iff bit_xor_iff bit_not_iff)
qed

lemma out_flags_members:
  "TF_ENABW AND NOT OUT_FLAGS = 0" "TF_OVFLOUTQ AND NOT OUT_FLAGS = 0"
  "TF_ATTACH AND NOT OUT_FLAGS = 0" "TF_SGA AND NOT OUT_FLAGS = 0"
  by (simp_all add: OUT_FLAGS_def tf_defs)

lemma in_side_flags [simp]:
  "in_side (clrf TF_ENABW t) = in_side t" "in_side (setf TF_OVFLOUTQ t) = in_side t"
  "in_side (setf TF_SGA t) = in_side t" "in_side (clrf TF_SGA t) = in_side t"
  by (simp_all add: in_side_def setf_def clrf_def out_flags_clear out_flags_members)

lemma tsys_simps [simp]:
  "outq (setf m t) = outq t" "outq (clrf m t) = outq t" "outq (set_state st t) = outq t"
  "outq (set_canq q t) = outq t" "outq (set_rawq q t) = outq t" "outq (set_optq q t) = outq t"
  "outq (set_us i v t) = outq t" "outq (set_usq i w t) = outq t"
  "outq (set_him i v t) = outq t" "outq (set_himq i w t) = outq t" "outq (set_outq q t) = q"
  "nds (setf m t) = nds t" "nds (clrf m t) = nds t" "nds (set_state st t) = nds t"
  "nds (set_canq q t) = nds t" "nds (set_rawq q t) = nds t" "nds (set_optq q t) = nds t"
  "nds (set_us i v t) = nds t" "nds (set_usq i w t) = nds t"
  "nds (set_him i v t) = nds t" "nds (set_himq i w t) = nds t" "nds (set_outq q t) = nds t"
  "t_nd (tp (setf m t)) = t_nd (tp t)" "t_nd (tp (clrf m t)) = t_nd (tp t)"
  "t_nd (tp (set_state st t)) = t_nd (tp t)" "t_nd (tp (set_canq q t)) = t_nd (tp t)"
  "t_nd (tp (set_rawq q t)) = t_nd (tp t)" "t_nd (tp (set_optq q t)) = t_nd (tp t)"
  "t_nd (tp (set_us i v t)) = t_nd (tp t)" "t_nd (tp (set_usq i w t)) = t_nd (tp t)"
  "t_nd (tp (set_him i v t)) = t_nd (tp t)" "t_nd (tp (set_himq i w t)) = t_nd (tp t)"
  "t_nd (tp (set_outq q t)) = t_nd (tp t)"
  by (simp_all add: tsys_upd)

lemma out_ok_simps [simp]:
  "out_ok (setf m t) = out_ok t" "out_ok (clrf m t) = out_ok t" "out_ok (set_state st t) = out_ok t"
  "out_ok (set_canq q t) = out_ok t" "out_ok (set_rawq q t) = out_ok t"
  "out_ok (set_optq q t) = out_ok t" "out_ok (set_us i v t) = out_ok t"
  "out_ok (set_usq i w t) = out_ok t" "out_ok (set_him i v t) = out_ok t"
  "out_ok (set_himq i w t) = out_ok t" "out_ok (t\<lparr>sock := s\<rparr>) = out_ok t"
  by (simp_all add: out_ok_def)

lemma out_ok_nd:
  assumes "out_ok t" "nd_ok m xs" "t_nd (tp t) \<in> set xs"
  shows "out_ok (t\<lparr>nds := m\<rparr>)"
  using assms by (auto simp: out_ok_def)

lemma out_ok_heap: "out_ok t \<Longrightarrow> \<exists>xs d. nd_ok (nds t) xs \<and> t_nd (tp t) \<in> set xs \<and>
    nd_heap (nds t) (t_nd (tp t)) = Some d"
  using nd_ok_entry by (fastforce simp: out_ok_def)

lemma ndes_enable:
  assumes "out_ok t"
  shows "\<exists>m. ndes (nd_enable (nds t) (t_nd (tp t)) k) t = Some (t\<lparr>nds := m\<rparr>) \<and> out_ok (t\<lparr>nds := m\<rparr>)"
  using out_ok_heap [OF assms] nd_enable_law out_ok_nd [OF assms] by (fastforce simp: ndes_def)

lemma ndes_disable:
  assumes "out_ok t"
  shows "\<exists>m. ndes (nd_disable (nds t) (t_nd (tp t)) k) t = Some (t\<lparr>nds := m\<rparr>) \<and> out_ok (t\<lparr>nds := m\<rparr>)"
  using out_ok_heap [OF assms] nd_disable_law out_ok_nd [OF assms] by (fastforce simp: ndes_def)

lemma telnet_enabw_law: "out_ok t \<Longrightarrow> emits 0 (telnet_enabw t) t"
  using ndes_enable [of "clrf TF_ENABW t" ND_W]
  by (auto simp: telnet_enabw_def emits_def Let_def)

definition room :: "'s tsys \<Rightarrow> nat" where
  "room t = unat TELNET_OUTQ_SIZE - unat (qlen (outq t))"

lemma outq_putc_law:
  assumes "out_ok t" "0 < room t"
  shows "\<exists>t'. outq_putc c t = Some t' \<and> out_ok t' \<and> in_side t' = in_side t \<and>
     nq_list (outq t') = nq_list (outq t) @ [c]"
proof -
  from assms have "nq_inv (outq t)" "length (nq_list (outq t)) < nq_cap (outq t)"
    by (simp_all add: out_ok_def room_def)
  from nq_putc_law [OF this, of c] obtain q where
    "nq_putc (outq t) c = Some q" "nq_inv q" "nq_cap q = nq_cap (outq t)"
    "nq_list q = nq_list (outq t) @ [c]" by blast
  then show ?thesis using assms(1) by (auto simp: outq_putc_def out_ok_def)
qed

lemma room_append:
  "nq_list (outq t') = nq_list (outq t) @ bs \<Longrightarrow> room t' = room t - length bs"
  using length_nq_list [of "outq t'"] length_nq_list [of "outq t"] by (simp add: room_def)

lemma emits_bind:
  assumes "emits m r t" "m + n \<le> k" "m + n \<le> room t"
    "\<And>t'. out_ok t' \<Longrightarrow> in_side t' = in_side t \<Longrightarrow> n \<le> room t' \<Longrightarrow> emits n (f t') t'"
  shows "emits k (r \<bind> f) t"
proof -
  from assms(1) obtain t1 bs where t1: "r = Some t1" "out_ok t1" "in_side t1 = in_side t"
    "nq_list (outq t1) = nq_list (outq t) @ bs" "length bs \<le> m" by (auto simp: emits_def)
  from assms(3) t1(4,5) have "n \<le> room t1" using room_append [of t1 t bs] by simp
  from assms(4) [OF t1(2,3) this] obtain t2 bs2 where "f t1 = Some t2" "out_ok t2"
    "in_side t2 = in_side t1" "nq_list (outq t2) = nq_list (outq t1) @ bs2" "length bs2 \<le> n"
    by (auto simp: emits_def)
  with t1 assms(2) show ?thesis by (auto simp: emits_def)
qed

lemma outq_putc_emits: "out_ok t \<Longrightarrow> 0 < room t \<Longrightarrow> emits (Suc 0) (outq_putc c t) t"
  using outq_putc_law [of t c] by (fastforce simp: emits_def)

lemma put3_emits:
  assumes "out_ok t" "3 \<le> room t"
  shows "emits 3 (outq_putc a t \<bind> (\<lambda>t. outq_putc b t \<bind> (\<lambda>t. outq_putc c t \<bind> telnet_enabw))) t"
proof (rule emits_bind [where m = 1 and n = 2])
  show "emits 1 (outq_putc a t) t" using assms by (simp add: outq_putc_emits)
  fix t1 :: "'a tsys" assume t1: "out_ok t1" "2 \<le> room t1"
  show "emits 2 (outq_putc b t1 \<bind> (\<lambda>t. outq_putc c t \<bind> telnet_enabw)) t1"
  proof (rule emits_bind [where m = 1 and n = 1])
    show "emits 1 (outq_putc b t1) t1" using t1 by (simp add: outq_putc_emits)
    fix t2 :: "'a tsys" assume t2: "out_ok t2" "1 \<le> room t2"
    show "emits 1 (outq_putc c t2 \<bind> telnet_enabw) t2"
      by (rule emits_bind [where m = 1 and n = 0])
        (use t2 in \<open>simp_all add: outq_putc_emits telnet_enabw_law\<close>)
  qed (use t1 in simp_all)
qed (use assms in simp_all)

lemma telnet_send_emits:
  assumes "out_ok t" "3 \<le> room t"
  shows "emits 3 (telnet_send_will opt t) t" "emits 3 (telnet_send_wont opt t) t"
    "emits 3 (telnet_send_do opt t) t" "emits 3 (telnet_send_dont opt t) t"
  unfolding telnet_send_will_def telnet_send_wont_def telnet_send_do_def telnet_send_dont_def
  by (rule put3_emits [OF assms])+

lemma telnet_send_ga_emits:
  assumes "out_ok t" "2 \<le> room t"
  shows "emits 2 (telnet_send_ga t) t"
  unfolding telnet_send_ga_def
proof (rule emits_bind [where m = 1 and n = 1])
  show "emits 1 (outq_putc IAC t) t" using assms by (simp add: outq_putc_emits)
  fix t2 :: "'a tsys" assume t2: "out_ok t2" "1 \<le> room t2"
  show "emits 1 (outq_putc GA t2 \<bind> telnet_enabw) t2"
    by (rule emits_bind [where m = 1 and n = 0])
      (use t2 in \<open>simp_all add: outq_putc_emits telnet_enabw_law\<close>)
qed (use assms in simp_all)

text \<open>Option negotiation: at most one three-byte command per event.\<close>

lemma room_simps [simp]:
  "room (set_us i v t) = room t" "room (set_usq i w t) = room t"
  "room (set_him i v t) = room t" "room (set_himq i w t) = room t"
  "room (setf m t) = room t" "room (clrf m t) = room t" "room (set_state st t) = room t"
  "room (set_canq q t) = room t" "room (set_rawq q t) = room t" "room (set_optq q t) = room t"
  by (simp_all add: room_def)

lemma ack_simps [simp]:
  "in_side (telnet_ack_lenab opt t) = in_side t" "in_side (telnet_ack_ldisab opt t) = in_side t"
  "in_side (telnet_ack_renab opt t) = in_side t" "in_side (telnet_ack_rdisab opt t) = in_side t"
  "outq (telnet_ack_lenab opt t) = outq t" "outq (telnet_ack_ldisab opt t) = outq t"
  "outq (telnet_ack_renab opt t) = outq t" "outq (telnet_ack_rdisab opt t) = outq t"
  "nds (telnet_ack_lenab opt t) = nds t" "nds (telnet_ack_ldisab opt t) = nds t"
  "nds (telnet_ack_renab opt t) = nds t" "nds (telnet_ack_rdisab opt t) = nds t"
  "t_nd (tp (telnet_ack_lenab opt t)) = t_nd (tp t)" "t_nd (tp (telnet_ack_ldisab opt t)) = t_nd (tp t)"
  "t_nd (tp (telnet_ack_renab opt t)) = t_nd (tp t)" "t_nd (tp (telnet_ack_rdisab opt t)) = t_nd (tp t)"
  by (simp_all add: telnet_ack_lenab_def telnet_ack_ldisab_def telnet_ack_renab_def
      telnet_ack_rdisab_def)

lemma emits_sends [intro]:
  assumes "out_ok t1" "3 \<le> room t1" "in_side t1 = in_side t" "outq t1 = outq t"
  shows "emits 3 (telnet_send_will opt t1) t" "emits 3 (telnet_send_wont opt t1) t"
    "emits 3 (telnet_send_do opt t1) t" "emits 3 (telnet_send_dont opt t1) t"
  using telnet_send_emits [OF assms(1,2), of opt] assms(3,4) by (blast intro: emits_same)+

lemma emits_keep_out:
  "out_ok t \<Longrightarrow> in_side t1 = in_side t \<Longrightarrow> outq t1 = outq t \<Longrightarrow> nds t1 = nds t \<Longrightarrow>
   t_nd (tp t1) = t_nd (tp t) \<Longrightarrow> emits n (Some t1) t"
  by (auto simp: emits_def out_ok_def)

lemma telnet_negotiate_emits:
  assumes "out_ok t" "3 \<le> room t"
  shows "emits 3 (telnet_neg_lenab opt t) t" "emits 3 (telnet_neg_ldisab opt t) t"
    "emits 3 (telnet_neg_renab opt t) t"
    "emits 3 (telnet_will opt t) t" "emits 3 (telnet_wont opt t) t"
    "emits 3 (telnet_do opt t) t" "emits 3 (telnet_dont opt t) t"
  unfolding telnet_neg_lenab_def telnet_neg_ldisab_def telnet_neg_renab_def
    telnet_will_def telnet_wont_def telnet_do_def telnet_dont_def
  using assms
  by (auto split: option.splits ostate.splits oqueue.splits
      intro!: emits_sends emits_keep_out emits_map)

section \<open>Output and calls from the game\<close>

definition env_ok :: "'s tenv \<Rightarrow> bool" where
  "env_ok E \<longleftrightarrow> send_ok (e_send E) \<and> (\<forall>s. recv_ok (e_recv E s))"

text \<open>The bytes of a session that are on the wire or still queued.\<close>

definition stream :: "'s tsys \<Rightarrow> u8 list" where
  "stream t = wire t @ nq_list (outq t)"

lemma outq_send_law:
  assumes "out_ok t" "env_ok E"
  shows "\<exists>cc t'. outq_send E t = Some (cc, t') \<and> out_ok t' \<and> in_side t' = in_side t \<and>
     stream t' = stream t \<and> t_flags (tp t') = t_flags (tp t) \<and> t_ip (tp t') = t_ip (tp t) \<and>
     unat (qlen (outq t')) \<le> unat (qlen (outq t)) \<and> t_optb (tp t') = t_optb (tp t)"
proof -
  from assms have "nq_inv (outq t)" "send_ok (e_send E)" by (simp_all add: out_ok_def env_ok_def)
  from nq_send_loop_law [OF this, of "sock t" "t_sblen (tp t)" 0 "[]"] obtain q n cc out s where
    q: "nq_send (e_send E) (sock t) (outq t) (t_sblen (tp t)) = Some (q, n, cc, out, s)"
    "nq_inv q" "nq_cap q = nq_cap (outq t)" "nq_list (outq t) = out @ nq_list q"
    by (auto simp: nq_send_def)
  have "unat (qlen q) \<le> unat (qlen (outq t))"
    using arg_cong [OF q(4), of length] by simp
  with q assms(1) show ?thesis
    by (auto simp: outq_send_def out_ok_def in_side_def stream_def)
qed

lemma telnet_flush_law:
  assumes "out_ok t" "env_ok E"
  shows "\<exists>t'. telnet_flush E t = Some t' \<and> out_ok t' \<and> in_side t' = in_side t \<and>
     stream t' = stream t \<and> t_flags (tp t') = t_flags (tp t) \<and> t_optb (tp t') = t_optb (tp t)"
  using outq_send_law [OF assms] assms(1) by (auto simp: telnet_flush_def)

text \<open>\<open>buf[TELNET_OUTQ_SIZE + 3]\<close> is large enough for the encoded text and its terminator.\<close>

lemma telnet_encode_length:
  "k \<le> unat TELNET_OUTQ_SIZE + 1 \<Longrightarrow> k + length (telnet_encode k cs) \<le> unat TELNET_OUTQ_SIZE + 1"
proof (induction cs arbitrary: k)
  case Nil
  then show ?case by simp
next
  case (Cons c cs)
  then show ?case
    using Cons.IH [of "k + 1"] Cons.IH [of "k + 2"] by auto
qed

lemma stream_simps [simp]:
  "stream (t\<lparr>nds := m\<rparr>) = stream t" "stream (setf k t) = stream t" "stream (clrf k t) = stream t"
  "stream (set_outq q t) = wire t @ nq_list q"
  by (simp_all add: stream_def tsys_upd)

lemma flag_setf: "flag (setf m t) k \<longleftrightarrow> flag t k \<or> m AND k \<noteq> 0"
  by (simp add: flag_def setf_def flag_simps)

lemma flag_clrf: "m AND k = 0 \<Longrightarrow> flag (clrf m t) k = flag t k"
proof -
  assume a: "m AND k = 0"
  have "f AND NOT m AND k = f AND k" for f :: u16
  proof (rule bit_word_eqI)
    fix n assume n: "n < LENGTH(16)"
    from a have "\<not> (bit m n \<and> bit k n)" by (metis bit_and_iff bit_0_eq bot_apply bot_bool_def)
    with n show "bit (f AND NOT m AND k) n = bit (f AND k) n" by (auto simp: bit_and_iff bit_not_iff)
  qed
  then show ?thesis by (simp add: flag_def clrf_def has_flag_def and.assoc)
qed

lemma enabw_masks:
  "TF_ENABW AND TF_ATTACH = 0" "TF_ENABW AND TF_SGA = 0" "TF_ENABW AND TF_OVFLOUTQ = 0"
  "TF_OVFLOUTQ AND TF_ATTACH = 0" "TF_OVFLOUTQ AND TF_SGA = 0" "TF_OVFLOUTQ AND TF_OVFLOUTQ \<noteq> 0"
  by (simp_all add: tf_defs)

text \<open>What an output operation leaves alone, and the bytes it adds to the session's stream.\<close>

definition outputs :: "u8 list \<Rightarrow> 's tsys \<Rightarrow> 's tsys \<Rightarrow> bool" where
  "outputs bs t t' \<longleftrightarrow> out_ok t' \<and> in_side t' = in_side t \<and> t_optb (tp t') = t_optb (tp t) \<and>
     flag t' TF_ATTACH = flag t TF_ATTACH \<and> flag t' TF_SGA = flag t TF_SGA \<and> stream t' = stream t @ bs"

lemma outputs_nds:
  "outputs bs t t1 \<Longrightarrow> out_ok (t1\<lparr>nds := m\<rparr>) \<Longrightarrow> outputs bs t (t1\<lparr>nds := m\<rparr>)"
  by (simp add: outputs_def flag_def)

lemma outputs_enabw: "outputs bs t t1 \<Longrightarrow> outputs bs t (clrf TF_ENABW t1)"
proof -
  assume a: "outputs bs t t1"
  have "t_optb (tp (clrf TF_ENABW t1)) = t_optb (tp t1)" by (simp add: clrf_def)
  with a show ?thesis by (simp add: outputs_def flag_clrf enabw_masks)
qed

lemma enabw_outputs:
  assumes "outputs bs t t1"
  shows "\<exists>t'. telnet_enabw t1 = Some t' \<and> outputs bs t t' \<and> flag t' TF_OVFLOUTQ = flag t1 TF_OVFLOUTQ"
proof (cases "flag t1 TF_ENABW")
  case True
  let ?t = "clrf TF_ENABW t1"
  from outputs_enabw [OF assms] have o: "outputs bs t ?t" .
  then have "out_ok ?t" by (simp add: outputs_def)
  from ndes_enable [OF this, of ND_W] obtain m where
    m: "ndes (nd_enable (nds ?t) (t_nd (tp ?t)) ND_W) ?t = Some (?t\<lparr>nds := m\<rparr>)"
       "out_ok (?t\<lparr>nds := m\<rparr>)" by blast
  have "flag (?t\<lparr>nds := m\<rparr>) TF_OVFLOUTQ = flag t1 TF_OVFLOUTQ"
    using flag_clrf [of TF_ENABW TF_OVFLOUTQ t1] by (simp add: enabw_masks flag_def)
  with True m(1) outputs_nds [OF o m(2)] show ?thesis
    by (simp only: telnet_enabw_def Let_def if_True) blast
next
  case False
  with assms show ?thesis by (simp add: telnet_enabw_def)
qed

lemma outputs_setf:
  "outputs bs t t1 \<Longrightarrow> outputs bs t (setf TF_OVFLOUTQ t1)"
  by (auto simp: outputs_def flag_setf enabw_masks) (simp_all add: setf_def)

lemma outputs_puts:
  assumes "outputs [] t t1" "length (nq_list (outq t1)) + length bs \<le> nq_cap (outq t1)"
  shows "\<exists>q. nq_puts (outq t1) bs = Some q \<and> outputs bs t (set_outq q t1)"
proof -
  from assms have "nq_inv (outq t1)" "unat (qlen (outq t1)) + length bs \<le> nq_cap (outq t1)"
    by (simp_all add: outputs_def out_ok_def)
  from nq_puts_law [OF this] obtain q where q: "nq_puts (outq t1) bs = Some q" "nq_inv q"
    "nq_cap q = nq_cap (outq t1)" "nq_list q = nq_list (outq t1) @ bs" by blast
  have "outputs bs t (set_outq q t1)"
    using q(2,3,4) assms(1) unfolding outputs_def out_ok_def stream_def flag_def in_side_def
    by (simp add: set_outq_def) metis
  with q(1) show ?thesis by blast
qed

lemma telnet_output_law:
  assumes ok: "out_ok t" and E: "env_ok E"
  shows "\<exists>t'. telnet_output E cp t = Some t' \<and>
     outputs (if flag t' TF_OVFLOUTQ then [] else telnet_encode 0 (cstr cp)) t t'"
proof (cases "flag t TF_OVFLOUTQ \<or> telnet_encode 0 (cstr cp) = []")
  case True
  then have "telnet_output E cp t = Some t" by (auto simp: telnet_output_def)
  moreover have "outputs [] t t" using ok by (simp add: outputs_def)
  ultimately show ?thesis using True by simp metis
next
  case False
  let ?buf = "telnet_encode 0 (cstr cp)"
  let ?big = "\<lambda>t. unat (nq_len (outq t)) + length ?buf \<ge> unat TELNET_OUTQ_HIWAT"
  obtain t1 where t1: "(if ?big t then telnet_flush E t else Some t) = Some t1" "outputs [] t t1"
    "flag t1 TF_OVFLOUTQ = flag t TF_OVFLOUTQ"
  proof (cases "?big t")
    case True
    then show ?thesis using telnet_flush_law [OF ok E] that by (fastforce simp: outputs_def flag_def)
  next
    case False
    then show ?thesis using ok that [of t] by (simp add: outputs_def)
  qed
  have eq: "telnet_output E cp t = (if ?big t1 then telnet_enabw (setf TF_OVFLOUTQ t1)
      else nq_puts (outq t1) ?buf \<bind> (\<lambda>q. telnet_enabw (set_outq q t1)))"
    using False t1(1) by (simp add: telnet_output_def Let_def)
  show ?thesis
  proof (cases "?big t1")
    case True
    have "flag (setf TF_OVFLOUTQ t1) TF_OVFLOUTQ" by (simp add: flag_setf tf_defs)
    with eq True enabw_outputs [OF outputs_setf [OF t1(2)]] show ?thesis by auto
  next
    case fits: False
    then have "length (nq_list (outq t1)) + length ?buf \<le> nq_cap (outq t1)"
      using t1(2) by (simp add: outputs_def out_ok_def nq_len_def tn_sizes)
    from outputs_puts [OF t1(2) this] obtain q where
      q: "nq_puts (outq t1) ?buf = Some q" "outputs ?buf t (set_outq q t1)" by blast
    have "flag (set_outq q t1) k = flag t1 k" for k by (simp add: flag_def set_outq_def)
    with t1(3) False have "\<not> flag (set_outq q t1) TF_OVFLOUTQ" by simp
    moreover from eq fits q(1) have "telnet_output E cp t = telnet_enabw (set_outq q t1)" by simp
    ultimately show ?thesis using enabw_outputs [OF q(2)] by auto
  qed
qed

section \<open>Calls from the game\<close>

lemma avail_room: "out_ok t \<Longrightarrow> unat (nq_avail (outq t)) = room t"
  by (simp add: out_ok_def room_def nq_avail_unat)

lemma echo_keeps:
  assumes "out_ok t"
  shows "keeps (telnet_enable_echo t) t" "keeps (telnet_disable_echo t) t"
proof -
  have 3: "3 \<le> room t" if "\<not> nq_avail (outq t) < 3"
    using that avail_room [OF assms] by (simp add: word_less_nat_alt)
  have "keeps (Some t) t" using assms by (simp add: keeps_def)
  with 3 emits_keeps [OF telnet_negotiate_emits(1) [OF assms]]
    emits_keeps [OF telnet_negotiate_emits(2) [OF assms]]
  show "keeps (telnet_enable_echo t) t" "keeps (telnet_disable_echo t) t"
    by (auto simp: telnet_enable_echo_def telnet_disable_echo_def)
qed

lemma detach_keeps: "out_ok t \<Longrightarrow> keeps (telnet_detach t) t"
proof -
  assume ok: "out_ok t"
  let ?t = "t\<lparr>tp := (tp t)\<lparr>t_flags := t_flags (tp t) XOR TF_ATTACH, t_ip := None\<rparr>\<rparr>"
  have "out_ok ?t" using ok by (simp add: out_ok_def)
  moreover have "in_side ?t = in_side t"
    by (simp add: in_side_def out_flags_clear out_flags_members)
  ultimately show ?thesis
    using ndes_enable [of ?t ND_C] ok by (auto simp: telnet_detach_def keeps_def Let_def)
qed

lemma telnet_call_keeps: "out_ok t \<Longrightarrow> env_ok E \<Longrightarrow> keeps (telnet_call E c t) t"
proof (cases c)
  case (Call_output cp)
  assume "out_ok t" "env_ok E"
  from telnet_output_law [OF this, of cp] Call_output show ?thesis by (auto simp: keeps_def outputs_def)
qed (simp_all add: echo_keeps detach_keeps)

lemma telnet_calls_keeps: "out_ok t \<Longrightarrow> env_ok E \<Longrightarrow> keeps (telnet_calls E cs t) t"
proof (induction cs arbitrary: t)
  case Nil
  then show ?case by (simp add: keeps_def)
next
  case (Cons c cs)
  then show ?case using keeps_bind [OF telnet_call_keeps [of t E c]] by simp
qed

lemma game_keeps:
  assumes "out_ok t" "env_ok E"
  shows "keeps (interactive_input E ip cp t) t" "keeps (remove_interactive E ip t) t"
    "keeps (telnet_disconnect E t) t"
proof -
  have k: "keeps (telnet_calls E cs (t\<lparr>sock := s\<rparr>)) t" for cs s
    using telnet_calls_keeps [of "t\<lparr>sock := s\<rparr>" E cs] assms by (simp add: keeps_def)
  then show "keeps (interactive_input E ip cp t) t" "keeps (remove_interactive E ip t) t" for ip
    by (simp_all add: interactive_input_def remove_interactive_def split: prod.split)
  then show "keeps (telnet_disconnect E t) t"
    using assms by (simp add: telnet_disconnect_def) (simp add: keeps_def)
qed

section \<open>The invariant of a session\<close>

text \<open>
  The canonical queue always starts at the beginning of its buffer and holds no NUL, so that the line
  handed to the game is the whole line; the option queue exists in the states that use it.
\<close>

definition canq_ok :: "nqueue \<Rightarrow> bool" where
  "canq_ok q \<longleftrightarrow> nq_inv q \<and> nq_cap q = unat TELNET_CANQ_SIZE \<and> qrptr q = 0 \<and> 0 \<notin> set (nq_list q)"

definition in_ok :: "'s tsys \<Rightarrow> bool" where
  "in_ok t \<longleftrightarrow> nq_inv (t_rawq (tp t)) \<and> nq_cap (t_rawq (tp t)) = unat TELNET_RAWQ_SIZE \<and>
     canq_ok (t_canq (tp t)) \<and>
     pred_option nq_inv (t_optq (tp t)) \<and>
     (t_state (tp t) = TS_IAC_SB_DATA \<or> t_state (tp t) = TS_IAC_SB_IAC \<longrightarrow> t_optq (tp t) \<noteq> None)"

definition tinv :: "'s tsys \<Rightarrow> bool" where
  "tinv t \<longleftrightarrow> in_ok t \<and> out_ok t"

text \<open>\<open>r\<close> succeeds, keeps the invariant and leaves the raw queue and the descriptor alone.\<close>

definition sound :: "'s tsys option \<Rightarrow> 's tsys \<Rightarrow> bool" where
  "sound r t \<longleftrightarrow> (\<exists>t'. r = Some t' \<and> tinv t' \<and> t_rawq (tp t') = t_rawq (tp t) \<and> t_nd (tp t') = t_nd (tp t))"

lemma in_ok_in_side: "in_side t' = in_side t \<Longrightarrow> in_ok t' = in_ok t"
  by (simp add: in_side_def in_ok_def)

lemma keeps_sound: "keeps r t \<Longrightarrow> in_ok t \<Longrightarrow> sound r t"
  using in_ok_in_side by (auto simp: keeps_def sound_def tinv_def in_side_def)

lemma sound_bind:
  assumes "sound r t" "\<And>t'. tinv t' \<Longrightarrow> t_nd (tp t') = t_nd (tp t) \<Longrightarrow> sound (f t') t'"
  shows "sound (r \<bind> f) t"
proof -
  from assms(1) obtain t' where "r = Some t'" "tinv t'" "t_rawq (tp t') = t_rawq (tp t)"
    "t_nd (tp t') = t_nd (tp t)" by (auto simp: sound_def)
  with assms(2) [of t'] show ?thesis by (auto simp: sound_def)
qed

lemma in_ok_flags [simp]:
  "in_ok (setf m t) = in_ok t" "in_ok (clrf m t) = in_ok t" "in_ok (set_outq q t) = in_ok t"
  "in_ok (t\<lparr>nds := n\<rparr>) = in_ok t" "in_ok (t\<lparr>sock := s\<rparr>) = in_ok t"
  by (simp_all add: in_ok_def tsys_upd)

lemma tsys_in [simp]:
  "t_rawq (tp (setf m t)) = t_rawq (tp t)" "t_rawq (tp (clrf m t)) = t_rawq (tp t)"
  "t_rawq (tp (set_state st t)) = t_rawq (tp t)" "t_rawq (tp (set_canq q t)) = t_rawq (tp t)"
  "t_rawq (tp (set_optq q t)) = t_rawq (tp t)" "t_rawq (tp (set_rawq q t)) = q"
  "t_canq (tp (setf m t)) = t_canq (tp t)" "t_canq (tp (clrf m t)) = t_canq (tp t)"
  "t_canq (tp (set_state st t)) = t_canq (tp t)" "t_canq (tp (set_canq q t)) = q"
  "t_canq (tp (set_optq q t)) = t_canq (tp t)" "t_canq (tp (set_rawq q t)) = t_canq (tp t)"
  "t_optq (tp (setf m t)) = t_optq (tp t)" "t_optq (tp (clrf m t)) = t_optq (tp t)"
  "t_optq (tp (set_state st t)) = t_optq (tp t)" "t_optq (tp (set_canq q t)) = t_optq (tp t)"
  "t_optq (tp (set_optq q t)) = Some q" "t_optq (tp (set_rawq q t)) = t_optq (tp t)"
  "t_state (tp (setf m t)) = t_state (tp t)" "t_state (tp (clrf m t)) = t_state (tp t)"
  "t_state (tp (set_state st t)) = st" "t_state (tp (set_canq q t)) = t_state (tp t)"
  "t_state (tp (set_optq q t)) = t_state (tp t)" "t_state (tp (set_rawq q t)) = t_state (tp t)"
  by (simp_all add: tsys_upd)

section \<open>Line discipline\<close>

lemma tinv_canq: "tinv t \<Longrightarrow> canq_ok q \<Longrightarrow> tinv (set_canq q t)"
  by (simp add: tinv_def in_ok_def)

lemma tinv_flags [simp]: "tinv (setf m t) = tinv t" "tinv (clrf m t) = tinv t"
  by (simp_all add: tinv_def)

lemma canq_ok_init: "nq_inv q \<Longrightarrow> nq_cap q = unat TELNET_CANQ_SIZE \<Longrightarrow> canq_ok (nq_init q)"
  using nq_init_law [of q] by (simp add: canq_ok_def) (simp add: nq_init_def)

lemma canq_ok_putc:
  assumes "canq_ok q" "\<not> nq_full q"
  shows "\<exists>q'. nq_putc q c = Some q' \<and> nq_inv q' \<and> nq_cap q' = unat TELNET_CANQ_SIZE \<and> qrptr q' = 0 \<and>
     nq_list q' = nq_list q @ [c]"
proof -
  from assms have "nq_inv q" "length (nq_list q) < nq_cap q"
    using nq_invD(5) [of q] by (auto simp: canq_ok_def nq_full_iff)
  from nq_putc_law [OF this, of c] obtain q' where q': "nq_putc q c = Some q'" "nq_inv q'"
    "nq_cap q' = nq_cap q" "nq_list q' = nq_list q @ [c]" by blast
  moreover from q'(1) have "qrptr q' = qrptr q"
    by (auto simp: nq_putc_def Let_def split: if_splits)
  ultimately show ?thesis using assms(1) by (simp add: canq_ok_def)
qed

lemma canq_ok_unputc:
  assumes "canq_ok q" "\<not> nq_empty q"
  shows "canq_ok (nq_unputc q) \<and> nq_list (nq_unputc q) = butlast (nq_list q)"
proof -
  have "qrptr (nq_unputc q) = qrptr q" by (simp add: nq_unputc_def Let_def)
  with assms nq_unputc_law [of q] show ?thesis by (auto simp: canq_ok_def dest: in_set_butlastD)
qed

lemma nq_list_flat:
  assumes "nq_inv q" "qrptr q = 0"
  shows "nq_list q = take (unat (qlen q)) (qdata q)"
  using nq_invD [OF assms(1)] assms(2) by (auto intro!: nth_equalityI simp: nq_list_def)

text \<open>The string passed to \<^verbatim>\<open>interactive_input\<close> is the content of the canonical queue.\<close>

lemma canq_string:
  assumes "nq_inv q" "qrptr q = 0" "nq_list q = xs @ [0]" "0 \<notin> set xs"
  shows "cstring_at (qdata q) (nq_rptr q) = Some xs"
proof -
  from nq_list_flat [OF assms(1,2)] assms(3)
  have "qdata q = xs @ 0 # drop (unat (qlen q)) (qdata q)"
    by (metis append_take_drop_id append_Cons append_Nil append_assoc)
  then obtain ys where "qdata q = xs @ 0 # ys" by blast
  moreover have "takeWhile (\<lambda>c. c \<noteq> 0) (xs @ 0 # ys) = xs"
    using assms(4) by (simp add: takeWhile_append)
  ultimately show ?thesis using assms(2) by (simp add: cstring_at_def nq_rptr_def cstr_def)
qed

lemma tinv_canqD: "tinv t \<Longrightarrow> canq_ok (t_canq (tp t))"
  by (simp add: tinv_def in_ok_def)

lemma telnet_ec_sound: "tinv t \<Longrightarrow> sound (Some (telnet_ec t)) t"
  using canq_ok_unputc tinv_canqD [of t] tinv_canq [of t]
  by (auto simp: telnet_ec_def sound_def)

lemma telnet_el_sound: "tinv t \<Longrightarrow> sound (Some (telnet_el t)) t"
proof -
  assume t: "tinv t"
  with tinv_canqD [OF t] canq_ok_init [of "t_canq (tp t)"] have "canq_ok (nq_init (t_canq (tp t)))"
    by (simp add: canq_ok_def)
  from tinv_canq [OF t this] t show ?thesis by (simp add: telnet_el_def sound_def)
qed

lemma telnet_canq_putc_sound:
  assumes t: "tinv t" and "c \<noteq> 0"
  shows "sound (telnet_canq_putc c t) t"
proof (cases "flag t (TF_OVFLCANQ OR TF_SYNCH)")
  case True
  with t show ?thesis by (simp add: telnet_canq_putc_def sound_def)
next
  case noov: False
  show ?thesis
  proof (cases "nq_full (t_canq (tp t))")
    case False
    from canq_ok_putc [OF tinv_canqD [OF t] this, of c] obtain q where
      "nq_putc (t_canq (tp t)) c = Some q" "canq_ok q"
      using tinv_canqD [OF t] assms(2) by (auto simp: canq_ok_def)
    with noov False tinv_canq [OF t] show ?thesis by (simp add: telnet_canq_putc_def sound_def)
  next
    case True
    let ?t = "setf TF_OVFLCANQ t"
    have ok: "out_ok ?t" "tinv ?t" using t by (simp_all add: tinv_def)
    have "keeps (outq_putc BEL ?t \<bind> telnet_enabw) ?t" if "0 < nq_avail (outq ?t)"
    proof (rule keeps_bind)
      from that avail_room [OF ok(1)] have "0 < room ?t" by (simp add: word_less_nat_alt)
      with ok(1) show "keeps (outq_putc BEL ?t) ?t" by (rule outq_putc_emits [THEN emits_keeps])
    qed (rule telnet_enabw_law [THEN emits_keeps])
    with noov True ok keeps_sound [of _ ?t] show ?thesis
      by (auto simp: telnet_canq_putc_def Let_def tinv_def sound_def)
  qed
qed

lemma telnet_optq_putc_sound:
  assumes t: "tinv t" and "t_optq (tp t) \<noteq> None"
  shows "sound (telnet_optq_putc c t) t"
proof -
  from assms obtain q where q: "t_optq (tp t) = Some q" "nq_inv q" by (auto simp: tinv_def in_ok_def)
  have "\<exists>q'. nq_putc q c = Some q' \<and> nq_inv q'" if "\<not> nq_full q"
    using that nq_putc_law [OF q(2), of c] nq_invD(5) [OF q(2)] by (auto simp: nq_full_iff)
  with q t show ?thesis
    by (auto simp: telnet_optq_putc_def sound_def) (auto simp: tinv_def in_ok_def)
qed

lemma sound_map:
  assumes "sound r t" "\<And>t'. tinv t' \<Longrightarrow> tinv (f t')" "\<And>t'. t_rawq (tp (f t')) = t_rawq (tp t')"
    "\<And>t'. t_nd (tp (f t')) = t_nd (tp t')"
  shows "sound (map_option f r) t"
  using assms by (auto simp: sound_def)

text \<open>The line reaches the game exactly as it was assembled, an overlong one as an empty line.\<close>

definition line_of :: "'s tsys \<Rightarrow> u8 list" where
  "line_of t = (if nq_full (t_canq (tp t)) then [] else nq_list (t_canq (tp t)))"

lemma telnet_eol_law:
  assumes t: "tinv t" and E: "env_ok E" and ns: "\<not> flag t TF_SYNCH"
  shows "\<exists>t1 t2. telnet_eol E t = Some (clrf TF_GA (set_canq (nq_init (t_canq (tp t2))) t2)) \<and>
     (if flag t TF_ATTACH then interactive_input E (t_ip (tp t)) (line_of t) t1 else Some t1) = Some t2 \<and>
     keeps (Some t2) t1 \<and> out_ok t1 \<and>
     (\<exists>q. t1 = (if nq_full (t_canq (tp t)) then clrf TF_OVFLCANQ t else set_canq q t)) \<and>
     nq_inv (t_canq (tp t1)) \<and> nq_cap (t_canq (tp t1)) = unat TELNET_CANQ_SIZE"
proof -
  have ok: "out_ok t" using t by (simp add: tinv_def)
  note cq = tinv_canqD [OF t, unfolded canq_ok_def]
  obtain t1 q where t1: "(if nq_full (t_canq (tp t)) then Some ([], clrf TF_OVFLCANQ t)
      else do { q \<leftarrow> nq_putc (t_canq (tp t)) 0; cp \<leftarrow> cstring_at (qdata q) (nq_rptr q);
                Some (cp, set_canq q t) }) = Some (line_of t, t1)"
    "t1 = (if nq_full (t_canq (tp t)) then clrf TF_OVFLCANQ t else set_canq q t)"
    "nq_inv (t_canq (tp t1))" "nq_cap (t_canq (tp t1)) = unat TELNET_CANQ_SIZE"
  proof (cases "nq_full (t_canq (tp t))")
    case True
    then show ?thesis using that [of "clrf TF_OVFLCANQ t"] cq by (simp add: line_of_def)
  next
    case False
    from canq_ok_putc [OF tinv_canqD [OF t] False, of 0] obtain q where
      q: "nq_putc (t_canq (tp t)) 0 = Some q" "nq_inv q" "nq_cap q = unat TELNET_CANQ_SIZE" "qrptr q = 0"
      "nq_list q = nq_list (t_canq (tp t)) @ [0]" by blast
    with canq_string [of q "nq_list (t_canq (tp t))"] cq False
    show ?thesis using that [of "set_canq q t" q] by (simp add: line_of_def)
  qed
  have "out_ok t1" using t1(2) ok by simp
  moreover have fl: "flag t1 TF_ATTACH = flag t TF_ATTACH" "t_ip (tp t1) = t_ip (tp t)"
    using t1(2) flag_clrf [of TF_OVFLCANQ TF_ATTACH t]
    by (simp_all add: tf_defs split: if_splits) (simp_all add: flag_def tsys_upd)
  moreover obtain t2 where t2: "(if flag t TF_ATTACH
      then interactive_input E (t_ip (tp t)) (line_of t) t1 else Some t1) = Some t2" "keeps (Some t2) t1"
  proof -
    have "keeps (if flag t TF_ATTACH
        then interactive_input E (t_ip (tp t)) (line_of t) t1 else Some t1) t1"
      using game_keeps(1) [OF \<open>out_ok t1\<close> E] \<open>out_ok t1\<close> by (simp add: keeps_def)
    then show ?thesis using that unfolding keeps_def by blast
  qed
  moreover have "telnet_eol E t = Some (clrf TF_GA (set_canq (nq_init (t_canq (tp t2))) t2))"
    unfolding telnet_eol_def t1(1) using ns t2(1) fl by (simp split: if_splits)
  ultimately show ?thesis using t1(2,3,4) by blast
qed

section \<open>One input byte\<close>

lemma telnet_eol_sound:
  assumes t: "tinv t" and E: "env_ok E"
  shows "sound (telnet_eol E t) t"
proof (cases "flag t TF_SYNCH")
  case True
  with t show ?thesis by (simp add: telnet_eol_def sound_def)
next
  case False
  from telnet_eol_law [OF t E False] obtain t1 t2 q where
    eq: "telnet_eol E t = Some (clrf TF_GA (set_canq (nq_init (t_canq (tp t2))) t2))"
    and k: "keeps (Some t2) t1"
    and t1: "t1 = (if nq_full (t_canq (tp t)) then clrf TF_OVFLCANQ t else set_canq q t)"
    and cq: "nq_inv (t_canq (tp t1))" "nq_cap (t_canq (tp t1)) = unat TELNET_CANQ_SIZE" by blast
  from k have s: "in_side t2 = in_side t1" "out_ok t2" by (simp_all add: keeps_def)
  then have "canq_ok (nq_init (t_canq (tp t2)))" using cq canq_ok_init by (simp add: in_side_def)
  moreover have "in_ok (set_canq q' t2) = in_ok (set_canq q' t)" for q'
    using s(1) t1 by (simp add: in_side_def in_ok_def split: if_splits)
  moreover have "t_rawq (tp t2) = t_rawq (tp t)" "t_nd (tp t2) = t_nd (tp t)"
    using s(1) t1 by (simp_all add: in_side_def split: if_splits)
  ultimately show ?thesis using eq s(2) t by (simp add: sound_def tinv_def) (simp add: in_ok_def)
qed

lemma telnet_ayt_sound:
  assumes t: "tinv t" and "12 \<le> room t"
  shows "sound (telnet_ayt t) t"
proof -
  have ok: "out_ok t" "in_ok t" using t by (simp_all add: tinv_def)
  have "outputs [] t t" using ok by (simp add: outputs_def)
  moreover have "length (nq_list (outq t)) + length telnet_version \<le> nq_cap (outq t)"
    using ok(1) assms(2) by (simp add: telnet_version_def room_def out_ok_def)
  ultimately obtain q where q: "nq_puts (outq t) telnet_version = Some q"
    "outputs telnet_version t (set_outq q t)" using outputs_puts by blast
  with enabw_outputs [OF q(2)] show ?thesis
    by (auto simp: telnet_ayt_def outputs_def keeps_def intro!: keeps_sound ok)
qed

lemma set_state_sound:
  "tinv t \<Longrightarrow> t_optq (tp t) \<noteq> None \<or> st \<notin> {TS_IAC_SB_DATA, TS_IAC_SB_IAC} \<Longrightarrow> sound (Some (set_state st t)) t"
  by (auto simp: sound_def tinv_def in_ok_def)

lemma sound_into:
  "sound r t1 \<Longrightarrow> t_rawq (tp t1) = t_rawq (tp t) \<Longrightarrow> t_nd (tp t1) = t_nd (tp t) \<Longrightarrow> sound r t"
  by (simp add: sound_def)

lemma tinv_state [simp]:
  "st \<notin> {TS_IAC_SB_DATA, TS_IAC_SB_IAC} \<Longrightarrow> tinv t \<Longrightarrow> tinv (set_state st t)"
  by (simp add: tinv_def in_ok_def)

lemma telnet_iac_sound:
  assumes t: "tinv t" and "12 \<le> room t"
  shows "sound (telnet_iac c t) t"
proof -
  let ?t = "set_state TS_DATA t"
  have i: "tinv ?t" using t by simp
  have 1: "sound (Some (set_state st ?t)) ?t" if "st \<notin> {TS_IAC_SB_DATA, TS_IAC_SB_IAC}" for st
    using that i by (simp add: sound_def)
  have 2: "sound (telnet_ayt ?t) ?t" using i assms(2) by (simp add: telnet_ayt_sound)
  have 3: "sound (Some ?t) ?t" "sound (Some (telnet_dm ?t)) ?t" using i by (simp_all add: sound_def telnet_dm_def)
  have 4: "sound (telnet_canq_putc IAC ?t) ?t" using i by (simp add: telnet_canq_putc_sound tn_bytes)
  have "sound (telnet_iac c t) ?t"
    unfolding telnet_iac_def Let_def
    using 1 2 3 4 telnet_ec_sound [OF i] telnet_el_sound [OF i] by simp
  then show ?thesis by (rule sound_into) simp_all
qed

lemma telnet_sb_iac_sound:
  assumes t: "tinv t" and q: "t_optq (tp t) = Some q"
  shows "sound (telnet_sb_iac c t) t"
proof -
  let ?t = "set_state TS_IAC_SB_DATA t"
  have i: "tinv ?t" "nq_inv q" using t q by (simp_all add: tinv_def in_ok_def)
  have "sound (telnet_se ?t) ?t"
    using q i nq_init_law [OF i(2)] by (simp add: telnet_se_def sound_def) (simp add: tinv_def in_ok_def)
  then have "sound (map_option (set_state TS_DATA) (telnet_se ?t)) ?t"
    by (rule sound_map) simp_all
  moreover have "sound (telnet_optq_putc c ?t) ?t" using telnet_optq_putc_sound [OF i(1)] q by simp
  moreover have "sound (Some ?t) ?t" using i by (simp add: sound_def)
  ultimately have "sound (telnet_sb_iac c t) ?t" by (auto simp: telnet_sb_iac_def Let_def)
  then show ?thesis by (rule sound_into) simp_all
qed

lemma telnet_sb_sound:
  assumes "tinv t"
  shows "sound (Some (set_state TS_IAC_SB_DATA (telnet_sb c t))) t"
  using assms nq_alloc_law [of TELNET_OPTQ_SIZE]
  by (auto simp: telnet_sb_def sound_def tinv_def in_ok_def out_ok_def Let_def tn_sizes
      set_optq_def set_state_def)

definition byte_sound :: "(bool \<times> 's tsys) option \<Rightarrow> 's tsys \<Rightarrow> bool" where
  "byte_sound r t \<longleftrightarrow> sound (map_option snd r) t"

lemma byte_sound_intros [simp]:
  "byte_sound (cont r) t = sound r t" "byte_sound (stop r) t = sound r t"
  by (simp_all add: byte_sound_def cont_def stop_def option.map_comp o_def option.map_ident)

lemma telnet_data_sound:
  assumes t: "tinv t" and E: "env_ok E"
  shows "byte_sound (telnet_data E c t) t"
proof -
  have "sound (Some t) t" using t by (simp add: sound_def)
  moreover have "sound (Some (set_state st t)) t" if "st \<notin> {TS_IAC_SB_DATA, TS_IAC_SB_IAC}" for st
    using t that by (simp add: sound_def)
  ultimately show ?thesis
    using telnet_ec_sound [OF t] telnet_eol_sound [OF t E] telnet_canq_putc_sound [OF t, of c]
    by (simp add: telnet_data_def tn_bytes)
qed

lemma negotiate_sound:
  assumes "tinv t" "12 \<le> room t" "emits 3 r t"
  shows "sound (map_option (set_state TS_DATA) r) t"
proof -
  from assms(1) have "in_ok t" by (simp add: tinv_def)
  from keeps_sound [OF emits_keeps [OF assms(3)] this] show ?thesis by (rule sound_map) simp_all
qed

lemma telnet_byte_sound:
  assumes t: "tinv t" and E: "env_ok E" and r: "12 \<le> room t"
  shows "byte_sound (telnet_byte E c t) t"
proof -
  have e: "out_ok t" "3 \<le> room t" using t r by (simp_all add: tinv_def)
  note neg = telnet_negotiate_emits(4-7) [OF e, THEN negotiate_sound [OF t r]]
  have q: "\<exists>q. t_optq (tp t) = Some q" if "t_state (tp t) = TS_IAC_SB_DATA \<or> t_state (tp t) = TS_IAC_SB_IAC"
    using t that by (auto simp: tinv_def in_ok_def)
  show ?thesis
  proof (cases "t_state (tp t)")
    case TS_CR
    then show ?thesis using sound_map [OF telnet_eol_sound [OF t E], of "set_state TS_DATA"]
      by (simp add: telnet_byte_def)
  next
    case TS_IAC_SB_DATA
    then show ?thesis using q set_state_sound [OF t] telnet_optq_putc_sound [OF t]
      by (auto simp: telnet_byte_def)
  next
    case TS_IAC_SB_IAC
    then show ?thesis using q telnet_sb_iac_sound [OF t] by (auto simp: telnet_byte_def)
  qed (simp_all add: telnet_byte_def telnet_data_sound t E telnet_iac_sound r telnet_sb_sound neg)
qed

section \<open>The callbacks\<close>

text \<open>Success and preservation of the invariant, with the queues free to change.\<close>

definition safe :: "'s tsys option \<Rightarrow> 's tsys \<Rightarrow> bool" where
  "safe r t \<longleftrightarrow> (\<exists>t'. r = Some t' \<and> tinv t' \<and> t_nd (tp t') = t_nd (tp t))"

lemma sound_safe: "sound r t \<Longrightarrow> safe r t"
  by (auto simp: sound_def safe_def)

lemma keeps_safe: "tinv t \<Longrightarrow> keeps r t \<Longrightarrow> safe r t"
  using keeps_sound sound_safe tinv_def by blast

lemma safe_bind:
  assumes "safe r t" "\<And>t'. tinv t' \<Longrightarrow> t_nd (tp t') = t_nd (tp t) \<Longrightarrow> safe (f t') t'"
  shows "safe (r \<bind> f) t"
proof -
  from assms(1) obtain t' where "r = Some t'" "tinv t'" "t_nd (tp t') = t_nd (tp t)"
    by (auto simp: safe_def)
  with assms(2) [of t'] show ?thesis by (auto simp: safe_def)
qed

lemma safe_into: "safe r t1 \<Longrightarrow> t_nd (tp t1) = t_nd (tp t) \<Longrightarrow> safe r t"
  by (simp add: safe_def)

lemma safe_Some: "tinv t1 \<Longrightarrow> t_nd (tp t1) = t_nd (tp t) \<Longrightarrow> safe (Some t1) t"
  by (simp add: safe_def)

lemma ndes_safe:
  assumes "tinv t1" "t_nd (tp t1) = nd" "t_nd (tp t1) = t_nd (tp t)"
  shows "safe (ndes (nd_enable (nds t1) nd k) t1) t" "safe (ndes (nd_disable (nds t1) nd k) t1) t"
proof -
  from assms(1) have "out_ok t1" by (simp add: tinv_def)
  from ndes_enable [OF this, of k] ndes_disable [OF this, of k] assms
  show "safe (ndes (nd_enable (nds t1) nd k) t1) t" "safe (ndes (nd_disable (nds t1) nd k) t1) t"
    by (auto simp: safe_def tinv_def)
qed

lemma telnet_enabr_safe: "tinv t \<Longrightarrow> safe (telnet_enabr t) t"
  using ndes_safe(1) [of "clrf TF_ENABR t" "t_nd (tp t)" t ND_R]
  by (simp add: telnet_enabr_def Let_def safe_Some)

lemma tinv_rawq:
  "tinv t \<Longrightarrow> nq_inv q \<Longrightarrow> nq_cap q = unat TELNET_RAWQ_SIZE \<Longrightarrow> tinv (set_rawq q t)"
  by (simp add: tinv_def in_ok_def)

lemma tinv_rawqD:
  "tinv t \<Longrightarrow> nq_inv (t_rawq (tp t)) \<and> nq_cap (t_rawq (tp t)) = unat TELNET_RAWQ_SIZE"
  by (simp add: tinv_def in_ok_def)

lemma telnet_input_done_safe:
  assumes t: "tinv t" and nd: "nd = t_nd (tp t)"
  shows "safe (telnet_input_done nd t) t"
  unfolding telnet_input_done_def
proof (rule safe_bind)
  have "safe (telnet_send_ga (setf TF_GA t)) t" if "2 \<le> nq_avail (outq t)"
  proof -
    have "out_ok (setf TF_GA t)" "2 \<le> room (setf TF_GA t)"
      using that t avail_room [of t] by (simp_all add: tinv_def word_le_nat_alt)
    from keeps_safe [OF _ emits_keeps [OF telnet_send_ga_emits [OF this]]] t
    show ?thesis by (simp add: safe_into)
  qed
  then show "safe (if \<not> flag t (TF_SGA OR TF_GA) \<and> 2 \<le> nq_avail (outq t)
      then telnet_send_ga (setf TF_GA t) else Some t) t" using t by (simp add: safe_Some)
  fix t1 assume t1: "tinv t1" "t_nd (tp t1) = t_nd (tp t)"
  let ?t = "set_rawq (nq_init (t_rawq (tp t1))) t1"
  have i: "tinv ?t" using t1(1) tinv_rawqD [OF t1(1)] nq_init_law [of "t_rawq (tp t1)"]
    by (simp add: tinv_rawq)
  have "safe (telnet_enabr ?t \<bind> (\<lambda>t. ndes (nd_disable (nds t) nd ND_C) t)) ?t"
  proof (rule safe_bind [OF telnet_enabr_safe [OF i]])
    fix t2 assume "tinv t2" "t_nd (tp t2) = t_nd (tp ?t)"
    then show "safe (ndes (nd_disable (nds t2) nd ND_C) t2) t2" using t1 nd by (simp add: ndes_safe)
  qed
  then show "safe (telnet_enabr ?t \<bind> (\<lambda>t. ndes (nd_disable (nds t) nd ND_C) t)) t1"
    by (rule safe_into) simp
qed

lemma telnet_input_safe:
  "tinv t \<Longrightarrow> env_ok E \<Longrightarrow> nd = t_nd (tp t) \<Longrightarrow> safe (telnet_input E nd t) t"
proof (induction "length (nq_list (t_rawq (tp t)))" arbitrary: t rule: less_induct)
  case less
  note t = less.prems(1)
  show ?case
  proof (cases "nq_empty (t_rawq (tp t))")
    case True
    then show ?thesis using telnet_input_done_safe [OF t less.prems(3)] by (simp add: telnet_input.simps)
  next
    case ne: False
    show ?thesis
    proof (cases "nq_avail (outq t) < TELNET_OUTQ_REQUIRED")
      case True
      with ne less.prems ndes_safe(2) [of "setf TF_FLOWC t" nd t ND_C] show ?thesis
        by (simp add: telnet_input.simps)
    next
      case False
      then have room: "12 \<le> room t"
        using avail_room [of t] t by (simp add: tinv_def tn_sizes word_less_nat_alt)
      from ne obtain c cs where "nq_list (t_rawq (tp t)) = c # cs"
        by (auto simp: nq_empty_iff neq_Nil_conv)
      with nq_getc_law [of "t_rawq (tp t)" c cs] tinv_rawqD [OF t] obtain q where
        q: "nq_getc (t_rawq (tp t)) = Some (c, q)" "nq_inv q" "nq_cap q = unat TELNET_RAWQ_SIZE"
          "length (nq_list q) < length (nq_list (t_rawq (tp t)))" by auto
      let ?t = "set_rawq q t"
      have "byte_sound (telnet_byte E c ?t) ?t"
        using telnet_byte_sound [OF tinv_rawq [OF t q(2,3)] less.prems(2)] room by simp
      then obtain ret t1 where t1: "telnet_byte E c ?t = Some (ret, t1)" "tinv t1"
        "t_rawq (tp t1) = q" "t_nd (tp t1) = t_nd (tp t)" by (auto simp: byte_sound_def sound_def)
      from less.hyps [OF _ t1(2) less.prems(2)] t1 q(4) less.prems(3)
      have "safe (telnet_input E nd t1) t1" by simp
      with ne False q(1) t1 show ?thesis
        by (subst telnet_input.simps) (simp add: safe_Some safe_into)
    qed
  qed
qed

lemma telnet_read_block_safe:
  "tinv t \<Longrightarrow> nd = t_nd (tp t) \<Longrightarrow> safe (telnet_read_block nd t) t"
  using ndes_safe(2) [of "setf TF_ENABR t" nd t ND_R] by (simp add: telnet_read_block_def)

lemma telnet_read_tail_safe:
  assumes t: "tinv t" and nd: "nd = t_nd (tp t)"
  shows "safe (do {
           t \<leftarrow> (if \<not> flag t TF_FLOWC then ndes (nd_enable (nds t) nd ND_C) t else Some t);
           t \<leftarrow> telnet_enabr t;
           (if \<not> nq_full (t_rawq (tp t)) then Some t else telnet_read_block nd t) }) t"
proof (rule safe_bind)
  show "safe (if \<not> flag t TF_FLOWC then ndes (nd_enable (nds t) nd ND_C) t else Some t) t"
    using t nd ndes_safe(1) [of t nd t ND_C] by (simp add: safe_Some)
  fix t1 assume t1: "tinv t1" "t_nd (tp t1) = t_nd (tp t)"
  show "safe (telnet_enabr t1 \<bind>
      (\<lambda>t. if \<not> nq_full (t_rawq (tp t)) then Some t else telnet_read_block nd t)) t1"
    by (rule safe_bind [OF telnet_enabr_safe [OF t1(1)]])
      (use t1 nd in \<open>simp add: safe_Some telnet_read_block_safe\<close>)
qed

lemma telnet_read_safe:
  assumes t: "tinv t" and E: "env_ok E" and nd: "nd = t_nd (tp t)"
  shows "safe (telnet_read E nd t) t"
proof (cases "nq_full (t_rawq (tp t))")
  case True
  with telnet_read_block_safe [OF t nd] show ?thesis by (simp add: telnet_read_def)
next
  case nf: False
  let ?u = "if flag t TF_URGENT \<and> e_at_mark E (sock t)
     then let t1 = clrf TF_URGENT t in ndes (nd_enable (nds t1) nd ND_X) t1 else Some t"
  have "\<exists>t1. ?u = Some t1 \<and> tinv t1 \<and> t_nd (tp t1) = nd \<and> t_rawq (tp t1) = t_rawq (tp t)"
    using t nd ndes_enable [of "clrf TF_URGENT t" ND_X] by (auto simp: tinv_def)
  then obtain t1 where t1: "?u = Some t1" "tinv t1" "t_nd (tp t1) = nd" "t_rawq (tp t1) = t_rawq (tp t)"
    by blast
  from E have "recv_ok (e_recv E (sock t1))" by (simp add: env_ok_def)
  from nq_recv_law [OF conjunct1 [OF tinv_rawqD [OF t1(2)]] _ this, of "t_rblen (tp t1)"] nf t1(4)
  obtain q n cc where q: "nq_recv (e_recv E (sock t1)) (t_rawq (tp t1)) (t_rblen (tp t1)) = Some (q, n, cc)"
    "nq_inv q" "nq_cap q = nq_cap (t_rawq (tp t))" by fastforce
  let ?t = "t1\<lparr>tp := (tp t1)\<lparr>t_rawq := q, t_rblen := n\<rparr>, sock := e_recvd E (sock t1) cc\<rparr>"
  have i: "tinv ?t" using t1(2) q tinv_rawqD [OF t] by (simp add: tinv_def in_ok_def out_ok_def)
  then have "safe (telnet_disconnect E ?t) t"
    using keeps_safe [OF i game_keeps(3) [OF _ E]] t1(3) nd by (simp add: tinv_def safe_def)
  moreover have "safe (do {
      t \<leftarrow> (if \<not> flag ?t TF_FLOWC then ndes (nd_enable (nds ?t) nd ND_C) ?t else Some ?t);
      t \<leftarrow> telnet_enabr t;
      (if \<not> nq_full (t_rawq (tp t)) then Some t else telnet_read_block nd t) }) t"
    by (rule safe_into [OF telnet_read_tail_safe [OF i]]) (use t1(3) nd in simp_all)
  ultimately show ?thesis using nf q(1) unfolding telnet_read_def t1(1) by auto
qed

lemma telnet_truncated_safe:
  assumes t: "tinv t"
  shows "safe (if flag t TF_OVFLOUTQ \<and> nq_len (outq t) < TELNET_OUTQ_LOWAT
          then let t1 = clrf TF_OVFLOUTQ t
               in map_option (\<lambda>q. set_outq q t1) (nq_puts (outq t1) telnet_truncated)
          else Some t) t"
proof (cases "flag t TF_OVFLOUTQ \<and> nq_len (outq t) < TELNET_OUTQ_LOWAT")
  case True
  let ?t = "clrf TF_OVFLOUTQ t"
  have ok: "out_ok ?t" using t by (simp add: tinv_def)
  then have "outputs [] ?t ?t" by (simp add: outputs_def)
  moreover have "length (nq_list (outq ?t)) + length telnet_truncated \<le> nq_cap (outq ?t)"
    using True ok by (simp add: out_ok_def telnet_truncated_def nq_len_def tn_sizes word_less_nat_alt)
  ultimately obtain q where "nq_puts (outq ?t) telnet_truncated = Some q"
    "outputs telnet_truncated ?t (set_outq q ?t)" using outputs_puts by blast
  with True t show ?thesis by (simp add: safe_def tinv_def outputs_def)
next
  case False
  then show ?thesis by (simp only: if_False safe_Some t)
qed

lemma telnet_write_done_safe:
  assumes t: "tinv t" and nd: "nd = t_nd (tp t)"
  shows "safe (telnet_write_done nd t) t"
  unfolding telnet_write_done_def
proof (rule safe_bind [OF telnet_truncated_safe [OF t]])
  fix t1 assume t1: "tinv t1" "t_nd (tp t1) = t_nd (tp t)"
  show "safe ((if flag t1 TF_FLOWC \<and> nq_len (outq t1) < TELNET_OUTQ_HIWAT
      then let t1 = clrf TF_FLOWC t1 in ndes (nd_enable (nds t1) nd ND_C) t1 else Some t1) \<bind>
      (\<lambda>t. if \<not> nq_empty (outq t) then Some t
           else let t1 = setf TF_ENABW (set_outq (nq_init (outq t)) t)
                in ndes (nd_disable (nds t1) nd ND_W) t1)) t1"
  proof (rule safe_bind)
    show "safe (if flag t1 TF_FLOWC \<and> nq_len (outq t1) < TELNET_OUTQ_HIWAT
      then let t1 = clrf TF_FLOWC t1 in ndes (nd_enable (nds t1) nd ND_C) t1 else Some t1) t1"
      using t1 nd ndes_safe(1) [of "clrf TF_FLOWC t1" nd t1 ND_C] by (simp add: safe_Some)
    fix t2 assume t2: "tinv t2" "t_nd (tp t2) = t_nd (tp t1)"
    then have "tinv (setf TF_ENABW (set_outq (nq_init (outq t2)) t2))"
      using nq_init_law [of "outq t2"] by (auto simp: tinv_def out_ok_def)
    from ndes_safe(2) [OF this, of nd t2 ND_W] t1 t2 nd
    show "safe (if \<not> nq_empty (outq t2) then Some t2
        else let t1 = setf TF_ENABW (set_outq (nq_init (outq t2)) t2)
             in ndes (nd_disable (nds t1) nd ND_W) t1) t2" by (simp add: safe_Some)
  qed
qed

lemma telnet_write_safe:
  assumes t: "tinv t" and E: "env_ok E" and nd: "nd = t_nd (tp t)"
  shows "safe (telnet_write E nd t) t"
proof (cases "nq_empty (outq t)")
  case True
  with telnet_write_done_safe [OF t nd] show ?thesis by (simp add: telnet_write_def)
next
  case False
  from t have "out_ok t" by (simp add: tinv_def)
  from outq_send_law [OF this E] obtain cc t1 where t1: "outq_send E t = Some (cc, t1)" "out_ok t1"
    "in_side t1 = in_side t" by blast
  have i: "tinv t1" "t_nd (tp t1) = nd" "t_nd (tp t1) = t_nd (tp t)"
    using t t1 nd in_ok_in_side [OF t1(3)] by (simp_all add: tinv_def in_side_def)
  have "safe (telnet_disconnect E t1) t" "safe (telnet_write_done nd t1) t"
    using keeps_safe [OF i(1) game_keeps(3) [OF t1(2) E]] telnet_write_done_safe [OF i(1) i(2) [symmetric]] i(3)
    by (simp_all add: safe_def)
  with False t1(1) show ?thesis by (simp add: telnet_write_def)
qed

lemma telnet_exception_safe:
  assumes t: "tinv t" and nd: "nd = t_nd (tp t)"
  shows "safe (telnet_exception nd t) t"
proof -
  let ?t = "setf (TF_SYNCH OR TF_URGENT) t"
  have "canq_ok (nq_init (t_canq (tp ?t)))"
    using tinv_canqD [OF t] canq_ok_init by (simp add: canq_ok_def)
  with t have "tinv (set_canq (nq_init (t_canq (tp ?t))) ?t)" by (intro tinv_canq) simp_all
  from ndes_safe(2) [OF this, of nd t ND_X] nd show ?thesis by (simp add: telnet_exception_def)
qed

lemma telnet_shutdown_law:
  assumes ok: "out_ok t" and E: "env_ok E"
  shows "\<exists>w. telnet_shutdown E (t_nd (tp t)) t = Some w \<and> nd_heap (w_nds w) (t_nd (tp t)) = None \<and>
     (\<exists>xs. nd_ok (w_nds w) xs)"
proof -
  from telnet_flush_law [OF ok E] obtain t1 where t1: "telnet_flush E t = Some t1" "out_ok t1"
    "in_side t1 = in_side t" by blast
  then obtain ys zs where "nd_ok (nds t1) (ys @ t_nd (tp t) # zs)"
    by (auto simp: out_ok_def in_side_def in_set_conv_decomp)
  from nd_detach_law [OF this] t1(1) show ?thesis
    by (auto simp: telnet_shutdown_def telnet_free_def)
qed

lemma telnet_cleanup_safe:
  assumes t: "tinv t" and E: "env_ok E" and nd: "nd = t_nd (tp t)"
  shows "\<exists>r. telnet_cleanup E nd t = Some r \<and>
     (case r of Inl w \<Rightarrow> \<exists>xs. nd_ok (w_nds w) xs
              | Inr t' \<Rightarrow> tinv t' \<and> t_nd (tp t') = nd)"
proof (cases "flag t TF_ATTACH")
  case True
  with telnet_input_safe [OF t E nd] nd show ?thesis by (auto simp: telnet_cleanup_def safe_def)
next
  case False
  from t have "out_ok t" by (simp add: tinv_def)
  from telnet_shutdown_law [OF this E] False nd show ?thesis by (auto simp: telnet_cleanup_def)
qed

lemma telnet_alloc_ok:
  assumes "nd_ok m xs" "a \<in> set xs"
  shows "tinv \<lparr>tp = telnet_alloc\<lparr>t_nd := a\<rparr>, nds = m, sock = s, wire = []\<rparr>"
proof -
  have sz: "0 < TELNET_RAWQ_SIZE" "0 < TELNET_CANQ_SIZE" "0 < TELNET_OUTQ_SIZE" by (simp_all add: tn_sizes)
  have "qrptr (nq_alloc TELNET_CANQ_SIZE) = 0" by (simp add: nq_alloc_def nq_init_def)
  then show ?thesis
    using sz [THEN nq_alloc_law] assms
    by (auto simp: tinv_def in_ok_def out_ok_def canq_ok_def telnet_alloc_def)
qed

lemma telnet_attach_simps [simp]:
  "tinv (telnet_attach ip t) = tinv t" "t_nd (tp (telnet_attach ip t)) = t_nd (tp t)"
  by (simp_all add: telnet_attach_def Let_def setf_def tinv_def in_ok_def out_ok_def)

lemma telnet_accept_session:
  assumes m: "nd_ok m xs" and a: "nd_heap m a = None" and fd: "fd_ok fd" "nd_ndesc m fd = None"
    and E: "env_ok E"
  shows "\<exists>r. telnet_accept E (Inr fd) a cb new_player m s = Some r \<and>
    (case r of Accept_session t \<Rightarrow> tinv t \<and> t_nd (tp t) = a \<and> fst (new_player s) \<noteq> None
             | Accept_refused w \<Rightarrow> nd_heap (w_nds w) a = None \<and> (\<exists>ys. nd_ok (w_nds w) ys) \<and>
                 fst (new_player s) = None
             | _ \<Rightarrow> False)"
proof -
  obtain ip cs s' where np: "new_player s = (ip, cs, s')" by (cases "new_player s") auto
  from nd_attach_law [OF m a fd, of "Some Telnet_read" "Some Telnet_write" "Some Telnet_exception"
      "Some Telnet_cleanup" "Some Telnet_shutdown" "Some cb"] obtain m1 where
    m1: "nd_attach m a fd (Some Telnet_read) (Some Telnet_write) (Some Telnet_exception)
           (Some Telnet_cleanup) (Some Telnet_shutdown) (Some cb) = Some m1" "nd_ok m1 (xs @ [a])" by blast
  let ?t0 = "\<lparr>tp = telnet_alloc\<lparr>t_nd := a\<rparr>, nds = m1, sock = s, wire = []\<rparr>\<lparr>sock := s'\<rparr>"
  have t0: "tinv ?t0" using telnet_alloc_ok [OF m1(2), of a s'] by simp
  then have "keeps (telnet_calls E cs ?t0) ?t0" by (intro telnet_calls_keeps E) (simp add: tinv_def)
  with keeps_safe [OF t0] obtain t1 where
    t1: "telnet_calls E cs ?t0 = Some t1" "tinv t1" "t_nd (tp t1) = a" by (auto simp: safe_def)
  show ?thesis
  proof (cases ip)
    case None
    from t1(2) have "out_ok t1" by (simp add: tinv_def)
    from telnet_shutdown_law [OF this E] None np m1(1) t1 show ?thesis
      by (auto simp: telnet_accept_def)
  next
    case (Some p)
    have "safe (ndes (nd_enable (nds (telnet_attach p t1)) a k) (telnet_attach p t1)) t1" for k
      using t1 by (intro ndes_safe) simp_all
    with Some np m1(1) t1 show ?thesis by (fastforce simp: telnet_accept_def Let_def safe_def)
  qed
qed

end
