(* ===== verification/Telnet_Protocol.thy ===== *)
theory Telnet_Protocol
  imports Telnet_Safety
begin

text \<open>
  What a telnet session does: the sessions the driver can reach, the lines it delivers to the game,
  the bytes it puts on the wire, and the option negotiation as an instance of the Q method of RFC 1143.
\<close>

section \<open>Delivery of lines\<close>

text \<open>The NVT representation of a text character, and the encoder of \<^verbatim>\<open>telnet_output\<close> in terms of it.\<close>

definition text_char :: "u8 \<Rightarrow> bool" where
  "text_char c \<longleftrightarrow> c \<notin> {NUL, BS, LF, CR, DEL}"

definition nvt_char :: "u8 \<Rightarrow> u8 list" where
  "nvt_char c = (if c = LF then [CR, LF] else if c = IAC then [IAC, IAC] else [c])"

lemma nvt_char_IAC: "nvt_char IAC = [IAC, IAC]"
  by (simp add: nvt_char_def tn_bytes)

lemma nvt_char_plain: "c \<noteq> IAC \<Longrightarrow> c \<noteq> LF \<Longrightarrow> nvt_char c = [c]"
  by (simp add: nvt_char_def)

lemma telnet_encode_nvt:
  "k + 2 * length cs \<le> unat TELNET_OUTQ_SIZE + 1 \<Longrightarrow> telnet_encode k cs = concat (map nvt_char cs)"
proof (induction cs arbitrary: k)
  case (Cons c cs)
  then show ?case using Cons.IH [of "k + 1"] Cons.IH [of "k + 2"] by (auto simp: nvt_char_def)
qed simp

text \<open>A session that can take text: the bytes of a line reach the canonical queue and nothing else.\<close>

definition receptive :: "'s tsys \<Rightarrow> bool" where
  "receptive t \<longleftrightarrow> tinv t \<and> t_state (tp t) = TS_DATA \<and> \<not> flag t (TF_OVFLCANQ OR TF_SYNCH) \<and>
     TELNET_OUTQ_REQUIRED \<le> nq_avail (outq t)"

definition same_world :: "'s tsys \<Rightarrow> 's tsys \<Rightarrow> bool" where
  "same_world t t' \<longleftrightarrow> sock t' = sock t \<and> wire t' = wire t \<and> nds t' = nds t \<and> outq t' = outq t \<and>
     t_ip (tp t') = t_ip (tp t) \<and> t_flags (tp t') = t_flags (tp t) \<and> t_nd (tp t') = t_nd (tp t) \<and>
     t_optb (tp t') = t_optb (tp t)"

lemma same_world_simps [simp]:
  "same_world t t" "same_world t (set_state st t1) = same_world t t1"
  "same_world t (set_rawq q t1) = same_world t t1" "same_world t (set_canq q t1) = same_world t t1"
  by (simp_all add: same_world_def tsys_upd)

lemma same_world_trans: "same_world t t1 \<Longrightarrow> same_world t1 t2 \<Longrightarrow> same_world t t2"
  by (simp add: same_world_def)

lemma telnet_input_step:
  assumes t: "tinv t" and av: "TELNET_OUTQ_REQUIRED \<le> nq_avail (outq t)" and raw: "nq_list (t_rawq (tp t)) = c # cs"
  shows "\<exists>q. nq_list q = cs \<and> tinv (set_rawq q t) \<and>
     telnet_input E nd t = telnet_byte E c (set_rawq q t) \<bind>
       (\<lambda>(ret, t1). if ret then Some t1 else telnet_input E nd t1)"
proof -
  from nq_getc_law [of "t_rawq (tp t)" c cs] tinv_rawqD [OF t] raw obtain q where
    q: "nq_getc (t_rawq (tp t)) = Some (c, q)" "nq_inv q" "nq_cap q = unat TELNET_RAWQ_SIZE" "nq_list q = cs"
    by auto
  have "\<not> nq_empty (t_rawq (tp t))" using raw by (simp add: nq_empty_iff)
  then have "telnet_input E nd t = telnet_byte E c (set_rawq q t) \<bind>
       (\<lambda>(ret, t1). if ret then Some t1 else telnet_input E nd t1)"
    using av q(1) by (subst telnet_input.simps) (simp add: not_less [symmetric])
  with q tinv_rawq [OF t] show ?thesis by blast
qed

lemma flag_same: "same_world t t' \<Longrightarrow> flag t' m = flag t m"
  by (simp add: same_world_def flag_def)

lemma receptive_step:
  assumes r: "receptive t" and raw: "nq_list (t_rawq (tp t)) = c # cs" and c: "text_char c" "c \<noteq> IAC"
    and len: "Suc (length (nq_list (t_canq (tp t)))) < unat TELNET_CANQ_SIZE"
  shows "\<exists>t'. telnet_input E nd t = telnet_input E nd t' \<and> receptive t' \<and> same_world t t' \<and>
     nq_list (t_rawq (tp t')) = cs \<and> nq_list (t_canq (tp t')) = nq_list (t_canq (tp t)) @ [c]"
proof -
  from r have t: "tinv t" and av: "TELNET_OUTQ_REQUIRED \<le> nq_avail (outq t)"
    and st: "t_state (tp t) = TS_DATA" and fl: "\<not> flag t (TF_OVFLCANQ OR TF_SYNCH)"
    by (simp_all add: receptive_def)
  from telnet_input_step [OF t av raw, of E nd] obtain q where q: "nq_list q = cs" "tinv (set_rawq q t)"
    "telnet_input E nd t = telnet_byte E c (set_rawq q t) \<bind>
       (\<lambda>(ret, t1). if ret then Some t1 else telnet_input E nd t1)" by blast
  have nf: "\<not> nq_full (t_canq (tp t))"
    using len tinv_canqD [OF t] by (auto simp: nq_full_iff canq_ok_def)
  from canq_ok_putc [OF tinv_canqD [OF t] this, of c] obtain q' where
    q': "nq_putc (t_canq (tp t)) c = Some q'" "nq_list q' = nq_list (t_canq (tp t)) @ [c]" "canq_ok q'"
    using tinv_canqD [OF t] c by (auto simp: canq_ok_def text_char_def NUL_def)
  let ?t = "set_canq q' (set_rawq q t)"
  have w: "same_world t ?t" by simp
  have "telnet_byte E c (set_rawq q t) = Some (False, ?t)"
    using c st fl nf q'(1) flag_same [of t "set_rawq q t"]
    by (simp add: telnet_byte_def telnet_data_def text_char_def telnet_canq_putc_def cont_def)
  moreover have "receptive ?t"
    using tinv_canq [OF q(2) q'(3)] fl st av flag_same [OF w] by (simp add: receptive_def)
  ultimately show ?thesis using q q'(2) w by (intro exI [of _ ?t]) simp
qed

lemma receptive_escape:
  assumes r: "receptive t" and raw: "nq_list (t_rawq (tp t)) = IAC # IAC # cs"
    and len: "Suc (length (nq_list (t_canq (tp t)))) < unat TELNET_CANQ_SIZE"
  shows "\<exists>t'. telnet_input E nd t = telnet_input E nd t' \<and> receptive t' \<and> same_world t t' \<and>
     nq_list (t_rawq (tp t')) = cs \<and> nq_list (t_canq (tp t')) = nq_list (t_canq (tp t)) @ [IAC]"
proof -
  from r have t: "tinv t" and av: "TELNET_OUTQ_REQUIRED \<le> nq_avail (outq t)"
    and st: "t_state (tp t) = TS_DATA" and fl: "\<not> flag t (TF_OVFLCANQ OR TF_SYNCH)"
    by (simp_all add: receptive_def)
  from telnet_input_step [OF t av raw, of E nd] obtain q where q: "nq_list q = IAC # cs" "tinv (set_rawq q t)"
    "telnet_input E nd t = telnet_byte E IAC (set_rawq q t) \<bind>
       (\<lambda>(ret, t1). if ret then Some t1 else telnet_input E nd t1)" by blast
  let ?t = "set_state TS_IAC (set_rawq q t)"
  have 1: "telnet_byte E IAC (set_rawq q t) = Some (False, ?t)"
    using st by (simp add: telnet_byte_def telnet_data_def cont_def tn_bytes)
  have i: "tinv ?t" "TELNET_OUTQ_REQUIRED \<le> nq_avail (outq ?t)" "nq_list (t_rawq (tp ?t)) = IAC # cs"
    using q av by simp_all
  from telnet_input_step [OF i, of E nd] obtain p where p: "nq_list p = cs" "tinv (set_rawq p ?t)"
    "telnet_input E nd ?t = telnet_byte E IAC (set_rawq p ?t) \<bind>
       (\<lambda>(ret, t1). if ret then Some t1 else telnet_input E nd t1)" by blast
  have nf: "\<not> nq_full (t_canq (tp t))"
    using len tinv_canqD [OF t] by (auto simp: nq_full_iff canq_ok_def)
  from canq_ok_putc [OF tinv_canqD [OF t] this, of IAC] obtain q' where
    q': "nq_putc (t_canq (tp t)) IAC = Some q'" "nq_list q' = nq_list (t_canq (tp t)) @ [IAC]" "canq_ok q'"
    using tinv_canqD [OF t] by (auto simp: canq_ok_def IAC_def)
  let ?u = "set_canq q' (set_state TS_DATA (set_rawq p ?t))"
  have w: "same_world t ?u" "same_world t (set_state TS_DATA (set_rawq p ?t))" by simp_all
  have "telnet_byte E IAC (set_rawq p ?t) = Some (False, ?u)"
    using fl nf q'(1) flag_same [OF w(2)]
    by (simp add: telnet_byte_def telnet_iac_def telnet_canq_putc_def cont_def tn_bytes)
  moreover have "receptive ?u"
    using tinv_canq [OF tinv_state [OF _ p(2)] q'(3), of TS_DATA] fl av flag_same [OF w(1)]
    by (simp add: receptive_def)
  ultimately show ?thesis using q 1 p q'(2) w by (intro exI [of _ ?u]) simp
qed

lemma receptive_text:
  assumes "receptive t" "nq_list (t_rawq (tp t)) = concat (map nvt_char xs) @ rest"
    "\<forall>c\<in>set xs. text_char c" "length (nq_list (t_canq (tp t))) + length xs < unat TELNET_CANQ_SIZE"
  shows "\<exists>t'. telnet_input E nd t = telnet_input E nd t' \<and> receptive t' \<and> same_world t t' \<and>
     nq_list (t_rawq (tp t')) = rest \<and> nq_list (t_canq (tp t')) = nq_list (t_canq (tp t)) @ xs"
  using assms
proof (induction xs arbitrary: t)
  case Nil
  then show ?case by (intro exI [of _ t]) simp
next
  case (Cons c xs)
  from Cons.prems have len: "Suc (length (nq_list (t_canq (tp t)))) < unat TELNET_CANQ_SIZE" "text_char c"
    "c \<noteq> LF" by (auto simp: text_char_def)
  have "\<exists>t1. telnet_input E nd t = telnet_input E nd t1 \<and> receptive t1 \<and> same_world t t1 \<and>
     nq_list (t_rawq (tp t1)) = concat (map nvt_char xs) @ rest \<and>
     nq_list (t_canq (tp t1)) = nq_list (t_canq (tp t)) @ [c]"
  proof (cases "c = IAC")
    case True
    then have raw: "nq_list (t_rawq (tp t)) = IAC # IAC # concat (map nvt_char xs) @ rest"
      using Cons.prems(2) nvt_char_IAC by simp
    from receptive_escape [OF Cons.prems(1) this len(1)] True show ?thesis by simp
  next
    case False
    then have "nq_list (t_rawq (tp t)) = c # concat (map nvt_char xs) @ rest"
      using Cons.prems(2) nvt_char_plain [OF False len(3)] by simp
    from receptive_step [OF Cons.prems(1) this len(2) False len(1)] show ?thesis .
  qed
  then obtain t1 where t1: "telnet_input E nd t = telnet_input E nd t1" "receptive t1" "same_world t t1"
     "nq_list (t_rawq (tp t1)) = concat (map nvt_char xs) @ rest"
     "nq_list (t_canq (tp t1)) = nq_list (t_canq (tp t)) @ [c]" by blast
  from Cons.IH [OF t1(2,4)] Cons.prems(3,4) t1 show ?case
    by (auto intro: same_world_trans)
qed

lemma receptive_line:
  assumes r: "receptive t" and E: "env_ok E" and at: "flag t TF_ATTACH"
    and raw: "nq_list (t_rawq (tp t)) = CR # c # rest"
    and len: "length (nq_list (t_canq (tp t))) < unat TELNET_CANQ_SIZE"
  shows "\<exists>t1 t2. interactive_input E (t_ip (tp t)) (nq_list (t_canq (tp t))) t1 = Some t2 \<and>
     telnet_input E nd t =
       Some (set_state TS_DATA (clrf TF_GA (set_canq (nq_init (t_canq (tp t2))) t2))) \<and>
     same_world t t1 \<and> nq_list (t_rawq (tp t1)) = rest"
proof -
  from r have t: "tinv t" and av: "TELNET_OUTQ_REQUIRED \<le> nq_avail (outq t)"
    and st: "t_state (tp t) = TS_DATA" and fl: "\<not> flag t (TF_OVFLCANQ OR TF_SYNCH)"
    by (simp_all add: receptive_def)
  from telnet_input_step [OF t av raw, of E nd] obtain q where q: "nq_list q = c # rest" "tinv (set_rawq q t)"
    "telnet_input E nd t = telnet_byte E CR (set_rawq q t) \<bind>
       (\<lambda>(ret, t1). if ret then Some t1 else telnet_input E nd t1)" by blast
  let ?t = "set_state TS_CR (set_rawq q t)"
  have 1: "telnet_byte E CR (set_rawq q t) = Some (False, ?t)"
    using st by (simp add: telnet_byte_def telnet_data_def cont_def tn_bytes)
  have i: "tinv ?t" "TELNET_OUTQ_REQUIRED \<le> nq_avail (outq ?t)" "nq_list (t_rawq (tp ?t)) = c # rest"
    using q av by simp_all
  from telnet_input_step [OF i, of E nd] obtain p where p: "nq_list p = rest" "tinv (set_rawq p ?t)"
    "telnet_input E nd ?t = telnet_byte E c (set_rawq p ?t) \<bind>
       (\<lambda>(ret, t1). if ret then Some t1 else telnet_input E nd t1)" by blast
  let ?u = "set_rawq p ?t"
  have w: "same_world t ?u" by simp
  have "\<not> flag ?u TF_SYNCH" using fl flag_same [OF w]
    by (simp add: flag_def has_flag_mask_or)
  from telnet_eol_law [OF p(2) E this] obtain t1 t2 x where
    t2: "telnet_eol E ?u = Some (clrf TF_GA (set_canq (nq_init (t_canq (tp t2))) t2))"
      "(if flag ?u TF_ATTACH then interactive_input E (t_ip (tp ?u)) (line_of ?u) t1 else Some t1) = Some t2"
      "t1 = (if nq_full (t_canq (tp ?u)) then clrf TF_OVFLCANQ ?u else set_canq x ?u)" by blast
  have nf: "\<not> nq_full (t_canq (tp t))"
    using len tinv_canqD [OF t] by (auto simp: nq_full_iff canq_ok_def)
  have "t_ip (tp ?u) = t_ip (tp t)" "line_of ?u = nq_list (t_canq (tp t))" "t1 = set_canq x ?u"
    using nf t2(3) w by (simp_all add: line_of_def same_world_def)
  with t2 p at flag_same [OF w] 1 q(3) show ?thesis
    by (intro exI [of _ t1] exI [of _ t2]) (simp add: telnet_byte_def stop_def)
qed

lemma nvt_line:
  "2 * length xs + 2 \<le> unat TELNET_OUTQ_SIZE \<Longrightarrow>
   telnet_encode 0 (xs @ [LF]) @ rest = concat (map nvt_char xs) @ CR # LF # rest"
  by (subst telnet_encode_nvt) (simp_all add: nvt_char_def)

section \<open>A session for the witnesses\<close>

text \<open>A socket that accepts everything, a game that answers every line with a prompt.\<close>

definition demo_env :: "nat tenv" where
  "demo_env = \<lparr>e_send = (\<lambda>s bs. (int (length bs), s)), e_recv = (\<lambda>s n. if 2 \<le> n then Some [104, 105] else None),
     e_recvd = (\<lambda>s cc. s + 1), e_errno = (\<lambda>s. EWOULDBLOCK), e_at_mark = (\<lambda>s. False),
     e_input = (\<lambda>s ip line. ([Call_output [62, 32]], s + 1)), e_remove = (\<lambda>s ip. ([Call_detach], s))\<rparr>"

definition demo_nds :: tmgr where
  "demo_nds = the (nd_attach nd_init 0 3 (Some Telnet_read) (Some Telnet_write) (Some Telnet_exception)
     (Some Telnet_cleanup) (Some Telnet_shutdown) (Some 0))"

definition demo_session :: "u8 list \<Rightarrow> nat tsys" where
  "demo_session raw = telnet_attach 5
     (set_rawq (the (nq_puts (nq_alloc TELNET_RAWQ_SIZE) raw))
       \<lparr>tp = telnet_alloc, nds = demo_nds, sock = 0, wire = []\<rparr>)"

lemma demo_env_ok: "env_ok demo_env"
  by (auto simp: env_ok_def demo_env_def send_ok_def recv_ok_def split: if_splits)

lemma demo_nds_ok: "nd_ok demo_nds [0]"
  using nd_attach_law [OF nd_ok_init, of 0 3 "Some Telnet_read" "Some Telnet_write" "Some Telnet_exception"
      "Some Telnet_cleanup" "Some Telnet_shutdown" "Some (0 :: nat)"]
  by (auto simp: demo_nds_def nd_init_def fd_ok_def FD_SETSIZE_def)

lemma demo_rawq:
  assumes "length raw \<le> 256"
  shows "\<exists>q. nq_puts (nq_alloc TELNET_RAWQ_SIZE) raw = Some q \<and> nq_inv q \<and>
    nq_cap q = unat TELNET_RAWQ_SIZE \<and> nq_list q = raw"
proof -
  have a: "nq_inv (nq_alloc TELNET_RAWQ_SIZE)" "nq_cap (nq_alloc TELNET_RAWQ_SIZE) = unat TELNET_RAWQ_SIZE"
    "nq_list (nq_alloc TELNET_RAWQ_SIZE) = []" using nq_alloc_law [of TELNET_RAWQ_SIZE]
    by (simp_all add: tn_sizes)
  moreover have "unat (qlen (nq_alloc TELNET_RAWQ_SIZE)) = 0" by (simp add: nq_alloc_def nq_init_def)
  ultimately show ?thesis
    using nq_puts_law [OF a(1), of raw] assms by (auto simp: tn_sizes)
qed

lemma demo_session_ok:
  assumes "length raw \<le> 256"
  shows "tinv (demo_session raw)" "nq_list (t_rawq (tp (demo_session raw))) = raw"
    "t_nd (tp (demo_session raw)) = 0"
proof -
  from demo_rawq [OF assms] obtain q where
    q: "nq_puts (nq_alloc TELNET_RAWQ_SIZE) raw = Some q" "nq_inv q" "nq_cap q = unat TELNET_RAWQ_SIZE"
      "nq_list q = raw" by blast
  have "telnet_alloc\<lparr>t_nd := 0\<rparr> = telnet_alloc" by (simp add: telnet_alloc_def)
  with telnet_alloc_ok [OF demo_nds_ok, of 0 "0 :: nat"]
  have "tinv \<lparr>tp = telnet_alloc, nds = demo_nds, sock = 0 :: nat, wire = []\<rparr>" by simp
  with q show "tinv (demo_session raw)" by (simp add: demo_session_def tinv_rawq)
  show "nq_list (t_rawq (tp (demo_session raw))) = raw" "t_nd (tp (demo_session raw)) = 0"
    using q by (simp_all add: demo_session_def telnet_attach_def Let_def) (simp add: telnet_alloc_def tsys_upd)
qed

lemma demo_session_flags:
  "t_state (tp (demo_session raw)) = TS_DATA" "flag (demo_session raw) TF_ATTACH"
  "\<not> flag (demo_session raw) (TF_OVFLCANQ OR TF_SYNCH)" "outq (demo_session raw) = nq_alloc TELNET_OUTQ_SIZE"
  "t_canq (tp (demo_session raw)) = nq_alloc TELNET_CANQ_SIZE"
  by (simp_all add: demo_session_def telnet_attach_def telnet_alloc_def Let_def flag_def tsys_upd
      has_flag_def tf_defs)

lemma demo_receptive: "length raw \<le> 256 \<Longrightarrow> receptive (demo_session raw)"
  by (simp add: receptive_def demo_session_ok demo_session_flags nq_alloc_def nq_init_def nq_avail_def tn_sizes)

section \<open>The sessions of a run\<close>

text \<open>
  Every callback the descriptor manager may run on a session, every call of the game on it, and the
  steps of everything else (other sessions register and leave, sockets and game change).
\<close>

inductive session :: "'s tenv \<Rightarrow> 's tsys \<Rightarrow> bool" for E :: "'s tenv" where
  s_accept: "nd_ok m xs \<Longrightarrow> nd_heap m a = None \<Longrightarrow> fd_ok fd \<Longrightarrow> nd_ndesc m fd = None \<Longrightarrow>
    telnet_accept E (Inr fd) a cb new_player m s = Some (Accept_session t) \<Longrightarrow> session E t"
| s_read: "session E t \<Longrightarrow> telnet_read E (t_nd (tp t)) t = Some t' \<Longrightarrow> session E t'"
| s_write: "session E t \<Longrightarrow> telnet_write E (t_nd (tp t)) t = Some t' \<Longrightarrow> session E t'"
| s_exception: "session E t \<Longrightarrow> telnet_exception (t_nd (tp t)) t = Some t' \<Longrightarrow> session E t'"
| s_cleanup: "session E t \<Longrightarrow> telnet_cleanup E (t_nd (tp t)) t = Some (Inr t') \<Longrightarrow> session E t'"
| s_game: "session E t \<Longrightarrow> telnet_call E c t = Some t' \<Longrightarrow> session E t'"
| s_others: "session E t \<Longrightarrow> nd_ok m xs \<Longrightarrow> t_nd (tp t) \<in> set xs \<Longrightarrow> session E (t\<lparr>nds := m, sock := s\<rparr>)"

lemma safeD: "safe r t \<Longrightarrow> r = Some t' \<Longrightarrow> tinv t'"
  by (auto simp: safe_def)

lemma session_tinv: "session E t \<Longrightarrow> env_ok E \<Longrightarrow> tinv t"
proof (induction rule: session.induct)
  case (s_accept m xs a fd cb new_player s t)
  from telnet_accept_session [OF s_accept(1-4) s_accept(6), of cb new_player s] s_accept(5)
  show ?case by auto
next
  case (s_read t t')
  then show ?case using telnet_read_safe [of t E] safeD by blast
next
  case (s_write t t')
  then show ?case using telnet_write_safe [of t E] safeD by blast
next
  case (s_exception t t')
  then show ?case using telnet_exception_safe [of t] safeD by blast
next
  case (s_cleanup t t')
  then show ?case using telnet_cleanup_safe [of t E] by fastforce
next
  case (s_game t c t')
  then have "tinv t" "out_ok t" by (simp_all add: tinv_def)
  then show ?case using keeps_safe [OF _ telnet_call_keeps [of t E c]] s_game safeD by blast
next
  case (s_others t m xs s)
  then show ?case by (auto simp: tinv_def in_ok_def out_ok_def)
qed

section \<open>Option negotiation as the Q method\<close>

text \<open>
  One side of one option in RFC 1143: the answer of an endpoint, in state \<open>st\<close> with queue \<open>q\<close>, to the
  peer's positive or negative request.  \<open>agree\<close> is its policy; the third component is the reply.
\<close>

fun q_recv :: "bool \<Rightarrow> bool \<Rightarrow> ostate \<Rightarrow> oqueue \<Rightarrow> ostate \<times> oqueue \<times> bool option" where
  "q_recv agree True OS_NO q = (if agree then (OS_YES, q, Some True) else (OS_NO, q, Some False))"
| "q_recv agree True OS_YES q = (OS_YES, q, None)"
| "q_recv agree True OS_WANTNO OQ_EMPTY = (OS_NO, OQ_EMPTY, None)"
| "q_recv agree True OS_WANTNO OQ_OPPOSITE = (OS_YES, OQ_EMPTY, None)"
| "q_recv agree True OS_WANTYES OQ_EMPTY = (OS_YES, OQ_EMPTY, None)"
| "q_recv agree True OS_WANTYES OQ_OPPOSITE = (OS_WANTNO, OQ_EMPTY, Some False)"
| "q_recv agree False OS_NO q = (OS_NO, q, None)"
| "q_recv agree False OS_YES q = (OS_NO, q, Some False)"
| "q_recv agree False OS_WANTNO OQ_EMPTY = (OS_NO, OQ_EMPTY, None)"
| "q_recv agree False OS_WANTNO OQ_OPPOSITE = (OS_WANTYES, OQ_EMPTY, Some True)"
| "q_recv agree False OS_WANTYES q = (OS_NO, OQ_EMPTY, None)"

text \<open>The two sides of the option table, and the bytes that stand for a reply on each side.\<close>

definition side :: "bool \<Rightarrow> 's tsys \<Rightarrow> oindex \<Rightarrow> ostate \<times> oqueue" where
  "side us t i = (let o' = t_optb (tp t) i in if us then (o_us o', o_usq o') else (o_him o', o_himq o'))"

definition reply_bytes :: "bool \<Rightarrow> u8 \<Rightarrow> bool option \<Rightarrow> u8 list" where
  "reply_bytes us opt r =
     (case r of None \<Rightarrow> [] | Some b \<Rightarrow>
        [IAC, if us then (if b then WILL else WONT) else (if b then DO else DONT), opt])"

text \<open>The effect of an operation on the table and the stream.\<close>

definition q_effect :: "bool \<Rightarrow> u8 \<Rightarrow> oindex \<Rightarrow> ostate \<times> oqueue \<times> bool option \<Rightarrow>
    's tsys option \<Rightarrow> 's tsys \<Rightarrow> bool" where
  "q_effect us opt i e r t \<longleftrightarrow> (\<exists>t'. r = Some t' \<and> side us t' i = (fst e, fst (snd e)) \<and>
     (\<forall>u j. (u, j) \<noteq> (us, i) \<longrightarrow> side u t' j = side u t j) \<and>
     stream t' = stream t @ reply_bytes us opt (snd (snd e)))"

lemma reply_byte:
  "reply_bytes True opt (Some True) = [IAC, WILL, opt]" "reply_bytes True opt (Some False) = [IAC, WONT, opt]"
  "reply_bytes False opt (Some True) = [IAC, DO, opt]" "reply_bytes False opt (Some False) = [IAC, DONT, opt]"
  by (simp_all add: reply_bytes_def)

lemma outq_putc_outputs:
  assumes "outputs bs t t1" "0 < room t1"
  shows "\<exists>t2. outq_putc c t1 = Some t2 \<and> outputs (bs @ [c]) t t2 \<and> room t2 = room t1 - 1"
proof -
  from assms have "nq_inv (outq t1)" "length (nq_list (outq t1)) < nq_cap (outq t1)"
    by (simp_all add: outputs_def out_ok_def room_def)
  from nq_putc_law [OF this, of c] obtain q where q: "nq_putc (outq t1) c = Some q" "nq_inv q"
    "nq_cap q = nq_cap (outq t1)" "nq_list q = nq_list (outq t1) @ [c]" by blast
  have "outputs (bs @ [c]) t (set_outq q t1)"
    using q(2,3,4) assms(1) unfolding outputs_def out_ok_def stream_def flag_def in_side_def
    by (simp add: set_outq_def) metis
  moreover have "room (set_outq q t1) = room t1 - 1"
    using arg_cong [OF q(4), of length] by (simp add: room_def)
  ultimately show ?thesis using q(1) by (simp add: outq_putc_def)
qed

lemma put3_outputs:
  assumes "out_ok t" "3 \<le> room t"
  shows "\<exists>t'. outq_putc a t \<bind> (\<lambda>t. outq_putc b t \<bind> (\<lambda>t. outq_putc c t \<bind> telnet_enabw)) = Some t' \<and>
    outputs [a, b, c] t t'"
proof -
  have "outputs [] t t" using assms(1) by (simp add: outputs_def)
  from outq_putc_outputs [OF this, of a] assms(2) obtain t1 where
    t1: "outq_putc a t = Some t1" "outputs [a] t t1" "room t1 = room t - 1" by auto
  from outq_putc_outputs [OF t1(2), of b] t1(3) assms(2) obtain t2 where
    t2: "outq_putc b t1 = Some t2" "outputs [a, b] t t2" "room t2 = room t - 2" by auto
  from outq_putc_outputs [OF t2(2), of c] t2(3) assms(2) obtain t3 where
    t3: "outq_putc c t2 = Some t3" "outputs [a, b, c] t t3" by auto
  with t1 t2 enabw_outputs [OF t3(2)] show ?thesis by auto
qed

text \<open>\<open>t1\<close> differs from \<open>t\<close> at most in the given side of option \<open>i\<close>.\<close>

definition q_frame :: "bool \<Rightarrow> oindex \<Rightarrow> 's tsys \<Rightarrow> 's tsys \<Rightarrow> bool" where
  "q_frame us i t t1 \<longleftrightarrow> (\<forall>u j. (u, j) \<noteq> (us, i) \<longrightarrow> side u t1 j = side u t j) \<and> stream t1 = stream t"

lemma q_effect_quiet:
  "q_frame us i t t1 \<Longrightarrow> side us t1 i = (st, q) \<Longrightarrow> q_effect us opt i (st, q, None) (Some t1) t"
  by (simp add: q_effect_def q_frame_def reply_bytes_def)

lemma q_effect_map:
  assumes "q_effect us opt i e r t" "\<And>t. t_optb (tp (f t)) = t_optb (tp t)" "\<And>t. stream (f t) = stream t"
  shows "q_effect us opt i e (map_option f r) t"
proof -
  have "side u (f t) j = side u t j" for u j t by (simp add: side_def assms(2))
  with assms(1,3) show ?thesis by (auto simp: q_effect_def)
qed

lemma q_effect_send:
  assumes "q_frame us i t t1" "side us t1 i = (st, q)" "r = Some t2" "outputs (reply_bytes us opt (Some b)) t1 t2"
  shows "q_effect us opt i (st, q, Some b) r t"
proof -
  have "side u t2 j = side u t1 j" for u j using assms(4) by (simp add: side_def outputs_def)
  with assms show ?thesis by (simp add: q_effect_def q_frame_def outputs_def)
qed

lemma send_q:
  assumes "out_ok t1" "3 \<le> room t1"
  shows "q_frame True i t t1 \<Longrightarrow> side True t1 i = (st, q) \<Longrightarrow>
      q_effect True opt i (st, q, Some True) (telnet_send_will opt t1) t"
    "q_frame True i t t1 \<Longrightarrow> side True t1 i = (st, q) \<Longrightarrow>
      q_effect True opt i (st, q, Some False) (telnet_send_wont opt t1) t"
    "q_frame False i t t1 \<Longrightarrow> side False t1 i = (st, q) \<Longrightarrow>
      q_effect False opt i (st, q, Some True) (telnet_send_do opt t1) t"
    "q_frame False i t t1 \<Longrightarrow> side False t1 i = (st, q) \<Longrightarrow>
      q_effect False opt i (st, q, Some False) (telnet_send_dont opt t1) t"
  unfolding telnet_send_will_def telnet_send_wont_def telnet_send_do_def telnet_send_dont_def
  using put3_outputs [OF assms, of IAC _ opt] by (metis (full_types) q_effect_send reply_byte)+

lemma stream_set [simp]:
  "stream (set_us i v t) = stream t" "stream (set_usq i w t) = stream t"
  "stream (set_him i v t) = stream t" "stream (set_himq i w t) = stream t"
  "stream (telnet_ack_lenab opt t) = stream t" "stream (telnet_ack_ldisab opt t) = stream t"
  "stream (telnet_ack_renab opt t) = stream t" "stream (telnet_ack_rdisab opt t) = stream t"
  by (simp_all add: stream_def tsys_upd telnet_ack_lenab_def telnet_ack_ldisab_def
      telnet_ack_renab_def telnet_ack_rdisab_def)

lemma optb_ack [simp]:
  "t_optb (tp (telnet_ack_lenab opt t)) = t_optb (tp t)" "t_optb (tp (telnet_ack_ldisab opt t)) = t_optb (tp t)"
  "t_optb (tp (telnet_ack_renab opt t)) = t_optb (tp t)" "t_optb (tp (telnet_ack_rdisab opt t)) = t_optb (tp t)"
  by (simp_all add: tsys_upd telnet_ack_lenab_def telnet_ack_ldisab_def
      telnet_ack_renab_def telnet_ack_rdisab_def)

lemma side_set [simp]:
  "side u (set_us i v t) j = (if u \<and> j = i then (v, snd (side u t j)) else side u t j)"
  "side u (set_usq i w t) j = (if u \<and> j = i then (fst (side u t j), w) else side u t j)"
  "side u (set_him i v t) j = (if \<not> u \<and> j = i then (v, snd (side u t j)) else side u t j)"
  "side u (set_himq i w t) j = (if \<not> u \<and> j = i then (fst (side u t j), w) else side u t j)"
  "side u (telnet_ack_lenab opt t) j = side u t j" "side u (telnet_ack_ldisab opt t) j = side u t j"
  "side u (telnet_ack_renab opt t) j = side u t j" "side u (telnet_ack_rdisab opt t) j = side u t j"
  by (simp_all add: side_def tsys_upd Let_def)

lemma side_us: "o_us (t_optb (tp t) i) = fst (side True t i)" "o_usq (t_optb (tp t) i) = snd (side True t i)"
  "o_him (t_optb (tp t) i) = fst (side False t i)" "o_himq (t_optb (tp t) i) = snd (side False t i)"
  by (simp_all add: side_def Let_def)

lemma get_optp_not_TM: "telnet_get_optp opt = Some i \<Longrightarrow> opt \<noteq> TELOPT_TM"
  by (auto simp: telnet_get_optp_def tn_bytes split: if_splits)

lemma telnet_do_q:
  assumes "out_ok t" "3 \<le> room t" "telnet_get_optp opt = Some i" "side True t i = (st, q)"
  shows "q_effect True opt i (q_recv (telnet_lenabp opt) True st q) (telnet_do opt t) t"
  unfolding telnet_do_def side_us
  using assms get_optp_not_TM [OF assms(3)]
  by (cases st; cases q)
    (auto intro!: q_effect_quiet q_effect_map send_q simp: q_frame_def)

lemma telnet_dont_q:
  assumes "out_ok t" "3 \<le> room t" "telnet_get_optp opt = Some i" "side True t i = (st, q)"
  shows "q_effect True opt i (q_recv (telnet_lenabp opt) False st q) (telnet_dont opt t) t"
  unfolding telnet_dont_def side_us
  using assms by (cases st; cases q)
    (auto intro!: q_effect_quiet q_effect_map send_q simp: q_frame_def)

lemma telnet_will_q:
  assumes "out_ok t" "3 \<le> room t" "telnet_get_optp opt = Some i" "side False t i = (st, q)"
  shows "q_effect False opt i (q_recv (telnet_renabp opt) True st q) (telnet_will opt t) t"
  unfolding telnet_will_def side_us
  using assms by (cases st; cases q)
    (auto intro!: q_effect_quiet q_effect_map send_q simp: q_frame_def)

lemma telnet_wont_q:
  assumes "out_ok t" "3 \<le> room t" "telnet_get_optp opt = Some i" "side False t i = (st, q)"
  shows "q_effect False opt i (q_recv (telnet_renabp opt) False st q) (telnet_wont opt t) t"
  unfolding telnet_wont_def side_us
  using assms by (cases st; cases q)
    (auto intro!: q_effect_quiet q_effect_map send_q simp: q_frame_def)

section \<open>Properties\<close>

text \<open>C1. Whatever the peer sends and whatever the game answers, every callback of a session that was
  accepted and driven through any sequence of events returns, without an access outside its queues,
  its descriptor or a null option queue: reading, writing, urgent data, cleaning up and shutting down; so does every call of the game on it.\<close>

theorem telnet_callbacks_safe:
  assumes E: "env_ok E" and s: "session E t"
  shows "(\<exists>t'. telnet_read E (t_nd (tp t)) t = Some t') \<and> (\<exists>t'. telnet_write E (t_nd (tp t)) t = Some t') \<and>
    (\<exists>t'. telnet_exception (t_nd (tp t)) t = Some t') \<and> (\<exists>r. telnet_cleanup E (t_nd (tp t)) t = Some r) \<and>
    (\<exists>w. telnet_shutdown E (t_nd (tp t)) t = Some w) \<and> (\<exists>t'. telnet_call E c t = Some t')"
proof -
  note i = session_tinv [OF s E]
  then have "out_ok t" by (simp add: tinv_def)
  from telnet_call_keeps [OF this E, of c] telnet_read_safe [OF i E refl] telnet_write_safe [OF i E refl]
    telnet_exception_safe [OF i refl] telnet_cleanup_safe [OF i E refl] telnet_shutdown_law [OF this E]
  show ?thesis by (auto simp: safe_def keeps_def)
qed

lemma demo_accept:
  "\<exists>t. telnet_accept demo_env (Inr 3) 0 0 (\<lambda>s. (Some 5, [Call_output [62]], s)) nd_init 0 = Some (Accept_session t)"
proof -
  have "fd_ok 3" "nd_ndesc (nd_init :: tmgr) 3 = None" "nd_heap (nd_init :: tmgr) 0 = None"
    by (simp_all add: fd_ok_def FD_SETSIZE_def nd_init_def)
  from telnet_accept_session [OF nd_ok_init this(3,1,2) demo_env_ok, of 0
      "\<lambda>s. (Some 5, [Call_output [62]], s)" 0]
  show ?thesis by (elim exE conjE, rename_tac r, case_tac r) auto
qed

theorem telnet_callbacks_safe_witness:
  "\<exists>t. session demo_env t \<and> (\<exists>t'. telnet_read demo_env (t_nd (tp t)) t = Some t') \<and>
     (\<exists>r. telnet_cleanup demo_env (t_nd (tp t)) t = Some r)"
proof -
  from demo_accept obtain t where t: "telnet_accept demo_env (Inr 3) 0 0
      (\<lambda>s. (Some 5, [Call_output [62]], s)) nd_init 0 = Some (Accept_session t)" by blast
  have "session demo_env t"
    by (rule s_accept [OF nd_ok_init _ _ _ t]) (simp_all add: fd_ok_def FD_SETSIZE_def nd_init_def)
  with telnet_callbacks_safe [OF demo_env_ok this] show ?thesis by blast
qed

text \<open>C2. Accepting a connection on a free descriptor always completes: it yields a session that satisfies
  the session invariant, or, when the game refuses the player, releases the descriptor again.\<close>

theorem telnet_accept_ok:
  assumes "nd_ok m xs" "nd_heap m a = None" "fd_ok fd" "nd_ndesc m fd = None" "env_ok E"
  shows "\<exists>r. telnet_accept E (Inr fd) a cb new_player m s = Some r \<and>
    (case r of Accept_session t \<Rightarrow> tinv t \<and> t_nd (tp t) = a \<and> fst (new_player s) \<noteq> None
             | Accept_refused w \<Rightarrow> nd_heap (w_nds w) a = None \<and> (\<exists>ys. nd_ok (w_nds w) ys) \<and>
                 fst (new_player s) = None
             | _ \<Rightarrow> False)"
  by (rule telnet_accept_session [OF assms])

theorem telnet_accept_ok_witness:
  "\<exists>t. telnet_accept demo_env (Inr 3) 0 0 (\<lambda>s. (Some 5, [], s)) nd_init 0 = Some (Accept_session t) \<and> tinv t"
proof -
  have "fd_ok 3" "nd_ndesc (nd_init :: tmgr) 3 = None" "nd_heap (nd_init :: tmgr) 0 = None"
    by (simp_all add: fd_ok_def FD_SETSIZE_def nd_init_def)
  from telnet_accept_ok [OF nd_ok_init this(3,1,2) demo_env_ok, of 0 "\<lambda>s. (Some 5, [], s)" 0]
  show ?thesis by (elim exE conjE, rename_tac r, case_tac r) auto
qed

text \<open>C3. Round trip of a line: when the bytes that \<^verbatim>\<open>telnet_output\<close> produces for a line of text arrive at a
  session that is ready for text, the game is handed exactly that line (after what was already typed),
  with escaped IAC bytes restored, and the bytes after the line stay in the raw queue.\<close>

theorem telnet_line_roundtrip:
  assumes "receptive t" "env_ok E" "flag t TF_ATTACH" "\<forall>c\<in>set xs. text_char c"
    "nq_list (t_rawq (tp t)) = telnet_encode 0 (xs @ [LF]) @ rest"
    "length (nq_list (t_canq (tp t))) + length xs < unat TELNET_CANQ_SIZE"
  shows "\<exists>t1 t2. interactive_input E (t_ip (tp t)) (nq_list (t_canq (tp t)) @ xs) t1 = Some t2 \<and>
     telnet_input E nd t = Some (set_state TS_DATA (clrf TF_GA (set_canq (nq_init (t_canq (tp t2))) t2))) \<and>
     same_world t t1 \<and> nq_list (t_rawq (tp t1)) = rest"
proof -
  have "2 * length xs + 2 \<le> unat TELNET_OUTQ_SIZE" using assms(6) by (simp add: tn_sizes)
  then have raw: "nq_list (t_rawq (tp t)) = concat (map nvt_char xs) @ CR # LF # rest"
    using assms(5) nvt_line by simp
  from receptive_text [OF assms(1) raw assms(4,6), of E nd] obtain u where
    u: "telnet_input E nd t = telnet_input E nd u" "receptive u" "same_world t u"
      "nq_list (t_rawq (tp u)) = CR # LF # rest" "nq_list (t_canq (tp u)) = nq_list (t_canq (tp t)) @ xs" by blast
  have "flag u TF_ATTACH" using flag_same [OF u(3)] assms(3) by simp
  moreover have "length (nq_list (t_canq (tp u))) < unat TELNET_CANQ_SIZE" using assms(6) u(5) by simp
  ultimately obtain t1 t2 where r: "interactive_input E (t_ip (tp u)) (nq_list (t_canq (tp u))) t1 = Some t2"
      "telnet_input E nd u = Some (set_state TS_DATA (clrf TF_GA (set_canq (nq_init (t_canq (tp t2))) t2)))"
      "same_world u t1" "nq_list (t_rawq (tp t1)) = rest"
    using receptive_line [OF u(2) assms(2) _ u(4), of nd] by blast
  have "t_ip (tp u) = t_ip (tp t)" using u(3) by (simp add: same_world_def)
  with u r same_world_trans [OF u(3) r(3)] show ?thesis by auto
qed

theorem telnet_line_roundtrip_witness:
  "\<exists>t1 t2. interactive_input demo_env (Some 5) [104, 255, 105] t1 = Some t2 \<and>
     telnet_input demo_env 0 (demo_session (telnet_encode 0 ([104, 255, 105] @ [LF]) @ [120])) =
       Some (set_state TS_DATA (clrf TF_GA (set_canq (nq_init (t_canq (tp t2))) t2))) \<and>
     nq_list (t_rawq (tp t1)) = [120]"
proof -
  let ?raw = "telnet_encode 0 ([104, 255, 105] @ [LF]) @ [120]"
  have "length ?raw \<le> 256" by (simp add: tn_sizes tn_bytes)
  note d = demo_receptive [OF this] demo_session_ok [OF this] demo_session_flags [of ?raw]
  have c: "nq_list (t_canq (tp (demo_session ?raw))) = []"
    using nq_alloc_law [of TELNET_CANQ_SIZE] by (simp only: d(9)) (simp add: tn_sizes)
  have l: "length (nq_list (t_canq (tp (demo_session ?raw)))) + length [104, 255, 105 :: u8] < unat TELNET_CANQ_SIZE"
    by (simp only: c) (simp add: tn_sizes)
  have x: "\<forall>c\<in>set [104, 255, 105]. text_char c" by (simp add: text_char_def tn_bytes)
  have "t_ip (tp (demo_session ?raw)) = Some 5"
    by (simp add: demo_session_def telnet_attach_def Let_def)
  with telnet_line_roundtrip [OF d(1) demo_env_ok d(6) x d(3) l, of 0] c show ?thesis
    by (simp only: append_Nil) blast
qed

lemma telnet_encode_all:
  "k + length (telnet_encode k cs) < unat TELNET_OUTQ_SIZE \<Longrightarrow> telnet_encode k cs = concat (map nvt_char cs)"
proof (induction cs arbitrary: k)
  case (Cons c cs)
  then show ?case using Cons.IH [of "k + 1"] Cons.IH [of "k + 2"] by (auto simp: nvt_char_def split: if_splits)
qed simp

lemma encode_short: "length (telnet_encode k cs) \<le> length (concat (map nvt_char cs))"
proof (induction cs arbitrary: k)
  case (Cons c cs)
  then show ?case using Cons.IH [of "k + 1"] Cons.IH [of "k + 2"] by (auto simp: nvt_char_def)
qed simp

lemma enabw_wire: "telnet_enabw t = Some t' \<Longrightarrow> wire t' = wire t \<and> flag t' TF_OVFLOUTQ = flag t TF_OVFLOUTQ"
  using flag_clrf [of TF_ENABW TF_OVFLOUTQ t]
  by (auto simp: telnet_enabw_def ndes_def Let_def enabw_masks flag_def clrf_def split: if_splits)

lemma flush_wire: "telnet_flush E t = Some t' \<Longrightarrow> (\<exists>sent. wire t' = wire t @ sent) \<and> flag t' TF_OVFLOUTQ = flag t TF_OVFLOUTQ"
  by (auto simp: telnet_flush_def outq_send_def flag_def split: if_splits)

lemma telnet_output_wire:
  assumes "telnet_output E cp t = Some t'"
  shows "\<exists>sent. wire t' = wire t @ sent" "\<not> flag t' TF_OVFLOUTQ \<Longrightarrow> length (telnet_encode 0 (cstr cp)) < unat TELNET_OUTQ_HIWAT"
proof -
  let ?buf = "telnet_encode 0 (cstr cp)"
  have "(\<exists>sent. wire t' = wire t @ sent) \<and> (\<not> flag t' TF_OVFLOUTQ \<longrightarrow> length ?buf < unat TELNET_OUTQ_HIWAT)"
  proof (cases "flag t TF_OVFLOUTQ \<or> ?buf = []")
    case True
    then show ?thesis using assms by (auto simp: telnet_output_def tn_sizes Let_def split: if_splits)
  next
    case False
    let ?big = "\<lambda>t. unat TELNET_OUTQ_HIWAT \<le> unat (nq_len (outq t)) + length ?buf"
    obtain t1 where t1: "(if ?big t then telnet_flush E t else Some t) = Some t1"
      "(if ?big t1 then telnet_enabw (setf TF_OVFLOUTQ t1) else nq_puts (outq t1) ?buf \<bind> (\<lambda>q. telnet_enabw (set_outq q t1))) = Some t'"
      using assms False by (auto simp: telnet_output_def Let_def bind_eq_Some_conv split: if_splits)
    have w: "\<exists>sent. wire t1 = wire t @ sent" using t1(1) flush_wire by (auto split: if_splits)
    show ?thesis
    proof (cases "?big t1")
      case True
      then show ?thesis using t1(2) enabw_wire [of "setf TF_OVFLOUTQ t1" t'] w by (auto simp: setf_def flag_def flag_simps tf_defs)
    next
      case False
      then obtain q where "telnet_enabw (set_outq q t1) = Some t'" using t1(2) by (auto simp: bind_eq_Some_conv)
      then show ?thesis using enabw_wire [of "set_outq q t1" t'] w False by (auto simp: set_outq_def)
    qed
  qed
  then show "\<exists>sent. wire t' = wire t @ sent" "\<not> flag t' TF_OVFLOUTQ \<Longrightarrow> length ?buf < unat TELNET_OUTQ_HIWAT" by blast+
qed

lemma telnet_output_fits:
  assumes "out_ok t" "\<not> flag t TF_OVFLOUTQ" "length (nq_list (outq t)) + length (telnet_encode 0 (cstr cp)) < unat TELNET_OUTQ_HIWAT"
    and "telnet_output E cp t = Some t'"
  shows "\<not> flag t' TF_OVFLOUTQ"
proof -
  have l: "unat (nq_len (outq t)) = length (nq_list (outq t))" by (simp add: nq_len_def)
  show ?thesis
  proof (cases "telnet_encode 0 (cstr cp) = []")
    case True
    then show ?thesis using assms by (simp add: telnet_output_def)
  next
    case False
    then obtain q where "telnet_enabw (set_outq q t) = Some t'"
      using assms l by (auto simp: telnet_output_def Let_def bind_eq_Some_conv)
    then show ?thesis using enabw_wire [of "set_outq q t" t'] assms(2) by (simp add: flag_def set_outq_def)
  qed
qed

text \<open>Writing: what the socket takes is taken from the front of the queue.\<close>

lemma outq_send_front:
  assumes "out_ok t" "env_ok E" "outq_send E t = Some (cc, t')"
  shows "\<exists>sent. wire t' = wire t @ sent \<and> nq_list (outq t) = sent @ nq_list (outq t')"
proof -
  from assms have "nq_inv (outq t)" "send_ok (e_send E)" by (simp_all add: out_ok_def env_ok_def)
  from nq_send_loop_law [OF this, of "sock t" "t_sblen (tp t)" 0 "[]"] show ?thesis using assms(3)
    by (auto simp: outq_send_def nq_send_def)
qed

lemma write_done_queue:
  assumes t: "tinv t" and r: "telnet_write_done (t_nd (tp t)) t = Some t'"
  shows "wire t' = wire t \<and>
    nq_list (outq t') = nq_list (outq t) @ (if flag t TF_OVFLOUTQ \<and> length (nq_list (outq t)) < unat TELNET_OUTQ_LOWAT then telnet_truncated else [])"
proof -
  let ?c = "flag t TF_OVFLOUTQ \<and> length (nq_list (outq t)) < unat TELNET_OUTQ_LOWAT"
  have l: "nq_len (outq u) < TELNET_OUTQ_LOWAT \<longleftrightarrow> length (nq_list (outq u)) < unat TELNET_OUTQ_LOWAT" for u :: "'a tsys"
    by (simp add: nq_len_def word_less_nat_alt)
  obtain t1 where t1: "(if flag t TF_OVFLOUTQ \<and> nq_len (outq t) < TELNET_OUTQ_LOWAT
          then let t1 = clrf TF_OVFLOUTQ t in map_option (\<lambda>q. set_outq q t1) (nq_puts (outq t1) telnet_truncated)
          else Some t) = Some t1"
    and r1: "(if flag t1 TF_FLOWC \<and> nq_len (outq t1) < TELNET_OUTQ_HIWAT
          then let t1 = clrf TF_FLOWC t1 in ndes (nd_enable (nds t1) (t_nd (tp t)) ND_C) t1 else Some t1) \<bind>
      (\<lambda>u. if \<not> nq_empty (outq u) then Some u
           else let t1 = setf TF_ENABW (set_outq (nq_init (outq u)) u) in ndes (nd_disable (nds t1) (t_nd (tp t)) ND_W) t1) = Some t'"
    using r unfolding telnet_write_done_def by (auto simp: bind_eq_Some_conv simp del: ex_simps)
  have q1: "wire t1 = wire t \<and> nq_list (outq t1) = nq_list (outq t) @ (if ?c then telnet_truncated else [])"
  proof (cases ?c)
    case True
    have "out_ok t" using t by (simp add: tinv_def)
    then have "nq_inv (outq t)" "unat (qlen (outq t)) + length telnet_truncated \<le> nq_cap (outq t)"
      using True by (simp_all add: out_ok_def telnet_truncated_def tn_sizes)
    from nq_puts_law [OF this] obtain q where "nq_puts (outq t) telnet_truncated = Some q" "nq_list q = nq_list (outq t) @ telnet_truncated" by blast
    then show ?thesis using t1 True l [of t] by (auto simp: clrf_def set_outq_def)
  next
    case False
    then have n: "\<not> (flag t TF_OVFLOUTQ \<and> nq_len (outq t) < TELNET_OUTQ_LOWAT)" using l [of t] by blast
    show ?thesis using t1 unfolding if_not_P [OF n] if_not_P [OF False] by simp
  qed
  have "wire t' = wire t1 \<and> nq_list (outq t') = nq_list (outq t1)"
    using r1
    by (auto simp: ndes_def clrf_def setf_def set_outq_def nq_init_def nq_list_def nq_empty_iff Let_def bind_eq_Some_conv split: if_splits)
  then show ?thesis using q1 by simp
qed

text \<open>C4. Output is neither lost, duplicated nor reordered on its way to the wire.  A text is appended to what was queued, line feeds as
  CR LF and IAC doubled, unless the session is marked as overflowed, which does not happen while there is room below the high-water
  mark.  Bytes reach the wire from the front of the queue only: after a write that did not fail the wire has grown by a prefix of the
  queue, and the rest is queued still, followed by the message \<^emph>\<open>Truncated\<close> when text was dropped and the queue is nearly empty.\<close>

theorem telnet_output_stream:
  assumes t: "tinv t" and E: "env_ok E"
  shows "(\<exists>t' sent. telnet_output E cp t = Some t' \<and> wire t' = wire t @ sent \<and>
      sent @ nq_list (t_outq (tp t')) =
        nq_list (t_outq (tp t)) @ (if flag t' TF_OVFLOUTQ then [] else concat (map nvt_char (cstr cp))) \<and>
      (\<not> flag t TF_OVFLOUTQ \<and> length (nq_list (t_outq (tp t))) + length (concat (map nvt_char (cstr cp))) < unat TELNET_OUTQ_HIWAT \<longrightarrow>
         \<not> flag t' TF_OVFLOUTQ)) \<and>
    ((\<forall>cc u. outq_send E t = Some (cc, u) \<longrightarrow> cc \<noteq> -1 \<or> errno_transient (e_errno E (sock u))) \<longrightarrow>
     (\<exists>t' sent rest. telnet_write E (t_nd (tp t)) t = Some t' \<and> wire t' = wire t @ sent \<and> nq_list (t_outq (tp t)) = sent @ rest \<and>
       nq_list (t_outq (tp t')) =
         rest @ (if flag t TF_OVFLOUTQ \<and> length rest < unat TELNET_OUTQ_LOWAT then telnet_truncated else [])))"
proof (intro conjI impI)
  have ok: "out_ok t" using t by (simp add: tinv_def)
  obtain t' where t': "telnet_output E cp t = Some t'" "stream t' = stream t @ (if flag t' TF_OVFLOUTQ then [] else telnet_encode 0 (cstr cp))"
    using telnet_output_law [OF ok E, of cp] by (auto simp: outputs_def)
  obtain sent where w: "wire t' = wire t @ sent" using telnet_output_wire(1) [OF t'(1)] by blast
  have n: "telnet_encode 0 (cstr cp) = concat (map nvt_char (cstr cp))" if "\<not> flag t' TF_OVFLOUTQ"
    using telnet_output_wire(2) [OF t'(1) that] telnet_encode_all [of 0 "cstr cp"] by (simp add: tn_sizes)
  have f: "\<not> flag t' TF_OVFLOUTQ" if "\<not> flag t TF_OVFLOUTQ"
    "length (nq_list (t_outq (tp t))) + length (concat (map nvt_char (cstr cp))) < unat TELNET_OUTQ_HIWAT"
    using telnet_output_fits [OF ok that(1) _ t'(1)] that(2) encode_short [of 0 "cstr cp"] by simp
  show "\<exists>t' sent. telnet_output E cp t = Some t' \<and> wire t' = wire t @ sent \<and>
      sent @ nq_list (t_outq (tp t')) =
        nq_list (t_outq (tp t)) @ (if flag t' TF_OVFLOUTQ then [] else concat (map nvt_char (cstr cp))) \<and>
      (\<not> flag t TF_OVFLOUTQ \<and> length (nq_list (t_outq (tp t))) + length (concat (map nvt_char (cstr cp))) < unat TELNET_OUTQ_HIWAT \<longrightarrow>
         \<not> flag t' TF_OVFLOUTQ)"
    using t' w n f by (intro exI [of _ t'] exI [of _ sent]) (auto simp: stream_def)
  assume soft: "\<forall>cc u. outq_send E t = Some (cc, u) \<longrightarrow> cc \<noteq> -1 \<or> errno_transient (e_errno E (sock u))"
  show "\<exists>t' sent rest. telnet_write E (t_nd (tp t)) t = Some t' \<and> wire t' = wire t @ sent \<and> nq_list (t_outq (tp t)) = sent @ rest \<and>
       nq_list (t_outq (tp t')) =
         rest @ (if flag t TF_OVFLOUTQ \<and> length rest < unat TELNET_OUTQ_LOWAT then telnet_truncated else [])"
  proof (cases "nq_empty (outq t)")
    case True
    then have e: "nq_list (outq t) = []" by (simp add: nq_empty_iff)
    obtain t' where "telnet_write_done (t_nd (tp t)) t = Some t'" using telnet_write_done_safe [OF t] by (auto simp: safe_def)
    with write_done_queue [OF t this] True e show ?thesis by (intro exI [of _ t'] exI [of _ "[]"]) (simp add: telnet_write_def)
  next
    case False
    from outq_send_law [OF ok E] obtain cc t1 where t1: "outq_send E t = Some (cc, t1)" "out_ok t1" "in_side t1 = in_side t"
      "t_flags (tp t1) = t_flags (tp t)" by blast
    have i: "tinv t1" "t_nd (tp t1) = t_nd (tp t)" "flag t1 TF_OVFLOUTQ = flag t TF_OVFLOUTQ"
      using t t1 in_ok_in_side [OF t1(3)] by (simp_all add: tinv_def in_side_def flag_def)
    obtain sent where s: "wire t1 = wire t @ sent" "nq_list (outq t) = sent @ nq_list (outq t1)" using outq_send_front [OF ok E t1(1)] by blast
    obtain t' where t': "telnet_write_done (t_nd (tp t1)) t1 = Some t'" using telnet_write_done_safe [OF i(1)] by (auto simp: safe_def)
    have "telnet_write E (t_nd (tp t)) t = Some t'" using False t1(1) soft t' i(2) by (auto simp: telnet_write_def)
    with write_done_queue [OF i(1) t'] s i(3) show ?thesis by (intro exI [of _ t'] exI [of _ sent] exI [of _ "nq_list (outq t1)"]) simp
  qed
qed

theorem telnet_output_stream_witness:
  "\<exists>t' sent. telnet_output demo_env [72, 10] (demo_session []) = Some t' \<and> sent @ nq_list (t_outq (tp t')) =
     nq_list (t_outq (tp (demo_session []))) @ (if flag t' TF_OVFLOUTQ then [] else [72, 13, 10])"
proof -
  have "concat (map nvt_char (cstr [72, 10])) = [72, 13, 10]" by (simp add: cstr_def nvt_char_def tn_bytes)
  note e = this
  have "tinv (demo_session [])" by (intro demo_session_ok) simp
  from telnet_output_stream [OF this demo_env_ok, of "[72, 10]", THEN conjunct1] obtain t' sent where
    r: "telnet_output demo_env [72, 10] (demo_session []) = Some t'"
      "sent @ nq_list (t_outq (tp t')) = nq_list (t_outq (tp (demo_session []))) @
        (if flag t' TF_OVFLOUTQ then [] else concat (map nvt_char (cstr [72, 10])))"
    by (elim exE conjE) (rule that)
  show ?thesis using r(1) r(2) [unfolded e] by (intro exI [of _ t'] exI [of _ sent] conjI)
qed

text \<open>C5. Negotiation follows the Q method of RFC 1143: the answers to DO, DONT, WILL and WONT for a known
  option change that side of the option and emit a reply exactly as the RFC's table says, and leave the
  other side and the other options alone.\<close>

theorem telnet_negotiation_q:
  assumes "out_ok t" "3 \<le> room t" "telnet_get_optp opt = Some i"
  shows "q_effect True opt i (case side True t i of (st, q) \<Rightarrow> q_recv (telnet_lenabp opt) True st q) (telnet_do opt t) t \<and>
    q_effect True opt i (case side True t i of (st, q) \<Rightarrow> q_recv (telnet_lenabp opt) False st q) (telnet_dont opt t) t \<and>
    q_effect False opt i (case side False t i of (st, q) \<Rightarrow> q_recv (telnet_renabp opt) True st q) (telnet_will opt t) t \<and>
    q_effect False opt i (case side False t i of (st, q) \<Rightarrow> q_recv (telnet_renabp opt) False st q) (telnet_wont opt t) t"
  using telnet_do_q [OF assms] telnet_dont_q [OF assms] telnet_will_q [OF assms] telnet_wont_q [OF assms]
  by (simp split: prod.split)

theorem telnet_negotiation_q_witness:
  "q_effect True TELOPT_SGA OP_SGA (OS_YES, OQ_EMPTY, Some True)
     (telnet_do TELOPT_SGA (demo_session [])) (demo_session [])"
proof -
  have o: "out_ok (demo_session [])" using demo_session_ok(1) [of "[]"] by (simp add: tinv_def)
  moreover have "3 \<le> room (demo_session [])"
    by (simp add: room_def demo_session_flags nq_alloc_def nq_init_def tn_sizes)
  moreover have g: "telnet_get_optp TELOPT_SGA = Some OP_SGA" by (simp add: telnet_get_optp_def tn_bytes)
  moreover have "side True (demo_session []) OP_SGA = (OS_NO, OQ_EMPTY)"
    by (simp add: side_def demo_session_def telnet_attach_def telnet_alloc_def tsys_upd)
  ultimately show ?thesis using telnet_negotiation_q [of "demo_session []" TELOPT_SGA OP_SGA]
    by (simp add: telnet_lenabp_def)
qed

text \<open>The state a session is in after urgent data arrived while an overlong line was being discarded.\<close>

definition deaf :: "'s tsys \<Rightarrow> bool" where
  "deaf t \<longleftrightarrow> tinv t \<and> flag t TF_OVFLCANQ \<and> nq_list (t_canq (tp t)) = []"

lemma flag_or: "flag t (a OR b) \<longleftrightarrow> flag t a \<or> flag t b"
  by (simp add: flag_def has_flag_mask_or)

lemma deaf_exception:
  assumes "tinv t" "flag t TF_OVFLCANQ"
  shows "\<exists>t'. telnet_exception (t_nd (tp t)) t = Some t' \<and> deaf t'"
proof -
  let ?t = "set_canq (nq_init (t_canq (tp t))) (setf (TF_SYNCH OR TF_URGENT) t)"
  have "canq_ok (nq_init (t_canq (tp t)))" "nq_list (nq_init (t_canq (tp t))) = []"
    using tinv_canqD [OF assms(1)] canq_ok_init nq_init_law by (auto simp: canq_ok_def)
  then have i: "tinv ?t" using tinv_canq [of "setf (TF_SYNCH OR TF_URGENT) t"] assms(1) by simp
  then have "out_ok ?t" by (simp add: tinv_def)
  from ndes_disable [OF this, of ND_X] obtain m where
    m: "ndes (nd_disable (nds ?t) (t_nd (tp ?t)) ND_X) ?t = Some (?t\<lparr>nds := m\<rparr>)" "out_ok (?t\<lparr>nds := m\<rparr>)" by blast
  have "flag (?t\<lparr>nds := m\<rparr>) TF_OVFLCANQ"
    using assms(2) by (simp add: flag_def tsys_upd flag_simps)
  with i m \<open>nq_list (nq_init (t_canq (tp t))) = []\<close> show ?thesis
    by (auto simp: telnet_exception_def deaf_def tinv_def)
qed

lemma deaf_eol:
  assumes d: "deaf t" and E: "env_ok E" and ns: "\<not> flag t TF_SYNCH"
  shows "\<exists>q t2 t'. telnet_eol E t = Some t' \<and> deaf t' \<and> t_state (tp t') = t_state (tp t) \<and>
     t' = clrf TF_GA (set_canq (nq_init (t_canq (tp t2))) t2) \<and>
     (if flag t TF_ATTACH then interactive_input E (t_ip (tp t)) [] (set_canq q t) else Some (set_canq q t)) = Some t2"
proof -
  from d have t: "tinv t" and fl: "flag t TF_OVFLCANQ" and em: "nq_list (t_canq (tp t)) = []"
    by (simp_all add: deaf_def)
  have nf: "\<not> nq_full (t_canq (tp t))"
    using em tinv_canqD [OF t] length_nq_list [of "t_canq (tp t)"]
    by (simp add: nq_full_iff canq_ok_def tn_sizes)
  from telnet_eol_law [OF t E ns] nf obtain t1 t2 q where
    eq: "telnet_eol E t = Some (clrf TF_GA (set_canq (nq_init (t_canq (tp t2))) t2))"
    "(if flag t TF_ATTACH then interactive_input E (t_ip (tp t)) (line_of t) t1 else Some t1) = Some t2"
    "keeps (Some t2) t1" "t1 = set_canq q t" "nq_inv (t_canq (tp t1))" by auto
  let ?r = "clrf TF_GA (set_canq (nq_init (t_canq (tp t2))) t2)"
  have s: "in_side t2 = in_side t1" using eq(3) by (simp add: keeps_def)
  have "tinv ?r" using telnet_eol_sound [OF t E] eq(1) by (simp add: sound_def)
  moreover have "flag t2 TF_OVFLCANQ"
    using in_side_flag [OF s, of TF_OVFLCANQ] fl eq(4) by (simp add: OUT_FLAGS_def tf_defs) (simp add: flag_def set_canq_def)
  then have "flag (set_canq (nq_init (t_canq (tp t2))) t2) TF_OVFLCANQ" by (simp add: flag_def set_canq_def)
  then have "flag ?r TF_OVFLCANQ" using flag_clrf [of TF_GA TF_OVFLCANQ "set_canq (nq_init (t_canq (tp t2))) t2"]
    by (simp add: tf_defs)
  moreover have "nq_list (t_canq (tp ?r)) = []" "t_state (tp ?r) = t_state (tp t)"
    using s eq(4,5) nq_init_law [of "t_canq (tp t2)"] by (simp_all add: in_side_def)
  ultimately have "deaf ?r" by (simp add: deaf_def)
  moreover have "line_of t = []" using nf em by (simp add: line_of_def)
  ultimately show ?thesis using eq(1,2) unfolding eq(4) \<open>line_of t = []\<close>
    using \<open>t_state (tp ?r) = t_state (tp t)\<close> by blast
qed

text \<open>What the peer, the network, the game and the rest of the driver make happen to a session.\<close>

inductive session_step :: "'s tenv \<Rightarrow> 's tsys \<Rightarrow> 's tsys \<Rightarrow> bool" for E :: "'s tenv" where
  reads: "telnet_read E (t_nd (tp t)) t = Some t' \<Longrightarrow> session_step E t t'"
| writes: "telnet_write E (t_nd (tp t)) t = Some t' \<Longrightarrow> session_step E t t'"
| urgent: "telnet_exception (t_nd (tp t)) t = Some t' \<Longrightarrow> session_step E t t'"
| cleans: "telnet_cleanup E (t_nd (tp t)) t = Some (Inr t') \<Longrightarrow> session_step E t t'"
| calls: "telnet_call E c t = Some t' \<Longrightarrow> session_step E t t'"
| elsewhere: "nd_ok m xs \<Longrightarrow> t_nd (tp t) \<in> set xs \<Longrightarrow> session_step E t (t\<lparr>nds := m, sock := s\<rparr>)"

lemma session_step_tinv: "session_step E t t' \<Longrightarrow> tinv t \<Longrightarrow> env_ok E \<Longrightarrow> tinv t'"
proof (induction rule: session_step.induct)
  case (reads t t')
  then show ?case using telnet_read_safe [of t E] safeD by blast
next
  case (writes t t')
  then show ?case using telnet_write_safe [of t E] safeD by blast
next
  case (urgent t t')
  then show ?case using telnet_exception_safe [of t] safeD by blast
next
  case (cleans t t')
  then show ?case using telnet_cleanup_safe [of t E] by fastforce
next
  case (calls c t t')
  then have "keeps (telnet_call E c t) t" using telnet_call_keeps [of t E c] by (simp add: tinv_def del: telnet_call.simps)
  with calls show ?case using keeps_safe safeD by blast
next
  case (elsewhere m xs t s)
  then show ?case by (auto simp: tinv_def in_ok_def out_ok_def)
qed

text \<open>The two facts that make a session deaf, and that a step which succeeds leaves them.\<close>

definition stuck :: "'s tsys \<Rightarrow> bool" where
  "stuck t \<longleftrightarrow> flag t TF_OVFLCANQ \<and> nq_list (t_canq (tp t)) = []"

definition stays :: "'s tsys option \<Rightarrow> bool" where
  "stays r \<longleftrightarrow> (\<forall>t'. r = Some t' \<longrightarrow> stuck t')"

lemma stays_simps [simp]: "stays None" "stays (Some t) = stuck t" "stays (if b then r else r') = (if b then stays r else stays r')"
  by (simp_all add: stays_def)

lemma stays_bind: "stays r \<Longrightarrow> (\<And>t. r = Some t \<Longrightarrow> stuck t \<Longrightarrow> stays (f t)) \<Longrightarrow> stays (Option.bind r f)"
  by (cases r) (auto simp: stays_def)

lemma stays_bind_any: "(\<And>x. r = Some x \<Longrightarrow> stays (f x)) \<Longrightarrow> stays (Option.bind r f)"
  by (cases r) simp_all

lemma stays_map: "stays r \<Longrightarrow> (\<And>t. stuck t \<Longrightarrow> stuck (f t)) \<Longrightarrow> stays (map_option f r)"
  by (cases r) (simp_all add: stays_def)

lemma stays_map_any: "(\<And>x. stuck (f x)) \<Longrightarrow> stays (map_option f r)"
  by (cases r) (simp_all add: stays_def)

lemma stuck_simps [simp]:
  "stuck (setf m t) = (stuck t \<or> m AND TF_OVFLCANQ \<noteq> 0 \<and> nq_list (t_canq (tp t)) = [])"
  "stuck (set_state st t) = stuck t" "stuck (set_rawq q t) = stuck t" "stuck (set_outq q t) = stuck t" "stuck (set_optq q t) = stuck t"
  "stuck (upd_opt i g t) = stuck t" "stuck (t\<lparr>nds := m'\<rparr>) = stuck t" "stuck (t\<lparr>sock := s\<rparr>) = stuck t"
  by (auto simp: stuck_def flag_def tsys_upd flag_simps)

lemma stuck_clrf: "NOT m AND TF_OVFLCANQ = TF_OVFLCANQ \<Longrightarrow> stuck (clrf m t) = stuck t"
  by (simp add: stuck_def flag_def tsys_upd has_flag_clear)

lemma stuck_clears [simp]:
  "stuck (clrf TF_ENABR t) = stuck t" "stuck (clrf TF_ENABW t) = stuck t" "stuck (clrf TF_URGENT t) = stuck t"
  "stuck (clrf TF_FLOWC t) = stuck t" "stuck (clrf TF_GA t) = stuck t" "stuck (clrf TF_SYNCH t) = stuck t"
  "stuck (clrf TF_OVFLOPTQ t) = stuck t" "stuck (clrf TF_OVFLOUTQ t) = stuck t" "stuck (clrf TF_SGA t) = stuck t"
  by (simp_all add: stuck_clrf tf_defs)

lemma stuck_canq: "flag t TF_OVFLCANQ \<Longrightarrow> stuck (set_canq (nq_init q) t)"
  by (simp add: stuck_def flag_def tsys_upd nq_init_def nq_list_def)

lemma stuck_flag: "stuck t \<Longrightarrow> flag t (TF_OVFLCANQ OR m)" "stuck t \<Longrightarrow> flag t TF_OVFLCANQ"
  by (simp_all add: stuck_def flag_or)

lemma stays_ndes [simp]: "stuck t \<Longrightarrow> stays (ndes r t)"
  by (simp add: ndes_def stays_map_any)

lemma stays_putc [simp]: "stuck t \<Longrightarrow> stays (outq_putc c t)"
  by (simp add: outq_putc_def stays_map_any)

lemma stays_enabw [simp]: "stuck t \<Longrightarrow> stays (telnet_enabw t)" and stays_enabr [simp]: "stuck t \<Longrightarrow> stays (telnet_enabr t)"
  by (simp_all add: telnet_enabw_def telnet_enabr_def Let_def)

lemma stays_send [simp]:
  "stuck t \<Longrightarrow> stays (telnet_send_ga t)" "stuck t \<Longrightarrow> stays (telnet_send_will opt t)" "stuck t \<Longrightarrow> stays (telnet_send_wont opt t)"
  "stuck t \<Longrightarrow> stays (telnet_send_do opt t)" "stuck t \<Longrightarrow> stays (telnet_send_dont opt t)"
  by (auto simp: telnet_send_ga_def telnet_send_will_def telnet_send_wont_def telnet_send_do_def telnet_send_dont_def intro!: stays_bind)

lemma stuck_sides [simp]:
  "stuck (set_us i a t) = stuck t" "stuck (set_usq i b t) = stuck t" "stuck (set_him i a t) = stuck t" "stuck (set_himq i b t) = stuck t"
  by (simp_all add: set_us_def set_usq_def set_him_def set_himq_def)

lemma stuck_ack [simp]:
  "stuck t \<Longrightarrow> stuck (telnet_ack_lenab opt t)" "stuck t \<Longrightarrow> stuck (telnet_ack_ldisab opt t)"
  "stuck t \<Longrightarrow> stuck (telnet_ack_renab opt t)" "stuck t \<Longrightarrow> stuck (telnet_ack_rdisab opt t)"
  by (simp_all add: telnet_ack_lenab_def telnet_ack_ldisab_def telnet_ack_renab_def telnet_ack_rdisab_def)

lemma stays_negotiate:
  assumes "stuck t"
  shows "stays (telnet_will opt t)" "stays (telnet_wont opt t)" "stays (telnet_do opt t)" "stays (telnet_dont opt t)"
    "stays (telnet_neg_lenab opt t)" "stays (telnet_neg_ldisab opt t)"
  using assms
  by (auto simp: telnet_will_def telnet_wont_def telnet_do_def telnet_dont_def telnet_neg_lenab_def telnet_neg_ldisab_def
    intro!: stays_map split: option.splits ostate.splits oqueue.splits)

lemma stays_outq_send: "stuck t \<Longrightarrow> outq_send E t = Some (cc, t') \<Longrightarrow> stuck t'"
  by (auto simp: outq_send_def stuck_def flag_def)

lemma stays_flush: "stuck t \<Longrightarrow> stays (telnet_flush E t)"
  using stays_outq_send by (auto simp: telnet_flush_def stays_def)

lemma stays_flushD: "telnet_flush E t = Some t' \<Longrightarrow> stuck t \<Longrightarrow> stuck t'"
  using stays_flush [of t E] by (simp add: stays_def)

lemma stays_call: "stuck t \<Longrightarrow> stays (telnet_call E c t)"
proof (cases c)
  case (Call_output cp)
  assume "stuck t"
  then show ?thesis unfolding Call_output telnet_call.simps telnet_output_def Let_def
    by (auto intro!: stays_bind_any dest!: stays_flushD)
next
  case Call_detach
  assume t: "stuck t"
  let ?t = "t\<lparr>tp := (tp t)\<lparr>t_flags := t_flags (tp t) XOR TF_ATTACH, t_ip := None\<rparr>\<rparr>"
  have "(f XOR TF_ATTACH) AND TF_OVFLCANQ = (f AND TF_OVFLCANQ) XOR (TF_ATTACH AND TF_OVFLCANQ)" for f
    by (rule bit_word_eqI) (auto simp: bit_simps)
  then have "(f XOR TF_ATTACH) AND TF_OVFLCANQ = f AND TF_OVFLCANQ" for f by (simp add: tf_defs)
  then have "stuck ?t" using t by (simp add: stuck_def flag_def has_flag_def)
  then show ?thesis using t Call_detach by (simp add: telnet_detach_def Let_def)
qed (simp_all add: telnet_enable_echo_def telnet_disable_echo_def stays_negotiate)

lemma stays_calls: "stuck t \<Longrightarrow> stays (telnet_calls E cs t)"
  by (induction cs arbitrary: t) (auto intro!: stays_bind stays_call simp del: telnet_call.simps)

lemma stays_game:
  "stuck t \<Longrightarrow> stays (interactive_input E ip cp t)" "stuck t \<Longrightarrow> stays (telnet_disconnect E t)"
  by (simp_all add: interactive_input_def telnet_disconnect_def remove_interactive_def stays_calls split: prod.split)

text \<open>A deaf session stays deaf.\<close>

lemma deaf_stuck: "deaf t \<longleftrightarrow> tinv t \<and> stuck t"
  by (simp add: deaf_def stuck_def)

lemma stays_eol:
  assumes "tinv t" "stuck t" "env_ok E"
  shows "stays (telnet_eol E t)"
proof (cases "flag t TF_SYNCH")
  case True
  then show ?thesis using assms by (simp add: telnet_eol_def)
next
  case False
  then show ?thesis using deaf_eol [of t E] assms by (auto simp: deaf_stuck stays_def)
qed

lemma stays_quiet:
  "stuck t \<Longrightarrow> telnet_canq_putc c t = Some t" "stuck t \<Longrightarrow> telnet_ec t = t" "stuck t \<Longrightarrow> telnet_el t = t"
  by (simp_all add: telnet_canq_putc_def telnet_ec_def telnet_el_def stuck_flag)

lemma stays_snd: "stays (map_option snd (if b then r else r')) = (if b then stays (map_option snd r) else stays (map_option snd r'))"
  by simp

lemma stays_iac:
  assumes "stuck t"
  shows "stays (telnet_iac c t)"
proof -
  let ?t = "set_state TS_DATA t"
  have t: "stuck ?t" using assms by simp
  have "stuck (telnet_dm ?t)" "stays (telnet_ayt ?t)" using t by (simp_all add: telnet_dm_def telnet_ayt_def stays_bind_any)
  then show ?thesis using t unfolding telnet_iac_def Let_def stays_quiet [OF t] by simp
qed

lemma stays_optq: "stuck t \<Longrightarrow> stays (telnet_optq_putc c t)"
  unfolding telnet_optq_putc_def stays_simps by (auto intro!: stays_bind_any stays_map_any)

lemma stays_sb_iac: "stuck t \<Longrightarrow> stays (telnet_sb_iac c t)"
  unfolding telnet_sb_iac_def Let_def stays_simps
  by (auto simp: telnet_se_def intro!: stays_map stays_optq stays_bind_any)

lemma stays_byte:
  assumes t: "tinv t" "stuck t" "env_ok E"
  shows "stays (map_option snd (telnet_byte E c t))"
proof -
  have cs: "map_option snd (cont r) = r" "map_option snd (stop r) = r" for r :: "'a tsys option"
    by (simp_all add: cont_def stop_def option.map_comp comp_def option.map_ident)
  have e: "stays (telnet_eol E t)" using stays_eol [OF t] .
  have i: "stays (telnet_iac c t)" using stays_iac [OF t(2)] .
  have s: "stays (telnet_sb_iac c t)" "stays (telnet_optq_putc c t)" using stays_sb_iac [OF t(2)] stays_optq [OF t(2)] by blast+
  have b: "stuck (telnet_sb c t)" using t(2) by (simp add: telnet_sb_def Let_def stuck_def flag_def set_optq_def)
  have d: "stays (map_option snd (telnet_data E c t))"
    using t(2) e by (simp add: telnet_data_def stays_snd cs stays_quiet)
  have n: "stays (map_option (set_state st) r)" if "stays r" for r st using that by (rule stays_map) simp
  note neg = stays_negotiate [OF t(2), of c, THEN n]
  show ?thesis
    by (cases "t_state (tp t)") (simp_all add: telnet_byte_def stays_snd cs d e [THEN n] i s b t(2) neg)
qed

lemma stays_input_done: "stuck t \<Longrightarrow> stays (telnet_input_done nd t)"
  by (auto simp: telnet_input_done_def intro!: stays_bind)

lemma stays_input:
  "tinv t \<Longrightarrow> stuck t \<Longrightarrow> env_ok E \<Longrightarrow> stays (telnet_input E nd t)"
proof (induction "length (nq_list (t_rawq (tp t)))" arbitrary: t rule: less_induct)
  case less
  note t = less.prems(1)
  show ?case
  proof (cases "nq_empty (t_rawq (tp t)) \<or> nq_avail (outq t) < TELNET_OUTQ_REQUIRED")
    case True
    then show ?thesis using stays_input_done less.prems(2)
      by (cases "nq_empty (t_rawq (tp t))") (simp_all add: telnet_input.simps Let_def)
  next
    case go: False
    then have room: "12 \<le> room t"
      using avail_room [of t] t by (simp add: tinv_def tn_sizes word_less_nat_alt)
    from go obtain c cs where "nq_list (t_rawq (tp t)) = c # cs"
      by (auto simp: nq_empty_iff neq_Nil_conv)
    with nq_getc_law [of "t_rawq (tp t)" c cs] tinv_rawqD [OF t] obtain q where
      q: "nq_getc (t_rawq (tp t)) = Some (c, q)" "nq_inv q" "nq_cap q = unat TELNET_RAWQ_SIZE"
        "length (nq_list q) < length (nq_list (t_rawq (tp t)))" by auto
    let ?t = "set_rawq q t"
    have tt: "tinv ?t" "stuck ?t" using tinv_rawq [OF t q(2,3)] less.prems(2) by simp_all
    have "byte_sound (telnet_byte E c ?t) ?t" using telnet_byte_sound [OF tt(1) less.prems(3)] room by simp
    then obtain ret t1 where t1: "telnet_byte E c ?t = Some (ret, t1)" "tinv t1" "t_rawq (tp t1) = q"
      by (auto simp: byte_sound_def sound_def)
    have "stuck t1" using stays_byte [OF tt less.prems(3), of c] t1(1) by simp
    then have "stays (telnet_input E nd t1)" using less.hyps [of t1] t1 q(4) less.prems(3) by simp
    then show ?thesis using go q(1) t1(1) \<open>stuck t1\<close> by (subst telnet_input.simps) simp
  qed
qed

lemma stays_read:
  fixes t :: "'a tsys"
  assumes "stuck t"
  shows "stays (telnet_read E nd t)"
proof -
  have r: "stuck (t\<lparr>tp := (tp t)\<lparr>t_rawq := q, t_rblen := n\<rparr>, sock := s\<rparr>) = stuck t" for t :: "'a tsys" and q n s
    by (simp add: stuck_def flag_def)
  have b: "stays (telnet_read_block nd t)" if "stuck t" for t :: "'a tsys"
    using that by (simp add: telnet_read_block_def Let_def)
  have tail: "stays (do {
      t \<leftarrow> (if \<not> flag t TF_FLOWC then ndes (nd_enable (nds t) nd ND_C) t else Some t);
      t \<leftarrow> telnet_enabr t;
      (if \<not> nq_full (t_rawq (tp t)) then Some t else telnet_read_block nd t) })" if "stuck t" for t :: "'a tsys"
    using that by (intro stays_bind) (simp_all add: b)
  show ?thesis
  proof (cases "nq_full (t_rawq (tp t))")
    case True
    then show ?thesis using b [OF assms] by (simp add: telnet_read_def)
  next
    case False
    have "stays ((if flag t TF_URGENT \<and> e_at_mark E (sock t)
             then let t1 = clrf TF_URGENT t in ndes (nd_enable (nds t1) nd ND_X) t1 else Some t) \<bind>
        (\<lambda>t. nq_recv (e_recv E (sock t)) (t_rawq (tp t)) (t_rblen (tp t)) \<bind>
        (\<lambda>(q, n, cc). Some (t\<lparr>tp := (tp t)\<lparr>t_rawq := q, t_rblen := n\<rparr>, sock := e_recvd E (sock t) cc\<rparr>) \<bind>
        (\<lambda>t. if cc = -1 \<and> \<not> errno_transient (e_errno E (sock t)) then telnet_disconnect E t
             else if cc = 0 then telnet_disconnect E t
             else do {
               t \<leftarrow> (if \<not> flag t TF_FLOWC then ndes (nd_enable (nds t) nd ND_C) t else Some t);
               t \<leftarrow> telnet_enabr t;
               (if \<not> nq_full (t_rawq (tp t)) then Some t else telnet_read_block nd t) }))))"
      (is "stays (?u \<bind> ?f)")
    proof (rule stays_bind)
      show "stays ?u" using assms by (simp add: Let_def)
      fix t1 :: "'a tsys" assume t1: "stuck t1"
      show "stays (?f t1)"
      proof (rule stays_bind_any, clarify)
        fix q n cc
        let ?t = "t1\<lparr>tp := (tp t1)\<lparr>t_rawq := q, t_rblen := n\<rparr>, sock := e_recvd E (sock t1) cc\<rparr>"
        have t: "stuck ?t" using t1 r by simp
        show "stays (Some ?t \<bind> (\<lambda>t. if cc = -1 \<and> \<not> errno_transient (e_errno E (sock t)) then telnet_disconnect E t
             else if cc = 0 then telnet_disconnect E t
             else do {
               t \<leftarrow> (if \<not> flag t TF_FLOWC then ndes (nd_enable (nds t) nd ND_C) t else Some t);
               t \<leftarrow> telnet_enabr t;
               (if \<not> nq_full (t_rawq (tp t)) then Some t else telnet_read_block nd t) }))"
          using tail [OF t] stays_game(2) [OF t, of E] by (simp only: bind.bind_lunit stays_simps) simp
      qed
    qed
    then show ?thesis unfolding telnet_read_def if_not_P [OF False] .
  qed
qed

lemma stays_write:
  fixes t :: "'a tsys"
  assumes "stuck t"
  shows "stays (telnet_write E nd t)"
proof -
  have fin: "stays (telnet_write_done nd t)" if "stuck t" for t :: "'a tsys"
    using that unfolding telnet_write_done_def
    by (intro stays_bind) (simp_all add: Let_def stays_map_any)
  show ?thesis using assms fin
    by (auto simp: telnet_write_def stays_game dest: stays_outq_send intro!: stays_bind_any)
qed

lemma session_step_deaf:
  assumes s: "session_step E t t'" and d: "deaf t" and E: "env_ok E"
  shows "deaf t'"
proof -
  have t: "tinv t" "stuck t" using d by (simp_all add: deaf_stuck)
  have "stuck t'" using s
  proof cases
    case reads
    then show ?thesis using stays_read [OF t(2), of E] by (simp add: stays_def)
  next
    case writes
    then show ?thesis using stays_write [OF t(2), of E] by (simp add: stays_def)
  next
    case urgent
    then show ?thesis using deaf_exception [OF t(1)] stuck_flag(2) [OF t(2)] by (auto simp: deaf_stuck)
  next
    case cleans
    then show ?thesis using stays_input [OF t E] by (auto simp: telnet_cleanup_def stays_def split: if_splits)
  next
    case (calls c)
    then show ?thesis using stays_call [OF t(2), of E c] by (simp add: stays_def)
  next
    case (elsewhere m xs s)
    then show ?thesis using t(2) by (simp add: stuck_def flag_def)
  qed
  then show ?thesis using session_step_tinv [OF s t(1) E] by (simp add: deaf_stuck)
qed

lemma deaf_effects:
  assumes d: "deaf t" and E: "env_ok E"
  shows "deaf t \<and> (\<forall>c. telnet_canq_putc c t = Some t) \<and>
    (t_state (tp t) = TS_DATA \<longrightarrow> (\<forall>c. text_char c \<and> c \<noteq> IAC \<longrightarrow> telnet_byte E c t = Some (False, t))) \<and>
    (if flag t TF_SYNCH then telnet_eol E t = Some t
     else \<exists>q t2 t'. telnet_eol E t = Some t' \<and> t' = clrf TF_GA (set_canq (nq_init (t_canq (tp t2))) t2) \<and>
       (if flag t TF_ATTACH then interactive_input E (t_ip (tp t)) [] (set_canq q t) else Some (set_canq q t)) = Some t2)"
proof (intro conjI allI impI)
  show "deaf t" by (rule d)
  show "telnet_canq_putc c t = Some t" for c using d by (simp add: deaf_stuck stays_quiet)
  show "telnet_byte E c t = Some (False, t)" if "t_state (tp t) = TS_DATA" "text_char c \<and> c \<noteq> IAC" for c
    using that d by (simp add: telnet_byte_def telnet_data_def text_char_def stays_quiet deaf_stuck cont_def)
  show "if flag t TF_SYNCH then telnet_eol E t = Some t
     else \<exists>q t2 t'. telnet_eol E t = Some t' \<and> t' = clrf TF_GA (set_canq (nq_init (t_canq (tp t2))) t2) \<and>
       (if flag t TF_ATTACH then interactive_input E (t_ip (tp t)) [] (set_canq q t) else Some (set_canq q t)) = Some t2"
  proof (cases "flag t TF_SYNCH")
    case True
    then show ?thesis by (simp add: telnet_eol_def)
  next
    case False
    from deaf_eol [OF d E this] show ?thesis unfolding if_not_P [OF False] by blast
  qed
qed

text \<open>C36. A defect: when urgent data arrives while an overlong line is being discarded, \<^verbatim>\<open>telnet_exception\<close>
  empties the canonical queue but leaves \<^verbatim>\<open>TF_OVFLCANQ\<close> set, and \<^verbatim>\<open>telnet_eol\<close> clears the flag only when
  the queue is full.  From then on, whatever the peer sends, the network and the game do, and until the session is shut down, every byte
  that should join the line is dropped, and every end of a line gives the game the empty line (or nothing, before the data mark).\<close>

theorem telnet_deaf_forever:
  assumes "env_ok E" "tinv t" "flag t TF_OVFLCANQ"
  shows "\<exists>t0. telnet_exception (t_nd (tp t)) t = Some t0 \<and>
    (\<forall>t1. (session_step E)\<^sup>*\<^sup>* t0 t1 \<longrightarrow>
       deaf t1 \<and> (\<forall>c. telnet_canq_putc c t1 = Some t1) \<and>
       (t_state (tp t1) = TS_DATA \<longrightarrow> (\<forall>c. text_char c \<and> c \<noteq> IAC \<longrightarrow> telnet_byte E c t1 = Some (False, t1))) \<and>
       (if flag t1 TF_SYNCH then telnet_eol E t1 = Some t1
        else \<exists>q t2 t'. telnet_eol E t1 = Some t' \<and> t' = clrf TF_GA (set_canq (nq_init (t_canq (tp t2))) t2) \<and>
          (if flag t1 TF_ATTACH then interactive_input E (t_ip (tp t1)) [] (set_canq q t1) else Some (set_canq q t1)) = Some t2))"
proof -
  obtain t0 where t0: "telnet_exception (t_nd (tp t)) t = Some t0" "deaf t0" using deaf_exception [OF assms(2,3)] by blast
  have "deaf t1" if "(session_step E)\<^sup>*\<^sup>* t0 t1" for t1
    using that by (induction rule: rtranclp_induct) (use t0(2) session_step_deaf assms(1) in blast)+
  with deaf_effects [OF _ assms(1)] t0(1) show ?thesis by blast
qed

theorem telnet_deaf_forever_witness:
  "\<exists>t0. telnet_exception 0 (setf TF_OVFLCANQ (demo_session [])) = Some t0 \<and> deaf t0 \<and> telnet_canq_putc 104 t0 = Some t0"
proof -
  let ?t = "setf TF_OVFLCANQ (demo_session [])"
  have "tinv ?t" "flag ?t TF_OVFLCANQ" "t_nd (tp ?t) = 0"
    using demo_session_ok [of "[]"] by (simp_all add: flag_setf tf_defs)
  with telnet_deaf_forever [OF demo_env_ok, of ?t] show ?thesis by auto
qed

end
