(* ===== verification/Drand48.thy ===== *)
theory Drand48
  imports Complex_Main Driver_Prelude
begin

text \<open>
  The 48-bit linear congruential generator of \<^verbatim>\<open>src/drand48.c\<close> behind \<^verbatim>\<open>random()\<close>.  The
  C code multiplies in three 16-bit limbs; the theorems say that it is the recurrence
  \<open>X' = (a X + c) mod 2^48\<close> and what the public functions return of it.

  The limbs are \<^verbatim>\<open>unsigned\<close> (32 bits) and the products \<^verbatim>\<open>long\<close> (64 bits); they are integers here, with the
  conversion to \<^verbatim>\<open>unsigned\<close> written out as \<open>U32\<close>.  \<^verbatim>\<open>&\<close> with the 16-bit mask is reduction modulo
  \<open>2^16\<close> and an arithmetic right shift is \<open>div\<close>, for negative values as well.
\<close>

section \<open>The generator\<close>

definition U32 :: "int \<Rightarrow> int" where "U32 x = x mod 2 ^ 32"

definition MASK :: int where "MASK = 2 ^ 16 - 1"

definition LOW :: "int \<Rightarrow> int" where "LOW x = U32 x mod 2 ^ 16"

definition HIGH :: "int \<Rightarrow> int" where "HIGH x = LOW (x div 2 ^ 16)"

definition MUL :: "int \<Rightarrow> int \<Rightarrow> int \<times> int" where
  "MUL x y = (let l = x * y in (LOW l, HIGH l))"

definition CARRY :: "int \<Rightarrow> int \<Rightarrow> int" where
  "CARRY x y = (if x + y > MASK then 1 else 0)"

text \<open>\<^verbatim>\<open>ADDEQU(x, y, z)\<close>: the new values of \<open>x\<close> and \<open>z\<close>.\<close>

definition ADDEQU :: "int \<Rightarrow> int \<Rightarrow> int \<times> int" where
  "ADDEQU x y = (LOW (x + y), CARRY x y)"

record rng =
  x0 :: int
  x1 :: int
  x2 :: int
  a0 :: int
  a1 :: int
  a2 :: int
  cc :: int
  lastx :: "int \<times> int \<times> int"

definition SET3 :: "int \<times> int \<times> int \<Rightarrow> rng \<Rightarrow> rng" where
  "SET3 v g = (case v of (u0, u1, u2) \<Rightarrow> g\<lparr>x0 := u0, x1 := u1, x2 := u2\<rparr>)"

definition SEED :: "int \<times> int \<times> int \<Rightarrow> rng \<Rightarrow> rng" where
  "SEED v g = (SET3 v g)\<lparr>a0 := 0xE66D, a1 := 0xDEEC, a2 := 0x5, cc := 0xB\<rparr>"

definition rng_init :: rng where
  "rng_init = \<lparr>x0 = 0x330E, x1 = 0xABCD, x2 = 0x1234, a0 = 0xE66D, a1 = 0xDEEC, a2 = 0x5, cc = 0xB,
     lastx = (0, 0, 0)\<rparr>"

definition next_rng :: "rng \<Rightarrow> rng" where
  "next_rng g =
     (let (p0, p1) = MUL (a0 g) (x0 g);
          (p0, carry0) = ADDEQU p0 (cc g);
          (p1, carry1) = ADDEQU p1 carry0;
          (q0, q1) = MUL (a0 g) (x1 g);
          (p1, carry0) = ADDEQU p1 q0;
          (r0, r1) = MUL (a1 g) (x0 g)
      in g\<lparr>x2 := LOW (carry0 + carry1 + CARRY p1 r0 + q1 + r1 +
                       a0 g * x2 g + a1 g * x1 g + a2 g * x0 g),
           x1 := LOW (p1 + r0), x0 := LOW p0\<rparr>)"

text \<open>The double expression is exact: every partial result has at most 48 significant bits.\<close>

definition drand48 :: "rng \<Rightarrow> real \<times> rng" where
  "drand48 g =
     (let g = next_rng g; two16m = 1 / 2 ^ 16
      in (two16m * (two16m * (two16m * real_of_int (x0 g) + real_of_int (x1 g)) + real_of_int (x2 g)), g))"

definition lrand48 :: "rng \<Rightarrow> int \<times> rng" where
  "lrand48 g = (let g = next_rng g in (x2 g * 2 ^ 15 + x1 g div 2, g))"

definition HI_BIT :: int where "HI_BIT = 2 ^ 31"

definition mrand48 :: "rng \<Rightarrow> int \<times> rng" where
  "mrand48 g =
     (let g = next_rng g; l = x2 g * 2 ^ 16 + x1 g
      in (if l AND HI_BIT \<noteq> 0 then l OR (- HI_BIT) else l, g))"

definition srand48 :: "int \<Rightarrow> rng \<Rightarrow> rng" where
  "srand48 seedval g = SEED (0x330E, LOW seedval, HIGH seedval) g"

definition seed48 :: "int \<times> int \<times> int \<Rightarrow> rng \<Rightarrow> (int \<times> int \<times> int) \<times> rng" where
  "seed48 seed16v g =
     (let g = g\<lparr>lastx := (LOW (x0 g), LOW (x1 g), LOW (x2 g))\<rparr>;
          g = SEED (case seed16v of (u0, u1, u2) \<Rightarrow> (LOW u0, LOW u1, LOW u2)) g
      in (lastx g, g))"

definition lcong48 :: "int list \<Rightarrow> rng \<Rightarrow> rng option" where
  "lcong48 param g =
     (case param of
        [p0, p1, p2, p3, p4, p5, p6] \<Rightarrow>
          Some (g\<lparr>x0 := LOW p0, x1 := LOW p1, x2 := LOW p2, a0 := LOW p3, a1 := LOW p4, a2 := LOW p5,
                   cc := LOW p6\<rparr>)
      | _ \<Rightarrow> None)"

text \<open>The macro \<^verbatim>\<open>NEST\<close>: run \<open>F\<close> on the caller's state and put the generator's own back.\<close>

definition NEST :: "(rng \<Rightarrow> 'v \<times> rng) \<Rightarrow> int \<times> int \<times> int \<Rightarrow> rng \<Rightarrow> 'v \<times> (int \<times> int \<times> int) \<times> rng" where
  "NEST F xsubi g =
     (let temp = (x0 g, x1 g, x2 g);
          g = SET3 (case xsubi of (u0, u1, u2) \<Rightarrow> (LOW u0, LOW u1, LOW u2)) g;
          (v, g) = F g
      in (v, (x0 g, x1 g, x2 g), SET3 temp g))"

definition erand48 :: "int \<times> int \<times> int \<Rightarrow> rng \<Rightarrow> real \<times> (int \<times> int \<times> int) \<times> rng" where
  "erand48 = NEST drand48"

definition nrand48 :: "int \<times> int \<times> int \<Rightarrow> rng \<Rightarrow> int \<times> (int \<times> int \<times> int) \<times> rng" where
  "nrand48 = NEST lrand48"

definition jrand48 :: "int \<times> int \<times> int \<Rightarrow> rng \<Rightarrow> int \<times> (int \<times> int \<times> int) \<times> rng" where
  "jrand48 = NEST mrand48"

section \<open>Limbs\<close>

definition limb :: "int \<Rightarrow> bool" where "limb u \<longleftrightarrow> 0 \<le> u \<and> u < 2 ^ 16"

definition val3 :: "int \<Rightarrow> int \<Rightarrow> int \<Rightarrow> int" where
  "val3 u v w = u + 2 ^ 16 * v + 2 ^ 32 * w"

definition rng_ok :: "rng \<Rightarrow> bool" where
  "rng_ok g \<longleftrightarrow> limb (x0 g) \<and> limb (x1 g) \<and> limb (x2 g) \<and> limb (a0 g) \<and> limb (a1 g) \<and> limb (a2 g) \<and> limb (cc g)"

definition XV :: "rng \<Rightarrow> int" where "XV g = val3 (x0 g) (x1 g) (x2 g)"

definition AV :: "rng \<Rightarrow> int" where "AV g = val3 (a0 g) (a1 g) (a2 g)"

lemma LOW_mod: "LOW x = x mod 2 ^ 16"
  using mod_mod_cancel [of "2 ^ 16" "2 ^ 32 :: int" x] by (simp add: LOW_def U32_def)

lemma limb_LOW [simp]: "limb (LOW x)"
  by (simp add: limb_def LOW_mod)

lemma LOW_limb [simp]: "limb x \<Longrightarrow> LOW x = x"
  by (simp add: limb_def LOW_mod)

lemma MUL_law:
  assumes "limb x" "limb y"
  shows "\<exists>lo hi. MUL x y = (lo, hi) \<and> limb lo \<and> limb hi \<and> x * y = lo + 2 ^ 16 * hi"
proof -
  have "0 \<le> x * y" using assms by (simp add: limb_def)
  moreover have "x * y \<le> (2 ^ 16 - 1) * (2 ^ 16 - 1)"
    using assms by (intro mult_mono) (auto simp: limb_def)
  ultimately have "HIGH (x * y) = x * y div 2 ^ 16" by (simp add: HIGH_def LOW_mod)
  then have "x * y = LOW (x * y) + 2 ^ 16 * HIGH (x * y)" by (simp add: LOW_mod)
  then show ?thesis by (simp add: MUL_def Let_def HIGH_def)
qed

lemma ADDEQU_law:
  assumes "limb x" "limb y"
  shows "\<exists>s k. ADDEQU x y = (s, k) \<and> CARRY x y = k \<and> LOW (x + y) = s \<and> limb s \<and> limb k \<and>
    x + y = s + 2 ^ 16 * k"
proof (cases "x + y > MASK")
  case True
  then have "limb (x + y - 2 ^ 16)" using assms by (simp add: MASK_def limb_def)
  then have "LOW (x + y - 2 ^ 16) = x + y - 2 ^ 16" by (rule LOW_limb)
  moreover have "LOW (x + y - 2 ^ 16) = LOW (x + y)" unfolding LOW_mod by (rule minus_mod_self2)
  ultimately have "LOW (x + y) = x + y - 2 ^ 16" by simp
  with True assms show ?thesis by (simp add: ADDEQU_def CARRY_def MASK_def limb_def)
next
  case False
  then have "limb (x + y)" using assms by (simp add: MASK_def limb_def)
  then show ?thesis using False by (simp add: ADDEQU_def CARRY_def limb_def)
qed

lemma val3_mod:
  assumes "limb u" "limb v"
  shows "(u + 2 ^ 16 * v + 2 ^ 32 * s) mod 2 ^ 48 = val3 u v (LOW s)"
proof -
  have "u + 2 ^ 16 * v + 2 ^ 32 * s = val3 u v (LOW s) + 2 ^ 48 * (s div 2 ^ 16)"
    using div_mult_mod_eq [of s "2 ^ 16"] unfolding val3_def LOW_mod by simp presburger
  moreover have "0 \<le> val3 u v (LOW s)" "val3 u v (LOW s) < 2 ^ 48"
    using assms limb_LOW [of s] by (simp_all add: val3_def limb_def del: limb_LOW)
  ultimately show ?thesis by simp
qed

lemma next_rng_law:
  assumes "rng_ok g"
  shows "XV (next_rng g) = (AV g * XV g + cc g) mod 2 ^ 48" "rng_ok (next_rng g)" "AV (next_rng g) = AV g"
    "cc (next_rng g) = cc g"
proof -
  note l = assms [unfolded rng_ok_def]
  from l MUL_law [of "a0 g" "x0 g"] obtain p0 p1 where
    p: "MUL (a0 g) (x0 g) = (p0, p1)" "limb p0" "limb p1" "a0 g * x0 g = p0 + 2 ^ 16 * p1" by blast
  from l MUL_law [of "a0 g" "x1 g"] obtain q0 q1 where
    q: "MUL (a0 g) (x1 g) = (q0, q1)" "limb q0" "limb q1" "a0 g * x1 g = q0 + 2 ^ 16 * q1" by blast
  from l MUL_law [of "a1 g" "x0 g"] obtain r0 r1 where
    r: "MUL (a1 g) (x0 g) = (r0, r1)" "limb r0" "limb r1" "a1 g * x0 g = r0 + 2 ^ 16 * r1" by blast
  from l p(2) ADDEQU_law [of p0 "cc g"] obtain s0 k0 where
    s0: "ADDEQU p0 (cc g) = (s0, k0)" "limb s0" "limb k0" "p0 + cc g = s0 + 2 ^ 16 * k0" by blast
  from p(3) s0 ADDEQU_law [of p1 k0] obtain s1 k1 where
    s1: "ADDEQU p1 k0 = (s1, k1)" "limb s1" "p1 + k0 = s1 + 2 ^ 16 * k1" by blast
  from s1(2) q(2) ADDEQU_law [of s1 q0] obtain s2 k2 where
    s2: "ADDEQU s1 q0 = (s2, k2)" "limb s2" "s1 + q0 = s2 + 2 ^ 16 * k2" by blast
  from s2(2) r(2) ADDEQU_law [of s2 r0] obtain s3 k3 where
    s3: "CARRY s2 r0 = k3" "LOW (s2 + r0) = s3" "limb s3" "s2 + r0 = s3 + 2 ^ 16 * k3" by blast
  let ?S = "k2 + k1 + k3 + q1 + r1 + a0 g * x2 g + a1 g * x1 g + a2 g * x0 g"
  have n: "next_rng g = g\<lparr>x2 := LOW ?S, x1 := s3, x0 := s0\<rparr>"
    using p(1) q(1) r(1) s0(1,2) s1(1) s2(1) s3 by (simp add: next_rng_def)
  have "AV g * XV g + cc g = (a0 g * x0 g + cc g + 2 ^ 16 * (a0 g * x1 g + a1 g * x0 g)
      + 2 ^ 32 * (a0 g * x2 g + a1 g * x1 g + a2 g * x0 g))
      + 2 ^ 48 * (a1 g * x2 g + a2 g * x1 g + 2 ^ 16 * (a2 g * x2 g))"
    by (simp add: AV_def XV_def val3_def algebra_simps)
  also have "a0 g * x0 g + cc g + 2 ^ 16 * (a0 g * x1 g + a1 g * x0 g)
      + 2 ^ 32 * (a0 g * x2 g + a1 g * x1 g + a2 g * x0 g) = s0 + 2 ^ 16 * s3 + 2 ^ 32 * ?S"
    using p(4) q(4) r(4) s0(4) s1(3) s2(3) s3(4) by (simp add: algebra_simps)
  finally have "(AV g * XV g + cc g) mod 2 ^ 48 = (s0 + 2 ^ 16 * s3 + 2 ^ 32 * ?S) mod 2 ^ 48"
    by (simp only: mod_mult_self2)
  moreover have "XV (next_rng g) = val3 s0 s3 (LOW ?S)" by (simp add: n XV_def)
  ultimately show "XV (next_rng g) = (AV g * XV g + cc g) mod 2 ^ 48"
    using val3_mod [OF s0(2) s3(3), of ?S] by (simp only:)
  show "rng_ok (next_rng g)" "AV (next_rng g) = AV g" "cc (next_rng g) = cc g"
    using l n s0(2) s3(3) by (simp_all add: rng_ok_def AV_def)
qed

lemma rng_ok_init: "rng_ok rng_init"
  by (simp add: rng_ok_def rng_init_def limb_def)

lemma XV_bounds: "rng_ok g \<Longrightarrow> 0 \<le> XV g \<and> XV g < 2 ^ 48"
  by (simp add: rng_ok_def XV_def val3_def limb_def)

section \<open>What the public functions return\<close>

text \<open>The upper bits of the 48-bit state.\<close>

lemma XV_div:
  assumes "rng_ok g"
  shows "XV g div 2 ^ 16 = x2 g * 2 ^ 16 + x1 g" "XV g div 2 ^ 17 = x2 g * 2 ^ 15 + x1 g div 2"
proof -
  have "XV g = x0 g + 2 ^ 16 * (x2 g * 2 ^ 16 + x1 g)" by (simp add: XV_def val3_def)
  moreover have "x0 g div 2 ^ 16 = 0" using assms by (simp add: rng_ok_def limb_def)
  ultimately show d: "XV g div 2 ^ 16 = x2 g * 2 ^ 16 + x1 g"
    by (simp only: div_mult_self2 [of "2 ^ 16 :: int"]) simp
  have "XV g div 2 ^ 17 = XV g div 2 ^ 16 div 2" by (simp add: zdiv_zmult2_eq [symmetric])
  then show "XV g div 2 ^ 17 = x2 g * 2 ^ 15 + x1 g div 2" unfolding d by simp
qed

lemma sign_bit: "l AND HI_BIT \<noteq> 0 \<longleftrightarrow> bit l 31"
  unfolding HI_BIT_def by (simp only: and_exp_eq_0_iff_not_bit not_not)

lemma sign_bit_le: "0 \<le> l \<Longrightarrow> l < 2 ^ 32 \<Longrightarrow> bit l 31 \<longleftrightarrow> 2 ^ 31 \<le> l" for l :: int
proof -
  assume l: "0 \<le> l" "l < 2 ^ 32"
  then have "l div 2 ^ 31 = 0 \<or> l div 2 ^ 31 = 1" by auto
  moreover have "l div 2 ^ 31 = 0 \<longleftrightarrow> l < 2 ^ 31" using l by auto
  ultimately show ?thesis by (auto simp: bit_iff_odd not_less)
qed

lemma or_sign:
  assumes "0 \<le> l" "l < 2 ^ 32" "bit l 31"
  shows "l OR (- HI_BIT) = l - 2 ^ 32"
proof -
  have high: "bit (- HI_BIT) n \<longleftrightarrow> 31 \<le> n" for n
    unfolding HI_BIT_def by (simp only: bit_minus_exp_iff possible_bit_def) simp
  have "l OR (- HI_BIT) = take_bit 31 l OR (- HI_BIT)"
    by (rule bit_eqI) (auto simp: bit_or_iff high bit_take_bit_iff)
  also have "\<dots> = take_bit 31 l + (- HI_BIT)"
  proof (rule disjunctive_add_eq_or [symmetric])
    show "take_bit 31 l AND - HI_BIT = 0"
      by (rule bit_eqI) (simp add: bit_and_iff high bit_take_bit_iff)
  qed
  also have "take_bit 31 l = l - 2 ^ 31"
  proof -
    have "(l - 2 ^ 31) mod 2 ^ 31 = l - 2 ^ 31"
      by (rule mod_pos_pos_trivial) (use assms sign_bit_le [OF assms(1,2)] in simp_all)
    then show ?thesis by (simp only: minus_mod_self2 take_bit_eq_mod)
  qed
  finally show ?thesis by (simp add: HI_BIT_def)
qed

lemma nest_state:
  assumes "\<And>g. snd (F g) = next_rng g"
  shows "snd (snd (NEST F xs g)) = g"
proof (cases xs)
  case (fields u0 u1 u2)
  let ?h = "SET3 (LOW u0, LOW u1, LOW u2) g"
  have "F ?h = (fst (F ?h), next_rng ?h)" using assms [of ?h] by (simp add: prod_eq_iff)
  moreover have "SET3 (x0 g, x1 g, x2 g) (next_rng ?h) = g"
    by (simp add: next_rng_def SET3_def split: prod.split)
  ultimately show ?thesis by (simp add: fields NEST_def Let_def split: prod.split) (metis snd_conv)
qed

section \<open>Properties\<close>

text \<open>The three-limb arithmetic of \<^verbatim>\<open>next()\<close>, with its carries, is the 48-bit linear congruential
  recurrence, and keeps every limb within 16 bits.\<close>

lemma next_is_lcg:
  assumes "rng_ok g"
  shows "XV (next_rng g) = (AV g * XV g + cc g) mod 2 ^ 48 \<and> rng_ok (next_rng g)"
  using next_rng_law(1,2) [OF assms] by simp

text \<open>\<^verbatim>\<open>drand48\<close> is the new state as a fraction of \<open>2^48\<close>, in the half-open unit interval; \<^verbatim>\<open>lrand48\<close> is its
  upper 31 bits and \<^verbatim>\<open>mrand48\<close> its upper 32 bits read as a signed integer.\<close>

lemma rand48_results:
  assumes "rng_ok g"
  shows "fst (drand48 g) = XV (next_rng g) / 2 ^ 48 \<and> 0 \<le> fst (drand48 g) \<and> fst (drand48 g) < 1 \<and>
    fst (lrand48 g) = XV (next_rng g) div 2 ^ 17 \<and> 0 \<le> fst (lrand48 g) \<and> fst (lrand48 g) < 2 ^ 31 \<and>
    - (2 ^ 31) \<le> fst (mrand48 g) \<and> fst (mrand48 g) < 2 ^ 31 \<and>
    fst (mrand48 g) mod 2 ^ 32 = XV (next_rng g) div 2 ^ 16"
proof -
  let ?g = "next_rng g"
  have ok: "rng_ok ?g" using next_rng_law(2) [OF assms] .
  note b = XV_bounds [OF ok] and d = XV_div [OF ok]
  have dr: "fst (drand48 g) = real_of_int (XV ?g) / 2 ^ 48"
    by (simp add: drand48_def Let_def XV_def val3_def field_simps)
  moreover have "real_of_int (XV ?g) < 2 ^ 48" using b by (simp flip: of_int_less_iff)
  moreover have l: "fst (lrand48 g) = XV ?g div 2 ^ 17" using d by (simp add: lrand48_def Let_def)
  moreover have "XV ?g div 2 ^ 17 < 2 ^ 31" "0 \<le> XV ?g div 2 ^ 17" using b by auto
  moreover have hb: "0 \<le> XV ?g div 2 ^ 16" "XV ?g div 2 ^ 16 < 2 ^ 32" using b by auto
  have "fst (mrand48 g) = (if 2 ^ 31 \<le> XV ?g div 2 ^ 16 then XV ?g div 2 ^ 16 - 2 ^ 32 else XV ?g div 2 ^ 16)"
    using sign_bit sign_bit_le [OF hb] or_sign [OF hb] d(1) by (simp add: mrand48_def Let_def)
  then have "- (2 ^ 31) \<le> fst (mrand48 g) \<and> fst (mrand48 g) < 2 ^ 31 \<and>
      fst (mrand48 g) mod 2 ^ 32 = XV ?g div 2 ^ 16"
    using hb by (auto simp: minus_mod_self2)
  ultimately show ?thesis using b by simp
qed

text \<open>The variants with caller-supplied state leave the generator exactly as it was.\<close>

lemma nest_preserves_generator:
  "snd (snd (erand48 xs g)) = g \<and> snd (snd (nrand48 xs g)) = g \<and> snd (snd (jrand48 xs g)) = g"
proof -
  have "snd (drand48 g) = next_rng g" "snd (lrand48 g) = next_rng g" "snd (mrand48 g) = next_rng g" for g
    by (simp_all add: drand48_def lrand48_def mrand48_def Let_def)
  then show ?thesis by (simp add: erand48_def nrand48_def jrand48_def nest_state)
qed

end
