(* ===== verification/Wildmat.thy ===== *)
theory Wildmat
  imports Driver_Prelude
begin

text \<open>
  Shell-style patterns (\<^verbatim>\<open>src/wildmat.c\<close>, the efun \<^verbatim>\<open>wildmatch\<close>).  The model follows the C
  code byte by byte: a text or pattern is the list of its \<^verbatim>\<open>char\<close> values (signed, so integers) before the
  terminating NUL, and \<^const>\<open>None\<close> is a read past the terminator of the pattern, which the code can do on
  an unterminated character class.  The reference is the usual meaning of a parsed pattern.
\<close>

section \<open>The matcher\<close>

datatype outcome = MTRUE | MFALSE | MABORT

text \<open>
  The loop over a character class for the text character \<open>c\<close>; the list is what follows \<open>p\<close>.  The
  result is \<^verbatim>\<open>matched\<close> and what follows the closing bracket, \<^const>\<open>None\<close> there when the loop stopped at the
  terminator of the pattern.
\<close>

fun class_loop :: "int \<Rightarrow> int \<Rightarrow> int list \<Rightarrow> bool \<Rightarrow> (bool \<times> int list option) option" where
  "class_loop c lst [] m = Some (m, None)"
| "class_loop c lst (x # xs) m =
     (if x = 93 then Some (m, Some xs)
      else if x = 45
      then (case xs of
              [] \<Rightarrow> None
            | y # ys \<Rightarrow> (if y \<noteq> 93 then class_loop c y ys (m \<or> (c \<le> y \<and> c \<ge> lst))
                        else class_loop c x xs (m \<or> c = x)))
      else class_loop c x xs (m \<or> c = x))"

text \<open>The case \<^verbatim>\<open>'['\<close>: whether the class accepts \<open>c\<close>, and the pattern after it.\<close>

definition class_match :: "int \<Rightarrow> int list \<Rightarrow> (bool \<times> int list option) option" where
  "class_match c p =
     (let (reverse, cur, p) = (case p of x # xs \<Rightarrow> if x = 94 then (True, x, xs) else (False, 91, p)
                               | [] \<Rightarrow> (False, 91, p));
          (m, lst, p) = (case p of x # xs \<Rightarrow> if x = 93 \<or> x = 45 then (x = c, x, xs) else (False, cur, p)
                          | [] \<Rightarrow> (False, cur, p))
      in map_option (\<lambda>(m, q). (m \<noteq> reverse, q)) (class_loop c lst p m))"

lemma class_loop_shorter: "class_loop c lst xs m = Some (b, Some q) \<Longrightarrow> length q < length xs"
  by (induction c lst xs m rule: class_loop.induct) (fastforce split: if_splits list.splits)+

lemma class_match_shorter: "class_match c p = Some (b, Some q) \<Longrightarrow> length q < length p"
  by (auto simp: class_match_def Let_def dest!: class_loop_shorter split: list.splits if_splits)

function (sequential) DoMatch :: "int list \<Rightarrow> int list \<Rightarrow> outcome option"
  and DoMatch_star :: "int list \<Rightarrow> int list \<Rightarrow> outcome option" where
  "DoMatch text [] = Some (if text = [] then MTRUE else MFALSE)"
| "DoMatch text (x # p) =
     (if x = 42
      then (let q = dropWhile (\<lambda>y. y = 42) p
            in if q = [] then Some MTRUE else DoMatch_star text q)
      else case text of
        [] \<Rightarrow> Some MABORT
      | c # text' \<Rightarrow>
          (if x = 92
           then (case p of [] \<Rightarrow> Some MFALSE
                 | y # q \<Rightarrow> if c \<noteq> y then Some MFALSE else DoMatch text' q)
           else if x = 63 then DoMatch text' p
           else if x = 91
           then (case class_match c p of
                   None \<Rightarrow> None
                 | Some (ok, rest) \<Rightarrow>
                     (if \<not> ok then Some MFALSE
                      else case rest of None \<Rightarrow> None | Some q \<Rightarrow> DoMatch text' q))
           else if c \<noteq> x then Some MFALSE else DoMatch text' p))"
| "DoMatch_star [] p = Some MABORT"
| "DoMatch_star (c # text) p =
     (case DoMatch (c # text) p of
        None \<Rightarrow> None
      | Some MFALSE \<Rightarrow> DoMatch_star text p
      | Some r \<Rightarrow> Some r)"
  by pat_completeness auto

termination
  by (relation "inv_image (less_than <*lex*> (less_than <*lex*> less_than))
       (\<lambda>s. case s of Inl (t, p) \<Rightarrow> (length p, length t, 0)
                    | Inr (t, p) \<Rightarrow> (length p, length t, 1 :: nat))")
    (auto dest: class_match_shorter simp: length_dropWhile_le le_imp_less_Suc)

definition wildmat :: "int list \<Rightarrow> int list \<Rightarrow> bool option" where
  "wildmat text p = (if p = [42] then Some True else map_option (\<lambda>r. r = MTRUE) (DoMatch text p))"

section \<open>Reference: patterns and their meaning\<close>

text \<open>A class holds inclusive ranges of characters.\<close>

datatype elem = Lit int | Any | Star | Class bool "(int \<times> int) list" | Never

fun class_ranges :: "int \<Rightarrow> int list \<Rightarrow> ((int \<times> int) list \<times> int list) option" where
  "class_ranges lst [] = None"
| "class_ranges lst (x # xs) =
     (if x = 93 then Some ([], xs)
      else if x = 45
      then (case xs of
              [] \<Rightarrow> None
            | y # ys \<Rightarrow> (if y \<noteq> 93 then map_option (\<lambda>(rs, q). ((lst, y) # rs, q)) (class_ranges y ys)
                        else map_option (\<lambda>(rs, q). ((x, x) # rs, q)) (class_ranges x xs)))
      else map_option (\<lambda>(rs, q). ((x, x) # rs, q)) (class_ranges x xs))"

definition class_parse :: "int list \<Rightarrow> (elem \<times> int list) option" where
  "class_parse p =
     (let (neg, cur, p) = (case p of x # xs \<Rightarrow> if x = 94 then (True, x, xs) else (False, 91, p)
                           | [] \<Rightarrow> (False, 91, p));
          (first, lst, p) = (case p of x # xs \<Rightarrow> if x = 93 \<or> x = 45 then ([(x, x)], x, xs) else ([], cur, p)
                              | [] \<Rightarrow> ([], cur, p))
      in map_option (\<lambda>(rs, q). (Class neg (first @ rs), q)) (class_ranges lst p))"

lemma class_ranges_shorter: "class_ranges lst xs = Some (rs, q) \<Longrightarrow> length q < length xs"
  by (induction lst xs arbitrary: rs rule: class_ranges.induct) (fastforce split: if_splits list.splits)+

lemma class_parse_shorter: "class_parse p = Some (e, q) \<Longrightarrow> length q < length p"
  by (auto simp: class_parse_def Let_def dest!: class_ranges_shorter split: list.splits if_splits)

function (sequential) parse :: "int list \<Rightarrow> elem list option" where
  "parse [] = Some []"
| "parse (x # p) =
     (if x = 42 then map_option (\<lambda>es. Star # es) (parse p)
      else if x = 92 then (case p of [] \<Rightarrow> Some [Never] | y # q \<Rightarrow> map_option (\<lambda>es. Lit y # es) (parse q))
      else if x = 63 then map_option (\<lambda>es. Any # es) (parse p)
      else if x = 91
      then (case class_parse p of None \<Rightarrow> None | Some (e, q) \<Rightarrow> map_option (\<lambda>es. e # es) (parse q))
      else map_option (\<lambda>es. Lit x # es) (parse p))"
  by pat_completeness auto

termination
  by (relation "measure length") (auto dest: class_parse_shorter)

fun accepts :: "elem \<Rightarrow> int \<Rightarrow> bool" where
  "accepts (Lit x) c \<longleftrightarrow> c = x"
| "accepts Any c \<longleftrightarrow> True"
| "accepts (Class neg rs) c \<longleftrightarrow> (\<exists>(lo, hi)\<in>set rs. lo \<le> c \<and> c \<le> hi) \<noteq> neg"
| "accepts Star c \<longleftrightarrow> False"
| "accepts Never c \<longleftrightarrow> False"

fun glob :: "elem list \<Rightarrow> int list \<Rightarrow> bool" where
  "glob [] t \<longleftrightarrow> t = []"
| "glob (Star # es) t \<longleftrightarrow> (\<exists>k\<in>{0..length t}. glob es (drop k t))"
| "glob (e # es) t \<longleftrightarrow> (case t of [] \<Rightarrow> False | c # t' \<Rightarrow> accepts e c \<and> glob es t')"

section \<open>The matcher implements the reference\<close>

lemma class_loop_ranges:
  assumes "class_ranges lst xs = Some (rs, q)"
  shows "class_loop c lst xs m = Some (m \<or> (\<exists>(lo, hi)\<in>set rs. lo \<le> c \<and> c \<le> hi), Some q)"
  using assms
proof (induction lst xs arbitrary: rs m rule: class_ranges.induct)
  case (2 lst x xs)
  have one: "c = x \<longleftrightarrow> x \<le> c \<and> c \<le> x" for x by auto
  show ?case
  proof (cases "x = 93")
    case True
    with 2 show ?thesis by simp
  next
    case not93: False
    show ?thesis
    proof (cases "x = 45")
      case True
      with 2 obtain y ys where xs: "xs = y # ys" by (cases xs) simp_all
      show ?thesis
      proof (cases "y = 93")
        case False
        with 2(4) True xs obtain rs' where "rs = (lst, y) # rs'" "class_ranges y ys = Some (rs', q)" by auto
        with 2(1) [OF not93 True xs] False True xs show ?thesis by auto
      next
        case y: True
        with 2(4) True xs obtain rs' where "rs = (x, x) # rs'" "class_ranges x xs = Some (rs', q)" by auto
        with 2(2) [OF not93 True xs] y True xs one show ?thesis by auto
      qed
    next
      case False
      with 2(4) not93 obtain rs' where "rs = (x, x) # rs'" "class_ranges x xs = Some (rs', q)" by auto
      with 2(3) [OF not93 False] not93 False one show ?thesis by auto
    qed
  qed
qed simp

lemma class_match_parse:
  assumes "class_parse p = Some (e, q)"
  shows "class_match c p = Some (accepts e c, Some q)"
proof -
  obtain neg cur p1 where 1: "(case p of x # xs \<Rightarrow> if x = 94 then (True, x, xs) else (False, 91, p)
      | [] \<Rightarrow> (False, 91, p)) = (neg, cur, p1)" by (cases "case p of x # xs \<Rightarrow>
        if x = 94 then (True, x, xs) else (False, 91, p) | [] \<Rightarrow> (False, 91, p)") auto
  obtain first lst p2 where 2: "(case p1 of x # xs \<Rightarrow> if x = 93 \<or> x = 45 then ([(x, x)], x, xs) else ([], cur, p1)
      | [] \<Rightarrow> ([], cur, p1)) = (first, lst, p2)" by (cases "case p1 of x # xs \<Rightarrow>
        if x = 93 \<or> x = 45 then ([(x, x)], x, xs) else ([], cur, p1) | [] \<Rightarrow> ([], cur, p1)") auto
  let ?m = "\<exists>(lo, hi)\<in>set first. lo \<le> c \<and> c \<le> hi"
  have 3: "(case p1 of x # xs \<Rightarrow> if x = 93 \<or> x = 45 then (x = c, x, xs) else (False, cur, p1)
      | [] \<Rightarrow> (False, cur, p1)) = (?m, lst, p2)"
    using 2 by (auto split: list.splits if_splits)
  from assms obtain rs where rs: "class_ranges lst p2 = Some (rs, q)" "e = Class neg (first @ rs)"
    by (auto simp: class_parse_def 1 2)
  then have "accepts e c \<longleftrightarrow> (?m \<or> (\<exists>(lo, hi)\<in>set rs. lo \<le> c \<and> c \<le> hi)) \<noteq> neg" by auto
  then show ?thesis by (simp add: class_match_def 1 3 class_loop_ranges [OF rs(1)])
qed

lemma class_parse_class: "class_parse p = Some (e, q) \<Longrightarrow> e \<noteq> Star"
  by (auto simp: class_parse_def Let_def split: list.splits if_splits)

text \<open>\<^verbatim>\<open>ABORT\<close> promises more than a mismatch: no suffix of the text matches.\<close>

definition verdict :: "outcome option \<Rightarrow> elem list \<Rightarrow> int list \<Rightarrow> bool" where
  "verdict r es t \<longleftrightarrow> (\<exists>o'. r = Some o' \<and> (o' = MTRUE \<longleftrightarrow> glob es t) \<and>
     (o' = MABORT \<longrightarrow> (\<forall>k. \<not> glob es (drop k t))))"

lemma glob_Cons: "e \<noteq> Star \<Longrightarrow> glob (e # es) t \<longleftrightarrow> (\<exists>c t'. t = c # t' \<and> accepts e c \<and> glob es t')"
  by (cases e; cases t) simp_all

lemma verdict_step:
  assumes "e \<noteq> Star" "accepts e c" "verdict r es t"
  shows "verdict r (e # es) (c # t)"
proof -
  have "\<not> glob (e # es) (drop k (c # t))" if "\<forall>k. \<not> glob es (drop k t)" for k
  proof (cases k)
    case 0
    then show ?thesis using that [rule_format, of 0] assms(1) by (simp add: glob_Cons)
  next
    case (Suc n)
    have "\<not> glob es t'" if "drop n t = c' # t'" for c' t'
    proof -
      have "t' = drop (Suc n) t" using that by (metis drop_Suc list.sel(3) tl_drop)
      then show ?thesis using \<open>\<forall>k. \<not> glob es (drop k t)\<close> by blast
    qed
    with Suc assms(1) show ?thesis by (auto simp: glob_Cons)
  qed
  with assms show ?thesis by (auto simp: verdict_def glob_Cons)
qed

lemma verdict_reject: "e \<noteq> Star \<Longrightarrow> \<not> accepts e c \<Longrightarrow> verdict (Some MFALSE) (e # es) (c # t)"
  by (simp add: verdict_def glob_Cons)

lemma verdict_end: "e \<noteq> Star \<Longrightarrow> verdict (Some MABORT) (e # es) []"
  by (simp add: verdict_def glob_Cons)

lemma glob_Star: "glob (Star # es) t \<longleftrightarrow> (\<exists>k. glob es (drop k t))"
proof
  assume "\<exists>k. glob es (drop k t)"
  then obtain k where k: "glob es (drop k t)" by blast
  have "drop k t = drop (min k (length t)) t" by (simp add: min_def)
  with k have "glob es (drop (min k (length t)) t)" by simp
  then show "glob (Star # es) t" by (auto intro!: bexI [of _ "min k (length t)"])
qed auto

declare glob.simps(2) [simp del]

lemma glob_Star_nil: "glob [Star] t"
  unfolding glob_Star by (rule exI [of _ "length t"]) simp

lemma glob_Star_Star: "glob (Star # Star # es) t \<longleftrightarrow> glob (Star # es) t"
proof
  assume "glob (Star # Star # es) t"
  then obtain j k where "glob es (drop k (drop j t))" unfolding glob_Star by blast
  then show "glob (Star # es) t" unfolding glob_Star drop_drop by blast
next
  assume "glob (Star # es) t"
  then have "glob (Star # es) (drop 0 t)" by simp
  then show "glob (Star # Star # es) t" using glob_Star [of "Star # es" t] by blast
qed

text \<open>Skipping consecutive stars of the pattern.\<close>

lemma parse_stars:
  "parse p = Some es \<Longrightarrow>
   \<exists>es'. parse (dropWhile (\<lambda>y. y = 42) p) = Some es' \<and> (\<forall>t. glob (Star # es) t \<longleftrightarrow> glob (Star # es') t) \<and>
     (case es' of [] \<Rightarrow> dropWhile (\<lambda>y. y = 42) p = [] | e # _ \<Rightarrow> e \<noteq> Star)"
proof (induction p arbitrary: es)
  case (Cons x p)
  show ?case
  proof (cases "x = 42")
    case True
    with Cons.prems obtain es1 where "parse p = Some es1" "es = Star # es1" by auto
    moreover have "dropWhile (\<lambda>y. y = 42) (x # p) = dropWhile (\<lambda>y. y = 42) p" using True by simp
    ultimately show ?thesis using Cons.IH [of es1] by (simp only: glob_Star_Star)
  next
    case False
    then show ?thesis using Cons.prems
      by (auto dest: class_parse_class split: if_splits list.splits option.splits)
  qed
qed simp

lemma star_verdict:
  assumes "\<And>t. length t \<le> length tx \<Longrightarrow> verdict (DoMatch t p) es t" "\<not> glob es []"
  shows "verdict (DoMatch_star tx p) (Star # es) tx"
  using assms(1)
proof (induction tx)
  case Nil
  then show ?case using assms(2) by (simp add: verdict_def glob_Star)
next
  case (Cons c tx)
  have IH: "verdict (DoMatch_star tx p) (Star # es) tx" using Cons by simp
  from Cons.prems [of "c # tx"] have v: "verdict (DoMatch (c # tx) p) es (c # tx)" by simp
  then obtain r where r: "DoMatch (c # tx) p = Some r" by (auto simp: verdict_def)
  have star: "glob (Star # es) (c # tx) \<longleftrightarrow> glob es (c # tx) \<or> glob (Star # es) tx"
    unfolding glob_Star by (metis drop0 drop_Suc_Cons not0_implies_Suc)
  have suf: "\<forall>k. \<not> glob (Star # es) (drop k (c # tx))" if "\<not> glob (Star # es) (c # tx)"
    "\<forall>k. \<not> glob (Star # es) (drop k tx)"
  proof
    fix k show "\<not> glob (Star # es) (drop k (c # tx))" using that by (cases k) simp_all
  qed
  show ?case
  proof (cases r)
    case MTRUE
    with v r star show ?thesis by (simp add: verdict_def)
  next
    case MFALSE
    with v r have "\<not> glob es (c # tx)" by (simp add: verdict_def)
    moreover from IH obtain w where w: "DoMatch_star tx p = Some w" by (auto simp: verdict_def)
    ultimately show ?thesis using IH MFALSE r star suf by (auto simp: verdict_def)
  next
    case MABORT
    with v r have n: "\<forall>k. \<not> glob es (drop k (c # tx))" by (simp add: verdict_def)
    have "\<not> glob (Star # es) (drop k (c # tx))" for k
      unfolding glob_Star drop_drop using n by blast
    moreover from this [of 0] have "\<not> glob (Star # es) (c # tx)" by simp
    ultimately show ?thesis using MABORT r by (simp add: verdict_def)
  qed
qed

lemma glob_nonstar: "e \<noteq> Star \<Longrightarrow> \<not> glob (e # es) []"
  by (simp add: glob_Cons)

lemma DoMatch_verdict: "parse p = Some es \<Longrightarrow> verdict (DoMatch tx p) es tx"
proof (induction "length p" arbitrary: p es tx rule: less_induct)
  case less
  show ?case
  proof (cases p)
    case Nil
    with less.prems show ?thesis by (simp add: verdict_def)
  next
    case (Cons x q)
    have IH: "verdict (DoMatch t p') es' t" if "length p' < length p" "parse p' = Some es'" for p' es' t
      using less.hyps that by blast
    show ?thesis
    proof (cases "x = 42")
      case True
      with Cons less.prems obtain es1 where es1: "parse q = Some es1" "es = Star # es1" by auto
      let ?q = "dropWhile (\<lambda>y. y = 42) q"
      from parse_stars [OF es1(1)] obtain es2 where es2: "parse ?q = Some es2"
        "\<forall>t. glob (Star # es1) t \<longleftrightarrow> glob (Star # es2) t" "case es2 of [] \<Rightarrow> ?q = [] | e # _ \<Rightarrow> e \<noteq> Star" by blast
      have lt: "length ?q < length p" using Cons by (simp add: length_dropWhile_le le_imp_less_Suc)
      have "verdict (DoMatch tx p) (Star # es2) tx"
      proof (cases "?q = []")
        case True
        with es2(1) have "es2 = []" by simp
        with True \<open>x = 42\<close> Cons show ?thesis by (simp add: verdict_def glob_Star_nil)
      next
        case False
        then obtain e es3 where "es2 = e # es3" "e \<noteq> Star" using es2(3) by (auto split: list.splits)
        then have "\<not> glob es2 []" by (simp add: glob_nonstar)
        from star_verdict [OF IH [OF lt es2(1)] this] False \<open>x = 42\<close> Cons show ?thesis by auto
      qed
      then show ?thesis using es2(2) by (simp add: verdict_def es1(2))
    next
      case nostar: False
      with Cons less.prems obtain e es1 where es1: "es = e # es1" "e \<noteq> Star"
        by (auto dest: class_parse_class split: if_splits list.splits option.splits)
      show ?thesis
      proof (cases tx)
        case Nil
        with nostar Cons es1 show ?thesis by (simp add: verdict_end)
      next
        case tx: (Cons c t)
        show ?thesis using less.prems nostar unfolding Cons tx es1(1)
          by (auto simp: class_match_parse intro!: verdict_step verdict_reject IH
              dest: class_parse_shorter [THEN less_SucI] class_parse_class
              split: if_splits list.splits option.splits simp: Cons)
      qed
    qed
  qed
qed

section \<open>Properties\<close>

text \<open>C35. On a well-formed pattern the matcher never reads past the pattern and decides exactly whether the
  text has the shape the pattern describes; the early \<^verbatim>\<open>ABORT\<close> changes no answer.\<close>

theorem wildmat_correct:
  assumes "parse p = Some es"
  shows "wildmat tx p = Some (glob es tx)"
proof (cases "p = [42]")
  case True
  with assms have "es = [Star]" by simp
  with True show ?thesis by (simp add: wildmat_def glob_Star_nil)
next
  case False
  from DoMatch_verdict [OF assms, of tx] obtain r where "DoMatch tx p = Some r" "r = MTRUE \<longleftrightarrow> glob es tx"
    by (auto simp: verdict_def)
  with False show ?thesis by (simp add: wildmat_def)
qed

text \<open>The pattern \<^verbatim>\<open>a*[0-9]\<close> and the text \<^verbatim>\<open>abc7\<close>.\<close>

theorem wildmat_correct_witness:
  "wildmat [97, 98, 99, 55] [97, 42, 91, 48, 45, 57, 93] =
     Some (glob [Lit 97, Star, Class False [(48, 48), (48, 57)]] [97, 98, 99, 55])"
  using wildmat_correct [of "[97, 42, 91, 48, 45, 57, 93]"
      "[Lit 97, Star, Class False [(48, 48), (48, 57)]]" "[97, 98, 99, 55]"]
  by (simp add: class_parse_def)

text \<open>A matcher result of \<^verbatim>\<open>ABORT\<close> is a promise about every suffix of the text, which is what lets the
  star loop stop; and stars in a row mean one star.\<close>

lemma DoMatch_abort_sound:
  assumes "parse p = Some es" "DoMatch tx p = Some MABORT"
  shows "\<not> glob es (drop k tx)"
  using DoMatch_verdict [OF assms(1), of tx] assms(2) by (auto simp: verdict_def)

text \<open>A defect the header of the file concedes: after an unterminated class that accepts the current
  character the code reads beyond the terminator of the pattern.\<close>

lemma wildmat_unterminated_class:
  "wildmat (c # tx) [91, c, 45] = None \<and> wildmat (c # tx) [91, 94] = None"
  by (simp add: wildmat_def class_match_def)

end
