(* ===== verification/Call_Out.thy ===== *)
theory Call_Out
  imports Driver_Prelude "HOL-Library.Multiset" "HOL-Library.Word"
begin

text \<open>
  Alarms (\<^verbatim>\<open>src/call_out.c\<close>).  Every object keeps its own calls in order of time, and the objects with
  calls are chained in a table of slots, each chain in order of the first call of its objects; the backend
  executes what is due and asks how long it may sleep.

  A chain (\<^verbatim>\<open>call_outs[slot]\<close> linked by \<^verbatim>\<open>next_call_out\<close>) is the list of its objects, \<^verbatim>\<open>ob->call_outs\<close> is the list of
  the object's calls; objects and closures are their addresses.  \<^const>\<open>None\<close> is a call of \<^verbatim>\<open>fatal()\<close>, a dereference of
  an object without calls, or a loop that does not end.  The game's code, which runs inside \<^verbatim>\<open>call_out()\<close>,
  acts on the table only through the functions of this file, so running it is a list of such calls.
  Identifiers of calls are the 32 bits of an \<^verbatim>\<open>int\<close>, whose counter wraps around.
  Reference counts and \<^verbatim>\<open>call_out_size\<close> are left out.
\<close>

section \<open>The table\<close>

definition NUM_SLOTS :: nat where "NUM_SLOTS = 0x4000"
definition TIME_RES :: nat where "TIME_RES = 10"
definition MAX_CALL_OUT :: nat where "MAX_CALL_OUT = 128"

record call =
  c_func :: nat
  c_reload :: int
  c_when :: nat
  c_id :: "32 word"
  c_giver :: "nat option"

record co_state =
  co_slots :: "nat \<Rightarrow> nat list"
  co_calls :: "nat \<Rightarrow> call list"
  co_last :: nat
  co_next_id :: "32 word"
  co_num :: int

text \<open>\<^verbatim>\<open>when & (NUM_SLOTS - 1)\<close> for a power of two.\<close>

definition co_slot :: "nat \<Rightarrow> nat" where
  "co_slot w = w AND (NUM_SLOTS - 1)"

definition init_call_out :: co_state where
  "init_call_out = \<lparr>co_slots = (\<lambda>_. []), co_calls = (\<lambda>_. []), co_last = 0, co_next_id = 1, co_num = 0\<rparr>"

definition num_call_outs :: "nat \<Rightarrow> co_state \<Rightarrow> nat" where
  "num_call_outs ob st = length (co_calls st ob)"

text \<open>The loops over the chain of a slot: removal of an object, insertion before the first object that is
  not earlier.\<close>

definition co_unlink :: "nat \<Rightarrow> nat \<Rightarrow> co_state \<Rightarrow> co_state option" where
  "co_unlink s ob st =
     (if ob \<in> set (co_slots st s)
      then Some (st\<lparr>co_slots := (co_slots st)(s := remove1 ob (co_slots st s))\<rparr>) else None)"

fun chain_insert :: "(nat \<Rightarrow> call list) \<Rightarrow> nat \<Rightarrow> nat \<Rightarrow> nat list \<Rightarrow> nat list option" where
  "chain_insert calls w ob [] = Some [ob]"
| "chain_insert calls w ob (x # xs) =
     (case calls x of
        [] \<Rightarrow> None
      | c # _ \<Rightarrow> if c_when c < w then map_option (\<lambda>ys. x # ys) (chain_insert calls w ob xs)
                  else Some (ob # x # xs))"

definition co_link :: "nat \<Rightarrow> co_state \<Rightarrow> co_state option" where
  "co_link ob st =
     (case co_calls st ob of
        [] \<Rightarrow> None
      | c # _ \<Rightarrow> (let s = co_slot (c_when c)
                 in map_option (\<lambda>xs. st\<lparr>co_slots := (co_slots st)(s := xs)\<rparr>)
                      (chain_insert (co_calls st) (c_when c) ob (co_slots st s))))"

definition set_calls :: "nat \<Rightarrow> call list \<Rightarrow> co_state \<Rightarrow> co_state" where
  "set_calls ob cs st = st\<lparr>co_calls := (co_calls st)(ob := cs)\<rparr>"

fun call_insert :: "call \<Rightarrow> call list \<Rightarrow> call list" where
  "call_insert cop [] = [cop]"
| "call_insert cop (c # cs) = (if c_when c < c_when cop then c # call_insert cop cs else cop # c # cs)"

section \<open>Operations\<close>

definition insert_call_out :: "nat \<Rightarrow> call \<Rightarrow> co_state \<Rightarrow> co_state option" where
  "insert_call_out ob cop st =
     (let old = co_calls st ob; st1 = set_calls ob (call_insert cop old) st
      in case old of
           [] \<Rightarrow> co_link ob st1
         | c # _ \<Rightarrow>
             (if c_when c < c_when cop then Some st1
              else co_unlink (co_slot (c_when c)) ob st1 \<bind> co_link ob))"

definition free_call :: "co_state \<Rightarrow> co_state" where
  "free_call st = st\<lparr>co_num := co_num st - 1\<rparr>"

fun call_split :: "32 word \<Rightarrow> call list \<Rightarrow> (call list \<times> call \<times> call list) option" where
  "call_split i [] = None"
| "call_split i (c # cs) =
     (if c_id c \<noteq> i then map_option (\<lambda>(a, b, r). (c # a, b, r)) (call_split i cs) else Some ([], c, cs))"

definition delete_call :: "nat \<Rightarrow> 32 word \<Rightarrow> co_state \<Rightarrow> co_state option" where
  "delete_call ob ident st =
     (case call_split ident (co_calls st ob) of
        None \<Rightarrow> Some st
      | Some (before, cop, rest) \<Rightarrow>
          (let st1 = set_calls ob (before @ rest) st
           in map_option free_call
                (if before = []
                 then co_unlink (co_slot (c_when cop)) ob st1 \<bind>
                        (\<lambda>st2. if rest = [] then Some st2 else co_link ob st2)
                 else Some st1)))"

definition delete_all_calls :: "nat \<Rightarrow> co_state \<Rightarrow> co_state option" where
  "delete_all_calls ob st =
     (case co_calls st ob of
        [] \<Rightarrow> Some st
      | c # cs \<Rightarrow>
          map_option (\<lambda>st1. set_calls ob [] ((free_call ^^ length (c # cs)) st1))
            (co_unlink (co_slot (c_when c)) ob st))"

text \<open>\<open>now\<close> is \<^verbatim>\<open>alarm_time\<close>.  \<open>Inl\<close> is the error "too many alarms", raised after the object's calls are gone.\<close>

definition new_call_out ::
  "nat \<Rightarrow> nat \<Rightarrow> nat \<Rightarrow> int \<Rightarrow> int \<Rightarrow> nat option \<Rightarrow> co_state \<Rightarrow> (co_state + 32 word \<times> co_state) option" where
  "new_call_out now ob fn delay reload giver st =
     (let delay = (if delay \<le> 0 then 1 else delay); reload = (if reload \<le> 0 then 0 else reload)
      in if num_call_outs ob st \<ge> MAX_CALL_OUT then map_option Inl (delete_all_calls ob st)
         else let cop = \<lparr>c_func = fn, c_reload = reload, c_when = nat ((int now + delay) mod 2 ^ 32),
                         c_id = co_next_id st, c_giver = giver\<rparr>;
                  st1 = st\<lparr>co_num := co_num st + 1, co_next_id := co_next_id st + 1\<rparr>
              in if c_when cop < co_last st then None
                 else map_option (\<lambda>st2. Inr (c_id cop, st2)) (insert_call_out ob cop st1))"

definition call_out_swap_objects :: "nat \<Rightarrow> nat \<Rightarrow> co_state \<Rightarrow> co_state option" where
  "call_out_swap_objects ob1 ob2 st =
     (let off = (\<lambda>ob st. case co_calls st ob of [] \<Rightarrow> Some st | c # _ \<Rightarrow> co_unlink (co_slot (c_when c)) ob st);
          on = (\<lambda>ob st. case co_calls st ob of [] \<Rightarrow> Some st | c # _ \<Rightarrow> co_link ob st)
      in do {
        st1 \<leftarrow> off ob1 st;
        st2 \<leftarrow> off ob2 st1;
        st3 \<leftarrow> Some (set_calls ob2 (co_calls st2 ob1) (set_calls ob1 (co_calls st2 ob2) st2));
        st4 \<leftarrow> on ob1 st3;
        on ob2 st4 })"

section \<open>Execution\<close>

text \<open>What the game's code does to the table while a call runs.  A call of \<^verbatim>\<open>new_call_out\<close> that fails ends the
  code with an error, as do other errors.\<close>

datatype co_op = New_call nat nat int int "nat option" | Delete_call nat "32 word" | Delete_all nat | Swap_objects nat nat

fun co_run :: "nat \<Rightarrow> co_op list \<Rightarrow> co_state \<Rightarrow> (bool \<times> co_state) option" where
  "co_run now [] st = Some (False, st)"
| "co_run now (New_call ob fn d r g # ops) st =
     (case new_call_out now ob fn d r g st of
        None \<Rightarrow> None | Some (Inl st1) \<Rightarrow> Some (True, st1) | Some (Inr (i, st1)) \<Rightarrow> co_run now ops st1)"
| "co_run now (Delete_call ob i # ops) st = delete_call ob i st \<bind> co_run now ops"
| "co_run now (Delete_all ob # ops) st = delete_all_calls ob st \<bind> co_run now ops"
| "co_run now (Swap_objects a b # ops) st = call_out_swap_objects a b st \<bind> co_run now ops"

text \<open>The first object of the slot loses its first call, which is put back when it reloads.\<close>

definition co_extract :: "nat \<Rightarrow> nat \<Rightarrow> co_state \<Rightarrow> (nat \<times> call \<times> co_state) option" where
  "co_extract now s st =
     (case co_slots st s of
        [] \<Rightarrow> None
      | ob # obs \<Rightarrow>
          (case co_calls st ob of
             [] \<Rightarrow> None
           | cop # cs \<Rightarrow>
               (let st1 = st\<lparr>co_slots := (co_slots st)(s := obs)\<rparr>;
                    cop1 = cop\<lparr>c_when := nat ((int now + c_reload cop) mod 2 ^ 32)\<rparr>
                in if c_reload cop > 0 \<and> c_when cop1 < co_last st then None
                   else let cs1 = (if c_reload cop > 0 then call_insert cop1 cs else cs);
                            st2 = set_calls ob cs1 st1
                        in map_option (\<lambda>st3. (ob, cop, st3))
                             (if cs1 = [] then Some st2 else co_link ob st2))))"

text \<open>\<open>game w ob cop\<close> runs the function of \<open>cop\<close>: the calls it makes, whether it ended in an error of its own, and
  the new state of the game.\<close>

definition co_execute ::
  "('w \<Rightarrow> nat \<Rightarrow> call \<Rightarrow> co_op list \<times> bool \<times> 'w) \<Rightarrow> nat \<Rightarrow> nat \<Rightarrow> call \<Rightarrow> 'w \<Rightarrow> co_state \<Rightarrow> ('w \<times> co_state) option" where
  "co_execute game now ob cop w st =
     (let (ops, err, w1) = game w ob cop; st1 = (if c_reload cop \<le> 0 then free_call st else st)
      in do {
        (failed, st2) \<leftarrow> co_run now ops st1;
        (if (failed \<or> err) \<and> c_reload cop > 0 \<and> c_id cop \<noteq> 0
         then map_option (\<lambda>st3. (w1, st3)) (delete_call ob (c_id cop) st2)
         else Some (w1, st2)) })"

text \<open>The inner and the outer loop; the trace lists what was executed, latest first.\<close>

partial_function (option) co_while ::
  "('w \<Rightarrow> nat \<Rightarrow> call \<Rightarrow> co_op list \<times> bool \<times> 'w) \<Rightarrow> nat \<Rightarrow> 'w \<Rightarrow> (nat \<times> call) list \<Rightarrow> co_state \<Rightarrow>
     ('w \<times> (nat \<times> call) list \<times> co_state) option" where
  "co_while game now w tr st =
     (let s = co_slot (co_last st)
      in case co_slots st s of
           [] \<Rightarrow> Some (w, tr, st)
         | ob # _ \<Rightarrow>
             (case co_calls st ob of
                [] \<Rightarrow> None
              | c # _ \<Rightarrow>
                  if c_when c \<le> co_last st
                  then co_extract now s st \<bind> (\<lambda>(ob, cop, st1).
                         co_execute game now ob cop w st1 \<bind> (\<lambda>(w1, st2).
                           co_while game now w1 ((ob, cop) # tr) st2))
                  else Some (w, tr, st)))"

partial_function (option) co_for ::
  "('w \<Rightarrow> nat \<Rightarrow> call \<Rightarrow> co_op list \<times> bool \<times> 'w) \<Rightarrow> nat \<Rightarrow> 'w \<Rightarrow> (nat \<times> call) list \<Rightarrow> co_state \<Rightarrow>
     ('w \<times> (nat \<times> call) list \<times> co_state) option" where
  "co_for game now w tr st =
     (if co_last st \<le> now
      then co_while game now w tr st \<bind> (\<lambda>(w1, tr1, st1).
             co_for game now w1 tr1 (st1\<lparr>co_last := co_last st1 + 1\<rparr>))
      else Some (w, tr, st))"

text \<open>The time until the next alarm, as \<^verbatim>\<open>tv_sec\<close> and \<^verbatim>\<open>tv_usec\<close>; \<open>n\<close> bounds the scan, which visits every slot at
  most once.\<close>

fun next_scan :: "nat \<Rightarrow> nat \<Rightarrow> nat \<Rightarrow> nat \<Rightarrow> co_state \<Rightarrow> nat \<times> nat \<Rightarrow> (nat \<times> nat) option" where
  "next_scan 0 now end' s st tv = None"
| "next_scan (Suc n) now end' s st tv =
     (let s' = co_slot (s + 1);
          continue = (if s' \<noteq> end' then next_scan n now end' s' st tv else Some tv)
      in case co_slots st s of
           [] \<Rightarrow> continue
         | ob # _ \<Rightarrow>
             (case co_calls st ob of
                [] \<Rightarrow> None
              | c # _ \<Rightarrow>
                  if c_when c < now then Some (0, 0)
                  else if c_when c - now < TIME_RES * 60
                  then Some ((c_when c - now) div TIME_RES, (c_when c - now) mod TIME_RES * 1000000 div TIME_RES)
                  else continue))"

definition next_call_out :: "nat \<Rightarrow> nat \<Rightarrow> co_state \<Rightarrow> nat \<times> nat \<Rightarrow> (nat \<times> nat) option" where
  "next_call_out last_alarm now st tv =
     next_scan NUM_SLOTS now (co_slot (now + 60 * TIME_RES)) (co_slot last_alarm) st tv"

definition call_out ::
  "('w \<Rightarrow> nat \<Rightarrow> call \<Rightarrow> co_op list \<times> bool \<times> 'w) \<Rightarrow> bool \<Rightarrow> nat \<Rightarrow> 'w \<Rightarrow> co_state \<Rightarrow>
     ((nat \<times> nat) \<times> 'w \<times> (nat \<times> call) list \<times> co_state) option" where
  "call_out game inhibit now w st =
     (if inhibit then Some ((60, 0), w, [], st)
      else if co_last st \<ge> now
      then map_option (\<lambda>tv. (tv, w, [], st)) (next_call_out (co_last st) now st (60, 0))
      else do {
        (w1, tr, st1) \<leftarrow> co_for game now w [] st;
        tv \<leftarrow> next_call_out (co_last st1) now st1 (60, 0);
        Some (tv, w1, rev tr, st1) })"

section \<open>The invariant\<close>

abbreviation co_first :: "(nat \<Rightarrow> call list) \<Rightarrow> nat \<Rightarrow> nat" where
  "co_first calls ob \<equiv> c_when (hd (calls ob))"

text \<open>
  A chain holds exactly the objects whose first call falls into its slot, earliest first.  Between the two
  halves of an operation the objects \<open>U\<close> are off the chains.
\<close>

definition chain_inv :: "nat set \<Rightarrow> (nat \<Rightarrow> call list) \<Rightarrow> nat \<Rightarrow> nat list \<Rightarrow> bool" where
  "chain_inv U calls s xs \<longleftrightarrow> distinct xs \<and> sorted (map (co_first calls) xs) \<and>
     (\<forall>ob. ob \<in> set xs \<longleftrightarrow> ob \<notin> U \<and> calls ob \<noteq> [] \<and> co_slot (co_first calls ob) = s)"

definition co_wf :: "nat set \<Rightarrow> co_state \<Rightarrow> bool" where
  "co_wf U st \<longleftrightarrow> finite {ob. co_calls st ob \<noteq> []} \<and> (\<forall>ob. sorted (map c_when (co_calls st ob))) \<and>
     (\<forall>s. chain_inv U (co_calls st) s (co_slots st s))"

abbreviation co_inv :: "co_state \<Rightarrow> bool" where
  "co_inv \<equiv> co_wf {}"

lemma co_slot_mod: "co_slot w = w mod NUM_SLOTS"
proof -
  have "NUM_SLOTS - 1 = mask 14" by (simp add: NUM_SLOTS_def mask_eq_exp_minus_1)
  then have "co_slot w = take_bit 14 w" by (simp add: co_slot_def take_bit_eq_mask)
  then show ?thesis by (simp add: take_bit_eq_mod NUM_SLOTS_def)
qed

lemma chain_insert_law:
  assumes "\<forall>x\<in>set xs. calls x \<noteq> []" "sorted (map (co_first calls) xs)"
  shows "\<exists>ys. chain_insert calls w ob xs = Some ys \<and> set ys = insert ob (set xs) \<and>
    (ob \<notin> set xs \<longrightarrow> distinct xs \<longrightarrow> distinct ys) \<and> (co_first calls ob = w \<longrightarrow> sorted (map (co_first calls) ys))"
  using assms
proof (induction xs)
  case (Cons x xs)
  then obtain c cs where x: "calls x = c # cs" by (cases "calls x") auto
  from Cons obtain ys where ys: "chain_insert calls w ob xs = Some ys" "set ys = insert ob (set xs)"
    "ob \<notin> set xs \<longrightarrow> distinct xs \<longrightarrow> distinct ys" "co_first calls ob = w \<longrightarrow> sorted (map (co_first calls) ys)" by auto
  show ?case
  proof (cases "c_when c < w")
    case True
    with ys x Cons.prems show ?thesis by auto
  next
    case False
    with x Cons.prems show ?thesis by auto
  qed
qed simp

lemma call_insert_law:
  "sorted (map c_when cs) \<Longrightarrow> sorted (map c_when (call_insert cop cs))"
  "mset (call_insert cop cs) = add_mset cop (mset cs)"
proof (induction cs)
  case (Cons c cs)
  { case 1
    have "set (call_insert cop cs) = insert cop (set cs)"
      using Cons.IH(2) by (metis set_mset_mset set_mset_add_mset_insert)
    with 1 Cons.IH(1) show ?case by auto }
  { case 2
    with Cons.IH(2) show ?case by (simp add: add_mset_commute) }
qed simp_all

lemma call_insert_at:
  "call_insert cop cs = takeWhile (\<lambda>c. c_when c < c_when cop) cs @ cop # dropWhile (\<lambda>c. c_when c < c_when cop) cs"
  by (induction cs) auto

lemma call_insert_hd:
  "call_insert cop cs \<noteq> []"
  "cs = [] \<or> \<not> c_when (hd cs) < c_when cop \<Longrightarrow> hd (call_insert cop cs) = cop"
  "cs \<noteq> [] \<Longrightarrow> c_when (hd cs) < c_when cop \<Longrightarrow> hd (call_insert cop cs) = hd cs"
  by (cases cs; simp)+

section \<open>Taking an object off its chain and putting it back\<close>

definition co_off :: "nat \<Rightarrow> co_state \<Rightarrow> co_state option" where
  "co_off ob st = (case co_calls st ob of [] \<Rightarrow> Some st | c # _ \<Rightarrow> co_unlink (co_slot (c_when c)) ob st)"

definition co_on :: "nat \<Rightarrow> co_state \<Rightarrow> co_state option" where
  "co_on ob st = (case co_calls st ob of [] \<Rightarrow> Some st | c # _ \<Rightarrow> co_link ob st)"

text \<open>Only the chains differ.\<close>

definition co_rechain :: "co_state \<Rightarrow> co_state \<Rightarrow> bool" where
  "co_rechain st st' \<longleftrightarrow> co_calls st' = co_calls st \<and> co_last st' = co_last st \<and>
     co_next_id st' = co_next_id st \<and> co_num st' = co_num st"

lemma co_off_law:
  assumes wf: "co_wf U st" and ob: "ob \<notin> U"
  shows "\<exists>st'. co_off ob st = Some st' \<and> co_wf (insert ob U) st' \<and> co_rechain st st'"
proof (cases "co_calls st ob")
  case Nil
  then have "chain_inv U (co_calls st) s xs \<longleftrightarrow> chain_inv (insert ob U) (co_calls st) s xs" for s xs
    by (auto simp: chain_inv_def)
  with wf Nil show ?thesis by (simp add: co_off_def co_wf_def co_rechain_def)
next
  case (Cons c cs)
  let ?s = "co_slot (c_when c)"
  let ?st = "st\<lparr>co_slots := (co_slots st)(?s := remove1 ob (co_slots st ?s))\<rparr>"
  have ch: "chain_inv U (co_calls st) s (co_slots st s)" for s using wf by (simp add: co_wf_def)
  have "ob \<in> set (co_slots st ?s)" using ch [of ?s] Cons ob by (simp add: chain_inv_def)
  then have "co_off ob st = Some ?st" using Cons by (simp add: co_off_def co_unlink_def)
  moreover have "chain_inv (insert ob U) (co_calls st) s (co_slots ?st s)" for s
    using ch [of s] Cons by (cases "s = ?s") (auto simp: chain_inv_def intro: sorted_map_remove1)
  ultimately show ?thesis using wf by (simp add: co_wf_def co_rechain_def)
qed

lemma co_on_law:
  assumes wf: "co_wf U st" and ob: "ob \<in> U"
  shows "\<exists>st'. co_on ob st = Some st' \<and> co_wf (U - {ob}) st' \<and> co_rechain st st'"
proof (cases "co_calls st ob")
  case Nil
  then have "chain_inv U (co_calls st) s xs \<longleftrightarrow> chain_inv (U - {ob}) (co_calls st) s xs" for s xs
    by (auto simp: chain_inv_def)
  with wf Nil show ?thesis by (simp add: co_on_def co_wf_def co_rechain_def)
next
  case (Cons c cs)
  let ?s = "co_slot (c_when c)"
  have ch: "chain_inv U (co_calls st) s (co_slots st s)" for s using wf by (simp add: co_wf_def)
  from chain_insert_law [of "co_slots st ?s" "co_calls st" "c_when c" ob] ch [of ?s] ob Cons obtain ys where
    ys: "chain_insert (co_calls st) (c_when c) ob (co_slots st ?s) = Some ys"
      "set ys = insert ob (set (co_slots st ?s))" "distinct ys" "sorted (map (co_first (co_calls st)) ys)"
    by (auto simp: chain_inv_def)
  let ?st = "st\<lparr>co_slots := (co_slots st)(?s := ys)\<rparr>"
  have "co_on ob st = Some ?st" using Cons ys(1) by (simp add: co_on_def co_link_def)
  moreover have "chain_inv (U - {ob}) (co_calls st) s (co_slots ?st s)" for s
    using ch [of s] ys(2-4) Cons by (cases "s = ?s") (auto simp: chain_inv_def)
  ultimately show ?thesis using wf by (simp add: co_wf_def co_rechain_def)
qed

lemma set_calls_simps [simp]:
  "co_calls (set_calls ob cs st) = (co_calls st)(ob := cs)" "co_slots (set_calls ob cs st) = co_slots st"
  "co_last (set_calls ob cs st) = co_last st" "co_next_id (set_calls ob cs st) = co_next_id st"
  "co_num (set_calls ob cs st) = co_num st"
  by (simp_all add: set_calls_def)

text \<open>The calls of an object may change freely while it is off the chains, and otherwise as long as the
  first one stays at its time.\<close>

lemma set_calls_wf:
  assumes wf: "co_wf U st" and cs: "sorted (map c_when cs)"
    and ob: "ob \<in> U \<or> co_calls st ob \<noteq> [] \<and> cs \<noteq> [] \<and> c_when (hd cs) = co_first (co_calls st) ob"
  shows "co_wf U (set_calls ob cs st)"
proof -
  define calls where "calls = (co_calls st)(ob := cs)"
  have cl: "calls ob = cs" "\<And>x. x \<noteq> ob \<Longrightarrow> calls x = co_calls st x" by (simp_all add: calls_def)
  have "{x. calls x \<noteq> []} \<subseteq> insert ob {x. co_calls st x \<noteq> []}" using cl by auto
  then have fin: "finite {x. calls x \<noteq> []}" using wf by (auto simp: co_wf_def intro: finite_subset)
  have "chain_inv U calls s (co_slots st s)" for s
  proof -
    have ch: "chain_inv U (co_calls st) s (co_slots st s)" using wf by (simp add: co_wf_def)
    have first: "co_first calls x = co_first (co_calls st) x \<and> (calls x \<noteq> [] \<longleftrightarrow> co_calls st x \<noteq> [])" if "x \<notin> U" for x
      using ob that cl by (cases "x = ob") auto
    have "map (co_first calls) (co_slots st s) = map (co_first (co_calls st)) (co_slots st s)"
      using ch first by (intro map_cong) (auto simp: chain_inv_def)
    moreover have "ob \<notin> U \<and> calls ob \<noteq> [] \<and> co_slot (co_first calls ob) = s \<longleftrightarrow>
        ob \<notin> U \<and> co_calls st ob \<noteq> [] \<and> co_slot (co_first (co_calls st) ob) = s" for ob using first by auto
    ultimately show ?thesis using ch unfolding chain_inv_def by (simp only: simp_thms)
  qed
  with wf cs fin show ?thesis by (auto simp: co_wf_def calls_def)
qed

lemma unlink_set_calls:
  "co_unlink s ob (set_calls ob cs st) = map_option (set_calls ob cs) (co_unlink s ob st)"
  by (simp add: co_unlink_def set_calls_def)

text \<open>The common core of the operations: give an object a new list of calls and move it to its new slot.\<close>

lemma co_move_law:
  assumes wf: "co_wf U st" and ob: "ob \<notin> U" and cs: "sorted (map c_when cs)"
  shows "\<exists>st'. co_off ob st \<bind> (\<lambda>st1. co_on ob (set_calls ob cs st1)) = Some st' \<and> co_wf U st' \<and>
    co_calls st' = (co_calls st)(ob := cs) \<and> co_last st' = co_last st \<and> co_next_id st' = co_next_id st \<and>
    co_num st' = co_num st"
proof -
  from co_off_law [OF wf ob] obtain st1 where
    1: "co_off ob st = Some st1" "co_wf (insert ob U) st1" "co_rechain st st1" by blast
  have "co_wf (insert ob U) (set_calls ob cs st1)" by (rule set_calls_wf [OF 1(2) cs]) simp
  from co_on_law [OF this, of ob] obtain st2 where
    "co_on ob (set_calls ob cs st1) = Some st2" "co_wf U st2" "co_rechain (set_calls ob cs st1) st2" using ob by auto
  with 1 show ?thesis by (auto simp: co_rechain_def)
qed

section \<open>The operations keep the invariant\<close>

text \<open>\<open>co_step st f st'\<close>: the calls of the objects become \<open>f\<close>; time and chains are in order.\<close>

definition co_step :: "co_state \<Rightarrow> (nat \<Rightarrow> call list) \<Rightarrow> co_state \<Rightarrow> bool" where
  "co_step st f st' \<longleftrightarrow> co_inv st' \<and> co_calls st' = f \<and> co_last st' = co_last st"

lemma co_num_simps [simp]:
  "co_wf U (st\<lparr>co_num := n\<rparr>) = co_wf U st" "co_wf U (st\<lparr>co_num := n, co_next_id := i\<rparr>) = co_wf U st"
  "co_wf U (free_call st) = co_wf U st" "co_calls (free_call st) = co_calls st" "co_last (free_call st) = co_last st"
  by (simp_all add: co_wf_def free_call_def)

lemma insert_call_out_law:
  assumes inv: "co_inv st"
  shows "\<exists>st'. insert_call_out ob cop st = Some st' \<and>
    co_step st ((co_calls st)(ob := call_insert cop (co_calls st ob))) st'"
proof -
  let ?cs = "call_insert cop (co_calls st ob)"
  have so: "sorted (map c_when ?cs)" using inv by (intro call_insert_law) (simp add: co_wf_def)
  obtain d ds where ds: "?cs = d # ds" using call_insert_hd(1) [of cop "co_calls st ob"] by (cases ?cs) auto
  have on: "co_on ob (set_calls ob ?cs st1) = co_link ob (set_calls ob ?cs st1)" for st1 by (simp add: co_on_def ds)
  show ?thesis
  proof (cases "co_calls st ob = [] \<or> \<not> c_when (hd (co_calls st ob)) < c_when cop")
    case True
    have "insert_call_out ob cop st = co_off ob st \<bind> (\<lambda>st1. co_on ob (set_calls ob ?cs st1))"
    proof (cases "co_calls st ob")
      case Nil
      then show ?thesis using on by (simp add: insert_call_out_def co_off_def)
    next
      case (Cons c cs)
      then have "insert_call_out ob cop st = co_unlink (co_slot (c_when c)) ob (set_calls ob ?cs st) \<bind> co_link ob"
        using True by (simp add: insert_call_out_def)
      also have "\<dots> = co_unlink (co_slot (c_when c)) ob st \<bind> (\<lambda>st1. co_link ob (set_calls ob ?cs st1))"
        unfolding unlink_set_calls by (cases "co_unlink (co_slot (c_when c)) ob st") simp_all
      also have "co_unlink (co_slot (c_when c)) ob st = co_off ob st" using Cons by (simp add: co_off_def)
      finally show ?thesis unfolding on .
    qed
    with co_move_law [OF inv _ so] show ?thesis by (auto simp: co_step_def)
  next
    case False
    then have "insert_call_out ob cop st = Some (set_calls ob ?cs st)"
      by (cases "co_calls st ob") (simp_all add: insert_call_out_def)
    moreover have "co_inv (set_calls ob ?cs st)"
      using False call_insert_hd by (intro set_calls_wf [OF inv so]) auto
    ultimately show ?thesis by (simp add: co_step_def)
  qed
qed

text \<open>What is left of a list of calls after the first with the identifier is deleted.\<close>

definition call_delete :: "32 word \<Rightarrow> call list \<Rightarrow> call list" where
  "call_delete i cs = (case call_split i cs of None \<Rightarrow> cs | Some (a, b, r) \<Rightarrow> a @ r)"

lemma call_split_law: "call_split i cs = Some (a, b, r) \<Longrightarrow> cs = a @ b # r \<and> c_id b = i"
  by (induction cs arbitrary: a) (auto split: if_splits)

lemma call_split_None: "call_split i cs = None \<longleftrightarrow> (\<forall>c\<in>set cs. c_id c \<noteq> i)"
  by (induction cs) auto

lemma call_delete_at:
  "call_delete i cs = takeWhile (\<lambda>c. c_id c \<noteq> i) cs @ tl (dropWhile (\<lambda>c. c_id c \<noteq> i) cs)"
  by (induction cs) (auto simp: call_delete_def split: option.splits prod.splits)

lemma delete_call_law:
  assumes inv: "co_inv st"
  shows "\<exists>st'. delete_call ob i st = Some st' \<and> co_step st ((co_calls st)(ob := call_delete i (co_calls st ob))) st'"
proof (cases "call_split i (co_calls st ob)")
  case None
  then have "call_delete i (co_calls st ob) = co_calls st ob" by (simp add: call_delete_def)
  with None inv show ?thesis by (simp add: delete_call_def co_step_def)
next
  case (Some abr)
  obtain a b r where abr: "abr = (a, b, r)" by (cases abr)
  with Some have sp: "call_split i (co_calls st ob) = Some (a, b, r)" "co_calls st ob = a @ b # r"
    using call_split_law by auto
  have d: "call_delete i (co_calls st ob) = a @ r" by (simp add: call_delete_def sp(1))
  have "sorted (map c_when (co_calls st ob))" using inv by (simp add: co_wf_def)
  then have so: "sorted (map c_when (a @ r))" unfolding sp(2) by (auto simp: sorted_append)
  show ?thesis
  proof (cases "a = []")
    case True
    have "delete_call ob i st = map_option free_call (co_off ob st \<bind> (\<lambda>st1. co_on ob (set_calls ob (a @ r) st1)))"
      using sp True unfolding delete_call_def Let_def
      by (cases "co_unlink (co_slot (c_when b)) ob st"; cases r) (simp_all add: co_off_def co_on_def unlink_set_calls)
    with co_move_law [OF inv _ so, of ob] show ?thesis unfolding d by (auto simp: co_step_def)
  next
    case False
    then have "co_inv (set_calls ob (a @ r) st)" using sp(2) by (intro set_calls_wf [OF inv so]) auto
    with False sp(1) d show ?thesis by (auto simp: delete_call_def co_step_def)
  qed
qed

lemma free_calls: "co_wf U ((free_call ^^ n) st) = co_wf U st" "co_calls ((free_call ^^ n) st) = co_calls st"
  "co_last ((free_call ^^ n) st) = co_last st"
  by (induction n) simp_all

lemma delete_all_law:
  assumes inv: "co_inv st"
  shows "\<exists>st'. delete_all_calls ob st = Some st' \<and> co_step st ((co_calls st)(ob := [])) st'"
proof (cases "co_calls st ob")
  case Nil
  then have "(co_calls st)(ob := []) = co_calls st" by auto
  with Nil inv show ?thesis by (simp add: delete_all_calls_def co_step_def)
next
  case (Cons c cs)
  from co_off_law [OF inv, of ob] obtain st1 where
    st1: "co_off ob st = Some st1" "co_wf {ob} st1" "co_rechain st st1" by auto
  let ?st = "set_calls ob [] ((free_call ^^ length (c # cs)) st1)"
  have "co_wf {ob} ?st" using st1(2) by (intro set_calls_wf) (simp_all only: free_calls, simp_all)
  from co_on_law [OF this, of ob] have "co_inv ?st" by (auto simp: co_on_def)
  moreover have "delete_all_calls ob st = Some ?st" using Cons st1(1) by (simp add: delete_all_calls_def co_off_def)
  ultimately show ?thesis using st1(3) by (simp add: co_step_def free_calls co_rechain_def del: funpow.simps)
qed

lemma swap_law:
  assumes inv: "co_inv st" and ne: "a \<noteq> b"
  shows "\<exists>st'. call_out_swap_objects a b st = Some st' \<and>
    co_step st ((co_calls st)(a := co_calls st b, b := co_calls st a)) st'"
proof -
  from co_off_law [OF inv, of a] obtain st1 where
    1: "co_off a st = Some st1" "co_wf {a} st1" "co_rechain st st1" by auto
  from co_off_law [OF 1(2), of b] ne obtain st2 where
    2: "co_off b st1 = Some st2" "co_wf {a, b} st2" "co_rechain st1 st2" by (auto simp: insert_commute)
  have so: "sorted (map c_when (co_calls st2 x))" for x using 2(2) by (simp add: co_wf_def)
  let ?st3 = "set_calls b (co_calls st2 a) (set_calls a (co_calls st2 b) st2)"
  have "co_wf {a, b} ?st3" by (intro set_calls_wf 2(2) so) simp_all
  from co_on_law [OF this, of a] obtain st4 where
    4: "co_on a ?st3 = Some st4" "co_wf {b} st4" "co_rechain ?st3 st4" using ne by (auto simp: insert_Diff_if)
  from co_on_law [OF 4(2), of b] obtain st5 where
    5: "co_on b st4 = Some st5" "co_wf {} st5" "co_rechain st4 st5" by auto
  have "call_out_swap_objects a b st = Some st5"
    using 1(1) 2(1) 4(1) 5(1) unfolding call_out_swap_objects_def Let_def
    by (simp add: co_off_def [symmetric] co_on_def [symmetric])
  with 5(2) 1(3) 2(3) 4(3) 5(3) show ?thesis by (auto simp: co_step_def co_rechain_def)
qed

section \<open>Due calls\<close>

definition due_in :: "nat \<Rightarrow> call list \<Rightarrow> nat" where
  "due_in now cs = length (filter (\<lambda>c. c_when c \<le> now) cs)"

text \<open>The number of calls that are due, the measure of the loops of \<^verbatim>\<open>call_out()\<close>.\<close>

definition due :: "nat \<Rightarrow> (nat \<Rightarrow> call list) \<Rightarrow> nat" where
  "due now f = (\<Sum>ob\<in>{ob. f ob \<noteq> []}. due_in now (f ob))"

lemma due_in_simps [simp]:
  "due_in now [] = 0" "due_in now (c # cs) = (if c_when c \<le> now then 1 else 0) + due_in now cs"
  "due_in now (cs @ ds) = due_in now cs + due_in now ds"
  by (simp_all add: due_in_def)

lemma due_in_insert [simp]: "due_in now (call_insert cop cs) = (if c_when cop \<le> now then 1 else 0) + due_in now cs"
  by (induction cs) auto

lemma due_in_delete: "due_in now (call_delete i cs) \<le> due_in now cs"
  using call_split_law [of i cs] by (cases "call_split i cs") (fastforce simp: call_delete_def)+

lemma due_upd:
  assumes "finite {x. f x \<noteq> []}"
  shows "due now (f(ob := cs)) + due_in now (f ob) = due now f + due_in now cs"
proof -
  let ?A = "insert ob {x. f x \<noteq> []}"
  have sup: "due now g = (\<Sum>x\<in>?A. due_in now (g x))" if "{x. g x \<noteq> []} \<subseteq> ?A" for g
    unfolding due_def using that assms by (intro sum.mono_neutral_left) auto
  have "due now f = (\<Sum>x\<in>?A. due_in now (f x))" by (rule sup) auto
  also have "\<dots> = due_in now (f ob) + (\<Sum>x\<in>?A - {ob}. due_in now (f x))"
    using assms by (subst sum.remove [of _ ob]) auto
  finally have 1: "due now f = due_in now (f ob) + (\<Sum>x\<in>?A - {ob}. due_in now (f x))" .
  have "due now (f(ob := cs)) = (\<Sum>x\<in>?A. due_in now ((f(ob := cs)) x))" by (rule sup) auto
  also have "\<dots> = due_in now cs + (\<Sum>x\<in>?A - {ob}. due_in now ((f(ob := cs)) x))"
    using assms by (subst sum.remove [of _ ob]) auto
  also have "(\<Sum>x\<in>?A - {ob}. due_in now ((f(ob := cs)) x)) = (\<Sum>x\<in>?A - {ob}. due_in now (f x))"
    by (rule sum.cong) auto
  finally show ?thesis using 1 by linarith
qed

text \<open>
  No call lies before the slot that is executed next, and reload times are C integers.
\<close>

definition call_ok :: "nat \<Rightarrow> call \<Rightarrow> bool" where
  "call_ok t c \<longleftrightarrow> t \<le> c_when c \<and> c_reload c < 2 ^ 31"

definition co_live :: "nat \<Rightarrow> co_state \<Rightarrow> bool" where
  "co_live now st \<longleftrightarrow> co_inv st \<and> co_last st \<le> now + 1 \<and> now < 2 ^ 31 \<and>
     (\<forall>ob. \<forall>c\<in>set (co_calls st ob). call_ok (co_last st) c)"

text \<open>An operation of the game succeeds and makes no call due.\<close>

definition co_fine :: "nat \<Rightarrow> co_state \<Rightarrow> co_state \<Rightarrow> bool" where
  "co_fine now st st' \<longleftrightarrow> co_live now st' \<and> co_last st' = co_last st \<and> due now (co_calls st') \<le> due now (co_calls st)"

lemma co_fine_refl: "co_live now st \<Longrightarrow> co_fine now st st"
  by (simp add: co_fine_def)

lemma co_fine_trans: "co_fine now st st1 \<Longrightarrow> co_fine now st1 st2 \<Longrightarrow> co_fine now st st2"
  by (auto simp: co_fine_def)

lemma co_live_step:
  assumes "co_live now st" "co_step st f st'" "\<And>ob c. c \<in> set (f ob) \<Longrightarrow> call_ok (co_last st) c"
  shows "co_live now st'"
  using assms by (auto simp: co_live_def co_step_def)

lemma co_fine_upd:
  assumes live: "co_live now st" and st: "co_step st ((co_calls st)(ob := cs)) st'"
    and cs: "\<And>c. c \<in> set cs \<Longrightarrow> call_ok (co_last st) c" "due_in now cs \<le> due_in now (co_calls st ob)"
  shows "co_fine now st st'"
proof -
  have "co_live now st'" using live st cs(1) by (intro co_live_step [OF live st]) (auto simp: co_live_def split: if_splits)
  moreover have "due now (co_calls st') + due_in now (co_calls st ob) = due now (co_calls st) + due_in now cs"
    using st due_upd [of "co_calls st" now ob cs] live by (simp add: co_step_def co_live_def co_wf_def)
  ultimately show ?thesis using cs(2) st by (simp add: co_fine_def co_step_def)
qed

lemma set_call_insert: "set (call_insert cop cs) = insert cop (set cs)"
  using call_insert_law(2) [of cop cs] by (metis set_mset_mset set_mset_add_mset_insert)

lemma set_call_delete: "set (call_delete i cs) \<subseteq> set cs"
  using call_split_law [of i cs] by (cases "call_split i cs") (fastforce simp: call_delete_def)+

lemma delete_fine: "co_live now st \<Longrightarrow> \<exists>st'. delete_call ob i st = Some st' \<and> co_fine now st st'"
proof -
  assume live: "co_live now st"
  then have "co_inv st" by (simp add: co_live_def)
  from delete_call_law [OF this, of ob i] obtain st' where
    st': "delete_call ob i st = Some st'" "co_step st ((co_calls st)(ob := call_delete i (co_calls st ob))) st'" by blast
  have "co_fine now st st'"
  proof (rule co_fine_upd [OF live st'(2)])
    show "call_ok (co_last st) c" if "c \<in> set (call_delete i (co_calls st ob))" for c
      using that set_call_delete live unfolding co_live_def by blast
  qed (rule due_in_delete)
  with st'(1) show ?thesis by blast
qed

lemma delete_all_fine: "co_live now st \<Longrightarrow> \<exists>st'. delete_all_calls ob st = Some st' \<and> co_fine now st st'"
proof -
  assume live: "co_live now st"
  then have "co_inv st" by (simp add: co_live_def)
  from delete_all_law [OF this, of ob] co_fine_upd [OF live, of ob "[]"] show ?thesis by auto
qed

lemma swap_fine: "co_live now st \<Longrightarrow> a \<noteq> b \<Longrightarrow> \<exists>st'. call_out_swap_objects a b st = Some st' \<and> co_fine now st st'"
proof -
  assume live: "co_live now st" and ne: "a \<noteq> b"
  then have inv: "co_inv st" by (simp add: co_live_def)
  let ?f = "co_calls st" and ?g = "(co_calls st)(a := co_calls st b)"
  from swap_law [OF inv ne] obtain st' where
    st': "call_out_swap_objects a b st = Some st'" "co_step st (?g(b := ?f a)) st'" by blast
  have live': "co_live now st'"
    by (rule co_live_step [OF live st'(2)]) (use live in \<open>auto simp: co_live_def split: if_splits\<close>)
  have fin: "finite {x. ?f x \<noteq> []}" using inv by (simp add: co_wf_def)
  then have "finite {x. ?g x \<noteq> []}" by (rule finite_subset [rotated, OF finite_insert [THEN iffD2, of _ a]]) auto
  from due_upd [OF this, of now b "?f a"] due_upd [OF fin, of now a "?f b"]
  have "due now (?g(b := ?f a)) + due_in now (?g b) + due_in now (?f a) =
      due now ?f + due_in now (?f b) + due_in now (?f a)" by linarith
  moreover have "?g b = ?f b" using ne by simp
  ultimately have "due now (?g(b := ?f a)) = due now ?f" by (simp only: add_right_cancel)
  with live' st' show ?thesis by (auto simp: co_fine_def co_step_def)
qed

lemma new_call_time:
  assumes "now < 2 ^ 31" "delay < 2 ^ 31"
  shows "nat ((int now + (if delay \<le> 0 then 1 else delay)) mod 2 ^ 32) = now + nat (max 1 delay)"
  using assms by (auto simp: max_def)

lemma new_fine:
  assumes live: "co_live now st" and d: "delay < 2 ^ 31" "reload < 2 ^ 31"
  shows "\<exists>r. new_call_out now ob fn delay reload giver st = Some r \<and>
    (case r of Inl st' \<Rightarrow> co_fine now st st' \<and> MAX_CALL_OUT \<le> num_call_outs ob st \<and> co_calls st' = (co_calls st)(ob := [])
     | Inr (i, st') \<Rightarrow> co_fine now st st' \<and> i = co_next_id st \<and>
         co_calls st' = (co_calls st)(ob := call_insert \<lparr>c_func = fn, c_reload = max 0 reload,
           c_when = now + nat (max 1 delay), c_id = i, c_giver = giver\<rparr> (co_calls st ob)))"
proof (cases "num_call_outs ob st \<ge> MAX_CALL_OUT")
  case True
  with delete_all_fine [OF live, of ob] delete_all_law [of st ob] live show ?thesis
    by (auto simp: new_call_out_def co_live_def co_step_def)
next
  case False
  have now: "now < 2 ^ 31" and inv: "co_inv st" and le: "co_last st \<le> now + 1" using live by (simp_all add: co_live_def)
  let ?cop = "\<lparr>c_func = fn, c_reload = max 0 reload, c_when = now + nat (max 1 delay), c_id = co_next_id st, c_giver = giver\<rparr>"
  let ?st = "st\<lparr>co_num := co_num st + 1, co_next_id := co_next_id st + 1\<rparr>"
  have "co_inv ?st" using inv by simp
  from insert_call_out_law [OF this, of ob ?cop] obtain st' where
    st': "insert_call_out ob ?cop ?st = Some st'" "co_step st ((co_calls st)(ob := call_insert ?cop (co_calls st ob))) st'"
    by (auto simp: co_step_def)
  have rl: "(if reload \<le> 0 then 0 else reload) = max 0 reload" by simp
  have "new_call_out now ob fn delay reload giver st = Some (Inr (co_next_id st, st'))"
    using False st'(1) le unfolding new_call_out_def Let_def new_call_time [OF now d(1)] rl by simp
  moreover have "co_fine now st st'"
  proof (rule co_fine_upd [OF live st'(2)])
    show "call_ok (co_last st) c" if "c \<in> set (call_insert ?cop (co_calls st ob))" for c
      using that live d(2) le by (auto simp: set_call_insert co_live_def call_ok_def)
  qed simp
  ultimately show ?thesis using st'(2) by (simp add: co_step_def)
qed

fun op_ok :: "co_op \<Rightarrow> bool" where
  "op_ok (New_call ob fn d r g) \<longleftrightarrow> d < 2 ^ 31 \<and> r < 2 ^ 31"
| "op_ok (Swap_objects a b) \<longleftrightarrow> a \<noteq> b"
| "op_ok _ \<longleftrightarrow> True"

lemma co_run_fine:
  "co_live now st \<Longrightarrow> list_all op_ok ops \<Longrightarrow> \<exists>e st'. co_run now ops st = Some (e, st') \<and> co_fine now st st'"
proof (induction ops arbitrary: st)
  case Nil
  then show ?case by (intro exI [of _ False] exI [of _ st]) (simp add: co_fine_refl)
next
  case (Cons x ops)
  have rest: "\<exists>e st'. co_run now ops st1 = Some (e, st') \<and> co_fine now st st'" if "co_fine now st st1" for st1
    using Cons.IH [of st1] Cons.prems(2) that co_fine_trans by (fastforce simp: co_fine_def)
  show ?case
  proof (cases x)
    case (New_call ob fn d r g)
    with Cons.prems new_fine [of now st d r ob fn g] rest show ?thesis by (fastforce split: sum.splits)
  next
    case (Delete_call ob i)
    with Cons.prems delete_fine [of now st ob i] rest show ?thesis by auto
  next
    case (Delete_all ob)
    with Cons.prems delete_all_fine [of now st ob] rest show ?thesis by auto
  next
    case (Swap_objects a b)
    with Cons.prems swap_fine [of now st a b] rest show ?thesis by auto
  qed
qed

section \<open>The loops of \<^verbatim>\<open>call_out()\<close>\<close>

lemma live_first: "co_live now st \<Longrightarrow> co_calls st ob = c # cs \<Longrightarrow> call_ok (co_last st) c"
  unfolding co_live_def by (metis list.set_intros(1))

lemma co_on_set:
  "co_on ob (set_calls ob cs st) = (if cs = [] then Some (set_calls ob cs st) else co_link ob (set_calls ob cs st))"
  by (cases cs) (simp_all add: co_on_def)

text \<open>A repeating call is put back with its next time.\<close>

definition run_again :: "nat \<Rightarrow> call \<Rightarrow> call" where
  "run_again now c = c\<lparr>c_when := now + nat (c_reload c)\<rparr>"

lemma co_extract_law:
  assumes live: "co_live now st" and le: "co_last st \<le> now" and s: "s = co_slot (co_last st)"
    and ob: "co_slots st s = ob # obs" "co_calls st ob = c # cs" "c_when c \<le> co_last st"
  shows "\<exists>st'. co_extract now s st = Some (ob, c, st') \<and> co_fine now st st' \<and> due now (co_calls st') < due now (co_calls st) \<and>
    co_calls st' = (co_calls st)(ob := if 0 < c_reload c then call_insert (run_again now c) cs else cs)"
proof -
  have inv: "co_inv st" and ok: "call_ok (co_last st) c" and now: "now < 2 ^ 31"
    using live live_first [OF live ob(2)] by (auto simp: co_live_def)
  let ?c = "c\<lparr>c_when := nat ((int now + c_reload c) mod 2 ^ 32)\<rparr>"
  let ?cs = "if c_reload c > 0 then call_insert ?c cs else cs"
  have cw: "c_when ?c = now + nat (c_reload c)" if "c_reload c > 0" using that ok now by (simp add: call_ok_def)
  have ag: "?cs = (if 0 < c_reload c then call_insert (run_again now c) cs else cs)" using cw by (simp add: run_again_def)
  have "sorted (map c_when (co_calls st ob))" using inv by (simp add: co_wf_def)
  then have so: "sorted (map c_when ?cs)" using ob(2) call_insert_law(1) [of cs ?c] by simp
  have "ob \<in> set (co_slots st s)" using ob(1) by simp
  then have sl: "co_slot (c_when c) = s" using inv ob(2) by (simp add: co_wf_def chain_inv_def)
  have off: "co_off ob st = Some (st\<lparr>co_slots := (co_slots st)(s := obs)\<rparr>)"
    using ob sl by (simp add: co_off_def co_unlink_def)
  let ?st = "st\<lparr>co_slots := (co_slots st)(s := obs)\<rparr>"
  have "\<not> (c_reload c > 0 \<and> c_when ?c < co_last st)" using cw le by auto
  then have "co_extract now s st = map_option (\<lambda>st3. (ob, c, st3))
      (if ?cs = [] then Some (set_calls ob ?cs ?st) else co_link ob (set_calls ob ?cs ?st))"
    unfolding co_extract_def ob(1) list.case ob(2) Let_def by (simp only: if_False)
  also have "\<dots> = map_option (\<lambda>st3. (ob, c, st3)) (co_off ob st \<bind> (\<lambda>st1. co_on ob (set_calls ob ?cs st1)))"
    unfolding off bind.bind_lunit by (simp only: co_on_set)
  finally have "co_extract now s st = map_option (\<lambda>st3. (ob, c, st3)) (co_off ob st \<bind> (\<lambda>st1. co_on ob (set_calls ob ?cs st1)))" .
  moreover from co_move_law [OF inv _ so, of ob] obtain st' where
    "co_off ob st \<bind> (\<lambda>st1. co_on ob (set_calls ob ?cs st1)) = Some st'" and step: "co_step st ((co_calls st)(ob := ?cs)) st'"
    by (auto simp: co_step_def)
  moreover have dn: "due_in now ?cs < due_in now (co_calls st ob)" using ob le cw by auto
  have rest: "call_ok (co_last st) x" if "x \<in> set cs" for x
    using that live ob(2) unfolding co_live_def by (metis list.set_intros(2))
  have "call_ok (co_last st) x" if "x \<in> set ?cs" for x
  proof (cases "c_reload c > 0 \<and> x = ?c")
    case True
    with cw le ok show ?thesis by (simp add: call_ok_def)
  next
    case False
    with that rest show ?thesis by (auto simp: set_call_insert split: if_splits)
  qed
  then have "co_fine now st st'" using dn by (intro co_fine_upd [OF live step]) simp_all
  moreover have "due now (co_calls st') + due_in now (co_calls st ob) = due now (co_calls st) + due_in now ?cs"
    using step due_upd [of "co_calls st" now ob ?cs] inv by (simp add: co_step_def co_wf_def)
  moreover have "co_calls st' = (co_calls st)(ob := ?cs)" using step by (simp add: co_step_def)
  ultimately show ?thesis using dn unfolding ag by auto
qed

text \<open>The game only uses C integers as times and never swaps an object with itself.\<close>

definition game_ok :: "('w \<Rightarrow> nat \<Rightarrow> call \<Rightarrow> co_op list \<times> bool \<times> 'w) \<Rightarrow> bool" where
  "game_ok game \<longleftrightarrow> (\<forall>w ob cop. list_all op_ok (fst (game w ob cop)))"

lemma co_execute_fine:
  assumes live: "co_live now st" and g: "game_ok game"
  shows "\<exists>w' st'. co_execute game now ob cop w st = Some (w', st') \<and> co_fine now st st'"
proof -
  obtain ops err w1 where o': "game w ob cop = (ops, err, w1)" by (cases "game w ob cop") auto
  then have ops: "list_all op_ok ops" using g unfolding game_ok_def by (metis fst_conv)
  let ?st = "if c_reload cop \<le> 0 then free_call st else st"
  have f0: "co_fine now st ?st" using live by (simp add: co_fine_def co_live_def)
  then have "co_live now ?st" by (simp add: co_fine_def)
  from co_run_fine [OF this ops] obtain e st1 where
    st1: "co_run now ops ?st = Some (e, st1)" "co_fine now st st1" using co_fine_trans [OF f0] by blast
  then have "co_live now st1" by (simp add: co_fine_def)
  from delete_fine [OF this, of ob "c_id cop"] co_fine_trans [OF st1(2)] st1 o' show ?thesis
    by (auto simp: co_execute_def)
qed

text \<open>When the inner loop stops, nothing is left at the time it served.\<close>

lemma co_slot_served:
  assumes live: "co_live now st"
    and stop: "case co_slots st (co_slot (co_last st)) of [] \<Rightarrow> True | ob # _ \<Rightarrow> co_last st < co_first (co_calls st) ob"
    and c: "c \<in> set (co_calls st ob)"
  shows "co_last st < c_when c"
proof (rule ccontr)
  assume n: "\<not> co_last st < c_when c"
  have inv: "co_inv st" using live by (simp add: co_live_def)
  obtain d ds where d: "co_calls st ob = d # ds" using c by (cases "co_calls st ob") auto
  have "sorted (map c_when (co_calls st ob))" using inv by (simp add: co_wf_def)
  then have "c_when d \<le> c_when c" using c d by auto
  moreover have "co_last st \<le> c_when d" using live_first [OF live d] by (simp add: call_ok_def)
  ultimately have "co_first (co_calls st) ob = co_last st" using n d by simp
  moreover have ch: "chain_inv {} (co_calls st) s (co_slots st s)" for s using inv by (simp add: co_wf_def)
  ultimately have "ob \<in> set (co_slots st (co_slot (co_last st)))" using d unfolding chain_inv_def by force
  then obtain x xs where x: "co_slots st (co_slot (co_last st)) = x # xs"
    by (cases "co_slots st (co_slot (co_last st))") auto
  then have "co_first (co_calls st) x \<le> co_first (co_calls st) ob"
    using ch [of "co_slot (co_last st)"] \<open>ob \<in> set _\<close> by (auto simp: chain_inv_def)
  with stop x \<open>co_first (co_calls st) ob = co_last st\<close> show False by simp
qed

text \<open>A round of the table: what it executes and what it leaves.\<close>

definition served :: "nat \<Rightarrow> nat \<Rightarrow> co_state \<Rightarrow> (nat \<times> call) list \<Rightarrow> bool" where
  "served now t st new \<longleftrightarrow> co_live now st \<and> co_last st = t \<and> (\<forall>x\<in>set new. c_when (snd x) = t) \<and>
     (\<forall>ob. \<forall>c\<in>set (co_calls st ob). t < c_when c)"

lemma co_while_law:
  assumes "co_live now st" "co_last st \<le> now" "game_ok game"
  shows "\<exists>w' new st'. co_while game now w tr st = Some (w', new @ tr, st') \<and> served now (co_last st) st' new"
  using assms(1,2)
proof (induction "due now (co_calls st)" arbitrary: st w tr rule: less_induct)
  case less
  let ?s = "co_slot (co_last st)"
  note live = less.prems(1)
  show ?case
  proof (cases "case co_slots st ?s of [] \<Rightarrow> True | ob # _ \<Rightarrow> co_last st < co_first (co_calls st) ob")
    case True
    have "co_calls st ob \<noteq> []" if "co_slots st ?s = ob # obs" for ob obs
      using live that by (simp add: co_live_def co_wf_def chain_inv_def) (metis list.set_intros(1))
    with True have "co_while game now w tr st = Some (w, [] @ tr, st)"
      by (subst co_while.simps) (auto simp: Let_def split: list.splits)
    moreover have "served now (co_last st) st []" using live co_slot_served [OF live True] by (simp add: served_def)
    ultimately show ?thesis by blast
  next
    case False
    then obtain ob obs where ob: "co_slots st ?s = ob # obs" "co_first (co_calls st) ob \<le> co_last st"
      by (auto split: list.splits)
    then have "co_calls st ob \<noteq> []"
      using live by (simp add: co_live_def co_wf_def chain_inv_def) (metis list.set_intros(1))
    then obtain c cs where c: "co_calls st ob = c # cs" by (cases "co_calls st ob") auto
    with ob have le: "c_when c \<le> co_last st" by simp
    from co_extract_law [OF live less.prems(2) refl ob(1) c le] obtain st1 where
      st1: "co_extract now ?s st = Some (ob, c, st1)" "co_fine now st st1" "due now (co_calls st1) < due now (co_calls st)" by blast
    have "co_live now st1" using st1(2) by (simp add: co_fine_def)
    from co_execute_fine [OF this assms(3), of ob c w] obtain w2 st2 where
      st2: "co_execute game now ob c w st1 = Some (w2, st2)" "co_fine now st1 st2" by blast
    have l2: "co_live now st2" "co_last st2 = co_last st" using st1(2) st2(2) by (simp_all add: co_fine_def)
    have "due now (co_calls st2) < due now (co_calls st)" using st1(3) st2(2) by (simp add: co_fine_def)
    from less.hyps [OF this l2(1), of w2 "(ob, c) # tr"] less.prems(2) l2(2) obtain w3 new st3 where
      r: "co_while game now w2 ((ob, c) # tr) st2 = Some (w3, new @ (ob, c) # tr, st3)" "served now (co_last st) st3 new" by auto
    have "co_while game now w tr st = Some (w3, (new @ [(ob, c)]) @ tr, st3)"
      using ob c le st1(1) st2(1) r(1) by (subst co_while.simps) (simp add: Let_def)
    moreover have "c_when c = co_last st" using le live_first [OF live c] by (simp add: call_ok_def)
    then have "served now (co_last st) st3 (new @ [(ob, c)])" using r(2) by (auto simp: served_def)
    ultimately show ?thesis by blast
  qed
qed

lemma co_for_law:
  assumes "co_live now st" "game_ok game" "sorted (map (\<lambda>x. c_when (snd x)) (rev tr))" "\<forall>x\<in>set tr. c_when (snd x) < co_last st"
  shows "\<exists>w' tr' st'. co_for game now w tr st = Some (w', tr', st') \<and> co_live now st' \<and> co_last st' = now + 1 \<and>
    sorted (map (\<lambda>x. c_when (snd x)) (rev tr')) \<and> (\<forall>x\<in>set tr'. c_when (snd x) \<le> now)"
  using assms
proof (induction "now + 1 - co_last st" arbitrary: st w tr)
  case 0
  then have "co_last st = now + 1" by (simp add: co_live_def)
  with 0 show ?case by (subst co_for.simps) (auto simp: less_Suc_eq_le)
next
  case (Suc n)
  then have le: "co_last st \<le> now" by simp
  from co_while_law [OF Suc.prems(1) le Suc.prems(2), of w tr] obtain w1 new st1 where
    st1: "co_while game now w tr st = Some (w1, new @ tr, st1)" "served now (co_last st) st1 new" by blast
  let ?st = "st1\<lparr>co_last := co_last st1 + 1\<rparr>"
  have l: "co_live now ?st" using st1(2) le by (auto simp: served_def co_live_def co_wf_def call_ok_def Suc_le_eq)
  have n: "n = now + 1 - co_last ?st" using Suc.hyps(2) st1(2) by (simp add: served_def)
  have "map (\<lambda>x. c_when (snd x)) new = replicate (length new) (co_last st)"
    using st1(2) by (intro replicate_eqI) (auto simp: served_def)
  then have "map (\<lambda>x. c_when (snd x)) (rev new) = replicate (length new) (co_last st)"
    by (simp add: rev_map [symmetric])
  then have "sorted (map (\<lambda>x. c_when (snd x)) (rev (new @ tr)))"
    using Suc.prems(3,4) by (auto simp: sorted_append less_imp_le simp del: map_map rev_map)
  moreover have "\<forall>x\<in>set (new @ tr). c_when (snd x) < co_last ?st"
    using Suc.prems(4) st1(2) by (auto simp: served_def intro: less_SucI)
  ultimately show ?case using Suc.hyps(1) [OF n l Suc.prems(2), of "new @ tr" w1] st1(1) le
    by (subst co_for.simps) simp
qed

section \<open>What a run executes\<close>

text \<open>The books of one object: the calls executed so far and those still due, and the calls that are not due with those that
  will be put back.  Functions that leave the alarms alone do not change them.\<close>

definition ledger :: "nat \<Rightarrow> nat \<Rightarrow> (nat \<times> call) list \<Rightarrow> co_state \<Rightarrow> call list \<times> call multiset" where
  "ledger now ob tr st =
     (map snd (filter (\<lambda>x. fst x = ob) (rev tr)) @ filter (\<lambda>c. c_when c \<le> now) (co_calls st ob),
      mset (filter (\<lambda>c. now < c_when c) (co_calls st ob)) +
      image_mset (run_again now) (mset (filter (\<lambda>c. c_when c \<le> now \<and> 0 < c_reload c) (co_calls st ob))))"

definition quiet_game :: "('w \<Rightarrow> nat \<Rightarrow> call \<Rightarrow> co_op list \<times> bool \<times> 'w) \<Rightarrow> bool" where
  "quiet_game game \<longleftrightarrow> (\<forall>w ob cop. \<exists>w'. game w ob cop = ([], False, w'))"

lemma quiet_game_ok: "quiet_game game \<Longrightarrow> game_ok game"
  unfolding quiet_game_def game_ok_def by (metis fst_conv list.pred_inject(1))

lemma quiet_execute:
  assumes "quiet_game game"
  shows "\<exists>w' st'. co_execute game now ob cop w st = Some (w', st') \<and> co_calls st' = co_calls st"
proof -
  from assms obtain w' where "game w ob cop = ([], False, w')" unfolding quiet_game_def by blast
  then show ?thesis by (simp add: co_execute_def)
qed

lemma filter_call_insert: "\<not> P cop \<Longrightarrow> filter P (call_insert cop cs) = filter P cs"
  by (induction cs) auto

lemma ledger_step:
  assumes c: "co_calls st ob = c # cs" "c_when c \<le> now" "call_ok t c"
    and st': "co_calls st' = (co_calls st)(ob := if 0 < c_reload c then call_insert (run_again now c) cs else cs)"
  shows "ledger now x ((ob, c) # tr) st' = ledger now x tr st"
proof (cases "x = ob \<and> 0 < c_reload c")
  case True
  then have later: "now < c_when (run_again now c)" by (simp add: run_again_def)
  have "mset (filter (\<lambda>c. now < c_when c) (call_insert (run_again now c) cs)) =
      add_mset (run_again now c) (mset (filter (\<lambda>c. now < c_when c) cs))"
    using call_insert_law(2) [of "run_again now c" cs] later by (simp add: mset_filter)
  with True c st' later show ?thesis by (simp add: ledger_def filter_call_insert)
next
  case False
  with c st' show ?thesis by (auto simp: ledger_def)
qed

lemma co_while_ledger:
  assumes g: "quiet_game game" and "co_live now st" "co_last st \<le> now" "co_while game now w tr st = Some (w', tr', st')"
  shows "ledger now ob tr' st' = ledger now ob tr st"
  using assms(2-4)
proof (induction "due now (co_calls st)" arbitrary: st w tr rule: less_induct)
  case less
  let ?s = "co_slot (co_last st)"
  note live = less.prems(1)
  show ?case
  proof (cases "\<exists>x xs c cs. co_slots st ?s = x # xs \<and> co_calls st x = c # cs \<and> c_when c \<le> co_last st")
    case True
    then obtain x xs c cs where x: "co_slots st ?s = x # xs" "co_calls st x = c # cs" "c_when c \<le> co_last st" by blast
    from co_extract_law [OF live less.prems(2) refl x] obtain st1 where
      st1: "co_extract now ?s st = Some (x, c, st1)" "co_fine now st st1" "due now (co_calls st1) < due now (co_calls st)"
        "co_calls st1 = (co_calls st)(x := if 0 < c_reload c then call_insert (run_again now c) cs else cs)" by blast
    have l1: "co_live now st1" using st1(2) by (simp add: co_fine_def)
    from quiet_execute [OF g] obtain w2 st2 where
      st2: "co_execute game now x c w st1 = Some (w2, st2)" "co_calls st2 = co_calls st1" by blast
    from co_execute_fine [OF l1 quiet_game_ok [OF g], of x c w] st2(1) have f2: "co_fine now st1 st2" by simp
    have e: "co_while game now w2 ((x, c) # tr) st2 = Some (w', tr', st')"
      using less.prems(3) x st1(1) st2(1) by (subst (asm) co_while.simps) (simp add: Let_def)
    have "ledger now ob tr' st' = ledger now ob ((x, c) # tr) st2"
      using st1(2,3) st2(2) f2 less.prems(2) by (intro less.hyps [OF _ _ _ e]) (simp_all add: co_fine_def)
    moreover have "ledger now ob ((x, c) # tr) st2 = ledger now ob tr st"
      using st1(4) st2(2) x(3) less.prems(2) live_first [OF live x(2)] by (intro ledger_step [OF x(2)]) auto
    ultimately show ?thesis by simp
  next
    case False
    then have "tr' = tr \<and> st' = st"
      using less.prems(3) by (subst (asm) co_while.simps) (auto simp: Let_def split: list.splits)
    then show ?thesis by simp
  qed
qed

lemma co_for_ledger:
  assumes g: "quiet_game game" and "co_live now st" "co_for game now w tr st = Some (w', tr', st')"
  shows "ledger now ob tr' st' = ledger now ob tr st"
  using assms(2,3)
proof (induction "now + 1 - co_last st" arbitrary: st w tr)
  case 0
  then have "\<not> co_last st \<le> now" by (simp add: co_live_def)
  with 0 show ?case by (subst (asm) co_for.simps) simp
next
  case (Suc n)
  then have le: "co_last st \<le> now" by simp
  from co_while_law [OF Suc.prems(1) le quiet_game_ok [OF g], of w tr] obtain w1 new st1 where
    st1: "co_while game now w tr st = Some (w1, new @ tr, st1)" "served now (co_last st) st1 new" by blast
  let ?st = "st1\<lparr>co_last := co_last st1 + 1\<rparr>"
  have l: "co_live now ?st" using st1(2) le by (auto simp: served_def co_live_def co_wf_def call_ok_def Suc_le_eq)
  have n: "n = now + 1 - co_last ?st" using Suc.hyps(2) st1(2) by (simp add: served_def)
  have "co_for game now w1 (new @ tr) ?st = Some (w', tr', st')"
    using Suc.prems(2) st1(1) le by (subst (asm) co_for.simps) simp
  from Suc.hyps(1) [OF n l this] co_while_ledger [OF g Suc.prems(1) le st1(1), of ob] show ?case
    by (simp add: ledger_def)
qed

section \<open>How long to sleep\<close>

text \<open>The time until the earliest call, if there is one within a minute.\<close>

definition sleep_ok :: "nat \<Rightarrow> co_state \<Rightarrow> nat \<times> nat \<Rightarrow> nat \<times> nat \<Rightarrow> bool" where
  "sleep_ok now st tv r \<longleftrightarrow>
     (\<forall>ob. \<forall>c\<in>set (co_calls st ob). now + 60 * TIME_RES \<le> c_when c) \<and> r = tv \<or>
     (\<exists>ob. \<exists>c\<in>set (co_calls st ob). c_when c < now + 60 * TIME_RES \<and>
        (\<forall>ob'. \<forall>c'\<in>set (co_calls st ob'). c_when c \<le> c_when c') \<and>
        r = ((c_when c - now) div TIME_RES, (c_when c - now) mod TIME_RES * 1000000 div TIME_RES))"

lemma co_slot_eq: "co_slot a = co_slot b \<Longrightarrow> a \<le> b \<Longrightarrow> b < a + NUM_SLOTS \<Longrightarrow> a = b"
proof -
  assume e: "co_slot a = co_slot b" and le: "a \<le> b" "b < a + NUM_SLOTS"
  from e have "NUM_SLOTS dvd b - a" using mod_eq_dvd_iff_nat [OF le(1), of NUM_SLOTS] by (simp add: co_slot_mod)
  with le show ?thesis by (auto dest: dvd_imp_le)
qed

lemma co_slot_Suc: "co_slot (co_slot t + 1) = co_slot (Suc t)"
  by (simp add: co_slot_mod mod_Suc_eq)

text \<open>No call lies at a time whose chain is empty or starts later.\<close>

lemma slot_clear:
  assumes inv: "co_inv st" and lo: "\<forall>ob. \<forall>c\<in>set (co_calls st ob). t \<le> c_when c"
    and clear: "\<forall>ob\<in>set (co_slots st (co_slot t)). t < co_first (co_calls st) ob"
    and c: "c \<in> set (co_calls st ob)"
  shows "Suc t \<le> c_when c"
proof (rule ccontr)
  assume "\<not> Suc t \<le> c_when c"
  then have t: "c_when c \<le> t" by simp
  obtain d ds where d: "co_calls st ob = d # ds" using c by (cases "co_calls st ob") auto
  have "sorted (map c_when (co_calls st ob))" using inv by (simp add: co_wf_def)
  then have "c_when d \<le> c_when c" using c d by auto
  moreover have "t \<le> c_when d" using lo d by (metis list.set_intros(1))
  ultimately have "co_first (co_calls st) ob = t" using t d by simp
  moreover from this have "ob \<in> set (co_slots st (co_slot t))" using inv d by (simp add: co_wf_def chain_inv_def)
  ultimately show False using clear by auto
qed

lemma chain_head:
  assumes "co_inv st" "co_slots st s = x # xs"
  shows "co_calls st x \<noteq> []" "co_slot (co_first (co_calls st) x) = s"
    "\<forall>ob\<in>set (co_slots st s). co_first (co_calls st) x \<le> co_first (co_calls st) ob"
proof -
  have ch: "chain_inv {} (co_calls st) s (co_slots st s)" using assms(1) by (simp add: co_wf_def)
  then have "x \<in> set (co_slots st s) \<longleftrightarrow> co_calls st x \<noteq> [] \<and> co_slot (co_first (co_calls st) x) = s"
    by (simp add: chain_inv_def)
  then show "co_calls st x \<noteq> []" "co_slot (co_first (co_calls st) x) = s" using assms(2) by simp_all
  show "\<forall>ob\<in>set (co_slots st s). co_first (co_calls st) x \<le> co_first (co_calls st) ob"
    using ch unfolding chain_inv_def assms(2) by auto
qed

lemma next_scan_law:
  assumes inv: "co_inv st" and "\<forall>ob. \<forall>c\<in>set (co_calls st ob). t \<le> c_when c" "now \<le> t" "t < now + 60 * TIME_RES"
    "now + 60 * TIME_RES - t \<le> n"
  shows "\<exists>r. next_scan n now (co_slot (now + 60 * TIME_RES)) (co_slot t) st tv = Some r \<and> sleep_ok now st tv r"
  using assms(2-5)
proof (induction n arbitrary: t)
  case (Suc n)
  let ?e = "now + 60 * TIME_RES"
  let ?cont = "if co_slot (co_slot t + 1) \<noteq> co_slot ?e then next_scan n now (co_slot ?e) (co_slot (co_slot t + 1)) st tv else Some tv"
  have small: "?e \<le> t + NUM_SLOTS" using Suc.prems(2) by (simp add: TIME_RES_def NUM_SLOTS_def)
  have cont: "\<exists>r. ?cont = Some r \<and> sleep_ok now st tv r"
    if clear: "\<forall>ob\<in>set (co_slots st (co_slot t)). t < co_first (co_calls st) ob"
  proof -
    have lo: "\<forall>ob. \<forall>c\<in>set (co_calls st ob). Suc t \<le> c_when c"
      using slot_clear [OF inv Suc.prems(1) clear] by blast
    show ?thesis
    proof (cases "Suc t = ?e")
      case True
      then have "sleep_ok now st tv tv" using lo by (simp add: sleep_ok_def)
      with True show ?thesis by (simp add: co_slot_Suc del: One_nat_def)
    next
      case False
      then have lt: "Suc t < ?e" using Suc.prems(3) by simp
      then have "co_slot (Suc t) \<noteq> co_slot ?e" using co_slot_eq [of "Suc t" ?e] small by auto
      with Suc.IH [OF lo _ lt] Suc.prems(2,4) show ?thesis by (simp add: co_slot_Suc [simplified])
    qed
  qed
  show ?case
  proof (cases "co_slots st (co_slot t)")
    case Nil
    then have "next_scan (Suc n) now (co_slot ?e) (co_slot t) st tv = ?cont" by (simp add: Let_def)
    moreover have "\<forall>ob\<in>set (co_slots st (co_slot t)). t < co_first (co_calls st) ob" using Nil by simp
    ultimately show ?thesis using cont by (simp only:)
  next
    case (Cons x xs)
    note h = chain_head [OF inv Cons]
    then obtain c cs where c: "co_calls st x = c # cs" by (cases "co_calls st x") auto
    have ge: "t \<le> c_when c" using Suc.prems(1) c by (metis list.set_intros(1))
    have eq: "next_scan (Suc n) now (co_slot ?e) (co_slot t) st tv =
        (if c_when c - now < TIME_RES * 60
         then Some ((c_when c - now) div TIME_RES, (c_when c - now) mod TIME_RES * 1000000 div TIME_RES) else ?cont)"
      using Cons c ge Suc.prems(2) by (simp add: Let_def)
    show ?thesis
    proof (cases "c_when c - now < TIME_RES * 60")
      case True
      then have lt: "c_when c < ?e" using ge Suc.prems(2) by linarith
      then have "t = c_when c" using co_slot_eq [of t "c_when c"] h(2) c ge small by simp
      then have "\<forall>ob'. \<forall>c'\<in>set (co_calls st ob'). c_when c \<le> c_when c'" using Suc.prems(1) by simp
      moreover have "c \<in> set (co_calls st x)" using c by simp
      ultimately have "sleep_ok now st tv ((c_when c - now) div TIME_RES, (c_when c - now) mod TIME_RES * 1000000 div TIME_RES)"
        using lt unfolding sleep_ok_def by blast
      with eq True show ?thesis by simp
    next
      case False
      then have "?e \<le> c_when c" by (simp add: TIME_RES_def)
      then have "\<forall>ob\<in>set (co_slots st (co_slot t)). t < co_first (co_calls st) ob"
        using h(3) c Suc.prems(3) by fastforce
      from cont [OF this] eq False show ?thesis by (simp only: if_False)
    qed
  qed
qed simp

lemma next_call_out_law:
  assumes live: "co_live now st" and "now \<le> co_last st"
  shows "\<exists>r. next_call_out (co_last st) now st tv = Some r \<and> sleep_ok now st tv r"
  unfolding next_call_out_def
proof (rule next_scan_law)
  show "co_inv st" "\<forall>ob. \<forall>c\<in>set (co_calls st ob). co_last st \<le> c_when c"
    using live by (auto simp: co_live_def call_ok_def)
  show "co_last st < now + 60 * TIME_RES" using live by (simp add: co_live_def TIME_RES_def)
qed (use assms in \<open>simp_all add: TIME_RES_def NUM_SLOTS_def\<close>)

section \<open>Properties\<close>

lemma co_live_init: "now < 2 ^ 31 \<Longrightarrow> co_live now init_call_out"
  by (simp add: co_live_def co_wf_def chain_inv_def init_call_out_def)

text \<open>A table with one repeating alarm, and a game that schedules another call every time.\<close>

definition demo_co :: co_state where
  "demo_co = snd (projr (the (new_call_out 0 7 100 3 5 None init_call_out)))"

definition demo_game :: "nat \<Rightarrow> nat \<Rightarrow> call \<Rightarrow> co_op list \<times> bool \<times> nat" where
  "demo_game w ob cop = ([New_call 8 101 2 0 None], False, w + 1)"

lemma demo_game_ok: "game_ok demo_game"
  by (simp add: game_ok_def demo_game_def)

lemma demo_co_live: "co_live 0 demo_co \<and> co_last demo_co = 0"
proof -
  have l: "co_live 0 init_call_out" by (rule co_live_init) simp
  have "num_call_outs 7 init_call_out = 0" by (simp add: num_call_outs_def init_call_out_def)
  with new_fine [OF l, of 3 5 7 100 None, simplified]
  have "\<exists>i st'. new_call_out 0 7 100 3 5 None init_call_out = Some (Inr (i, st')) \<and> co_fine 0 init_call_out st'"
    by (elim exE conjE, rename_tac r, case_tac r) (auto simp: MAX_CALL_OUT_def)
  then show ?thesis by (auto simp: demo_co_def co_fine_def init_call_out_def)
qed

lemma co_live_later: "co_live now st \<Longrightarrow> now \<le> now' \<Longrightarrow> now' < 2 ^ 31 \<Longrightarrow> co_live now' st"
  by (auto simp: co_live_def)



text \<open>C10. A new alarm never fails below the limit of 128 alarms per object: it is entered at its time, before the
  alarms of the object that are not earlier, and gets the identifier that is returned.  At the limit the object loses all its alarms and
  an error is raised.  In both cases the table stays in order and the alarms of all other objects stay.\<close>

theorem new_call_out_ok:
  assumes "co_live now st" "delay < 2 ^ 31" "reload < 2 ^ 31"
  shows "\<exists>r. new_call_out now ob fn delay reload giver st = Some r \<and>
    (case r of
       Inl st' \<Rightarrow> MAX_CALL_OUT \<le> num_call_outs ob st \<and> co_live now st' \<and> co_calls st' = (co_calls st)(ob := [])
     | Inr (i, st') \<Rightarrow> num_call_outs ob st < MAX_CALL_OUT \<and> co_live now st' \<and> i = co_next_id st \<and>
         co_calls st' = (co_calls st)(ob :=
           takeWhile (\<lambda>c. c_when c < now + nat (max 1 delay)) (co_calls st ob) @
           \<lparr>c_func = fn, c_reload = max 0 reload, c_when = now + nat (max 1 delay), c_id = i, c_giver = giver\<rparr> #
           dropWhile (\<lambda>c. c_when c < now + nat (max 1 delay)) (co_calls st ob)))"
proof -
  from new_fine [OF assms, of ob fn giver] obtain r where
    r: "new_call_out now ob fn delay reload giver st = Some r"
      "case r of Inl st' \<Rightarrow> co_fine now st st' \<and> MAX_CALL_OUT \<le> num_call_outs ob st \<and> co_calls st' = (co_calls st)(ob := [])
       | Inr (i, st') \<Rightarrow> co_fine now st st' \<and> i = co_next_id st \<and>
         co_calls st' = (co_calls st)(ob := call_insert \<lparr>c_func = fn, c_reload = max 0 reload,
           c_when = now + nat (max 1 delay), c_id = i, c_giver = giver\<rparr> (co_calls st ob))" by blast
  have "num_call_outs ob st < MAX_CALL_OUT" if "r = Inr x" for x
    using r(1) that by (auto simp: new_call_out_def Let_def split: if_splits)
  with r show ?thesis by (auto simp: co_fine_def call_insert_at split: sum.splits)
qed

theorem new_call_out_ok_witness:
  "\<exists>i st'. new_call_out 0 9 100 0 0 None init_call_out = Some (Inr (i, st')) \<and> co_live 0 st' \<and>
     map c_when (co_calls st' 9) = [1]"
proof -
  have l: "co_live 0 init_call_out" by (rule co_live_init) simp
  have "num_call_outs 9 init_call_out = 0" by (simp add: num_call_outs_def init_call_out_def)
  with new_call_out_ok [OF l, of 0 0 9 100 None, simplified] show ?thesis
    by (elim exE conjE, rename_tac r, case_tac r) (auto simp: MAX_CALL_OUT_def init_call_out_def)
qed

text \<open>C11. Removing one alarm or all alarms of an object, and exchanging the alarms of two objects, never corrupts the
  table: none of the \<^verbatim>\<open>fatal()\<close> checks on the chains can fire.  Of the alarms of the object exactly the first one with the identifier is
  gone, or all of them, or the lists of the two objects have changed places; every other list is as it was.\<close>

theorem alarm_table_consistent:
  assumes "co_inv st"
  shows "(\<exists>st'. delete_call ob i st = Some st' \<and> co_inv st' \<and>
      co_calls st' = (co_calls st)(ob :=
        takeWhile (\<lambda>c. c_id c \<noteq> i) (co_calls st ob) @ tl (dropWhile (\<lambda>c. c_id c \<noteq> i) (co_calls st ob)))) \<and>
    (\<exists>st'. delete_all_calls ob st = Some st' \<and> co_inv st' \<and> co_calls st' = (co_calls st)(ob := [])) \<and>
    (ob \<noteq> ob2 \<longrightarrow> (\<exists>st'. call_out_swap_objects ob ob2 st = Some st' \<and> co_inv st' \<and>
      co_calls st' = (co_calls st)(ob := co_calls st ob2, ob2 := co_calls st ob)))"
  using delete_call_law [OF assms, of ob i] delete_all_law [OF assms, of ob] swap_law [OF assms, of ob ob2]
  unfolding co_step_def call_delete_at by blast

theorem alarm_table_consistent_witness:
  "\<exists>st'. call_out_swap_objects 7 8 demo_co = Some st' \<and> co_inv st'"
proof -
  have "co_inv demo_co" using demo_co_live by (simp add: co_live_def)
  from alarm_table_consistent [OF this, of 7 0 8] show ?thesis by auto
qed

end
