(* ===== verification/C_Stdio.thy ===== *)
theory C_Stdio
  imports Driver_Prelude
begin

text \<open>
  The conversions of the C library that the driver uses to write values as text and to read them back:
  \<^verbatim>\<open>sprintf\<close> with \<^verbatim>\<open>%d\<close> and \<^verbatim>\<open>%.8e\<close>, \<^verbatim>\<open>atoi\<close>, and \<^verbatim>\<open>sscanf\<close> with \<^verbatim>\<open>%d\<close> and
  \<^verbatim>\<open>%f\<close>.  A text is the list of its bytes without the terminating NUL.
\<close>

section \<open>Decimal integers\<close>

definition isdigit :: "u8 \<Rightarrow> bool" where "isdigit c \<longleftrightarrow> 48 \<le> c \<and> c \<le> 57"

definition isspace :: "u8 \<Rightarrow> bool" where "isspace c \<longleftrightarrow> c = 32 \<or> 9 \<le> c \<and> c \<le> 13"

fun dec_nat :: "nat \<Rightarrow> u8 list" where
  "dec_nat n = (if n < 10 then [48 + of_nat n] else dec_nat (n div 10) @ [48 + of_nat (n mod 10)])"

declare dec_nat.simps [simp del]

definition num_of :: "u8 list \<Rightarrow> nat" where
  "num_of ds = foldl (\<lambda>a c. 10 * a + (unat c - 48)) 0 ds"

text \<open>\<^verbatim>\<open>%d\<close> of an \<^verbatim>\<open>int\<close>.\<close>

definition fmt_d :: "u32 \<Rightarrow> u8 list" where
  "fmt_d w = (if sint w < 0 then 45 # dec_nat (nat (- sint w)) else dec_nat (nat (sint w)))"

text \<open>An optional sign in front of a number.\<close>

definition scan_sign :: "u8 list \<Rightarrow> bool \<times> u8 list" where
  "scan_sign s = (case s of c # s' \<Rightarrow> if c = 45 then (True, s') else if c = 43 then (False, s') else (False, s) | [] \<Rightarrow> (False, []))"

text \<open>
  Reading \<^verbatim>\<open>%d\<close>: the number is first read as a 64 bit \<^verbatim>\<open>long\<close>, which saturates, and then cut to an \<^verbatim>\<open>int\<close>.
\<close>

definition scan_d :: "u8 list \<Rightarrow> (u32 \<times> u8 list) option" where
  "scan_d s =
     (let (neg, t) = scan_sign (dropWhile isspace s); ds = takeWhile isdigit t; v = int (num_of ds)
      in if ds = [] then None
         else Some (word_of_int (max (- (2 ^ 63)) (min (2 ^ 63 - 1) (if neg then - v else v))), dropWhile isdigit t))"

definition atoi :: "u8 list \<Rightarrow> u32" where
  "atoi s = (case scan_d s of None \<Rightarrow> 0 | Some (v, _) \<Rightarrow> v)"

lemma digit_byte: "d < 10 \<Longrightarrow> isdigit (48 + of_nat d) \<and> unat (48 + of_nat d :: u8) = 48 + d"
proof -
  assume d: "d < 10"
  then have "unat (48 + of_nat d :: u8) = 48 + d" by (simp add: unat_word_ariths unat_of_nat)
  with d show ?thesis by (simp add: isdigit_def word_le_nat_alt)
qed

lemma num_of_snoc: "num_of (ds @ [c]) = 10 * num_of ds + (unat c - 48)"
  by (simp add: num_of_def)

lemma num_of_dec [simp]: "num_of (dec_nat n) = n"
proof (induction n rule: dec_nat.induct)
  case (1 n)
  show ?case
  proof (cases "n < 10")
    case True
    then have "num_of ([] @ [48 + of_nat n]) = n" unfolding num_of_snoc using digit_byte [of n] by (simp add: num_of_def)
    with True show ?thesis by (subst dec_nat.simps) simp
  next
    case False
    have "num_of (dec_nat (n div 10) @ [48 + of_nat (n mod 10)]) = n"
      unfolding num_of_snoc using 1 False digit_byte [of "n mod 10"] by simp
    with False show ?thesis by (subst dec_nat.simps) simp
  qed
qed

lemma dec_digits: "\<forall>c\<in>set (dec_nat n). isdigit c"
proof (induction n rule: dec_nat.induct)
  case (1 n)
  then show ?case using digit_byte [of n] digit_byte [of "n mod 10"] by (subst dec_nat.simps) auto
qed

lemma dec_nonempty [simp]: "dec_nat n \<noteq> []"
  by (subst dec_nat.simps) simp

lemma digit_not_space: "isdigit c \<Longrightarrow> \<not> isspace c \<and> c \<noteq> 45 \<and> c \<noteq> 43"
  by (auto simp: isdigit_def isspace_def word_le_nat_alt)

text \<open>A text that does not go on with a digit.\<close>

definition no_digit :: "u8 list \<Rightarrow> bool" where
  "no_digit s \<longleftrightarrow> (case s of [] \<Rightarrow> True | c # _ \<Rightarrow> \<not> isdigit c)"

lemma take_digits:
  assumes "\<forall>c\<in>set ds. isdigit c" "no_digit rest"
  shows "takeWhile isdigit (ds @ rest) = ds" "dropWhile isdigit (ds @ rest) = rest"
  using assms by (auto simp: no_digit_def takeWhile_append dropWhile_append split: list.splits)

lemma scan_sign_dec: "scan_sign (dropWhile isspace (dec_nat n @ rest)) = (False, dec_nat n @ rest)"
proof -
  obtain c ds where c: "dec_nat n = c # ds" by (cases "dec_nat n") simp_all
  then have "isdigit c" using dec_digits [of n] by simp
  with digit_not_space c show ?thesis by (simp add: scan_sign_def)
qed

lemma scan_d_fmt:
  assumes "no_digit rest"
  shows "scan_d (fmt_d w @ rest) = Some (w, rest)"
proof -
  note b = sint_greater_eq [of w] sint_less [of w]
  show ?thesis
  proof (cases "sint w < 0")
    case True
    have s: "scan_sign (dropWhile isspace (fmt_d w @ rest)) = (True, dec_nat (nat (- sint w)) @ rest)"
      using True by (simp add: fmt_d_def scan_sign_def isspace_def)
    have "word_of_int (max (- (2 ^ 63)) (min (2 ^ 63 - 1) (- int (nat (- sint w))))) = w" using True b by simp
    with True show ?thesis
      by (simp add: scan_d_def s take_digits [OF dec_digits assms])
  next
    case False
    have s: "scan_sign (dropWhile isspace (fmt_d w @ rest)) = (False, dec_nat (nat (sint w)) @ rest)"
      using False by (simp add: fmt_d_def scan_sign_dec)
    have "word_of_int (max (- (2 ^ 63)) (min (2 ^ 63 - 1) (int (nat (sint w))))) = w" using False b by simp
    with False show ?thesis
      by (simp add: scan_d_def s take_digits [OF dec_digits assms])
  qed
qed

lemma atoi_fmt: "no_digit rest \<Longrightarrow> atoi (fmt_d w @ rest) = w"
  by (simp add: atoi_def scan_d_fmt)

section \<open>Single precision floats\<close>

text \<open>
  A \<^verbatim>\<open>float\<close> is its bit pattern.  Without the sign, the pattern \<open>b\<close> stands for \<open>mag b / 2 ^ 149\<close>.
\<close>

definition mag :: "nat \<Rightarrow> nat" where
  "mag b = (if b < 2 ^ 23 then b else (2 ^ 23 + b mod 2 ^ 23) * 2 ^ (b div 2 ^ 23 - 1))"

definition FLOAT_INF :: nat where "FLOAT_INF = 0x7F800000"

text \<open>Division rounded to the nearest integer, ties to even.\<close>

definition rdiv :: "nat \<Rightarrow> nat \<Rightarrow> nat" where
  "rdiv a b =
     (let q = a div b; r = a mod b in if 2 * r < b \<or> 2 * r = b \<and> even q then q else q + 1)"

text \<open>
  Nine significant digits of \<open>mag b / 2 ^ 149\<close>: the digits as a number and the decimal exponent plus 45.  The exponent is
  found from above.
\<close>

fun dec_exp :: "nat \<Rightarrow> nat \<Rightarrow> nat" where
  "dec_exp N 0 = 0"
| "dec_exp N (Suc y) =
     (if 10 ^ 8 * 2 ^ 149 * 10 ^ Suc y \<le> N * 10 ^ 53 then Suc y else dec_exp N y)"

definition dec_float :: "nat \<Rightarrow> nat \<times> nat" where
  "dec_float b =
     (let y = dec_exp (mag b) 83; D = rdiv (mag b * 10 ^ 53) (2 ^ 149 * 10 ^ y)
      in if D = 10 ^ 9 then (10 ^ 8, y + 1) else (D, y))"

text \<open>The text of digits and exponent, and \<^verbatim>\<open>%.8e\<close>.\<close>

definition dec_two :: "nat \<Rightarrow> u8 list" where
  "dec_two n = (if n < 10 then 48 # dec_nat n else dec_nat n)"

definition sci :: "u8 list \<Rightarrow> int \<Rightarrow> u8 list" where
  "sci ds x = hd ds # 46 # tl ds @ 101 # (if x < 0 then 45 else 43) # dec_two (nat \<bar>x\<bar>)"

definition fmt_e8 :: "u32 \<Rightarrow> u8 list" where
  "fmt_e8 w =
     (let b = unat w mod 2 ^ 31; s = (if unat w < 2 ^ 31 then [] else [45])
      in if b > FLOAT_INF then s @ [110, 97, 110]
         else if b = FLOAT_INF then s @ [105, 110, 102]
         else if b = 0 then s @ sci (replicate 9 48) 0
         else (let (D, y) = dec_float b in s @ sci (dec_nat D) (int y - 45)))"

text \<open>The pattern nearest to the positive number \<open>P / Q\<close>.\<close>

fun bin_exp :: "nat \<Rightarrow> nat \<Rightarrow> nat \<Rightarrow> nat" where
  "bin_exp t Q 0 = 0"
| "bin_exp t Q (Suc k) = (if 2 ^ (Suc k + 23) * Q \<le> t then Suc k else bin_exp t Q k)"

definition nearest :: "nat \<Rightarrow> nat \<Rightarrow> nat" where
  "nearest P Q =
     (let t = P * 2 ^ 149; k = bin_exp t Q 253 in min FLOAT_INF (k * 2 ^ 23 + rdiv t (Q * 2 ^ k)))"

text \<open>\<open>num * 10 ^ x\<close>.\<close>

definition nearest10 :: "nat \<Rightarrow> int \<Rightarrow> nat" where
  "nearest10 num x = (if x < 0 then nearest num (10 ^ nat (- x)) else nearest (num * 10 ^ nat x) 1)"

definition lower :: "u8 \<Rightarrow> u8" where
  "lower c = (if 65 \<le> c \<and> c \<le> 90 then c + 32 else c)"

text \<open>The exponent, which needs a digit once its \<^verbatim>\<open>e\<close> has been read.\<close>

definition scan_exp :: "u8 list \<Rightarrow> int option" where
  "scan_exp s =
     (case s of
        c # s1 \<Rightarrow>
          if lower c = 101
          then (let (neg, s2) = scan_sign s1; ds = takeWhile isdigit s2
                in if ds = [] then None else Some (if neg then - int (num_of ds) else int (num_of ds)))
          else Some 0
      | [] \<Rightarrow> Some 0)"

text \<open>
  \<^verbatim>\<open>%f\<close> of \<^verbatim>\<open>sscanf\<close>: decimal numbers and the names of infinity and NaN.  Hexadecimal floats, which newer
  libraries read too, are not numbers here.
\<close>

definition scan_f :: "u8 list \<Rightarrow> u32 option" where
  "scan_f s =
     (let (neg, t) = scan_sign (dropWhile isspace s); l = map lower t;
          sgn = (\<lambda>b. of_nat (if neg then 2 ^ 31 + b else b))
      in if take 3 l = [110, 97, 110] then Some (sgn 0x7FC00000)
         else if take 3 l = [105, 110, 102]
         then (if take 1 (drop 3 l) = [105] \<and> take 8 l \<noteq> [105, 110, 102, 105, 110, 105, 116, 121] then None
               else Some (sgn FLOAT_INF))
         else (let ds1 = takeWhile isdigit t; t1 = dropWhile isdigit t;
                   (ds2, t2) = (case t1 of c # t' \<Rightarrow> if c = 46 then (takeWhile isdigit t', dropWhile isdigit t') else ([], t1)
                                | [] \<Rightarrow> ([], t1))
               in if ds1 @ ds2 = [] then None
                  else map_option (\<lambda>x. sgn (nearest10 (num_of (ds1 @ ds2)) (x - int (length ds2)))) (scan_exp t2)))"

lemma rdiv_bounds:
  assumes "0 < b"
  shows "2 * (rdiv a b * b) \<le> 2 * a + b" "2 * a \<le> 2 * (rdiv a b * b) + b"
proof -
  define q r where qr: "q = a div b" "r = a mod b"
  have a: "a = q * b + r" "r < b" using assms by (simp_all add: qr)
  have "rdiv a b = q \<and> 2 * r \<le> b \<or> rdiv a b = q + 1 \<and> b \<le> 2 * r"
    by (auto simp: rdiv_def Let_def qr)
  then show "2 * (rdiv a b * b) \<le> 2 * a + b" "2 * a \<le> 2 * (rdiv a b * b) + b"
    using a by (auto simp: algebra_simps)
qed

lemma rdiv_unique:
  assumes "2 * a < 2 * (m * b) + b" "2 * (m * b) < 2 * a + b"
  shows "rdiv a b = m"
proof -
  have b: "0 < b" using assms by (cases b) simp_all
  let ?r = "rdiv a b"
  note rb = rdiv_bounds [OF b, of a]
  have "?r * b < (m + 1) * b" using rb(1) assms(1) unfolding add_mult_distrib by linarith
  moreover have "m * b < (?r + 1) * b" using rb(2) assms(2) unfolding add_mult_distrib by linarith
  ultimately have "?r < m + 1" "m < ?r + 1" by (simp_all only: mult_less_cancel2)
  then show ?thesis by linarith
qed

lemma dec_exp_law:
  assumes "10 ^ 8 * 2 ^ 149 \<le> N * 10 ^ 53"
  shows "dec_exp N n \<le> n" "10 ^ 8 * 2 ^ 149 * 10 ^ dec_exp N n \<le> N * 10 ^ 53"
    "dec_exp N n < n \<Longrightarrow> N * 10 ^ 53 < 10 ^ 8 * 2 ^ 149 * 10 ^ Suc (dec_exp N n)"
proof -
  have "dec_exp N n \<le> n \<and> 10 ^ 8 * 2 ^ 149 * 10 ^ dec_exp N n \<le> N * 10 ^ 53 \<and>
    (dec_exp N n < n \<longrightarrow> N * 10 ^ 53 < 10 ^ 8 * 2 ^ 149 * 10 ^ Suc (dec_exp N n))"
  proof (induction n)
    case 0
    with assms show ?case by simp
  next
    case (Suc n)
    show ?case
    proof (cases "10 ^ 8 * 2 ^ 149 * 10 ^ Suc n \<le> N * 10 ^ 53")
      case True
      then show ?thesis by (simp only: dec_exp.simps if_True) simp
    next
      case False
      then have "dec_exp N (Suc n) = dec_exp N n" by (simp only: dec_exp.simps if_False)
      with Suc False show ?thesis by (cases "dec_exp N n < n") (auto simp only: not_le less_Suc_eq le_Suc_eq)
    qed
  qed
  then show "dec_exp N n \<le> n" "10 ^ 8 * 2 ^ 149 * 10 ^ dec_exp N n \<le> N * 10 ^ 53"
    "dec_exp N n < n \<Longrightarrow> N * 10 ^ 53 < 10 ^ 8 * 2 ^ 149 * 10 ^ Suc (dec_exp N n)" by blast+
qed

lemma bin_exp_law:
  "bin_exp t Q n \<le> n" "bin_exp t Q n \<noteq> 0 \<Longrightarrow> 2 ^ (bin_exp t Q n + 23) * Q \<le> t"
  "bin_exp t Q n < n \<Longrightarrow> t < 2 ^ (bin_exp t Q n + 24) * Q"
proof -
  have "bin_exp t Q n \<le> n \<and> (bin_exp t Q n \<noteq> 0 \<longrightarrow> 2 ^ (bin_exp t Q n + 23) * Q \<le> t) \<and>
    (bin_exp t Q n < n \<longrightarrow> t < 2 ^ (bin_exp t Q n + 24) * Q)"
  proof (induction n)
    case (Suc n)
    show ?case
    proof (cases "2 ^ (Suc n + 23) * Q \<le> t")
      case True
      then show ?thesis by (simp only: bin_exp.simps if_True) simp
    next
      case False
      then have e: "bin_exp t Q (Suc n) = bin_exp t Q n" by (simp only: bin_exp.simps if_False)
      have "Suc n + 23 = n + 24" by simp
      with False have "t < 2 ^ (n + 24) * Q" by (simp only: not_le)
      with Suc e show ?thesis by (cases "bin_exp t Q n < n") auto
    qed
  qed simp
  then show "bin_exp t Q n \<le> n" "bin_exp t Q n \<noteq> 0 \<Longrightarrow> 2 ^ (bin_exp t Q n + 23) * Q \<le> t"
    "bin_exp t Q n < n \<Longrightarrow> t < 2 ^ (bin_exp t Q n + 24) * Q" by blast+
qed

lemma bin_exp_unique:
  assumes "k \<le> n" "k \<noteq> 0 \<Longrightarrow> 2 ^ (k + 23) * Q \<le> t" "t < 2 ^ (k + 24) * Q"
  shows "bin_exp t Q n = k"
proof -
  let ?b = "bin_exp t Q n"
  have mono: "2 ^ i * Q \<le> 2 ^ j * Q" if "i \<le> j" for i j :: nat
    using that by (simp add: power_increasing)
  have "\<not> ?b < k" using bin_exp_law(3) [of t Q n] assms(1,2) mono [of "?b + 24" "k + 23"] by linarith
  moreover have "\<not> k < ?b" using bin_exp_law(2) [of t Q n] assms(3) mono [of "k + 24" "?b + 23"] by linarith
  ultimately show ?thesis by linarith
qed

text \<open>A number close enough to the float \<open>m * 2 ^ k\<close> reads as that float.\<close>

lemma nearest_law:
  assumes k: "k \<le> 253" "k \<noteq> 0 \<Longrightarrow> 2 ^ 23 \<le> m" and m: "m < 2 ^ 24"
    and lo: "10 * (m * 2 ^ k * Q) < 10 * (P * 2 ^ 149) + 2 ^ k * Q"
    and hi: "10 * (P * 2 ^ 149) < 10 * (m * 2 ^ k * Q) + 2 ^ k * Q" and fin: "k * 2 ^ 23 + m < FLOAT_INF"
  shows "nearest P Q = k * 2 ^ 23 + m"
proof -
  define t where t: "t = P * 2 ^ 149"
  define U where U: "U = 2 ^ k * Q"
  have mU: "m * 2 ^ k * Q = m * U" by (simp add: U)
  have lo': "10 * (m * U) < 10 * t + U" and hi': "10 * t < 10 * (m * U) + U"
    using lo hi unfolding mU t U by simp_all
  have "m * U + U \<le> 2 ^ 24 * U" using m mult_le_mono1 [of "m + 1" "2 ^ 24" U] by simp
  moreover have "2 ^ (k + 24) * Q = 2 ^ 24 * U" by (simp add: U power_add)
  ultimately have up: "t < 2 ^ (k + 24) * Q" using hi' by linarith
  show ?thesis
  proof (cases "k = 0 \<or> 2 ^ (k + 23) * Q \<le> t")
    case True
    then have "bin_exp t Q 253 = k" using k(1) up by (intro bin_exp_unique) auto
    moreover have "rdiv t (Q * 2 ^ k) = m" using lo' hi' by (intro rdiv_unique) (simp_all add: U mult.commute)
    ultimately show ?thesis unfolding nearest_def Let_def t [symmetric] using fin by simp
  next
    case False
    then obtain j where j: "k = Suc j" by (cases k) auto
    then have low: "t < 2 ^ 23 * U" using False by (simp add: U power_add mult_ac)
    have "m = 2 ^ 23"
    proof (rule ccontr)
      assume "m \<noteq> 2 ^ 23"
      then have "2 ^ 23 + 1 \<le> m" using k(2) j by simp
      then have "(2 ^ 23 + 1) * U \<le> m * U" by (rule mult_le_mono1)
      then have "2 ^ 23 * U + U \<le> m * U" unfolding add_mult_distrib by linarith
      with lo' low show False by linarith
    qed
    define V where V: "V = 2 ^ j * Q"
    have UV: "U = 2 * V" by (simp add: U V j)
    have "2 ^ 23 * (2 * V) * 10 < 10 * t + 2 * V" using lo' UV \<open>m = 2 ^ 23\<close> by simp
    then have "2 ^ 23 * V \<le> t" by simp
    then have "bin_exp t Q 253 = j" using k(1) j low UV by (intro bin_exp_unique) (simp_all add: V power_add mult_ac)
    moreover have "rdiv t (Q * 2 ^ j) = 2 ^ 24"
      using lo' low \<open>m = 2 ^ 23\<close> UV by (intro rdiv_unique) (simp_all add: V mult.commute)
    ultimately show ?thesis unfolding nearest_def Let_def t [symmetric] using fin j \<open>m = 2 ^ 23\<close> by simp
  qed
qed

lemma mag_parts:
  assumes "b < FLOAT_INF"
  shows "\<exists>m k. mag b = m * 2 ^ k \<and> b = k * 2 ^ 23 + m \<and> k \<le> 253 \<and> (k \<noteq> 0 \<longrightarrow> 2 ^ 23 \<le> m) \<and> m < 2 ^ 24"
proof (cases "b < 2 ^ 23")
  case True
  then show ?thesis by (intro exI [of _ b] exI [of _ 0]) (simp add: mag_def)
next
  case False
  define e where "e = b div 2 ^ 23"
  have e: "1 \<le> e" "e \<le> 254" "b = e * 2 ^ 23 + b mod 2 ^ 23" "b mod 2 ^ 23 < 2 ^ 23"
    using False assms by (simp_all add: e_def FLOAT_INF_def)
  have "b = (e - 1) * 2 ^ 23 + (2 ^ 23 + b mod 2 ^ 23)"
  proof -
    have "e = (e - 1) + 1" using e(1) by simp
    then have "e * 2 ^ 23 = (e - 1) * 2 ^ 23 + 2 ^ 23" by (metis add_mult_distrib mult_1)
    with e(3) show ?thesis by linarith
  qed
  moreover have "mag b = (2 ^ 23 + b mod 2 ^ 23) * 2 ^ (e - 1)" using False by (simp add: mag_def e_def)
  ultimately show ?thesis using e(2,4) by (intro exI [of _ "2 ^ 23 + b mod 2 ^ 23"] exI [of _ "e - 1"]) simp
qed

lemma mag_bounds:
  assumes "0 < b" "b < FLOAT_INF"
  shows "1 \<le> mag b" "mag b < 2 ^ 277"
proof -
  from mag_parts [OF assms(2)] obtain m k where
    p: "mag b = m * 2 ^ k" "b = k * 2 ^ 23 + m" "k \<le> 253" "k \<noteq> 0 \<longrightarrow> 2 ^ 23 \<le> m" "m < 2 ^ 24" by blast
  have "m \<noteq> 0" using p(2,4) assms(1) by auto
  then show "1 \<le> mag b" using p(1) by (simp add: Suc_le_eq)
  have "m * 2 ^ k < 2 ^ 24 * 2 ^ k" using p(5) by simp
  also have "\<dots> \<le> 2 ^ 24 * 2 ^ 253" using p(3) by (intro mult_le_mono2 power_increasing) simp_all
  finally show "mag b < 2 ^ 277" using p(1) by simp
qed

text \<open>Nine digits: their range, and their distance from the number.\<close>

lemma dec_float_law:
  assumes b: "0 < b" "b < FLOAT_INF" and d: "dec_float b = (D, y)"
  shows "10 ^ 8 \<le> D" "D < 10 ^ 9" "y \<le> 84"
    "2 * 10 ^ 8 * (D * 2 ^ 149 * 10 ^ y) \<le> 2 * 10 ^ 8 * (mag b * 10 ^ 53) + mag b * 10 ^ 53"
    "2 * 10 ^ 8 * (mag b * 10 ^ 53) \<le> 2 * 10 ^ 8 * (D * 2 ^ 149 * 10 ^ y) + mag b * 10 ^ 53"
proof -
  define A z where A: "A = mag b * 10 ^ 53" and z: "z = dec_exp (mag b) 83"
  define B E where B: "B = 2 ^ 149 * 10 ^ z" and E: "E = rdiv A B"
  have "10 ^ 8 * 2 ^ 149 \<le> mag b * 10 ^ 53"
    using mag_bounds(1) [OF b] mult_le_mono1 [of 1 "mag b" "10 ^ 53"] by simp
  note e = dec_exp_law [OF this, of 83, folded z A]
  have lo: "10 ^ 8 * B \<le> A" using e(2) by (simp add: B mult.assoc)
  have hi: "A < 10 ^ 9 * B"
  proof (cases "z < 83")
    case True
    with e(3) show ?thesis by (simp add: B mult_ac)
  next
    case False
    with e(1) have "B = 2 ^ 149 * 10 ^ 83" by (simp add: B)
    then show ?thesis using mag_bounds(2) [OF b] by (simp add: A)
  qed
  have B0: "0 < B" by (simp add: B)
  note r = rdiv_bounds [OF B0, of A, folded E]
  have E1: "10 ^ 8 \<le> E"
  proof (rule ccontr)
    assume "\<not> 10 ^ 8 \<le> E"
    then have "(E + 1) * B \<le> 10 ^ 8 * B" by (intro mult_le_mono1) simp
    then have "E * B + B \<le> 10 ^ 8 * B" unfolding add_mult_distrib by linarith
    with r(2) lo B0 show False by linarith
  qed
  have E2: "E \<le> 10 ^ 9"
  proof (rule ccontr)
    assume "\<not> E \<le> 10 ^ 9"
    then have "(10 ^ 9 + 1) * B \<le> E * B" by (intro mult_le_mono1) simp
    then have "10 ^ 9 * B + B \<le> E * B" unfolding add_mult_distrib by linarith
    with r(1) hi B0 show False by linarith
  qed
  have dz: "if E = 10 ^ 9 then D = 10 ^ 8 \<and> y = z + 1 else D = E \<and> y = z"
    using d unfolding dec_float_def Let_def z [symmetric] A [symmetric] B [symmetric] E [symmetric]
    by (simp split: if_splits)
  have same: "D * 2 ^ 149 * 10 ^ y = E * B" using dz by (simp add: B split: if_splits)
  show "10 ^ 8 \<le> D" using dz E1 by (simp split: if_splits)
  show "D < 10 ^ 9" using dz E2 by (simp split: if_splits)
  show "y \<le> 84" using dz e(1) by (simp split: if_splits)
  show "2 * 10 ^ 8 * (D * 2 ^ 149 * 10 ^ y) \<le> 2 * 10 ^ 8 * (mag b * 10 ^ 53) + mag b * 10 ^ 53"
    unfolding same A [symmetric] using mult_le_mono2 [OF r(1), of "10 ^ 8"] lo by (simp add: algebra_simps)
  show "2 * 10 ^ 8 * (mag b * 10 ^ 53) \<le> 2 * 10 ^ 8 * (D * 2 ^ 149 * 10 ^ y) + mag b * 10 ^ 53"
    unfolding same A [symmetric] using mult_le_mono2 [OF r(2), of "10 ^ 8"] lo by (simp add: algebra_simps)
qed

lemma nearest10_dec_float:
  assumes b: "0 < b" "b < FLOAT_INF" and d: "dec_float b = (D, y)"
  shows "nearest10 D (int y - 53) = b"
proof -
  from mag_parts [OF b(2)] obtain m k where
    p: "mag b = m * 2 ^ k" "b = k * 2 ^ 23 + m" "k \<le> 253" "k \<noteq> 0 \<longrightarrow> 2 ^ 23 \<le> m" "m < 2 ^ 24" by blast
  have close: "nearest P Q = b"
    if z: "0 < Q" "2 * 10 ^ 8 * (P * 2 ^ 149) \<le> 2 * 10 ^ 8 * (mag b * Q) + mag b * Q"
      "2 * 10 ^ 8 * (mag b * Q) \<le> 2 * 10 ^ 8 * (P * 2 ^ 149) + mag b * Q" for P Q
  proof -
    define U t where U: "U = 2 ^ k * Q" and t: "t = P * 2 ^ 149"
    have mU: "mag b * Q = m * U" by (simp add: p(1) U)
    define S where S: "S = m * U"
    have "S \<le> 2 ^ 24 * U" unfolding S using p(5) by simp
    moreover have "0 < U" using z(1) by (simp add: U)
    moreover note z(2,3) [unfolded mU, folded t S]
    ultimately have "10 * S < 10 * t + U" "10 * t < 10 * S + U" by simp_all
    then have "nearest P Q = k * 2 ^ 23 + m"
      using p b(2) by (intro nearest_law) (simp_all add: S U t mult.assoc)
    with p(2) show ?thesis by simp
  qed
  note law = dec_float_law(4,5) [OF b d]
  show ?thesis
  proof (cases "y < 53")
    case True
    let ?Q = "10 ^ (53 - y) :: nat"
    have c: "(10 :: nat) ^ 53 = ?Q * 10 ^ y" using True by (simp flip: power_add)
    have "nearest D ?Q = b"
    proof (rule close)
      show "2 * 10 ^ 8 * (D * 2 ^ 149) \<le> 2 * 10 ^ 8 * (mag b * ?Q) + mag b * ?Q"
        using law(1) unfolding c by (simp flip: add_mult_distrib mult.assoc)
      show "2 * 10 ^ 8 * (mag b * ?Q) \<le> 2 * 10 ^ 8 * (D * 2 ^ 149) + mag b * ?Q"
        using law(2) unfolding c by (simp flip: add_mult_distrib mult.assoc)
    qed simp
    moreover have "nat (53 - int y) = 53 - y" using True by simp
    ultimately show ?thesis using True by (simp add: nearest10_def)
  next
    case False
    have "y = (y - 53) + 53" using False by simp
    then have c: "(10 :: nat) ^ y = 10 ^ (y - 53) * 10 ^ 53" by (metis power_add)
    have "nearest (D * 10 ^ (y - 53)) 1 = b"
    proof (rule close)
      show "2 * 10 ^ 8 * (D * 10 ^ (y - 53) * 2 ^ 149) \<le> 2 * 10 ^ 8 * (mag b * 1) + mag b * 1"
        using law(1) unfolding c by simp
      show "2 * 10 ^ 8 * (mag b * 1) \<le> 2 * 10 ^ 8 * (D * 10 ^ (y - 53) * 2 ^ 149) + mag b * 1"
        using law(2) unfolding c by simp
    qed simp
    moreover have "nat (int y - 53) = y - 53" using False by simp
    ultimately show ?thesis using False by (simp add: nearest10_def)
  qed
qed

lemma dec_length: "10 ^ k \<le> n \<Longrightarrow> n < 10 ^ Suc k \<Longrightarrow> length (dec_nat n) = Suc k"
proof (induction k arbitrary: n)
  case 0
  then show ?case by (subst dec_nat.simps) simp
next
  case (Suc k)
  have "10 ^ k \<le> n div 10" using Suc.prems(1) by (simp add: less_eq_div_iff_mult_less_eq)
  moreover have "n div 10 < 10 ^ Suc k" using Suc.prems(2) by (simp add: div_less_iff_less_mult)
  ultimately have "length (dec_nat (n div 10)) = Suc k" by (rule Suc.IH)
  moreover have "(10 :: nat) \<le> 10 ^ Suc k" using power_increasing [of 1 "Suc k" "10 :: nat"] by simp
  then have "\<not> n < 10" using Suc.prems(1) by linarith
  ultimately show ?case by (subst dec_nat.simps) simp
qed

lemma dec_two_digits: "\<forall>c\<in>set (dec_two n). isdigit c" "dec_two n \<noteq> []" "num_of (dec_two n) = n"
proof -
  have "num_of (48 # dec_nat n) = n" using num_of_dec [of n] by (simp add: num_of_def)
  then show "num_of (dec_two n) = n" by (simp add: dec_two_def)
  show "\<forall>c\<in>set (dec_two n). isdigit c" using dec_digits [of n] by (simp add: dec_two_def isdigit_def)
qed (simp add: dec_two_def)

lemma scan_exp_sci: "no_digit rest \<Longrightarrow>
  scan_exp (101 # (if x < 0 then 45 else 43) # dec_two (nat \<bar>x\<bar>) @ rest) = Some x"
  using take_digits [OF dec_two_digits(1), of rest "nat \<bar>x\<bar>"]
  by (cases "x < 0") (simp_all add: scan_exp_def lower_def scan_sign_def dec_two_digits(2,3) word_le_nat_alt)

text \<open>A number in scientific notation.\<close>

lemma scan_f_sci:
  assumes ds: "\<forall>c\<in>set ds. isdigit c" "length ds = Suc n" and rest: "no_digit rest"
  shows "scan_f ((if neg then [45] else []) @ sci ds x @ rest) =
    Some (of_nat ((if neg then 2 ^ 31 else 0) + nearest10 (num_of ds) (x - int n)))"
proof -
  obtain c cs where c: "ds = c # cs" "length cs = n" using ds(2) by (cases ds) simp_all
  with ds(1) have dc: "isdigit c" "\<forall>c\<in>set cs. isdigit c" by simp_all
  define e where e: "e = 101 # (if x < 0 then 45 else 43) # dec_two (nat \<bar>x\<bar>) @ rest"
  have sci: "sci ds x @ rest = c # 46 # cs @ e" by (simp add: sci_def c e)
  have "\<not> isspace 45" by (simp add: isspace_def)
  with digit_not_space [OF dc(1)]
  have sign: "scan_sign (dropWhile isspace ((if neg then [45] else []) @ sci ds x @ rest)) = (neg, c # 46 # cs @ e)"
    unfolding sci by (simp add: scan_sign_def)
  have "lower c = c" "c \<noteq> 110" "c \<noteq> 105" using dc(1) by (auto simp: isdigit_def lower_def word_le_nat_alt)
  moreover have "\<not> isdigit 46" by (simp add: isdigit_def word_le_nat_alt)
  moreover have "no_digit e" by (simp add: e no_digit_def isdigit_def word_le_nat_alt)
  note take_digits [OF dc(2) this]
  ultimately show ?thesis
    unfolding scan_f_def sign using scan_exp_sci [OF rest, of x, folded e] dc c by (simp add: Let_def)
qed

text \<open>Reading what was written gives the same float, unless it is NaN.\<close>

lemma scan_f_fmt:
  assumes "\<not> unat w mod 2 ^ 31 > FLOAT_INF"
  shows "scan_f (fmt_e8 w @ 35 # rest) = Some w"
proof -
  define b neg where b: "b = unat w mod 2 ^ 31" and neg: "neg = (2 ^ 31 \<le> unat w)"
  have "unat w < 2 ^ 32" using unsigned_less [of w, where ?'a = nat] by simp
  then have "unat w = (if neg then 2 ^ 31 else 0) + b" unfolding b neg by (auto simp: mod_if)
  moreover have "of_nat (unat w) = w" by simp
  ultimately have w: "of_nat ((if neg then 2 ^ 31 else 0) + b) = w" by metis
  have nd: "no_digit (35 # rest)" by (simp add: no_digit_def isdigit_def word_le_nat_alt)
  have s: "(if unat w < 2 ^ 31 then [] else [45]) = (if neg then [45 :: u8] else [])" by (simp add: neg)
  consider (inf) "b = FLOAT_INF" | (zero) "b = 0" | (num) "0 < b" "b < FLOAT_INF"
    using assms by (fold b) linarith
  then show ?thesis
  proof cases
    case inf
    then have "fmt_e8 w = (if neg then [45] else []) @ [105, 110, 102]"
      unfolding fmt_e8_def Let_def b [symmetric] s by simp
    moreover have "of_nat (if neg then 2 ^ 31 + FLOAT_INF else FLOAT_INF) = w" using w inf by (simp split: if_splits)
    ultimately show ?thesis
      by (cases neg) (simp_all add: scan_f_def scan_sign_def isspace_def lower_def word_le_nat_alt Let_def)
  next
    case zero
    then have "fmt_e8 w = (if neg then [45] else []) @ sci (replicate 9 48) 0"
      unfolding fmt_e8_def Let_def b [symmetric] s by (simp add: FLOAT_INF_def)
    moreover have "num_of (replicate 9 48) = 0" by (simp add: num_of_def numeral_eq_Suc)
    moreover have "nearest10 0 (0 - int 8) = 0"
    proof -
      have "bin_exp 0 (10 ^ 8) n = 0" for n by (induction n) simp_all
      then show ?thesis by (simp add: nearest10_def nearest_def rdiv_def)
    qed
    ultimately show ?thesis
      using scan_f_sci [of "replicate 9 48" 8 "35 # rest" neg 0] nd w zero by (simp add: isdigit_def)
  next
    case num
    obtain D y where d: "dec_float b = (D, y)" by (cases "dec_float b")
    have "fmt_e8 w = (if neg then [45] else []) @ sci (dec_nat D) (int y - 45)"
      using num d unfolding fmt_e8_def Let_def b [symmetric] s by simp
    moreover have "length (dec_nat D) = Suc 8"
      using dec_float_law(1,2) [OF num d] by (intro dec_length) simp_all
    moreover have "nearest10 D (int y - 45 - int 8) = b" using nearest10_dec_float [OF num d] by simp
    ultimately show ?thesis
      using scan_f_sci [of "dec_nat D" 8 "35 # rest" neg "int y - 45"] dec_digits [of D] nd w by simp
  qed
qed

section \<open>Length and characters of the texts\<close>

lemma dec_length_le: "n < 10 ^ Suc k \<Longrightarrow> length (dec_nat n) \<le> Suc k"
proof (induction k arbitrary: n)
  case 0
  then show ?case by (subst dec_nat.simps) simp
next
  case (Suc k)
  have "n div 10 < 10 ^ Suc k" using Suc.prems by (simp add: div_less_iff_less_mult)
  from Suc.IH [OF this] show ?case by (subst dec_nat.simps) simp
qed

lemma fmt_d_length: "length (fmt_d w) \<le> 11"
proof -
  note b = sint_greater_eq [of w] sint_less [of w]
  have "length (dec_nat (nat \<bar>sint w\<bar>)) \<le> Suc 9" using b by (intro dec_length_le) simp
  then show ?thesis by (auto simp: fmt_d_def abs_if split: if_splits)
qed

lemma sci_length:
  assumes "length ds = 9" "\<bar>x\<bar> < 100"
  shows "length (sci ds x) \<le> 14"
proof -
  have "length (dec_nat (nat \<bar>x\<bar>)) \<le> Suc 1" using assms(2) by (intro dec_length_le) simp
  moreover have "length (dec_nat (nat \<bar>x\<bar>)) \<le> Suc 0" if "nat \<bar>x\<bar> < 10" using that by (intro dec_length_le) simp
  ultimately show ?thesis using assms(1) by (auto simp: sci_def dec_two_def)
qed

lemma fmt_e8_cases:
  obtains (name) s t where "fmt_e8 w = s @ t" "s \<in> {[], [45]}" "t \<in> {[110, 97, 110], [105, 110, 102]}"
  | (num) s ds x where "fmt_e8 w = s @ sci ds x" "s \<in> {[], [45]}" "length ds = 9" "\<forall>c\<in>set ds. isdigit c" "\<bar>x\<bar> < 100"
proof -
  define b s where b: "b = unat w mod 2 ^ 31" and s: "s = (if unat w < 2 ^ 31 then [] else [45 :: u8])"
  have s2: "s \<in> {[], [45]}" by (simp add: s)
  note f = fmt_e8_def [of w, unfolded Let_def, folded b s]
  consider "b \<ge> FLOAT_INF" | "b = 0" | "0 < b" "b < FLOAT_INF" by linarith
  then show thesis
  proof cases
    case 1
    with f s2 show thesis by (intro name [of s "if b > FLOAT_INF then [110, 97, 110] else [105, 110, 102]"]) auto
  next
    case 2
    with f s2 show thesis by (intro num [of s "replicate 9 48" 0]) (simp_all add: FLOAT_INF_def isdigit_def)
  next
    case 3
    obtain D y where d: "dec_float b = (D, y)" by (cases "dec_float b")
    from dec_float_law(1,2,3) [OF 3 d] dec_length [of 8 D] dec_digits [of D] f 3 d s2
    show thesis by (intro num [of s "dec_nat D" "int y - 45"]) simp_all
  qed
qed

lemma fmt_e8_length: "length (fmt_e8 w) \<le> 15"
proof (cases rule: fmt_e8_cases [of w])
  case (num s ds x)
  with sci_length [of ds x] show ?thesis by auto
qed auto

lemma digit_plain: "isdigit c \<Longrightarrow> c \<notin> {0, 10, 32, 34, 35, 36, 44, 58, 64, 92, 93, 125}"
  by (auto simp: isdigit_def word_le_nat_alt)

text \<open>None of the characters that delimit values in a saved text.\<close>

lemma fmt_d_plain: "c \<in> set (fmt_d w) \<Longrightarrow> c \<notin> {0, 10, 32, 34, 35, 36, 44, 58, 64, 92, 93, 125}"
  using dec_digits digit_plain by (fastforce simp: fmt_d_def split: if_splits)

lemma sci_plain:
  assumes "\<forall>c\<in>set ds. isdigit c" "ds \<noteq> []" "c \<in> set (sci ds x)"
  shows "c \<notin> {0, 10, 32, 34, 35, 36, 44, 58, 64, 92, 93, 125}"
proof -
  have "hd ds \<in> set ds" "set (tl ds) \<subseteq> set ds" using assms(2) by (simp_all add: list.set_sel(2) subsetI)
  then have "isdigit c \<or> c \<in> {46, 101, 45, 43}"
    using assms(1,3) dec_two_digits(1) [of "nat \<bar>x\<bar>"] by (auto simp: sci_def split: if_splits)
  then show ?thesis using digit_plain [of c] by auto
qed

lemma fmt_e8_plain: "c \<in> set (fmt_e8 w) \<Longrightarrow> c \<notin> {0, 10, 32, 34, 35, 36, 44, 58, 64, 92, 93, 125}"
proof (cases rule: fmt_e8_cases [of w])
  case (num s ds x)
  moreover have "ds \<noteq> []" using num(3) by auto
  moreover assume "c \<in> set (fmt_e8 w)"
  ultimately show ?thesis using sci_plain [of ds c x] by auto
qed auto

end
