(* ===== verification/Hash.thy ===== *)
theory Hash
  imports Driver_Prelude
begin

text \<open>
  The string hasher of \<^verbatim>\<open>src/hash.c\<close> (Pearson's method), which places strings in the shared string
  table and objects in the object table.  A C string is the list of its bytes before the terminating
  NUL, so \<^verbatim>\<open>*p\<close> is false exactly at the end of the list.
\<close>

definition T :: "u8 list" where
  "T = [
     1, 87, 49, 12, 176, 178, 102, 166, 121, 193, 6, 84, 249, 230, 44, 163,
     14, 197, 213, 181, 161, 85, 218, 80, 64, 239, 24, 226, 236, 142, 38, 200,
     110, 177, 104, 103, 141, 253, 255, 50, 77, 101, 81, 18, 45, 96, 31, 222,
     25, 107, 190, 70, 86, 237, 240, 34, 72, 242, 20, 214, 244, 227, 149, 235,
     97, 234, 57, 22, 60, 250, 82, 175, 208, 5, 127, 199, 111, 62, 135, 248,
     174, 169, 211, 58, 66, 154, 106, 195, 245, 171, 17, 187, 182, 179, 0, 243,
     132, 56, 148, 75, 128, 133, 158, 100, 130, 126, 91, 13, 153, 246, 216, 219,
     119, 68, 223, 78, 83, 88, 201, 99, 122, 11, 92, 32, 136, 114, 52, 10,
     138, 30, 48, 183, 156, 35, 61, 26, 143, 74, 251, 94, 129, 162, 63, 152,
     170, 7, 115, 167, 241, 206, 3, 150, 55, 59, 151, 220, 90, 53, 23, 131,
     125, 173, 15, 238, 79, 95, 89, 16, 105, 137, 225, 224, 217, 160, 37, 123,
     118, 73, 2, 157, 46, 116, 9, 145, 134, 228, 207, 212, 202, 215, 69, 229,
     27, 188, 67, 124, 168, 252, 42, 4, 29, 108, 21, 247, 19, 205, 39, 203,
     233, 40, 186, 147, 198, 192, 155, 33, 164, 191, 98, 204, 165, 180, 117, 76,
     140, 36, 210, 172, 41, 54, 159, 8, 185, 232, 113, 196, 231, 47, 146, 120,
     51, 65, 28, 144, 254, 221, 93, 189, 194, 139, 112, 43, 71, 109, 184, 209]"

text \<open>\<^verbatim>\<open>T[h ^ c]\<close>; both are below 256, so the index is within the table.\<close>

definition T_step :: "u8 \<Rightarrow> u8 \<Rightarrow> u8" where
  "T_step h c = T ! unat (h XOR c)"

text \<open>\<^verbatim>\<open>for (i = maxn; p[1] && --i; p++)\<close>.\<close>

fun hashstr16_loop :: "int \<Rightarrow> u8 list \<Rightarrow> u8 \<Rightarrow> u8 \<Rightarrow> u8 \<times> u8" where
  "hashstr16_loop i (a # b # p) h1 h2 =
     (if i - 1 \<noteq> 0 then hashstr16_loop (i - 1) (b # p) (T_step h1 a) (T_step h2 b) else (h1, h2))"
| "hashstr16_loop i p h1 h2 = (h1, h2)"

definition hashstr16 :: "u8 list \<Rightarrow> int \<Rightarrow> u32" where
  "hashstr16 s maxn =
     (case s of
        [] \<Rightarrow> 0
      | a # _ \<Rightarrow> (let (h1, h2) = hashstr16_loop maxn s 0 a
                  in push_bit 8 (ucast h1) OR ucast h2))"

text \<open>\<^verbatim>\<open>for (i = maxn; *p && --i >= 0; p++)\<close>.\<close>

fun hashstr_loop :: "int \<Rightarrow> u8 list \<Rightarrow> u8 \<Rightarrow> u8" where
  "hashstr_loop i (c # p) h = (if i - 1 \<ge> 0 then hashstr_loop (i - 1) p (T_step h c) else h)"
| "hashstr_loop i [] h = h"

text \<open>\<^verbatim>\<open>(unsigned short) h % (unsigned) hashs\<close>; a zero table size is a division by zero.\<close>

definition hashstr :: "u8 list \<Rightarrow> int \<Rightarrow> int \<Rightarrow> int option" where
  "hashstr s maxn hashs =
     (let h = (if hashs \<le> 256 then ucast (hashstr_loop maxn s 0) else hashstr16 s maxn) :: u32;
          m = (of_int hashs :: u32)
      in if m = 0 then None else Some (uint ((ucast (ucast h :: u16) :: u32) mod m)))"

section \<open>The table is a permutation\<close>

lemma length_T [simp]: "length T = 256"
  by (simp add: T_def)

lemma T_sorted: "sort (map uint T) = map int [0..<256]"
  unfolding T_def by code_simp

lemma T_distinct: "distinct T"
proof -
  have "distinct (sort (map uint T))" unfolding T_sorted by (simp add: distinct_map)
  then show ?thesis by (simp add: distinct_map)
qed

lemma unat8_lt: "unat (x :: u8) < 256"
  using unsigned_less [of x, where ?'a = nat] by simp

lemma uint8_lt: "uint (x :: u8) < 256"
  using unsigned_less [of x, where ?'a = int] by simp

lemma uint_size: "0 \<le> n \<Longrightarrow> n < 2 ^ 31 \<Longrightarrow> uint (of_int n :: u32) = n"
  by (simp add: unsigned_of_int take_bit_int_eq_self)

lemma T_step_inj:
  "T_step h c = T_step h' c \<longleftrightarrow> h = h'" "T_step h c = T_step h c' \<longleftrightarrow> c = c'"
proof -
  have T: "T ! unat x = T ! unat y \<longleftrightarrow> x = y" for x y :: u8
    using nth_eq_iff_index_eq [OF T_distinct, of "unat x" "unat y"] unat8_lt [of x] unat8_lt [of y]
    by (simp add: word_unat_eq_iff [of x])
  have x: "a XOR c = b XOR c \<longleftrightarrow> a = b" for a b c :: u8
    by (metis xor.assoc xor_self_eq xor.right_neutral)
  show "T_step h c = T_step h' c \<longleftrightarrow> h = h'" "T_step h c = T_step h c' \<longleftrightarrow> c = c'"
    using x [of h c h'] x [of c h c'] by (simp_all add: T_step_def T xor.commute)
qed

text \<open>The loop folds the table over the first \<open>maxn\<close> bytes.\<close>

lemma hashstr_loop_fold: "hashstr_loop i p h = foldl T_step h (take (nat i) p)"
proof (induction i p h rule: hashstr_loop.induct)
  case (1 i c p h)
  show ?case
  proof (cases "i - 1 \<ge> 0")
    case True
    then have "nat i = Suc (nat (i - 1))" by simp
    with 1 True show ?thesis by simp
  qed simp
qed simp

lemma foldl_inj:
  assumes "\<And>x y c. f x c = f y c \<longleftrightarrow> x = y"
  shows "foldl f x cs = foldl f y cs \<longleftrightarrow> x = y"
  using assms by (induction cs arbitrary: x y) simp_all

lemma ucast_short: "uint (ucast (ucast (ucast x :: u32) :: u16) :: u32) = uint x" for x :: u8
  using uint8_lt [of x] by (simp add: unsigned_ucast_eq take_bit_int_eq_self unsigned_take_bit_eq)

lemma hashstr_small:
  assumes "0 < n" "n \<le> 256"
  shows "hashstr s maxn n = Some (uint (hashstr_loop maxn s 0) mod n)"
proof -
  have lt: "uint (hashstr_loop maxn s 0) < 256" by (rule uint8_lt)
  have n: "uint (of_int n :: u32) = n" using assms by (simp add: uint_size)
  then have "(of_int n :: u32) \<noteq> 0" using assms by auto
  moreover have "uint (ucast (ucast (ucast (hashstr_loop maxn s 0) :: u32) :: u16) :: u32) = uint (hashstr_loop maxn s 0)"
    by (rule ucast_short)
  ultimately show ?thesis using assms n by (simp add: hashstr_def uint_mod)
qed

section \<open>Properties\<close>

text \<open>The hash is always a valid index of a table of the given size.\<close>

lemma hashstr_in_table:
  assumes "0 < hashs" "hashs < 2 ^ 31"
  shows "\<exists>h. hashstr s maxn hashs = Some h \<and> 0 \<le> h \<and> h < hashs"
proof -
  let ?m = "of_int hashs :: u32"
  have m: "uint ?m = hashs" using assms by (simp add: uint_size)
  then have "?m \<noteq> 0" using assms by auto
  moreover have "uint (x mod ?m) < hashs" for x using assms m by (simp add: uint_mod)
  ultimately show ?thesis by (simp add: hashstr_def Let_def)
qed

text \<open>In a table of 256 slots, strings that differ in exactly one of the bytes looked at never collide.\<close>

lemma hashstr_one_byte:
  assumes "a \<noteq> b" "int (length xs) < maxn"
  shows "hashstr (xs @ a # ys) maxn 256 \<noteq> hashstr (xs @ b # ys) maxn 256"
proof -
  obtain k where k: "nat maxn - length xs = Suc k" using assms(2) by (cases "nat maxn - length xs") auto
  have "take (nat maxn) (xs @ c # ys) = xs @ c # take k ys" for c
    using k by (simp add: take_Cons')
  then have "hashstr_loop maxn (xs @ a # ys) 0 \<noteq> hashstr_loop maxn (xs @ b # ys) 0"
    using assms(1) by (simp add: hashstr_loop_fold foldl_inj T_step_inj)
  moreover have "uint x mod 256 = uint x" for x :: u8 using uint8_lt [of x] by simp
  ultimately show ?thesis by (simp add: hashstr_small word_uint_eq_iff)
qed

end
