(* ===== verification/Svalue.thy ===== *)
theory Svalue
  imports Hash
begin

text \<open>
  LPC values (\<^verbatim>\<open>struct svalue\<close> of \<^verbatim>\<open>src/interpret.h\<close>) and the comparison and hash functions on them
  (\<^verbatim>\<open>equal_svalue\<close> of \<^verbatim>\<open>src/inline_eqs.h\<close>, \<^verbatim>\<open>hashsvalue\<close> of \<^verbatim>\<open>src/mapping.c\<close>).

  Arrays, mappings, objects and functions are compared by address.  Numbers are \<^verbatim>\<open>int\<close> and floats
  \<^verbatim>\<open>float\<close>, both 32 bits wide and sharing the union, so a float is its bit pattern.  Whether an object is
  destructed and whether a function is still legal is the state \<open>objs\<close> of the object table.
\<close>

datatype sval =
    T_NUMBER u32
  | T_STRING "u8 list"
  | T_POINTER nat
  | T_OBJECT nat
  | T_MAPPING nat
  | T_FLOAT u32
  | T_FUNCTION nat

definition const0 :: sval where "const0 = T_NUMBER 0"

definition const1 :: sval where "const1 = T_NUMBER 1"

record objs =
  destructed :: "nat \<Rightarrow> bool"
  legal_closure :: "nat \<Rightarrow> bool"

text \<open>\<^verbatim>\<open>==\<close> on IEEE single precision values.\<close>

definition float_nan :: "u32 \<Rightarrow> bool" where
  "float_nan x \<longleftrightarrow> 0x7F800000 < x AND 0x7FFFFFFF"

definition float_zero :: "u32 \<Rightarrow> bool" where
  "float_zero x \<longleftrightarrow> x AND 0x7FFFFFFF = 0"

definition float_eq :: "u32 \<Rightarrow> u32 \<Rightarrow> bool" where
  "float_eq a b \<longleftrightarrow> \<not> float_nan a \<and> \<not> float_nan b \<and> (a = b \<or> float_zero a \<and> float_zero b)"

definition is_zero :: "sval \<Rightarrow> bool" where
  "is_zero v \<longleftrightarrow> v = T_NUMBER 0"

definition is_destructed :: "objs \<Rightarrow> sval \<Rightarrow> bool" where
  "is_destructed H v \<longleftrightarrow> (case v of T_OBJECT a \<Rightarrow> destructed H a | _ \<Rightarrow> False)"

definition is_illegal :: "objs \<Rightarrow> sval \<Rightarrow> bool" where
  "is_illegal H v \<longleftrightarrow> (case v of T_FUNCTION a \<Rightarrow> \<not> legal_closure H a | _ \<Rightarrow> False)"

fun same_svalue :: "objs \<Rightarrow> sval \<Rightarrow> sval \<Rightarrow> bool" where
  "same_svalue H (T_NUMBER a) (T_NUMBER b) \<longleftrightarrow> a = b"
| "same_svalue H (T_POINTER a) (T_POINTER b) \<longleftrightarrow> a = b"
| "same_svalue H (T_MAPPING a) (T_MAPPING b) \<longleftrightarrow> a = b"
| "same_svalue H (T_STRING a) (T_STRING b) \<longleftrightarrow> a = b"
| "same_svalue H (T_OBJECT a) (T_OBJECT b) \<longleftrightarrow> destructed H a \<and> destructed H b \<or> a = b"
| "same_svalue H (T_FLOAT a) (T_FLOAT b) \<longleftrightarrow> float_eq a b"
| "same_svalue H (T_FUNCTION a) (T_FUNCTION b) \<longleftrightarrow> a = b"
| "same_svalue H _ _ \<longleftrightarrow> False"

text \<open>The third and the fourth test of the C code are the same test.\<close>

definition equal_svalue :: "objs \<Rightarrow> sval \<Rightarrow> sval \<Rightarrow> bool" where
  "equal_svalue H v1 v2 \<longleftrightarrow>
     (if is_zero v1 \<and> is_destructed H v2 then True
      else if is_zero v2 \<and> is_destructed H v1 then True
      else if is_zero v2 \<and> is_illegal H v1 then True
      else if is_zero v2 \<and> is_illegal H v1 then True
      else same_svalue H v1 v2)"

fun hashsvalue :: "sval \<Rightarrow> u16" where
  "hashsvalue (T_NUMBER n) = ucast n"
| "hashsvalue (T_POINTER a) = of_nat (a div 16)"
| "hashsvalue (T_MAPPING a) = of_nat (a div 16)"
| "hashsvalue (T_STRING s) = ucast (hashstr16 s 20)"
| "hashsvalue (T_OBJECT a) = of_nat (a div 16)"
| "hashsvalue (T_FLOAT r) = ucast r"
| "hashsvalue (T_FUNCTION a) = 0"

section \<open>Keys that behave\<close>

text \<open>
  Destructed objects, dead functions, the float NaN and the negative float zero compare unlike the values
  they are; every other value equals only itself.
\<close>

definition good_key :: "objs \<Rightarrow> sval \<Rightarrow> bool" where
  "good_key H k \<longleftrightarrow> \<not> is_destructed H k \<and> \<not> is_illegal H k \<and>
     (case k of T_FLOAT r \<Rightarrow> \<not> float_nan r \<and> r \<noteq> 0x80000000 | _ \<Rightarrow> True)"

lemma float_zero_cases: "float_zero r \<Longrightarrow> r = 0 \<or> r = 0x80000000"
proof -
  assume z: "float_zero r"
  have m: "(0x7FFFFFFF :: u32) = mask 31" by (simp add: mask_eq_exp_minus_1)
  have "take_bit 31 r = 0" using z unfolding float_zero_def m take_bit_eq_mask .
  then have "take_bit 31 (uint r) = 0" by (metis unsigned_take_bit_eq unsigned_0)
  then have "2 ^ 31 dvd uint r" by (simp add: take_bit_eq_0_iff)
  then obtain q where q: "uint r = 2 ^ 31 * q" by blast
  moreover have "0 \<le> uint r" "uint r < 2 ^ 32" using unsigned_less [of r, where ?'a = int] by simp_all
  ultimately have "q = 0 \<or> q = 1" by auto
  then show ?thesis using q by (auto simp: word_uint_eq_iff)
qed

lemma equal_good:
  assumes "good_key H a" "good_key H b"
  shows "equal_svalue H a b \<longleftrightarrow> a = b"
proof -
  have "same_svalue H a b \<longleftrightarrow> a = b"
    using assms float_zero_cases
    by (cases a; cases b) (auto simp: good_key_def is_destructed_def float_eq_def)
  with assms show ?thesis by (simp add: equal_svalue_def good_key_def)
qed

text \<open>The contract of a key type towards a hash table, and its instance.\<close>

locale hash_keys =
  fixes good :: "'k \<Rightarrow> bool" and eq :: "'k \<Rightarrow> 'k \<Rightarrow> bool" and hash :: "'k \<Rightarrow> 'h"
  assumes eq_refl: "good k \<Longrightarrow> eq k k"
    and eq_sym: "good k \<Longrightarrow> good l \<Longrightarrow> eq k l \<Longrightarrow> eq l k"
    and eq_trans: "good k \<Longrightarrow> good l \<Longrightarrow> good n \<Longrightarrow> eq k l \<Longrightarrow> eq l n \<Longrightarrow> eq k n"
    and eq_hash: "good k \<Longrightarrow> good l \<Longrightarrow> eq k l \<Longrightarrow> hash k = hash l"
begin

text \<open>A chain is searched by comparing the cached hash first; on good keys that changes nothing.\<close>

lemma find_by_hash:
  assumes "good k" "\<forall>p\<in>set ps. good (fst p) \<and> fst (snd p) = hash (fst p)"
  shows "find (\<lambda>p. fst (snd p) = hash k \<and> eq k (fst p)) ps = find (\<lambda>p. eq k (fst p)) ps"
  using assms(2)
proof (induction ps)
  case (Cons p ps)
  then show ?case using eq_hash [OF assms(1), of "fst p"] by auto
qed simp

end

interpretation sv: hash_keys "good_key H" "equal_svalue H" hashsvalue for H
  by unfold_locales (simp_all add: equal_good)

end
