(* ===== verification/Lpc_Mapping.thy ===== *)
theory Lpc_Mapping
  imports Svalue "HOL-Library.Signed_Division" "HOL-Library.Multiset"
begin

text \<open>
  LPC mappings (\<^verbatim>\<open>src/mapping.c\<close>): hash tables with chained pairs that double when they fill up.

  A mapping is the record of \<^verbatim>\<open>struct mapping\<close>; its \<^verbatim>\<open>pairs\<close> are the chains in order.  The reference
  count and the two statistics counters are left out.  A pointer to the value of a pair, which
  \<^verbatim>\<open>get_map_lvalue\<close> returns, is the key it was obtained for: until the next operation it denotes the pair the
  search for that key finds.  \<^verbatim>\<open>error()\<close> does not return, so an operation that may call it yields a sum:
  \<open>Inl\<close> carries the mapping as the error left it.
\<close>

section \<open>The table\<close>

definition MAX_MAPPING_SIZE :: nat where "MAX_MAPPING_SIZE = 5000"

definition MAX_ARRAY_SIZE :: nat where "MAX_ARRAY_SIZE = 5000"

definition FSIZE :: "nat \<Rightarrow> nat" where "FSIZE s = s * 250 div 100"

text \<open>Conversion to \<^verbatim>\<open>short\<close>.\<close>

definition short :: "int \<Rightarrow> int" where "short x = (x + 2 ^ 15) mod 2 ^ 16 - 2 ^ 15"

record apair =
  p_arg :: sval
  p_val :: sval
  p_hashval :: u16

record lpc_map =
  m_size :: nat
  m_card :: int
  m_mcard :: int
  m_pairs :: "apair list list"

text \<open>The loop of \<^verbatim>\<open>allocate_map\<close>.\<close>

function map_size_loop :: "nat \<Rightarrow> nat \<Rightarrow> nat" where
  "map_size_loop sz u = (if u \<noteq> 0 \<and> sz < MAX_MAPPING_SIZE then map_size_loop (2 * sz) (u div 2) else sz)"
  by pat_completeness auto

termination
  by (relation "measure snd") auto

definition allocate_map :: "int \<Rightarrow> lpc_map" where
  "allocate_map msize =
     (let sz = map_size_loop 1 (nat ((short msize * 100) sdiv 250 mod 2 ^ 32))
      in \<lparr>m_size = sz, m_card = 0, m_mcard = short (int (FSIZE sz)), m_pairs = replicate sz []\<rparr>)"

definition card_mapping :: "lpc_map \<Rightarrow> int" where
  "card_mapping m = m_card m"

definition newpair :: "apair list \<Rightarrow> sval \<Rightarrow> sval \<Rightarrow> u16 \<Rightarrow> apair list" where
  "newpair n k v h = \<lparr>p_arg = k, p_val = v, p_hashval = h\<rparr> # n"

definition map_slot :: "u16 \<Rightarrow> nat \<Rightarrow> nat" where
  "map_slot h sz = unat (h AND (of_nat sz - 1))"

text \<open>The chains of \<^verbatim>\<open>rehash_map\<close>: every pair is moved to the front of its new chain.\<close>

fun rehash_loop :: "nat \<Rightarrow> apair list \<Rightarrow> apair list list \<Rightarrow> apair list list" where
  "rehash_loop nsize [] pairs = pairs"
| "rehash_loop nsize (p # ps) pairs =
     (let hval = map_slot (p_hashval p) nsize
      in rehash_loop nsize ps (pairs[hval := p # pairs ! hval]))"

definition rehash_map :: "lpc_map \<Rightarrow> lpc_map + lpc_map" where
  "rehash_map m =
     (let nsize = m_size m * 2
      in if nsize > MAX_MAPPING_SIZE then Inl m
         else Inr (m\<lparr>m_pairs := rehash_loop nsize (concat (take (m_size m) (m_pairs m))) (replicate nsize []),
                     m_size := nsize, m_mcard := short (int (FSIZE nsize))\<rparr>))"

section \<open>Access\<close>

definition pair_matches :: "objs \<Rightarrow> sval \<Rightarrow> apair \<Rightarrow> bool" where
  "pair_matches H k p \<longleftrightarrow> p_hashval p = hashsvalue k \<and> equal_svalue H k (p_arg p)"

definition map_chain :: "lpc_map \<Rightarrow> sval \<Rightarrow> apair list" where
  "map_chain m k = m_pairs m ! map_slot (hashsvalue k) (m_size m)"

definition map_find :: "objs \<Rightarrow> lpc_map \<Rightarrow> sval \<Rightarrow> apair option" where
  "map_find H m k = find (pair_matches H k) (map_chain m k)"

text \<open>What \<^verbatim>\<open>get_map_lvalue\<close> points to: the value of a pair, or the dummy \<^verbatim>\<open>const0\<close>.\<close>

datatype map_lval = Dummy | Slot sval

definition get_map_lvalue :: "objs \<Rightarrow> lpc_map \<Rightarrow> sval \<Rightarrow> bool \<Rightarrow> lpc_map + (lpc_map \<times> map_lval)" where
  "get_map_lvalue H m k c =
     (let h16 = hashsvalue k; h = map_slot h16 (m_size m)
      in case map_find H m k of
           Some p \<Rightarrow> Inr (m, Slot k)
         | None \<Rightarrow>
             (if c
              then (let m1 = m\<lparr>m_pairs := (m_pairs m)[h := newpair (m_pairs m ! h) k const0 h16],
                               m_card := short (m_card m + 1)\<rparr>
                    in if m_card m1 > m_mcard m1
                       then (case rehash_map m1 of Inl m2 \<Rightarrow> Inl m2 | Inr m2 \<Rightarrow> Inr (m2, Slot k))
                       else Inr (m1, Slot k))
              else Inr (m, Dummy)))"

text \<open>Reading and assigning through the pointer.\<close>

definition read_lval :: "objs \<Rightarrow> lpc_map \<Rightarrow> map_lval \<Rightarrow> sval" where
  "read_lval H m l =
     (case l of Dummy \<Rightarrow> const0
      | Slot k \<Rightarrow> (case map_find H m k of None \<Rightarrow> const0 | Some p \<Rightarrow> p_val p))"

fun assign_chain :: "objs \<Rightarrow> sval \<Rightarrow> sval \<Rightarrow> apair list \<Rightarrow> apair list" where
  "assign_chain H k v [] = []"
| "assign_chain H k v (p # ps) =
     (if pair_matches H k p then p\<lparr>p_val := v\<rparr> # ps else p # assign_chain H k v ps)"

definition assign_lval :: "objs \<Rightarrow> lpc_map \<Rightarrow> map_lval \<Rightarrow> sval \<Rightarrow> lpc_map" where
  "assign_lval H m l v =
     (case l of Dummy \<Rightarrow> m
      | Slot k \<Rightarrow> (let h = map_slot (hashsvalue k) (m_size m)
                  in m\<lparr>m_pairs := (m_pairs m)[h := assign_chain H k v (m_pairs m ! h)]\<rparr>))"

text \<open>\<^verbatim>\<open>assign_svalue(get_map_lvalue(m, k, 1), v)\<close>, and a loop of such assignments.\<close>

definition map_put :: "objs \<Rightarrow> lpc_map \<Rightarrow> sval \<Rightarrow> sval \<Rightarrow> lpc_map + lpc_map" where
  "map_put H m k v =
     (case get_map_lvalue H m k True of Inl m' \<Rightarrow> Inl m' | Inr (m', l) \<Rightarrow> Inr (assign_lval H m' l v))"

fun map_puts :: "objs \<Rightarrow> lpc_map \<Rightarrow> (sval \<times> sval) list \<Rightarrow> lpc_map + lpc_map" where
  "map_puts H m [] = Inr m"
| "map_puts H m (kv # kvs) =
     (case map_put H m (fst kv) (snd kv) of Inl m' \<Rightarrow> Inl m' | Inr m' \<Rightarrow> map_puts H m' kvs)"

definition map_get :: "objs \<Rightarrow> lpc_map \<Rightarrow> sval \<Rightarrow> sval" where
  "map_get H m k =
     (case get_map_lvalue H m k False of Inl m' \<Rightarrow> const0 | Inr (m', l) \<Rightarrow> read_lval H m' l)"

section \<open>Whole-mapping operations\<close>

text \<open>The pairs in the order of the nested loops over the chains.\<close>

definition map_items :: "lpc_map \<Rightarrow> (sval \<times> sval) list" where
  "map_items m = map (\<lambda>p. (p_arg p, p_val p)) (concat (take (m_size m) (m_pairs m)))"

definition allocate_check :: "int \<Rightarrow> bool" where
  "allocate_check n \<longleftrightarrow> 0 \<le> n \<and> n \<le> int MAX_ARRAY_SIZE"

text \<open>The arrays are as long as the cardinality; storing more items than that would be a write out of
  bounds, and slots that are not stored to hold 0.\<close>

definition fill_array :: "int \<Rightarrow> sval list \<Rightarrow> sval list option" where
  "fill_array cnt xs =
     (if allocate_check cnt \<and> length xs \<le> nat cnt then Some (xs @ replicate (nat cnt - length xs) const0) else None)"

definition map_domain :: "lpc_map \<Rightarrow> sval list option" where
  "map_domain m = fill_array (m_card m) (map fst (map_items m))"

definition map_codomain :: "lpc_map \<Rightarrow> sval list option" where
  "map_codomain m = fill_array (m_card m) (map snd (map_items m))"

definition num_sval :: "nat \<Rightarrow> sval" where
  "num_sval i = T_NUMBER (of_nat i)"

definition make_mapping :: "objs \<Rightarrow> sval list option \<Rightarrow> sval list option \<Rightarrow> lpc_map + lpc_map" where
  "make_mapping H ind val =
     (case (ind, val) of
        (Some is, Some vs) \<Rightarrow>
          map_puts H (allocate_map (min (int (length is)) (int (length vs)))) (zip is vs)
      | (Some is, None) \<Rightarrow>
          map_puts H (allocate_map (int (length is))) (zip is (map num_sval [0..<length is]))
      | (None, Some vs) \<Rightarrow>
          map_puts H (allocate_map (int (length vs))) (zip (map num_sval [0..<length vs]) vs)
      | (None, None) \<Rightarrow> Inr (allocate_map 0))"

definition add_mapping :: "objs \<Rightarrow> lpc_map \<Rightarrow> lpc_map \<Rightarrow> lpc_map + lpc_map" where
  "add_mapping H m1 m2 =
     (case map_puts H (allocate_map (m_card m1 + m_card m2)) (map_items m1) of
        Inl r \<Rightarrow> Inl r | Inr r \<Rightarrow> map_puts H r (map_items m2))"

definition addto_mapping :: "objs \<Rightarrow> lpc_map \<Rightarrow> lpc_map \<Rightarrow> lpc_map + lpc_map" where
  "addto_mapping H m1 m2 = map_puts H m1 (map_items m2)"

text \<open>Only the chain the removed key hashes to is compared with it.\<close>

definition remove_mapping :: "objs \<Rightarrow> lpc_map \<Rightarrow> sval \<Rightarrow> lpc_map + lpc_map" where
  "remove_mapping H m val =
     (let h = map_slot (hashsvalue val) (m_size m);
          kept = concat (map (\<lambda>i. map (\<lambda>p. (p_arg p, p_val p))
                   (if h = i then filter (\<lambda>p. \<not> equal_svalue H val (p_arg p)) (m_pairs m ! i)
                    else m_pairs m ! i)) [0..<m_size m])
      in map_puts H (allocate_map (int (m_size m))) kept)"

text \<open>Copying pushes the pairs of a chain one after the other, which reverses it.\<close>

definition copy_mapping :: "lpc_map \<Rightarrow> lpc_map" where
  "copy_mapping m = m\<lparr>m_pairs := map (\<lambda>c. foldl (\<lambda>q p. newpair q (p_arg p) (p_val p) (p_hashval p)) [] c) (m_pairs m)\<rparr>"

text \<open>The closure is a function on the state of the game.\<close>

fun map_chain_loop :: "('w \<Rightarrow> sval \<Rightarrow> sval \<times> 'w) \<Rightarrow> 'w \<Rightarrow> apair list \<Rightarrow> apair list \<times> 'w" where
  "map_chain_loop f w [] = ([], w)"
| "map_chain_loop f w (p # ps) =
     (let (v, w1) = f w (p_val p); (ps', w2) = map_chain_loop f w1 ps in (p\<lparr>p_val := v\<rparr> # ps', w2))"

fun map_table_loop :: "('w \<Rightarrow> apair list \<Rightarrow> apair list \<times> 'w) \<Rightarrow> 'w \<Rightarrow> apair list list \<Rightarrow> apair list list \<times> 'w" where
  "map_table_loop f w [] = ([], w)"
| "map_table_loop f w (c # cs) =
     (let (c', w1) = f w c; (cs', w2) = map_table_loop f w1 cs in (c' # cs', w2))"

definition map_map :: "('w \<Rightarrow> sval \<Rightarrow> sval \<times> 'w) \<Rightarrow> 'w \<Rightarrow> lpc_map \<Rightarrow> lpc_map \<times> 'w" where
  "map_map f w m =
     (let r = copy_mapping m; (ps, w') = map_table_loop (map_chain_loop f) w (m_pairs r)
      in (r\<lparr>m_pairs := ps\<rparr>, w'))"

fun filter_chain_loop :: "('w \<Rightarrow> sval \<Rightarrow> sval \<times> 'w) \<Rightarrow> 'w \<Rightarrow> apair list \<Rightarrow> apair list \<times> 'w" where
  "filter_chain_loop f w [] = ([], w)"
| "filter_chain_loop f w (p # ps) =
     (let (v, w1) = f w (p_val p); (ps', w2) = filter_chain_loop f w1 ps
      in (if v = T_NUMBER 0 then ps' else p # ps', w2))"

definition filter_map :: "('w \<Rightarrow> sval \<Rightarrow> sval \<times> 'w) \<Rightarrow> 'w \<Rightarrow> lpc_map \<Rightarrow> lpc_map \<times> 'w" where
  "filter_map f w m =
     (let r = copy_mapping m; (ps, w') = map_table_loop (filter_chain_loop f) w (m_pairs r);
          gone = length (concat (m_pairs r)) - length (concat ps)
      in (r\<lparr>m_pairs := ps, m_card := short (m_card r - int gone)\<rparr>, w'))"

lemma distinct_concat_map:
  assumes "\<And>c. c \<in> set ps \<Longrightarrow> distinct (map f c)"
    "\<And>i j x y. i < length ps \<Longrightarrow> j < length ps \<Longrightarrow> x \<in> set (ps ! i) \<Longrightarrow> y \<in> set (ps ! j) \<Longrightarrow> f x = f y \<Longrightarrow> i = j"
  shows "distinct (map f (concat ps))"
  using assms
proof (induction ps)
  case (Cons c ps)
  have "f x \<noteq> f y" if "x \<in> set c" "y \<in> set (concat ps)" for x y
  proof
    assume "f x = f y"
    from that(2) obtain j where "j < length ps" "y \<in> set (ps ! j)" by (metis in_set_conv_nth set_concat UN_iff)
    with Cons.prems(2) [of 0 "Suc j" x y] that(1) \<open>f x = f y\<close> show False by simp
  qed
  moreover have "distinct (map f (concat ps))"
  proof (rule Cons.IH)
    show "distinct (map f d)" if "d \<in> set ps" for d using Cons.prems(1) that by simp
    show "i = j" if "i < length ps" "j < length ps" "x \<in> set (ps ! i)" "y \<in> set (ps ! j)" "f x = f y" for i j x y
      using Cons.prems(2) [of "Suc i" "Suc j" x y] that by simp
  qed
  ultimately show ?case using Cons.prems(1) by (force simp: image_iff)
qed simp

section \<open>The interface of a table\<close>

text \<open>A loop of fallible insertions stops at the first error.\<close>

fun puts_all :: "('m \<Rightarrow> 'k \<Rightarrow> 'v \<Rightarrow> 'e + 'm) \<Rightarrow> 'm \<Rightarrow> ('k \<times> 'v) list \<Rightarrow> 'e + 'm" where
  "puts_all put m [] = Inr m"
| "puts_all put m (kv # kvs) =
     (case put m (fst kv) (snd kv) of Inl e \<Rightarrow> Inl e | Inr m' \<Rightarrow> puts_all put m' kvs)"

locale assoc_table =
  fixes invar :: "'m \<Rightarrow> bool" and look :: "'m \<Rightarrow> 'k \<rightharpoonup> 'v" and count :: "'m \<Rightarrow> nat"
    and good :: "'k \<Rightarrow> bool" and limit :: nat and put :: "'m \<Rightarrow> 'k \<Rightarrow> 'v \<Rightarrow> 'e + 'm"
  assumes put_law: "invar m \<Longrightarrow> good k \<Longrightarrow> count m < limit \<Longrightarrow>
      \<exists>m'. put m k v = Inr m' \<and> invar m' \<and> look m' = (look m)(k \<mapsto> v)"
    and count_law: "invar m \<Longrightarrow> finite (dom (look m)) \<and> count m = card (dom (look m))"
begin

lemma puts_law:
  assumes "invar m" "\<forall>kv\<in>set kvs. good (fst kv)" "count m + length kvs \<le> limit"
  shows "\<exists>m'. puts_all put m kvs = Inr m' \<and> invar m' \<and> look m' = look m ++ map_of (rev kvs)"
  using assms
proof (induction kvs arbitrary: m)
  case (Cons kv kvs)
  from Cons.prems put_law [of m "fst kv" "snd kv"] obtain m1 where
    m1: "put m (fst kv) (snd kv) = Inr m1" "invar m1" "look m1 = (look m)(fst kv \<mapsto> snd kv)" by auto
  have "card (dom (look m1)) \<le> Suc (card (dom (look m)))"
    unfolding m1(3) using count_law [OF Cons.prems(1)] by (simp add: card_insert_if)
  then have "count m1 + length kvs \<le> limit"
    using Cons.prems(3) count_law [OF Cons.prems(1)] count_law [OF m1(2)] by simp
  from Cons.IH [OF m1(2) _ this] Cons.prems(2) obtain m' where
    "puts_all put m1 kvs = Inr m'" "invar m'" "look m' = look m1 ++ map_of (rev kvs)" by auto
  moreover have "look m1 ++ map_of (rev kvs) = look m ++ map_of (rev (kv # kvs))"
    unfolding m1(3) by (cases kv) (simp add: map_add_upd_left map_add_assoc [symmetric])
  ultimately show ?case using m1(1) by simp
qed simp

lemma count_puts:
  assumes "invar m" "invar m'" "look m' = look m ++ map_of (rev kvs)"
  shows "count m' \<le> count m + length kvs"
proof -
  have "dom (look m') \<subseteq> dom (look m) \<union> fst ` set kvs"
    unfolding assms(3) by (auto simp: dom_map_of_conv_image_fst)
  then have "card (dom (look m')) \<le> card (dom (look m) \<union> fst ` set kvs)"
    using count_law [OF assms(1)] by (intro card_mono) auto
  also have "\<dots> \<le> card (dom (look m)) + length kvs"
    using card_Un_le [of "dom (look m)" "fst ` set kvs"] card_image_le [of "set kvs" fst] card_length [of kvs]
    by simp
  finally show ?thesis using count_law assms(1,2) by simp
qed

end

section \<open>The invariant of a mapping\<close>

definition pair_ok :: "objs \<Rightarrow> apair \<Rightarrow> bool" where
  "pair_ok H p \<longleftrightarrow> good_key H (p_arg p) \<and> p_hashval p = hashsvalue (p_arg p)"

definition chain_ok :: "objs \<Rightarrow> nat \<Rightarrow> nat \<Rightarrow> apair list \<Rightarrow> bool" where
  "chain_ok H sz i c \<longleftrightarrow> distinct (map p_arg c) \<and>
     (\<forall>p\<in>set c. pair_ok H p \<and> map_slot (p_hashval p) sz = i)"

definition table_ok :: "objs \<Rightarrow> nat \<Rightarrow> apair list list \<Rightarrow> bool" where
  "table_ok H sz ps \<longleftrightarrow> length ps = sz \<and> (\<forall>i < sz. chain_ok H sz i (ps ! i))"

definition map_inv :: "objs \<Rightarrow> lpc_map \<Rightarrow> bool" where
  "map_inv H m \<longleftrightarrow> (\<exists>j\<le>13. m_size m = 2 ^ j) \<and> table_ok H (m_size m) (m_pairs m) \<and>
     m_mcard m = int (FSIZE (m_size m)) \<and> m_card m = int (length (concat (m_pairs m)))"

text \<open>The finite map a mapping stands for.\<close>

definition map_look :: "lpc_map \<Rightarrow> sval \<rightharpoonup> sval" where
  "map_look m = map_of (map (\<lambda>p. (p_arg p, p_val p)) (concat (m_pairs m)))"

lemma map_slot_lt: "j \<le> 13 \<Longrightarrow> map_slot h (2 ^ j) < 2 ^ j"
proof -
  assume j: "j \<le> 13"
  have "of_nat (2 ^ j) - 1 = (mask j :: u16)" by (simp add: mask_eq_exp_minus_1)
  then have "map_slot h (2 ^ j) = unat (take_bit j h)" by (simp add: map_slot_def take_bit_eq_mask)
  also have "\<dots> = take_bit j (unat h)" by (simp add: unsigned_take_bit_eq)
  also have "\<dots> < 2 ^ j" by simp
  finally show ?thesis .
qed

lemma mset_concat_upd:
  "i < length ps \<Longrightarrow> mset (concat (ps[i := p # ps ! i])) = add_mset p (mset (concat ps))"
proof (induction ps arbitrary: i)
  case (Cons c ps)
  then show ?case by (cases i) auto
qed simp

lemma table_distinct:
  assumes "table_ok H sz ps"
  shows "distinct (map p_arg (concat ps))"
proof -
  have "distinct (map p_arg c)" if "c \<in> set ps" for c
    using assms that by (auto simp: table_ok_def chain_ok_def in_set_conv_nth)
  moreover have "i = j" if "i < length ps" "j < length ps" "p \<in> set (ps ! i)" "q \<in> set (ps ! j)" "p_arg p = p_arg q"
    for i j p q
    using assms that unfolding table_ok_def chain_ok_def pair_ok_def by metis
  ultimately show ?thesis by (rule distinct_concat_map)
qed
lemma map_inv_distinct: "map_inv H m \<Longrightarrow> distinct (map p_arg (concat (m_pairs m)))"
  using table_distinct by (auto simp: map_inv_def)

lemma map_look_iff:
  assumes "distinct (map p_arg (concat (m_pairs m)))"
  shows "map_look m k = Some v \<longleftrightarrow> (\<exists>p\<in>set (concat (m_pairs m)). p_arg p = k \<and> p_val p = v)"
proof -
  have "distinct (map fst (map (\<lambda>p. (p_arg p, p_val p)) (concat (m_pairs m))))"
    using assms by (simp add: o_def)
  from map_of_eq_Some_iff [OF this] show ?thesis unfolding map_look_def by force
qed

lemma map_look_dom: "dom (map_look m) = p_arg ` set (concat (m_pairs m))"
  unfolding map_look_def dom_map_of_conv_image_fst by force

lemma map_count:
  "map_inv H m \<Longrightarrow> finite (dom (map_look m)) \<and> nat (m_card m) = card (dom (map_look m))"
  using distinct_card [OF map_inv_distinct, of H m]
  by (simp add: map_inv_def map_look_dom)

lemma slot_lt: "map_inv H m \<Longrightarrow> map_slot h (m_size m) < m_size m"
  using map_slot_lt by (auto simp: map_inv_def)

lemma matches_iff: "pair_ok H p \<Longrightarrow> good_key H k \<Longrightarrow> pair_matches H k p \<longleftrightarrow> p_arg p = k"
  by (auto simp: pair_ok_def pair_matches_def equal_good)

lemma chainD:
  assumes "map_inv H m"
  shows "chain_ok H (m_size m) (map_slot (hashsvalue k) (m_size m)) (map_chain m k)"
  using assms slot_lt [OF assms] by (simp add: map_inv_def table_ok_def map_chain_def)

lemma in_chain:
  assumes "map_inv H m" "p \<in> set (concat (m_pairs m))"
  shows "p \<in> set (map_chain m (p_arg p)) \<and> pair_ok H p"
proof -
  from assms(2) obtain i where i: "i < length (m_pairs m)" "p \<in> set (m_pairs m ! i)"
    by (metis in_set_conv_nth set_concat UN_iff)
  with assms(1) have "pair_ok H p" "map_slot (p_hashval p) (m_size m) = i"
    by (auto simp: map_inv_def table_ok_def chain_ok_def)
  with i show ?thesis by (auto simp: map_chain_def pair_ok_def)
qed

lemma chain_in:
  assumes "map_inv H m" "p \<in> set (map_chain m k)"
  shows "p \<in> set (concat (m_pairs m)) \<and> pair_ok H p"
  using assms slot_lt [OF assms(1)] chainD [OF assms(1), of k]
  by (auto simp: map_chain_def map_inv_def table_ok_def chain_ok_def)

lemma map_find_law:
  assumes "map_inv H m" "good_key H k"
  shows "map_find H m k = Some p \<longleftrightarrow> p \<in> set (concat (m_pairs m)) \<and> p_arg p = k"
proof
  assume "map_find H m k = Some p"
  then have "p \<in> set (map_chain m k)" "pair_matches H k p"
    by (auto simp: map_find_def find_Some_iff in_set_conv_nth)
  with chain_in [OF assms(1) this(1)] assms(2) show "p \<in> set (concat (m_pairs m)) \<and> p_arg p = k"
    by (simp add: matches_iff)
next
  assume p: "p \<in> set (concat (m_pairs m)) \<and> p_arg p = k"
  with in_chain [OF assms(1)] have c: "p \<in> set (map_chain m k)" "pair_ok H p" by blast+
  with p assms(2) have "pair_matches H k p" by (simp add: matches_iff)
  with c(1) obtain q where q: "map_find H m k = Some q"
    unfolding map_find_def by (metis find_None_iff not_Some_eq)
  then have "q \<in> set (map_chain m k)" "pair_matches H k q"
    by (auto simp: map_find_def find_Some_iff in_set_conv_nth)
  with chain_in [OF assms(1)] assms(2) have "q \<in> set (concat (m_pairs m))" "p_arg q = k"
    by (auto simp: matches_iff)
  with p map_inv_distinct [OF assms(1)] have "q = p" by (auto simp: distinct_map inj_on_def)
  with q show "map_find H m k = Some p" by simp
qed

lemma map_find_look:
  assumes "map_inv H m" "good_key H k"
  shows "map_option p_val (map_find H m k) = map_look m k"
proof (cases "map_find H m k")
  case None
  with map_find_law [OF assms] have "k \<notin> dom (map_look m)" unfolding map_look_dom by force
  with None show ?thesis by (simp add: domIff)
next
  case (Some p)
  with map_find_law [OF assms] have "p \<in> set (concat (m_pairs m))" "p_arg p = k" by auto
  with map_look_iff [OF map_inv_distinct [OF assms(1)], of k "p_val p"] Some show ?thesis by auto
qed

section \<open>Rehashing\<close>

lemma table_ok_insert:
  assumes t: "table_ok H sz ps" and p: "pair_ok H p" "map_slot (p_hashval p) sz < sz"
    and new: "p_arg p \<notin> p_arg ` set (concat ps)"
  shows "table_ok H sz (ps[map_slot (p_hashval p) sz := p # ps ! map_slot (p_hashval p) sz])"
proof -
  let ?h = "map_slot (p_hashval p) sz"
  have "ps ! ?h \<in> set ps" using t p(2) by (simp add: table_ok_def)
  then have "set (ps ! ?h) \<subseteq> set (concat ps)" by auto
  with new have "p_arg p \<notin> p_arg ` set (ps ! ?h)" by blast
  with t p show ?thesis
    by (auto simp: table_ok_def chain_ok_def nth_list_update)
qed

lemma rehash_loop_law:
  assumes "\<And>h. map_slot h sz < sz" "table_ok H sz ps" "\<forall>p\<in>set qs. pair_ok H p"
    "distinct (map p_arg (qs @ concat ps))"
  shows "table_ok H sz (rehash_loop sz qs ps) \<and>
    mset (concat (rehash_loop sz qs ps)) = mset qs + mset (concat ps)"
  using assms
proof (induction qs arbitrary: ps)
  case (Cons p qs)
  let ?h = "map_slot (p_hashval p) sz"
  let ?ps = "ps[?h := p # ps ! ?h]"
  have lt: "?h < length ps" using Cons.prems(1,2) by (simp add: table_ok_def)
  have m: "mset (concat ?ps) = add_mset p (mset (concat ps))" by (rule mset_concat_upd [OF lt])
  have "table_ok H sz ?ps" using Cons.prems by (intro table_ok_insert) auto
  moreover have "mset (map p_arg (qs @ concat ?ps)) = mset (map p_arg ((p # qs) @ concat ps))"
    using m by simp
  then have "distinct (map p_arg (qs @ concat ?ps))" using Cons.prems(4) mset_eq_imp_distinct_iff by blast
  ultimately have "table_ok H sz (rehash_loop sz qs ?ps) \<and>
    mset (concat (rehash_loop sz qs ?ps)) = mset qs + mset (concat ?ps)"
    using Cons.IH [OF Cons.prems(1)] Cons.prems(3) by simp
  then show ?case using m by (simp add: Let_def)
qed simp

lemma FSIZE_mono: "a \<le> b \<Longrightarrow> FSIZE a \<le> FSIZE b"
  by (simp add: FSIZE_def div_le_mono)

lemma FSIZE_le: "j \<le> 13 \<Longrightarrow> FSIZE (2 ^ j) \<le> 20480"
proof -
  assume "j \<le> 13"
  then have "(2 :: nat) ^ j \<le> 2 ^ 13" by (rule power_increasing) simp
  from FSIZE_mono [OF this] show ?thesis by (simp add: FSIZE_def)
qed

lemma short_id: "- 32768 \<le> x \<Longrightarrow> x < 32768 \<Longrightarrow> short x = x"
  by (simp add: short_def)

lemma mset_look:
  assumes "mset (concat (m_pairs m')) = mset (concat (m_pairs m))" "distinct (map p_arg (concat (m_pairs m)))"
  shows "map_look m' = map_look m"
proof -
  have "distinct (map p_arg (concat (m_pairs m')))"
    using assms by (metis mset_map mset_eq_imp_distinct_iff)
  moreover have "set (concat (m_pairs m')) = set (concat (m_pairs m))" using assms(1) by (metis set_mset_mset)
  ultimately have "map_look m' k = Some v \<longleftrightarrow> map_look m k = Some v" for k v
    using assms(2) by (simp only: map_look_iff)
  then show ?thesis by (metis not_Some_eq ext)
qed

lemma rehash_map_law:
  assumes inv: "map_inv H m" and sz: "m_size m * 2 \<le> MAX_MAPPING_SIZE"
  shows "\<exists>m'. rehash_map m = Inr m' \<and> map_inv H m' \<and> map_look m' = map_look m \<and> m_size m' = 2 * m_size m"
proof -
  from inv obtain j where j: "j \<le> 13" "m_size m = 2 ^ j" by (auto simp: map_inv_def)
  have "j \<noteq> 13" using sz j by (auto simp: MAX_MAPPING_SIZE_def)
  with j have j': "Suc j \<le> 13" "m_size m * 2 = 2 ^ Suc j" by simp_all
  let ?ps = "rehash_loop (2 ^ Suc j) (concat (m_pairs m)) (replicate (2 ^ Suc j) [])"
  let ?m = "m\<lparr>m_pairs := ?ps, m_size := 2 ^ Suc j, m_mcard := short (int (FSIZE (2 ^ Suc j)))\<rparr>"
  have "table_ok H (2 ^ Suc j) ?ps \<and> mset (concat ?ps) = mset (concat (m_pairs m)) + mset (concat (replicate (2 ^ Suc j) []))"
  proof (rule rehash_loop_law)
    show "map_slot h (2 ^ Suc j) < 2 ^ Suc j" for h by (rule map_slot_lt [OF j'(1)])
    show "table_ok H (2 ^ Suc j) (replicate (2 ^ Suc j) [])" by (simp add: table_ok_def chain_ok_def)
    show "\<forall>p\<in>set (concat (m_pairs m)). pair_ok H p" using in_chain [OF inv] by blast
    show "distinct (map p_arg (concat (m_pairs m) @ concat (replicate (2 ^ Suc j) [])))"
      using map_inv_distinct [OF inv] by simp
  qed
  then have t: "table_ok H (2 ^ Suc j) ?ps" and ms: "mset (concat ?ps) = mset (concat (m_pairs m))" by simp_all
  have "length (concat ?ps) = length (concat (m_pairs m))" using ms by (rule mset_eq_length)
  moreover have "short (int (FSIZE (2 ^ Suc j))) = int (FSIZE (2 ^ Suc j))"
    using FSIZE_le [OF j'(1)] by (intro short_id) simp_all
  ultimately have "map_inv H ?m" using inv t j'(1) by (auto simp: map_inv_def simp del: power_Suc)
  moreover have "map_look ?m = map_look m" using ms map_inv_distinct [OF inv] by (intro mset_look) simp_all
  moreover have "rehash_map m = Inr ?m"
    using sz inv j'(2) by (simp add: rehash_map_def Let_def map_inv_def table_ok_def del: power_Suc)
  ultimately show ?thesis using j j' by auto
qed

section \<open>Insertion and lookup\<close>

lemma map_get_law:
  assumes "map_inv H m" "good_key H k"
  shows "map_get H m k = (case map_look m k of None \<Rightarrow> const0 | Some v \<Rightarrow> v)"
  using map_find_look [OF assms]
  by (auto simp: map_get_def get_map_lvalue_def read_lval_def Let_def split: option.splits)

lemma assign_chain_set:
  assumes "distinct (map p_arg c)" "\<forall>p\<in>set c. pair_ok H p" "good_key H k" "q \<in> set c" "p_arg q = k"
  shows "map p_arg (assign_chain H k v c) = map p_arg c"
    "set (assign_chain H k v c) = insert (q\<lparr>p_val := v\<rparr>) {p \<in> set c. p_arg p \<noteq> k}"
  using assms
proof (induction c)
  case (Cons p c)
  { case 1
    then show ?case using Cons.IH by (auto simp: matches_iff) }
  { case 2
    show ?case
    proof (cases "p_arg p = k")
      case True
      with 2 have "q = p" by (auto simp: rev_image_eqI)
      moreover have "p_arg r \<noteq> k" if "r \<in> set c" for r using 2 True that by (auto simp: rev_image_eqI)
      ultimately show ?thesis using True 2 by (auto simp: matches_iff)
    next
      case False
      with 2 Cons.IH(2) show ?thesis by (auto simp: matches_iff)
    qed }
qed simp_all

lemma set_concat_nth: "set (concat qs) = (\<Union>j<length qs. set (qs ! j))"
  by (auto simp: set_concat in_set_conv_nth [of _ qs]) (metis in_set_conv_nth)

lemma set_concat_update:
  assumes "i < length ps"
  shows "set (concat (ps[i := c])) = set c \<union> (\<Union>j\<in>{..<length ps} - {i}. set (ps ! j))"
  unfolding set_concat_nth using assms by (auto simp: nth_list_update split: if_splits)

text \<open>The pairs of a table in which the chain of \<open>k\<close> has been replaced.\<close>

lemma replace_chain:
  assumes inv: "map_inv H m" and h: "h = map_slot (hashsvalue k) (m_size m)"
    and c: "set c = insert q {p \<in> set (m_pairs m ! h). p_arg p \<noteq> k}"
  shows "set (concat ((m_pairs m)[h := c])) = insert q {p \<in> set (concat (m_pairs m)). p_arg p \<noteq> k}"
proof -
  have lt: "h < length (m_pairs m)" using inv slot_lt [OF inv] h by (simp add: map_inv_def table_ok_def)
  have "p_arg p \<noteq> k" if "i < length (m_pairs m)" "i \<noteq> h" "p \<in> set (m_pairs m ! i)" for i p
  proof -
    have "chain_ok H (m_size m) i (m_pairs m ! i)" using that inv by (simp add: map_inv_def table_ok_def)
    with that h show ?thesis by (auto simp: chain_ok_def pair_ok_def)
  qed
  moreover have "set (concat (m_pairs m)) = set (m_pairs m ! h) \<union> (\<Union>j\<in>{..<length (m_pairs m)} - {h}. set (m_pairs m ! j))"
    unfolding set_concat_nth using lt by auto
  ultimately show ?thesis unfolding set_concat_update [OF lt] c by auto
qed

lemma look_update:
  assumes d: "distinct (map p_arg (concat (m_pairs m)))" "distinct (map p_arg (concat (m_pairs m')))"
    and s: "set (concat (m_pairs m')) = insert q {p \<in> set (concat (m_pairs m)). p_arg p \<noteq> k}" "p_arg q = k"
  shows "map_look m' = (map_look m)(k \<mapsto> p_val q)"
proof
  fix x
  have "map_look m' x = Some w \<longleftrightarrow> ((map_look m)(k \<mapsto> p_val q)) x = Some w" for w
  proof (cases "x = k")
    case True
    then show ?thesis unfolding map_look_iff [OF d(2)] s(1) using s(2) by auto
  next
    case False
    then have "map_look m' x = Some w \<longleftrightarrow> map_look m x = Some w"
      unfolding map_look_iff [OF d(2)] map_look_iff [OF d(1)] s(1) using s(2) by blast
    with False show ?thesis by simp
  qed
  then show "map_look m' x = ((map_look m)(k \<mapsto> p_val q)) x" by (metis not_Some_eq)
qed

lemma assign_lval_law:
  assumes inv: "map_inv H m" and k: "good_key H k" and q: "map_find H m k = Some q"
  shows "map_inv H (assign_lval H m (Slot k) v) \<and>
    map_look (assign_lval H m (Slot k) v) = (map_look m)(k \<mapsto> v) \<and>
    m_card (assign_lval H m (Slot k) v) = m_card m"
proof -
  let ?h = "map_slot (hashsvalue k) (m_size m)" and ?m = "assign_lval H m (Slot k) v"
  let ?c = "m_pairs m ! ?h"
  have h: "?h < length (m_pairs m)" using inv slot_lt [OF inv] by (simp add: map_inv_def table_ok_def)
  have co: "chain_ok H (m_size m) ?h ?c" using chainD [OF inv, of k] by (simp add: map_chain_def)
  from q map_find_law [OF inv k] have qk: "p_arg q = k" "q \<in> set (concat (m_pairs m))" by auto
  with in_chain [OF inv] have "q \<in> set ?c" by (auto simp: map_chain_def)
  note a = assign_chain_set [OF _ _ k this qk(1)]
  have args: "map p_arg (assign_chain H k v ?c) = map p_arg ?c"
    and vals: "set (assign_chain H k v ?c) = insert (q\<lparr>p_val := v\<rparr>) {p \<in> set ?c. p_arg p \<noteq> k}"
    using a co by (simp_all add: chain_ok_def)
  have ps: "m_pairs ?m = (m_pairs m)[?h := assign_chain H k v ?c]" and sz: "m_size ?m = m_size m"
    and cd: "m_card ?m = m_card m" "m_mcard ?m = m_mcard m"
    by (simp_all add: assign_lval_def Let_def)
  have qo: "pair_ok H (q\<lparr>p_val := v\<rparr>) \<and> map_slot (p_hashval q) (m_size m) = ?h"
    using co \<open>q \<in> set ?c\<close> by (auto simp: chain_ok_def pair_ok_def)
  then have "chain_ok H (m_size m) ?h (assign_chain H k v ?c)"
    using co args vals by (auto simp: chain_ok_def)
  then have t: "table_ok H (m_size ?m) (m_pairs ?m)"
    using inv h unfolding ps sz map_inv_def table_ok_def by (auto simp: nth_list_update)
  have "map (map p_arg) (m_pairs ?m) = map (map p_arg) (m_pairs m)"
    unfolding ps map_update args using h by (metis list_update_id nth_map)
  then have args_all: "map p_arg (concat (m_pairs ?m)) = map p_arg (concat (m_pairs m))"
    by (simp only: map_concat)
  have "length (concat (m_pairs ?m)) = length (concat (m_pairs m))"
    using arg_cong [OF args_all, of length] by simp
  then have inv': "map_inv H ?m" using inv t sz cd unfolding map_inv_def by metis
  have "set (concat (m_pairs ?m)) = insert (q\<lparr>p_val := v\<rparr>) {p \<in> set (concat (m_pairs m)). p_arg p \<noteq> k}"
    unfolding ps by (rule replace_chain [OF inv refl vals])
  from look_update [OF map_inv_distinct [OF inv] map_inv_distinct [OF inv'] this] qk(1)
  have "map_look ?m = (map_look m)(k \<mapsto> v)" by simp
  with inv' cd show ?thesis by blast
qed

text \<open>The pair \<^verbatim>\<open>get_map_lvalue\<close> adds, before the table is extended.\<close>

definition map_add_pair :: "lpc_map \<Rightarrow> sval \<Rightarrow> lpc_map" where
  "map_add_pair m k =
     (let h = map_slot (hashsvalue k) (m_size m)
      in m\<lparr>m_pairs := (m_pairs m)[h := newpair (m_pairs m ! h) k const0 (hashsvalue k)],
           m_card := short (m_card m + 1)\<rparr>)"

lemma map_add_pair_law:
  assumes inv: "map_inv H m" and k: "good_key H k" and new: "map_find H m k = None" and c: "m_card m < 32767"
  shows "map_inv H (map_add_pair m k) \<and> map_look (map_add_pair m k) = (map_look m)(k \<mapsto> const0) \<and>
    m_card (map_add_pair m k) = m_card m + 1 \<and> m_size (map_add_pair m k) = m_size m \<and>
    m_mcard (map_add_pair m k) = m_mcard m"
proof -
  let ?h = "map_slot (hashsvalue k) (m_size m)" and ?q = "\<lparr>p_arg = k, p_val = const0, p_hashval = hashsvalue k\<rparr>"
  let ?m = "map_add_pair m k"
  have h: "?h < length (m_pairs m)" using inv slot_lt [OF inv] by (simp add: map_inv_def table_ok_def)
  have ps: "m_pairs ?m = (m_pairs m)[?h := ?q # m_pairs m ! ?h]" "m_size ?m = m_size m" "m_mcard ?m = m_mcard m"
    by (simp_all add: map_add_pair_def newpair_def Let_def)
  have no: "p_arg p \<noteq> k" if "p \<in> set (concat (m_pairs m))" for p
    using new map_find_law [OF inv k, of p] that by auto
  have "table_ok H (m_size m) ((m_pairs m)[map_slot (p_hashval ?q) (m_size m) :=
      ?q # m_pairs m ! map_slot (p_hashval ?q) (m_size m)])"
  proof (rule table_ok_insert)
    show "p_arg ?q \<notin> p_arg ` set (concat (m_pairs m))" using no by auto
  qed (use inv k slot_lt [OF inv] in \<open>simp_all add: map_inv_def pair_ok_def\<close>)
  then have t: "table_ok H (m_size ?m) (m_pairs ?m)" by (simp add: ps)
  have ms: "mset (concat (m_pairs ?m)) = add_mset ?q (mset (concat (m_pairs m)))"
    unfolding ps by (rule mset_concat_upd [OF h])
  have "m_card ?m = short (m_card m + 1)" by (simp add: map_add_pair_def Let_def)
  also have "\<dots> = m_card m + 1" using c inv by (intro short_id) (simp_all add: map_inv_def)
  finally have cd: "m_card ?m = m_card m + 1" .
  have "length (concat (m_pairs ?m)) = Suc (length (concat (m_pairs m)))"
    using arg_cong [OF ms, of size] by simp
  then have inv': "map_inv H ?m" using inv t cd ps(2,3) unfolding map_inv_def by simp
  have "set (concat (m_pairs ?m)) = insert ?q (set (concat (m_pairs m)))"
    using arg_cong [OF ms, of set_mset] by (simp only: set_mset_mset set_mset_add_mset_insert)
  also have "set (concat (m_pairs m)) = {p \<in> set (concat (m_pairs m)). p_arg p \<noteq> k}" using no by blast
  finally have "map_look ?m = (map_look m)(k \<mapsto> p_val ?q)"
    by (rule look_update [OF map_inv_distinct [OF inv] map_inv_distinct [OF inv']]) simp
  with inv' cd ps show ?thesis by simp
qed

lemma get_map_lvalue_new:
  assumes "map_find H m k = None"
  shows "get_map_lvalue H m k True =
    (if m_card (map_add_pair m k) > m_mcard (map_add_pair m k)
     then (case rehash_map (map_add_pair m k) of Inl m2 \<Rightarrow> Inl m2 | Inr m2 \<Rightarrow> Inr (m2, Slot k))
     else Inr (map_add_pair m k, Slot k))"
  using assms by (simp add: get_map_lvalue_def map_add_pair_def Let_def)

text \<open>A table with fewer than 10240 pairs can always be extended.\<close>

definition MAP_LIMIT :: nat where "MAP_LIMIT = 10240"

lemma map_room:
  assumes "map_inv H m" "m_card m < int MAP_LIMIT" "m_mcard m < m_card m + 1"
  shows "m_size m * 2 \<le> MAX_MAPPING_SIZE"
proof -
  from assms(1) obtain j where j: "j \<le> 13" "m_size m = 2 ^ j" by (auto simp: map_inv_def)
  have "FSIZE (2 ^ j) < 10240" using assms j(2) by (simp add: map_inv_def MAP_LIMIT_def)
  then have "\<not> 12 \<le> j" using FSIZE_mono [of "2 ^ 12" "2 ^ j"] power_increasing [of 12 j "2 :: nat"]
    by (auto simp: FSIZE_def)
  then have "j \<le> 11" by simp
  then have "(2 :: nat) ^ j \<le> 2 ^ 11" by (rule power_increasing) simp
  with j(2) show ?thesis by (simp add: MAX_MAPPING_SIZE_def)
qed

lemma get_map_lvalue_law:
  assumes inv: "map_inv H m" and k: "good_key H k" and new: "map_find H m k = None" and c: "m_card m < int MAP_LIMIT"
  shows "\<exists>m'. get_map_lvalue H m k True = Inr (m', Slot k) \<and> map_inv H m' \<and> map_look m' = (map_look m)(k \<mapsto> const0)"
proof -
  let ?m = "map_add_pair m k"
  have c': "m_card m < 32767" using c by (simp add: MAP_LIMIT_def)
  note a = map_add_pair_law [OF inv k new c']
  show ?thesis
  proof (cases "m_card ?m > m_mcard ?m")
    case True
    then have "m_size ?m * 2 \<le> MAX_MAPPING_SIZE" using map_room [OF inv c] a by simp
    with rehash_map_law [of H ?m] a obtain m' where
      "rehash_map ?m = Inr m'" "map_inv H m'" "map_look m' = map_look ?m" by blast
    with True a show ?thesis unfolding get_map_lvalue_new [OF new] by simp
  next
    case False
    with a show ?thesis unfolding get_map_lvalue_new [OF new] by simp
  qed
qed

lemma map_put_law:
  assumes inv: "map_inv H m" and k: "good_key H k" and c: "nat (m_card m) < MAP_LIMIT"
  shows "\<exists>m'. map_put H m k v = Inr m' \<and> map_inv H m' \<and> map_look m' = (map_look m)(k \<mapsto> v)"
proof (cases "map_find H m k")
  case (Some q)
  then have "get_map_lvalue H m k True = Inr (m, Slot k)" by (simp add: get_map_lvalue_def Let_def)
  with assign_lval_law [OF inv k Some, of v] show ?thesis by (simp add: map_put_def)
next
  case None
  from c have "m_card m < int MAP_LIMIT" by (simp add: nat_less_iff MAP_LIMIT_def)
  from get_map_lvalue_law [OF inv k None this] obtain m1 where
    m1: "get_map_lvalue H m k True = Inr (m1, Slot k)" "map_inv H m1" "map_look m1 = (map_look m)(k \<mapsto> const0)" by blast
  have "map_option p_val (map_find H m1 k) = Some const0" using map_find_look [OF m1(2) k] m1(3) by simp
  then obtain q where "map_find H m1 k = Some q" by auto
  from assign_lval_law [OF m1(2) k this, of v] m1 show ?thesis by (simp add: map_put_def)
qed

interpretation lm: assoc_table "map_inv H" map_look "\<lambda>m. nat (m_card m)" "good_key H" MAP_LIMIT "map_put H" for H
  by unfold_locales (use map_put_law map_count in auto)

lemma map_puts_all: "map_puts H m kvs = puts_all (map_put H) m kvs"
  by (induction kvs arbitrary: m) (simp_all split: sum.split)

lemmas map_puts_law = lm.puts_law [folded map_puts_all]

section \<open>Allocation\<close>

declare map_size_loop.simps [simp del]

lemma map_size_loop_pow: "i \<le> 13 \<Longrightarrow> \<exists>j\<le>13. map_size_loop (2 ^ i) u = 2 ^ j"
proof (induction u arbitrary: i rule: less_induct)
  case (less u)
  show ?case
  proof (cases "u \<noteq> 0 \<and> (2 :: nat) ^ i < MAX_MAPPING_SIZE")
    case True
    have "i \<noteq> 13" using True by (auto simp: MAX_MAPPING_SIZE_def)
    then have "Suc i \<le> 13" using less.prems by simp
    moreover have "u div 2 < u" using True by simp
    moreover have "map_size_loop (2 ^ i) u = map_size_loop (2 ^ Suc i) (u div 2)"
      using True by (subst map_size_loop.simps) simp
    ultimately show ?thesis using less.IH [of "u div 2" "Suc i"] by simp
  next
    case False
    then have "map_size_loop (2 ^ i) u = 2 ^ i" by (subst map_size_loop.simps) auto
    with less.prems show ?thesis by blast
  qed
qed

lemma allocate_map_law: "map_inv H (allocate_map n) \<and> map_look (allocate_map n) = Map.empty \<and> m_card (allocate_map n) = 0"
proof -
  from map_size_loop_pow [of 0] obtain j where
    j: "j \<le> 13" "map_size_loop 1 (nat ((short n * 100) sdiv 250 mod 2 ^ 32)) = 2 ^ j" by auto
  have "short (int (FSIZE (2 ^ j))) = int (FSIZE (2 ^ j))" using FSIZE_le [OF j(1)] by (intro short_id) simp_all
  with j show ?thesis
    by (auto simp: allocate_map_def Let_def map_inv_def table_ok_def chain_ok_def map_look_def)
qed

section \<open>Whole-mapping operations\<close>

lemma map_items_law:
  assumes "map_inv H m"
  shows "map_of (map_items m) = map_look m" "distinct (map fst (map_items m))"
    "int (length (map_items m)) = m_card m" "\<forall>kv\<in>set (map_items m). good_key H (fst kv)"
proof -
  have t: "take (m_size m) (m_pairs m) = m_pairs m" using assms by (simp add: map_inv_def table_ok_def)
  show "map_of (map_items m) = map_look m" by (simp add: map_items_def map_look_def t)
  show "distinct (map fst (map_items m))"
    using map_inv_distinct [OF assms] by (simp add: map_items_def t o_def)
  show "int (length (map_items m)) = m_card m" using assms by (simp add: map_items_def t map_inv_def)
  show "\<forall>kv\<in>set (map_items m). good_key H (fst kv)"
    using in_chain [OF assms] by (auto simp: map_items_def t pair_ok_def)
qed

lemma map_of_rev_distinct: "distinct (map fst xs) \<Longrightarrow> map_of (rev xs) = map_of xs"
proof
  fix k assume d: "distinct (map fst xs)"
  then have "distinct (map fst (rev xs))" by (simp add: rev_map [symmetric])
  then have "map_of (rev xs) k = Some v \<longleftrightarrow> map_of xs k = Some v" for v
    using d by (simp add: map_of_eq_Some_iff)
  then show "map_of (rev xs) k = map_of xs k" by (metis not_Some_eq)
qed

lemma map_of_rev_items: "map_inv H m \<Longrightarrow> map_of (rev (map_items m)) = map_look m"
  using map_items_law(1,2) [of H m] map_of_rev_distinct [of "map_items m"] by simp

lemma addto_law:
  assumes "map_inv H m1" "map_inv H m2" "m_card m1 + m_card m2 \<le> int MAP_LIMIT"
  shows "\<exists>m. addto_mapping H m1 m2 = Inr m \<and> map_inv H m \<and> map_look m = map_look m1 ++ map_look m2"
proof -
  have "nat (m_card m1) + length (map_items m2) \<le> MAP_LIMIT"
    using assms(3) map_items_law(3) [OF assms(2)] assms(1) by (simp add: map_inv_def)
  from map_puts_law [OF assms(1) map_items_law(4) [OF assms(2)] this] map_of_rev_items [OF assms(2)]
  show ?thesis by (simp add: addto_mapping_def)
qed

lemma fresh_puts_law:
  assumes "\<forall>kv\<in>set kvs. good_key H (fst kv)" "length kvs \<le> MAP_LIMIT"
  shows "\<exists>m. map_puts H (allocate_map n) kvs = Inr m \<and> map_inv H m \<and> map_look m = map_of (rev kvs)"
  using map_puts_law [of H "allocate_map n" kvs] assms allocate_map_law [of H n] by simp

lemma add_law:
  assumes i: "map_inv H m1" "map_inv H m2" and c: "m_card m1 + m_card m2 \<le> int MAP_LIMIT"
  shows "\<exists>m. add_mapping H m1 m2 = Inr m \<and> map_inv H m \<and> map_look m = map_look m1 ++ map_look m2"
proof -
  have l: "length (map_items m1) + length (map_items m2) \<le> MAP_LIMIT"
    using c map_items_law(3) [OF i(1)] map_items_law(3) [OF i(2)] by linarith
  from fresh_puts_law [OF map_items_law(4) [OF i(1)], of "m_card m1 + m_card m2"] l obtain r where
    r: "map_puts H (allocate_map (m_card m1 + m_card m2)) (map_items m1) = Inr r" "map_inv H r"
      "map_look r = map_look m1" using map_of_rev_items [OF i(1)] by auto
  have "nat (m_card r) = nat (m_card m1)"
    using map_count [OF r(2)] map_count [OF i(1)] r(3) by simp
  then have "nat (m_card r) + length (map_items m2) \<le> MAP_LIMIT"
    using l map_items_law(3) [OF i(1)] by simp
  from map_puts_law [OF r(2) map_items_law(4) [OF i(2)] this] r map_of_rev_items [OF i(2)]
  show ?thesis by (simp add: add_mapping_def)
qed

lemma map_of_filter_key:
  "distinct (map fst xs) \<Longrightarrow> map_of (filter (\<lambda>kv. fst kv \<noteq> k) xs) = (map_of xs)(k := None)"
  by (induction xs) (auto simp: fun_eq_iff map_of_eq_None_iff)

lemma remove_kept:
  assumes inv: "map_inv H m" and k: "good_key H k"
  shows "concat (map (\<lambda>i. map (\<lambda>p. (p_arg p, p_val p))
       (if map_slot (hashsvalue k) (m_size m) = i then filter (\<lambda>p. \<not> equal_svalue H k (p_arg p)) (m_pairs m ! i)
        else m_pairs m ! i)) [0..<m_size m]) = filter (\<lambda>kv. fst kv \<noteq> k) (map_items m)"
proof -
  let ?f = "\<lambda>p. (p_arg p, p_val p)"
  have len: "length (m_pairs m) = m_size m" using inv by (simp add: map_inv_def table_ok_def)
  have ch: "chain_ok H (m_size m) i (m_pairs m ! i)" if "i < m_size m" for i
    using that inv by (simp add: map_inv_def table_ok_def)
  have "map ?f (if map_slot (hashsvalue k) (m_size m) = i then filter (\<lambda>p. \<not> equal_svalue H k (p_arg p)) (m_pairs m ! i)
        else m_pairs m ! i) = filter (\<lambda>kv. fst kv \<noteq> k) (map ?f (m_pairs m ! i))" if "i < m_size m" for i
  proof -
    have eq: "equal_svalue H k (p_arg p) \<longleftrightarrow> p_arg p = k" if "p \<in> set (m_pairs m ! i)" for p
      using ch [OF \<open>i < m_size m\<close>] that k by (auto simp: chain_ok_def pair_ok_def equal_good)
    have other: "p_arg p \<noteq> k" if "p \<in> set (m_pairs m ! i)" "map_slot (hashsvalue k) (m_size m) \<noteq> i" for p
      using ch [OF \<open>i < m_size m\<close>] that by (auto simp: chain_ok_def pair_ok_def)
    show ?thesis using eq other by (auto simp: filter_map o_def cong: filter_cong)
  qed
  then have "map (\<lambda>i. map ?f (if map_slot (hashsvalue k) (m_size m) = i
        then filter (\<lambda>p. \<not> equal_svalue H k (p_arg p)) (m_pairs m ! i) else m_pairs m ! i)) [0..<m_size m]
      = map (\<lambda>i. filter (\<lambda>kv. fst kv \<noteq> k) (map ?f (m_pairs m ! i))) [0..<m_size m]" by (intro map_cong) auto
  moreover have "map (\<lambda>i. filter (\<lambda>kv. fst kv \<noteq> k) (map ?f (m_pairs m ! i))) [0..<m_size m]
      = map (\<lambda>c. filter (\<lambda>kv. fst kv \<noteq> k) (map ?f c)) (m_pairs m)"
    using len by (intro nth_equalityI) auto
  ultimately show ?thesis using len by (simp add: map_items_def filter_concat map_concat o_def)
qed

lemma remove_law:
  assumes inv: "map_inv H m" and k: "good_key H k" and c: "m_card m \<le> int MAP_LIMIT"
  shows "\<exists>r. remove_mapping H m k = Inr r \<and> map_inv H r \<and> map_look r = (map_look m)(k := None)"
proof -
  let ?kv = "filter (\<lambda>kv. fst kv \<noteq> k) (map_items m)"
  have "remove_mapping H m k = map_puts H (allocate_map (int (m_size m))) ?kv"
    unfolding remove_mapping_def Let_def remove_kept [OF inv k] ..
  moreover have "length ?kv \<le> MAP_LIMIT"
    using c map_items_law(3) [OF inv] length_filter_le [of "\<lambda>kv. fst kv \<noteq> k" "map_items m"] by linarith
  moreover have "\<forall>kv\<in>set ?kv. good_key H (fst kv)" using map_items_law(4) [OF inv] by auto
  moreover have "map_of (rev ?kv) = map_of ?kv"
    using map_items_law(2) [OF inv] by (intro map_of_rev_distinct) (simp add: distinct_map_filter)
  ultimately show ?thesis
    using fresh_puts_law [of ?kv H "int (m_size m)"] map_of_filter_key [OF map_items_law(2) [OF inv]] map_items_law(1) [OF inv]
    by simp
qed

lemma foldl_newpair: "foldl (\<lambda>q p. newpair q (p_arg p) (p_val p) (p_hashval p)) acc c = rev c @ acc"
  by (induction c arbitrary: acc) (simp_all add: newpair_def)

lemma copy_pairs: "m_pairs (copy_mapping m) = map rev (m_pairs m)"
  by (simp add: copy_mapping_def foldl_newpair)

lemma mset_concat_rev: "mset (concat (map rev ps)) = mset (concat ps)"
  by (induction ps) simp_all

lemma copy_law:
  assumes "map_inv H m"
  shows "map_inv H (copy_mapping m) \<and> map_look (copy_mapping m) = map_look m"
proof -
  have ms: "mset (concat (m_pairs (copy_mapping m))) = mset (concat (m_pairs m))"
    by (simp add: copy_pairs mset_concat_rev)
  have "table_ok H (m_size m) (map rev (m_pairs m))"
    using assms by (auto simp: map_inv_def table_ok_def chain_ok_def rev_map [symmetric])
  moreover have "m_size (copy_mapping m) = m_size m" "m_mcard (copy_mapping m) = m_mcard m" "m_card (copy_mapping m) = m_card m"
    by (simp_all add: copy_mapping_def)
  moreover have "length (concat (map rev (m_pairs m))) = length (concat (m_pairs m))"
    using ms [unfolded copy_pairs] by (rule mset_eq_length)
  ultimately have "map_inv H (copy_mapping m)" using assms unfolding map_inv_def copy_pairs by simp
  with mset_look [OF ms map_inv_distinct [OF assms]] show ?thesis by blast
qed

text \<open>With a function that does not change the state of the game, the loops are maps and filters.\<close>

lemma map_chain_loop_pure: "map_chain_loop (\<lambda>w v. (f v, w)) w c = (map (\<lambda>p. p\<lparr>p_val := f (p_val p)\<rparr>) c, w)"
  by (induction c) simp_all

lemma filter_chain_loop_pure:
  "filter_chain_loop (\<lambda>w v. (f v, w)) w c = (filter (\<lambda>p. f (p_val p) \<noteq> T_NUMBER 0) c, w)"
  by (induction c) simp_all

lemma map_table_loop_pure: "map_table_loop (\<lambda>w c. (g c, w)) w cs = (map g cs, w)"
  by (induction cs) simp_all

lemma map_map_pure:
  "map_map (\<lambda>w v. (f v, w)) w m =
     ((copy_mapping m)\<lparr>m_pairs := map (map (\<lambda>p. p\<lparr>p_val := f (p_val p)\<rparr>)) (m_pairs (copy_mapping m))\<rparr>, w)"
  by (simp add: map_map_def Let_def map_chain_loop_pure [abs_def] map_table_loop_pure)

lemma filter_map_pure:
  "filter_map (\<lambda>w v. (f v, w)) w m =
     (let ps = map (filter (\<lambda>p. f (p_val p) \<noteq> T_NUMBER 0)) (m_pairs (copy_mapping m))
      in ((copy_mapping m)\<lparr>m_pairs := ps, m_card := short (m_card m -
            int (length (concat (m_pairs (copy_mapping m))) - length (concat ps)))\<rparr>, w))"
proof -
  have "m_card (copy_mapping m) = m_card m" by (simp add: copy_mapping_def)
  then show ?thesis
    by (simp add: filter_map_def Let_def filter_chain_loop_pure [abs_def] map_table_loop_pure)
qed

lemma map_map_law:
  assumes inv: "map_inv H m"
  shows "map_inv H (fst (map_map (\<lambda>w v. (f v, w)) w m)) \<and>
    map_look (fst (map_map (\<lambda>w v. (f v, w)) w m)) = map_option f \<circ> map_look m"
proof -
  let ?c = "copy_mapping m" and ?g = "\<lambda>p. p\<lparr>p_val := f (p_val p)\<rparr>"
  from copy_law [OF inv] have c: "map_inv H ?c" "map_look ?c = map_look m" by simp_all
  have "chain_ok H sz i (map ?g d)" if "chain_ok H sz i d" for sz i d
    using that by (auto simp: chain_ok_def pair_ok_def o_def)
  then have "map_inv H (?c\<lparr>m_pairs := map (map ?g) (m_pairs ?c)\<rparr>)"
    using c(1) by (auto simp: map_inv_def table_ok_def map_concat [symmetric])
  moreover have "map (\<lambda>p. (p_arg p, p_val p)) (concat (map (map ?g) (m_pairs ?c))) =
      map (\<lambda>(k, v). (k, f v)) (map (\<lambda>p. (p_arg p, p_val p)) (concat (m_pairs ?c)))"
    by (simp add: map_concat o_def)
  then have "map_look (?c\<lparr>m_pairs := map (map ?g) (m_pairs ?c)\<rparr>) = map_option f \<circ> map_look ?c"
    unfolding map_look_def by (simp add: map_of_map [symmetric] del: map_map)
  ultimately show ?thesis using c(2) by (simp add: map_map_pure)
qed

lemma map_of_filter_val:
  "distinct (map fst xs) \<Longrightarrow> map_of (filter (\<lambda>kv. P (snd kv)) xs) k = Some v \<longleftrightarrow> map_of xs k = Some v \<and> P v"
  using distinct_map_filter [of fst xs "\<lambda>kv. P (snd kv)"] by (auto simp: map_of_eq_Some_iff)

lemma filter_map_law:
  assumes inv: "map_inv H m" and c: "m_card m < 32768"
    and r_def: "r = fst (filter_map (\<lambda>w v. (f v, w)) w m)"
  shows "map_inv H r \<and> (\<forall>k v. map_look r k = Some v \<longleftrightarrow> map_look m k = Some v \<and> f v \<noteq> const0)"
proof -
  let ?c = "copy_mapping m" and ?P = "\<lambda>p. f (p_val p) \<noteq> T_NUMBER 0"
  let ?ps = "map (filter ?P) (m_pairs ?c)"
  from copy_law [OF inv] have cp: "map_inv H ?c" "map_look ?c = map_look m" by simp_all
  have con: "concat ?ps = filter ?P (concat (m_pairs ?c))" by (simp add: filter_concat)
  then have le: "length (concat ?ps) \<le> length (concat (m_pairs ?c))" by simp
  have cc: "m_card m = int (length (concat (m_pairs ?c)))" using cp(1) by (simp add: map_inv_def copy_mapping_def)
  then have "short (m_card m - int (length (concat (m_pairs ?c)) - length (concat ?ps))) = int (length (concat ?ps))"
    using c le by (subst short_id) auto
  then have r: "r = ?c\<lparr>m_pairs := ?ps, m_card := int (length (concat ?ps))\<rparr>"
    unfolding r_def filter_map_pure Let_def by simp
  have "chain_ok H sz i (filter ?P d)" if "chain_ok H sz i d" for sz i d
    using that by (auto simp: chain_ok_def distinct_map_filter)
  then have "map_inv H r" using cp(1) unfolding r by (auto simp: map_inv_def table_ok_def)
  moreover have "map_look r k = Some v \<longleftrightarrow> map_look m k = Some v \<and> f v \<noteq> const0" for k v
  proof -
    let ?kv = "\<lambda>p. (p_arg p, p_val p)"
    have "map ?kv (concat (m_pairs r)) = filter (\<lambda>kv. f (snd kv) \<noteq> T_NUMBER 0) (map ?kv (concat (m_pairs ?c)))"
      unfolding r by (simp add: con List.filter_map o_def)
    moreover have "distinct (map fst (map ?kv (concat (m_pairs ?c))))"
      using map_inv_distinct [OF cp(1)] by (simp add: o_def)
    ultimately show ?thesis
      using map_of_filter_val [of "map ?kv (concat (m_pairs ?c))" "\<lambda>v. f v \<noteq> T_NUMBER 0" k v] cp(2)
      unfolding map_look_def const0_def by (simp only:)
  qed
  ultimately show ?thesis by blast
qed

lemma fill_array_exact: "allocate_check (int (length xs)) \<Longrightarrow> fill_array (int (length xs)) xs = Some xs"
  by (simp add: fill_array_def)

lemma domain_items:
  assumes "map_inv H m" "m_card m \<le> 5000"
  shows "map_domain m = Some (map fst (map_items m))" "map_codomain m = Some (map snd (map_items m))"
proof -
  have c: "m_card m = int (length (map_items m))" using map_items_law(3) [OF assms(1)] by simp
  then have "allocate_check (int (length (map_items m)))" using assms(2) by (simp add: allocate_check_def MAX_ARRAY_SIZE_def)
  then show "map_domain m = Some (map fst (map_items m))" "map_codomain m = Some (map snd (map_items m))"
    unfolding map_domain_def map_codomain_def c
    using fill_array_exact [of "map fst (map_items m)"] fill_array_exact [of "map snd (map_items m)"] by simp_all
qed

section \<open>Properties\<close>

text \<open>A world without destructed objects and a mapping with one entry, for the witnesses.\<close>

definition demo_objs :: objs where
  "demo_objs = \<lparr>destructed = (\<lambda>_. False), legal_closure = (\<lambda>_. True)\<rparr>"

definition demo_map :: lpc_map where
  "demo_map = projr (map_put demo_objs (allocate_map 0) (T_NUMBER 7) (T_STRING [104, 105]))"

lemma demo_keys: "good_key demo_objs (T_NUMBER n)" "good_key demo_objs (T_STRING s)"
  by (simp_all add: good_key_def demo_objs_def is_destructed_def is_illegal_def)

lemma demo_map_law: "map_inv demo_objs demo_map \<and> map_look demo_map = [T_NUMBER 7 \<mapsto> T_STRING [104, 105]] \<and> m_card demo_map = 1"
proof -
  have "nat (m_card (allocate_map 0)) < MAP_LIMIT" using allocate_map_law by (simp add: MAP_LIMIT_def)
  from map_put_law [OF conjunct1 [OF allocate_map_law] demo_keys(1) this, of 7 "T_STRING [104, 105]"]
  obtain m where m: "map_put demo_objs (allocate_map 0) (T_NUMBER 7) (T_STRING [104, 105]) = Inr m" "map_inv demo_objs m"
    "map_look m = [T_NUMBER 7 \<mapsto> T_STRING [104, 105]]" using allocate_map_law by auto
  then have "nat (m_card m) = 1" using map_count [OF m(2)] by simp
  with m show ?thesis by (simp add: demo_map_def)
qed

text \<open>A table of 4096 chains with three numbers each.\<close>

definition full_pair :: "nat \<Rightarrow> apair" where
  "full_pair n = \<lparr>p_arg = T_NUMBER (of_nat n), p_val = const1, p_hashval = hashsvalue (T_NUMBER (of_nat n))\<rparr>"

definition full_chains :: "nat \<Rightarrow> apair list list" where
  "full_chains n = map (\<lambda>i. [full_pair i, full_pair (i + 4096), full_pair (i + 8192)]) [0..<n]"

definition full_map :: lpc_map where
  "full_map = \<lparr>m_size = 4096, m_card = 12288, m_mcard = 10240, m_pairs = full_chains 4096\<rparr>"

lemma full_chains_law:
  "length (full_chains n) = n" "length (concat (full_chains n)) = 3 * n"
  "i < n \<Longrightarrow> full_chains n ! i = [full_pair i, full_pair (i + 4096), full_pair (i + 8192)]"
  by (induction n) (auto simp: full_chains_def nth_append less_Suc_eq)

lemma full_pair_slot: "n < 65536 \<Longrightarrow> map_slot (p_hashval (full_pair n)) 4096 = n mod 4096"
proof -
  assume n: "n < 65536"
  have m: "of_nat 4096 - 1 = (mask 12 :: u16)" by (simp add: mask_eq_exp_minus_1)
  have "unat (p_hashval (full_pair n)) = n"
    using n by (simp add: full_pair_def unsigned_ucast_eq unsigned_of_nat take_bit_nat_eq_self)
  then have "unat (take_bit 12 (p_hashval (full_pair n))) = take_bit 12 n" by (simp add: unsigned_take_bit_eq)
  then show ?thesis unfolding map_slot_def m take_bit_eq_mask [symmetric] by (simp add: take_bit_eq_mod)
qed

lemma full_pair_inj: "m < 65536 \<Longrightarrow> n < 65536 \<Longrightarrow> p_arg (full_pair m) = p_arg (full_pair n) \<longleftrightarrow> m = n"
  by (simp add: full_pair_def word_unat_eq_iff unsigned_of_nat take_bit_nat_eq_self)

lemma full_chain_ok: "i < 4096 \<Longrightarrow> chain_ok demo_objs 4096 i [full_pair i, full_pair (i + 4096), full_pair (i + 8192)]"
proof -
  assume i: "i < 4096"
  have m: "(i + 8192) mod 4096 = i" using i mod_mult_self1 [of i 2 4096] by simp
  have ok: "pair_ok demo_objs (full_pair n)" for n by (simp add: pair_ok_def full_pair_def demo_keys)
  have "distinct (map p_arg [full_pair i, full_pair (i + 4096), full_pair (i + 8192)])"
    using i full_pair_inj by simp
  moreover have "map_slot (p_hashval p) 4096 = i" if "p \<in> set [full_pair i, full_pair (i + 4096), full_pair (i + 8192)]" for p
    using that i m full_pair_slot by auto
  ultimately show ?thesis using ok by (auto simp: chain_ok_def)
qed

lemma full_map_inv: "map_inv demo_objs full_map"
proof -
  have t: "table_ok demo_objs 4096 (full_chains 4096)"
    unfolding table_ok_def full_chains_law(1)
  proof (intro conjI allI impI refl)
    fix i :: nat assume i: "i < 4096"
    show "chain_ok demo_objs 4096 i (full_chains 4096 ! i)"
      unfolding full_chains_law(3) [OF i] by (rule full_chain_ok [OF i])
  qed
  have p: "\<exists>j\<le>13. (4096 :: nat) = 2 ^ j" by (rule exI [of _ 12]) simp
  show ?thesis unfolding map_inv_def full_map_def lpc_map.simps full_chains_law
    using t p by (simp add: FSIZE_def)
qed

lemma full_map_new: "map_look full_map (T_STRING s) = None"
proof -
  have "p_arg p \<noteq> T_STRING s" if "p \<in> set (concat (m_pairs full_map))" for p
    using that by (auto simp: full_map_def full_chains_def full_pair_def)
  then have "T_STRING s \<notin> dom (map_look full_map)" unfolding map_look_dom by (metis imageE)
  then show ?thesis by (simp add: domIff)
qed

text \<open>C6. Assignment and lookup: below the size limit an assignment always succeeds, keeps the table well
  formed, and is what the next lookup of that key returns, while every other key is unaffected.\<close>

theorem mapping_put_get:
  assumes "map_inv H m" "good_key H k" "good_key H j" "m_card m < int MAP_LIMIT"
  shows "\<exists>m'. map_put H m k v = Inr m' \<and> map_inv H m' \<and> map_get H m' j = (if j = k then v else map_get H m j)"
proof -
  have "nat (m_card m) < MAP_LIMIT" using assms(4) by (simp add: nat_less_iff MAP_LIMIT_def)
  from map_put_law [OF assms(1,2) this, of v] obtain m' where
    m': "map_put H m k v = Inr m'" "map_inv H m'" "map_look m' = (map_look m)(k \<mapsto> v)" by blast
  with map_get_law [OF m'(2) assms(3)] map_get_law [OF assms(1,3)] show ?thesis by simp
qed

theorem mapping_put_get_witness:
  "\<exists>m'. map_put demo_objs demo_map (T_NUMBER 8) const1 = Inr m' \<and>
     map_get demo_objs m' (T_NUMBER 7) = map_get demo_objs demo_map (T_NUMBER 7)"
  using mapping_put_get [of demo_objs demo_map "T_NUMBER 8" "T_NUMBER 7" const1] demo_map_law demo_keys
  by (auto simp: MAP_LIMIT_def)

text \<open>C7. As long as two mappings have together at most 10240 pairs, the number up to which a mapping grows without the error
  \<^emph>\<open>too large mapping\<close>, their addition is override from the right, whether in place or into a new mapping.  Removal of a key
  from a mapping of at most 10240 pairs removes exactly that key although only one chain is searched for it.\<close>

theorem mapping_algebra:
  assumes "map_inv H m1" "map_inv H m2" "good_key H k"
  shows "(m_card m1 + m_card m2 \<le> int MAP_LIMIT \<longrightarrow>
       (\<exists>m. add_mapping H m1 m2 = Inr m \<and> map_inv H m \<and> map_look m = map_look m1 ++ map_look m2) \<and>
       (\<exists>m. addto_mapping H m1 m2 = Inr m \<and> map_inv H m \<and> map_look m = map_look m1 ++ map_look m2)) \<and>
    (m_card m1 \<le> int MAP_LIMIT \<longrightarrow>
       (\<exists>m. remove_mapping H m1 k = Inr m \<and> map_inv H m \<and> map_look m = (map_look m1)(k := None)))"
  using add_law [OF assms(1,2)] addto_law [OF assms(1,2)] remove_law [OF assms(1,3)] by blast

theorem mapping_algebra_witness:
  "(\<exists>m. add_mapping demo_objs demo_map demo_map = Inr m \<and> map_look m = map_look demo_map ++ map_look demo_map) \<and>
   (\<exists>m. remove_mapping demo_objs demo_map (T_NUMBER 7) = Inr m \<and> map_look m = Map.empty)"
  using mapping_algebra [of demo_objs demo_map demo_map "T_NUMBER 7"] demo_map_law demo_keys
  by (auto simp: MAP_LIMIT_def)

text \<open>C8. For a mapping of at most 5000 pairs \<^verbatim>\<open>m_indexes\<close> and \<^verbatim>\<open>m_values\<close> list every pair once, in the same order, and making
  a mapping of the two arrays gives the same mapping back.  A mapping may hold twice as many pairs, and for one of more than 5000 both
  raise \<^emph>\<open>Illegal array size\<close>.\<close>

theorem mapping_indexes_roundtrip:
  assumes inv: "map_inv H m"
  shows "if m_card m \<le> 5000 then
    \<exists>is vs r. map_domain m = Some is \<and> map_codomain m = Some vs \<and> distinct is \<and>
      length is = length vs \<and> int (length is) = m_card m \<and> map_of (zip is vs) = map_look m \<and>
      make_mapping H (Some is) (Some vs) = Inr r \<and> map_inv H r \<and> map_look r = map_look m
    else map_domain m = None \<and> map_codomain m = None"
proof (cases "m_card m \<le> 5000")
  case True
  let ?is = "map fst (map_items m)" and ?vs = "map snd (map_items m)"
  have z: "zip ?is ?vs = map_items m" by (simp add: zip_map_fst_snd)
  have "length (map_items m) \<le> MAP_LIMIT" using True map_items_law(3) [OF inv] by (simp add: MAP_LIMIT_def)
  with fresh_puts_law [OF map_items_law(4) [OF inv]] map_of_rev_items [OF inv] obtain r where
    "make_mapping H (Some ?is) (Some ?vs) = Inr r" "map_inv H r" "map_look r = map_look m"
    by (auto simp: make_mapping_def z)
  with True domain_items [OF inv True] map_items_law [OF inv] z show ?thesis by auto
next
  case False
  then show ?thesis by (simp add: map_domain_def map_codomain_def fill_array_def allocate_check_def MAX_ARRAY_SIZE_def)
qed

theorem mapping_indexes_roundtrip_witness:
  "\<exists>is. map_domain demo_map = Some is \<and> length is = 1"
  using mapping_indexes_roundtrip [of demo_objs demo_map] demo_map_law by auto

text \<open>\<^verbatim>\<open>map\<close> and \<^verbatim>\<open>filter\<close> on a mapping change the values, respectively keep the pairs whose value passes, of
  a copy that is again well formed.\<close>

lemma mapping_map_filter:
  assumes "map_inv H m" "m_card m < 32768"
  shows "map_inv H (fst (map_map (\<lambda>w v. (f v, w)) w m)) \<and>
    map_look (fst (map_map (\<lambda>w v. (f v, w)) w m)) = map_option f \<circ> map_look m \<and>
    map_inv H (fst (filter_map (\<lambda>w v. (f v, w)) w m)) \<and>
    (\<forall>k v. map_look (fst (filter_map (\<lambda>w v. (f v, w)) w m)) k = Some v \<longleftrightarrow> map_look m k = Some v \<and> f v \<noteq> const0)"
  using map_map_law [OF assms(1), of f w] filter_map_law [OF assms refl, of f w] by blast

text \<open>A defect: when a full table cannot be extended, the error is raised after the pair has been added, so
  the failed assignment leaves the key behind with the value 0 and the mapping grows past its limit.\<close>

lemma mapping_error_inserts:
  assumes "map_inv H m" "good_key H k" "map_look m k = None" "m_mcard m \<le> m_card m" "m_card m < 32767"
    "MAX_MAPPING_SIZE < m_size m * 2"
  shows "\<exists>m'. map_put H m k v = Inl m' \<and> map_inv H m' \<and> map_look m' = (map_look m)(k \<mapsto> const0) \<and> m_card m' = m_card m + 1"
proof -
  have new: "map_find H m k = None" using map_find_look [OF assms(1,2)] assms(3) by simp
  note a = map_add_pair_law [OF assms(1,2) new assms(5)]
  then have "rehash_map (map_add_pair m k) = Inl (map_add_pair m k)"
    using assms(6) by (simp add: rehash_map_def)
  with a assms(4) show ?thesis by (simp add: map_put_def get_map_lvalue_new [OF new])
qed

text \<open>A defect: the comparison is not symmetric.  A dead function equals 0, but 0 does not equal a dead
  function, because the fourth test of \<^verbatim>\<open>equal_svalue\<close> repeats the third with the operands unswapped.\<close>

lemma equal_svalue_asymmetric:
  assumes "\<not> legal_closure H f"
  shows "equal_svalue H (T_FUNCTION f) (T_NUMBER 0) \<and> \<not> equal_svalue H (T_NUMBER 0) (T_FUNCTION f)"
  using assms by (simp add: equal_svalue_def is_zero_def is_illegal_def is_destructed_def)

end
