(* ===== verification/Lpc_Array.thy ===== *)
theory Lpc_Array
  imports Lpc_Mapping
begin

text \<open>
  Arrays (\<^verbatim>\<open>src/array.c\<close>).  A vector is the list of its items; functions return a new vector or raise an error.
  \<^verbatim>\<open>Illegal_array_size\<close> and \<^verbatim>\<open>Too_large_mapping\<close> are the errors of \<^verbatim>\<open>allocate_array\<close> and of the mappings the set
  operations build; \<^verbatim>\<open>Fatal_index\<close> is the call of \<^verbatim>\<open>fatal()\<close> in \<^verbatim>\<open>explode_string\<close>, and \<^verbatim>\<open>Out_of_bounds\<close> an access
  outside a vector or through a null pointer, which the theorems exclude.

  The closures run by \<^verbatim>\<open>filter_arr\<close>, \<^verbatim>\<open>map_array\<close> and \<^verbatim>\<open>make_unique\<close> may change the array while it is being
  processed, so the array is read from the state of the game each time the code reads it.  Reference counts,
  the statistics of allocated arrays, \<^verbatim>\<open>users()\<close> and \<^verbatim>\<open>match_regexp()\<close> are left out.
\<close>

datatype array_error = Illegal_array_size | Too_large_mapping | Fatal_index | Out_of_bounds

definition ebind :: "'e + 'a \<Rightarrow> ('a \<Rightarrow> 'e + 'b) \<Rightarrow> 'e + 'b" where
  "ebind r f = (case r of Inl e \<Rightarrow> Inl e | Inr x \<Rightarrow> f x)"

lemma ebind_simps [simp]: "ebind (Inl e) f = Inl e" "ebind (Inr x) f = f x"
  by (simp_all add: ebind_def)

section \<open>Allocation\<close>

definition allocate_array :: "int \<Rightarrow> array_error + sval list" where
  "allocate_array n = (if allocate_check n then Inr (replicate (nat n) const0) else Inl Illegal_array_size)"

text \<open>A loop that assigns consecutive items.\<close>

definition array_store :: "sval list \<Rightarrow> nat \<Rightarrow> sval list \<Rightarrow> array_error + sval list" where
  "array_store d off xs = (case mem_write d off xs of None \<Rightarrow> Inl Out_of_bounds | Some d' \<Rightarrow> Inr d')"

section \<open>Strings\<close>

text \<open>\<^verbatim>\<open>strncmp(p, del, len) == 0\<close>.\<close>

definition at_del :: "u8 list \<Rightarrow> u8 list \<Rightarrow> bool" where
  "at_del del p \<longleftrightarrow> take (length del) p = del"

text \<open>The two scans of \<^verbatim>\<open>explode_string\<close>, reached with a non-empty delimiter only.\<close>

function explode_count :: "u8 list \<Rightarrow> u8 list \<Rightarrow> nat \<Rightarrow> bool \<Rightarrow> nat \<times> bool" where
  "explode_count del p num extra =
     (if p = [] \<or> del = [] then (num, extra)
      else if at_del del p then explode_count del (drop (length del) p) (num + 1) False
      else explode_count del (tl p) num True)"
  by pat_completeness auto

termination
  by (relation "measure (\<lambda>(del, p, _). length p)") (auto simp: length_greater_0_conv [symmetric] simp del: length_greater_0_conv)

function explode_loop ::
  "u8 list \<Rightarrow> u8 list \<Rightarrow> u8 list \<Rightarrow> nat \<Rightarrow> sval list \<Rightarrow> array_error + (u8 list \<times> nat \<times> sval list)" where
  "explode_loop del beg p num ret =
     (if p = [] \<or> del = [] then Inr (beg, num, ret)
      else if at_del del p
      then (if num \<ge> length ret then Inl Fatal_index
            else explode_loop del (drop (length del) p) (drop (length del) p) (num + 1)
                   (ret[num := T_STRING (take (length beg - length p) beg)]))
      else explode_loop del beg (tl p) num ret)"
  by pat_completeness auto

termination
  by (relation "measure (\<lambda>(del, beg, p, _). length p)") (auto simp: length_greater_0_conv [symmetric] simp del: length_greater_0_conv)

definition explode_string :: "u8 list \<Rightarrow> u8 list \<Rightarrow> array_error + sval list" where
  "explode_string str del =
     (if del = []
      then ebind (allocate_array (int (length str))) (\<lambda>ret. array_store ret 0 (map (\<lambda>c. T_STRING [c]) str))
      else if str = [] then allocate_array 0
      else let (num, extra) = explode_count del str 0 True
           in ebind (allocate_array (int (if extra then num + 1 else num))) (\<lambda>ret.
              ebind (explode_loop del str str 0 ret) (\<lambda>(beg, num, ret).
                if beg \<noteq> [] then (if num \<ge> length ret then Inl Fatal_index else Inr (ret[num := T_STRING beg]))
                else Inr ret)))"

text \<open>The length of the strings and their number, and the copying into a buffer of \<open>cap\<close> bytes; \<^verbatim>\<open>strcpy\<close>
  writes a terminator as well.\<close>

fun implode_size :: "sval list \<Rightarrow> nat \<Rightarrow> nat \<Rightarrow> nat \<times> nat" where
  "implode_size [] sz num = (sz, num)"
| "implode_size (T_STRING s # vs) sz num = implode_size vs (sz + length s) (num + 1)"
| "implode_size (_ # vs) sz num = implode_size vs sz num"

definition strcpy_at :: "nat \<Rightarrow> u8 list \<Rightarrow> u8 list \<Rightarrow> array_error + u8 list" where
  "strcpy_at cap out s = (if length out + length s + 1 \<le> cap then Inr (out @ s) else Inl Out_of_bounds)"

fun implode_loop :: "u8 list \<Rightarrow> nat \<Rightarrow> sval list \<Rightarrow> u8 list \<Rightarrow> nat \<Rightarrow> array_error + u8 list" where
  "implode_loop del cap [] out num = Inr out"
| "implode_loop del cap (T_STRING s # vs) out num =
     ebind (if num > 0 then strcpy_at cap out del else Inr out) (\<lambda>out.
     ebind (strcpy_at cap out s) (\<lambda>out. implode_loop del cap vs out (num + 1)))"
| "implode_loop del cap (_ # vs) out num = implode_loop del cap vs out num"

definition implode_string :: "sval list \<Rightarrow> u8 list \<Rightarrow> array_error + u8 list" where
  "implode_string arr del =
     (let (sz, num) = implode_size arr 0 0
      in if num = 0 then Inr [] else implode_loop del (sz + (num - 1) * length del + 1) arr [] 0)"

section \<open>Parts and sums of arrays\<close>

definition slice_array :: "sval list \<Rightarrow> int \<Rightarrow> int \<Rightarrow> array_error + sval list" where
  "slice_array p from to =
     (let sz = int (length p);
          from = (if from < 0 then sz + from else from);
          from = (if from < 0 then 0 else from)
      in if from \<ge> sz then allocate_array 0
         else let to = (if to < 0 then sz + to else to);
                  to = (if to \<ge> sz then sz - 1 else to)
              in if to < from then allocate_array 0
                 else ebind (allocate_array (to - from + 1)) (\<lambda>d.
                        array_store d 0 (map (\<lambda>cnt. p ! nat cnt) [from..to])))"

definition add_array :: "sval list \<Rightarrow> sval list \<Rightarrow> array_error + sval list" where
  "add_array p r =
     ebind (allocate_array (int (length p) + int (length r))) (\<lambda>d.
     ebind (array_store d 0 p) (\<lambda>d. array_store d (length p) r))"

section \<open>Closures over arrays\<close>

text \<open>The second loops, which copy the items whose flag is set.\<close>

definition flagged :: "bool list \<Rightarrow> sval list \<Rightarrow> sval list" where
  "flagged flags xs = map snd (filter fst (zip flags xs))"

definition is_true :: "sval \<Rightarrow> bool" where
  "is_true v \<longleftrightarrow> (case v of T_NUMBER n \<Rightarrow> n \<noteq> 0 | _ \<Rightarrow> False)"

text \<open>\<open>arr w\<close> are the items of the array in the state \<open>w\<close> of the game, \<open>f\<close> runs the closure.\<close>

fun call_loop :: "('w \<Rightarrow> sval list) \<Rightarrow> ('w \<Rightarrow> sval \<Rightarrow> sval \<times> 'w) \<Rightarrow> nat list \<Rightarrow> 'w \<Rightarrow> sval list \<times> 'w" where
  "call_loop arr f [] w = ([], w)"
| "call_loop arr f (i # is) w =
     (let (v, w1) = f w (arr w ! i); (vs, w2) = call_loop arr f is w1 in (v # vs, w2))"

definition filter_arr ::
  "('w \<Rightarrow> sval list) \<Rightarrow> ('w \<Rightarrow> sval \<Rightarrow> sval \<times> 'w) \<Rightarrow> 'w \<Rightarrow> (array_error + sval list) \<times> 'w" where
  "filter_arr arr f w =
     (let n = length (arr w)
      in if n < 1 then (allocate_array 0, w)
         else let (vs, w') = call_loop arr f [0..<n] w; flags = map is_true vs
              in (ebind (allocate_array (int (length (filter id flags)))) (\<lambda>r.
                    array_store r 0 (flagged flags (arr w'))), w'))"

definition map_array ::
  "('w \<Rightarrow> sval list) \<Rightarrow> ('w \<Rightarrow> sval \<Rightarrow> sval \<times> 'w) \<Rightarrow> 'w \<Rightarrow> (array_error + sval list) \<times> 'w" where
  "map_array arr f w =
     (case allocate_array (int (length (arr w))) of
        Inl e \<Rightarrow> (Inl e, w)
      | Inr r \<Rightarrow> (let (vs, w') = call_loop arr f [0..<length (arr w)] w in (array_store r 0 vs, w')))"

section \<open>Unique maker\<close>

text \<open>A \<^verbatim>\<open>struct unique\<close>; \<^verbatim>\<open>val\<close> points into the array, so it is an index.  The list linked by \<^verbatim>\<open>next\<close> is a list of
  the lists linked by \<^verbatim>\<open>same\<close>.\<close>

record unique =
  u_count :: int
  u_val :: nat
  u_mark :: sval

fun put_in_loop :: "objs \<Rightarrow> sval \<Rightarrow> nat \<Rightarrow> bool \<Rightarrow> unique list list \<Rightarrow> unique list list \<times> nat \<times> bool" where
  "put_in_loop H marker elem fixed [] = ([], 0, fixed)"
| "put_in_loop H marker elem fixed (l # ls) =
     (let hit = (\<not> fixed \<and> equal_svalue H marker (u_mark (hd l)));
          l' = (if hit then map (\<lambda>u. u\<lparr>u_count := u_count u + 1\<rparr>) l @ [\<lparr>u_count = 1, u_val = elem, u_mark = marker\<rparr>]
                else l);
          (ls', cnt, fixed') = put_in_loop H marker elem (fixed \<or> hit) ls
      in (l' # ls', cnt + 1, fixed'))"

definition put_in :: "objs \<Rightarrow> unique list list \<Rightarrow> sval \<Rightarrow> nat \<Rightarrow> nat \<times> unique list list" where
  "put_in H ulist marker elem =
     (let (ls, cnt, fixed) = put_in_loop H marker elem False ulist
      in if fixed then (cnt, ls) else (cnt + 1, [\<lparr>u_count = 1, u_val = elem, u_mark = marker\<rparr>] # ls))"

text \<open>\<^verbatim>\<open>v->type\<close>.\<close>

fun svalue_type :: "sval \<Rightarrow> nat" where
  "svalue_type (T_NUMBER _) = 0x2"
| "svalue_type (T_STRING _) = 0x4"
| "svalue_type (T_POINTER _) = 0x8"
| "svalue_type (T_OBJECT _) = 0x10"
| "svalue_type (T_MAPPING _) = 0x20"
| "svalue_type (T_FLOAT _) = 0x40"
| "svalue_type (T_FUNCTION _) = 0x80"

text \<open>\<open>app w ob\<close> is \<^verbatim>\<open>apply(func, ob, 0, 1)\<close>: the value returned, if the function exists.\<close>

fun unique_loop ::
  "objs \<Rightarrow> ('w \<Rightarrow> sval list) \<Rightarrow> ('w \<Rightarrow> nat \<Rightarrow> sval option \<times> 'w) \<Rightarrow> sval \<Rightarrow> nat list \<Rightarrow> nat \<Rightarrow>
     unique list list \<Rightarrow> 'w \<Rightarrow> nat \<times> unique list list \<times> 'w" where
  "unique_loop H arr app skip [] ant ul w = (ant, ul, w)"
| "unique_loop H arr app skip (i # is) ant ul w =
     (case arr w ! i of
        T_OBJECT ob \<Rightarrow>
          (let (v, w1) = app w ob
           in case v of
                None \<Rightarrow> unique_loop H arr app skip is ant ul w1
              | Some v \<Rightarrow>
                  (if svalue_type v \<noteq> svalue_type skip \<or> \<not> equal_svalue H v skip
                   then (let (ant, ul) = put_in H ul v i in unique_loop H arr app skip is ant ul w1)
                   else unique_loop H arr app skip is ant ul w1))
      | _ \<Rightarrow> unique_loop H arr app skip is ant ul w)"

text \<open>The result is an array of arrays; an item that was not assigned is \<^const>\<open>None\<close>.\<close>

fun unique_rows ::
  "sval list \<Rightarrow> nat \<Rightarrow> unique list list \<Rightarrow> sval list option list \<Rightarrow> array_error + sval list option list" where
  "unique_rows items 0 ul ret = Inr ret"
| "unique_rows items (Suc cnt) [] ret = Inl Out_of_bounds"
| "unique_rows items (Suc cnt) (u # us) ret =
     ebind (allocate_array (u_count (hd u))) (\<lambda>res.
     ebind (array_store res 0 (map (\<lambda>x. items ! u_val x) u)) (\<lambda>row.
       if us = [] then Inr (ret[cnt := Some row]) else unique_rows items cnt us (ret[cnt := Some row])))"

definition make_unique ::
  "objs \<Rightarrow> ('w \<Rightarrow> sval list) \<Rightarrow> ('w \<Rightarrow> nat \<Rightarrow> sval option \<times> 'w) \<Rightarrow> sval \<Rightarrow> 'w \<Rightarrow>
     (array_error + sval list option list) \<times> 'w" where
  "make_unique H arr app skip w =
     (if length (arr w) < 1 then (Inr [], w)
      else let (ant, ul, w') = unique_loop H arr app skip [0..<length (arr w)] 0 [] w
           in (ebind (allocate_array (int ant)) (\<lambda>ret. unique_rows (arr w') ant ul (replicate (length ret) None)), w'))"

section \<open>Inventories\<close>

record inventory =
  ob_contains :: "nat \<Rightarrow> nat option"
  ob_next_inv :: "nat \<Rightarrow> nat option"

definition all_inventory :: "inventory \<Rightarrow> nat \<Rightarrow> (array_error + sval list) option" where
  "all_inventory s ob =
     map_option (\<lambda>obs. if obs = [] then allocate_array 0
                       else ebind (allocate_array (int (length obs))) (\<lambda>d. array_store d 0 (map T_OBJECT obs)))
       (chain_from (ob_next_inv s) (ob_contains s ob))"

text \<open>\<^verbatim>\<open>deep_inventory\<close> and its loop over \<^verbatim>\<open>ainv\<close>, with what is left of \<^verbatim>\<open>ainv\<close> and the sum \<^verbatim>\<open>sinv\<close>.\<close>

datatype deep_call = Deep nat bool | Deep_loop "sval list" "sval list"

partial_function (option) deep_run :: "inventory \<Rightarrow> deep_call \<Rightarrow> (array_error + sval list) option" where
  "deep_run s c =
     (case c of
        Deep ob take_top \<Rightarrow>
          (case all_inventory s ob of
             None \<Rightarrow> None
           | Some (Inl e) \<Rightarrow> Some (Inl e)
           | Some (Inr ainv) \<Rightarrow>
               (if take_top
                then (case add_array [T_OBJECT ob] ainv of
                        Inl e \<Rightarrow> Some (Inl e)
                      | Inr dinv \<Rightarrow> deep_run s (Deep_loop (tl dinv) dinv))
                else deep_run s (Deep_loop ainv ainv)))
      | Deep_loop rest sinv \<Rightarrow>
          (case rest of
             [] \<Rightarrow> Some (Inr sinv)
           | v # vs \<Rightarrow>
               (case v of
                  T_OBJECT ob \<Rightarrow>
                    (if ob_contains s ob = None then deep_run s (Deep_loop vs sinv)
                     else do {
                       r \<leftarrow> deep_run s (Deep ob False);
                       (case r of
                          Inl e \<Rightarrow> Some (Inl e)
                        | Inr dinv \<Rightarrow>
                            (case add_array sinv dinv of
                               Inl e \<Rightarrow> Some (Inl e)
                             | Inr tinv \<Rightarrow> deep_run s (Deep_loop vs tinv))) })
                | _ \<Rightarrow> None)))"

definition deep_inventory :: "inventory \<Rightarrow> nat \<Rightarrow> bool \<Rightarrow> (array_error + sval list) option" where
  "deep_inventory s ob take_top = deep_run s (Deep ob take_top)"

section \<open>Set operations\<close>

datatype setarr = SETARR_SUBTRACT | SETARR_INTERSECT

text \<open>\<^verbatim>\<open>get_map_lvalue(m, k, 0) != &const0\<close>.\<close>

definition in_mapping :: "objs \<Rightarrow> lpc_map \<Rightarrow> sval \<Rightarrow> bool" where
  "in_mapping H m k \<longleftrightarrow>
     (case get_map_lvalue H m k False of Inl _ \<Rightarrow> False | Inr (_, Dummy) \<Rightarrow> False | Inr (_, Slot _) \<Rightarrow> True)"

definition map_result :: "lpc_map + lpc_map \<Rightarrow> array_error + lpc_map" where
  "map_result r = (case r of Inl _ \<Rightarrow> Inl Too_large_mapping | Inr m \<Rightarrow> Inr m)"

definition set_manipulate_array :: "objs \<Rightarrow> sval list \<Rightarrow> sval list \<Rightarrow> setarr \<Rightarrow> array_error + sval list" where
  "set_manipulate_array H arr1 arr2 op =
     (if length arr1 < 1 \<or> length arr2 < 1
      then (case op of SETARR_SUBTRACT \<Rightarrow> Inr arr1 | SETARR_INTERSECT \<Rightarrow> allocate_array 0)
      else ebind (map_result (make_mapping H (Some arr2) None)) (\<lambda>m.
           ebind (map_result (map_put H m (arr2 ! 0) const1)) (\<lambda>m.
             let flags = map (\<lambda>x. case op of SETARR_INTERSECT \<Rightarrow> in_mapping H m x
                                             | SETARR_SUBTRACT \<Rightarrow> \<not> in_mapping H m x) arr1
             in ebind (allocate_array (int (length (filter id flags)))) (\<lambda>r.
                  if filter id flags \<noteq> [] then array_store r 0 (flagged flags arr1) else Inr r))))"

definition intersect_array :: "objs \<Rightarrow> sval list \<Rightarrow> sval list \<Rightarrow> array_error + sval list" where
  "intersect_array H arr1 arr2 = set_manipulate_array H arr1 arr2 SETARR_INTERSECT"

definition subtract_array :: "objs \<Rightarrow> sval list \<Rightarrow> sval list \<Rightarrow> array_error + sval list" where
  "subtract_array H arr1 arr2 = set_manipulate_array H arr1 arr2 SETARR_SUBTRACT"

definition union_array :: "objs \<Rightarrow> sval list \<Rightarrow> sval list \<Rightarrow> array_error + sval list" where
  "union_array H arr1 arr2 =
     (if arr1 = [] then Inr arr2
      else if arr2 = [] then Inr arr1
      else ebind (map_result (map_puts H (allocate_map (int (length arr1))) (map (\<lambda>x. (x, const1)) arr1))) (\<lambda>mp.
             let flags = map (\<lambda>x. \<not> in_mapping H mp x) arr2
             in ebind (allocate_array (int (length arr1) + int (length (filter id flags)))) (\<lambda>arr3.
                ebind (array_store arr3 0 arr1) (\<lambda>arr3. array_store arr3 (length arr1) (flagged flags arr2)))))"
section \<open>Storing what was allocated\<close>

lemma mem_write_whole: "length xs = length d \<Longrightarrow> mem_write d 0 xs = Some xs"
  by (simp add: mem_write_def)

lemma array_store_whole: "length xs = length d \<Longrightarrow> array_store d 0 xs = Inr xs"
  by (simp add: array_store_def mem_write_whole)

lemma allocate_ok: "n \<le> MAX_ARRAY_SIZE \<Longrightarrow> allocate_array (int n) = Inr (replicate n const0)"
  by (simp add: allocate_array_def allocate_check_def)

lemma allocate_fails: "MAX_ARRAY_SIZE < n \<Longrightarrow> allocate_array (int n) = Inl Illegal_array_size"
  by (simp add: allocate_array_def allocate_check_def)

lemma alloc_store:
  "length xs = n \<Longrightarrow> n \<le> MAX_ARRAY_SIZE \<Longrightarrow> ebind (allocate_array (int n)) (\<lambda>d. array_store d 0 xs) = Inr xs"
  by (simp add: allocate_ok array_store_whole)

lemma alloc_store_two:
  assumes "length xs + length ys \<le> MAX_ARRAY_SIZE" "n = int (length xs) + int (length ys)"
  shows "ebind (allocate_array n) (\<lambda>d. ebind (array_store d 0 xs) (\<lambda>d. array_store d (length xs) ys)) = Inr (xs @ ys)"
proof -
  have "allocate_array n = Inr (replicate (length xs + length ys) const0)"
    using allocate_ok [OF assms(1)] assms(2) by simp
  then show ?thesis by (simp add: array_store_def mem_write_def)
qed

section \<open>Explode and implode\<close>

text \<open>The reference: the pieces of a string, a piece that would be empty at the end being dropped.\<close>

function split_del :: "u8 list \<Rightarrow> u8 list \<Rightarrow> u8 list \<Rightarrow> u8 list list" where
  "split_del del cur p =
     (if p = [] \<or> del = [] then (if cur = [] then [] else [cur])
      else if at_del del p then cur # split_del del [] (drop (length del) p)
      else split_del del (cur @ [hd p]) (tl p))"
  by pat_completeness auto

termination
  by (relation "measure (\<lambda>(del, cur, p). length p)") (auto simp: length_greater_0_conv [symmetric] simp del: length_greater_0_conv)

declare explode_count.simps [simp del] explode_loop.simps [simp del] split_del.simps [simp del]

lemma split_del_Nil: "split_del del cur [] = (if cur = [] then [] else [cur])"
  by (subst split_del.simps) simp

lemma split_del_at: "del \<noteq> [] \<Longrightarrow> p \<noteq> [] \<Longrightarrow> at_del del p \<Longrightarrow>
    split_del del cur p = cur # split_del del [] (drop (length del) p)"
  by (subst split_del.simps) simp

lemma split_del_not: "del \<noteq> [] \<Longrightarrow> \<not> at_del del (c # p) \<Longrightarrow> split_del del cur (c # p) = split_del del (cur @ [c]) p"
  by (subst split_del.simps) simp

lemma del_shorter: "del \<noteq> [] \<Longrightarrow> p \<noteq> [] \<Longrightarrow> length (drop (length del) p) < length p"
  by (simp add: length_greater_0_conv [symmetric] del: length_greater_0_conv)

lemma scan_induct [consumes 1, case_names Nil at not]:
  assumes del: "del \<noteq> []"
    and "\<And>x. P x []"
    and "\<And>x p. p \<noteq> [] \<Longrightarrow> at_del del p \<Longrightarrow> (\<And>y. P y (drop (length del) p)) \<Longrightarrow> P x p"
    and "\<And>x c p. \<not> at_del del (c # p) \<Longrightarrow> (\<And>y. P y p) \<Longrightarrow> P x (c # p)"
  shows "P x p"
proof (induction p arbitrary: x rule: length_induct)
  case (1 p)
  show ?case
  proof (cases "p = []")
    case True
    with assms(2) show ?thesis by simp
  next
    case False
    then obtain c q where p: "p = c # q" by (cases p) auto
    show ?thesis
    proof (cases "at_del del p")
      case True
      with 1 False assms(3) [OF False True] del_shorter [OF del False] show ?thesis by blast
    next
      case n: False
      with 1 p show ?thesis using assms(4) [of c q x] by simp
    qed
  qed
qed

lemma explode_count_law:
  assumes del: "del \<noteq> []"
  shows "(p \<noteq> [] \<or> extra = (cur \<noteq> [])) \<longrightarrow> (case explode_count del p num extra of (n, e) \<Rightarrow> (if e then n + 1 else n)) =
    num + length (split_del del cur p)"
proof (induction "(cur, num, extra)" p arbitrary: cur num extra rule: scan_induct [OF del])
  case 1
  show ?case by (simp add: split_del_Nil explode_count.simps [of del "[]"])
next
  case (2 p)
  then show ?case
    using del 2(3) [of False "[]" "Suc num"] by (simp add: split_del_at explode_count.simps [of del p])
next
  case (3 c p)
  then show ?case using del by (simp add: split_del_not explode_count.simps [of del "c # p"])
qed

definition explode_end :: "u8 list \<times> nat \<times> sval list \<Rightarrow> array_error + sval list" where
  "explode_end = (\<lambda>(beg, num, ret).
     if beg \<noteq> [] then (if num \<ge> length ret then Inl Fatal_index else Inr (ret[num := T_STRING beg])) else Inr ret)"

lemma explode_loop_law:
  assumes del: "del \<noteq> []"
  shows "length ret = num + length (split_del del cur p) \<longrightarrow>
    ebind (explode_loop del (cur @ p) p num ret) explode_end = Inr (take num ret @ map T_STRING (split_del del cur p))"
proof (induction "(cur, num, ret)" p arbitrary: cur num ret rule: scan_induct [OF del])
  case 1
  show ?case
    by (simp add: split_del_Nil explode_loop.simps [of del _ "[]"] explode_end_def take_Suc_conv_app_nth
        upd_conv_take_nth_drop)
next
  case (2 p)
  then show ?case
    using del 2(3) [of "ret[num := T_STRING cur]" "Suc num" "[]"]
    by (simp add: split_del_at explode_loop.simps [of del _ p] take_Suc_conv_app_nth)
next
  case (3 c p)
  then show ?case
    using del 3(2) [of ret num "cur @ [c]"] by (simp add: split_del_not explode_loop.simps [of del _ "c # p"])
qed
lemma explode_law:
  assumes "del \<noteq> []"
  shows "explode_string str del =
    (if length (split_del del [] str) \<le> MAX_ARRAY_SIZE then Inr (map T_STRING (split_del del [] str))
     else Inl Illegal_array_size)"
proof (cases "str = []")
  case True
  with assms show ?thesis by (simp add: explode_string_def split_del_Nil allocate_array_def allocate_check_def)
next
  case False
  obtain n e where ne: "explode_count del str 0 True = (n, e)" by force
  then have len: "(if e then n + 1 else n) = length (split_del del [] str)"
    using explode_count_law [OF assms, of str True "[]" 0] False by simp
  have "explode_string str del =
      ebind (allocate_array (int (length (split_del del [] str)))) (\<lambda>ret. ebind (explode_loop del str str 0 ret) explode_end)"
    using assms False ne len by (simp add: explode_string_def explode_end_def)
  then show ?thesis
    using explode_loop_law [OF assms, of "replicate (length (split_del del [] str)) const0" 0 "[]" str]
    by (simp add: allocate_ok allocate_fails)
qed

text \<open>Joining pieces with a separator, and the strings among the items of an array.\<close>

fun join :: "u8 list \<Rightarrow> u8 list list \<Rightarrow> u8 list" where
  "join del [] = []"
| "join del [s] = s"
| "join del (s # t # ts) = s @ del @ join del (t # ts)"

fun strings_of :: "sval list \<Rightarrow> u8 list list" where
  "strings_of [] = []"
| "strings_of (T_STRING s # vs) = s # strings_of vs"
| "strings_of (_ # vs) = strings_of vs"

lemma strings_of_map [simp]: "strings_of (map T_STRING ss) = ss"
  by (induction ss) simp_all

lemma join_Cons: "ss \<noteq> [] \<Longrightarrow> join del (s # ss) = s @ del @ join del ss"
  by (cases ss) simp_all

lemma implode_size_law:
  "implode_size arr sz num = (sz + length (concat (strings_of arr)), num + length (strings_of arr))"
  by (induction arr sz num rule: implode_size.induct) simp_all

lemma implode_loop_law:
  assumes "length out + length (concat (strings_of arr)) +
      (if num > 0 then length (strings_of arr) else length (strings_of arr) - 1) * length del + 1 \<le> cap"
  shows "implode_loop del cap arr out num = Inr (out @
      (if num > 0 \<and> strings_of arr \<noteq> [] then del else []) @ join del (strings_of arr))"
  using assms
proof (induction del cap arr out num rule: implode_loop.induct)
  case (2 del cap s vs out num)
  let ?out = "if num > 0 then out @ del else out"
  have "strings_of vs = [] \<or> length (strings_of vs) = Suc (length (strings_of vs) - 1)" by (cases "strings_of vs") auto
  then have b: "length ?out + length s + 1 \<le> cap"
      "length (?out @ s) + length (concat (strings_of vs)) + length (strings_of vs) * length del + 1 \<le> cap"
    using 2(2) by auto
  have "(if num > 0 then strcpy_at cap out del else Inr out) = Inr ?out" using b(1) by (cases "num > 0") (auto simp: strcpy_at_def)
  moreover have "strcpy_at cap ?out s = Inr (?out @ s)" using b(1) by (simp add: strcpy_at_def)
  moreover have "implode_loop del cap vs (?out @ s) (num + 1) =
      Inr ((?out @ s) @ (if strings_of vs \<noteq> [] then del else []) @ join del (strings_of vs))"
    using 2(1) [of "?out @ s"] b(2) by simp
  ultimately show ?case by (cases "strings_of vs") simp_all
qed (simp_all cong: if_cong)

text \<open>The buffer that \<^verbatim>\<open>implode_string\<close> allocates is exactly large enough.\<close>

lemma implode_law: "implode_string arr del = Inr (join del (strings_of arr))"
proof (cases "strings_of arr = []")
  case False
  then show ?thesis using implode_loop_law [of "[]" arr 0 del]
    by (simp add: implode_string_def implode_size_law Let_def)
qed (simp add: implode_string_def implode_size_law)

lemma split_del_eq_Nil:
  assumes del: "del \<noteq> []"
  shows "split_del del cur p = [] \<longleftrightarrow> cur = [] \<and> p = []"
  using del
proof (induction cur p rule: scan_induct)
  case (at x p)
  with del show ?case by (simp add: split_del_at)
qed (use del in \<open>auto simp: split_del_Nil split_del_not\<close>)

lemma join_split:
  assumes del: "del \<noteq> []"
  shows "cur @ p = join del (split_del del cur p) \<or> cur @ p = join del (split_del del cur p) @ del"
  using del
proof (induction cur p rule: scan_induct)
  case (at cur p)
  let ?q = "drop (length del) p"
  have p: "p = del @ ?q" using at(2) unfolding at_del_def by (metis append_take_drop_id)
  show ?case
  proof (cases "?q = []")
    case True
    with at p del show ?thesis by (simp add: split_del_at split_del_Nil)
  next
    case False
    then have "split_del del [] ?q \<noteq> []" using split_del_eq_Nil [OF del, of "[]" ?q] by simp
    then have "join del (split_del del cur p) = cur @ del @ join del (split_del del [] ?q)"
      using at(1,2) del by (simp add: split_del_at join_Cons)
    with at(3) [of "[]"] p show ?thesis by (metis append.assoc append_Nil)
  qed
next
  case (not cur c p)
  with not(2) [of "cur @ [c]"] del show ?case by (simp add: split_del_not)
qed (simp add: split_del_Nil)

lemma at_del_append: "at_del del p \<Longrightarrow> at_del del (p @ q)"
  by (metis append_take_drop_id append.assoc append_eq_conv_conj at_del_def)

lemma split_del_free:
  assumes del: "del \<noteq> []"
  shows "(\<forall>i<length cur. \<not> at_del del (drop i (cur @ p))) \<longrightarrow>
    (\<forall>s\<in>set (split_del del cur p). \<forall>i. \<not> at_del del (drop i s))"
  using del
proof (induction cur p rule: scan_induct)
  case (Nil cur)
  have "\<not> at_del del (drop i cur)" if "\<forall>i<length cur. \<not> at_del del (drop i cur)" for i
    using that del by (cases "i < length cur") (auto simp: at_del_def)
  then show ?case by (simp add: split_del_Nil)
next
  case (at cur p)
  have "\<not> at_del del (drop i cur)" if h: "\<forall>i<length cur. \<not> at_del del (drop i (cur @ p))" for i
    using h del at_del_append [of del "drop i cur" p] by (cases "i < length cur") (auto simp: at_del_def)
  with at(3) [of "[]"] show ?case by (simp add: split_del_at [OF del at(1,2)])
next
  case (not cur c p)
  have "\<forall>i<length (cur @ [c]). \<not> at_del del (drop i ((cur @ [c]) @ p))"
    if "\<forall>i<length cur. \<not> at_del del (drop i (cur @ c # p))"
    using that not(1) by (auto simp: less_Suc_eq)
  with not(2) [of "cur @ [c]"] not(1) del show ?case by (simp add: split_del_not)
qed

lemma split_del_one: "d \<notin> set s \<Longrightarrow> split_del [d] cur (s @ p) = split_del [d] (cur @ s) p"
  by (induction s arbitrary: cur) (auto simp: split_del_not at_del_def)

lemma split_join_one:
  "ss \<noteq> [] \<Longrightarrow> \<forall>s\<in>set ss. d \<notin> set s \<Longrightarrow> last ss \<noteq> [] \<Longrightarrow> split_del [d] [] (join [d] ss) = ss"
proof (induction ss rule: induct_list012)
  case (2 s)
  then show ?case using split_del_one [of d s "[]" "[]"] by (simp add: split_del_Nil)
next
  case (3 s t ss)
  then show ?case by (simp add: split_del_one split_del_at at_del_def)
qed simp

section \<open>Parts and sums\<close>

lemma add_array_law:
  "add_array p r = (if length p + length r \<le> MAX_ARRAY_SIZE then Inr (p @ r) else Inl Illegal_array_size)"
proof (cases "length p + length r \<le> MAX_ARRAY_SIZE")
  case True
  then show ?thesis by (simp add: add_array_def alloc_store_two)
next
  case False
  then have "allocate_array (int (length p) + int (length r)) = Inl Illegal_array_size"
    using allocate_fails [of "length p + length r"] by simp
  with False show ?thesis by (simp add: add_array_def)
qed

text \<open>The first and the last index of a slice: negative ones count from the end, then they are clipped.\<close>

definition slice_from :: "nat \<Rightarrow> int \<Rightarrow> nat" where
  "slice_from n from = nat (if from < 0 then int n + from else from)"

definition slice_end :: "nat \<Rightarrow> int \<Rightarrow> nat" where
  "slice_end n to = min n (nat ((if to < 0 then int n + to else to) + 1))"

lemma map_nth_interval:
  "0 \<le> a \<Longrightarrow> b < int (length p) \<Longrightarrow> map (\<lambda>c. p ! nat c) [a..b] = drop (nat a) (take (nat (b + 1)) p)"
proof (rule nth_equalityI)
  assume ab: "0 \<le> a" "b < int (length p)"
  show "length (map (\<lambda>c. p ! nat c) [a..b]) = length (drop (nat a) (take (nat (b + 1)) p))" using ab by simp
  fix i assume "i < length (map (\<lambda>c. p ! nat c) [a..b])"
  then have i: "int i < b - a + 1" by simp
  then have "nat a + i < nat (b + 1)" "nat a \<le> length (take (nat (b + 1)) p)" using ab by auto
  with ab i show "map (\<lambda>c. p ! nat c) [a..b] ! i = drop (nat a) (take (nat (b + 1)) p) ! i"
    by (simp add: nat_add_distrib)
qed

lemma allocate_none [simp]: "allocate_array 0 = Inr []"
  by (simp add: allocate_array_def allocate_check_def)

lemma slice_law:
  assumes "length p \<le> MAX_ARRAY_SIZE"
  shows "slice_array p from to = Inr (drop (slice_from (length p) from) (take (slice_end (length p) to) p))"
proof -
  define n where "n = int (length p)"
  define a where "a = (if (if from < 0 then n + from else from) < 0 then 0 else if from < 0 then n + from else from)"
  define b where "b = (if n \<le> (if to < 0 then n + to else to) then n - 1 else if to < 0 then n + to else to)"
  have ab: "slice_from (length p) from = nat a" "slice_end (length p) to = nat (b + 1)" "0 \<le> a" "b < n"
    unfolding slice_from_def slice_end_def a_def b_def n_def by (simp_all split: if_split)
  have "slice_array p from to = (if a \<ge> n \<or> b < a then Inr [] else
      ebind (allocate_array (b - a + 1)) (\<lambda>d. array_store d 0 (map (\<lambda>c. p ! nat c) [a..b])))"
    unfolding slice_array_def Let_def n_def [symmetric] a_def [symmetric] b_def [symmetric] by simp
  also have "\<dots> = Inr (drop (nat a) (take (nat (b + 1)) p))"
  proof (cases "a \<ge> n \<or> b < a")
    case True
    then have "length p \<le> nat a \<or> nat (b + 1) \<le> nat a" by (auto simp: n_def)
    with True show ?thesis by auto
  next
    case False
    have "length (map (\<lambda>c. p ! nat c) [a..b]) = nat (b - a + 1)" by (simp add: algebra_simps)
    moreover have "nat (b - a + 1) \<le> MAX_ARRAY_SIZE" using assms ab(3,4) unfolding n_def by linarith
    ultimately have "ebind (allocate_array (int (nat (b - a + 1)))) (\<lambda>d. array_store d 0 (map (\<lambda>c. p ! nat c) [a..b]))
        = Inr (map (\<lambda>c. p ! nat c) [a..b])" by (rule alloc_store)
    with False map_nth_interval [of a b p] ab(3,4) show ?thesis by (simp add: n_def)
  qed
  finally show ?thesis by (simp add: ab(1,2))
qed

section \<open>Closures\<close>

lemma call_loop_length: "length (fst (call_loop arr f is w)) = length is"
  by (induction "is" arbitrary: w) (simp_all add: Let_def split_beta)

lemma call_loop_keeps:
  assumes "\<And>w v. P (snd (f w v)) = P w"
  shows "P (snd (call_loop arr f is w)) = P w"
  using assms by (induction "is" arbitrary: w) (simp_all add: Let_def split_beta)

lemma call_loop_pure:
  assumes "\<And>w v. fst (f w v) = g v" "\<And>w v. arr (snd (f w v)) = arr w"
  shows "fst (call_loop arr f is w) = map (\<lambda>i. g (arr w ! i)) is"
  using assms by (induction "is" arbitrary: w) (simp_all add: Let_def split_beta)

lemma flagged_length: "length flags = length xs \<Longrightarrow> length (flagged flags xs) = length (filter id flags)"
  unfolding flagged_def by (induction flags xs rule: list_induct2) simp_all

lemma flagged_map: "flagged (map P xs) xs = filter P xs"
  by (induction xs) (simp_all add: flagged_def)

lemma filter_arr_run:
  assumes "length (arr w) \<le> MAX_ARRAY_SIZE" "\<And>w v. length (arr (snd (f w v))) = length (arr w)"
  shows "fst (filter_arr arr f w) =
    Inr (flagged (map is_true (fst (call_loop arr f [0..<length (arr w)] w))) (arr (snd (filter_arr arr f w))))"
proof (cases "length (arr w) < 1")
  case True
  then show ?thesis by (simp add: filter_arr_def Let_def flagged_def)
next
  case False
  let ?r = "call_loop arr f [0..<length (arr w)] w" and ?fs = "map is_true (fst (call_loop arr f [0..<length (arr w)] w))"
  have l: "length (arr (snd ?r)) = length (arr w)" by (rule call_loop_keeps) (rule assms(2))
  have fl: "length (flagged ?fs (arr (snd ?r))) = length (filter id ?fs)"
    by (rule flagged_length) (simp add: l call_loop_length)
  have "length (filter id ?fs) \<le> length ?fs" by (rule length_filter_le)
  then have "length (filter id ?fs) \<le> MAX_ARRAY_SIZE" using assms(1) by (simp add: call_loop_length)
  from alloc_store [OF fl this] show ?thesis using False by (simp add: filter_arr_def Let_def split_beta)
qed

lemma map_array_run:
  assumes "length (arr w) \<le> MAX_ARRAY_SIZE"
  shows "fst (map_array arr f w) = Inr (fst (call_loop arr f [0..<length (arr w)] w))"
  using assms by (simp add: map_array_def allocate_ok Let_def split_beta array_store_whole call_loop_length)

section \<open>The unique maker\<close>

abbreviation u_key :: "unique list \<Rightarrow> sval" where
  "u_key l \<equiv> u_mark (hd l)"

definition bump :: "sval \<Rightarrow> nat \<Rightarrow> unique list \<Rightarrow> unique list" where
  "bump v i l = map (\<lambda>u. u\<lparr>u_count := u_count u + 1\<rparr>) l @ [\<lparr>u_count = 1, u_val = i, u_mark = v\<rparr>]"

lemma put_in_loop_fixed: "put_in_loop H v i True ul = (ul, length ul, True)"
  by (induction ul) simp_all

lemma put_in_loop_miss:
  "\<forall>l\<in>set ul. \<not> equal_svalue H v (u_key l) \<Longrightarrow> put_in_loop H v i False ul = (ul, length ul, False)"
  by (induction ul) simp_all

lemma put_in_loop_hit:
  "\<forall>l\<in>set xs. \<not> equal_svalue H v (u_key l) \<Longrightarrow> equal_svalue H v (u_key l) \<Longrightarrow>
    put_in_loop H v i False (xs @ l # ys) = (xs @ bump v i l # ys, length (xs @ l # ys), True)"
  by (induction xs) (simp_all add: put_in_loop_fixed bump_def)

text \<open>Either the first group with an equal mark grows, or a new group is put in front.\<close>

lemma put_in_cases:
  obtains (hit) xs l ys where "ul = xs @ l # ys" "\<forall>x\<in>set xs. \<not> equal_svalue H v (u_key x)"
    "equal_svalue H v (u_key l)" "put_in H ul v i = (length ul, xs @ bump v i l # ys)"
  | (new) "\<forall>l\<in>set ul. \<not> equal_svalue H v (u_key l)"
    "put_in H ul v i = (Suc (length ul), [\<lparr>u_count = 1, u_val = i, u_mark = v\<rparr>] # ul)"
proof (cases "\<exists>l\<in>set ul. equal_svalue H v (u_key l)")
  case True
  from split_list_first_prop [OF True] obtain xs l ys where
    "ul = xs @ l # ys" "equal_svalue H v (u_key l)" "\<forall>x\<in>set xs. \<not> equal_svalue H v (u_key x)" by blast
  with hit put_in_loop_hit [of xs H v l i ys] show thesis by (simp add: put_in_def)
next
  case False
  with new put_in_loop_miss [of ul H v i] show thesis by (simp add: put_in_def)
qed

lemma bump_simps [simp]:
  "bump v i l \<noteq> []" "length (bump v i l) = Suc (length l)" "l \<noteq> [] \<Longrightarrow> u_key (bump v i l) = u_key l"
  "l \<noteq> [] \<Longrightarrow> u_count (hd (bump v i l)) = u_count (hd l) + 1" "map u_val (bump v i l) = map u_val l @ [i]"
  by (cases l; simp add: bump_def o_def)+

text \<open>Groups are never empty and count their members.\<close>

definition groups_ok :: "unique list list \<Rightarrow> bool" where
  "groups_ok ul \<longleftrightarrow> (\<forall>l\<in>set ul. l \<noteq> [] \<and> u_count (hd l) = int (length l))"

lemma put_in_ok:
  assumes "groups_ok ul" "put_in H ul v i = (n, ul')"
  shows "groups_ok ul' \<and> n = length ul' \<and> length (concat ul') = Suc (length (concat ul))"
  using assms by (cases rule: put_in_cases [of ul H v i]) (auto simp: groups_ok_def)

lemma unique_loop_ok:
  assumes "groups_ok ul"
  shows "case unique_loop H arr app skip js (length ul) ul w of (n, ul', w') \<Rightarrow>
    groups_ok ul' \<and> n = length ul' \<and> length (concat ul') \<le> length (concat ul) + length js"
  using assms
proof (induction js arbitrary: ul w)
  case (Cons i js)
  have skip: "case unique_loop H arr app skip js (length ul) ul w1 of (n, ul', w') \<Rightarrow>
      groups_ok ul' \<and> n = length ul' \<and> length (concat ul') \<le> length (concat ul) + length (i # js)" for w1
    using Cons.IH [OF Cons.prems, of w1] by (auto split: prod.splits)
  have put: "case put_in H ul v i of (n, ul') \<Rightarrow> case unique_loop H arr app skip js n ul' w1 of (n, ul', w') \<Rightarrow>
      groups_ok ul' \<and> n = length ul' \<and> length (concat ul') \<le> length (concat ul) + length (i # js)" for v w1
  proof -
    obtain n ul' where p: "put_in H ul v i = (n, ul')" by force
    from put_in_ok [OF Cons.prems p] Cons.IH [of ul' w1] show ?thesis by (auto simp: p split: prod.splits)
  qed
  show ?case
    using skip put
    by (cases "arr w ! i") (simp_all add: Let_def split_beta split: option.split)
qed simp

definition row :: "sval list \<Rightarrow> unique list \<Rightarrow> sval list" where
  "row items l = map (\<lambda>u. items ! u_val u) l"

lemma unique_rows_law:
  assumes "groups_ok ul" "length (concat ul) \<le> MAX_ARRAY_SIZE" "length ul \<le> length ret"
  shows "unique_rows items (length ul) ul ret =
    Inr (map (\<lambda>l. Some (row items l)) (rev ul) @ drop (length ul) ret)"
  using assms
proof (induction ul arbitrary: ret)
  case (Cons l ul)
  have "ebind (allocate_array (int (length l))) (\<lambda>res. array_store res 0 (row items l)) = Inr (row items l)"
    using Cons.prems by (intro alloc_store) (simp_all add: row_def)
  then obtain res where "allocate_array (int (length l)) = Inr res" "array_store res 0 (row items l) = Inr (row items l)"
    by (auto simp: ebind_def split: sum.splits)
  moreover have "u_count (hd l) = int (length l)" using Cons.prems by (simp add: groups_ok_def)
  ultimately have "unique_rows items (length (l # ul)) (l # ul) ret =
      (if ul = [] then Inr (ret[length ul := Some (row items l)])
       else unique_rows items (length ul) ul (ret[length ul := Some (row items l)]))"
    by (simp add: row_def)
  moreover have "drop (length ul) (ret[length ul := Some (row items l)]) = Some (row items l) # drop (Suc (length ul)) ret"
    using Cons.prems(3) by (simp add: upd_conv_take_nth_drop)
  moreover have "ret[0 := x] = x # drop (Suc 0) ret" if "ul = []" for x
    using that Cons.prems(3) by (cases ret) simp_all
  moreover have "unique_rows items (length ul) ul (ret[length ul := Some (row items l)]) =
      Inr (map (\<lambda>l. Some (row items l)) (rev ul) @ drop (length ul) (ret[length ul := Some (row items l)]))"
    using Cons.prems by (intro Cons.IH) (simp_all add: groups_ok_def)
  ultimately show ?case by auto
qed simp

lemma make_unique_run:
  assumes "length (arr w) \<le> MAX_ARRAY_SIZE"
  shows "case unique_loop H arr app skip [0..<length (arr w)] 0 [] w of (n, ul, w') \<Rightarrow>
    groups_ok ul \<and> make_unique H arr app skip w = (Inr (map (\<lambda>l. Some (row (arr w') l)) (rev ul)), w')"
proof (cases "length (arr w) < 1")
  case True
  then show ?thesis by (simp add: make_unique_def groups_ok_def)
next
  case False
  obtain n ul w' where r: "unique_loop H arr app skip [0..<length (arr w)] 0 [] w = (n, ul, w')" by (metis prod_cases3)
  from unique_loop_ok [where ul = "[]" and H = H and arr = arr and app = app and skip = skip and js = "[0..<length (arr w)]" and w = w] r have
    g: "groups_ok ul" "n = length ul" "length (concat ul) \<le> length (arr w)" by (simp_all add: groups_ok_def)
  have "length ul \<le> length (concat ul)"
    using g(1)
  proof (induction ul)
    case (Cons l ul)
    then show ?case by (cases l) (simp_all add: groups_ok_def)
  qed simp
  with g assms have "length ul \<le> MAX_ARRAY_SIZE" by simp
  with unique_rows_law [OF g(1), of "replicate (length ul) None" "arr w'"] g assms r False
  show ?thesis by (simp add: make_unique_def allocate_ok)
qed

text \<open>The keys in the order of their first appearance.\<close>

definition firsts :: "'a list \<Rightarrow> 'a list" where
  "firsts xs = foldl (\<lambda>vs v. if v \<in> set vs then vs else vs @ [v]) [] xs"

lemma firsts_snoc: "firsts (xs @ [x]) = (if x \<in> set (firsts xs) then firsts xs else firsts xs @ [x])"
  by (simp add: firsts_def)

lemma set_firsts [simp]: "set (firsts xs) = set xs"
  by (induction xs rule: rev_induct) (auto simp: firsts_snoc, simp add: firsts_def)

lemma distinct_firsts [simp]: "distinct (firsts xs)"
  by (induction xs rule: rev_induct) (simp_all add: firsts_snoc, simp add: firsts_def)

text \<open>The value an item is grouped by, if any.\<close>

definition group_key :: "(nat \<Rightarrow> sval option) \<Rightarrow> sval \<Rightarrow> sval \<Rightarrow> sval option" where
  "group_key g skip x =
     (case x of T_OBJECT ob \<Rightarrow> (case g ob of Some v \<Rightarrow> if v = skip then None else Some v | None \<Rightarrow> None) | _ \<Rightarrow> None)"

definition keys_of :: "('i \<Rightarrow> sval option) \<Rightarrow> 'i list \<Rightarrow> sval list" where
  "keys_of mk js = List.map_filter mk js"

lemma keys_of_snoc: "keys_of mk (js @ [j]) = keys_of mk js @ (case mk j of None \<Rightarrow> [] | Some v \<Rightarrow> [v])"
  by (simp add: keys_of_def map_filter_def split: option.split)

lemma set_keys_of: "v \<in> set (keys_of mk js) \<longleftrightarrow> (\<exists>j\<in>set js. mk j = Some v)"
  by (force simp: keys_of_def map_filter_def)

text \<open>The groups hold the indices processed so far by their key, latest group first.\<close>

definition grouped :: "(nat \<Rightarrow> sval option) \<Rightarrow> nat list \<Rightarrow> unique list list \<Rightarrow> bool" where
  "grouped mk js ul \<longleftrightarrow> map u_key (rev ul) = firsts (keys_of mk js) \<and>
     (\<forall>l\<in>set ul. l \<noteq> [] \<and> map u_val l = filter (\<lambda>j. mk j = Some (u_key l)) js)"

lemma grouped_keys: "grouped mk js ul \<Longrightarrow> u_key ` set ul = set (keys_of mk js)"
  unfolding grouped_def by (metis list.set_map set_firsts set_rev)

lemma grouped_distinct: "grouped mk js ul \<Longrightarrow> distinct (map u_key ul)"
  unfolding grouped_def by (metis distinct_firsts distinct_rev rev_map)

lemma put_in_grouped:
  assumes g: "grouped mk js ul" and j: "mk j = Some v" and good: "\<And>i u. mk i = Some u \<Longrightarrow> good_key H u"
    and p: "put_in H ul v j = (n, ul')"
  shows "grouped mk (js @ [j]) ul'"
proof -
  have eq: "equal_svalue H v (u_key l) \<longleftrightarrow> v = u_key l" if "l \<in> set ul" for l
  proof -
    have "u_key l \<in> set (keys_of mk js)" using grouped_keys [OF g] that by blast
    then obtain i where "mk i = Some (u_key l)" by (auto simp: set_keys_of)
    from equal_good [OF good [OF j] good [OF this]] show ?thesis .
  qed
  show ?thesis
  proof (cases rule: put_in_cases [of ul H v j])
    case (hit xs l ys)
    have l: "u_key l = v" "l \<noteq> []" using hit(1,3) eq [of l] g by (auto simp: grouped_def)
    have others: "u_key x \<noteq> v" if "x \<in> set xs \<union> set ys" for x
    proof -
      have "v \<notin> u_key ` (set xs \<union> set ys)" using grouped_distinct [OF g] l(1) by (auto simp: hit(1))
      with that show ?thesis by blast
    qed
    have ul': "ul' = xs @ bump v j l # ys" using hit(4) p by simp
    have "v \<in> set (firsts (keys_of mk js))" using grouped_keys [OF g] l(1) by (auto simp: hit(1))
    then have "map u_key (rev ul') = firsts (keys_of mk (js @ [j]))"
      using g l unfolding grouped_def ul' hit(1) by (simp add: keys_of_snoc j firsts_snoc)
    moreover have "\<forall>x\<in>set ul'. x \<noteq> [] \<and> map u_val x = filter (\<lambda>j. mk j = Some (u_key x)) (js @ [j])"
    proof
      fix x assume "x \<in> set ul'"
      then consider "x = bump v j l" | "x \<in> set xs \<union> set ys" by (auto simp: ul')
      then show "x \<noteq> [] \<and> map u_val x = filter (\<lambda>j. mk j = Some (u_key x)) (js @ [j])"
        using g l others [of x] j by cases (auto simp: grouped_def hit(1))
    qed
    ultimately show ?thesis by (simp add: grouped_def)
  next
    case new
    have ul': "ul' = [\<lparr>u_count = 1, u_val = j, u_mark = v\<rparr>] # ul" using new(2) p by simp
    have v: "v \<notin> set (keys_of mk js)" 
    proof
      assume "v \<in> set (keys_of mk js)"
      then obtain l where "l \<in> set ul" "v = u_key l" using grouped_keys [OF g] by auto
      with new(1) eq show False by blast
    qed
    then have no: "filter (\<lambda>j. mk j = Some v) js = []" by (auto simp: set_keys_of)
    have keys: "map u_key (rev ul') = firsts (keys_of mk (js @ [j]))"
      using g v unfolding grouped_def ul' by (simp add: keys_of_snoc j firsts_snoc)
    have "u_key x \<noteq> v" if "x \<in> set ul" for x using grouped_keys [OF g] v that by blast
    then have "\<forall>x\<in>set ul'. x \<noteq> [] \<and> map u_val x = filter (\<lambda>j. mk j = Some (u_key x)) (js @ [j])"
      using g j no by (auto simp: grouped_def ul')
    with keys show ?thesis by (simp add: grouped_def)
  qed
qed

lemma grouped_skip: "grouped mk js ul \<Longrightarrow> mk j = None \<Longrightarrow> grouped mk (js @ [j]) ul"
  by (simp add: grouped_def keys_of_snoc)

lemma unique_loop_grouped:
  assumes pure: "\<And>w ob. fst (app w ob) = g ob" "\<And>w ob. arr (snd (app w ob)) = arr w"
    and good: "\<And>ob v. g ob = Some v \<Longrightarrow> good_key H v" "good_key H skip"
  shows "grouped (\<lambda>i. group_key g skip (arr w ! i)) js ul \<Longrightarrow>
    case unique_loop H arr app skip ks n ul w of (n', ul', w') \<Rightarrow>
      grouped (\<lambda>i. group_key g skip (arr w ! i)) (js @ ks) ul' \<and> arr w' = arr w"
proof (induction ks arbitrary: js n ul w)
  case (Cons k ks)
  let ?mk = "\<lambda>i. group_key g skip (arr w ! i)"
  have good': "good_key H u" if "?mk i = Some u" for i u
    using that good(1) by (auto simp: group_key_def split: sval.splits option.splits if_splits)
  show ?case
  proof (cases "?mk k")
    case None
    have "\<exists>w1. unique_loop H arr app skip (k # ks) n ul w = unique_loop H arr app skip ks n ul w1 \<and> arr w1 = arr w"
      using None pure good equal_good [OF _ good(2)]
      by (cases "arr w ! k") (auto simp: group_key_def Let_def split_beta split: option.splits if_splits)
    then obtain w1 where "unique_loop H arr app skip (k # ks) n ul w = unique_loop H arr app skip ks n ul w1" "arr w1 = arr w"
      by blast
    with Cons.IH [of w1 "js @ [k]" ul n] grouped_skip [OF Cons.prems None] show ?thesis by simp
  next
    case (Some v)
    then obtain ob where ob: "arr w ! k = T_OBJECT ob" "g ob = Some v" "v \<noteq> skip"
      by (auto simp: group_key_def split: sval.splits option.splits if_splits)
    obtain m ul' where p: "put_in H ul v k = (m, ul')" by force
    have "grouped ?mk (js @ [k]) ul'" by (rule put_in_grouped [OF Cons.prems Some good' p])
    moreover have "unique_loop H arr app skip (k # ks) n ul w = unique_loop H arr app skip ks m ul' (snd (app w ob))"
      using ob pure(1) [of w ob] equal_good [OF good(1) [OF ob(2)] good(2)]
      by (simp add: Let_def split_beta p)
    ultimately show ?thesis using Cons.IH [of "snd (app w ob)" "js @ [k]" ul' m] pure(2) by simp
  qed
qed simp

lemma map_nth_filter: "map (\<lambda>i. xs ! i) (filter (\<lambda>i. P (xs ! i)) [0..<length xs]) = filter P xs"
proof -
  have "filter P xs = filter P (map ((!) xs) [0..<length xs])" by (simp only: map_nth)
  also have "\<dots> = map ((!) xs) (filter (P \<circ> (!) xs) [0..<length xs])" by (rule filter_map)
  finally show ?thesis by (simp only: o_def)
qed

lemma keys_of_map: "keys_of f (map h js) = keys_of (\<lambda>j. f (h j)) js"
  by (induction js) (simp_all add: keys_of_def map_filter_simps split: option.split)

lemma keys_of_nth: "keys_of (\<lambda>i. f (xs ! i)) [0..<length xs] = keys_of f xs"
  using keys_of_map [of f "(!) xs" "[0..<length xs]"] by (simp only: map_nth)

lemma make_unique_law:
  assumes pure: "\<And>w ob. fst (app w ob) = g ob" "\<And>w ob. arr (snd (app w ob)) = arr w"
    and good: "\<And>ob v. g ob = Some v \<Longrightarrow> good_key H v" "good_key H skip"
    and len: "length (arr w) \<le> MAX_ARRAY_SIZE"
  shows "fst (make_unique H arr app skip w) =
    Inr (map (\<lambda>v. Some (filter (\<lambda>x. group_key g skip x = Some v) (arr w))) (firsts (keys_of (group_key g skip) (arr w))))"
proof -
  let ?mk = "\<lambda>i. group_key g skip (arr w ! i)"
  obtain n ul w' where r: "unique_loop H arr app skip [0..<length (arr w)] 0 [] w = (n, ul, w')" by (metis prod_cases3)
  have "grouped ?mk [] []" by (simp add: grouped_def keys_of_def map_filter_def firsts_def)
  from unique_loop_grouped [where app = app and arr = arr, OF pure good this, where ks = "[0..<length (arr w)]" and n = 0] r
  have g: "grouped ?mk [0..<length (arr w)] ul" "arr w' = arr w" by simp_all
  have "row (arr w) l = filter (\<lambda>x. group_key g skip x = Some (u_key l)) (arr w)" if "l \<in> set ul" for l
  proof -
    have "row (arr w) l = map (\<lambda>i. arr w ! i) (map u_val l)" by (simp add: row_def)
    also have "map u_val l = filter (\<lambda>i. ?mk i = Some (u_key l)) [0..<length (arr w)]" using g(1) that by (simp add: grouped_def)
    finally show ?thesis using map_nth_filter [of "arr w" "\<lambda>x. group_key g skip x = Some (u_key l)"] by simp
  qed
  then have "map (\<lambda>l. Some (row (arr w) l)) (rev ul) =
      map (\<lambda>v. Some (filter (\<lambda>x. group_key g skip x = Some v) (arr w))) (map u_key (rev ul))" by simp
  also have "map u_key (rev ul) = firsts (keys_of (group_key g skip) (arr w))"
    using g(1) by (simp add: grouped_def keys_of_nth)
  finally show ?thesis using make_unique_run [of arr w, OF len, of H app skip] r g(2) by simp
qed

section \<open>Set operations\<close>

lemma in_mapping_law:
  assumes "map_inv H m" "good_key H k"
  shows "in_mapping H m k \<longleftrightarrow> k \<in> dom (map_look m)"
  unfolding domIff map_find_look [OF assms, symmetric]
  by (auto simp: in_mapping_def get_map_lvalue_def Let_def split: option.splits)

lemma good_flags:
  assumes "map_inv H m" "\<forall>x\<in>set xs. good_key H x"
  shows "map (in_mapping H m) xs = map (\<lambda>x. x \<in> dom (map_look m)) xs"
  using assms in_mapping_law by simp

lemma dom_map_of_rev: "dom (map_of (rev kvs)) = fst ` set kvs"
  by (simp add: dom_map_of_conv_image_fst)

lemma card_bound:
  assumes "map_inv H m" "dom (map_look m) = set xs" "length xs \<le> MAX_ARRAY_SIZE"
  shows "nat (m_card m) < MAP_LIMIT"
  using map_count [OF assms(1)] assms(2,3) card_length [of xs] by (simp add: MAP_LIMIT_def MAX_ARRAY_SIZE_def)

lemma set_mapping:
  assumes "\<forall>x\<in>set xs. good_key H x" "length xs \<le> MAX_ARRAY_SIZE" "xs \<noteq> []"
  shows "\<exists>m m'. make_mapping H (Some xs) None = Inr m \<and> map_put H m (xs ! 0) const1 = Inr m' \<and>
    map_inv H m' \<and> dom (map_look m') = set xs"
proof -
  let ?kvs = "zip xs (map num_sval [0..<length xs])"
  have k: "\<forall>kv\<in>set ?kvs. good_key H (fst kv)" using assms(1) by (auto dest: set_zip_leftD)
  have "length ?kvs \<le> MAP_LIMIT" using assms(2) by (simp add: MAP_LIMIT_def MAX_ARRAY_SIZE_def)
  from fresh_puts_law [OF k this, of "int (length xs)"] obtain m where
    m: "make_mapping H (Some xs) None = Inr m" "map_inv H m" "map_look m = map_of (rev ?kvs)"
    by (auto simp: make_mapping_def)
  have "fst ` set ?kvs = set (map fst ?kvs)" by (rule list.set_map [symmetric])
  also have "map fst ?kvs = xs" by simp
  finally have d: "dom (map_look m) = set xs" by (simp only: m(3) dom_map_of_rev)
  have h: "xs ! 0 \<in> set xs" using assms(3) by simp
  from map_put_law [OF m(2) _ card_bound [OF m(2) d assms(2)], of "xs ! 0" const1] h assms(1) obtain m' where
    "map_put H m (xs ! 0) const1 = Inr m'" "map_inv H m'" "map_look m' = (map_look m)(xs ! 0 \<mapsto> const1)" by auto
  with m(1) d h show ?thesis by (auto simp del: nth_mem)
qed

lemma filter_id_map: "length (filter id (map P xs)) = length (filter P xs)"
  by (induction xs) simp_all

lemma set_manipulate_law:
  assumes "\<forall>x\<in>set xs \<union> set ys. good_key H x" "length xs \<le> MAX_ARRAY_SIZE" "length ys \<le> MAX_ARRAY_SIZE"
  shows "set_manipulate_array H xs ys op =
    Inr (filter (\<lambda>x. x \<in> set ys \<longleftrightarrow> op = SETARR_INTERSECT) xs)"
proof (cases "xs = [] \<or> ys = []")
  case True
  then show ?thesis by (cases op) (auto simp: set_manipulate_array_def Suc_le_eq)
next
  case False
  then obtain m m' where m: "make_mapping H (Some ys) None = Inr m" "map_put H m (ys ! 0) const1 = Inr m'"
      "map_inv H m'" "dom (map_look m') = set ys"
    using set_mapping [of ys H] assms by auto
  let ?P = "\<lambda>x. x \<in> set ys \<longleftrightarrow> op = SETARR_INTERSECT"
  have fl: "map (\<lambda>x. case op of SETARR_INTERSECT \<Rightarrow> in_mapping H m' x | SETARR_SUBTRACT \<Rightarrow> \<not> in_mapping H m' x) xs = map ?P xs"
    using in_mapping_law [OF m(3)] assms(1) m(4) by (cases op) auto
  have "length (filter ?P xs) \<le> MAX_ARRAY_SIZE" using assms(2) length_filter_le [of ?P xs] by linarith
  from alloc_store [OF refl this] have s: "ebind (allocate_array (int (length (filter ?P xs))))
      (\<lambda>r. array_store r 0 (filter ?P xs)) = Inr (filter ?P xs)" .
  have "filter id (map ?P xs) = [] \<longleftrightarrow> filter ?P xs = []" by (metis filter_id_map length_0_conv)
  moreover have "set_manipulate_array H xs ys op = ebind (allocate_array (int (length (filter id (map ?P xs)))))
      (\<lambda>r. if filter id (map ?P xs) \<noteq> [] then array_store r 0 (flagged (map ?P xs) xs) else Inr r)"
    using False m(1,2) unfolding set_manipulate_array_def fl [symmetric] by (simp add: map_result_def Let_def)
  ultimately show ?thesis using s by (cases "filter ?P xs = []") (simp_all add: flagged_map filter_id_map)
qed

lemma union_law:
  assumes "\<forall>x\<in>set xs \<union> set ys. good_key H x" "length xs \<le> MAX_ARRAY_SIZE"
  shows "union_array H xs ys =
    (if xs = [] \<or> length (xs @ filter (\<lambda>y. y \<notin> set xs) ys) \<le> MAX_ARRAY_SIZE
     then Inr (xs @ filter (\<lambda>y. y \<notin> set xs) ys) else Inl Illegal_array_size)"
proof (cases "xs = [] \<or> ys = []")
  case True
  then show ?thesis using assms(2) by (auto simp: union_array_def)
next
  case False
  let ?kvs = "map (\<lambda>x. (x, const1)) xs" and ?P = "\<lambda>y. y \<notin> set xs"
  have "\<forall>kv\<in>set ?kvs. good_key H (fst kv)" "length ?kvs \<le> MAP_LIMIT"
    using assms by (auto simp: MAP_LIMIT_def MAX_ARRAY_SIZE_def)
  from fresh_puts_law [OF this, of "int (length xs)"] obtain m where
    m: "map_puts H (allocate_map (int (length xs))) ?kvs = Inr m" "map_inv H m" "map_look m = map_of (rev ?kvs)" by blast
  have d: "dom (map_look m) = set xs" unfolding m(3) dom_map_of_rev by force
  have fl: "map (\<lambda>x. \<not> in_mapping H m x) ys = map ?P ys"
    using in_mapping_law [OF m(2)] assms(1) d by auto
  have "union_array H xs ys = add_array xs (filter ?P ys)"
    using False m(1) unfolding add_array_def flagged_map [symmetric] filter_id_map [symmetric] fl [symmetric]
    by (simp add: union_array_def map_result_def Let_def flagged_length)
  with False show ?thesis by (simp add: add_array_law)
qed

section \<open>Inventories\<close>

text \<open>The objects directly inside an object, and containment at any depth.\<close>

definition inv_of :: "inventory \<Rightarrow> nat \<Rightarrow> nat list" where
  "inv_of s ob = (case chain_from (ob_next_inv s) (ob_contains s ob) of None \<Rightarrow> [] | Some obs \<Rightarrow> obs)"

definition inside :: "inventory \<Rightarrow> (nat \<times> nat) set" where
  "inside s = {(x, ob). x \<in> set (inv_of s ob)}"

definition below :: "inventory \<Rightarrow> nat \<Rightarrow> nat set" where
  "below s ob = {x. (x, ob) \<in> (inside s)\<^sup>+}"

text \<open>The inventory is a forest: chains end and do not repeat, an object is in one place, and nothing is inside
  itself.\<close>

definition forest :: "inventory \<Rightarrow> (nat \<Rightarrow> nat) \<Rightarrow> bool" where
  "forest s rank \<longleftrightarrow>
     (\<forall>ob. \<exists>obs. chain_from (ob_next_inv s) (ob_contains s ob) = Some obs \<and> distinct obs) \<and>
     (\<forall>x a b. x \<in> set (inv_of s a) \<and> x \<in> set (inv_of s b) \<longrightarrow> a = b) \<and>
     (\<forall>ob. \<forall>x\<in>set (inv_of s ob). rank x < rank ob)"

lemma forest_inv:
  assumes "forest s rank"
  shows "chain_from (ob_next_inv s) (ob_contains s ob) = Some (inv_of s ob)" "distinct (inv_of s ob)"
proof -
  from assms obtain obs where o: "chain_from (ob_next_inv s) (ob_contains s ob) = Some obs" "distinct obs"
    unfolding forest_def by blast
  then have "inv_of s ob = obs" by (simp add: inv_of_def)
  with o show "chain_from (ob_next_inv s) (ob_contains s ob) = Some (inv_of s ob)" "distinct (inv_of s ob)" by simp_all
qed

lemma below_step: "below s ob = set (inv_of s ob) \<union> (\<Union>x\<in>set (inv_of s ob). below s x)"
proof (intro set_eqI iffI)
  fix y assume "y \<in> below s ob"
  then have "(y, ob) \<in> (inside s)\<^sup>+" by (simp add: below_def)
  then show "y \<in> set (inv_of s ob) \<union> (\<Union>x\<in>set (inv_of s ob). below s x)"
    by (cases rule: trancl.cases) (auto simp: inside_def below_def)
next
  fix y assume "y \<in> set (inv_of s ob) \<union> (\<Union>x\<in>set (inv_of s ob). below s x)"
  then show "y \<in> below s ob" by (auto simp: below_def inside_def intro: trancl_into_trancl)
qed

lemma below_rank: "forest s rank \<Longrightarrow> y \<in> below s ob \<Longrightarrow> rank y < rank ob"
proof -
  assume f: "forest s rank" and "y \<in> below s ob"
  then have "(y, ob) \<in> (inside s)\<^sup>+" by (simp add: below_def)
  then show "rank y < rank ob"
    by (induction rule: trancl_induct) (use f in \<open>auto simp: forest_def inside_def intro: less_trans\<close>)
qed

lemma below_parent:
  assumes f: "forest s rank" and x: "x \<in> set (inv_of s ob)" and y: "x \<in> below s b"
  shows "b = ob \<or> ob \<in> below s b"
proof -
  from y have "(x, b) \<in> (inside s)\<^sup>+" by (simp add: below_def)
  then obtain p where p: "(x, p) \<in> inside s" "(p, b) \<in> (inside s)\<^sup>*" by (meson tranclD)
  then have "p = ob" using f x unfolding forest_def inside_def by blast
  with p(2) show ?thesis by (auto simp: below_def rtrancl_eq_or_trancl)
qed

lemma siblings_disjoint:
  assumes f: "forest s rank" and x: "x \<in> set (inv_of s ob)" "x' \<in> set (inv_of s ob)"
  shows "x \<notin> below s x'" "x \<noteq> x' \<Longrightarrow> below s x \<inter> below s x' = {}"
proof -
  have r: "rank a < rank ob" if "a \<in> set (inv_of s ob)" for a using f that by (simp add: forest_def)
  have no: "x \<notin> below s x'" if x: "x \<in> set (inv_of s ob)" "x' \<in> set (inv_of s ob)" for x x'
    using below_parent [OF f x(1), of x'] below_rank [OF f, of ob x'] r [OF x(2)] by auto
  show "x \<notin> below s x'" by (rule no [OF x])
  assume ne: "x \<noteq> x'"
  show "below s x \<inter> below s x' = {}"
  proof (rule ccontr)
    assume "below s x \<inter> below s x' \<noteq> {}"
    then obtain y where "y \<in> below s x" "y \<in> below s x'" by blast
    then have "(y, x) \<in> (inside s)\<^sup>+" "(y, x') \<in> (inside s)\<^sup>+" by (simp_all add: below_def)
    then have "x = x' \<or> x \<in> below s x' \<or> x' \<in> below s x"
    proof (induction rule: trancl_induct)
      case (base z)
      then have "y \<in> set (inv_of s z)" "y \<in> below s x'" by (simp_all add: inside_def below_def)
      then show ?case using below_parent [OF f, of y z x'] by auto
    next
      case (step z z')
      have z: "z \<in> set (inv_of s z')" using step.hyps(2) by (simp add: inside_def)
      consider "z = x'" | "z \<in> below s x'" | "x' \<in> below s z" using step by blast
      then show ?case
      proof cases
        case 1
        with z show ?thesis by (auto simp: below_step [of s z'])
      next
        case 2
        with below_parent [OF f z] show ?thesis by auto
      next
        case 3
        with z show ?thesis by (auto simp: below_step [of s z'])
      qed
    qed
    with ne no [OF x] no [OF x(2,1)] show False by blast
  qed
qed

lemma all_inventory_law:
  assumes "forest s rank" "length (inv_of s ob) \<le> MAX_ARRAY_SIZE"
  shows "all_inventory s ob = Some (Inr (map T_OBJECT (inv_of s ob)))"
proof (cases "inv_of s ob = []")
  case False
  have "ebind (allocate_array (int (length (inv_of s ob)))) (\<lambda>d. array_store d 0 (map T_OBJECT (inv_of s ob))) =
      Inr (map T_OBJECT (inv_of s ob))"
    by (rule alloc_store) (simp_all add: assms(2))
  with False show ?thesis by (simp add: all_inventory_def forest_inv [OF assms(1)])
qed (simp add: all_inventory_def forest_inv [OF assms(1)])

lemma deep_loop_law:
  assumes "\<forall>x\<in>set obs. ob_contains s x \<noteq> None \<longrightarrow> deep_run s (Deep x False) = Some (Inr (map T_OBJECT (D x)))"
    and "\<forall>x\<in>set obs. ob_contains s x = None \<longrightarrow> D x = []"
    and "length pre + length (concat (map D obs)) \<le> MAX_ARRAY_SIZE"
  shows "deep_run s (Deep_loop (map T_OBJECT obs) (map T_OBJECT pre)) = Some (Inr (map T_OBJECT (pre @ concat (map D obs))))"
  using assms
proof (induction obs arbitrary: pre)
  case Nil
  show ?case by (subst deep_run.simps) simp
next
  case (Cons x obs)
  show ?case
  proof (cases "ob_contains s x = None")
    case True
    with Cons show ?thesis by (subst deep_run.simps) simp
  next
    case False
    have "deep_run s (Deep_loop (map T_OBJECT obs) (map T_OBJECT (pre @ D x))) =
        Some (Inr (map T_OBJECT ((pre @ D x) @ concat (map D obs))))"
      using Cons.prems by (intro Cons.IH) simp_all
    moreover have "add_array (map T_OBJECT pre) (map T_OBJECT (D x)) = Inr (map T_OBJECT (pre @ D x))"
      using Cons.prems(3) by (simp add: add_array_law)
    moreover obtain y where "ob_contains s x = Some y" using False by blast
    ultimately show ?thesis using Cons.prems(1) by (subst deep_run.simps) simp
  qed
qed

lemma distinct_concat_disjoint:
  assumes "distinct xs" "\<forall>x\<in>set xs. distinct (D x)"
    "\<forall>x\<in>set xs. \<forall>y\<in>set xs. x \<noteq> y \<longrightarrow> set (D x) \<inter> set (D y) = {}"
  shows "distinct (concat (map D xs))"
  using assms by (induction xs) force+

text \<open>A listing of everything below an object, its own contents first.\<close>

definition listing :: "inventory \<Rightarrow> nat \<Rightarrow> nat list \<Rightarrow> bool" where
  "listing s ob obs \<longleftrightarrow> distinct obs \<and> set obs = below s ob \<and> (\<exists>rest. obs = inv_of s ob @ rest)"

lemma listing_step:
  assumes f: "forest s rank" and D: "\<forall>x\<in>set (inv_of s ob). listing s x (D x)"
  shows "listing s ob (inv_of s ob @ concat (map D (inv_of s ob)))"
proof -
  have "distinct (concat (map D (inv_of s ob)))"
    using D siblings_disjoint(2) [OF f] forest_inv(2) [OF f]
    by (intro distinct_concat_disjoint) (auto simp: listing_def)
  moreover have "set (inv_of s ob) \<inter> (\<Union>x\<in>set (inv_of s ob). below s x) = {}"
    using siblings_disjoint(1) [OF f] by blast
  ultimately show ?thesis
    using D forest_inv(2) [OF f] below_step [of s ob] by (auto simp: listing_def)
qed

text \<open>What the loop over the contents of an object adds to what was collected so far.\<close>

definition deep_adds :: "inventory \<Rightarrow> nat \<Rightarrow> nat list \<Rightarrow> bool" where
  "deep_adds s ob rest \<longleftrightarrow> listing s ob (inv_of s ob @ rest) \<and>
     (\<forall>pre. length pre + length rest \<le> MAX_ARRAY_SIZE \<longrightarrow>
        deep_run s (Deep_loop (map T_OBJECT (inv_of s ob)) (map T_OBJECT pre)) = Some (Inr (map T_OBJECT (pre @ rest))))"

lemma listing_length: "listing s ob obs \<Longrightarrow> length obs = card (below s ob)"
  unfolding listing_def by (metis distinct_card)

lemma deep_adds_run:
  assumes f: "forest s rank" and d: "deep_adds s ob rest" and c: "card (below s ob) + of_bool tt \<le> MAX_ARRAY_SIZE"
  shows "deep_run s (Deep ob tt) = Some (Inr (map T_OBJECT ((if tt then [ob] else []) @ inv_of s ob @ rest)))"
proof -
  have len: "length (inv_of s ob) + length rest + of_bool tt \<le> MAX_ARRAY_SIZE"
    using c listing_length [of s ob "inv_of s ob @ rest"] d by (simp add: deep_adds_def)
  have a: "all_inventory s ob = Some (Inr (map T_OBJECT (inv_of s ob)))" using all_inventory_law [OF f] len by simp
  have r: "deep_run s (Deep_loop (map T_OBJECT (inv_of s ob)) (map T_OBJECT pre)) = Some (Inr (map T_OBJECT (pre @ rest)))"
    if "length pre + length rest \<le> MAX_ARRAY_SIZE" for pre
    using d that by (simp add: deep_adds_def)
  show ?thesis
  proof (cases tt)
    case True
    have "add_array [T_OBJECT ob] (map T_OBJECT (inv_of s ob)) = Inr (map T_OBJECT (ob # inv_of s ob))"
      using len True by (simp add: add_array_law)
    with True a r [of "ob # inv_of s ob"] len show ?thesis by (subst deep_run.simps) simp
  next
    case False
    with a r [of "inv_of s ob"] len show ?thesis by (subst deep_run.simps) simp
  qed
qed

lemma deep_adds_ex:
  assumes f: "forest s rank"
  shows "finite (below s ob) \<Longrightarrow> card (below s ob) \<le> MAX_ARRAY_SIZE \<Longrightarrow> \<exists>rest. deep_adds s ob rest"
proof (induction "rank ob" arbitrary: ob rule: less_induct)
  case less
  let ?xs = "inv_of s ob"
  have sub: "below s x \<subseteq> below s ob" "rank x < rank ob" if "x \<in> set ?xs" for x
    using that f below_step [of s ob] by (auto simp: forest_def)
  have "\<forall>x\<in>set ?xs. \<exists>obs. deep_run s (Deep x False) = Some (Inr (map T_OBJECT obs)) \<and> listing s x obs"
  proof
    fix x assume x: "x \<in> set ?xs"
    have "finite (below s x)" using sub(1) [OF x] less.prems(1) by (rule finite_subset)
    moreover have c: "card (below s x) \<le> MAX_ARRAY_SIZE"
      using card_mono [OF less.prems(1) sub(1) [OF x]] less.prems(2) by simp
    ultimately obtain rest where d: "deep_adds s x rest" using less.hyps sub(2) [OF x] by blast
    have "deep_run s (Deep x False) = Some (Inr (map T_OBJECT (inv_of s x @ rest)))"
      using deep_adds_run [OF f d, of False] c by simp
    then show "\<exists>obs. deep_run s (Deep x False) = Some (Inr (map T_OBJECT obs)) \<and> listing s x obs"
      using d unfolding deep_adds_def by blast
  qed
  from bchoice [OF this] obtain D where
    D: "\<forall>x\<in>set ?xs. deep_run s (Deep x False) = Some (Inr (map T_OBJECT (D x))) \<and> listing s x (D x)" by blast
  have "inv_of s x = []" if "ob_contains s x = None" for x
    by (simp add: inv_of_def that chain_from.simps)
  then have "D x = []" if "x \<in> set ?xs" "ob_contains s x = None" for x
    using D that below_step [of s x] by (auto simp: listing_def)
  then have "deep_run s (Deep_loop (map T_OBJECT ?xs) (map T_OBJECT pre)) = Some (Inr (map T_OBJECT (pre @ concat (map D ?xs))))"
    if "length pre + length (concat (map D ?xs)) \<le> MAX_ARRAY_SIZE" for pre
    using D that by (intro deep_loop_law) auto
  with listing_step [OF f, of ob D] D show ?case unfolding deep_adds_def by blast
qed

section \<open>Properties\<close>

lemma split_del_length:
  assumes del: "del \<noteq> []"
  shows "length (split_del del cur p) \<le> length cur + length p"
  using del
proof (induction cur p rule: scan_induct)
  case (Nil cur)
  then show ?case by (cases cur) (simp_all add: split_del_Nil)
next
  case (at cur p)
  with at(3) [of "[]"] del_shorter [OF del at(1)] show ?case by (simp add: split_del_at [OF del])
next
  case (not cur c p)
  with not(2) [of "cur @ [c]"] del show ?case by (simp add: split_del_not)
qed

text \<open>C31. Exploding and imploding.  With a delimiter that is not empty, the pieces of an exploded string do not contain it,
  and joining them with it gives the string back, except for one delimiter at the end of the string, which is lost; the only
  error is that of an array that would be too long, which takes a string longer than 5000 bytes, and the index check that calls
  \<^verbatim>\<open>fatal()\<close> never fires.  With an empty delimiter the pieces are the characters.  Imploding any array, whatever it holds and
  whatever the delimiter is, gives its strings with the delimiter between each two of them: the buffer of \<^verbatim>\<open>implode_string\<close>
  never overflows.\<close>

theorem explode_implode:
  "(del \<noteq> [] \<longrightarrow> (case explode_string str del of
      Inl e \<Rightarrow> e = Illegal_array_size \<and> MAX_ARRAY_SIZE < length str
    | Inr arr \<Rightarrow> (\<exists>ss. arr = map T_STRING ss \<and> (\<forall>s\<in>set ss. \<forall>i. \<not> at_del del (drop i s))) \<and>
        (\<exists>r. implode_string arr del = Inr r \<and> (r = str \<or> r @ del = str)))) \<and>
   explode_string str [] =
     (if length str \<le> MAX_ARRAY_SIZE then Inr (map (\<lambda>c. T_STRING [c]) str) else Inl Illegal_array_size) \<and>
   (\<forall>arr. implode_string arr del = Inr (join del (strings_of arr)))"
proof (intro conjI impI allI)
  assume d: "del \<noteq> []"
  show "case explode_string str del of
      Inl e \<Rightarrow> e = Illegal_array_size \<and> MAX_ARRAY_SIZE < length str
    | Inr arr \<Rightarrow> (\<exists>ss. arr = map T_STRING ss \<and> (\<forall>s\<in>set ss. \<forall>i. \<not> at_del del (drop i s))) \<and>
        (\<exists>r. implode_string arr del = Inr r \<and> (r = str \<or> r @ del = str))"
    using explode_law [OF d, of str] split_del_length [OF d, of "[]" str] split_del_free [OF d, of "[]" str] join_split [OF d, of "[]" str]
    by (auto simp: implode_law)
next
  show "explode_string str [] =
      (if length str \<le> MAX_ARRAY_SIZE then Inr (map (\<lambda>c. T_STRING [c]) str) else Inl Illegal_array_size)"
    by (simp add: explode_string_def allocate_array_def allocate_check_def array_store_whole)
qed (rule implode_law)

theorem explode_implode_witness:
  "\<exists>arr r. explode_string [97, 44, 32, 98, 44, 32] [44, 32] = Inr arr \<and> arr = [T_STRING [97], T_STRING [98]] \<and>
     implode_string arr [44, 32] = Inr r \<and> (r = [97, 44, 32, 98, 44, 32] \<or> r @ [44, 32] = [97, 44, 32, 98, 44, 32])"
proof -
  have "explode_string [97, 44, 32, 98, 44, 32] [44, 32] = Inr [T_STRING [97], T_STRING [98]]"
    by (simp add: explode_law split_del.simps at_del_def MAX_ARRAY_SIZE_def)
  with explode_implode [of "[44, 32]" "[97, 44, 32, 98, 44, 32]"] show ?thesis by simp
qed

text \<open>Imploding strings with a one-byte delimiter that occurs in none of them and exploding the result gives
  the strings back, as long as the last one is not empty.\<close>

lemma implode_explode:
  assumes "ss \<noteq> []" "last ss \<noteq> []" "\<forall>s\<in>set ss. d \<notin> set s" "length ss \<le> MAX_ARRAY_SIZE"
  shows "\<exists>r. implode_string (map T_STRING ss) [d] = Inr r \<and> explode_string r [d] = Inr (map T_STRING ss)"
  using assms split_join_one [of ss d] by (simp add: implode_law explode_law)

text \<open>A slice holds exactly the items between its bounds, where negative bounds count from the end and bounds
  outside the array are clipped, and never fails; two adjacent slices add up to the array, and addition fails
  exactly when the sum would be too long.\<close>

lemma array_slices:
  assumes "length p \<le> MAX_ARRAY_SIZE"
  shows "slice_array p from to = Inr (drop (slice_from (length p) from) (take (slice_end (length p) to) p)) \<and>
    (\<forall>k. 0 < k \<and> k < int (length p) \<longrightarrow>
       ebind (slice_array p 0 (k - 1)) (\<lambda>a. ebind (slice_array p k (- 1)) (add_array a)) = Inr p) \<and>
    add_array p r = (if length p + length r \<le> MAX_ARRAY_SIZE then Inr (p @ r) else Inl Illegal_array_size)"
  using assms by (auto simp: slice_law add_array_law slice_from_def slice_end_def)

text \<open>Closures over arrays: whatever the closure does to the items of the array meanwhile, \<^verbatim>\<open>filter\<close> and
  \<^verbatim>\<open>map\<close> stay within their arrays; with a closure that leaves the array alone and depends on the item only,
  they are the usual filter and map.\<close>

lemma array_closures:
  assumes "length (arr w) \<le> MAX_ARRAY_SIZE" "\<And>w v. length (arr (snd (f w v))) = length (arr w)"
  shows "(\<exists>r. fst (filter_arr arr f w) = Inr r \<and> length r \<le> length (arr w)) \<and>
    (\<exists>r. fst (map_array arr f w) = Inr r \<and> length r = length (arr w)) \<and>
    (\<forall>g. (\<forall>w v. fst (f w v) = g v \<and> arr (snd (f w v)) = arr w) \<longrightarrow>
       fst (filter_arr arr f w) = Inr (filter (\<lambda>v. is_true (g v)) (arr w)) \<and>
       fst (map_array arr f w) = Inr (map g (arr w)))"
proof (intro conjI allI impI)
  have fl: "length (flagged fs xs) \<le> length fs" for fs xs
    using length_filter_le [of fst "zip fs xs"] by (simp add: flagged_def)
  show "\<exists>r. fst (filter_arr arr f w) = Inr r \<and> length r \<le> length (arr w)"
    unfolding filter_arr_run [of arr w f, OF assms] using fl [of "map is_true (fst (call_loop arr f [0..<length (arr w)] w))"]
    by (simp add: call_loop_length)
  show "\<exists>r. fst (map_array arr f w) = Inr r \<and> length r = length (arr w)"
    using map_array_run [of arr w f, OF assms(1)] by (simp add: call_loop_length)
  fix g assume g: "\<forall>w v. fst (f w v) = g v \<and> arr (snd (f w v)) = arr w"
  then have c: "fst (call_loop arr f [0..<length (arr w)] w) = map g (arr w)"
    using call_loop_pure [of f g arr "[0..<length (arr w)]" w] map_nth [of "map g (arr w)"] by (simp add: map_equality_iff)
  have "arr (snd (filter_arr arr f w)) = arr w"
    using call_loop_keeps [of arr f arr "[0..<length (arr w)]" w] g by (simp add: filter_arr_def Let_def split_beta)
  then show "fst (filter_arr arr f w) = Inr (filter (\<lambda>v. is_true (g v)) (arr w))"
    using filter_arr_run [of arr w f, OF assms] c by (simp add: flagged_map o_def)
  show "fst (map_array arr f w) = Inr (map g (arr w))" using map_array_run [of arr w f, OF assms(1)] c by simp
qed

text \<open>A closure that overwrites the whole array with its argument.\<close>

definition demo_closure :: "sval list \<Rightarrow> sval \<Rightarrow> sval \<times> sval list" where
  "demo_closure w v = (v, map (\<lambda>_. v) w)"

text \<open>C33. The unique maker: with a function that depends on the object only, the result has one array for each
  value returned (other than the one to skip), in the order in which the values first appear, holding exactly
  the objects with that value in their original order; and whatever the function called does, no array is
  overrun and no item of the result is left unassigned.\<close>

theorem make_unique_groups:
  assumes "length (arr w) \<le> MAX_ARRAY_SIZE"
  shows "(\<exists>r. fst (make_unique H arr app skip w) = Inr r \<and> None \<notin> set r) \<and>
    (\<forall>g. (\<forall>w ob. fst (app w ob) = g ob \<and> arr (snd (app w ob)) = arr w) \<and>
         (\<forall>ob v. g ob = Some v \<longrightarrow> good_key H v) \<and> good_key H skip \<longrightarrow>
       fst (make_unique H arr app skip w) =
         Inr (map (\<lambda>v. Some (filter (\<lambda>x. group_key g skip x = Some v) (arr w)))
               (firsts (keys_of (group_key g skip) (arr w)))))"
proof (intro conjI allI impI)
  show "\<exists>r. fst (make_unique H arr app skip w) = Inr r \<and> None \<notin> set r"
    using make_unique_run [of arr w, OF assms, of H app skip] by (auto split: prod.splits)
  fix g assume g: "(\<forall>w ob. fst (app w ob) = g ob \<and> arr (snd (app w ob)) = arr w) \<and>
      (\<forall>ob v. g ob = Some v \<longrightarrow> good_key H v) \<and> good_key H skip"
  show "fst (make_unique H arr app skip w) =
      Inr (map (\<lambda>v. Some (filter (\<lambda>x. group_key g skip x = Some v) (arr w)))
            (firsts (keys_of (group_key g skip) (arr w))))"
    using g assms by (intro make_unique_law) auto
qed

theorem make_unique_groups_witness:
  "fst (make_unique demo_objs id (\<lambda>w ob. (Some (T_NUMBER (of_nat (ob mod 3))), w)) (T_NUMBER 2)
     [T_OBJECT 3, T_OBJECT 1, T_OBJECT 5, T_OBJECT 6]) = Inr [Some [T_OBJECT 3, T_OBJECT 6], Some [T_OBJECT 1]]"
proof -
  let ?g = "\<lambda>ob :: nat. Some (T_NUMBER (of_nat (ob mod 3)))" and ?w = "[T_OBJECT 3, T_OBJECT 1, T_OBJECT 5, T_OBJECT 6]"
  have l: "length (id ?w) \<le> MAX_ARRAY_SIZE" by (simp add: MAX_ARRAY_SIZE_def)
  have "fst (make_unique demo_objs id (\<lambda>w ob. (?g ob, w)) (T_NUMBER 2) ?w) =
      Inr (map (\<lambda>v. Some (filter (\<lambda>x. group_key ?g (T_NUMBER 2) x = Some v) (id ?w)))
            (firsts (keys_of (group_key ?g (T_NUMBER 2)) (id ?w))))"
    using conjunct2 [OF make_unique_groups [of id, OF l, of demo_objs "\<lambda>w ob. (?g ob, w)" "T_NUMBER 2"]] demo_keys
    by simp
  then show ?thesis
    by (simp add: group_key_def keys_of_def map_filter_def firsts_def split: if_splits)
qed

text \<open>C34. \<^verbatim>\<open>deep_inventory\<close> ends on every finite forest of objects in which the objects to list, which are those below the object
  and the object itself when it is asked for too, are at most 5000, and lists each object below it exactly once, its direct
  contents first, after the object itself when asked for.\<close>

theorem deep_inventory_lists:
  assumes "forest s rank" "finite (below s ob)" "card (below s ob) + of_bool take_top \<le> MAX_ARRAY_SIZE"
  shows "\<exists>rest. deep_inventory s ob take_top =
      Some (Inr (map T_OBJECT ((if take_top then [ob] else []) @ inv_of s ob @ rest))) \<and>
    distinct (inv_of s ob @ rest) \<and> set (inv_of s ob @ rest) = below s ob \<and> ob \<notin> below s ob"
proof -
  from deep_adds_ex [OF assms(1,2)] assms(3) obtain rest where d: "deep_adds s ob rest" by auto
  with deep_adds_run [OF assms(1) d assms(3)] below_rank [OF assms(1), of ob ob]
  show ?thesis by (auto simp: deep_inventory_def deep_adds_def listing_def)
qed

text \<open>Object 1 holds 2 and 3, and 3 holds 4.\<close>

definition demo_inventory :: inventory where
  "demo_inventory = \<lparr>ob_contains = [1 \<mapsto> 2, 3 \<mapsto> 4], ob_next_inv = [2 \<mapsto> 3]\<rparr>"

lemma demo_inv_of: "inv_of demo_inventory ob = (if ob = 1 then [2, 3] else if ob = 3 then [4] else [])"
  by (simp add: inv_of_def demo_inventory_def chain_from.simps)

lemma demo_forest: "forest demo_inventory (\<lambda>ob. 5 - ob)"
proof -
  have "\<exists>obs. chain_from (ob_next_inv demo_inventory) (ob_contains demo_inventory ob) = Some obs \<and> distinct obs" for ob
    by (simp add: demo_inventory_def chain_from.simps)
  then show ?thesis by (auto simp: forest_def demo_inv_of split: if_splits)
qed

lemma demo_below: "below demo_inventory 1 = {2, 3, 4}"
proof -
  have "below demo_inventory ob = {}" if "inv_of demo_inventory ob = []" for ob
    using below_step [of demo_inventory ob] that by simp
  then show ?thesis
    using below_step [of demo_inventory 1] below_step [of demo_inventory 3] by (auto simp: demo_inv_of)
qed

theorem deep_inventory_lists_witness:
  "\<exists>rest. deep_inventory demo_inventory 1 True = Some (Inr (map T_OBJECT ([1] @ [2, 3] @ rest))) \<and>
     set ([2, 3] @ rest) = {2, 3, 4}"
proof -
  have "finite (below demo_inventory 1)" "card (below demo_inventory 1) + of_bool True \<le> MAX_ARRAY_SIZE"
    unfolding demo_below by (simp_all add: MAX_ARRAY_SIZE_def)
  from deep_inventory_lists [OF demo_forest this] show ?thesis unfolding demo_below demo_inv_of by fastforce
qed

text \<open>C32. The set operations on arrays, which go through mappings, are what they should be: difference and
  intersection keep the items of the first array, in order and with their repetitions, that are not,
  respectively are, in the second; union appends the items of the second that are not in the first.\<close>

theorem array_set_operations:
  assumes "\<forall>x\<in>set xs \<union> set ys. good_key H x" "length xs \<le> MAX_ARRAY_SIZE" "length ys \<le> MAX_ARRAY_SIZE"
  shows "subtract_array H xs ys = Inr (filter (\<lambda>x. x \<notin> set ys) xs) \<and>
    intersect_array H xs ys = Inr (filter (\<lambda>x. x \<in> set ys) xs) \<and>
    union_array H xs ys =
      (if length (xs @ filter (\<lambda>y. y \<notin> set xs) ys) \<le> MAX_ARRAY_SIZE then Inr (xs @ filter (\<lambda>y. y \<notin> set xs) ys)
       else Inl Illegal_array_size)"
  using set_manipulate_law [OF assms] union_law [OF assms(1,2)] assms(3)
  by (auto simp: subtract_array_def intersect_array_def)

theorem array_set_operations_witness:
  "subtract_array demo_objs [T_NUMBER 1, T_NUMBER 2, T_NUMBER 1] [T_NUMBER 2] = Inr [T_NUMBER 1, T_NUMBER 1]"
  using array_set_operations [of "[T_NUMBER 1, T_NUMBER 2, T_NUMBER 1]" "[T_NUMBER 2]" demo_objs] demo_keys
  by (simp add: MAX_ARRAY_SIZE_def)

end
