(* ===== verification/Mstring.thy ===== *)
theory Mstring
  imports Hash
begin

text \<open>
  Strings of the driver (\<^verbatim>\<open>src/mstring.c\<close>, \<^verbatim>\<open>src/mstring.h\<close>): reference counted strings, and shared strings,
  which are kept in a hash table of doubly linked chains so that every text exists once; a string that is found
  moves to the front of its chain.

  The headers in front of the strings are fields indexed by the address of the string; an access to an address
  that is not allocated is \<^const>\<open>None\<close>.  Reference counts are 16 bits wide: a count that wraps to 0 marks a string
  that is never freed.  The statistics of strings asked for and of searches are left out, those of the strings
  in use are kept.  The address of a new string is a parameter, for \<^verbatim>\<open>xalloc\<close>.
\<close>

section \<open>The contract of a name table\<close>

text \<open>
  A table that maps names to addresses and may reorganise itself in a search.  The shared strings and the
  object names are such tables.
\<close>

locale name_table =
  fixes inv :: "'s \<Rightarrow> bool" and look :: "'s \<Rightarrow> 'k \<rightharpoonup> nat" and find :: "'k \<Rightarrow> 's \<Rightarrow> (nat option \<times> 's) option"
  assumes find_law: "inv s \<Longrightarrow> \<exists>s'. find k s = Some (look s k, s') \<and> inv s' \<and> look s' = look s"
begin

text \<open>A sequence of searches answers every one of them as if it were the first.\<close>

fun finds :: "'k list \<Rightarrow> 's \<Rightarrow> (nat option list \<times> 's) option" where
  "finds [] s = Some ([], s)"
| "finds (k # ks) s = find k s \<bind> (\<lambda>(r, s1). finds ks s1 \<bind> (\<lambda>(rs, s2). Some (r # rs, s2)))"

lemma finds_law: "inv s \<Longrightarrow> \<exists>s'. finds ks s = Some (map (look s) ks, s') \<and> inv s' \<and> look s' = look s"
proof (induction ks arbitrary: s)
  case (Cons k ks)
  from find_law [OF Cons.prems] obtain s1 where
    s1: "find k s = Some (look s k, s1)" "inv s1" "look s1 = look s" by blast
  from Cons.IH [OF s1(2)] s1 show ?case by auto
qed simp

end

section \<open>Reference counted strings\<close>

record mstrings =
  m_live :: "nat set"
  m_len :: "nat \<Rightarrow> u16"
  m_count :: "nat \<Rightarrow> u16"
  m_text :: "nat \<Rightarrow> u8 list"
  num_distinct_strings_malloced :: int
  bytes_distinct_strings_malloced :: int

definition allocate_mstring :: "nat \<Rightarrow> nat \<Rightarrow> mstrings \<Rightarrow> mstrings" where
  "allocate_mstring a len st =
     st\<lparr>m_live := insert a (m_live st), m_count := (m_count st)(a := 1), m_len := (m_len st)(a := of_nat len),
        num_distinct_strings_malloced := num_distinct_strings_malloced st + 1,
        bytes_distinct_strings_malloced := bytes_distinct_strings_malloced st + int len + 1\<rparr>"

definition make_mstring :: "nat \<Rightarrow> u8 list \<Rightarrow> mstrings \<Rightarrow> nat \<times> mstrings" where
  "make_mstring a cp st =
     (let st1 = allocate_mstring a (length cp) st in (a, st1\<lparr>m_text := (m_text st1)(a := cp)\<rparr>))"

definition reference_mstring :: "nat \<Rightarrow> mstrings \<Rightarrow> mstrings option" where
  "reference_mstring cp st =
     (if cp \<notin> m_live st then None
      else if m_count st cp \<noteq> 0 then Some (st\<lparr>m_count := (m_count st)(cp := m_count st cp + 1)\<rparr>)
      else Some st)"

definition free_mstring :: "nat \<Rightarrow> mstrings \<Rightarrow> mstrings option" where
  "free_mstring cp st =
     (if cp \<notin> m_live st then None
      else if m_count st cp \<noteq> 0
      then (let st1 = st\<lparr>m_count := (m_count st)(cp := m_count st cp - 1)\<rparr>
            in if m_count st1 cp = 0
               then Some (st1\<lparr>m_live := m_live st1 - {cp},
                      num_distinct_strings_malloced := num_distinct_strings_malloced st1 - 1,
                      bytes_distinct_strings_malloced := bytes_distinct_strings_malloced st1 - (int (unat (m_len st1 cp)) + 1)\<rparr>)
               else Some st1)
      else Some st)"

section \<open>Shared strings\<close>

definition HTABLE_SIZE :: nat where "HTABLE_SIZE = 0x8000"

definition HASH_SSTRING :: "u8 list \<Rightarrow> u16" where
  "HASH_SSTRING cp = of_nat (unat (hashstr16 cp 64) mod HTABLE_SIZE)"

record sstrings =
  s_live :: "nat set"
  s_prev :: "nat \<Rightarrow> nat option"
  s_next :: "nat \<Rightarrow> nat option"
  s_len :: "nat \<Rightarrow> u16"
  s_count :: "nat \<Rightarrow> u16"
  s_hash :: "nat \<Rightarrow> u16"
  s_text :: "nat \<Rightarrow> u8 list"
  sstring_table :: "u16 \<Rightarrow> nat option"
  num_distinct_strings_shared :: int
  bytes_distinct_strings_shared :: int

definition no_sstrings :: sstrings where
  "no_sstrings = \<lparr>s_live = {}, s_prev = (\<lambda>_. None), s_next = (\<lambda>_. None), s_len = (\<lambda>_. 0), s_count = (\<lambda>_. 0),
     s_hash = (\<lambda>_. 0), s_text = (\<lambda>_. []), sstring_table = (\<lambda>_. None),
     num_distinct_strings_shared = 0, bytes_distinct_strings_shared = 0\<rparr>"

definition reference_sstring :: "nat \<Rightarrow> sstrings \<Rightarrow> (nat \<times> sstrings) option" where
  "reference_sstring cp st =
     (if cp \<notin> s_live st then None
      else if s_count st cp \<noteq> 0 then Some (cp, st\<lparr>s_count := (s_count st)(cp := s_count st cp + 1)\<rparr>)
      else Some (cp, st))"

text \<open>The assignments \<^verbatim>\<open>sstring_next(p) = v\<close> and \<^verbatim>\<open>sstring_prev(p) = v\<close>.\<close>

definition set_next :: "nat \<Rightarrow> nat option \<Rightarrow> sstrings \<Rightarrow> sstrings option" where
  "set_next p v st = (if p \<in> s_live st then Some (st\<lparr>s_next := (s_next st)(p := v)\<rparr>) else None)"

definition set_prev :: "nat \<Rightarrow> nat option \<Rightarrow> sstrings \<Rightarrow> sstrings option" where
  "set_prev p v st = (if p \<in> s_live st then Some (st\<lparr>s_prev := (s_prev st)(p := v)\<rparr>) else None)"

text \<open>The search loop and the move to the front, which \<^verbatim>\<open>find_sstring\<close> and \<^verbatim>\<open>make_sstring\<close> have in common.\<close>

partial_function (option) sstring_search :: "u8 list \<Rightarrow> nat option \<Rightarrow> sstrings \<Rightarrow> nat option option" where
  "sstring_search cp xp st =
     (case xp of
        None \<Rightarrow> Some None
      | Some x \<Rightarrow>
          (if x \<notin> s_live st then None
           else if s_text st x = cp then Some (Some x)
           else sstring_search cp (s_next st x) st))"

definition sstring_front :: "u16 \<Rightarrow> nat \<Rightarrow> sstrings \<Rightarrow> sstrings option" where
  "sstring_front hash xp st =
     (case s_prev st xp of
        None \<Rightarrow> Some st
      | Some p \<Rightarrow> do {
          st1 \<leftarrow> set_next p (s_next st xp) st;
          st2 \<leftarrow> (case s_next st1 xp of None \<Rightarrow> Some st1 | Some n \<Rightarrow> set_prev n (s_prev st1 xp) st1);
          st3 \<leftarrow> set_prev xp None st2;
          st4 \<leftarrow> set_next xp (sstring_table st3 hash) st3;
          st5 \<leftarrow> (case sstring_table st4 hash of None \<Rightarrow> None | Some f \<Rightarrow> set_prev f (Some xp) st4);
          Some (st5\<lparr>sstring_table := (sstring_table st5)(hash \<mapsto> xp)\<rparr>) })"

definition find_sstring :: "u8 list \<Rightarrow> sstrings \<Rightarrow> (nat option \<times> sstrings) option" where
  "find_sstring cp st =
     (let hash = HASH_SSTRING cp
      in do {
        r \<leftarrow> sstring_search cp (sstring_table st hash) st;
        (case r of
           None \<Rightarrow> Some (None, st)
         | Some xp \<Rightarrow> do { st1 \<leftarrow> sstring_front hash xp st; Some (Some xp, st1) }) })"

definition make_sstring :: "nat \<Rightarrow> u8 list \<Rightarrow> sstrings \<Rightarrow> (nat \<times> sstrings) option" where
  "make_sstring a cp st =
     (let hash = HASH_SSTRING cp
      in do {
        r \<leftarrow> sstring_search cp (sstring_table st hash) st;
        (case r of
           Some xp \<Rightarrow> do { st1 \<leftarrow> sstring_front hash xp st; reference_sstring xp st1 }
         | None \<Rightarrow> do {
             st0 \<leftarrow> Some (st\<lparr>s_live := insert a (s_live st)\<rparr>);
             st1 \<leftarrow> set_prev a None st0;
             st2 \<leftarrow> set_next a (sstring_table st1 hash) st1;
             st3 \<leftarrow> (case s_next st2 a of None \<Rightarrow> Some st2 | Some n \<Rightarrow> set_prev n (Some a) st2);
             Some (a, st3\<lparr>s_hash := (s_hash st3)(a := hash), s_count := (s_count st3)(a := 1),
                          s_len := (s_len st3)(a := of_nat (length cp)), s_text := (s_text st3)(a := cp),
                          sstring_table := (sstring_table st3)(hash \<mapsto> a),
                          num_distinct_strings_shared := num_distinct_strings_shared st3 + 1,
                          bytes_distinct_strings_shared := bytes_distinct_strings_shared st3 + int (length cp) + 1\<rparr>) }) })"

definition free_sstring :: "nat \<Rightarrow> sstrings \<Rightarrow> sstrings option" where
  "free_sstring cp st =
     (if cp \<notin> s_live st then None
      else if s_count st cp \<noteq> 0
      then (let st1 = st\<lparr>s_count := (s_count st)(cp := s_count st cp - 1)\<rparr>
            in if s_count st1 cp = 0
               then do {
                 st2 \<leftarrow> (case s_prev st1 cp of
                          Some p \<Rightarrow> set_next p (s_next st1 cp) st1
                        | None \<Rightarrow> Some (st1\<lparr>sstring_table := (sstring_table st1)(s_hash st1 cp := s_next st1 cp)\<rparr>));
                 st3 \<leftarrow> (case s_next st2 cp of Some n \<Rightarrow> set_prev n (s_prev st2 cp) st2 | None \<Rightarrow> Some st2);
                 Some (st3\<lparr>s_live := s_live st3 - {cp},
                           num_distinct_strings_shared := num_distinct_strings_shared st3 - 1,
                           bytes_distinct_strings_shared :=
                             bytes_distinct_strings_shared st3 - (int (unat (s_len st3 cp)) + 1)\<rparr>) }
               else Some st1)
      else Some st)"

section \<open>The invariant of the table\<close>

definition chains_ok :: "sstrings \<Rightarrow> (u16 \<Rightarrow> nat list) \<Rightarrow> bool" where
  "chains_ok st ch \<longleftrightarrow> (\<forall>h. distinct (ch h) \<and> sstring_table st h = hdo (ch h) None \<and>
     dlist (s_prev st) (s_next st) None (ch h) None \<and> set (ch h) = {x \<in> s_live st. s_hash st x = h})"

definition sinv :: "sstrings \<Rightarrow> bool" where
  "sinv st \<longleftrightarrow> (\<exists>ch. chains_ok st ch) \<and> finite (s_live st) \<and> inj_on (s_text st) (s_live st) \<and>
     (\<forall>x\<in>s_live st. s_hash st x = HASH_SSTRING (s_text st x) \<and> s_len st x = of_nat (length (s_text st x)))"

text \<open>The address of a text.\<close>

definition slook :: "sstrings \<Rightarrow> u8 list \<Rightarrow> nat option" where
  "slook st cp = (if cp \<in> s_text st ` s_live st then Some (the_inv_into (s_live st) (s_text st) cp) else None)"

lemma slook_iff: "inj_on (s_text st) (s_live st) \<Longrightarrow> slook st cp = Some x \<longleftrightarrow> x \<in> s_live st \<and> s_text st x = cp"
proof
  assume inj: "inj_on (s_text st) (s_live st)" and "slook st cp = Some x"
  then have "cp \<in> s_text st ` s_live st" "x = the_inv_into (s_live st) (s_text st) cp"
    by (simp_all add: slook_def split: if_splits)
  then show "x \<in> s_live st \<and> s_text st x = cp"
    using the_inv_into_into [OF inj _ subset_refl] f_the_inv_into_f [OF inj] by blast
next
  assume inj: "inj_on (s_text st) (s_live st)" and x: "x \<in> s_live st \<and> s_text st x = cp"
  then have "cp \<in> s_text st ` s_live st" by blast
  with the_inv_into_f_f [OF inj, of x] x show "slook st cp = Some x" by (simp add: slook_def)
qed

lemma slook_cong:
  assumes "s_live st' = s_live st" "s_text st' = s_text st"
  shows "slook st' = slook st"
  by (simp add: slook_def assms fun_eq_iff)

lemma chainsD:
  assumes "chains_ok st ch"
  shows "distinct (ch h)" "sstring_table st h = hdo (ch h) None" "dlist (s_prev st) (s_next st) None (ch h) None"
    "x \<in> set (ch h) \<longleftrightarrow> x \<in> s_live st \<and> s_hash st x = h"
proof -
  from assms have "distinct (ch h) \<and> sstring_table st h = hdo (ch h) None \<and>
     dlist (s_prev st) (s_next st) None (ch h) None \<and> set (ch h) = {x \<in> s_live st. s_hash st x = h}"
    unfolding chains_ok_def by blast
  then show "distinct (ch h)" "sstring_table st h = hdo (ch h) None" "dlist (s_prev st) (s_next st) None (ch h) None"
    "x \<in> set (ch h) \<longleftrightarrow> x \<in> s_live st \<and> s_hash st x = h" by simp_all
qed

lemmas chains_mem = chainsD(4)

lemma chains_ok_upd:
  assumes c: "chains_ok st ch" and ys: "dlist (s_prev st') (s_next st') None ys None" "distinct ys"
    and t: "sstring_table st' = (sstring_table st)(h := hdo ys None)"
    and o: "\<And>x. x \<in> s_live st \<Longrightarrow> x \<notin> set (ch h) \<Longrightarrow> x \<notin> set ys \<and> s_prev st' x = s_prev st x \<and>
        s_next st' x = s_next st x \<and> s_hash st' x = s_hash st x"
    and l: "s_live st' = set ys \<union> (s_live st - set (ch h))" and hh: "\<And>x. x \<in> set ys \<Longrightarrow> s_hash st' x = h"
  shows "chains_ok st' (ch(h := ys))"
  unfolding chains_ok_def
proof (intro allI conjI)
  fix h'
  have other: "x \<in> s_live st \<and> x \<notin> set (ch h)" if "x \<in> set (ch h')" "h' \<noteq> h" for x
    using that chains_mem [OF c] by simp
  have "dlist (s_prev st') (s_next st') None (ch h') None" if "h' \<noteq> h"
    using chainsD(3) [OF c, of h'] dlist_cong [of "ch h'" "s_prev st'" "s_prev st" "s_next st'" "s_next st"]
      other o that by blast
  with ys show "dlist (s_prev st') (s_next st') None ((ch(h := ys)) h') None" by simp
  show "distinct ((ch(h := ys)) h')" using ys(2) chainsD(1) [OF c] by simp
  show "sstring_table st' h' = hdo ((ch(h := ys)) h') None" using t chainsD(2) [OF c] by simp
  show "set ((ch(h := ys)) h') = {x \<in> s_live st'. s_hash st' x = h'}"
  proof (cases "h' = h")
    case True
    have "s_hash st' x \<noteq> h" if "x \<in> s_live st" "x \<notin> set (ch h)" for x
      using o [OF that] that chains_mem [OF c] by simp
    with True l hh show ?thesis by auto
  next
    case False
    have "x \<in> set (ch h') \<longleftrightarrow> x \<in> s_live st' \<and> s_hash st' x = h'" for x
    proof (cases "x \<in> s_live st \<and> x \<notin> set (ch h)")
      case True
      with o [of x] l chains_mem [OF c, of x h'] show ?thesis by simp
    next
      case no: False
      with other [of x] False l hh [of x] show ?thesis by auto
    qed
    with False show ?thesis by auto
  qed
qed

section \<open>Searching\<close>

lemma search_law:
  assumes "dlist (s_prev st) (s_next st) p xs None" "set xs \<subseteq> s_live st"
  shows "sstring_search cp (hdo xs None) st = Some (List.find (\<lambda>x. s_text st x = cp) xs)"
  using assms
proof (induction xs arbitrary: p)
  case Nil
  show ?case by (simp add: sstring_search.simps)
next
  case (Cons x xs)
  then show ?case by (subst sstring_search.simps) auto
qed

lemma find_memD: "List.find P xs = Some y \<Longrightarrow> y \<in> set xs \<and> P y"
  by (induction xs) (auto split: if_splits)

lemma find_ex: "x \<in> set xs \<Longrightarrow> P x \<Longrightarrow> \<exists>y. List.find P xs = Some y"
  by (induction xs) auto

lemma search_look:
  assumes i: "sinv st" and c: "chains_ok st ch"
  shows "sstring_search cp (sstring_table st (HASH_SSTRING cp)) st = Some (slook st cp)"
proof -
  let ?xs = "ch (HASH_SSTRING cp)"
  have xs: "sstring_table st (HASH_SSTRING cp) = hdo ?xs None" "dlist (s_prev st) (s_next st) None ?xs None"
    by (rule chainsD(2,3) [OF c])+
  have sub: "set ?xs \<subseteq> s_live st" using chains_mem [OF c, of _ "HASH_SSTRING cp"] by blast
  have inj: "inj_on (s_text st) (s_live st)" using i by (simp add: sinv_def)
  have "List.find (\<lambda>x. s_text st x = cp) ?xs = slook st cp"
  proof (cases "slook st cp")
    case (Some x)
    then have x: "x \<in> s_live st" "s_text st x = cp" using slook_iff [OF inj, of cp x] by simp_all
    then have "s_hash st x = HASH_SSTRING cp" using i unfolding sinv_def by blast
    then have "x \<in> set ?xs" using x(1) chains_mem [OF c, of x "HASH_SSTRING cp"] by simp
    from find_ex [OF this, of "\<lambda>x. s_text st x = cp", OF x(2)] obtain y where
      y: "List.find (\<lambda>x. s_text st x = cp) ?xs = Some y" by blast
    from find_memD [OF this] have "y \<in> set ?xs" "s_text st y = cp" by simp_all
    with sub x have "y = x" using inj_onD [OF inj, of y x] by blast
    with y Some show ?thesis by simp
  next
    case None
    then have "\<forall>x\<in>s_live st. s_text st x \<noteq> cp" by (auto simp: slook_def split: if_splits)
    then have "\<not> (\<exists>x. x \<in> set ?xs \<and> s_text st x = cp)" using sub by blast
    then show ?thesis unfolding None find_None_iff .
  qed
  with search_law [OF xs(2) sub, of cp] xs(1) show ?thesis by simp
qed

text \<open>Only links change.\<close>

definition relinked :: "sstrings \<Rightarrow> sstrings \<Rightarrow> bool" where
  "relinked st st' \<longleftrightarrow> (\<exists>p n t. st' = st\<lparr>s_prev := p, s_next := n, sstring_table := t\<rparr>)"

lemma relinked_refl: "relinked st st"
  unfolding relinked_def by (intro exI [of _ "s_prev st"] exI [of _ "s_next st"] exI [of _ "sstring_table st"]) simp

lemma relinked_simps:
  assumes "relinked st st'"
  shows "s_live st' = s_live st" "s_text st' = s_text st" "s_count st' = s_count st" "s_hash st' = s_hash st"
    "s_len st' = s_len st" "num_distinct_strings_shared st' = num_distinct_strings_shared st"
    "bytes_distinct_strings_shared st' = bytes_distinct_strings_shared st"
  using assms by (auto simp: relinked_def)

lemma front_law:
  assumes c: "chains_ok st ch" and x: "x \<in> set (ch h)"
  shows "\<exists>st' ch'. sstring_front h x st = Some st' \<and> relinked st st' \<and> chains_ok st' ch'"
proof -
  obtain us vs where ch: "ch h = us @ x # vs" using x by (meson split_list)
  have old: "distinct (us @ x # vs)" "sstring_table st h = hdo (us @ x # vs) None"
    "dlist (s_prev st) (s_next st) None (us @ x # vs) None" using chainsD(1-3) [OF c, of h] ch by simp_all
  have live: "set (us @ x # vs) \<subseteq> s_live st" using chains_mem [OF c, of _ h] ch by auto
  show ?thesis
  proof (cases us rule: rev_cases)
    case Nil
    with old have "s_prev st x = None" by simp
    with c relinked_refl show ?thesis by (auto simp: sstring_front_def)
  next
    case (snoc us' u)
    have px: "s_prev st x = Some u" "s_next st x = hdo vs None" using old(3) snoc by (simp_all add: dlist_append)
    have "us \<noteq> []" using snoc by simp
    then obtain f us'' where f: "us = f # us''" by (cases us) auto
    define p1 where "p1 = (case vs of [] \<Rightarrow> s_prev st | v # _ \<Rightarrow> (s_prev st)(v := Some u))"
    define n1 where "n1 = (s_next st)(u := hdo vs None)"
    define p2 where "p2 = p1(x := None, f := Some x)"
    define n2 where "n2 = n1(x := Some f)"
    let ?st = "st\<lparr>s_prev := p2, s_next := n2, sstring_table := (sstring_table st)(h \<mapsto> x)\<rparr>"
    have ne: "x \<noteq> u" "\<forall>v\<in>set vs. v \<noteq> x" using old(1) snoc by auto
    have nf: "f \<noteq> x" using old(1) f by auto
    have d1: "dlist p1 n1 None (us @ vs) None"
      using snoc by (intro dlist_unlink [OF old(3,1)]) (simp_all add: n1_def p1_def split: list.split)
    have "dlist p2 (n1(x := hdo (us @ vs) None)) None (x # us @ vs) None"
      using old(1) f by (intro dlist_push [OF d1]) (simp_all add: p2_def)
    then have d2: "dlist p2 n2 None (x # us @ vs) None" using f by (simp add: n2_def)
    have "sstring_front h x st = Some ?st"
    proof -
      have "sstring_table st h = Some f" "f \<in> s_live st" "x \<in> s_live st" "set vs \<subseteq> s_live st"
        using old(2) f live by simp_all
      moreover have "u \<in> s_live st" using live snoc by simp
      ultimately show ?thesis using px ne nf
        by (cases vs) (auto simp: sstring_front_def set_next_def set_prev_def p1_def n1_def p2_def n2_def)
    qed
    moreover have "relinked st ?st" by (auto simp: relinked_def)
    moreover have "chains_ok ?st (ch(h := x # us @ vs))"
    proof (rule chains_ok_upd [OF c])
      show "dlist (s_prev ?st) (s_next ?st) None (x # us @ vs) None" using d2 by simp
      show "distinct (x # us @ vs)" using old(1) by auto
      show "s_live ?st = set (x # us @ vs) \<union> (s_live st - set (ch h))" using live ch by auto
      show "s_hash ?st y = h" if "y \<in> set (x # us @ vs)" for y using that chains_mem [OF c, of y h] ch by auto
      show "y \<notin> set (x # us @ vs) \<and> s_prev ?st y = s_prev st y \<and> s_next ?st y = s_next st y \<and> s_hash ?st y = s_hash st y"
        if "y \<in> s_live st" "y \<notin> set (ch h)" for y
      proof -
        have "f \<in> set us" using f by simp
        moreover have "u \<in> set us" using snoc by simp
        ultimately show ?thesis using that(2) unfolding ch p2_def n2_def p1_def n1_def by (auto split: list.split)
      qed
    qed simp
    ultimately show ?thesis by blast
  qed
qed

lemma find_sstring_law:
  assumes i: "sinv st"
  shows "\<exists>st'. find_sstring cp st = Some (slook st cp, st') \<and> sinv st' \<and> relinked st st'"
proof -
  from i obtain ch where c: "chains_ok st ch" by (auto simp: sinv_def)
  show ?thesis
  proof (cases "slook st cp")
    case None
    with i c relinked_refl show ?thesis by (auto simp: find_sstring_def search_look)
  next
    case (Some x)
    then have "x \<in> set (ch (HASH_SSTRING cp))"
      using i slook_iff [of st cp x] by (auto simp: sinv_def chains_mem [OF c])
    from front_law [OF c this] obtain st' ch' where
      "sstring_front (HASH_SSTRING cp) x st = Some st'" "relinked st st'" "chains_ok st' ch'" by blast
    with Some i show ?thesis by (auto simp: find_sstring_def search_look [OF i c] sinv_def relinked_simps)
  qed
qed

interpretation ss: name_table sinv slook find_sstring
proof
  fix st cp assume "sinv st"
  from find_sstring_law [OF this, of cp] show "\<exists>s'. find_sstring cp st = Some (slook st cp, s') \<and> sinv s' \<and> slook s' = slook st"
    using slook_cong relinked_simps(1,2) by blast
qed

section \<open>Making and freeing\<close>

text \<open>Reference counts: 0 stays 0.\<close>

definition ref_up :: "u16 \<Rightarrow> u16" where "ref_up c = (if c \<noteq> 0 then c + 1 else 0)"
definition ref_down :: "u16 \<Rightarrow> u16" where "ref_down c = (if c \<noteq> 0 then c - 1 else 0)"

lemma sinvD:
  assumes "sinv st"
  shows "\<exists>ch. chains_ok st ch" "finite (s_live st)" "inj_on (s_text st) (s_live st)"
    "x \<in> s_live st \<Longrightarrow> s_hash st x = HASH_SSTRING (s_text st x)" "x \<in> s_live st \<Longrightarrow> s_len st x = of_nat (length (s_text st x))"
  using assms by (simp_all add: sinv_def)

lemma chains_ok_data: "chains_ok st ch \<Longrightarrow> chains_ok (st\<lparr>s_count := f\<rparr>) ch"
  by (simp add: chains_ok_def)

lemma sinv_count: "sinv st \<Longrightarrow> sinv (st\<lparr>s_count := f\<rparr>)"
  using chains_ok_data by (auto simp: sinv_def)

lemma sinv_relinked: "sinv st \<Longrightarrow> relinked st st' \<Longrightarrow> chains_ok st' ch \<Longrightarrow> sinv st'"
  by (auto simp: sinv_def relinked_simps)

lemma reference_law: "x \<in> s_live st \<Longrightarrow> reference_sstring x st = Some (x, st\<lparr>s_count := (s_count st)(x := ref_up (s_count st x))\<rparr>)"
  by (auto simp: reference_sstring_def ref_up_def fun_upd_idem)

lemma make_known:
  assumes i: "sinv st" and x: "slook st cp = Some x"
  shows "\<exists>st1. make_sstring a cp st = Some (x, st1\<lparr>s_count := (s_count st)(x := ref_up (s_count st x))\<rparr>) \<and>
    relinked st st1 \<and> sinv st1"
proof -
  from sinvD(1) [OF i] obtain ch where c: "chains_ok st ch" by blast
  have xl: "x \<in> s_live st" "s_text st x = cp" using slook_iff [OF sinvD(3) [OF i], of cp x] x by simp_all
  then have "x \<in> set (ch (HASH_SSTRING cp))" using sinvD(4) [OF i xl(1)] chains_mem [OF c, of x "HASH_SSTRING cp"] by simp
  from front_law [OF c this] obtain st1 ch1 where
    st1: "sstring_front (HASH_SSTRING cp) x st = Some st1" "relinked st st1" "chains_ok st1 ch1" by blast
  have "x \<in> s_live st1" using xl(1) relinked_simps(1) [OF st1(2)] by simp
  then have "make_sstring a cp st = Some (x, st1\<lparr>s_count := (s_count st)(x := ref_up (s_count st x))\<rparr>)"
    using st1(1) x relinked_simps(3) [OF st1(2)]
    by (simp add: make_sstring_def search_look [OF i c] Let_def reference_law)
  with st1 sinv_relinked [OF i st1(2,3)] show ?thesis by blast
qed

definition with_new :: "nat \<Rightarrow> u8 list \<Rightarrow> sstrings \<Rightarrow> sstrings" where
  "with_new a cp st = st\<lparr>s_live := insert a (s_live st), s_text := (s_text st)(a := cp), s_count := (s_count st)(a := 1),
     s_hash := (s_hash st)(a := HASH_SSTRING cp), s_len := (s_len st)(a := of_nat (length cp)),
     num_distinct_strings_shared := num_distinct_strings_shared st + 1,
     bytes_distinct_strings_shared := bytes_distinct_strings_shared st + int (length cp) + 1\<rparr>"

lemma make_new:
  assumes i: "sinv st" and n: "slook st cp = None" and a: "a \<notin> s_live st"
  shows "\<exists>st'. make_sstring a cp st = Some (a, st') \<and> relinked (with_new a cp st) st' \<and> sinv st'"
proof -
  let ?h = "HASH_SSTRING cp"
  from sinvD(1) [OF i] obtain ch where c: "chains_ok st ch" by blast
  have live: "set (ch ?h) \<subseteq> s_live st" using chains_mem [OF c, of _ ?h] by blast
  have an: "a \<notin> set (ch ?h)" using live a by blast
  define p where "p = (case ch ?h of [] \<Rightarrow> (s_prev st)(a := None) | y # _ \<Rightarrow> (s_prev st)(a := None, y := Some a))"
  let ?st = "(with_new a cp st)\<lparr>s_prev := p, s_next := (s_next st)(a := hdo (ch ?h) None),
      sstring_table := (sstring_table st)(?h \<mapsto> a)\<rparr>"
  have d: "dlist p ((s_next st)(a := hdo (ch ?h) None)) None (a # ch ?h) None"
    by (rule dlist_push [OF chainsD(3) [OF c] an chainsD(1) [OF c]]) (simp add: p_def)
  have "sstring_search cp (sstring_table st ?h) st = Some None" using search_look [OF i c, of cp] n by simp
  then have "make_sstring a cp st = Some (a, ?st)"
    using live chainsD(2) [OF c, of ?h]
    by (cases "ch ?h") (auto simp: make_sstring_def Let_def set_prev_def set_next_def p_def with_new_def)
  moreover have "relinked (with_new a cp st) ?st" by (auto simp: relinked_def)
  moreover have "sinv ?st"
    unfolding sinv_def
  proof (intro conjI)
    have "chains_ok ?st (ch(?h := a # ch ?h))"
    proof (rule chains_ok_upd [OF c])
      show "dlist (s_prev ?st) (s_next ?st) None (a # ch ?h) None" using d by simp
      show "distinct (a # ch ?h)" using an chainsD(1) [OF c] by simp
      show "sstring_table ?st = (sstring_table st)(?h := hdo (a # ch ?h) None)" by simp
      show "s_live ?st = set (a # ch ?h) \<union> (s_live st - set (ch ?h))" using live by (auto simp: with_new_def)
      show "s_hash ?st x = ?h" if "x \<in> set (a # ch ?h)" for x
        using that chains_mem [OF c, of x ?h] by (auto simp: with_new_def)
      show "x \<notin> set (a # ch ?h) \<and> s_prev ?st x = s_prev st x \<and> s_next ?st x = s_next st x \<and> s_hash ?st x = s_hash st x"
        if "x \<in> s_live st" "x \<notin> set (ch ?h)" for x
        using that a by (auto simp: p_def with_new_def split: list.split)
    qed
    then show "\<exists>ch. chains_ok ?st ch" by blast
    show "finite (s_live ?st)" using sinvD(2) [OF i] by (simp add: with_new_def)
    have "cp \<notin> s_text st ` s_live st" using n by (simp add: slook_def split: if_splits)
    then show "inj_on (s_text ?st) (s_live ?st)"
      using sinvD(3) [OF i] a by (auto simp: with_new_def inj_on_def)
    show "\<forall>x\<in>s_live ?st. s_hash ?st x = HASH_SSTRING (s_text ?st x) \<and> s_len ?st x = of_nat (length (s_text ?st x))"
      using sinvD(4,5) [OF i] a by (auto simp: with_new_def)
  qed
  ultimately show ?thesis by blast
qed

definition without :: "nat \<Rightarrow> sstrings \<Rightarrow> sstrings" where
  "without x st = st\<lparr>s_live := s_live st - {x}, s_count := (s_count st)(x := 0),
     num_distinct_strings_shared := num_distinct_strings_shared st - 1,
     bytes_distinct_strings_shared := bytes_distinct_strings_shared st - (int (unat (s_len st x)) + 1)\<rparr>"

lemma free_last:
  assumes i: "sinv st" and x: "x \<in> s_live st" "s_count st x = 1"
  shows "\<exists>st'. free_sstring x st = Some st' \<and> relinked (without x st) st' \<and> sinv st'"
proof -
  from sinvD(1) [OF i] obtain ch where c: "chains_ok st ch" by blast
  let ?h = "s_hash st x"
  have "x \<in> set (ch ?h)" using x(1) chains_mem [OF c, of x ?h] by simp
  then obtain us vs where ch: "ch ?h = us @ x # vs" by (meson split_list)
  have old: "distinct (us @ x # vs)" "dlist (s_prev st) (s_next st) None (us @ x # vs) None"
    "sstring_table st ?h = hdo (us @ x # vs) None" using chainsD(1-3) [OF c, of ?h] ch by simp_all
  have live: "set (us @ x # vs) \<subseteq> s_live st" using chains_mem [OF c, of _ ?h] ch by auto
  define n where "n = (if us = [] then s_next st else (s_next st)(last us := hdo vs None))"
  define p where "p = (case vs of [] \<Rightarrow> s_prev st | v # _ \<Rightarrow> (s_prev st)(v := lasto None us))"
  have d: "dlist p n None (us @ vs) None" by (rule dlist_unlink [OF old(2,1) n_def p_def])
  have px: "s_prev st x = lasto None us" "s_next st x = hdo vs None" using old(2) by (simp_all add: dlist_append)
  let ?st = "(without x st)\<lparr>s_prev := p, s_next := n, sstring_table := (sstring_table st)(?h := hdo (us @ vs) None)\<rparr>"
  have t: "us \<noteq> [] \<Longrightarrow> (sstring_table st)(?h := hdo (us @ vs) None) = sstring_table st"
    using old(3) by (cases us) (auto simp: fun_upd_idem)
  have "x \<notin> set us" using old(1) by simp
  then have ne: "last us \<noteq> x" "last us \<in> s_live st" if "us \<noteq> []" using live last_in_set [OF that] by auto
  have vl: "v \<in> s_live st" "v \<noteq> x" if "vs = v # vs'" for v vs' using old(1) live that by auto
  have "free_sstring x st = Some ?st"
  proof (cases "us = []")
    case True
    then show ?thesis using x px vl
      by (cases vs) (simp_all add: free_sstring_def Let_def set_next_def set_prev_def n_def p_def without_def)
  next
    case False
    then show ?thesis using x px vl ne [OF False] t [OF False]
      by (cases vs) (simp_all add: free_sstring_def Let_def set_next_def set_prev_def n_def p_def without_def lasto_def)
  qed
  moreover have "relinked (without x st) ?st" by (auto simp: relinked_def)
  moreover have "sinv ?st"
  proof -
    have "chains_ok ?st (ch(?h := us @ vs))"
    proof (rule chains_ok_upd [OF c])
      show "dlist (s_prev ?st) (s_next ?st) None (us @ vs) None" using d by simp
      show "distinct (us @ vs)" using old(1) by auto
      show "s_live ?st = set (us @ vs) \<union> (s_live st - set (ch ?h))" using live ch old(1) by (auto simp: without_def)
      show "s_hash ?st y = ?h" if "y \<in> set (us @ vs)" for y
        using that chains_mem [OF c, of y ?h] ch by (auto simp: without_def)
      show "y \<notin> set (us @ vs) \<and> s_prev ?st y = s_prev st y \<and> s_next ?st y = s_next st y \<and> s_hash ?st y = s_hash st y"
        if "y \<in> s_live st" "y \<notin> set (ch ?h)" for y
      proof -
        have y: "y \<notin> set us" "y \<notin> set vs" using that(2) ch by simp_all
        then have "us = [] \<or> y \<noteq> last us" using last_in_set by blast
        with y show ?thesis by (cases vs) (auto simp: p_def n_def without_def)
      qed
    qed simp
    moreover have "inj_on (s_text ?st) (s_live ?st)"
      using inj_on_subset [OF sinvD(3) [OF i], of "s_live st - {x}"] by (simp add: without_def)
    ultimately show ?thesis using sinvD(2,4,5) [OF i] unfolding sinv_def by (simp add: without_def) blast
  qed
  ultimately show ?thesis by blast
qed

lemma free_other:
  assumes "x \<in> s_live st" "s_count st x \<noteq> 1"
  shows "free_sstring x st = Some (st\<lparr>s_count := (s_count st)(x := ref_down (s_count st x))\<rparr>)"
  using assms by (auto simp: free_sstring_def ref_down_def fun_upd_idem Let_def)

section \<open>Refinement of a table of counts\<close>

definition sabs :: "sstrings \<Rightarrow> u8 list \<rightharpoonup> u16" where
  "sabs st cp = map_option (s_count st) (slook st cp)"

definition spec_make :: "(u8 list \<rightharpoonup> u16) \<Rightarrow> u8 list \<Rightarrow> (u8 list \<rightharpoonup> u16)" where
  "spec_make m cp = m(cp \<mapsto> (case m cp of None \<Rightarrow> 1 | Some c \<Rightarrow> ref_up c))"

definition spec_free :: "(u8 list \<rightharpoonup> u16) \<Rightarrow> u8 list \<Rightarrow> (u8 list \<rightharpoonup> u16)" where
  "spec_free m cp =
     (case m cp of None \<Rightarrow> m | Some c \<Rightarrow> if c = 1 then m(cp := None) else m(cp \<mapsto> ref_down c))"

lemma slook_ext:
  assumes "inj_on (s_text st) (s_live st)" "\<And>t x. f t = Some x \<longleftrightarrow> x \<in> s_live st \<and> s_text st x = t"
  shows "slook st = f"
proof
  fix t
  have "slook st t = Some x \<longleftrightarrow> f t = Some x" for x by (simp only: slook_iff [OF assms(1)] assms(2))
  then show "slook st t = f t" by (metis option.exhaust)
qed

lemma slook_relinked: "relinked st st' \<Longrightarrow> slook st' = slook st"
  by (rule slook_cong) (simp_all add: relinked_simps)

lemma slook_new:
  assumes i: "sinv st" and n: "slook st cp = None" and a: "a \<notin> s_live st" and r: "relinked (with_new a cp st) st'" "sinv st'"
  shows "slook st' = (slook st)(cp \<mapsto> a)"
proof (rule slook_ext [OF sinvD(3) [OF r(2)]])
  fix t x
  have no: "s_text st y \<noteq> cp" if "y \<in> s_live st" for y using n that by (auto simp: slook_def split: if_splits)
  show "((slook st)(cp \<mapsto> a)) t = Some x \<longleftrightarrow> x \<in> s_live st' \<and> s_text st' x = t"
    using slook_iff [OF sinvD(3) [OF i], of t x] no [of x] a by (auto simp: relinked_simps [OF r(1)] with_new_def)
qed

lemma slook_without:
  assumes i: "sinv st" and x: "x \<in> s_live st" and r: "relinked (without x st) st'" "sinv st'"
  shows "slook st' = (slook st)(s_text st x := None)"
proof (rule slook_ext [OF sinvD(3) [OF r(2)]])
  fix t y
  have "s_text st y = s_text st x \<longleftrightarrow> y = x" if "y \<in> s_live st" using inj_on_eq_iff [OF sinvD(3) [OF i] that x] .
  then show "((slook st)(s_text st x := None)) t = Some y \<longleftrightarrow> y \<in> s_live st' \<and> s_text st' y = t"
    using slook_iff [OF sinvD(3) [OF i], of t y] by (auto simp: relinked_simps [OF r(1)] without_def)
qed

lemma sabs_count:
  assumes i: "sinv st" and x: "slook st cp = Some x"
  shows "(\<lambda>t. map_option ((s_count st)(x := c)) (slook st t)) = (sabs st)(cp \<mapsto> c)"
proof
  fix t
  show "map_option ((s_count st)(x := c)) (slook st t) = ((sabs st)(cp \<mapsto> c)) t"
    using x slook_iff [OF sinvD(3) [OF i], of t] slook_iff [OF sinvD(3) [OF i], of cp x]
    by (cases "slook st t") (auto simp: sabs_def)
qed

lemma make_refines:
  assumes i: "sinv st" and a: "a \<notin> s_live st"
  shows "\<exists>x st'. make_sstring a cp st = Some (x, st') \<and> sinv st' \<and> slook st' = (slook st)(cp \<mapsto> x) \<and>
    (\<forall>y. slook st cp = Some y \<longrightarrow> x = y) \<and> sabs st' = spec_make (sabs st) cp"
proof (cases "slook st cp")
  case None
  from make_new [OF i None a] obtain st' where
    st': "make_sstring a cp st = Some (a, st')" "relinked (with_new a cp st) st'" "sinv st'" by blast
  have l: "slook st' = (slook st)(cp \<mapsto> a)" by (rule slook_new [OF i None a st'(2,3)])
  have "sabs st' t = spec_make (sabs st) cp t" for t
    using a slook_iff [OF sinvD(3) [OF i], of t] None
    by (cases "slook st t") (auto simp: sabs_def spec_make_def l relinked_simps [OF st'(2)] with_new_def)
  then have "sabs st' = spec_make (sabs st) cp" by blast
  with st' l None show ?thesis by auto
next
  case (Some x)
  let ?f = "(s_count st)(x := ref_up (s_count st x))"
  from make_known [OF i Some, of a] obtain st1 where
    m: "make_sstring a cp st = Some (x, st1\<lparr>s_count := ?f\<rparr>)" "relinked st st1" "sinv st1" by blast
  have l: "slook (st1\<lparr>s_count := ?f\<rparr>) = slook st"
    using slook_cong [of "st1\<lparr>s_count := ?f\<rparr>" st1] slook_relinked [OF m(2)] by simp
  have "sabs (st1\<lparr>s_count := ?f\<rparr>) = (\<lambda>t. map_option ?f (slook st t))" by (simp add: fun_eq_iff sabs_def l)
  also have "\<dots> = spec_make (sabs st) cp"
    unfolding sabs_count [OF i Some] by (simp add: spec_make_def sabs_def Some)
  finally show ?thesis using m(1) sinv_count [OF m(3)] l Some by (auto simp: fun_upd_idem)
qed

lemma free_refines:
  assumes i: "sinv st" and x: "x \<in> s_live st"
  shows "\<exists>st'. free_sstring x st = Some st' \<and> sinv st' \<and> sabs st' = spec_free (sabs st) (s_text st x) \<and>
    (\<forall>t. t \<noteq> s_text st x \<longrightarrow> slook st' t = slook st t)"
proof -
  let ?t = "s_text st x"
  have lx: "slook st ?t = Some x" using slook_iff [OF sinvD(3) [OF i], of ?t x] x by simp
  show ?thesis
  proof (cases "s_count st x = 1")
    case True
    from free_last [OF i x True] obtain st' where
      st': "free_sstring x st = Some st'" "relinked (without x st) st'" "sinv st'" by blast
    have l: "slook st' = (slook st)(?t := None)" by (rule slook_without [OF i x st'(2,3)])
    have "sabs st' t = spec_free (sabs st) ?t t" for t
      using True lx slook_iff [OF sinvD(3) [OF i], of t x]
      by (cases "slook st t") (auto simp: sabs_def spec_free_def l relinked_simps [OF st'(2)] without_def)
    then have "sabs st' = spec_free (sabs st) ?t" by blast
    with st' l show ?thesis by auto
  next
    case False
    let ?f = "(s_count st)(x := ref_down (s_count st x))"
    have l: "slook (st\<lparr>s_count := ?f\<rparr>) = slook st" by (rule slook_cong) simp_all
    have "sabs (st\<lparr>s_count := ?f\<rparr>) = (\<lambda>t. map_option ?f (slook st t))" by (simp add: fun_eq_iff sabs_def l)
    also have "\<dots> = spec_free (sabs st) ?t"
      unfolding sabs_count [OF i lx] using False by (simp add: spec_free_def sabs_def lx)
    finally show ?thesis using free_other [OF x False] sinv_count [OF i] l by auto
  qed
qed

lemma no_sstrings_inv: "sinv no_sstrings"
proof -
  have "chains_ok no_sstrings (\<lambda>_. [])" by (simp add: chains_ok_def no_sstrings_def)
  then show ?thesis by (auto simp: sinv_def no_sstrings_def)
qed

section \<open>Reference counts\<close>

text \<open>A sequence of references (\<^const>\<open>True\<close>) and releases (\<^const>\<open>False\<close>) of one string, in which a holder is
  left after each step.\<close>

fun use_mstring :: "nat \<Rightarrow> bool list \<Rightarrow> mstrings \<Rightarrow> mstrings option" where
  "use_mstring cp [] st = Some st"
| "use_mstring cp (b # bs) st = (if b then reference_mstring cp st else free_mstring cp st) \<bind> use_mstring cp bs"

fun held :: "nat \<Rightarrow> bool list \<Rightarrow> bool" where
  "held n [] \<longleftrightarrow> 0 < n"
| "held n (b # bs) \<longleftrightarrow> (if b then held (n + 1) bs else 1 < n \<and> held (n - 1) bs)"

lemma ref_up_count: "c = 0 \<or> unat c = n \<Longrightarrow> ref_up c = 0 \<or> unat (ref_up c) = n + 1"
proof -
  assume h: "c = 0 \<or> unat c = n"
  show ?thesis
  proof (cases "c = 0 \<or> c + 1 = 0")
    case False
    then have "c \<noteq> - 1" by auto
    then have "c < - 1" by (simp add: word_order.not_eq_extremum)
    then have "unat (c + 1) = unat c + 1" by (simp add: unat_inc_lt)
    with h False show ?thesis by (simp add: ref_up_def)
  qed (auto simp: ref_up_def)
qed

lemma use_mstring_law:
  assumes "cp \<in> m_live st" "m_count st cp = 0 \<or> unat (m_count st cp) = n" "held n bs"
  shows "\<exists>st'. use_mstring cp bs st = Some st' \<and> cp \<in> m_live st' \<and> m_text st' cp = m_text st cp"
  using assms
proof (induction bs arbitrary: st n)
  case (Cons b bs)
  show ?case
  proof (cases b)
    case True
    let ?st = "if m_count st cp \<noteq> 0 then st\<lparr>m_count := (m_count st)(cp := m_count st cp + 1)\<rparr> else st"
    have "reference_mstring cp st = Some ?st" using Cons.prems(1) by (simp add: reference_mstring_def)
    moreover have "m_count ?st cp = 0 \<or> unat (m_count ?st cp) = n + 1"
      using ref_up_count [OF Cons.prems(2)] by (simp add: ref_up_def split: if_splits)
    ultimately show ?thesis using Cons.IH [of ?st "n + 1"] Cons.prems(1,3) True by (simp split: if_splits)
  next
    case False
    let ?st = "if m_count st cp \<noteq> 0 then st\<lparr>m_count := (m_count st)(cp := m_count st cp - 1)\<rparr> else st"
    have n: "1 < n" "held (n - 1) bs" using Cons.prems(3) False by simp_all
    have u: "unat (m_count st cp - 1) = n - 1" if "m_count st cp \<noteq> 0"
      using Cons.prems(2) that by (simp add: unat_minus_one)
    with n(1) have "m_count st cp - 1 \<noteq> 0" if "m_count st cp \<noteq> 0" using that by (metis unat_0 zero_less_diff less_numeral_extra(3))
    then have "free_mstring cp st = Some ?st" using Cons.prems(1) by (simp add: free_mstring_def)
    then show ?thesis using Cons.IH [of ?st "n - 1"] Cons.prems(1) u n(2) False by (simp split: if_splits)
  qed
qed simp

section \<open>Properties\<close>

text \<open>C28. The shared string table implements a table of reference counts per text: making a string adds or
  increments its entry, freeing decrements or removes it, searching changes nothing, and the counts behave as
  16-bit counters that stay at 0.  The address of a string does not change while the string exists, whatever
  happens to the others, and no operation follows a dangling link.\<close>

theorem shared_strings_refine:
  assumes "sinv st"
  shows "(\<forall>a cp. a \<notin> s_live st \<longrightarrow> (\<exists>x st'. make_sstring a cp st = Some (x, st') \<and> sinv st' \<and>
      slook st' = (slook st)(cp \<mapsto> x) \<and> (\<forall>y. slook st cp = Some y \<longrightarrow> x = y) \<and> sabs st' = spec_make (sabs st) cp)) \<and>
    (\<forall>x\<in>s_live st. \<exists>st'. free_sstring x st = Some st' \<and> sinv st' \<and> sabs st' = spec_free (sabs st) (s_text st x) \<and>
      (\<forall>t. t \<noteq> s_text st x \<longrightarrow> slook st' t = slook st t)) \<and>
    (\<forall>cp. \<exists>st'. find_sstring cp st = Some (slook st cp, st') \<and> sinv st' \<and> slook st' = slook st \<and> sabs st' = sabs st)"
proof (intro conjI allI)
  fix cp
  from find_sstring_law [OF assms, of cp] obtain st' where
    r: "find_sstring cp st = Some (slook st cp, st')" "sinv st'" "relinked st st'" by blast
  have "sabs st' = sabs st" by (simp add: fun_eq_iff sabs_def slook_relinked [OF r(3)] relinked_simps [OF r(3)])
  with r slook_relinked [OF r(3)]
  show "\<exists>st'. find_sstring cp st = Some (slook st cp, st') \<and> sinv st' \<and> slook st' = slook st \<and> sabs st' = sabs st" by blast
qed (use make_refines [OF assms] free_refines [OF assms] in blast)+

theorem shared_strings_refine_witness:
  "\<exists>x st'. make_sstring 7 [104, 105] no_sstrings = Some (x, st') \<and> sinv st' \<and> sabs st' [104, 105] = Some 1"
proof -
  have "7 \<notin> s_live no_sstrings" by (simp add: no_sstrings_def)
  moreover have "sabs no_sstrings cp = None" for cp by (simp add: sabs_def slook_def no_sstrings_def)
  ultimately show ?thesis
    using conjunct1 [OF shared_strings_refine [OF no_sstrings_inv]] by (fastforce simp: spec_make_def)
qed

text \<open>What shared strings are for: two shared strings are the same address exactly when they are the same
  text, however many searches happen in between.\<close>

lemma shared_string_identity:
  assumes "sinv st" "a \<notin> s_live st" "make_sstring a cp st = Some (x, st1)" "ss.finds cps st1 = Some (rs, st2)"
    "b \<notin> s_live st2" "make_sstring b cq st2 = Some (y, st3)"
  shows "(x = y \<longleftrightarrow> cp = cq) \<and> s_text st3 x = cp \<and> s_text st3 y = cq \<and> rs = map ((slook st)(cp \<mapsto> x)) cps"
proof -
  from make_refines [OF assms(1,2), of cp] assms(3) have
    1: "sinv st1" "slook st1 = (slook st)(cp \<mapsto> x)" by auto
  from ss.finds_law [OF 1(1), of cps] assms(4) have
    2: "sinv st2" "slook st2 = slook st1" "rs = map (slook st1) cps" by auto
  from make_refines [OF 2(1) assms(5), of cq] assms(6) have
    3: "sinv st3" "slook st3 = (slook st2)(cq \<mapsto> y)" "\<forall>z. slook st2 cq = Some z \<longrightarrow> y = z" by auto
  have x: "slook st3 cp = Some x"
  proof (cases "cp = cq")
    case True
    then have "slook st2 cq = Some x" using 1(2) 2(2) by simp
    with 3(3) have "y = x" by simp
    with True 3(2) show ?thesis by simp
  next
    case False
    then show ?thesis using 1(2) 2(2) 3(2) by simp
  qed
  have y: "slook st3 cq = Some y" using 3(2) by simp
  have t: "s_text st3 x = cp" "s_text st3 y = cq"
    using x y slook_iff [OF sinvD(3) [OF 3(1)], of cp x] slook_iff [OF sinvD(3) [OF 3(1)], of cq y] by simp_all
  have "x = y \<longleftrightarrow> cp = cq" using t x y by (metis option.inject)
  with t 2(3) 1(2) show ?thesis by simp
qed

text \<open>C29. A reference counted string is never freed while somebody holds it, even when it is referenced more than
  65535 times: the counter then wraps to 0, which marks the string as permanent.\<close>

theorem mstring_not_freed_early:
  assumes "a \<notin> m_live st" "held 1 bs"
  shows "\<exists>st'. use_mstring a bs (snd (make_mstring a cp st)) = Some st' \<and> a \<in> m_live st' \<and> m_text st' a = cp"
  using use_mstring_law [of a "snd (make_mstring a cp st)" 1 bs] assms
  by (simp add: make_mstring_def allocate_mstring_def Let_def)

theorem mstring_not_freed_early_witness:
  "\<exists>st'. use_mstring 3 [True, True, False, False] (snd (make_mstring 3 [120]
       \<lparr>m_live = {}, m_len = (\<lambda>_. 0), m_count = (\<lambda>_. 0), m_text = (\<lambda>_. []),
        num_distinct_strings_malloced = 0, bytes_distinct_strings_malloced = 0\<rparr>)) = Some st' \<and> 3 \<in> m_live st' \<and> m_text st' 3 = [120]"
  by (rule mstring_not_freed_early) simp_all

text \<open>A defect in the statistics: the length kept with a shared string has 16 bits, so after making and
  freeing a string of 65536 bytes or more the bytes in use are counted too high by a multiple of 65536.\<close>

lemma sstring_bytes_drift:
  assumes "sinv st" "a \<notin> s_live st" "slook st cp = None"
  shows "\<exists>st1 st2. make_sstring a cp st = Some (a, st1) \<and> free_sstring a st1 = Some st2 \<and> s_live st2 = s_live st \<and>
    bytes_distinct_strings_shared st2 = bytes_distinct_strings_shared st + 65536 * (int (length cp) div 65536)"
proof -
  from make_new [OF assms(1,3,2)] obtain st1 where
    1: "make_sstring a cp st = Some (a, st1)" "relinked (with_new a cp st) st1" "sinv st1" by blast
  note s1 = relinked_simps [OF 1(2)]
  have "a \<in> s_live st1" "s_count st1 a = 1" by (simp_all add: s1 with_new_def)
  from free_last [OF 1(3) this] obtain st2 where
    2: "free_sstring a st1 = Some st2" "relinked (without a st1) st2" by blast
  have "int (unat (of_nat (length cp) :: u16)) = int (length cp) mod 65536" by (simp add: unat_of_nat zmod_int)
  then have "bytes_distinct_strings_shared st2 = bytes_distinct_strings_shared st + (int (length cp) - int (length cp) mod 65536)"
    by (simp add: relinked_simps [OF 2(2)] s1 without_def with_new_def)
  also have "int (length cp) - int (length cp) mod 65536 = 65536 * (int (length cp) div 65536)"
    by (simp add: minus_mod_eq_mult_div)
  finally show ?thesis using 1(1) 2 assms(2) by (auto simp: relinked_simps [OF 2(2)] s1 without_def with_new_def)
qed

end
