(* ===== verification/Otable.thy ===== *)
theory Otable
  imports Mstring
begin

text \<open>
  The table of object names (\<^verbatim>\<open>src/otable.c\<close>): singly linked hash chains, a found object moving to the front of its
  chain.  Objects are addresses; their names do not change while they are in the table.  A call of \<^verbatim>\<open>fatal()\<close> is a
  value of \<open>otable_fatal\<close>; \<^const>\<open>None\<close> is a search that does not end.  Of the statistics only the number of objects
  in the table is kept.
\<close>

section \<open>Operations\<close>

definition OTABLE_SIZE :: nat where "OTABLE_SIZE = 0x4000"

datatype otable_fatal = Duplicate_object | Entering_twice | Next_link_not_null | Different_object

record otable =
  ob_name :: "nat \<Rightarrow> u8 list"
  next_hash :: "nat \<Rightarrow> nat option"
  obj_table :: "nat \<Rightarrow> nat option"
  objs_in_table :: int

text \<open>The table size is a power of two, so the mask is used.\<close>

definition ObjHash :: "u8 list \<Rightarrow> nat" where
  "ObjHash s = unat (hashstr16 s 100) AND (OTABLE_SIZE - 1)"

text \<open>The loop with its two pointers; the answer is the object and the one before it.\<close>

partial_function (option) obj_search :: "u8 list \<Rightarrow> nat option \<Rightarrow> nat option \<Rightarrow> otable \<Rightarrow> (nat \<times> nat option) option option" where
  "obj_search s cur prev st =
     (case cur of
        None \<Rightarrow> Some None
      | Some c \<Rightarrow> (if ob_name st c = s then Some (Some (c, prev)) else obj_search s (next_hash st c) (Some c) st))"

definition find_obj_n :: "u8 list \<Rightarrow> otable \<Rightarrow> (nat option \<times> otable) option" where
  "find_obj_n s st =
     (let h = ObjHash s
      in do {
        r \<leftarrow> obj_search s (obj_table st h) None st;
        (case r of
           None \<Rightarrow> Some (None, st)
         | Some (cur, None) \<Rightarrow> Some (Some cur, st)
         | Some (cur, Some prev) \<Rightarrow>
             (let st1 = st\<lparr>next_hash := (next_hash st)(prev := next_hash st cur)\<rparr>;
                  st2 = st1\<lparr>next_hash := (next_hash st1)(cur := obj_table st1 h)\<rparr>
              in Some (Some cur, st2\<lparr>obj_table := (obj_table st2)(h \<mapsto> cur)\<rparr>))) })"

definition enter_object_hash :: "nat \<Rightarrow> otable \<Rightarrow> (otable_fatal + otable) option" where
  "enter_object_hash ob st =
     (let h = ObjHash (ob_name st ob)
      in do {
        (s, st1) \<leftarrow> find_obj_n (ob_name st ob) st;
        Some (case s of
            Some s \<Rightarrow> Inl (if s \<noteq> ob then Duplicate_object else Entering_twice)
          | None \<Rightarrow>
              (if next_hash st1 ob \<noteq> None then Inl Next_link_not_null
               else Inr (st1\<lparr>next_hash := (next_hash st1)(ob := obj_table st1 h),
                             obj_table := (obj_table st1)(h \<mapsto> ob), objs_in_table := objs_in_table st1 + 1\<rparr>))) })"

definition remove_object_hash :: "nat \<Rightarrow> otable \<Rightarrow> (otable_fatal + otable) option" where
  "remove_object_hash ob st =
     (let h = ObjHash (ob_name st ob)
      in do {
        (s, st1) \<leftarrow> find_obj_n (ob_name st ob) st;
        Some (if s \<noteq> Some ob then Inl Different_object
              else Inr (st1\<lparr>obj_table := (obj_table st1)(h := next_hash st1 ob),
                            next_hash := (next_hash st1)(ob := None), objs_in_table := objs_in_table st1 - 1\<rparr>)) })"

definition lookup_object_hash :: "u8 list \<Rightarrow> otable \<Rightarrow> (nat option \<times> otable) option" where
  "lookup_object_hash s st = find_obj_n s st"

definition clear_otable :: "otable \<Rightarrow> otable" where
  "clear_otable st = st\<lparr>obj_table := (\<lambda>i. if i < OTABLE_SIZE then None else obj_table st i)\<rparr>"

section \<open>The invariant\<close>

definition ochains :: "otable \<Rightarrow> (nat \<Rightarrow> nat list) \<Rightarrow> bool" where
  "ochains st ch \<longleftrightarrow> (\<forall>h. distinct (ch h) \<and> obj_table st h = hdo (ch h) None \<and> linked (next_hash st) (ch h) None \<and>
     (\<forall>x\<in>set (ch h). ObjHash (ob_name st x) = h) \<and> inj_on (ob_name st) (set (ch h))) \<and>
     (\<forall>x. x \<notin> set (ch (ObjHash (ob_name st x))) \<longrightarrow> next_hash st x = None)"

definition oinv :: "otable \<Rightarrow> bool" where
  "oinv st \<longleftrightarrow> (\<exists>ch. ochains st ch)"

text \<open>The object with a name, read off the chain.\<close>

definition olook :: "otable \<Rightarrow> u8 list \<Rightarrow> nat option" where
  "olook st s =
     (case chain_from (next_hash st) (obj_table st (ObjHash s)) of
        None \<Rightarrow> None | Some xs \<Rightarrow> List.find (\<lambda>x. ob_name st x = s) xs)"

lemma ochainsD:
  assumes "ochains st ch"
  shows "distinct (ch h)" "obj_table st h = hdo (ch h) None" "linked (next_hash st) (ch h) None"
    "x \<in> set (ch h) \<Longrightarrow> ObjHash (ob_name st x) = h" "inj_on (ob_name st) (set (ch h))"
    "x \<notin> set (ch (ObjHash (ob_name st x))) \<Longrightarrow> next_hash st x = None"
  using assms by (simp_all add: ochains_def)

lemma olook_chain: "ochains st ch \<Longrightarrow> olook st s = List.find (\<lambda>x. ob_name st x = s) (ch (ObjHash s))"
  using linked_chain [OF ochainsD(3), of st ch "ObjHash s"] by (simp add: olook_def ochainsD(2))

lemma olook_iff:
  assumes c: "ochains st ch"
  shows "olook st s = Some x \<longleftrightarrow> x \<in> set (ch (ObjHash s)) \<and> ob_name st x = s"
proof
  assume "olook st s = Some x"
  with find_memD show "x \<in> set (ch (ObjHash s)) \<and> ob_name st x = s" unfolding olook_chain [OF c] by fastforce
next
  assume x: "x \<in> set (ch (ObjHash s)) \<and> ob_name st x = s"
  then obtain y where y: "List.find (\<lambda>x. ob_name st x = s) (ch (ObjHash s)) = Some y"
    using find_ex [of x "ch (ObjHash s)" "\<lambda>x. ob_name st x = s"] by blast
  from find_memD [OF y] x have "y = x" using inj_onD [OF ochainsD(5) [OF c, of "ObjHash s"], of y x] by simp
  with y show "olook st s = Some x" by (simp add: olook_chain [OF c])
qed

text \<open>Replacing one chain.\<close>

lemma ochains_upd:
  assumes c: "ochains st ch" and n: "ob_name st' = ob_name st"
    and ys: "linked (next_hash st') ys None" "distinct ys" "obj_table st' = (obj_table st)(h := hdo ys None)"
    and m: "\<forall>x\<in>set ys. ObjHash (ob_name st x) = h" "inj_on (ob_name st) (set ys)"
    and o: "\<And>x. x \<notin> set (ch h) \<Longrightarrow> x \<notin> set ys \<Longrightarrow> next_hash st' x = next_hash st x"
    and z: "\<And>x. x \<in> set (ch h) \<Longrightarrow> x \<notin> set ys \<Longrightarrow> next_hash st' x = None"
  shows "ochains st' (ch(h := ys))"
  unfolding ochains_def
proof (intro conjI allI impI)
  fix h'
  have other: "x \<notin> set (ch h) \<and> x \<notin> set ys" if "x \<in> set (ch h')" "h' \<noteq> h" for x
    using ochainsD(4) [OF c that(1)] ochainsD(4) [OF c, of x h] m(1) that(2) by blast
  have "linked (next_hash st') (ch h') None" if "h' \<noteq> h"
    using ochainsD(3) [OF c, of h'] linked_cong [of "ch h'" "next_hash st'" "next_hash st"] other o that by blast
  with ys(1) show "linked (next_hash st') ((ch(h := ys)) h') None" by simp
  show "distinct ((ch(h := ys)) h')" using ys(2) ochainsD(1) [OF c] by simp
  show "obj_table st' h' = hdo ((ch(h := ys)) h') None" using ys(3) ochainsD(2) [OF c] by simp
  show "\<forall>x\<in>set ((ch(h := ys)) h'). ObjHash (ob_name st' x) = h'" using m(1) ochainsD(4) [OF c] n by simp
  show "inj_on (ob_name st') (set ((ch(h := ys)) h'))" using m(2) ochainsD(5) [OF c] n by simp
next
  fix x assume "x \<notin> set ((ch(h := ys)) (ObjHash (ob_name st' x)))"
  then have x: "x \<notin> set ys" "x \<notin> set (ch h) \<Longrightarrow> x \<notin> set (ch (ObjHash (ob_name st x)))"
    using m(1) n by (auto split: if_splits)
  then show "next_hash st' x = None" using o z ochainsD(6) [OF c] by metis
qed

section \<open>Searching\<close>

lemma obj_search_hit:
  "linked (next_hash st) (us @ x # vs) None \<Longrightarrow> \<forall>u\<in>set us. ob_name st u \<noteq> s \<Longrightarrow> ob_name st x = s \<Longrightarrow>
    obj_search s (hdo (us @ x # vs) None) prev st = Some (Some (x, lasto prev us))"
proof (induction us arbitrary: prev)
  case Nil
  then show ?case by (subst obj_search.simps) simp
next
  case (Cons u us)
  then show ?case by (subst obj_search.simps) simp
qed

lemma obj_search_miss:
  "linked (next_hash st) xs None \<Longrightarrow> \<forall>u\<in>set xs. ob_name st u \<noteq> s \<Longrightarrow> obj_search s (hdo xs None) prev st = Some None"
proof (induction xs arbitrary: prev)
  case Nil
  then show ?case by (subst obj_search.simps) simp
next
  case (Cons u us)
  then show ?case by (subst obj_search.simps) simp
qed

lemma find_none_all: "List.find P xs = None \<Longrightarrow> \<forall>x\<in>set xs. \<not> P x"
  by (induction xs) (auto split: if_splits)

lemma find_split: "List.find P xs = Some x \<Longrightarrow> \<exists>us vs. xs = us @ x # vs \<and> P x \<and> (\<forall>u\<in>set us. \<not> P u)"
proof (induction xs)
  case (Cons y xs)
  show ?case
  proof (cases "P y")
    case True
    with Cons.prems have "y = x" by simp
    with True have "y # xs = [] @ x # xs \<and> P x \<and> (\<forall>u\<in>set []. \<not> P u)" by simp
    then show ?thesis by blast
  next
    case False
    with Cons.IH Cons.prems obtain us vs where "xs = us @ x # vs" "P x" "\<forall>u\<in>set us. \<not> P u" by auto
    with False have "y # xs = (y # us) @ x # vs \<and> P x \<and> (\<forall>u\<in>set (y # us). \<not> P u)" by simp
    then show ?thesis by blast
  qed
qed simp

text \<open>The chains after a search hold the same objects, the one found in front.\<close>

lemma find_obj_chains:
  assumes c: "ochains st ch"
  shows "\<exists>st' ch'. find_obj_n s st = Some (olook st s, st') \<and> ochains st' ch' \<and> ob_name st' = ob_name st \<and>
    objs_in_table st' = objs_in_table st \<and> (\<forall>h. set (ch' h) = set (ch h)) \<and>
    (\<forall>x. olook st s = Some x \<longrightarrow> (\<exists>ys. ch' (ObjHash s) = x # ys))"
proof -
  let ?h = "ObjHash s"
  note l = ochainsD(3) [OF c, of ?h] and d = ochainsD(1) [OF c, of ?h] and t = ochainsD(2) [OF c, of ?h]
  show ?thesis
  proof (cases "olook st s")
    case None
    then have "\<forall>u\<in>set (ch ?h). ob_name st u \<noteq> s" using find_none_all unfolding olook_chain [OF c] by blast
    from obj_search_miss [OF l this] have "find_obj_n s st = Some (None, st)" by (simp add: find_obj_n_def Let_def t)
    with c None show ?thesis by auto
  next
    case (Some x)
    then obtain us vs where x: "ch ?h = us @ x # vs" "ob_name st x = s" "\<forall>u\<in>set us. ob_name st u \<noteq> s"
      using find_split unfolding olook_chain [OF c] by fast
    have r: "obj_search s (obj_table st ?h) None st = Some (Some (x, lasto None us))"
      using obj_search_hit [OF l [unfolded x(1)] x(3,2)] t x(1) by simp
    show ?thesis
    proof (cases us rule: rev_cases)
      case Nil
      then have "find_obj_n s st = Some (Some x, st)" using r by (simp add: find_obj_n_def Let_def)
      with c Some Nil x(1) show ?thesis by auto
    next
      case (snoc us' u)
      let ?n = "(next_hash st)(u := next_hash st x, x := obj_table st ?h)" and ?ys = "x # us @ vs"
      let ?st = "st\<lparr>next_hash := ?n, obj_table := (obj_table st)(?h \<mapsto> x)\<rparr>"
      have f: "find_obj_n s st = Some (Some x, ?st)" using r snoc by (simp add: find_obj_n_def Let_def)
      have dx: "x \<notin> set (us @ vs)" "distinct (us @ vs)" using d x(1) by simp_all
      have "linked ((next_hash st)(u := next_hash st x)) (us @ vs) None"
        using linked_skip [of "next_hash st" us' u x vs None] l d x(1) snoc by simp
      moreover have "linked ?n (us @ vs) None = linked ((next_hash st)(u := next_hash st x)) (us @ vs) None"
        using dx(1) by (intro linked_cong) auto
      ultimately have "linked ?n (us @ vs) None" by simp
      moreover have "obj_table st ?h = hdo (us @ vs) None" using t x(1) snoc by (simp add: hdo_append)
      ultimately have lk: "linked ?n ?ys None" by simp
      have s: "set ?ys = set (ch ?h)" using x(1) by auto
      have "u \<in> set (ch ?h)" using x(1) snoc by simp
      then have "ochains ?st (ch(?h := ?ys))"
        using lk dx s ochainsD(4) [OF c, of _ ?h] ochainsD(5) [OF c, of ?h] by (intro ochains_upd [OF c]) auto
      moreover have "\<forall>h. set ((ch(?h := ?ys)) h) = set (ch h)" using s by simp
      ultimately show ?thesis using f Some
        by (intro exI [of _ ?st] exI [of _ "ch(?h := ?ys)"]) simp
    qed
  qed
qed

lemma olook_same:
  assumes "ochains st ch" "ochains st' ch'" "ob_name st' = ob_name st" "\<forall>h. set (ch' h) = set (ch h)"
  shows "olook st' = olook st"
proof
  fix s
  have "olook st' s = Some x \<longleftrightarrow> olook st s = Some x" for x
    using assms by (simp add: olook_iff [OF assms(1)] olook_iff [OF assms(2)])
  then show "olook st' s = olook st s" by (metis option.exhaust)
qed

interpretation ot: name_table oinv olook find_obj_n
proof
  fix st s assume "oinv st"
  then obtain ch where c: "ochains st ch" by (auto simp: oinv_def)
  from find_obj_chains [OF c, of s] obtain st' ch' where
    f: "find_obj_n s st = Some (olook st s, st')" "ochains st' ch'" "ob_name st' = ob_name st" "\<forall>h. set (ch' h) = set (ch h)"
    by blast
  with olook_same [OF c f(2,3,4)]
  show "\<exists>s'. find_obj_n s st = Some (olook st s, s') \<and> oinv s' \<and> olook s' = olook st" by (auto simp: oinv_def)
qed

section \<open>Entering and removing\<close>

lemma enter_ob_law:
  assumes c: "ochains st ch" and new: "olook st (ob_name st ob) = None"
  shows "\<exists>st' ch'. enter_object_hash ob st = Some (Inr st') \<and> ochains st' ch' \<and> ob_name st' = ob_name st \<and>
    objs_in_table st' = objs_in_table st + 1 \<and>
    (\<forall>h. set (ch' h) = (if h = ObjHash (ob_name st ob) then insert ob (set (ch h)) else set (ch h)))"
proof -
  let ?s = "ob_name st ob" and ?h = "ObjHash (ob_name st ob)"
  from find_obj_chains [OF c, of ?s] new obtain st1 ch1 where
    f: "find_obj_n ?s st = Some (None, st1)" "ochains st1 ch1" "ob_name st1 = ob_name st"
      "objs_in_table st1 = objs_in_table st" "\<forall>h. set (ch1 h) = set (ch h)" by auto
  have no: "ob_name st u \<noteq> ?s" if "u \<in> set (ch1 ?h)" for u
    using new that f(5) olook_iff [OF c, of ?s u] by auto
  then have ob: "ob \<notin> set (ch1 ?h)" by blast
  then have nx: "next_hash st1 ob = None" using ochainsD(6) [OF f(2), of ob] f(3) by simp
  let ?n = "(next_hash st1)(ob := obj_table st1 ?h)"
  let ?st = "st1\<lparr>next_hash := ?n, obj_table := (obj_table st1)(?h \<mapsto> ob), objs_in_table := objs_in_table st1 + 1\<rparr>"
  have nh: "next_hash ?st = ?n" by simp
  have e: "enter_object_hash ob st = Some (Inr ?st)" using f(1) nx by (simp add: enter_object_hash_def Let_def)
  have "linked ?n (ch1 ?h) None = linked (next_hash st1) (ch1 ?h) None" using ob by (intro linked_cong) auto
  with ochainsD(3) [OF f(2), of ?h] have "linked ?n (ch1 ?h) None" by blast
  moreover have "?n ob = hdo (ch1 ?h) None" using ochainsD(2) [OF f(2), of ?h] by simp
  ultimately have lk: "linked ?n (ob # ch1 ?h) None" unfolding linked.simps by blast
  have inj: "inj_on (ob_name st1) (insert ob (set (ch1 ?h)))"
  proof -
    have "ob_name st1 ob \<notin> ob_name st1 ` set (ch1 ?h)" using no unfolding f(3) by (metis imageE)
    then show ?thesis using ochainsD(5) [OF f(2), of ?h] unfolding inj_on_insert by blast
  qed
  have mem: "\<forall>x\<in>set (ob # ch1 ?h). ObjHash (ob_name st1 x) = ?h"
    using ochainsD(4) [OF f(2), of _ ?h] f(3) by simp
  have "ochains ?st (ch1(?h := ob # ch1 ?h))"
  proof (rule ochains_upd [OF f(2)])
    show "linked (next_hash ?st) (ob # ch1 ?h) None" using lk unfolding nh .
    show "distinct (ob # ch1 ?h)" using ob ochainsD(1) [OF f(2), of ?h] by simp
    show "inj_on (ob_name st1) (set (ob # ch1 ?h))" using inj by simp
  qed (use mem in simp_all)
  moreover have "\<forall>h. set ((ch1(?h := ob # ch1 ?h)) h) = (if h = ?h then insert ob (set (ch h)) else set (ch h))"
    using f(5) by simp
  ultimately show ?thesis using e f(3,4) by (intro exI [of _ ?st] exI [of _ "ch1(?h := ob # ch1 ?h)"]) simp
qed

lemma remove_ob_law:
  assumes c: "ochains st ch" and ob: "olook st (ob_name st ob) = Some ob"
  shows "\<exists>st' ch'. remove_object_hash ob st = Some (Inr st') \<and> ochains st' ch' \<and> ob_name st' = ob_name st \<and>
    objs_in_table st' = objs_in_table st - 1 \<and>
    (\<forall>h. set (ch' h) = (if h = ObjHash (ob_name st ob) then set (ch h) - {ob} else set (ch h)))"
proof -
  let ?s = "ob_name st ob" and ?h = "ObjHash (ob_name st ob)"
  from find_obj_chains [OF c, of ?s] ob obtain st1 ch1 ys where
    f: "find_obj_n ?s st = Some (Some ob, st1)" "ochains st1 ch1" "ob_name st1 = ob_name st"
      "objs_in_table st1 = objs_in_table st" "\<forall>h. set (ch1 h) = set (ch h)" "ch1 ?h = ob # ys" by auto
  note l = ochainsD(3) [OF f(2), of ?h, unfolded f(6)] and d = ochainsD(1) [OF f(2), of ?h, unfolded f(6)]
  let ?n = "(next_hash st1)(ob := None)"
  let ?st = "st1\<lparr>obj_table := (obj_table st1)(?h := next_hash st1 ob), next_hash := ?n, objs_in_table := objs_in_table st1 - 1\<rparr>"
  have e: "remove_object_hash ob st = Some (Inr ?st)" using f(1) by (simp add: remove_object_hash_def Let_def)
  have "linked ?n ys None = linked (next_hash st1) ys None" using d by (intro linked_cong) auto
  then have lk: "linked ?n ys None" "next_hash st1 ob = hdo ys None" using l by simp_all
  have mem: "\<forall>x\<in>set ys. ObjHash (ob_name st1 x) = ?h" "inj_on (ob_name st1) (set ys)"
    using ochainsD(4) [OF f(2), of _ ?h] ochainsD(5) [OF f(2), of ?h] f(6) by (auto intro: inj_on_subset)
  have "ochains ?st (ch1(?h := ys))"
    using lk d mem f(6) by (intro ochains_upd [OF f(2)]) auto
  moreover have "set (ch ?h) = insert ob (set ys)" using f(5,6) by (metis list.simps(15))
  then have "\<forall>h. set ((ch1(?h := ys)) h) = (if h = ?h then set (ch h) - {ob} else set (ch h))"
    using f(5) d by auto
  ultimately show ?thesis using e f(3,4) by (intro exI [of _ ?st] exI [of _ "ch1(?h := ys)"]) simp
qed

section \<open>The table as a map\<close>

definition new_otable :: "(nat \<Rightarrow> u8 list) \<Rightarrow> otable" where
  "new_otable names = \<lparr>ob_name = names, next_hash = (\<lambda>_. None), obj_table = (\<lambda>_. None), objs_in_table = 0\<rparr>"

lemma new_otable_inv: "oinv (new_otable names)"
proof -
  have "ochains (new_otable names) (\<lambda>_. [])" by (simp add: ochains_def new_otable_def)
  then show ?thesis by (auto simp: oinv_def)
qed

lemma olook_new [simp]: "olook (new_otable names) s = None"
  by (simp add: olook_def new_otable_def chain_from.simps)

lemma ObjHash_less: "ObjHash s < OTABLE_SIZE"
proof -
  have "(OTABLE_SIZE - 1) = mask 14" by (simp add: OTABLE_SIZE_def mask_eq_exp_minus_1)
  then have "ObjHash s = take_bit 14 (unat (hashstr16 s 100))" by (simp add: ObjHash_def take_bit_eq_mask)
  then show ?thesis using take_bit_nat_less_exp [of 14 "unat (hashstr16 s 100)"] by (simp add: OTABLE_SIZE_def)
qed

lemma enter_olook:
  assumes "oinv st" and new: "olook st (ob_name st ob) = None"
  shows "\<exists>st'. enter_object_hash ob st = Some (Inr st') \<and> oinv st' \<and> ob_name st' = ob_name st \<and>
    objs_in_table st' = objs_in_table st + 1 \<and> olook st' = (olook st)(ob_name st ob \<mapsto> ob)"
proof -
  from assms(1) obtain ch where c: "ochains st ch" by (auto simp: oinv_def)
  from enter_ob_law [OF c new] obtain st' ch' where
    e: "enter_object_hash ob st = Some (Inr st')" "ochains st' ch'" "ob_name st' = ob_name st"
      "objs_in_table st' = objs_in_table st + 1"
      "\<forall>h. set (ch' h) = (if h = ObjHash (ob_name st ob) then insert ob (set (ch h)) else set (ch h))" by blast
  have "olook st' s = ((olook st)(ob_name st ob \<mapsto> ob)) s" for s
  proof -
    have "olook st' s = Some x \<longleftrightarrow> ((olook st)(ob_name st ob \<mapsto> ob)) s = Some x" for x
      using e(3,5) new olook_iff [OF c, of s x] olook_iff [OF e(2), of s x] by auto
    then show ?thesis by (metis option.exhaust)
  qed
  with e show ?thesis unfolding oinv_def by blast
qed

lemma remove_olook:
  assumes "oinv st" and ob: "olook st (ob_name st ob) = Some ob"
  shows "\<exists>st'. remove_object_hash ob st = Some (Inr st') \<and> oinv st' \<and> ob_name st' = ob_name st \<and>
    objs_in_table st' = objs_in_table st - 1 \<and> olook st' = (olook st)(ob_name st ob := None)"
proof -
  from assms(1) obtain ch where c: "ochains st ch" by (auto simp: oinv_def)
  from remove_ob_law [OF c ob] obtain st' ch' where
    e: "remove_object_hash ob st = Some (Inr st')" "ochains st' ch'" "ob_name st' = ob_name st"
      "objs_in_table st' = objs_in_table st - 1"
      "\<forall>h. set (ch' h) = (if h = ObjHash (ob_name st ob) then set (ch h) - {ob} else set (ch h))" by blast
  have "olook st' s = ((olook st)(ob_name st ob := None)) s" for s
  proof -
    have "olook st' s = Some x \<longleftrightarrow> ((olook st)(ob_name st ob := None)) s = Some x" for x
    proof (cases "s = ob_name st ob")
      case True
      have "olook st s = Some x \<longrightarrow> x = ob" using ob True by simp
      then show ?thesis using True e(3,5) olook_iff [OF c, of s x] olook_iff [OF e(2), of s x] by auto
    next
      case False
      then show ?thesis using e(3,5) olook_iff [OF c, of s x] olook_iff [OF e(2), of s x] by auto
    qed
    then show ?thesis by (metis option.exhaust)
  qed
  with e show ?thesis unfolding oinv_def by blast
qed

lemma enter_fatal:
  assumes "oinv st" "olook st (ob_name st ob) = Some x"
  shows "enter_object_hash ob st = Some (Inl (if x = ob then Entering_twice else Duplicate_object))"
  using ot.find_law [OF assms(1), of "ob_name st ob"] assms(2) by (auto simp: enter_object_hash_def Let_def)

lemma remove_fatal:
  assumes "oinv st" "olook st (ob_name st ob) \<noteq> Some ob"
  shows "remove_object_hash ob st = Some (Inl Different_object)"
  using ot.find_law [OF assms(1), of "ob_name st ob"] assms(2) by (auto simp: remove_object_hash_def Let_def)

lemma clear_olook: "olook (clear_otable st) s = None"
  using ObjHash_less [of s] by (simp add: olook_def clear_otable_def chain_from.simps)

text \<open>Sequences of calls, up to the first \<^verbatim>\<open>fatal()\<close>, on the table and on a map from names to objects.\<close>

datatype otable_op = Enter nat | Remove nat | Lookup "u8 list"

fun otable_step :: "otable_op \<Rightarrow> otable \<Rightarrow> (otable_fatal + nat option \<times> otable) option" where
  "otable_step (Enter ob) st = map_option (map_sum id (Pair None)) (enter_object_hash ob st)"
| "otable_step (Remove ob) st = map_option (map_sum id (Pair None)) (remove_object_hash ob st)"
| "otable_step (Lookup s) st = map_option Inr (lookup_object_hash s st)"

fun otable_run :: "otable_op list \<Rightarrow> otable \<Rightarrow> (otable_fatal + nat option list \<times> otable) option" where
  "otable_run [] st = Some (Inr ([], st))"
| "otable_run (c # cs) st =
     (case otable_step c st of
        None \<Rightarrow> None
      | Some (Inl e) \<Rightarrow> Some (Inl e)
      | Some (Inr (r, st1)) \<Rightarrow> map_option (map_sum id (\<lambda>(rs, st2). (r # rs, st2))) (otable_run cs st1))"

fun name_step :: "(nat \<Rightarrow> u8 list) \<Rightarrow> otable_op \<Rightarrow> (u8 list \<rightharpoonup> nat) \<Rightarrow> otable_fatal + nat option \<times> (u8 list \<rightharpoonup> nat)" where
  "name_step names (Enter ob) m =
     (case m (names ob) of
        None \<Rightarrow> Inr (None, m(names ob \<mapsto> ob))
      | Some x \<Rightarrow> Inl (if x = ob then Entering_twice else Duplicate_object))"
| "name_step names (Remove ob) m =
     (if m (names ob) = Some ob then Inr (None, m(names ob := None)) else Inl Different_object)"
| "name_step names (Lookup s) m = Inr (m s, m)"

fun name_run :: "(nat \<Rightarrow> u8 list) \<Rightarrow> otable_op list \<Rightarrow> (u8 list \<rightharpoonup> nat) \<Rightarrow> otable_fatal + nat option list \<times> (u8 list \<rightharpoonup> nat)" where
  "name_run names [] m = Inr ([], m)"
| "name_run names (c # cs) m =
     (case name_step names c m of
        Inl e \<Rightarrow> Inl e
      | Inr (r, m1) \<Rightarrow> map_sum id (\<lambda>(rs, m2). (r # rs, m2)) (name_run names cs m1))"

text \<open>The table that stands for a map, with its count of entries.\<close>

definition stands_for :: "(nat \<Rightarrow> u8 list) \<Rightarrow> otable \<Rightarrow> (u8 list \<rightharpoonup> nat) \<Rightarrow> bool" where
  "stands_for names st m \<longleftrightarrow> oinv st \<and> ob_name st = names \<and> olook st = m \<and> finite (dom m) \<and>
     objs_in_table st = int (card (dom m))"

lemma otable_step_refines:
  assumes s: "stands_for names st m"
  shows "(\<exists>e. name_step names c m = Inl e \<and> otable_step c st = Some (Inl e)) \<or>
    (\<exists>r m' st'. name_step names c m = Inr (r, m') \<and> otable_step c st = Some (Inr (r, st')) \<and> stands_for names st' m')"
proof (cases c)
  case (Enter ob)
  show ?thesis
  proof (cases "m (names ob)")
    case None
    then have "card (dom (m(names ob \<mapsto> ob))) = card (dom m) + 1" using s by (simp add: stands_for_def domIff)
    with enter_olook [of st ob] None s Enter show ?thesis by (auto simp: stands_for_def)
  next
    case (Some x)
    with enter_fatal [of st ob x] s Enter show ?thesis by (simp add: stands_for_def)
  qed
next
  case (Remove ob)
  show ?thesis
  proof (cases "m (names ob) = Some ob")
    case True
    have "int (card (dom (m(names ob := None)))) = int (card (dom m)) - 1"
    proof -
      have "names ob \<in> dom m" "finite (dom m)" using True s by (auto simp: stands_for_def)
      then have "card (dom m) = Suc (card (dom m - {names ob}))" by (metis card_Suc_Diff1)
      then show ?thesis by simp
    qed
    with remove_olook [of st ob] True s Remove show ?thesis by (auto simp: stands_for_def)
  next
    case False
    with remove_fatal [of st ob] s Remove show ?thesis by (simp add: stands_for_def)
  qed
next
  case (Lookup k)
  from s obtain ch where c: "ochains st ch" by (auto simp: stands_for_def oinv_def)
  from find_obj_chains [OF c, of k] obtain st' ch' where
    f: "find_obj_n k st = Some (olook st k, st')" "ochains st' ch'" "ob_name st' = ob_name st"
      "objs_in_table st' = objs_in_table st" "\<forall>h. set (ch' h) = set (ch h)" by blast
  have "oinv st'" using f(2) by (auto simp: oinv_def)
  with olook_same [OF c f(2,3,5)] f s Lookup show ?thesis by (simp add: stands_for_def lookup_object_hash_def)
qed

lemma otable_run_refines:
  "stands_for names st m \<Longrightarrow>
    (\<exists>e. name_run names cs m = Inl e \<and> otable_run cs st = Some (Inl e)) \<or>
    (\<exists>rs m' st'. name_run names cs m = Inr (rs, m') \<and> otable_run cs st = Some (Inr (rs, st')) \<and> stands_for names st' m')"
proof (induction cs arbitrary: st m)
  case (Cons c cs)
  from otable_step_refines [OF Cons.prems, of c] consider
    (fatal) e where "name_step names c m = Inl e" "otable_step c st = Some (Inl e)"
  | (ok) r m' st' where "name_step names c m = Inr (r, m')" "otable_step c st = Some (Inr (r, st'))" "stands_for names st' m'"
    by blast
  then show ?case
  proof cases
    case ok
    from Cons.IH [OF ok(3)] ok(1,2) show ?thesis by auto
  qed simp
qed simp

text \<open>C30. The object name table implements a finite map.  Any sequence of enter, remove and look-up calls from the empty
  table ends, and answers as the same sequence does on a map from names to objects: a look-up returns the object entered
  under the name; entering a second object under a name, or an object twice, or removing an object that is not in the
  table is fatal, and the count of objects is the number of entries, whatever the order the chains have been moved to.
\<close>

theorem object_table_refines:
  "case name_run names cs Map.empty of
     Inl e \<Rightarrow> otable_run cs (new_otable names) = Some (Inl e)
   | Inr (rs, m) \<Rightarrow> (\<exists>st. otable_run cs (new_otable names) = Some (Inr (rs, st)) \<and> olook st = m \<and>
        objs_in_table st = int (card (dom m)) \<and> olook (clear_otable st) = Map.empty)"
proof -
  have "olook (new_otable names) = Map.empty" by (rule ext) simp
  then have "stands_for names (new_otable names) Map.empty"
    using new_otable_inv [of names] by (simp add: stands_for_def, simp add: new_otable_def)
  from otable_run_refines [OF this, of cs] show ?thesis
    using clear_olook by (fastforce simp: stands_for_def)
qed

end
