(* ===== verification/Lpc_Save.thy ===== *)
theory Lpc_Save
  imports C_Stdio Lpc_Array Otable
begin

text \<open>
  Saving and restoring LPC values as text (\<^verbatim>\<open>src/object.c\<close>): \<^verbatim>\<open>valtostr\<close> and the lines of a save file on one
  side, \<^verbatim>\<open>restore_one\<close> on the other, which \<^verbatim>\<open>restore_object\<close>, \<^verbatim>\<open>restore_map\<close> and the function \<^verbatim>\<open>str2val\<close> of
  LPC call.

  Arrays and mappings live in a heap.  A block of memory is the list of its bytes; an access outside of it is
  \<^const>\<open>None\<close>, and so is a recursion deeper than the bound \<open>n\<close>, for the stack of the process, which a cyclic value
  exceeds.  Strings of LPC do not contain NUL.  Reading turns the escapes of a string around in the buffer it reads
  from, which is part of the state.  An array or a mapping enters the heap when it has been read completely; its address is
  chosen by a parameter.  Sizes of texts are taken to be below \<open>2 ^ 32\<close>.
\<close>

section \<open>Values in memory\<close>

record lpc_heap =
  h_vec :: "nat \<rightharpoonup> sval list"
  h_map :: "nat \<rightharpoonup> lpc_map"

text \<open>What the object table tells about an object, and where the allocator puts a new block.\<close>

record save_env =
  e_objs :: objs
  e_created :: "nat \<Rightarrow> u32"
  e_alloc :: "lpc_heap \<Rightarrow> nat"

section \<open>The text buffer\<close>

record savebuf =
  max_size :: nat
  sb_size :: nat
  sb_buf :: "u8 list"

text \<open>\<^verbatim>\<open>strcpy(&blk[off], str)\<close>, and the string that a block holds.\<close>

definition strcpy_to :: "u8 list \<Rightarrow> nat \<Rightarrow> u8 list \<Rightarrow> u8 list option" where
  "strcpy_to blk off str = mem_write blk off (str @ [0])"

definition string_at :: "u8 list \<Rightarrow> nat \<Rightarrow> u8 list option" where
  "string_at blk off = (if 0 \<in> set (drop off blk) then Some (takeWhile (\<lambda>c. c \<noteq> 0) (drop off blk)) else None)"

text \<open>The byte \<open>g\<close> is what fresh memory is filled with.\<close>

definition add_strbuf :: "u8 \<Rightarrow> u8 list \<Rightarrow> savebuf \<Rightarrow> savebuf option" where
  "add_strbuf g str f = do {
     let len = length str;
     f \<leftarrow> (if sb_size f + len + 1 > max_size f
           then do {
             let nsize = len + sb_size f + 80;
             old \<leftarrow> string_at (sb_buf f) 0;
             nbuf \<leftarrow> strcpy_to (replicate nsize g) 0 old;
             Some (f\<lparr>max_size := nsize, sb_buf := nbuf\<rparr>) }
           else Some f);
     b \<leftarrow> strcpy_to (sb_buf f) (sb_size f) str;
     Some (f\<lparr>sb_buf := b, sb_size := sb_size f + len\<rparr>) }"

section \<open>Saving\<close>

definition save_char :: "u8 \<Rightarrow> u8 list" where
  "save_char c =
     (if c = 34 then [92, 34] else if c = 92 then [92, 92] else if c = 10 then [92, 110] else [c])"

fun save_loop :: "('a \<Rightarrow> savebuf \<Rightarrow> savebuf option) \<Rightarrow> 'a list \<Rightarrow> savebuf \<Rightarrow> savebuf option" where
  "save_loop step [] f = Some f"
| "save_loop step (x # xs) f = do { f1 \<leftarrow> step x f; save_loop step xs f1 }"

definition save_string :: "u8 \<Rightarrow> u8 list \<Rightarrow> savebuf \<Rightarrow> savebuf option" where
  "save_string g s f = do {
     f \<leftarrow> add_strbuf g [34] f;
     f \<leftarrow> save_loop (\<lambda>c. add_strbuf g (save_char c)) s f;
     add_strbuf g [34] f }"

text \<open>The recursive calls of \<^verbatim>\<open>save_one\<close> are a parameter of the two functions it is mutually recursive with.\<close>

definition save_array :: "u8 \<Rightarrow> (sval \<Rightarrow> savebuf \<Rightarrow> savebuf option) \<Rightarrow> sval list \<Rightarrow> savebuf \<Rightarrow> savebuf option" where
  "save_array g save v f = do {
     f \<leftarrow> add_strbuf g [40, 123] f;
     f \<leftarrow> save_loop (\<lambda>x f. do { f1 \<leftarrow> save x f; add_strbuf g [44] f1 }) v f;
     add_strbuf g [125, 41] f }"

definition save_mapping :: "u8 \<Rightarrow> (sval \<Rightarrow> savebuf \<Rightarrow> savebuf option) \<Rightarrow> lpc_map \<Rightarrow> savebuf \<Rightarrow> savebuf option" where
  "save_mapping g save m f = do {
     f \<leftarrow> add_strbuf g [40, 91] f;
     f \<leftarrow> save_loop (\<lambda>(k, v) f. do {
            f1 \<leftarrow> save k f; f2 \<leftarrow> add_strbuf g [58] f1; f3 \<leftarrow> save v f2; add_strbuf g [44] f3 }) (map_items m) f;
     add_strbuf g [93, 41] f }"

text \<open>\<^verbatim>\<open>sprintf\<close> into the local \<^verbatim>\<open>char buf[20]\<close>.\<close>

definition sprint20 :: "u8 list \<Rightarrow> u8 list option" where
  "sprint20 s = (if length s + 1 \<le> 20 then Some s else None)"

fun save_one :: "nat \<Rightarrow> u8 \<Rightarrow> save_env \<Rightarrow> (nat \<Rightarrow> u8 list) \<Rightarrow> lpc_heap \<Rightarrow> sval \<Rightarrow> savebuf \<Rightarrow> savebuf option" where
  "save_one 0 g E names h v f = None"
| "save_one (Suc n) g E names h v f =
     (case v of
        T_FLOAT r \<Rightarrow> do { b \<leftarrow> sprint20 (35 # fmt_e8 r @ [35]); add_strbuf g b f }
      | T_NUMBER i \<Rightarrow> do { b \<leftarrow> sprint20 (fmt_d i); add_strbuf g b f }
      | T_STRING s \<Rightarrow> save_string g s f
      | T_POINTER a \<Rightarrow> do { v \<leftarrow> h_vec h a; save_array g (save_one n g E names h) v f }
      | T_MAPPING a \<Rightarrow> do { m \<leftarrow> h_map h a; save_mapping g (save_one n g E names h) m f }
      | T_OBJECT a \<Rightarrow> do {
          b \<leftarrow> sprint20 (36 # fmt_d (e_created E a) @ [64]);
          f \<leftarrow> add_strbuf g b f; f \<leftarrow> add_strbuf g (names a) f; add_strbuf g [36] f }
      | T_FUNCTION _ \<Rightarrow> add_strbuf g [48] f)"

definition valtostr :: "nat \<Rightarrow> u8 \<Rightarrow> save_env \<Rightarrow> (nat \<Rightarrow> u8 list) \<Rightarrow> lpc_heap \<Rightarrow> sval \<Rightarrow> u8 list option" where
  "valtostr n g E names h v = do {
     f \<leftarrow> save_one n g E names h v \<lparr>max_size = 80, sb_size = 0, sb_buf = (replicate 80 g)[0 := 0]\<rparr>;
     string_at (sb_buf f) 0 }"

section \<open>Looking up an object by name\<close>

text \<open>
  \<^verbatim>\<open>find_object2\<close> of \<^verbatim>\<open>src/simulate.c\<close>: the loop that cuts off \<^verbatim>\<open>.c\<close> reads two bytes before the end
  of the name, also when it is shorter than that; \<open>i\<close> is where the name starts after the leading slashes.  (A byte in front of the
  name that is read is one of those slashes, so the last test changes nothing.)
\<close>

fun cut_c :: "u8 list \<Rightarrow> nat \<Rightarrow> nat \<Rightarrow> nat option" where
  "cut_c s i len2 =
     (if i + len2 < 2 then None
      else if s ! (i + len2 - 2) = 46 \<and> s ! (i + len2 - 1) = 99 \<and> len2 \<ge> 2 then cut_c s i (len2 - 2)
      else Some len2)"

declare cut_c.simps [simp del]

definition find_object2 :: "u8 list \<Rightarrow> otable \<Rightarrow> (nat option \<times> otable) option" where
  "find_object2 s ot = do {
     let i = length (takeWhile (\<lambda>c. c = 47) s);
     len2 \<leftarrow> cut_c s i (length s - i);
     lookup_object_hash (take len2 (drop i s)) ot }"

section \<open>Restoring\<close>

datatype restore_error = Array_size_error | Mapping_size_error

text \<open>A value, the answer 0, or a call of \<^verbatim>\<open>error()\<close>.\<close>

datatype 'a outcome = Restored 'a | Illegal_format | Raised restore_error

record rstate =
  r_buf :: "u8 list"
  r_heap :: lpc_heap
  r_ot :: otable

definition peek :: "nat \<Rightarrow> rstate \<Rightarrow> u8 option" where
  "peek i st = (if i < length (r_buf st) then Some (r_buf st ! i) else None)"

text \<open>The loop over a string: \<open>p\<close> reads, \<open>q\<close> writes.\<close>

function unescape :: "u8 list \<Rightarrow> nat \<Rightarrow> nat \<Rightarrow> (u8 list \<times> nat \<times> nat) option" where
  "unescape b p q =
     (if p \<ge> length b then None
      else if b ! p = 0 \<or> b ! p = 34 then Some (b, p, q)
      else if b ! p = 92
      then (if p + 1 \<ge> length b then None
            else unescape (b[q := if b ! (p + 1) = 110 then 10 else b ! (p + 1)]) (p + 2) (q + 1))
      else unescape (b[q := if b ! p = 13 then 10 else b ! p]) (p + 1) (q + 1))"
  by pat_completeness auto

termination
  by (relation "measure (\<lambda>(b, p, q). length b - p)") auto

declare unescape.simps [simp del]

definition restore_string :: "nat \<Rightarrow> rstate \<Rightarrow> (sval outcome \<times> nat \<times> rstate) option" where
  "restore_string s st = do {
     (b, p, q) \<leftarrow> unescape (r_buf st) (s + 1) s;
     b \<leftarrow> Some (b[q := 0]);
     let st = st\<lparr>r_buf := b\<rparr>;
     (if b ! p \<noteq> 34 then Some (Illegal_format, s, st)
      else do { t \<leftarrow> string_at b s; Some (Restored (T_STRING t), p + 1, st) }) }"

text \<open>
  \<^verbatim>\<open>sscanf(s, "$%d@%[^$ \n\t]$", &ct, name)\<close> with the array \<^verbatim>\<open>char name[1024]\<close>: the outer option is an overrun of
  that array, the inner one a result other than 2.
\<close>

definition scan_object :: "u8 list \<Rightarrow> (u32 \<times> u8 list) option option" where
  "scan_object t =
     (case scan_d t of
        None \<Rightarrow> Some None
      | Some (ct, t1) \<Rightarrow>
          (case t1 of
             [] \<Rightarrow> Some None
           | c # t2 \<Rightarrow>
               (let name = takeWhile (\<lambda>c. c \<notin> {36, 32, 10, 9}) t2
                in if c \<noteq> 64 \<or> name = [] then Some None
                   else if length name + 1 > 1024 then None else Some (Some (ct, name)))))"

definition restore_ob :: "save_env \<Rightarrow> nat \<Rightarrow> rstate \<Rightarrow> (sval outcome \<times> nat \<times> rstate) option" where
  "restore_ob E s st = do {
     t \<leftarrow> string_at (r_buf st) (s + 1);
     (if 36 \<notin> set t then Some (Illegal_format, s, st)
      else do {
        r \<leftarrow> scan_object t;
        (case r of
           None \<Rightarrow> Some (Illegal_format, s, st)
         | Some (ct, name) \<Rightarrow> do {
             (ob, ot) \<leftarrow> find_object2 name (r_ot st);
             Some (Restored (case ob of Some x \<Rightarrow> if e_created E x = ct then T_OBJECT x else T_NUMBER 0 | None \<Rightarrow> T_NUMBER 0),
                   s + 2 + length (takeWhile (\<lambda>c. c \<noteq> 36) t), st\<lparr>r_ot := ot\<rparr>) }) }) }"

definition restore_float :: "nat \<Rightarrow> rstate \<Rightarrow> (sval outcome \<times> nat \<times> rstate) option" where
  "restore_float s st = do {
     t \<leftarrow> string_at (r_buf st) (s + 1);
     Some (if 35 \<notin> set t then (Illegal_format, s, st)
           else case scan_f t of
                  None \<Rightarrow> (Illegal_format, s, st)
                | Some r \<Rightarrow> (Restored (T_FLOAT r), s + 2 + length (takeWhile (\<lambda>c. c \<noteq> 35) t), st)) }"

definition restore_number :: "nat \<Rightarrow> rstate \<Rightarrow> (sval outcome \<times> nat \<times> rstate) option" where
  "restore_number s st = do {
     t \<leftarrow> string_at (r_buf st) s;
     Some (case t of
             [] \<Rightarrow> (Illegal_format, s, st)
           | c # _ \<Rightarrow>
               if \<not> isdigit c \<and> c \<noteq> 45 then (Illegal_format, s, st)
               else (Restored (T_NUMBER (atoi t)), s + length (takeWhile (\<lambda>c. isdigit c \<or> c = 45) t), st)) }"

text \<open>Storing a complete array or mapping.  All empty arrays are the one at \<open>null_vector\<close>.\<close>

definition null_vector :: nat where "null_vector = 0"

definition new_vec :: "save_env \<Rightarrow> sval list \<Rightarrow> rstate \<Rightarrow> sval \<times> rstate" where
  "new_vec E v st =
     (if v = [] then (T_POINTER null_vector, st)
      else let h = r_heap st; a = e_alloc E h
           in (T_POINTER a, st\<lparr>r_heap := h\<lparr>h_vec := (h_vec h)(a \<mapsto> v)\<rparr>\<rparr>))"

definition new_map :: "save_env \<Rightarrow> lpc_map \<Rightarrow> rstate \<Rightarrow> sval \<times> rstate" where
  "new_map E m st =
     (let h = r_heap st; a = e_alloc E h
      in (T_MAPPING a, st\<lparr>r_heap := h\<lparr>h_map := (h_map h)(a \<mapsto> m)\<rparr>\<rparr>))"

text \<open>The three mutually recursive functions; \<open>n\<close> bounds the number of calls and turns of loops that are nested.\<close>

fun restore_one :: "nat \<Rightarrow> save_env \<Rightarrow> nat \<Rightarrow> rstate \<Rightarrow> (sval outcome \<times> nat \<times> rstate) option"
  and restore_array :: "nat \<Rightarrow> save_env \<Rightarrow> sval list \<Rightarrow> nat \<Rightarrow> rstate \<Rightarrow> (sval list outcome \<times> nat \<times> rstate) option"
  and restore_mapping :: "nat \<Rightarrow> save_env \<Rightarrow> lpc_map \<Rightarrow> nat \<Rightarrow> rstate \<Rightarrow> (lpc_map outcome \<times> nat \<times> rstate) option"
where
  "restore_one 0 E s st = None"
| "restore_one (Suc n) E s st = do {
     c \<leftarrow> peek s st;
     (if c = 40
      then do {
        d \<leftarrow> peek (s + 1) st;
        (if d = 91
         then do {
           (r, p, st) \<leftarrow> restore_mapping n E (allocate_map 0) (s + 2) st;
           Some (case r of
                   Restored m \<Rightarrow> (let (v, st) = new_map E m st in (Restored v, p, st))
                 | Illegal_format \<Rightarrow> (Illegal_format, s, st)
                 | Raised e \<Rightarrow> (Raised e, s, st)) }
         else if d = 123
         then do {
           (r, p, st) \<leftarrow> restore_array n E [] (s + 2) st;
           Some (case r of
                   Restored v \<Rightarrow> (let (v, st) = new_vec E v st in (Restored v, p, st))
                 | Illegal_format \<Rightarrow> (Illegal_format, s, st)
                 | Raised e \<Rightarrow> (Raised e, s, st)) }
         else Some (Illegal_format, s, st)) }
      else if c = 34 then restore_string s st
      else if c = 36 then restore_ob E s st
      else if c = 35 then restore_float s st
      else restore_number s st) }"
| "restore_array 0 E tmp p st = None"
| "restore_array (Suc n) E tmp p st = do {
     c \<leftarrow> peek p st;
     (if c = 125
      then do {
        d \<leftarrow> peek (p + 1) st;
        Some (if d = 41
              then (if allocate_check (int (length tmp)) then Restored tmp else Raised Array_size_error, p + 2, st)
              else (Illegal_format, p + 1, st)) }
      else do {
        (r, p, st) \<leftarrow> restore_one n E p st;
        (case r of
           Restored v \<Rightarrow> do {
             c \<leftarrow> peek p st;
             (if c \<noteq> 44 then Some (Illegal_format, p + 1, st) else restore_array n E (tmp @ [v]) (p + 1) st) }
         | Illegal_format \<Rightarrow> Some (Illegal_format, p, st)
         | Raised e \<Rightarrow> Some (Raised e, p, st)) }) }"
| "restore_mapping 0 E m p st = None"
| "restore_mapping (Suc n) E m p st = do {
     c \<leftarrow> peek p st;
     (if c = 93
      then do {
        d \<leftarrow> peek (p + 1) st;
        Some (if d = 41 then (Restored m, p + 2, st) else (Illegal_format, p + 1, st)) }
      else do {
        (r, p, st) \<leftarrow> restore_one n E p st;
        (case r of
           Restored k \<Rightarrow> do {
             c \<leftarrow> peek p st;
             (if c \<noteq> 58 then Some (Illegal_format, p + 1, st)
              else case get_map_lvalue (e_objs E) m k True of
                     Inl _ \<Rightarrow> Some (Raised Mapping_size_error, p + 1, st)
                   | Inr (m, val) \<Rightarrow> do {
                       (r, p, st) \<leftarrow> restore_one n E (p + 1) st;
                       (case r of
                          Restored v \<Rightarrow> do {
                            c \<leftarrow> peek p st;
                            (if c \<noteq> 44 then Some (Illegal_format, p + 1, st)
                             else restore_mapping n E (assign_lval (e_objs E) m val v) (p + 1) st) }
                        | Illegal_format \<Rightarrow> Some (Illegal_format, p, st)
                        | Raised e \<Rightarrow> Some (Raised e, p, st)) }) }
         | Illegal_format \<Rightarrow> Some (Illegal_format, p, st)
         | Raised e \<Rightarrow> Some (Raised e, p, st)) }) }"

section \<open>The buffer holds a text\<close>

definition sb_ok :: "savebuf \<Rightarrow> u8 list \<Rightarrow> bool" where
  "sb_ok f txt \<longleftrightarrow> length (sb_buf f) = max_size f \<and> sb_size f = length txt \<and> 0 \<notin> set txt \<and>
     (\<exists>junk. sb_buf f = txt @ 0 # junk)"

lemma string_at_text:
  assumes "drop i b = txt @ 0 # junk" "0 \<notin> set txt"
  shows "string_at b i = Some txt"
proof -
  have "takeWhile (\<lambda>c. c \<noteq> 0) (txt @ 0 # junk) = txt" using assms(2) by (subst takeWhile_append2) auto
  with assms(1) show ?thesis by (simp add: string_at_def)
qed

lemma add_strbuf_law:
  assumes f: "sb_ok f txt" and s: "0 \<notin> set str"
  shows "\<exists>f'. add_strbuf g str f = Some f' \<and> sb_ok f' (txt @ str)"
proof -
  from f obtain junk where j: "length (sb_buf f) = max_size f" "sb_size f = length txt" "0 \<notin> set txt" "sb_buf f = txt @ 0 # junk"
    by (auto simp: sb_ok_def)
  have put: "\<exists>b. strcpy_to (txt @ 0 # jk) (length txt) str = Some b \<and> length b = length (txt @ 0 # jk) \<and> (\<exists>jk'. b = (txt @ str) @ 0 # jk')"
    if "length str \<le> length jk" for jk
    using that by (simp add: strcpy_to_def mem_write_def)
  show ?thesis
  proof (cases "length txt + length str + 1 > max_size f")
    case True
    let ?n = "length str + length txt + 80" and ?jk = "replicate (length str + 79) g"
    have "string_at (sb_buf f) 0 = Some txt" using string_at_text [of 0 "sb_buf f" "txt" junk] j by simp
    moreover have "?n - (length txt + 1) = length str + 79" by simp
    then have "strcpy_to (replicate ?n g) 0 txt = Some (txt @ 0 # ?jk)"
      by (simp add: strcpy_to_def mem_write_def del: replicate.simps)
    moreover obtain b jk' where "strcpy_to (txt @ 0 # ?jk) (length txt) str = Some b"
      "length b = ?n" "b = (txt @ str) @ 0 # jk'" using put [of ?jk] by auto
    ultimately show ?thesis using True j s by (simp add: add_strbuf_def sb_ok_def Let_def)
  next
    case False
    then have "length str \<le> length junk" using j by simp
    from put [OF this] obtain b jk' where "strcpy_to (txt @ 0 # junk) (length txt) str = Some b"
      "length b = length (txt @ 0 # junk)" "b = (txt @ str) @ 0 # jk'" by auto
    then show ?thesis using False j s by (simp add: add_strbuf_def sb_ok_def Let_def)
  qed
qed

text \<open>An operation that appends a text.\<close>

definition appends :: "(savebuf \<Rightarrow> savebuf option) \<Rightarrow> u8 list \<Rightarrow> bool" where
  "appends step out \<longleftrightarrow> (\<forall>f txt. sb_ok f txt \<longrightarrow> (\<exists>f'. step f = Some f' \<and> sb_ok f' (txt @ out)))"

lemma appends_add: "0 \<notin> set str \<Longrightarrow> appends (add_strbuf g str) str"
  using add_strbuf_law by (auto simp: appends_def)

lemma appends_bind:
  assumes "appends s1 o1" "appends s2 o2"
  shows "appends (\<lambda>f. s1 f \<bind> s2) (o1 @ o2)"
  using assms unfolding appends_def by fastforce

lemma appends_loop:
  assumes "\<And>x. x \<in> set xs \<Longrightarrow> appends (step x) (out x)"
  shows "appends (save_loop step xs) (concat (map out xs))"
  using assms
proof (induction xs)
  case (Cons x xs)
  have "appends (\<lambda>f. step x f \<bind> save_loop step xs) (out x @ concat (map out xs))"
    using Cons by (intro appends_bind) auto
  then show ?case by simp
qed (simp add: appends_def)

lemma appends_bracket:
  assumes "appends s out" "0 \<notin> set l" "0 \<notin> set r"
  shows "appends (\<lambda>f. add_strbuf g l f \<bind> (\<lambda>f. s f \<bind> add_strbuf g r)) (l @ out @ r)"
  using assms by (intro appends_bind appends_add)

section \<open>Values as trees\<close>

datatype tree = Num u32 | Str "u8 list" | Flt u32 | Obj nat | Arr "tree list" | Tab "(tree \<times> tree) list"

fun print :: "save_env \<Rightarrow> (nat \<Rightarrow> u8 list) \<Rightarrow> tree \<Rightarrow> u8 list" where
  "print E names (Num i) = fmt_d i"
| "print E names (Str s) = 34 # concat (map save_char s) @ [34]"
| "print E names (Flt r) = 35 # fmt_e8 r @ [35]"
| "print E names (Obj a) = 36 # fmt_d (e_created E a) @ 64 # names a @ [36]"
| "print E names (Arr ts) = [40, 123] @ concat (map (\<lambda>t. print E names t @ [44]) ts) @ [125, 41]"
| "print E names (Tab ps) =
     [40, 91] @ concat (map (\<lambda>p. print E names (fst p) @ [58] @ print E names (snd p) @ [44]) ps) @ [93, 41]"

text \<open>The tree of a value, the pairs of a mapping in the order of its chains.\<close>

inductive reads :: "lpc_heap \<Rightarrow> sval \<Rightarrow> tree \<Rightarrow> bool" for h where
  "reads h (T_NUMBER i) (Num i)"
| "reads h (T_FUNCTION a) (Num 0)"
| "reads h (T_STRING s) (Str s)"
| "reads h (T_FLOAT r) (Flt r)"
| "reads h (T_OBJECT a) (Obj a)"
| "h_vec h a = Some vs \<Longrightarrow> list_all2 (reads h) vs ts \<Longrightarrow> reads h (T_POINTER a) (Arr ts)"
| "h_map h a = Some m \<Longrightarrow>
     list_all2 (\<lambda>kv p. reads h (fst kv) (fst p) \<and> reads h (snd kv) (snd p)) (map_items m) ps \<Longrightarrow>
     reads h (T_MAPPING a) (Tab ps)"

lemma size_Arr: "t \<in> set ts \<Longrightarrow> size t < size (Arr ts)"
  by (induction ts) auto

lemma size_Tab: "p \<in> set ps \<Longrightarrow> size (fst p) < size (Tab ps) \<and> size (snd p) < size (Tab ps)"
  by (induction ps) auto

text \<open>Strings and names do not contain NUL.\<close>

fun nul_free :: "(nat \<Rightarrow> u8 list) \<Rightarrow> tree \<Rightarrow> bool" where
  "nul_free names (Str s) \<longleftrightarrow> 0 \<notin> set s"
| "nul_free names (Obj a) \<longleftrightarrow> 0 \<notin> set (names a)"
| "nul_free names (Arr ts) \<longleftrightarrow> (\<forall>t\<in>set ts. nul_free names t)"
| "nul_free names (Tab ps) \<longleftrightarrow> (\<forall>p\<in>set ps. nul_free names (fst p) \<and> nul_free names (snd p))"
| "nul_free names _ \<longleftrightarrow> True"

lemma save_string_appends: "0 \<notin> set s \<Longrightarrow> appends (save_string g s) (34 # concat (map save_char s) @ [34])"
proof -
  assume s: "0 \<notin> set s"
  have "appends (save_loop (\<lambda>c. add_strbuf g (save_char c)) s) (concat (map save_char s))"
    using s by (intro appends_loop appends_add) (auto simp: save_char_def)
  from appends_bracket [OF this, of "[34]" "[34]" g] show ?thesis by (simp add: save_string_def [abs_def])
qed

lemma appends_all2:
  assumes "list_all2 R xs ys" "\<And>x y. R x y \<Longrightarrow> y \<in> set ys \<Longrightarrow> appends (step x) (out y)"
  shows "appends (save_loop step xs) (concat (map out ys))"
  using assms
proof (induction rule: list_all2_induct)
  case (Cons x xs y ys)
  have "appends (\<lambda>f. step x f \<bind> save_loop step xs) (out y @ concat (map out ys))"
    using Cons by (intro appends_bind) auto
  then show ?case by simp
qed (simp add: appends_def)

text \<open>Saving writes the text of the tree.\<close>

lemma save_one_law: "reads h v t \<Longrightarrow> size t < n \<Longrightarrow> nul_free names t \<Longrightarrow> appends (save_one n g E names h v) (print E names t)"
proof (induction n arbitrary: v t)
  case (Suc n)
  let ?rec = "save_one n g E names h"
  from Suc.prems(1) show ?case
  proof cases
    case (1 i)
    have "0 \<notin> set (fmt_d i)" using fmt_d_plain by blast
    moreover have "sprint20 (fmt_d i) = Some (fmt_d i)" using fmt_d_length [of i] by (simp add: sprint20_def)
    ultimately show ?thesis using 1 appends_add [of "fmt_d i" g] by (simp add: appends_def)
  next
    case (2 a)
    then show ?thesis using appends_add [of "[48]" g] by (simp add: appends_def fmt_d_def dec_nat.simps)
  next
    case (3 s)
    then show ?thesis using save_string_appends [of s g] Suc.prems(3) by (simp add: appends_def)
  next
    case (4 r)
    let ?t = "35 # fmt_e8 r @ [35]"
    have "0 \<notin> set ?t" using fmt_e8_plain [of 0 r] by auto
    moreover have "sprint20 ?t = Some ?t" using fmt_e8_length [of r] by (simp add: sprint20_def)
    ultimately show ?thesis using 4 appends_add [of ?t g] by (simp add: appends_def)
  next
    case (5 a)
    let ?t = "36 # fmt_d (e_created E a) @ [64]"
    have t: "0 \<notin> set ?t" using fmt_d_plain [of 0 "e_created E a"] by auto
    have p: "sprint20 ?t = Some ?t" using fmt_d_length [of "e_created E a"] by (simp add: sprint20_def)
    have "appends (\<lambda>f. add_strbuf g ?t f \<bind> (\<lambda>f. add_strbuf g (names a) f \<bind> add_strbuf g [36])) (?t @ names a @ [36])"
      using t Suc.prems(3) 5 by (intro appends_bind appends_add) auto
    then show ?thesis using 5 p by (simp add: appends_def)
  next
    case (6 a vs ts)
    have el: "appends (\<lambda>f. ?rec x f \<bind> add_strbuf g [44]) (print E names y @ [44])" if "reads h x y" "y \<in> set ts" for x y
      using that Suc.IH [of x y] Suc.prems(2,3) 6(2) size_Arr [of y ts] by (intro appends_bind appends_add) auto
    have "appends (save_loop (\<lambda>x f. ?rec x f \<bind> add_strbuf g [44]) vs) (concat (map (\<lambda>t. print E names t @ [44]) ts))"
      by (rule appends_all2 [OF 6(4)]) (rule el)
    from appends_bracket [OF this, of "[40, 123]" "[125, 41]" g] 6 show ?thesis by (simp add: save_array_def appends_def)
  next
    case (7 a m ps)
    let ?step = "\<lambda>(k, v) f. do { f1 \<leftarrow> ?rec k f; f2 \<leftarrow> add_strbuf g [58] f1; f3 \<leftarrow> ?rec v f2; add_strbuf g [44] f3 }"
    have el: "appends (?step x) (print E names (fst y) @ [58] @ print E names (snd y) @ [44])"
      if "reads h (fst x) (fst y)" "reads h (snd x) (snd y)" "y \<in> set ps" for x y
    proof -
      have "appends (?rec (fst x)) (print E names (fst y))" "appends (?rec (snd x)) (print E names (snd y))"
        using that Suc.IH Suc.prems(2,3) 7(2) size_Tab [of y ps] by auto
      then have "appends (\<lambda>f. ?rec (fst x) f \<bind> (\<lambda>f. add_strbuf g [58] f \<bind> (\<lambda>f. ?rec (snd x) f \<bind> add_strbuf g [44])))
        (print E names (fst y) @ [58] @ print E names (snd y) @ [44])"
        by (intro appends_bind appends_add) auto
      then show ?thesis by (simp add: case_prod_beta)
    qed
    have "appends (save_loop ?step (map_items m))
      (concat (map (\<lambda>p. print E names (fst p) @ [58] @ print E names (snd p) @ [44]) ps))"
      by (rule appends_all2 [OF 7(4)]) (use el in blast)
    from appends_bracket [OF this, of "[40, 91]" "[93, 41]" g] 7 show ?thesis by (simp add: save_mapping_def appends_def)
  qed
qed simp

section \<open>Reading strings back\<close>

lemma drop_upd_lt: "q < p \<Longrightarrow> drop p (b[q := x]) = drop p b"
  by (rule drop_update_cancel)

lemma drop_Cons_nth: "drop p b = x # xs \<Longrightarrow> p < length b \<and> b ! p = x \<and> drop (Suc p) b = xs"
proof -
  assume d: "drop p b = x # xs"
  then have p: "p < length b" by (metis drop_eq_Nil2 list.distinct(1) not_le)
  with Cons_nth_drop_Suc [OF p] d show ?thesis by auto
qed

text \<open>The escapes of a string turn into the string, written over the place they are read from; a carriage return, which
  is not escaped, turns into a newline.\<close>

definition cr_lf :: "u8 \<Rightarrow> u8" where "cr_lf c = (if c = 13 then 10 else c)"

lemma unescape_law:
  "drop p b = concat (map save_char cs) @ 34 # rest \<Longrightarrow> 0 \<notin> set cs \<Longrightarrow> q < p \<Longrightarrow>
    \<exists>b'. unescape b p q = Some (b', p + length (concat (map save_char cs)), q + length cs) \<and>
      drop (p + length (concat (map save_char cs))) b' = 34 # rest \<and> length b' = length b \<and>
      take (length cs) (drop q b') = map cr_lf cs \<and> take q b' = take q b"
proof (induction cs arbitrary: p q b)
  case Nil
  then have "p < length b \<and> b ! p = 34" using drop_Cons_nth [of p b] by simp
  then have "unescape b p q = Some (b, p, q)" by (subst unescape.simps) simp
  with Nil show ?case by simp
next
  case (Cons c cs)
  let ?k = "length (save_char c)" and ?b = "b[q := cr_lf c]"
  have step: "unescape b p q = unescape ?b (p + ?k) (q + 1)" and d: "drop (p + ?k) ?b = concat (map save_char cs) @ 34 # rest"
    and p: "p < length b"
  proof -
    have d1: "drop p b = save_char c @ concat (map save_char cs) @ 34 # rest" using Cons.prems(1) by simp
    have d2: "drop (p + ?k) b = concat (map save_char cs) @ 34 # rest"
      by (simp add: add.commute [of p] flip: drop_drop) (simp add: d1)
    then show "drop (p + ?k) ?b = concat (map save_char cs) @ 34 # rest" using Cons.prems(3) by (simp add: drop_upd_lt)
    consider (esc) d where "save_char c = [92, d]" "cr_lf c = (if d = 110 then 10 else d)" | (plain) "save_char c = [c]" "c \<noteq> 34" "c \<noteq> 92"
    proof (cases "c \<in> {34, 92, 10}")
      case True
      then show thesis by (intro esc [of "if c = 10 then 110 else c"]) (auto simp: save_char_def cr_lf_def)
    qed (auto simp: save_char_def intro: plain)
    then have "p < length b \<and> unescape b p q = unescape ?b (p + ?k) (q + 1)"
    proof cases
      case esc
      note 1 = drop_Cons_nth [OF d1 [unfolded esc(1) append_Cons append_Nil]]
      then have 2: "Suc p < length b \<and> b ! Suc p = d" using drop_Cons_nth [of "Suc p" b d] by simp
      from 1 2 esc show ?thesis by (subst unescape.simps) simp
    next
      case plain
      note 1 = drop_Cons_nth [OF d1 [unfolded plain(1) append_Cons append_Nil]]
      with plain Cons.prems(2) show ?thesis by (subst unescape.simps) (auto simp: cr_lf_def)
    qed
    then show "unescape b p q = unescape ?b (p + ?k) (q + 1)" "p < length b" by simp_all
  qed
  have k: "1 \<le> ?k" by (simp add: save_char_def)
  from Cons.IH [OF d, of "q + 1"] Cons.prems(2,3) k obtain b' where
    b': "unescape ?b (p + ?k) (q + 1) = Some (b', p + ?k + length (concat (map save_char cs)), q + 1 + length cs)"
      "drop (p + ?k + length (concat (map save_char cs))) b' = 34 # rest" "length b' = length ?b"
      "take (length cs) (drop (q + 1) b') = map cr_lf cs" "take (q + 1) b' = take (q + 1) ?b" by auto
  have q: "q < length b'" using Cons.prems(3) p b'(3) by simp
  have "b' ! q = cr_lf c"
  proof -
    have "b' ! q = take (q + 1) b' ! q" by simp
    also have "\<dots> = cr_lf c" unfolding b'(5) using Cons.prems(3) p by simp
    finally show ?thesis .
  qed
  then have "drop q b' = cr_lf c # drop (q + 1) b'" using Cons_nth_drop_Suc [OF q] by simp
  then have "take (length (c # cs)) (drop q b') = map cr_lf (c # cs)" using b'(4) by simp
  moreover have "take q b' = take q b"
  proof -
    have "take q b' = take q (take (q + 1) b')" by simp
    also have "\<dots> = take q b" unfolding b'(5) by simp
    finally show ?thesis .
  qed
  ultimately show ?case using step b' by (intro exI [of _ b']) (simp add: add.assoc)
qed

lemma restore_string_law:
  assumes d: "drop s (r_buf st) = 34 # concat (map save_char cs) @ 34 # rest" and cs: "0 \<notin> set cs"
  shows "\<exists>b. restore_string s st = Some (Restored (T_STRING (map cr_lf cs)), s + length (concat (map save_char cs)) + 2, st\<lparr>r_buf := b\<rparr>) \<and>
    drop (s + length (concat (map save_char cs)) + 2) b = rest \<and> string_at b s = Some (map cr_lf cs)"
proof -
  let ?L = "length (concat (map save_char cs))"
  from drop_Cons_nth [OF d] have d1: "drop (s + 1) (r_buf st) = concat (map save_char cs) @ 34 # rest" by simp
  from unescape_law [OF d1 cs, of s] obtain b where
    b: "unescape (r_buf st) (s + 1) s = Some (b, s + 1 + ?L, s + length cs)" "drop (s + 1 + ?L) b = 34 # rest"
      "length b = length (r_buf st)" "take (length cs) (drop s b) = map cr_lf cs" by auto
  have le: "length cs \<le> ?L"
  proof -
    have "length cs \<le> length (concat (map save_char xs)) + (length cs - length xs)" for xs
      by (induction xs) (auto simp: save_char_def)
    from this [of cs] show ?thesis by simp
  qed
  let ?b = "b[s + length cs := 0]"
  have p: "s + 1 + ?L < length b" "b ! (s + 1 + ?L) = 34" "drop (s + ?L + 2) b = rest" using drop_Cons_nth [OF b(2)] by simp_all
  have c: "?b ! (s + 1 + ?L) = 34" using p(1,2) le by simp
  have "drop s ?b = map cr_lf cs @ 0 # drop (s + length cs + 1) b"
  proof -
    have "drop s ?b = (drop s b)[length cs := 0]" by (simp add: drop_update_swap)
    also have "\<dots> = take (length cs) (drop s b) @ 0 # drop (Suc (length cs)) (drop s b)"
      using p(1) le by (intro upd_conv_take_nth_drop) simp
    finally show ?thesis using b(4) by (simp add: add.commute add.left_commute)
  qed
  moreover have "0 \<notin> set (map cr_lf cs)" using cs by (auto simp: cr_lf_def)
  ultimately have "string_at ?b s = Some (map cr_lf cs)" by (metis string_at_text)
  moreover have "drop (s + ?L + 2) ?b = rest" using p(3) le by (simp add: drop_upd_lt)
  ultimately show ?thesis using b(1) c by (intro exI [of _ ?b]) (simp add: restore_string_def Let_def)
qed

section \<open>Reading numbers, floats and objects back\<close>

text \<open>What may follow a value: the text goes on to a NUL, and not with a digit or a sign.\<close>

definition follow :: "u8 list \<Rightarrow> bool" where
  "follow rest \<longleftrightarrow> 0 \<in> set rest \<and> (case rest of [] \<Rightarrow> True | c # _ \<Rightarrow> \<not> isdigit c \<and> c \<noteq> 45)"

abbreviation (input) cut :: "u8 list \<Rightarrow> u8 list" where "cut rest \<equiv> takeWhile (\<lambda>c. c \<noteq> 0) rest"

lemma string_at_follow:
  assumes "drop i b = x @ rest" "0 \<notin> set x" "follow rest"
  shows "string_at b i = Some (x @ cut rest)"
proof -
  have "cut (x @ rest) = x @ cut rest" using assms(2) by (intro takeWhile_append2) auto
  with assms(1,3) show ?thesis by (simp add: string_at_def follow_def)
qed

lemma follow_cut: "follow rest \<Longrightarrow> no_digit (cut rest) \<and> (\<forall>c r. cut rest = c # r \<longrightarrow> \<not> isdigit c \<and> c \<noteq> 45)"
  by (cases rest) (auto simp: follow_def no_digit_def)

lemma drop_add: "drop s b = x @ rest \<Longrightarrow> drop (s + length x) b = rest"
  by (simp add: add.commute [of s] flip: drop_drop)

lemma fmt_d_first: "\<exists>c r. fmt_d i = c # r \<and> (isdigit c \<or> c = 45)" "\<forall>c\<in>set (fmt_d i). isdigit c \<or> c = 45"
proof -
  show a: "\<forall>c\<in>set (fmt_d i). isdigit c \<or> c = 45" using dec_digits by (auto simp: fmt_d_def)
  have "fmt_d i \<noteq> []" by (simp add: fmt_d_def)
  then obtain c r where "fmt_d i = c # r" by (cases "fmt_d i") simp_all
  with a show "\<exists>c r. fmt_d i = c # r \<and> (isdigit c \<or> c = 45)" by auto
qed

lemma restore_number_law:
  assumes d: "drop s (r_buf st) = fmt_d i @ rest" and f: "follow rest"
  shows "restore_number s st = Some (Restored (T_NUMBER i), s + length (fmt_d i), st)"
proof -
  have "0 \<notin> set (fmt_d i)" using fmt_d_plain by blast
  from string_at_follow [OF d this f] have t: "string_at (r_buf st) s = Some (fmt_d i @ cut rest)" .
  have "takeWhile (\<lambda>c. isdigit c \<or> c = 45) (cut rest) = []" using follow_cut [OF f] by (cases "cut rest") auto
  then have w: "takeWhile (\<lambda>c. isdigit c \<or> c = 45) (fmt_d i @ cut rest) = fmt_d i"
    using fmt_d_first(2) [of i] by (subst takeWhile_append2) auto
  have a: "atoi (fmt_d i @ cut rest) = i" using atoi_fmt follow_cut [OF f] by blast
  obtain c r where "fmt_d i = c # r" "isdigit c \<or> c = 45" using fmt_d_first(1) by blast
  then show ?thesis using t w a by (auto simp: restore_number_def)
qed

lemma restore_float_law:
  assumes d: "drop s (r_buf st) = 35 # fmt_e8 r @ 35 # rest" and f: "follow rest" and n: "\<not> unat r mod 2 ^ 31 > FLOAT_INF"
  shows "restore_float s st = Some (Restored (T_FLOAT r), s + length (fmt_e8 r) + 2, st)"
proof -
  have d1: "drop (s + 1) (r_buf st) = (fmt_e8 r @ [35]) @ rest" using drop_Cons_nth [OF d] by simp
  have "0 \<notin> set (fmt_e8 r @ [35])" using fmt_e8_plain [of 0 r] by auto
  from string_at_follow [OF d1 this f] have t: "string_at (r_buf st) (s + 1) = Some (fmt_e8 r @ 35 # cut rest)" by simp
  have "\<forall>c\<in>set (fmt_e8 r). c \<noteq> 35" using fmt_e8_plain [of _ r] by auto
  then have "takeWhile (\<lambda>c. c \<noteq> 35) (fmt_e8 r @ 35 # cut rest) = fmt_e8 r" by (subst takeWhile_append2) auto
  with t scan_f_fmt [OF n, of "cut rest"] show ?thesis by (simp add: restore_float_def)
qed

text \<open>Names of objects that can be saved: what the format of \<^verbatim>\<open>sscanf\<close> reads in one piece, and what \<^verbatim>\<open>find_object2\<close>
  takes as it is.\<close>

definition good_name :: "u8 list \<Rightarrow> bool" where
  "good_name s \<longleftrightarrow> 2 \<le> length s \<and> length s < 1024 \<and> set s \<inter> {0, 9, 10, 32, 36} = {} \<and> hd s \<noteq> 47 \<and>
     drop (length s - 2) s \<noteq> [46, 99]"

lemma find_object2_law:
  assumes "good_name s"
  shows "find_object2 s ot = lookup_object_hash s ot"
proof -
  have l: "2 \<le> length s" "hd s \<noteq> 47" "drop (length s - 2) s \<noteq> [46, 99]" using assms by (simp_all add: good_name_def)
  have "takeWhile (\<lambda>c. c = 47) s = []" using l(1,2) by (cases s) simp_all
  moreover obtain u x y where u: "s = u @ [x, y]"
  proof -
    obtain w y where w: "s = w @ [y]" using l(1) by (cases s rule: rev_cases) auto
    moreover obtain u x where "w = u @ [x]" using l(1) w by (cases w rule: rev_cases) auto
    ultimately show thesis using that by simp
  qed
  have "\<not> (x = 46 \<and> y = 99)" using l(3) u by simp
  then have "cut_c s 0 (length s) = Some (length s)" using u by (subst cut_c.simps) (auto simp: nth_append)
  ultimately show ?thesis by (simp add: find_object2_def)
qed

lemma scan_object_law:
  assumes "good_name s"
  shows "scan_object (fmt_d ct @ 64 # s @ 36 # rest) = Some (Some (ct, s))"
proof -
  have "no_digit (64 # s @ 36 # rest)" by (simp add: no_digit_def isdigit_def word_le_nat_alt)
  from scan_d_fmt [OF this, of ct] have d: "scan_d (fmt_d ct @ 64 # s @ 36 # rest) = Some (ct, 64 # s @ 36 # rest)" .
  have "\<forall>c\<in>set s. c \<notin> {36, 32, 10, 9}" using assms by (auto simp: good_name_def)
  then have "takeWhile (\<lambda>c. c \<notin> {36, 32, 10, 9}) (s @ 36 # rest) = s" by (subst takeWhile_append2) auto
  then show ?thesis using d assms by (auto simp: scan_object_def Let_def good_name_def)
qed

lemma restore_ob_law:
  assumes d: "drop s (r_buf st) = 36 # fmt_d (e_created E a) @ 64 # name @ 36 # rest" and f: "follow rest"
    and nm: "good_name name" and l: "lookup_object_hash name (r_ot st) = Some (Some a, ot)"
  shows "restore_ob E s st =
    Some (Restored (T_OBJECT a), s + length (fmt_d (e_created E a)) + length name + 3, st\<lparr>r_ot := ot\<rparr>)"
proof -
  let ?d = "fmt_d (e_created E a)"
  have d1: "drop (s + 1) (r_buf st) = (?d @ 64 # name @ [36]) @ rest" using drop_Cons_nth [OF d] by simp
  have "0 \<notin> set (?d @ 64 # name @ [36])" using fmt_d_plain [of 0 "e_created E a"] nm by (auto simp: good_name_def)
  from string_at_follow [OF d1 this f]
  have t: "string_at (r_buf st) (s + 1) = Some (?d @ 64 # name @ 36 # cut rest)" by simp
  have "\<forall>c\<in>set (?d @ 64 # name). c \<noteq> 36" using fmt_d_plain [of _ "e_created E a"] nm by (auto simp: good_name_def)
  then have "takeWhile (\<lambda>c. c \<noteq> 36) ((?d @ 64 # name) @ 36 # cut rest) = ?d @ 64 # name" by (subst takeWhile_append2) auto
  then show ?thesis
    using t l scan_object_law [OF nm, of "e_created E a" "cut rest"] find_object2_law [OF nm]
    by (simp add: restore_ob_def)
qed

section \<open>Reading values back\<close>

text \<open>Numbers, strings, floats and objects are compared by what they are; they are the keys a restored mapping can be
  asked for.\<close>

fun key_val :: "tree \<Rightarrow> sval option" where
  "key_val (Num i) = Some (T_NUMBER i)"
| "key_val (Str s) = Some (T_STRING s)"
| "key_val (Flt r) = Some (T_FLOAT r)"
| "key_val (Obj a) = Some (T_OBJECT a)"
| "key_val (Arr ts) = None"
| "key_val (Tab ps) = None"

text \<open>A value of the heap that is the tree, the pairs of a mapping in any order.\<close>

inductive holds :: "objs \<Rightarrow> lpc_heap \<Rightarrow> sval \<Rightarrow> tree \<Rightarrow> bool" for H h where
  holds_Num: "holds H h (T_NUMBER i) (Num i)"
| holds_Str: "holds H h (T_STRING s) (Str s)"
| holds_Flt: "holds H h (T_FLOAT r) (Flt r)"
| holds_Obj: "holds H h (T_OBJECT a) (Obj a)"
| holds_Arr: "h_vec h a = Some vs \<Longrightarrow> list_all2 (holds H h) vs ts \<Longrightarrow> holds H h (T_POINTER a) (Arr ts)"
| holds_Tab: "h_map h a = Some m \<Longrightarrow> map_inv H m \<Longrightarrow> dom (map_look m) = {k. \<exists>p\<in>set ps. key_val (fst p) = Some k} \<Longrightarrow>
     (\<forall>p\<in>set ps. \<exists>k v. key_val (fst p) = Some k \<and> map_look m k = Some v \<and> holds H h v (snd p)) \<Longrightarrow>
     holds H h (T_MAPPING a) (Tab ps)"

inductive_cases holds_ArrE: "holds H h v (Arr ts)"
inductive_cases holds_TabE: "holds H h v (Tab ps)"

definition ext :: "lpc_heap \<Rightarrow> lpc_heap \<Rightarrow> bool" where
  "ext h h' \<longleftrightarrow> h_vec h \<subseteq>\<^sub>m h_vec h' \<and> h_map h \<subseteq>\<^sub>m h_map h'"

lemma ext_refl [simp]: "ext h h"
  by (simp add: ext_def)

lemma ext_trans: "ext h h1 \<Longrightarrow> ext h1 h2 \<Longrightarrow> ext h h2"
  by (auto simp: ext_def intro: map_le_trans)

lemma map_le_Some: "f \<subseteq>\<^sub>m g \<Longrightarrow> f x = Some y \<Longrightarrow> g x = Some y"
  unfolding map_le_def by (metis domI)

lemma holds_ext: "holds H h v t \<Longrightarrow> ext h h' \<Longrightarrow> holds H h' v t"
proof (induction rule: holds.induct)
  case (holds_Arr a vs ts)
  then have "h_vec h' a = Some vs" using map_le_Some by (fastforce simp: ext_def)
  moreover have "list_all2 (holds H h') vs ts" using holds_Arr(2,3) by (auto elim: list_all2_mono)
  ultimately show ?case by (rule holds.holds_Arr)
next
  case (holds_Tab a m ps)
  then have "h_map h' a = Some m" using map_le_Some by (fastforce simp: ext_def)
  with holds_Tab show ?case by (intro holds.holds_Tab [of h' a m]) blast+
qed (auto intro: holds.intros)

text \<open>Values that survive: no carriage return in a string, no NaN, objects that still have their name, and sizes that
  LPC allows.\<close>

fun good_tree :: "objs \<Rightarrow> (nat \<Rightarrow> u8 list) \<Rightarrow> (u8 list \<rightharpoonup> nat) \<Rightarrow> tree \<Rightarrow> bool" where
  "good_tree H names L (Num i) \<longleftrightarrow> True"
| "good_tree H names L (Str s) \<longleftrightarrow> 0 \<notin> set s \<and> 13 \<notin> set s"
| "good_tree H names L (Flt r) \<longleftrightarrow> \<not> unat r mod 2 ^ 31 > FLOAT_INF"
| "good_tree H names L (Obj a) \<longleftrightarrow> good_name (names a) \<and> L (names a) = Some a"
| "good_tree H names L (Arr ts) \<longleftrightarrow> length ts \<le> MAX_ARRAY_SIZE \<and> (\<forall>t\<in>set ts. good_tree H names L t)"
| "good_tree H names L (Tab ps) \<longleftrightarrow> length ps \<le> MAP_LIMIT \<and> distinct (map (\<lambda>p. key_val (fst p)) ps) \<and>
     (\<forall>p\<in>set ps. (\<exists>k. key_val (fst p) = Some k \<and> good_key H k) \<and> good_tree H names L (fst p) \<and> good_tree H names L (snd p))"

definition rs_ok :: "(nat \<Rightarrow> u8 list) \<Rightarrow> (u8 list \<rightharpoonup> nat) \<Rightarrow> rstate \<Rightarrow> bool" where
  "rs_ok names L st \<longleftrightarrow> oinv (r_ot st) \<and> ob_name (r_ot st) = names \<and> olook (r_ot st) = L \<and>
     finite (dom (h_vec (r_heap st))) \<and> finite (dom (h_map (r_heap st))) \<and> h_vec (r_heap st) null_vector = Some []"

text \<open>The allocator finds an address that is not in use.\<close>

definition alloc_ok :: "save_env \<Rightarrow> bool" where
  "alloc_ok E \<longleftrightarrow> (\<forall>h. finite (dom (h_vec h)) \<longrightarrow> finite (dom (h_map h)) \<longrightarrow> e_alloc E h \<notin> dom (h_vec h) \<union> dom (h_map h))"

definition restores :: "nat \<Rightarrow> save_env \<Rightarrow> (nat \<Rightarrow> u8 list) \<Rightarrow> (u8 list \<rightharpoonup> nat) \<Rightarrow> nat \<Rightarrow> rstate \<Rightarrow> tree \<Rightarrow> u8 list \<Rightarrow> bool" where
  "restores n E names L s st t rest \<longleftrightarrow>
     (\<exists>v st'. restore_one n E s st = Some (Restored v, s + length (print E names t), st') \<and>
        drop (s + length (print E names t)) (r_buf st') = rest \<and> rs_ok names L st' \<and> ext (r_heap st) (r_heap st') \<and>
        holds (e_objs E) (r_heap st') v t \<and> (\<forall>k. key_val t = Some k \<longrightarrow> v = k))"

lemma print_first: "\<exists>c r. print E names t = c # r \<and> c \<notin> {125, 93}"
proof (cases t)
  case (Num i)
  then show ?thesis using fmt_d_first(1) [of i] fmt_d_plain [of _ i] by (metis insertCI list.set_intros(1) print.simps(1) insert_iff)
qed simp_all

lemma peek_drop: "drop p (r_buf st) = c # xs \<Longrightarrow> peek p st = Some c"
  using drop_Cons_nth by (fastforce simp: peek_def)

lemma new_vec_law:
  assumes "rs_ok names L st" "alloc_ok E" "new_vec E v st = (w, st')"
  shows "rs_ok names L st'" "ext (r_heap st) (r_heap st')" "r_buf st' = r_buf st"
    "\<exists>a. w = T_POINTER a \<and> h_vec (r_heap st') a = Some v"
proof -
  let ?h = "r_heap st" let ?a = "e_alloc E ?h"
  have fresh: "?a \<notin> dom (h_vec ?h)" using assms(1,2) by (simp add: rs_ok_def alloc_ok_def)
  then have "?a \<noteq> null_vector" using assms(1) by (auto simp: rs_ok_def)
  with assms(1,3) show "rs_ok names L st'" by (auto simp: new_vec_def Let_def rs_ok_def split: if_splits)
  show "ext ?h (r_heap st')" using assms(3) fresh by (auto simp: new_vec_def Let_def ext_def map_le_def split: if_splits)
  show "r_buf st' = r_buf st" "\<exists>a. w = T_POINTER a \<and> h_vec (r_heap st') a = Some v"
    using assms(1,3) by (auto simp: new_vec_def Let_def rs_ok_def split: if_splits)
qed

lemma new_map_law:
  assumes "rs_ok names L st" "alloc_ok E" "new_map E m st = (w, st')"
  shows "rs_ok names L st'" "ext (r_heap st) (r_heap st')" "r_buf st' = r_buf st"
    "\<exists>a. w = T_MAPPING a \<and> h_map (r_heap st') a = Some m"
proof -
  let ?h = "r_heap st" let ?a = "e_alloc E ?h"
  have fresh: "?a \<notin> dom (h_map ?h)" using assms(1,2) by (simp add: rs_ok_def alloc_ok_def)
  from assms(1,3) show "rs_ok names L st'" by (auto simp: new_map_def Let_def rs_ok_def)
  show "ext ?h (r_heap st')" using assms(3) fresh by (auto simp: new_map_def Let_def ext_def map_le_def)
  show "r_buf st' = r_buf st" "\<exists>a. w = T_MAPPING a \<and> h_map (r_heap st') a = Some m"
    using assms(1,3) by (auto simp: new_map_def Let_def)
qed

text \<open>The loop of \<^verbatim>\<open>restore_array\<close>.\<close>

lemma restore_array_law:
  assumes "\<And>t n s st rest. t \<in> set ts \<Longrightarrow> rs_ok names L st \<Longrightarrow> drop s (r_buf st) = print E names t @ rest \<Longrightarrow> follow rest \<Longrightarrow>
      length (print E names t) \<le> n \<Longrightarrow> restores n E names L s st t rest"
    and "rs_ok names L st" "drop p (r_buf st) = concat (map (\<lambda>t. print E names t @ [44]) ts) @ [125, 41] @ rest" "0 \<in> set rest"
    "length (concat (map (\<lambda>t. print E names t @ [44]) ts)) + 2 \<le> n" "length tmp + length ts \<le> MAX_ARRAY_SIZE"
  shows "\<exists>vs st'. restore_array n E tmp p st =
      Some (Restored (tmp @ vs), p + length (concat (map (\<lambda>t. print E names t @ [44]) ts)) + 2, st') \<and>
    drop (p + length (concat (map (\<lambda>t. print E names t @ [44]) ts)) + 2) (r_buf st') = rest \<and> rs_ok names L st' \<and>
    ext (r_heap st) (r_heap st') \<and> list_all2 (holds (e_objs E) (r_heap st')) vs ts"
  using assms
proof (induction ts arbitrary: tmp p n st)
  case Nil
  obtain m where n: "n = Suc m" using Nil.prems(5) by (cases n) simp_all
  have d: "drop p (r_buf st) = 125 # 41 # rest" using Nil.prems(3) by simp
  note 1 = drop_Cons_nth [OF d]
  then have 2: "drop (Suc p) (r_buf st) = 41 # rest" by simp
  note 3 = drop_Cons_nth [OF this]
  have "allocate_check (int (length tmp))" using Nil.prems(6) by (simp add: allocate_check_def)
  then show ?case using n peek_drop [OF d] peek_drop [OF 2] 3 Nil.prems(2) by simp
next
  case (Cons t ts)
  let ?P = "print E names t" and ?C = "concat (map (\<lambda>t. print E names t @ [44]) ts)"
  obtain m where n: "n = Suc m" using Cons.prems(5) by (cases n) simp_all
  obtain c r where c: "?P = c # r" "c \<notin> {125, 93}" using print_first by blast
  have d: "drop p (r_buf st) = ?P @ 44 # ?C @ [125, 41] @ rest" using Cons.prems(3) by simp
  have f: "follow (44 # ?C @ [125, 41] @ rest)" using Cons.prems(4) by (simp add: follow_def isdigit_def word_le_nat_alt)
  have "restores m E names L p st t (44 # ?C @ [125, 41] @ rest)"
    using Cons.prems(1) [of t st p _ m] Cons.prems(2,5) d f n by simp
  then obtain v st1 where r1: "restore_one m E p st = Some (Restored v, p + length ?P, st1)"
    "drop (p + length ?P) (r_buf st1) = 44 # ?C @ [125, 41] @ rest" "rs_ok names L st1" "ext (r_heap st) (r_heap st1)"
    "holds (e_objs E) (r_heap st1) v t" by (auto simp: restores_def)
  have d2: "drop (p + length ?P + 1) (r_buf st1) = ?C @ [125, 41] @ rest" using drop_Cons_nth [OF r1(2)] by simp
  have len: "length ?C + 2 \<le> m" "length (tmp @ [v]) + length ts \<le> MAX_ARRAY_SIZE" using Cons.prems(5,6) n by simp_all
  from Cons.IH [OF Cons.prems(1) [OF list.set_intros(2)] r1(3) d2 Cons.prems(4) len] obtain vs st' where
    r2: "restore_array m E (tmp @ [v]) (p + length ?P + 1) st1 =
        Some (Restored ((tmp @ [v]) @ vs), p + length ?P + 1 + length ?C + 2, st')"
      "drop (p + length ?P + 1 + length ?C + 2) (r_buf st') = rest" "rs_ok names L st'"
      "ext (r_heap st1) (r_heap st')" "list_all2 (holds (e_objs E) (r_heap st')) vs ts" by blast
  have "holds (e_objs E) (r_heap st') v t" using holds_ext [OF r1(5) r2(4)] .
  moreover have "restore_array n E tmp p st =
      Some (Restored (tmp @ v # vs), p + length ?P + 1 + length ?C + 2, st')"
    using n c d r1(1) peek_drop [OF r1(2)] r2(1) peek_drop [of p st c] by simp
  ultimately show ?case using r2 ext_trans [OF r1(4) r2(4)]
    by (intro exI [of _ "v # vs"] exI [of _ st']) (simp add: add.assoc)
qed

text \<open>The loop of \<^verbatim>\<open>restore_mapping\<close>.\<close>

definition keys_of_tab :: "(tree \<times> tree) list \<Rightarrow> sval list" where
  "keys_of_tab ps = map (\<lambda>p. the (key_val (fst p))) ps"

abbreviation (input) row_text :: "save_env \<Rightarrow> (nat \<Rightarrow> u8 list) \<Rightarrow> (tree \<times> tree) list \<Rightarrow> u8 list" where
  "row_text E names ps \<equiv> concat (map (\<lambda>p. print E names (fst p) @ [58] @ print E names (snd p) @ [44]) ps)"

lemma restore_pair:
  assumes k: "restores n E names L p st (fst q) (58 # print E names (snd q) @ 44 # rest)" and st: "rs_ok names L st"
    and v: "\<And>s st. rs_ok names L st \<Longrightarrow> drop s (r_buf st) = print E names (snd q) @ 44 # rest \<Longrightarrow> restores n E names L s st (snd q) (44 # rest)"
    and m: "map_inv (e_objs E) m" "card (dom (map_look m)) < MAP_LIMIT" "key_val (fst q) = Some key" "good_key (e_objs E) key"
    and c: "peek p st = Some c" "c \<noteq> 93"
  shows "\<exists>m' w st'. restore_mapping (Suc n) E m p st =
      restore_mapping n E m' (p + length (print E names (fst q)) + length (print E names (snd q)) + 2) st' \<and>
    drop (p + length (print E names (fst q)) + length (print E names (snd q)) + 2) (r_buf st') = rest \<and> rs_ok names L st' \<and>
    ext (r_heap st) (r_heap st') \<and> holds (e_objs E) (r_heap st') w (snd q) \<and> map_inv (e_objs E) m' \<and>
    map_look m' = (map_look m)(key \<mapsto> w)"
proof -
  let ?K = "print E names (fst q)" and ?V = "print E names (snd q)"
  from k m(3) obtain st1 where r1: "restore_one n E p st = Some (Restored key, p + length ?K, st1)"
    "drop (p + length ?K) (r_buf st1) = 58 # ?V @ 44 # rest" "rs_ok names L st1" "ext (r_heap st) (r_heap st1)"
    by (auto simp: restores_def)
  have "nat (m_card m) < MAP_LIMIT" using m(2) map_count [OF m(1)] by simp
  note put = map_put_law [OF m(1,4) this]
  then obtain m1 l where g: "get_map_lvalue (e_objs E) m key True = Inr (m1, l)"
    by (fastforce simp: map_put_def split: sum.splits)
  have d2: "drop (p + length ?K + 1) (r_buf st1) = ?V @ 44 # rest" using drop_Cons_nth [OF r1(2)] by simp
  from v [OF r1(3) d2] obtain w st2 where r2: "restore_one n E (p + length ?K + 1) st1 = Some (Restored w, p + length ?K + 1 + length ?V, st2)"
    "drop (p + length ?K + 1 + length ?V) (r_buf st2) = 44 # rest" "rs_ok names L st2" "ext (r_heap st1) (r_heap st2)"
    "holds (e_objs E) (r_heap st2) w (snd q)" by (auto simp: restores_def)
  from put [of w] g have m': "map_inv (e_objs E) (assign_lval (e_objs E) m1 l w)"
    "map_look (assign_lval (e_objs E) m1 l w) = (map_look m)(key \<mapsto> w)" by (auto simp: map_put_def)
  have "restore_mapping (Suc n) E m p st = restore_mapping n E (assign_lval (e_objs E) m1 l w) (p + length ?K + length ?V + 2) st2"
    using c r1(1) peek_drop [OF r1(2)] g r2(1) peek_drop [OF r2(2)] by simp
  moreover have "drop (p + length ?K + length ?V + 2) (r_buf st2) = rest" using drop_Cons_nth [OF r2(2)] by simp
  ultimately show ?thesis using r2(3,5) m' ext_trans [OF r1(4) r2(4)] by blast
qed

lemma restore_mapping_law:
  assumes "\<And>q n s st rest. q \<in> set ps \<Longrightarrow> rs_ok names L st \<Longrightarrow> follow rest \<Longrightarrow>
      (drop s (r_buf st) = print E names (fst q) @ rest \<longrightarrow> length (print E names (fst q)) \<le> n \<longrightarrow> restores n E names L s st (fst q) rest) \<and>
      (drop s (r_buf st) = print E names (snd q) @ rest \<longrightarrow> length (print E names (snd q)) \<le> n \<longrightarrow> restores n E names L s st (snd q) rest)"
    and "rs_ok names L st" "drop p (r_buf st) = row_text E names ps @ [93, 41] @ rest" "0 \<in> set rest"
    "length (row_text E names ps) + 2 \<le> n" "map_inv (e_objs E) m" "card (dom (map_look m)) + length ps \<le> MAP_LIMIT"
    "distinct (keys_of_tab ps)" "\<forall>q\<in>set ps. \<exists>k. key_val (fst q) = Some k \<and> good_key (e_objs E) k"
  shows "\<exists>m' vs st'. restore_mapping n E m p st = Some (Restored m', p + length (row_text E names ps) + 2, st') \<and>
    drop (p + length (row_text E names ps) + 2) (r_buf st') = rest \<and> rs_ok names L st' \<and> ext (r_heap st) (r_heap st') \<and>
    list_all2 (holds (e_objs E) (r_heap st')) vs (map snd ps) \<and> map_inv (e_objs E) m' \<and>
    map_look m' = map_look m ++ map_of (zip (keys_of_tab ps) vs)"
  using assms
proof (induction ps arbitrary: m p n st)
  case Nil
  obtain i where n: "n = Suc i" using Nil.prems(5) by (cases n) simp_all
  have d: "drop p (r_buf st) = 93 # 41 # rest" using Nil.prems(3) by simp
  note 1 = drop_Cons_nth [OF d]
  then have 2: "drop (Suc p) (r_buf st) = 41 # rest" by simp
  note 3 = drop_Cons_nth [OF this]
  show ?case using n peek_drop [OF d] peek_drop [OF 2] 3 Nil.prems(2,6) by (simp add: keys_of_tab_def)
next
  case (Cons q ps)
  let ?K = "print E names (fst q)" and ?V = "print E names (snd q)" and ?C = "row_text E names ps"
  obtain i where n: "n = Suc i" using Cons.prems(5) by (cases n) simp_all
  obtain c r where c: "?K = c # r" "c \<notin> {125, 93}" using print_first by blast
  have d: "drop p (r_buf st) = ?K @ 58 # ?V @ 44 # ?C @ [93, 41] @ rest" using Cons.prems(3) by simp
  obtain key where key: "key_val (fst q) = Some key" "good_key (e_objs E) key" using Cons.prems(9) by auto
  let ?rest = "?C @ [93, 41] @ rest"
  have f: "follow (58 # ?V @ 44 # ?rest)" "follow (44 # ?rest)"
    using Cons.prems(4) by (simp_all add: follow_def isdigit_def word_le_nat_alt)
  have lk: "length ?K \<le> i" "length ?V \<le> i" "length ?C + 2 \<le> i" using Cons.prems(5) n by simp_all
  have rk: "restores i E names L p st (fst q) (58 # ?V @ 44 # ?rest)"
    using Cons.prems(1) [OF list.set_intros(1) Cons.prems(2) f(1), of p i] d lk(1) by blast
  have rv: "restores i E names L s st (snd q) (44 # ?rest)" if "rs_ok names L st" "drop s (r_buf st) = ?V @ 44 # ?rest" for s st
    using Cons.prems(1) [OF list.set_intros(1) that(1) f(2), of s i] that(2) lk(2) by blast
  have room: "card (dom (map_look m)) < MAP_LIMIT" using Cons.prems(7) by simp
  have pk: "peek p st = Some c" using d c(1) peek_drop [of p st c] by simp
  from restore_pair [OF rk Cons.prems(2) rv Cons.prems(6) room key pk] c(2) obtain m1 w st1 where
    r1: "restore_mapping (Suc i) E m p st = restore_mapping i E m1 (p + length ?K + length ?V + 2) st1"
      "drop (p + length ?K + length ?V + 2) (r_buf st1) = ?rest" "rs_ok names L st1" "ext (r_heap st) (r_heap st1)"
      "holds (e_objs E) (r_heap st1) w (snd q)" "map_inv (e_objs E) m1" "map_look m1 = (map_look m)(key \<mapsto> w)" by auto
  have fin: "finite (dom (map_look m))" using map_count [OF Cons.prems(6)] by simp
  have c1: "card (dom (map_look m1)) + length ps \<le> MAP_LIMIT"
    using Cons.prems(7) card_insert_le_m1 [of "card (dom (map_look m)) + 1" "dom (map_look m)" key] fin r1(7)
    by (simp add: card_insert_if)
  have ks: "keys_of_tab (q # ps) = key # keys_of_tab ps" using key(1) by (simp add: keys_of_tab_def)
  have dk: "distinct (keys_of_tab ps)" "key \<notin> set (keys_of_tab ps)" using Cons.prems(8) ks by simp_all
  have gk: "\<forall>q\<in>set ps. \<exists>k. key_val (fst q) = Some k \<and> good_key (e_objs E) k" using Cons.prems(9) by simp
  from Cons.IH [OF Cons.prems(1) [OF list.set_intros(2)] r1(3,2) Cons.prems(4) lk(3) r1(6) c1 dk(1) gk] obtain m' vs st' where
    r2: "restore_mapping i E m1 (p + length ?K + length ?V + 2) st1 =
        Some (Restored m', p + length ?K + length ?V + 2 + length ?C + 2, st')"
      "drop (p + length ?K + length ?V + 2 + length ?C + 2) (r_buf st') = rest" "rs_ok names L st'" "ext (r_heap st1) (r_heap st')"
      "list_all2 (holds (e_objs E) (r_heap st')) vs (map snd ps)" "map_inv (e_objs E) m'"
      "map_look m' = map_look m1 ++ map_of (zip (keys_of_tab ps) vs)" by blast
  have "length vs = length ps" using list_all2_lengthD [OF r2(5)] by simp
  then have "key \<notin> dom (map_of (zip (keys_of_tab ps) vs))" using dk(2) by (simp add: keys_of_tab_def)
  then have "map_look m' = map_look m ++ map_of (zip (keys_of_tab (q # ps)) (w # vs))"
    unfolding r2(7) r1(7) ks by (simp add: map_add_upd_left)
  moreover have "list_all2 (holds (e_objs E) (r_heap st')) (w # vs) (map snd (q # ps))"
    using r2(5) holds_ext [OF r1(5) r2(4)] by simp
  ultimately show ?case using n r1(1) r2 ext_trans [OF r1(4) r2(4)]
    by (intro exI [of _ m'] exI [of _ "w # vs"] exI [of _ st']) (simp add: add_ac)
qed

lemma lookup_keeps:
  assumes "oinv ot"
  shows "\<exists>ot'. lookup_object_hash s ot = Some (olook ot s, ot') \<and> oinv ot' \<and> ob_name ot' = ob_name ot \<and> olook ot' = olook ot"
proof -
  from assms obtain ch where c: "ochains ot ch" by (auto simp: oinv_def)
  from find_obj_chains [OF c, of s] obtain ot' ch' where
    f: "find_obj_n s ot = Some (olook ot s, ot')" "ochains ot' ch'" "ob_name ot' = ob_name ot" "\<forall>h. set (ch' h) = set (ch h)" by blast
  have "oinv ot'" using f(2) by (auto simp: oinv_def)
  with f olook_same [OF c f(2,3,4)] show ?thesis by (auto simp: lookup_object_hash_def)
qed

lemma restore_arr_value:
  assumes r: "restore_array n E [] (s + 2) st = Some (Restored vs, p, st1)" and st: "rs_ok names L st1" "alloc_ok E"
    and h: "list_all2 (holds (e_objs E) (r_heap st1)) vs ts" and pk: "peek s st = Some 40" "peek (s + 1) st = Some 123"
  shows "\<exists>v st'. restore_one (Suc n) E s st = Some (Restored v, p, st') \<and> r_buf st' = r_buf st1 \<and> rs_ok names L st' \<and>
    ext (r_heap st1) (r_heap st') \<and> holds (e_objs E) (r_heap st') v (Arr ts)"
proof -
  obtain v st' where nv: "new_vec E vs st1 = (v, st')" by fastforce
  note law = new_vec_law [OF st nv]
  from law(4) obtain a where a: "v = T_POINTER a" "h_vec (r_heap st') a = Some vs" by blast
  have "list_all2 (holds (e_objs E) (r_heap st')) vs ts" using h holds_ext [OF _ law(2)] by (rule list_all2_mono)
  then have "holds (e_objs E) (r_heap st') v (Arr ts)" unfolding a(1) by (rule holds_Arr [OF a(2)])
  moreover have "restore_one (Suc n) E s st = Some (Restored v, p, st')" using r pk nv by simp
  ultimately show ?thesis using law by blast
qed

lemma restore_tab_value:
  assumes r: "restore_mapping n E (allocate_map 0) (s + 2) st = Some (Restored m, p, st1)" and st: "rs_ok names L st1" "alloc_ok E"
    and h: "list_all2 (holds (e_objs E) (r_heap st1)) vs (map snd ps)" and m: "map_inv (e_objs E) m"
      "map_look m = map_of (zip (keys_of_tab ps) vs)"
    and ks: "distinct (keys_of_tab ps)" "\<forall>q\<in>set ps. \<exists>k. key_val (fst q) = Some k"
    and pk: "peek s st = Some 40" "peek (s + 1) st = Some 91"
  shows "\<exists>v st'. restore_one (Suc n) E s st = Some (Restored v, p, st') \<and> r_buf st' = r_buf st1 \<and> rs_ok names L st' \<and>
    ext (r_heap st1) (r_heap st') \<and> holds (e_objs E) (r_heap st') v (Tab ps)"
proof -
  obtain v st' where nv: "new_map E m st1 = (v, st')" by fastforce
  note law = new_map_law [OF st nv]
  from law(4) obtain a where a: "v = T_MAPPING a" "h_map (r_heap st') a = Some m" by blast
  have len: "length vs = length ps" using list_all2_lengthD [OF h] by simp
  have dm: "dom (map_look m) = {k. \<exists>p\<in>set ps. key_val (fst p) = Some k}"
    using m(2) len ks(2) by (force simp: keys_of_tab_def image_iff)
  have "\<exists>k v. key_val (fst q) = Some k \<and> map_look m k = Some v \<and> holds (e_objs E) (r_heap st') v (snd q)" if q: "q \<in> set ps" for q
  proof -
    obtain i where i: "i < length ps" "ps ! i = q" using q by (metis in_set_conv_nth)
    obtain k where k: "key_val (fst q) = Some k" using ks(2) q by blast
    have "(keys_of_tab ps) ! i = k" using i k by (simp add: keys_of_tab_def)
    then have "map_look m k = Some (vs ! i)"
      using ks(1) i len unfolding m(2) by (metis keys_of_tab_def length_map map_of_zip_nth)
    moreover have "holds (e_objs E) (r_heap st1) (vs ! i) (snd q)" using list_all2_nthD [OF h, of i] i len by simp
    ultimately show ?thesis using k holds_ext [OF _ law(2)] by blast
  qed
  then have "holds (e_objs E) (r_heap st') v (Tab ps)" unfolding a(1) using a(2) m(1) dm by (intro holds_Tab) auto
  moreover have "restore_one (Suc n) E s st = Some (Restored v, p, st')" using r pk nv by simp
  ultimately show ?thesis using law by blast
qed

lemma map_cr_lf: "13 \<notin> set cs \<Longrightarrow> map cr_lf cs = cs"
  by (rule map_idI) (auto simp: cr_lf_def)

lemma restores_Arr:
  assumes E: "alloc_ok E"
    and el: "\<And>t n s st rest. t \<in> set ts \<Longrightarrow> rs_ok names L st \<Longrightarrow> drop s (r_buf st) = print E names t @ rest \<Longrightarrow> follow rest \<Longrightarrow>
      length (print E names t) \<le> n \<Longrightarrow> restores n E names L s st t rest"
    and st: "rs_ok names L st" and d0: "drop s (r_buf st) = print E names (Arr ts) @ rest" and f: "follow rest"
    and len: "length (print E names (Arr ts)) \<le> n" and g: "length ts \<le> MAX_ARRAY_SIZE"
  shows "restores n E names L s st (Arr ts) rest"
proof -
  obtain i where n: "n = Suc i" using len by (cases n) simp_all
  let ?C = "concat (map (\<lambda>t. print E names t @ [44]) ts)"
  have d: "drop s (r_buf st) = 40 # 123 # ?C @ [125, 41] @ rest" using d0 by simp
  note d1 = drop_Cons_nth [OF d]
  then have d2: "drop (Suc s) (r_buf st) = 123 # ?C @ [125, 41] @ rest" by simp
  then have d3: "drop (s + 2) (r_buf st) = ?C @ [125, 41] @ rest" using drop_Cons_nth [OF d2] by simp
  have l: "length ?C + 2 \<le> i" "length [] + length ts \<le> MAX_ARRAY_SIZE" using len n g by simp_all
  have z: "0 \<in> set rest" using f by (simp add: follow_def)
  from restore_array_law [OF el st d3 z l] obtain vs st1 where
    r: "restore_array i E [] (s + 2) st = Some (Restored ([] @ vs), s + 2 + length ?C + 2, st1)"
      "drop (s + 2 + length ?C + 2) (r_buf st1) = rest" "rs_ok names L st1" "ext (r_heap st) (r_heap st1)"
      "list_all2 (holds (e_objs E) (r_heap st1)) vs ts" by blast
  from restore_arr_value [of i E s st vs, OF _ r(3) E r(5)] r(1) peek_drop [OF d] peek_drop [OF d2] obtain v st' where
    v: "restore_one (Suc i) E s st = Some (Restored v, s + 2 + length ?C + 2, st')" "r_buf st' = r_buf st1"
      "rs_ok names L st'" "ext (r_heap st1) (r_heap st')" "holds (e_objs E) (r_heap st') v (Arr ts)" by auto
  then show ?thesis using n r(2) ext_trans [OF r(4) v(4)] by (simp add: restores_def add_ac)
qed

lemma restores_Tab:
  assumes E: "alloc_ok E"
    and el: "\<And>q n s st rest. q \<in> set ps \<Longrightarrow> rs_ok names L st \<Longrightarrow> follow rest \<Longrightarrow>
      (drop s (r_buf st) = print E names (fst q) @ rest \<longrightarrow> length (print E names (fst q)) \<le> n \<longrightarrow> restores n E names L s st (fst q) rest) \<and>
      (drop s (r_buf st) = print E names (snd q) @ rest \<longrightarrow> length (print E names (snd q)) \<le> n \<longrightarrow> restores n E names L s st (snd q) rest)"
    and st: "rs_ok names L st" and d0: "drop s (r_buf st) = print E names (Tab ps) @ rest" and f: "follow rest"
    and len: "length (print E names (Tab ps)) \<le> n" and g: "good_tree (e_objs E) names L (Tab ps)"
  shows "restores n E names L s st (Tab ps) rest"
proof -
  obtain i where n: "n = Suc i" using len by (cases n) simp_all
  let ?C = "row_text E names ps"
  have d: "drop s (r_buf st) = 40 # 91 # ?C @ [93, 41] @ rest" using d0 by simp
  note d1 = drop_Cons_nth [OF d]
  then have d2: "drop (Suc s) (r_buf st) = 91 # ?C @ [93, 41] @ rest" by simp
  then have d3: "drop (s + 2) (r_buf st) = ?C @ [93, 41] @ rest" using drop_Cons_nth [OF d2] by simp
  have l: "length ?C + 2 \<le> i" using len n by simp
  note am = allocate_map_law [of "e_objs E" 0]
  have l2: "card (dom (map_look (allocate_map 0))) + length ps \<le> MAP_LIMIT" using g am by simp
  have gk: "\<forall>q\<in>set ps. \<exists>k. key_val (fst q) = Some k \<and> good_key (e_objs E) k" using g by simp
  have "map Some (keys_of_tab ps) = map (\<lambda>p. key_val (fst p)) ps"
    using gk unfolding keys_of_tab_def map_map o_def by (intro map_cong) auto
  then have dk: "distinct (keys_of_tab ps)" using g by (metis distinct_map good_tree.simps(6))
  have z: "0 \<in> set rest" using f by (simp add: follow_def)
  from restore_mapping_law [OF el st d3 z l conjunct1 [OF am] l2 dk gk] am obtain m vs st1 where
    r: "restore_mapping i E (allocate_map 0) (s + 2) st = Some (Restored m, s + 2 + length ?C + 2, st1)"
      "drop (s + 2 + length ?C + 2) (r_buf st1) = rest" "rs_ok names L st1" "ext (r_heap st) (r_heap st1)"
      "list_all2 (holds (e_objs E) (r_heap st1)) vs (map snd ps)" "map_inv (e_objs E) m"
      "map_look m = map_of (zip (keys_of_tab ps) vs)" by auto
  have gk': "\<forall>q\<in>set ps. \<exists>k. key_val (fst q) = Some k" using gk by blast
  from restore_tab_value [OF r(1,3) E r(5,6,7) dk gk'] peek_drop [OF d] peek_drop [OF d2] obtain v st' where
    v: "restore_one (Suc i) E s st = Some (Restored v, s + 2 + length ?C + 2, st')" "r_buf st' = r_buf st1"
      "rs_ok names L st'" "ext (r_heap st1) (r_heap st')" "holds (e_objs E) (r_heap st') v (Tab ps)" by auto
  then show ?thesis using n r(2) ext_trans [OF r(4) v(4)] by (simp add: restores_def add_ac)
qed

lemma restore_one_law:
  assumes E: "alloc_ok E"
  shows "good_tree (e_objs E) names L t \<Longrightarrow> rs_ok names L st \<Longrightarrow> drop s (r_buf st) = print E names t @ rest \<Longrightarrow> follow rest \<Longrightarrow>
    length (print E names t) \<le> n \<Longrightarrow> restores n E names L s st t rest"
proof (induction t arbitrary: n s st rest rule: measure_induct_rule [of size])
  case (less t)
  obtain c r where c: "print E names t = c # r" using print_first by blast
  then obtain i where n: "n = Suc i" using less.prems(5) by (cases n) simp_all
  have pk: "peek s st = Some c" using less.prems(3) c peek_drop [of s st c] by simp
  have dd: "drop (s + length (print E names t)) (r_buf st) = rest" using drop_add [OF less.prems(3)] .
  show ?case
  proof (cases t)
    case (Num j)
    have "c \<notin> {40, 34, 36, 35}"
      using c Num fmt_d_first(2) [of j] by (auto simp: isdigit_def word_le_nat_alt)
    then have "restore_one n E s st = restore_number s st" using n pk by simp
    with restore_number_law [of s st j rest] less.prems dd Num show ?thesis
      by (simp add: restores_def holds_Num)
  next
    case (Str cs)
    then have "restore_one n E s st = restore_string s st" using n pk c by simp
    moreover have "drop s (r_buf st) = 34 # concat (map save_char cs) @ 34 # rest" using less.prems(3) Str by simp
    ultimately show ?thesis using restore_string_law [of s st cs rest] map_cr_lf [of cs] less.prems(1,2) Str
      by (auto simp: restores_def holds_Str rs_ok_def)
  next
    case (Flt q)
    then have "restore_one n E s st = restore_float s st" using n pk c by simp
    with restore_float_law [of s st q rest] less.prems dd Flt show ?thesis
      by (simp add: restores_def holds_Flt)
  next
    case (Obj a)
    then have r: "restore_one n E s st = restore_ob E s st" using n pk c by simp
    have o: "oinv (r_ot st)" "ob_name (r_ot st) = names" "olook (r_ot st) (names a) = Some a"
      using less.prems(1,2) Obj by (simp_all add: rs_ok_def)
    from lookup_keeps [OF o(1), of "names a"] o(3) obtain ot where
      ot: "lookup_object_hash (names a) (r_ot st) = Some (Some a, ot)" "oinv ot" "ob_name ot = names" "olook ot = olook (r_ot st)"
      using o(2) by auto
    have "restore_ob E s st = Some (Restored (T_OBJECT a), s + length (print E names t), st\<lparr>r_ot := ot\<rparr>)"
      using restore_ob_law [OF _ less.prems(4) _ ot(1), of s E] less.prems(1,3) Obj by simp
    then show ?thesis using r ot less.prems(2) dd Obj by (simp add: restores_def holds_Obj rs_ok_def)
  next
    case (Arr ts)
    have el: "restores n E names L s st t rest"
      if "t \<in> set ts" "rs_ok names L st" "drop s (r_buf st) = print E names t @ rest" "follow rest" "length (print E names t) \<le> n"
      for t n s st rest
      using less.IH [of t] that less.prems(1) Arr size_Arr [of t ts] by simp
    show ?thesis unfolding Arr
      by (rule restores_Arr [OF E el less.prems(2) less.prems(3) [unfolded Arr] less.prems(4) less.prems(5) [unfolded Arr]])
        (use less.prems(1) Arr in simp_all)
  next
    case (Tab ps)
    have el: "(drop s (r_buf st) = print E names (fst q) @ rest \<longrightarrow> length (print E names (fst q)) \<le> n \<longrightarrow> restores n E names L s st (fst q) rest) \<and>
      (drop s (r_buf st) = print E names (snd q) @ rest \<longrightarrow> length (print E names (snd q)) \<le> n \<longrightarrow> restores n E names L s st (snd q) rest)"
      if "q \<in> set ps" "rs_ok names L st" "follow rest" for q n s st rest
      using less.IH [of "fst q" st s rest n] less.IH [of "snd q" st s rest n] that less.prems(1) Tab size_Tab [of q ps] by simp
    show ?thesis unfolding Tab
      by (rule restores_Tab [OF E el less.prems(2) less.prems(3) [unfolded Tab] less.prems(4) less.prems(5) [unfolded Tab]
          less.prems(1) [unfolded Tab]])
  qed
qed

section \<open>Writing and reading from LPC\<close>

text \<open>
  \<^verbatim>\<open>f_str2val\<close> of \<^verbatim>\<open>src/interpret.c\<close>: the string on the stack is read in place.  The answers are the value
  left on the stack and what the memory of the argument string holds afterwards.  An error does not return.
\<close>

definition f_str2val :: "nat \<Rightarrow> save_env \<Rightarrow> u8 list \<Rightarrow> lpc_heap \<Rightarrow> otable \<Rightarrow> (restore_error + sval \<times> u8 list \<times> rstate) option" where
  "f_str2val n E str h ot = do {
     (r, p, st) \<leftarrow> restore_one n E 0 \<lparr>r_buf = str @ [0], r_heap = h, r_ot = ot\<rparr>;
     left \<leftarrow> string_at (r_buf st) 0;
     Some (case r of
             Restored v \<Rightarrow> Inr (v, left, st)
           | Illegal_format \<Rightarrow> Inr (const0, left, st)
           | Raised e \<Rightarrow> Inl e) }"

lemma good_nul_free: "good_tree H names L t \<Longrightarrow> nul_free names t"
proof (induction t rule: measure_induct_rule [of size])
  case (less t)
  show ?case
  proof (cases t)
    case (Arr ts)
    with less size_Arr [of _ ts] show ?thesis by auto
  next
    case (Tab ps)
    have "nul_free names (fst p) \<and> nul_free names (snd p)" if "p \<in> set ps" for p
      using less.IH [of "fst p"] less.IH [of "snd p"] less.prems size_Tab [OF that] Tab that by simp
    with Tab show ?thesis by simp
  qed (use less.prems in \<open>auto simp: good_name_def\<close>)
qed

lemma valtostr_law:
  assumes "reads h v t" "size t < n" "nul_free names t"
  shows "valtostr n g E names h v = Some (print E names t)"
proof -
  let ?f = "\<lparr>max_size = 80, sb_size = 0, sb_buf = (replicate 80 g)[0 := 0]\<rparr>"
  have "(replicate 80 g)[0 := 0] = 0 # replicate 79 g" by (simp add: numeral_eq_Suc)
  then have "sb_ok ?f []" by (simp add: sb_ok_def)
  with save_one_law [OF assms, of g E] obtain f where
    f: "save_one n g E names h v ?f = Some f" "sb_ok f ([] @ print E names t)" unfolding appends_def by blast
  from f(2) obtain junk where "sb_buf f = print E names t @ 0 # junk" "0 \<notin> set (print E names t)" by (auto simp: sb_ok_def)
  then have "string_at (sb_buf f) 0 = Some (print E names t)" by (intro string_at_text) simp_all
  with f(1) show ?thesis by (simp add: valtostr_def)
qed

text \<open>C12. What \<^verbatim>\<open>val2str\<close> writes, \<^verbatim>\<open>str2val\<close> reads back.  A value made of numbers, strings without carriage returns,
  floats other than NaN, objects that are still known under their name, and arrays and mappings of such values within the
  limits of LPC is written without any buffer being overrun, and reading the text yields a value with the same contents: the
  arrays have the same elements in the same order and the mappings answer every key alike.  The bound on the
  recursion that is needed is the size of the value, for reading the length of the text; values that exist stay as they are.\<close>

theorem save_restore_roundtrip:
  assumes "reads h v t" "good_tree (e_objs E) names (olook ot) t" "size t < n"
    and "alloc_ok E" "oinv ot" "ob_name ot = names"
    and "finite (dom (h_vec h'))" "finite (dom (h_map h'))" "h_vec h' null_vector = Some []"
  shows "\<exists>s v' left st. valtostr n g E names h v = Some s \<and> f_str2val (length s) E s h' ot = Some (Inr (v', left, st)) \<and>
    holds (e_objs E) (r_heap st) v' t \<and> ext h' (r_heap st) \<and> olook (r_ot st) = olook ot"
proof -
  let ?s = "print E names t" and ?st = "\<lparr>r_buf = print E names t @ [0], r_heap = h', r_ot = ot\<rparr>"
  have nf: "nul_free names t" using good_nul_free [OF assms(2)] .
  have "rs_ok names (olook ot) ?st" using assms by (simp add: rs_ok_def)
  moreover have "drop 0 (r_buf ?st) = ?s @ [0]" "follow [0]" by (simp_all add: follow_def isdigit_def)
  ultimately have "restores (length ?s) E names (olook ot) 0 ?st t [0]"
    using restore_one_law [OF assms(4,2)] by blast
  then obtain v' st where r: "restore_one (length ?s) E 0 ?st = Some (Restored v', length ?s, st)"
    "drop (length ?s) (r_buf st) = [0]" "rs_ok names (olook ot) st" "ext h' (r_heap st)" "holds (e_objs E) (r_heap st) v' t"
    by (auto simp: restores_def)
  have "0 \<in> set (r_buf st)" using r(2) by (metis in_set_dropD list.set_intros(1))
  then have "string_at (r_buf st) 0 = Some (cut (r_buf st))" by (simp add: string_at_def)
  with r valtostr_law [OF assms(1,3) nf, of g E] show ?thesis by (auto simp: f_str2val_def rs_ok_def)
qed

definition demo_heap :: lpc_heap where
  "demo_heap = \<lparr>h_vec = [0 \<mapsto> [], 16 \<mapsto> [T_NUMBER (-7), T_STRING [97, 34, 10], T_MAPPING 32]],
     h_map = [32 \<mapsto> \<lparr>m_size = 1, m_card = 1, m_mcard = 2,
       m_pairs = [[\<lparr>p_arg = T_STRING [107], p_val = T_FLOAT 0x40400000, p_hashval = 0\<rparr>]]\<rparr>]\<rparr>"

definition demo_save_env :: save_env where
  "demo_save_env = \<lparr>e_objs = \<lparr>destructed = (\<lambda>_. False), legal_closure = (\<lambda>_. True)\<rparr>, e_created = (\<lambda>_. 0),
     e_alloc = (\<lambda>h. 16 + Max (insert 0 (dom (h_vec h) \<union> dom (h_map h))))\<rparr>"

lemma demo_save_alloc: "alloc_ok demo_save_env"
  unfolding alloc_ok_def
proof (intro allI impI)
  fix h :: lpc_heap
  let ?S = "insert 0 (dom (h_vec h) \<union> dom (h_map h))"
  assume "finite (dom (h_vec h))" "finite (dom (h_map h))"
  then have "\<forall>x\<in>?S. x \<le> Max ?S" by simp
  then have "16 + Max ?S \<notin> ?S" by (metis add_le_same_cancel2 not_numeral_le_zero)
  then show "e_alloc demo_save_env h \<notin> dom (h_vec h) \<union> dom (h_map h)" by (simp add: demo_save_env_def)
qed

lemma demo_heap_reads:
  "reads demo_heap (T_POINTER 16) (Arr [Num (-7), Str [97, 34, 10], Tab [(Str [107], Flt 0x40400000)]])"
proof -
  have "reads demo_heap (T_MAPPING 32) (Tab [(Str [107], Flt 0x40400000)])"
    by (rule reads.intros(7) [of _ _ "the (h_map demo_heap 32)"]) (simp_all add: demo_heap_def map_items_def reads.intros)
  then show ?thesis
    by (intro reads.intros(6) [of _ _ "the (h_vec demo_heap 16)"]) (simp_all add: demo_heap_def reads.intros)
qed

theorem save_restore_roundtrip_witness:
  "\<exists>s v' left st. valtostr 20 255 demo_save_env (\<lambda>_. []) demo_heap (T_POINTER 16) = Some s \<and>
    f_str2val (length s) demo_save_env s demo_heap (new_otable (\<lambda>_. [])) = Some (Inr (v', left, st)) \<and>
    holds (e_objs demo_save_env) (r_heap st) v' (Arr [Num (-7), Str [97, 34, 10], Tab [(Str [107], Flt 0x40400000)]])"
proof -
  have "good_tree (e_objs demo_save_env) (\<lambda>_. []) (olook (new_otable (\<lambda>_. []))) (Arr [Num (-7), Str [97, 34, 10], Tab [(Str [107], Flt 0x40400000)]])"
    by (simp add: demo_save_env_def MAX_ARRAY_SIZE_def MAP_LIMIT_def good_key_def is_destructed_def is_illegal_def FLOAT_INF_def)
  from save_restore_roundtrip [OF demo_heap_reads this _ demo_save_alloc new_otable_inv, of 20 demo_heap 255] show ?thesis
    by (fastforce simp: new_otable_def demo_heap_def null_vector_def)
qed

text \<open>C40. Reading a string from LPC destroys the argument: \<^verbatim>\<open>str2val\<close> is called on the string of the caller itself, which
  other values may share, and afterwards that memory holds the string that was read instead of its text.  It also shows
  the carriage returns, which saving does not escape, coming back as newlines.\<close>

theorem str2val_overwrites_argument:
  assumes "0 \<notin> set cs"
  shows "\<exists>st. f_str2val (Suc n) E (34 # concat (map save_char cs) @ [34]) h ot =
    Some (Inr (T_STRING (map cr_lf cs), map cr_lf cs, st))"
proof -
  let ?st = "\<lparr>r_buf = 34 # concat (map save_char cs) @ [34, 0], r_heap = h, r_ot = ot\<rparr>"
  from restore_string_law [of 0 ?st cs "[0]"] assms obtain b where
    r: "restore_string 0 ?st = Some (Restored (T_STRING (map cr_lf cs)), length (concat (map save_char cs)) + 2, ?st\<lparr>r_buf := b\<rparr>)"
      "string_at b 0 = Some (map cr_lf cs)" by auto
  have "restore_one (Suc n) E 0 ?st = restore_string 0 ?st" by (simp add: peek_def)
  with r show ?thesis by (simp add: f_str2val_def)
qed

theorem str2val_overwrites_argument_witness:
  "\<exists>st. f_str2val 1 demo_save_env [34, 97, 13, 92, 34, 98, 34] demo_heap (new_otable (\<lambda>_. [])) =
    Some (Inr (T_STRING [97, 10, 34, 98], [97, 10, 34, 98], st))"
  using str2val_overwrites_argument [of "[97, 13, 34, 98]" 0 demo_save_env demo_heap "new_otable (\<lambda>_. [])"]
  by (simp add: save_char_def cr_lf_def)

text \<open>A string that ends in a backslash makes the reader step over the terminating NUL: with nothing allocated behind it,
  \<^verbatim>\<open>restore_one\<close> reads outside the memory of its argument.\<close>

lemma restore_reads_past_end:
  assumes "\<forall>c\<in>set cs. c \<notin> {0, 34, 92}" "drop s (r_buf st) = 34 # cs @ [92, 0]"
  shows "restore_one (Suc n) E s st = None"
proof -
  have "unescape b p q = None" if "drop p b = cs @ [92, 0]" "q < p" "\<forall>c\<in>set cs. c \<notin> {0, 34, 92}" for b p q
    using that
  proof (induction cs arbitrary: b p q)
    case Nil
    have d: "drop p b = 92 # 0 # []" using Nil by simp
    note 1 = drop_Cons_nth [OF d]
    then have 2: "drop (Suc p) b = [0]" by simp
    note 3 = drop_Cons_nth [OF 2]
    then have l: "length b = p + 2" using 1 arg_cong [OF 2, of length] by simp
    have "unescape (b[q := 0]) (p + 2) (q + 1) = None" using l by (subst unescape.simps) simp
    then show ?case using 1 3 by (subst unescape.simps) simp
  next
    case (Cons c cs)
    have "drop p b = c # cs @ [92, 0]" using Cons.prems(1) by simp
    note 1 = drop_Cons_nth [OF this]
    have "drop (p + 1) (b[q := cr_lf c]) = cs @ [92, 0]" using 1 Cons.prems(2) by (simp add: drop_upd_lt)
    then have "unescape (b[q := cr_lf c]) (p + 1) (q + 1) = None" using Cons by simp
    then show ?case using 1 Cons.prems(3) by (subst unescape.simps) (auto simp: cr_lf_def)
  qed
  moreover have "drop (s + 1) (r_buf st) = cs @ [92, 0]" using drop_Cons_nth [OF assms(2)] by simp
  ultimately have "restore_string s st = None" using assms(1) by (simp add: restore_string_def)
  then show ?thesis using peek_drop [OF assms(2)] by simp
qed

end
