(* ===== verification/Operators.thy ===== *)
theory Operators
  imports Lpc_Save "HOL-Library.Signed_Division"
begin

text \<open>
  The operators of LPC (\<^verbatim>\<open>src/interpret.c\<close>): the functions \<^verbatim>\<open>f_add\<close>, \<^verbatim>\<open>f_subtract\<close> and so on, which the
  interpreter calls for the instructions of a program, and the functions that read and write variables.

  The stack is the list of its values, the top first.  A value on it is an LPC value or a pointer to one (\<^verbatim>\<open>T_LVALUE\<close>):
  to a local variable, counted from the bottom of the stack, to a variable of an object, to an item of an array or of a
  mapping, or to one of the static values that stand in for items of arrays about to be freed.  An error keeps the state in
  which it was raised, because LPC code may catch it.  \<open>Crash\<close> is undefined behaviour: an access below the stack or through
  the union of a value of another type, or a shift by a negative count or by more than 31 bits.  Signed addition, subtraction and
  multiplication wrap around, as the instructions of the processor do; C leaves their overflow undefined, too.
\<close>

section \<open>Floats\<close>

text \<open>
  \<^verbatim>\<open>FLOATASGOP\<close> computes in \<^verbatim>\<open>double\<close>, tests the range of \<^verbatim>\<open>float\<close> and rounds to \<^verbatim>\<open>float\<close>.  The finite float \<open>x\<close> is
  \<open>fint x / 2 ^ 149\<close>; the double next to \<open>P / Q\<close> is \<open>dround P Q / 2 ^ 400\<close>, which covers the results of one operation on
  floats, none of which needs a subnormal double.
\<close>

datatype fop = FADD | FSUB | FMUL | FDIV

definition FLT_MAX :: nat where "FLT_MAX = 0x7F7FFFFF"
definition FLT_MIN :: nat where "FLT_MIN = 0x00800000"
definition FLT_NAN :: u32 where "FLT_NAN = 0x7FC00000"

definition fneg :: "u32 \<Rightarrow> bool" where "fneg x \<longleftrightarrow> 2 ^ 31 \<le> unat x"

definition fbits :: "u32 \<Rightarrow> nat" where "fbits x = unat x mod 2 ^ 31"

definition fint :: "u32 \<Rightarrow> int" where
  "fint x = (if fneg x then - int (mag (fbits x)) else int (mag (fbits x)))"

definition float_inf :: "u32 \<Rightarrow> bool" where "float_inf x \<longleftrightarrow> fbits x = FLOAT_INF"

fun dbl_exp :: "nat \<Rightarrow> nat \<Rightarrow> nat \<Rightarrow> nat" where
  "dbl_exp t Q 0 = 0"
| "dbl_exp t Q (Suc k) = (if 2 ^ (Suc k + 52) * Q \<le> t then Suc k else dbl_exp t Q k)"

definition dround :: "nat \<Rightarrow> nat \<Rightarrow> nat" where
  "dround P Q = (let t = P * 2 ^ 400; k = dbl_exp t Q 700 in rdiv t (Q * 2 ^ k) * 2 ^ k)"

datatype op_error =
    Bad_arg nat
  | Bad_type
  | Too_long_string
  | Division_by_zero
  | Float_overflow
  | Sigfpe
  | Array_error array_error
  | Mapping_error
  | Illegal_index
  | Index_out_of_bounds
  | Bad_bit_number
  | Illegal_bit_pattern
  | Stack_overflow
  | Crash

definition float_result :: "bool \<Rightarrow> nat \<Rightarrow> nat \<Rightarrow> op_error + u32" where
  "float_result neg P Q =
     (let y = dround P Q
      in if y > mag FLT_MAX * 2 ^ 251 then Inl Float_overflow
         else if y < mag FLT_MIN * 2 ^ 251 then Inr 0
         else Inr (of_nat ((if neg then 2 ^ 31 else 0) + nearest y (2 ^ 400))))"

definition FLOATASGOP :: "fop \<Rightarrow> u32 \<Rightarrow> u32 \<Rightarrow> op_error + u32" where
  "FLOATASGOP op l r =
     (if float_nan l \<or> float_nan r then Inr FLT_NAN
      else if float_inf l
      then (if case op of FADD \<Rightarrow> float_inf r \<and> fneg l \<noteq> fneg r | FSUB \<Rightarrow> float_inf r \<and> fneg l = fneg r
                        | FMUL \<Rightarrow> fint r = 0 | FDIV \<Rightarrow> float_inf r
            then Inr FLT_NAN else Inl Float_overflow)
      else if float_inf r
      then (case op of FDIV \<Rightarrow> Inr 0 | FMUL \<Rightarrow> if fint l = 0 then Inr FLT_NAN else Inl Float_overflow | _ \<Rightarrow> Inl Float_overflow)
      else case op of
             FADD \<Rightarrow> float_result (fint l + fint r < 0) (nat \<bar>fint l + fint r\<bar>) (2 ^ 149)
           | FSUB \<Rightarrow> float_result (fint l - fint r < 0) (nat \<bar>fint l - fint r\<bar>) (2 ^ 149)
           | FMUL \<Rightarrow> float_result (fint l * fint r < 0) (nat \<bar>fint l * fint r\<bar>) (2 ^ 298)
           | FDIV \<Rightarrow> float_result (fneg l \<noteq> fneg r) (nat \<bar>fint l\<bar>) (nat \<bar>fint r\<bar>))"

definition float_less :: "u32 \<Rightarrow> u32 \<Rightarrow> bool" where
  "float_less a b \<longleftrightarrow> \<not> float_nan a \<and> \<not> float_nan b \<and> fint a < fint b"

definition float_le :: "u32 \<Rightarrow> u32 \<Rightarrow> bool" where
  "float_le a b \<longleftrightarrow> \<not> float_nan a \<and> \<not> float_nan b \<and> fint a \<le> fint b"

section \<open>The stack\<close>

definition EVALUATOR_STACK_SIZE :: nat where "EVALUATOR_STACK_SIZE = 4000"
definition MAX_STRING_LENGTH :: nat where "MAX_STRING_LENGTH = 60000"
definition MAX_BITS :: int where "MAX_BITS = 4002"

datatype lvalue =
    Lv_stack nat
  | Lv_var nat nat
  | Lv_item nat nat
  | Lv_map nat map_lval
  | Lv_one_character
  | Lv_quick_vec
  | Lv_quick_map

datatype slot = V sval | LV lvalue

record interp =
  stk :: "slot list"
  vars :: "nat \<Rightarrow> nat \<Rightarrow> sval"
  heap :: lpc_heap
  one_character :: sval
  quick_vec :: sval
  quick_map :: sval

type_synonym 'a result = "(op_error \<times> 'a interp_scheme) + 'a interp_scheme"

definition as_num :: "slot \<Rightarrow> u32 option" where
  "as_num x = (case x of V (T_NUMBER n) \<Rightarrow> Some n | _ \<Rightarrow> None)"
definition as_str :: "slot \<Rightarrow> u8 list option" where
  "as_str x = (case x of V (T_STRING s) \<Rightarrow> Some s | _ \<Rightarrow> None)"
definition as_flt :: "slot \<Rightarrow> u32 option" where
  "as_flt x = (case x of V (T_FLOAT r) \<Rightarrow> Some r | _ \<Rightarrow> None)"
definition as_ptr :: "slot \<Rightarrow> nat option" where
  "as_ptr x = (case x of V (T_POINTER a) \<Rightarrow> Some a | _ \<Rightarrow> None)"
definition as_map :: "slot \<Rightarrow> nat option" where
  "as_map x = (case x of V (T_MAPPING a) \<Rightarrow> Some a | _ \<Rightarrow> None)"
definition as_lv :: "slot \<Rightarrow> lvalue option" where
  "as_lv x = (case x of LV l \<Rightarrow> Some l | _ \<Rightarrow> None)"

text \<open>The answer of an operator in place of its operands, and operators that take one and two operands.\<close>

definition answer :: "'a interp_scheme \<Rightarrow> slot list \<Rightarrow> op_error + sval \<Rightarrow> 'a result" where
  "answer m st r = (case r of Inl e \<Rightarrow> Inl (e, m) | Inr v \<Rightarrow> Inr (m\<lparr>stk := V v # st\<rparr>))"

definition with1 :: "'a interp_scheme \<Rightarrow> (slot \<Rightarrow> slot list \<Rightarrow> 'a result) \<Rightarrow> 'a result" where
  "with1 m f = (case stk m of x # st \<Rightarrow> f x st | _ \<Rightarrow> Inl (Crash, m))"

definition with2 :: "'a interp_scheme \<Rightarrow> (slot \<Rightarrow> slot \<Rightarrow> slot list \<Rightarrow> 'a result) \<Rightarrow> 'a result" where
  "with2 m f = (case stk m of y # x # st \<Rightarrow> f x y st | _ \<Rightarrow> Inl (Crash, m))"

definition push :: "slot \<Rightarrow> 'a interp_scheme \<Rightarrow> 'a result" where
  "push x m =
     (if length (stk m) \<ge> EVALUATOR_STACK_SIZE then Inl (Stack_overflow, m) else Inr (m\<lparr>stk := x # stk m\<rparr>))"

text \<open>A destructed object or a dead function that is fetched from a variable becomes 0.\<close>

definition fetched :: "objs \<Rightarrow> sval \<Rightarrow> sval" where
  "fetched H v = (if is_destructed H v \<or> is_illegal H v then const0 else v)"

section \<open>Arrays and mappings as operands\<close>

definition put_vec :: "save_env \<Rightarrow> sval list \<Rightarrow> lpc_heap \<Rightarrow> sval \<times> lpc_heap" where
  "put_vec E v h =
     (if v = [] then (T_POINTER null_vector, h)
      else let a = e_alloc E h in (T_POINTER a, h\<lparr>h_vec := (h_vec h)(a \<mapsto> v)\<rparr>))"

definition put_map :: "save_env \<Rightarrow> lpc_map \<Rightarrow> lpc_heap \<Rightarrow> sval \<times> lpc_heap" where
  "put_map E d h = (let a = e_alloc E h in (T_MAPPING a, h\<lparr>h_map := (h_map h)(a \<mapsto> d)\<rparr>))"

text \<open>
  \<^verbatim>\<open>check_for_destr\<close>: destructed objects in an array become 0; the test for dead functions behind them can never succeed.
  In a mapping the values of both kinds become 0 and the pairs with such keys go.
\<close>

definition clean_vec :: "objs \<Rightarrow> sval list \<Rightarrow> sval list" where
  "clean_vec H v = map (\<lambda>x. if is_destructed H x then const0 else x) v"

definition clean_map :: "objs \<Rightarrow> lpc_map \<Rightarrow> lpc_map" where
  "clean_map H d =
     (let ps1 = map (map (\<lambda>p. p\<lparr>p_val := fetched H (p_val p)\<rparr>)) (m_pairs d);
          dead = (\<lambda>p. is_destructed H (p_arg p) \<or> is_illegal H (p_arg p));
          gone = length (filter dead (concat ps1))
      in d\<lparr>m_pairs := map (filter (\<lambda>p. \<not> dead p)) ps1, m_card := short (m_card d - int gone)\<rparr>)"

definition check_vec_destr :: "objs \<Rightarrow> nat \<Rightarrow> lpc_heap \<Rightarrow> lpc_heap" where
  "check_vec_destr H a h = h\<lparr>h_vec := (h_vec h)(a := map_option (clean_vec H) (h_vec h a))\<rparr>"

definition check_map_destr :: "objs \<Rightarrow> nat \<Rightarrow> lpc_heap \<Rightarrow> lpc_heap" where
  "check_map_destr H a h = h\<lparr>h_map := (h_map h)(a := map_option (clean_map H) (h_map h a))\<rparr>"

text \<open>Two arrays at their addresses, and the array that results.\<close>

definition with_vecs :: "'a interp_scheme \<Rightarrow> nat \<Rightarrow> nat \<Rightarrow> (sval list \<Rightarrow> sval list \<Rightarrow> 'a result) \<Rightarrow> 'a result" where
  "with_vecs m a b f = (case (h_vec (heap m) a, h_vec (heap m) b) of (Some u, Some v) \<Rightarrow> f u v | _ \<Rightarrow> Inl (Crash, m))"

definition vec_answer :: "save_env \<Rightarrow> 'a interp_scheme \<Rightarrow> slot list \<Rightarrow> array_error + sval list \<Rightarrow> 'a result" where
  "vec_answer E m st r =
     (case r of
        Inl e \<Rightarrow> Inl (Array_error e, m)
      | Inr v \<Rightarrow> (let (x, h) = put_vec E v (heap m) in Inr (m\<lparr>stk := V x # st, heap := h\<rparr>)))"

text \<open>Sums are made of new arrays and mappings.\<close>

definition vec_add :: "save_env \<Rightarrow> 'a interp_scheme \<Rightarrow> slot list \<Rightarrow> nat \<Rightarrow> nat \<Rightarrow> 'a result" where
  "vec_add E m st a b =
     (let m1 = m\<lparr>heap := check_vec_destr (e_objs E) b (check_vec_destr (e_objs E) a (heap m))\<rparr>
      in with_vecs m1 a b (\<lambda>u v. vec_answer E m1 st (add_array u v)))"

definition map_add :: "save_env \<Rightarrow> 'a interp_scheme \<Rightarrow> slot list \<Rightarrow> nat \<Rightarrow> nat \<Rightarrow> 'a result" where
  "map_add E m st a b =
     (let m1 = m\<lparr>heap := check_map_destr (e_objs E) b (check_map_destr (e_objs E) a (heap m))\<rparr>
      in case (h_map (heap m1) a, h_map (heap m1) b) of
           (Some c, Some d) \<Rightarrow>
             (case add_mapping (e_objs E) c d of
                Inl _ \<Rightarrow> Inl (Mapping_error, m1)
              | Inr r \<Rightarrow> (let (v, h) = put_map E r (heap m1) in Inr (m1\<lparr>stk := V v # st, heap := h\<rparr>)))
         | _ \<Rightarrow> Inl (Crash, m1))"

text \<open>The set operations return one of their operands itself when the other one is empty.\<close>

definition vec_subtract :: "save_env \<Rightarrow> 'a interp_scheme \<Rightarrow> slot list \<Rightarrow> nat \<Rightarrow> nat \<Rightarrow> 'a result" where
  "vec_subtract E m st a b = with_vecs m a b (\<lambda>u v.
     if u = [] \<or> v = [] then Inr (m\<lparr>stk := V (T_POINTER a) # st\<rparr>)
     else vec_answer E m st (subtract_array (e_objs E) u v))"

definition vec_intersect :: "save_env \<Rightarrow> 'a interp_scheme \<Rightarrow> slot list \<Rightarrow> nat \<Rightarrow> nat \<Rightarrow> 'a result" where
  "vec_intersect E m st a b = with_vecs m a b (\<lambda>u v. vec_answer E m st (intersect_array (e_objs E) u v))"

definition vec_union :: "save_env \<Rightarrow> 'a interp_scheme \<Rightarrow> slot list \<Rightarrow> nat \<Rightarrow> nat \<Rightarrow> 'a result" where
  "vec_union E m st a b = with_vecs m a b (\<lambda>u v.
     if u = [] then Inr (m\<lparr>stk := V (T_POINTER b) # st\<rparr>)
     else if v = [] then Inr (m\<lparr>stk := V (T_POINTER a) # st\<rparr>)
     else vec_answer E m st (union_array (e_objs E) u v))"

section \<open>The operators\<close>

text \<open>The last part of most operators: both operands have to be numbers.\<close>

definition numbers2 :: "'a interp_scheme \<Rightarrow> slot \<Rightarrow> slot \<Rightarrow> slot list \<Rightarrow> (u32 \<Rightarrow> u32 \<Rightarrow> op_error + u32) \<Rightarrow> 'a result" where
  "numbers2 m x y st f =
     (case as_num x of
        None \<Rightarrow> Inl (Bad_arg 1, m)
      | Some a \<Rightarrow> (case as_num y of
          None \<Rightarrow> Inl (Bad_arg 2, m)
        | Some b \<Rightarrow> answer m st (map_sum id T_NUMBER (f a b))))"

definition floats2 :: "'a interp_scheme \<Rightarrow> slot \<Rightarrow> slot \<Rightarrow> slot list \<Rightarrow> (u32 \<Rightarrow> u32 \<Rightarrow> op_error + sval) \<Rightarrow> 'a result \<Rightarrow> 'a result" where
  "floats2 m x y st f other =
     (case (as_flt x, as_flt y) of (Some a, Some b) \<Rightarrow> answer m st (f a b) | _ \<Rightarrow> other)"

definition f_add :: "save_env \<Rightarrow> 'a interp_scheme \<Rightarrow> 'a result" where
  "f_add E m = with2 m (\<lambda>x y st.
     case (as_str x, as_str y) of
       (Some s, Some t) \<Rightarrow> answer m st (if length s + length t > MAX_STRING_LENGTH then Inl Too_long_string else Inr (T_STRING (s @ t)))
     | _ \<Rightarrow>
     case (as_num x, as_str y) of
       (Some n, Some t) \<Rightarrow> answer m st (Inr (T_STRING (fmt_d n @ t)))
     | _ \<Rightarrow>
     case (as_str x, as_num y) of
       (Some s, Some n) \<Rightarrow> answer m st (Inr (T_STRING (s @ fmt_d n)))
     | _ \<Rightarrow>
     case (as_num x, as_num y) of
       (Some a, Some b) \<Rightarrow> answer m st (Inr (T_NUMBER (b + a)))
     | _ \<Rightarrow> floats2 m x y st (\<lambda>a b. map_sum id T_FLOAT (FLOATASGOP FADD a b)) (
     case (as_ptr x, as_ptr y) of
       (Some a, Some b) \<Rightarrow> vec_add E m st a b
     | _ \<Rightarrow>
     case (as_map x, as_map y) of
       (Some a, Some b) \<Rightarrow> map_add E m st a b
     | _ \<Rightarrow> Inl (Bad_type, m)))"

definition f_subtract :: "save_env \<Rightarrow> 'a interp_scheme \<Rightarrow> 'a result" where
  "f_subtract E m = with2 m (\<lambda>x y st.
     case (as_ptr x, as_ptr y) of
       (Some a, Some b) \<Rightarrow>
         vec_subtract E (m\<lparr>heap := check_vec_destr (e_objs E) b (check_vec_destr (e_objs E) a (heap m))\<rparr>) st a b
     | _ \<Rightarrow> floats2 m x y st (\<lambda>a b. map_sum id T_FLOAT (FLOATASGOP FSUB a b)) (numbers2 m x y st (\<lambda>a b. Inr (a - b))))"

text \<open>\<^verbatim>\<open>&\<close> hands its operands over in the opposite order.\<close>

definition f_and :: "save_env \<Rightarrow> 'a interp_scheme \<Rightarrow> 'a result" where
  "f_and E m = with2 m (\<lambda>x y st.
     case (as_ptr x, as_ptr y) of
       (Some a, Some b) \<Rightarrow> vec_intersect E m st b a
     | _ \<Rightarrow> numbers2 m x y st (\<lambda>a b. Inr (a AND b)))"

definition f_or :: "save_env \<Rightarrow> 'a interp_scheme \<Rightarrow> 'a result" where
  "f_or E m = with2 m (\<lambda>x y st.
     case (as_ptr x, as_ptr y) of
       (Some a, Some b) \<Rightarrow> vec_union E m st a b
     | _ \<Rightarrow> numbers2 m x y st (\<lambda>a b. Inr (a OR b)))"

definition f_xor :: "'a interp_scheme \<Rightarrow> 'a result" where
  "f_xor m = with2 m (\<lambda>x y st. numbers2 m x y st (\<lambda>a b. Inr (a XOR b)))"

text \<open>The count of a shift is not tested.\<close>

definition shifted :: "(nat \<Rightarrow> u32 \<Rightarrow> u32) \<Rightarrow> u32 \<Rightarrow> u32 \<Rightarrow> op_error + u32" where
  "shifted f a b = (if unat b < 32 then Inr (f (unat b) a) else Inl Crash)"

definition f_lsh :: "'a interp_scheme \<Rightarrow> 'a result" where
  "f_lsh m = with2 m (\<lambda>x y st. numbers2 m x y st (shifted push_bit))"

definition f_rsh :: "'a interp_scheme \<Rightarrow> 'a result" where
  "f_rsh m = with2 m (\<lambda>x y st. numbers2 m x y st (shifted drop_bit))"

definition f_multiply :: "'a interp_scheme \<Rightarrow> 'a result" where
  "f_multiply m = with2 m (\<lambda>x y st.
     floats2 m x y st (\<lambda>a b. map_sum id T_FLOAT (FLOATASGOP FMUL a b)) (numbers2 m x y st (\<lambda>a b. Inr (a * b))))"

text \<open>The quotient of the smallest number and -1 does not fit: the processor raises \<^verbatim>\<open>SIGFPE\<close>, which becomes an error.\<close>

definition INT_MIN :: int where "INT_MIN = - (2 ^ 31)"

definition int_div :: "u32 \<Rightarrow> u32 \<Rightarrow> op_error + u32" where
  "int_div a b =
     (if b = 0 then Inl Division_by_zero
      else if sint a = INT_MIN \<and> sint b = - 1 then Inl Sigfpe
      else Inr (word_of_int (sint a sdiv sint b)))"

definition int_mod :: "u32 \<Rightarrow> u32 \<Rightarrow> op_error + u32" where
  "int_mod a b =
     (if b = 0 then Inl Division_by_zero
      else if sint a = INT_MIN \<and> sint b = - 1 then Inl Sigfpe
      else Inr (word_of_int (sint a smod sint b)))"

definition float_div :: "u32 \<Rightarrow> u32 \<Rightarrow> op_error + u32" where
  "float_div a b = (if float_eq b 0 then Inl Division_by_zero else FLOATASGOP FDIV a b)"

definition f_divide :: "'a interp_scheme \<Rightarrow> 'a result" where
  "f_divide m = with2 m (\<lambda>x y st. floats2 m x y st (\<lambda>a b. map_sum id T_FLOAT (float_div a b)) (numbers2 m x y st int_div))"

definition f_mod :: "'a interp_scheme \<Rightarrow> 'a result" where
  "f_mod m = with2 m (\<lambda>x y st. numbers2 m x y st int_mod)"

section \<open>Comparisons\<close>

fun strcmp :: "u8 list \<Rightarrow> u8 list \<Rightarrow> int" where
  "strcmp [] [] = 0"
| "strcmp [] (b # t) = - 1"
| "strcmp (a # s) [] = 1"
| "strcmp (a # s) (b # t) = (if a = b then strcmp s t else if a < b then - 1 else 1)"

definition truth :: "bool \<Rightarrow> sval" where "truth b = (if b then const1 else const0)"

definition compare ::
  "(int \<Rightarrow> bool) \<Rightarrow> (u32 \<Rightarrow> u32 \<Rightarrow> bool) \<Rightarrow> (int \<Rightarrow> int \<Rightarrow> bool) \<Rightarrow> 'a interp_scheme \<Rightarrow> 'a result" where
  "compare on_str on_flt on_num m = with2 m (\<lambda>x y st.
     case (as_str x, as_str y) of
       (Some s, Some t) \<Rightarrow> answer m st (Inr (truth (on_str (strcmp s t))))
     | _ \<Rightarrow> floats2 m x y st (\<lambda>a b. Inr (truth (on_flt a b)))
              (numbers2 m x y st (\<lambda>a b. Inr (if on_num (sint a) (sint b) then 1 else 0))))"

definition f_gt :: "'a interp_scheme \<Rightarrow> 'a result" where
  "f_gt = compare (\<lambda>c. c > 0) (\<lambda>a b. float_less b a) (\<lambda>a b. a > b)"
definition f_ge :: "'a interp_scheme \<Rightarrow> 'a result" where
  "f_ge = compare (\<lambda>c. c \<ge> 0) (\<lambda>a b. float_le b a) (\<lambda>a b. a \<ge> b)"
definition f_lt :: "'a interp_scheme \<Rightarrow> 'a result" where
  "f_lt = compare (\<lambda>c. c < 0) float_less (\<lambda>a b. a < b)"
definition f_le :: "'a interp_scheme \<Rightarrow> 'a result" where
  "f_le = compare (\<lambda>c. c \<le> 0) float_le (\<lambda>a b. a \<le> b)"

text \<open>Lvalues are never compared.\<close>

definition f_eq :: "objs \<Rightarrow> 'a interp_scheme \<Rightarrow> 'a result" where
  "f_eq H m = with2 m (\<lambda>x y st. case (x, y) of
     (V a, V b) \<Rightarrow> answer m st (Inr (truth (equal_svalue H a b))) | _ \<Rightarrow> Inl (Crash, m))"
definition f_ne :: "objs \<Rightarrow> 'a interp_scheme \<Rightarrow> 'a result" where
  "f_ne H m = with2 m (\<lambda>x y st. case (x, y) of
     (V a, V b) \<Rightarrow> answer m st (Inr (truth (\<not> equal_svalue H a b))) | _ \<Rightarrow> Inl (Crash, m))"

definition f_not :: "objs \<Rightarrow> 'a interp_scheme \<Rightarrow> 'a result" where
  "f_not H m = with1 m (\<lambda>x st. case x of
     V a \<Rightarrow> answer m st (Inr (truth (is_zero a \<or> is_illegal H a \<or> is_destructed H a))) | _ \<Rightarrow> answer m st (Inr const0))"

definition f_compl :: "'a interp_scheme \<Rightarrow> 'a result" where
  "f_compl m = with1 m (\<lambda>x st. case as_num x of Some a \<Rightarrow> answer m st (Inr (T_NUMBER (NOT a))) | None \<Rightarrow> Inl (Bad_type, m))"

definition f_negate :: "'a interp_scheme \<Rightarrow> 'a result" where
  "f_negate m = with1 m (\<lambda>x st.
     case as_flt x of Some r \<Rightarrow> answer m st (Inr (T_FLOAT (r XOR 0x80000000)))
     | None \<Rightarrow> (case as_num x of Some a \<Rightarrow> answer m st (Inr (T_NUMBER (- a))) | None \<Rightarrow> Inl (Bad_type, m)))"

text \<open>\<^verbatim>\<open>max\<close> and \<^verbatim>\<open>min\<close> of any number of arguments; \<open>best\<close> is the one \<^verbatim>\<open>maxp\<close> points to.\<close>

definition comparable :: "sval \<Rightarrow> bool" where
  "comparable v \<longleftrightarrow> (case v of T_NUMBER _ \<Rightarrow> True | T_STRING _ \<Rightarrow> True | T_FLOAT _ \<Rightarrow> True | _ \<Rightarrow> False)"

fun better :: "bool \<Rightarrow> sval \<Rightarrow> sval \<Rightarrow> bool option" where
  "better up (T_NUMBER a) (T_NUMBER b) = Some (if up then sint a < sint b else sint a > sint b)"
| "better up (T_STRING a) (T_STRING b) = Some (if up then strcmp a b < 0 else strcmp a b > 0)"
| "better up (T_FLOAT a) (T_FLOAT b) = Some (if up then float_less a b else float_less b a)"
| "better up _ _ = None"

fun best_loop :: "bool \<Rightarrow> nat \<Rightarrow> sval \<Rightarrow> sval list \<Rightarrow> op_error + sval" where
  "best_loop up i best [] = Inr best"
| "best_loop up i best (v # vs) =
     (case better up best v of
        None \<Rightarrow> Inl (Bad_arg (i + 1))
      | Some b \<Rightarrow> best_loop up (i + 1) (if b then v else best) vs)"

definition best_of :: "bool \<Rightarrow> sval list \<Rightarrow> op_error + sval" where
  "best_of up vs = (case vs of [] \<Rightarrow> Inl Crash | v # vs \<Rightarrow> if comparable v then best_loop up 1 v vs else Inl (Bad_arg 1))"

fun slot_vals :: "slot list \<Rightarrow> sval list option" where
  "slot_vals [] = Some []"
| "slot_vals (V v # xs) = map_option ((#) v) (slot_vals xs)"
| "slot_vals (LV l # xs) = None"

text \<open>The arguments of a function of LPC, in order.\<close>

definition args :: "nat \<Rightarrow> 'a interp_scheme \<Rightarrow> sval list option" where
  "args n m = (if length (stk m) < n then None else map_option rev (slot_vals (take n (stk m))))"

definition f_max :: "nat \<Rightarrow> 'a interp_scheme \<Rightarrow> 'a result" where
  "f_max n m = (case args n m of None \<Rightarrow> Inl (Crash, m) | Some vs \<Rightarrow> answer m (drop n (stk m)) (best_of True vs))"

definition f_min :: "nat \<Rightarrow> 'a interp_scheme \<Rightarrow> 'a result" where
  "f_min n m = (case args n m of None \<Rightarrow> Inl (Crash, m) | Some vs \<Rightarrow> answer m (drop n (stk m)) (best_of False vs))"

section \<open>Variables\<close>

definition read_lv :: "objs \<Rightarrow> lvalue \<Rightarrow> 'a interp_scheme \<Rightarrow> sval option" where
  "read_lv H l m =
     (case l of
        Lv_stack n \<Rightarrow>
          (if n < length (stk m) then (case stk m ! (length (stk m) - 1 - n) of V v \<Rightarrow> Some v | LV _ \<Rightarrow> None) else None)
      | Lv_var ob i \<Rightarrow> Some (vars m ob i)
      | Lv_item a i \<Rightarrow> (case h_vec (heap m) a of Some v \<Rightarrow> if i < length v then Some (v ! i) else None | None \<Rightarrow> None)
      | Lv_map a k \<Rightarrow> map_option (\<lambda>d. read_lval H d k) (h_map (heap m) a)
      | Lv_one_character \<Rightarrow> Some (one_character m)
      | Lv_quick_vec \<Rightarrow> Some (quick_vec m)
      | Lv_quick_map \<Rightarrow> Some (quick_map m))"

definition write_lv :: "objs \<Rightarrow> lvalue \<Rightarrow> sval \<Rightarrow> 'a interp_scheme \<Rightarrow> 'a interp_scheme option" where
  "write_lv H l v m =
     (case l of
        Lv_stack n \<Rightarrow>
          (if n < length (stk m) then Some (m\<lparr>stk := (stk m)[length (stk m) - 1 - n := V v]\<rparr>) else None)
      | Lv_var ob i \<Rightarrow> Some (m\<lparr>vars := (vars m)(ob := (vars m ob)(i := v))\<rparr>)
      | Lv_item a i \<Rightarrow>
          (case h_vec (heap m) a of
             Some u \<Rightarrow> if i < length u then Some (m\<lparr>heap := (heap m)\<lparr>h_vec := (h_vec (heap m))(a \<mapsto> u[i := v])\<rparr>\<rparr>) else None
           | None \<Rightarrow> None)
      | Lv_map a (Slot k) \<Rightarrow>
          map_option (\<lambda>d. m\<lparr>heap := (heap m)\<lparr>h_map := (h_map (heap m))(a \<mapsto> assign_lval H d (Slot k) v)\<rparr>\<rparr>) (h_map (heap m) a)
      | Lv_map a Dummy \<Rightarrow> None
      | Lv_one_character \<Rightarrow> Some (m\<lparr>one_character := v\<rparr>)
      | Lv_quick_vec \<Rightarrow> Some (m\<lparr>quick_vec := v\<rparr>)
      | Lv_quick_map \<Rightarrow> Some (m\<lparr>quick_map := v\<rparr>))"

definition f_pop_value :: "'a interp_scheme \<Rightarrow> 'a result" where
  "f_pop_value m = with1 m (\<lambda>x st. Inr (m\<lparr>stk := st\<rparr>))"

definition f_dup :: "'a interp_scheme \<Rightarrow> 'a result" where
  "f_dup m = with1 m (\<lambda>x st. push x m)"

definition f_indirect :: "objs \<Rightarrow> 'a interp_scheme \<Rightarrow> 'a result" where
  "f_indirect H m = with1 m (\<lambda>x st.
     case as_lv x of None \<Rightarrow> Inl (Crash, m)
     | Some l \<Rightarrow> (case read_lv H l m of None \<Rightarrow> Inl (Crash, m) | Some v \<Rightarrow> answer m st (Inr (fetched H v))))"

text \<open>
  Indexing.  \<open>sole a\<close> tells that the stack holds the only reference to the array or mapping at \<open>a\<close>: its item is then copied
  to a static value, because the array is about to be freed.  The characters of a string are signed.  The index of an array is
  popped before it is compared with the size.
\<close>

definition index_string :: "u8 list \<Rightarrow> int \<Rightarrow> sval" where
  "index_string s ind = T_NUMBER (if ind > int (length s) \<or> ind = int (length s) then 0 else scast (s ! nat ind))"

definition push_indexed_lvalue :: "save_env \<Rightarrow> (nat \<Rightarrow> bool) \<Rightarrow> bool \<Rightarrow> 'a interp_scheme \<Rightarrow> 'a result" where
  "push_indexed_lvalue E sole needlval m = with2 m (\<lambda>vec i st.
     case as_map vec of
       Some a \<Rightarrow>
         (case (i, h_map (heap m) a) of
            (V k, Some d) \<Rightarrow>
              (case get_map_lvalue (e_objs E) d k needlval of
                 Inl d1 \<Rightarrow> Inl (Mapping_error, m\<lparr>heap := (heap m)\<lparr>h_map := (h_map (heap m))(a \<mapsto> d1)\<rparr>\<rparr>)
               | Inr (d1, l) \<Rightarrow>
                   (let m1 = m\<lparr>heap := (heap m)\<lparr>h_map := (h_map (heap m))(a \<mapsto> d1)\<rparr>\<rparr>
                    in if sole a then Inr (m1\<lparr>quick_map := read_lval (e_objs E) d1 l, stk := LV Lv_quick_map # st\<rparr>)
                       else Inr (m1\<lparr>stk := LV (Lv_map a l) # st\<rparr>)))
          | _ \<Rightarrow> Inl (Crash, m))
     | None \<Rightarrow>
         (case as_num i of
            None \<Rightarrow> Inl (Illegal_index, m)
          | Some n \<Rightarrow>
              if sint n < 0 then Inl (Illegal_index, m)
              else case as_str vec of
                     Some s \<Rightarrow> Inr (m\<lparr>one_character := index_string s (sint n), stk := LV Lv_one_character # st\<rparr>)
                   | None \<Rightarrow>
                       (case as_ptr vec of
                          None \<Rightarrow> Inl (Bad_type, m)
                        | Some a \<Rightarrow>
                            (case h_vec (heap m) a of
                               None \<Rightarrow> Inl (Crash, m)
                             | Some v \<Rightarrow>
                                 if unat n \<ge> length v then Inl (Index_out_of_bounds, m\<lparr>stk := vec # st\<rparr>)
                                 else if sole a then Inr (m\<lparr>quick_vec := v ! unat n, stk := LV Lv_quick_vec # st\<rparr>)
                                 else Inr (m\<lparr>stk := LV (Lv_item a (unat n)) # st\<rparr>)))))"

definition f_push_indexed_lvalue :: "save_env \<Rightarrow> (nat \<Rightarrow> bool) \<Rightarrow> 'a interp_scheme \<Rightarrow> 'a result" where
  "f_push_indexed_lvalue E sole m = push_indexed_lvalue E sole True m"

definition f_index :: "save_env \<Rightarrow> (nat \<Rightarrow> bool) \<Rightarrow> 'a interp_scheme \<Rightarrow> 'a result" where
  "f_index E sole m = ebind (push_indexed_lvalue E sole False m) (f_indirect (e_objs E))"

definition f_assign :: "objs \<Rightarrow> 'a interp_scheme \<Rightarrow> 'a result" where
  "f_assign H m = with2 m (\<lambda>x y st.
     case (as_lv x, y) of
       (Some l, V v) \<Rightarrow> (case write_lv H l v m of None \<Rightarrow> Inl (Crash, m) | Some m1 \<Rightarrow> Inr (m1\<lparr>stk := y # tl (tl (stk m1))\<rparr>))
     | _ \<Rightarrow> Inl (Crash, m))"

text \<open>\<^verbatim>\<open>++\<close> and \<^verbatim>\<open>--\<close>: \<open>d\<close> is what is added to the variable, \<open>r\<close> what is added to the answer afterwards.\<close>

definition increment :: "objs \<Rightarrow> u32 \<Rightarrow> u32 \<Rightarrow> 'a interp_scheme \<Rightarrow> 'a result" where
  "increment H d r m = with1 m (\<lambda>x st.
     case as_lv x of None \<Rightarrow> Inl (Bad_type, m)
     | Some l \<Rightarrow>
         (case read_lv H l m of
            None \<Rightarrow> Inl (Crash, m)
          | Some (T_NUMBER n) \<Rightarrow>
              (case write_lv H l (T_NUMBER (n + d)) m of
                 None \<Rightarrow> Inl (Crash, m)
               | Some m1 \<Rightarrow> Inr (m1\<lparr>stk := V (T_NUMBER (n + d + r)) # tl (stk m1)\<rparr>))
          | Some _ \<Rightarrow> Inl (Bad_type, m)))"

definition f_inc :: "objs \<Rightarrow> 'a interp_scheme \<Rightarrow> 'a result" where "f_inc H = increment H 1 0"
definition f_dec :: "objs \<Rightarrow> 'a interp_scheme \<Rightarrow> 'a result" where "f_dec H = increment H (- 1) 0"
definition f_post_inc :: "objs \<Rightarrow> 'a interp_scheme \<Rightarrow> 'a result" where "f_post_inc H = increment H 1 (- 1)"
definition f_post_dec :: "objs \<Rightarrow> 'a interp_scheme \<Rightarrow> 'a result" where "f_post_dec H = increment H (- 1) 1"

section \<open>Assigning operators\<close>

text \<open>The operand, and the assignment of the answer at the top of the stack.\<close>

definition with_lv :: "objs \<Rightarrow> 'a interp_scheme \<Rightarrow> (lvalue \<Rightarrow> sval \<Rightarrow> slot \<Rightarrow> slot list \<Rightarrow> 'a result) \<Rightarrow> 'a result" where
  "with_lv H m f = with2 m (\<lambda>x y st.
     case as_lv x of None \<Rightarrow> Inl (Bad_arg 1, m)
     | Some l \<Rightarrow> (case read_lv H l m of None \<Rightarrow> Inl (Crash, m) | Some v \<Rightarrow> f l v y st))"

definition assign_top :: "objs \<Rightarrow> lvalue \<Rightarrow> 'a interp_scheme \<Rightarrow> 'a result" where
  "assign_top H l m =
     (case stk m of
        V v # st \<Rightarrow> (case write_lv H l v m of None \<Rightarrow> Inl (Crash, m) | Some m1 \<Rightarrow> Inr m1)
      | _ \<Rightarrow> Inl (Crash, m))"

definition f_add_eq :: "save_env \<Rightarrow> 'a interp_scheme \<Rightarrow> 'a result" where
  "f_add_eq E m = with_lv (e_objs E) m (\<lambda>l v y st. ebind (case v of
       T_STRING s \<Rightarrow>
         (case as_str y of
            Some t \<Rightarrow> answer m st (if length s + length t > MAX_STRING_LENGTH then Inl Too_long_string else Inr (T_STRING (s @ t)))
          | None \<Rightarrow> (case as_num y of Some n \<Rightarrow> answer m st (Inr (T_STRING (s @ fmt_d n))) | None \<Rightarrow> Inl (Bad_arg 2, m)))
     | T_NUMBER a \<Rightarrow> (case as_num y of Some b \<Rightarrow> answer m st (Inr (T_NUMBER (a + b))) | None \<Rightarrow> Inl (Bad_type, m))
     | T_FLOAT a \<Rightarrow>
         (case as_flt y of Some b \<Rightarrow> answer m st (map_sum id T_FLOAT (FLOATASGOP FADD a b)) | None \<Rightarrow> Inl (Bad_type, m))
     | T_MAPPING a \<Rightarrow>
         (case as_map y of
            None \<Rightarrow> Inl (Bad_type, m)
          | Some b \<Rightarrow>
              (let h = check_map_destr (e_objs E) b (check_map_destr (e_objs E) a (heap m)); m1 = m\<lparr>heap := h\<rparr>
               in case (h_map h a, h_map h b) of
                    (Some c, Some d) \<Rightarrow>
                      (case addto_mapping (e_objs E) c d of
                         Inl r \<Rightarrow> Inl (Mapping_error, m1\<lparr>heap := h\<lparr>h_map := (h_map h)(a \<mapsto> r)\<rparr>\<rparr>)
                       | Inr r \<Rightarrow> Inr (m1\<lparr>heap := h\<lparr>h_map := (h_map h)(a \<mapsto> r)\<rparr>, stk := V (T_MAPPING a) # st\<rparr>))
                  | _ \<Rightarrow> Inl (Crash, m1)))
     | T_POINTER a \<Rightarrow>
         (case as_ptr y of
            None \<Rightarrow> Inl (Bad_type, m)
          | Some b \<Rightarrow> vec_add E m st a b)
     | _ \<Rightarrow> Inl (Bad_type, m)) (assign_top (e_objs E) l))"

definition f_sub_eq :: "save_env \<Rightarrow> 'a interp_scheme \<Rightarrow> 'a result" where
  "f_sub_eq E m = with_lv (e_objs E) m (\<lambda>l v y st. ebind (case v of
       T_NUMBER a \<Rightarrow> (case as_num y of Some b \<Rightarrow> answer m st (Inr (T_NUMBER (a - b))) | None \<Rightarrow> Inl (Bad_type, m))
     | T_FLOAT a \<Rightarrow>
         (case as_flt y of Some b \<Rightarrow> answer m st (map_sum id T_FLOAT (FLOATASGOP FSUB a b)) | None \<Rightarrow> Inl (Bad_type, m))
     | T_POINTER a \<Rightarrow>
         (case as_ptr y of
            None \<Rightarrow> Inl (Bad_type, m)
          | Some b \<Rightarrow>
              vec_subtract E (m\<lparr>heap := check_vec_destr (e_objs E) b (check_vec_destr (e_objs E) a (heap m))\<rparr>) st a b)
     | _ \<Rightarrow> Inl (Bad_type, m)) (assign_top (e_objs E) l))"

definition f_and_eq :: "save_env \<Rightarrow> 'a interp_scheme \<Rightarrow> 'a result" where
  "f_and_eq E m = with_lv (e_objs E) m (\<lambda>l v y st. ebind (case v of
       T_NUMBER a \<Rightarrow> (case as_num y of Some b \<Rightarrow> answer m st (Inr (T_NUMBER (a AND b))) | None \<Rightarrow> Inl (Bad_type, m))
     | T_POINTER a \<Rightarrow> (case as_ptr y of None \<Rightarrow> Inl (Bad_type, m) | Some b \<Rightarrow> vec_intersect E m st a b)
     | _ \<Rightarrow> Inl (Bad_type, m)) (assign_top (e_objs E) l))"

text \<open>The remaining ones end with a part for numbers only.\<close>

definition number_eq :: "'a interp_scheme \<Rightarrow> sval \<Rightarrow> slot \<Rightarrow> slot list \<Rightarrow> (u32 \<Rightarrow> u32 \<Rightarrow> op_error + u32) \<Rightarrow> 'a result" where
  "number_eq m v y st f =
     (case as_num (V v) of
        None \<Rightarrow> Inl (Bad_type, m)
      | Some a \<Rightarrow> (case as_num y of None \<Rightarrow> Inl (Bad_type, m) | Some b \<Rightarrow> answer m st (map_sum id T_NUMBER (f a b))))"

definition f_or_eq :: "save_env \<Rightarrow> 'a interp_scheme \<Rightarrow> 'a result" where
  "f_or_eq E m = with_lv (e_objs E) m (\<lambda>l v y st. ebind (case (as_ptr (V v), as_ptr y) of
       (Some a, Some b) \<Rightarrow> vec_union E m st a b
     | _ \<Rightarrow> number_eq m v y st (\<lambda>a b. Inr (a OR b))) (assign_top (e_objs E) l))"

definition f_mult_eq :: "objs \<Rightarrow> 'a interp_scheme \<Rightarrow> 'a result" where
  "f_mult_eq H m = with_lv H m (\<lambda>l v y st. ebind
     (floats2 m (V v) y st (\<lambda>a b. map_sum id T_FLOAT (FLOATASGOP FMUL a b)) (number_eq m v y st (\<lambda>a b. Inr (a * b)))) (assign_top H l))"

definition f_div_eq :: "objs \<Rightarrow> 'a interp_scheme \<Rightarrow> 'a result" where
  "f_div_eq H m = with_lv H m (\<lambda>l v y st. ebind
     (floats2 m (V v) y st (\<lambda>a b. map_sum id T_FLOAT (float_div a b)) (number_eq m v y st int_div)) (assign_top H l))"

definition f_xor_eq :: "objs \<Rightarrow> 'a interp_scheme \<Rightarrow> 'a result" where
  "f_xor_eq H m = with_lv H m (\<lambda>l v y st. ebind (number_eq m v y st (\<lambda>a b. Inr (a XOR b))) (assign_top H l))"
definition f_lsh_eq :: "objs \<Rightarrow> 'a interp_scheme \<Rightarrow> 'a result" where
  "f_lsh_eq H m = with_lv H m (\<lambda>l v y st. ebind (number_eq m v y st (shifted push_bit)) (assign_top H l))"
definition f_rsh_eq :: "objs \<Rightarrow> 'a interp_scheme \<Rightarrow> 'a result" where
  "f_rsh_eq H m = with_lv H m (\<lambda>l v y st. ebind (number_eq m v y st (shifted drop_bit)) (assign_top H l))"
definition f_mod_eq :: "objs \<Rightarrow> 'a interp_scheme \<Rightarrow> 'a result" where
  "f_mod_eq H m = with_lv H m (\<lambda>l v y st. ebind (number_eq m v y st int_mod) (assign_top H l))"

section \<open>Parts of strings and bit strings\<close>

definition with3 :: "'a interp_scheme \<Rightarrow> (slot \<Rightarrow> slot \<Rightarrow> slot \<Rightarrow> slot list \<Rightarrow> 'a result) \<Rightarrow> 'a result" where
  "with3 m f = (case stk m of z # y # x # st \<Rightarrow> f x y z st | _ \<Rightarrow> Inl (Crash, m))"

definition range_string :: "u8 list \<Rightarrow> int \<Rightarrow> int \<Rightarrow> u8 list" where
  "range_string s from to =
     (let len = int (length s);
          from = (if from < 0 then len + from else from);
          from = (if from < 0 then 0 else from)
      in if from \<ge> len then []
         else let to = (if to < 0 then len + to else to)
              in if to < from then []
                 else let to = (if to \<ge> len then len - 1 else to)
                      in if to = len - 1 then drop (nat from) s
                         else take (nat (to - from + 1)) (drop (nat from) s))"

definition f_range :: "save_env \<Rightarrow> 'a interp_scheme \<Rightarrow> 'a result" where
  "f_range E m = with3 m (\<lambda>x y z st.
     case as_num y of None \<Rightarrow> Inl (Bad_type, m) | Some from \<Rightarrow>
     (case as_num z of None \<Rightarrow> Inl (Bad_type, m) | Some to \<Rightarrow>
     (case as_ptr x of
        Some a \<Rightarrow>
          (case h_vec (heap m) a of None \<Rightarrow> Inl (Crash, m) | Some v \<Rightarrow> vec_answer E m st (slice_array v (sint from) (sint to)))
      | None \<Rightarrow>
          (case as_str x of
             Some s \<Rightarrow> answer m st (Inr (T_STRING (range_string s (sint from) (sint to))))
           | None \<Rightarrow> Inl (Bad_type, m)))))"

text \<open>
  \<^verbatim>\<open>extract\<close> with three arguments.  It has no second test for a negative start, and then reads in front of the string.
\<close>

definition extract_string :: "u8 list \<Rightarrow> int \<Rightarrow> int option \<Rightarrow> u8 list option" where
  "extract_string s from to =
     (let len = int (length s); from = (if from < 0 then len + from else from)
      in if from \<ge> len then Some []
         else case to of
                None \<Rightarrow> if from < 0 then None else Some (drop (nat from) s)
              | Some to \<Rightarrow>
                  (let to = (if to < 0 then len + to else to)
                   in if to < from then Some []
                      else if from < 0 then None
                      else let to = (if to \<ge> len then len - 1 else to)
                           in if to = len - 1 then Some (drop (nat from) s)
                              else Some (take (nat (to - from + 1)) (drop (nat from) s))))"

definition f_extract :: "nat \<Rightarrow> 'a interp_scheme \<Rightarrow> 'a result" where
  "f_extract n m =
     (case args n m of
        None \<Rightarrow> Inl (Crash, m)
      | Some vs \<Rightarrow>
          answer m (drop n (stk m)) (case vs of
            [T_STRING s] \<Rightarrow> Inr (T_STRING s)
          | [T_STRING s, T_NUMBER i] \<Rightarrow>
              (case extract_string s (sint i) None of None \<Rightarrow> Inl Crash | Some t \<Rightarrow> Inr (T_STRING t))
          | [T_STRING s, T_NUMBER i, v] \<Rightarrow>
              (if (if sint i < 0 then int (length s) + sint i else sint i) \<ge> int (length s) then Inr (T_STRING [])
               else case as_num (V v) of
                      None \<Rightarrow> Inl Bad_type
                    | Some j \<Rightarrow> (case extract_string s (sint i) (Some (sint j)) of None \<Rightarrow> Inl Crash | Some t \<Rightarrow> Inr (T_STRING t)))
          | _ \<Rightarrow> Inl Crash))"

text \<open>Six bits in a byte of a bit string, from the blank upwards.  The shift that makes the mask is undefined for most negative numbers.\<close>

definition bit_mask :: "int \<Rightarrow> u32 option" where
  "bit_mask n = (if n smod 6 < 0 then None else Some (push_bit (nat (n smod 6)) 1))"

definition good_bits :: "u8 \<Rightarrow> bool" where "good_bits c \<longleftrightarrow> 32 \<le> sint c \<and> sint c \<le> 0x3f + 32"

definition set_bit_string :: "u8 list \<Rightarrow> int \<Rightarrow> op_error + u8 list" where
  "set_bit_string s n =
     (if n > MAX_BITS then Inl Bad_bit_number
      else if n sdiv 6 < 0 then Inl Crash
      else let ind = nat (n sdiv 6); str = s @ replicate (ind + 1 - length s) 32; c = str ! ind
           in if \<not> good_bits c then Inl Illegal_bit_pattern
              else case bit_mask n of
                     None \<Rightarrow> Inl Crash
                   | Some b \<Rightarrow> Inr (str[ind := ucast ((((scast c :: u32) - 32) OR b) + 32)]))"

definition clear_bit_string :: "u8 list \<Rightarrow> int \<Rightarrow> op_error + u8 list" where
  "clear_bit_string s n =
     (if n > MAX_BITS then Inl Bad_bit_number
      else if n sdiv 6 < 0 \<or> nat (n sdiv 6) \<ge> length s then Inr s
      else let ind = nat (n sdiv 6); c = s ! ind
           in if \<not> good_bits c then Inl Illegal_bit_pattern
              else case bit_mask n of
                     None \<Rightarrow> Inl Crash
                   | Some b \<Rightarrow> Inr (s[ind := ucast ((((scast c :: u32) - 32) AND NOT b) + 32)]))"

definition test_bit_string :: "u8 list \<Rightarrow> int \<Rightarrow> op_error + bool" where
  "test_bit_string s n =
     (if n sdiv 6 \<ge> int (length s) then Inr False
      else if n sdiv 6 < 0 then Inl Crash
      else case bit_mask n of
             None \<Rightarrow> Inl Crash
           | Some b \<Rightarrow> Inr (((scast (s ! nat (n sdiv 6)) :: u32) - 32) AND b \<noteq> 0))"

definition with_bits :: "'a interp_scheme \<Rightarrow> (u8 list \<Rightarrow> int \<Rightarrow> op_error + sval) \<Rightarrow> 'a result" where
  "with_bits m f = with2 m (\<lambda>x y st. case (as_str x, as_num y) of
     (Some s, Some n) \<Rightarrow> answer m st (f s (sint n)) | _ \<Rightarrow> Inl (Crash, m))"

definition f_set_bit :: "'a interp_scheme \<Rightarrow> 'a result" where
  "f_set_bit m = with_bits m (\<lambda>s n. map_sum id T_STRING (set_bit_string s n))"
definition f_clear_bit :: "'a interp_scheme \<Rightarrow> 'a result" where
  "f_clear_bit m = with_bits m (\<lambda>s n. map_sum id T_STRING (clear_bit_string s n))"
definition f_test_bit :: "'a interp_scheme \<Rightarrow> 'a result" where
  "f_test_bit m = with_bits m (\<lambda>s n. map_sum id truth (test_bit_string s n))"

section \<open>Floats stay in range\<close>

text \<open>The floats that LPC code can see: zero and the normal numbers, neither subnormal nor infinite.\<close>

definition fl_ok :: "u32 \<Rightarrow> bool" where
  "fl_ok r \<longleftrightarrow> fbits r = 0 \<or> FLT_MIN \<le> fbits r \<and> fbits r \<le> FLT_MAX"

lemma rdiv_le: "0 < b \<Longrightarrow> a \<le> c * b \<Longrightarrow> rdiv a b \<le> c"
proof (rule ccontr)
  assume b: "0 < b" "a \<le> c * b" "\<not> rdiv a b \<le> c"
  then have "(c + 1) * b \<le> rdiv a b * b" by (intro mult_le_mono1) simp
  with rdiv_bounds(1) [OF b(1), of a] b(1,2) show False unfolding add_mult_distrib by linarith
qed

lemma rdiv_ge: "0 < b \<Longrightarrow> c * b \<le> a \<Longrightarrow> c \<le> rdiv a b"
proof (rule ccontr)
  assume b: "0 < b" "c * b \<le> a" "\<not> c \<le> rdiv a b"
  then have "(rdiv a b + 1) * b \<le> c * b" by (intro mult_le_mono1) simp
  with rdiv_bounds(2) [OF b(1), of a] b(1,2) show False unfolding add_mult_distrib by linarith
qed

lemma nearest_in_range:
  assumes Q: "0 < Q" and lo: "2 ^ 23 * Q \<le> P * 2 ^ 149" and hi: "P * 2 ^ 149 \<le> (2 ^ 24 - 1) * 2 ^ 253 * Q"
  shows "FLT_MIN \<le> nearest P Q" "nearest P Q \<le> FLT_MAX"
proof -
  define t where t: "t = P * 2 ^ 149"
  define k where k: "k = bin_exp t Q 253"
  define r where r: "r = rdiv t (Q * 2 ^ k)"
  have n: "nearest P Q = min FLOAT_INF (k * 2 ^ 23 + r)" by (simp only: nearest_def Let_def t k r)
  have k3: "k \<le> 253" unfolding k by (rule bin_exp_law(1))
  have pos: "0 < Q * 2 ^ k" using Q by simp
  have "2 ^ 23 * (Q * 2 ^ k) \<le> t"
  proof (cases "k = 0")
    case True
    then show ?thesis using lo t by simp
  next
    case False
    then have "2 ^ (k + 23) * Q \<le> t" unfolding k by (rule bin_exp_law(2))
    then show ?thesis by (simp only: power_add mult_ac)
  qed
  from rdiv_ge [OF pos this] have r23: "2 ^ 23 \<le> r" unfolding r .
  have "k * 2 ^ 23 + r \<le> FLT_MAX"
  proof (cases "k < 253")
    case True
    have "t < 2 ^ (k + 24) * Q" using bin_exp_law(3) [of t Q 253] True k by simp
    then have "t \<le> 2 ^ 24 * (Q * 2 ^ k)" by (simp only: power_add mult_ac)
    from rdiv_le [OF pos this] have "r \<le> 2 ^ 24" unfolding r .
    then have "k * 2 ^ 23 + r \<le> 252 * 2 ^ 23 + 2 ^ 24" using True by (intro add_mono) simp_all
    then show ?thesis by (simp add: FLT_MAX_def)
  next
    case False
    then have "k = 253" using k3 by simp
    moreover have "t \<le> (2 ^ 24 - 1) * (Q * 2 ^ k)" using hi unfolding t \<open>k = 253\<close> by (simp only: mult_ac)
    from rdiv_le [OF pos this] have "r \<le> 2 ^ 24 - 1" unfolding r .
    ultimately show ?thesis by (simp add: FLT_MAX_def)
  qed
  with n r23 show "FLT_MIN \<le> nearest P Q" "nearest P Q \<le> FLT_MAX"
    by (simp_all add: FLT_MIN_def FLT_MAX_def FLOAT_INF_def)
qed

lemma fbits_of_nat: "n < 2 ^ 31 \<Longrightarrow> fbits (of_nat ((if neg then 2 ^ 31 else 0) + n)) = n"
  unfolding fbits_def unat_of_nat by simp

lemma fbits_take_bit: "fbits r = unat (take_bit 31 r)"
  unfolding fbits_def unsigned_take_bit_eq by (simp add: take_bit_eq_mod)

lemma float_result_ok: "float_result neg P Q = Inr r \<Longrightarrow> fl_ok r"
proof -
  assume a: "float_result neg P Q = Inr r"
  have M: "mag FLT_MAX = (2 ^ 24 - 1) * 2 ^ 253" "mag FLT_MIN = 2 ^ 23" by (simp_all add: mag_def FLT_MAX_def FLT_MIN_def)
  let ?y = "dround P Q"
  show ?thesis
  proof (cases "?y < mag FLT_MIN * 2 ^ 251")
    case True
    with a show ?thesis by (auto simp: float_result_def Let_def fl_ok_def fbits_def split: if_splits)
  next
    case False
    with a have y: "\<not> ?y > mag FLT_MAX * 2 ^ 251" and r: "r = of_nat ((if neg then 2 ^ 31 else 0) + nearest ?y (2 ^ 400))"
      unfolding float_result_def Let_def by (auto split: if_splits)
    have e: "(2::nat) ^ 251 * 2 ^ 149 = 2 ^ 400" by (simp only: power_add [symmetric]) simp
    have "2 ^ 23 * 2 ^ 251 \<le> ?y" using False M(2) by simp
    then have "2 ^ 23 * 2 ^ 251 * 2 ^ 149 \<le> ?y * 2 ^ 149" by (rule mult_le_mono1)
    then have lo: "2 ^ 23 * 2 ^ 400 \<le> ?y * 2 ^ 149" using e by (simp only: mult.assoc)
    have "?y \<le> (2 ^ 24 - 1) * 2 ^ 253 * 2 ^ 251" using y unfolding M(1) not_less .
    then have "?y * 2 ^ 149 \<le> (2 ^ 24 - 1) * 2 ^ 253 * 2 ^ 251 * 2 ^ 149" by (rule mult_le_mono1)
    then have hi: "?y * 2 ^ 149 \<le> (2 ^ 24 - 1) * 2 ^ 253 * 2 ^ 400" using e by (simp only: mult.assoc)
    from nearest_in_range [OF _ lo hi] have "FLT_MIN \<le> nearest ?y (2 ^ 400)" "nearest ?y (2 ^ 400) \<le> FLT_MAX" by simp_all
    then show ?thesis using r fbits_of_nat [of "nearest ?y (2 ^ 400)" neg] by (simp add: fl_ok_def FLT_MAX_def)
  qed
qed

lemma fl_ok_finite: "fl_ok r \<Longrightarrow> \<not> float_nan r \<and> \<not> float_inf r"
proof -
  assume r: "fl_ok r"
  have m: "(0x7FFFFFFF :: u32) = mask 31" by (simp add: mask_eq_exp_minus_1)
  have "unat (r AND 0x7FFFFFFF) = fbits r"
    unfolding m take_bit_eq_mask [symmetric] fbits_take_bit ..
  then show ?thesis using r
    by (auto simp: float_nan_def float_inf_def fl_ok_def FLOAT_INF_def FLT_MAX_def word_less_nat_alt)
qed

lemma float_op_ok:
  assumes "fl_ok l" "fl_ok r" "FLOATASGOP op l r = Inr x"
  shows "fl_ok x"
  using assms(3) fl_ok_finite [OF assms(1)] fl_ok_finite [OF assms(2)] float_result_ok
  by (cases op) (auto simp: FLOATASGOP_def)

lemma fl_ok_negate: "fl_ok r \<Longrightarrow> fl_ok (r XOR 0x80000000)"
proof -
  have "take_bit 31 (r XOR 0x80000000) = take_bit 31 r"
    by (rule bit_word_eqI) (auto simp: bit_simps)
  then show "fl_ok r \<Longrightarrow> ?thesis" by (simp add: fl_ok_def fbits_take_bit)
qed

section \<open>Where the values of a result come from\<close>

definition map_shape :: "lpc_map \<Rightarrow> bool" where
  "map_shape d \<longleftrightarrow> m_size d \<in> (\<lambda>j. 2 ^ j) ` {..13} \<and> length (m_pairs d) = m_size d"

definition map_all :: "(sval \<Rightarrow> bool) \<Rightarrow> lpc_map \<Rightarrow> bool" where
  "map_all P d \<longleftrightarrow> map_shape d \<and> (\<forall>c\<in>set (m_pairs d). \<forall>p\<in>set c. P (p_arg p) \<and> P (p_val p))"

lemma rehash_loop_length: "length (rehash_loop n ps cs) = length cs"
  by (induction ps arbitrary: cs) (simp_all add: Let_def)

lemma rehash_shape: "map_shape d \<Longrightarrow> rehash_map d = Inr d' \<Longrightarrow> map_shape d'"
proof -
  assume d: "map_shape d" "rehash_map d = Inr d'"
  then obtain j where j: "m_size d = 2 ^ j" "2 ^ Suc j \<le> MAX_MAPPING_SIZE"
    by (auto simp: map_shape_def rehash_map_def Let_def split: if_splits)
  have "Suc j \<le> 13"
  proof (rule ccontr)
    assume "\<not> Suc j \<le> 13"
    then have "(2::nat) ^ 13 \<le> 2 ^ Suc j" by (intro power_increasing) simp_all
    with j(2) show False by (simp add: MAX_MAPPING_SIZE_def)
  qed
  moreover have "m_size d' = 2 ^ Suc j" "length (m_pairs d') = 2 ^ Suc j"
    using d(2) j(1) by (auto simp: rehash_map_def Let_def rehash_loop_length split: if_splits)
  ultimately show ?thesis unfolding map_shape_def by (metis atMost_iff imageI)
qed

lemma shape_update [simp]:
  "map_shape (d\<lparr>m_pairs := (m_pairs d)[h := c], m_card := n\<rparr>) = map_shape d" "map_shape (d\<lparr>m_pairs := (m_pairs d)[h := c]\<rparr>) = map_shape d"
  by (simp_all add: map_shape_def)

lemma shape_slot: "map_shape d \<Longrightarrow> map_slot h (m_size d) < length (m_pairs d)"
  using map_slot_lt by (auto simp: map_shape_def)

lemma allocate_shape: "map_shape (allocate_map n)"
  using map_size_loop_pow [of 0 "nat ((short n * 100) sdiv 250 mod 2 ^ 32)"]
  by (auto simp: map_shape_def allocate_map_def Let_def)

lemma pairs_update:
  assumes "\<forall>c\<in>set cs. \<forall>p\<in>set c. Q p" "h < length cs \<Longrightarrow> \<forall>p\<in>set (cs ! h). Q p \<Longrightarrow> \<forall>p\<in>set c'. Q p"
  shows "\<forall>c\<in>set (cs[h := c']). \<forall>p\<in>set c. Q p"
proof (cases "h < length cs")
  case True
  then have "\<forall>p\<in>set c'. Q p" using assms nth_mem [OF True] by blast
  then show ?thesis using assms(1) set_update_subset_insert [of cs h c'] by blast
next
  case False
  then show ?thesis using assms(1) by (simp add: list_update_beyond)
qed

lemma rehash_loop_all:
  "\<forall>c\<in>set cs. \<forall>p\<in>set c. Q p \<Longrightarrow> \<forall>p\<in>set ps. Q p \<Longrightarrow> \<forall>c\<in>set (rehash_loop n ps cs). \<forall>p\<in>set c. Q p"
proof (induction ps arbitrary: cs)
  case (Cons p ps)
  let ?h = "map_slot (p_hashval p) n"
  have "\<forall>c\<in>set (cs[?h := p # cs ! ?h]). \<forall>p\<in>set c. Q p"
    using Cons.prems by (intro pairs_update) auto
  then show ?case using Cons.IH [of "cs[?h := p # cs ! ?h]"] Cons.prems by (simp add: Let_def)
qed simp

lemma rehash_all:
  assumes "map_all P d"
  shows "rehash_map d = Inl d' \<Longrightarrow> map_all P d'" "rehash_map d = Inr d' \<Longrightarrow> map_all P d'"
proof -
  show "rehash_map d = Inl d' \<Longrightarrow> map_all P d'" using assms by (auto simp: rehash_map_def Let_def split: if_splits)
  have "\<forall>c\<in>set (rehash_loop n (concat (take (m_size d) (m_pairs d))) (replicate n [])). \<forall>p\<in>set c. P (p_arg p) \<and> P (p_val p)" for n
    using assms by (intro rehash_loop_all) (auto simp: map_all_def dest: in_set_takeD)
  then show "rehash_map d = Inr d' \<Longrightarrow> map_all P d'"
    using assms rehash_shape [of d] by (auto simp: rehash_map_def Let_def map_all_def split: if_splits)
qed

lemma get_map_lvalue_all:
  assumes "map_all P d" "P k" "P const0"
  shows "get_map_lvalue H d k c = Inl d' \<Longrightarrow> map_all P d'" "get_map_lvalue H d k c = Inr (d', l) \<Longrightarrow> map_all P d'"
proof -
  let ?h = "map_slot (hashsvalue k) (m_size d)"
  define d1 where "d1 = d\<lparr>m_pairs := (m_pairs d)[?h := newpair (m_pairs d ! ?h) k const0 (hashsvalue k)], m_card := short (m_card d + 1)\<rparr>"
  have "\<forall>c\<in>set (m_pairs d1). \<forall>p\<in>set c. P (p_arg p) \<and> P (p_val p)"
    unfolding d1_def using assms by (simp, intro pairs_update) (auto simp: map_all_def newpair_def)
  then have d1: "map_all P d1" using assms(1) by (simp add: map_all_def d1_def)
  have g: "get_map_lvalue H d k c = (case map_find H d k of Some p \<Rightarrow> Inr (d, Slot k) | None \<Rightarrow>
      (if c then (if m_card d1 > m_mcard d1 then (case rehash_map d1 of Inl m2 \<Rightarrow> Inl m2 | Inr m2 \<Rightarrow> Inr (m2, Slot k)) else Inr (d1, Slot k))
       else Inr (d, Dummy)))"
    unfolding get_map_lvalue_def Let_def d1_def ..
  show "get_map_lvalue H d k c = Inl d' \<Longrightarrow> map_all P d'" "get_map_lvalue H d k c = Inr (d', l) \<Longrightarrow> map_all P d'"
    unfolding g using assms(1) d1 rehash_all [OF d1] by (auto split: option.splits if_splits sum.splits)
qed

lemma assign_chain_all: "\<forall>p\<in>set ps. P (p_arg p) \<and> P (p_val p) \<Longrightarrow> P v \<Longrightarrow> \<forall>p\<in>set (assign_chain H k v ps). P (p_arg p) \<and> P (p_val p)"
  by (induction ps) auto

lemma assign_lval_all:
  assumes "map_all P d" "P v"
  shows "map_all P (assign_lval H d l v)"
proof (cases l)
  case (Slot k)
  have c: "\<forall>p\<in>set (assign_chain H k v c). P (p_arg p) \<and> P (p_val p)" if "\<forall>p\<in>set c. P (p_arg p) \<and> P (p_val p)" for c
    using that assms(2) by (rule assign_chain_all)
  have "\<forall>c\<in>set ((m_pairs d)[h := assign_chain H k v (m_pairs d ! h)]). \<forall>p\<in>set c. P (p_arg p) \<and> P (p_val p)" for h
    using conjunct2 [OF assms(1) [unfolded map_all_def]] by (rule pairs_update) (rule c)
  then show ?thesis using assms(1) by (simp add: Slot assign_lval_def Let_def map_all_def)
qed (use assms in \<open>simp add: assign_lval_def\<close>)

lemma map_put_all:
  assumes "map_all P d" "P k" "P v" "P const0"
  shows "map_put H d k v = Inl d' \<Longrightarrow> map_all P d'" "map_put H d k v = Inr d' \<Longrightarrow> map_all P d'"
  using assms get_map_lvalue_all [OF assms(1,2,4), of H True] assign_lval_all [of P _ v H]
  by (auto simp: map_put_def split: sum.splits)

lemma map_puts_maintain:
  assumes "P const0"
  shows "map_all P d \<Longrightarrow> \<forall>(k, v)\<in>set kvs. P k \<and> P v \<Longrightarrow> (case map_puts H d kvs of Inl d' \<Rightarrow> map_all P d' | Inr d' \<Rightarrow> map_all P d')"
proof (induction kvs arbitrary: d)
  case (Cons kv kvs)
  then have kv: "P (fst kv)" "P (snd kv)" by auto
  note p = map_put_all [OF Cons.prems(1) kv assms, of H]
  show ?case
  proof (cases "map_put H d (fst kv) (snd kv)")
    case (Inl d')
    with p(1) show ?thesis by simp
  next
    case (Inr d')
    with p(2) Cons show ?thesis by simp
  qed
qed simp

lemma map_items_all: "map_all P d \<Longrightarrow> \<forall>(k, v)\<in>set (map_items d). P k \<and> P v"
  by (auto simp: map_items_def map_all_def dest!: in_set_takeD)

lemma allocate_map_all: "map_all P (allocate_map n)"
  using allocate_shape [of n] by (simp add: map_all_def) (simp add: allocate_map_def Let_def)

lemma add_mapping_all:
  assumes "map_all P c" "map_all P d" "P const0" "add_mapping H c d = Inr r"
  shows "map_all P r"
proof -
  from assms(4) obtain r1 where r1: "map_puts H (allocate_map (m_card c + m_card d)) (map_items c) = Inr r1"
    and r: "map_puts H r1 (map_items d) = Inr r" by (auto simp: add_mapping_def split: sum.splits)
  have "map_all P r1"
    using map_puts_maintain [OF assms(3) allocate_map_all map_items_all [OF assms(1)], of H "m_card c + m_card d"] r1 by simp
  then show ?thesis using map_puts_maintain [OF assms(3) _ map_items_all [OF assms(2)], of r1 H] r by simp
qed

lemma addto_mapping_all:
  assumes "map_all P c" "map_all P d" "P const0"
  shows "addto_mapping H c d = Inl r \<Longrightarrow> map_all P r" "addto_mapping H c d = Inr r \<Longrightarrow> map_all P r"
  using map_puts_maintain [OF assms(3,1) map_items_all [OF assms(2)], of H]
  by (simp_all add: addto_mapping_def)

lemma clean_map_all: "map_all P d \<Longrightarrow> P const0 \<Longrightarrow> map_all P (clean_map H d)"
  by (auto simp: map_all_def clean_map_def Let_def fetched_def map_shape_def)

text \<open>Arrays.\<close>

lemma array_store_set: "array_store d k xs = Inr w \<Longrightarrow> set w \<subseteq> set d \<union> set xs"
  unfolding array_store_def mem_write_def
  by (cases "k + length xs \<le> length d") (auto dest: in_set_takeD in_set_dropD)

lemma allocate_set: "allocate_array n = Inr d \<Longrightarrow> set d \<subseteq> {const0}"
  by (auto simp: allocate_array_def split: if_splits)

lemma ebind_Inr: "ebind r f = Inr x \<longleftrightarrow> (\<exists>y. r = Inr y \<and> f y = Inr x)"
  by (cases r) (auto simp: ebind_def)

lemma flagged_set: "set (flagged fs xs) \<subseteq> set xs"
  by (auto simp: flagged_def dest: set_zip_rightD)

lemma add_array_set: "add_array u v = Inr w \<Longrightarrow> set w \<subseteq> insert const0 (set u \<union> set v)"
  unfolding add_array_def ebind_Inr by (blast dest: allocate_set array_store_set)

lemma slice_array_set: "slice_array u i j = Inr w \<Longrightarrow> set w \<subseteq> insert const0 (set u)"
proof -
  assume a: "slice_array u i j = Inr w"
  define lo where "lo = (let f = (if i < 0 then int (length u) + i else i) in if f < 0 then 0 else f)"
  define hi where "hi = (let t = (if j < 0 then int (length u) + j else j) in if t \<ge> int (length u) then int (length u) - 1 else t)"
  have f: "0 \<le> lo" "hi < int (length u)" by (auto simp: lo_def hi_def Let_def)
  have "slice_array u i j = (if lo \<ge> int (length u) \<or> hi < lo then allocate_array 0
      else ebind (allocate_array (hi - lo + 1)) (\<lambda>d. array_store d 0 (map (\<lambda>cnt. u ! nat cnt) [lo..hi])))"
    by (auto simp: slice_array_def lo_def hi_def Let_def)
  with a have "w \<in> {w. set w \<subseteq> {const0}} \<or>
      (\<exists>d. allocate_array (hi - lo + 1) = Inr d \<and> array_store d 0 (map (\<lambda>cnt. u ! nat cnt) [lo..hi]) = Inr w)"
    by (auto simp: ebind_Inr split: if_splits dest: allocate_set)
  moreover have "set (map (\<lambda>cnt. u ! nat cnt) [lo..hi]) \<subseteq> set u" using f by auto
  ultimately show ?thesis by (blast dest: allocate_set array_store_set)
qed

lemma set_manipulate_set: "set_manipulate_array H u v op = Inr w \<Longrightarrow> set w \<subseteq> insert const0 (set u)"
  using flagged_set by (auto simp: set_manipulate_array_def ebind_Inr Let_def split: if_splits setarr.splits
    dest!: allocate_set array_store_set) blast+

lemma union_array_set: "union_array H u v = Inr w \<Longrightarrow> set w \<subseteq> insert const0 (set u \<union> set v)"
  using flagged_set by (auto simp: union_array_def ebind_Inr Let_def split: if_splits dest!: allocate_set array_store_set) blast

section \<open>Operators keep values well formed\<close>

text \<open>A pointer points to something, and so do all values it leads to; a float is in range.\<close>

definition val_ok :: "lpc_heap \<Rightarrow> sval \<Rightarrow> bool" where
  "val_ok h v \<longleftrightarrow>
     (case v of T_FLOAT r \<Rightarrow> fl_ok r | T_POINTER a \<Rightarrow> h_vec h a \<noteq> None | T_MAPPING a \<Rightarrow> h_map h a \<noteq> None | _ \<Rightarrow> True)"

definition heap_ok :: "lpc_heap \<Rightarrow> bool" where
  "heap_ok h \<longleftrightarrow> h_vec h null_vector \<noteq> None \<and>
     (\<forall>a v. h_vec h a = Some v \<longrightarrow> list_all (val_ok h) v) \<and> (\<forall>a d. h_map h a = Some d \<longrightarrow> map_all (val_ok h) d)"

definition grows :: "lpc_heap \<Rightarrow> lpc_heap \<Rightarrow> bool" where
  "grows h h' \<longleftrightarrow> dom (h_vec h) \<subseteq> dom (h_vec h') \<and> dom (h_map h) \<subseteq> dom (h_map h')"

text \<open>
  What an operator may do: raise an error other than a crash and keep the stack, but for an index that is popped, or replace its
  operands by one good value.
\<close>

definition sound :: "'a interp_scheme \<Rightarrow> slot list \<Rightarrow> 'a result \<Rightarrow> bool" where
  "sound m st r \<longleftrightarrow>
     (case r of
        Inl (e, m') \<Rightarrow> e \<noteq> Crash \<and> stk m' = (if e = Index_out_of_bounds then tl (stk m) else stk m) \<and>
          heap_ok (heap m') \<and> grows (heap m) (heap m')
      | Inr m' \<Rightarrow> heap_ok (heap m') \<and> grows (heap m) (heap m') \<and> (\<exists>v. stk m' = V v # st \<and> val_ok (heap m') v))"

lemma grows_refl [simp]: "grows h h" by (simp add: grows_def)

lemma grows_trans: "grows h h1 \<Longrightarrow> grows h1 h2 \<Longrightarrow> grows h h2" unfolding grows_def by (blast intro: subset_trans)

lemma val_ok_grows: "grows h h' \<Longrightarrow> val_ok h v \<Longrightarrow> val_ok h' v"
  by (auto simp: grows_def val_ok_def dom_def subset_eq split: sval.splits)

lemma val_ok_const [simp]: "val_ok h const0" "val_ok h const1" "val_ok h (T_NUMBER n)" "val_ok h (T_STRING s)" "val_ok h (truth b)"
  by (simp_all add: val_ok_def const0_def const1_def truth_def)

lemma map_all_mono: "map_all P d \<Longrightarrow> (\<And>v. P v \<Longrightarrow> Q v) \<Longrightarrow> map_all Q d"
  by (auto simp: map_all_def)

lemma heap_ok_vec:
  assumes "heap_ok h" "list_all (val_ok h) v"
  shows "heap_ok (h\<lparr>h_vec := (h_vec h)(a \<mapsto> v)\<rparr>)" "grows h (h\<lparr>h_vec := (h_vec h)(a \<mapsto> v)\<rparr>)"
proof -
  show g: "grows h (h\<lparr>h_vec := (h_vec h)(a \<mapsto> v)\<rparr>)" by (auto simp: grows_def)
  have "list_all (val_ok (h\<lparr>h_vec := (h_vec h)(a \<mapsto> v)\<rparr>)) u" if "list_all (val_ok h) u" for u
    using that val_ok_grows [OF g] by (auto simp: list_all_iff)
  moreover have "map_all (val_ok (h\<lparr>h_vec := (h_vec h)(a \<mapsto> v)\<rparr>)) d" if "map_all (val_ok h) d" for d
    using that val_ok_grows [OF g] by (rule map_all_mono)
  ultimately show "heap_ok (h\<lparr>h_vec := (h_vec h)(a \<mapsto> v)\<rparr>)"
    using assms by (auto simp: heap_ok_def)
qed

lemma heap_ok_map:
  assumes "heap_ok h" "map_all (val_ok h) d"
  shows "heap_ok (h\<lparr>h_map := (h_map h)(a \<mapsto> d)\<rparr>)" "grows h (h\<lparr>h_map := (h_map h)(a \<mapsto> d)\<rparr>)"
proof -
  show g: "grows h (h\<lparr>h_map := (h_map h)(a \<mapsto> d)\<rparr>)" by (auto simp: grows_def)
  have "list_all (val_ok (h\<lparr>h_map := (h_map h)(a \<mapsto> d)\<rparr>)) u" if "list_all (val_ok h) u" for u
    using that val_ok_grows [OF g] by (auto simp: list_all_iff)
  moreover have "map_all (val_ok (h\<lparr>h_map := (h_map h)(a \<mapsto> d)\<rparr>)) c" if "map_all (val_ok h) c" for c
    using that val_ok_grows [OF g] by (rule map_all_mono)
  ultimately show "heap_ok (h\<lparr>h_map := (h_map h)(a \<mapsto> d)\<rparr>)"
    using assms by (auto simp: heap_ok_def)
qed

lemma check_vec_ok:
  assumes "heap_ok h"
  shows "heap_ok (check_vec_destr H a h)" "grows h (check_vec_destr H a h)"
proof (atomize (full), cases "h_vec h a")
  case None
  then have "check_vec_destr H a h = h" by (simp add: check_vec_destr_def fun_upd_idem)
  with assms show "heap_ok (check_vec_destr H a h) \<and> grows h (check_vec_destr H a h)" by simp
next
  case (Some v)
  then have "list_all (val_ok h) (clean_vec H v)" using assms by (auto simp: heap_ok_def clean_vec_def list_all_iff)
  with heap_ok_vec [OF assms this, of a] Some show "heap_ok (check_vec_destr H a h) \<and> grows h (check_vec_destr H a h)"
    by (simp add: check_vec_destr_def)
qed

lemma check_map_ok:
  assumes "heap_ok h"
  shows "heap_ok (check_map_destr H a h)" "grows h (check_map_destr H a h)"
proof (atomize (full), cases "h_map h a")
  case None
  then have "check_map_destr H a h = h" by (simp add: check_map_destr_def fun_upd_idem)
  with assms show "heap_ok (check_map_destr H a h) \<and> grows h (check_map_destr H a h)" by simp
next
  case (Some d)
  then have "map_all (val_ok h) (clean_map H d)" using assms by (auto simp: heap_ok_def intro!: clean_map_all)
  with heap_ok_map [OF assms this, of a] Some show "heap_ok (check_map_destr H a h) \<and> grows h (check_map_destr H a h)"
    by (simp add: check_map_destr_def)
qed

lemma sound_grows:
  "sound m1 st r \<Longrightarrow> stk m1 = stk m \<Longrightarrow> grows (heap m) (heap m1) \<Longrightarrow> sound m st r"
  by (auto simp: sound_def intro: grows_trans split: sum.splits)

lemma answer_sound:
  assumes "heap_ok (heap m)" "r \<notin> Inl ` {Crash, Index_out_of_bounds}" "\<And>v. r = Inr v \<Longrightarrow> val_ok (heap m) v"
  shows "sound m st (answer m st r)"
  using assms by (cases r) (simp_all add: sound_def answer_def)

lemma numbers2_sound:
  assumes "heap_ok (heap m)" "\<And>a b. x = V (T_NUMBER a) \<Longrightarrow> y = V (T_NUMBER b) \<Longrightarrow> f a b \<notin> Inl ` {Crash, Index_out_of_bounds}"
  shows "sound m st (numbers2 m x y st f)"
proof (cases "\<exists>a b. x = V (T_NUMBER a) \<and> y = V (T_NUMBER b)")
  case True
  then obtain a b where ab: "x = V (T_NUMBER a)" "y = V (T_NUMBER b)" by blast
  have "sound m st (answer m st (map_sum id T_NUMBER (f a b)))"
    using assms(1) assms(2) [OF ab] by (cases "f a b") (auto intro!: answer_sound)
  with ab show ?thesis by (simp add: numbers2_def as_num_def)
next
  case False
  then show ?thesis using assms(1) by (auto simp: numbers2_def sound_def as_num_def split: option.splits slot.splits sval.splits)
qed

lemma floats2_sound:
  assumes "heap_ok (heap m)" "sound m st other"
    "\<And>a b. x = V (T_FLOAT a) \<Longrightarrow> y = V (T_FLOAT b) \<Longrightarrow> f a b \<notin> Inl ` {Crash, Index_out_of_bounds} \<and> (\<forall>v. f a b = Inr v \<longrightarrow> val_ok (heap m) v)"
  shows "sound m st (floats2 m x y st f other)"
proof (cases "\<exists>a b. x = V (T_FLOAT a) \<and> y = V (T_FLOAT b)")
  case True
  then obtain a b where "x = V (T_FLOAT a)" "y = V (T_FLOAT b)" by blast
  with assms(1,3) show ?thesis by (simp add: floats2_def as_flt_def answer_sound)
next
  case False
  then have "floats2 m x y st f other = other" by (auto simp: floats2_def as_flt_def split: slot.splits sval.splits)
  with assms(2) show ?thesis by simp
qed

lemma float_op_no_crash: "FLOATASGOP op a b \<notin> Inl ` {Crash, Index_out_of_bounds}"
  by (cases op) (auto simp: FLOATASGOP_def float_result_def Let_def)

lemma float_case_ok:
  assumes "\<And>x. g a b = Inr x \<Longrightarrow> fl_ok x" "g a b \<notin> Inl ` {Crash, Index_out_of_bounds}"
  shows "map_sum id T_FLOAT (g a b) \<notin> Inl ` {Crash, Index_out_of_bounds} \<and> (\<forall>v. map_sum id T_FLOAT (g a b) = Inr v \<longrightarrow> val_ok h v)"
  using assms by (cases "g a b") (auto simp: val_ok_def)

lemma float_op_sound:
  assumes "heap_ok (heap m)" "sound m st other" "val_ok (heap m) v" "val_ok (heap m) w"
  shows "sound m st (floats2 m (V v) (V w) st (\<lambda>a b. map_sum id T_FLOAT (FLOATASGOP op a b)) other)"
    "sound m st (floats2 m (V v) (V w) st (\<lambda>a b. map_sum id T_FLOAT (float_div a b)) other)"
proof -
  show "sound m st (floats2 m (V v) (V w) st (\<lambda>a b. map_sum id T_FLOAT (FLOATASGOP op a b)) other)"
  proof (rule floats2_sound [OF assms(1,2)], rule float_case_ok)
    fix a b x assume "V v = V (T_FLOAT a)" "V w = V (T_FLOAT b)" "FLOATASGOP op a b = Inr x"
    with assms(3,4) show "fl_ok x" using float_op_ok [of a b op x] by (simp add: val_ok_def)
  qed (rule float_op_no_crash)
  show "sound m st (floats2 m (V v) (V w) st (\<lambda>a b. map_sum id T_FLOAT (float_div a b)) other)"
  proof (rule floats2_sound [OF assms(1,2)], rule float_case_ok)
    fix a b x assume "V v = V (T_FLOAT a)" "V w = V (T_FLOAT b)" "float_div a b = Inr x"
    with assms(3,4) show "fl_ok x" using float_op_ok [of a b FDIV x] by (simp add: val_ok_def float_div_def split: if_splits)
  qed (use float_op_no_crash in \<open>auto simp: float_div_def\<close>)
qed

lemma vec_answer_sound:
  assumes "heap_ok (heap m)" "\<And>v. r = Inr v \<Longrightarrow> list_all (val_ok (heap m)) v"
  shows "sound m st (vec_answer E m st r)"
proof (cases r)
  case (Inl e)
  with assms(1) show ?thesis by (simp add: vec_answer_def sound_def)
next
  case (Inr v)
  show ?thesis
  proof (cases "v = []")
    case True
    with Inr assms(1) show ?thesis by (simp add: vec_answer_def sound_def put_vec_def val_ok_def heap_ok_def)
  next
    case False
    with Inr heap_ok_vec [OF assms(1) assms(2) [OF Inr], of "e_alloc E (heap m)"] show ?thesis
      by (simp add: vec_answer_def sound_def put_vec_def val_ok_def Let_def)
  qed
qed

lemma with_vecs_sound:
  assumes "heap_ok (heap m)" "val_ok (heap m) (T_POINTER a)" "val_ok (heap m) (T_POINTER b)"
    "\<And>u v. list_all (val_ok (heap m)) u \<Longrightarrow> list_all (val_ok (heap m)) v \<Longrightarrow> sound m st (f u v)"
  shows "sound m st (with_vecs m a b f)"
  using assms by (auto simp: with_vecs_def val_ok_def heap_ok_def)

lemma vec_elems_ok:
  assumes "list_all (val_ok h) u"
  shows "set_manipulate_array H u v op = Inr w \<Longrightarrow> list_all (val_ok h) w" "slice_array u i j = Inr w \<Longrightarrow> list_all (val_ok h) w"
    "list_all (val_ok h) v \<Longrightarrow> union_array H u v = Inr w \<Longrightarrow> list_all (val_ok h) w"
    "list_all (val_ok h) v \<Longrightarrow> add_array u v = Inr w \<Longrightarrow> list_all (val_ok h) w"
  using assms by (auto simp: list_all_iff dest!: set_manipulate_set slice_array_set union_array_set add_array_set)

lemma vec_op_sound:
  assumes "heap_ok (heap m)" "val_ok (heap m) (T_POINTER a)" "val_ok (heap m) (T_POINTER b)"
  shows "sound m st (vec_subtract E m st a b)" "sound m st (vec_intersect E m st a b)" "sound m st (vec_union E m st a b)"
    "sound m st (with_vecs m a b (\<lambda>u v. vec_answer E m st (add_array u v)))"
proof -
  have p: "sound m st (Inr (m\<lparr>stk := V (T_POINTER c) # st\<rparr>))" if "val_ok (heap m) (T_POINTER c)" for c
    using assms(1) that by (simp add: sound_def)
  show "sound m st (vec_subtract E m st a b)" unfolding vec_subtract_def subtract_array_def
    using p [OF assms(2)]
    by (intro with_vecs_sound [OF assms]) (auto intro!: vec_answer_sound [OF assms(1)] dest: vec_elems_ok(1))
  show "sound m st (vec_intersect E m st a b)" unfolding vec_intersect_def intersect_array_def
    by (intro with_vecs_sound [OF assms] vec_answer_sound [OF assms(1)]) (auto dest: vec_elems_ok(1))
  show "sound m st (vec_union E m st a b)" unfolding vec_union_def
    using p [OF assms(2)] p [OF assms(3)]
    by (intro with_vecs_sound [OF assms]) (auto intro!: vec_answer_sound [OF assms(1)] dest: vec_elems_ok(3))
  show "sound m st (with_vecs m a b (\<lambda>u v. vec_answer E m st (add_array u v)))"
    by (intro with_vecs_sound [OF assms] vec_answer_sound [OF assms(1)]) (auto dest: vec_elems_ok(4))
qed

lemma cleaned:
  fixes H a b
  assumes "heap_ok (heap m)" "val_ok (heap m) v" "val_ok (heap m) w"
  defines "m1 \<equiv> m\<lparr>heap := check_vec_destr H b (check_vec_destr H a (heap m))\<rparr>"
  shows "heap_ok (heap m1)" "grows (heap m) (heap m1)" "stk m1 = stk m" "val_ok (heap m1) v" "val_ok (heap m1) w"
proof -
  have h: "heap_ok (heap m1)" "grows (heap m) (heap m1)"
    unfolding m1_def using check_vec_ok [OF assms(1), of H a] check_vec_ok [OF check_vec_ok(1) [OF assms(1), of H a], of H b]
    by (simp_all add: grows_trans)
  then show "heap_ok (heap m1)" "grows (heap m) (heap m1)" "stk m1 = stk m" "val_ok (heap m1) v" "val_ok (heap m1) w"
    using assms(2,3) val_ok_grows by (auto simp: m1_def)
qed

definition binary_ops :: "save_env \<Rightarrow> (nat \<Rightarrow> bool) \<Rightarrow> ('a interp_scheme \<Rightarrow> 'a result) list" where
  "binary_ops E sole =
     [f_add E, f_subtract E, f_and E, f_or E, f_xor, f_multiply, f_divide, f_mod,
      f_gt, f_ge, f_lt, f_le, f_eq (e_objs E), f_ne (e_objs E), f_index E sole]"

definition unary_ops :: "save_env \<Rightarrow> ('a interp_scheme \<Rightarrow> 'a result) list" where
  "unary_ops E = [f_not (e_objs E), f_compl, f_negate]"

lemma as_simps [simp]:
  "as_num (V (T_NUMBER n)) = Some n" "as_str (V (T_STRING s)) = Some s" "as_flt (V (T_FLOAT r)) = Some r"
  "as_ptr (V (T_POINTER a)) = Some a" "as_map (V (T_MAPPING a)) = Some a" "as_lv (LV l) = Some l" "as_lv (V v) = None"
  "as_num (LV l) = None" "as_str (LV l) = None" "as_flt (LV l) = None" "as_ptr (LV l) = None" "as_map (LV l) = None"
  by (simp_all add: as_num_def as_str_def as_flt_def as_ptr_def as_map_def as_lv_def)

lemma as_Some:
  "as_num x = Some n \<longleftrightarrow> x = V (T_NUMBER n)" "as_str x = Some s \<longleftrightarrow> x = V (T_STRING s)" "as_flt x = Some r \<longleftrightarrow> x = V (T_FLOAT r)"
  "as_ptr x = Some a \<longleftrightarrow> x = V (T_POINTER a)" "as_map x = Some a \<longleftrightarrow> x = V (T_MAPPING a)" "as_lv x = Some l \<longleftrightarrow> x = LV l"
  by (auto simp: as_num_def as_str_def as_flt_def as_ptr_def as_map_def as_lv_def split: slot.splits sval.splits)

lemma with2_Cons: "stk m = y # x # st \<Longrightarrow> with2 m f = f x y st"
  by (simp add: with2_def)

lemma error_sound: "heap_ok (heap m) \<Longrightarrow> e \<noteq> Crash \<Longrightarrow> e \<noteq> Index_out_of_bounds \<Longrightarrow> sound m st (Inl (e, m))"
  by (simp add: sound_def)

lemma index_error_sound: "heap_ok (heap m) \<Longrightarrow> stk m = i # v # st \<Longrightarrow> sound m st (Inl (Index_out_of_bounds, m\<lparr>stk := v # st\<rparr>))"
  by (simp add: sound_def)

lemma value_sound: "heap_ok (heap m) \<Longrightarrow> val_ok (heap m) v \<Longrightarrow> sound m st (answer m st (Inr v))"
  by (rule answer_sound) simp_all

lemma vec_add_sound:
  assumes "heap_ok (heap m)" "val_ok (heap m) (T_POINTER a)" "val_ok (heap m) (T_POINTER b)"
  shows "sound m st (vec_add E m st a b)"
proof -
  let ?m1 = "m\<lparr>heap := check_vec_destr (e_objs E) b (check_vec_destr (e_objs E) a (heap m))\<rparr>"
  note c = cleaned [OF assms, of "e_objs E" b a]
  have "sound ?m1 st (with_vecs ?m1 a b (\<lambda>u v. vec_answer E ?m1 st (add_array u v)))"
    using c by (intro vec_op_sound) simp_all
  then show ?thesis using c unfolding vec_add_def Let_def by (auto intro: sound_grows)
qed

lemma map_add_sound:
  assumes h: "heap_ok (heap m)" and ab: "val_ok (heap m) (T_MAPPING a)" "val_ok (heap m) (T_MAPPING b)"
  shows "sound m st (map_add E m st a b)"
proof -
  let ?h1 = "check_map_destr (e_objs E) a (heap m)" and ?h2 = "check_map_destr (e_objs E) b (check_map_destr (e_objs E) a (heap m))"
  let ?m1 = "m\<lparr>heap := ?h2\<rparr>"
  have h1: "heap_ok ?h1" "grows (heap m) ?h1" using check_map_ok [OF h] by auto
  then have h2: "heap_ok ?h2" "grows (heap m) ?h2" using check_map_ok [OF h1(1)] grows_trans by blast+
  have "val_ok ?h2 (T_MAPPING a)" "val_ok ?h2 (T_MAPPING b)" using ab val_ok_grows [OF h2(2)] by blast+
  then obtain c d where cd: "h_map ?h2 a = Some c" "h_map ?h2 b = Some d" by (auto simp: val_ok_def)
  then have ok: "map_all (val_ok ?h2) c" "map_all (val_ok ?h2) d" using h2(1) by (auto simp: heap_ok_def)
  have "sound ?m1 st (map_add E m st a b)"
  proof (cases "add_mapping (e_objs E) c d")
    case (Inl e)
    with cd h2(1) show ?thesis by (simp add: map_add_def error_sound)
  next
    case (Inr r)
    then have "map_all (val_ok ?h2) r" using add_mapping_all [OF ok] by simp
    from heap_ok_map [OF h2(1) this, of "e_alloc E ?h2"] Inr cd show ?thesis
      by (simp add: map_add_def put_map_def Let_def sound_def val_ok_def)
  qed
  then show ?thesis using h2(2) by (auto intro: sound_grows)
qed

lemma f_add_sound:
  assumes h: "heap_ok (heap m)" and st: "stk m = V w # V v # st" and v: "val_ok (heap m) v" "val_ok (heap m) w"
  shows "sound m st (f_add E m)"
proof -
  have o: "sound m st (case (as_ptr (V v), as_ptr (V w)) of (Some a, Some b) \<Rightarrow> vec_add E m st a b | _ \<Rightarrow>
     case (as_map (V v), as_map (V w)) of (Some a, Some b) \<Rightarrow> map_add E m st a b | _ \<Rightarrow> Inl (Bad_type, m))" (is "sound m st ?o")
    using h v by (auto simp: as_Some intro!: vec_add_sound map_add_sound error_sound split: option.splits)
  have "sound m st (floats2 m (V v) (V w) st (\<lambda>a b. map_sum id T_FLOAT (FLOATASGOP FADD a b)) ?o)"
    by (rule float_op_sound(1) [OF h o v])
  then show ?thesis
    unfolding f_add_def with2_Cons [OF st] using h
    by (auto split: option.splits intro!: answer_sound)
qed

lemma number_sound:
  assumes "heap_ok (heap m)" "stk m = V w # V v # st"
  shows "sound m st (f_xor m)" "sound m st (f_mod m)"
  unfolding f_xor_def f_mod_def with2_Cons [OF assms(2)]
  using assms(1) by (auto intro!: numbers2_sound simp: int_mod_def split: if_splits)

lemma shift_sound:
  assumes "heap_ok (heap m)" "stk m = V w # V v # st" "\<And>n. w = T_NUMBER n \<Longrightarrow> unat n < 32"
  shows "sound m st (f_lsh m)" "sound m st (f_rsh m)"
  unfolding f_lsh_def f_rsh_def with2_Cons [OF assms(2)]
  using assms(1,3) by (auto intro!: numbers2_sound simp: shifted_def)

lemma arith_sound:
  assumes "heap_ok (heap m)" "stk m = V w # V v # st" "val_ok (heap m) v" "val_ok (heap m) w"
  shows "sound m st (f_multiply m)" "sound m st (f_divide m)"
  unfolding f_multiply_def f_divide_def with2_Cons [OF assms(2)]
  using assms(1) by (auto intro!: float_op_sound [OF assms(1) _ assms(3,4)] numbers2_sound simp: int_div_def split: if_splits)

lemma f_subtract_sound:
  assumes h: "heap_ok (heap m)" and st: "stk m = V w # V v # st" and v: "val_ok (heap m) v" "val_ok (heap m) w"
  shows "sound m st (f_subtract E m)"
proof -
  have n: "sound m st (floats2 m (V v) (V w) st (\<lambda>a b. map_sum id T_FLOAT (FLOATASGOP FSUB a b)) (numbers2 m (V v) (V w) st (\<lambda>a b. Inr (a - b))))"
    using h by (intro float_op_sound(1) [OF h _ v] numbers2_sound) simp_all
  have s: "sound m st (vec_subtract E (m\<lparr>heap := check_vec_destr (e_objs E) b (check_vec_destr (e_objs E) a (heap m))\<rparr>) st a b)"
    if ab: "v = T_POINTER a" "w = T_POINTER b" for a b
  proof -
    note c = cleaned [OF h v, of "e_objs E" b a]
    show ?thesis by (rule sound_grows [OF vec_op_sound(1)]) (use c ab in simp_all)
  qed
  show ?thesis unfolding f_subtract_def with2_Cons [OF st] using n s by (auto simp: as_Some split: option.splits)
qed

lemma set_ops_sound:
  assumes h: "heap_ok (heap m)" and st: "stk m = V w # V v # st" and v: "val_ok (heap m) v" "val_ok (heap m) w"
  shows "sound m st (f_and E m)" "sound m st (f_or E m)"
proof -
  have n: "sound m st (numbers2 m (V v) (V w) st (\<lambda>a b. Inr (a AND b)))" "sound m st (numbers2 m (V v) (V w) st (\<lambda>a b. Inr (a OR b)))"
    using h by (auto intro!: numbers2_sound)
  show "sound m st (f_and E m)" unfolding f_and_def with2_Cons [OF st]
    using n h v by (auto simp: as_Some split: option.splits intro!: vec_op_sound(2))
  show "sound m st (f_or E m)" unfolding f_or_def with2_Cons [OF st]
    using n h v by (auto simp: as_Some split: option.splits intro!: vec_op_sound(3))
qed

lemma compare_sound:
  assumes h: "heap_ok (heap m)" and st: "stk m = V w # V v # st" and v: "val_ok (heap m) v" "val_ok (heap m) w"
  shows "sound m st (compare p q r m)"
proof -
  have "sound m st (floats2 m (V v) (V w) st (\<lambda>a b. Inr (truth (q a b)))
              (numbers2 m (V v) (V w) st (\<lambda>a b. Inr (if r (sint a) (sint b) then 1 else 0))))"
    using h by (intro floats2_sound numbers2_sound) auto
  then show ?thesis unfolding compare_def with2_Cons [OF st]
    using h by (auto split: option.splits intro!: answer_sound)
qed

lemma fetched_ok: "val_ok h v \<Longrightarrow> val_ok h (fetched H v)"
  by (simp add: fetched_def)

lemma read_lval_ok: "map_all (val_ok h) d \<Longrightarrow> val_ok h (read_lval H d l)"
proof (cases l)
  case (Slot k)
  assume d: "map_all (val_ok h) d"
  then have "m_pairs d ! map_slot (hashsvalue k) (m_size d) \<in> set (m_pairs d)" by (simp add: map_all_def shape_slot)
  then have "val_ok h (p_val p)" if "map_find H d k = Some p" for p
    using d that by (fastforce simp: map_all_def map_find_def map_chain_def find_Some_iff)
  then show ?thesis by (simp add: read_lval_def Slot split: option.splits)
qed (simp add: read_lval_def)

lemma index_sound:
  assumes h: "heap_ok (heap m)" and st: "stk m = V w # V v # st" and v: "val_ok (heap m) v" "val_ok (heap m) w"
  shows "sound m st (f_index E sole m)"
proof -
  have g: "get_map_lvalue (e_objs E) d k False = Inr (d, l)" if "l = (case map_find (e_objs E) d k of Some p \<Rightarrow> Slot k | None \<Rightarrow> Dummy)" for d k l
    using that by (simp add: get_map_lvalue_def Let_def split: option.splits)
  have r: "sound m st (f_indirect (e_objs E) m1)"
    if "stk m1 = LV l # st" "read_lv (e_objs E) l m1 = Some x" "val_ok (heap m) x" "heap m1 = heap m" for m1 l x
    using that h fetched_ok [of "heap m" x "e_objs E"] by (simp add: f_indirect_def with1_def sound_def answer_def)
  show ?thesis
  proof (cases v)
    case (T_MAPPING a)
    then obtain d where d: "h_map (heap m) a = Some d" using v(1) by (auto simp: val_ok_def)
    then have "val_ok (heap m) (read_lval (e_objs E) d l)" for l using h by (intro read_lval_ok) (simp add: heap_ok_def)
    with T_MAPPING d g [OF refl, of d w] show ?thesis
      by (auto simp: f_index_def push_indexed_lvalue_def with2_Cons [OF st] Let_def ebind_def fun_upd_idem read_lv_def
          intro!: r)
  next
    case (T_POINTER a)
    then obtain u where u: "h_vec (heap m) a = Some u" using v(1) by (auto simp: val_ok_def)
    then have "list_all (val_ok (heap m)) u" using h by (simp add: heap_ok_def)
    then have "val_ok (heap m) (u ! i)" if "i < length u" for i using that by (simp add: list_all_length)
    with T_POINTER u h show ?thesis
      by (auto simp: f_index_def push_indexed_lvalue_def with2_Cons [OF st] as_map_def as_str_def ebind_def read_lv_def
          intro!: r error_sound index_error_sound [OF h st [unfolded T_POINTER]] split: option.splits)
  next
    case (T_STRING s)
    with h show ?thesis
      by (auto simp: f_index_def push_indexed_lvalue_def with2_Cons [OF st] as_map_def ebind_def read_lv_def index_string_def
          intro!: r error_sound split: option.splits)
  qed (use h in \<open>auto simp: f_index_def push_indexed_lvalue_def with2_Cons [OF st] as_map_def as_str_def as_ptr_def ebind_def
      intro!: error_sound split: option.splits\<close>)
qed
lemma range_sound:
  assumes h: "heap_ok (heap m)" and st: "stk m = V c # V b # V a # st" and v: "val_ok (heap m) a"
  shows "sound m st (f_range E m)"
proof (cases "as_num (V b)"; cases "as_num (V c)")
  fix i j assume ij: "as_num (V b) = Some i" "as_num (V c) = Some j"
  show ?thesis
  proof (cases a)
    case (T_POINTER p)
    then obtain u where u: "h_vec (heap m) p = Some u" using v by (auto simp: val_ok_def)
    then have "list_all (val_ok (heap m)) u" using h by (simp add: heap_ok_def)
    then have "sound m st (vec_answer E m st (slice_array u (sint i) (sint j)))"
      using vec_elems_ok(2) by (intro vec_answer_sound [OF h]) blast
    with ij T_POINTER u show ?thesis by (simp add: f_range_def with3_def st)
  qed (use h ij in \<open>auto simp: f_range_def with3_def st as_str_def as_ptr_def intro!: answer_sound error_sound\<close>)
qed (use h in \<open>auto simp: f_range_def with3_def st intro!: error_sound\<close>)

lemma unary_sound:
  assumes h: "heap_ok (heap m)" and st: "stk m = V v # st" and v: "val_ok (heap m) v"
  shows "sound m st (f_not H m)" "sound m st (f_compl m)" "sound m st (f_negate m)"
proof -
  show "sound m st (f_not H m)" using h by (simp add: f_not_def with1_def st value_sound)
  show "sound m st (f_compl m)" using h by (auto simp: f_compl_def with1_def st value_sound error_sound split: option.splits)
  have "val_ok (heap m) (T_FLOAT (r XOR 0x80000000))" if "v = T_FLOAT r" for r
    using v that fl_ok_negate [of r] by (simp add: val_ok_def)
  then show "sound m st (f_negate m)"
    using h by (auto simp: f_negate_def with1_def st as_Some value_sound error_sound split: option.splits)
qed

lemmas operator_sound =
  f_add_sound f_subtract_sound set_ops_sound number_sound arith_sound compare_sound index_sound

definition demo_interp :: interp where
  "demo_interp = \<lparr>stk = [V (T_NUMBER 1), V (T_NUMBER 0), V (T_POINTER 7)], vars = (\<lambda>_ _. const0),
     heap = \<lparr>h_vec = [0 \<mapsto> [], 7 \<mapsto> [T_FLOAT 0x3F800000, T_NUMBER 5]], h_map = Map.empty\<rparr>,
     one_character = const0, quick_vec = const0, quick_map = const0\<rparr>"

lemma demo_interp_ok: "heap_ok (heap demo_interp)" "val_ok (heap demo_interp) (T_POINTER 7)"
proof -
  have "fl_ok 0x3F800000" by (simp add: fl_ok_def fbits_def FLT_MIN_def FLT_MAX_def)
  then show "heap_ok (heap demo_interp)" "val_ok (heap demo_interp) (T_POINTER 7)"
    by (auto simp: heap_ok_def demo_interp_def val_ok_def null_vector_def)
qed

text \<open>C23. Type soundness of the operators.  On a stack of well-formed values no operator reads below the stack, outside of an array
  or through the wrong type of a value: each either raises an error, with the stack as it was, except that \<^emph>\<open>Index out of
  bounds\<close> has popped the index, or puts one well-formed value in the place of its operands.  This holds of the shifts when the count is not
  negative and below 32, which they do not test.  Pointers keep pointing to existing arrays and mappings, and no arithmetic produces an infinite,
  subnormal or undefined float.  Signed addition, subtraction and multiplication are taken to wrap around, as the processor has it,
  although C leaves their overflow undefined.\<close>

theorem operators_typed:
  assumes "heap_ok (heap m)" "stk m = V c # V b # V a # st"
    "val_ok (heap m) a" "val_ok (heap m) b" "val_ok (heap m) c"
  shows "(\<forall>f\<in>set (binary_ops E sole). sound m (V a # st) (f m)) \<and>
    (\<forall>f\<in>{f_lsh, f_rsh}. \<forall>n. c = T_NUMBER n \<and> unat n < 32 \<longrightarrow> sound m (V a # st) (f m)) \<and>
    (\<forall>f\<in>set (unary_ops E). sound m (V b # V a # st) (f m)) \<and> sound m st (f_range E m)"
proof -
  note s = operator_sound [OF assms(1,2)]
  have "sound m (V a # st) (f_eq H m)" "sound m (V a # st) (f_ne H m)" for H
    using assms(1) by (simp_all add: f_eq_def f_ne_def with2_Cons [OF assms(2)] value_sound)
  then have "\<forall>f\<in>set (binary_ops E sole). sound m (V a # st) (f m)"
    using s assms(4,5) by (simp add: binary_ops_def f_gt_def f_ge_def f_lt_def f_le_def)
  moreover have "\<forall>f\<in>set (unary_ops E). sound m (V b # V a # st) (f m)"
    using unary_sound [OF assms(1,2,5)] by (simp add: unary_ops_def)
  moreover have "\<forall>f\<in>{f_lsh, f_rsh}. \<forall>n. c = T_NUMBER n \<and> unat n < 32 \<longrightarrow> sound m (V a # st) (f m)"
    using shift_sound [OF assms(1,2)] by auto
  ultimately show ?thesis using range_sound [OF assms(1-3)] by blast
qed

theorem operators_typed_witness: "sound demo_interp [] (f_range demo_save_env demo_interp)"
  by (rule operators_typed [of demo_interp "T_NUMBER 1" "T_NUMBER 0" "T_POINTER 7" "[]" demo_save_env "\<lambda>_. False", THEN conjunct2, THEN conjunct2, THEN conjunct2])
    (use demo_interp_ok in \<open>simp_all add: demo_interp_def\<close>)

section \<open>Assigning operators\<close>

definition agree :: "'a result \<Rightarrow> 'a result \<Rightarrow> bool" where
  "agree r s \<longleftrightarrow> (\<forall>m. r = Inr m \<longleftrightarrow> s = Inr m)"

lemma agree_ebind: "agree r s \<Longrightarrow> agree (ebind r f) (ebind s f)"
  by (cases r; cases s) (simp_all add: agree_def ebind_def, metis)

lemma heap_stk: "heap (m\<lparr>stk := s\<rparr>) = heap m" "m\<lparr>stk := s\<rparr>\<lparr>heap := h\<rparr> = m\<lparr>heap := h\<rparr>\<lparr>stk := s\<rparr>"
  by simp_all

lemma agree_errors [simp]: "agree (Inl x) (Inl y)" by (simp add: agree_def)
lemma agree_refl [simp]: "agree r r" by (simp add: agree_def)

lemma agree_answer [simp]: "agree (answer m st r) (answer (m\<lparr>stk := s\<rparr>) st r)"
  by (cases r) (simp_all add: answer_def agree_def)

lemma agree_vec_answer: "agree (vec_answer E m st r) (vec_answer E (m\<lparr>stk := s\<rparr>) st r)"
  by (cases r) (simp_all add: vec_answer_def agree_def split: prod.splits)

lemma agree_with_vecs:
  "(\<And>u v. agree (f u v) (g u v)) \<Longrightarrow> agree (with_vecs m a b f) (with_vecs (m\<lparr>stk := s\<rparr>) a b g)"
  by (simp add: with_vecs_def split: option.splits)

lemma agree_vec_ops:
  "agree (vec_add E m st a b) (vec_add E (m\<lparr>stk := s\<rparr>) st a b)"
  "agree (vec_subtract E m st a b) (vec_subtract E (m\<lparr>stk := s\<rparr>) st a b)"
  "agree (vec_union E m st a b) (vec_union E (m\<lparr>stk := s\<rparr>) st a b)"
proof -
  have p: "agree (Inr (m\<lparr>stk := t\<rparr>)) (Inr (m\<lparr>stk := s\<rparr>\<lparr>stk := t\<rparr>))" for m :: "'b interp_scheme" and t by simp
  show "agree (vec_subtract E m st a b) (vec_subtract E (m\<lparr>stk := s\<rparr>) st a b)"
    "agree (vec_union E m st a b) (vec_union E (m\<lparr>stk := s\<rparr>) st a b)"
    unfolding vec_subtract_def vec_union_def by (auto intro!: agree_with_vecs agree_vec_answer)
  show "agree (vec_add E m st a b) (vec_add E (m\<lparr>stk := s\<rparr>) st a b)"
    unfolding vec_add_def Let_def heap_stk by (intro agree_with_vecs agree_vec_answer)
qed

definition assign_ops :: "save_env \<Rightarrow> (('a interp_scheme \<Rightarrow> 'a result) \<times> ('a interp_scheme \<Rightarrow> 'a result)) list" where
  "assign_ops E = (let H = e_objs E in
     [(f_sub_eq E, f_subtract E), (f_or_eq E, f_or E), (f_mult_eq H, f_multiply), (f_div_eq H, f_divide), (f_mod_eq H, f_mod),
      (f_xor_eq H, f_xor), (f_lsh_eq H, f_lsh), (f_rsh_eq H, f_rsh)])"

lemma number_eq_agree: "agree (number_eq m v y st f) (numbers2 (m\<lparr>stk := s\<rparr>) (V v) y st f)"
  by (auto simp: number_eq_def numbers2_def split: option.splits)

lemma floats2_agree:
  "agree r q \<Longrightarrow> agree (floats2 m x y st f r) (floats2 (m\<lparr>stk := s\<rparr>) x y st f q)"
  by (auto simp: floats2_def split: option.splits)

lemma sub_eq_agree:
  assumes st: "stk m = y # LV l # st" and v: "read_lv (e_objs E) l m = Some v"
  shows "agree (f_sub_eq E m) (ebind (f_subtract E (m\<lparr>stk := y # V v # st\<rparr>)) (assign_top (e_objs E) l))"
proof -
  let ?n = "m\<lparr>stk := y # V v # st\<rparr>"
  have s: "with_lv (e_objs E) m f = f l v y st" for f using v by (simp add: with_lv_def with2_Cons [OF st])
  have t: "f_subtract E ?n = (case (as_ptr (V v), as_ptr y) of
      (Some a, Some b) \<Rightarrow> vec_subtract E (?n\<lparr>heap := check_vec_destr (e_objs E) b (check_vec_destr (e_objs E) a (heap m))\<rparr>) st a b
    | _ \<Rightarrow> floats2 ?n (V v) y st (\<lambda>a b. map_sum id T_FLOAT (FLOATASGOP FSUB a b)) (numbers2 ?n (V v) y st (\<lambda>a b. Inr (a - b))))"
    by (simp add: f_subtract_def with2_def heap_stk(1) cong: option.case_cong)
  show ?thesis unfolding f_sub_eq_def s t heap_stk
    by (rule agree_ebind, cases v)
      (auto simp: as_ptr_def as_num_def as_flt_def floats2_def numbers2_def split: option.splits slot.splits sval.splits
         intro: agree_vec_ops)
qed
lemma with_lv_Cons: "stk m = y # LV l # st \<Longrightarrow> read_lv H l m = Some v \<Longrightarrow> with_lv H m f = f l v y st"
  by (simp add: with_lv_def with2_def)

lemma with2_upd: "with2 (m\<lparr>stk := y # x # st\<rparr>) f = f x y st"
  by (simp add: with2_def)

lemma or_eq_agree:
  assumes "stk m = y # LV l # st" "read_lv (e_objs E) l m = Some v"
  shows "agree (f_or_eq E m) (ebind (f_or E (m\<lparr>stk := y # V v # st\<rparr>)) (assign_top (e_objs E) l))"
  unfolding f_or_eq_def f_or_def with_lv_Cons [OF assms] with2_upd
  by (rule agree_ebind) (auto split: option.splits intro: agree_vec_ops number_eq_agree)

lemma number_ops_agree:
  assumes "stk m = y # LV l # st" "read_lv H l m = Some v"
  shows "agree (f_mult_eq H m) (ebind (f_multiply (m\<lparr>stk := y # V v # st\<rparr>)) (assign_top H l))"
    "agree (f_div_eq H m) (ebind (f_divide (m\<lparr>stk := y # V v # st\<rparr>)) (assign_top H l))"
    "agree (f_mod_eq H m) (ebind (f_mod (m\<lparr>stk := y # V v # st\<rparr>)) (assign_top H l))"
    "agree (f_xor_eq H m) (ebind (f_xor (m\<lparr>stk := y # V v # st\<rparr>)) (assign_top H l))"
    "agree (f_lsh_eq H m) (ebind (f_lsh (m\<lparr>stk := y # V v # st\<rparr>)) (assign_top H l))"
    "agree (f_rsh_eq H m) (ebind (f_rsh (m\<lparr>stk := y # V v # st\<rparr>)) (assign_top H l))"
  unfolding f_mult_eq_def f_multiply_def f_div_eq_def f_divide_def f_mod_eq_def f_mod_def f_xor_eq_def f_xor_def
    f_lsh_eq_def f_lsh_def f_rsh_eq_def f_rsh_def with_lv_Cons [OF assms] with2_upd
  by (intro agree_ebind floats2_agree number_eq_agree)+

lemma add_eq_agree:
  assumes "stk m = y # LV l # st" "read_lv (e_objs E) l m = Some v"
    "as_map (V v) = None" "as_num (V v) = None \<or> as_str y = None"
  shows "agree (f_add_eq E m) (ebind (f_add E (m\<lparr>stk := y # V v # st\<rparr>)) (assign_top (e_objs E) l))"
  unfolding f_add_eq_def f_add_def with_lv_Cons [OF assms(1,2)] with2_upd
  using assms(3,4)
  by (intro agree_ebind, cases v)
    (auto simp: as_num_def as_str_def as_flt_def as_ptr_def as_map_def floats2_def add.commute
      split: option.splits slot.splits sval.splits intro: agree_vec_ops)

lemma and_eq_agree:
  assumes "stk m = y # LV l # st" "read_lv (e_objs E) l m = Some v" "as_ptr (V v) = None"
  shows "agree (f_and_eq E m) (ebind (f_and E (m\<lparr>stk := y # V v # st\<rparr>)) (assign_top (e_objs E) l))"
  unfolding f_and_eq_def f_and_def with_lv_Cons [OF assms(1,2)] with2_upd
  using assms(3)
  by (intro agree_ebind, cases v)
    (auto simp: as_num_def as_ptr_def numbers2_def split: option.splits slot.splits sval.splits)

text \<open>A destructed object or a dead function is no operand.\<close>

lemma assign_dead:
  assumes "stk m = y # LV l # st" "read_lv (e_objs E) l m = Some v" "fetched (e_objs E) v \<noteq> v"
  shows "f_add_eq E m \<noteq> Inr m'" "f_sub_eq E m \<noteq> Inr m'" "f_and_eq E m \<noteq> Inr m'" "f_or_eq E m \<noteq> Inr m'"
    "f_mult_eq (e_objs E) m \<noteq> Inr m'" "f_div_eq (e_objs E) m \<noteq> Inr m'" "f_mod_eq (e_objs E) m \<noteq> Inr m'"
    "f_xor_eq (e_objs E) m \<noteq> Inr m'" "f_lsh_eq (e_objs E) m \<noteq> Inr m'" "f_rsh_eq (e_objs E) m \<noteq> Inr m'"
proof -
  have v: "(\<exists>x. v = T_OBJECT x) \<or> (\<exists>x. v = T_FUNCTION x)"
    using assms(3) by (cases v) (auto simp: fetched_def is_destructed_def is_illegal_def)
  then show "f_add_eq E m \<noteq> Inr m'" "f_sub_eq E m \<noteq> Inr m'" "f_and_eq E m \<noteq> Inr m'" "f_or_eq E m \<noteq> Inr m'"
    "f_mult_eq (e_objs E) m \<noteq> Inr m'" "f_div_eq (e_objs E) m \<noteq> Inr m'" "f_mod_eq (e_objs E) m \<noteq> Inr m'"
    "f_xor_eq (e_objs E) m \<noteq> Inr m'" "f_lsh_eq (e_objs E) m \<noteq> Inr m'" "f_rsh_eq (e_objs E) m \<noteq> Inr m'"
    unfolding f_add_eq_def f_sub_eq_def f_and_eq_def f_or_eq_def f_mult_eq_def f_div_eq_def f_mod_eq_def f_xor_eq_def
      f_lsh_eq_def f_rsh_eq_def with_lv_Cons [OF assms(1,2)]
    by (auto simp: ebind_def number_eq_def floats2_def as_num_def as_flt_def as_ptr_def)
qed

text \<open>C24. \<^verbatim>\<open>x op= y\<close> succeeds exactly when \<^verbatim>\<open>x = x op y\<close> does, and then in the same state, for every assigning operator of
  LPC and every kind of variable.  Four cases are exempt because the code treats them differently: mappings are extended in
  place by \<^verbatim>\<open>+=\<close>, a number cannot be turned into a string by it, \<^verbatim>\<open>&=\<close> on arrays keeps the order of its left
  operand where \<^verbatim>\<open>&\<close> keeps that of the right one, and a variable with a destructed object or a dead function is fetched as 0 by \<^verbatim>\<open>x op y\<close>,
  while \<^verbatim>\<open>x op= y\<close> always raises an error then.\<close>

theorem assigning_operators:
  assumes "stk m = y # LV l # st" "read_lv (e_objs E) l m = Some v"
  shows "(\<forall>g f. ((g, f) \<in> set (assign_ops E) \<or>
       (g, f) = (f_add_eq E, f_add E) \<and> as_map (V v) = None \<and> (as_num (V v) = None \<or> as_str y = None) \<or>
       (g, f) = (f_and_eq E, f_and E) \<and> as_ptr (V v) = None) \<and> fetched (e_objs E) v = v \<longrightarrow>
      (\<forall>m'. g m = Inr m' \<longleftrightarrow> ebind (f (m\<lparr>stk := y # V (fetched (e_objs E) v) # st\<rparr>)) (assign_top (e_objs E) l) = Inr m')) \<and>
    (fetched (e_objs E) v \<noteq> v \<longrightarrow>
      (\<forall>g \<in> fst ` set (assign_ops E) \<union> {f_add_eq E, f_and_eq E}. \<forall>m'. g m \<noteq> Inr m'))"
proof -
  have 1: "agree (g m) (ebind (f (m\<lparr>stk := y # V v # st\<rparr>)) (assign_top (e_objs E) l))"
    if "(g, f) \<in> set (assign_ops E) \<or>
       (g, f) = (f_add_eq E, f_add E) \<and> as_map (V v) = None \<and> (as_num (V v) = None \<or> as_str y = None) \<or>
       (g, f) = (f_and_eq E, f_and E) \<and> as_ptr (V v) = None" for g f
    using that sub_eq_agree [OF assms] or_eq_agree [OF assms] number_ops_agree [OF assms]
      add_eq_agree [OF assms] and_eq_agree [OF assms]
    by (auto simp: assign_ops_def Let_def)
  have 2: "g m \<noteq> Inr m'" if "fetched (e_objs E) v \<noteq> v" "g \<in> fst ` set (assign_ops E) \<union> {f_add_eq E, f_and_eq E}" for g m'
    using that(2) by (auto simp: assign_ops_def Let_def assign_dead [OF assms that(1)])
  show ?thesis using 1 2 by (simp add: agree_def)
qed

theorem assigning_operators_witness:
  "\<exists>m'. f_sub_eq demo_save_env (demo_interp\<lparr>stk := [V (T_NUMBER 3), LV (Lv_var 1 0)]\<rparr>) = Inr m' \<and> vars m' 1 0 = T_NUMBER (- 3)"
proof -
  let ?m = "demo_interp\<lparr>stk := [V (T_NUMBER 3), LV (Lv_var 1 0)]\<rparr>"
  let ?m' = "demo_interp\<lparr>stk := [V (T_NUMBER (- 3))], vars := (\<lambda>_ _. const0)(1 := (\<lambda>_. const0)(0 := T_NUMBER (- 3)))\<rparr>"
  have "f_sub_eq demo_save_env ?m = Inr ?m' \<longleftrightarrow>
    ebind (f_subtract demo_save_env (?m\<lparr>stk := V (T_NUMBER 3) # V (T_NUMBER 0) # []\<rparr>)) (assign_top (e_objs demo_save_env) (Lv_var 1 0)) = Inr ?m'"
    using assigning_operators [of ?m "V (T_NUMBER 3)" "Lv_var 1 0" "[]" demo_save_env "T_NUMBER 0", THEN conjunct1, rule_format,
        of "f_sub_eq demo_save_env" "f_subtract demo_save_env" ?m']
    by (simp add: read_lv_def demo_interp_def const0_def assign_ops_def Let_def fetched_def is_destructed_def is_illegal_def)
  moreover have "ebind (f_subtract demo_save_env (?m\<lparr>stk := V (T_NUMBER 3) # V (T_NUMBER 0) # []\<rparr>)) (assign_top (e_objs demo_save_env) (Lv_var 1 0)) = Inr ?m'"
    by (simp add: f_subtract_def with2_def as_ptr_def as_flt_def floats2_def numbers2_def answer_def ebind_def assign_top_def
        write_lv_def demo_interp_def)
  ultimately show ?thesis by (intro exI [of _ ?m']) simp
qed

section \<open>Ranges\<close>

lemma drop_take_range:
  "drop k (take (min (length s) e) s) = (if k \<ge> length s \<or> e \<le> k then [] else if e \<ge> length s then drop k s else take (e - k) (drop k s))"
  by (auto simp: drop_take min_def)

lemma range_string_law: "range_string s i j = drop (slice_from (length s) i) (take (slice_end (length s) j) s)"
proof -
  define a where "a = (if i < 0 then int (length s) + i else i)"
  define b where "b = (if j < 0 then int (length s) + j else j)"
  have "range_string s i j = (if a \<ge> int (length s) \<or> b < a \<or> b < 0 then []
      else if b \<ge> int (length s) - 1 then drop (nat a) s else take (nat (b - max a 0 + 1)) (drop (nat a) s))"
    unfolding range_string_def Let_def a_def [symmetric] b_def [symmetric] by (auto simp: max_def)
  also have "\<dots> = drop (nat a) (take (min (length s) (nat (b + 1))) s)"
  proof (cases "b < a \<or> b < 0 \<or> a \<ge> int (length s)")
    case True
    then show ?thesis by (auto simp: drop_take_range)
  next
    case False
    then have "nat (b - max a 0 + 1) = nat (b + 1) - nat a" by (auto simp: max_def)
    with False show ?thesis by (auto simp: drop_take_range)
  qed
  finally show ?thesis by (simp add: slice_from_def slice_end_def a_def b_def)
qed

lemma extract_string_law:
  "extract_string s i (Some j) =
     (if i < - int (length s) \<and> (0 \<le> j \<or> i \<le> j) then None else Some (range_string s i j))"
  "extract_string s i None = (if i < - int (length s) then None else Some (range_string s i (- 1)))"
  unfolding extract_string_def range_string_def Let_def by auto

text \<open>A range of a string is what the same range of an array is: the characters between the bounds, where negative bounds count
  from the end and bounds outside are clipped.  \<^verbatim>\<open>extract\<close> answers the same as long as it returns at all; a defect: it does not
  clip a start in front of the string, and reads there unless the end lies in front of that start, too.  When the start is the end, both
  answer one character, where the manual of \<^verbatim>\<open>extract\<close> promises an empty string.\<close>

lemma string_ranges:
  "range_string s i j = drop (slice_from (length s) i) (take (slice_end (length s) j) s) \<and>
   (length v \<le> MAX_ARRAY_SIZE \<longrightarrow> slice_array v i j = Inr (drop (slice_from (length v) i) (take (slice_end (length v) j) v))) \<and>
   extract_string s i (Some j) =
     (if i < - int (length s) \<and> (0 \<le> j \<or> i \<le> j) then None else Some (range_string s i j)) \<and>
   extract_string s i None = (if i < - int (length s) then None else Some (range_string s i (- 1))) \<and>
   (0 \<le> i \<and> i < int (length s) \<longrightarrow> extract_string s i (Some i) = Some [s ! nat i])"
proof -
  have "extract_string s i (Some i) = Some [s ! nat i]" if "0 \<le> i" "i < int (length s)"
    using that by (auto simp: extract_string_def Let_def take_Suc_conv_app_nth Cons_nth_drop_Suc [symmetric])
  then show ?thesis using range_string_law extract_string_law slice_law by blast
qed

section \<open>Bit strings\<close>

text \<open>The set a bit string stands for.\<close>

definition bit_set :: "u8 list \<Rightarrow> nat set" where
  "bit_set s = {n. n div 6 < length s \<and> bit (unat (s ! (n div 6)) - 32) (n mod 6)}"

lemma sint8: "sint (c :: u8) = (uint c + 128) mod 256 - 128"
  by (simp add: sint_uint signed_take_bit_eq_take_bit_shift take_bit_eq_mod)

lemma byte_range: "\<exists>k<256. unat (c :: u8) = k \<and> uint c = int k"
  using unsigned_less [of c, where ?'a = nat] by simp

lemma good_bits_nat: "good_bits c \<longleftrightarrow> 32 \<le> unat c \<and> unat c \<le> 95"
proof -
  obtain k where k: "k < 256" "unat c = k" "uint c = int k" using byte_range by blast
  have "(int k + 128) mod 256 = (if k < 128 then int k + 128 else int k - 128)"
  proof (cases "k < 128")
    case False
    then have "(int k - 128 + 256) mod 256 = int k - 128" using k(1) by (subst mod_add_self2) simp
    with False show ?thesis by (simp add: algebra_simps)
  qed simp
  then show ?thesis using k by (auto simp: good_bits_def sint8)
qed

lemma good_scast: "good_bits c \<Longrightarrow> (scast c :: u32) - 32 = of_nat (unat c - 32)"
proof -
  assume g: "good_bits c"
  then have c: "32 \<le> unat c" "unat c \<le> 95" by (simp_all add: good_bits_nat)
  have "(scast c :: u32) = word_of_int (sint c)" by simp
  also have "sint c = int (unat c)"
  proof -
    obtain k where k: "k < 256" "unat c = k" "uint c = int k" using byte_range by blast
    then have "(int k + 128) mod 256 = int k + 128" using c by simp
    then show ?thesis using k by (simp add: sint8)
  qed
  finally have "(scast c :: u32) = of_nat (unat c)" by simp
  then show ?thesis using c by (simp add: of_nat_diff)
qed

lemma bit_mask_nat: "0 \<le> n \<Longrightarrow> bit_mask n = Some (of_nat (2 ^ (nat n mod 6)))"
proof -
  assume n: "0 \<le> n"
  then have "n smod 6 = int (nat n mod 6)"
    by (cases "n = 0") (simp_all add: signed_modulo_int_def signed_divide_int_def zmod_int minus_div_mult_eq_mod sgn_if)
  then show ?thesis by (simp add: bit_mask_def push_bit_eq_mult)
qed

lemma bit_mask_negative: "- 6 < n \<Longrightarrow> n < 0 \<Longrightarrow> n sdiv 6 = 0 \<and> bit_mask n = None"
proof -
  assume n: "- 6 < n" "n < 0"
  then have "n \<in> {- 5, - 4, - 3, - 2, - 1}" by auto
  then show ?thesis by (auto simp: bit_mask_def signed_modulo_int_def signed_divide_int_def)
qed

text \<open>A byte of a bit string whose six bits are \<open>y\<close>.\<close>

lemma six_bits_byte:
  assumes "\<And>i. bit (y :: u32) i \<Longrightarrow> i < 6"
  shows "unat (ucast (y + 32) :: u8) = unat y + 32" "good_bits (ucast (y + 32))"
proof -
  have "take_bit 6 y = y" by (rule bit_word_eqI) (use assms in \<open>auto simp: bit_take_bit_iff\<close>)
  then have "unat y = take_bit 6 (unat y)" by (metis unsigned_take_bit_eq)
  then have y: "unat y < 64" using take_bit_nat_less_exp [of 6 "unat y"] by simp
  then have "unat (y + 32) = unat y + 32" by (simp add: unat_word_ariths)
  then show u: "unat (ucast (y + 32) :: u8) = unat y + 32" using y by (simp add: unsigned_ucast_eq take_bit_eq_mod)
  show "good_bits (ucast (y + 32))" using u y by (simp add: good_bits_nat)
qed

lemma good_bit_iff:
  assumes "good_bits c"
  shows "bit ((scast c :: u32) - 32) i \<longleftrightarrow> bit (unat c - 32) i" "bit ((scast c :: u32) - 32) i \<Longrightarrow> i < 6"
proof -
  have "unat c - 32 < 2 ^ 6" using assms by (auto simp: good_bits_nat)
  then have t: "take_bit 6 (unat c - 32) = unat c - 32" by (simp add: take_bit_nat_eq_self)
  then have "bit (unat c - 32) i \<Longrightarrow> i < 6" by (metis bit_take_bit_iff)
  moreover show b: "bit ((scast c :: u32) - 32) i \<longleftrightarrow> bit (unat c - 32) i"
    unfolding good_scast [OF assms] using calculation by (auto simp: bit_of_nat_iff)
  ultimately show "bit ((scast c :: u32) - 32) i \<Longrightarrow> i < 6" by simp
qed

lemma bit_mask_bit: "0 \<le> n \<Longrightarrow> \<exists>b. bit_mask n = Some b \<and> (\<forall>i. bit b i \<longleftrightarrow> i = nat n mod 6)"
proof -
  assume n: "0 \<le> n"
  have "nat n mod 6 < 6" by simp
  then show ?thesis by (auto simp: bit_mask_nat [OF n] bit_simps possible_bit_def)
qed

lemma set_bit_law:
  assumes "list_all good_bits s" "0 \<le> n" "n \<le> MAX_BITS"
  shows "\<exists>s'. set_bit_string s n = Inr s' \<and> list_all good_bits s' \<and> bit_set s' = insert (nat n) (bit_set s)"
proof -
  define ind where "ind = nat n div 6"
  define k where "k = nat n mod 6"
  define str where "str = s @ replicate (ind + 1 - length s) 32"
  have sd: "n sdiv 6 = int ind" using assms(2) by (cases "n = 0") (simp_all add: ind_def signed_divide_int_def zdiv_int)
  have "good_bits 32" by (simp add: good_bits_nat)
  then have gs: "list_all good_bits str" using assms(1) by (auto simp: str_def list_all_iff)
  have len: "ind < length str" by (simp add: str_def)
  let ?c = "str ! ind"
  have c: "good_bits ?c" using gs len by (simp add: list_all_length)
  obtain msk where b: "bit_mask n = Some msk" and m: "\<And>i. bit msk i \<longleftrightarrow> i = k" using bit_mask_bit [OF assms(2)] k_def by blast
  define y where "y = ((scast ?c :: u32) - 32) OR msk"
  have y: "bit y i \<longleftrightarrow> bit (unat ?c - 32) i \<or> i = k" for i
    unfolding y_def bit_or_iff m good_bit_iff(1) [OF c] ..
  have y6: "bit y i \<Longrightarrow> i < 6" for i using good_bit_iff [OF c] by (auto simp: y k_def)
  define s' where "s' = str[ind := ucast (y + 32)]"
  have "set_bit_string s n = Inr s'"
    using assms(3) c b unfolding set_bit_string_def sd Let_def nat_int str_def [symmetric] y_def s'_def by simp
  moreover have "list_all good_bits s'"
    using gs len six_bits_byte(2) [of y, OF y6] by (auto simp: s'_def list_all_length nth_list_update)
  moreover have "i \<in> bit_set s' \<longleftrightarrow> i \<in> bit_set str \<or> i = nat n" for i
  proof (cases "i div 6 = ind")
    case True
    then have "i mod 6 = k \<longleftrightarrow> i = nat n" unfolding ind_def k_def by (metis div_mult_mod_eq)
    with True len y [of "i mod 6"] show ?thesis
      by (simp add: bit_set_def s'_def six_bits_byte(1) [of y, OF y6] bit_unsigned_iff possible_bit_def)
  next
    case False
    then have "i \<noteq> nat n" by (auto simp: ind_def)
    with False show ?thesis by (simp add: bit_set_def s'_def)
  qed
  moreover have "bit_set str = bit_set s"
  proof -
    have r: "str ! j = 32" if "length s \<le> j" "j < length str" for j using that by (simp add: str_def nth_append)
    have l: "str ! j = s ! j" "j < length str" if "j < length s" for j using that by (simp_all add: str_def nth_append)
    have "i \<in> bit_set str \<longleftrightarrow> i \<in> bit_set s" for i
      using r [of "i div 6"] l [of "i div 6"] by (cases "i div 6 < length s") (auto simp: bit_set_def)
    then show ?thesis by blast
  qed
  ultimately show ?thesis by auto
qed

lemma clear_bit_law:
  assumes "list_all good_bits s" "0 \<le> n" "n \<le> MAX_BITS"
  shows "\<exists>s'. clear_bit_string s n = Inr s' \<and> list_all good_bits s' \<and> bit_set s' = bit_set s - {nat n}"
proof -
  define ind where "ind = nat n div 6"
  define k where "k = nat n mod 6"
  have sd: "n sdiv 6 = int ind" using assms(2) by (cases "n = 0") (simp_all add: ind_def signed_divide_int_def zdiv_int)
  show ?thesis
  proof (cases "ind < length s")
    case False
    then have "clear_bit_string s n = Inr s" using assms(3) by (simp add: clear_bit_string_def sd)
    moreover have "nat n \<notin> bit_set s" using False by (simp add: bit_set_def ind_def)
    ultimately show ?thesis using assms(1) by auto
  next
    case len: True
    let ?c = "s ! ind"
    have c: "good_bits ?c" using assms(1) len by (simp add: list_all_length)
    obtain msk where b: "bit_mask n = Some msk" and m: "\<And>i. bit msk i \<longleftrightarrow> i = k" using bit_mask_bit [OF assms(2)] k_def by blast
    define y where "y = ((scast ?c :: u32) - 32) AND NOT msk"
    have y: "bit y i \<longleftrightarrow> bit (unat ?c - 32) i \<and> i \<noteq> k" for i
      using good_bit_iff [OF c, of i] unfolding y_def bit_and_iff bit_not_iff m by (auto simp: possible_bit_def)
    have y6: "bit y i \<Longrightarrow> i < 6" for i using good_bit_iff [OF c] by (auto simp: y)
    define s' where "s' = s[ind := ucast (y + 32)]"
    have "clear_bit_string s n = Inr s'"
      using assms(3) c len b unfolding clear_bit_string_def sd Let_def nat_int y_def s'_def by simp
    moreover have "list_all good_bits s'"
      using assms(1) len six_bits_byte(2) [of y, OF y6] by (auto simp: s'_def list_all_length nth_list_update)
    moreover have "i \<in> bit_set s' \<longleftrightarrow> i \<in> bit_set s \<and> i \<noteq> nat n" for i
    proof (cases "i div 6 = ind")
      case True
      then have "i mod 6 = k \<longleftrightarrow> i = nat n" unfolding ind_def k_def by (metis div_mult_mod_eq)
      with True len y [of "i mod 6"] show ?thesis
        by (simp add: bit_set_def s'_def six_bits_byte(1) [of y, OF y6] bit_unsigned_iff possible_bit_def)
    next
      case False
      then have "i \<noteq> nat n" by (auto simp: ind_def)
      with False show ?thesis by (simp add: bit_set_def s'_def)
    qed
    ultimately show ?thesis by auto
  qed
qed

lemma test_bit_law:
  assumes "list_all good_bits s" "0 \<le> n"
  shows "test_bit_string s n = Inr (nat n \<in> bit_set s)"
proof -
  define ind where "ind = nat n div 6"
  have sd: "n sdiv 6 = int ind" using assms(2) by (cases "n = 0") (simp_all add: ind_def signed_divide_int_def zdiv_int)
  show ?thesis
  proof (cases "ind < length s")
    case False
    then show ?thesis by (simp add: test_bit_string_def sd bit_set_def ind_def)
  next
    case True
    then have c: "good_bits (s ! ind)" using assms(1) by (simp add: list_all_length)
    obtain msk where b: "bit_mask n = Some msk" and m: "\<And>i. bit msk i \<longleftrightarrow> i = nat n mod 6" using bit_mask_bit [OF assms(2)] by blast
    have "((scast (s ! ind) :: u32) - 32) AND msk \<noteq> 0 \<longleftrightarrow> (\<exists>i. bit (((scast (s ! ind) :: u32) - 32) AND msk) i)"
      by (metis bit_0_eq bot_apply bot_bool_def bit_word_eqI)
    also have "\<dots> \<longleftrightarrow> bit (unat (s ! ind) - 32) (nat n mod 6)"
      using good_bit_iff(1) [OF c] by (simp add: bit_and_iff m)
    finally show ?thesis using True b by (simp add: test_bit_string_def sd bit_set_def ind_def)
  qed
qed

text \<open>The bit strings of LPC are sets of small numbers: \<^verbatim>\<open>set_bit\<close> adds a number, \<^verbatim>\<open>clear_bit\<close> removes it and
  \<^verbatim>\<open>test_bit\<close> tells whether it is in the set, and the results are bit strings again.  A defect: the functions test for large
  numbers but not for negative ones, with which \<^verbatim>\<open>set_bit\<close> writes and \<^verbatim>\<open>test_bit\<close> reads outside of the string, or both shift by a
  negative count.\<close>

lemma bit_strings:
  assumes "list_all good_bits s"
  shows "(0 \<le> n \<and> n \<le> MAX_BITS \<longrightarrow>
      (\<exists>s'. set_bit_string s n = Inr s' \<and> list_all good_bits s' \<and> bit_set s' = insert (nat n) (bit_set s)) \<and>
      (\<exists>s'. clear_bit_string s n = Inr s' \<and> list_all good_bits s' \<and> bit_set s' = bit_set s - {nat n})) \<and>
    (0 \<le> n \<longrightarrow> test_bit_string s n = Inr (nat n \<in> bit_set s)) \<and>
    (n < 0 \<longrightarrow> set_bit_string s n = Inl Crash \<and> (s \<noteq> [] \<or> n \<le> - 6 \<longrightarrow> test_bit_string s n = Inl Crash))"
proof -
  have far: "n sdiv 6 < 0" if "n \<le> - 6" using that by (simp add: signed_divide_int_def sgn_if pos_imp_zdiv_pos_iff)
  have "set_bit_string s n = Inl Crash \<and> (s \<noteq> [] \<or> n \<le> - 6 \<longrightarrow> test_bit_string s n = Inl Crash)" if n: "n < 0"
  proof (cases "n \<le> - 6")
    case True
    then show ?thesis using far by (simp add: set_bit_string_def test_bit_string_def MAX_BITS_def)
  next
    case False
    then have b: "n sdiv 6 = 0" "bit_mask n = None" using bit_mask_negative [of n] n by simp_all
    have "good_bits ((s @ replicate (Suc 0 - length s) 32) ! 0)"
      using assms by (cases s) (simp_all add: good_bits_nat)
    then show ?thesis using n False by (simp add: set_bit_string_def test_bit_string_def b MAX_BITS_def)
  qed
  then show ?thesis using set_bit_law [OF assms, of n] clear_bit_law [OF assms, of n] test_bit_law [OF assms, of n] by blast
qed

end
