(* ===== verification/Lpc_Switch.thy ===== *)
theory Lpc_Switch
  imports Operators
begin

text \<open>
  The \<^verbatim>\<open>switch\<close> statement (\<^verbatim>\<open>f_switch\<close> of \<^verbatim>\<open>src/interpret.c\<close>): a binary search in a table of the program that mixes
  single labels, six bytes each, and ranges of labels, which take two entries.  The first entry of a range has the target
  \<^verbatim>\<open>RANGE_OFFSET\<close>.  The bytes of a program are in the order of a little-endian processor.  \<^const>\<open>None\<close> is an access outside of
  the program.
\<close>

section \<open>The search\<close>

definition read_short :: "u8 list \<Rightarrow> nat \<Rightarrow> nat option" where
  "read_short code a = (if a + 1 < length code then Some (unat (code ! a) + 256 * unat (code ! (a + 1))) else None)"

definition read_int :: "u8 list \<Rightarrow> nat \<Rightarrow> int option" where
  "read_int code a =
     (if a + 3 < length code
      then Some (sint (word_of_nat (unat (code ! a) + 256 * unat (code ! (a + 1)) + 256 ^ 2 * unat (code ! (a + 2)) +
                                    256 ^ 3 * unat (code ! (a + 3))) :: u32))
      else None)"

definition ENTRY_SIZE :: nat where "ENTRY_SIZE = 6"
definition E_OFFSET :: nat where "E_OFFSET = 4"
definition RANGE_OFFSET :: nat where "RANGE_OFFSET = 0xFFFF"

datatype search_val = Number int | Text "u8 list"

text \<open>The difference of two numbers is cut to an \<^verbatim>\<open>int\<close>.\<close>

definition cmp_values :: "u8 list \<Rightarrow> search_val \<Rightarrow> int \<Rightarrow> int option" where
  "cmp_values rodata val c =
     (case val of
        Number n \<Rightarrow> Some (sint (word_of_int (n - c) :: u32))
      | Text s \<Rightarrow> (if c < 0 then None else map_option (strcmp s) (string_at rodata (nat c))))"

definition entry_offset :: "u8 list \<Rightarrow> nat \<Rightarrow> int \<Rightarrow> nat option" where
  "entry_offset code start i = read_short code (start + nat i * ENTRY_SIZE + E_OFFSET)"

definition entry_value :: "u8 list \<Rightarrow> nat \<Rightarrow> int \<Rightarrow> int option" where
  "entry_value code start i = read_int code (start + nat i * ENTRY_SIZE)"

text \<open>Whether the middle of the table is a range, and its first entry.\<close>

definition entry_kind :: "u8 list \<Rightarrow> nat \<Rightarrow> int \<Rightarrow> int \<Rightarrow> (bool \<times> int) option" where
  "entry_kind code start head mid = do {
     off \<leftarrow> entry_offset code start mid;
     (if off = RANGE_OFFSET then Some (True, mid)
      else if mid \<noteq> head
      then do { prev \<leftarrow> entry_offset code start (mid - 1);
                Some (if prev = RANGE_OFFSET then (True, mid - 1) else (False, mid)) }
      else Some (False, mid)) }"

lemma entry_kind_mid: "entry_kind code start head mid = Some (r, k) \<Longrightarrow> k = mid \<or> k = mid - 1 \<and> mid \<noteq> head"
  by (auto simp: entry_kind_def split: bind_splits if_splits)

function switch_loop :: "u8 list \<Rightarrow> nat \<Rightarrow> (int \<Rightarrow> int option) \<Rightarrow> int \<Rightarrow> int \<Rightarrow> nat option option" where
  "switch_loop code start cmp head tail =
     (if head > tail then Some None
      else do {
        (is_range, mid) \<leftarrow> entry_kind code start head ((head + tail) div 2);
        v \<leftarrow> entry_value code start mid;
        c \<leftarrow> cmp v;
        (if is_range
         then (if c < 0 then switch_loop code start cmp head (mid - 1)
               else do {
                 hi \<leftarrow> entry_value code start (mid + 1);
                 c' \<leftarrow> cmp hi;
                 (if c' > 0 then switch_loop code start cmp (mid + 2) tail
                  else map_option Some (entry_offset code start (mid + 1))) })
         else (if c = 0 then map_option Some (entry_offset code start mid)
               else if c < 0 then switch_loop code start cmp head (mid - 1)
               else switch_loop code start cmp (mid + 1) tail)) })"
  by pat_completeness auto

termination
proof (relation "measure (\<lambda>(code, start, cmp, head, tail). nat (tail - head + 1))", goal_cases)
  case 1
  then show ?case by simp
qed (auto dest!: entry_kind_mid)

declare switch_loop.simps [simp del]

text \<open>The number of the last entry, computed without a sign and stored in an \<^verbatim>\<open>int\<close>.\<close>

definition switch_tail :: "nat \<Rightarrow> nat \<Rightarrow> int" where
  "switch_tail tab_start tab_end = sint (word_of_int ((int tab_end - int tab_start) mod 2 ^ 32 div int ENTRY_SIZE - 1) :: u32)"

definition f_switch ::
  "u8 list \<Rightarrow> u8 list \<Rightarrow> nat \<Rightarrow> 'a interp_scheme \<Rightarrow> (op_error \<times> 'a interp_scheme) + (nat \<times> 'a interp_scheme)" where
  "f_switch code rodata pc m =
     (case (stk m, pc < length code, read_short code (pc + 1), read_short code (pc + 3), read_short code (pc + 5)) of
        (x # st, True, Some tab_start, Some tab_end, Some dflt) \<Rightarrow>
          (let is_str = odd (unat (code ! pc));
               jump = (\<lambda>t. case t of None \<Rightarrow> Inl (Crash, m) | Some pc' \<Rightarrow> Inr (pc', m\<lparr>stk := st\<rparr>));
               search = (\<lambda>val head. jump (map_option (\<lambda>r. case r of None \<Rightarrow> dflt | Some t \<Rightarrow> t)
                                           (switch_loop code tab_start (cmp_values rodata val) head (switch_tail tab_start tab_end))))
           in if is_str
              then (if as_num x = Some 0 then jump (entry_offset code tab_start 0)
                    else case as_str x of None \<Rightarrow> Inl (Bad_arg 1, m) | Some s \<Rightarrow> search (Text s) 1)
              else case as_num x of None \<Rightarrow> Inl (Bad_arg 1, m) | Some n \<Rightarrow> search (Number (sint n)) 0)
      | _ \<Rightarrow> Inl (Crash, m))"

section \<open>The table\<close>

text \<open>What the compiler writes a table from: labels with their targets.\<close>

datatype case_label = Case int nat | Range int int nat

fun entries :: "case_label list \<Rightarrow> (int \<times> nat) list" where
  "entries [] = []"
| "entries (Case v t # cs) = (v, t) # entries cs"
| "entries (Range lo hi t # cs) = (lo, RANGE_OFFSET) # (hi, t) # entries cs"

fun target :: "case_label \<Rightarrow> nat" where
  "target (Case v t) = t"
| "target (Range lo hi t) = t"

fun label_low :: "case_label \<Rightarrow> int" where
  "label_low (Case v t) = v"
| "label_low (Range lo hi t) = lo"

fun label_high :: "case_label \<Rightarrow> int" where
  "label_high (Case v t) = v"
| "label_high (Range lo hi t) = hi"

definition table_at :: "u8 list \<Rightarrow> nat \<Rightarrow> (int \<times> nat) list \<Rightarrow> bool" where
  "table_at code start es \<longleftrightarrow>
     (\<forall>i<length es. entry_value code start (int i) = Some (fst (es ! i)) \<and> entry_offset code start (int i) = Some (snd (es ! i)))"

text \<open>
  What the search needs of the comparison: the value is to the right of the smaller labels and to the left of the larger ones.
\<close>

definition matches :: "(int \<Rightarrow> int) \<Rightarrow> case_label \<Rightarrow> bool" where
  "matches cmp c \<longleftrightarrow> 0 \<le> cmp (label_low c) \<and> cmp (label_high c) \<le> 0"

fun in_order :: "(int \<Rightarrow> int) \<Rightarrow> case_label list \<Rightarrow> bool" where
  "in_order cmp [] \<longleftrightarrow> True"
| "in_order cmp (c # cs) \<longleftrightarrow>
     (cmp (label_low c) < 0 \<longrightarrow> cmp (label_high c) < 0) \<and>
     (cmp (label_high c) \<le> 0 \<longrightarrow> (\<forall>d\<in>set cs. cmp (label_low d) < 0)) \<and> in_order cmp cs"
section \<open>The search finds the label\<close>

lemma entries_append [simp]: "entries (xs @ ys) = entries xs @ entries ys"
  by (induction xs rule: entries.induct) simp_all

definition is_range :: "case_label \<Rightarrow> bool" where
  "is_range c \<longleftrightarrow> (case c of Case v t \<Rightarrow> False | Range lo hi t \<Rightarrow> True)"

lemma is_range_simps [simp]: "\<not> is_range (Case v t)" "is_range (Range lo hi t)"
  by (simp_all add: is_range_def)

text \<open>The label that the entry with number \<open>k\<close> belongs to.\<close>

lemma entry_label:
  "k < length (entries ms) \<Longrightarrow>
    \<exists>as x bs. ms = as @ x # bs \<and> (k = length (entries as) \<or> is_range x \<and> k = length (entries as) + 1)"
proof (induction ms arbitrary: k rule: entries.induct)
  case (2 v t cs)
  show ?case
  proof (cases k)
    case 0
    then show ?thesis by (intro exI [of _ "[]"] exI [of _ "Case v t"] exI [of _ cs]) simp
  next
    case (Suc j)
    with 2(2) have "j < length (entries cs)" by simp
    from 2(1) [OF this] obtain as x bs where "cs = as @ x # bs" "j = length (entries as) \<or> is_range x \<and> j = length (entries as) + 1" by blast
    with Suc show ?thesis by (intro exI [of _ "Case v t # as"] exI [of _ x] exI [of _ bs]) auto
  qed
next
  case (3 lo hi t cs)
  show ?case
  proof (cases "k < 2")
    case True
    then show ?thesis by (intro exI [of _ "[]"] exI [of _ "Range lo hi t"] exI [of _ cs]) auto
  next
    case False
    then obtain j where k: "k = j + 2" by (metis add.commute le_Suc_ex not_less)
    with 3(2) have "j < length (entries cs)" by simp
    from 3(1) [OF this] obtain as x bs where "cs = as @ x # bs" "j = length (entries as) \<or> is_range x \<and> j = length (entries as) + 1" by blast
    with k show ?thesis by (intro exI [of _ "Range lo hi t # as"] exI [of _ x] exI [of _ bs]) auto
  qed
qed simp

lemma last_entry: "xs \<noteq> [] \<Longrightarrow> entries xs \<noteq> [] \<and> snd (last (entries xs)) = target (last xs)"
  by (induction xs rule: entries.induct) (auto simp: last_ConsL)

text \<open>The entries of a label inside the table.\<close>

lemma table_label:
  assumes "table_at code start (entries (us @ x # vs))" "p = int (length (entries us))"
  shows "entry_value code start p = Some (label_low x)"
    "entry_offset code start p = Some (if is_range x then RANGE_OFFSET else target x)"
    "is_range x \<Longrightarrow> entry_value code start (p + 1) = Some (label_high x) \<and> entry_offset code start (p + 1) = Some (target x)"
    "us \<noteq> [] \<Longrightarrow> entry_offset code start (p - 1) = Some (target (last us))"
proof -
  let ?es = "entries (us @ x # vs)" and ?n = "length (entries us)"
  have i: "entry_value code start (int i) = Some (fst (?es ! i)) \<and> entry_offset code start (int i) = Some (snd (?es ! i))"
    if "i < length ?es" for i using assms(1) that by (simp add: table_at_def)
  have n: "?n < length ?es" by (cases x) simp_all
  have "fst (?es ! ?n) = label_low x" "snd (?es ! ?n) = (if is_range x then RANGE_OFFSET else target x)"
    by (cases x; simp add: nth_append)+
  with i [OF n] assms(2) show "entry_value code start p = Some (label_low x)"
    "entry_offset code start p = Some (if is_range x then RANGE_OFFSET else target x)" by simp_all
  show "entry_value code start (p + 1) = Some (label_high x) \<and> entry_offset code start (p + 1) = Some (target x)" if r: "is_range x"
  proof -
    have "?n + 1 < length ?es" "fst (?es ! (?n + 1)) = label_high x" "snd (?es ! (?n + 1)) = target x"
      using r by (cases x; simp add: nth_append)+
    with i [of "?n + 1"] assms(2) show ?thesis by (simp add: add.commute)
  qed
  show "entry_offset code start (p - 1) = Some (target (last us))" if "us \<noteq> []"
  proof -
    have l: "entries us \<noteq> []" "snd (last (entries us)) = target (last us)" using last_entry [OF that] by simp_all
    then have "?es ! (?n - 1) = last (entries us)" by (simp add: nth_append last_conv_nth)
    moreover have "int (?n - 1) = p - 1" using l(1) assms(2) by (cases "entries us") simp_all
    moreover have "?n - 1 < length ?es" using n by linarith
    ultimately show ?thesis using i [of "?n - 1"] l(2) by simp
  qed
qed

lemma entry_kind_label:
  assumes t: "table_at code start (entries (us @ x # vs))" and p: "p = int (length (entries us))"
    and ok: "\<forall>c\<in>set (us @ [x]). target c \<noteq> RANGE_OFFSET" and mid: "mid = p \<or> is_range x \<and> mid = p + 1"
    and head: "head \<le> p" "us = [] \<longrightarrow> head = p"
  shows "entry_kind code start head mid = Some (is_range x, p)"
proof (cases "is_range x")
  case True
  with mid head table_label(2,3) [OF t p] ok show ?thesis by (auto simp: entry_kind_def)
next
  case False
  then have m: "mid = p" using mid by simp
  show ?thesis
  proof (cases "mid = head")
    case True
    with m False ok table_label(2) [OF t p] show ?thesis by (simp add: entry_kind_def)
  next
    case h: False
    then have "us \<noteq> []" using m head by auto
    with h m False ok table_label(2,4) [OF t p] show ?thesis by (simp add: entry_kind_def)
  qed
qed

lemma in_order_append:
  "in_order c (as @ x # bs) \<Longrightarrow>
     (\<forall>d\<in>set as. c (label_high d) \<le> 0 \<longrightarrow> c (label_low x) < 0) \<and> (c (label_low x) < 0 \<longrightarrow> c (label_high x) < 0) \<and>
     (c (label_high x) \<le> 0 \<longrightarrow> (\<forall>d\<in>set bs. c (label_low d) < 0)) \<and> in_order c as \<and> in_order c bs"
  by (induction as) auto

lemma find_append_skip: "\<forall>x\<in>set as. \<not> P x \<Longrightarrow> find P (as @ bs) = find P bs"
  by (induction as) auto

lemma find_none: "\<forall>x\<in>set as. \<not> P x \<Longrightarrow> find P as = None"
  by (induction as) auto

lemma switch_loop_law:
  assumes "\<And>v. v \<in> label_low ` set ms \<union> label_high ` set ms \<Longrightarrow> cmp v = Some (c v)"
    "table_at code start (entries (us @ ms @ vs))" "in_order c ms" "\<forall>d\<in>set (us @ ms). target d \<noteq> RANGE_OFFSET"
    "head = int (length (entries us))" "tail = int (length (entries (us @ ms))) - 1"
  shows "switch_loop code start cmp head tail = Some (map_option target (find (matches c) ms))"
  using assms
proof (induction "length ms" arbitrary: ms us vs head tail rule: less_induct)
  case less
  show ?case
  proof (cases "ms = []")
    case True
    then show ?thesis using less.prems by (subst switch_loop.simps) simp
  next
    case False
    then have ne: "entries ms \<noteq> []" using last_entry by blast
    then have ht: "head \<le> tail" using less.prems(5,6) by (cases "entries ms") simp_all
    define k where "k = nat ((head + tail) div 2 - head)"
    have k: "(head + tail) div 2 = head + int k" "k < length (entries ms)"
      using ht less.prems(5,6) ne by (auto simp: k_def nat_less_iff) 
    from entry_label [OF k(2)] obtain as x bs where
      ms: "ms = as @ x # bs" and kx: "k = length (entries as) \<or> is_range x \<and> k = length (entries as) + 1" by blast
    define p where "p = int (length (entries (us @ as)))"
    have t: "table_at code start (entries ((us @ as) @ x # bs @ vs))" using less.prems(2) ms by simp
    note lab = table_label [OF t p_def]
    have kind: "entry_kind code start head ((head + tail) div 2) = Some (is_range x, p)"
    proof (rule entry_kind_label [OF t p_def])
      show "\<forall>c\<in>set ((us @ as) @ [x]). target c \<noteq> RANGE_OFFSET" using less.prems(4) ms by auto
      show "(head + tail) div 2 = p \<or> is_range x \<and> (head + tail) div 2 = p + 1"
        using k(1) kx less.prems(5) by (auto simp: p_def)
      show "head \<le> p" "us @ as = [] \<longrightarrow> head = p" using less.prems(5) by (simp_all add: p_def)
    qed
    note ord = in_order_append [OF less.prems(3) [unfolded ms]]
    have cmp: "cmp (label_low x) = Some (c (label_low x))" "cmp (label_high x) = Some (c (label_high x))"
      using less.prems(1) ms by auto
    have left: "switch_loop code start cmp head (p - 1) = Some (map_option target (find (matches c) as))"
    proof (rule less.hyps [of as us "x # bs @ vs"])
      show "length as < length ms" using ms by simp
      show "table_at code start (entries (us @ as @ x # bs @ vs))" using t by simp
      show "in_order c as" using ord by blast
      show "p - 1 = int (length (entries (us @ as))) - 1" by (simp add: p_def)
    qed (use less.prems(1,4,5) ms in auto)
    have right: "switch_loop code start cmp q tail = Some (map_option target (find (matches c) bs))"
      if "q = p + int (length (entries [x]))" for q
    proof (rule less.hyps [of bs "us @ as @ [x]" vs])
      show "length bs < length ms" using ms by simp
      show "table_at code start (entries ((us @ as @ [x]) @ bs @ vs))" using t by simp
      show "in_order c bs" using ord by blast
      show "q = int (length (entries (us @ as @ [x])))" using that by (simp add: p_def)
      show "tail = int (length (entries ((us @ as @ [x]) @ bs))) - 1"
        using less.prems(6) ms by (cases x) simp_all
    qed (use less.prems(1,4) ms in auto)
    have before: "\<forall>d\<in>set as. \<not> matches c d" if "0 \<le> c (label_low x)" using ord that by (auto simp: matches_def)
    have after: "\<forall>d\<in>set (x # bs). \<not> matches c d" if "c (label_low x) < 0" using ord that by (auto simp: matches_def)
    have fl: "find (matches c) ms = find (matches c) as" if "c (label_low x) < 0"
      using after [OF that] unfolding ms by (induction as) (auto simp: find_none)
    have fr: "find (matches c) ms = find (matches c) bs" if "0 < c (label_high x)"
    proof -
      have "0 \<le> c (label_low x)" "\<not> matches c x" using ord that by (auto simp: matches_def)
      then show ?thesis using before unfolding ms by (simp add: find_append_skip)
    qed
    have fx: "find (matches c) ms = Some x" if "matches c x"
      using before that unfolding ms by (simp add: find_append_skip matches_def)
    show ?thesis
    proof (cases x)
      case (Case v t)
      then show ?thesis
        using ht kind lab(1,2) cmp left right [of "p + 1"] fl fr fx
        by (subst switch_loop.simps) (auto simp: matches_def not_less)
    next
      case (Range lo hi t)
      then show ?thesis
        using ht kind lab(1,3) cmp left right [of "p + 2"] fl fr fx
        by (subst switch_loop.simps) (auto simp: matches_def not_less)
    qed
  qed
qed
section \<open>The statement\<close>

text \<open>A \<^verbatim>\<open>switch\<close> instruction in front of its operands, and the table of its labels.\<close>

definition switch_at :: "u8 list \<Rightarrow> nat \<Rightarrow> bool \<Rightarrow> case_label list \<Rightarrow> nat \<Rightarrow> nat \<Rightarrow> bool" where
  "switch_at code pc str cs start dflt \<longleftrightarrow>
     pc < length code \<and> odd (unat (code ! pc)) = str \<and> read_short code (pc + 1) = Some start \<and>
     read_short code (pc + 3) = Some (start + ENTRY_SIZE * length (entries cs)) \<and> read_short code (pc + 5) = Some dflt \<and>
     table_at code start (entries cs) \<and> (\<forall>c\<in>set cs. target c \<noteq> RANGE_OFFSET)"

definition labels :: "case_label list \<Rightarrow> int set" where
  "labels cs = label_low ` set cs \<union> label_high ` set cs"

text \<open>Labels in ascending order, and where the reference finds a value.\<close>

definition ascending :: "(int \<Rightarrow> int \<Rightarrow> int) \<Rightarrow> case_label list \<Rightarrow> bool" where
  "ascending cmp cs \<longleftrightarrow>
     (\<forall>c\<in>set cs. cmp (label_low c) (label_high c) \<le> 0) \<and> sorted_wrt (\<lambda>c d. cmp (label_high c) (label_low d) < 0) cs"

definition select :: "(int \<Rightarrow> int) \<Rightarrow> nat \<Rightarrow> case_label list \<Rightarrow> nat" where
  "select cmp dflt cs = (case find (matches cmp) cs of None \<Rightarrow> dflt | Some c \<Rightarrow> target c)"

lemma read_short_bound: "read_short code a = Some n \<Longrightarrow> n < 65536"
proof -
  assume "read_short code a = Some n"
  then have "n = unat (code ! a) + 256 * unat (code ! (a + 1))" by (simp add: read_short_def split: if_splits)
  moreover have "unat (code ! a) < 256" "unat (code ! (a + 1)) < 256"
    using unsigned_less [of "code ! a", where ?'a = nat] unsigned_less [of "code ! (a + 1)", where ?'a = nat] by simp_all
  ultimately show ?thesis by linarith
qed

lemma sint_small: "- (2 ^ 31) \<le> k \<Longrightarrow> k < 2 ^ 31 \<Longrightarrow> sint (word_of_int k :: u32) = k"
  by (simp add: sint_sbintrunc' signed_take_bit_int_eq_self)

lemma table_tail:
  assumes "switch_at code pc str cs start dflt"
  shows "switch_tail start (start + ENTRY_SIZE * length (entries cs)) = int (length (entries cs)) - 1"
proof -
  let ?n = "length (entries cs)"
  have "start + ENTRY_SIZE * ?n < 65536" using assms read_short_bound by (auto simp: switch_at_def)
  then have n: "?n < 65536" by (simp add: ENTRY_SIZE_def)
  have "(int (start + ENTRY_SIZE * ?n) - int start) mod 2 ^ 32 = 6 * int ?n" using n by (simp add: ENTRY_SIZE_def)
  moreover have "6 * int ?n div int ENTRY_SIZE = int ?n" by (simp add: ENTRY_SIZE_def)
  ultimately show ?thesis using n sint_small [of "int ?n - 1"] unfolding switch_tail_def by simp
qed

lemma search_select:
  assumes "switch_at code pc str (us @ cs) start dflt" "\<And>v. v \<in> labels cs \<Longrightarrow> cmp v = Some (c v)" "in_order c cs"
    "head = int (length (entries us))"
  shows "map_option (\<lambda>r. case r of None \<Rightarrow> dflt | Some t \<Rightarrow> t)
      (switch_loop code start cmp head (int (length (entries (us @ cs))) - 1)) = Some (select c dflt cs)"
proof -
  have "switch_loop code start cmp head (int (length (entries (us @ cs))) - 1) = Some (map_option target (find (matches c) cs))"
    using assms by (intro switch_loop_law [of cs _ _ _ _ us "[]"]) (auto simp: switch_at_def labels_def)
  then show ?thesis by (simp add: select_def split: option.splits)
qed

text \<open>The order of numbers and the order of strings.\<close>

lemma in_order_numbers:
  assumes "ascending (\<lambda>a b. a - b) cs" "\<And>v. v \<in> labels cs \<Longrightarrow> c v = n - v"
  shows "in_order c cs"
  using assms
proof (induction cs)
  case (Cons x cs)
  have "in_order c cs" using Cons by (intro Cons.IH) (auto simp: ascending_def labels_def)
  moreover have "c (label_low x) = n - label_low x" "c (label_high x) = n - label_high x"
    "\<And>d. d \<in> set cs \<Longrightarrow> c (label_low d) = n - label_low d" using Cons.prems(2) by (auto simp: labels_def)
  ultimately show ?case using Cons.prems(1) by (fastforce simp: ascending_def)
qed simp

lemma strcmp_order:
  "strcmp a b \<le> 0 \<Longrightarrow> strcmp b c < 0 \<Longrightarrow> strcmp a c < 0" "strcmp a b < 0 \<Longrightarrow> strcmp b c \<le> 0 \<Longrightarrow> strcmp a c < 0"
proof -
  have "(strcmp a b \<le> 0 \<longrightarrow> strcmp b c < 0 \<longrightarrow> strcmp a c < 0) \<and> (strcmp a b < 0 \<longrightarrow> strcmp b c \<le> 0 \<longrightarrow> strcmp a c < 0)"
  proof (induction a b arbitrary: c rule: strcmp.induct)
    case (4 x s y t)
    then show ?case by (cases c) (auto split: if_splits)
  next
    case (2 y t)
    then show ?case by (cases c) auto
  qed auto
  then show "strcmp a b \<le> 0 \<Longrightarrow> strcmp b c < 0 \<Longrightarrow> strcmp a c < 0" "strcmp a b < 0 \<Longrightarrow> strcmp b c \<le> 0 \<Longrightarrow> strcmp a c < 0"
    by blast+
qed

lemma in_order_strings:
  assumes "ascending (\<lambda>a b. strcmp (text a) (text b)) cs"
  shows "in_order (\<lambda>v. strcmp s (text v)) cs"
  using assms
proof (induction cs)
  case (Cons x cs)
  then have "in_order (\<lambda>v. strcmp s (text v)) cs" by (simp add: ascending_def)
  moreover have "strcmp (text (label_low x)) (text (label_high x)) \<le> 0"
    "\<And>d. d \<in> set cs \<Longrightarrow> strcmp (text (label_high x)) (text (label_low d)) < 0" using Cons.prems by (auto simp: ascending_def)
  ultimately show ?case using strcmp_order by fastforce
qed simp

lemma f_switch_number:
  assumes "switch_at code pc False cs start dflt" "stk m = V (T_NUMBER n) # st" "ascending (\<lambda>a b. a - b) cs"
    "\<forall>v\<in>labels cs. \<bar>sint n - v\<bar> < 2 ^ 31"
  shows "f_switch code rodata pc m = Inr (select (\<lambda>v. sint n - v) dflt cs, m\<lparr>stk := st\<rparr>)"
proof -
  have c: "cmp_values rodata (Number (sint n)) v = Some (sint n - v)" if "v \<in> labels cs" for v
  proof -
    have "\<bar>sint n - v\<bar> < 2 ^ 31" using assms(4) that by blast
    then have "sint (word_of_int (sint n - v) :: u32) = sint n - v" by (intro sint_small) auto
    then show ?thesis by (simp only: cmp_values_def search_val.case)
  qed
  have s: "map_option (\<lambda>r. case r of None \<Rightarrow> dflt | Some t \<Rightarrow> t)
      (switch_loop code start (cmp_values rodata (Number (sint n))) 0 (int (length (entries cs)) - 1)) = Some (select (\<lambda>v. sint n - v) dflt cs)"
    using search_select [of code pc False "[]" cs start dflt, OF _ c in_order_numbers [OF assms(3) refl], of 0] assms(1) by simp
  show ?thesis
    using assms(1) s unfolding f_switch_def assms(2) switch_at_def Let_def
    by (auto simp: table_tail [OF assms(1)])
qed

lemma f_switch_string:
  assumes "switch_at code pc True (Case v0 t0 # cs) start dflt" "stk m = x # st"
    "ascending (\<lambda>a b. strcmp (text a) (text b)) cs" "\<forall>v\<in>labels cs. 0 \<le> v \<and> string_at rodata (nat v) = Some (text v)"
  shows "x = V (T_NUMBER 0) \<Longrightarrow> f_switch code rodata pc m = Inr (t0, m\<lparr>stk := st\<rparr>)"
    "x = V (T_STRING s) \<Longrightarrow> f_switch code rodata pc m = Inr (select (\<lambda>v. strcmp s (text v)) dflt cs, m\<lparr>stk := st\<rparr>)"
proof -
  have "entry_offset code start 0 = Some t0" using assms(1) by (auto simp: switch_at_def table_at_def)
  then show "x = V (T_NUMBER 0) \<Longrightarrow> f_switch code rodata pc m = Inr (t0, m\<lparr>stk := st\<rparr>)"
    using assms(1) unfolding f_switch_def assms(2) switch_at_def Let_def by simp
  have c: "cmp_values rodata (Text s) v = Some (strcmp s (text v))" if "v \<in> labels cs" for v
    using assms(4) that by (auto simp: cmp_values_def)
  have s: "map_option (\<lambda>r. case r of None \<Rightarrow> dflt | Some t \<Rightarrow> t)
      (switch_loop code start (cmp_values rodata (Text s)) 1 (int (length (entries (Case v0 t0 # cs))) - 1)) =
      Some (select (\<lambda>v. strcmp s (text v)) dflt cs)"
    using search_select [of code pc True "[Case v0 t0]" cs start dflt, OF _ c in_order_strings [OF assms(3)], of 1] assms(1) by simp
  show "x = V (T_STRING s) \<Longrightarrow> f_switch code rodata pc m = Inr (select (\<lambda>v. strcmp s (text v)) dflt cs, m\<lparr>stk := st\<rparr>)"
    using assms(1) s unfolding f_switch_def assms(2) switch_at_def Let_def
    by (auto simp: table_tail [OF assms(1)] as_num_def simp del: entries.simps)
qed

text \<open>C27. The binary search of \<^verbatim>\<open>switch\<close> jumps where a search through the labels one after the other would: to the target of the
  label or range that the value matches, and to the default otherwise.  Numbers need a table in ascending order, and no label
  may be further than an \<^verbatim>\<open>int\<close> away from the value; strings need labels in the order of \<^verbatim>\<open>strcmp\<close> behind the entry for
  0, which the number 0 selects.\<close>

theorem switch_search:
  "(switch_at code pc False cs start dflt \<and> stk m = V (T_NUMBER n) # st \<and>
        ascending (\<lambda>a b. a - b) cs \<and> (\<forall>v\<in>labels cs. \<bar>sint n - v\<bar> < 2 ^ 31) \<longrightarrow>
      f_switch code rodata pc m = Inr (select (\<lambda>v. sint n - v) dflt cs, m\<lparr>stk := st\<rparr>)) \<and>
    (switch_at code pc True (Case v0 t0 # ds) start dflt \<and> ascending (\<lambda>a b. strcmp (text a) (text b)) ds \<and>
        (\<forall>v\<in>labels ds. 0 \<le> v \<and> string_at rodata (nat v) = Some (text v)) \<longrightarrow>
      (stk m = V (T_NUMBER 0) # st \<longrightarrow> f_switch code rodata pc m = Inr (t0, m\<lparr>stk := st\<rparr>)) \<and>
      (stk m = V (T_STRING s) # st \<longrightarrow>
         f_switch code rodata pc m = Inr (select (\<lambda>v. strcmp s (text v)) dflt ds, m\<lparr>stk := st\<rparr>)))"
proof (intro conjI impI, goal_cases)
  case 1
  then show ?case by (intro f_switch_number) auto
next
  case 2
  then show ?case by (intro f_switch_string(1)) auto
next
  case 3
  then show ?case by (intro f_switch_string(2)) auto
qed

text \<open>A table with a label and a range, and the defect of the comparison: a table with labels far apart.\<close>

definition demo_switch :: "u8 list" where
  "demo_switch = [0, 7, 0, 25, 0, 99, 0] @
     [5, 0, 0, 0, 40, 0] @ [10, 0, 0, 0, 255, 255] @ [20, 0, 0, 0, 50, 0]"

definition far_switch :: "u8 list" where
  "far_switch = [0, 7, 0, 31, 0, 99, 0] @
     [246, 255, 255, 255, 40, 0] @ [251, 255, 255, 255, 50, 0] @ [0, 0, 0, 0, 60, 0] @ [255, 255, 255, 127, 70, 0]"

lemma demo_switch_table: "switch_at demo_switch 0 False [Case 5 40, Range 10 20 50] 7 99"
  by (simp add: switch_at_def demo_switch_def read_short_def read_int_def table_at_def entry_value_def entry_offset_def
      ENTRY_SIZE_def E_OFFSET_def RANGE_OFFSET_def less_Suc_eq)

theorem switch_search_witness:
  "f_switch demo_switch [] 0 (demo_interp\<lparr>stk := [V (T_NUMBER 15)]\<rparr>) = Inr (50, demo_interp\<lparr>stk := []\<rparr>)"
proof -
  have "f_switch demo_switch [] 0 (demo_interp\<lparr>stk := [V (T_NUMBER 15)]\<rparr>) =
    Inr (select (\<lambda>v. sint (15 :: u32) - v) 99 [Case 5 40, Range 10 20 50], demo_interp\<lparr>stk := [V (T_NUMBER 15)]\<rparr>\<lparr>stk := []\<rparr>)"
    using switch_search [of demo_switch 0 "[Case 5 40, Range 10 20 50]" 7 99 "demo_interp\<lparr>stk := [V (T_NUMBER 15)]\<rparr>" 15 "[]" "[]"] demo_switch_table
    by (simp add: ascending_def labels_def)
  then show ?thesis by (simp add: select_def matches_def)
qed

definition far_labels :: "case_label list" where
  "far_labels = [Case (- 10) 40, Case (- 5) 50, Case 0 60, Case 2147483647 70]"

lemma far_switch_table: "switch_at far_switch 0 False far_labels 7 99" "ascending (\<lambda>a b. a - b) far_labels"
  by (simp_all add: switch_at_def far_switch_def far_labels_def read_short_def read_int_def table_at_def entry_value_def
      entry_offset_def ENTRY_SIZE_def E_OFFSET_def RANGE_OFFSET_def less_Suc_eq ascending_def)

lemma far_search: "switch_loop far_switch 7 (cmp_values [] (Number 2147483647)) 0 3 = Some None"
proof -
  have "table_at far_switch 7 (entries far_labels)" using far_switch_table by (simp add: switch_at_def)
  then have e: "entry_value far_switch 7 0 = Some (- 10)" "entry_offset far_switch 7 0 = Some 40"
    "entry_value far_switch 7 1 = Some (- 5)" "entry_offset far_switch 7 1 = Some 50"
    by (auto simp: table_at_def far_labels_def less_Suc_eq)
  have c: "cmp_values [] (Number 2147483647) (- 10) = Some (- 2147483639)" "cmp_values [] (Number 2147483647) (- 5) = Some (- 2147483644)"
    by (simp_all add: cmp_values_def)
  have k: "entry_kind far_switch 7 0 1 = Some (False, 1)" "entry_kind far_switch 7 0 0 = Some (False, 0)"
    using e by (simp_all add: entry_kind_def RANGE_OFFSET_def)
  have 0: "switch_loop far_switch 7 (cmp_values [] (Number 2147483647)) 0 (- 1) = Some None" by (subst switch_loop.simps) simp
  have 1: "switch_loop far_switch 7 (cmp_values [] (Number 2147483647)) 0 0 = Some None"
    using 0 by (subst switch_loop.simps) (simp add: k e c)
  show ?thesis using 1 by (subst switch_loop.simps) (simp add: k e c)
qed

text \<open>The largest number is a label of this table, but the search ends at the default.\<close>

lemma switch_misses_label:
  "f_switch far_switch [] 0 (demo_interp\<lparr>stk := [V (T_NUMBER 2147483647)]\<rparr>) = Inr (99, demo_interp\<lparr>stk := []\<rparr>)"
proof -
  have "switch_tail 7 31 = 3" by (simp add: switch_tail_def ENTRY_SIZE_def)
  then show ?thesis using far_search far_switch_table(1) [unfolded switch_at_def]
    by (simp add: f_switch_def ENTRY_SIZE_def far_labels_def)
qed

end
