(* ===== verification/Eval.thy ===== *)
theory Eval
  imports Lpc_Switch
begin

text \<open>
  The byte code interpreter (\<^verbatim>\<open>src/interpret.c\<close>): the registers, the control stack, calls of functions and their frames,
  \<^verbatim>\<open>catch\<close> with its stack of error contexts, and the loop \<^verbatim>\<open>eval_instruction\<close>.

  The numbers of instructions, the table of their argument types and the table of functions that carry them out are generated
  when the driver is built; they are the parameter \<open>vm\<close>, together with the texts of messages.  The functions of the theories
  \<open>Operators\<close> and \<open>Lpc_Switch\<close> are entries of that table, where \<^const>\<open>None\<close> is a function that never returns.  An error of C code, which is a \<^verbatim>\<open>longjmp\<close>, ends the recursion of the
  evaluation with the outcome \<open>Failed\<close>; \<open>Crashed\<close> is an access outside of a program or of a stack.  \<^const>\<open>None\<close> is an evaluation that
  does not end.  Programs are in memory: swapping is not modelled here, nor are the profiling options, which are off.
\<close>

unbundle bit_operations_syntax

section \<open>Registers and stacks\<close>

definition MAX_TRACE :: nat where "MAX_TRACE = 0x100"
definition MAX_COST :: int where "MAX_COST = 500000"
definition EXTRA_COST :: int where "EXTRA_COST = 1000"

datatype lpc_error = Op op_error | Too_long_evaluation | Too_deep_recursion | Stack_overflow_push | Throw

record lpc_function =
  fn_offset :: nat
  fn_num_local :: nat
  fn_num_arg :: nat
  fn_true_varargs :: bool
  fn_prototype :: bool

record lpc_program =
  pr_code :: "u8 list"
  pr_rodata :: "u8 list"
  pr_inherit :: "nat list"
  pr_functions :: "lpc_function list"

record control =
  cs_ob :: "nat option"
  cs_prev_ob :: "nat option"
  cs_prog :: "nat option"
  cs_num_local :: int
  cs_pc :: nat
  cs_fp :: nat
  cs_extern :: bool
  cs_inh_offset :: int

record error_context =
  ec_csp :: nat
  ec_command_giver :: "nat option"
  ec_sp :: nat
  ec_cstack :: control

text \<open>
  \<open>csp\<close> is the number of used elements of the control stack, whose top is \<open>cstack (csp - 1)\<close>, and \<open>fp\<close> the number of values below
  the first local variable.
\<close>

record machine = interp +
  current_object :: "nat option"
  previous_ob :: "nat option"
  current_prog :: "nat option"
  progs :: "nat \<Rightarrow> lpc_program"
  ob_prog :: "nat \<Rightarrow> nat"
  pc :: nat
  fp :: nat
  inh_offset :: int
  cstack :: "nat \<Rightarrow> control"
  csp :: nat
  eval_cost :: int
  catch_level :: int
  catch_value :: sval
  cmd_giver :: "nat option"
  ecsp :: "error_context list"

definition top_frame :: "machine \<Rightarrow> control" where "top_frame m = cstack m (csp m - 1)"

definition set_frame :: "(control \<Rightarrow> control) \<Rightarrow> machine \<Rightarrow> machine" where
  "set_frame f m = m\<lparr>cstack := (cstack m)(csp m - 1 := f (top_frame m))\<rparr>"

definition save_control_context :: "machine \<Rightarrow> control \<Rightarrow> control" where
  "save_control_context m c =
     c\<lparr>cs_ob := current_object m, cs_prev_ob := previous_ob m, cs_fp := fp m, cs_prog := current_prog m, cs_extern := False,
       cs_pc := (if current_prog m = None then cs_pc c else pc m), cs_inh_offset := inh_offset m\<rparr>"

definition push_control_stack :: "machine \<Rightarrow> (lpc_error \<times> machine) + machine" where
  "push_control_stack m =
     (if csp m \<ge> MAX_TRACE then Inl (Too_deep_recursion, m)
      else Inr (m\<lparr>csp := csp m + 1, cstack := (cstack m)(csp m := save_control_context m (cstack m (csp m)))\<rparr>))"

definition restore_control_context :: "control \<Rightarrow> machine \<Rightarrow> machine" where
  "restore_control_context c m =
     m\<lparr>current_object := cs_ob c, current_prog := cs_prog c, pc := (if cs_prog c = None then pc m else cs_pc c),
       previous_ob := cs_prev_ob c, fp := cs_fp c, inh_offset := cs_inh_offset c\<rparr>"

definition pop_control_stack :: "machine \<Rightarrow> machine" where
  "pop_control_stack m = (restore_control_context (top_frame m) m)\<lparr>csp := csp m - 1\<rparr>"

section \<open>Calling functions\<close>

definition op_result :: "(op_error \<times> machine) + 'b \<Rightarrow> (lpc_error \<times> machine) + 'b" where
  "op_result r = map_sum (\<lambda>(e, m). (Op e, m)) id r"

fun push_zeros :: "nat \<Rightarrow> machine \<Rightarrow> (lpc_error \<times> machine) + machine" where
  "push_zeros 0 m = Inr m"
| "push_zeros (Suc k) m =
     ebind (op_result (push (V const0) m)) (\<lambda>m. push_zeros k (set_frame (\<lambda>c. c\<lparr>cs_num_local := cs_num_local c + 1\<rparr>) m))"

text \<open>The arguments on the stack become as many as the function has: superfluous ones go, or into one array.\<close>

definition fit_args :: "save_env \<Rightarrow> lpc_function \<Rightarrow> machine \<Rightarrow> (lpc_error \<times> machine) + machine" where
  "fit_args E f m =
     (let n = nat (cs_num_local (top_frame m))
      in if fn_true_varargs f
         then (if n \<ge> fn_num_arg f
               then (let narg = n + 1 - fn_num_arg f
                     in case args narg m of
                          None \<Rightarrow> Inl (Op Crash, m)
                        | Some vs \<Rightarrow>
                            (case ebind (allocate_array (int narg)) (\<lambda>d. array_store d 0 vs) of
                               Inl e \<Rightarrow> Inl (Op (Array_error e), m)
                             | Inr v \<Rightarrow>
                                 (let (x, h) = put_vec E v (heap m)
                                  in Inr (set_frame (\<lambda>c. c\<lparr>cs_num_local := cs_num_local c - int (narg - 1)\<rparr>)
                                            (m\<lparr>stk := V x # drop narg (stk m), heap := h\<rparr>)))))
               else Inr m)
         else (let k = n - fn_num_arg f
               in Inr (set_frame (\<lambda>c. c\<lparr>cs_num_local := cs_num_local c - int k\<rparr>) (m\<lparr>stk := drop k (stk m)\<rparr>))))"

text \<open>A function called with fewer arguments starts at another address, which a table in front of its code has.\<close>

definition setup_new_frame :: "save_env \<Rightarrow> lpc_function \<Rightarrow> machine \<Rightarrow> (lpc_error \<times> machine) + machine" where
  "setup_new_frame E f m =
     ebind (fit_args E f m) (\<lambda>m.
       let called_args = nat (cs_num_local (top_frame m))
       in ebind (push_zeros (fn_num_arg f + fn_num_local f - called_args) m) (\<lambda>m.
            case (if called_args = fn_num_arg f then Some ((fn_offset f + fn_num_arg f * 2) mod 2 ^ 16)
                  else case current_prog m of
                         None \<Rightarrow> None
                       | Some p \<Rightarrow> read_short (pr_code (progs m p)) (fn_offset f + called_args * 2)) of
              None \<Rightarrow> Inl (Op Crash, m)
            | Some npc \<Rightarrow> Inr (m\<lparr>fp := length (stk m) - nat (cs_num_local (top_frame m)), pc := npc\<rparr>)))"

text \<open>
  The common part of the calls: \<open>prog\<close> is the program of the function, \<open>inh\<close> its place in the list of inherited programs.
\<close>

definition enter_function ::
  "save_env \<Rightarrow> bool \<Rightarrow> nat \<Rightarrow> lpc_function \<Rightarrow> int \<Rightarrow> int \<Rightarrow> nat option \<Rightarrow> machine \<Rightarrow> (lpc_error \<times> machine) + machine" where
  "enter_function E extern prog f num_arg inh ob m =
     ebind (push_control_stack m) (\<lambda>m.
     ebind (setup_new_frame E f (set_frame (\<lambda>c. c\<lparr>cs_num_local := num_arg\<rparr>)
             (case ob of
                None \<Rightarrow> m\<lparr>inh_offset := inh, current_prog := Some prog\<rparr>
              | Some x \<Rightarrow> m\<lparr>inh_offset := inh, current_prog := Some prog, previous_ob := current_object m, current_object := Some x\<rparr>)))
       (\<lambda>m. Inr (set_frame (\<lambda>c. c\<lparr>cs_extern := extern\<rparr>) m)))"

definition f_call_non_virt :: "save_env \<Rightarrow> machine \<Rightarrow> (lpc_error \<times> machine) + machine" where
  "f_call_non_virt E m =
     (case current_prog m of
        None \<Rightarrow> Inl (Op Crash, m)
      | Some p \<Rightarrow>
          (let code = pr_code (progs m p); inherit = pr_inherit (progs m p)
           in case (pc m < length code, read_short code (pc m + 1), pc m + 3 < length code) of
                (True, Some fix, True) \<Rightarrow>
                  (let fiix = unat (code ! pc m); num_arg = uint (code ! (pc m + 3));
                       inh = int fiix - (int (length inherit) - 1); q = inherit ! fiix; m = m\<lparr>pc := pc m + 4\<rparr>
                   in if fiix < length inherit \<and> fix < length (pr_functions (progs m q))
                      then enter_function E False q (pr_functions (progs m q) ! fix) num_arg (inh_offset m + inh) None m
                      else Inl (Op Crash, m))
              | _ \<Rightarrow> Inl (Op Crash, m)))"

text \<open>The end of a function: the answer stays, the local variables go, and the registers of the caller come back.\<close>

definition do_return :: "machine \<Rightarrow> (bool \<times> machine) option" where
  "do_return m =
     (if csp m = 0 then None
      else let n = nat (cs_num_local (top_frame m));
               extern = cs_extern (top_frame m)
           in if n = 0 then Some (extern, pop_control_stack m)
              else case stk m of
                     [] \<Rightarrow> None
                   | x # st \<Rightarrow> if length st < n then None else Some (extern, pop_control_stack (m\<lparr>stk := x # drop n st\<rparr>)))"

section \<open>Error contexts\<close>

text \<open>Of a new context only the fields that are saved here are ever read.\<close>

definition no_context :: control where
  "no_context = \<lparr>cs_ob = None, cs_prev_ob = None, cs_prog = None, cs_num_local = 0, cs_pc = 0, cs_fp = 0, cs_extern = False,
     cs_inh_offset = 0\<rparr>"

definition push_error_context :: "machine \<Rightarrow> machine" where
  "push_error_context m =
     m\<lparr>ecsp := \<lparr>ec_csp = csp m, ec_command_giver = cmd_giver m, ec_sp = length (stk m),
               ec_cstack = save_control_context m no_context\<rparr> # ecsp m\<rparr>"

text \<open>\<^verbatim>\<open>push_pop_error_context(-1)\<close>: the stacks are cut back, the registers restored.\<close>

definition pop_error_context :: "machine \<Rightarrow> machine option" where
  "pop_error_context m =
     (case ecsp m of
        [] \<Rightarrow> None
      | p # ps \<Rightarrow>
          Some (restore_control_context (ec_cstack p)
            (m\<lparr>csp := ec_csp p, stk := drop (length (stk m) - ec_sp p) (stk m), cmd_giver := ec_command_giver p, ecsp := ps\<rparr>)))"

definition push_svalue :: "sval \<Rightarrow> machine \<Rightarrow> (lpc_error \<times> machine) + machine" where
  "push_svalue v m =
     (if length (stk m) \<ge> EVALUATOR_STACK_SIZE then Inl (Stack_overflow_push, m) else Inr (m\<lparr>stk := V v # stk m\<rparr>))"

text \<open>The instructions \<^verbatim>\<open>F_CATCH\<close>, before the recursive evaluation and after an error in it, and \<^verbatim>\<open>F_END_CATCH\<close>.\<close>

definition catch_enter :: "machine \<Rightarrow> machine option" where
  "catch_enter m =
     (case current_prog m of
        None \<Rightarrow> None
      | Some p \<Rightarrow>
          (case read_short (pr_code (progs m p)) (pc m) of
             None \<Rightarrow> None
           | Some new_pc \<Rightarrow>
               Some ((push_error_context (m\<lparr>pc := new_pc\<rparr>))\<lparr>catch_level := catch_level m + 1, pc := pc m + 2\<rparr>)))"

definition caught :: "(lpc_error \<Rightarrow> u8 list) \<Rightarrow> lpc_error \<Rightarrow> machine \<Rightarrow> sval" where
  "caught msg e m = (if e = Throw then catch_value m else T_STRING (42 # msg e))"

definition catch_failed :: "(lpc_error \<Rightarrow> u8 list) \<Rightarrow> lpc_error \<Rightarrow> machine \<Rightarrow> ((lpc_error \<times> machine) + machine) option" where
  "catch_failed msg e m =
     map_option (\<lambda>m1.
       let v = caught msg e m; m1 = m1\<lparr>catch_level := catch_level m1 - 1, catch_value := v\<rparr>
       in ebind (push_svalue v m1) (\<lambda>m2.
            Inr ((if eval_cost m2 = 0
                  then m2\<lparr>eval_cost := (if catch_level m2 = 0 then MAX_COST - EXTRA_COST else MAX_COST)\<rparr>
                  else m2)\<lparr>catch_value := const1\<rparr>)))
       (pop_error_context m)"

definition catch_leave :: "machine \<Rightarrow> ((lpc_error \<times> machine) + machine) option" where
  "catch_leave m =
     map_option (\<lambda>m1. push_svalue const0 (m1\<lparr>catch_level := catch_level m1 - 1\<rparr>)) (pop_error_context m)"

section \<open>The loop\<close>

record instr =
  max_arg :: int
  min_arg :: int
  arg_type1 :: u8
  arg_type2 :: u8

text \<open>What is generated or, in case of the messages, only printed.\<close>

record vm =
  F_EXT :: nat
  F_RETURN :: nat
  F_CATCH :: nat
  F_END_CATCH :: nat
  instrs :: "nat \<Rightarrow> instr"
  efun_table :: "nat \<Rightarrow> nat \<Rightarrow> machine \<Rightarrow> ((lpc_error \<times> machine) + machine) option"
  message :: "lpc_error \<Rightarrow> u8 list"

text \<open>
  \<open>Escaped\<close> is an error in the end of a catch, which has already left its error context: the next outer catch gets it.
\<close>

datatype eval_outcome = Returned | Failed lpc_error | Escaped lpc_error | Crashed

fun slot_type :: "slot \<Rightarrow> u8" where
  "slot_type (LV l) = 1"
| "slot_type (V v) = of_nat (svalue_type v)"

text \<open>The test of the types of the first two arguments.\<close>

definition check_types :: "instr \<Rightarrow> nat \<Rightarrow> machine \<Rightarrow> lpc_error option" where
  "check_types i num_arg m =
     (if num_arg = 0 then None
      else if length (stk m) < num_arg then Some (Op Crash)
      else if arg_type1 i \<noteq> 0 \<and> arg_type1 i AND slot_type (stk m ! (num_arg - 1)) = 0 then Some (Op (Bad_arg 1))
      else if num_arg > 1 \<and> arg_type2 i \<noteq> 0 \<and> arg_type2 i AND slot_type (stk m ! (num_arg - 2)) = 0 then Some (Op (Bad_arg 2))
      else None)"

text \<open>
  The part of the loop before the \<^verbatim>\<open>switch\<close>: the next instruction and the number of its arguments, the count of
  instructions, and the types.
\<close>

definition fetch :: "vm \<Rightarrow> bool \<Rightarrow> machine \<Rightarrow> (eval_outcome \<times> machine) + (nat \<times> nat \<times> machine)" where
  "fetch vm unlimited m =
     (case current_prog m of
        None \<Rightarrow> Inl (Crashed, m)
      | Some p \<Rightarrow>
          (let code = pr_code (progs m p)
           in if pc m \<ge> length code then Inl (Crashed, m)
              else let i = unat (code ! pc m);
                       next = (if i = F_EXT vm then map_option (\<lambda>j. (j, pc m + 3)) (read_short code (pc m + 1)) else Some (i, pc m + 1))
                   in case next of
                        None \<Rightarrow> Inl (Crashed, m)
                      | Some (instruction, pc1) \<Rightarrow>
                          (let m = m\<lparr>pc := pc1, eval_cost := eval_cost m + 1\<rparr>; ins = instrs vm instruction
                           in if \<not> unlimited \<and> eval_cost m > MAX_COST
                              then Inl (Failed Too_long_evaluation, m\<lparr>eval_cost := 0\<rparr>)
                              else if min_arg ins \<noteq> max_arg ins \<and> pc m \<ge> length code then Inl (Crashed, m)
                              else let (num_arg, m) = (if min_arg ins \<noteq> max_arg ins then (unat (code ! pc m), m\<lparr>pc := pc m + 1\<rparr>)
                                                       else (nat (min_arg ins), m))
                                   in case check_types ins num_arg m of
                                        Some (Op Crash) \<Rightarrow> Inl (Crashed, m)
                                      | Some e \<Rightarrow> Inl (Failed e, m)
                                      | None \<Rightarrow> Inr (instruction, num_arg, m))))"

partial_function (option) eval_instruction :: "vm \<Rightarrow> bool \<Rightarrow> machine \<Rightarrow> (eval_outcome \<times> machine) option" where
  "eval_instruction vm unlimited m =
     (case fetch vm unlimited m of
        Inl r \<Rightarrow> Some r
      | Inr (instruction, num_arg, m1) \<Rightarrow>
          if instruction = F_RETURN vm
          then (case do_return m1 of
                  None \<Rightarrow> Some (Crashed, m1)
                | Some (extern, m2) \<Rightarrow> if extern then Some (Returned, m2) else eval_instruction vm unlimited m2)
          else if instruction = F_CATCH vm
          then (case catch_enter m1 of
                  None \<Rightarrow> Some (Crashed, m1)
                | Some m2 \<Rightarrow>
                    Option.bind (eval_instruction vm unlimited m2) (\<lambda>(r, m3).
                      case r of
                        Crashed \<Rightarrow> Some (Crashed, m3)
                      | Escaped e \<Rightarrow> Some (Failed e, m3)
                      | Returned \<Rightarrow> eval_instruction vm unlimited (m3\<lparr>catch_value := const1\<rparr>)
                      | Failed e \<Rightarrow>
                          (case catch_failed (message vm) e m3 of
                             None \<Rightarrow> Some (Crashed, m3)
                           | Some (Inl (e', m4)) \<Rightarrow> Some (Failed e', m4)
                           | Some (Inr m4) \<Rightarrow> eval_instruction vm unlimited m4)))
          else if instruction = F_END_CATCH vm
          then (case catch_leave m1 of
                  None \<Rightarrow> Some (Crashed, m1)
                | Some (Inl (e, m2)) \<Rightarrow> Some (Escaped e, m2)
                | Some (Inr m2) \<Rightarrow> Some (Returned, m2))
          else (case efun_table vm instruction num_arg m1 of
                  None \<Rightarrow> None
                | Some (Inl (e, m2)) \<Rightarrow> Some (Failed e, m2)
                | Some (Inr m2) \<Rightarrow> eval_instruction vm unlimited m2))"

text \<open>Calling a function of an object from C code.\<close>

definition call_function :: "save_env \<Rightarrow> vm \<Rightarrow> bool \<Rightarrow> nat \<Rightarrow> int \<Rightarrow> nat \<Rightarrow> nat \<Rightarrow> machine \<Rightarrow> (eval_outcome \<times> machine) option" where
  "call_function E vm unlimited ob inh_index fun num_arg m =
     (let inherit = pr_inherit (progs m (ob_prog m ob)); q = inherit ! nat inh_index
      in if inh_index < 0 \<or> inh_index \<ge> int (length inherit) \<or> fun \<ge> length (pr_functions (progs m q))
         then (case op_result (push (V const0) (m\<lparr>stk := drop num_arg (stk m)\<rparr>)) of
                 Inl (e, m1) \<Rightarrow> Some (Failed e, m1)
               | Inr m1 \<Rightarrow> Some (Returned, m1))
         else let f = pr_functions (progs m q) ! fun
              in if fn_prototype f then Some (Returned, m)
                 else case enter_function E True q f (int num_arg) inh_index (Some ob) m of
                        Inl (e, m1) \<Rightarrow> Some (Failed e, m1)
                      | Inr m1 \<Rightarrow> eval_instruction vm unlimited m1)"

section \<open>Instructions of the machine\<close>

text \<open>
  Jumps.  The tests of \<^verbatim>\<open>f_jump_when_zero\<close> and \<^verbatim>\<open>f_jump_when_non_zero\<close> read the union of the value as a number whatever its type
  is: a float is zero when its bits are, and a pointer is taken to have bits that are not all 0.
\<close>

definition union_zero :: "slot \<Rightarrow> bool" where
  "union_zero x = (case x of V (T_NUMBER n) \<Rightarrow> n = 0 | V (T_FLOAT r) \<Rightarrow> r = 0 | _ \<Rightarrow> False)"

definition jump_target :: "machine \<Rightarrow> nat option" where
  "jump_target m = (case current_prog m of None \<Rightarrow> None | Some p \<Rightarrow> read_short (pr_code (progs m p)) (pc m))"

definition f_jump :: "machine \<Rightarrow> (lpc_error \<times> machine) + machine" where
  "f_jump m = (case jump_target m of None \<Rightarrow> Inl (Op Crash, m) | Some t \<Rightarrow> Inr (m\<lparr>pc := t\<rparr>))"

definition f_jump_when_zero :: "machine \<Rightarrow> (lpc_error \<times> machine) + machine" where
  "f_jump_when_zero m =
     (case (jump_target m, stk m) of
        (Some t, x # st) \<Rightarrow> Inr (m\<lparr>pc := (if union_zero x then t else pc m + 2), stk := st\<rparr>)
      | _ \<Rightarrow> Inl (Op Crash, m))"

definition f_jump_when_non_zero :: "machine \<Rightarrow> (lpc_error \<times> machine) + machine" where
  "f_jump_when_non_zero m =
     (case (jump_target m, stk m) of
        (Some t, x # st) \<Rightarrow> Inr (m\<lparr>pc := (if union_zero x then pc m + 2 else t), stk := st\<rparr>)
      | _ \<Rightarrow> Inl (Op Crash, m))"

definition f_skip_nz :: "machine \<Rightarrow> (lpc_error \<times> machine) + machine" where
  "f_skip_nz m =
     (case (jump_target m, stk m) of
        (Some t, x # st) \<Rightarrow> if as_num x = Some 0 then Inr (m\<lparr>pc := pc m + 2, stk := st\<rparr>) else Inr (m\<lparr>pc := t\<rparr>)
      | _ \<Rightarrow> Inl (Op Crash, m))"

definition f_number :: "machine \<Rightarrow> (lpc_error \<times> machine) + machine" where
  "f_number m =
     (case current_prog m of
        None \<Rightarrow> Inl (Op Crash, m)
      | Some p \<Rightarrow>
          (case read_int (pr_code (progs m p)) (pc m) of
             None \<Rightarrow> Inl (Op Crash, m)
           | Some i \<Rightarrow> op_result (push (V (T_NUMBER (word_of_int i))) (m\<lparr>pc := pc m + 4\<rparr>))))"

definition f_local_name :: "objs \<Rightarrow> machine \<Rightarrow> (lpc_error \<times> machine) + machine" where
  "f_local_name H m =
     (case current_prog m of
        None \<Rightarrow> Inl (Op Crash, m)
      | Some p \<Rightarrow>
          (let code = pr_code (progs m p)
           in if pc m \<ge> length code then Inl (Op Crash, m)
              else case read_lv H (Lv_stack (fp m + unat (code ! pc m))) m of
                     None \<Rightarrow> Inl (Op Crash, m)
                   | Some v \<Rightarrow> op_result (push (V (fetched H v)) (m\<lparr>pc := pc m + 1\<rparr>))))"

definition f_push_local_variable_lvalue :: "machine \<Rightarrow> (lpc_error \<times> machine) + machine" where
  "f_push_local_variable_lvalue m =
     (case current_prog m of
        None \<Rightarrow> Inl (Op Crash, m)
      | Some p \<Rightarrow>
          (let code = pr_code (progs m p)
           in if pc m \<ge> length code then Inl (Op Crash, m)
              else op_result (push (LV (Lv_stack (fp m + unat (code ! pc m)))) (m\<lparr>pc := pc m + 1\<rparr>))))"

definition f_throw :: "machine \<Rightarrow> (lpc_error \<times> machine) + machine" where
  "f_throw m =
     (case stk m of
        V v # st \<Rightarrow> if is_zero v then Inl (Op Bad_type, m) else Inl (Throw, m\<lparr>catch_value := v, stk := st\<rparr>)
      | _ \<Rightarrow> Inl (Op Crash, m))"

definition f_aggregate :: "save_env \<Rightarrow> machine \<Rightarrow> (lpc_error \<times> machine) + machine" where
  "f_aggregate E m =
     (case jump_target m of
        None \<Rightarrow> Inl (Op Crash, m)
      | Some num \<Rightarrow>
          (case args num m of
             None \<Rightarrow> Inl (Op Crash, m)
           | Some vs \<Rightarrow>
               op_result (vec_answer E (m\<lparr>pc := pc m + 2\<rparr>) (drop num (stk m))
                 (ebind (allocate_array (int num)) (\<lambda>d. array_store d 0 vs)))))"

definition f_switch_instr :: "machine \<Rightarrow> (lpc_error \<times> machine) + machine" where
  "f_switch_instr m =
     (case current_prog m of
        None \<Rightarrow> Inl (Op Crash, m)
      | Some p \<Rightarrow>
          ebind (op_result (f_switch (pr_code (progs m p)) (pr_rodata (progs m p)) (pc m) m)) (\<lambda>(t, m). Inr (m\<lparr>pc := t\<rparr>)))"

section \<open>Evaluation ends\<close>

text \<open>
  What is supposed of a function of the table: it returns, it counts instructions that it evaluates itself, leaves the level of
  catch and the programs, and an error in it is one of a long evaluation only with the count reset.
\<close>

definition counted :: "(machine \<Rightarrow> ((lpc_error \<times> machine) + machine) option) \<Rightarrow> bool" where
  "counted g \<longleftrightarrow>
     (\<forall>m. \<exists>r. g m = Some r \<and> (case r of
        Inr m' \<Rightarrow> eval_cost m \<le> eval_cost m' \<and> catch_level m \<le> catch_level m' \<and> progs m' = progs m
      | Inl (e, m') \<Rightarrow>
          (eval_cost m \<le> eval_cost m' \<or> eval_cost m' = 0) \<and> catch_level m \<le> catch_level m' \<and> progs m' = progs m))"

text \<open>The instruction that is carried out when a program is entered at an address.\<close>

definition instr_at :: "vm \<Rightarrow> u8 list \<Rightarrow> nat \<Rightarrow> nat option" where
  "instr_at vm code k =
     (if k \<ge> length code then None
      else if unat (code ! k) = F_EXT vm then read_short code (k + 1) else Some (unat (code ! k)))"

definition efuns_counted :: "vm \<Rightarrow> (nat \<Rightarrow> lpc_program) \<Rightarrow> bool" where
  "efuns_counted vm P \<longleftrightarrow>
     (\<forall>p k i n. instr_at vm (pr_code (P p)) k = Some i \<and> i \<notin> {F_RETURN vm, F_CATCH vm, F_END_CATCH vm} \<longrightarrow>
        counted (efun_table vm i n))"

definition catch_free :: "vm \<Rightarrow> (nat \<Rightarrow> lpc_program) \<Rightarrow> bool" where
  "catch_free vm P \<longleftrightarrow> (\<forall>p k. instr_at vm (pr_code (P p)) k \<noteq> Some (F_CATCH vm))"

lemma fetch_instr_at:
  assumes "fetch vm u m = Inr (i, n, m1)"
  shows "\<exists>p. instr_at vm (pr_code (progs m p)) (pc m) = Some i"
proof -
  obtain p where p: "current_prog m = Some p" and l: "\<not> length (pr_code (progs m p)) \<le> pc m"
    using assms by (auto simp: fetch_def Let_def split: option.splits if_splits)
  have "instr_at vm (pr_code (progs m p)) (pc m) = Some i" using assms p l
    by (auto simp: fetch_def instr_at_def Let_def split: option.splits if_splits prod.splits lpc_error.splits op_error.splits)
  then show ?thesis by blast
qed

lemma fetch_continues:
  assumes "fetch vm False m = Inr (i, n, m1)"
  shows "eval_cost m1 = eval_cost m + 1 \<and> eval_cost m1 \<le> MAX_COST \<and> catch_level m1 = catch_level m \<and> progs m1 = progs m \<and>
    ecsp m1 = ecsp m"
  using assms
  by (auto simp: fetch_def Let_def split: option.splits if_splits prod.splits lpc_error.splits op_error.splits)

lemma fetch_catch_free: "fetch vm u m = Inr (i, n, m1) \<Longrightarrow> catch_free vm (progs m) \<Longrightarrow> i \<noteq> F_CATCH vm"
  using fetch_instr_at [of vm u m i n m1] unfolding catch_free_def by blast

lemma fetch_stops:
  assumes "fetch vm u m = Inl (r, m1)"
  shows "(r = Crashed \<or> (\<exists>e. r = Failed e)) \<and> (eval_cost m \<le> eval_cost m1 \<or> eval_cost m1 = 0) \<and> catch_level m1 = catch_level m \<and> progs m1 = progs m"
  using assms
  by (auto simp: fetch_def Let_def split: option.splits if_splits prod.splits lpc_error.splits op_error.splits)

lemma do_return_keeps:
  "do_return m = Some (x, m2) \<Longrightarrow>
     eval_cost m2 = eval_cost m \<and> catch_level m2 = catch_level m \<and> progs m2 = progs m \<and> ecsp m2 = ecsp m"
  by (auto simp: do_return_def pop_control_stack_def restore_control_context_def Let_def split: if_splits list.splits)

lemma catch_enter_keeps:
  "catch_enter m = Some m2 \<Longrightarrow>
     eval_cost m2 = eval_cost m \<and> catch_level m2 = catch_level m + 1 \<and> progs m2 = progs m"
  by (auto simp: catch_enter_def push_error_context_def split: option.splits)

lemma pop_error_context_keeps:
  "pop_error_context m = Some m2 \<Longrightarrow>
     eval_cost m2 = eval_cost m \<and> catch_level m2 = catch_level m \<and> progs m2 = progs m"
  by (auto simp: pop_error_context_def restore_control_context_def split: list.splits)

lemma catch_leave_keeps:
  assumes "catch_leave m = Some (Inr m2) \<or> catch_leave m = Some (Inl (e, m2))"
  shows "eval_cost m2 = eval_cost m \<and> catch_level m2 = catch_level m - 1 \<and> progs m2 = progs m"
  using assms
  by (auto simp: catch_leave_def push_svalue_def dest!: pop_error_context_keeps split: if_splits)

lemma catch_failed_keeps:
  assumes "catch_failed msg e m = Some (Inr m2) \<or> catch_failed msg e m = Some (Inl (e', m2))"
  shows "(eval_cost m2 = eval_cost m \<or> eval_cost m = 0 \<and> (catch_level m2 = 0 \<or> eval_cost m2 = MAX_COST)) \<and>
    catch_level m2 = catch_level m - 1 \<and> progs m2 = progs m"
  using assms
  by (auto simp: catch_failed_def push_svalue_def Let_def ebind_def dest!: pop_error_context_keeps split: if_splits sum.splits)

definition ended :: "machine \<Rightarrow> eval_outcome \<Rightarrow> machine \<Rightarrow> bool" where
  "ended m r m' \<longleftrightarrow> progs m' = progs m \<and>
     (case r of
        Crashed \<Rightarrow> True
      | Returned \<Rightarrow> eval_cost m \<le> eval_cost m' \<and> catch_level m - 1 \<le> catch_level m'
      | Escaped e \<Rightarrow> eval_cost m \<le> eval_cost m' \<and> catch_level m - 1 \<le> catch_level m'
      | Failed e \<Rightarrow> (eval_cost m \<le> eval_cost m' \<or> eval_cost m' = 0) \<and> catch_level m \<le> catch_level m')"

lemma ended_trans:
  assumes "ended m2 r m'" "progs m2 = progs m" "eval_cost m \<le> eval_cost m2" "catch_level m \<le> catch_level m2"
  shows "ended m r m'"
  using assms by (auto simp: ended_def split: eval_outcome.splits)

definition bounded_level :: "vm \<Rightarrow> machine \<Rightarrow> bool" where
  "bounded_level vm m \<longleftrightarrow> efuns_counted vm (progs m) \<and> 0 \<le> eval_cost m \<and> (1 \<le> catch_level m \<or> catch_free vm (progs m))"

lemma bounded_level_later:
  assumes "bounded_level vm m" "eval_cost m \<le> eval_cost m'" "catch_level m \<le> catch_level m'" "progs m' = progs m"
  shows "bounded_level vm m'"
  using assms by (auto simp: bounded_level_def)

text \<open>After a catch the count is larger than before it, also when an evaluation that was too long has reset it.\<close>

lemma catch_failed_later:
  assumes e: "ended m2 (Failed e) m3" and c: "catch_failed msg e m3 = Some (Inr m4) \<or> catch_failed msg e m3 = Some (Inl (e', m4))"
    and m2: "eval_cost m2 = k" "catch_level m2 = l + 1" "1 \<le> k" "k \<le> MAX_COST" "1 \<le> l"
  shows "(eval_cost m4 = 0 \<or> k \<le> eval_cost m4) \<and> l \<le> catch_level m4 \<and> progs m4 = progs m2"
  using e catch_failed_keeps [OF c] m2 by (auto simp: ended_def)

lemma catch_failed_continues:
  assumes "catch_failed msg e m3 = Some (Inr m4)" "catch_level m4 \<ge> 1"
  shows "eval_cost m4 \<noteq> 0"
  using assms
  by (auto simp: catch_failed_def push_svalue_def MAX_COST_def Let_def dest!: pop_error_context_keeps split: if_splits)

text \<open>The instruction \<^verbatim>\<open>F_CATCH\<close>, given that evaluations with a larger count end.\<close>

lemma eval_catch_ends:
  assumes f: "fetch vm False m = Inr (F_CATCH vm, n, m1)" and nr: "F_CATCH vm \<noteq> F_RETURN vm" and B: "bounded_level vm m"
    and IH: "\<And>x. eval_cost m + 1 \<le> eval_cost x \<Longrightarrow> catch_level m \<le> catch_level x \<Longrightarrow> progs x = progs m \<Longrightarrow>
      \<exists>r m'. eval_instruction vm False x = Some (r, m') \<and> ended x r m'"
  shows "\<exists>r m'. eval_instruction vm False m = Some (r, m') \<and> ended m r m'"
proof (cases "catch_enter m1")
  case None
  then show ?thesis using f nr fetch_continues [OF f] by (auto simp: eval_instruction.simps [of vm _ m] ended_def)
next
  case (Some m2)
  note m1 = fetch_continues [OF f] and m2 = catch_enter_keeps [OF Some]
  have l: "1 \<le> catch_level m" "0 \<le> eval_cost m" using B fetch_catch_free [OF f] by (auto simp: bounded_level_def)
  obtain r m3 where e: "eval_instruction vm False m2 = Some (r, m3)" and d: "ended m2 r m3"
    using IH [of m2] m1 m2 by auto
  note ev = eval_instruction.simps [of vm _ m]
  have go: "\<exists>r m'. eval_instruction vm False x = Some (r, m') \<and> ended m r m'"
    if "eval_cost m + 1 \<le> eval_cost x" "catch_level m \<le> catch_level x" "progs x = progs m" for x
    using IH [OF that] that ended_trans [of x _ _ m] by fastforce
  show ?thesis
  proof (cases r)
    case Returned
    then show ?thesis using go [of "m3\<lparr>catch_value := const1\<rparr>"] d f nr Some e m1 m2 by (simp add: ev ended_def)
  next
    case Failed: (Failed er)
    show ?thesis
    proof (cases "catch_failed (message vm) er m3")
      case None
      then show ?thesis using d f nr Some e m1 m2 Failed by (simp add: ev ended_def)
    next
      case c: (Some a)
      show ?thesis
      proof (cases a)
        case (Inl b)
        then obtain e' m4 where b: "b = (e', m4)" by (cases b) blast
        then show ?thesis
          using catch_failed_later [of m2 er m3 "message vm" m4 e' "eval_cost m + 1" "catch_level m"] d f nr Some e m1 m2 Failed l Inl c
          by (auto simp: ev ended_def)
      next
        case (Inr m4)
        then show ?thesis
          using catch_failed_later [of m2 er m3 "message vm" m4 undefined "eval_cost m + 1" "catch_level m"]
            catch_failed_continues [of "message vm" er m3 m4] go [of m4] d f nr Some e m1 m2 Failed l c
          by (auto simp: ev)
      qed
    qed
  qed (use d f nr Some e m1 m2 in \<open>auto simp: ev ended_def\<close>)
qed

lemma eval_instruction_ends:
  assumes "bounded_level vm m"
  shows "\<exists>r m'. eval_instruction vm False m = Some (r, m') \<and> ended m r m'"
  using assms
proof (induction "nat (MAX_COST - eval_cost m)" arbitrary: m rule: less_induct)
  case less
  note B = less.prems
  have go: "\<exists>r m'. eval_instruction vm False x = Some (r, m') \<and> ended m r m'"
    if "eval_cost m < MAX_COST" "eval_cost m + 1 \<le> eval_cost x" "catch_level m \<le> catch_level x" "progs x = progs m" for x
    using less.hyps [of x] bounded_level_later [OF B, of x] that ended_trans [of x _ _ m] by fastforce
  show ?case
  proof (cases "fetch vm False m")
    case (Inl a)
    then obtain r m1 where f: "fetch vm False m = Inl (r, m1)" by (cases a) blast
    then show ?thesis using fetch_stops [OF f] by (auto simp: eval_instruction.simps [of vm _ m] ended_def)
  next
    case (Inr a)
    then obtain i n m1 where f: "fetch vm False m = Inr (i, n, m1)" by (cases a) blast
    note m1 = fetch_continues [OF f]
    consider (ret) "i = F_RETURN vm" | (catch) "i \<noteq> F_RETURN vm" "i = F_CATCH vm"
      | (endc) "i \<noteq> F_RETURN vm" "i \<noteq> F_CATCH vm" "i = F_END_CATCH vm"
      | (efun) "i \<noteq> F_RETURN vm" "i \<noteq> F_CATCH vm" "i \<noteq> F_END_CATCH vm" by blast
    then show ?thesis
    proof cases
      case ret
      then show ?thesis using f m1 do_return_keeps [of m1] go
        by (fastforce simp: eval_instruction.simps [of vm _ m] ended_def split: option.splits)
    next
      case catch
      show ?thesis
      proof (rule eval_catch_ends [of vm m n m1])
        show "\<exists>r m'. eval_instruction vm False x = Some (r, m') \<and> ended x r m'"
          if "eval_cost m + 1 \<le> eval_cost x" "catch_level m \<le> catch_level x" "progs x = progs m" for x
          using less.hyps [of x] bounded_level_later [OF B, of x] that m1 by simp
      qed (use f catch B in auto)
    next
      case endc
      then show ?thesis using f m1 catch_leave_keeps [of m1]
        by (fastforce simp: eval_instruction.simps [of vm _ m] ended_def split: option.splits sum.splits)
    next
      case efun
      obtain p where "instr_at vm (pr_code (progs m p)) (pc m) = Some i" using fetch_instr_at [OF f] by blast
      then have "counted (efun_table vm i n)" using B efun unfolding bounded_level_def efuns_counted_def by blast
      then obtain x where x: "efun_table vm i n m1 = Some x" and c: "case x of
        Inr m' \<Rightarrow> eval_cost m1 \<le> eval_cost m' \<and> catch_level m1 \<le> catch_level m' \<and> progs m' = progs m1
      | Inl (e, m') \<Rightarrow>
          (eval_cost m1 \<le> eval_cost m' \<or> eval_cost m' = 0) \<and> catch_level m1 \<le> catch_level m' \<and> progs m' = progs m1"
        unfolding counted_def by blast
      show ?thesis
      proof (cases x)
        case (Inl a)
        then show ?thesis using f efun m1 c x by (cases a) (auto simp: eval_instruction.simps [of vm _ m] ended_def)
      next
        case (Inr m2)
        then show ?thesis using f efun m1 c x go [of m2] by (auto simp: eval_instruction.simps [of vm _ m])
      qed
    qed
  qed
qed

section \<open>The modelled instructions\<close>

text \<open>Functions that change no more than the stack, the variables and the heap.\<close>

definition kept :: "'a interp_scheme \<Rightarrow> 'a result \<Rightarrow> bool" where
  "kept m r \<longleftrightarrow> (case r of Inl (e, m') \<Rightarrow> interp.more m' = interp.more m | Inr m' \<Rightarrow> interp.more m' = interp.more m)"

lemma kept_simps [simp]:
  "kept m (Inl (e, m')) = (interp.more m' = interp.more m)" "kept m (Inr m') = (interp.more m' = interp.more m)"
  by (simp_all add: kept_def)

lemma kept_same: "interp.more m1 = interp.more m \<Longrightarrow> kept m1 r \<Longrightarrow> kept m r"
  by (simp add: kept_def split: sum.splits prod.splits)

lemma kept_answer [simp]: "kept m (answer m st r)"
  by (simp add: answer_def split: sum.split)

lemma kept_with: "(\<And>x st. kept m (f x st)) \<Longrightarrow> kept m (with1 m f)" "(\<And>x y st. kept m (g x y st)) \<Longrightarrow> kept m (with2 m g)"
  "(\<And>x y z st. kept m (h x y z st)) \<Longrightarrow> kept m (with3 m h)"
  by (simp_all add: with1_def with2_def with3_def split: list.split)

lemma kept_push [simp]: "kept m (push x m)"
  by (simp add: push_def)

lemma kept_vec_answer [simp]: "kept m (vec_answer E m st r)"
  by (simp add: vec_answer_def split: sum.split prod.split)

lemma kept_with_vecs: "(\<And>u v. kept m (f u v)) \<Longrightarrow> kept m (with_vecs m a b f)"
  by (simp add: with_vecs_def split: option.split)

lemma kept_vec_ops [simp]:
  "kept m (vec_add E m st a b)" "kept m (map_add E m st a b)" "kept m (vec_subtract E m st a b)" "kept m (vec_intersect E m st a b)"
  "kept m (vec_union E m st a b)"
proof -
  let ?m1 = "m\<lparr>heap := check_vec_destr (e_objs E) b (check_vec_destr (e_objs E) a (heap m))\<rparr>"
  have "kept ?m1 (with_vecs ?m1 a b (\<lambda>u v. vec_answer E ?m1 st (add_array u v)))" by (intro kept_with_vecs) simp
  then show "kept m (vec_add E m st a b)" by (auto simp: vec_add_def Let_def intro: kept_same [rotated])
  show "kept m (map_add E m st a b)"
    by (simp add: map_add_def put_map_def Let_def split: option.split sum.split)
qed (auto simp: vec_subtract_def vec_intersect_def vec_union_def intro!: kept_with_vecs)

lemma kept_vec_subtract_clean [simp]: "kept m (vec_subtract E (m\<lparr>heap := h\<rparr>) st a b)"
  by (rule kept_same [of "m\<lparr>heap := h\<rparr>"]) simp_all

lemma kept_numbers2 [simp]: "kept m (numbers2 m x y st f)" "kept m (number_eq m v y st f)"
  by (simp_all add: numbers2_def number_eq_def split: option.split)

lemma kept_floats2 [simp]: "kept m r \<Longrightarrow> kept m (floats2 m x y st f r)"
  by (simp add: floats2_def split: option.split)

lemma write_lv_more: "write_lv H l v m = Some m' \<Longrightarrow> interp.more m' = interp.more m"
  by (auto simp: write_lv_def split: lvalue.splits if_splits option.splits map_lval.splits)

lemma kept_ebind: "kept m r \<Longrightarrow> (\<And>m'. interp.more m' = interp.more m \<Longrightarrow> kept m (f m')) \<Longrightarrow> kept m (ebind r f)"
  by (cases r) (auto simp: ebind_def)

lemma kept_assign_top: "interp.more m1 = interp.more m \<Longrightarrow> kept m (assign_top H l m1)"
  by (auto simp: assign_top_def dest: write_lv_more split: list.splits slot.splits option.splits)

lemma kept_with_lv: "(\<And>l v y st. kept m (f l v y st)) \<Longrightarrow> kept m (with_lv H m (\<lambda>l v y st. ebind (f l v y st) (assign_top H l)))"
  unfolding with_lv_def
  by (intro kept_with) (auto split: option.split intro!: kept_ebind kept_assign_top)

lemma kept_index: "kept m (push_indexed_lvalue E sole lv m)" "kept m (f_indirect H m)"
  unfolding push_indexed_lvalue_def f_indirect_def
  by (intro kept_with; auto simp: Let_def split: option.split slot.split sum.split prod.split map_lval.split)+

lemma kept_increment: "kept m (increment H d r m)"
  unfolding increment_def
  by (intro kept_with) (auto dest: write_lv_more split: option.splits sval.splits)

text \<open>The operators, assignments and accesses to items.\<close>

definition operator_instrs :: "save_env \<Rightarrow> (nat \<Rightarrow> bool) \<Rightarrow> ('a interp_scheme \<Rightarrow> 'a result) list" where
  "operator_instrs E sole = (let H = e_objs E in
     binary_ops E sole @ [f_lsh, f_rsh] @ unary_ops E @ map fst (assign_ops E) @
     [f_add_eq E, f_and_eq E, f_range E, f_push_indexed_lvalue E sole, f_pop_value, f_dup, f_indirect H, f_assign H,
      f_inc H, f_dec H, f_post_inc H, f_post_dec H])"

lemma kept_operators: "f \<in> set (operator_instrs E sole) \<Longrightarrow> kept m (f m)"
proof -
  have c: "kept m (compare p q r m)" for p q r
    unfolding compare_def by (intro kept_with) (auto split: option.split)
  have i: "kept m (f_index E sole m)"
    unfolding f_index_def by (intro kept_ebind kept_index) (rule kept_same [OF _ kept_index(2)])
  have b: "f \<in> set (binary_ops E sole @ [f_lsh, f_rsh] @ unary_ops E) \<Longrightarrow> kept m (f m)" for f
    using c i
    by (auto simp: binary_ops_def unary_ops_def f_add_def f_subtract_def f_and_def f_or_def f_xor_def f_multiply_def f_divide_def
        f_mod_def f_gt_def f_ge_def f_lt_def f_le_def f_eq_def f_ne_def f_lsh_def f_rsh_def f_not_def f_compl_def f_negate_def
        split: option.split slot.split intro!: kept_with)
  have a: "f \<in> set (map fst (assign_ops E) @ [f_add_eq E, f_and_eq E]) \<Longrightarrow> kept m (f m)" for f
    by (auto simp: assign_ops_def Let_def f_sub_eq_def f_or_eq_def f_mult_eq_def f_div_eq_def f_mod_eq_def f_xor_eq_def
        f_lsh_eq_def f_rsh_eq_def f_add_eq_def f_and_eq_def split: option.split slot.split sval.split sum.split intro!: kept_with_lv)
  have asg: "kept m (f_assign H m)" for H
    unfolding f_assign_def by (intro kept_with) (auto dest!: write_lv_more split: option.split slot.split)
  have oth: "f \<in> set [f_range E, f_push_indexed_lvalue E sole, f_pop_value, f_dup, f_indirect H, f_assign H,
      f_inc H, f_dec H, f_post_inc H, f_post_dec H] \<Longrightarrow> kept m (f m)" for f H
    using kept_index kept_increment asg
    by (auto simp: f_range_def f_push_indexed_lvalue_def f_pop_value_def f_dup_def f_inc_def f_dec_def f_post_inc_def
        f_post_dec_def split: option.split slot.split intro!: kept_with)
  show "f \<in> set (operator_instrs E sole) \<Longrightarrow> kept m (f m)" using a b oth by (auto simp: operator_instrs_def Let_def)
qed

lemma more_machine:
  assumes "interp.more m' = interp.more (m :: machine)"
  shows "eval_cost m' = eval_cost m" "catch_level m' = catch_level m" "progs m' = progs m" "current_prog m' = current_prog m"
  using assms by (cases m; cases m'; simp)+

text \<open>The instructions of this theory.\<close>

definition control_instrs :: "save_env \<Rightarrow> (machine \<Rightarrow> (lpc_error \<times> machine) + machine) list" where
  "control_instrs E =
     [f_jump, f_jump_when_zero, f_jump_when_non_zero, f_skip_nz, f_number, f_local_name (e_objs E), f_push_local_variable_lvalue,
      f_throw, f_aggregate E, f_switch_instr, f_call_non_virt E]"

definition modelled_instrs :: "save_env \<Rightarrow> (nat \<Rightarrow> bool) \<Rightarrow> (machine \<Rightarrow> (lpc_error \<times> machine) + machine) list" where
  "modelled_instrs E sole = control_instrs E @ map (\<lambda>f m. op_result (f m)) (operator_instrs E sole)"

text \<open>What they do to the count, the level and the programs: nothing.\<close>

definition uncounted :: "machine \<Rightarrow> (lpc_error \<times> machine) + machine \<Rightarrow> bool" where
  "uncounted m r \<longleftrightarrow>
     (case r of Inl (e, m') \<Rightarrow> eval_cost m' = eval_cost m \<and> catch_level m' = catch_level m \<and> progs m' = progs m
      | Inr m' \<Rightarrow> eval_cost m' = eval_cost m \<and> catch_level m' = catch_level m \<and> progs m' = progs m)"

lemma uncounted_simps [simp]:
  "uncounted m (Inl (e, m')) = (eval_cost m' = eval_cost m \<and> catch_level m' = catch_level m \<and> progs m' = progs m)"
  "uncounted m (Inr m') = (eval_cost m' = eval_cost m \<and> catch_level m' = catch_level m \<and> progs m' = progs m)"
  by (simp_all add: uncounted_def)

lemma uncounted_same:
  "uncounted m1 r \<Longrightarrow> eval_cost m1 = eval_cost m \<Longrightarrow> catch_level m1 = catch_level m \<Longrightarrow> progs m1 = progs m \<Longrightarrow> uncounted m r"
  by (simp add: uncounted_def split: sum.splits prod.splits)

lemma uncounted_op: "kept m r \<Longrightarrow> uncounted m (op_result r)"
proof -
  assume k: "kept m r"
  show ?thesis
  proof (cases r)
    case (Inl a)
    then show ?thesis using k more_machine [of "snd a" m] by (cases a) (simp add: op_result_def)
  next
    case (Inr m')
    then show ?thesis using k more_machine [of m' m] by (simp add: op_result_def)
  qed
qed

lemma uncounted_ebind: "uncounted m r \<Longrightarrow> (\<And>m'. r = Inr m' \<Longrightarrow> uncounted m' (f m')) \<Longrightarrow> uncounted m (ebind r f)"
  by (cases r) (auto simp: ebind_def intro: uncounted_same)

lemma uncounted_frame [simp]:
  "eval_cost (set_frame f m) = eval_cost m" "catch_level (set_frame f m) = catch_level m" "progs (set_frame f m) = progs m"
  by (simp_all add: set_frame_def)

lemma uncounted_push: "uncounted m (op_result (push x m))"
  by (rule uncounted_op) simp

lemma uncounted_zeros: "uncounted m (push_zeros k m)"
proof (induction k arbitrary: m)
  case (Suc k)
  show ?case unfolding push_zeros.simps
    by (intro uncounted_ebind uncounted_push uncounted_same [OF Suc.IH]) simp_all
qed simp

lemma uncounted_enter: "uncounted m (enter_function E outside q f k inh ob m)"
proof -
  have fit: "uncounted m (fit_args E f m)" for m
    by (auto simp: fit_args_def Let_def split: option.split sum.split prod.split)
  have frame: "uncounted m (setup_new_frame E f m)" for m
    unfolding setup_new_frame_def Let_def
    by (intro uncounted_ebind fit uncounted_zeros) (simp split: option.split)
  have p: "uncounted m (push_control_stack m)" by (simp add: push_control_stack_def)
  show ?thesis unfolding enter_function_def
    by (intro uncounted_ebind p uncounted_same [OF frame]) (auto split: option.split)
qed

lemma control_uncounted: "f \<in> set (control_instrs E) \<Longrightarrow> uncounted m (f m)"
proof -
  have call: "uncounted m (f_call_non_virt E m)"
    by (auto simp: f_call_non_virt_def Let_def split: option.split bool.split intro!: uncounted_same [OF uncounted_enter])
  have push: "uncounted m (op_result (push x (m\<lparr>pc := i\<rparr>)))" for x i
    by (rule uncounted_same [OF uncounted_push]) simp_all
  have agg: "uncounted m (op_result (vec_answer E (m\<lparr>pc := i\<rparr>) st r))" for i st r
    by (rule uncounted_same [of "m\<lparr>pc := i\<rparr>", OF uncounted_op]) simp_all
  have sw: "uncounted m (f_switch_instr m)"
    by (auto simp: f_switch_instr_def f_switch_def Let_def ebind_def op_result_def split: option.split sum.split list.split bool.split)
  show "f \<in> set (control_instrs E) \<Longrightarrow> uncounted m (f m)"
    using call push agg sw
    by (auto simp: control_instrs_def f_jump_def f_jump_when_zero_def f_jump_when_non_zero_def f_skip_nz_def f_number_def
        f_local_name_def f_push_local_variable_lvalue_def f_throw_def f_aggregate_def Let_def
        split: option.split list.split slot.split)
qed

lemma counted_if:
  "uncounted m r \<Longrightarrow> \<exists>x. Some r = Some x \<and> (case x of
        Inr m' \<Rightarrow> eval_cost m \<le> eval_cost m' \<and> catch_level m \<le> catch_level m' \<and> progs m' = progs m
      | Inl (e, m') \<Rightarrow>
          (eval_cost m \<le> eval_cost m' \<or> eval_cost m' = 0) \<and> catch_level m \<le> catch_level m' \<and> progs m' = progs m)"
  by (auto simp: uncounted_def split: sum.splits)

lemma modelled_counted: "f \<in> set (modelled_instrs E sole) \<Longrightarrow> counted (\<lambda>m. Some (f m))"
proof -
  have "uncounted m (op_result (g m))" if "g \<in> set (operator_instrs E sole)" for g m
    by (rule uncounted_op) (rule kept_operators [OF that])
  moreover assume "f \<in> set (modelled_instrs E sole)"
  ultimately have "uncounted m (f m)" for m using control_uncounted by (auto simp: modelled_instrs_def)
  then show ?thesis unfolding counted_def by (intro allI counted_if)
qed


section \<open>A small machine\<close>

text \<open>Tables with a few of the instructions, and a machine that starts at the begin of a program.\<close>

definition small_table :: "nat \<Rightarrow> nat \<Rightarrow> machine \<Rightarrow> ((lpc_error \<times> machine) + machine) option" where
  "small_table i n m = Some
     (if i = 4 then f_jump m else if i = 5 then op_result (f_pop_value m) else if i = 6 then f_number m else if i = 7 then f_throw m
      else Inl (Op Crash, m))"

definition small_vm :: vm where
  "small_vm = \<lparr>F_EXT = 255, F_RETURN = 1, F_CATCH = 2, F_END_CATCH = 3,
     instrs = (\<lambda>i. \<lparr>max_arg = 0, min_arg = 0, arg_type1 = 0, arg_type2 = 0\<rparr>), efun_table = small_table, message = (\<lambda>e. [])\<rparr>"

definition small_machine :: "u8 list \<Rightarrow> machine" where
  "small_machine code =
     \<lparr>stk = [], vars = (\<lambda>n i. const0), heap = \<lparr>h_vec = Map.empty, h_map = Map.empty\<rparr>,
      one_character = const0, quick_vec = const0, quick_map = const0,
      current_object = None, previous_ob = None, current_prog = Some 0,
      progs = (\<lambda>p. \<lparr>pr_code = code, pr_rodata = [], pr_inherit = [], pr_functions = []\<rparr>), ob_prog = (\<lambda>x. 0),
      pc = 0, fp = 0, inh_offset = 0, cstack = (\<lambda>n. no_context), csp = 0, eval_cost = 0, catch_level = 0, catch_value = const1,
      cmd_giver = None, ecsp = []\<rparr>"

lemma small_vm_simps [simp]:
  "F_EXT small_vm = 255" "F_RETURN small_vm = 1" "F_CATCH small_vm = 2" "F_END_CATCH small_vm = 3"
  "efun_table small_vm = small_table" "min_arg (instrs small_vm i) = 0" "max_arg (instrs small_vm i) = 0"
  by (simp_all add: small_vm_def)

lemma small_fetch:
  assumes "current_prog m = Some p" "pr_code (progs m p) = code" "pc m < length code" "unat (code ! pc m) \<noteq> 255"
  shows "fetch small_vm False m =
    (if eval_cost m + 1 > MAX_COST then Inl (Failed Too_long_evaluation, m\<lparr>pc := pc m + 1, eval_cost := 0\<rparr>)
     else Inr (unat (code ! pc m), 0, m\<lparr>pc := pc m + 1, eval_cost := eval_cost m + 1\<rparr>))"
  using assms by (simp add: fetch_def check_types_def Let_def)

text \<open>A machine whose table has all modelled instructions, numbered from 4 on, and never returns from the others.\<close>

definition full_vm :: vm where
  "full_vm = small_vm\<lparr>efun_table := (\<lambda>i n m. if i - 4 < length (modelled_instrs demo_save_env (\<lambda>_. False))
     then Some ((modelled_instrs demo_save_env (\<lambda>_. False) ! (i - 4)) m) else None)\<rparr>"

lemma length_modelled: "length (modelled_instrs E sole) = 51"
  by (simp add: modelled_instrs_def control_instrs_def operator_instrs_def binary_ops_def unary_ops_def assign_ops_def Let_def)

lemma full_vm_counted:
  assumes "\<forall>p. \<forall>b\<in>set (pr_code (P p)). unat b < 55"
  shows "efuns_counted full_vm P"
  unfolding efuns_counted_def
proof (intro allI impI)
  fix p k i n
  assume a: "instr_at full_vm (pr_code (P p)) k = Some i \<and> i \<notin> {F_RETURN full_vm, F_CATCH full_vm, F_END_CATCH full_vm}"
  then have "k < length (pr_code (P p))" by (auto simp: instr_at_def split: if_splits)
  then have "unat (pr_code (P p) ! k) < 55" using assms nth_mem by blast
  then have "i - 4 < length (modelled_instrs demo_save_env (\<lambda>_. False))"
    using a by (auto simp: instr_at_def full_vm_def length_modelled split: if_splits)
  then show "counted (efun_table full_vm i n)" using modelled_counted nth_mem by (fastforce simp: full_vm_def)
qed


section \<open>The evaluation that does not end\<close>

text \<open>
  The code of \<^verbatim>\<open>while (1) catch(while (1));\<close>: a catch whose body, at 3, jumps to itself, and then from 7 on what is dropped and the
  jump back to the catch.
\<close>

definition catch_loop :: "u8 list" where
  "catch_loop = [2, 7, 0, 4, 3, 0, 3, 5, 4, 0, 0]"

definition in_catch_loop :: "machine \<Rightarrow> bool" where
  "in_catch_loop m \<longleftrightarrow> (\<exists>p. current_prog m = Some p \<and> pr_code (progs m p) = catch_loop)"

definition outer_loop :: "machine \<Rightarrow> bool" where
  "outer_loop m \<longleftrightarrow> in_catch_loop m \<and> catch_level m = 0 \<and> ecsp m = [] \<and>
     (pc m = 0 \<and> stk m = [] \<and> eval_cost m \<le> MAX_COST - EXTRA_COST + 2 \<or>
      pc m = 7 \<and> length (stk m) = 1 \<and> eval_cost m \<le> MAX_COST - EXTRA_COST \<or>
      pc m = 8 \<and> stk m = [] \<and> eval_cost m \<le> MAX_COST - EXTRA_COST + 1)"

definition inner_loop :: "machine \<Rightarrow> bool" where
  "inner_loop m \<longleftrightarrow> in_catch_loop m \<and> pc m = 3"

lemma fetch_catch_loop:
  assumes "in_catch_loop m" "pc m < 11"
  shows "fetch small_vm False m =
    (if eval_cost m + 1 > MAX_COST then Inl (Failed Too_long_evaluation, m\<lparr>pc := pc m + 1, eval_cost := 0\<rparr>)
     else Inr (unat (catch_loop ! pc m), 0, m\<lparr>pc := pc m + 1, eval_cost := eval_cost m + 1\<rparr>))"
proof -
  have "unat (catch_loop ! i) \<noteq> 255" if "i < 11" for i
  proof -
    have "list_all (\<lambda>b. unat b \<noteq> 255) catch_loop" by (simp add: catch_loop_def)
    then show ?thesis using that by (simp add: list_all_length catch_loop_def)
  qed
  then show ?thesis using assms small_fetch [of m _ catch_loop] by (auto simp: in_catch_loop_def catch_loop_def)
qed

lemma jump_catch_loop:
  assumes "in_catch_loop m" "i < 9"
  shows "f_jump (m\<lparr>pc := Suc i, eval_cost := c\<rparr>) = Inr (m\<lparr>pc := unat (catch_loop ! Suc i) + 256 * unat (catch_loop ! Suc (Suc i)), eval_cost := c\<rparr>)"
  using assms by (auto simp: f_jump_def jump_target_def in_catch_loop_def read_short_def catch_loop_def)

section \<open>What a catch restores\<close>

text \<open>The machine after a caught error: the registers are those of the error context.\<close>

definition after_catch :: "(lpc_error \<Rightarrow> u8 list) \<Rightarrow> lpc_error \<Rightarrow> error_context \<Rightarrow> error_context list \<Rightarrow> machine \<Rightarrow> machine" where
  "after_catch msg e c cs m =
     (restore_control_context (ec_cstack c) m)
       \<lparr>csp := ec_csp c, stk := V (caught msg e m) # drop (length (stk m) - ec_sp c) (stk m), cmd_giver := ec_command_giver c,
        ecsp := cs, catch_level := catch_level m - 1, catch_value := const1,
        eval_cost := (if eval_cost m = 0 then if catch_level m = 1 then MAX_COST - EXTRA_COST else MAX_COST else eval_cost m)\<rparr>"

lemma catch_failed_room:
  assumes "ecsp m = c # cs" "ec_sp c < EVALUATOR_STACK_SIZE" "ec_sp c \<le> length (stk m)"
  shows "catch_failed msg e m = Some (Inr (after_catch msg e c cs m))"
  using assms
  by (auto simp: catch_failed_def pop_error_context_def push_svalue_def after_catch_def restore_control_context_def Let_def)

section \<open>Evaluation as a relation\<close>

text \<open>The rules by which an evaluation ends, one for each way through the loop.\<close>

inductive evaluates :: "vm \<Rightarrow> bool \<Rightarrow> machine \<Rightarrow> eval_outcome \<Rightarrow> machine \<Rightarrow> bool" for vm u where
  stop: "fetch vm u m = Inl (r, m') \<Longrightarrow> evaluates vm u m r m'"
| return_crash: "fetch vm u m = Inr (F_RETURN vm, n, m1) \<Longrightarrow> do_return m1 = None \<Longrightarrow> evaluates vm u m Crashed m1"
| return_extern:
    "fetch vm u m = Inr (F_RETURN vm, n, m1) \<Longrightarrow> do_return m1 = Some (True, m2) \<Longrightarrow> evaluates vm u m Returned m2"
| return_intern:
    "fetch vm u m = Inr (F_RETURN vm, n, m1) \<Longrightarrow> do_return m1 = Some (False, m2) \<Longrightarrow> evaluates vm u m2 r m' \<Longrightarrow>
     evaluates vm u m r m'"
| catch_crash:
    "fetch vm u m = Inr (F_CATCH vm, n, m1) \<Longrightarrow> F_CATCH vm \<noteq> F_RETURN vm \<Longrightarrow> catch_enter m1 = None \<Longrightarrow>
     evaluates vm u m Crashed m1"
| catch_body_crash:
    "fetch vm u m = Inr (F_CATCH vm, n, m1) \<Longrightarrow> F_CATCH vm \<noteq> F_RETURN vm \<Longrightarrow> catch_enter m1 = Some m2 \<Longrightarrow>
     evaluates vm u m2 Crashed m3 \<Longrightarrow> evaluates vm u m Crashed m3"
| catch_escape:
    "fetch vm u m = Inr (F_CATCH vm, n, m1) \<Longrightarrow> F_CATCH vm \<noteq> F_RETURN vm \<Longrightarrow> catch_enter m1 = Some m2 \<Longrightarrow>
     evaluates vm u m2 (Escaped e) m3 \<Longrightarrow> evaluates vm u m (Failed e) m3"
| catch_end:
    "fetch vm u m = Inr (F_CATCH vm, n, m1) \<Longrightarrow> F_CATCH vm \<noteq> F_RETURN vm \<Longrightarrow> catch_enter m1 = Some m2 \<Longrightarrow>
     evaluates vm u m2 Returned m3 \<Longrightarrow> evaluates vm u (m3\<lparr>catch_value := const1\<rparr>) r m' \<Longrightarrow> evaluates vm u m r m'"
| catch_lost:
    "fetch vm u m = Inr (F_CATCH vm, n, m1) \<Longrightarrow> F_CATCH vm \<noteq> F_RETURN vm \<Longrightarrow> catch_enter m1 = Some m2 \<Longrightarrow>
     evaluates vm u m2 (Failed e) m3 \<Longrightarrow> catch_failed (message vm) e m3 = None \<Longrightarrow> evaluates vm u m Crashed m3"
| catch_full:
    "fetch vm u m = Inr (F_CATCH vm, n, m1) \<Longrightarrow> F_CATCH vm \<noteq> F_RETURN vm \<Longrightarrow> catch_enter m1 = Some m2 \<Longrightarrow>
     evaluates vm u m2 (Failed e) m3 \<Longrightarrow> catch_failed (message vm) e m3 = Some (Inl (e', m4)) \<Longrightarrow> evaluates vm u m (Failed e') m4"
| catch_error:
    "fetch vm u m = Inr (F_CATCH vm, n, m1) \<Longrightarrow> F_CATCH vm \<noteq> F_RETURN vm \<Longrightarrow> catch_enter m1 = Some m2 \<Longrightarrow>
     evaluates vm u m2 (Failed e) m3 \<Longrightarrow> catch_failed (message vm) e m3 = Some (Inr m4) \<Longrightarrow> evaluates vm u m4 r m' \<Longrightarrow>
     evaluates vm u m r m'"
| end_crash:
    "fetch vm u m = Inr (F_END_CATCH vm, n, m1) \<Longrightarrow> F_END_CATCH vm \<notin> {F_RETURN vm, F_CATCH vm} \<Longrightarrow> catch_leave m1 = None \<Longrightarrow>
     evaluates vm u m Crashed m1"
| end_full:
    "fetch vm u m = Inr (F_END_CATCH vm, n, m1) \<Longrightarrow> F_END_CATCH vm \<notin> {F_RETURN vm, F_CATCH vm} \<Longrightarrow>
     catch_leave m1 = Some (Inl (e, m2)) \<Longrightarrow> evaluates vm u m (Escaped e) m2"
| end_catch:
    "fetch vm u m = Inr (F_END_CATCH vm, n, m1) \<Longrightarrow> F_END_CATCH vm \<notin> {F_RETURN vm, F_CATCH vm} \<Longrightarrow>
     catch_leave m1 = Some (Inr m2) \<Longrightarrow> evaluates vm u m Returned m2"
| efun_error:
    "fetch vm u m = Inr (i, n, m1) \<Longrightarrow> i \<notin> {F_RETURN vm, F_CATCH vm, F_END_CATCH vm} \<Longrightarrow>
     efun_table vm i n m1 = Some (Inl (e, m2)) \<Longrightarrow> evaluates vm u m (Failed e) m2"
| efun:
    "fetch vm u m = Inr (i, n, m1) \<Longrightarrow> i \<notin> {F_RETURN vm, F_CATCH vm, F_END_CATCH vm} \<Longrightarrow>
     efun_table vm i n m1 = Some (Inr m2) \<Longrightarrow> evaluates vm u m2 r m' \<Longrightarrow> evaluates vm u m r m'"

lemma evaluates_some:
  "evaluates vm u m r m' \<Longrightarrow> eval_instruction vm u m = Some (r, m')"
  by (induction rule: evaluates.induct) (simp_all add: eval_instruction.simps)

lemma some_evaluates:
  "eval_instruction vm u m = Some r \<Longrightarrow> evaluates vm u m (fst r) (snd r)"
proof (erule eval_instruction.raw_induct [rotated 1], goal_cases)
  case (1 ev vm u m r)
  show ?case
    using 1(2) by (auto split: sum.splits prod.splits option.splits if_splits bind_splits eval_outcome.splits
      dest!: 1(1) intro: evaluates.intros)
qed

lemma catch_in_loop:
  assumes "outer_loop m" "pc m = 0"
  shows "\<exists>m2. catch_enter (m\<lparr>pc := 1, eval_cost := c\<rparr>) = Some m2 \<and> inner_loop m2 \<and>
    (\<exists>m4. catch_failed (message small_vm) Too_long_evaluation (m2\<lparr>pc := 4, eval_cost := 0\<rparr>) = Some (Inr m4) \<and> outer_loop m4)"
proof -
  obtain p where p: "current_prog m = Some p" "pr_code (progs m p) = catch_loop"
    using assms by (auto simp: outer_loop_def in_catch_loop_def)
  define m2 where "m2 = (push_error_context (m\<lparr>eval_cost := c, pc := 7\<rparr>))\<lparr>catch_level := 1, pc := 3\<rparr>"
  have e: "catch_enter (m\<lparr>pc := 1, eval_cost := c\<rparr>) = Some m2"
    using assms p by (simp add: catch_enter_def m2_def outer_loop_def read_short_def catch_loop_def numeral_3_eq_3)
  have i: "inner_loop m2" using p by (simp add: m2_def inner_loop_def in_catch_loop_def push_error_context_def)
  let ?c = "hd (ecsp m2)"
  have f: "catch_failed msg Too_long_evaluation (m2\<lparr>pc := 4, eval_cost := 0\<rparr>) =
      Some (Inr (after_catch msg Too_long_evaluation ?c [] (m2\<lparr>pc := 4, eval_cost := 0\<rparr>)))" for msg
    using assms by (intro catch_failed_room) (simp_all add: m2_def push_error_context_def outer_loop_def EVALUATOR_STACK_SIZE_def)
  have "outer_loop (after_catch msg Too_long_evaluation ?c [] (m2\<lparr>pc := 4, eval_cost := 0\<rparr>))" for msg
    using assms p
    by (simp add: m2_def push_error_context_def outer_loop_def in_catch_loop_def after_catch_def restore_control_context_def
        save_control_context_def)
  then show ?thesis using e i f by blast
qed

lemma inner_step:
  assumes f: "fetch small_vm False m = x" and "inner_loop m"
  shows "x = Inl (Failed Too_long_evaluation, m\<lparr>pc := 4, eval_cost := 0\<rparr>) \<or>
    (\<exists>m1 c. x = Inr (4, 0, m1) \<and> small_table 4 0 m1 = Some (Inr (m\<lparr>pc := 3, eval_cost := c\<rparr>)) \<and>
       inner_loop (m\<lparr>pc := 3, eval_cost := c\<rparr>))"
proof -
  have m: "in_catch_loop m" "pc m = 3" using assms(2) by (simp_all add: inner_loop_def)
  have "inner_loop (m\<lparr>pc := 3, eval_cost := c\<rparr>)" for c using m by (simp add: inner_loop_def in_catch_loop_def)
  then show ?thesis unfolding f [symmetric] using fetch_catch_loop [OF m(1)] jump_catch_loop [OF m(1), of 3] m(2)
    by (auto simp: small_table_def catch_loop_def)
qed

lemma outer_step:
  assumes f: "fetch small_vm False m = x" and outer: "outer_loop m"
  shows "(\<exists>m1 m2. x = Inr (2, 0, m1) \<and> catch_enter m1 = Some m2 \<and> inner_loop m2 \<and>
      (\<exists>m4. catch_failed (message small_vm) Too_long_evaluation (m2\<lparr>pc := 4, eval_cost := 0\<rparr>) = Some (Inr m4) \<and> outer_loop m4)) \<or>
    (\<exists>i m1 m2. x = Inr (i, 0, m1) \<and> i \<in> {4, 5} \<and> small_table i 0 m1 = Some (Inr m2) \<and> outer_loop m2)"
proof -
  have m: "in_catch_loop m" using outer by (simp add: outer_loop_def)
  have c: "eval_cost m + 1 \<le> MAX_COST" using outer by (auto simp: outer_loop_def EXTRA_COST_def)
  consider (start) "pc m = 0" | (pop) "pc m = 7" | (jump) "pc m = 8" using outer by (auto simp: outer_loop_def)
  then show ?thesis
  proof cases
    case start
    then show ?thesis unfolding f [symmetric] using catch_in_loop [OF outer] fetch_catch_loop [OF m] c by (auto simp: catch_loop_def)
  next
    case pop
    then have "outer_loop (m\<lparr>pc := 8, eval_cost := eval_cost m + 1, stk := []\<rparr>)"
      using outer by (auto simp: outer_loop_def in_catch_loop_def)
    then show ?thesis unfolding f [symmetric] using pop outer fetch_catch_loop [OF m] c
      by (cases "stk m") (auto simp: catch_loop_def small_table_def f_pop_value_def with1_def op_result_def outer_loop_def)
  next
    case jump
    then have "outer_loop (m\<lparr>pc := 0, eval_cost := eval_cost m + 1\<rparr>)"
      using outer by (auto simp: outer_loop_def in_catch_loop_def)
    then show ?thesis unfolding f [symmetric] using jump fetch_catch_loop [OF m] jump_catch_loop [OF m, of 8] c
      by (auto simp: catch_loop_def small_table_def)
  qed
qed

lemma catch_loop_evaluates:
  assumes "evaluates small_vm False m r m'"
  shows "(inner_loop m \<longrightarrow> r = Failed Too_long_evaluation \<and> m' = m\<lparr>pc := 4, eval_cost := 0\<rparr>) \<and> \<not> outer_loop m"
  using assms by (induction rule: evaluates.induct) (fastforce dest: inner_step outer_step)+

text \<open>C39. The limit of instructions does not end every evaluation: the code of \<^verbatim>\<open>while (1) catch(while (1));\<close> is evaluated for ever.\<close>

theorem catch_loop_never_ends: "eval_instruction small_vm False (small_machine catch_loop) = None"
proof -
  have "outer_loop (small_machine catch_loop)"
    by (simp add: outer_loop_def in_catch_loop_def small_machine_def MAX_COST_def EXTRA_COST_def)
  then show ?thesis
    using some_evaluates [THEN catch_loop_evaluates] by (cases "eval_instruction small_vm False (small_machine catch_loop)") auto
qed

text \<open>C18. An error in the body of a catch is caught: evaluation goes on after the catch, in the object, program, frame and at the
  depth of calls from before it, for the same command giver, with the error contexts and the stack from before it and the caught
  value on top of that stack, given that the body has left the error contexts and the part of the stack below it.
\<close>

theorem catch_restores:
  assumes "fetch vm u m = Inr (F_CATCH vm, n, m1)" and "F_CATCH vm \<noteq> F_RETURN vm" and "catch_enter m1 = Some m2"
    and "eval_instruction vm u m2 = Some (Failed e, m3)" and "ecsp m3 = ecsp m2" and "\<exists>xs. stk m3 = xs @ stk m1"
    and "length (stk m1) < EVALUATOR_STACK_SIZE"
  shows "\<exists>m4. eval_instruction vm u m = eval_instruction vm u m4 \<and>
    current_object m4 = current_object m1 \<and> previous_ob m4 = previous_ob m1 \<and> current_prog m4 = current_prog m1 \<and>
    Some (pc m4) = jump_target m1 \<and> fp m4 = fp m1 \<and> inh_offset m4 = inh_offset m1 \<and> csp m4 = csp m1 \<and> ecsp m4 = ecsp m1 \<and>
    cmd_giver m4 = cmd_giver m1 \<and> catch_level m4 = catch_level m3 - 1 \<and> catch_value m4 = const1 \<and>
    stk m4 = V (caught (message vm) e m3) # stk m1"
proof -
  obtain p t where p: "current_prog m1 = Some p" "read_short (pr_code (progs m1 p)) (pc m1) = Some t"
    using assms(3) by (auto simp: catch_enter_def split: option.splits)
  let ?c = "hd (ecsp m2)"
  have c: "ecsp m2 = ?c # ecsp m1" "ec_sp ?c = length (stk m1)" "ec_csp ?c = csp m1" "ec_command_giver ?c = cmd_giver m1"
    "ec_cstack ?c = save_control_context (m1\<lparr>pc := t\<rparr>) no_context"
    using assms(3) p by (auto simp: catch_enter_def push_error_context_def)
  have f: "catch_failed (message vm) e m3 = Some (Inr (after_catch (message vm) e ?c (ecsp m1) m3))"
    using assms(5-7) c by (intro catch_failed_room) auto
  have "eval_instruction vm u m = eval_instruction vm u (after_catch (message vm) e ?c (ecsp m1) m3)"
    using assms(1-4) f by (simp add: eval_instruction.simps [of vm u m])
  then show ?thesis using c p assms(6)
    by (intro exI [of _ "after_catch (message vm) e ?c (ecsp m1) m3"])
      (auto simp: after_catch_def restore_control_context_def save_control_context_def jump_target_def)
qed

text \<open>The code of \<^verbatim>\<open>catch(throw(5))\<close>.\<close>

definition throw_code :: "u8 list" where
  "throw_code = [2, 10, 0, 6, 5, 0, 0, 0, 7, 3, 5]"

lemma throw_code_throws:
  defines "m1 \<equiv> (small_machine throw_code)\<lparr>pc := 1, eval_cost := 1\<rparr>"
  defines "m2 \<equiv> (push_error_context (m1\<lparr>pc := 10\<rparr>))\<lparr>catch_level := 1, pc := 3\<rparr>"
  shows "fetch small_vm False (small_machine throw_code) = Inr (F_CATCH small_vm, 0, m1)"
    and "catch_enter m1 = Some m2"
    and "eval_instruction small_vm False m2 =
      Some (Failed Throw, m2\<lparr>pc := 9, eval_cost := 3, catch_value := T_NUMBER 5, stk := []\<rparr>)"
proof -
  have code: "current_prog (small_machine throw_code) = Some 0" "pr_code (progs (small_machine throw_code) 0) = throw_code"
    by (simp_all add: small_machine_def)
  show "fetch small_vm False (small_machine throw_code) = Inr (F_CATCH small_vm, 0, m1)"
    using small_fetch [OF code] by (simp add: m1_def throw_code_def MAX_COST_def small_machine_def)
  show "catch_enter m1 = Some m2"
    using code by (simp add: catch_enter_def m1_def m2_def read_short_def throw_code_def small_machine_def)
  have c2: "current_prog m2 = Some 0" "pr_code (progs m2 0) = throw_code"
    using code by (simp_all add: m2_def m1_def push_error_context_def)
  have s2: "pc m2 = 3" "eval_cost m2 = 1" "stk m2 = []"
    by (simp_all add: m2_def m1_def push_error_context_def small_machine_def)
  let ?m3 = "m2\<lparr>pc := 8, eval_cost := 2, stk := [V (T_NUMBER 5)]\<rparr>"
  have f2: "fetch small_vm False m2 = Inr (6, 0, m2\<lparr>pc := 4, eval_cost := 2\<rparr>)"
    using small_fetch [OF c2] s2 by (simp add: throw_code_def MAX_COST_def)
  have n: "f_number (m2\<lparr>pc := 4, eval_cost := 2\<rparr>) = Inr ?m3"
    using c2 s2 by (simp add: f_number_def read_int_def throw_code_def push_def op_result_def EVALUATOR_STACK_SIZE_def)
  have f3: "fetch small_vm False ?m3 = Inr (7, 0, m2\<lparr>pc := 9, eval_cost := 3, stk := [V (T_NUMBER 5)]\<rparr>)"
    using small_fetch [of ?m3 0 throw_code] c2 by (simp add: throw_code_def MAX_COST_def)
  show "eval_instruction small_vm False m2 =
      Some (Failed Throw, m2\<lparr>pc := 9, eval_cost := 3, catch_value := T_NUMBER 5, stk := []\<rparr>)"
    using f2 n f3
    by (simp add: eval_instruction.simps [of small_vm False m2] eval_instruction.simps [of small_vm False ?m3]
        small_table_def f_throw_def is_zero_def)
qed

theorem catch_restores_witness:
  "\<exists>m4. eval_instruction small_vm False (small_machine throw_code) = eval_instruction small_vm False m4 \<and>
    pc m4 = 10 \<and> stk m4 = [V (T_NUMBER 5)]"
proof -
  note t = throw_code_throws
  have "jump_target ((small_machine throw_code)\<lparr>pc := 1, eval_cost := 1\<rparr>) = Some 10"
    by (simp add: jump_target_def small_machine_def read_short_def throw_code_def)
  then show ?thesis
    using catch_restores [OF t(1) _ t(2) t(3)]
    by (fastforce simp: push_error_context_def small_machine_def EVALUATOR_STACK_SIZE_def caught_def)
qed

section \<open>Calls and returns\<close>

lemma set_frame_simps [simp]:
  "top_frame (set_frame f m) = f (top_frame m)" "stk (set_frame f m) = stk m" "csp (set_frame f m) = csp m"
  "current_prog (set_frame f m) = current_prog m" "progs (set_frame f m) = progs m" "fp (set_frame f m) = fp m"
  "set_frame f (set_frame g m) = set_frame (f \<circ> g) m" "heap (set_frame f m) = heap m"
  by (simp_all add: set_frame_def top_frame_def)

lemma top_frame_update [simp]:
  "top_frame (m\<lparr>stk := s\<rparr>) = top_frame m" "top_frame (m\<lparr>heap := h\<rparr>) = top_frame m" "top_frame (m\<lparr>fp := a\<rparr>) = top_frame m"
  "top_frame (m\<lparr>pc := b\<rparr>) = top_frame m" "top_frame (m\<lparr>inh_offset := i\<rparr>) = top_frame m"
  "top_frame (m\<lparr>current_prog := c\<rparr>) = top_frame m" "top_frame (m\<lparr>previous_ob := o1\<rparr>) = top_frame m"
  "top_frame (m\<lparr>current_object := o2\<rparr>) = top_frame m"
  by (simp_all add: top_frame_def)

lemma push_zeros_frame:
  assumes "push_zeros k m = Inr m'"
  shows "stk m' = replicate k (V const0) @ stk m \<and> csp m' = csp m \<and> heap m' = heap m \<and>
    top_frame m' = (top_frame m)\<lparr>cs_num_local := cs_num_local (top_frame m) + int k\<rparr>"
  using assms
proof (induction k arbitrary: m)
  case (Suc k)
  then have "push_zeros k (set_frame (\<lambda>c. c\<lparr>cs_num_local := cs_num_local c + 1\<rparr>) (m\<lparr>stk := V const0 # stk m\<rparr>)) = Inr m'"
    by (auto simp: push_def op_result_def split: if_splits)
  from Suc.IH [OF this] show ?case by (simp add: replicate_append_same [symmetric] algebra_simps)
qed simp

text \<open>The frame then has the values of as many arguments as the function has parameters, at most.\<close>

lemma slot_vals_map: "slot_vals xs = Some vs \<Longrightarrow> xs = map V vs"
proof (induction xs arbitrary: vs)
  case (Cons x xs)
  then show ?case by (cases x) auto
qed simp

lemma args_law: "args n m = Some vs \<Longrightarrow> take n (stk m) = map V (rev vs) \<and> length vs = n"
proof -
  assume "args n m = Some vs"
  then have l: "n \<le> length (stk m)" and "slot_vals (take n (stk m)) = Some (rev vs)" by (auto simp: args_def split: if_splits)
  then have "take n (stk m) = map V (rev vs)" by (intro slot_vals_map)
  moreover from arg_cong [OF this, of length] l have "length vs = n" by simp
  ultimately show ?thesis by blast
qed

lemma array_of_args: "ebind (allocate_array i) (\<lambda>d. array_store d 0 vs) = Inr v \<Longrightarrow> i = int (length vs) \<Longrightarrow> v = vs"
  by (auto simp: ebind_def allocate_array_def array_store_def mem_write_def split: if_splits sum.splits)

text \<open>The last parameter of a function with a variable number of arguments becomes an array of all that are left.\<close>

lemma fit_args_varargs:
  assumes f: "fit_args E f m = Inr m'" and n: "cs_num_local (top_frame m) = int k" "k \<le> length (stk m)"
    and v: "fn_true_varargs f" "1 \<le> fn_num_arg f" "fn_num_arg f \<le> k"
  shows "\<exists>vs a. take (k + 1 - fn_num_arg f) (stk m) = map V (rev vs) \<and> h_vec (heap m') a = Some vs \<and>
    stk m' = V (T_POINTER a) # drop (k + 1 - fn_num_arg f) (stk m)"
proof -
  let ?n = "k + 1 - fn_num_arg f"
  obtain vs w where vs: "args ?n m = Some vs" and w: "ebind (allocate_array (int ?n)) (\<lambda>d. array_store d 0 vs) = Inr w"
    and m': "m' = (let (x, h) = put_vec E w (heap m) in set_frame (\<lambda>c. c\<lparr>cs_num_local := cs_num_local c - int (?n - 1)\<rparr>)
      (m\<lparr>stk := V x # drop ?n (stk m), heap := h\<rparr>))"
    using f n v by (auto simp: fit_args_def Let_def case_prod_beta split: option.splits sum.splits)
  note A = args_law [OF vs]
  have "w = vs" "vs \<noteq> []" using array_of_args [OF w] A v by auto
  then show ?thesis using A m' by (auto simp: put_vec_def Let_def set_frame_def)
qed

lemma fit_args_frame:
  assumes f: "fit_args E f m = Inr m'" and n: "cs_num_local (top_frame m) = int k" "k \<le> length (stk m)"
    and v: "fn_true_varargs f \<longrightarrow> 1 \<le> fn_num_arg f"
  shows "csp m' = csp m \<and> top_frame m' = (top_frame m)\<lparr>cs_num_local := int (min k (fn_num_arg f))\<rparr> \<and>
    drop (min k (fn_num_arg f)) (stk m') = drop k (stk m) \<and> length (stk m') + k = length (stk m) + min k (fn_num_arg f) \<and>
    (\<not> fn_true_varargs f \<or> k < fn_num_arg f \<longrightarrow> stk m' = drop (k - fn_num_arg f) (stk m))"
  using assms
  by (auto simp: fit_args_def Let_def min_def case_prod_beta drop_Cons' split: if_splits option.splits sum.splits)

text \<open>The frame of a function: what has become of \<open>k\<close> arguments, and zeros.\<close>

definition frame_values :: "lpc_function \<Rightarrow> nat \<Rightarrow> slot list \<Rightarrow> lpc_heap \<Rightarrow> slot list \<Rightarrow> bool" where
  "frame_values f k st h st' \<longleftrightarrow>
     (if k < fn_num_arg f then st' = replicate (fn_num_arg f - k + fn_num_local f) (V const0) @ st
      else if \<not> fn_true_varargs f then st' = replicate (fn_num_local f) (V const0) @ drop (k - fn_num_arg f) st
      else \<exists>vs a. take (k + 1 - fn_num_arg f) st = map V (rev vs) \<and> h_vec h a = Some vs \<and>
             st' = replicate (fn_num_local f) (V const0) @ V (T_POINTER a) # drop (k + 1 - fn_num_arg f) st)"

lemma setup_new_frame_frame:
  assumes s: "setup_new_frame E f m = Inr m'" and n: "cs_num_local (top_frame m) = int k" "k \<le> length (stk m)"
    and v: "fn_true_varargs f \<longrightarrow> 1 \<le> fn_num_arg f"
  shows "csp m' = csp m \<and> top_frame m' = (top_frame m)\<lparr>cs_num_local := int (fn_num_arg f + fn_num_local f)\<rparr> \<and>
    fp m' + k = length (stk m) \<and> length (stk m') = fp m' + fn_num_arg f + fn_num_local f \<and>
    drop (fn_num_arg f + fn_num_local f) (stk m') = drop k (stk m) \<and>
    frame_values f k (stk m) (heap m') (stk m')"
proof -
  let ?j = "min k (fn_num_arg f)" and ?N = "fn_num_arg f + fn_num_local f"
  obtain m1 where a: "fit_args E f m = Inr m1" using s by (auto simp: setup_new_frame_def ebind_def split: sum.splits)
  note A = fit_args_frame [OF a n v]
  then have l: "cs_num_local (top_frame m1) = int ?j" by simp
  obtain m2 where b: "push_zeros (?N - ?j) m1 = Inr m2"
    using s a l by (auto simp: setup_new_frame_def ebind_def Let_def nat_int split: sum.splits)
  note B = push_zeros_frame [OF b]
  have j: "?j \<le> ?N" by simp
  have "nat (cs_num_local (top_frame m2)) = ?N" using A B j by (simp add: nat_eq_iff)
  then obtain t where m': "m' = m2\<lparr>fp := length (stk m2) - ?N, pc := t\<rparr>"
    using s a b l by (simp add: setup_new_frame_def Let_def split: option.splits) blast+
  have "length (stk m2) = ?N - ?j + length (stk m1)" using B by simp
  then have len: "length (stk m2) + k = length (stk m) + ?N" using A j by linarith
  have d: "drop ?N (stk m2) = drop k (stk m)" using A B j by simp
  have e: "frame_values f k (stk m) (heap m2) (stk m2)"
  proof (cases "fn_true_varargs f \<and> fn_num_arg f \<le> k")
    case True
    then have "stk m2 = replicate (fn_num_local f) (V const0) @ stk m1" "heap m2 = heap m1" using B True by (simp_all add: min_absorb2)
    then show ?thesis using fit_args_varargs [OF a n] v True by (auto simp: frame_values_def)
  next
    case False
    then have m1: "stk m1 = drop (k - fn_num_arg f) (stk m)" using A by (metis not_le)
    show ?thesis
    proof (cases "k < fn_num_arg f")
      case True
      then have "min k (fn_num_arg f) = k" "fn_num_arg f + fn_num_local f - k = fn_num_arg f - k + fn_num_local f" by simp_all
      then show ?thesis using B m1 True by (simp add: frame_values_def)
    next
      case le: False
      then have "min k (fn_num_arg f) = fn_num_arg f" by simp
      then show ?thesis using B m1 le False by (simp add: frame_values_def)
    qed
  qed
  have c: "csp m' = csp m" "top_frame m' = (top_frame m)\<lparr>cs_num_local := int ?N\<rparr>" using m' A B j by auto
  have p: "fp m' + k = length (stk m)" "length (stk m') = fp m' + fn_num_arg f + fn_num_local f" using m' len n(2) by auto
  have "stk m' = stk m2" "heap m' = heap m2" using m' by simp_all
  then show ?thesis using c p d e by simp
qed

lemma same_stk: "stk m = s \<Longrightarrow> (m::machine)\<lparr>stk := s\<rparr> = m"
  by auto

text \<open>What a call leaves on the control stack and in the registers.\<close>

lemma enter_function_frame:
  assumes e: "enter_function E outside q f (int k) inh ob m = Inr m1" and k: "k \<le> length (stk m)"
    and v: "fn_true_varargs f \<longrightarrow> 1 \<le> fn_num_arg f"
  shows "csp m1 = csp m + 1 \<and>
    top_frame m1 = (save_control_context m (cstack m (csp m)))\<lparr>cs_num_local := int (fn_num_arg f + fn_num_local f), cs_extern := outside\<rparr> \<and>
    fp m1 + k = length (stk m) \<and> length (stk m1) = fp m1 + fn_num_arg f + fn_num_local f \<and>
    drop (fn_num_arg f + fn_num_local f) (stk m1) = drop k (stk m) \<and>
    frame_values f k (stk m) (heap m1) (stk m1)"
proof -
  let ?p = "m\<lparr>csp := Suc (csp m), cstack := (cstack m)(csp m := save_control_context m (cstack m (csp m)))\<rparr>"
  let ?r = "case ob of None \<Rightarrow> ?p\<lparr>inh_offset := inh, current_prog := Some q\<rparr>
    | Some x \<Rightarrow> ?p\<lparr>inh_offset := inh, current_prog := Some q, previous_ob := current_object ?p, current_object := Some x\<rparr>"
  let ?m0 = "set_frame (\<lambda>c. c\<lparr>cs_num_local := int k\<rparr>) ?r"
  obtain m' where s: "setup_new_frame E f ?m0 = Inr m'" and m1: "m1 = set_frame (\<lambda>c. c\<lparr>cs_extern := outside\<rparr>) m'"
    using e by (auto simp: enter_function_def push_control_stack_def ebind_def split: if_splits sum.splits)
  have z: "top_frame ?r = save_control_context m (cstack m (csp m))" "stk ?r = stk m" "csp ?r = csp m + 1"
    by (auto simp: top_frame_def split: option.splits)
  show ?thesis using setup_new_frame_frame [OF s, of k] z k v unfolding m1 by simp
qed

text \<open>C19. A call of a function and its return: on top of the values below the arguments the function gets a frame of its parameters
  and local variables, and all local variables are 0.  Missing arguments are 0, superfluous ones are dropped, but of a
  function with a variable number of arguments the last parameter is an array of that argument and all that follow it.  When the code of
  the function has an answer on top of that frame, with
  the frame on the control stack as it was, then the return takes the frame away and puts the answer where the arguments were, and
  the object, program, address, frame, inheritance offset and depth of the caller are back.
\<close>

theorem call_and_return:
  assumes "enter_function E outside q f (int k) inh ob m = Inr m1" and "k \<le> length (stk m)"
    and "fn_true_varargs f \<longrightarrow> 1 \<le> fn_num_arg f"
  shows "fp m1 + k = length (stk m) \<and> length (stk m1) = fp m1 + fn_num_arg f + fn_num_local f \<and>
    drop (fn_num_arg f + fn_num_local f) (stk m1) = drop k (stk m) \<and>
    (if k < fn_num_arg f then stk m1 = replicate (fn_num_arg f - k + fn_num_local f) (V const0) @ stk m
     else if \<not> fn_true_varargs f then stk m1 = replicate (fn_num_local f) (V const0) @ drop (k - fn_num_arg f) (stk m)
     else \<exists>vs a. take (k + 1 - fn_num_arg f) (stk m) = map V (rev vs) \<and> h_vec (heap m1) a = Some vs \<and>
            stk m1 = replicate (fn_num_local f) (V const0) @ V (T_POINTER a) # drop (k + 1 - fn_num_arg f) (stk m)) \<and>
    (\<forall>m2 x ls. csp m2 = csp m1 \<and> top_frame m2 = top_frame m1 \<and> stk m2 = x # ls @ drop k (stk m) \<and>
       length ls = fn_num_arg f + fn_num_local f \<longrightarrow>
       (\<exists>m3. do_return m2 = Some (outside, m3) \<and> stk m3 = x # drop k (stk m) \<and> csp m3 = csp m \<and>
          current_object m3 = current_object m \<and> previous_ob m3 = previous_ob m \<and> current_prog m3 = current_prog m \<and>
          (current_prog m \<noteq> None \<longrightarrow> pc m3 = pc m) \<and> fp m3 = fp m \<and> inh_offset m3 = inh_offset m))"
proof -
  note F = enter_function_frame [OF assms, unfolded frame_values_def]
  have "\<exists>m3. do_return m2 = Some (outside, m3) \<and> stk m3 = x # drop k (stk m) \<and> csp m3 = csp m \<and>
      current_object m3 = current_object m \<and> previous_ob m3 = previous_ob m \<and> current_prog m3 = current_prog m \<and>
      (current_prog m \<noteq> None \<longrightarrow> pc m3 = pc m) \<and> fp m3 = fp m \<and> inh_offset m3 = inh_offset m"
    if "csp m2 = csp m1" "top_frame m2 = top_frame m1" "stk m2 = x # ls @ drop k (stk m)"
      "length ls = fn_num_arg f + fn_num_local f" for m2 x ls
  proof -
    let ?m = "m2\<lparr>stk := x # drop k (stk m)\<rparr>"
    have "do_return m2 = Some (outside, pop_control_stack ?m)"
      using that F by (auto simp: do_return_def Let_def nat_add_distrib same_stk)
    moreover have "top_frame ?m = top_frame m1" "csp ?m = csp m + 1" using that F by simp_all
    ultimately show ?thesis using F
      by (auto simp: pop_control_stack_def restore_control_context_def save_control_context_def)
  qed
  with F show ?thesis by blast
qed

text \<open>A function with two parameters and a local variable, called with one argument; its code starts at 4 then, and at 6 with two.\<close>

definition call_code :: "u8 list" where
  "call_code = [8, 0, 6, 0, 6, 7, 8]"

definition call_fun :: lpc_function where
  "call_fun = \<lparr>fn_offset = 0, fn_num_local = 1, fn_num_arg = 2, fn_true_varargs = False, fn_prototype = False\<rparr>"

theorem call_and_return_witness:
  "\<exists>m1. enter_function demo_save_env False 0 call_fun 1 0 None ((small_machine call_code)\<lparr>stk := [V (T_NUMBER 7)]\<rparr>) = Inr m1 \<and>
     stk m1 = [V const0, V const0, V (T_NUMBER 7)] \<and> fp m1 = 0 \<and> pc m1 = 6"
proof -
  let ?m = "(small_machine call_code)\<lparr>stk := [V (T_NUMBER 7)]\<rparr>"
  have two: "push_zeros 2 m = ebind (op_result (push (V const0) m)) (\<lambda>m.
      push_zeros 1 (set_frame (\<lambda>c. c\<lparr>cs_num_local := cs_num_local c + 1\<rparr>) m))" for m
    by (simp add: numeral_2_eq_2)
  have "\<exists>m1. enter_function demo_save_env False 0 call_fun (int 1) 0 None ?m = Inr m1 \<and> pc m1 = 6"
    by (simp add: enter_function_def push_control_stack_def MAX_TRACE_def setup_new_frame_def fit_args_def call_fun_def top_frame_def
        set_frame_def Let_def push_def op_result_def EVALUATOR_STACK_SIZE_def small_machine_def read_short_def call_code_def two)
  then obtain m1 where m1: "enter_function demo_save_env False 0 call_fun (int 1) 0 None ?m = Inr m1" "pc m1 = 6" by blast
  show ?thesis using call_and_return [OF m1(1)] m1 by (auto simp: call_fun_def eval_nat_numeral)
qed

end
