(* ===== verification/Swap_File.thy ===== *)
theory Swap_File
  imports Driver_Prelude
begin

text \<open>
  The swap file (\<^verbatim>\<open>src/swap.c\<close>): a bitmap of free blocks, and chains of blocks that hold the bytes of a swapped object or
  program, written and read as a stream.

  The bitmap is the list of its words of 64 bits; a set bit is a free block, and block 0 is never free, so that 0 stands for no
  block.  Sizes and block numbers, which are \<^verbatim>\<open>u_int\<close>, are natural numbers; a block number is stored in the first four bytes
  of a block.  The file is a map from the blocks that have been written to their bytes, and works: failing system calls, which
  are fatal, are left out.  \<^const>\<open>None\<close> is a call of \<^verbatim>\<open>fatal()\<close>, an access outside of the bitmap or of a buffer, or a loop
  that does not end.  Of the statistics only the number of chains and of bytes are kept.
\<close>

unbundle bit_operations_syntax

section \<open>Numbers as bytes\<close>

text \<open>A number in \<open>k\<close> bytes, in the order of a little-endian processor, and the number that bytes stand for.\<close>

fun le :: "nat \<Rightarrow> nat \<Rightarrow> u8 list" where
  "le 0 x = []"
| "le (Suc k) x = of_nat x # le k (x div 256)"

fun of_le :: "u8 list \<Rightarrow> nat" where
  "of_le [] = 0"
| "of_le (b # bs) = unat b + 256 * of_le bs"

lemma length_le [simp]: "length (le k x) = k"
  by (induction k arbitrary: x) simp_all

lemma of_le_le: "x < 256 ^ k \<Longrightarrow> of_le (le k x) = x"
proof (induction k arbitrary: x)
  case (Suc k)
  have "x div 256 < 256 ^ k" using Suc.prems by (simp add: less_mult_imp_div_less mult.commute)
  from Suc.IH [OF this] show ?case by (simp add: unat_of_nat)
qed simp

section \<open>The bitmap\<close>

definition NBBY :: nat where "NBBY = 8"
definition NBULONG :: nat where "NBULONG = 64"
definition BUFFER_DATA_SIZE :: nat where "BUFFER_DATA_SIZE = 256"

record swap =
  swap_bitmap :: "64 word list"
  swap_cursize :: nat
  swap_minfree :: nat
  swap_maxfree :: nat
  swap_file :: "nat \<rightharpoonup> u8 list"
  total_bytes_swapped :: int
  total_swap_chains :: int

partial_function (option) ffs_loop :: "64 word \<Rightarrow> nat \<Rightarrow> nat option" where
  "ffs_loop l b = (if l AND 1 \<noteq> 0 then Some b else ffs_loop (drop_bit 1 l) (b + 1))"

definition ffs :: "64 word \<Rightarrow> nat option" where "ffs l = ffs_loop l 0"

text \<open>\<open>page\<close> is the result of \<^verbatim>\<open>getpagesize()\<close>.\<close>

definition init_swap :: "nat \<Rightarrow> swap" where
  "init_swap page =
     \<lparr>swap_bitmap = (replicate (page div 8) (- 1))[0 := - 2], swap_cursize = page, swap_minfree = 0, swap_maxfree = page * NBBY - 1,
      swap_file = Map.empty, total_bytes_swapped = 0, total_swap_chains = 0\<rparr>"

definition extend_swap_bitmap :: "swap \<Rightarrow> swap" where
  "extend_swap_bitmap st =
     (let size = swap_cursize st
      in st\<lparr>swap_cursize := 2 * size, swap_bitmap := swap_bitmap st @ replicate (size div 8) (- 1),
            swap_minfree := size * NBBY, swap_maxfree := 2 * size * NBBY - 1\<rparr>)"

text \<open>The inner loop: the first word from \<open>b\<close> to \<open>maxb\<close> that is not 0.\<close>

function swap_scan :: "64 word list \<Rightarrow> nat \<Rightarrow> nat \<Rightarrow> nat option option" where
  "swap_scan ws b maxb =
     (if b > maxb then Some None
      else if b \<ge> length ws then None
      else if ws ! b \<noteq> 0 then Some (Some b)
      else swap_scan ws (b + 1) maxb)"
  by pat_completeness auto

termination
  by (relation "measure (\<lambda>(ws, b, maxb). maxb + 1 - b)") auto

declare swap_scan.simps [simp del]

partial_function (option) alloc_swap :: "swap \<Rightarrow> (nat \<times> swap) option" where
  "alloc_swap st =
     Option.bind (swap_scan (swap_bitmap st) (swap_minfree st div NBULONG) (swap_maxfree st div NBULONG)) (\<lambda>r.
       case r of
         None \<Rightarrow> alloc_swap (extend_swap_bitmap st)
       | Some i \<Rightarrow>
           Option.bind (ffs (swap_bitmap st ! i)) (\<lambda>c.
             let b = i * NBULONG + c
             in Some (b, st\<lparr>swap_bitmap := (swap_bitmap st)[i := swap_bitmap st ! i AND NOT (push_bit c 1)], swap_minfree := b + 1\<rparr>)))"

definition free_swap :: "nat \<Rightarrow> swap \<Rightarrow> swap option" where
  "free_swap blkno st =
     (let i = blkno div NBULONG
      in if i \<ge> length (swap_bitmap st) then None
         else Some (st\<lparr>swap_bitmap := (swap_bitmap st)[i := swap_bitmap st ! i OR push_bit (blkno mod NBULONG) 1],
                       swap_minfree := (if swap_minfree st > blkno then blkno else swap_minfree st)\<rparr>))"

section \<open>Streams\<close>

record buffer =
  bufnum :: nat
  offset :: nat
  data :: "u8 list"

definition addr0 :: "buffer \<Rightarrow> nat" where "addr0 bp = of_le (take 4 (data bp))"

definition bread :: "nat \<Rightarrow> buffer \<Rightarrow> swap \<Rightarrow> buffer option" where
  "bread blkno bp st = map_option (\<lambda>d. bp\<lparr>data := d\<rparr>) (swap_file st blkno)"

definition bwrite :: "nat \<Rightarrow> buffer \<Rightarrow> swap \<Rightarrow> swap" where
  "bwrite blkno bp st = st\<lparr>swap_file := (swap_file st)(blkno \<mapsto> data bp)\<rparr>"

definition start_read :: "nat \<Rightarrow> swap \<Rightarrow> buffer option" where
  "start_read blkno st =
     (if blkno = 0 then None else bread blkno \<lparr>bufnum = blkno, offset = 4, data = []\<rparr> st)"

text \<open>When the buffer is exhausted, its block is freed and the next one is read.\<close>

definition next_read :: "buffer \<Rightarrow> swap \<Rightarrow> (buffer \<times> swap) option" where
  "next_read bp st =
     (if BUFFER_DATA_SIZE - offset bp = 0
      then do {
        st \<leftarrow> free_swap (bufnum bp) st;
        let b = addr0 bp;
        (if b = 0 then None
         else do {
           bp \<leftarrow> bread b (bp\<lparr>bufnum := b, offset := 4\<rparr>) st;
           Some (bp, st) }) }
      else Some (bp, st))"

function read_loop :: "buffer \<Rightarrow> nat \<Rightarrow> swap \<Rightarrow> (u8 list \<times> buffer \<times> swap) option" where
  "read_loop bp len st =
     (if len = 0 then Some ([], bp, st)
      else case next_read bp st of
             None \<Rightarrow> None
           | Some (bp, st) \<Rightarrow>
               (let cc = min (BUFFER_DATA_SIZE - offset bp) len
                in if cc = 0 then None
                   else if length (data bp) < offset bp + cc then None
                   else do {
                     (bs, bp', st') \<leftarrow> read_loop (bp\<lparr>offset := offset bp + cc\<rparr>) (len - cc) st;
                     Some (take cc (drop (offset bp) (data bp)) @ bs, bp', st') }))"
  by pat_completeness auto

termination
  by (relation "measure (\<lambda>(bp, len, st). len)") auto

declare read_loop.simps [simp del]

definition swap_read :: "buffer \<Rightarrow> nat \<Rightarrow> swap \<Rightarrow> (u8 list \<times> buffer \<times> swap) option" where
  "swap_read bp len st = read_loop bp len (st\<lparr>total_bytes_swapped := total_bytes_swapped st - int len\<rparr>)"

definition end_read :: "buffer \<Rightarrow> swap \<Rightarrow> swap option" where
  "end_read bp st = do {
     st \<leftarrow> free_swap (bufnum bp) st;
     (if addr0 bp \<noteq> 0 then None else Some (st\<lparr>total_swap_chains := total_swap_chains st - 1\<rparr>)) }"

definition start_write :: "nat \<Rightarrow> swap \<Rightarrow> (buffer \<times> swap) option" where
  "start_write blkno st =
     (if blkno \<noteq> 0 then None
      else do {
        (b, st) \<leftarrow> alloc_swap st;
        Some (\<lparr>bufnum = b, offset = 4, data = replicate BUFFER_DATA_SIZE 0\<rparr>,
              st\<lparr>total_swap_chains := total_swap_chains st + 1\<rparr>) })"

text \<open>When the buffer is full, it gets the number of a new block and is written.\<close>

definition next_write :: "buffer \<Rightarrow> swap \<Rightarrow> (buffer \<times> swap) option" where
  "next_write bp st =
     (if BUFFER_DATA_SIZE - offset bp = 0
      then (if addr0 bp \<noteq> 0 then None
            else do {
              (b, st) \<leftarrow> alloc_swap st;
              d \<leftarrow> mem_write (data bp) 0 (le 4 b);
              let st = bwrite (bufnum bp) (bp\<lparr>data := d\<rparr>) st;
              Some (\<lparr>bufnum = of_le (le 4 b), offset = 4, data = replicate BUFFER_DATA_SIZE 0\<rparr>, st) })
      else Some (bp, st))"

function write_loop :: "buffer \<Rightarrow> u8 list \<Rightarrow> swap \<Rightarrow> (buffer \<times> swap) option" where
  "write_loop bp buf st =
     (if buf = [] then Some (bp, st)
      else case next_write bp st of
             None \<Rightarrow> None
           | Some (bp, st) \<Rightarrow>
               (let cc = min (BUFFER_DATA_SIZE - offset bp) (length buf)
                in if cc = 0 then None
                   else case mem_write (data bp) (offset bp) (take cc buf) of
                          None \<Rightarrow> None
                        | Some d \<Rightarrow> write_loop (bp\<lparr>data := d, offset := offset bp + cc\<rparr>) (drop cc buf) st))"
  by pat_completeness auto

termination
  by (relation "measure (\<lambda>(bp, buf, st). length buf)") auto

declare write_loop.simps [simp del]

definition swap_write :: "buffer \<Rightarrow> u8 list \<Rightarrow> swap \<Rightarrow> (buffer \<times> swap) option" where
  "swap_write bp buf st = write_loop bp buf (st\<lparr>total_bytes_swapped := total_bytes_swapped st + int (length buf)\<rparr>)"

definition end_write :: "buffer \<Rightarrow> swap \<Rightarrow> swap option" where
  "end_write bp st = (if addr0 bp \<noteq> 0 then None else Some (bwrite (bufnum bp) bp st))"

section \<open>Allocation of blocks\<close>

definition free_block :: "swap \<Rightarrow> nat \<Rightarrow> bool" where
  "free_block st n \<longleftrightarrow> n < 64 * length (swap_bitmap st) \<and> bit (swap_bitmap st ! (n div 64)) (n mod 64)"

definition used_blocks :: "swap \<Rightarrow> nat set" where
  "used_blocks st = {n. n < 64 * length (swap_bitmap st) \<and> \<not> bit (swap_bitmap st ! (n div 64)) (n mod 64)}"

definition swap_inv :: "swap \<Rightarrow> bool" where
  "swap_inv st \<longleftrightarrow> swap_bitmap st \<noteq> [] \<and> swap_cursize st = 8 * length (swap_bitmap st) \<and>
     swap_maxfree st = 64 * length (swap_bitmap st) - 1 \<and> swap_minfree st \<le> 64 * length (swap_bitmap st) \<and>
     0 \<in> used_blocks st \<and> (\<forall>n. free_block st n \<longrightarrow> swap_minfree st \<le> n)"

lemma finite_used [simp]: "finite (used_blocks st)"
  by (simp add: used_blocks_def)

lemma odd_bit: "(l :: 64 word) AND 1 = 0 \<longleftrightarrow> even l"
  by (simp add: and_one_eq even_iff_mod_2_eq_zero)

lemma ffs_loop_bit:
  assumes "bit l n"
  shows "\<exists>c. ffs_loop l b = Some (b + c) \<and> bit l c \<and> (\<forall>j<c. \<not> bit l j)"
  using assms
proof (induction n arbitrary: l b)
  case 0
  then show ?case by (intro exI [of _ 0]) (simp add: ffs_loop.simps [of l] bit_0 odd_bit)
next
  case (Suc n)
  show ?case
  proof (cases "bit l 0")
    case True
    then show ?thesis by (intro exI [of _ 0]) (simp add: ffs_loop.simps [of l] bit_0 odd_bit)
  next
    case False
    have "bit (drop_bit 1 l) n" using Suc.prems by (simp add: bit_simps)
    from Suc.IH [OF this, of "b + 1"] obtain c where
      c: "ffs_loop (drop_bit 1 l) (b + 1) = Some (b + 1 + c)" "bit l (Suc c)" "\<forall>j<c. \<not> bit l (Suc j)" by (auto simp: bit_simps)
    have "\<not> bit l j" if "j < Suc c" for j using that False c(3) by (cases j) auto
    moreover have "l AND 1 = 0" using False by (simp add: bit_0 odd_bit)
    then have "ffs_loop l b = Some (b + Suc c)" using c(1) by (simp add: ffs_loop.simps [of l])
    ultimately show ?thesis using c(2) by blast
  qed
qed

lemma ffs_law:
  assumes "l \<noteq> 0"
  shows "\<exists>c<64. ffs l = Some c \<and> bit l c \<and> (\<forall>j<c. \<not> bit l j)"
proof -
  obtain n where "bit l n" using assms bit_eq_iff [of l 0] by auto
  from ffs_loop_bit [OF this, of 0] show ?thesis using bit_imp_le_length [of l] by (auto simp: ffs_def)
qed

lemma swap_scan_law:
  assumes "maxb < length ws"
  shows "\<exists>r. swap_scan ws b maxb = Some r \<and>
    (case r of None \<Rightarrow> \<forall>i. b \<le> i \<and> i \<le> maxb \<longrightarrow> ws ! i = 0
     | Some i \<Rightarrow> b \<le> i \<and> i \<le> maxb \<and> ws ! i \<noteq> 0 \<and> (\<forall>j. b \<le> j \<and> j < i \<longrightarrow> ws ! j = 0))"
  using assms
proof (induction ws b maxb rule: swap_scan.induct)
  case (1 ws b maxb)
  show ?case
  proof (cases "b > maxb \<or> ws ! b \<noteq> 0")
    case True
    then show ?thesis using 1(2) by (auto simp: swap_scan.simps [of ws b])
  next
    case False
    then obtain r where r: "swap_scan ws (b + 1) maxb = Some r" and
      *: "case r of None \<Rightarrow> \<forall>i. b + 1 \<le> i \<and> i \<le> maxb \<longrightarrow> ws ! i = 0
        | Some i \<Rightarrow> b + 1 \<le> i \<and> i \<le> maxb \<and> ws ! i \<noteq> 0 \<and> (\<forall>j. b + 1 \<le> j \<and> j < i \<longrightarrow> ws ! j = 0)"
      using 1 by auto
    have "swap_scan ws b maxb = Some r" using r False 1(2) by (simp add: swap_scan.simps [of ws b])
    moreover have "b \<le> j \<longleftrightarrow> j = b \<or> b + 1 \<le> j" for j by auto
    ultimately show ?thesis using * False by (auto split: option.splits)
  qed
qed

lemma block_pos: "n div 64 * 64 + n mod 64 = (n::nat)"
  by simp

lemma bit_clear:
  "bit (w AND NOT (push_bit c 1) :: 64 word) j \<longleftrightarrow> bit w j \<and> j \<noteq> c"
  by (auto simp: bit_simps dest: bit_imp_le_length)

lemma bit_mark:
  "c < 64 \<Longrightarrow> bit (w OR push_bit c 1 :: 64 word) j \<longleftrightarrow> bit w j \<or> j = c"
  by (auto simp: bit_simps dest: bit_imp_le_length)

text \<open>Changing one word of the bitmap changes what is in use in its range only.\<close>

lemma used_blocks_update:
  assumes "i < length ws" "\<And>j. j < 64 \<Longrightarrow> bit w j \<longleftrightarrow> (if j = c then v else bit (ws ! i) j)" "c < 64"
  shows "n < 64 * length ws \<Longrightarrow> bit (ws[i := w] ! (n div 64)) (n mod 64) \<longleftrightarrow>
    (if n = i * 64 + c then v else bit (ws ! (n div 64)) (n mod 64))"
proof -
  have "(n = i * 64 + c) \<longleftrightarrow> (n div 64 = i \<and> n mod 64 = c)" using assms(3) by auto
  then show ?thesis using assms by (cases "n div 64 = i") (auto simp: nth_list_update)
qed

lemma last_word: "(L::nat) > 0 \<Longrightarrow> (64 * L - 1) div 64 = L - 1"
  by (cases L) simp_all

lemma alloc_step:
  assumes inv: "swap_inv st" and f: "free_block st n"
  shows "\<exists>b st'. alloc_swap st = Some (b, st') \<and> swap_inv st' \<and> free_block st b \<and> (\<forall>n. free_block st n \<longrightarrow> b \<le> n) \<and>
    used_blocks st' = insert b (used_blocks st) \<and> (\<exists>ws k. st' = st\<lparr>swap_bitmap := ws, swap_minfree := k\<rparr>)"
proof -
  let ?ws = "swap_bitmap st" and ?L = "length (swap_bitmap st)"
  have L: "?L > 0" "swap_maxfree st div 64 = ?L - 1" "swap_maxfree st div 64 < ?L"
    using inv last_word [of ?L] by (auto simp: swap_inv_def)
  have in_range: "swap_minfree st div 64 \<le> n div 64" "n div 64 \<le> ?L - 1" "?ws ! (n div 64) \<noteq> 0" if "free_block st n" for n
    using that inv by (auto simp: swap_inv_def free_block_def div_le_mono)
  obtain r where scan: "swap_scan ?ws (swap_minfree st div 64) (swap_maxfree st div 64) = Some r" and
    r: "case r of None \<Rightarrow> \<forall>i. swap_minfree st div 64 \<le> i \<and> i \<le> swap_maxfree st div 64 \<longrightarrow> ?ws ! i = 0
     | Some i \<Rightarrow> swap_minfree st div 64 \<le> i \<and> i \<le> swap_maxfree st div 64 \<and> ?ws ! i \<noteq> 0 \<and>
        (\<forall>j. swap_minfree st div 64 \<le> j \<and> j < i \<longrightarrow> ?ws ! j = 0)" using swap_scan_law [OF L(3)] by blast
  then obtain i where i: "r = Some i" "i < ?L" "?ws ! i \<noteq> 0" "\<forall>j. swap_minfree st div 64 \<le> j \<and> j < i \<longrightarrow> ?ws ! j = 0"
    using in_range [OF f] L(2,3) by (cases r) (auto dest: le_less_trans)
  obtain c where c: "c < 64" "ffs (?ws ! i) = Some c" "bit (?ws ! i) c" "\<forall>j<c. \<not> bit (?ws ! i) j" using ffs_law [OF i(3)] by blast
  let ?b = "i * 64 + c" and ?w = "?ws ! i AND NOT (push_bit c 1)"
  let ?st = "st\<lparr>swap_bitmap := ?ws[i := ?w], swap_minfree := ?b + 1\<rparr>"
  have a: "alloc_swap st = Some (?b, ?st)"
    using scan i(1) c(2) by (simp add: alloc_swap.simps [of st] NBULONG_def Let_def)
  have b: "?b div 64 = i" "?b mod 64 = c" "?b < 64 * ?L" using c(1) i(2) by auto
  have u: "n < 64 * ?L \<Longrightarrow> bit (?ws[i := ?w] ! (n div 64)) (n mod 64) \<longleftrightarrow>
      (if n = ?b then False else bit (?ws ! (n div 64)) (n mod 64))" for n
    by (rule used_blocks_update [OF i(2) _ c(1)]) (simp_all add: bit_clear del: push_bit_of_1)
  have fb: "free_block st ?b" using b c(3) by (simp add: free_block_def)
  have least: "?b \<le> n" if "free_block st n" for n
  proof -
    have "i \<le> n div 64" using in_range [OF that] i(4) by (meson not_le)
    moreover have "c \<le> n mod 64" if "n div 64 = i" 
      using c(4) \<open>free_block st n\<close> that by (auto simp: free_block_def intro: leI)
    ultimately show ?thesis using c(1) block_pos [of n] by (cases "n div 64 = i") (auto simp: algebra_simps)
  qed
  have us: "used_blocks ?st = insert ?b (used_blocks st)"
  proof (rule set_eqI)
    show "n \<in> used_blocks ?st \<longleftrightarrow> n \<in> insert ?b (used_blocks st)" for n
      using u [of n] b(3) by (auto simp: used_blocks_def simp del: push_bit_of_1 split: if_splits)
  qed
  have "?b + 1 \<le> n" if "free_block ?st n" for n
  proof -
    have "n \<noteq> ?b" "free_block st n" using that u [of n] by (auto simp: free_block_def simp del: push_bit_of_1 split: if_splits)
    then show ?thesis using least [of n] by simp
  qed
  then have "swap_inv ?st" using inv us b(3) by (auto simp: swap_inv_def)
  with a fb least us show ?thesis by blast
qed

lemma extend_law:
  assumes inv: "swap_inv st" and none: "\<And>n. \<not> free_block st n"
  shows "swap_inv (extend_swap_bitmap st)" "used_blocks (extend_swap_bitmap st) = used_blocks st"
    "free_block (extend_swap_bitmap st) n \<longleftrightarrow> 64 * length (swap_bitmap st) \<le> n \<and> n < 128 * length (swap_bitmap st)"
proof -
  let ?ws = "swap_bitmap st" and ?L = "length (swap_bitmap st)" and ?st = "extend_swap_bitmap st"
  have s: "swap_bitmap ?st = ?ws @ replicate ?L (- 1)" "swap_cursize ?st = 16 * ?L" "swap_minfree ?st = 64 * ?L"
    "swap_maxfree ?st = 128 * ?L - 1"
    using inv by (simp_all add: extend_swap_bitmap_def swap_inv_def NBBY_def Let_def)
  have low: "swap_bitmap ?st ! (n div 64) = ?ws ! (n div 64)" if "n < 64 * ?L" for n
    using that s(1) by (simp add: nth_append less_mult_imp_div_less mult.commute)
  have high: "bit (swap_bitmap ?st ! (n div 64)) (n mod 64)" if "64 * ?L \<le> n" "n < 128 * ?L" for n
  proof -
    have "?L \<le> n div 64" "n div 64 - ?L < ?L" using that by linarith+
    then show ?thesis using s(1) by (simp add: nth_append)
  qed
  show f: "free_block ?st n \<longleftrightarrow> 64 * ?L \<le> n \<and> n < 128 * ?L" for n
  proof (cases "n < 64 * ?L")
    case True
    then show ?thesis using none [of n] low [OF True] s(1) by (simp add: free_block_def)
  next
    case False
    then show ?thesis using high [of n] s(1) by (auto simp: free_block_def)
  qed
  show u: "used_blocks ?st = used_blocks st"
  proof (rule set_eqI)
    show "n \<in> used_blocks ?st \<longleftrightarrow> n \<in> used_blocks st" for n
      using low [of n] high [of n] s(1) by (cases "n < 64 * ?L") (auto simp: used_blocks_def)
  qed
  show "swap_inv ?st" using inv s f u by (auto simp: swap_inv_def)
qed

text \<open>The allocator returns the lowest block that is not in use.\<close>

lemma alloc_swap_law:
  assumes "swap_inv st"
  shows "\<exists>b st'. alloc_swap st = Some (b, st') \<and> swap_inv st' \<and> b \<notin> used_blocks st \<and> (\<forall>n. n \<notin> used_blocks st \<longrightarrow> b \<le> n) \<and>
    used_blocks st' = insert b (used_blocks st) \<and> swap_file st' = swap_file st \<and>
    total_bytes_swapped st' = total_bytes_swapped st \<and> total_swap_chains st' = total_swap_chains st"
proof (cases "\<exists>n. free_block st n")
  case True
  then obtain n where "free_block st n" ..
  from alloc_step [OF assms this] obtain b st' where a: "alloc_swap st = Some (b, st')" "swap_inv st'" "free_block st b"
    "\<forall>n. free_block st n \<longrightarrow> b \<le> n" "used_blocks st' = insert b (used_blocks st)" "swap_file st' = swap_file st"
    "total_bytes_swapped st' = total_bytes_swapped st" "total_swap_chains st' = total_swap_chains st" by auto
  have "b \<le> n" if "n \<notin> used_blocks st" for n
  proof (cases "free_block st n")
    case False
    then have "64 * length (swap_bitmap st) \<le> n" using that by (auto simp: used_blocks_def free_block_def not_less)
    then show ?thesis using a(3) by (simp add: free_block_def)
  qed (use a(4) in blast)
  moreover have "b \<notin> used_blocks st" using a(3) by (simp add: free_block_def used_blocks_def)
  ultimately show ?thesis using a by (intro exI [of _ b] exI [of _ st']) simp
next
  case False
  let ?L = "length (swap_bitmap st)" and ?st = "extend_swap_bitmap st"
  note e = extend_law [OF assms]
  have L: "?L > 0" "swap_maxfree st div 64 < ?L" "swap_minfree st \<le> 64 * ?L" 
    using assms last_word [of ?L] by (auto simp: swap_inv_def)
  have z: "swap_bitmap st ! i = 0" if "i < ?L" for i
  proof (rule bit_word_eqI)
    fix j assume "j < LENGTH(64)"
    then show "bit (swap_bitmap st ! i) j \<longleftrightarrow> bit (0 :: 64 word) j"
      using False that by (auto simp: free_block_def dest!: spec [of _ "i * 64 + j"])
  qed
  have "swap_scan (swap_bitmap st) (swap_minfree st div 64) (swap_maxfree st div 64) = Some None"
    using swap_scan_law [OF L(2), of "swap_minfree st div 64"] z L(2) by (auto split: option.splits)
  then have a: "alloc_swap st = alloc_swap ?st" by (simp add: alloc_swap.simps [of st] NBULONG_def)
  have "free_block ?st (64 * ?L)" using e(3) False L by simp
  from alloc_step [OF e(1) this] False obtain b st' where b: "alloc_swap ?st = Some (b, st')" "swap_inv st'" "free_block ?st b"
    "\<forall>n. free_block ?st n \<longrightarrow> b \<le> n" "used_blocks st' = insert b (used_blocks st)" "swap_file st' = swap_file st"
    "total_bytes_swapped st' = total_bytes_swapped st" "total_swap_chains st' = total_swap_chains st"
    using e(2) by (auto simp: extend_swap_bitmap_def Let_def)
  have "b = 64 * ?L" using b(3,4) e(3) False L by force
  moreover have "64 * ?L \<le> n" if "n \<notin> used_blocks st" for n
    using that False by (auto simp: used_blocks_def free_block_def not_less)
  moreover have "64 * ?L \<notin> used_blocks st" by (simp add: used_blocks_def)
  ultimately show ?thesis using a b by (intro exI [of _ b] exI [of _ st']) simp
qed

lemma free_swap_law:
  assumes inv: "swap_inv st" and b: "b \<in> used_blocks st" "b \<noteq> 0"
  shows "\<exists>st'. free_swap b st = Some st' \<and> swap_inv st' \<and> used_blocks st' = used_blocks st - {b} \<and> swap_file st' = swap_file st \<and>
    total_bytes_swapped st' = total_bytes_swapped st \<and> total_swap_chains st' = total_swap_chains st"
proof -
  let ?ws = "swap_bitmap st" and ?L = "length (swap_bitmap st)" and ?i = "b div 64" and ?c = "b mod 64"
  have i: "?i < ?L" "b < 64 * ?L" using b by (auto simp: used_blocks_def)
  let ?st = "st\<lparr>swap_bitmap := ?ws[?i := ?ws ! ?i OR push_bit ?c 1],
    swap_minfree := (if swap_minfree st > b then b else swap_minfree st)\<rparr>"
  have f: "free_swap b st = Some ?st" using i by (simp add: free_swap_def NBULONG_def Let_def)
  have u: "n < 64 * ?L \<Longrightarrow> bit (?ws[?i := ?ws ! ?i OR push_bit ?c 1] ! (n div 64)) (n mod 64) \<longleftrightarrow>
      (if n = ?i * 64 + ?c then True else bit (?ws ! (n div 64)) (n mod 64))" for n
    by (rule used_blocks_update [OF i(1)]) (simp_all add: bit_mark del: push_bit_of_1)
  have us: "used_blocks ?st = used_blocks st - {b}"
  proof (rule set_eqI)
    show "n \<in> used_blocks ?st \<longleftrightarrow> n \<in> used_blocks st - {b}" for n
      using u [of n] by (auto simp: used_blocks_def simp del: push_bit_of_1 split: if_splits)
  qed
  have "swap_minfree ?st \<le> n" if "free_block ?st n" for n
  proof -
    have "n = b \<or> free_block st n" using that u [of n] by (auto simp: free_block_def simp del: push_bit_of_1 split: if_splits)
    then show ?thesis using inv by (auto simp: swap_inv_def)
  qed
  then have "swap_inv ?st" using inv us b i by (auto simp: swap_inv_def)
  with f us show ?thesis by auto
qed

section \<open>Chains of blocks\<close>

text \<open>
  The blocks \<open>bs\<close> of the file are linked, the last one to \<open>nxt\<close>, and hold the bytes \<open>c\<close>, 252 each.
\<close>

fun linked :: "(nat \<rightharpoonup> u8 list) \<Rightarrow> nat list \<Rightarrow> nat \<Rightarrow> u8 list \<Rightarrow> bool" where
  "linked F [] nxt c \<longleftrightarrow> c = []"
| "linked F (b # bs) nxt c \<longleftrightarrow> 252 \<le> length c \<and> F b = Some (le 4 (hd (bs @ [nxt])) @ take 252 c) \<and> linked F bs nxt (drop 252 c)"

lemma linked_length: "linked F bs nxt c \<Longrightarrow> length c = 252 * length bs"
  by (induction bs arbitrary: c) fastforce+

lemma linked_snoc:
  assumes "linked F bs b c" "F b = Some (le 4 nxt @ d)" "length d = 252"
  shows "linked F (bs @ [b]) nxt (c @ d)"
  using assms
proof (induction bs arbitrary: c)
  case (Cons x bs)
  have "hd (bs @ [b, nxt]) = hd (bs @ [b])" by (cases bs) simp_all
  with Cons.IH [of "drop 252 c"] Cons.prems show ?case by simp
qed simp

lemma linked_file_cong: "(\<And>b. b \<in> set bs \<Longrightarrow> F' b = F b) \<Longrightarrow> linked F' bs nxt c \<longleftrightarrow> linked F bs nxt c"
  by (induction bs arbitrary: c) auto

definition block_list :: "swap \<Rightarrow> nat list \<Rightarrow> bool" where
  "block_list st bs \<longleftrightarrow> distinct bs \<and> set bs \<subseteq> used_blocks st - {0} \<and> (\<forall>b\<in>set bs. b < 2 ^ 32)"

text \<open>A buffer that is being written: the blocks \<open>bs\<close> are full, and \<open>out\<close> has been written so far.\<close>

definition writing :: "swap \<Rightarrow> buffer \<Rightarrow> nat list \<Rightarrow> u8 list \<Rightarrow> bool" where
  "writing st bp bs out \<longleftrightarrow> swap_inv st \<and> block_list st (bs @ [bufnum bp]) \<and>
     (\<exists>c part. out = c @ part \<and> linked (swap_file st) bs (bufnum bp) c \<and> length part \<le> 252 \<and>
        offset bp = 4 + length part \<and> data bp = le 4 0 @ part @ replicate (252 - length part) 0)"

text \<open>A block is started only when a byte has to be written to it.\<close>

definition snug :: "nat list \<Rightarrow> buffer \<Rightarrow> bool" where
  "snug bs bp \<longleftrightarrow> bs = [] \<or> offset bp > 4"

definition same_totals :: "swap \<Rightarrow> swap \<Rightarrow> bool" where
  "same_totals st st' \<longleftrightarrow>
     total_bytes_swapped st' = total_bytes_swapped st \<and> total_swap_chains st' = total_swap_chains st"

lemma addr0_le: "data bp = le 4 x @ r \<Longrightarrow> x < 2 ^ 32 \<Longrightarrow> addr0 bp = x"
  by (simp add: addr0_def of_le_le)

lemma block_bound:
  assumes "\<forall>n. n \<notin> used_blocks st \<longrightarrow> b \<le> n"
  shows "b \<le> card (used_blocks st)"
proof -
  have "{..<b} \<subseteq> used_blocks st" using assms not_le by blast
  from card_mono [OF finite_used this] show ?thesis by simp
qed

lemma le_zero: "le k 0 = replicate k 0"
  by (induction k) simp_all

lemma zero_block: "replicate 256 0 = le 4 0 @ replicate 252 (0 :: u8)"
  unfolding le_zero replicate_add [symmetric] by simp

lemma start_write_law:
  assumes inv: "swap_inv st" and room: "card (used_blocks st) < 2 ^ 32"
  shows "\<exists>bp st'. start_write 0 st = Some (bp, st') \<and> writing st' bp [] [] \<and> bufnum bp \<notin> used_blocks st \<and>
    used_blocks st' = insert (bufnum bp) (used_blocks st) \<and> swap_file st' = swap_file st \<and>
    total_bytes_swapped st' = total_bytes_swapped st \<and> total_swap_chains st' = total_swap_chains st + 1 \<and>
    bufnum bp \<le> card (used_blocks st)"
proof -
  from alloc_swap_law [OF inv] obtain b st' where a: "alloc_swap st = Some (b, st')" "swap_inv st'" "b \<notin> used_blocks st"
    "\<forall>n. n \<notin> used_blocks st \<longrightarrow> b \<le> n" "used_blocks st' = insert b (used_blocks st)" "swap_file st' = swap_file st"
    "total_bytes_swapped st' = total_bytes_swapped st" "total_swap_chains st' = total_swap_chains st" by blast
  have b: "b < 2 ^ 32" using block_bound [OF a(4)] room by simp
  have "b \<noteq> 0" using a(3) inv unfolding swap_inv_def by metis
  note b = b this
  let ?st = "st'\<lparr>total_swap_chains := total_swap_chains st' + 1\<rparr>"
  have same: "used_blocks ?st = used_blocks st'" "swap_inv ?st = swap_inv st'"
    by (simp_all add: used_blocks_def swap_inv_def free_block_def)
  show ?thesis using a b same block_bound [OF a(4)]
    by (intro exI [of _ "\<lparr>bufnum = b, offset = 4, data = replicate 256 0\<rparr>"] exI [of _ ?st])
      (simp add: start_write_def writing_def block_list_def BUFFER_DATA_SIZE_def zero_block)
qed

lemma used_blocks_file [simp]: "used_blocks (st\<lparr>swap_file := F\<rparr>) = used_blocks st" "swap_inv (st\<lparr>swap_file := F\<rparr>) = swap_inv st"
  "used_blocks (st\<lparr>total_bytes_swapped := k\<rparr>) = used_blocks st" "swap_inv (st\<lparr>total_bytes_swapped := k\<rparr>) = swap_inv st"
  "used_blocks (st\<lparr>total_swap_chains := j\<rparr>) = used_blocks st" "swap_inv (st\<lparr>total_swap_chains := j\<rparr>) = swap_inv st"
  by (simp_all add: used_blocks_def swap_inv_def free_block_def)

lemma linked_upd: "b \<notin> set bs \<Longrightarrow> linked (F(b \<mapsto> d)) bs nxt c \<longleftrightarrow> linked F bs nxt c"
  by (rule linked_file_cong) auto

lemma writingI:
  assumes "swap_inv st" "block_list st (bs @ [bufnum bp])" "linked (swap_file st) bs (bufnum bp) c" "length part \<le> 252"
    "offset bp = 4 + length part" "data bp = le 4 0 @ part @ replicate (252 - length part) 0"
  shows "writing st bp bs (c @ part)"
  using assms unfolding writing_def by blast

lemma next_write_law:
  assumes w: "writing st bp bs out" and room: "card (used_blocks st) < 2 ^ 32"
  shows "\<exists>bp' st' bs' more. next_write bp st = Some (bp', st') \<and> writing st' bp' bs' out \<and> offset bp' < 256 \<and>
    bs' @ [bufnum bp'] = bs @ [bufnum bp] @ more \<and> set more \<inter> used_blocks st = {} \<and> used_blocks st' = used_blocks st \<union> set more \<and>
    length more \<le> 1 \<and> (\<forall>b. b \<notin> set bs' \<longrightarrow> swap_file st' b = swap_file st b) \<and> same_totals st st'"
proof -
  from w obtain c part where o: "out = c @ part" "linked (swap_file st) bs (bufnum bp) c" "length part \<le> 252"
    "offset bp = 4 + length part" "data bp = le 4 0 @ part @ replicate (252 - length part) 0" by (auto simp: writing_def)
  have inv: "swap_inv st" and bl: "block_list st (bs @ [bufnum bp])" using w by (auto simp: writing_def)
  show ?thesis
  proof (cases "offset bp = 256")
    case False
    then show ?thesis using w o
      by (intro exI [of _ bp] exI [of _ st] exI [of _ bs] exI [of _ "[]"]) (simp add: next_write_def BUFFER_DATA_SIZE_def same_totals_def)
  next
    case True
    then have p: "length part = 252" using o by simp
    from alloc_swap_law [OF inv] obtain b st1 where a: "alloc_swap st = Some (b, st1)" "swap_inv st1" "b \<notin> used_blocks st"
      "\<forall>n. n \<notin> used_blocks st \<longrightarrow> b \<le> n" "used_blocks st1 = insert b (used_blocks st)" "swap_file st1 = swap_file st"
      "same_totals st st1" by (auto simp: same_totals_def)
    have b: "b < 2 ^ 32" using block_bound [OF a(4)] room by simp
    have "b \<noteq> 0" using a(3) inv unfolding swap_inv_def by metis
    note b = b this of_le_le [of b 4]
    let ?d = "le 4 b @ part" and ?F = "(swap_file st)(bufnum bp \<mapsto> le 4 b @ part)"
    let ?bp = "\<lparr>bufnum = b, offset = 4, data = replicate 256 0\<rparr>" and ?st = "st1\<lparr>swap_file := ?F\<rparr>"
    have d: "mem_write (data bp) 0 (le 4 b) = Some ?d" using o(5) p by (simp add: mem_write_def)
    have n: "next_write bp st = Some (?bp, ?st)"
      using True addr0_le [OF o(5)] a(1,6) b d by (simp add: next_write_def bwrite_def BUFFER_DATA_SIZE_def)
    have "bufnum bp \<notin> set bs" using bl by (simp add: block_list_def)
    then have "linked ?F bs (bufnum bp) c" using o(2) by (simp add: linked_upd)
    then have l: "linked ?F (bs @ [bufnum bp]) b out" unfolding o(1) by (rule linked_snoc) (simp_all add: p)
    have "block_list ?st ((bs @ [bufnum bp]) @ [b])" using bl a(3,5) b by (auto simp: block_list_def)
    then have "writing ?st ?bp (bs @ [bufnum bp]) (out @ [])"
      using a(2) l by (intro writingI) (simp_all add: zero_block)
    moreover have "same_totals st ?st" using a(7) by (simp add: same_totals_def)
    ultimately show ?thesis using n a(3,5,6)
      by (intro exI [of _ ?bp] exI [of _ ?st] exI [of _ "bs @ [bufnum bp]"] exI [of _ "[b]"]) simp
  qed
qed

lemma write_chunk:
  assumes w: "writing st bp bs out" and x: "length xs \<le> 256 - offset bp"
  shows "\<exists>d. mem_write (data bp) (offset bp) xs = Some d \<and>
    writing st (bp\<lparr>data := d, offset := offset bp + length xs\<rparr>) bs (out @ xs)"
proof -
  from w obtain c part where o: "out = c @ part" "linked (swap_file st) bs (bufnum bp) c" "length part \<le> 252"
    "offset bp = 4 + length part" "data bp = le 4 0 @ part @ replicate (252 - length part) 0" by (auto simp: writing_def)
  have l: "length part + length xs \<le> 252" using o(3,4) x by simp
  let ?d = "le 4 0 @ (part @ xs) @ replicate (252 - length (part @ xs)) 0"
  have "mem_write (data bp) (offset bp) xs = Some ?d" using o(4,5) l by (simp add: mem_write_def)
  moreover have "writing st (bp\<lparr>data := ?d, offset := offset bp + length xs\<rparr>) bs (out @ xs)"
    unfolding o(1) append_assoc using w o(2,4) l by (intro writingI) (auto simp: writing_def)
  ultimately show ?thesis by blast
qed

lemma write_loop_law:
  assumes "writing st bp bs out" "card (used_blocks st) + length buf < 2 ^ 32"
  shows "\<exists>bp' st' bs' more. write_loop bp buf st = Some (bp', st') \<and> writing st' bp' bs' (out @ buf) \<and>
    bs' @ [bufnum bp'] = bs @ [bufnum bp] @ more \<and> set more \<inter> used_blocks st = {} \<and> used_blocks st' = used_blocks st \<union> set more \<and>
    (\<forall>b. b \<notin> set bs' \<longrightarrow> swap_file st' b = swap_file st b) \<and> same_totals st st' \<and> (snug bs bp \<longrightarrow> snug bs' bp') \<and>
    length more \<le> length buf"
  using assms
proof (induction "length buf" arbitrary: bp buf st bs out rule: less_induct)
  case less
  show ?case
  proof (cases "buf = []")
    case True
    then show ?thesis using less.prems(1)
      by (intro exI [of _ bp] exI [of _ st] exI [of _ bs] exI [of _ "[]"]) (simp add: write_loop.simps [of bp] same_totals_def)
  next
    case False
    have "card (used_blocks st) < 2 ^ 32" using less.prems(2) by simp
    from next_write_law [OF less.prems(1) this] obtain bp1 st1 bs1 more1 where n: "next_write bp st = Some (bp1, st1)"
      "writing st1 bp1 bs1 out" "offset bp1 < 256" "bs1 @ [bufnum bp1] = bs @ [bufnum bp] @ more1"
      "set more1 \<inter> used_blocks st = {}" "used_blocks st1 = used_blocks st \<union> set more1" "length more1 \<le> 1"
      "\<forall>b. b \<notin> set bs1 \<longrightarrow> swap_file st1 b = swap_file st b" "same_totals st st1" by blast
    define cc where "cc = min (256 - offset bp1) (length buf)"
    let ?xs = "take cc buf"
    have cc: "0 < cc" "length ?xs = cc" "cc \<le> 256 - offset bp1" using n(3) False by (auto simp: cc_def)
    obtain d where d: "mem_write (data bp1) (offset bp1) ?xs = Some d"
      "writing st1 (bp1\<lparr>data := d, offset := offset bp1 + cc\<rparr>) bs1 (out @ ?xs)"
      using write_chunk [OF n(2), of ?xs] cc by auto
    let ?bp = "bp1\<lparr>data := d, offset := offset bp1 + cc\<rparr>" and ?buf = "drop cc buf"
    have s: "write_loop bp buf st = write_loop ?bp ?buf st1"
      using n(1) False cc d(1) by (simp add: write_loop.simps [of bp] BUFFER_DATA_SIZE_def Let_def cc_def [symmetric])
    have "card (used_blocks st1) \<le> card (used_blocks st) + 1"
      using card_Un_le [of "used_blocks st" "set more1"] card_length [of more1] n(6,7) by simp
    then have r: "card (used_blocks st1) + length ?buf < 2 ^ 32" "length ?buf < length buf"
      using less.prems(2) cc by auto
    from less.hyps [OF r(2) d(2) r(1)] obtain bp' st' bs' more where l: "write_loop ?bp ?buf st1 = Some (bp', st')"
      "writing st' bp' bs' ((out @ ?xs) @ ?buf)" "bs' @ [bufnum bp'] = bs1 @ [bufnum ?bp] @ more"
      "set more \<inter> used_blocks st1 = {}" "used_blocks st' = used_blocks st1 \<union> set more"
      "\<forall>b. b \<notin> set bs' \<longrightarrow> swap_file st' b = swap_file st1 b" "same_totals st1 st'" "snug bs1 ?bp \<longrightarrow> snug bs' bp'"
      "length more \<le> length ?buf" by blast
    have wr: "offset bp1 \<ge> 4" using n(2) by (auto simp: writing_def)
    have sub: "set bs1 \<subseteq> set bs'"
    proof -
      have "\<exists>r. bs' = bs1 @ r" using l(3) by (cases more rule: rev_cases) auto
      then show ?thesis by auto
    qed
    have f: "swap_file st' b = swap_file st b" if "b \<notin> set bs'" for b using l(6) n(8) sub that by auto
    have sn: "snug bs' bp'" using l(8) wr cc(1) by (simp add: snug_def)
    have t: "same_totals st st'" using l(7) n(9) by (simp add: same_totals_def)
    have o: "bs' @ [bufnum bp'] = bs @ [bufnum bp] @ more1 @ more" using l(3) n(4) by simp
    have u: "set (more1 @ more) \<inter> used_blocks st = {}" "used_blocks st' = used_blocks st \<union> set (more1 @ more)"
      using l(4,5) n(5,6) by auto
    have "length (more1 @ more) \<le> length buf" using l(9) n(7) r(2) by simp
    moreover have "writing st' bp' bs' (out @ buf)" using l(2) by simp
    ultimately show ?thesis using s l(1) f sn t o u by metis
  qed
qed

lemma writing_totals [simp]: "writing (st\<lparr>total_bytes_swapped := k\<rparr>) bp bs out = writing st bp bs out"
  by (simp add: writing_def block_list_def)

lemma swap_write_law:
  assumes "writing st bp bs out" "card (used_blocks st) + length buf < 2 ^ 32"
  shows "\<exists>bp' st' bs' more. swap_write bp buf st = Some (bp', st') \<and> writing st' bp' bs' (out @ buf) \<and>
    bs' @ [bufnum bp'] = bs @ [bufnum bp] @ more \<and> set more \<inter> used_blocks st = {} \<and> used_blocks st' = used_blocks st \<union> set more \<and>
    (\<forall>b. b \<notin> set bs' \<longrightarrow> swap_file st' b = swap_file st b) \<and> (snug bs bp \<longrightarrow> snug bs' bp') \<and>
    total_bytes_swapped st' = total_bytes_swapped st + int (length buf) \<and> total_swap_chains st' = total_swap_chains st \<and>
    length more \<le> length buf"
proof -
  let ?st = "st\<lparr>total_bytes_swapped := total_bytes_swapped st + int (length buf)\<rparr>"
  have "writing ?st bp bs out" "card (used_blocks ?st) + length buf < 2 ^ 32" using assms by simp_all
  from write_loop_law [OF this] obtain bp' st' bs' more where w: "write_loop bp buf ?st = Some (bp', st')"
    "writing st' bp' bs' (out @ buf)" "bs' @ [bufnum bp'] = bs @ [bufnum bp] @ more" "set more \<inter> used_blocks st = {}"
    "used_blocks st' = used_blocks st \<union> set more" "\<forall>b. b \<notin> set bs' \<longrightarrow> swap_file st' b = swap_file st b"
    "same_totals ?st st'" "snug bs bp \<longrightarrow> snug bs' bp'" "length more \<le> length buf" by auto
  then show ?thesis
    by (intro exI [of _ bp'] exI [of _ st'] exI [of _ bs'] exI [of _ more]) (simp add: swap_write_def same_totals_def)
qed

text \<open>The blocks \<open>bs\<close> of the file hold the stream \<open>out\<close>, and no more blocks than it needs.\<close>

definition stored :: "swap \<Rightarrow> nat list \<Rightarrow> u8 list \<Rightarrow> bool" where
  "stored st bs out \<longleftrightarrow> bs \<noteq> [] \<and> block_list st bs \<and>
     (\<exists>pad. linked (swap_file st) bs 0 (out @ pad) \<and> (length pad < 252 \<or> length bs = 1))"

lemma end_write_law:
  assumes w: "writing st bp bs out" and s: "snug bs bp"
  shows "\<exists>st'. end_write bp st = Some st' \<and> stored st' (bs @ [bufnum bp]) out \<and> swap_inv st' \<and> used_blocks st' = used_blocks st \<and>
    (\<forall>b. b \<noteq> bufnum bp \<longrightarrow> swap_file st' b = swap_file st b) \<and> same_totals st st'"
proof -
  from w obtain c part where o: "out = c @ part" "linked (swap_file st) bs (bufnum bp) c" "length part \<le> 252"
    "offset bp = 4 + length part" "data bp = le 4 0 @ part @ replicate (252 - length part) 0" by (auto simp: writing_def)
  have bl: "block_list st (bs @ [bufnum bp])" using w by (auto simp: writing_def)
  let ?F = "(swap_file st)(bufnum bp \<mapsto> data bp)" and ?pad = "replicate (252 - length part) (0 :: u8)"
  have e: "end_write bp st = Some (st\<lparr>swap_file := ?F\<rparr>)" using addr0_le [OF o(5)] by (simp add: end_write_def bwrite_def)
  have "linked ?F bs (bufnum bp) c" using o(2) bl by (simp add: linked_upd block_list_def)
  then have "linked ?F (bs @ [bufnum bp]) 0 (c @ part @ ?pad)" by (rule linked_snoc) (use o in simp_all)
  moreover have "length ?pad < 252 \<or> length (bs @ [bufnum bp]) = 1" using s o(4) by (auto simp: snug_def)
  moreover have "block_list (st\<lparr>swap_file := ?F\<rparr>) (bs @ [bufnum bp])" using bl by (simp add: block_list_def)
  ultimately have "stored (st\<lparr>swap_file := ?F\<rparr>) (bs @ [bufnum bp]) out"
    unfolding stored_def o(1) append_assoc by (intro conjI exI [of _ ?pad]) simp_all
  then show ?thesis using e w by (auto simp: writing_def same_totals_def)
qed

text \<open>A buffer that is being read: \<open>bs\<close> are the blocks after it, and \<open>c\<close> is what is left.\<close>

definition reading :: "swap \<Rightarrow> buffer \<Rightarrow> nat list \<Rightarrow> u8 list \<Rightarrow> bool" where
  "reading st bp bs c \<longleftrightarrow> swap_inv st \<and> block_list st (bufnum bp # bs) \<and>
     (\<exists>d c'. data bp = le 4 (hd (bs @ [0])) @ d \<and> length d = 252 \<and> 4 \<le> offset bp \<and> offset bp \<le> 256 \<and>
        linked (swap_file st) bs 0 c' \<and> c = drop (offset bp - 4) d @ c')"

lemma reading_length: "reading st bp bs c \<Longrightarrow> length c = 256 - offset bp + 252 * length bs"
  by (auto simp: reading_def dest: linked_length)

lemma readingI:
  assumes "swap_inv st" "block_list st (b # bs)" "252 \<le> length c" "linked (swap_file st) bs 0 (drop 252 c)"
  shows "reading st \<lparr>bufnum = b, offset = 4, data = le 4 (hd (bs @ [0])) @ take 252 c\<rparr> bs c"
proof -
  have "c = drop 0 (take 252 c) @ drop 252 c" by simp
  then have "\<exists>d c'. take 252 c = d \<and> length d = 252 \<and> linked (swap_file st) bs 0 c' \<and> c = drop 0 d @ c'"
    using assms(3,4) by (metis length_take min.absorb2)
  then show ?thesis using assms(1,2) by (simp add: reading_def)
qed

lemma start_read_law:
  assumes "stored st bs out" "swap_inv st"
  shows "\<exists>bp pad. start_read (hd bs) st = Some bp \<and> bufnum bp = hd bs \<and> reading st bp (tl bs) (out @ pad) \<and>
    (length pad < 252 \<or> tl bs = [])"
proof -
  from assms obtain b bs' pad where b: "bs = b # bs'" "block_list st bs" "linked (swap_file st) bs 0 (out @ pad)"
    "length pad < 252 \<or> bs' = []" unfolding stored_def by (cases bs) auto
  let ?bp = "\<lparr>bufnum = b, offset = 4, data = le 4 (hd (bs' @ [0])) @ take 252 (out @ pad)\<rparr>"
  have "start_read b st = Some ?bp" using b by (simp add: start_read_def bread_def block_list_def)
  moreover have "reading st ?bp bs' (out @ pad)" using b assms(2) by (intro readingI) simp_all
  ultimately show ?thesis using b by auto
qed

lemma block_list_free:
  assumes "block_list st (b # bs)" "used_blocks st' = used_blocks st - {b}"
  shows "block_list st' bs"
  using assms by (auto simp: block_list_def)

lemma next_read_law:
  assumes r: "reading st bp bs c" and c: "c \<noteq> []"
  shows "\<exists>bp' st' bs' gone. next_read bp st = Some (bp', st') \<and> reading st' bp' bs' c \<and> offset bp' < 256 \<and>
    bufnum bp # bs = gone @ bufnum bp' # bs' \<and> used_blocks st' = used_blocks st - set gone \<and> swap_file st' = swap_file st \<and>
    same_totals st st'"
proof -
  from r obtain d c' where o: "data bp = le 4 (hd (bs @ [0])) @ d" "length d = 252" "4 \<le> offset bp" "offset bp \<le> 256"
    "linked (swap_file st) bs 0 c'" "c = drop (offset bp - 4) d @ c'" by (auto simp: reading_def)
  have inv: "swap_inv st" and bl: "block_list st (bufnum bp # bs)" using r by (auto simp: reading_def)
  show ?thesis
  proof (cases "offset bp = 256")
    case False
    then show ?thesis using r o(4)
      by (intro exI [of _ bp] exI [of _ st] exI [of _ bs] exI [of _ "[]"]) (simp add: next_read_def BUFFER_DATA_SIZE_def same_totals_def)
  next
    case True
    then have c': "c = c'" using o by simp
    then obtain b bs' where b: "bs = b # bs'" using c o(5) by (cases bs) auto
    have "bufnum bp \<in> used_blocks st" "bufnum bp \<noteq> 0" using bl by (auto simp: block_list_def)
    from free_swap_law [OF inv this] obtain st' where f: "free_swap (bufnum bp) st = Some st'" "swap_inv st'"
      "used_blocks st' = used_blocks st - {bufnum bp}" "swap_file st' = swap_file st" "same_totals st st'"
      by (auto simp: same_totals_def)
    have bb: "b < 2 ^ 32" "b \<noteq> 0" using bl b by (auto simp: block_list_def)
    have a: "addr0 bp = b" using addr0_le [OF o(1)] b bb by simp
    let ?bp = "\<lparr>bufnum = b, offset = 4, data = le 4 (hd (bs' @ [0])) @ take 252 c\<rparr>"
    have "next_read bp st = Some (?bp, st')"
      using True f(1,4) a bb(2) b o(5) c' by (simp add: next_read_def bread_def BUFFER_DATA_SIZE_def)
    moreover have "reading st' ?bp bs' c"
      using f(2,4) block_list_free [OF bl f(3)] b o(5) c' by (intro readingI) simp_all
    ultimately show ?thesis using b f
      by (intro exI [of _ ?bp] exI [of _ st'] exI [of _ bs'] exI [of _ "[bufnum bp]"]) simp
  qed
qed

lemma reading_step:
  assumes r: "reading st bp bs c" and n: "n \<le> 256 - offset bp"
  shows "take n (drop (offset bp) (data bp)) = take n c" "reading st (bp\<lparr>offset := offset bp + n\<rparr>) bs (drop n c)"
    "length (data bp) = 256" "n \<le> length c"
proof -
  from r obtain d c' where o: "data bp = le 4 (hd (bs @ [0])) @ d" "length d = 252" "4 \<le> offset bp" "offset bp \<le> 256"
    "linked (swap_file st) bs 0 c'" "c = drop (offset bp - 4) d @ c'" by (auto simp: reading_def)
  show "take n (drop (offset bp) (data bp)) = take n c" "length (data bp) = 256" "n \<le> length c" using o n by auto
  have "drop n c = drop (offset bp + n - 4) d @ c'" using o n by (simp add: add.commute)
  moreover have "offset bp + n \<le> 256" using n o(4) by simp
  ultimately show "reading st (bp\<lparr>offset := offset bp + n\<rparr>) bs (drop n c)" using r o by (auto simp: reading_def)
qed

lemma read_loop_law:
  assumes "reading st bp bs c" "len \<le> length c"
  shows "\<exists>bp' st' bs' gone. read_loop bp len st = Some (take len c, bp', st') \<and> reading st' bp' bs' (drop len c) \<and>
    bufnum bp # bs = gone @ bufnum bp' # bs' \<and> used_blocks st' = used_blocks st - set gone \<and> swap_file st' = swap_file st \<and>
    same_totals st st'"
  using assms
proof (induction len arbitrary: bp st bs c rule: less_induct)
  case (less len)
  show ?case
  proof (cases "len = 0")
    case True
    then show ?thesis using less.prems
      by (intro exI [of _ bp] exI [of _ st] exI [of _ bs] exI [of _ "[]"]) (simp add: read_loop.simps [of bp] same_totals_def)
  next
    case False
    then have "c \<noteq> []" using less.prems(2) by auto
    from next_read_law [OF less.prems(1) this] obtain bp1 st1 bs1 gone1 where n: "next_read bp st = Some (bp1, st1)"
      "reading st1 bp1 bs1 c" "offset bp1 < 256" "bufnum bp # bs = gone1 @ bufnum bp1 # bs1"
      "used_blocks st1 = used_blocks st - set gone1" "swap_file st1 = swap_file st" "same_totals st st1" by blast
    define cc where "cc = min (256 - offset bp1) len"
    have cc: "0 < cc" "cc \<le> 256 - offset bp1" "cc \<le> len" using n(3) False by (auto simp: cc_def)
    note R = reading_step [OF n(2) cc(2)]
    let ?bp = "bp1\<lparr>offset := offset bp1 + cc\<rparr>"
    have "len - cc < len" "len - cc \<le> length (drop cc c)" using cc(1,3) less.prems(2) by simp_all
    from less.IH [OF this(1) R(2) this(2)] obtain bp' st' bs' gone where l:
      "read_loop ?bp (len - cc) st1 = Some (take (len - cc) (drop cc c), bp', st')" "reading st' bp' bs' (drop (len - cc) (drop cc c))"
      "bufnum ?bp # bs1 = gone @ bufnum bp' # bs'" "used_blocks st' = used_blocks st1 - set gone" "swap_file st' = swap_file st1"
      "same_totals st1 st'" by blast
    have "read_loop bp len st = Some (take cc c @ take (len - cc) (drop cc c), bp', st')"
      using n(1) False cc R(1,3) l(1) by (simp add: read_loop.simps [of bp] BUFFER_DATA_SIZE_def Let_def cc_def [symmetric])
    moreover have "take cc c @ take (len - cc) (drop cc c) = take len c" "drop (len - cc) (drop cc c) = drop len c"
      using cc(3) by (simp_all add: take_add [symmetric])
    moreover have "bufnum bp # bs = (gone1 @ gone) @ bufnum bp' # bs'" using n(4) l(3) by simp
    moreover have "used_blocks st' = used_blocks st - set (gone1 @ gone)" using n(5) l(4) by auto
    moreover have "same_totals st st'" using n(7) l(6) by (simp add: same_totals_def)
    ultimately show ?thesis using l(2,5) n(6) by metis
  qed
qed

lemma reading_totals [simp]: "reading (st\<lparr>total_bytes_swapped := k\<rparr>) bp bs out = reading st bp bs out"
  by (simp add: reading_def block_list_def)

lemma swap_read_law:
  assumes "reading st bp bs (out @ rest)"
  shows "\<exists>bp' st' bs' gone. swap_read bp (length out) st = Some (out, bp', st') \<and> reading st' bp' bs' rest \<and>
    bufnum bp # bs = gone @ bufnum bp' # bs' \<and> used_blocks st' = used_blocks st - set gone \<and> swap_file st' = swap_file st \<and>
    total_bytes_swapped st' = total_bytes_swapped st - int (length out) \<and> total_swap_chains st' = total_swap_chains st"
proof -
  let ?st = "st\<lparr>total_bytes_swapped := total_bytes_swapped st - int (length out)\<rparr>"
  have "reading ?st bp bs (out @ rest)" "length out \<le> length (out @ rest)" using assms by simp_all
  from read_loop_law [OF this] obtain bp' st' bs' gone where w: "read_loop bp (length out) ?st = Some (out, bp', st')"
    "reading st' bp' bs' rest" "bufnum bp # bs = gone @ bufnum bp' # bs'" "used_blocks st' = used_blocks st - set gone"
    "swap_file st' = swap_file st" "same_totals ?st st'" by auto
  then show ?thesis
    by (intro exI [of _ bp'] exI [of _ st'] exI [of _ bs'] exI [of _ gone]) (simp add: swap_read_def same_totals_def)
qed

lemma end_read_law:
  assumes r: "reading st bp bs pad" and p: "length pad < 252 \<or> bs = []"
  shows "bs = [] \<and> (\<exists>st'. end_read bp st = Some st' \<and> swap_inv st' \<and> used_blocks st' = used_blocks st - {bufnum bp} \<and>
    swap_file st' = swap_file st \<and> total_bytes_swapped st' = total_bytes_swapped st \<and>
    total_swap_chains st' = total_swap_chains st - 1)"
proof -
  have bs: "bs = []" using reading_length [OF r] p by (cases bs) auto
  have inv: "swap_inv st" and bl: "block_list st [bufnum bp]" using r bs by (auto simp: reading_def)
  have a: "addr0 bp = 0" using r bs by (auto simp: reading_def intro: addr0_le)
  have "bufnum bp \<in> used_blocks st" "bufnum bp \<noteq> 0" using bl by (auto simp: block_list_def)
  from free_swap_law [OF inv this] show ?thesis using bs a by (auto simp: end_read_def)
qed

section \<open>The store of streams\<close>

text \<open>
  What code that writes a stream does, given that it writes \<open>x\<close>: it may add blocks to the chain, and leaves the blocks of others.
\<close>

definition emits :: "(buffer \<Rightarrow> swap \<Rightarrow> (buffer \<times> swap) option) \<Rightarrow> u8 list \<Rightarrow> bool" where
  "emits W x \<longleftrightarrow> (\<forall>st bp bs out. writing st bp bs out \<longrightarrow> card (used_blocks st) + length x < 2 ^ 32 \<longrightarrow>
     (\<exists>bp' st' bs' more. W bp st = Some (bp', st') \<and> writing st' bp' bs' (out @ x) \<and>
        bs' @ [bufnum bp'] = bs @ [bufnum bp] @ more \<and> set more \<inter> used_blocks st = {} \<and>
        used_blocks st' = used_blocks st \<union> set more \<and> (\<forall>b. b \<notin> set bs' \<longrightarrow> swap_file st' b = swap_file st b) \<and>
        (snug bs bp \<longrightarrow> snug bs' bp') \<and> total_bytes_swapped st' = total_bytes_swapped st + int (length x) \<and>
        total_swap_chains st' = total_swap_chains st \<and> length more \<le> length x))"

lemma emits_write: "emits (\<lambda>bp. swap_write bp x) x"
  unfolding emits_def by (intro allI impI) (rule swap_write_law)

lemma emits_nothing: "emits (\<lambda>bp st. Some (bp, st)) []"
  unfolding emits_def by auto

lemma emits_seq:
  assumes W: "emits W x" and V: "emits V y"
  shows "emits (\<lambda>bp st. W bp st \<bind> (\<lambda>(bp, st). V bp st)) (x @ y)"
  unfolding emits_def
proof (intro allI impI)
  fix st bp bs out
  assume w: "writing st bp bs out" and room: "card (used_blocks st) + length (x @ y) < 2 ^ 32"
  then have "card (used_blocks st) + length x < 2 ^ 32" by simp
  from W [unfolded emits_def, rule_format, OF w this] obtain bp1 st1 bs1 more1 where 1: "W bp st = Some (bp1, st1)"
    "writing st1 bp1 bs1 (out @ x)" "bs1 @ [bufnum bp1] = bs @ [bufnum bp] @ more1" "set more1 \<inter> used_blocks st = {}"
    "used_blocks st1 = used_blocks st \<union> set more1" "\<forall>b. b \<notin> set bs1 \<longrightarrow> swap_file st1 b = swap_file st b" "snug bs bp \<longrightarrow> snug bs1 bp1"
    "total_bytes_swapped st1 = total_bytes_swapped st + int (length x)" "total_swap_chains st1 = total_swap_chains st"
    "length more1 \<le> length x" by blast
  have "card (used_blocks st1) \<le> card (used_blocks st) + length x"
    using card_Un_le [of "used_blocks st" "set more1"] card_length [of more1] 1(5,10) by simp
  then have "card (used_blocks st1) + length y < 2 ^ 32" using room by simp
  from V [unfolded emits_def, rule_format, OF 1(2) this] obtain bp2 st2 bs2 more2 where 2: "V bp1 st1 = Some (bp2, st2)"
    "writing st2 bp2 bs2 ((out @ x) @ y)" "bs2 @ [bufnum bp2] = bs1 @ [bufnum bp1] @ more2" "set more2 \<inter> used_blocks st1 = {}"
    "used_blocks st2 = used_blocks st1 \<union> set more2" "\<forall>b. b \<notin> set bs2 \<longrightarrow> swap_file st2 b = swap_file st1 b" "snug bs1 bp1 \<longrightarrow> snug bs2 bp2"
    "total_bytes_swapped st2 = total_bytes_swapped st1 + int (length y)" "total_swap_chains st2 = total_swap_chains st1"
    "length more2 \<le> length y" by blast
  have "\<exists>r. bs2 = bs1 @ r" using 2(3) by (cases more2 rule: rev_cases) auto
  then have f: "\<forall>b. b \<notin> set bs2 \<longrightarrow> swap_file st2 b = swap_file st b" using 1(6) 2(6) by auto
  have o: "bs2 @ [bufnum bp2] = bs @ [bufnum bp] @ more1 @ more2" using 1(3) 2(3) by simp
  have u: "set (more1 @ more2) \<inter> used_blocks st = {}" "used_blocks st2 = used_blocks st \<union> set (more1 @ more2)"
    "length (more1 @ more2) \<le> length (x @ y)" using 1(4,5,10) 2(4,5,10) by auto
  have t: "total_bytes_swapped st2 = total_bytes_swapped st + int (length (x @ y))" "total_swap_chains st2 = total_swap_chains st"
    "snug bs bp \<longrightarrow> snug bs2 bp2" using 1(7,8,9) 2(7,8,9) by auto
  have w2: "writing st2 bp2 bs2 (out @ x @ y)" "(W bp st \<bind> (\<lambda>(bp, st). V bp st)) = Some (bp2, st2)" using 2(1,2) 1(1) by simp_all
  show "\<exists>bp' st' bs' more. (W bp st \<bind> (\<lambda>(bp, st). V bp st)) = Some (bp', st') \<and> writing st' bp' bs' (out @ x @ y) \<and>
        bs' @ [bufnum bp'] = bs @ [bufnum bp] @ more \<and> set more \<inter> used_blocks st = {} \<and>
        used_blocks st' = used_blocks st \<union> set more \<and> (\<forall>b. b \<notin> set bs' \<longrightarrow> swap_file st' b = swap_file st b) \<and>
        (snug bs bp \<longrightarrow> snug bs' bp') \<and> total_bytes_swapped st' = total_bytes_swapped st + int (length (x @ y)) \<and>
        total_swap_chains st' = total_swap_chains st \<and> length more \<le> length (x @ y)"
    using w2 o u f t by metis
qed

text \<open>What code that reads a stream does: it gets \<open>v\<close> out of the bytes \<open>x\<close>.\<close>

definition consumes :: "(buffer \<Rightarrow> swap \<Rightarrow> ('v \<times> buffer \<times> swap) option) \<Rightarrow> u8 list \<Rightarrow> 'v \<Rightarrow> bool" where
  "consumes R x v \<longleftrightarrow> (\<forall>st bp bs rest. reading st bp bs (x @ rest) \<longrightarrow>
     (\<exists>bp' st' bs' gone. R bp st = Some (v, bp', st') \<and> reading st' bp' bs' rest \<and>
        bufnum bp # bs = gone @ bufnum bp' # bs' \<and> used_blocks st' = used_blocks st - set gone \<and> swap_file st' = swap_file st \<and>
        total_bytes_swapped st' = total_bytes_swapped st - int (length x) \<and> total_swap_chains st' = total_swap_chains st))"

lemma consumes_read: "consumes (\<lambda>bp. swap_read bp (length x)) x x"
  unfolding consumes_def by (intro allI impI) (rule swap_read_law)

lemma consumes_nothing: "consumes (\<lambda>bp st. Some (v, bp, st)) [] v"
  unfolding consumes_def by auto

lemma consumes_bind:
  assumes R: "consumes R x v" and S: "consumes (S v) y w"
  shows "consumes (\<lambda>bp st. R bp st \<bind> (\<lambda>(v, bp, st). S v bp st)) (x @ y) w"
  unfolding consumes_def
proof (intro allI impI)
  fix st bp bs rest
  assume "reading st bp bs ((x @ y) @ rest)"
  then have "reading st bp bs (x @ y @ rest)" by simp
  from R [unfolded consumes_def, rule_format, OF this] obtain bp1 st1 bs1 gone1 where 1: "R bp st = Some (v, bp1, st1)"
    "reading st1 bp1 bs1 (y @ rest)" "bufnum bp # bs = gone1 @ bufnum bp1 # bs1" "used_blocks st1 = used_blocks st - set gone1"
    "swap_file st1 = swap_file st" "total_bytes_swapped st1 = total_bytes_swapped st - int (length x)"
    "total_swap_chains st1 = total_swap_chains st" by blast
  from S [unfolded consumes_def, rule_format, OF 1(2)] obtain bp2 st2 bs2 gone2 where 2: "S v bp1 st1 = Some (w, bp2, st2)"
    "reading st2 bp2 bs2 rest" "bufnum bp1 # bs1 = gone2 @ bufnum bp2 # bs2" "used_blocks st2 = used_blocks st1 - set gone2"
    "swap_file st2 = swap_file st1" "total_bytes_swapped st2 = total_bytes_swapped st1 - int (length y)"
    "total_swap_chains st2 = total_swap_chains st1" by blast
  show "\<exists>bp' st' bs' gone. (R bp st \<bind> (\<lambda>(v, bp, st). S v bp st)) = Some (w, bp', st') \<and> reading st' bp' bs' rest \<and>
        bufnum bp # bs = gone @ bufnum bp' # bs' \<and> used_blocks st' = used_blocks st - set gone \<and> swap_file st' = swap_file st \<and>
        total_bytes_swapped st' = total_bytes_swapped st - int (length (x @ y)) \<and> total_swap_chains st' = total_swap_chains st"
    using 1 2 by (intro exI [of _ bp2] exI [of _ st2] exI [of _ bs2] exI [of _ "gone1 @ gone2"]) auto
qed

text \<open>The whole of writing and of reading a chain, as \<^verbatim>\<open>swap_object\<close> and \<^verbatim>\<open>swap_segment\<close> and their inverses do it.\<close>

definition put_stream :: "(buffer \<Rightarrow> swap \<Rightarrow> (buffer \<times> swap) option) \<Rightarrow> swap \<Rightarrow> (nat \<times> swap) option" where
  "put_stream W st = do {
     (bp, st) \<leftarrow> start_write 0 st;
     (bp', st) \<leftarrow> W bp st;
     st \<leftarrow> end_write bp' st;
     Some (bufnum bp, st) }"

definition get_stream :: "(buffer \<Rightarrow> swap \<Rightarrow> ('v \<times> buffer \<times> swap) option) \<Rightarrow> nat \<Rightarrow> swap \<Rightarrow> ('v \<times> swap) option" where
  "get_stream R blkno st = do {
     bp \<leftarrow> start_read blkno st;
     (v, bp, st) \<leftarrow> R bp st;
     st \<leftarrow> end_read bp st;
     Some (v, st) }"

text \<open>The file holds the streams of \<open>M\<close>, each under the number of its first block, in the chains \<open>B\<close>, and nothing else.\<close>

definition chains_hold :: "swap \<Rightarrow> (nat \<Rightarrow> nat list) \<Rightarrow> (nat \<rightharpoonup> u8 list) \<Rightarrow> bool" where
  "chains_hold st B M \<longleftrightarrow> (\<forall>b x. M b = Some x \<longrightarrow> stored st (B b) x \<and> hd (B b) = b) \<and>
     (\<forall>a\<in>dom M. \<forall>b\<in>dom M. a \<noteq> b \<longrightarrow> set (B a) \<inter> set (B b) = {}) \<and> used_blocks st = insert 0 (\<Union>b\<in>dom M. set (B b))"

definition swap_store :: "swap \<Rightarrow> (nat \<rightharpoonup> u8 list) \<Rightarrow> bool" where
  "swap_store st M \<longleftrightarrow> swap_inv st \<and> (\<exists>B. chains_hold st B M)"

lemma stored_cong:
  assumes "stored st bs x" "\<And>b. b \<in> set bs \<Longrightarrow> swap_file st' b = swap_file st b" "set bs \<subseteq> used_blocks st'"
  shows "stored st' bs x"
proof -
  have "linked (swap_file st') bs 0 c = linked (swap_file st) bs 0 c" for c using assms(2) by (rule linked_file_cong)
  then show ?thesis using assms(1,3) by (auto simp: stored_def block_list_def)
qed

lemma chains_hold_put:
  assumes B: "chains_hold st B M" and bs: "stored st' bs x" "set bs \<inter> used_blocks st = {}"
    and used: "used_blocks st' = used_blocks st \<union> set bs" and fl: "\<And>b. b \<in> used_blocks st \<Longrightarrow> swap_file st' b = swap_file st b"
  shows "M (hd bs) = None \<and> chains_hold st' (B(hd bs := bs)) (M(hd bs \<mapsto> x))"
proof -
  let ?b = "hd bs"
  have own: "set (B a) \<subseteq> used_blocks st" if "a \<in> dom M" for a using B that unfolding chains_hold_def by blast
  have hd: "a \<in> set (B a)" if "a \<in> dom M" for a using B that unfolding chains_hold_def stored_def by (metis domD hd_in_set)
  have b: "?b \<in> set bs" using bs(1) by (simp add: stored_def)
  have M: "?b \<notin> dom M" using own hd b bs(2) by blast
  have apart: "set (B a) \<inter> set bs = {}" if "a \<in> dom M" for a using own [OF that] bs(2) by blast
  have old: "stored st' (B a) y" if "M a = Some y" for a y
  proof (rule stored_cong)
    show "stored st (B a) y" using B that by (auto simp: chains_hold_def)
    show "swap_file st' b = swap_file st b" if "b \<in> set (B a)" for b using that own [of a] \<open>M a = Some y\<close> fl by auto
    show "set (B a) \<subseteq> used_blocks st'" using own [of a] that used by auto
  qed
  have "chains_hold st' (B(?b := bs)) (M(?b \<mapsto> x))"
    unfolding chains_hold_def
  proof (intro conjI)
    show "\<forall>b y. (M(?b \<mapsto> x)) b = Some y \<longrightarrow> stored st' ((B(?b := bs)) b) y \<and> hd ((B(?b := bs)) b) = b"
      using old bs(1) B by (auto simp: chains_hold_def)
    show "\<forall>a\<in>dom (M(?b \<mapsto> x)). \<forall>b\<in>dom (M(?b \<mapsto> x)). a \<noteq> b \<longrightarrow> set ((B(?b := bs)) a) \<inter> set ((B(?b := bs)) b) = {}"
      using apart B unfolding chains_hold_def by (simp add: Int_commute)
    have "(\<Union>b\<in>dom M. set ((B(?b := bs)) b)) = (\<Union>b\<in>dom M. set (B b))" using M by (intro SUP_cong) auto
    then show "used_blocks st' = insert 0 (\<Union>b\<in>dom (M(?b \<mapsto> x)). set ((B(?b := bs)) b))"
      using B used unfolding chains_hold_def by auto
  qed
  with M show ?thesis by (simp add: domIff)
qed

lemma put_stream_law:
  assumes W: "emits W x" and st: "swap_store st M" and room: "card (used_blocks st) + length x + 1 < 2 ^ 32"
  shows "\<exists>b st'. put_stream W st = Some (b, st') \<and> b \<noteq> 0 \<and> M b = None \<and> swap_store st' (M(b \<mapsto> x)) \<and>
    card (used_blocks st') \<le> card (used_blocks st) + length x + 1 \<and>
    total_bytes_swapped st' = total_bytes_swapped st + int (length x) \<and> total_swap_chains st' = total_swap_chains st + 1 \<and>
    b \<le> card (used_blocks st)"
proof -
  from st obtain B where inv: "swap_inv st" and B: "chains_hold st B M" by (auto simp: swap_store_def)
  have "card (used_blocks st) < 2 ^ 32" using room by simp
  from start_write_law [OF inv this] obtain bp st1 where 1: "start_write 0 st = Some (bp, st1)" "writing st1 bp [] []"
    "bufnum bp \<notin> used_blocks st" "used_blocks st1 = insert (bufnum bp) (used_blocks st)" "swap_file st1 = swap_file st"
    "total_bytes_swapped st1 = total_bytes_swapped st" "total_swap_chains st1 = total_swap_chains st + 1"
    "bufnum bp \<le> card (used_blocks st)" by blast
  have c1: "card (used_blocks st1) = card (used_blocks st) + 1" using 1(3,4) by simp
  then have "card (used_blocks st1) + length x < 2 ^ 32" using room by simp
  from W [unfolded emits_def, rule_format, OF 1(2) this] obtain bp2 st2 bs more where 2: "W bp st1 = Some (bp2, st2)"
    "writing st2 bp2 bs x" "bs @ [bufnum bp2] = bufnum bp # more" "set more \<inter> used_blocks st1 = {}"
    "used_blocks st2 = used_blocks st1 \<union> set more" "\<forall>b. b \<notin> set bs \<longrightarrow> swap_file st2 b = swap_file st1 b" "snug bs bp2"
    "total_bytes_swapped st2 = total_bytes_swapped st1 + int (length x)" "total_swap_chains st2 = total_swap_chains st1"
    "length more \<le> length x" by (auto simp: snug_def)
  let ?bs = "bs @ [bufnum bp2]"
  from end_write_law [OF 2(2,7)] obtain st3 where 3: "end_write bp2 st2 = Some st3" "stored st3 ?bs x" "swap_inv st3"
    "used_blocks st3 = used_blocks st2" "\<forall>b. b \<noteq> bufnum bp2 \<longrightarrow> swap_file st3 b = swap_file st2 b" "same_totals st2 st3" by blast
  have hd: "hd ?bs = bufnum bp" using 2(3) by simp
  have new: "set ?bs \<inter> used_blocks st = {}" "used_blocks st3 = used_blocks st \<union> set ?bs" using 1(3,4) 2(3,4,5) 3(4) by auto
  have fl: "swap_file st3 b = swap_file st b" if "b \<in> used_blocks st" for b
  proof -
    have "b \<notin> set bs" "b \<noteq> bufnum bp2" using that new(1) by auto
    then show ?thesis using 3(5) 2(6) 1(5) by simp
  qed
  note C = chains_hold_put [OF B 3(2) new fl, unfolded hd]
  have p: "put_stream W st = Some (bufnum bp, st3)" using 1(1) 2(1) 3(1) by (simp add: put_stream_def)
  moreover have "bufnum bp \<noteq> 0" using 1(3) inv unfolding swap_inv_def by metis
  moreover have "card (used_blocks st3) \<le> card (used_blocks st) + length x + 1"
    using card_Un_le [of "used_blocks st1" "set more"] card_length [of more] 2(5,10) 3(4) c1 by simp
  moreover have "swap_store st3 (M(bufnum bp \<mapsto> x))" using C 3(3) unfolding swap_store_def by blast
  ultimately show ?thesis using C 3(6) 2(8,9) 1(6,7,8) by (simp add: same_totals_def)
qed

lemma get_stream_law:
  assumes R: "consumes R x v" and st: "swap_store st M" and b: "M b = Some x"
  shows "\<exists>st'. get_stream R b st = Some (v, st') \<and> swap_store st' (M(b := None)) \<and> used_blocks st' \<subseteq> used_blocks st \<and>
    total_bytes_swapped st' = total_bytes_swapped st - int (length x) \<and> total_swap_chains st' = total_swap_chains st - 1"
proof -
  from st obtain B where inv: "swap_inv st" and B: "chains_hold st B M" by (auto simp: swap_store_def)
  have s: "stored st (B b) x" "hd (B b) = b" using B b by (auto simp: chains_hold_def)
  have ne: "B b \<noteq> []" using s(1) by (simp add: stored_def)
  from start_read_law [OF s(1) inv] obtain bp pad where 1: "start_read b st = Some bp" "bufnum bp = b"
    "reading st bp (tl (B b)) (x @ pad)" "length pad < 252 \<or> tl (B b) = []" using s(2) by auto
  from R [unfolded consumes_def, rule_format, OF 1(3)] obtain bp2 st2 bs2 gone where 2: "R bp st = Some (v, bp2, st2)"
    "reading st2 bp2 bs2 pad" "bufnum bp # tl (B b) = gone @ bufnum bp2 # bs2" "used_blocks st2 = used_blocks st - set gone"
    "swap_file st2 = swap_file st" "total_bytes_swapped st2 = total_bytes_swapped st - int (length x)"
    "total_swap_chains st2 = total_swap_chains st" by blast
  have all: "B b = gone @ bufnum bp2 # bs2" using 2(3) 1(2) s(2) ne by (metis list.collapse)
  have "length pad < 252 \<or> bs2 = []" using 1(4) 2(3) by (cases gone) auto
  from end_read_law [OF 2(2) this] obtain st3 where 3: "bs2 = []" "end_read bp2 st2 = Some st3" "swap_inv st3"
    "used_blocks st3 = used_blocks st2 - {bufnum bp2}" "swap_file st3 = swap_file st2"
    "total_bytes_swapped st3 = total_bytes_swapped st2" "total_swap_chains st3 = total_swap_chains st2 - 1" by blast
  have u: "used_blocks st3 = used_blocks st - set (B b)" using 2(4) 3(1,4) all by auto
  have g: "get_stream R b st = Some (v, st3)" using 1(1) 2(1) 3(2) by (simp add: get_stream_def)
  have disj: "set (B a) \<inter> set (B b) = {}" if "a \<in> dom M" "a \<noteq> b" for a using B that b unfolding chains_hold_def by blast
  have own: "set (B a) \<subseteq> used_blocks st" if "a \<in> dom M" for a using B that unfolding chains_hold_def by blast
  have "stored st3 (B a) y" if "M a = Some y" "a \<noteq> b" for a y
  proof (rule stored_cong)
    show "stored st (B a) y" using B that by (auto simp: chains_hold_def)
    show "swap_file st3 c = swap_file st c" for c using 3(5) 2(5) by simp
    show "set (B a) \<subseteq> used_blocks st3" using u disj [of a] own [of a] that by auto
  qed
  moreover have "0 \<notin> set (B b)" using s(1) by (auto simp: stored_def block_list_def)
  then have "used_blocks st3 = insert 0 (\<Union>a\<in>dom (M(b := None)). set (B a))"
    using B u disj unfolding chains_hold_def by auto
  ultimately have "chains_hold st3 B (M(b := None))" using B unfolding chains_hold_def by auto
  then show ?thesis using g u 3(3,6,7) 2(6,7) by (auto simp: swap_store_def)
qed

lemma init_swap_law:
  assumes "8 dvd page" "0 < page"
  shows "used_blocks (init_swap page) = {0} \<and> swap_inv (init_swap page)"
proof -
  obtain k where k: "page div 8 = Suc k" "page = 8 * Suc k" using assms by (metis dvd_mult_div_cancel nat_0_less_mult_iff not0_implies_Suc less_numeral_extra(3))
  let ?ws = "swap_bitmap (init_swap page)"
  have ws: "?ws = - 2 # replicate k (- 1)" using k by (simp add: init_swap_def)
  have b: "bit (?ws ! (n div 64)) (n mod 64) \<longleftrightarrow> n \<noteq> 0" if "n < 64 * length ?ws" for n
  proof (cases "n div 64")
    case 0
    have "- 2 = NOT (1 :: 64 word)" by (simp add: not_eq_complement)
    then have "bit (- 2 :: 64 word) n \<longleftrightarrow> n \<noteq> 0 \<and> n < 64" by (auto simp: bit_simps)
    moreover have "n < 64" "n mod 64 = n" using 0 by (simp_all add: div_eq_0_iff)
    ultimately show ?thesis using 0 ws by simp
  next
    case (Suc i)
    then show ?thesis using ws that by (auto simp: bit_simps)
  qed
  have "used_blocks (init_swap page) = {0}" using b ws by (auto simp: used_blocks_def)
  moreover have "swap_inv (init_swap page)"
    using calculation ws k by (auto simp: swap_inv_def init_swap_def NBBY_def)
  ultimately show ?thesis by blast
qed

lemma init_swap_used: "8 dvd page \<Longrightarrow> 0 < page \<Longrightarrow> used_blocks (init_swap page) = {0}"
  by (simp add: init_swap_law)

lemma init_swap_store: "8 dvd page \<Longrightarrow> 0 < page \<Longrightarrow> swap_store (init_swap page) Map.empty"
  by (simp add: init_swap_law swap_store_def chains_hold_def)

section \<open>The interface of the store\<close>

text \<open>
  What the code that swaps programs and objects relies on: a stream that was put is there under its number until it is taken, and
  then it is gone; the other streams stay.
\<close>

locale stream_store =
  fixes holding :: "'s \<Rightarrow> (nat \<rightharpoonup> u8 list) \<Rightarrow> bool"
    and room :: "'s \<Rightarrow> nat \<Rightarrow> bool"
    and put :: "u8 list \<Rightarrow> 's \<Rightarrow> (nat \<times> 's) option"
    and get :: "nat \<Rightarrow> nat \<Rightarrow> 's \<Rightarrow> (u8 list \<times> 's) option"
  assumes put_law: "holding st M \<Longrightarrow> room st (length x) \<Longrightarrow>
      \<exists>b st'. put x st = Some (b, st') \<and> b \<noteq> 0 \<and> M b = None \<and> holding st' (M(b \<mapsto> x))"
    and get_law: "holding st M \<Longrightarrow> M b = Some x \<Longrightarrow>
      \<exists>st'. get b (length x) st = Some (x, st') \<and> holding st' (M(b := None))"
begin

lemma put_then_get:
  assumes "holding st M" "room st (length x)"
  shows "\<exists>b st' st''. put x st = Some (b, st') \<and> get b (length x) st' = Some (x, st'') \<and> holding st'' M"
proof -
  from put_law [OF assms] obtain b st' where p: "put x st = Some (b, st')" "M b = None" "holding st' (M(b \<mapsto> x))" by blast
  from get_law [OF p(3), of b x] obtain st'' where g: "get b (length x) st' = Some (x, st'')" "holding st'' (M(b := None))" by auto
  have "M(b := None) = M" using p(2) by auto
  with p g show ?thesis by metis
qed

lemma put_keeps_others:
  assumes "holding st M" "room st (length x)" "M a = Some y" "put x st = Some (b, st')"
  shows "\<exists>st''. get a (length y) st' = Some (y, st'')"
proof -
  have "M b = None" "holding st' (M(b \<mapsto> x))" using put_law [OF assms(1,2)] assms(4) by auto
  then show ?thesis using get_law [of st' "M(b \<mapsto> x)" a y] assms(3) by (cases "a = b") auto
qed

end

text \<open>A stream that is written and read in one piece, as that of a program.\<close>

definition put_bytes :: "u8 list \<Rightarrow> swap \<Rightarrow> (nat \<times> swap) option" where
  "put_bytes x = put_stream (\<lambda>bp. swap_write bp x)"

definition get_bytes :: "nat \<Rightarrow> nat \<Rightarrow> swap \<Rightarrow> (u8 list \<times> swap) option" where
  "get_bytes b n = get_stream (\<lambda>bp. swap_read bp n) b"

definition swap_room :: "swap \<Rightarrow> nat \<Rightarrow> bool" where
  "swap_room st n \<longleftrightarrow> card (used_blocks st) + n + 1 < 2 ^ 32"

interpretation sw: stream_store swap_store swap_room put_bytes get_bytes
proof
  show "\<exists>b st'. put_bytes x st = Some (b, st') \<and> b \<noteq> 0 \<and> M b = None \<and> swap_store st' (M(b \<mapsto> x))"
    if "swap_store st M" "swap_room st (length x)" for st M x
    using put_stream_law [OF emits_write that(1), of x] that(2) by (auto simp: put_bytes_def swap_room_def)
  show "\<exists>st'. get_bytes b (length x) st = Some (x, st') \<and> swap_store st' (M(b := None))" if "swap_store st M" "M b = Some x" for st M b x
    using get_stream_law [OF consumes_read that] by (auto simp: get_bytes_def)
qed

section \<open>Programs\<close>

text \<open>
  A segment of a program: the pointers into its block, of which the first one is that of the block itself, the number of its
  chain and its size.  Memory is a map from the addresses of blocks to their bytes; \<open>a\<close> is the address that \<^verbatim>\<open>xalloc\<close> returns.
\<close>

record segment =
  sg_ptrs :: "int list"
  sg_swap_idx :: nat
  sg_size :: nat

record swap_world =
  sw_file :: swap
  sw_mem :: "int \<rightharpoonup> u8 list"

definition swap_segment :: "segment \<Rightarrow> swap_world \<Rightarrow> (segment \<times> swap_world) option" where
  "swap_segment s w =
     (let block = hd (sg_ptrs s)
      in do {
        x \<leftarrow> sw_mem w block;
        (i, f) \<leftarrow> (if sg_swap_idx s = 0
                   then (if length x < sg_size s then None else put_bytes (take (sg_size s) x) (sw_file w))
                   else Some (sg_swap_idx s, sw_file w));
        (if i = 2 ^ 32 - 1 then None
         else Some (s\<lparr>sg_swap_idx := i, sg_ptrs := map (\<lambda>p. p - block) (sg_ptrs s)\<rparr>,
                    w\<lparr>sw_file := f, sw_mem := (sw_mem w)(block := None)\<rparr>)) })"

definition unswap_segment :: "int \<Rightarrow> segment \<Rightarrow> swap_world \<Rightarrow> (segment \<times> swap_world) option" where
  "unswap_segment a s w = do {
     (x, f) \<leftarrow> get_bytes (sg_swap_idx s) (sg_size s) (sw_file w);
     Some (s\<lparr>sg_swap_idx := 0, sg_ptrs := map (\<lambda>d. a + d) (sg_ptrs s)\<rparr>, w\<lparr>sw_file := f, sw_mem := (sw_mem w)(a \<mapsto> x)\<rparr>) }"

record program =
  p_exec :: segment
  p_dbg :: segment

definition swapped_out :: "segment \<Rightarrow> bool" where
  "swapped_out s \<longleftrightarrow> hd (sg_ptrs s) = 0"

definition swap_lineno :: "program \<Rightarrow> swap_world \<Rightarrow> (program \<times> swap_world) option" where
  "swap_lineno p w =
     (if swapped_out (p_dbg p) then Some (p, w)
      else do { (s, w) \<leftarrow> swap_segment (p_dbg p) w; Some (p\<lparr>p_dbg := s\<rparr>, w) })"

definition load_lineno_from_swap :: "int \<Rightarrow> program \<Rightarrow> swap_world \<Rightarrow> (program \<times> swap_world) option" where
  "load_lineno_from_swap a p w =
     (if \<not> swapped_out (p_dbg p) then Some (p, w)
      else if sg_swap_idx (p_dbg p) = 0 then None
      else do { (s, w) \<leftarrow> unswap_segment a (p_dbg p) w; Some (p\<lparr>p_dbg := s\<rparr>, w) })"

definition swap_program :: "program \<Rightarrow> swap_world \<Rightarrow> (program \<times> swap_world) option" where
  "swap_program p w = do {
     (p, w) \<leftarrow> (if swapped_out (p_dbg p) then Some (p, w) else swap_lineno p w);
     (if swapped_out (p_exec p) then Some (p, w)
      else do { (s, w) \<leftarrow> swap_segment (p_exec p) w; Some (p\<lparr>p_exec := s\<rparr>, w) }) }"

definition load_prog_from_swap :: "int \<Rightarrow> program \<Rightarrow> swap_world \<Rightarrow> (program \<times> swap_world) option" where
  "load_prog_from_swap a p w =
     (if \<not> swapped_out (p_exec p) \<or> sg_swap_idx (p_exec p) = 0 then Some (p, w)
      else do { (s, w) \<leftarrow> unswap_segment a (p_exec p) w; Some (p\<lparr>p_exec := s\<rparr>, w) })"

definition remove_prog_from_swap :: "int \<Rightarrow> int \<Rightarrow> program \<Rightarrow> swap_world \<Rightarrow> (program \<times> swap_world) option" where
  "remove_prog_from_swap a b p w = do {
     (p, w) \<leftarrow> (if sg_swap_idx (p_exec p) \<noteq> 0 \<and> swapped_out (p_exec p) then load_prog_from_swap a p w else Some (p, w));
     (if sg_swap_idx (p_dbg p) \<noteq> 0 then load_lineno_from_swap b p w else Some (p, w)) }"

text \<open>A segment that is in memory, in the block at \<open>blk\<close>.\<close>

definition resident :: "segment \<Rightarrow> int \<Rightarrow> u8 list \<Rightarrow> swap_world \<Rightarrow> bool" where
  "resident s blk x w \<longleftrightarrow> sg_ptrs s \<noteq> [] \<and> hd (sg_ptrs s) = blk \<and> blk \<noteq> 0 \<and> sw_mem w blk = Some x \<and> sg_size s = length x \<and>
     sg_swap_idx s = 0"

lemma swap_segment_law:
  assumes r: "resident s blk x w" and st: "swap_store (sw_file w) M" and room: "card (used_blocks (sw_file w)) + length x + 1 < 2 ^ 32"
  shows "\<exists>i w'. swap_segment s w = Some (s\<lparr>sg_swap_idx := i, sg_ptrs := map (\<lambda>p. p - blk) (sg_ptrs s)\<rparr>, w') \<and> i \<noteq> 0 \<and> M i = None \<and>
    swap_store (sw_file w') (M(i \<mapsto> x)) \<and> sw_mem w' = (sw_mem w)(blk := None) \<and>
    card (used_blocks (sw_file w')) \<le> card (used_blocks (sw_file w)) + length x + 1"
proof -
  from put_stream_law [OF emits_write st room] obtain i f where p: "put_bytes x (sw_file w) = Some (i, f)" "i \<noteq> 0" "M i = None"
    "swap_store f (M(i \<mapsto> x))" "card (used_blocks f) \<le> card (used_blocks (sw_file w)) + length x + 1"
    "i \<le> card (used_blocks (sw_file w))" by (auto simp: put_bytes_def)
  have "i \<noteq> 2 ^ 32 - 1" using p(6) room by simp
  then show ?thesis using r p by (auto simp: swap_segment_def resident_def)
qed

lemma swapped_out_swap: "sg_ptrs s \<noteq> [] \<Longrightarrow> hd (sg_ptrs s) = blk \<Longrightarrow>
    swapped_out (s\<lparr>sg_swap_idx := i, sg_ptrs := map (\<lambda>p. p - blk) (sg_ptrs s)\<rparr>)"
  by (simp add: swapped_out_def hd_map)

lemma unswap_segment_law:
  assumes st: "swap_store (sw_file w) M" and i: "M (sg_swap_idx s) = Some x" "sg_size s = length x"
  shows "\<exists>w'. unswap_segment a s w = Some (s\<lparr>sg_swap_idx := 0, sg_ptrs := map (\<lambda>d. a + d) (sg_ptrs s)\<rparr>, w') \<and>
    swap_store (sw_file w') (M(sg_swap_idx s := None)) \<and> sw_mem w' = (sw_mem w)(a \<mapsto> x)"
  using sw.get_law [OF st i(1)] i(2) by (auto simp: unswap_segment_def)

text \<open>C21. Swapping out a program and its line numbers and loading them again: the blocks go from memory to the swap file and come
  back with the same bytes, all pointers into them moved by the same distance, and the swap file holds what it held before.\<close>

theorem program_swap_roundtrip:
  assumes st: "swap_store (sw_file w) M" and e: "resident (p_exec p) blk x w" and d: "resident (p_dbg p) blk' y w"
    and "blk \<noteq> blk'" and "a \<noteq> b" and "card (used_blocks (sw_file w)) + length x + length y + 2 < 2 ^ 32"
  shows "\<exists>p' w' p'' w''. swap_program p w = Some (p', w') \<and> swapped_out (p_exec p') \<and> swapped_out (p_dbg p') \<and>
    sw_mem w' = (sw_mem w)(blk' := None, blk := None) \<and>
    swap_store (sw_file w') (M(sg_swap_idx (p_dbg p') \<mapsto> y, sg_swap_idx (p_exec p') \<mapsto> x)) \<and>
    remove_prog_from_swap a b p' w' = Some (p'', w'') \<and> sw_mem w'' a = Some x \<and> sw_mem w'' b = Some y \<and>
    sg_ptrs (p_exec p'') = map (\<lambda>q. a + (q - blk)) (sg_ptrs (p_exec p)) \<and>
    sg_ptrs (p_dbg p'') = map (\<lambda>q. b + (q - blk')) (sg_ptrs (p_dbg p)) \<and> swap_store (sw_file w'') M"
proof -
  have room: "card (used_blocks (sw_file w)) + length y + 1 < 2 ^ 32" using assms(6) by simp
  from swap_segment_law [OF d st room] obtain j w1 where 1: "swap_segment (p_dbg p) w =
      Some ((p_dbg p)\<lparr>sg_swap_idx := j, sg_ptrs := map (\<lambda>p. p - blk') (sg_ptrs (p_dbg p))\<rparr>, w1)" "j \<noteq> 0" "M j = None"
    "swap_store (sw_file w1) (M(j \<mapsto> y))" "sw_mem w1 = (sw_mem w)(blk' := None)"
    "card (used_blocks (sw_file w1)) \<le> card (used_blocks (sw_file w)) + length y + 1" by blast
  have e1: "resident (p_exec p) blk x w1" using e 1(5) assms(4) by (simp add: resident_def)
  have "card (used_blocks (sw_file w1)) + length x + 1 < 2 ^ 32" using 1(6) assms(6) by simp
  from swap_segment_law [OF e1 1(4) this] obtain i w2 where 2: "swap_segment (p_exec p) w1 =
      Some ((p_exec p)\<lparr>sg_swap_idx := i, sg_ptrs := map (\<lambda>p. p - blk) (sg_ptrs (p_exec p))\<rparr>, w2)" "i \<noteq> 0" "(M(j \<mapsto> y)) i = None"
    "swap_store (sw_file w2) (M(j \<mapsto> y, i \<mapsto> x))" "sw_mem w2 = (sw_mem w1)(blk := None)" by blast
  let ?d = "(p_dbg p)\<lparr>sg_swap_idx := j, sg_ptrs := map (\<lambda>p. p - blk') (sg_ptrs (p_dbg p))\<rparr>"
  let ?e = "(p_exec p)\<lparr>sg_swap_idx := i, sg_ptrs := map (\<lambda>p. p - blk) (sg_ptrs (p_exec p))\<rparr>"
  let ?p = "p\<lparr>p_dbg := ?d, p_exec := ?e\<rparr>"
  have out: "swapped_out ?d" "swapped_out ?e" using d e by (simp_all add: swapped_out_swap resident_def)
  have s: "swap_program p w = Some (?p, w2)"
    using 1(1) 2(1) d e by (simp add: swap_program_def swap_lineno_def swapped_out_def resident_def)
  have ij: "i \<noteq> j" "M i = None" using 2(3) by (auto split: if_splits)
  from unswap_segment_law [OF 2(4), of ?e x a] e obtain w3 where 3: "unswap_segment a ?e w2 =
      Some (?e\<lparr>sg_swap_idx := 0, sg_ptrs := map (\<lambda>d. a + d) (sg_ptrs ?e)\<rparr>, w3)" "swap_store (sw_file w3) (M(j \<mapsto> y))"
    "sw_mem w3 = (sw_mem w2)(a \<mapsto> x)" using 2(3) by (auto simp: resident_def fun_upd_idem)
  have "(M(j \<mapsto> y, j := None)) = M" using 1(3) by auto
  with unswap_segment_law [OF 3(2), of ?d y b] d obtain w4 where 4: "unswap_segment b ?d w3 =
      Some (?d\<lparr>sg_swap_idx := 0, sg_ptrs := map (\<lambda>d. b + d) (sg_ptrs ?d)\<rparr>, w4)" "swap_store (sw_file w4) M"
    "sw_mem w4 = (sw_mem w3)(b \<mapsto> y)" by (auto simp: resident_def)
  let ?q = "p\<lparr>p_dbg := ?d\<lparr>sg_swap_idx := 0, sg_ptrs := map (\<lambda>d. b + d) (sg_ptrs ?d)\<rparr>,
    p_exec := ?e\<lparr>sg_swap_idx := 0, sg_ptrs := map (\<lambda>d. a + d) (sg_ptrs ?e)\<rparr>\<rparr>"
  have l: "remove_prog_from_swap a b ?p w2 = Some (?q, w4)"
    using 3(1) 4(1) out 1(2) 2(2) by (simp add: remove_prog_from_swap_def load_prog_from_swap_def load_lineno_from_swap_def)
  show ?thesis
    by (rule exI [of _ ?p], rule exI [of _ w2], rule exI [of _ ?q], rule exI [of _ w4])
      (use s l out 1(5) 2(4,5) 3(3) 4(2,3) assms(5) in \<open>simp add: comp_def\<close>)
qed

text \<open>C20. The swap file is a store of streams: a stream that is put gets a number that is not 0 and not in use and is found under
  it, a stream that is taken is what was put, its number and its blocks are free again, and the other streams are not touched.\<close>

theorem swap_file_refines:
  assumes "swap_store st M"
  shows "(swap_room st (length x) \<longrightarrow>
      (\<exists>b st'. put_bytes x st = Some (b, st') \<and> b \<noteq> 0 \<and> M b = None \<and> swap_store st' (M(b \<mapsto> x)))) \<and>
    (M b = Some y \<longrightarrow> (\<exists>st'. get_bytes b (length y) st = Some (y, st') \<and> swap_store st' (M(b := None))))"
  using sw.put_law [OF assms] sw.get_law [OF assms] by blast

theorem swap_file_refines_witness:
  "\<exists>b st'. put_bytes [1, 2, 3] (init_swap 4096) = Some (b, st') \<and> b \<noteq> 0 \<and> swap_store st' [b \<mapsto> [1, 2, 3]]"
proof -
  have "swap_room (init_swap 4096) (length [1, 2, 3 :: u8])" by (simp add: swap_room_def init_swap_used)
  moreover have "swap_store (init_swap 4096) Map.empty" by (rule init_swap_store) simp_all
  ultimately show ?thesis using swap_file_refines [of "init_swap 4096" Map.empty "[1, 2, 3]"] by blast
qed

theorem program_swap_roundtrip_witness:
  "\<exists>p' w' p'' w''. swap_program \<lparr>p_exec = \<lparr>sg_ptrs = [100, 101], sg_swap_idx = 0, sg_size = 2\<rparr>,
        p_dbg = \<lparr>sg_ptrs = [200], sg_swap_idx = 0, sg_size = 1\<rparr>\<rparr>
      \<lparr>sw_file = init_swap 4096, sw_mem = [100 \<mapsto> [7, 8], 200 \<mapsto> [9]]\<rparr> = Some (p', w') \<and>
    remove_prog_from_swap 300 400 p' w' = Some (p'', w'') \<and> sg_ptrs (p_exec p'') = [300, 301] \<and> sw_mem w'' 300 = Some [7, 8]"
proof -
  let ?w = "\<lparr>sw_file = init_swap 4096, sw_mem = [100 \<mapsto> [7, 8], 200 \<mapsto> [9]]\<rparr>"
  let ?p = "\<lparr>p_exec = \<lparr>sg_ptrs = [100, 101], sg_swap_idx = 0, sg_size = 2\<rparr>, p_dbg = \<lparr>sg_ptrs = [200], sg_swap_idx = 0, sg_size = 1\<rparr>\<rparr>"
  have "swap_store (sw_file ?w) Map.empty" by (simp add: init_swap_store)
  from program_swap_roundtrip [OF this, of ?p 100 "[7, 8]" 200 "[9]" 300 400] show ?thesis
    by (fastforce simp: resident_def init_swap_used)
qed

end
