(* ===== verification/Environment.thy ===== *)
theory Environment
  imports Lpc_Array
begin

text \<open>
  Where objects are (\<^verbatim>\<open>src/simulate.c\<close>): the environment of an object, its inventory list, moving an object, and
  the commands that living objects get from the objects around them.

  Objects are addresses; the inventory lists are those of \<^verbatim>\<open>array.c\<close>.  The list of sentences of an object is a
  list.  Functions of LPC, which may call back into the driver, are a parameter \<open>game\<close>.  The value \<^const>\<open>None\<close> is a loop
  that does not end or an access through a null pointer.
\<close>

section \<open>Objects and their commands\<close>

definition O_ENABLE_COMMANDS :: u16 where "O_ENABLE_COMMANDS = 0x04"
definition O_DESTRUCTED :: u16 where "O_DESTRUCTED = 0x10"

record sentence =
  s_verb :: "u8 list option"
  s_funobj :: nat
  short_verb :: u16

record world =
  w_inv :: inventory
  w_super :: "nat \<Rightarrow> nat option"
  w_flags :: "nat \<Rightarrow> u16"
  w_shadowing :: "nat \<Rightarrow> nat option"
  w_sent :: "nat \<Rightarrow> sentence list"
  command_giver :: "nat option"

definition living :: "world \<Rightarrow> nat \<Rightarrow> bool" where
  "living w ob \<longleftrightarrow> has_flag (w_flags w ob) O_ENABLE_COMMANDS"

definition dead :: "world \<Rightarrow> nat \<Rightarrow> bool" where
  "dead w ob \<longleftrightarrow> has_flag (w_flags w ob) O_DESTRUCTED"

definition remove_sent :: "nat \<Rightarrow> nat \<Rightarrow> world \<Rightarrow> world" where
  "remove_sent ob player w =
     w\<lparr>w_sent := (w_sent w)(player := filter (\<lambda>s. s_funobj s \<noteq> ob) (w_sent w player))\<rparr>"

text \<open>\<open>legal\<close> tells whether the object of the function still exists.\<close>

datatype action_error = Not_present | Destructed_function

definition add_action :: "nat \<Rightarrow> nat \<Rightarrow> bool \<Rightarrow> u8 list option \<Rightarrow> int \<Rightarrow> world \<Rightarrow> action_error + world" where
  "add_action current_object funobj legal cmd flag w =
     (if dead w current_object then Inr w
      else case command_giver w of
        None \<Rightarrow> Inr w
      | Some cg \<Rightarrow>
          if dead w cg then Inr w
          else if current_object \<noteq> cg \<and> w_super w current_object \<noteq> Some cg \<and>
                  w_super w current_object \<noteq> w_super w cg \<and> Some current_object \<noteq> w_super w cg
          then Inl Not_present
          else if \<not> legal then Inl Destructed_function
          else Inr (w\<lparr>w_sent := (w_sent w)(cg := \<lparr>s_verb = cmd, s_funobj = funobj, short_verb = word_of_int flag\<rparr> # w_sent w cg)\<rparr>))"

definition enable_commands :: "nat \<Rightarrow> bool \<Rightarrow> world \<Rightarrow> world" where
  "enable_commands ob num w =
     (if dead w ob then w
      else if num then w\<lparr>w_flags := (w_flags w)(ob := w_flags w ob OR O_ENABLE_COMMANDS), command_giver := Some ob\<rparr>
      else (let w1 = w\<lparr>w_flags := (w_flags w)(ob := w_flags w ob AND NOT O_ENABLE_COMMANDS)\<rparr>
            in if command_giver w1 = Some ob then w1\<lparr>command_giver := None\<rparr> else w1))"

definition environment :: "nat option \<Rightarrow> world \<Rightarrow> nat option" where
  "environment ob w =
     (case ob of
        None \<Rightarrow> None
      | Some x \<Rightarrow> if w_super w x = None \<or> dead w x then None else w_super w x)"

section \<open>Moving\<close>

text \<open>The pointers \<^verbatim>\<open>pp\<close> runs over: the head of an inventory list, or the link in one of its objects.\<close>

datatype link = Contains nat | Next_inv nat

fun get_link :: "link \<Rightarrow> inventory \<Rightarrow> nat option" where
  "get_link (Contains ob) s = ob_contains s ob"
| "get_link (Next_inv ob) s = ob_next_inv s ob"

fun set_link :: "link \<Rightarrow> nat option \<Rightarrow> inventory \<Rightarrow> inventory" where
  "set_link (Contains ob) v s = s\<lparr>ob_contains := (ob_contains s)(ob := v)\<rparr>"
| "set_link (Next_inv ob) v s = s\<lparr>ob_next_inv := (ob_next_inv s)(ob := v)\<rparr>"

text \<open>The walk over the environments of the destination.\<close>

partial_function (option) encloses :: "nat \<Rightarrow> nat option \<Rightarrow> world \<Rightarrow> bool option" where
  "encloses item ob w =
     (case ob of
        None \<Rightarrow> Some False
      | Some x \<Rightarrow> if x = item then Some True else encloses item (w_super w x) w)"

text \<open>What the loop over the old surroundings does with another object, and the loop.\<close>

definition part_from :: "nat \<Rightarrow> nat \<Rightarrow> world \<Rightarrow> world" where
  "part_from item x w =
     (let w1 = (if living w x then remove_sent item x w else w)
      in if living w1 item then remove_sent x item w1 else w1)"

partial_function (option) move_unlink :: "nat \<Rightarrow> link \<Rightarrow> bool \<Rightarrow> world \<Rightarrow> (bool \<times> world) option" where
  "move_unlink item pp okey w =
     (case get_link pp (w_inv w) of
        None \<Rightarrow> Some (okey, w)
      | Some x \<Rightarrow>
          if x \<noteq> item then move_unlink item (Next_inv x) okey (part_from item x w)
          else move_unlink item pp True (w\<lparr>w_inv := set_link pp (ob_next_inv (w_inv w) item) (w_inv w)\<rparr>))"

datatype move_result =
    Moved
  | Inside_itself
  | Is_shadowing
  | Fatal_super_list
  | Object_destructed
  | Item_destructed
  | Destination_destructed
  | Lpc_error

text \<open>
  Calls of LPC functions: whether the function exists, or an error that unwinds to the caller of the driver.
\<close>

datatype lpc_fun = Encounter nat | Init

type_synonym lpc_game = "lpc_fun \<Rightarrow> nat \<Rightarrow> world \<Rightarrow> bool \<times> bool \<times> world"

text \<open>\<open>ob\<close> meets \<open>x\<close>: \<^verbatim>\<open>encounter\<close> in \<open>ob\<close>, or else \<^verbatim>\<open>init\<close> in \<open>x\<close>, for the commands of \<open>ob\<close>.  The first
  component of the answer is an error.\<close>

definition meet :: "lpc_game \<Rightarrow> nat \<Rightarrow> nat \<Rightarrow> world \<Rightarrow> bool \<times> world" where
  "meet game ob x w =
     (let w0 = w\<lparr>command_giver := Some ob\<rparr>; (err, ret, w1) = game (Encounter x) ob w0
      in if err then (True, w1)
         else if ret then (False, w1)
         else let (err, _, w2) = game Init x w1 in (err, w2))"

text \<open>The loop over the new surroundings: either it ends the move, or it comes to the end of the list.\<close>

partial_function (option) meet_loop ::
  "lpc_game \<Rightarrow> nat \<Rightarrow> nat \<Rightarrow> nat option \<Rightarrow> nat option \<Rightarrow> world \<Rightarrow> (move_result option \<times> world) option" where
  "meet_loop game item dest save_cmd ob w =
     (case ob of
        None \<Rightarrow> Some (None, w)
      | Some x \<Rightarrow>
          let next_ob = ob_next_inv (w_inv w) x
          in if x = item then meet_loop game item dest save_cmd next_ob w
             else if dead w x then Some (Some Object_destructed, w)
             else
               let (err, w1) = (if living w x then meet game x item w else (False, w))
               in if err then Some (Some Lpc_error, w1)
                  else if living w x \<and> w_super w1 item \<noteq> Some dest then Some (Some Moved, w1\<lparr>command_giver := save_cmd\<rparr>)
                  else if dead w1 item then Some (Some Item_destructed, w1)
                  else
                    let (err, w2) = (if living w1 item then meet game item x w1 else (False, w1))
                    in if err then Some (Some Lpc_error, w2)
                       else if living w1 item \<and> w_super w2 item \<noteq> Some dest then Some (Some Moved, w2\<lparr>command_giver := save_cmd\<rparr>)
                       else meet_loop game item dest save_cmd next_ob w2)"

text \<open>The part of \<^verbatim>\<open>move_object\<close> before the calls of LPC functions, and the whole.\<close>

definition move_relink :: "nat \<Rightarrow> nat \<Rightarrow> world \<Rightarrow> (move_result option \<times> world) option" where
  "move_relink item dest w = do {
     (okey, w) \<leftarrow> (case w_super w item of
        None \<Rightarrow> Some (True, w)
      | Some env \<Rightarrow>
          (let w = (if living w item then remove_sent env item w else w);
               w = (if living w env then remove_sent item env w else w)
           in move_unlink item (Contains env) False w));
     Some (if \<not> okey then (Some Fatal_super_list, w)
           else (let s = w_inv w;
                     s = set_link (Next_inv item) (ob_contains s dest) s;
                     s = set_link (Contains dest) (Some item) s
                 in (None, w\<lparr>w_inv := s, w_super := (w_super w)(item \<mapsto> dest)\<rparr>))) }"

definition move_meetings :: "lpc_game \<Rightarrow> nat \<Rightarrow> nat \<Rightarrow> nat option \<Rightarrow> world \<Rightarrow> (move_result \<times> world) option" where
  "move_meetings game item dest save_cmd w =
     (let (err, w1) = (if living w item then meet game item dest w else (False, w))
      in if err then Some (Lpc_error, w1)
         else if living w item \<and> (dead w1 dest \<or> w_super w1 item \<noteq> Some dest)
         then Some (Moved, w1\<lparr>command_giver := save_cmd\<rparr>)
         else do {
           (stop, w2) \<leftarrow> meet_loop game item dest save_cmd (ob_contains (w_inv w1) dest) w1;
           Some (case stop of
                   Some r \<Rightarrow> (r, w2)
                 | None \<Rightarrow>
                     if dead w2 dest then (Destination_destructed, w2)
                     else if living w2 dest
                     then (let (err, w3) = meet game dest item w2
                           in if err then (Lpc_error, w3) else (Moved, w3\<lparr>command_giver := save_cmd\<rparr>))
                     else (Moved, w2\<lparr>command_giver := save_cmd\<rparr>)) })"

definition move_object :: "lpc_game \<Rightarrow> nat \<Rightarrow> nat \<Rightarrow> world \<Rightarrow> (move_result \<times> world) option" where
  "move_object game item dest w =
     (if dead w item then Some (Moved, w)
      else do {
        inside \<leftarrow> encloses item (Some dest) w;
        (if inside then Some (Inside_itself, w)
         else if w_shadowing w item \<noteq> None then Some (Is_shadowing, w)
         else do {
           (stop, w1) \<leftarrow> move_relink item dest w;
           (case stop of Some r \<Rightarrow> Some (r, w1) | None \<Rightarrow> move_meetings game item dest (command_giver w) w1) }) })"

section \<open>Refreshing commands\<close>

text \<open>
  The two loops of \<^verbatim>\<open>update_actions\<close> that remove commands.  Their step is \<^verbatim>\<open>pp = item->next_inv\<close>, whatever \<^verbatim>\<open>pp\<close> is.
\<close>

partial_function (option) strip_loop :: "nat \<Rightarrow> bool \<Rightarrow> nat option \<Rightarrow> world \<Rightarrow> world option" where
  "strip_loop item siblings pp w =
     (case pp of
        None \<Rightarrow> Some w
      | Some p \<Rightarrow>
          strip_loop item siblings (ob_next_inv (w_inv w) item)
            (if (siblings \<longrightarrow> p \<noteq> item) \<and> living w p then remove_sent item p w else w))"

text \<open>The two loops that add them.  They read the flags of \<^verbatim>\<open>next_ob\<close>, also behind the last object.\<close>

partial_function (option) refresh_loop ::
  "lpc_game \<Rightarrow> nat \<Rightarrow> bool \<Rightarrow> nat option \<Rightarrow> nat option \<Rightarrow> world \<Rightarrow> (move_result option \<times> world) option" where
  "refresh_loop game item siblings ob pp w =
     (case pp of
        None \<Rightarrow> Some (None, w)
      | Some p \<Rightarrow>
          let next_ob = ob_next_inv (w_inv w) p
          in if (siblings \<longrightarrow> p \<noteq> item) \<and> living w p
             then (let (err, w1) = meet game p item w
                   in if err then Some (Some Lpc_error, w1)
                      else if ob \<noteq> w_super w1 item \<or> dead w1 item then Some (Some Moved, w1)
                      else case ob of
                             None \<Rightarrow> None
                           | Some o1 \<Rightarrow>
                               if dead w1 o1 then Some (Some Moved, w1)
                               else case next_ob of
                                      None \<Rightarrow> None
                                    | Some n \<Rightarrow>
                                        if dead w1 n then Some (Some Moved, w1)
                                        else refresh_loop game item siblings ob next_ob w1)
             else refresh_loop game item siblings ob next_ob w)"

definition update_actions :: "lpc_game \<Rightarrow> nat \<Rightarrow> world \<Rightarrow> (move_result \<times> world) option" where
  "update_actions game item w = do {
     let save_cmd = command_giver w;
     w \<leftarrow> (case w_super w item of
             None \<Rightarrow> Some w
           | Some env \<Rightarrow>
               (let w = (if living w env then remove_sent item env w else w)
                in strip_loop item True (ob_contains (w_inv w) env) w));
     w \<leftarrow> strip_loop item False (ob_contains (w_inv w) item) w;
     let ob = w_super w item;
     (stop, w) \<leftarrow> (case ob of
          None \<Rightarrow> Some (None, w)
        | Some env \<Rightarrow>
            (let (err, w1) = (if living w env then meet game env item w else (False, w))
             in if err then Some (Some Lpc_error, w1)
                else if living w env \<and> (w_super w1 item \<noteq> Some env \<or> dead w1 item \<or> dead w1 env)
                then Some (Some Moved, w1)
                else refresh_loop game item True ob (ob_contains (w_inv w1) env) w1));
     (stop, w) \<leftarrow> (case stop of
          Some r \<Rightarrow> Some (Some r, w)
        | None \<Rightarrow> refresh_loop game item False ob (ob_contains (w_inv w) item) w);
     Some (case stop of
             Some Lpc_error \<Rightarrow> (Lpc_error, w)
           | Some r \<Rightarrow> (r, w\<lparr>command_giver := save_cmd\<rparr>)
           | None \<Rightarrow> (Moved, w)) }"

section \<open>The loops over inventory lists\<close>

lemma chain_linked: "chain_from nxt c = Some xs \<Longrightarrow> c = hdo xs None \<and> linked nxt xs None"
proof (induction xs arbitrary: c)
  case Nil
  then show ?case by (subst (asm) chain_from.simps) (auto split: option.splits bind_splits)
next
  case (Cons x xs)
  then have "c = Some x \<and> chain_from nxt (nxt x) = Some xs"
    by (subst (asm) chain_from.simps) (auto split: option.splits bind_splits)
  with Cons.IH [of "nxt x"] show ?case by simp
qed

lemma remove_sent_simps [simp]:
  "w_inv (remove_sent a b w) = w_inv w" "w_super (remove_sent a b w) = w_super w" "w_flags (remove_sent a b w) = w_flags w"
  "w_shadowing (remove_sent a b w) = w_shadowing w" "command_giver (remove_sent a b w) = command_giver w"
  "living (remove_sent a b w) = living w" "dead (remove_sent a b w) = dead w"
  by (simp_all add: remove_sent_def living_def dead_def fun_eq_iff)

lemma part_from_simps [simp]:
  "w_inv (part_from a b w) = w_inv w" "w_super (part_from a b w) = w_super w" "w_flags (part_from a b w) = w_flags w"
  "w_shadowing (part_from a b w) = w_shadowing w" "command_giver (part_from a b w) = command_giver w"
  "living (part_from a b w) = living w" "dead (part_from a b w) = dead w"
  by (simp_all add: part_from_def Let_def)

lemma parts_simps [simp]:
  "w_inv (fold (part_from a) xs w) = w_inv w" "w_super (fold (part_from a) xs w) = w_super w"
  "w_flags (fold (part_from a) xs w) = w_flags w" "w_shadowing (fold (part_from a) xs w) = w_shadowing w"
  "command_giver (fold (part_from a) xs w) = command_giver w"
  by (induction xs arbitrary: w) simp_all

lemma part_from_inv: "part_from a b (w\<lparr>w_inv := s\<rparr>) = (part_from a b w)\<lparr>w_inv := s\<rparr>"
  by (simp add: part_from_def Let_def remove_sent_def living_def)

lemma parts_inv: "fold (part_from a) xs (w\<lparr>w_inv := s\<rparr>) = (fold (part_from a) xs w)\<lparr>w_inv := s\<rparr>"
  by (induction xs arbitrary: w) (simp_all add: part_from_inv)

lemma move_unlink_absent:
  "linked (ob_next_inv (w_inv w)) xs None \<Longrightarrow> get_link pp (w_inv w) = hdo xs None \<Longrightarrow> item \<notin> set xs \<Longrightarrow>
    move_unlink item pp k w = Some (k, fold (part_from item) xs w)"
proof (induction xs arbitrary: pp w)
  case Nil
  then show ?case by (subst move_unlink.simps) simp
next
  case (Cons x xs)
  have "move_unlink item (Next_inv x) k (part_from item x w) = Some (k, fold (part_from item) xs (part_from item x w))"
    using Cons.prems by (intro Cons.IH) simp_all
  with Cons.prems show ?case by (subst move_unlink.simps) simp
qed

text \<open>The link in front of an object of a list.\<close>

definition link_before :: "link \<Rightarrow> nat list \<Rightarrow> link" where
  "link_before pp us = (if us = [] then pp else Next_inv (last us))"

lemma get_set_link [simp]: "get_link pp (set_link pp v s) = v"
  by (cases pp) simp_all

lemma next_set_link: "pp \<noteq> Next_inv x \<Longrightarrow> ob_next_inv (set_link pp v s) x = ob_next_inv s x"
  by (cases pp) auto

lemma move_unlink_present:
  "linked (ob_next_inv (w_inv w)) (us @ item # vs) None \<Longrightarrow> get_link pp (w_inv w) = hdo (us @ item # vs) None \<Longrightarrow>
    distinct (us @ item # vs) \<Longrightarrow> \<forall>x\<in>set (us @ item # vs). pp \<noteq> Next_inv x \<Longrightarrow>
    move_unlink item pp k w = Some (True, (fold (part_from item) (us @ vs) w)
      \<lparr>w_inv := set_link (link_before pp us) (ob_next_inv (w_inv w) item) (w_inv w)\<rparr>)"
proof (induction us arbitrary: pp w)
  case Nil
  let ?s = "set_link pp (ob_next_inv (w_inv w) item) (w_inv w)"
  have "linked (ob_next_inv ?s) vs None = linked (ob_next_inv (w_inv w)) vs None"
    using Nil.prems(4) by (intro linked_cong next_set_link) simp
  then have "move_unlink item pp True (w\<lparr>w_inv := ?s\<rparr>) = Some (True, fold (part_from item) vs (w\<lparr>w_inv := ?s\<rparr>))"
    using Nil.prems by (intro move_unlink_absent) auto
  with Nil.prems show ?case by (subst move_unlink.simps) (simp add: parts_inv link_before_def)
next
  case (Cons x us)
  let ?w = "part_from item x w"
  have "move_unlink item (Next_inv x) k ?w = Some (True, (fold (part_from item) (us @ vs) ?w)
      \<lparr>w_inv := set_link (link_before (Next_inv x) us) (ob_next_inv (w_inv ?w) item) (w_inv ?w)\<rparr>)"
    using Cons.prems by (intro Cons.IH) auto
  moreover have "link_before (Next_inv x) us = link_before pp (x # us)" by (simp add: link_before_def)
  ultimately show ?case using Cons.prems by (subst move_unlink.simps) auto
qed

section \<open>The invariant of the world\<close>

definition placed :: "world \<Rightarrow> (nat \<Rightarrow> nat) \<Rightarrow> bool" where
  "placed w rank \<longleftrightarrow> forest (w_inv w) rank \<and> finite {x. w_super w x \<noteq> None} \<and>
     (\<forall>x y. w_super w x = Some y \<longleftrightarrow> x \<in> set (inv_of (w_inv w) y))"

definition winv :: "world \<Rightarrow> bool" where
  "winv w \<longleftrightarrow> (\<exists>rank. placed w rank)"

lemma forest_linked:
  assumes "forest s rank"
  shows "ob_contains s ob = hdo (inv_of s ob) None" "linked (ob_next_inv s) (inv_of s ob) None"
  using chain_linked [OF forest_inv(1) [OF assms]] by blast+

text \<open>Walking up the environments ends, and finds exactly the objects around.\<close>

lemma encloses_law:
  assumes p: "placed w rank"
  shows "encloses item (Some x) w = Some (x = item \<or> x \<in> below (w_inv w) item)"
proof -
  let ?M = "Max (insert 0 (rank ` {x. w_super w x \<noteq> None}))"
  have fin: "finite {x. w_super w x \<noteq> None}" using p unfolding placed_def by blast
  show ?thesis
  proof (induction "Suc ?M - rank x" arbitrary: x rule: less_induct)
    case less
    have s: "w_super w x = Some y \<longleftrightarrow> x \<in> set (inv_of (w_inv w) y)" for y using p unfolding placed_def by blast
    have f: "forest (w_inv w) rank" using p unfolding placed_def by blast
    show ?case
    proof (cases "w_super w x")
      case None
      have "x \<notin> below (w_inv w) item"
      proof
        assume "x \<in> below (w_inv w) item"
        then obtain y where "(x, y) \<in> inside (w_inv w)" by (auto simp: below_def dest: tranclD)
        with s [of y] None show False by (simp add: inside_def)
      qed
      with None show ?thesis by (subst encloses.simps, subst encloses.simps) simp
    next
      case (Some y)
      then have xy: "x \<in> set (inv_of (w_inv w) y)" using s by simp
      have "rank x \<le> ?M" using fin Some by (intro Max_ge) auto
      moreover have "rank x < rank y" using f xy by (simp add: forest_def)
      ultimately have "encloses item (Some y) w = Some (y = item \<or> y \<in> below (w_inv w) item)" by (intro less) linarith
      moreover have "x \<in> below (w_inv w) item \<longleftrightarrow> y = item \<or> y \<in> below (w_inv w) item"
        using below_parent [OF f xy, of item] xy
        by (auto simp: below_def inside_def intro: trancl_into_trancl2)
      ultimately show ?thesis using Some by (subst encloses.simps) auto
    qed
  qed
qed

section \<open>Relinking\<close>

text \<open>The list of every object after an object has been taken out of all of them, and after it has been put into one.\<close>

abbreviation (input) lists_of :: "inventory \<Rightarrow> (nat \<Rightarrow> nat list) \<Rightarrow> bool" where
  "lists_of s ch \<equiv> \<forall>ob. ob_contains s ob = hdo (ch ob) None \<and> linked (ob_next_inv s) (ch ob) None"

lemma lists_inv_of: "lists_of s ch \<Longrightarrow> chain_from (ob_next_inv s) (ob_contains s ob) = Some (ch ob) \<and> inv_of s ob = ch ob"
  using linked_chain [of "ob_next_inv s" "ch ob"] by (simp add: inv_of_def)

lemma filter_other: "x \<notin> set xs \<Longrightarrow> filter (\<lambda>y. y \<noteq> x) xs = xs"
  by (rule filter_True) auto

lemma unlink_lists:
  assumes f: "forest s rank" and i: "inv_of s env = us @ item # vs"
  shows "lists_of (set_link (link_before (Contains env) us) (ob_next_inv s item) s) (\<lambda>ob. filter (\<lambda>x. x \<noteq> item) (inv_of s ob))"
proof
  fix ob
  let ?pp = "link_before (Contains env) us"
  let ?s = "set_link ?pp (ob_next_inv s item) s"
  note l = forest_linked [OF f]
  have d: "distinct (us @ item # vs)" using forest_inv(2) [OF f, of env] i by simp
  have nx: "ob_next_inv s item = hdo vs None" using l(2) [of env] i by (simp add: linked_append)
  have uniq: "x \<notin> set (inv_of s ob)" if "x \<in> set (inv_of s env)" "ob \<noteq> env" for x
    using f that unfolding forest_def by blast
  show "ob_contains ?s ob = hdo (filter (\<lambda>x. x \<noteq> item) (inv_of s ob)) None \<and>
    linked (ob_next_inv ?s) (filter (\<lambda>x. x \<noteq> item) (inv_of s ob)) None"
  proof (cases "ob = env")
    case False
    have "?pp \<noteq> Next_inv x" if "x \<in> set (inv_of s ob)" for x
      using uniq [of "last us"] that False i by (auto simp: link_before_def)
    then have "linked (ob_next_inv ?s) (inv_of s ob) None" using l(2) [of ob] linked_cong [of "inv_of s ob"] next_set_link by metis
    moreover have "ob_contains ?s ob = ob_contains s ob" using False by (auto simp: link_before_def)
    moreover have "item \<notin> set (inv_of s ob)" using uniq [of item] False i by simp
    ultimately show ?thesis using l(1) [of ob] by (simp add: filter_other)
  next
    case True
    have "filter (\<lambda>x. x \<noteq> item) (us @ item # vs) = us @ vs" using d by (simp add: filter_other)
    then have e: "filter (\<lambda>x. x \<noteq> item) (inv_of s ob) = us @ vs" using i True by simp
    show ?thesis
    proof (cases us rule: rev_cases)
      case Nil
      with l [of env] i nx True e show ?thesis by (simp add: link_before_def)
    next
      case (snoc us' u)
      have "linked ((ob_next_inv s)(u := ob_next_inv s item)) (us' @ u # vs) None"
        using linked_skip [of "ob_next_inv s" us' u item vs None] l(2) [of env] i d snoc by simp
      with l(1) [of env] i True e snoc show ?thesis by (simp add: link_before_def hdo_append)
    qed
  qed
qed

lemma push_lists:
  assumes "lists_of s ch" "\<forall>ob. item \<notin> set (ch ob)"
  shows "lists_of (set_link (Contains dest) (Some item) (set_link (Next_inv item) (ob_contains s dest) s))
    (\<lambda>ob. (if ob = dest then [item] else []) @ ch ob)"
proof
  fix ob
  have "linked ((ob_next_inv s)(item := ob_contains s dest)) (ch ob) None = linked (ob_next_inv s) (ch ob) None"
    using assms(2) by (intro linked_cong) auto
  then show "ob_contains (set_link (Contains dest) (Some item) (set_link (Next_inv item) (ob_contains s dest) s)) ob =
      hdo ((if ob = dest then [item] else []) @ ch ob) None \<and>
    linked (ob_next_inv (set_link (Contains dest) (Some item) (set_link (Next_inv item) (ob_contains s dest) s)))
      ((if ob = dest then [item] else []) @ ch ob) None"
    using assms(1) by auto
qed

text \<open>Objects that are not inside the one that moves get a higher rank, so that it can be put into any of them.\<close>

lemma forest_moved:
  assumes f: "forest s rank" and no: "dest \<noteq> item" "dest \<notin> below s item"
    and c: "\<And>ob. chain_from (ob_next_inv s') (ob_contains s' ob) = Some (inv_of s' ob)"
      "\<And>ob. inv_of s' ob = (if ob = dest then [item] else []) @ filter (\<lambda>x. x \<noteq> item) (inv_of s ob)"
  shows "forest s' (\<lambda>x. if x = item \<or> x \<in> below s item then rank x else rank x + rank item + 1)"
proof -
  let ?in = "\<lambda>x. x = item \<or> x \<in> below s item"
  have down: "?in x" if "?in ob" "x \<in> set (inv_of s ob)" for x ob
    using that by (auto simp: below_def inside_def intro: trancl_into_trancl2)
  have up: "rank x < rank ob" if "x \<in> set (inv_of s ob)" for x ob using f that by (simp add: forest_def)
  have uniq: "a = b" if "x \<in> set (inv_of s a)" "x \<in> set (inv_of s b)" for x a b using f that unfolding forest_def by blast
  have edge: "x = item \<and> ob = dest \<or> x \<noteq> item \<and> x \<in> set (inv_of s ob)" if "x \<in> set (inv_of s' ob)" for x ob
    using that c(2) [of ob] by (auto split: if_splits)
  show ?thesis
    unfolding forest_def
  proof (intro conjI allI ballI impI)
    fix ob
    show "\<exists>obs. chain_from (ob_next_inv s') (ob_contains s' ob) = Some obs \<and> distinct obs"
      using c forest_inv(2) [OF f, of ob] by simp
  next
    fix x a b assume "x \<in> set (inv_of s' a) \<and> x \<in> set (inv_of s' b)"
    then show "a = b" using edge [of x a] edge [of x b] uniq [of x a b] by blast
  next
    fix ob x assume x: "x \<in> set (inv_of s' ob)"
    from edge [OF x] show "(if ?in x then rank x else rank x + rank item + 1) < (if ?in ob then rank ob else rank ob + rank item + 1)"
      using no up [of x ob] down [of ob x] below_rank [OF f, of x item] by auto
  qed
qed

text \<open>The commands that are taken away on leaving a place.\<close>

lemma parts_shrink: "set (w_sent (fold (part_from item) xs w) x) \<subseteq> set (w_sent w x)"
proof (induction xs arbitrary: w)
  case (Cons y xs)
  have "set (w_sent (part_from item y w) x) \<subseteq> set (w_sent w x)"
    by (auto simp: part_from_def remove_sent_def Let_def)
  with Cons [of "part_from item y w"] show ?case by auto
qed simp

lemma parts_sent:
  "x \<in> set xs \<Longrightarrow> x \<noteq> item \<Longrightarrow> living w x \<Longrightarrow> \<forall>s\<in>set (w_sent (fold (part_from item) xs w) x). s_funobj s \<noteq> item"
  "x \<in> set xs \<Longrightarrow> living w item \<Longrightarrow> \<forall>s\<in>set (w_sent (fold (part_from item) xs w) item). s_funobj s \<noteq> x"
proof (induction xs arbitrary: w)
  case (Cons y xs)
  {
    case 1
    show ?case
    proof (cases "x = y")
      case True
      have "\<forall>s\<in>set (w_sent (part_from item y w) y). s_funobj s \<noteq> item"
        using 1 True by (auto simp: part_from_def remove_sent_def Let_def)
      then show ?thesis using parts_shrink [of item xs "part_from item y w" y] True by auto
    qed (use 1 Cons.IH(1) [of "part_from item y w"] in simp)
  next
    case 2
    show ?case
    proof (cases "x = y")
      case True
      have "\<forall>s\<in>set (w_sent (part_from item y w) item). s_funobj s \<noteq> y"
        using 2 True by (auto simp: part_from_def remove_sent_def Let_def living_def)
      then show ?thesis using parts_shrink [of item xs "part_from item y w" item] True by auto
    qed (use 2 Cons.IH(2) [of "part_from item y w"] in simp)
  }
qed simp_all

definition relocated :: "nat \<Rightarrow> nat \<Rightarrow> world \<Rightarrow> world \<Rightarrow> bool" where
  "relocated item dest w w' \<longleftrightarrow> w_super w' = (w_super w)(item \<mapsto> dest) \<and> w_flags w' = w_flags w \<and>
     (\<forall>ob. inv_of (w_inv w') ob = (if ob = dest then [item] else []) @ filter (\<lambda>x. x \<noteq> item) (inv_of (w_inv w) ob))"

text \<open>No commands are left between an object and the place it was in.\<close>

definition parted :: "nat \<Rightarrow> world \<Rightarrow> world \<Rightarrow> bool" where
  "parted item w w' \<longleftrightarrow> (\<forall>env x. w_super w item = Some env \<longrightarrow> x \<noteq> item \<longrightarrow> x = env \<or> w_super w x = Some env \<longrightarrow>
     (living w x \<longrightarrow> (\<forall>s\<in>set (w_sent w' x). s_funobj s \<noteq> item)) \<and>
     (living w item \<longrightarrow> (\<forall>s\<in>set (w_sent w' item). s_funobj s \<noteq> x)))"

lemma parted_law:
  assumes e: "env \<noteq> item" and env: "w_super w item = Some env" and xs: "\<And>x. w_super w x = Some env \<Longrightarrow> x \<noteq> item \<Longrightarrow> x \<in> set xs"
    and w1: "w1 = (if living w item then remove_sent env item w else w)"
    and w2: "w2 = (if living w1 env then remove_sent item env w1 else w1)"
    and w': "w_sent w' = w_sent (fold (part_from item) xs w2)"
  shows "parted item w w'"
  unfolding parted_def
proof (intro allI impI)
  fix env' x assume "w_super w item = Some env'" and x: "x \<noteq> item" "x = env' \<or> w_super w x = Some env'"
  then have "x = env \<or> x \<in> set xs" using env xs [of x] by auto
  then show "(living w x \<longrightarrow> (\<forall>s\<in>set (w_sent w' x). s_funobj s \<noteq> item)) \<and>
    (living w item \<longrightarrow> (\<forall>s\<in>set (w_sent w' item). s_funobj s \<noteq> x))"
  proof
    assume "x \<in> set xs"
    then show ?thesis using parts_sent(1) [of x xs item w2] parts_sent(2) [of x xs w2 item] x(1)
      unfolding w' by (simp add: w2 w1)
  next
    assume "x = env"
    have sh: "set (w_sent w' y) \<subseteq> set (w_sent w2 y)" for y unfolding w' by (rule parts_shrink)
    have "\<forall>s\<in>set (w_sent w2 env). s_funobj s \<noteq> item" if "living w env"
      using that e by (auto simp: w2 w1 remove_sent_def living_def)
    moreover have "\<forall>s\<in>set (w_sent w2 item). s_funobj s \<noteq> env" if "living w item"
      using that e by (auto simp: w2 w1 remove_sent_def)
    ultimately show ?thesis using sh \<open>x = env\<close> by blast
  qed
qed

lemma placed_moved:
  assumes p: "placed w rank" and no: "dest \<noteq> item" "dest \<notin> below (w_inv w) item"
    and l: "lists_of (w_inv w') (\<lambda>ob. (if ob = dest then [item] else []) @ filter (\<lambda>x. x \<noteq> item) (inv_of (w_inv w) ob))"
    and s: "w_super w' = (w_super w)(item \<mapsto> dest)"
  shows "winv w'" "inv_of (w_inv w') ob = (if ob = dest then [item] else []) @ filter (\<lambda>x. x \<noteq> item) (inv_of (w_inv w) ob)"
proof -
  have f: "forest (w_inv w) rank" and fin: "finite {x. w_super w x \<noteq> None}"
    and sp: "\<And>x y. w_super w x = Some y \<longleftrightarrow> x \<in> set (inv_of (w_inv w) y)" using p unfolding placed_def by blast+
  note c = lists_inv_of [OF l]
  then show i: "inv_of (w_inv w') ob = (if ob = dest then [item] else []) @ filter (\<lambda>x. x \<noteq> item) (inv_of (w_inv w) ob)" for ob
    by blast
  have "forest (w_inv w') (\<lambda>x. if x = item \<or> x \<in> below (w_inv w) item then rank x else rank x + rank item + 1)"
    by (rule forest_moved [OF f no]) (use c i in simp_all)
  moreover have "{x. w_super w' x \<noteq> None} \<subseteq> insert item {x. w_super w x \<noteq> None}" unfolding s by auto
  then have "finite {x. w_super w' x \<noteq> None}" using fin by (meson finite_insert finite_subset)
  moreover have "w_super w' x = Some y \<longleftrightarrow> x \<in> set (inv_of (w_inv w') y)" for x y
    unfolding s i using sp [of x y] by auto
  ultimately show "winv w'" unfolding winv_def placed_def by blast
qed

lemma move_relink_law:
  assumes p: "placed w rank" and no: "dest \<noteq> item" "dest \<notin> below (w_inv w) item"
  shows "\<exists>w'. move_relink item dest w = Some (None, w') \<and> winv w' \<and> relocated item dest w w' \<and> parted item w w'"
proof -
  have f: "forest (w_inv w) rank"
    and sp: "\<And>x y. w_super w x = Some y \<longleftrightarrow> x \<in> set (inv_of (w_inv w) y)" using p unfolding placed_def by blast+
  let ?ch = "\<lambda>ob. filter (\<lambda>x. x \<noteq> item) (inv_of (w_inv w) ob)"
  let ?put = "\<lambda>s. set_link (Contains dest) (Some item) (set_link (Next_inv item) (ob_contains s dest) s)"
  show ?thesis
  proof (cases "w_super w item")
    case None
    then have "item \<notin> set (inv_of (w_inv w) ob)" for ob using sp by (metis option.distinct(1))
    then have ch: "?ch ob = inv_of (w_inv w) ob" for ob by (simp add: filter_other)
    let ?w = "w\<lparr>w_inv := ?put (w_inv w), w_super := (w_super w)(item \<mapsto> dest)\<rparr>"
    have l: "lists_of (w_inv w) ?ch" using forest_linked [OF f] ch by simp
    have "lists_of (w_inv ?w) (\<lambda>ob. (if ob = dest then [item] else []) @ ?ch ob)"
      using push_lists [OF l, where item = item and dest = dest] by simp
    from placed_moved [OF p no this] have "winv ?w \<and> relocated item dest w ?w" by (simp add: relocated_def)
    moreover have "move_relink item dest w = Some (None, ?w)" using None by (simp add: move_relink_def Let_def)
    ultimately show ?thesis using None by (auto simp: parted_def)
  next
    case (Some env)
    then have "item \<in> set (inv_of (w_inv w) env)" using sp by simp
    then obtain us vs where i: "inv_of (w_inv w) env = us @ item # vs" by (meson split_list)
    have d: "distinct (us @ item # vs)" using forest_inv(2) [OF f, of env] i by simp
    have e: "env \<noteq> item" using f i unfolding forest_def by (metis in_set_conv_decomp less_irrefl)
    define w1 where "w1 = (if living w item then remove_sent env item w else w)"
    define w2 where "w2 = (if living w1 env then remove_sent item env w1 else w1)"
    have w2: "w_inv w2 = w_inv w" "w_super w2 = w_super w" "w_flags w2 = w_flags w" by (simp_all add: w2_def w1_def)
    have lv: "living w1 = living w" "living w2 = living w" by (simp_all add: w2_def w1_def)
    let ?s = "set_link (link_before (Contains env) us) (ob_next_inv (w_inv w) item) (w_inv w)"
    let ?p = "fold (part_from item) (us @ vs) w2"
    let ?w = "?p\<lparr>w_inv := ?put ?s, w_super := (w_super w)(item \<mapsto> dest)\<rparr>"
    have "move_unlink item (Contains env) False w2 = Some (True, ?p\<lparr>w_inv := ?s\<rparr>)"
      using move_unlink_present [of w2 us item vs "Contains env" False] forest_linked [OF f, of env] i d w2(1) by simp
    then have m: "move_relink item dest w = Some (None, ?w)"
      using Some w2(2) unfolding move_relink_def by (simp add: Let_def flip: w1_def w2_def)
    have l: "lists_of ?s ?ch" using unlink_lists [OF f i] .
    have "lists_of (w_inv ?w) (\<lambda>ob. (if ob = dest then [item] else []) @ ?ch ob)"
      using push_lists [OF l, where item = item and dest = dest] by simp
    from placed_moved [OF p no this] w2 have "winv ?w \<and> relocated item dest w ?w" by (simp add: relocated_def)
    moreover have "parted item w ?w"
      by (rule parted_law [OF e Some _ w1_def w2_def, where xs = "us @ vs"]) (use sp [of _ env] i in auto)
    ultimately show ?thesis using m by blast
  qed
qed

section \<open>Meetings\<close>

definition same_place :: "world \<Rightarrow> world \<Rightarrow> bool" where
  "same_place w w' \<longleftrightarrow> w_inv w' = w_inv w \<and> w_super w' = w_super w \<and> w_flags w' = w_flags w"

text \<open>Functions of LPC that may add commands but move nothing, and functions that keep the world in order.\<close>

definition quiet :: "lpc_game \<Rightarrow> bool" where
  "quiet game \<longleftrightarrow> (\<forall>f a w. \<not> fst (game f a w) \<and> same_place w (snd (snd (game f a w))))"

definition orderly :: "lpc_game \<Rightarrow> bool" where
  "orderly game \<longleftrightarrow> (\<forall>f a w. winv w \<longrightarrow> winv (snd (snd (game f a w))))"

lemma same_place_simps [simp]: "same_place w w" "same_place w (w'\<lparr>command_giver := c\<rparr>) = same_place w w'"
  "same_place (w\<lparr>command_giver := c\<rparr>) w' = same_place w w'"
  by (simp_all add: same_place_def)

lemma same_place_trans: "same_place w w1 \<Longrightarrow> same_place w1 w2 \<Longrightarrow> same_place w w2"
  by (simp add: same_place_def)

lemma same_placeD: "same_place w w' \<Longrightarrow> w_inv w' = w_inv w \<and> w_super w' = w_super w \<and> living w' = living w \<and> dead w' = dead w"
  by (simp add: same_place_def living_def dead_def fun_eq_iff)

lemma winv_giver [simp]: "winv (w\<lparr>command_giver := c\<rparr>) = winv w"
  by (simp add: winv_def placed_def)

lemma winv_same: "same_place w w' \<Longrightarrow> winv w' = winv w"
  by (simp add: winv_def placed_def same_place_def)

lemma meet_quiet: "quiet game \<Longrightarrow> \<exists>w1. meet game ob x w = (False, w1) \<and> same_place w w1"
proof -
  assume q: "quiet game"
  let ?w = "w\<lparr>command_giver := Some ob\<rparr>"
  obtain ret w1 where 1: "game (Encounter x) ob ?w = (False, ret, w1)" "same_place w w1"
    using q unfolding quiet_def by (metis (full_types) prod.collapse same_place_simps(3))
  obtain ret2 w2 where 2: "game Init x w1 = (False, ret2, w2)" "same_place w1 w2"
    using q unfolding quiet_def by (metis (full_types) prod.collapse)
  show ?thesis using 1 2 same_place_trans by (auto simp: meet_def)
qed

lemma meet_orderly: "orderly game \<Longrightarrow> winv w \<Longrightarrow> winv (snd (meet game ob x w))"
proof -
  assume o: "orderly game" and w: "winv w"
  obtain err ret w1 where 1: "game (Encounter x) ob (w\<lparr>command_giver := Some ob\<rparr>) = (err, ret, w1)" by (metis prod.collapse)
  obtain err2 ret2 w2 where 2: "game Init x w1 = (err2, ret2, w2)" by (metis prod.collapse)
  have w1: "winv w1" using o w 1 unfolding orderly_def by (metis snd_conv winv_giver)
  then have "winv w2" using o 2 unfolding orderly_def by (metis snd_conv)
  with w1 1 2 show ?thesis by (simp add: meet_def)
qed

lemma meet_loop_quiet:
  assumes q: "quiet game"
  shows "linked (ob_next_inv (w_inv w)) xs None \<Longrightarrow> \<forall>x\<in>set xs. \<not> dead w x \<Longrightarrow> \<not> dead w item \<Longrightarrow> w_super w item = Some dest \<Longrightarrow>
    \<exists>w'. meet_loop game item dest cmd (hdo xs None) w = Some (None, w') \<and> same_place w w'"
proof (induction xs arbitrary: w)
  case Nil
  show ?case by (subst meet_loop.simps) simp
next
  case (Cons x xs)
  have nx: "ob_next_inv (w_inv w) x = hdo xs None" using Cons.prems(1) by simp
  show ?case
  proof (cases "x = item")
    case True
    have "\<exists>w'. meet_loop game item dest cmd (hdo xs None) w = Some (None, w') \<and> same_place w w'"
      using Cons.prems by (intro Cons.IH) simp_all
    then show ?thesis using True nx by (subst meet_loop.simps) simp
  next
    case False
    obtain w1 where 1: "(if living w x then meet game x item w else (False, w)) = (False, w1)" "same_place w w1"
      using meet_quiet [OF q, of x item w] by (cases "living w x") auto
    note s1 = same_placeD [OF 1(2)]
    obtain w2 where 2: "(if living w1 item then meet game item x w1 else (False, w1)) = (False, w2)" "same_place w1 w2"
      using meet_quiet [OF q, of item x w1] by (cases "living w1 item") auto
    note s2 = same_placeD [OF 2(2)]
    obtain w' where w': "meet_loop game item dest cmd (hdo xs None) w2 = Some (None, w')" "same_place w2 w'"
      using Cons.IH [of w2] Cons.prems s1 s2 by auto
    have "meet_loop game item dest cmd (hdo (x # xs) None) w = meet_loop game item dest cmd (hdo xs None) w2"
      using False nx Cons.prems s1 s2 2(1) by (subst meet_loop.simps) (simp add: 1(1) split: if_splits)
    with w' same_place_trans [OF 1(2) same_place_trans [OF 2(2) w'(2)]] show ?thesis by auto
  qed
qed


lemma meet_loop_orderly:
  "meet_loop game item dest cmd ob w = Some r \<Longrightarrow> orderly game \<longrightarrow> winv w \<longrightarrow> winv (snd r) \<and> fst r \<noteq> Some Fatal_super_list"
proof (erule meet_loop.raw_induct [rotated 1], intro impI)
  fix loop :: "lpc_game \<Rightarrow> nat \<Rightarrow> nat \<Rightarrow> nat option \<Rightarrow> nat option \<Rightarrow> world \<Rightarrow> (move_result option \<times> world) option"
    and game item dest cmd ob w r
  assume IH: "\<And>game item dest cmd ob w r. loop game item dest cmd ob w = Some r \<Longrightarrow>
      orderly game \<longrightarrow> winv w \<longrightarrow> winv (snd r) \<and> fst r \<noteq> Some Fatal_super_list"
    and o: "orderly game" and w: "winv w"
  let ?m1 = "\<lambda>x. if living w x then meet game x item w else (False, w)"
  let ?m2 = "\<lambda>w1 x. if living w1 item then meet game item x w1 else (False, w1)"
  have m1: "winv (snd (?m1 x))" for x using meet_orderly [OF o w, of x item] w by simp
  have m2: "winv (snd (?m2 w1 x))" if "winv w1" for w1 x using meet_orderly [OF o that, of item x] that by simp
  assume body: "(case ob of
        None \<Rightarrow> Some (None, w)
      | Some x \<Rightarrow>
          let next_ob = ob_next_inv (w_inv w) x
          in if x = item then loop game item dest cmd next_ob w
             else if dead w x then Some (Some Object_destructed, w)
             else
               let (err, w1) = ?m1 x
               in if err then Some (Some Lpc_error, w1)
                  else if living w x \<and> w_super w1 item \<noteq> Some dest then Some (Some Moved, w1\<lparr>command_giver := cmd\<rparr>)
                  else if dead w1 item then Some (Some Item_destructed, w1)
                  else
                    let (err, w2) = ?m2 w1 x
                    in if err then Some (Some Lpc_error, w2)
                       else if living w1 item \<and> w_super w2 item \<noteq> Some dest then Some (Some Moved, w2\<lparr>command_giver := cmd\<rparr>)
                       else loop game item dest cmd next_ob w2) = Some r"
  show "winv (snd r) \<and> fst r \<noteq> Some Fatal_super_list"
  proof (cases ob)
    case None
    with body w show ?thesis by auto
  next
    case (Some x)
    obtain err1 w1 where 1: "?m1 x = (err1, w1)" by fastforce
    obtain err2 w2 where 2: "?m2 w1 x = (err2, w2)" by fastforce
    have "winv w1" using m1 [of x] unfolding 1 by simp
    moreover from this have "winv w2" using m2 [of w1 x] unfolding 2 by simp
    moreover note body [unfolded Some option.case Let_def 1 2 prod.case] IH [of game item dest cmd "ob_next_inv (w_inv w) x"]
    ultimately show ?thesis using o w by (auto split: if_splits)
  qed
qed


section \<open>Properties\<close>

lemma move_meetings_quiet:
  assumes q: "quiet game" and w: "winv w" and d: "\<not> dead w item" "\<not> dead w dest" "w_super w item = Some dest"
    "\<forall>x\<in>set (inv_of (w_inv w) dest). \<not> dead w x"
  shows "\<exists>w'. move_meetings game item dest cmd w = Some (Moved, w') \<and> same_place w w' \<and> command_giver w' = cmd"
proof -
  from w obtain rank where f: "forest (w_inv w) rank" by (auto simp: winv_def placed_def)
  obtain w1 where 1: "(if living w item then meet game item dest w else (False, w)) = (False, w1)" "same_place w w1"
    using meet_quiet [OF q, of item dest w] by (cases "living w item") auto
  note s1 = same_placeD [OF 1(2)]
  obtain w2 where 2: "meet_loop game item dest cmd (ob_contains (w_inv w1) dest) w1 = Some (None, w2)" "same_place w1 w2"
    using meet_loop_quiet [OF q, of w1 "inv_of (w_inv w) dest" item dest cmd] forest_linked [OF f, of dest] s1 d by auto
  note s2 = same_placeD [OF 2(2)]
  obtain w3 where 3: "meet game dest item w2 = (False, w3)" "same_place w2 w3" using meet_quiet [OF q] by blast
  have "same_place w w2" "same_place w w3" using 1(2) 2(2) 3(2) same_place_trans by blast+
  moreover have "dead w1 = dead w" "w_super w1 = w_super w" "dead w2 = dead w" using s1 s2 by simp_all
  ultimately show ?thesis using 1(1) 2(1) 3(1) d
    by (simp add: move_meetings_def Let_def)
qed

lemma move_quiet:
  assumes w: "winv w" and q: "quiet game" and i: "\<not> dead w item" "w_shadowing w item = None"
    and d: "\<not> dead w dest" "\<forall>x\<in>set (inv_of (w_inv w) dest). \<not> dead w x"
  shows "if dest = item \<or> dest \<in> below (w_inv w) item then move_object game item dest w = Some (Inside_itself, w)
    else \<exists>w1 w'. move_relink item dest w = Some (None, w1) \<and> parted item w w1 \<and>
      move_object game item dest w = Some (Moved, w') \<and> winv w' \<and> relocated item dest w w' \<and> command_giver w' = command_giver w"
proof -
  from w obtain rank where p: "placed w rank" by (auto simp: winv_def)
  note e = encloses_law [OF p, of item dest]
  show ?thesis
  proof (cases "dest = item \<or> dest \<in> below (w_inv w) item")
    case True
    with e i show ?thesis by (simp add: move_object_def)
  next
    case False
    then obtain w1 where 1: "move_relink item dest w = Some (None, w1)" "winv w1" "relocated item dest w w1" "parted item w w1"
      using move_relink_law [OF p, of dest item] by blast
    have fl: "w_flags w1 = w_flags w" "w_super w1 item = Some dest" using 1(3) by (simp_all add: relocated_def)
    have "\<not> dead w1 item" "\<not> dead w1 dest" "\<forall>x\<in>set (inv_of (w_inv w1) dest). \<not> dead w1 x"
      using i d 1(3) fl(1) by (auto simp: dead_def relocated_def)
    from move_meetings_quiet [OF q 1(2) this(1,2) fl(2) this(3), of "command_giver w"] obtain w' where
      2: "move_meetings game item dest (command_giver w) w1 = Some (Moved, w')" "same_place w1 w'" "command_giver w' = command_giver w"
      by blast
    have "winv w'" using 1(2) winv_same [OF 2(2)] by simp
    moreover have "relocated item dest w w'" using 1(3) 2(2) by (simp add: relocated_def same_place_def)
    moreover have "move_object game item dest w = Some (Moved, w')" using e False i 1(1) 2(1) by (simp add: move_object_def)
    ultimately show ?thesis using False 1(1,4) 2(3) by auto
  qed
qed

text \<open>C13. Moving an object.  A move into itself or into something inside it is refused and changes nothing; any other move of
  an object that is not shadowing, with functions of LPC that do not move or destruct anything themselves, ends, puts the
  object in front of the inventory of its destination, takes it out of the place it was in and leaves
  every other inventory as it was; the commands between it and its old surroundings are gone when the calls begin, and the
  current command giver is the same as before.\<close>

theorem move_object_moves:
  assumes w: "winv w" and q: "quiet game" and i: "\<not> dead w item" "w_shadowing w item = None"
    and d: "\<not> dead w dest" "\<forall>x\<in>set (inv_of (w_inv w) dest). \<not> dead w x"
  shows "if dest = item \<or> dest \<in> below (w_inv w) item then move_object game item dest w = Some (Inside_itself, w)
    else \<exists>w1 w'. move_relink item dest w = Some (None, w1) \<and> parted item w w1 \<and>
      move_object game item dest w = Some (Moved, w') \<and> winv w' \<and> relocated item dest w w' \<and> command_giver w' = command_giver w"
  using move_quiet [OF assms] .

definition demo_world :: world where
  "demo_world = \<lparr>w_inv = \<lparr>ob_contains = [1 \<mapsto> 2], ob_next_inv = [2 \<mapsto> 3]\<rparr>, w_super = [2 \<mapsto> 1, 3 \<mapsto> 1],
     w_flags = (\<lambda>x. if x = 2 then O_ENABLE_COMMANDS else 0), w_shadowing = (\<lambda>_. None), w_sent = (\<lambda>_. []), command_giver = Some 2\<rparr>"

definition demo_lpc :: lpc_game where
  "demo_lpc f a w = (False, False, w)"

lemma demo_lists: "lists_of (w_inv demo_world) (\<lambda>ob. if ob = 1 then [2, 3] else [])"
  by (simp add: demo_world_def)

lemma demo_placed: "placed demo_world (\<lambda>x. if x = 1 then 1 else 0)"
proof -
  note l = lists_inv_of [OF demo_lists]
  have "{x. w_super demo_world x \<noteq> None} = {2, 3}" by (auto simp: demo_world_def split: if_splits)
  moreover have "w_super demo_world x = Some y \<longleftrightarrow> x \<in> set (if y = 1 then [2, 3] else [])" for x y
    by (auto simp: demo_world_def)
  ultimately show ?thesis using l by (simp add: placed_def forest_def)
qed

lemma demo_lpc_quiet: "quiet demo_lpc"
  by (simp add: quiet_def demo_lpc_def)

lemma demo_facts:
  "winv demo_world" "\<not> dead demo_world x" "w_shadowing demo_world x = None" "x \<notin> below (w_inv demo_world) 3"
proof -
  have i: "inv_of (w_inv demo_world) ob = (if ob = 1 then [2, 3] else [])" for ob using lists_inv_of [OF demo_lists] by blast
  show "winv demo_world" using demo_placed by (auto simp: winv_def)
  show "\<not> dead demo_world x" "w_shadowing demo_world x = None"
    by (simp_all add: dead_def demo_world_def has_flag_def O_DESTRUCTED_def O_ENABLE_COMMANDS_def)
  show "x \<notin> below (w_inv demo_world) 3"
  proof
    assume "x \<in> below (w_inv demo_world) 3"
    then obtain y where "(y, 3) \<in> inside (w_inv demo_world)" unfolding below_def by (blast elim: tranclE)
    then show False by (simp add: inside_def i)
  qed
qed

theorem move_object_moves_witness:
  "\<exists>w'. move_object demo_lpc 3 2 demo_world = Some (Moved, w') \<and> winv w' \<and> relocated 3 2 demo_world w'"
  using move_object_moves [OF demo_facts(1) demo_lpc_quiet, of 3 2] demo_facts(2,3,4) by auto

text \<open>C14. The world stays in order.  Whatever the functions of LPC do that \<^verbatim>\<open>move_object\<close> calls, as long as each of them leaves
  the world in order, every way in which \<^verbatim>\<open>move_object\<close> ends does so as well: inventory lists end, no object is in two
  places or inside itself, and the environment of an object is where it is listed.  The driver never dies of an object that is
  missing from the list of its environment.\<close>

theorem move_object_keeps_order:
  assumes "winv w" "orderly game" "move_object game item dest w = Some (r, w')"
  shows "winv w' \<and> r \<noteq> Fatal_super_list"
proof -
  from assms(1) obtain rank where p: "placed w rank" by (auto simp: winv_def)
  show ?thesis
  proof (cases "dead w item \<or> dest = item \<or> dest \<in> below (w_inv w) item \<or> w_shadowing w item \<noteq> None")
    case True
    with assms(1,3) encloses_law [OF p, of item dest] show ?thesis by (auto simp: move_object_def split: if_splits)
  next
    case False
    then obtain w1 where 1: "move_relink item dest w = Some (None, w1)" "winv w1"
      using move_relink_law [OF p, of dest item] by blast
    let ?cmd = "command_giver w"
    have m: "move_meetings game item dest ?cmd w1 = Some (r, w')"
      using assms(3) False encloses_law [OF p, of item dest] 1(1) by (simp add: move_object_def)
    obtain err w2 where 2: "(if living w1 item then meet game item dest w1 else (False, w1)) = (err, w2)" by fastforce
    have w2: "winv w2" using meet_orderly [OF assms(2) 1(2), of item dest] 1(2) 2 by (auto split: if_splits)
    have lp: "winv w3 \<and> stop \<noteq> Some Fatal_super_list"
      if "meet_loop game item dest ?cmd (ob_contains (w_inv w2) dest) w2 = Some (stop, w3)" for stop w3
      using meet_loop_orderly [OF that] assms(2) w2 by simp
    have "winv (snd (meet game dest item w3))" if "winv w3" for w3 using meet_orderly [OF assms(2) that] .
    then show ?thesis using m [unfolded move_meetings_def Let_def 2 prod.case] w2 lp
      by (fastforce split: if_splits option.splits prod.splits bind_splits)
  qed
qed

theorem move_object_keeps_order_witness:
  "\<exists>r w'. move_object demo_lpc 3 2 demo_world = Some (r, w') \<and> winv w' \<and> r \<noteq> Fatal_super_list"
proof -
  have o: "orderly demo_lpc" by (simp add: orderly_def demo_lpc_def)
  obtain r w' where "move_object demo_lpc 3 2 demo_world = Some (r, w')"
    using move_quiet [OF demo_facts(1) demo_lpc_quiet, of 3 2] demo_facts(2,3,4) by auto
  with move_object_keeps_order [OF demo_facts(1) o this] show ?thesis by blast
qed

lemma strip_loop_last: "strip_loop item sib pp w = Some w' \<Longrightarrow> pp \<noteq> None \<longrightarrow> ob_next_inv (w_inv w) item = None"
  by (erule strip_loop.raw_induct [rotated 1]) (fastforce split: option.splits if_splits)

text \<open>C37. A defect: \<^verbatim>\<open>update_actions\<close> hangs.  Its first loop steps to the neighbour of the object instead of the next object of the
  list, so for every object that has an environment and is not the last in its inventory the loop never ends.\<close>

theorem update_actions_hangs:
  assumes "w_super w item = Some env" "ob_contains (w_inv w) env = Some first" "ob_next_inv (w_inv w) item = Some next_ob"
  shows "update_actions game item w = None"
proof -
  have n: "strip_loop item sib pp w = None" if "pp \<noteq> None" "ob_next_inv (w_inv w) item \<noteq> None" for sib pp w
    using strip_loop_last [of item sib pp w] that by (cases "strip_loop item sib pp w") auto
  have "strip_loop item True (ob_contains (w_inv w') env) w' = None"
    if "w' = (if living w env then remove_sent item env w else w)" for w'
    using n [of "ob_contains (w_inv w') env" w' True] that assms by simp
  then show ?thesis using assms(1) by (simp add: update_actions_def Let_def)
qed

theorem update_actions_hangs_witness: "update_actions demo_lpc 2 demo_world = None"
  by (rule update_actions_hangs [of demo_world 2 1 2 3]) (simp_all add: demo_world_def)

end
