(* ===== verification/Swap_Values.thy ===== *)
theory Swap_Values
  imports Swap_File Lpc_Save Environment
begin

text \<open>
  Swapping out the variables of objects (\<^verbatim>\<open>swap_svalue\<close>, \<^verbatim>\<open>unswap_svalue\<close>, \<^verbatim>\<open>swap_object\<close>, \<^verbatim>\<open>load_ob_from_swap\<close> of
  \<^verbatim>\<open>src/swap.c\<close>): values become bytes of a stream, arrays and mappings that nothing else refers to with all their items, and come
  back as new arrays and mappings.

  A \<^verbatim>\<open>struct svalue\<close> takes 16 bytes: the type and the string type of two bytes each, four bytes of padding, and the union.  The bytes
  of it that a value does not use are a parameter, as are the addresses of new arrays and mappings, the way in which a string is
  allocated, and whether an array or a mapping is referred to once.  The release of strings, arrays and mappings is left out.  An
  array or a mapping enters the heap when it has been read completely.  \<^const>\<open>None\<close> is a call of \<^verbatim>\<open>fatal()\<close> or of \<^verbatim>\<open>error()\<close>, or a
  recursion deeper than the bound \<open>n\<close>, for the stack of the process.
\<close>

unbundle bit_operations_syntax

section \<open>Values as bytes\<close>

definition LVALUE_BIT :: nat where "LVALUE_BIT = 1"
definition SVALUE_SIZE :: nat where "SVALUE_SIZE = 16"

record swap_env = save_env +
  sole_ref :: "nat \<Rightarrow> bool"
  string_type :: "u8 list \<Rightarrow> nat"
  junk :: u8

definition svalue_bytes :: "swap_env \<Rightarrow> nat \<Rightarrow> nat \<Rightarrow> u8 list \<Rightarrow> u8 list" where
  "svalue_bytes E t s u = le 2 t @ le 2 s @ replicate 4 (junk E) @ u"

text \<open>The union with a number, and with a pointer.\<close>

definition num_union :: "swap_env \<Rightarrow> nat \<Rightarrow> u8 list" where
  "num_union E n = le 4 n @ replicate 4 (junk E)"

definition ptr_union :: "nat \<Rightarrow> u8 list" where "ptr_union a = le 8 a"

fun union_bytes :: "swap_env \<Rightarrow> sval \<Rightarrow> u8 list" where
  "union_bytes E (T_NUMBER i) = num_union E (unat i)"
| "union_bytes E (T_FLOAT r) = num_union E (unat r)"
| "union_bytes E (T_STRING s) = num_union E (length s + 1)"
| "union_bytes E (T_POINTER a) = ptr_union a"
| "union_bytes E (T_OBJECT a) = ptr_union a"
| "union_bytes E (T_MAPPING a) = ptr_union a"
| "union_bytes E (T_FUNCTION a) = ptr_union a"

text \<open>A value that is written as it is, with the bit that marks it as such.\<close>

definition leaf_bytes :: "swap_env \<Rightarrow> sval \<Rightarrow> u8 list" where
  "leaf_bytes E v = svalue_bytes E (svalue_type v + LVALUE_BIT) (unat (junk E) * 257) (union_bytes E v)"

section \<open>Writing\<close>

primrec swap_all :: "('a \<Rightarrow> buffer \<Rightarrow> swap \<Rightarrow> (buffer \<times> swap) option) \<Rightarrow> 'a list \<Rightarrow> buffer \<Rightarrow> swap \<Rightarrow> (buffer \<times> swap) option" where
  "swap_all step [] bp st = Some (bp, st)"
| "swap_all step (x # xs) bp st = step x bp st \<bind> (\<lambda>(bp, st). swap_all step xs bp st)"

primrec swap_svalue :: "nat \<Rightarrow> swap_env \<Rightarrow> lpc_heap \<Rightarrow> sval \<Rightarrow> buffer \<Rightarrow> swap \<Rightarrow> (buffer \<times> swap) option" where
  "swap_svalue 0 E h v bp st = None"
| "swap_svalue (Suc n) E h v bp st =
     (case v of
        T_OBJECT a \<Rightarrow> swap_write bp (leaf_bytes E (if destructed (e_objs E) a then const0 else v)) st
      | T_STRING s \<Rightarrow>
          swap_write bp (svalue_bytes E (svalue_type v) (string_type E s) (union_bytes E v)) st \<bind> (\<lambda>(bp, st).
          swap_write bp (s @ [0]) st \<bind> (\<lambda>(bp, st).
          if string_type E s \<le> 2 then Some (bp, st) else None))
      | T_POINTER a \<Rightarrow>
          (if \<not> sole_ref E a then swap_write bp (leaf_bytes E v) st
           else case h_vec h a of
                  None \<Rightarrow> None
                | Some vs \<Rightarrow>
                    swap_write bp (svalue_bytes E (svalue_type v) (unat (junk E) * 257) (num_union E (length vs))) st \<bind> (\<lambda>(bp, st).
                    swap_all (swap_svalue n E h) vs bp st))
      | T_MAPPING a \<Rightarrow>
          (if \<not> sole_ref E a then swap_write bp (leaf_bytes E v) st
           else case h_map h a of
                  None \<Rightarrow> None
                | Some m \<Rightarrow>
                    swap_write bp (svalue_bytes E (svalue_type v) (m_size m) (num_union E (nat (m_card m)))) st \<bind> (\<lambda>(bp, st).
                    swap_all (\<lambda>kv bp st. swap_svalue n E h (fst kv) bp st \<bind> (\<lambda>(bp, st). swap_svalue n E h (snd kv) bp st))
                      (map_items m) bp st \<bind> (\<lambda>(bp, st).
                    if length (map_items m) = nat (m_card m) then Some (bp, st) else None)))
      | _ \<Rightarrow> swap_write bp (leaf_bytes E v) st)"

section \<open>Reading\<close>

text \<open>The value of a type and the bytes of the union; a type that has none of the bits is fatal.\<close>

definition read_leaf :: "swap_env \<Rightarrow> nat \<Rightarrow> u8 list \<Rightarrow> sval option" where
  "read_leaf E t u =
     (if t = 0x2 then Some (T_NUMBER (word_of_nat (of_le (take 4 u))))
      else if t = 0x40 then Some (T_FLOAT (word_of_nat (of_le (take 4 u))))
      else if t = 0x8 then Some (T_POINTER (of_le u))
      else if t = 0x10 then Some (if destructed (e_objs E) (of_le u) then const0 else T_OBJECT (of_le u))
      else if t = 0x20 then Some (T_MAPPING (of_le u))
      else if t = 0x80 then Some (T_FUNCTION (of_le u))
      else None)"

definition alloc_vec :: "swap_env \<Rightarrow> sval list \<Rightarrow> lpc_heap \<Rightarrow> sval \<times> lpc_heap" where
  "alloc_vec E v h =
     (if v = [] then (T_POINTER null_vector, h)
      else let a = e_alloc (save_env.truncate E) h in (T_POINTER a, h\<lparr>h_vec := (h_vec h)(a \<mapsto> v)\<rparr>))"

definition alloc_map :: "swap_env \<Rightarrow> lpc_map \<Rightarrow> lpc_heap \<Rightarrow> sval \<times> lpc_heap" where
  "alloc_map E m h = (let a = e_alloc (save_env.truncate E) h in (T_MAPPING a, h\<lparr>h_map := (h_map h)(a \<mapsto> m)\<rparr>))"

primrec unswap_items ::
  "(lpc_heap \<Rightarrow> buffer \<Rightarrow> swap \<Rightarrow> ((sval \<times> lpc_heap) \<times> buffer \<times> swap) option) \<Rightarrow> nat \<Rightarrow> lpc_heap \<Rightarrow> buffer \<Rightarrow> swap \<Rightarrow>
   ((sval list \<times> lpc_heap) \<times> buffer \<times> swap) option"
where
  "unswap_items step 0 h bp st = Some (([], h), bp, st)"
| "unswap_items step (Suc k) h bp st =
     step h bp st \<bind> (\<lambda>((v, h), bp, st). unswap_items step k h bp st \<bind> (\<lambda>((vs, h), bp, st). Some ((v # vs, h), bp, st)))"

primrec unswap_pairs ::
  "(lpc_heap \<Rightarrow> buffer \<Rightarrow> swap \<Rightarrow> ((sval \<times> lpc_heap) \<times> buffer \<times> swap) option) \<Rightarrow> objs \<Rightarrow> nat \<Rightarrow> lpc_map \<Rightarrow> lpc_heap \<Rightarrow> buffer \<Rightarrow> swap \<Rightarrow>
   ((lpc_map \<times> lpc_heap) \<times> buffer \<times> swap) option"
where
  "unswap_pairs step H 0 m h bp st = Some ((m, h), bp, st)"
| "unswap_pairs step H (Suc k) m h bp st =
     step h bp st \<bind> (\<lambda>((marg, h), bp, st).
       case get_map_lvalue H m marg True of
         Inl _ \<Rightarrow> None
       | Inr (m, mval) \<Rightarrow> step h bp st \<bind> (\<lambda>((v, h), bp, st). unswap_pairs step H k (assign_lval H m mval v) h bp st))"

text \<open>What \<^verbatim>\<open>unswap_svalue\<close> does with the \<^verbatim>\<open>struct svalue\<close> that it has read; \<open>step\<close> is the recursive call.  A string with an unknown
  string type, for which the code only writes a message and leaves its length where the pointer should be, is \<^const>\<open>None\<close> too.\<close>

definition unswap_case ::
  "(lpc_heap \<Rightarrow> buffer \<Rightarrow> swap \<Rightarrow> ((sval \<times> lpc_heap) \<times> buffer \<times> swap) option) \<Rightarrow> swap_env \<Rightarrow> lpc_heap \<Rightarrow> u8 list \<Rightarrow> buffer \<Rightarrow> swap \<Rightarrow>
   ((sval \<times> lpc_heap) \<times> buffer \<times> swap) option"
where
  "unswap_case step E h x bp st =
     (let t = of_le (take 2 x); s = of_le (take 2 (drop 2 x)); u = drop 8 x; num = of_le (take 4 u)
      in if odd t then (case read_leaf E (t - LVALUE_BIT) u of None \<Rightarrow> None | Some v \<Rightarrow> Some ((v, h), bp, st))
         else if t = 0x4
         then (if s \<le> 2
               then swap_read bp num st \<bind> (\<lambda>(y, bp, st). Some ((T_STRING (takeWhile (\<lambda>c. c \<noteq> 0) y), h), bp, st))
               else None)
         else if t = 0x8
         then (if allocate_check (int num)
               then unswap_items step num h bp st \<bind> (\<lambda>((vs, h), bp, st). Some (alloc_vec E vs h, bp, st))
               else None)
         else if t = 0x20
         then unswap_pairs step (e_objs E) num (allocate_map (int num)) h bp st \<bind> (\<lambda>((m, h), bp, st).
                Some (alloc_map E m h, bp, st))
         else None)"

primrec unswap_svalue :: "nat \<Rightarrow> swap_env \<Rightarrow> lpc_heap \<Rightarrow> buffer \<Rightarrow> swap \<Rightarrow> ((sval \<times> lpc_heap) \<times> buffer \<times> swap) option" where
  "unswap_svalue 0 E h bp st = None"
| "unswap_svalue (Suc n) E h bp st =
     swap_read bp SVALUE_SIZE st \<bind> (\<lambda>(x, bp, st). unswap_case (unswap_svalue n E) E h x bp st)"

section \<open>Objects\<close>

record swappable =
  so_flags :: u16
  so_variables :: "sval list option"
  so_num_vars :: nat
  so_swap_num :: nat

definition O_SWAPPED :: u16 where "O_SWAPPED = 0x20"

text \<open>The list of variables has the one in front of the first, which is the pointer of the object that is moved back and forth.\<close>

definition swap_object :: "nat \<Rightarrow> swap_env \<Rightarrow> lpc_heap \<Rightarrow> swappable \<Rightarrow> swap \<Rightarrow> (swappable \<times> swap) option" where
  "swap_object n E h ob st =
     (if so_flags ob AND (O_DESTRUCTED OR O_SWAPPED) \<noteq> 0 then Some (ob, st)
      else case so_variables ob of
             None \<Rightarrow> Some (ob, st)
           | Some vs \<Rightarrow>
               if so_swap_num ob \<noteq> 0 \<or> length vs < so_num_vars ob then None
               else map_option (\<lambda>(b, st). (ob\<lparr>so_variables := None, so_swap_num := b, so_flags := so_flags ob OR O_SWAPPED\<rparr>, st))
                      (put_stream (swap_all (swap_svalue n E h) (take (so_num_vars ob) vs)) st))"

definition load_ob_from_swap :: "nat \<Rightarrow> swap_env \<Rightarrow> swappable \<Rightarrow> lpc_heap \<Rightarrow> swap \<Rightarrow> (swappable \<times> lpc_heap \<times> swap) option" where
  "load_ob_from_swap n E ob h st =
     (if so_flags ob AND O_SWAPPED = 0 then None
      else map_option (\<lambda>((vs, h), st).
             (ob\<lparr>so_variables := Some vs, so_swap_num := 0, so_flags := so_flags ob AND NOT O_SWAPPED\<rparr>, h, st))
             (get_stream (unswap_items (unswap_svalue n E) (so_num_vars ob) h) (so_swap_num ob) st))"

definition remove_ob_from_swap :: "nat \<Rightarrow> swap_env \<Rightarrow> swappable \<Rightarrow> lpc_heap \<Rightarrow> swap \<Rightarrow> (swappable \<times> lpc_heap \<times> swap) option" where
  "remove_ob_from_swap n E ob h st =
     (if so_flags ob AND O_SWAPPED \<noteq> 0 then load_ob_from_swap n E ob h st else Some (ob, h, st))"

section \<open>What survives\<close>

text \<open>
  A value as the swap file sees it: plain values, texts, arrays with their items, and mappings with the size of their table and
  their pairs.  Arrays and mappings that something else refers to are plain values, and so is the number 0 that takes the place of
  a destructed object.
\<close>

datatype stree = Plain sval | Text "u8 list" | Row "stree list" | Table nat "(stree \<times> stree) list"

fun plain :: "swap_env \<Rightarrow> sval \<Rightarrow> bool" where
  "plain E (T_STRING s) \<longleftrightarrow> False"
| "plain E (T_POINTER a) \<longleftrightarrow> \<not> sole_ref E a"
| "plain E (T_MAPPING a) \<longleftrightarrow> \<not> sole_ref E a"
| "plain E v \<longleftrightarrow> True"

fun settled :: "swap_env \<Rightarrow> sval \<Rightarrow> sval" where
  "settled E (T_OBJECT a) = (if destructed (e_objs E) a then const0 else T_OBJECT a)"
| "settled E v = v"

inductive shape :: "swap_env \<Rightarrow> lpc_heap \<Rightarrow> sval \<Rightarrow> stree \<Rightarrow> bool" for E h where
  shape_Plain: "plain E v \<Longrightarrow> shape E h v (Plain (settled E v))"
| shape_Text: "shape E h (T_STRING s) (Text s)"
| shape_Row: "sole_ref E a \<Longrightarrow> h_vec h a = Some vs \<Longrightarrow> list_all2 (shape E h) vs ts \<Longrightarrow> shape E h (T_POINTER a) (Row ts)"
| shape_Table: "sole_ref E a \<Longrightarrow> h_map h a = Some m \<Longrightarrow> nat (m_card m) = length (map_items m) \<Longrightarrow>
     list_all2 (\<lambda>p q. shape E h (fst p) (fst q) \<and> shape E h (snd p) (snd q)) (map_items m) ps \<Longrightarrow>
     shape E h (T_MAPPING a) (Table (m_size m) ps)"

inductive_cases shape_PlainE: "shape E h v (Plain w)"
inductive_cases shape_TextE: "shape E h v (Text s)"
inductive_cases shape_RowE: "shape E h v (Row ts)"
inductive_cases shape_TableE: "shape E h v (Table k ps)"

text \<open>The bytes of a value.\<close>

fun stream_of :: "swap_env \<Rightarrow> stree \<Rightarrow> u8 list" where
  "stream_of E (Plain v) = leaf_bytes E v"
| "stream_of E (Text s) = svalue_bytes E 4 (string_type E s) (num_union E (length s + 1)) @ s @ [0]"
| "stream_of E (Row ts) = svalue_bytes E 8 (unat (junk E) * 257) (num_union E (length ts)) @ concat (map (stream_of E) ts)"
| "stream_of E (Table k ps) = svalue_bytes E 0x20 k (num_union E (length ps)) @ concat (map (\<lambda>p. stream_of E (fst p) @ stream_of E (snd p)) ps)"

text \<open>
  Values that survive: sizes that LPC allows, addresses of 64 bits, and mappings whose keys are plain values or strings and
  stay different when destructed objects become 0.
\<close>

fun stree_key :: "stree \<Rightarrow> sval option" where
  "stree_key (Plain v) = Some v"
| "stree_key (Text s) = Some (T_STRING s)"
| "stree_key (Row ts) = None"
| "stree_key (Table k ps) = None"

fun small :: "sval \<Rightarrow> bool" where
  "small (T_POINTER a) \<longleftrightarrow> a < 2 ^ 64"
| "small (T_OBJECT a) \<longleftrightarrow> a < 2 ^ 64"
| "small (T_MAPPING a) \<longleftrightarrow> a < 2 ^ 64"
| "small (T_FUNCTION a) \<longleftrightarrow> a < 2 ^ 64"
| "small v \<longleftrightarrow> True"

fun survives :: "swap_env \<Rightarrow> stree \<Rightarrow> bool" where
  "survives E (Plain v) \<longleftrightarrow> plain E v \<and> settled E v = v \<and> small v"
| "survives E (Text s) \<longleftrightarrow> 0 \<notin> set s \<and> length s + 1 < 2 ^ 31 \<and> string_type E s \<le> 2"
| "survives E (Row ts) \<longleftrightarrow> length ts \<le> MAX_ARRAY_SIZE \<and> (\<forall>t\<in>set ts. survives E t)"
| "survives E (Table k ps) \<longleftrightarrow> k < 2 ^ 16 \<and> length ps \<le> MAP_LIMIT \<and> distinct (map (\<lambda>p. stree_key (fst p)) ps) \<and>
     (\<forall>p\<in>set ps. (\<exists>k. stree_key (fst p) = Some k \<and> good_key (e_objs E) k) \<and> survives E (fst p) \<and> survives E (snd p))"

text \<open>A value of the heap that is what the file held, with the addresses of the arrays and mappings it consists of, each once for
  every place it is found at.  The empty array is the one that all empty arrays share.\<close>

inductive like :: "objs \<Rightarrow> lpc_heap \<Rightarrow> nat list \<Rightarrow> sval \<Rightarrow> stree \<Rightarrow> bool" for H h where
  like_Plain: "like H h [] v (Plain v)"
| like_Text: "like H h [] (T_STRING s) (Text s)"
| like_Empty: "h_vec h null_vector = Some [] \<Longrightarrow> like H h [] (T_POINTER null_vector) (Row [])"
| like_Row: "h_vec h a = Some (map snd qs) \<Longrightarrow> ts \<noteq> [] \<Longrightarrow> list_all2 (\<lambda>q. like H h (fst q) (snd q)) qs ts \<Longrightarrow>
     like H h (a # concat (map fst qs)) (T_POINTER a) (Row ts)"
| like_Table: "h_map h a = Some m \<Longrightarrow> map_inv H m \<Longrightarrow> dom (map_look m) = {k. \<exists>p\<in>set ps. stree_key (fst p) = Some k} \<Longrightarrow>
     list_all2 (\<lambda>q p. (\<exists>k. stree_key (fst p) = Some k \<and> map_look m k = Some (snd q)) \<and> like H h (fst q) (snd q) (snd p)) qs ps \<Longrightarrow>
     like H h (a # concat (map fst qs)) (T_MAPPING a) (Table i ps)"

lemma like_ext: "like H h as v t \<Longrightarrow> ext h h' \<Longrightarrow> like H h' as v t"
proof (induction rule: like.induct)
  case (like_Row a qs ts)
  then have "h_vec h' a = Some (map snd qs)" using map_le_Some by (fastforce simp: ext_def)
  moreover have "list_all2 (\<lambda>q. like H h' (fst q) (snd q)) qs ts" using like_Row(3,4) by (auto elim: list_all2_mono)
  ultimately show ?case using like_Row(2) by (intro like.like_Row)
next
  case (like_Empty)
  then show ?case using map_le_Some by (fastforce simp: ext_def intro: like.like_Empty)
next
  case (like_Table a m ps qs i)
  then have "h_map h' a = Some m" using map_le_Some by (fastforce simp: ext_def)
  moreover have "list_all2 (\<lambda>q p. (\<exists>k. stree_key (fst p) = Some k \<and> map_look m k = Some (snd q)) \<and> like H h' (fst q) (snd q) (snd p)) qs ps"
    using like_Table(4,5) by (auto elim: list_all2_mono)
  ultimately show ?case using like_Table(2,3) by (intro like.like_Table)
qed (auto intro: like.intros)

text \<open>New addresses, no two of them the same.\<close>

definition addrs :: "lpc_heap \<Rightarrow> nat set" where "addrs h = dom (h_vec h) \<union> dom (h_map h)"

definition new_addrs :: "lpc_heap \<Rightarrow> lpc_heap \<Rightarrow> nat list \<Rightarrow> bool" where
  "new_addrs h h' as \<longleftrightarrow> distinct as \<and> set as \<inter> addrs h = {} \<and> set as \<subseteq> addrs h'"

lemma ext_addrs: "ext h h' \<Longrightarrow> addrs h \<subseteq> addrs h'"
  by (auto simp: ext_def addrs_def dest: map_le_Some map_le_implies_dom_le)

lemma new_addrs_Nil [simp]: "new_addrs h h' []"
  by (simp add: new_addrs_def)

lemma new_addrs_append: "new_addrs h h1 as \<Longrightarrow> new_addrs h1 h2 bs \<Longrightarrow> ext h h1 \<Longrightarrow> ext h1 h2 \<Longrightarrow> new_addrs h h2 (as @ bs)"
  using ext_addrs [of h h1] ext_addrs [of h1 h2] by (auto simp: new_addrs_def)

lemma new_addrs_Cons: "new_addrs h h1 as \<Longrightarrow> a \<notin> addrs h1 \<Longrightarrow> a \<in> addrs h2 \<Longrightarrow> ext h h1 \<Longrightarrow> ext h1 h2 \<Longrightarrow> new_addrs h h2 (a # as)"
  using ext_addrs [of h h1] ext_addrs [of h1 h2] by (auto simp: new_addrs_def)

section \<open>Writing gives the bytes\<close>

lemma emits_all:
  assumes "list_all2 (\<lambda>v t. emits (step v) (f t)) vs ts"
  shows "emits (swap_all step vs) (concat (map f ts))"
  using assms
proof (induction rule: list_all2_induct)
  case Nil
  show ?case using emits_nothing by simp
next
  case (Cons v vs t ts)
  from emits_seq [OF Cons(1,3)] show ?case by simp
qed

lemma pair_size: "size (fst p) < size_prod size size p" "size (snd p) < size_prod size size p"
  by (cases p; simp)+

lemma swap_svalue_law:
  "shape E h v t \<Longrightarrow> survives E t \<Longrightarrow> size t < n \<Longrightarrow> emits (swap_svalue n E h v) (stream_of E t)"
proof (induction n arbitrary: v t)
  case (Suc n)
  show ?case
  proof (cases t)
    case (Plain w)
    then have "plain E v" "w = settled E v" using Suc.prems(1) by (auto elim: shape_PlainE)
    then show ?thesis using Plain emits_write by (cases v) simp_all
  next
    case (Text s)
    then have v: "v = T_STRING s" using Suc.prems(1) by (auto elim: shape_TextE)
    have "string_type E s \<le> 2" using Text Suc.prems(2) by simp
    then show ?thesis using Text v emits_seq [OF emits_write emits_seq [OF emits_write emits_nothing]] by simp
  next
    case (Row ts)
    then obtain a vs where v: "v = T_POINTER a" "sole_ref E a" "h_vec h a = Some vs" "list_all2 (shape E h) vs ts"
      using Suc.prems(1) by (auto elim: shape_RowE)
    have "list_all2 (\<lambda>v t. emits (swap_svalue n E h v) (stream_of E t)) vs ts"
    proof (rule list_all2_all_nthI)
      show l: "length vs = length ts" using v(4) by (rule list_all2_lengthD)
      fix i assume i: "i < length vs"
      then have m: "ts ! i \<in> set ts" using l by simp
      then have "size (ts ! i) \<le> size_list size ts" by (rule size_list_estimation') simp
      then have "size (ts ! i) < n" using Suc.prems(3) Row by simp
      then show "emits (swap_svalue n E h (vs ! i)) (stream_of E (ts ! i))"
        using Suc.IH list_all2_nthD [OF v(4) i] Suc.prems(2) Row m by simp
    qed
    from emits_seq [OF emits_write emits_all [OF this]] show ?thesis using Row v list_all2_lengthD [OF v(4)] by simp
  next
    case (Table k ps)
    then obtain a m where v: "v = T_MAPPING a" "sole_ref E a" "h_map h a = Some m" "nat (m_card m) = length (map_items m)" "k = m_size m"
      "list_all2 (\<lambda>p q. shape E h (fst p) (fst q) \<and> shape E h (snd p) (snd q)) (map_items m) ps"
      using Suc.prems(1) by (auto elim: shape_TableE)
    let ?step = "\<lambda>kv bp st. swap_svalue n E h (fst kv) bp st \<bind> (\<lambda>(bp, st). swap_svalue n E h (snd kv) bp st)"
    have "list_all2 (\<lambda>p q. emits (?step p) (stream_of E (fst q) @ stream_of E (snd q))) (map_items m) ps"
    proof (rule list_all2_all_nthI)
      show l: "length (map_items m) = length ps" using v(6) by (rule list_all2_lengthD)
      fix i assume i: "i < length (map_items m)"
      then have q: "ps ! i \<in> set ps" using l by simp
      then have "size_prod size size (ps ! i) \<le> size_list (size_prod size size) ps" by (rule size_list_estimation') simp
      with pair_size [of "ps ! i"] have s: "size (fst (ps ! i)) < n" "size (snd (ps ! i)) < n" using Suc.prems(3) Table by simp_all
      show "emits (?step (map_items m ! i)) (stream_of E (fst (ps ! i)) @ stream_of E (snd (ps ! i)))"
        using emits_seq Suc.IH s list_all2_nthD [OF v(6) i] Suc.prems(2) Table q by simp
    qed
    from emits_seq [OF emits_write emits_seq [OF emits_all [OF this] emits_nothing]] show ?thesis
      using Table v list_all2_lengthD [OF v(6)] by simp
  qed
qed simp

section \<open>Reading gives the value\<close>

lemma svalue_header:
  assumes "t < 2 ^ 16" and "s < 2 ^ 16"
  shows "of_le (take 2 (svalue_bytes E t s u)) = t" "of_le (take 2 (drop 2 (svalue_bytes E t s u))) = s"
    "drop 8 (svalue_bytes E t s u) = u"
  using assms of_le_le [of t 2] of_le_le [of s 2] by (simp_all add: svalue_bytes_def)

lemma length_svalue_bytes [simp]: "length u = 8 \<Longrightarrow> length (svalue_bytes E t s u) = SVALUE_SIZE"
  by (simp add: svalue_bytes_def SVALUE_SIZE_def)

lemma length_unions [simp]: "length (num_union E n) = 8" "length (ptr_union a) = 8" "length (union_bytes E v) = 8"
  by (simp add: num_union_def, simp add: ptr_union_def, cases v) (simp_all add: num_union_def ptr_union_def)

lemma num_union_value: "n < 2 ^ 32 \<Longrightarrow> of_le (take 4 (num_union E n)) = n"
  by (simp add: num_union_def of_le_le)

lemma ptr_union_value: "a < 2 ^ 64 \<Longrightarrow> of_le (ptr_union a) = a"
  by (simp add: ptr_union_def of_le_le)

lemma read_leaf_law:
  assumes "plain E v" and "settled E v = v" and "small v"
  shows "read_leaf E (svalue_type v) (union_bytes E v) = Some v"
  using assms
proof (cases v)
  case (T_NUMBER i)
  have "unat i < 2 ^ 32" using unsigned_less [of i, where ?'a = nat] by simp
  with T_NUMBER show ?thesis by (simp add: read_leaf_def num_union_value)
next
  case (T_FLOAT i)
  have "unat i < 2 ^ 32" using unsigned_less [of i, where ?'a = nat] by simp
  with T_FLOAT show ?thesis by (simp add: read_leaf_def num_union_value)
qed (auto simp: read_leaf_def ptr_union_value const0_def split: if_splits)

lemma svalue_type_small: "svalue_type v + LVALUE_BIT < 2 ^ 16" "even (svalue_type v)"
  by (cases v; simp add: LVALUE_BIT_def)+

lemma junk_small: "unat (junk E) * 257 < 2 ^ 16"
  using unsigned_less [of "junk E", where ?'a = nat] by simp

lemma unswap_leaf_law:
  assumes "plain E v" and "settled E v = v" and "small v"
  shows "consumes (unswap_case step E h (leaf_bytes E v)) [] (v, h)"
proof -
  note hd = svalue_header [OF svalue_type_small(1) [of v] junk_small [of E], of E "union_bytes E v"]
  have "odd (svalue_type v + LVALUE_BIT)" using svalue_type_small(2) [of v] by (simp add: LVALUE_BIT_def)
  then have "unswap_case step E h (leaf_bytes E v) = (\<lambda>bp st. Some ((v, h), bp, st))"
    using hd read_leaf_law [OF assms] by (simp add: unswap_case_def leaf_bytes_def fun_eq_iff)
  then show ?thesis using consumes_nothing by simp
qed

lemma unswap_text_law:
  assumes "survives E (Text s)"
  shows "consumes (unswap_case step E h (svalue_bytes E 4 (string_type E s) (num_union E (length s + 1)))) (s @ [0]) (T_STRING s, h)"
proof -
  have b: "string_type E s < 2 ^ 16" "length s + 1 < 2 ^ 32" using assms by simp_all
  have "\<forall>c\<in>set s. c \<noteq> 0" using assms by auto
  then have "takeWhile (\<lambda>c. c \<noteq> 0) (s @ [0]) = s" by (subst takeWhile_append2) auto
  then have c: "consumes (\<lambda>bp st. swap_read bp (length (s @ [0])) st \<bind> (\<lambda>(y, bp, st). Some ((T_STRING (takeWhile (\<lambda>c. c \<noteq> 0) y), h), bp, st)))
      ((s @ [0]) @ []) (T_STRING s, h)"
    using consumes_bind [OF consumes_read consumes_nothing, of "s @ [0]" "\<lambda>y. (T_STRING (takeWhile (\<lambda>c. c \<noteq> 0) y), h)"] by simp
  have "unswap_case step E h (svalue_bytes E 4 (string_type E s) (num_union E (length s + 1))) =
      (\<lambda>bp st. swap_read bp (length (s @ [0])) st \<bind> (\<lambda>(y, bp, st). Some ((T_STRING (takeWhile (\<lambda>c. c \<noteq> 0) y), h), bp, st)))"
    using assms svalue_header [OF _ b(1), of 4] num_union_value [OF b(2)] by (simp add: unswap_case_def fun_eq_iff Let_def)
  with c show ?thesis by simp
qed

lemma consumes_bind2:
  assumes "consumes R x (v, h)" and "consumes (S v h) y w"
  shows "consumes (\<lambda>bp st. R bp st \<bind> (\<lambda>((v, h), bp, st). S v h bp st)) (x @ y) w"
proof -
  have "(\<lambda>((v, h), bp, st). S v h bp st) = (\<lambda>(p, bp, st). (case p of (v, h) \<Rightarrow> S v h) bp st)" by (simp add: fun_eq_iff)
  then show ?thesis using consumes_bind [OF assms(1), of "\<lambda>(v, h). S v h"] assms(2) by simp
qed

text \<open>The heap in which values are read: it is finite, and has the empty array.\<close>

definition rd_ok :: "lpc_heap \<Rightarrow> bool" where
  "rd_ok h \<longleftrightarrow> finite (dom (h_vec h)) \<and> finite (dom (h_map h)) \<and> h_vec h null_vector = Some []"

definition reads_back :: "nat \<Rightarrow> swap_env \<Rightarrow> lpc_heap \<Rightarrow> stree \<Rightarrow> nat list \<Rightarrow> sval \<Rightarrow> lpc_heap \<Rightarrow> bool" where
  "reads_back n E h t as v h' \<longleftrightarrow> consumes (unswap_svalue n E h) (stream_of E t) (v, h') \<and> rd_ok h' \<and> ext h h' \<and> new_addrs h h' as \<and>
     like (e_objs E) h' as v t \<and> (\<forall>k. stree_key t = Some k \<longrightarrow> v = k)"

abbreviation (input) likes :: "objs \<Rightarrow> lpc_heap \<Rightarrow> (nat list \<times> sval) list \<Rightarrow> stree list \<Rightarrow> bool" where
  "likes H h qs ts \<equiv> list_all2 (\<lambda>q. like H h (fst q) (snd q)) qs ts"

lemma likes_ext: "likes H h qs ts \<Longrightarrow> ext h h' \<Longrightarrow> likes H h' qs ts"
  by (auto elim!: list_all2_mono intro: like_ext)

lemma alloc_vec_law:
  assumes "rd_ok h1" "alloc_ok (save_env.truncate E)" "likes H h1 qs ts" "new_addrs h h1 (concat (map fst qs))" "ext h h1"
  shows "\<exists>as v h'. alloc_vec E (map snd qs) h1 = (v, h') \<and> rd_ok h' \<and> ext h1 h' \<and> new_addrs h h' as \<and> like H h' as v (Row ts)"
proof (cases ts)
  case Nil
  then have "qs = []" using assms(3) by simp
  then show ?thesis using Nil assms(1) like_Empty [of h1 H]
    by (intro exI [of _ "[]"] exI [of _ "T_POINTER null_vector"] exI [of _ h1]) (simp add: alloc_vec_def rd_ok_def)
next
  case (Cons t ts')
  then have ne: "qs \<noteq> []" "ts \<noteq> []" using assms(3) by auto
  let ?a = "e_alloc (save_env.truncate E) h1"
  let ?h = "h1\<lparr>h_vec := (h_vec h1)(?a \<mapsto> map snd qs)\<rparr>"
  have fresh: "?a \<notin> addrs h1" using assms(1,2) by (simp add: rd_ok_def alloc_ok_def addrs_def)
  have a: "alloc_vec E (map snd qs) h1 = (T_POINTER ?a, ?h)" using ne(1) by (simp add: alloc_vec_def Let_def)
  have r: "rd_ok ?h" using assms(1) fresh by (auto simp: rd_ok_def addrs_def)
  have e: "ext h1 ?h" using fresh by (auto simp: addrs_def ext_def map_le_def)
  have "?a \<in> addrs ?h" by (simp add: addrs_def)
  note n = new_addrs_Cons [OF assms(4) fresh this assms(5) e]
  have "like H ?h (?a # concat (map fst qs)) (T_POINTER ?a) (Row ts)"
    by (rule like_Row [OF _ ne(2) likes_ext [OF assms(3) e]]) simp
  then show ?thesis using a r e n by blast
qed

lemma alloc_map_law:
  assumes "rd_ok h" "alloc_ok (save_env.truncate E)"
  shows "\<exists>a h'. alloc_map E m h = (T_MAPPING a, h') \<and> rd_ok h' \<and> ext h h' \<and> h_map h' a = Some m \<and> a \<notin> addrs h \<and> a \<in> addrs h'"
proof -
  let ?a = "e_alloc (save_env.truncate E) h"
  have "?a \<notin> addrs h" using assms(1,2) by (simp add: rd_ok_def alloc_ok_def addrs_def)
  then show ?thesis using assms(1) by (auto simp: alloc_map_def Let_def rd_ok_def ext_def map_le_def addrs_def)
qed

text \<open>A turn of a loop, as a function of the buffer.\<close>

lemma unswap_svalue_turn: "unswap_svalue (Suc n) E h =
    (\<lambda>bp st. swap_read bp SVALUE_SIZE st \<bind> (\<lambda>(x, bp, st). unswap_case (unswap_svalue n E) E h x bp st))"
  by (simp add: fun_eq_iff)

lemma unswap_items_turn: "unswap_items step (Suc k) h =
    (\<lambda>bp st. step h bp st \<bind> (\<lambda>((v, h), bp, st). unswap_items step k h bp st \<bind> (\<lambda>((vs, h), bp, st). Some ((v # vs, h), bp, st))))"
  by (simp add: fun_eq_iff)

lemma unswap_pairs_turn: "unswap_pairs step H (Suc k) m h =
    (\<lambda>bp st. step h bp st \<bind> (\<lambda>((marg, h), bp, st). case get_map_lvalue H m marg True of Inl _ \<Rightarrow> None
      | Inr (m, mval) \<Rightarrow> step h bp st \<bind> (\<lambda>((v, h), bp, st). unswap_pairs step H k (assign_lval H m mval v) h bp st)))"
  by (simp add: fun_eq_iff)

text \<open>The loop over the items of an array, which is also that over the variables of an object.\<close>

lemma unswap_items_law:
  assumes "\<And>t h. t \<in> set ts \<Longrightarrow> rd_ok h \<Longrightarrow> \<exists>as v h'. reads_back n E h t as v h'" and "rd_ok h"
  shows "\<exists>qs h'. consumes (unswap_items (unswap_svalue n E) (length ts) h) (concat (map (stream_of E) ts)) (map snd qs, h') \<and> rd_ok h' \<and>
    ext h h' \<and> new_addrs h h' (concat (map fst qs)) \<and> likes (e_objs E) h' qs ts"
  using assms
proof (induction ts arbitrary: h)
  case Nil
  show ?case using Nil.prems(2) by (intro exI [of _ "[]"] exI [of _ h]) (simp add: consumes_nothing)
next
  case (Cons t ts)
  from Cons.prems obtain as v h1 where 1: "consumes (unswap_svalue n E h) (stream_of E t) (v, h1)" "rd_ok h1" "ext h h1"
    "like (e_objs E) h1 as v t" "new_addrs h h1 as" unfolding reads_back_def by (meson list.set_intros(1))
  from Cons.IH [OF Cons.prems(1) [OF list.set_intros(2)] 1(2)] obtain qs h2 where
    2: "consumes (unswap_items (unswap_svalue n E) (length ts) h1) (concat (map (stream_of E) ts)) (map snd qs, h2)" "rd_ok h2" "ext h1 h2"
    "likes (e_objs E) h2 qs ts" "new_addrs h1 h2 (concat (map fst qs))" by blast
  let ?vs = "map snd qs"
  have "consumes (\<lambda>bp st. unswap_items (unswap_svalue n E) (length ts) h1 bp st \<bind> (\<lambda>((vs, h), bp, st). Some ((v # vs, h), bp, st)))
      (concat (map (stream_of E) ts) @ []) (v # ?vs, h2)" by (rule consumes_bind2 [OF 2(1) consumes_nothing])
  then have "consumes (\<lambda>bp st. unswap_items (unswap_svalue n E) (length ts) h1 bp st \<bind> (\<lambda>((vs, h), bp, st). Some ((v # vs, h), bp, st)))
      (concat (map (stream_of E) ts)) (v # ?vs, h2)" by simp
  from consumes_bind2 [OF 1(1), of "\<lambda>v h bp st. unswap_items (unswap_svalue n E) (length ts) h bp st \<bind>
      (\<lambda>((vs, h), bp, st). Some ((v # vs, h), bp, st))", OF this]
  have "consumes (unswap_items (unswap_svalue n E) (length (t # ts)) h) (concat (map (stream_of E) (t # ts))) (map snd ((as, v) # qs), h2)"
    by (simp add: unswap_items_turn)
  moreover have "likes (e_objs E) h2 ((as, v) # qs) (t # ts)" using 2(4) like_ext [OF 1(4) 2(3)] by simp
  moreover have "new_addrs h h2 (concat (map fst ((as, v) # qs)))" using new_addrs_append [OF 1(5) 2(5) 1(3) 2(3)] by simp
  ultimately show ?case using 2(2) ext_trans [OF 1(3) 2(3)] by blast
qed

text \<open>The loop over the pairs of a mapping.\<close>

definition keys_of_table :: "(stree \<times> stree) list \<Rightarrow> sval list" where
  "keys_of_table ps = map (\<lambda>p. the (stree_key (fst p))) ps"

abbreviation (input) row_bytes :: "swap_env \<Rightarrow> (stree \<times> stree) list \<Rightarrow> u8 list" where
  "row_bytes E ps \<equiv> concat (map (\<lambda>p. stream_of E (fst p) @ stream_of E (snd p)) ps)"

lemma unswap_pairs_law:
  assumes "\<And>t h. t \<in> fst ` set ps \<union> snd ` set ps \<Longrightarrow> rd_ok h \<Longrightarrow> \<exists>as v h'. reads_back n E h t as v h'" and "rd_ok h"
    and "map_inv (e_objs E) m" "card (dom (map_look m)) + length ps \<le> MAP_LIMIT" "distinct (keys_of_table ps)"
    and "\<forall>q\<in>set ps. \<exists>k. stree_key (fst q) = Some k \<and> good_key (e_objs E) k"
  shows "\<exists>m' qs h'. consumes (unswap_pairs (unswap_svalue n E) (e_objs E) (length ps) m h) (row_bytes E ps) (m', h') \<and> rd_ok h' \<and> ext h h' \<and>
    new_addrs h h' (concat (map fst qs)) \<and> likes (e_objs E) h' qs (map snd ps) \<and> map_inv (e_objs E) m' \<and>
    map_look m' = map_look m ++ map_of (zip (keys_of_table ps) (map snd qs))"
  using assms
proof (induction ps arbitrary: m h)
  case Nil
  show ?case using Nil.prems(2,3) by (intro exI [of _ m] exI [of _ "[]"] exI [of _ h]) (simp add: consumes_nothing keys_of_table_def)
next
  case (Cons q ps)
  let ?step = "unswap_svalue n E" and ?H = "e_objs E"
  obtain key where key: "stree_key (fst q) = Some key" "good_key ?H key" using Cons.prems(6) by auto
  from Cons.prems(1,2) key(1) obtain h1 where 1: "consumes (?step h) (stream_of E (fst q)) (key, h1)" "rd_ok h1" "ext h h1"
    unfolding reads_back_def by (metis UnI1 image_eqI list.set_intros(1))
  from Cons.prems(1) [of "snd q" h1] 1(2) obtain as w h2 where 2: "consumes (?step h1) (stream_of E (snd q)) (w, h2)" "rd_ok h2" "ext h1 h2"
    "like ?H h2 as w (snd q)" "new_addrs h1 h2 as" unfolding reads_back_def by auto
  have "nat (m_card m) < MAP_LIMIT" using Cons.prems(4) map_count [OF Cons.prems(3)] by simp
  note put = map_put_law [OF Cons.prems(3) key(2) this]
  then obtain m1 l where g: "get_map_lvalue ?H m key True = Inr (m1, l)" by (fastforce simp: map_put_def split: sum.splits)
  let ?m = "assign_lval ?H m1 l w"
  from put [of w] g have m': "map_inv ?H ?m" "map_look ?m = (map_look m)(key \<mapsto> w)" by (auto simp: map_put_def)
  have fin: "finite (dom (map_look m))" using map_count [OF Cons.prems(3)] by simp
  have c1: "card (dom (map_look ?m)) + length ps \<le> MAP_LIMIT" using Cons.prems(4) fin m'(2) by (simp add: card_insert_if)
  have ks: "keys_of_table (q # ps) = key # keys_of_table ps" using key(1) by (simp add: keys_of_table_def)
  have dk: "distinct (keys_of_table ps)" "key \<notin> set (keys_of_table ps)" using Cons.prems(5) ks by simp_all
  have gk: "\<forall>q\<in>set ps. \<exists>k. stree_key (fst q) = Some k \<and> good_key ?H k" using Cons.prems(6) by simp
  have el: "\<exists>as v h'. reads_back n E h t as v h'" if "t \<in> fst ` set ps \<union> snd ` set ps" "rd_ok h" for t h
    using Cons.prems(1) that by simp
  from Cons.IH [OF el 2(2) m'(1) c1 dk(1) gk] obtain m2 qs h3 where
    3: "consumes (unswap_pairs ?step ?H (length ps) ?m h2) (row_bytes E ps) (m2, h3)" "rd_ok h3" "ext h2 h3"
      "likes ?H h3 qs (map snd ps)" "map_inv ?H m2" "map_look m2 = map_look ?m ++ map_of (zip (keys_of_table ps) (map snd qs))"
      "new_addrs h2 h3 (concat (map fst qs))" by blast
  have "consumes (\<lambda>bp st. ?step h1 bp st \<bind> (\<lambda>((v, h), bp, st). unswap_pairs ?step ?H (length ps) (assign_lval ?H m1 l v) h bp st))
      (stream_of E (snd q) @ row_bytes E ps) (m2, h3)"
    by (rule consumes_bind2 [where S = "\<lambda>v h. unswap_pairs ?step ?H (length ps) (assign_lval ?H m1 l v) h", OF 2(1) 3(1)])
  then have "consumes ((\<lambda>marg h bp st. case get_map_lvalue ?H m marg True of Inl _ \<Rightarrow> None
        | Inr (m, mval) \<Rightarrow> ?step h bp st \<bind> (\<lambda>((v, h), bp, st). unswap_pairs ?step ?H (length ps) (assign_lval ?H m mval v) h bp st)) key h1)
      (stream_of E (snd q) @ row_bytes E ps) (m2, h3)" using g by simp
  from consumes_bind2 [where S = "\<lambda>marg h bp st. case get_map_lvalue ?H m marg True of Inl _ \<Rightarrow> None
        | Inr (m, mval) \<Rightarrow> ?step h bp st \<bind> (\<lambda>((v, h), bp, st). unswap_pairs ?step ?H (length ps) (assign_lval ?H m mval v) h bp st)",
      OF 1(1) this]
  have c: "consumes (unswap_pairs ?step ?H (length (q # ps)) m h) (row_bytes E (q # ps)) (m2, h3)" by (simp add: unswap_pairs_turn)
  have "length qs = length ps" using list_all2_lengthD [OF 3(4)] by simp
  then have "key \<notin> dom (map_of (zip (keys_of_table ps) (map snd qs)))" using dk(2) by (simp add: keys_of_table_def)
  then have "map_look m2 = map_look m ++ map_of (zip (keys_of_table (q # ps)) (map snd ((as, w) # qs)))"
    unfolding 3(6) m'(2) ks by (simp add: map_add_upd_left)
  moreover have "likes ?H h3 ((as, w) # qs) (map snd (q # ps))" using 3(4) like_ext [OF 2(4) 3(3)] by simp
  moreover have "new_addrs h h3 (concat (map fst ((as, w) # qs)))"
    using new_addrs_append [OF new_addrs_Nil new_addrs_append [OF 2(5) 3(7) 2(3) 3(3)] 1(3) ext_trans [OF 2(3) 3(3)]] by simp
  ultimately show ?case using c 3(2,5) ext_trans [OF ext_trans [OF 1(3) 2(3)] 3(3)] by blast
qed

lemma row_value:
  assumes u: "consumes (unswap_items (unswap_svalue n E) (length ts) h) (concat (map (stream_of E) ts)) (map snd qs, h1)" and h: "rd_ok h1" "ext h h1"
    and l: "likes (e_objs E) h1 qs ts" "new_addrs h h1 (concat (map fst qs))" and E: "alloc_ok (save_env.truncate E)" and len: "length ts \<le> MAX_ARRAY_SIZE"
  shows "\<exists>as v h'. reads_back (Suc n) E h (Row ts) as v h'"
proof -
  let ?x = "svalue_bytes E 8 (unat (junk E) * 257) (num_union E (length ts))"
  from alloc_vec_law [OF h(1) E l h(2)] obtain as v h' where a: "alloc_vec E (map snd qs) h1 = (v, h')" "rd_ok h'" "ext h1 h'"
    "like (e_objs E) h' as v (Row ts)" "new_addrs h h' as" by blast
  have "length ts < 2 ^ 32" using len by (simp add: MAX_ARRAY_SIZE_def)
  then have s: "unswap_case (unswap_svalue n E) E h ?x =
      (\<lambda>bp st. unswap_items (unswap_svalue n E) (length ts) h bp st \<bind> (\<lambda>((vs, h), bp, st). Some (alloc_vec E vs h, bp, st)))"
    using svalue_header [OF _ junk_small [of E], of 8] num_union_value len
    by (simp add: unswap_case_def fun_eq_iff Let_def allocate_check_def)
  have "consumes (unswap_case (unswap_svalue n E) E h ?x) (concat (map (stream_of E) ts) @ []) (v, h')"
    unfolding s by (rule consumes_bind2 [where S = "\<lambda>vs h bp st. Some (alloc_vec E vs h, bp, st)", OF u]) (simp add: a(1) consumes_nothing)
  from consumes_bind [where S = "unswap_case (unswap_svalue n E) E h", OF consumes_read this]
  have "consumes (unswap_svalue (Suc n) E h) (stream_of E (Row ts)) (v, h')" by (simp add: unswap_svalue_turn)
  then show ?thesis using a(2,4,5) ext_trans [OF h(2) a(3)] unfolding reads_back_def by auto
qed

lemma table_value:
  assumes u: "consumes (unswap_pairs (unswap_svalue n E) (e_objs E) (length ps) (allocate_map (int (length ps))) h) (row_bytes E ps) (m, h1)"
    and h: "rd_ok h1" "ext h h1" and l: "likes (e_objs E) h1 qs (map snd ps)" "new_addrs h h1 (concat (map fst qs))"
    and E: "alloc_ok (save_env.truncate E)"
    and m: "map_inv (e_objs E) m" "map_look m = map_of (zip (keys_of_table ps) (map snd qs))" and len: "length ps \<le> MAP_LIMIT"
    and ks: "distinct (keys_of_table ps)" "\<forall>q\<in>set ps. \<exists>k. stree_key (fst q) = Some k" and i: "i < 2 ^ 16"
  shows "\<exists>as v h'. reads_back (Suc n) E h (Table i ps) as v h'"
proof -
  let ?x = "svalue_bytes E 0x20 i (num_union E (length ps))"
  from alloc_map_law [OF h(1) E, of m] obtain a h' where a: "alloc_map E m h1 = (T_MAPPING a, h')" "rd_ok h'" "ext h1 h'" "h_map h' a = Some m"
    "a \<notin> addrs h1" "a \<in> addrs h'" by blast
  have "length ps < 2 ^ 32" using len by (simp add: MAP_LIMIT_def)
  then have s: "unswap_case (unswap_svalue n E) E h ?x =
      (\<lambda>bp st. unswap_pairs (unswap_svalue n E) (e_objs E) (length ps) (allocate_map (int (length ps))) h bp st \<bind>
        (\<lambda>((m, h), bp, st). Some (alloc_map E m h, bp, st)))"
    using svalue_header [OF _ i, of "0x20"] num_union_value by (simp add: unswap_case_def fun_eq_iff Let_def)
  have "consumes (unswap_case (unswap_svalue n E) E h ?x) (row_bytes E ps @ []) (T_MAPPING a, h')"
    unfolding s by (rule consumes_bind2 [where S = "\<lambda>m h bp st. Some (alloc_map E m h, bp, st)", OF u]) (simp add: a(1) consumes_nothing)
  from consumes_bind [where S = "unswap_case (unswap_svalue n E) E h", OF consumes_read this]
  have c: "consumes (unswap_svalue (Suc n) E h) (stream_of E (Table i ps)) (T_MAPPING a, h')" by (simp add: unswap_svalue_turn)
  have len: "length qs = length ps" using list_all2_lengthD [OF l(1)] by simp
  have dm: "dom (map_look m) = {k. \<exists>p\<in>set ps. stree_key (fst p) = Some k}"
    using m(2) len ks(2) by (force simp: keys_of_table_def image_iff)
  have "list_all2 (\<lambda>q p. (\<exists>k. stree_key (fst p) = Some k \<and> map_look m k = Some (snd q)) \<and> like (e_objs E) h' (fst q) (snd q) (snd p)) qs ps"
  proof (rule list_all2_all_nthI [OF len])
    fix j assume j: "j < length qs"
    then have "ps ! j \<in> set ps" using len by simp
    then obtain k where k: "stree_key (fst (ps ! j)) = Some k" using ks(2) by blast
    have "(keys_of_table ps) ! j = k" using j k len by (simp add: keys_of_table_def)
    then have "map_look m k = Some (map snd qs ! j)" using ks(1) j len unfolding m(2) by (metis keys_of_table_def length_map map_of_zip_nth)
    moreover have "like (e_objs E) h1 (fst (qs ! j)) (snd (qs ! j)) (snd (ps ! j))" using list_all2_nthD [OF l(1) j] j len by simp
    ultimately show "(\<exists>k. stree_key (fst (ps ! j)) = Some k \<and> map_look m k = Some (snd (qs ! j))) \<and>
        like (e_objs E) h' (fst (qs ! j)) (snd (qs ! j)) (snd (ps ! j))" using k j like_ext [OF _ a(3)] by simp
  qed
  then have "like (e_objs E) h' (a # concat (map fst qs)) (T_MAPPING a) (Table i ps)" using like_Table [OF a(4) m(1) dm] by simp
  then show ?thesis using c a(2) ext_trans [OF h(2) a(3)] new_addrs_Cons [OF l(2) a(5,6) h(2) a(3)] unfolding reads_back_def by auto
qed

lemma unswap_svalue_law:
  assumes E: "alloc_ok (save_env.truncate E)"
  shows "survives E t \<Longrightarrow> size t < n \<Longrightarrow> rd_ok h \<Longrightarrow> \<exists>as v h'. reads_back n E h t as v h'"
proof (induction n arbitrary: t h)
  case (Suc n)
  show ?case
  proof (cases t)
    case (Plain v)
    then have "plain E v" "settled E v = v" "small v" using Suc.prems(1) by simp_all
    from consumes_bind [where S = "unswap_case (unswap_svalue n E) E h", OF consumes_read unswap_leaf_law [OF this]]
    have "consumes (unswap_svalue (Suc n) E h) (stream_of E t) (v, h)" using Plain by (simp add: unswap_svalue_turn leaf_bytes_def)
    then show ?thesis using Plain Suc.prems(3) like_Plain unfolding reads_back_def by (intro exI [of _ "[]"]) fastforce
  next
    case (Text s)
    from consumes_bind [where S = "unswap_case (unswap_svalue n E) E h", OF consumes_read unswap_text_law] Suc.prems(1) Text
    have "consumes (unswap_svalue (Suc n) E h) (stream_of E t) (T_STRING s, h)" by (simp add: unswap_svalue_turn)
    then show ?thesis using Text Suc.prems(3) like_Text unfolding reads_back_def by (intro exI [of _ "[]"]) fastforce
  next
    case (Row ts)
    have "\<exists>as v h'. reads_back n E h t as v h'" if "t \<in> set ts" "rd_ok h" for t h
    proof (rule Suc.IH [OF _ _ that(2)])
      show "survives E t" using Suc.prems(1) Row that(1) by simp
      have "size t \<le> size_list size ts" using that(1) by (rule size_list_estimation') simp
      then show "size t < n" using Suc.prems(2) Row by simp
    qed
    from unswap_items_law [OF this Suc.prems(3)] obtain qs h1 where
      "consumes (unswap_items (unswap_svalue n E) (length ts) h) (concat (map (stream_of E) ts)) (map snd qs, h1)" "rd_ok h1" "ext h h1"
      "likes (e_objs E) h1 qs ts" "new_addrs h h1 (concat (map fst qs))" by blast
    from row_value [OF this E] show ?thesis using Suc.prems(1) Row by simp
  next
    case (Table i ps)
    have el: "\<exists>as v h'. reads_back n E h t as v h'" if "t \<in> fst ` set ps \<union> snd ` set ps" "rd_ok h" for t h
    proof (rule Suc.IH [OF _ _ that(2)])
      from that(1) obtain q where q: "q \<in> set ps" "t = fst q \<or> t = snd q" by auto
      show "survives E t" using Suc.prems(1) Table q by auto
      have "size_prod size size q \<le> size_list (size_prod size size) ps" using q(1) by (rule size_list_estimation') simp
      then show "size t < n" using Suc.prems(2) Table q(2) pair_size [of q] by auto
    qed
    have g: "length ps \<le> MAP_LIMIT" "i < 2 ^ 16" "distinct (map (\<lambda>p. stree_key (fst p)) ps)"
      "\<forall>q\<in>set ps. \<exists>k. stree_key (fst q) = Some k \<and> good_key (e_objs E) k" using Suc.prems(1) Table by simp_all
    have "map Some (keys_of_table ps) = map (\<lambda>p. stree_key (fst p)) ps"
      using g(4) unfolding keys_of_table_def map_map o_def by (intro map_cong) auto
    then have dk: "distinct (keys_of_table ps)" using g(3) by (metis distinct_map)
    note am = allocate_map_law [of "e_objs E" "int (length ps)"]
    have l: "card (dom (map_look (allocate_map (int (length ps))))) + length ps \<le> MAP_LIMIT" using g(1) am by simp
    from unswap_pairs_law [OF el Suc.prems(3) conjunct1 [OF am] l dk g(4)] am obtain m qs h1 where
      "consumes (unswap_pairs (unswap_svalue n E) (e_objs E) (length ps) (allocate_map (int (length ps))) h) (row_bytes E ps) (m, h1)"
      "rd_ok h1" "ext h h1" "likes (e_objs E) h1 qs (map snd ps)" "new_addrs h h1 (concat (map fst qs))" "map_inv (e_objs E) m"
      "map_look m = map_of (zip (keys_of_table ps) (map snd qs))" by auto
    moreover have "\<forall>q\<in>set ps. \<exists>k. stree_key (fst q) = Some k" using g(4) by blast
    ultimately show ?thesis using table_value [OF _ _ _ _ _ E _ _ g(1) dk _ g(2)] Table by blast
  qed
qed simp

section \<open>Swapping an object\<close>

lemma emits_variables:
  assumes "list_all2 (shape E h) vs ts" and "\<forall>t\<in>set ts. survives E t \<and> size t < n"
  shows "emits (swap_all (swap_svalue n E h) vs) (concat (map (stream_of E) ts))"
proof (rule emits_all, rule list_all2_all_nthI)
  show l: "length vs = length ts" using assms(1) by (rule list_all2_lengthD)
  fix i assume i: "i < length vs"
  then have "ts ! i \<in> set ts" using l by simp
  then show "emits (swap_svalue n E h (vs ! i)) (stream_of E (ts ! i))"
    using swap_svalue_law list_all2_nthD [OF assms(1) i] assms(2) by simp
qed

lemma swap_object_law:
  assumes st: "swap_store st M" and vs: "list_all2 (shape E h) vs ts" "\<forall>t\<in>set ts. survives E t \<and> size t < n"
    and ob: "so_flags ob AND (O_DESTRUCTED OR O_SWAPPED) = 0" "so_variables ob = Some vs" "so_num_vars ob = length vs" "so_swap_num ob = 0"
    and room: "card (used_blocks st) + length (concat (map (stream_of E) ts)) + 1 < 2 ^ 32"
  shows "\<exists>b st'. swap_object n E h ob st = Some (ob\<lparr>so_variables := None, so_swap_num := b, so_flags := so_flags ob OR O_SWAPPED\<rparr>, st') \<and>
    b \<noteq> 0 \<and> M b = None \<and> swap_store st' (M(b \<mapsto> concat (map (stream_of E) ts)))"
proof -
  from put_stream_law [OF emits_variables [OF vs] st room] obtain b st' where
    "put_stream (swap_all (swap_svalue n E h) vs) st = Some (b, st')" "b \<noteq> 0" "M b = None"
    "swap_store st' (M(b \<mapsto> concat (map (stream_of E) ts)))" by blast
  then show ?thesis using ob by (intro exI [of _ b] exI [of _ st']) (simp add: swap_object_def)
qed

lemma load_object_law:
  assumes E: "alloc_ok (save_env.truncate E)" and st: "swap_store st M" and h: "rd_ok h" and ts: "\<forall>t\<in>set ts. survives E t \<and> size t < n"
    and ob: "so_flags ob AND O_SWAPPED \<noteq> 0" "so_num_vars ob = length ts" "M (so_swap_num ob) = Some (concat (map (stream_of E) ts))"
  shows "\<exists>qs h' st'. load_ob_from_swap n E ob h st =
      Some (ob\<lparr>so_variables := Some (map snd qs), so_swap_num := 0, so_flags := so_flags ob AND NOT O_SWAPPED\<rparr>, h', st') \<and>
    likes (e_objs E) h' qs ts \<and> new_addrs h h' (concat (map fst qs)) \<and> ext h h' \<and> swap_store st' (M(so_swap_num ob := None))"
proof -
  have "\<exists>as v h'. reads_back n E h t as v h'" if "t \<in> set ts" "rd_ok h" for t h using unswap_svalue_law [OF E] ts that by blast
  from unswap_items_law [OF this h] obtain qs h' where
    u: "consumes (unswap_items (unswap_svalue n E) (length ts) h) (concat (map (stream_of E) ts)) (map snd qs, h')" "ext h h'"
    "likes (e_objs E) h' qs ts" "new_addrs h h' (concat (map fst qs))" by blast
  from get_stream_law [OF u(1) st ob(3)] u(2,3,4) show ?thesis using ob(1,2) by (auto simp: load_ob_from_swap_def)
qed

lemma swapped_flags:
  fixes x :: u16
  assumes "x AND (O_DESTRUCTED OR O_SWAPPED) = 0"
  shows "(x OR O_SWAPPED) AND O_SWAPPED \<noteq> 0" "(x OR O_SWAPPED) AND NOT O_SWAPPED = x"
proof -
  have s: "x AND O_SWAPPED = 0" using assms by (simp add: bit.conj_disj_distrib or_eq_0_iff)
  have "(x OR O_SWAPPED) AND O_SWAPPED = O_SWAPPED" by (simp add: bit.conj_disj_distrib2 s)
  then show "(x OR O_SWAPPED) AND O_SWAPPED \<noteq> 0" by (simp add: O_SWAPPED_def)
  have "x AND (O_SWAPPED OR NOT O_SWAPPED) = x" by simp
  then have "x AND NOT O_SWAPPED = x" unfolding bit.conj_disj_distrib s by simp
  then show "(x OR O_SWAPPED) AND NOT O_SWAPPED = x" by (simp add: bit.conj_disj_distrib2)
qed

text \<open>C22. Swapping out an object and loading it again, in whatever heap there is by then: its variables leave memory for a stream
  of their bytes, whose number the object gets, and come back as values with the same contents; every array and mapping that only
  the object had comes back with all its items as a new one, at an address that nothing had and that is used at one place only,
  apart from empty arrays, which come back as the shared empty array; arrays and mappings that others share come back as the same
  references.  The flags and the number are what they were, arrays and mappings in memory are not touched, and the swap file holds
  what it held before.  This is for an object that is neither destructed nor swapped, whose values LPC allows: at most 5000 items in
  an array and 10240 pairs in a mapping, strings without NUL bytes, and keys that are plain values or strings (not arrays and
  mappings that only the object has), not NaN or -0.0, and different from each other once destructed objects have become 0; when
  no object is destructed in between; and as long as the swap file has room.\<close>

theorem object_swap_roundtrip:
  assumes "alloc_ok (save_env.truncate E)" and "swap_store st M" and vs: "list_all2 (shape E h) vs ts" "\<forall>t\<in>set ts. survives E t \<and> size t < n"
    and ob: "so_flags ob AND (O_DESTRUCTED OR O_SWAPPED) = 0" "so_variables ob = Some vs" "so_num_vars ob = length vs" "so_swap_num ob = 0"
    and "card (used_blocks st) + length (concat (map (stream_of E) ts)) + 1 < 2 ^ 32" and "rd_ok h2"
  shows "\<exists>ob' st'. swap_object n E h ob st = Some (ob', st') \<and> so_variables ob' = None \<and> so_swap_num ob' \<noteq> 0 \<and> M (so_swap_num ob') = None \<and>
    swap_store st' (M(so_swap_num ob' \<mapsto> concat (map (stream_of E) ts))) \<and>
    (\<exists>qs h' st''. remove_ob_from_swap n E ob' h2 st' = Some (ob\<lparr>so_variables := Some (map snd qs)\<rparr>, h', st'') \<and>
       list_all2 (\<lambda>q. like (e_objs E) h' (fst q) (snd q)) qs ts \<and> new_addrs h2 h' (concat (map fst qs)) \<and> ext h2 h' \<and> swap_store st'' M)"
proof -
  let ?x = "concat (map (stream_of E) ts)"
  from swap_object_law [OF assms(2) vs ob assms(9)] obtain b st' where
    1: "swap_object n E h ob st = Some (ob\<lparr>so_variables := None, so_swap_num := b, so_flags := so_flags ob OR O_SWAPPED\<rparr>, st')"
    "b \<noteq> 0" "M b = None" "swap_store st' (M(b \<mapsto> ?x))" by blast
  let ?ob = "ob\<lparr>so_variables := None, so_swap_num := b, so_flags := so_flags ob OR O_SWAPPED\<rparr>"
  note f = swapped_flags [OF ob(1)]
  have "so_num_vars ?ob = length ts" using ob(3) list_all2_lengthD [OF vs(1)] by simp
  from load_object_law [OF assms(1) 1(4) assms(10) vs(2) _ this] f(1) obtain qs h' st'' where
    2: "load_ob_from_swap n E ?ob h2 st' = Some (?ob\<lparr>so_variables := Some (map snd qs), so_swap_num := 0, so_flags := so_flags ?ob AND NOT O_SWAPPED\<rparr>, h', st'')"
    "likes (e_objs E) h' qs ts" "ext h2 h'" "swap_store st'' (M(b \<mapsto> ?x, b := None))" "new_addrs h2 h' (concat (map fst qs))" by auto
  have "?ob\<lparr>so_variables := Some (map snd qs), so_swap_num := 0, so_flags := so_flags ?ob AND NOT O_SWAPPED\<rparr> = ob\<lparr>so_variables := Some (map snd qs)\<rparr>"
    using f(2) ob(4) by simp
  moreover have "M(b \<mapsto> ?x, b := None) = M" using 1(3) by auto
  ultimately have "remove_ob_from_swap n E ?ob h2 st' = Some (ob\<lparr>so_variables := Some (map snd qs)\<rparr>, h', st'') \<and> swap_store st'' M"
    using 2(1,4) f(1) by (simp add: remove_ob_from_swap_def)
  then show ?thesis using 1 2(2,3,5) by (intro exI [of _ ?ob] exI [of _ st']) auto
qed

definition demo_swap_env :: swap_env where
  "demo_swap_env = save_env.extend demo_save_env \<lparr>sole_ref = (\<lambda>a. a = 16), string_type = (\<lambda>_. 1), junk = 0\<rparr>"

theorem object_swap_roundtrip_witness:
  "\<exists>ob' st' qs h' st''. swap_object 20 demo_swap_env demo_heap
      \<lparr>so_flags = 0, so_variables = Some [T_POINTER 16, T_OBJECT 8], so_num_vars = 2, so_swap_num = 0\<rparr> (init_swap 4096) = Some (ob', st') \<and>
    remove_ob_from_swap 20 demo_swap_env ob' demo_heap st' =
      Some (\<lparr>so_flags = 0, so_variables = Some (map snd qs), so_num_vars = 2, so_swap_num = 0\<rparr>, h', st'') \<and>
    new_addrs demo_heap h' (concat (map fst qs)) \<and> list_all2 (\<lambda>q. like (e_objs demo_swap_env) h' (fst q) (snd q)) qs
      [Row [Plain (T_NUMBER (- 7)), Text [97, 34, 10], Plain (T_MAPPING 32)], Plain (T_OBJECT 8)]"
proof -
  let ?E = demo_swap_env let ?ts = "[Row [Plain (T_NUMBER (- 7)), Text [97, 34, 10], Plain (T_MAPPING 32)], Plain (T_OBJECT 8)]"
  let ?ob = "\<lparr>so_flags = 0, so_variables = Some [T_POINTER 16, T_OBJECT 8], so_num_vars = 2, so_swap_num = 0\<rparr>"
  have E: "save_env.truncate ?E = demo_save_env" by (simp add: demo_swap_env_def save_env.defs demo_save_env_def)
  have num: "plain ?E (T_NUMBER (- 7))" "settled ?E (T_NUMBER (- 7)) = T_NUMBER (- 7)" by simp_all
  have s: "shape ?E demo_heap (T_NUMBER (- 7)) (Plain (T_NUMBER (- 7)))" "shape ?E demo_heap (T_MAPPING 32) (Plain (T_MAPPING 32))"
    "shape ?E demo_heap (T_OBJECT 8) (Plain (T_OBJECT 8))"
    using shape_Plain [of ?E "T_NUMBER (- 7)"] shape_Plain [of ?E "T_MAPPING 32"] shape_Plain [of ?E "T_OBJECT 8"]
    by (simp_all add: demo_swap_env_def save_env.defs demo_save_env_def)
  have "shape ?E demo_heap (T_POINTER 16) (Row [Plain (T_NUMBER (- 7)), Text [97, 34, 10], Plain (T_MAPPING 32)])"
    using s shape_Text by (intro shape_Row [of _ _ _ "the (h_vec demo_heap 16)"]) (simp_all add: demo_swap_env_def save_env.defs demo_heap_def)
  then have "list_all2 (shape ?E demo_heap) [T_POINTER 16, T_OBJECT 8] ?ts" using s(3) by simp
  moreover have "\<forall>t\<in>set ?ts. survives ?E t \<and> size t < 20"
    by (simp add: demo_swap_env_def save_env.defs demo_save_env_def MAX_ARRAY_SIZE_def)
  moreover have "rd_ok demo_heap" by (simp add: rd_ok_def demo_heap_def null_vector_def)
  ultimately show ?thesis
    using object_swap_roundtrip [of ?E "init_swap 4096" Map.empty demo_heap "[T_POINTER 16, T_OBJECT 8]" ?ts 20 ?ob demo_heap] E demo_save_alloc
    by (fastforce simp: init_swap_store init_swap_used leaf_bytes_def SVALUE_SIZE_def)
qed

end
