(* ===== verification/Living.thy ===== *)
theory Living
  imports Environment Otable
begin

text \<open>
  The names of living objects (\<^verbatim>\<open>src/object.c\<close>): a hash table of singly linked chains through the objects, to which an object
  belongs while it has a living name.  Several objects may have the same name; a search passes over the objects that cannot take
  commands, and moves what it finds to the front of its chain.

  A name is its text; that it is a shared string is left out, and of the statistics only the number of names is kept.  \<^const>\<open>None\<close> is
  a call of \<^verbatim>\<open>fatal()\<close>, an access through a null pointer, or a chain that does not end.
\<close>

unbundle bit_operations_syntax

section \<open>The table\<close>

definition LIVING_HASH_SIZE :: nat where "LIVING_HASH_SIZE = 0x1000"

record livings =
  hashed_living :: "nat \<Rightarrow> nat option"
  next_hashed_living :: "nat \<Rightarrow> nat option"
  living_name :: "nat \<Rightarrow> u8 list option"
  num_living_names :: int

definition LivHash :: "u8 list \<Rightarrow> nat" where
  "LivHash s = unat (hashstr16 s 100) AND (LIVING_HASH_SIZE - 1)"

text \<open>The pointers that run over a chain: its head, or the link in one of its objects.\<close>

datatype living_link = Bucket nat | Next_living nat

fun living_get :: "living_link \<Rightarrow> livings \<Rightarrow> nat option" where
  "living_get (Bucket h) st = hashed_living st h"
| "living_get (Next_living x) st = next_hashed_living st x"

fun living_set :: "living_link \<Rightarrow> nat option \<Rightarrow> livings \<Rightarrow> livings" where
  "living_set (Bucket h) v st = st\<lparr>hashed_living := (hashed_living st)(h := v)\<rparr>"
| "living_set (Next_living x) v st = st\<lparr>next_hashed_living := (next_hashed_living st)(x := v)\<rparr>"

text \<open>The head of a chain becomes \<open>x\<close>.\<close>

definition living_push :: "nat \<Rightarrow> nat \<Rightarrow> livings \<Rightarrow> livings" where
  "living_push h x st =
     (let st = living_set (Next_living x) (living_get (Bucket h) st) st in living_set (Bucket h) (Some x) st)"

partial_function (option) living_search :: "world \<Rightarrow> u8 list \<Rightarrow> living_link \<Rightarrow> livings \<Rightarrow> living_link option" where
  "living_search w s pp st =
     (case living_get pp st of
        None \<Rightarrow> Some pp
      | Some x \<Rightarrow>
          if \<not> living w x then living_search w s (Next_living x) st
          else case living_name st x of
                 None \<Rightarrow> None
               | Some t \<Rightarrow> if t = s then Some pp else living_search w s (Next_living x) st)"

definition find_living_object :: "world \<Rightarrow> u8 list \<Rightarrow> livings \<Rightarrow> (nat option \<times> livings) option" where
  "find_living_object w s st = do {
     let hl = Bucket (LivHash s);
     pp \<leftarrow> living_search w s hl st;
     Some (case living_get pp st of
             None \<Rightarrow> (None, st)
           | Some x \<Rightarrow>
               if pp = hl then (Some x, st)
               else (Some x, living_push (LivHash s) x (living_set pp (next_hashed_living st x) st))) }"

text \<open>The loop that counts and the one that fills the array come to the same objects.\<close>

partial_function (option) living_collect :: "world \<Rightarrow> u8 list \<Rightarrow> living_link \<Rightarrow> livings \<Rightarrow> nat list option" where
  "living_collect w s pp st =
     (case living_get pp st of
        None \<Rightarrow> Some []
      | Some x \<Rightarrow>
          if \<not> living w x then living_collect w s (Next_living x) st
          else case living_name st x of
                 None \<Rightarrow> None
               | Some t \<Rightarrow> Option.bind (living_collect w s (Next_living x) st) (\<lambda>xs. Some (if t = s then x # xs else xs)))"

definition find_living_objects :: "world \<Rightarrow> u8 list \<Rightarrow> livings \<Rightarrow> (array_error + sval list) option" where
  "find_living_objects w s st = do {
     xs \<leftarrow> living_collect w s (Bucket (LivHash s)) st;
     Some (if allocate_check (int (length xs)) then Inr (map T_OBJECT xs) else Inl Illegal_array_size) }"

text \<open>The pointer to an object of a chain.\<close>

partial_function (option) living_locate :: "nat \<Rightarrow> living_link \<Rightarrow> livings \<Rightarrow> living_link option" where
  "living_locate ob pp st =
     (case living_get pp st of
        None \<Rightarrow> Some pp
      | Some x \<Rightarrow> if x = ob then Some pp else living_locate ob (Next_living x) st)"

definition remove_living_name :: "nat \<Rightarrow> livings \<Rightarrow> livings option" where
  "remove_living_name ob st = do {
     let st = st\<lparr>num_living_names := num_living_names st - 1\<rparr>;
     s \<leftarrow> living_name st ob;
     pp \<leftarrow> living_locate ob (Bucket (LivHash s)) st;
     (case living_get pp st of
        None \<Rightarrow> None
      | Some x \<Rightarrow>
          (let st = living_set pp (next_hashed_living st ob) st
           in Some (st\<lparr>next_hashed_living := (next_hashed_living st)(ob := None), living_name := (living_name st)(ob := None)\<rparr>))) }"

definition set_living_name :: "world \<Rightarrow> nat \<Rightarrow> u8 list \<Rightarrow> livings \<Rightarrow> livings option" where
  "set_living_name w ob s st =
     (if dead w ob then Some st
      else do {
        st \<leftarrow> (if living_name st ob \<noteq> None then remove_living_name ob st else Some st);
        Some (if s = [] then st
              else (let st = living_push (LivHash s) ob (st\<lparr>num_living_names := num_living_names st + 1\<rparr>)
                    in st\<lparr>living_name := (living_name st)(ob \<mapsto> s)\<rparr>)) })"

section \<open>Chains\<close>

lemma linked_other: "x \<notin> set xs \<Longrightarrow> linked (f(x := v)) xs n = linked f xs n"
  by (rule linked_cong) auto

text \<open>The chains of the table, each object in one of them at most.\<close>

definition living_lists :: "livings \<Rightarrow> (nat \<Rightarrow> nat list) \<Rightarrow> bool" where
  "living_lists st ch \<longleftrightarrow> (\<forall>h. distinct (ch h) \<and> hashed_living st h = hdo (ch h) None \<and> linked (next_hashed_living st) (ch h) None) \<and>
     (\<forall>h h' x. x \<in> set (ch h) \<longrightarrow> x \<in> set (ch h') \<longrightarrow> h = h')"

lemma listsD:
  assumes "living_lists st ch"
  shows "distinct (ch h)" "hashed_living st h = hdo (ch h) None" "linked (next_hashed_living st) (ch h) None"
    "x \<in> set (ch h) \<Longrightarrow> x \<in> set (ch h') \<Longrightarrow> h = h'"
  using assms unfolding living_lists_def by blast+

definition place_of :: "nat \<Rightarrow> nat list \<Rightarrow> living_link" where
  "place_of h us = (if us = [] then Bucket h else Next_living (last us))"

lemma lists_take_out:
  assumes l: "living_lists st ch" and h: "ch h = us @ x # vs"
  shows "living_lists (living_set (place_of h us) (next_hashed_living st x) st) (ch(h := us @ vs))"
proof -
  let ?st = "living_set (place_of h us) (next_hashed_living st x) st"
  note d = listsD(1) [OF l, of h, unfolded h] and lk = listsD(3) [OF l, of h, unfolded h]
  have nx: "next_hashed_living st x = hdo vs None" using lk by (simp add: linked_append)
  have "hashed_living ?st g = hdo ((ch(h := us @ vs)) g) None \<and> linked (next_hashed_living ?st) ((ch(h := us @ vs)) g) None" for g
  proof (cases us rule: rev_cases)
    case Nil
    then show ?thesis using listsD(2,3) [OF l] nx lk by (simp add: place_of_def)
  next
    case (snoc us' u)
    have "linked ((next_hashed_living st)(u := next_hashed_living st x)) (us' @ u # vs) None"
      using linked_skip [of "next_hashed_living st" us' u x vs None] lk d snoc by simp
    moreover have "linked ((next_hashed_living st)(u := next_hashed_living st x)) (ch g) None" if "g \<noteq> h"
    proof -
      have "u \<notin> set (ch g)" using listsD(4) [OF l, of u g h] that h snoc by auto
      then show ?thesis using listsD(3) [OF l, of g] by (simp add: linked_other)
    qed
    ultimately show ?thesis using listsD(2) [OF l, of g] h snoc by (simp add: place_of_def hdo_append)
  qed
  moreover have sub: "x \<in> set (ch g)" if "x \<in> set ((ch(h := us @ vs)) g)" for x g using that h by (auto split: if_splits)
  have "g = g'" if "y \<in> set ((ch(h := us @ vs)) g)" "y \<in> set ((ch(h := us @ vs)) g')" for y g g'
    using listsD(4) [OF l sub [OF that(1)] sub [OF that(2)]] .
  moreover have "distinct ((ch(h := us @ vs)) g)" for g using listsD(1) [OF l] d by simp
  ultimately show ?thesis unfolding living_lists_def by blast
qed

lemma lists_push:
  assumes l: "living_lists st ch" and x: "\<forall>g. x \<notin> set (ch g)"
  shows "living_lists (living_push h x st) (ch(h := x # ch h))"
proof -
  let ?n = "(next_hashed_living st)(x := hashed_living st h)"
  have "linked ?n (ch g) None" for g
    using listsD(3) [OF l, of g] x by (simp add: linked_other)
  then show ?thesis using l x unfolding living_lists_def by (auto simp: living_push_def Let_def)
qed

lemma living_set_keeps [simp]:
  "living_name (living_set pp v st) = living_name st" "num_living_names (living_set pp v st) = num_living_names st"
  "living_name (living_push h x st) = living_name st" "num_living_names (living_push h x st) = num_living_names st"
  "living_get pp (living_set pp v st) = v"
  by (cases pp; simp add: living_push_def Let_def)+

lemma lists_simps [simp]: "living_lists (st\<lparr>living_name := f\<rparr>) ch = living_lists st ch" "living_lists (st\<lparr>num_living_names := n\<rparr>) ch = living_lists st ch"
  by (simp_all add: living_lists_def)

lemma lists_next: "living_lists st ch \<Longrightarrow> \<forall>g. x \<notin> set (ch g) \<Longrightarrow> living_lists (st\<lparr>next_hashed_living := (next_hashed_living st)(x := v)\<rparr>) ch"
proof -
  assume l: "living_lists st ch" and x: "\<forall>g. x \<notin> set (ch g)"
  have "linked ((next_hashed_living st)(x := v)) (ch g) None" for g
    using listsD(3) [OF l, of g] x by (simp add: linked_other)
  then show ?thesis using l unfolding living_lists_def by auto
qed

text \<open>The table holds the objects with a name, in the chain of their name.\<close>

definition lchains :: "livings \<Rightarrow> (nat \<Rightarrow> nat list) \<Rightarrow> bool" where
  "lchains st ch \<longleftrightarrow> living_lists st ch \<and> (\<forall>h x. x \<in> set (ch h) \<longleftrightarrow> (\<exists>s. living_name st x = Some s \<and> LivHash s = h)) \<and>
     finite (dom (living_name st)) \<and> num_living_names st = int (card (dom (living_name st)))"

definition livings_ok :: "livings \<Rightarrow> bool" where
  "livings_ok st \<longleftrightarrow> (\<exists>ch. lchains st ch)"

lemma lchainsD:
  assumes "lchains st ch"
  shows "living_lists st ch" "x \<in> set (ch h) \<longleftrightarrow> (\<exists>s. living_name st x = Some s \<and> LivHash s = h)" "finite (dom (living_name st))"
    "num_living_names st = int (card (dom (living_name st)))"
  using assms unfolding lchains_def by blast+

section \<open>Searching\<close>

abbreviation answers :: "world \<Rightarrow> u8 list \<Rightarrow> livings \<Rightarrow> nat \<Rightarrow> bool" where
  "answers w s st x \<equiv> living w x \<and> living_name st x = Some s"

lemma living_search_law:
  assumes "\<forall>x\<in>set (us @ vs). living_name st x \<noteq> None" "\<forall>x\<in>set us. \<not> answers w s st x" "vs \<noteq> [] \<longrightarrow> answers w s st (hd vs)"
    and "linked (next_hashed_living st) (us @ vs) None" "living_get pp st = hdo (us @ vs) None"
  shows "living_search w s pp st = Some (if us = [] then pp else Next_living (last us))"
  using assms
proof (induction us arbitrary: pp)
  case Nil
  then show ?case by (cases vs; subst living_search.simps) auto
next
  case (Cons u us)
  have "living_get (Next_living u) st = hdo (us @ vs) None" using Cons.prems(4) by simp
  with Cons have i: "living_search w s (Next_living u) st = Some (if us = [] then Next_living u else Next_living (last us))" by simp
  obtain t where "living_name st u = Some t" using Cons.prems(1) by auto
  with Cons.prems(2,5) i show ?case by (subst living_search.simps) auto
qed

lemma living_collect_law:
  assumes "\<forall>x\<in>set xs. living_name st x \<noteq> None" "linked (next_hashed_living st) xs None" "living_get pp st = hdo xs None"
  shows "living_collect w s pp st = Some (filter (answers w s st) xs)"
  using assms
proof (induction xs arbitrary: pp)
  case Nil
  then show ?case by (subst living_collect.simps) simp
next
  case (Cons u us)
  have "living_get (Next_living u) st = hdo us None" using Cons.prems(2) by simp
  with Cons have i: "living_collect w s (Next_living u) st = Some (filter (answers w s st) us)" by simp
  obtain t where "living_name st u = Some t" using Cons.prems(1) by auto
  with Cons.prems(3) i show ?case by (subst living_collect.simps) auto
qed

lemma living_locate_law:
  assumes "x \<notin> set us" "linked (next_hashed_living st) (us @ x # vs) None" "living_get pp st = hdo (us @ x # vs) None"
  shows "living_locate x pp st = Some (if us = [] then pp else Next_living (last us))"
  using assms
proof (induction us arbitrary: pp)
  case Nil
  then show ?case by (subst living_locate.simps) simp
next
  case (Cons u us)
  have "living_get (Next_living u) st = hdo (us @ x # vs) None" using Cons.prems(2) by simp
  with Cons have "living_locate x (Next_living u) st = Some (if us = [] then Next_living u else Next_living (last us))" by simp
  with Cons.prems show ?case by (subst living_locate.simps) auto
qed

lemma find_living_law:
  assumes c: "lchains st ch"
  shows "\<exists>st' ch'. find_living_object w s st = Some (List.find (answers w s st) (ch (LivHash s)), st') \<and> lchains st' ch' \<and>
    living_name st' = living_name st \<and>
    ch' (LivHash s) = (case List.find (answers w s st) (ch (LivHash s)) of None \<Rightarrow> ch (LivHash s) | Some x \<Rightarrow> x # remove1 x (ch (LivHash s)))"
proof -
  let ?h = "LivHash s" and ?A = "answers w s st"
  note l = lchainsD(1) [OF c]
  have nm: "\<forall>x\<in>set (ch ?h). living_name st x \<noteq> None" using lchainsD(2) [OF c] by auto
  show ?thesis
  proof (cases "List.find ?A (ch ?h)")
    case None
    then have "\<forall>x\<in>set (ch ?h). \<not> ?A x" by (rule find_none_all)
    then have sr: "living_search w s (Bucket ?h) st = Some (if ch ?h = [] then Bucket ?h else Next_living (last (ch ?h)))"
      using living_search_law [of "ch ?h" "[]" st w s "Bucket ?h"] nm listsD [OF l] by simp
    have "living_get (if ch ?h = [] then Bucket ?h else Next_living (last (ch ?h))) st = None"
      using listsD(2,3) [OF l, of ?h] by (cases "ch ?h" rule: rev_cases) (auto simp: linked_append)
    then have "find_living_object w s st = Some (None, st)" using sr by (simp add: find_living_object_def Let_def)
    then show ?thesis using None c by auto
  next
    case (Some x)
    then obtain us vs where x: "ch ?h = us @ x # vs" "?A x" "\<forall>u\<in>set us. \<not> ?A u" using find_split by fast
    have sr: "living_search w s (Bucket ?h) st = Some (place_of ?h us)"
      using living_search_law [of us "x # vs" st w s "Bucket ?h"] nm listsD [OF l, of ?h] x by (simp add: place_of_def)
    have g: "living_get (place_of ?h us) st = Some x"
      using listsD(2,3) [OF l, of ?h] x(1) by (cases us rule: rev_cases) (auto simp: place_of_def linked_append)
    have rm: "x # remove1 x (ch ?h) = x # us @ vs" using listsD(1) [OF l, of ?h] x(1) by (simp add: remove1_append)
    show ?thesis
    proof (cases "us = []")
      case True
      then have "find_living_object w s st = Some (Some x, st)" using sr g by (simp add: find_living_object_def Let_def place_of_def)
      then show ?thesis using Some c x(1) True by auto
    next
      case False
      let ?st = "living_push ?h x (living_set (place_of ?h us) (next_hashed_living st x) st)"
      let ?ch = "ch(?h := x # us @ vs)"
      have "place_of ?h us \<noteq> Bucket ?h" using False by (simp add: place_of_def)
      then have f: "find_living_object w s st = Some (Some x, ?st)" using sr g by (simp add: find_living_object_def Let_def)
      have "x \<notin> set ((ch(?h := us @ vs)) g)" for g
        using listsD(1) [OF l, of ?h] listsD(4) [OF l, of x ?h g] x(1) by auto
      then have "living_lists ?st ?ch" using lists_push [OF lists_take_out [OF l x(1)], of x ?h] by simp
      moreover have "set (?ch h) = set (ch h)" for h using x(1) by auto
      ultimately have "lchains ?st ?ch" using c unfolding lchains_def by simp
      then show ?thesis using f Some rm by (intro exI [of _ ?st] exI [of _ ?ch]) simp
    qed
  qed
qed

section \<open>Naming\<close>

lemma remove_living_law:
  assumes c: "lchains st ch" and n: "living_name st ob = Some s"
  shows "\<exists>st' ch'. remove_living_name ob st = Some st' \<and> lchains st' ch' \<and> living_name st' = (living_name st)(ob := None)"
proof -
  let ?h = "LivHash s" and ?base = "st\<lparr>num_living_names := num_living_names st - 1\<rparr>"
  note l = lchainsD(1) [OF c]
  have "ob \<in> set (ch ?h)" using lchainsD(2) [OF c] n by auto
  then obtain us vs where x: "ch ?h = us @ ob # vs" by (meson split_list)
  note d = listsD(1) [OF l, of ?h, unfolded x]
  have lo: "living_locate ob (Bucket ?h) ?base = Some (place_of ?h us)"
    using living_locate_law [of ob us ?base vs "Bucket ?h"] listsD [OF l, of ?h] x d by (simp add: place_of_def)
  have g: "living_get (place_of ?h us) ?base = Some ob"
    using listsD(2,3) [OF l, of ?h] x by (cases us rule: rev_cases) (auto simp: place_of_def linked_append)
  let ?st1 = "living_set (place_of ?h us) (next_hashed_living ?base ob) ?base" and ?ch = "ch(?h := us @ vs)"
  let ?st = "?st1\<lparr>next_hashed_living := (next_hashed_living ?st1)(ob := None), living_name := (living_name ?st1)(ob := None)\<rparr>"
  have r: "remove_living_name ob st = Some ?st" using lo g n by (simp add: remove_living_name_def Let_def)
  have "living_lists ?base ch" using l by simp
  from lists_take_out [OF this x] have "living_lists ?st1 ?ch" .
  moreover have no: "ob \<notin> set (?ch g)" for g using d listsD(4) [OF l, of ob ?h g] x by auto
  ultimately have ls: "living_lists ?st ?ch" using lists_next [of ?st1 ?ch ob None] by simp
  have nm: "living_name ?st = (living_name st)(ob := None)" by simp
  have "x \<in> set (?ch h) \<longleftrightarrow> (\<exists>s. living_name ?st x = Some s \<and> LivHash s = h)" for h x
  proof (cases "x = ob")
    case False
    then have "x \<in> set (?ch h) \<longleftrightarrow> x \<in> set (ch h)" using \<open>ch ?h = us @ ob # vs\<close> by auto
    then show ?thesis using False lchainsD(2) [OF c, of x h] by simp
  qed (use no in simp)
  moreover have "num_living_names ?st = int (card (dom (living_name st) - {ob}))"
  proof -
    have "num_living_names ?st = num_living_names st - 1" by simp
    moreover have "Suc (card (dom (living_name st) - {ob})) = card (dom (living_name st))"
      by (rule card_Suc_Diff1 [OF lchainsD(3) [OF c]]) (use n in auto)
    ultimately show ?thesis using lchainsD(4) [OF c] by linarith
  qed
  ultimately have "lchains ?st ?ch" using ls lchainsD(3) [OF c] unfolding lchains_def nm by (simp add: dom_fun_upd)
  then show ?thesis using r nm by blast
qed

lemma set_living_law:
  assumes c: "lchains st ch" and a: "\<not> dead w ob"
  shows "\<exists>st' ch'. set_living_name w ob s st = Some st' \<and> lchains st' ch' \<and>
    living_name st' = (living_name st)(ob := if s = [] then None else Some s)"
proof -
  obtain st1 ch1 where 1: "(if living_name st ob \<noteq> None then remove_living_name ob st else Some st) = Some st1" "lchains st1 ch1"
    "living_name st1 = (living_name st)(ob := None)"
  proof (cases "living_name st ob")
    case None
    then have "(living_name st)(ob := None) = living_name st" by auto
    with None c that show thesis by simp
  next
    case (Some t)
    from remove_living_law [OF c Some] Some that show thesis by auto
  qed
  show ?thesis
  proof (cases "s = []")
    case True
    then show ?thesis using 1 a by (auto simp: set_living_name_def)
  next
    case False
    let ?h = "LivHash s" and ?base = "st1\<lparr>num_living_names := num_living_names st1 + 1\<rparr>"
    let ?st = "(living_push ?h ob ?base)\<lparr>living_name := (living_name (living_push ?h ob ?base))(ob \<mapsto> s)\<rparr>"
    let ?ch = "ch1(?h := ob # ch1 ?h)"
    have st: "set_living_name w ob s st = Some ?st" using 1(1) a False by (simp add: set_living_name_def Let_def)
    have no: "ob \<notin> set (ch1 g)" for g using lchainsD(2) [OF 1(2), of ob g] 1(3) by simp
    have "living_lists ?base ch1" using lchainsD(1) [OF 1(2)] by simp
    from lists_push [OF this, of ob ?h] no have "living_lists (living_push ?h ob ?base) ?ch" by blast
    then have ls: "living_lists ?st ?ch" unfolding lists_simps .
    have nm: "living_name ?st = (living_name st)(ob \<mapsto> s)" using 1(3) by simp
    have "x \<in> set (?ch h) \<longleftrightarrow> (\<exists>s. living_name ?st x = Some s \<and> LivHash s = h)" for h x
      using no [of h] lchainsD(2) [OF 1(2), of x h] 1(3) unfolding nm by (auto split: if_splits)
    moreover have "dom (living_name ?st) = insert ob (dom (living_name st1))" using 1(3) nm by auto
    moreover have "ob \<notin> dom (living_name st1)" using 1(3) by auto
    ultimately have "lchains ?st ?ch" using ls lchainsD(3,4) [OF 1(2)] unfolding lchains_def by simp
    then show ?thesis using st nm False by auto
  qed
qed

section \<open>The table as a relation between names and objects\<close>

text \<open>C16. The table of living objects: an object that is given a name has it until it gets another one or loses it, and no other
  object is affected; a destructed object is given none.  A search finds an object that can take commands and has the name whenever there is one, and
  finds it again next time.  The list of all objects that can take commands and have a name is complete and has none twice, unless there are more
  than 5000 of them, which is the error \<^emph>\<open>Illegal array size\<close>.  No operation breaks the chains.\<close>

theorem living_names_refine:
  assumes "livings_ok st"
  shows "(\<exists>st'. set_living_name w ob s st = Some st' \<and> livings_ok st' \<and>
       (if dead w ob then st' = st else living_name st' = (living_name st)(ob := if s = [] then None else Some s))) \<and>
    (living_name st ob \<noteq> None \<longrightarrow> (\<exists>st'. remove_living_name ob st = Some st' \<and> livings_ok st' \<and>
       living_name st' = (living_name st)(ob := None))) \<and>
    (\<exists>r st'. find_living_object w s st = Some (r, st') \<and> livings_ok st' \<and> living_name st' = living_name st \<and>
       (case r of None \<Rightarrow> \<forall>x. \<not> answers w s st x
        | Some x \<Rightarrow> answers w s st x \<and> (\<exists>st''. find_living_object w s st' = Some (r, st'')))) \<and>
    (if card {x. answers w s st x} \<le> MAX_ARRAY_SIZE
     then \<exists>xs. find_living_objects w s st = Some (Inr (map T_OBJECT xs)) \<and> distinct xs \<and> set xs = {x. answers w s st x}
     else find_living_objects w s st = Some (Inl Illegal_array_size))"
proof -
  from assms obtain ch where c: "lchains st ch" by (auto simp: livings_ok_def)
  note l = lchainsD(1) [OF c]
  let ?h = "LivHash s"
  have all: "answers w s st x \<Longrightarrow> x \<in> set (ch ?h)" for x using lchainsD(2) [OF c, of x ?h] by auto
  have 1: "\<exists>st'. set_living_name w ob s st = Some st' \<and> livings_ok st' \<and>
       (if dead w ob then st' = st else living_name st' = (living_name st)(ob := if s = [] then None else Some s))"
    using set_living_law [OF c, of w ob s] assms by (cases "dead w ob") (auto simp: livings_ok_def set_living_name_def)
  have 2: "\<exists>st'. remove_living_name ob st = Some st' \<and> livings_ok st' \<and> living_name st' = (living_name st)(ob := None)"
    if "living_name st ob \<noteq> None" using remove_living_law [OF c, of ob] that by (auto simp: livings_ok_def)
  let ?r = "List.find (answers w s st) (ch ?h)"
  from find_living_law [OF c, of w s] obtain st' ch' where f: "find_living_object w s st = Some (?r, st')" "lchains st' ch'"
    "living_name st' = living_name st" "ch' ?h = (case ?r of None \<Rightarrow> ch ?h | Some x \<Rightarrow> x # remove1 x (ch ?h))" by blast
  have 3: "\<forall>x. \<not> answers w s st x" if "?r = None" using find_none_all [OF that] all by blast
  have 4: "answers w s st x \<and> (\<exists>st''. find_living_object w s st' = Some (?r, st''))" if r: "?r = Some x" for x
  proof -
    have x: "answers w s st x" using find_split [OF r] by blast
    then have "List.find (answers w s st') (ch' ?h) = Some x" using f(3,4) r by simp
    with find_living_law [OF f(2), of w s] x r show ?thesis by auto
  qed
  have fs: "set (filter (answers w s st) (ch ?h)) = {x. answers w s st x}" using all by auto
  have d: "distinct (filter (answers w s st) (ch ?h))" using listsD(1) [OF l, of ?h] by simp
  have nm: "\<forall>x\<in>set (ch ?h). living_name st x \<noteq> None" using lchainsD(2) [OF c] by auto
  have co: "living_collect w s (Bucket ?h) st = Some (filter (answers w s st) (ch ?h))"
    using living_collect_law [OF nm listsD(3) [OF l], of "Bucket ?h" w s] listsD(2) [OF l, of ?h] by simp
  have 5: "find_living_objects w s st = Some (Inr (map T_OBJECT (filter (answers w s st) (ch ?h))))"
    if "card {x. answers w s st x} \<le> MAX_ARRAY_SIZE"
    using co that distinct_card [OF d] unfolding fs by (simp add: find_living_objects_def allocate_check_def)
  have 6: "\<exists>r st'. find_living_object w s st = Some (r, st') \<and> livings_ok st' \<and> living_name st' = living_name st \<and>
       (case r of None \<Rightarrow> \<forall>x. \<not> answers w s st x
        | Some x \<Rightarrow> answers w s st x \<and> (\<exists>st''. find_living_object w s st' = Some (r, st'')))"
  proof (cases ?r)
    case None
    then show ?thesis using f(1,2,3) 3 unfolding livings_ok_def by auto
  next
    case (Some x)
    show ?thesis by (rule exI [of _ ?r], rule exI [of _ st']) (use f(1,2,3) 4 [OF Some] Some in \<open>auto simp: livings_ok_def\<close>)
  qed
  have 8: "find_living_objects w s st = Some (Inl Illegal_array_size)" if "\<not> card {x. answers w s st x} \<le> MAX_ARRAY_SIZE"
    using co that distinct_card [OF d] unfolding fs by (simp add: find_living_objects_def allocate_check_def)
  have 7: "\<exists>xs. find_living_objects w s st = Some (Inr (map T_OBJECT xs)) \<and> distinct xs \<and> set xs = {x. answers w s st x}"
    if "card {x. answers w s st x} \<le> MAX_ARRAY_SIZE" using 5 [OF that] d fs by blast
  have 9: "if card {x. answers w s st x} \<le> MAX_ARRAY_SIZE
     then \<exists>xs. find_living_objects w s st = Some (Inr (map T_OBJECT xs)) \<and> distinct xs \<and> set xs = {x. answers w s st x}
     else find_living_objects w s st = Some (Inl Illegal_array_size)" using 7 8 by (auto simp del: ex_simps)
  from 2 have "living_name st ob \<noteq> None \<longrightarrow> (\<exists>st'. remove_living_name ob st = Some st' \<and> livings_ok st' \<and>
       living_name st' = (living_name st)(ob := None))" by (rule impI)
  from conjI [OF 1 conjI [OF this conjI [OF 6 9]]] show ?thesis .
qed

definition new_livings :: livings where
  "new_livings = \<lparr>hashed_living = (\<lambda>_. None), next_hashed_living = (\<lambda>_. None), living_name = (\<lambda>_. None), num_living_names = 0\<rparr>"

lemma new_livings_ok: "livings_ok new_livings"
proof -
  have "lchains new_livings (\<lambda>_. [])" by (simp add: lchains_def living_lists_def new_livings_def)
  then show ?thesis by (auto simp: livings_ok_def)
qed

theorem living_names_refine_witness:
  "\<exists>st'. set_living_name demo_world 8 [98, 111, 98] new_livings = Some st' \<and> livings_ok st' \<and> living_name st' = [8 \<mapsto> [98, 111, 98]]"
  using living_names_refine [OF new_livings_ok, of demo_world 8 "[98, 111, 98]"]
  by (simp add: demo_world_def dead_def has_flag_def O_DESTRUCTED_def new_livings_def)

end
