(* ===== verification/Destruct.thy ===== *)
theory Destruct
  imports Living Call_Out
begin

text \<open>
  Destruction of objects (\<^verbatim>\<open>destruct_object\<close> of \<^verbatim>\<open>src/simulate.c\<close>), which takes an object out of everything that knows it: the
  objects that shadow it, the inventories, the list of all objects, the alarms, the table of names and that of living names.

  The parts are those of the theories \<open>Environment\<close>, \<open>Otable\<close>, \<open>Call_Out\<close> and \<open>Living\<close>; the list of all objects is a doubly linked
  ring.  What LPC code does when the driver calls it is the parameter \<open>g_call\<close>, which may change everything; \<open>Raised\<close> is an
  error that unwinds the driver too, \<^const>\<open>None\<close> that it never returns, or that something it does makes the driver call \<^verbatim>\<open>fatal()\<close>.  Loading a new copy of a resident object and exchanging the two, and what is closed with the
  connection of a player, are parameters as well.  \<^const>\<open>None\<close> is a call of \<^verbatim>\<open>fatal()\<close>, an access through a null pointer, a list that
  does not end, or a recursion deeper than the bound \<open>n\<close>, for the stack of the process.  Reference counts are left out.
\<close>

unbundle bit_operations_syntax

section \<open>The state of the driver\<close>

definition O_CREATED :: u16 where "O_CREATED = 0x02"
definition O_CLONE :: u16 where "O_CLONE = 0x08"

record driver =
  d_world :: world
  d_shadowed :: "nat \<Rightarrow> nat option"
  d_names :: otable
  d_alarms :: co_state
  d_livings :: livings
  next_all :: "nat \<Rightarrow> nat option"
  prev_all :: "nat \<Rightarrow> nat option"
  obj_list :: "nat option"
  obj_list_destruct :: "nat option"
  swap_ob :: "nat option"
  vbfc_object :: "nat option"
  d_reserved :: "nat set"
  d_interactive :: "nat \<Rightarrow> bool"
  d_stack :: "sval list"

text \<open>
  The calls of LPC code: the functions of the master object, saving the editor of a player, closing the connection, and the
  destructor of an inherited program.  \<open>g_inherit\<close> says of the programs of an object whether they are inherited a second time and
  what the index of their destructor is; \<open>d_reserved\<close> holds the master, the auto and the simul-efun object.
\<close>

datatype event =
    Destructed_object nat
  | Destruct_environment_of nat
  | Save_editor nat
  | Remove_interactive nat
  | Destructor nat nat
  | Get_vbfc_object

datatype reply = Raised | Answer "sval option"

record lpc_env =
  g_call :: "event \<Rightarrow> driver \<Rightarrow> (reply \<times> driver) option"
  g_resident :: "nat \<Rightarrow> bool"
  g_reload :: "nat \<Rightarrow> driver \<Rightarrow> (nat \<times> driver) option"
  g_inherit :: "nat \<Rightarrow> (bool \<times> u16) list"
  g_editing :: "nat \<Rightarrow> bool"

abbreviation gone_already :: "driver \<Rightarrow> nat \<Rightarrow> bool" where
  "gone_already d ob \<equiv> dead (d_world d) ob"

section \<open>Steps\<close>

definition essential :: "lpc_env \<Rightarrow> driver \<Rightarrow> nat \<Rightarrow> bool" where
  "essential E d ob \<longleftrightarrow> \<not> has_flag (w_flags (d_world d) ob) O_CLONE \<and> g_resident E ob \<or> ob \<in> d_reserved d"

definition set_shadowing :: "nat \<Rightarrow> nat option \<Rightarrow> driver \<Rightarrow> driver" where
  "set_shadowing x v d = d\<lparr>d_world := (d_world d)\<lparr>w_shadowing := (w_shadowing (d_world d))(x := v)\<rparr>\<rparr>"

definition set_shadowed :: "nat \<Rightarrow> nat option \<Rightarrow> driver \<Rightarrow> driver" where
  "set_shadowed x v d = d\<lparr>d_shadowed := (d_shadowed d)(x := v)\<rparr>"

definition unshadow :: "nat \<Rightarrow> driver \<Rightarrow> driver" where
  "unshadow ob d =
     (let d = (case w_shadowing (d_world d) ob of None \<Rightarrow> d | Some s \<Rightarrow> set_shadowed s (d_shadowed d ob) d);
          d = (case d_shadowed d ob of None \<Rightarrow> d | Some s \<Rightarrow> set_shadowing s (w_shadowing (d_world d) ob) d)
      in set_shadowed ob None (set_shadowing ob None d))"

text \<open>The player of the object is disconnected; the first component is the result when \<^verbatim>\<open>destruct_object\<close> ends here.\<close>

definition set_giver :: "nat option \<Rightarrow> driver \<Rightarrow> driver" where
  "set_giver c d = d\<lparr>d_world := (d_world d)\<lparr>command_giver := c\<rparr>\<rparr>"

definition leave_game :: "lpc_env \<Rightarrow> nat \<Rightarrow> driver \<Rightarrow> (bool option \<times> driver) option" where
  "leave_game E ob d =
     (if \<not> d_interactive d ob then Some (None, d)
      else do {
        let save = command_giver (d_world d);
        (r, d) \<leftarrow> (if g_editing E ob then g_call E (Save_editor ob) (set_giver (Some ob) d) else Some (Answer None, d));
        (if r = Raised then Some (Some True, d)
         else do {
           (r, d) \<leftarrow> g_call E (Remove_interactive ob) (set_giver save d);
           Some (if r = Raised then (Some True, d) else if gone_already d ob then (Some False, d) else (None, d)) }) })"

partial_function (option) leave_loop :: "nat \<Rightarrow> link \<Rightarrow> world \<Rightarrow> world option" where
  "leave_loop ob pp w =
     (case get_link pp (w_inv w) of
        None \<Rightarrow> Some w
      | Some x \<Rightarrow>
          let w = (if living w x then remove_sent ob x w else w)
          in if x \<noteq> ob then leave_loop ob (Next_inv x) w
             else leave_loop ob pp (w\<lparr>w_inv := set_link pp (ob_next_inv (w_inv w) x) (w_inv w)\<rparr>))"

definition leave_super :: "nat \<Rightarrow> driver \<Rightarrow> driver option" where
  "leave_super ob d =
     (case w_super (d_world d) ob of
        None \<Rightarrow> Some d
      | Some env \<Rightarrow>
          (let w = d_world d; w = (if living w env then remove_sent ob env w else w)
           in map_option (\<lambda>w. d\<lparr>d_world := w\<rparr>) (leave_loop ob (Contains env) w)))"

text \<open>The destructors of the inherited programs, the last one first.  An error in one of them is caught.\<close>

fun run_destructors :: "lpc_env \<Rightarrow> nat \<Rightarrow> nat \<Rightarrow> driver \<Rightarrow> (bool option \<times> driver) option" where
  "run_destructors E ob 0 d = Some (None, d)"
| "run_destructors E ob (Suc i) d =
     (let (second, dtor_index) = g_inherit E ob ! i
      in if second \<or> dtor_index = 0xffff then run_destructors E ob i d
         else do {
           (r, d) \<leftarrow> g_call E (Destructor ob i) d;
           (if r \<noteq> Raised \<and> gone_already d ob then Some (Some False, d) else run_destructors E ob i d) })"

definition call_destructors :: "lpc_env \<Rightarrow> nat \<Rightarrow> driver \<Rightarrow> (bool option \<times> driver) option" where
  "call_destructors E ob d =
     (if has_flag (w_flags (d_world d) ob) O_CREATED then run_destructors E ob (length (g_inherit E ob)) d else Some (None, d))"

definition remove_object_from_stack :: "nat \<Rightarrow> driver \<Rightarrow> driver" where
  "remove_object_from_stack ob d = d\<lparr>d_stack := map (\<lambda>v. if v = T_OBJECT ob then const0 else v) (d_stack d)\<rparr>"

text \<open>The object leaves the ring of all objects.\<close>

definition remove_from_list :: "nat \<Rightarrow> driver \<Rightarrow> driver option" where
  "remove_from_list ob d = do {
     let d = (if swap_ob d = Some ob then d\<lparr>swap_ob := prev_all d ob\<rparr> else d);
     let d = (if obj_list d = Some ob then d\<lparr>obj_list := next_all d ob\<rparr> else d);
     p \<leftarrow> prev_all d ob;
     let d = d\<lparr>next_all := (next_all d)(p := next_all d ob)\<rparr>;
     nx \<leftarrow> next_all d ob;
     let d = d\<lparr>prev_all := (prev_all d)(nx := prev_all d ob)\<rparr>;
     Some (if next_all d ob = Some ob then d\<lparr>swap_ob := None, obj_list := None\<rparr> else d) }"

text \<open>It leaves the alarms and the tables of names, and the list of the objects to be freed gets it.\<close>

definition remove_from_tables :: "nat \<Rightarrow> driver \<Rightarrow> driver option" where
  "remove_from_tables ob d = do {
     a \<leftarrow> delete_all_calls ob (d_alarms d);
     r \<leftarrow> remove_object_hash ob (d_names d);
     (case r of
        Inl _ \<Rightarrow> None
      | Inr t \<Rightarrow> do {
          l \<leftarrow> (if living_name (d_livings d) ob \<noteq> None then remove_living_name ob (d_livings d) else Some (d_livings d));
          Some (d\<lparr>d_alarms := a, d_names := t, d_livings := l\<rparr>) }) }"

definition bury :: "nat \<Rightarrow> driver \<Rightarrow> driver" where
  "bury ob d =
     (let w = d_world d; s = w_inv w;
          s = s\<lparr>ob_next_inv := (ob_next_inv s)(ob := None), ob_contains := (ob_contains s)(ob := None)\<rparr>;
          w = w\<lparr>w_inv := s, w_super := (w_super w)(ob := None),
                w_flags := (w_flags w)(ob := w_flags w ob AND NOT O_ENABLE_COMMANDS OR O_DESTRUCTED)\<rparr>
      in d\<lparr>d_world := w, next_all := (next_all d)(ob := obj_list_destruct d), prev_all := (prev_all d)(ob := None),
           obj_list_destruct := Some ob\<rparr>)"

definition new_vbfc :: "lpc_env \<Rightarrow> nat \<Rightarrow> driver \<Rightarrow> (bool \<times> driver) option" where
  "new_vbfc E ob d =
     (if vbfc_object d \<noteq> Some ob then Some (False, d)
      else map_option (\<lambda>(r, d). case r of
               Raised \<Rightarrow> (True, d)
             | Answer (Some (T_OBJECT x)) \<Rightarrow> (False, d\<lparr>vbfc_object := Some x\<rparr>)
             | Answer _ \<Rightarrow> (False, d))
             (g_call E Get_vbfc_object (d\<lparr>vbfc_object := None\<rparr>)))"

text \<open>The part of \<^verbatim>\<open>destruct_object\<close> after the objects inside are gone.\<close>

definition destruct_rest :: "lpc_env \<Rightarrow> nat \<Rightarrow> driver \<Rightarrow> (bool \<times> driver) option" where
  "destruct_rest E ob d = do {
     (stop, d) \<leftarrow> leave_game E ob d;
     (case stop of
        Some r \<Rightarrow> Some (r, d)
      | None \<Rightarrow> do {
          d \<leftarrow> leave_super ob d;
          (stop, d) \<leftarrow> call_destructors E ob d;
          (case stop of
             Some r \<Rightarrow> Some (r, d)
           | None \<Rightarrow> do {
               d \<leftarrow> remove_from_list ob (remove_object_from_stack ob d);
               d \<leftarrow> remove_from_tables ob d;
               new_vbfc E ob (bury ob d) }) }) }"

section \<open>The recursion\<close>

text \<open>
  The function itself, its loop over the objects that shadow, and its loop over the objects inside.  The result of \<^verbatim>\<open>destruct_object\<close>
  is whether an error unwinds it.
\<close>

fun destruct_object :: "nat \<Rightarrow> lpc_env \<Rightarrow> nat option \<Rightarrow> driver \<Rightarrow> (bool \<times> driver) option"
  and destruct_shadows :: "nat \<Rightarrow> lpc_env \<Rightarrow> nat \<Rightarrow> nat option \<Rightarrow> driver \<Rightarrow> (bool option \<times> driver) option"
  and destruct_inside :: "nat \<Rightarrow> lpc_env \<Rightarrow> nat \<Rightarrow> driver \<Rightarrow> (bool option \<times> driver) option"
where
  "destruct_object 0 E ob d = None"
| "destruct_object (Suc n) E ob d =
     (case ob of
        None \<Rightarrow> Some (False, d)
      | Some x \<Rightarrow>
          if gone_already d x then Some (False, d)
          else case (if essential E d x then g_reload E x d else Some (x, d)) of
                 None \<Rightarrow> Some (True, d)
               | Some (x, d) \<Rightarrow>
                   do {
                     (r, d) \<leftarrow> g_call E (Destructed_object x) d;
                     (if r = Raised then Some (True, d)
                      else if gone_already d x then Some (False, d)
                      else do {
                        (stop, d) \<leftarrow> (if d_shadowed d x \<noteq> None \<and> w_shadowing (d_world d) x = None
                                     then destruct_shadows n E x (d_shadowed d x) d else Some (None, d));
                        (case stop of
                           Some r \<Rightarrow> Some (r, d)
                         | None \<Rightarrow> do {
                             (stop, d) \<leftarrow> destruct_inside n E x (unshadow x d);
                             (case stop of Some r \<Rightarrow> Some (r, d) | None \<Rightarrow> destruct_rest E x d) }) }) })"
| "destruct_shadows 0 E ob ob2 d = None"
| "destruct_shadows (Suc n) E ob ob2 d =
     (case ob2 of
        None \<Rightarrow> Some (None, d)
      | Some s \<Rightarrow>
          (let ob2 = d_shadowed d s
           in do {
             (err, d) \<leftarrow> destruct_object n E ob2 (set_shadowing s None (set_shadowed s None d));
             (if err then Some (Some True, d)
              else if gone_already d ob then Some (Some False, d)
              else destruct_shadows n E ob ob2 d) }))"
| "destruct_inside 0 E ob d = None"
| "destruct_inside (Suc n) E ob d =
     (case ob_contains (w_inv (d_world d)) ob of
        None \<Rightarrow> Some (None, d)
      | Some x \<Rightarrow>
          do {
            (r, d) \<leftarrow> g_call E (Destruct_environment_of x) d;
            (if r = Raised then Some (Some True, d)
             else do {
               (err, d) \<leftarrow> (if ob_contains (w_inv (d_world d)) ob = Some x then destruct_object n E (Some x) d else Some (False, d));
               (if err then Some (Some True, d)
                else if gone_already d ob then Some (Some False, d)
                else destruct_inside n E ob d) }) })"

section \<open>Rings\<close>

text \<open>A doubly linked ring, cut open in front of its first element.\<close>

definition ring :: "(nat \<Rightarrow> nat option) \<Rightarrow> (nat \<Rightarrow> nat option) \<Rightarrow> nat list \<Rightarrow> bool" where
  "ring prv nxt xs \<longleftrightarrow> dlist prv nxt (lasto None xs) xs (hdo xs None)"

lemma ring_rotate: "ring prv nxt (us @ vs) \<longleftrightarrow> ring prv nxt (vs @ us)"
  by (cases us rule: rev_cases; cases vs rule: rev_cases) (auto simp: ring_def dlist_append hdo_append lasto_append)

lemma ring_remove_head:
  assumes r: "ring prv nxt (x # ys)" and d: "distinct (x # ys)" and ne: "ys \<noteq> []"
  shows "prv x = Some (last ys)" "nxt x = Some (hd ys)" "ring (prv(hd ys := Some (last ys))) (nxt(last ys := Some (hd ys))) ys"
proof -
  obtain y zs where y: "ys = y # zs" using ne by (cases ys) auto
  have p: "lasto None (x # ys) = Some (last ys)" using ne by (cases ys rule: rev_cases) simp_all
  have l: "prv x = Some (last ys)" "nxt x = Some y" "dlist prv nxt (Some x) ys (Some x)"
    using r p y by (simp_all add: ring_def)
  then show "prv x = Some (last ys)" "nxt x = Some (hd ys)" using y by simp_all
  have "dlist (prv(y := Some (last ys))) (nxt(last ys := Some y)) (Some (last ys)) ys (Some y)"
  proof (cases zs rule: rev_cases)
    case Nil
    then show ?thesis using l y by simp
  next
    case (snoc ws z)
    have "z \<noteq> y" "z \<notin> set ws" "y \<notin> set ws" using d y snoc by auto
    moreover have "dlist (prv(y := Some z)) (nxt(z := Some y)) (Some y) ws (Some z) = dlist prv nxt (Some y) ws (Some z)"
      using calculation by (intro dlist_cong) auto
    ultimately show ?thesis using l y snoc by (simp add: dlist_append hdo_append)
  qed
  moreover have "lasto None ys = Some (last ys)" using ne by (cases ys rule: rev_cases) simp_all
  ultimately show "ring (prv(hd ys := Some (last ys))) (nxt(last ys := Some (hd ys))) ys" using y by (simp add: ring_def)
qed

lemma ring_cong: "(\<And>x. x \<in> set xs \<Longrightarrow> prv' x = prv x \<and> nxt' x = nxt x) \<Longrightarrow> ring prv' nxt' xs = ring prv nxt xs"
  unfolding ring_def by (rule dlist_cong) blast

text \<open>Any element can be taken out of a ring.\<close>

lemma ring_remove:
  assumes r: "ring prv nxt (us @ x # vs)" and d: "distinct (us @ x # vs)" and ne: "us @ vs \<noteq> []"
  shows "\<exists>p n. prv x = Some p \<and> nxt x = Some n \<and> p \<in> set (us @ vs) \<and> n \<in> set (us @ vs) \<and>
    ring (prv(n := Some p)) (nxt(p := Some n)) (us @ vs) \<and> (us = [] \<longrightarrow> n = hd vs)"
proof -
  have r1: "ring prv nxt (x # (vs @ us))" using r ring_rotate [of prv nxt us "x # vs"] by simp
  have d1: "distinct (x # (vs @ us))" "vs @ us \<noteq> []" using d ne by auto
  note h = ring_remove_head [OF r1 d1]
  have "last (vs @ us) \<in> set (vs @ us)" "hd (vs @ us) \<in> set (vs @ us)" using d1(2) by (meson last_in_set hd_in_set)+
  then show ?thesis using h ring_rotate [of _ _ vs us] by (intro exI [of _ "last (vs @ us)"] exI [of _ "hd (vs @ us)"]) auto
qed

section \<open>The invariant\<close>

text \<open>
  The objects that exist are \<open>xs\<close>, in the ring of all objects, with their names in the table; \<open>ys\<close> are those that wait to be freed.
\<close>

definition driver_ok :: "driver \<Rightarrow> nat list \<Rightarrow> nat list \<Rightarrow> bool" where
  "driver_ok d xs ys \<longleftrightarrow> winv (d_world d) \<and> oinv (d_names d) \<and> co_inv (d_alarms d) \<and> livings_ok (d_livings d) \<and>
     distinct xs \<and> ring (prev_all d) (next_all d) xs \<and> obj_list d = hdo xs None \<and>
     linked (next_all d) ys None \<and> obj_list_destruct d = hdo ys None \<and> set xs \<inter> set ys = {} \<and>
     (\<forall>x\<in>set xs. \<not> gone_already d x \<and> olook (d_names d) (ob_name (d_names d) x) = Some x) \<and>
     (\<forall>x y. w_super (d_world d) x = Some y \<longrightarrow> x \<in> set xs \<and> y \<in> set xs)"

lemma driver_okD:
  assumes "driver_ok d xs ys"
  shows "winv (d_world d)" "oinv (d_names d)" "co_inv (d_alarms d)" "livings_ok (d_livings d)" "distinct xs"
    "ring (prev_all d) (next_all d) xs" "obj_list d = hdo xs None" "linked (next_all d) ys None" "obj_list_destruct d = hdo ys None"
    "set xs \<inter> set ys = {}" "x \<in> set xs \<Longrightarrow> \<not> gone_already d x"
    "x \<in> set xs \<Longrightarrow> olook (d_names d) (ob_name (d_names d) x) = Some x" "w_super (d_world d) x = Some y \<Longrightarrow> x \<in> set xs \<and> y \<in> set xs"
  using assms unfolding driver_ok_def by blast+

abbreviation inv_list :: "driver \<Rightarrow> nat \<Rightarrow> nat list" where
  "inv_list d \<equiv> inv_of (w_inv (d_world d))"

text \<open>The objects of \<open>D\<close> are gone, and nothing else has changed in the tables.\<close>

definition without_objects :: "nat set \<Rightarrow> driver \<Rightarrow> driver \<Rightarrow> bool" where
  "without_objects D d d' \<longleftrightarrow>
     (\<forall>e. inv_list d' e = (if e \<in> D then [] else filter (\<lambda>y. y \<notin> D) (inv_list d e))) \<and>
     w_super (d_world d') = (\<lambda>y. if y \<in> D then None else w_super (d_world d) y) \<and>
     w_flags (d_world d') = (\<lambda>y. if y \<in> D then w_flags (d_world d) y AND NOT O_ENABLE_COMMANDS OR O_DESTRUCTED else w_flags (d_world d) y) \<and>
     w_shadowing (d_world d') = w_shadowing (d_world d) \<and> d_shadowed d' = d_shadowed d \<and> d_reserved d' = d_reserved d \<and>
     ob_name (d_names d') = ob_name (d_names d) \<and>
     olook (d_names d') = (\<lambda>s. case olook (d_names d) s of None \<Rightarrow> None | Some y \<Rightarrow> if y \<in> D then None else Some y) \<and>
     co_calls (d_alarms d') = (\<lambda>y. if y \<in> D then [] else co_calls (d_alarms d) y) \<and>
     living_name (d_livings d') = (\<lambda>y. if y \<in> D then None else living_name (d_livings d) y)"

lemma without_trans:
  assumes "without_objects S d d1" "without_objects D d1 d2" "S \<inter> D = {}"
  shows "without_objects (S \<union> D) d d2"
proof -
  have "olook (d_names d2) s = (case olook (d_names d) s of None \<Rightarrow> None | Some y \<Rightarrow> if y \<in> S \<union> D then None else Some y)" for s
    using assms(1,2) unfolding without_objects_def by (simp split: option.splits)
  moreover have "inv_list d2 e = (if e \<in> S \<union> D then [] else filter (\<lambda>y. y \<notin> S \<union> D) (inv_list d e))" for e
    using assms(1,2) unfolding without_objects_def by (auto intro!: filter_cong)
  moreover have "w_flags (d_world d2) y = (if y \<in> S \<union> D then w_flags (d_world d) y AND NOT O_ENABLE_COMMANDS OR O_DESTRUCTED else w_flags (d_world d) y)" for y
    using assms unfolding without_objects_def by auto
  ultimately show ?thesis using assms(1,2) unfolding without_objects_def by (simp add: fun_eq_iff)
qed

lemma without_dead: "without_objects D d d' \<Longrightarrow> gone_already d' x \<longleftrightarrow> x \<in> D \<or> gone_already d x"
  by (simp add: without_objects_def dead_def has_flag_or has_flag_def O_DESTRUCTED_def bit.conj_disj_distrib2 or_eq_0_iff)

section \<open>Calls that change nothing\<close>

text \<open>LPC code that may change its variables, commands and the stack, but moves, makes and destructs no objects.\<close>

definition same_tables :: "driver \<Rightarrow> driver \<Rightarrow> bool" where
  "same_tables d d' \<longleftrightarrow> same_place (d_world d) (d_world d') \<and> w_shadowing (d_world d') = w_shadowing (d_world d) \<and>
     d_shadowed d' = d_shadowed d \<and> d_reserved d' = d_reserved d \<and> d_names d' = d_names d \<and> d_alarms d' = d_alarms d \<and>
     d_livings d' = d_livings d \<and> next_all d' = next_all d \<and> prev_all d' = prev_all d \<and> obj_list d' = obj_list d \<and>
     obj_list_destruct d' = obj_list_destruct d"

definition quiet_calls :: "lpc_env \<Rightarrow> bool" where
  "quiet_calls E \<longleftrightarrow> (\<forall>e d. \<exists>a d'. g_call E e d = Some (Answer a, d') \<and> same_tables d d')"

lemma same_tables_refl [simp]: "same_tables d d"
  by (simp add: same_tables_def)

lemma same_tables_trans: "same_tables d d1 \<Longrightarrow> same_tables d1 d2 \<Longrightarrow> same_tables d d2"
  using same_place_trans unfolding same_tables_def by metis

lemma same_ok: "same_tables d d' \<Longrightarrow> driver_ok d' xs ys = driver_ok d xs ys"
proof -
  assume s: "same_tables d d'"
  then have "same_place (d_world d) (d_world d')" by (simp add: same_tables_def)
  then have "winv (d_world d') = winv (d_world d)" "w_super (d_world d') = w_super (d_world d)" "dead (d_world d') = dead (d_world d)"
    using winv_same same_placeD by blast+
  with s show ?thesis by (simp add: same_tables_def driver_ok_def)
qed

lemma same_dead: "same_tables d d' \<Longrightarrow> gone_already d' x = gone_already d x"
  unfolding same_tables_def using same_placeD by metis

lemma same_essential: "same_tables d d' \<Longrightarrow> essential E d' x = essential E d x"
  by (simp add: same_tables_def same_place_def essential_def)

lemma same_without: "same_tables d d1 \<Longrightarrow> without_objects D d1 d2 \<Longrightarrow> without_objects D d d2"
  by (simp add: same_tables_def same_place_def without_objects_def cong: if_cong)

lemma without_same: "without_objects D d d1 \<Longrightarrow> same_tables d1 d2 \<Longrightarrow> without_objects D d d2"
  by (simp add: same_tables_def same_place_def without_objects_def)

lemma quiet_call: "quiet_calls E \<Longrightarrow> \<exists>a d'. g_call E e d = Some (Answer a, d') \<and> same_tables d d'"
  by (simp add: quiet_calls_def)

lemma same_giver [simp]: "same_tables d (set_giver c d')  = same_tables d d'" "same_tables (set_giver c d) d' = same_tables d d'"
  by (simp_all add: same_tables_def set_giver_def)

lemma leave_game_quiet: "quiet_calls E \<Longrightarrow> \<not> gone_already d x \<Longrightarrow> \<exists>d'. leave_game E x d = Some (None, d') \<and> same_tables d d'"
proof -
  assume q: "quiet_calls E" and a: "\<not> gone_already d x"
  obtain a1 d1 where 1: "(if g_editing E x then g_call E (Save_editor x) (set_giver (Some x) d) else Some (Answer None, d)) = Some (Answer a1, d1)"
    "same_tables d d1"
  proof (cases "g_editing E x")
    case True
    with quiet_call [OF q, of "Save_editor x" "set_giver (Some x) d"] that show thesis by auto
  next
    case False
    with that [of None d] show thesis by simp
  qed
  obtain a2 d2 where 2: "g_call E (Remove_interactive x) (set_giver (command_giver (d_world d)) d1) = Some (Answer a2, d2)" "same_tables d1 d2"
    using quiet_call [OF q, of "Remove_interactive x" "set_giver (command_giver (d_world d)) d1"] by auto
  have s: "same_tables d d2" using 1(2) 2(2) by (rule same_tables_trans)
  then have "\<not> gone_already d2 x" using a same_dead by metis
  with 1(1) 2(1) s show ?thesis unfolding leave_game_def by (auto simp: Let_def)
qed

lemma call_destructors_quiet: "quiet_calls E \<Longrightarrow> \<not> gone_already d x \<Longrightarrow> \<exists>d'. call_destructors E x d = Some (None, d') \<and> same_tables d d'"
proof -
  assume q: "quiet_calls E"
  have "\<not> gone_already d x \<Longrightarrow> \<exists>d'. run_destructors E x i d = Some (None, d') \<and> same_tables d d'" for i d
  proof (induction i arbitrary: d)
    case (Suc i)
    obtain sec ix where ix: "g_inherit E x ! i = (sec, ix)" by fastforce
    obtain a d1 where 1: "g_call E (Destructor x i) d = Some (Answer a, d1)" "same_tables d d1" using quiet_call [OF q] by blast
    have "\<not> gone_already d1 x" using Suc.prems 1(2) same_dead by metis
    from Suc.IH [OF this] Suc.IH [OF Suc.prems] 1 ix same_tables_trans [OF 1(2)] \<open>\<not> gone_already d1 x\<close> show ?case by auto
  qed simp
  then show "\<not> gone_already d x \<Longrightarrow> \<exists>d'. call_destructors E x d = Some (None, d') \<and> same_tables d d'" by (simp add: call_destructors_def)
qed

lemma new_vbfc_quiet: "quiet_calls E \<Longrightarrow> \<exists>d'. new_vbfc E x d = Some (False, d') \<and> same_tables d d'"
proof -
  assume q: "quiet_calls E"
  obtain a d1 where 1: "g_call E Get_vbfc_object (d\<lparr>vbfc_object := None\<rparr>) = Some (Answer a, d1)" "same_tables (d\<lparr>vbfc_object := None\<rparr>) d1"
    using quiet_call [OF q] by blast
  have "same_tables d d1" using 1(2) by (simp add: same_tables_def)
  moreover have "same_tables d (d1\<lparr>vbfc_object := v\<rparr>)" for v using calculation by (simp add: same_tables_def)
  ultimately show ?thesis using 1(1) by (auto simp: new_vbfc_def split: option.splits sval.splits)
qed

section \<open>Leaving the environment\<close>

text \<open>What removing commands leaves alone.\<close>

definition moves_nothing :: "world \<Rightarrow> world \<Rightarrow> bool" where
  "moves_nothing w w' \<longleftrightarrow> w_super w' = w_super w \<and> w_flags w' = w_flags w \<and> w_shadowing w' = w_shadowing w"

lemma moves_nothing_simps [simp]: "moves_nothing w w" "moves_nothing (remove_sent a b w) w' = moves_nothing w w'"
  "moves_nothing (w\<lparr>w_inv := s\<rparr>) w' = moves_nothing w w'"
  by (simp_all add: moves_nothing_def)

lemma leave_loop_absent:
  "linked (ob_next_inv (w_inv w)) xs None \<Longrightarrow> get_link pp (w_inv w) = hdo xs None \<Longrightarrow> ob \<notin> set xs \<Longrightarrow>
    \<exists>w'. leave_loop ob pp w = Some w' \<and> w_inv w' = w_inv w \<and> moves_nothing w w'"
proof (induction xs arbitrary: pp w)
  case Nil
  then show ?case by (subst leave_loop.simps) simp
next
  case (Cons x xs)
  let ?w = "if living w x then remove_sent ob x w else w"
  have "\<exists>w'. leave_loop ob (Next_inv x) ?w = Some w' \<and> w_inv w' = w_inv ?w \<and> moves_nothing ?w w'"
    using Cons.prems by (intro Cons.IH) auto
  with Cons.prems show ?case by (subst leave_loop.simps) (auto simp: Let_def split: if_splits)
qed

lemma leave_loop_present:
  "linked (ob_next_inv (w_inv w)) (us @ ob # vs) None \<Longrightarrow> get_link pp (w_inv w) = hdo (us @ ob # vs) None \<Longrightarrow>
    distinct (us @ ob # vs) \<Longrightarrow> \<forall>x\<in>set (us @ ob # vs). pp \<noteq> Next_inv x \<Longrightarrow>
    \<exists>w'. leave_loop ob pp w = Some w' \<and> w_inv w' = set_link (link_before pp us) (ob_next_inv (w_inv w) ob) (w_inv w) \<and> moves_nothing w w'"
proof (induction us arbitrary: pp w)
  case Nil
  let ?w1 = "if living w ob then remove_sent ob ob w else w"
  let ?s = "set_link pp (ob_next_inv (w_inv w) ob) (w_inv w)"
  have "linked (ob_next_inv ?s) vs None = linked (ob_next_inv (w_inv w)) vs None"
    using Nil.prems(4) by (intro linked_cong next_set_link) simp
  then have "\<exists>w'. leave_loop ob pp (?w1\<lparr>w_inv := ?s\<rparr>) = Some w' \<and> w_inv w' = w_inv (?w1\<lparr>w_inv := ?s\<rparr>) \<and> moves_nothing (?w1\<lparr>w_inv := ?s\<rparr>) w'"
    using Nil.prems by (intro leave_loop_absent [where xs = vs]) auto
  moreover have "w_inv ?w1 = w_inv w" by simp
  ultimately show ?case using Nil.prems by (subst leave_loop.simps) (auto simp: Let_def link_before_def split: if_splits)
next
  case (Cons x us)
  let ?w = "if living w x then remove_sent ob x w else w"
  have "\<exists>w'. leave_loop ob (Next_inv x) ?w = Some w' \<and>
      w_inv w' = set_link (link_before (Next_inv x) us) (ob_next_inv (w_inv ?w) ob) (w_inv ?w) \<and> moves_nothing ?w w'"
    using Cons.prems by (intro Cons.IH) auto
  moreover have "link_before (Next_inv x) us = link_before pp (x # us)" by (simp add: link_before_def)
  ultimately show ?case using Cons.prems by (subst leave_loop.simps) (auto simp: Let_def split: if_splits)
qed

lemma leave_super_law:
  assumes p: "placed (d_world d) rank"
  shows "\<exists>w'. leave_super x d = Some (d\<lparr>d_world := w'\<rparr>) \<and> moves_nothing (d_world d) w' \<and>
    lists_of (w_inv w') (\<lambda>e. filter (\<lambda>y. y \<noteq> x) (inv_list d e))"
proof -
  let ?w = "d_world d"
  have f: "forest (w_inv ?w) rank" and sp: "\<And>x y. w_super ?w x = Some y \<longleftrightarrow> x \<in> set (inv_of (w_inv ?w) y)"
    using p unfolding placed_def by blast+
  show ?thesis
  proof (cases "w_super ?w x")
    case None
    then have "x \<notin> set (inv_of (w_inv ?w) e)" for e using sp by (metis option.distinct(1))
    then have "lists_of (w_inv ?w) (\<lambda>e. filter (\<lambda>y. y \<noteq> x) (inv_list d e))" using forest_linked [OF f] by (simp add: filter_other)
    then show ?thesis using None by (intro exI [of _ ?w]) (simp add: leave_super_def)
  next
    case (Some env)
    then have "x \<in> set (inv_of (w_inv ?w) env)" using sp by simp
    then obtain us vs where i: "inv_of (w_inv ?w) env = us @ x # vs" by (meson split_list)
    have d: "distinct (us @ x # vs)" using forest_inv(2) [OF f, of env] i by simp
    let ?w1 = "if living ?w env then remove_sent x env ?w else ?w"
    have "\<exists>w'. leave_loop x (Contains env) ?w1 = Some w' \<and>
        w_inv w' = set_link (link_before (Contains env) us) (ob_next_inv (w_inv ?w1) x) (w_inv ?w1) \<and> moves_nothing ?w1 w'"
      using forest_linked [OF f, of env] i d by (intro leave_loop_present [where vs = vs]) auto
    then obtain w' where w': "leave_loop x (Contains env) ?w1 = Some w'"
      "w_inv w' = set_link (link_before (Contains env) us) (ob_next_inv (w_inv ?w) x) (w_inv ?w)" "moves_nothing ?w w'"
      by (auto split: if_splits)
    have "leave_super x d = Some (d\<lparr>d_world := w'\<rparr>)" using Some w'(1) by (simp add: leave_super_def Let_def)
    moreover have "lists_of (w_inv w') (\<lambda>e. filter (\<lambda>y. y \<noteq> x) (inv_list d e))" using unlink_lists [OF f i] w'(2) by simp
    ultimately show ?thesis using w'(3) by blast
  qed
qed

section \<open>Leaving the list and the tables\<close>

lemma remove_from_list_law:
  assumes r: "ring (prev_all d) (next_all d) xs" and dx: "distinct xs" and l: "obj_list d = hdo xs None" and x: "x \<in> set xs"
  shows "\<exists>s l pr nx. remove_from_list x d = Some (d\<lparr>swap_ob := s, obj_list := l, prev_all := pr, next_all := nx\<rparr>) \<and>
    ring pr nx (remove1 x xs) \<and> l = hdo (remove1 x xs) None \<and> (\<forall>y. y \<notin> set xs \<longrightarrow> nx y = next_all d y)"
proof -
  obtain us vs where xs: "xs = us @ x # vs" using x by (meson split_list)
  have rm: "remove1 x xs = us @ vs" using dx xs by (simp add: remove1_append)
  show ?thesis
  proof (cases "us @ vs = []")
    case True
    then have n: "prev_all d x = Some x" "next_all d x = Some x" using r xs by (simp_all add: ring_def)
    have "remove_from_list x d = Some (d\<lparr>swap_ob := None, obj_list := None, prev_all := prev_all d, next_all := next_all d\<rparr>)"
      using n l xs True by (simp add: remove_from_list_def Let_def fun_upd_idem)
    moreover have "ring (prev_all d) (next_all d) []" by (simp add: ring_def)
    ultimately show ?thesis using rm True by (intro exI conjI) auto
  next
    case False
    from ring_remove [OF r [unfolded xs] dx [unfolded xs] False] obtain p n where pn: "prev_all d x = Some p" "next_all d x = Some n"
      "p \<in> set (us @ vs)" "n \<in> set (us @ vs)" "ring ((prev_all d)(n := Some p)) ((next_all d)(p := Some n)) (us @ vs)" "us = [] \<longrightarrow> n = hd vs" by blast
    have ne: "n \<noteq> x" "p \<noteq> x" using pn(3,4) dx xs by auto
    have h: "(if obj_list d = Some x then next_all d x else obj_list d) = hdo (us @ vs) None"
    proof (cases us)
      case Nil
      then show ?thesis using l xs pn(2,6) False by (cases vs) auto
    next
      case (Cons u us')
      then show ?thesis using l xs dx by auto
    qed
    let ?s = "if swap_ob d = Some x then prev_all d x else swap_ob d" and ?l = "if obj_list d = Some x then next_all d x else obj_list d"
    let ?a = "if swap_ob d = Some x then d\<lparr>swap_ob := prev_all d x\<rparr> else d"
    have a: "?a = d\<lparr>swap_ob := ?s\<rparr>" by simp
    have b: "(if obj_list ?a = Some x then ?a\<lparr>obj_list := next_all ?a x\<rparr> else ?a) = d\<lparr>swap_ob := ?s, obj_list := ?l\<rparr>"
      unfolding a by simp
    have "remove_from_list x d = Some (d\<lparr>swap_ob := ?s, obj_list := ?l, next_all := (next_all d)(p := Some n), prev_all := (prev_all d)(n := Some p)\<rparr>)"
      unfolding remove_from_list_def Let_def b using pn(1,2) ne by simp
    then have "remove_from_list x d = Some (d\<lparr>swap_ob := ?s, obj_list := ?l,
        prev_all := (prev_all d)(n := Some p), next_all := (next_all d)(p := Some n)\<rparr>)" by simp
    moreover have "((next_all d)(p := Some n)) y = next_all d y" if "y \<notin> set xs" for y using that pn(3) xs by auto
    ultimately show ?thesis using pn(5) h rm
      by - ((rule exI [of _ ?s], rule exI [of _ ?l], rule exI [of _ "(prev_all d)(n := Some p)"], rule exI [of _ "(next_all d)(p := Some n)"]), simp)
  qed
qed

lemma remove_from_tables_law:
  assumes n: "oinv (d_names d)" "olook (d_names d) (ob_name (d_names d) x) = Some x" and a: "co_inv (d_alarms d)" and l: "livings_ok (d_livings d)"
  shows "\<exists>al nm lv. remove_from_tables x d = Some (d\<lparr>d_alarms := al, d_names := nm, d_livings := lv\<rparr>) \<and> oinv nm \<and> co_inv al \<and> livings_ok lv \<and>
    ob_name nm = ob_name (d_names d) \<and> olook nm = (olook (d_names d))(ob_name (d_names d) x := None) \<and>
    co_calls al = (co_calls (d_alarms d))(x := []) \<and> living_name lv = (living_name (d_livings d))(x := None)"
proof -
  from delete_all_law [OF a, of x] obtain al where 1: "delete_all_calls x (d_alarms d) = Some al" "co_inv al" "co_calls al = (co_calls (d_alarms d))(x := [])"
    by (auto simp: co_step_def)
  from remove_olook [OF n] obtain nm where 2: "remove_object_hash x (d_names d) = Some (Inr nm)" "oinv nm" "ob_name nm = ob_name (d_names d)"
    "olook nm = (olook (d_names d))(ob_name (d_names d) x := None)" by blast
  from l obtain ch where c: "lchains (d_livings d) ch" by (auto simp: livings_ok_def)
  obtain lv where 3: "(if living_name (d_livings d) x \<noteq> None then remove_living_name x (d_livings d) else Some (d_livings d)) = Some lv"
    "livings_ok lv" "living_name lv = (living_name (d_livings d))(x := None)"
  proof (cases "living_name (d_livings d) x")
    case None
    then have "(living_name (d_livings d))(x := None) = living_name (d_livings d)" by auto
    with None l that show thesis by simp
  next
    case (Some t)
    from remove_living_law [OF c Some] Some that show thesis by (auto simp: livings_ok_def)
  qed
  show ?thesis using 1 2 3 by (intro exI [of _ al] exI [of _ nm] exI [of _ lv]) (simp add: remove_from_tables_def)
qed

lemma forest_filtered:
  assumes f: "forest s rank" and l: "lists_of s' (\<lambda>e. filter P (inv_of s e))"
  shows "forest s' rank" "inv_of s' e = filter P (inv_of s e)"
proof -
  have i: "inv_of s' e = filter P (inv_of s e)" for e using lists_inv_of [OF l] by blast
  then show "inv_of s' e = filter P (inv_of s e)" .
  have "chain_from (ob_next_inv s') (ob_contains s' ob) = Some (filter P (inv_of s ob)) \<and> distinct (filter P (inv_of s ob))" for ob
    using lists_inv_of [OF l, of ob] forest_inv(2) [OF f, of ob] by simp
  then show "forest s' rank" using f i unfolding forest_def by fastforce
qed

section \<open>Destroying an object with nothing in it\<close>

lemma destruct_rest_law:
  assumes ok: "driver_ok d xs ys" and x: "x \<in> set xs" and e: "inv_list d x = []" and q: "quiet_calls E"
  shows "\<exists>d'. destruct_rest E x d = Some (False, d') \<and> without_objects {x} d d' \<and> driver_ok d' (remove1 x xs) (x # ys)"
proof -
  from leave_game_quiet [OF q driver_okD(11) [OF ok x]] obtain d1 where 1: "leave_game E x d = Some (None, d1)" "same_tables d d1" by blast
  have ok1: "driver_ok d1 xs ys" using ok same_ok [OF 1(2)] by simp
  obtain rank where p: "placed (d_world d1) rank" using driver_okD(1) [OF ok1] by (auto simp: winv_def)
  from leave_super_law [OF p, of x] obtain w2 where 2: "leave_super x d1 = Some (d1\<lparr>d_world := w2\<rparr>)" "moves_nothing (d_world d1) w2"
    "lists_of (w_inv w2) (\<lambda>e. filter (\<lambda>y. y \<noteq> x) (inv_list d1 e))" by blast
  let ?d2 = "d1\<lparr>d_world := w2\<rparr>"
  have "\<not> gone_already ?d2 x" using driver_okD(11) [OF ok1 x] 2(2) by (simp add: moves_nothing_def dead_def)
  from call_destructors_quiet [OF q this] obtain d3 where 3: "call_destructors E x ?d2 = Some (None, d3)" "same_tables ?d2 d3" by blast
  define dd3 where "dd3 = remove_object_from_stack x d3"
  have t3: "next_all dd3 = next_all d1" "prev_all dd3 = prev_all d1" "obj_list dd3 = obj_list d1" "obj_list_destruct dd3 = obj_list_destruct d1"
    "d_names dd3 = d_names d1" "d_alarms dd3 = d_alarms d1" "d_livings dd3 = d_livings d1" "d_shadowed dd3 = d_shadowed d1" "d_reserved dd3 = d_reserved d1"
    "w_inv (d_world dd3) = w_inv w2" "w_super (d_world dd3) = w_super (d_world d1)" "w_flags (d_world dd3) = w_flags (d_world d1)"
    "w_shadowing (d_world dd3) = w_shadowing (d_world d1)"
    using 3(2) 2(2) by (simp_all add: same_tables_def same_place_def moves_nothing_def remove_object_from_stack_def dd3_def)
  from remove_from_list_law [of dd3 xs x] driver_okD(5,6,7) [OF ok1] x obtain s l pr nx where
    4: "remove_from_list x dd3 = Some (dd3\<lparr>swap_ob := s, obj_list := l, prev_all := pr, next_all := nx\<rparr>)" "ring pr nx (remove1 x xs)"
      "l = hdo (remove1 x xs) None" "\<forall>y. y \<notin> set xs \<longrightarrow> nx y = next_all d1 y" unfolding t3(1,2,3) by blast
  define d4 where "d4 = dd3\<lparr>swap_ob := s, obj_list := l, prev_all := pr, next_all := nx\<rparr>"
  have t4: "d_names d4 = d_names d1" "d_alarms d4 = d_alarms d1" "d_livings d4 = d_livings d1" "d_world d4 = d_world dd3"
    "d_shadowed d4 = d_shadowed d1" "d_reserved d4 = d_reserved d1" "obj_list d4 = l" "next_all d4 = nx" "prev_all d4 = pr"
    "obj_list_destruct d4 = obj_list_destruct d1"
    using t3 by (simp_all add: d4_def)
  from remove_from_tables_law [of d4 x, unfolded t4, OF driver_okD(2) [OF ok1] driver_okD(12) [OF ok1 x] driver_okD(3,4) [OF ok1]] obtain al nm lv where
    5: "remove_from_tables x d4 = Some (d4\<lparr>d_alarms := al, d_names := nm, d_livings := lv\<rparr>)" "oinv nm" "co_inv al" "livings_ok lv"
    "ob_name nm = ob_name (d_names d1)" "olook nm = (olook (d_names d1))(ob_name (d_names d1) x := None)"
    "co_calls al = (co_calls (d_alarms d1))(x := [])" "living_name lv = (living_name (d_livings d1))(x := None)" by blast
  define d5 where "d5 = d4\<lparr>d_alarms := al, d_names := nm, d_livings := lv\<rparr>"
  from new_vbfc_quiet [OF q] obtain d7 where 7: "new_vbfc E x (bury x d5) = Some (False, d7)" "same_tables (bury x d5) d7" by blast
  have r: "destruct_rest E x d = Some (False, d7)" using 1(1) 2(1) 3(1) 4(1) [folded d4_def] 5(1) [folded d5_def] 7(1)
    by (simp add: destruct_rest_def dd3_def)
  let ?s = "(w_inv w2)\<lparr>ob_next_inv := (ob_next_inv (w_inv w2))(x := None), ob_contains := (ob_contains (w_inv w2))(x := None)\<rparr>"
  have f1: "forest (w_inv (d_world d1)) rank" using p by (simp add: placed_def)
  have e1: "inv_list d1 x = []" using e 1(2) by (simp add: same_tables_def same_place_def)
  have ls: "lists_of ?s (\<lambda>e. filter (\<lambda>y. y \<noteq> x) (inv_list d1 e))"
    using 2(3) e1 by (auto simp: linked_other)
  have inv: "inv_of ?s e = filter (\<lambda>y. y \<noteq> x) (inv_list d1 e)" for e using forest_filtered(2) [OF f1 ls] .
  have b: "w_inv (d_world (bury x d5)) = ?s" "w_super (d_world (bury x d5)) = (w_super (d_world d1))(x := None)"
    "w_flags (d_world (bury x d5)) = (w_flags (d_world d1))(x := w_flags (d_world d1) x AND NOT O_ENABLE_COMMANDS OR O_DESTRUCTED)"
    "w_shadowing (d_world (bury x d5)) = w_shadowing (d_world d1)" "d_shadowed (bury x d5) = d_shadowed d1" "d_reserved (bury x d5) = d_reserved d1"
    "d_names (bury x d5) = nm" "d_alarms (bury x d5) = al" "d_livings (bury x d5) = lv" "obj_list (bury x d5) = l"
    "next_all (bury x d5) = nx(x := obj_list_destruct d1)" "prev_all (bury x d5) = pr(x := None)" "obj_list_destruct (bury x d5) = Some x"
    using t3 t4 by (simp_all add: bury_def Let_def d5_def)
  have ob: "ob_name (d_names d1) y = ob_name (d_names d1) x \<longleftrightarrow> y = x" if "y \<in> set xs" for y
    using driver_okD(12) [OF ok1 that] driver_okD(12) [OF ok1 x] by (metis option.inject)
  have lk: "((olook (d_names d1))(ob_name (d_names d1) x := None)) s =
      (case olook (d_names d1) s of None \<Rightarrow> None | Some y \<Rightarrow> if y \<in> {x} then None else Some y)" for s
  proof (cases "olook (d_names d1) s = Some x")
    case True
    then have "s = ob_name (d_names d1) x" using driver_okD(2) [OF ok1] olook_iff unfolding oinv_def by metis
    with True show ?thesis by simp
  next
    case False
    then have "s \<noteq> ob_name (d_names d1) x" using driver_okD(12) [OF ok1 x] by blast
    with False show ?thesis by (simp split: option.splits)
  qed
  have w: "without_objects {x} d1 (bury x d5)"
    unfolding without_objects_def b 5(5,6,7,8) inv
  proof (intro conjI allI)
    show "filter (\<lambda>y. y \<noteq> x) (inv_list d1 e) = (if e \<in> {x} then [] else filter (\<lambda>y. y \<notin> {x}) (inv_list d1 e))" for e
      using e1 by simp
    show "(olook (d_names d1))(ob_name (d_names d1) x := None) =
        (\<lambda>s. case olook (d_names d1) s of None \<Rightarrow> None | Some y \<Rightarrow> if y \<in> {x} then None else Some y)"
      using lk by (rule ext)
  qed (simp_all add: fun_eq_iff)
  have sp: "w_super (d_world d1) y = Some z \<longleftrightarrow> y \<in> set (inv_list d1 z)" for y z using p unfolding placed_def by blast
  have "placed (d_world (bury x d5)) rank"
    unfolding placed_def b
  proof (intro conjI allI)
    show "forest ?s rank" by (rule forest_filtered(1) [OF f1 ls])
    have "finite {y. w_super (d_world d1) y \<noteq> None}" using p unfolding placed_def by blast
    then show "finite {y. ((w_super (d_world d1))(x := None)) y \<noteq> None}" by (rule rev_finite_subset) auto
    show "((w_super (d_world d1))(x := None)) y = Some z \<longleftrightarrow> y \<in> set (inv_of ?s z)" for y z unfolding inv using sp [of y z] by auto
  qed
  moreover have "x \<notin> set ys" using driver_okD(10) [OF ok1] x by auto
  moreover have "ring (pr(x := None)) (nx(x := obj_list_destruct d1)) (remove1 x xs) = ring pr nx (remove1 x xs)"
    using driver_okD(5) [OF ok1] by (intro ring_cong) auto
  moreover have "linked (nx(x := obj_list_destruct d1)) ys None = linked (next_all d1) ys None"
    using 4(4) driver_okD(10) [OF ok1] x by (intro linked_cong) auto
  moreover have "w_super (d_world d1) y \<noteq> Some x" for y using sp [of y x] e1 by simp
  ultimately have "driver_ok (bury x d5) (remove1 x xs) (x # ys)"
    using driver_okD(5,8,9,10,11,12,13) [OF ok1] 4(2,3) 5 ob unfolding driver_ok_def b
    by (auto simp: winv_def b dead_def)
  then show ?thesis using r same_ok [OF 7(2)] same_without [OF 1(2) without_same [OF w 7(2)]] by blast
qed

section \<open>Destroying an object and all that is inside\<close>

text \<open>An object and everything in it; objects that nothing protects, and that take no part in shadowing.\<close>

definition tree_of :: "driver \<Rightarrow> nat \<Rightarrow> nat set" where
  "tree_of d x = insert x (below (w_inv (d_world d)) x)"

definition ordinary :: "lpc_env \<Rightarrow> driver \<Rightarrow> nat \<Rightarrow> bool" where
  "ordinary E d y \<longleftrightarrow> \<not> essential E d y \<and> d_shadowed d y = None \<and> w_shadowing (d_world d) y = None"

lemma ordinary_same: "same_tables d d' \<Longrightarrow> ordinary E d' y = ordinary E d y"
proof -
  assume s: "same_tables d d'"
  then have "d_shadowed d' = d_shadowed d" "w_shadowing (d_world d') = w_shadowing (d_world d)" by (simp_all add: same_tables_def)
  with same_essential [OF s] show ?thesis by (simp add: ordinary_def)
qed

lemma ordinary_without: "without_objects D d d' \<Longrightarrow> y \<notin> D \<Longrightarrow> ordinary E d' y = ordinary E d y"
  by (simp add: ordinary_def essential_def without_objects_def)

lemma below_same: "same_tables d d' \<Longrightarrow> below (w_inv (d_world d')) x = below (w_inv (d_world d)) x"
  by (simp add: same_tables_def same_place_def)

lemma unshadow_ordinary: "ordinary E d x \<Longrightarrow> unshadow x d = d"
  by (simp add: ordinary_def unshadow_def set_shadowing_def set_shadowed_def Let_def fun_upd_idem)

lemma without_none: "without_objects {} d d"
  by (simp add: without_objects_def fun_eq_iff split: option.split)

lemma tree_closed: "e \<in> tree_of d c \<Longrightarrow> set (inv_list d e) \<subseteq> tree_of d c"
  by (auto simp: tree_of_def below_def inside_def intro: trancl_into_trancl2)

lemma below_without:
  assumes w: "without_objects D d d1" and c: "\<And>e. e \<in> D \<Longrightarrow> set (inv_list d e) \<subseteq> D" and x: "x \<notin> D"
  shows "below (w_inv (d_world d1)) x = below (w_inv (d_world d)) x - D"
proof -
  have i: "set (inv_list d1 e) = (if e \<in> D then {} else set (inv_list d e) - D)" for e
    using w by (auto simp: without_objects_def)
  let ?R = "inside (w_inv (d_world d))" and ?R' = "inside (w_inv (d_world d1))"
  have sub: "?R' \<subseteq> ?R" using i by (auto simp: inside_def split: if_splits)
  have 1: "y \<in> below (w_inv (d_world d)) x - D" if "(y, x) \<in> ?R'\<^sup>+" for y
  proof -
    from that obtain z where "(y, z) \<in> ?R'" by (meson tranclD)
    then have "y \<notin> D" using i [of z] by (auto simp: inside_def split: if_splits)
    then show ?thesis using trancl_mono [OF that sub] by (simp add: below_def)
  qed
  have "(y, x) \<in> ?R\<^sup>+ \<Longrightarrow> y \<notin> D \<longrightarrow> (y, x) \<in> ?R'\<^sup>+" for y
  proof (induction rule: converse_trancl_induct)
    case (base y)
    then show ?case using i [of x] x by (auto simp: inside_def)
  next
    case (step y z)
    show ?case
    proof
      assume y: "y \<notin> D"
      have yz: "y \<in> set (inv_list d z)" using step(1) by (simp add: inside_def)
      then have z: "z \<notin> D" using c y by blast
      then have "(y, z) \<in> ?R'" using yz y i [of z] by (simp add: inside_def)
      then show "(y, x) \<in> ?R'\<^sup>+" using step(3) z by (meson trancl_into_trancl2)
    qed
  qed
  with 1 show ?thesis by (auto simp: below_def)
qed

lemma tree_facts:
  assumes "driver_ok d xs ys"
  shows "finite (tree_of d x)" "x \<notin> below (w_inv (d_world d)) x" "ob_contains (w_inv (d_world d)) x = hdo (inv_list d x) None"
    "c \<in> set (inv_list d x) \<Longrightarrow> c \<in> set xs \<and> tree_of d c \<subseteq> below (w_inv (d_world d)) x \<and> x \<notin> tree_of d c"
proof -
  obtain rank where p: "placed (d_world d) rank" using driver_okD(1) [OF assms] by (auto simp: winv_def)
  then have f: "forest (w_inv (d_world d)) rank" by (simp add: placed_def)
  have sp: "w_super (d_world d) y = Some z \<longleftrightarrow> y \<in> set (inv_list d z)" for y z using p unfolding placed_def by blast
  have "below (w_inv (d_world d)) x \<subseteq> {y. w_super (d_world d) y \<noteq> None}"
    using sp by (auto simp: below_def inside_def dest!: tranclD)
  then show "finite (tree_of d x)" using p finite_subset unfolding placed_def tree_of_def by auto
  show x: "x \<notin> below (w_inv (d_world d)) x" using below_rank [OF f, of x x] by blast
  show "ob_contains (w_inv (d_world d)) x = hdo (inv_list d x) None" by (rule forest_linked(1) [OF f])
  assume c: "c \<in> set (inv_list d x)"
  then have "c \<in> set xs" using sp driver_okD(13) [OF assms] by blast
  moreover have "tree_of d c \<subseteq> below (w_inv (d_world d)) x" using c below_step [of "w_inv (d_world d)" x] by (auto simp: tree_of_def)
  ultimately show "c \<in> set xs \<and> tree_of d c \<subseteq> below (w_inv (d_world d)) x \<and> x \<notin> tree_of d c" using x by blast
qed

definition destroyed :: "driver \<Rightarrow> nat list \<Rightarrow> nat list \<Rightarrow> nat set \<Rightarrow> driver \<Rightarrow> bool" where
  "destroyed d xs ys D d' \<longleftrightarrow> without_objects D d d' \<and>
     (\<exists>zs. set zs = D \<and> driver_ok d' (filter (\<lambda>y. y \<notin> D) xs) (zs @ ys))"

lemma destroyed_trans:
  assumes "destroyed d xs ys C d1" "\<And>ys. driver_ok d1 (filter (\<lambda>y. y \<notin> C) xs) ys \<Longrightarrow> destroyed d1 (filter (\<lambda>y. y \<notin> C) xs) ys D d2" "C \<inter> D = {}"
  shows "destroyed d xs ys (C \<union> D) d2"
proof -
  from assms(1) obtain zs where 1: "without_objects C d d1" "set zs = C" "driver_ok d1 (filter (\<lambda>y. y \<notin> C) xs) (zs @ ys)"
    by (auto simp: destroyed_def)
  from assms(2) [OF 1(3)] obtain us where 2: "without_objects D d1 d2" "set us = D"
    "driver_ok d2 (filter (\<lambda>y. y \<notin> D) (filter (\<lambda>y. y \<notin> C) xs)) (us @ zs @ ys)" by (auto simp: destroyed_def)
  have "filter (\<lambda>y. y \<notin> D) (filter (\<lambda>y. y \<notin> C) xs) = filter (\<lambda>y. y \<notin> C \<union> D) xs" by (auto intro: filter_cong)
  then have "driver_ok d2 (filter (\<lambda>y. y \<notin> C \<union> D) xs) ((us @ zs) @ ys)" using 2(3) by simp
  moreover have "set (us @ zs) = C \<union> D" using 1(2) 2(2) by auto
  ultimately show ?thesis using without_trans [OF 1(1) 2(1) assms(3)] unfolding destroyed_def by blast
qed

lemma destruct_alone:
  assumes "driver_ok d xs ys" "x \<in> set xs" "inv_list d x = []" "quiet_calls E"
  shows "\<exists>d'. destruct_rest E x d = Some (False, d') \<and> destroyed d xs ys {x} d'"
proof -
  from destruct_rest_law [OF assms] obtain d' where
    "destruct_rest E x d = Some (False, d')" "without_objects {x} d d'" "driver_ok d' (remove1 x xs) ([x] @ ys)" by auto
  moreover have "remove1 x xs = filter (\<lambda>y. y \<notin> {x}) xs"
    using distinct_remove1_removeAll [OF driver_okD(5) [OF assms(1)], of x] by (simp add: removeAll_filter_not_eq) (metis (full_types))
  ultimately show ?thesis unfolding destroyed_def by (intro exI [of _ d'] conjI exI [of _ "[x]"]) simp_all
qed

lemma same_destroyed: "same_tables d d1 \<Longrightarrow> destroyed d1 xs ys D d' \<Longrightarrow> destroyed d xs ys D d'"
  using same_without unfolding destroyed_def by blast

lemma destruct_both:
  assumes q: "quiet_calls E"
  shows "(\<forall>d xs ys x. driver_ok d xs ys \<longrightarrow> x \<in> set xs \<longrightarrow> (\<forall>y\<in>tree_of d x. ordinary E d y) \<longrightarrow> 2 * card (tree_of d x) \<le> n \<longrightarrow>
      (\<exists>d'. destruct_object n E (Some x) d = Some (False, d') \<and> destroyed d xs ys (tree_of d x) d')) \<and>
    (\<forall>d xs ys x. driver_ok d xs ys \<longrightarrow> x \<in> set xs \<longrightarrow> (\<forall>y\<in>below (w_inv (d_world d)) x. ordinary E d y) \<longrightarrow>
      2 * card (below (w_inv (d_world d)) x) + 1 \<le> n \<longrightarrow>
      (\<exists>d'. destruct_inside n E x d = Some (None, d') \<and> destroyed d xs ys (below (w_inv (d_world d)) x) d'))"
proof (induction n)
  case 0
  have no: "\<not> 2 * card (tree_of d x) \<le> 0" if "driver_ok d xs ys" for d xs ys x using tree_facts(1) [OF that, of x] by (auto simp: tree_of_def)
  show ?case
  proof (intro conjI allI impI)
    fix d xs ys x assume "driver_ok d xs ys" "2 * card (tree_of d x) \<le> 0"
    with no show "\<exists>d'. destruct_object 0 E (Some x) d = Some (False, d') \<and> destroyed d xs ys (tree_of d x) d'" by blast
  qed simp
next
  case (Suc n)
  show ?case
  proof (intro conjI allI impI)
    fix d xs ys x
    assume ok: "driver_ok d xs ys" and x: "x \<in> set xs" and ord: "\<forall>y\<in>tree_of d x. ordinary E d y" and len: "2 * card (tree_of d x) \<le> Suc n"
    let ?B = "below (w_inv (d_world d)) x"
    have nx: "x \<notin> ?B" and fin: "finite ?B" using tree_facts(1,2) [OF ok, of x] by (simp_all add: tree_of_def)
    have ox: "ordinary E d x" using ord by (simp add: tree_of_def)
    obtain a d1 where 1: "g_call E (Destructed_object x) d = Some (Answer a, d1)" "same_tables d d1" using quiet_call [OF q] by blast
    have ok1: "driver_ok d1 xs ys" using ok same_ok [OF 1(2)] by simp
    have B1: "below (w_inv (d_world d1)) x = ?B" by (rule below_same [OF 1(2)])
    have o1: "\<forall>y\<in>?B. ordinary E d1 y" "ordinary E d1 x" using ord ordinary_same [OF 1(2)] by (simp_all add: tree_of_def)
    have "2 * card ?B + 1 \<le> n" using len nx fin by (simp add: tree_of_def)
    with Suc.IH ok1 x o1(1) B1 obtain d2 where 2: "destruct_inside n E x d1 = Some (None, d2)" "destroyed d1 xs ys ?B d2" by metis
    from 2(2) obtain zs where z: "without_objects ?B d1 d2" "driver_ok d2 (filter (\<lambda>y. y \<notin> ?B) xs) (zs @ ys)" by (auto simp: destroyed_def)
    have e: "inv_list d2 x = []"
      using z(1) nx below_step [of "w_inv (d_world d1)" x] B1 by (auto simp: without_objects_def filter_empty_conv)
    have a: "\<exists>d3. destruct_rest E x d2 = Some (False, d3)" "destruct_rest E x d2 = Some (False, d3) \<Longrightarrow>
        driver_ok d2 (filter (\<lambda>y. y \<notin> ?B) xs) us \<Longrightarrow> destroyed d2 (filter (\<lambda>y. y \<notin> ?B) xs) us {x} d3" for us d3
      using destruct_alone [OF z(2) _ e q] destruct_alone [of d2 "filter (\<lambda>y. y \<notin> ?B) xs" us x E, OF _ _ e q] x nx by auto
    then obtain d3 where 3: "destruct_rest E x d2 = Some (False, d3)" by blast
    have "destroyed d1 xs ys (?B \<union> {x}) d3" using destroyed_trans [OF 2(2) a(2) [OF 3]] nx by blast
    then have "destroyed d xs ys (tree_of d x) d3" using same_destroyed [OF 1(2)] by (simp add: tree_of_def insert_commute)
    moreover have "\<not> essential E d x" "d_shadowed d1 x = None" "unshadow x d1 = d1"
      using ox o1(2) unshadow_ordinary by (simp_all add: ordinary_def)
    then have "destruct_object (Suc n) E (Some x) d = Some (False, d3)"
      using 1(1) 2(1) 3 driver_okD(11) [OF ok x] driver_okD(11) [OF ok1 x] by simp
    ultimately show "\<exists>d'. destruct_object (Suc n) E (Some x) d = Some (False, d') \<and> destroyed d xs ys (tree_of d x) d'" by blast
  next
    fix d xs ys x
    assume ok: "driver_ok d xs ys" and x: "x \<in> set xs" and ord: "\<forall>y\<in>below (w_inv (d_world d)) x. ordinary E d y"
      and len: "2 * card (below (w_inv (d_world d)) x) + 1 \<le> Suc n"
    let ?B = "below (w_inv (d_world d)) x"
    have fin: "finite ?B" using tree_facts(1) [OF ok, of x] by (simp add: tree_of_def)
    show "\<exists>d'. destruct_inside (Suc n) E x d = Some (None, d') \<and> destroyed d xs ys ?B d'"
    proof (cases "inv_list d x")
      case Nil
      then have "?B = {}" using below_step [of "w_inv (d_world d)" x] by simp
      moreover have "destroyed d xs ys {} d" using without_none ok by (simp add: destroyed_def)
      ultimately show ?thesis using tree_facts(3) [OF ok, of x] Nil by simp
    next
      case (Cons c cs)
      then have c: "c \<in> set xs" "tree_of d c \<subseteq> ?B" "x \<notin> tree_of d c" using tree_facts(4) [OF ok, of c x] by simp_all
      obtain a d1 where 1: "g_call E (Destruct_environment_of c) d = Some (Answer a, d1)" "same_tables d d1" using quiet_call [OF q] by blast
      have ok1: "driver_ok d1 xs ys" using ok same_ok [OF 1(2)] by simp
      have t1: "tree_of d1 c = tree_of d c" using below_same [OF 1(2)] by (simp add: tree_of_def)
      have o1: "\<forall>y\<in>tree_of d c. ordinary E d1 y" using ord c(2) ordinary_same [OF 1(2)] by blast
      have "card (tree_of d c) \<le> card ?B" using card_mono [OF fin c(2)] .
      then have "2 * card (tree_of d c) \<le> n" using len by simp
      with Suc.IH ok1 c(1) o1 t1 obtain d2 where 2: "destruct_object n E (Some c) d1 = Some (False, d2)" "destroyed d1 xs ys (tree_of d c) d2" by metis
      then have 3: "destroyed d xs ys (tree_of d c) d2" using same_destroyed [OF 1(2)] by blast
      then obtain zs where z: "without_objects (tree_of d c) d d2" "driver_ok d2 (filter (\<lambda>y. y \<notin> tree_of d c) xs) (zs @ ys)"
        by (auto simp: destroyed_def)
      have B2: "below (w_inv (d_world d2)) x = ?B - tree_of d c" using below_without [OF z(1) tree_closed c(3)] .
      have "c \<in> ?B" using c(2) by (auto simp: tree_of_def)
      moreover have "card (?B - tree_of d c) = card ?B - card (tree_of d c)" using card_Diff_subset [OF finite_subset [OF c(2) fin] c(2)] .
      moreover have "card (tree_of d c) \<noteq> 0" using tree_facts(1) [OF ok, of c] by (auto simp: tree_of_def)
      ultimately have l2: "2 * card (?B - tree_of d c) + 1 \<le> n" using len \<open>card (tree_of d c) \<le> card ?B\<close> by linarith
      have o2: "\<forall>y\<in>?B - tree_of d c. ordinary E d2 y" using ord ordinary_without [OF z(1)] by blast
      have l: "\<exists>d3. destruct_inside n E x d2 = Some (None, d3) \<and> destroyed d2 (filter (\<lambda>y. y \<notin> tree_of d c) xs) us (?B - tree_of d c) d3"
        if "driver_ok d2 (filter (\<lambda>y. y \<notin> tree_of d c) xs) us" for us
      proof -
        have "x \<in> set (filter (\<lambda>y. y \<notin> tree_of d c) xs)" using x c(3) by simp
        then show ?thesis using Suc.IH that o2 l2 unfolding B2 [symmetric] by blast
      qed
      from l [OF z(2)] obtain d3 where 4: "destruct_inside n E x d2 = Some (None, d3)" by blast
      then have "destroyed d2 (filter (\<lambda>y. y \<notin> tree_of d c) xs) us (?B - tree_of d c) d3"
        if "driver_ok d2 (filter (\<lambda>y. y \<notin> tree_of d c) xs) us" for us using l [OF that] by auto
      from destroyed_trans [OF 3 this] have "destroyed d xs ys (tree_of d c \<union> (?B - tree_of d c)) d3" by blast
      moreover have "tree_of d c \<union> (?B - tree_of d c) = ?B" using c(2) by blast
      moreover have "ob_contains (w_inv (d_world d)) x = Some c" "ob_contains (w_inv (d_world d1)) x = Some c"
        using tree_facts(3) [OF ok, of x] Cons 1(2) by (simp_all add: same_tables_def same_place_def)
      moreover have "\<not> gone_already d2 x" using without_dead [OF z(1)] c(3) driver_okD(11) [OF ok x] by simp
      ultimately show ?thesis using 1(1) 2(1) 4 by (intro exI [of _ d3]) simp
    qed
  qed
qed

text \<open>C15. Destructing an object when neither it nor anything inside it is resident, reserved or takes part in shadowing, and when the
  LPC code called meanwhile returns and leaves all of the tables below alone: the call returns, and the object and everything inside it,
  however deep, are marked as destructed, wait to be freed, and have gone
  from the list of all objects, from every inventory, from the table of names, from the alarms and from the living names; in
  all these tables the other objects keep their places and their order, and the tables are in order again.\<close>

theorem destruct_object_destroys:
  assumes "driver_ok d xs ys" and "x \<in> set xs" and "quiet_calls E" and "\<forall>y\<in>tree_of d x. ordinary E d y" and "2 * length xs \<le> n"
  shows "\<exists>d' zs. destruct_object n E (Some x) d = Some (False, d') \<and> driver_ok d' (filter (\<lambda>y. y \<notin> tree_of d x) xs) (zs @ ys) \<and>
    set zs = tree_of d x \<and> (\<forall>y\<in>tree_of d x. dead (d_world d') y) \<and>
    (\<forall>s y. lookup_object_hash s (d_names d') \<noteq> None \<and> (olook (d_names d') s = Some y \<longleftrightarrow> olook (d_names d) s = Some y \<and> y \<notin> tree_of d x)) \<and>
    (\<forall>y. co_calls (d_alarms d') y = (if y \<in> tree_of d x then [] else co_calls (d_alarms d) y)) \<and>
    (\<forall>y. living_name (d_livings d') y = (if y \<in> tree_of d x then None else living_name (d_livings d) y)) \<and>
    (\<forall>e. inv_of (w_inv (d_world d')) e = (if e \<in> tree_of d x then [] else filter (\<lambda>y. y \<notin> tree_of d x) (inv_of (w_inv (d_world d)) e)))"
proof -
  have sub: "tree_of d x \<subseteq> set xs"
  proof
    fix y assume "y \<in> tree_of d x"
    moreover have "z \<in> set xs" if "(z, e) \<in> inside (w_inv (d_world d))" for z e
      using tree_facts(4) [OF assms(1), of z e] that by (simp add: inside_def)
    ultimately show "y \<in> set xs" using assms(2) by (auto simp: tree_of_def below_def dest: tranclD)
  qed
  then have "card (tree_of d x) \<le> length xs" using card_mono [of "set xs"] card_length [of xs] by (meson List.finite_set le_trans)
  then have "2 * card (tree_of d x) \<le> n" using assms(5) by simp
  with destruct_both [OF assms(3), of n] assms(1,2,4) obtain d' where
    1: "destruct_object n E (Some x) d = Some (False, d')" "destroyed d xs ys (tree_of d x) d'" by blast
  from 1(2) obtain zs where z: "without_objects (tree_of d x) d d'" "set zs = tree_of d x"
    "driver_ok d' (filter (\<lambda>y. y \<notin> tree_of d x) xs) (zs @ ys)" by (auto simp: destroyed_def)
  have l: "lookup_object_hash s (d_names d') \<noteq> None" for s
    using ot.find_law [OF driver_okD(2) [OF z(3)], of s] by (auto simp: lookup_object_hash_def)
  have o: "olook (d_names d') s = Some y \<longleftrightarrow> olook (d_names d) s = Some y \<and> y \<notin> tree_of d x" for s y
    using z(1) by (auto simp: without_objects_def split: option.splits)
  show ?thesis using 1(1) z l o without_dead [OF z(1)]
    by (intro exI [of _ d'] exI [of _ zs]) (simp add: without_objects_def)
qed

section \<open>A destructor that moves its object\<close>

lemma encloses_super:
  assumes "encloses item ob w = Some b"
  shows "\<forall>w'. w_super w' = w_super w \<longrightarrow> encloses item ob w' = Some b"
proof (rule encloses.raw_induct [where P = "\<lambda>item ob w b. \<forall>w'. w_super w' = w_super w \<longrightarrow> encloses item ob w' = Some b", OF _ assms])
  fix enc item ob w b
  assume step: "\<And>item ob w b. enc item ob w = Some b \<Longrightarrow> \<forall>w'. w_super w' = w_super w \<longrightarrow> encloses item ob w' = Some b"
    and body: "(case ob of None \<Rightarrow> Some False | Some x \<Rightarrow> if x = item then Some True else enc item (w_super w x) w) = Some b"
  show "\<forall>w'. w_super w' = w_super w \<longrightarrow> encloses item ob w' = Some b"
  proof (intro allI impI)
    fix w' :: world assume s: "w_super w' = w_super w"
    show "encloses item ob w' = Some b"
    proof (cases ob)
      case None
      then show ?thesis using body by (subst encloses.simps) simp
    next
      case (Some x)
      show ?thesis
      proof (cases "x = item")
        case True
        then show ?thesis using body Some by (subst encloses.simps) simp
      next
        case False
        then have "enc item (w_super w x) w = Some b" using body Some by simp
        then have "encloses item (w_super w x) w' = Some b" using step s by blast
        then show ?thesis using False Some s by (subst encloses.simps) simp
      qed
    qed
  qed
qed

lemma move_lost_object:
  assumes s: "w_super w item = Some env" and l: "linked (ob_next_inv (w_inv w)) xs None" "ob_contains (w_inv w) env = hdo xs None" "item \<notin> set xs"
  shows "\<exists>w'. move_relink item dest w = Some (Some Fatal_super_list, w')"
proof -
  let ?w1 = "if living w item then remove_sent env item w else w"
  let ?w2 = "if living ?w1 env then remove_sent item env ?w1 else ?w1"
  have "move_unlink item (Contains env) False ?w2 = Some (False, fold (part_from item) xs ?w2)"
    using l by (intro move_unlink_absent) simp_all
  then show ?thesis using s by (simp add: move_relink_def Let_def)
qed

text \<open>A destructor that moves its object: an error unwinds it, and \<^verbatim>\<open>fatal()\<close> ends the process.\<close>

definition lpc_move :: "lpc_game \<Rightarrow> nat \<Rightarrow> nat \<Rightarrow> driver \<Rightarrow> (reply \<times> driver) option" where
  "lpc_move game x dest d =
     (case move_object game x dest (d_world d) of
        None \<Rightarrow> None
      | Some (r, w) \<Rightarrow>
          (case r of
             Moved \<Rightarrow> Some (Answer None, d\<lparr>d_world := w\<rparr>)
           | Fatal_super_list \<Rightarrow> None
           | _ \<Rightarrow> Some (Raised, d\<lparr>d_world := w\<rparr>)))"

definition with_destructor :: "(driver \<Rightarrow> (reply \<times> driver) option) \<Rightarrow> nat \<Rightarrow> nat \<Rightarrow> lpc_env \<Rightarrow> lpc_env" where
  "with_destructor f x i E = E\<lparr>g_call := (g_call E)(Destructor x i := f)\<rparr>"

lemma move_after_leaving:
  assumes "driver_ok d xs ys" and "x \<in> set xs" and "w_super (d_world d) x = Some env" and "w_shadowing (d_world d) x = None"
    and "dest \<notin> tree_of d x"
  shows "\<exists>d1. leave_super x d = Some d1 \<and> moves_nothing (d_world d) (d_world d1) \<and> lpc_move game x dest d1 = None"
proof -
  obtain rank where p: "placed (d_world d) rank" using driver_okD(1) [OF assms(1)] by (auto simp: winv_def)
  from leave_super_law [OF p, of x] obtain w' where w': "leave_super x d = Some (d\<lparr>d_world := w'\<rparr>)" "moves_nothing (d_world d) w'"
    "lists_of (w_inv w') (\<lambda>e. filter (\<lambda>y. y \<noteq> x) (inv_list d e))" by blast
  have s: "w_super w' = w_super (d_world d)" "w_shadowing w' x = None" "\<not> dead w' x"
    using w'(2) assms(4) driver_okD(11) [OF assms(1,2)] by (simp_all add: moves_nothing_def dead_def)
  have "encloses x (Some dest) (d_world d) = Some False"
    using encloses_law [OF p, of x dest] assms(5) by (auto simp: tree_of_def)
  then have e: "encloses x (Some dest) w' = Some False" using encloses_super s(1) by blast
  have "w_super w' x = Some env" using s(1) assms(3) by simp
  from move_lost_object [OF this, of "filter (\<lambda>y. y \<noteq> x) (inv_list d env)" dest] w'(3)
  obtain w2 where "move_relink x dest w' = Some (Some Fatal_super_list, w2)" by auto
  then have "move_object game x dest w' = Some (Fatal_super_list, w2)" using e s by (simp add: move_object_def)
  then show ?thesis using w'(1,2) by (simp add: lpc_move_def)
qed

text \<open>C38. A defect: the destructors of an object run when it has left the inventory of its environment but still points to it.  Take
  an ordinary object that is in an environment and has nothing inside, and LPC code that otherwise returns and leaves the tables alone.  When the
  destructor of the object's own program moves it to any other object, destructing it ends in \<^verbatim>\<open>fatal()\<close>; with any destructor in
  its place that returns and leaves the tables alone, it returns.\<close>

theorem destructor_move_fatal:
  assumes ok: "driver_ok d xs ys" and x: "x \<in> set xs" and env: "w_super (d_world d) x = Some env" and e: "inv_list d x = []"
    and ord: "ordinary E d x" and flags: "has_flag (w_flags (d_world d) x) O_CREATED" and dest: "dest \<noteq> x"
    and q: "quiet_calls E" and dtor: "g_inherit E x = ps @ [(False, k)]" "k \<noteq> 0xffff" and n: "2 \<le> n"
  shows "destruct_object n (with_destructor (lpc_move game x dest) x (length ps) E) (Some x) d = None \<and>
    (\<forall>f. (\<forall>d. \<exists>a d'. f d = Some (Answer a, d') \<and> same_tables d d') \<longrightarrow>
       (\<exists>d'. destruct_object n (with_destructor f x (length ps) E) (Some x) d = Some (False, d')))"
proof (intro conjI allI impI)
  have tree: "below (w_inv (d_world d)) x = {}" using below_step [of "w_inv (d_world d)" x] e by simp
  let ?E = "with_destructor (lpc_move game x dest) x (length ps) E"
  have call: "g_call ?E ev = g_call E ev" if "ev \<noteq> Destructor x (length ps)" for ev using that by (simp add: with_destructor_def)
  have os: "\<And>d. ordinary E d x \<Longrightarrow> \<not> essential ?E d x \<and> unshadow x d = d \<and> d_shadowed d x = None"
    using unshadow_ordinary by (auto simp: ordinary_def essential_def with_destructor_def)
  obtain m where m: "n = Suc (Suc m)" using n by (metis Suc_le_D add_2_eq_Suc le_add_diff_inverse)
  obtain a d1 where 1: "g_call E (Destructed_object x) d = Some (Answer a, d1)" "same_tables d d1" using quiet_call [OF q] by blast
  have ok1: "driver_ok d1 xs ys" using ok same_ok [OF 1(2)] by simp
  have c1: "ob_contains (w_inv (d_world d1)) x = None"
    using tree_facts(3) [OF ok1, of x] e 1(2) by (simp add: same_tables_def same_place_def)
  from leave_game_quiet [OF q driver_okD(11) [OF ok1 x]] obtain d2 where 2: "leave_game E x d1 = Some (None, d2)" "same_tables d1 d2" by blast
  have s: "same_tables d d2" by (rule same_tables_trans [OF 1(2) 2(2)])
  have ok2: "driver_ok d2 xs ys" using ok1 same_ok [OF 2(2)] by simp
  have "w_super (d_world d2) x = Some env" "w_shadowing (d_world d2) x = None" "dest \<notin> tree_of d2 x"
    using s env ord tree dest below_same [OF s] by (simp_all add: same_tables_def same_place_def ordinary_def tree_of_def)
  from move_after_leaving [OF ok2 x this] obtain d3 where
    3: "leave_super x d2 = Some d3" "moves_nothing (d_world d2) (d_world d3)" "lpc_move game x dest d3 = None" by blast
  have "w_flags (d_world d3) x = w_flags (d_world d) x" using 3(2) s by (simp add: moves_nothing_def same_tables_def same_place_def)
  then have "call_destructors ?E x d3 = None"
    using flags dtor 3(3) by (simp add: call_destructors_def with_destructor_def nth_append)
  moreover have "g_call ?E (Save_editor x) = g_call E (Save_editor x)" "g_call ?E (Remove_interactive x) = g_call E (Remove_interactive x)"
    "g_editing ?E = g_editing E" by (simp_all add: with_destructor_def)
  then have "leave_game ?E x d1 = Some (None, d2)" using 2(1) by (simp only: leave_game_def)
  ultimately have "destruct_rest ?E x d1 = None" using 3(1) by (simp add: destruct_rest_def)
  then show "destruct_object n ?E (Some x) d = None"
    using 1(1) c1 os [OF ord] os [of d1] ord ordinary_same [OF 1(2)] call [of "Destructed_object x"] driver_okD(11) [OF ok x]
      driver_okD(11) [OF ok1 x] m by simp
next
  fix f assume f: "\<forall>d. \<exists>a d'. f d = Some (Answer a, d') \<and> same_tables d d'"
  have tree: "tree_of d x = {x}" using below_step [of "w_inv (d_world d)" x] e by (simp add: tree_of_def)
  let ?E = "with_destructor f x (length ps) E"
  have "quiet_calls ?E" using q f unfolding quiet_calls_def by (simp add: with_destructor_def)
  moreover have "ordinary ?E d x" using ord by (simp add: ordinary_def essential_def with_destructor_def)
  ultimately show "\<exists>d'. destruct_object n ?E (Some x) d = Some (False, d')"
    using destruct_both [of ?E n] ok x tree n by fastforce
qed

section \<open>An example\<close>

definition demo_enter :: "nat \<Rightarrow> otable \<Rightarrow> otable" where
  "demo_enter x t = (case enter_object_hash x t of Some (Inr t') \<Rightarrow> t' | _ \<Rightarrow> t)"

definition demo_names :: otable where
  "demo_names = demo_enter 1 (demo_enter 2 (demo_enter 3 (new_otable (\<lambda>x. [of_nat x]))))"

definition demo_driver :: driver where
  "demo_driver = \<lparr>d_world = demo_world, d_shadowed = (\<lambda>_. None), d_names = demo_names, d_alarms = init_call_out, d_livings = new_livings,
     next_all = [1 \<mapsto> 2, 2 \<mapsto> 3, 3 \<mapsto> 1], prev_all = [1 \<mapsto> 3, 2 \<mapsto> 1, 3 \<mapsto> 2], obj_list = Some 1, obj_list_destruct = None,
     swap_ob = None, vbfc_object = None, d_reserved = {}, d_interactive = (\<lambda>_. False), d_stack = []\<rparr>"

definition demo_calls :: lpc_env where
  "demo_calls = \<lparr>g_call = (\<lambda>_ d. Some (Answer None, d)), g_resident = (\<lambda>_. False), g_reload = (\<lambda>_ _. None), g_inherit = (\<lambda>_. []), g_editing = (\<lambda>_. False)\<rparr>"

lemma demo_enter_law: "oinv t \<Longrightarrow> olook t (ob_name t x) = None \<Longrightarrow>
    oinv (demo_enter x t) \<and> ob_name (demo_enter x t) = ob_name t \<and> olook (demo_enter x t) = (olook t)(ob_name t x \<mapsto> x)"
  using enter_olook [of t x] by (auto simp: demo_enter_def)

lemma demo_names_law: "oinv demo_names \<and> ob_name demo_names = (\<lambda>x. [of_nat x]) \<and> olook demo_names = [[3] \<mapsto> 3, [2] \<mapsto> 2, [1] \<mapsto> 1]"
proof -
  let ?t = "new_otable (\<lambda>x. [of_nat x])"
  have n: "ob_name ?t = (\<lambda>x. [of_nat x])" "olook ?t = Map.empty" by (simp_all add: new_otable_def fun_eq_iff del: olook_new) (metis new_otable_def olook_new)
  have 1: "oinv (demo_enter 3 ?t) \<and> ob_name (demo_enter 3 ?t) = (\<lambda>x. [of_nat x]) \<and> olook (demo_enter 3 ?t) = [[3] \<mapsto> 3]"
    using demo_enter_law [OF new_otable_inv, of "\<lambda>x. [of_nat x]" 3] n by simp
  have 2: "oinv (demo_enter 2 (demo_enter 3 ?t)) \<and> ob_name (demo_enter 2 (demo_enter 3 ?t)) = (\<lambda>x. [of_nat x]) \<and>
      olook (demo_enter 2 (demo_enter 3 ?t)) = [[3] \<mapsto> 3, [2] \<mapsto> 2]"
    using demo_enter_law [of "demo_enter 3 ?t" 2] 1 by simp
  show ?thesis using demo_enter_law [of "demo_enter 2 (demo_enter 3 ?t)" 1] 2 by (simp add: demo_names_def)
qed

lemma demo_driver_ok: "driver_ok demo_driver [1, 2, 3] []"
  unfolding driver_ok_def
proof (intro conjI)
  show "winv (d_world demo_driver)" using demo_facts(1) by (simp add: demo_driver_def)
  show "oinv (d_names demo_driver)" using demo_names_law by (simp add: demo_driver_def)
  show "co_inv (d_alarms demo_driver)" by (simp add: demo_driver_def init_call_out_def co_wf_def chain_inv_def)
  show "livings_ok (d_livings demo_driver)" using new_livings_ok by (simp add: demo_driver_def)
  show "ring (prev_all demo_driver) (next_all demo_driver) [1, 2, 3]" by (simp add: ring_def demo_driver_def)
  show "\<forall>x\<in>set [1, 2, 3]. \<not> gone_already demo_driver x \<and> olook (d_names demo_driver) (ob_name (d_names demo_driver) x) = Some x"
    using demo_names_law demo_facts(2) by (simp add: demo_driver_def)
  show "\<forall>x y. w_super (d_world demo_driver) x = Some y \<longrightarrow> x \<in> set [1, 2, 3] \<and> y \<in> set [1, 2, 3]"
    by (simp add: demo_driver_def demo_world_def)
qed (simp_all add: demo_driver_def)

lemma demo_tree: "tree_of demo_driver 1 = {1, 2, 3}" "tree_of demo_driver 2 = {2}"
proof -
  have i: "inv_of (w_inv (d_world demo_driver)) ob = (if ob = 1 then [2, 3] else [])" for ob
    using lists_inv_of [OF demo_lists] by (simp add: demo_driver_def)
  have b: "below (w_inv (d_world demo_driver)) 2 = {}" "below (w_inv (d_world demo_driver)) 3 = {}"
    by (subst below_step, simp add: i)+
  have "below (w_inv (d_world demo_driver)) 1 = {2, 3}" by (subst below_step) (simp add: i b)
  then show "tree_of demo_driver 1 = {1, 2, 3}" "tree_of demo_driver 2 = {2}" using b by (simp_all add: tree_of_def)
qed

lemma demo_calls_quiet: "quiet_calls demo_calls" "ordinary demo_calls demo_driver y"
  by (simp_all add: quiet_calls_def demo_calls_def ordinary_def essential_def demo_driver_def demo_world_def)

theorem destruct_object_destroys_witness:
  "\<exists>d' zs. destruct_object 6 demo_calls (Some 1) demo_driver = Some (False, d') \<and> driver_ok d' [] zs \<and> set zs = {1, 2, 3} \<and>
    olook (d_names d') [2] = None"
proof -
  from destruct_object_destroys [OF demo_driver_ok _ demo_calls_quiet(1), of 1 6] demo_calls_quiet(2) obtain d' zs where
    "destruct_object 6 demo_calls (Some 1) demo_driver = Some (False, d')"
    "driver_ok d' (filter (\<lambda>y. y \<notin> tree_of demo_driver 1) [1, 2, 3]) (zs @ [])" "set zs = tree_of demo_driver 1"
    "\<forall>s y. olook (d_names d') s = Some y \<longleftrightarrow> olook (d_names demo_driver) s = Some y \<and> y \<notin> tree_of demo_driver 1" by auto
  moreover have "olook (d_names demo_driver) [2] = Some 2" using demo_names_law by (simp add: demo_driver_def)
  ultimately show ?thesis using demo_tree(1) by (intro exI [of _ d'] exI [of _ zs]) (auto simp: not_Some_eq [symmetric] simp del: not_Some_eq)
qed

definition demo_created :: driver where
  "demo_created = demo_driver\<lparr>d_world := demo_world\<lparr>w_flags := (\<lambda>_. O_CREATED)\<rparr>\<rparr>"

lemma demo_created_law: "driver_ok demo_created [1, 2, 3] []" "w_inv (d_world demo_created) = w_inv demo_world"
proof -
  have "winv (w\<lparr>w_flags := f\<rparr>) = winv w" for w f by (simp add: winv_def placed_def)
  then have "winv (d_world demo_created)" using demo_facts(1) by (simp add: demo_created_def)
  moreover have "\<not> gone_already demo_created x" for x
    by (simp add: dead_def demo_created_def has_flag_def O_CREATED_def O_DESTRUCTED_def)
  moreover have "w_super (d_world demo_created) = w_super (d_world demo_driver)"
    by (simp add: demo_created_def demo_driver_def)
  ultimately show "driver_ok demo_created [1, 2, 3] []"
    using demo_driver_ok unfolding driver_ok_def by (simp add: demo_created_def)
  show "w_inv (d_world demo_created) = w_inv demo_world" by (simp add: demo_created_def)
qed

theorem destructor_move_fatal_witness:
  "destruct_object 2 (with_destructor (lpc_move demo_lpc 2 3) 2 0 (demo_calls\<lparr>g_inherit := (\<lambda>_. [(False, 0)])\<rparr>)) (Some 2) demo_created = None"
proof -
  let ?E = "demo_calls\<lparr>g_inherit := (\<lambda>_. [(False, 0)])\<rparr>"
  have "w_super (d_world demo_created) 2 = Some 1" by (simp add: demo_created_def demo_driver_def demo_world_def)
  moreover have "inv_list demo_created 2 = []"
    using demo_created_law(2) lists_inv_of [OF demo_lists, of 2] by (simp add: demo_driver_def)
  moreover have "ordinary ?E demo_created 2" "quiet_calls ?E"
    by (simp_all add: quiet_calls_def demo_calls_def ordinary_def essential_def demo_created_def demo_driver_def demo_world_def)
  moreover have "has_flag (w_flags (d_world demo_created) 2) O_CREATED"
    by (simp add: demo_created_def demo_driver_def demo_world_def has_flag_def O_CREATED_def)
  ultimately show ?thesis
    using destructor_move_fatal [OF demo_created_law(1), of 2 1 ?E 3 "[]" 0 2 demo_lpc] by (simp add: demo_calls_def)
qed

end
