(* ===== verification/Terminal.thy ===== *)
theory Terminal
  imports C_Stdio
begin

text \<open>
  What the driver does to the text it sends to a terminal and to the names of the hosts it knows (\<^verbatim>\<open>src/comm1.c\<close>): the wrapping
  of words in \<^verbatim>\<open>write_socket\<close>, compiled with \<^verbatim>\<open>WORD_WRAP\<close>, and the table of host names, in which the oldest entry is replaced.

  A text is the list of its bytes without the NUL at its end.  \<^verbatim>\<open>char\<close> is signed.
\<close>

unbundle bit_operations_syntax

section \<open>Wrapping of words\<close>

definition MAX_WRITE_SOCKET_SIZE :: nat where "MAX_WRITE_SOCKET_SIZE = 8192"

text \<open>The bytes that are written together: up to a byte that is no printing one as a signed \<^verbatim>\<open>char\<close>, or up to a hyphen.\<close>

fun word_rest :: "u8 \<Rightarrow> u8 list \<Rightarrow> nat" where
  "word_rest p [] = 0"
| "word_rest p (c # cs) = (if 32 <s c \<and> p \<noteq> 45 then Suc (word_rest c cs) else 0)"

fun word_len :: "u8 list \<Rightarrow> nat" where
  "word_len [] = 0"
| "word_len (c # cs) = Suc (word_rest c cs)"

definition blank :: "u8 \<Rightarrow> bool" where "blank c \<longleftrightarrow> c = 32 \<or> c = 9"

lemma blank_simps [simp]: "blank 9" "blank 32" "\<not> blank 10"
  by (simp_all add: blank_def)

definition skip_newline :: "u8 list \<Rightarrow> u8 list" where
  "skip_newline s = (case s of c # cs \<Rightarrow> if c = 10 then cs else s | [] \<Rightarrow> [])"

lemma word_rest_le: "word_rest p cs \<le> length cs"
  by (induction p cs rule: word_rest.induct) auto

lemma word_len_le: "word_len cp \<le> length cp"
  using word_rest_le by (cases cp) auto

lemma word_len_pos: "cp \<noteq> [] \<Longrightarrow> 0 < word_len cp"
  by (cases cp) auto

lemma skip_newline_le: "length (skip_newline s) \<le> length s"
  by (cases s) (auto simp: skip_newline_def)

text \<open>
  The loop: the width, the column of the cursor, the bytes written to the buffer and the text that is left.  \<^const>\<open>None\<close> is the error
  \<^emph>\<open>Too long message\<close>.
\<close>

function wrap :: "u32 \<Rightarrow> u32 \<Rightarrow> u8 list \<Rightarrow> u8 list \<Rightarrow> (u8 list \<times> u32) option" where
  "wrap w col out [] = Some (out, col)"
| "wrap w col out (c # cs) =
     (if MAX_WRITE_SOCKET_SIZE \<le> length out then None
      else if c = 10 then wrap w 0 (out @ [c]) cs
      else if c = 9 then
        (if w \<le> (col AND NOT 7) + 8 then wrap w 0 (out @ [10]) (dropWhile blank (c # cs))
         else wrap w ((col AND NOT 7) + 8) (out @ [c]) cs)
      else let len = word_len (c # cs)
           in if w \<le> col + of_nat len \<and> w * 4 div 5 < col
              then wrap w 0 (out @ [10]) (skip_newline (dropWhile blank (c # cs)))
              else if MAX_WRITE_SOCKET_SIZE \<le> length out + len then None
              else wrap w (col + of_nat len) (out @ take len (c # cs)) (drop len (c # cs)))"
  by pat_completeness auto
termination
proof (relation "measure (\<lambda>(w, col, out, cp). 2 * length cp + (if col = 0 then 0 else 1))", goal_cases)
  case (3 w col out c cs)
  then show ?case using length_dropWhile_le [of blank cs] by (simp add: blank_def)
next
  case (5 w col out c cs len)
  have "w * 4 div 5 < col" using 5 by simp
  then have "col \<noteq> 0" by auto
  then show ?case using length_dropWhile_le [of blank "c # cs"] skip_newline_le [of "dropWhile blank (c # cs)"] by simp
qed auto

text \<open>With a width of 0 the text is sent as it is.\<close>

definition wrapped :: "u32 \<Rightarrow> u32 \<Rightarrow> u8 list \<Rightarrow> (u8 list \<times> u32) option" where
  "wrapped w col cp =
     (if w \<noteq> 0 then wrap w col [] cp else if MAX_WRITE_SOCKET_SIZE < length cp then None else Some (cp, col))"

text \<open>What a terminal makes of a text: the column of its cursor, and that no line reaches the column \<open>w\<close>.\<close>

definition visible :: "u8 \<Rightarrow> bool" where "visible c \<longleftrightarrow> \<not> blank c \<and> c \<noteq> 10"

definition cursor_step :: "nat \<Rightarrow> u8 \<Rightarrow> nat" where
  "cursor_step n c = (if c = 10 then 0 else if c = 9 then 8 * (n div 8) + 8 else Suc n)"

definition cursor :: "nat \<Rightarrow> u8 list \<Rightarrow> nat" where "cursor n s = foldl cursor_step n s"

definition stays_within :: "nat \<Rightarrow> nat \<Rightarrow> u8 list \<Rightarrow> bool" where
  "stays_within w n s \<longleftrightarrow> (\<forall>k\<le>length s. cursor n (take k s) < w)"

text \<open>Every word is shorter than a fifth of the width.\<close>

fun short_words :: "nat \<Rightarrow> u8 list \<Rightarrow> bool" where
  "short_words w [] \<longleftrightarrow> True"
| "short_words w (c # cs) \<longleftrightarrow> 5 * word_len (c # cs) < w \<and> short_words w cs"

lemma visible_blank: "filter visible (dropWhile blank s) = filter visible s"
  by (induction s) (auto simp: visible_def)

lemma visible_skip: "filter visible (skip_newline s) = filter visible s"
  by (cases s) (auto simp: visible_def skip_newline_def)

text \<open>Reasoning about the loop: what each of its steps keeps holds at the end.\<close>

lemma wrap_invariant:
  assumes "wrap w col out cp = Some (out', col')" and "P col out cp"
    and newline: "\<And>col out cs. P col out (10 # cs) \<Longrightarrow> length out < MAX_WRITE_SOCKET_SIZE \<Longrightarrow> P 0 (out @ [10]) cs"
    and tab_break: "\<And>col out cs. P col out (9 # cs) \<Longrightarrow> length out < MAX_WRITE_SOCKET_SIZE \<Longrightarrow> w \<le> (col AND NOT 7) + 8 \<Longrightarrow>
      P 0 (out @ [10]) (dropWhile blank cs)"
    and tab: "\<And>col out cs. P col out (9 # cs) \<Longrightarrow> length out < MAX_WRITE_SOCKET_SIZE \<Longrightarrow> (col AND NOT 7) + 8 < w \<Longrightarrow>
      P ((col AND NOT 7) + 8) (out @ [9]) cs"
    and break: "\<And>col out c cs. P col out (c # cs) \<Longrightarrow> length out < MAX_WRITE_SOCKET_SIZE \<Longrightarrow> c \<noteq> 10 \<Longrightarrow> c \<noteq> 9 \<Longrightarrow>
      w * 4 div 5 < col \<Longrightarrow> P 0 (out @ [10]) (skip_newline (dropWhile blank (c # cs)))"
    and word: "\<And>col out c cs. P col out (c # cs) \<Longrightarrow> c \<noteq> 10 \<Longrightarrow> c \<noteq> 9 \<Longrightarrow>
      length out + word_len (c # cs) < MAX_WRITE_SOCKET_SIZE \<Longrightarrow>
      col + of_nat (word_len (c # cs)) < w \<or> col \<le> w * 4 div 5 \<Longrightarrow>
      P (col + of_nat (word_len (c # cs))) (out @ take (word_len (c # cs)) (c # cs)) (drop (word_len (c # cs)) (c # cs))"
  shows "P col' out' []"
  using assms
proof (induction w col out cp rule: wrap.induct)
  case (2 w col out c cs)
  let ?n = "word_len (c # cs)"
  note run = \<open>wrap w col out (c # cs) = Some (out', col')\<close> and p = \<open>P col out (c # cs)\<close>
  note rules = 2(8-12)
  have out: "length out < MAX_WRITE_SOCKET_SIZE" using run by (auto split: if_splits)
  show ?case
  proof (cases "c = 10 \<or> c = 9")
    case True
    show ?thesis
    proof (cases "c = 10")
      case True
      then show ?thesis using 2(1) run out rules(1) p rules by simp
    next
      case False
      then have c: "c = 9" using True by simp
      show ?thesis
      proof (cases "w \<le> (col AND NOT 7) + 8")
        case True
        then have "wrap w 0 (out @ [10]) (dropWhile blank (c # cs)) = Some (out', col')" using run out c by simp
        moreover have "P 0 (out @ [10]) (dropWhile blank (c # cs))" using rules(2) [of col out cs] p out c True by simp
        ultimately show ?thesis using 2(2) [OF _ _ c True] out c rules by simp
      next
        case False
        then have "wrap w ((col AND NOT 7) + 8) (out @ [c]) cs = Some (out', col')" using run out c by simp
        moreover have "P ((col AND NOT 7) + 8) (out @ [c]) cs" using rules(3) [of col out cs] p out c False by (simp add: not_le)
        ultimately show ?thesis using 2(3) out c False rules by simp
      qed
    qed
  next
    case c: False
    show ?thesis
    proof (cases "w \<le> col + of_nat ?n \<and> w * 4 div 5 < col")
      case True
      then have "wrap w 0 (out @ [10]) (skip_newline (dropWhile blank (c # cs))) = Some (out', col')"
        using run out c by (simp add: Let_def del: word_len.simps dropWhile.simps)
      moreover have "P 0 (out @ [10]) (skip_newline (dropWhile blank (c # cs)))" using rules(4) [OF p out] c True by blast
      ultimately show ?thesis using 2(4) [OF _ _ _ refl True] out c rules by simp
    next
      case False
      then have n: "length out + ?n < MAX_WRITE_SOCKET_SIZE" using run c out
        by (auto simp: Let_def simp del: word_len.simps split: if_splits)
      have fit: "col + of_nat ?n < w \<or> col \<le> w * 4 div 5" using False by (meson not_le)
      have "wrap w (col + of_nat ?n) (out @ take ?n (c # cs)) (drop ?n (c # cs)) = Some (out', col')"
        using run False out c n by (auto simp: Let_def simp del: word_len.simps split: if_splits)
      moreover have "P (col + of_nat ?n) (out @ take ?n (c # cs)) (drop ?n (c # cs))"
        using rules(5) [OF p _ _ n fit] c by blast
      ultimately show ?thesis using 2(5) [OF _ _ _ refl False] out c n rules by simp
    qed
  qed
qed simp

lemma filter_split: "filter P (take n s) @ filter P (drop n s) = filter P s"
  by (simp only: filter_append [symmetric] append_take_drop_id)

lemma wrap_text:
  assumes "wrap w col out cp = Some (out', col')"
  shows "filter visible out' = filter visible (out @ cp)"
proof -
  have "filter visible (out' @ []) = filter visible (out @ cp)"
  proof (rule wrap_invariant [OF assms, where P = "\<lambda>col t s. filter visible (t @ s) = filter visible (out @ cp)"])
    fix t c cs assume "filter visible (t @ c # cs) = filter visible (out @ cp)"
    then show "filter visible ((t @ take (word_len (c # cs)) (c # cs)) @ drop (word_len (c # cs)) (c # cs)) = filter visible (out @ cp)"
      by (simp only: append_assoc append_take_drop_id)
  qed (simp_all add: visible_skip visible_blank visible_def blank_def del: dropWhile.simps)
  then show ?thesis by simp
qed

lemma wrap_length:
  assumes "wrap w col out cp = Some (out', col')" "length out \<le> MAX_WRITE_SOCKET_SIZE"
  shows "length out' \<le> MAX_WRITE_SOCKET_SIZE"
  by (rule wrap_invariant [OF assms(1), where P = "\<lambda>col t s. length t \<le> MAX_WRITE_SOCKET_SIZE"]) (use assms(2) in \<open>simp_all\<close>)


subsection \<open>Columns\<close>

lemma tab_column:
  assumes "unat col < 2 ^ 30"
  shows "unat ((col AND NOT 7) + 8 :: u32) = 8 * (unat col div 8) + 8"
proof -
  have "col AND NOT 7 = push_bit 3 (drop_bit 3 col)"
  proof (rule bit_eqI)
    fix n assume "possible_bit TYPE(32 word) n"
    then show "bit (col AND NOT 7) n = bit (push_bit 3 (drop_bit 3 col)) n"
      using bit_mask_iff [where ?'a = u32 and m = 3 and n = n] by (auto simp: bit_simps mask_eq_exp_minus_1)
  qed
  also have "\<dots> = of_nat (8 * (unat col div 8))"
    by (simp add: push_bit_eq_mult drop_bit_eq_div word_arith_nat_div)
  finally show ?thesis using assms by (simp add: unat_word_ariths unat_of_nat)
qed

lemma threshold: "unat w < 2 ^ 30 \<Longrightarrow> unat (w * 4 div 5 :: u32) = 4 * unat w div 5"
  by (simp add: unat_div unat_word_ariths)

lemma word_rest_bytes: "x \<in> set (take (word_rest p cs) cs) \<Longrightarrow> 32 <s x"
  by (induction p cs rule: word_rest.induct) (auto split: if_splits)

lemma word_bytes: "x \<in> set (take (word_len (c # cs)) (c # cs)) \<Longrightarrow> x = c \<or> 32 <s x"
  using word_rest_bytes by auto

lemma cursor_simps [simp]: "cursor n [] = n" "cursor n (c # s) = cursor (cursor_step n c) s" "cursor n (s @ t) = cursor (cursor n s) t"
  by (simp_all add: cursor_def)

lemma cursor_plain: "\<forall>x\<in>set s. x \<noteq> 10 \<and> x \<noteq> 9 \<Longrightarrow> cursor n s = n + length s"
  by (induction s arbitrary: n) (auto simp: cursor_step_def)

lemma stays_append:
  assumes "stays_within w n s" "\<And>k. k \<le> length t \<Longrightarrow> cursor (cursor n s) (take k t) < w"
  shows "stays_within w n (s @ t)"
  unfolding stays_within_def
proof (intro allI impI)
  fix k assume k: "k \<le> length (s @ t)"
  show "cursor n (take k (s @ t)) < w"
  proof (cases "k \<le> length s")
    case True
    then show ?thesis using assms(1) by (simp add: stays_within_def)
  next
    case False
    then show ?thesis using assms(2) [of "k - length s"] k by simp
  qed
qed

lemma stays_snoc: "stays_within w n s \<Longrightarrow> cursor_step (cursor n s) c < w \<Longrightarrow> cursor n s < w \<Longrightarrow> stays_within w n (s @ [c])"
  by (rule stays_append) (auto simp: le_Suc_eq)

lemma short_words_drop: "short_words w s \<Longrightarrow> short_words w (drop m s)"
  by (induction s arbitrary: m) (auto simp: drop_Cons' simp del: word_len.simps)

lemma short_words_parts:
  "short_words w s \<Longrightarrow> short_words w (dropWhile blank s)" "short_words w s \<Longrightarrow> short_words w (skip_newline s)"
  "short_words w (c # s) \<Longrightarrow> short_words w s"
proof -
  show "short_words w s \<Longrightarrow> short_words w (dropWhile blank s)"
    using short_words_drop [of w s] by (metis dropWhile_eq_drop)
  show "short_words w s \<Longrightarrow> short_words w (skip_newline s)"
    using short_words_drop [of w s 1] by (cases s) (auto simp: skip_newline_def)
  show "short_words w (c # s) \<Longrightarrow> short_words w s"
    using short_words_drop [of w "c # s" 1] by simp
qed

lemma wrap_columns:
  assumes run: "wrap w col [] cp = Some (out, col')" and w: "unat w < 2 ^ 30" and col: "col < w" and short: "short_words (unat w) cp"
  shows "stays_within (unat w) (unat col) out" "cursor (unat col) out = unat col'"
proof -
  define W where "W = unat w"
  let ?P = "\<lambda>c t s. unat c < W \<and> cursor (unat col) t = unat c \<and> stays_within W (unat col) t \<and> short_words W s"
  have W: "W < 2 ^ 30" using w by (simp add: W_def)
  have "?P col' out []"
  proof (rule wrap_invariant [OF run, where P = ?P])
    show "?P col [] cp" using col short by (simp add: W_def stays_within_def word_less_nat_alt)
  next
    fix c t s assume p: "?P c t (10 # s)"
    then show "?P 0 (t @ [10]) s" using short_words_parts(3) by (auto simp: cursor_step_def intro: stays_snoc)
  next
    fix c t s assume p: "?P c t (9 # s)"
    then show "?P 0 (t @ [10]) (dropWhile blank s)"
      using short_words_parts(1) [OF short_words_parts(3)] by (auto simp: cursor_step_def intro: stays_snoc)
  next
    fix c t s assume p: "?P c t (9 # s)" and lt: "(c AND NOT 7) + 8 < w"
    have "unat ((c AND NOT 7) + 8) = 8 * (unat c div 8) + 8" using p W by (intro tab_column) simp
    moreover have "unat ((c AND NOT 7) + 8) < W" using lt by (simp add: W_def word_less_nat_alt)
    ultimately show "?P ((c AND NOT 7) + 8) (t @ [9]) s"
      using p short_words_parts(3) by (auto simp: cursor_step_def intro: stays_snoc)
  next
    fix c t x s assume p: "?P c t (x # s)"
    then show "?P 0 (t @ [10]) (skip_newline (dropWhile blank (x # s)))"
      using short_words_parts(2) [OF short_words_parts(1)] by (auto simp: cursor_step_def simp del: dropWhile.simps intro: stays_snoc)
  next
    fix c t x s
    let ?n = "word_len (x # s)"
    assume p: "?P c t (x # s)" and x: "x \<noteq> 10" "x \<noteq> 9" and fit: "c + of_nat ?n < w \<or> c \<le> w * 4 div 5"
    have n: "5 * ?n < W" using p by simp
    have sum: "unat (c + of_nat ?n) = unat c + ?n" using p n W by (intro unat_add_lt) simp
    have lt: "unat c + ?n < W"
    proof (cases "c + of_nat ?n < w")
      case True
      then have "unat (c + of_nat ?n) < unat w" by (simp only: word_less_nat_alt)
      then show ?thesis by (simp only: sum W_def)
    next
      case False
      then have "unat c \<le> 4 * W div 5" using fit threshold [OF w] by (simp add: word_le_nat_alt W_def)
      then show ?thesis using n by linarith
    qed
    have "\<not> 32 <s (10 :: u8)" "\<not> 32 <s (9 :: u8)" by (simp_all add: word_sless_alt)
    then have b: "\<forall>y\<in>set (take ?n (x # s)). y \<noteq> 10 \<and> y \<noteq> 9" using word_bytes x by metis
    have c: "cursor m (take k (take ?n (x # s))) = m + min k ?n" for m k
    proof -
      have "\<forall>y\<in>set (take k (take ?n (x # s))). y \<noteq> 10 \<and> y \<noteq> 9" using b by (meson in_set_takeD)
      then have "cursor m (take k (take ?n (x # s))) = m + length (take k (take ?n (x # s)))" by (rule cursor_plain)
      also have "length (take k (take ?n (x # s))) = min k ?n" using word_len_le [of "x # s"] by (simp only: length_take min.assoc min_absorb1 min.absorb1)
      finally show ?thesis .
    qed
    have "cursor (unat col) (t @ take ?n (x # s)) = unat c + ?n" using c [of "unat c" ?n] p by simp
    moreover have "stays_within W (unat col) (t @ take ?n (x # s))"
    proof (rule stays_append)
      show "cursor (cursor (unat col) t) (take k (take ?n (x # s))) < W" for k unfolding c using p lt by (simp del: word_len.simps)
    qed (use p in simp)
    ultimately show "?P (c + of_nat ?n) (t @ take ?n (x # s)) (drop ?n (x # s))"
      using p sum lt short_words_drop by (simp del: word_len.simps)
  qed
  then show "stays_within (unat w) (unat col) out" "cursor (unat col) out = unat col'" by (simp_all add: W_def)
qed


subsection \<open>Short texts\<close>

text \<open>Every byte of the text adds at most two to the buffer: itself, and a line break before it.\<close>

lemma wrap_total:
  "length out + 2 * length cp + (if col = 0 then 0 else 1) < MAX_WRITE_SOCKET_SIZE \<Longrightarrow> wrap w col out cp \<noteq> None"
proof (induction w col out cp rule: wrap.induct)
  case (2 w col out c cs)
  have d: "length (dropWhile blank cs) \<le> length cs" "length (skip_newline (dropWhile blank (c # cs))) \<le> Suc (length cs)"
    using length_dropWhile_le [of blank cs] length_dropWhile_le [of blank "c # cs"] skip_newline_le [of "dropWhile blank (c # cs)"]
    by simp_all
  note n = word_len_le [of "c # cs"] word_len_pos [of "c # cs"]
  have out: "\<not> MAX_WRITE_SOCKET_SIZE \<le> length out" using 2(6) by simp
  show ?case
  proof (cases "c = 10 \<or> c = 9")
    case True
    then show ?thesis using 2(1-3,6) out d(1) by (auto split: if_splits)
  next
    case c: False
    show ?thesis
    proof (cases "w \<le> col + of_nat (word_len (c # cs)) \<and> w * 4 div 5 < col")
      case True
      then have "col \<noteq> 0" by auto
      then have "wrap w 0 (out @ [10]) (skip_newline (dropWhile blank (c # cs))) \<noteq> None"
        using 2(4) [OF out _ _ refl True] 2(6) d(2) c by simp
      then show ?thesis using True out c by (simp add: Let_def del: word_len.simps dropWhile.simps)
    next
      case False
      have m: "length out + word_len (c # cs) < MAX_WRITE_SOCKET_SIZE" using 2(6) n by (simp del: word_len.simps)
      moreover have "length out + word_len (c # cs) + 2 * (Suc (length cs) - word_len (c # cs)) + 1 < MAX_WRITE_SOCKET_SIZE"
        using 2(6) n by (simp del: word_len.simps)
      ultimately have "wrap w (col + of_nat (word_len (c # cs))) (out @ take (word_len (c # cs)) (c # cs)) (drop (word_len (c # cs)) (c # cs)) \<noteq> None"
        using 2(5) [OF out _ _ refl False] n c by (simp add: not_le min_def del: word_len.simps)
      then show ?thesis using False m out c by (auto simp: Let_def simp del: word_len.simps dropWhile.simps split: if_splits)
    qed
  qed
qed simp



text \<open>
  A Polish letter is no printing byte as a signed \<^verbatim>\<open>char\<close>: a line breaks inside the word, in front of it.
\<close>

lemma wrap_breaks_in_word:
  "wrapped 10 0 [97, 98, 99, 100, 101, 102, 103, 104, 105, 179, 97] = Some ([97, 98, 99, 100, 101, 102, 103, 104, 105, 10, 179, 97], 2)"
  by (simp add: wrapped_def MAX_WRITE_SOCKET_SIZE_def word_sless_alt blank_def skip_newline_def)

section \<open>Names of hosts\<close>

definition IPSIZE :: nat where "IPSIZE = 200"

text \<open>The entries and the one that is replaced next.  An address is an \<^verbatim>\<open>unsigned long\<close>.\<close>

record iptab =
  ip_entries :: "(64 word \<times> u8 list option) list"
  ipcur :: nat

definition iptable0 :: iptab where "iptable0 = \<lparr>ip_entries = replicate IPSIZE (0, None), ipcur = 0\<rparr>"

definition add_ip_entry :: "64 word \<Rightarrow> u8 list \<Rightarrow> iptab \<Rightarrow> iptab" where
  "add_ip_entry addr name t =
     (if \<exists>e\<in>set (ip_entries t). fst e = addr then t
      else t\<lparr>ip_entries := (ip_entries t)[ipcur t := (addr, Some name)], ipcur := (ipcur t + 1) mod IPSIZE\<rparr>)"

definition lookup_ip :: "u32 \<Rightarrow> iptab \<Rightarrow> u8 list option" where
  "lookup_ip addr t = Option.bind (find (\<lambda>(a, n). a = ucast addr \<and> n \<noteq> None) (ip_entries t)) snd"

text \<open>\<^verbatim>\<open>inet_ntoa\<close>, on a machine that stores the low byte first.\<close>

definition inet_ntoa :: "u32 \<Rightarrow> u8 list" where
  "inet_ntoa a = (let d = (\<lambda>k. dec_nat (unat (ucast (drop_bit (8 * k) a) :: u8))) in d 0 @ [46] @ d 1 @ [46] @ d 2 @ [46] @ d 3)"

text \<open>The names that should be known: the last 200 addresses, of which only the first name given to each is kept.\<close>

definition remember :: "(64 word \<times> u8 list) list \<Rightarrow> 64 word \<times> u8 list \<Rightarrow> (64 word \<times> u8 list) list" where
  "remember es e = (if fst e \<in> fst ` set es then es else take IPSIZE (e # es))"

definition host_tab :: "iptab \<Rightarrow> (64 word \<times> u8 list) list \<Rightarrow> bool" where
  "host_tab t es \<longleftrightarrow> length es \<le> IPSIZE \<and> distinct (map fst es) \<and> 0 \<notin> fst ` set es \<and> ipcur t < IPSIZE \<and>
     (if length es < IPSIZE then ipcur t = length es \<and> ip_entries t = map (\<lambda>(a, n). (a, Some n)) (rev es) @ replicate (IPSIZE - length es) (0, None)
      else rotate (ipcur t) (ip_entries t) = map (\<lambda>(a, n). (a, Some n)) (rev es))"

abbreviation named :: "64 word \<times> u8 list \<Rightarrow> 64 word \<times> u8 list option" where
  "named \<equiv> \<lambda>(a, n). (a, Some n)"

lemma host_tab_new: "host_tab iptable0 []"
  by (simp add: host_tab_def iptable0_def IPSIZE_def)

lemma host_tab_entries:
  assumes "host_tab t es"
  shows "(a, Some n) \<in> set (ip_entries t) \<longleftrightarrow> (a, n) \<in> set es" "a \<noteq> 0 \<Longrightarrow> (\<exists>e\<in>set (ip_entries t). fst e = a) \<longleftrightarrow> a \<in> fst ` set es"
proof -
  have "set (ip_entries t) = named ` set es \<or> set (ip_entries t) = named ` set es \<union> {(0, None)}"
  proof (cases "length es < IPSIZE")
    case True
    then show ?thesis using assms by (simp add: host_tab_def)
  next
    case False
    then have "set (rotate (ipcur t) (ip_entries t)) = named ` set es" using assms unfolding host_tab_def by simp
    then show ?thesis by simp
  qed
  then have m: "(a, v) \<in> set (ip_entries t) \<longleftrightarrow> (\<exists>n. v = Some n \<and> (a, n) \<in> set es) \<or> (a, v) = (0, None) \<and> (a, v) \<in> set (ip_entries t)" for a v
    by auto
  show "(a, Some n) \<in> set (ip_entries t) \<longleftrightarrow> (a, n) \<in> set es" using m [of a "Some n"] by auto
  show "a \<noteq> 0 \<Longrightarrow> (\<exists>e\<in>set (ip_entries t). fst e = a) \<longleftrightarrow> a \<in> fst ` set es" using m [of a] by force
qed

lemma replace_oldest:
  assumes "i < length xs"
  shows "rotate ((i + 1) mod length xs) (xs[i := e]) = tl (rotate i xs) @ [e]"
proof -
  have u: "xs[i := e] = take i xs @ e # drop (Suc i) xs" using assms by (rule upd_conv_take_nth_drop)
  have l: "rotate ((i + 1) mod length xs) (xs[i := e]) = rotate (i + 1) (xs[i := e])"
    by (metis length_list_update rotate_conv_mod)
  have "rotate (i + 1) (xs[i := e]) = drop (Suc i) xs @ take i xs @ [e]"
    using rotate_append [of "take i xs @ [e]" "drop (Suc i) xs"] assms u by simp
  moreover have "rotate i xs = drop i xs @ take i xs" using assms by (simp add: rotate_drop_take)
  moreover have "drop i xs = xs ! i # drop (Suc i) xs" using assms by (simp add: Cons_nth_drop_Suc)
  ultimately show ?thesis using l by simp
qed

lemma host_tab_add:
  assumes t: "host_tab t es" and a: "a \<noteq> 0"
  shows "host_tab (add_ip_entry a n t) (remember es (a, n))"
proof (cases "a \<in> fst ` set es")
  case True
  then show ?thesis using t host_tab_entries(2) [OF t a] by (simp add: add_ip_entry_def remember_def)
next
  case new: False
  let ?t = "add_ip_entry a n t"
  have add: "ip_entries ?t = (ip_entries t)[ipcur t := (a, Some n)]" "ipcur ?t = (ipcur t + 1) mod IPSIZE"
    using new host_tab_entries(2) [OF t a] by (simp_all add: add_ip_entry_def)
  show ?thesis
  proof (cases "length es < IPSIZE")
    case True
    define k where "k = IPSIZE - length es - 1"
    have k: "IPSIZE - length es = Suc k" "IPSIZE - Suc (length es) = k" using True by (simp_all add: k_def)
    have r: "remember es (a, n) = (a, n) # es" using new True by (simp add: remember_def)
    have e: "ip_entries ?t = map named (rev ((a, n) # es)) @ replicate k (0, None)" and c: "ipcur t = length es"
      using t True k add by (simp_all add: host_tab_def list_update_append)
    show ?thesis
    proof (cases "Suc (length es) < IPSIZE")
      case True
      moreover have "ipcur ?t = Suc (length es)" using True add(2) c by simp
      moreover have "ip_entries ?t = map named (rev ((a, n) # es)) @ replicate (IPSIZE - length ((a, n) # es)) (0, None)" using e k by simp
      ultimately show ?thesis using t a new unfolding r host_tab_def by simp
    next
      case False
      then have f: "k = 0" "Suc (length es) = IPSIZE" using True by (simp_all add: k_def)
      then have "ipcur ?t = 0" "0 < IPSIZE" using add(2) c by simp_all
      moreover have "ip_entries ?t = map named (rev ((a, n) # es))" using e f by simp
      ultimately show ?thesis using t a new f unfolding r host_tab_def by simp
    qed
  next
    case False
    then have l: "length es = IPSIZE" "rotate (ipcur t) (ip_entries t) = map named (rev es)" using t by (simp_all add: host_tab_def)
    then have len: "length (ip_entries t) = IPSIZE" by (metis length_map length_rev length_rotate)
    have r: "remember es (a, n) = (a, n) # butlast es" using new l(1) by (cases IPSIZE) (simp_all add: remember_def butlast_conv_take IPSIZE_def)
    have "rotate (ipcur ?t) (ip_entries ?t) = tl (map named (rev es)) @ [(a, Some n)]"
      using replace_oldest [of "ipcur t" "ip_entries t" "(a, Some n)"] t l(2) add by (simp add: host_tab_def len)
    also have "tl (map named (rev es)) = map named (rev (butlast es))" using butlast_rev [of "rev es"] by (simp add: map_tl)
    finally have "rotate (ipcur ?t) (ip_entries ?t) = map named (rev (remember es (a, n)))" by (simp add: r)
    moreover have "length (remember es (a, n)) = IPSIZE" using l(1) by (simp add: r IPSIZE_def)
    moreover have "distinct (map fst (remember es (a, n)))" "0 \<notin> fst ` set (remember es (a, n))"
    proof -
      have b: "distinct (butlast (map fst es))" "x \<in> set (butlast es) \<Longrightarrow> x \<in> set es" for x
        using t by (simp_all add: host_tab_def distinct_butlast in_set_butlastD)
      then show "distinct (map fst (remember es (a, n)))" using new b(2) unfolding r by (force simp: map_butlast [symmetric])
      show "0 \<notin> fst ` set (remember es (a, n))" using t a b(2) unfolding r host_tab_def by auto
    qed
    moreover have "ipcur ?t < IPSIZE" using add(2) by (simp add: IPSIZE_def)
    ultimately show ?thesis by (simp add: host_tab_def)
  qed
qed

lemma host_tab_lookup:
  assumes t: "host_tab t es"
  shows "lookup_ip a t = map_of es (ucast a)"
proof -
  let ?P = "\<lambda>(b :: 64 word, n :: u8 list option). b = ucast a \<and> n \<noteq> None"
  have d: "distinct (map fst es)" using t by (simp add: host_tab_def)
  show ?thesis
  proof (cases "find ?P (ip_entries t)")
    case None
    then have "(ucast a, n) \<notin> set es" for n using host_tab_entries(1) [OF t, of "ucast a" n] by (auto simp: find_None_iff)
    then have "map_of es (ucast a) = None" by (force simp: map_of_eq_None_iff)
    then show ?thesis using None by (simp add: lookup_ip_def)
  next
    case (Some e)
    then obtain n where e: "e = (ucast a, Some n)" "e \<in> set (ip_entries t)" by (auto simp: find_Some_iff in_set_conv_nth)
    then have "(ucast a, n) \<in> set es" using host_tab_entries(1) [OF t] by simp
    then show ?thesis using Some e d by (simp add: lookup_ip_def)
  qed
qed

text \<open>The table of host names is a memory of the last 200 addresses that the name server answered for: whatever answers have come,
  the lookup of an address gives the name that \<open>remember\<close> keeps for it, the oldest address being forgotten when there are more than
  200 and a new name for a known address being ignored.\<close>

lemma host_names_refine:
  assumes "0 \<notin> fst ` set es"
  shows "lookup_ip a (fold (\<lambda>(addr, name). add_ip_entry addr name) es iptable0) = map_of (fold (\<lambda>e r. remember r e) es []) (ucast a)"
proof -
  have "host_tab t r \<Longrightarrow> 0 \<notin> fst ` set es \<Longrightarrow>
    host_tab (fold (\<lambda>(addr, name). add_ip_entry addr name) es t) (fold (\<lambda>e r. remember r e) es r)" for t r
    by (induction es arbitrary: t r) (auto simp: host_tab_add)
  from host_tab_lookup [OF this [OF host_tab_new assms]] show ?thesis .
qed

lemma host_names_example:
  "lookup_ip 16777343 (fold (\<lambda>(addr, name). add_ip_entry addr name) [(16777343, [97]), (5, [98]), (16777343, [99])] iptable0) = Some [97]"
  using host_names_refine [of "[(16777343, [97]), (5, [98]), (16777343, [99])]" 16777343] by (simp add: remember_def IPSIZE_def)

end
