(* ===== verification/Players.thy ===== *)
theory Players
  imports Terminal Svalue
begin

text \<open>
  The players (\<^verbatim>\<open>src/comm1.c\<close>): the table of the interactive connections, how they are attached to objects, passed on from one object
  to another and closed, the pairs of players of whom one reads what the other is sent (\<^emph>\<open>snooping\<close>), messages, and the input
  of a line.

  An \<^verbatim>\<open>interactive\<close> is allocated at an address; \<open>c_ips\<close> has those that are not freed, so that an access through a pointer to a freed one has no
  value.  What LPC code does when the driver calls it is the parameter \<open>e_call\<close>: it may change everything; \<open>Lpc_raised\<close> is an error that
  unwinds the driver, and \<open>Crashed\<close> the end of the process.  The line editor, the command parser, \<^verbatim>\<open>random()\<close>, the clock and closures are parameters as well.  A function
  gives \<^const>\<open>None\<close> when it calls \<^verbatim>\<open>fatal()\<close> or uses memory it must not use, and otherwise its value (\<^const>\<open>None\<close> when an error unwinds it) and
  the state.  Calls of the Telnet server and of the name server, and what goes to standard error, are recorded in \<open>c_log\<close>.  Reference counts are left out.
\<close>

unbundle bit_operations_syntax

section \<open>State\<close>

definition MAX_PLAYERS :: nat where "MAX_PLAYERS = 500"

definition MAX_SNOOP_MSG_SIZE :: nat where "MAX_SNOOP_MSG_SIZE = 10000"

record interactive =
  ip_tp :: nat
  ip_ob :: nat
  ip_input_to :: "nat option"
  ip_addr :: u32
  ip_prompt :: "u8 list"
  ip_closing :: bool
  ip_do_close :: bool
  ip_snoop_on :: "nat option"
  ip_snoop_by :: "nat option"
  ip_noecho :: bool
  ip_last_time :: nat
  ip_default_err :: "u8 list option"
  ip_ed_buffer :: bool
  ip_rname :: "u8 list option"
  ip_lport :: u32
  ip_rport :: u32
  ip_screen_width :: u32
  ip_current_column :: u32

datatype comm_output =
    Telnet_output nat "u8 list"
  | Telnet_detach nat
  | Telnet_echo nat bool
  | To_stderr "u8 list"
  | Ask_host_name "u8 list option" u16 u16

record comm =
  all_players :: "nat option list"
  num_player :: int
  c_ips :: "nat \<rightharpoonup> interactive"
  c_next :: nat
  c_interactive :: "nat \<rightharpoonup> nat"
  c_destructed :: "nat \<Rightarrow> bool"
  c_once :: "nat \<Rightarrow> bool"
  c_giver :: "nat option"
  c_current :: "nat option"
  c_iptable :: iptab
  c_log :: "comm_output list"

text \<open>Calls of LPC code and of the parts of the driver that are not modelled, which may call it.\<close>

datatype lpc_event =
    Catch_tell nat "u8 list"
  | Valid_snoop "nat option" nat "nat option"
  | Valid_exec "u8 list" "nat option" nat
  | Connect
  | Logon nat
  | Left_game nat bool
  | Save_ed_buffer nat
  | Ed_cmd "u8 list"
  | Parse_command "u8 list" nat
  | Call_closure nat "u8 list"
  | Process_string "u8 list"

datatype lpc_answer = Lpc_raised | Returned "sval option" | Crashed

record comm_env =
  e_call :: "lpc_event \<Rightarrow> comm \<Rightarrow> lpc_answer \<times> comm"
  e_master :: nat
  e_random :: "comm \<Rightarrow> u32"
  e_time :: "comm \<Rightarrow> nat"
  e_legal :: "nat \<Rightarrow> comm \<Rightarrow> bool"
  e_funobj :: "nat \<Rightarrow> nat"
  e_super :: "nat \<Rightarrow> comm \<Rightarrow> bool"
  e_port :: u32
  e_no_ip_demon :: bool

type_synonym 'a cresult = "('a option \<times> comm) option"

text \<open>A call, and going on after a call that returned.\<close>

definition lpc :: "comm_env \<Rightarrow> lpc_event \<Rightarrow> comm \<Rightarrow> sval option cresult" where
  "lpc E ev st = (case e_call E ev st of (Lpc_raised, st) \<Rightarrow> Some (None, st) | (Returned v, st) \<Rightarrow> Some (Some v, st) | (Crashed, _) \<Rightarrow> None)"

definition go_on :: "'a cresult \<Rightarrow> ('a \<Rightarrow> comm \<Rightarrow> 'b cresult) \<Rightarrow> 'b cresult" where
  "go_on r f = (case r of None \<Rightarrow> None | Some (None, st) \<Rightarrow> Some (None, st) | Some (Some a, st) \<Rightarrow> f a st)"

definition log_out :: "comm_output \<Rightarrow> comm \<Rightarrow> comm" where
  "log_out x st = st\<lparr>c_log := c_log st @ [x]\<rparr>"

definition set_ip :: "nat \<Rightarrow> (interactive \<Rightarrow> interactive) \<Rightarrow> comm \<Rightarrow> comm option" where
  "set_ip p f st = (case c_ips st p of None \<Rightarrow> None | Some ip \<Rightarrow> Some (st\<lparr>c_ips := (c_ips st)(p \<mapsto> f ip)\<rparr>))"

section \<open>Messages\<close>

definition to_stderr :: "u8 list \<Rightarrow> comm \<Rightarrow> unit cresult" where
  "to_stderr s st = Some (Some (), log_out (To_stderr s) st)"

text \<open>
  The message for an object that reads along: \<^verbatim>\<open>vsnprintf\<close> cuts it to the buffer.  An object without its own, or a destructed
  one, makes it go to standard error.
\<close>

definition add_message2 :: "comm_env \<Rightarrow> nat \<Rightarrow> u8 list \<Rightarrow> comm \<Rightarrow> unit cresult" where
  "add_message2 E ob s st =
     (let buff = take (MAX_SNOOP_MSG_SIZE - 1) s
      in if \<not> c_destructed st ob then go_on (lpc E (Catch_tell ob buff) st) (\<lambda>_ st. Some (Some (), st)) else to_stderr buff st)"

text \<open>The message for the one who gave the command: \<^verbatim>\<open>vsprintf\<close> writes to a buffer of 10000 bytes.\<close>

definition add_message :: "comm_env \<Rightarrow> u8 list \<Rightarrow> comm \<Rightarrow> unit cresult" where
  "add_message E s st =
     (if 10000 \<le> length s then None
      else case c_giver st of
             Some g \<Rightarrow> if \<not> c_destructed st g then go_on (lpc E (Catch_tell g s) st) (\<lambda>_ st. Some (Some (), st)) else to_stderr s st
           | None \<Rightarrow> to_stderr s st)"

text \<open>The text of a player who is snooped is cut, in place, and a copy goes to the snooper.\<close>

definition tell_snooper :: "comm_env \<Rightarrow> nat \<Rightarrow> u8 list \<Rightarrow> u8 list \<Rightarrow> u8 list \<Rightarrow> comm \<Rightarrow> u8 list cresult" where
  "tell_snooper E p pre cp post st = do {
     ip \<leftarrow> c_ips st p;
     (case ip_snoop_by ip of
        None \<Rightarrow> Some (Some cp, st)
      | Some q \<Rightarrow> do {
          let cp = (if MAX_SNOOP_MSG_SIZE < length cp + 10 then take (MAX_SNOOP_MSG_SIZE - 10) cp else cp);
          snooper \<leftarrow> c_ips st q;
          go_on (add_message2 E (ip_ob snooper) (pre @ cp @ post) st) (\<lambda>_ st. Some (Some cp, st)) }) }"

text \<open>The text goes to the terminal of \<open>ip\<close>.\<close>

definition send_text :: "nat \<Rightarrow> u8 list \<Rightarrow> comm \<Rightarrow> unit cresult" where
  "send_text p cp st = do {
     ip \<leftarrow> c_ips st p;
     (case wrapped (ip_screen_width ip) (ip_current_column ip) cp of
        None \<Rightarrow> Some (None, st)
      | Some (buf, col) \<Rightarrow> do {
          st \<leftarrow> set_ip p (\<lambda>ip. ip\<lparr>ip_current_column := col\<rparr>) st;
          Some (Some (), log_out (Telnet_output (ip_tp ip) buf) st) }) }"

definition write_socket :: "comm_env \<Rightarrow> u8 list \<Rightarrow> nat option \<Rightarrow> comm \<Rightarrow> unit cresult" where
  "write_socket E cp ob st =
     (case ob of
        None \<Rightarrow> to_stderr cp st
      | Some o1 \<Rightarrow>
          if c_destructed st o1 then to_stderr cp st
          else case c_interactive st o1 of
                 None \<Rightarrow> to_stderr cp st
               | Some p \<Rightarrow> do {
                   ip \<leftarrow> c_ips st p;
                   (if ip_do_close ip then to_stderr cp st
                    else go_on (tell_snooper E p [37] cp [] st) (send_text p)) })"

section \<open>Snooping\<close>

text \<open>\<^verbatim>\<open>by->snoop_on->snoop_by = 0; by->snoop_on = 0\<close>, and the same the other way round.\<close>

definition stop_snooping :: "nat \<Rightarrow> comm \<Rightarrow> comm option" where
  "stop_snooping p st = do {
     ip \<leftarrow> c_ips st p;
     (case ip_snoop_on ip of
        None \<Rightarrow> Some st
      | Some q \<Rightarrow> do {
          st \<leftarrow> set_ip q (\<lambda>ip. ip\<lparr>ip_snoop_by := None\<rparr>) st;
          set_ip p (\<lambda>ip. ip\<lparr>ip_snoop_on := None\<rparr>) st }) }"

definition stop_snooped :: "nat \<Rightarrow> comm \<Rightarrow> comm option" where
  "stop_snooped p st = do {
     ip \<leftarrow> c_ips st p;
     (case ip_snoop_by ip of
        None \<Rightarrow> Some st
      | Some q \<Rightarrow> do {
          st \<leftarrow> set_ip q (\<lambda>ip. ip\<lparr>ip_snoop_on := None\<rparr>) st;
          set_ip p (\<lambda>ip. ip\<lparr>ip_snoop_by := None\<rparr>) st }) }"

text \<open>The connections of the snooper and of the one to be snooped.\<close>

fun find_snoopers :: "nat \<Rightarrow> nat option \<Rightarrow> comm \<Rightarrow> nat option list \<Rightarrow> nat option \<Rightarrow> nat option \<Rightarrow> (nat option \<times> nat option) option" where
  "find_snoopers me you st [] on by_p = Some (on, by_p)"
| "find_snoopers me you st (e # es) on by_p =
     (if on \<noteq> None \<and> by_p \<noteq> None then Some (on, by_p)
      else case e of
             None \<Rightarrow> find_snoopers me you st es on by_p
           | Some p \<Rightarrow> do {
               ip \<leftarrow> c_ips st p;
               (if ip_ob ip = me then find_snoopers me you st es on (Some p)
                else if Some (ip_ob ip) = you then find_snoopers me you st es (Some p) by_p
                else find_snoopers me you st es on by_p) })"

text \<open>Whether \<open>target\<close> is on the chain of those that the snooped one snoops.\<close>

partial_function (option) snoop_chain :: "comm \<Rightarrow> nat \<Rightarrow> nat option \<Rightarrow> bool option" where
  "snoop_chain st target tmp =
     (case tmp of
        None \<Rightarrow> Some False
      | Some p \<Rightarrow> if p = target then Some True else do { ip \<leftarrow> c_ips st p; snoop_chain st target (ip_snoop_on ip) })"

definition permits :: "sval option \<Rightarrow> bool" where
  "permits v = (case v of None \<Rightarrow> True | Some (T_NUMBER n) \<Rightarrow> n \<noteq> 0 | Some _ \<Rightarrow> False)"

definition snoop_allowed :: "comm_env \<Rightarrow> nat \<Rightarrow> nat option \<Rightarrow> comm \<Rightarrow> bool cresult" where
  "snoop_allowed E me you st =
     (if c_current st = Some (e_master E) then Some (Some True, st)
      else go_on (lpc E (Valid_snoop (c_current st) me you) st) (\<lambda>v st. Some (Some (permits v), st)))"

definition stop_snoop :: "nat option \<Rightarrow> comm \<Rightarrow> bool cresult" where
  "stop_snoop by_p st =
     (case by_p of
        None \<Rightarrow> Some (None, st)
      | Some p \<Rightarrow> do { st \<leftarrow> stop_snooping p st; Some (Some True, st) })"

definition start_snoop :: "nat option \<Rightarrow> nat option \<Rightarrow> comm \<Rightarrow> bool cresult" where
  "start_snoop on by_p st =
     (case (on, by_p) of
        (Some q, Some p) \<Rightarrow> do {
          loop \<leftarrow> snoop_chain st p (Some q);
          (if loop then Some (Some False, st)
           else do {
             st \<leftarrow> stop_snooping p st;
             st \<leftarrow> stop_snooped q st;
             st \<leftarrow> set_ip q (\<lambda>ip. ip\<lparr>ip_snoop_by := Some p\<rparr>) st;
             st \<leftarrow> set_ip p (\<lambda>ip. ip\<lparr>ip_snoop_on := Some q\<rparr>) st;
             Some (Some True, st) }) }
      | _ \<Rightarrow> Some (Some False, st))"

definition set_snoop :: "comm_env \<Rightarrow> nat \<Rightarrow> nat option \<Rightarrow> comm \<Rightarrow> bool cresult" where
  "set_snoop E me you st =
     (if c_destructed st me \<or> (case you of None \<Rightarrow> False | Some y \<Rightarrow> c_destructed st y) then Some (Some False, st)
      else do {
        (on, by_p) \<leftarrow> find_snoopers me you st (all_players st) None None;
        go_on (snoop_allowed E me you st) (\<lambda>ok st.
          if \<not> ok then Some (Some False, st) else if you = None then stop_snoop by_p st else start_snoop on by_p st) })"

definition query_snoop :: "nat \<Rightarrow> comm \<Rightarrow> nat option option" where
  "query_snoop ob st = do {
     p \<leftarrow> c_interactive st ob;
     ip \<leftarrow> c_ips st p;
     (case ip_snoop_by ip of None \<Rightarrow> Some None | Some q \<Rightarrow> do { snooper \<leftarrow> c_ips st q; Some (Some (ip_ob snooper)) }) }"

definition f_query_snoop :: "comm_env \<Rightarrow> nat \<Rightarrow> comm \<Rightarrow> nat option option" where
  "f_query_snoop E ob st = (if c_current st = Some (e_master E) \<and> c_interactive st ob \<noteq> None then query_snoop ob st else Some None)"

text \<open>The efun \<^verbatim>\<open>snoop\<close>, with one argument or with two.\<close>

definition f_snoop :: "comm_env \<Rightarrow> nat \<Rightarrow> nat option \<Rightarrow> comm \<Rightarrow> nat option cresult" where
  "f_snoop E me you st =
     (if c_giver st = None then Some (Some None, st)
      else go_on (set_snoop E me you st) (\<lambda>ok st. Some (Some (if ok then Some (case you of None \<Rightarrow> me | Some y \<Rightarrow> y) else None), st)))"

section \<open>Connections\<close>

definition give_order :: "nat option \<Rightarrow> comm \<Rightarrow> comm" where "give_order g st = st\<lparr>c_giver := g\<rparr>"

definition farewell :: "u32 \<Rightarrow> u8 list" where
  "farewell r =
     (if r mod 2 = 0 then [68, 111, 32, 122, 111, 98, 97, 99, 122, 101, 110, 105, 97, 33, 10]
      else [79, 112, 117, 115, 122, 99, 122, 97, 115, 122, 32, 114, 101, 97, 108, 110, 121, 32, 115, 119, 105, 97, 116, 46, 10])"

definition saving_editor :: "u8 list" where
  "saving_editor = [83, 97, 118, 105, 110, 103, 32, 101, 100, 105, 116, 111, 114, 32, 98, 117, 102, 102, 101, 114, 46, 10]"

text \<open>The first place of the table that holds \<open>e\<close>.\<close>

fun find_place :: "nat option \<Rightarrow> nat option list \<Rightarrow> nat option" where
  "find_place e [] = None"
| "find_place e (x # xs) = (if x = e then Some 0 else map_option Suc (find_place e xs))"

text \<open>The connection of \<open>ob\<close>, at the place \<open>i\<close> of the table, is freed; the master object is told.\<close>

definition free_interactive :: "nat \<Rightarrow> nat \<Rightarrow> comm \<Rightarrow> comm option" where
  "free_interactive ob i st = do {
     q \<leftarrow> c_interactive st ob;
     ip \<leftarrow> c_ips st q;
     let st = log_out (Telnet_detach (ip_tp ip)) st;
     Some (st\<lparr>num_player := num_player st - 1, c_ips := (c_ips st)(q := None), c_interactive := (c_interactive st)(ob := None),
              all_players := (all_players st)[i := None]\<rparr>) }"

definition close_interactive :: "comm_env \<Rightarrow> nat \<Rightarrow> nat \<Rightarrow> bool \<Rightarrow> nat option \<Rightarrow> comm \<Rightarrow> unit cresult" where
  "close_interactive E ob i link_dead save st =
     (case c_interactive st ob of
        None \<Rightarrow> Some (Some (), st)
      | Some q \<Rightarrow> do {
          st \<leftarrow> set_ip q (\<lambda>ip. ip\<lparr>ip_closing := True\<rparr>) st;
          st \<leftarrow> stop_snooped q st;
          st \<leftarrow> stop_snooping q st;
          go_on (write_socket E (farewell (e_random E st)) (c_giver st) st) (\<lambda>_ st. do {
            st \<leftarrow> free_interactive ob i st;
            go_on (lpc E (Left_game ob link_dead) st) (\<lambda>_ st. Some (Some (), give_order save st)) }) })"

definition disconnect :: "comm_env \<Rightarrow> nat \<Rightarrow> bool \<Rightarrow> comm \<Rightarrow> unit cresult" where
  "disconnect E p link_dead st = do {
     ip \<leftarrow> c_ips st p;
     let ob = ip_ob ip;
     (case c_interactive st ob of
        None \<Rightarrow> Some (Some (), st)
      | Some q \<Rightarrow> do {
          i \<leftarrow> find_place (Some q) (all_players st);
          ipq \<leftarrow> c_ips st q;
          (if ip_closing ipq then None
           else let save = c_giver st; st = give_order (Some ob) st
                in go_on (if ip_ed_buffer ipq
                          then go_on (add_message E saving_editor st) (\<lambda>_ st. lpc E (Save_ed_buffer ob) st)
                          else Some (Some None, st))
                     (\<lambda>_ st. close_interactive E ob i link_dead save st)) }) }"

text \<open>The \<open>i\<close>th player, and all of them.\<close>

fun nth_player :: "comm \<Rightarrow> nat option list \<Rightarrow> int \<Rightarrow> nat option" where
  "nth_player st [] i = None"
| "nth_player st (None # es) i = nth_player st es i"
| "nth_player st (Some p # es) i = (if i = 0 then map_option ip_ob (c_ips st p) else nth_player st es (i - 1))"

definition get_interactive_object :: "int \<Rightarrow> comm \<Rightarrow> nat option" where
  "get_interactive_object i st = (if num_player st \<le> i then None else nth_player st (all_players st) i)"

definition users :: "comm \<Rightarrow> nat list option" where
  "users st = (if num_player st = 0 then Some [] else those (map (\<lambda>i. get_interactive_object i st) [0..num_player st - 1]))"

text \<open>The address of a player, as it is written and as the name server calls it.\<close>

definition ip_of :: "nat option \<Rightarrow> comm \<Rightarrow> interactive option option" where
  "ip_of ob st =
     (case (case ob of None \<Rightarrow> c_giver st | Some x \<Rightarrow> Some x) of
        None \<Rightarrow> Some None
      | Some x \<Rightarrow> (case c_interactive st x of None \<Rightarrow> Some None | Some p \<Rightarrow> map_option Some (c_ips st p)))"

definition query_ip_number :: "nat option \<Rightarrow> comm \<Rightarrow> u8 list option option" where
  "query_ip_number ob st = map_option (map_option (\<lambda>ip. inet_ntoa (ip_addr ip))) (ip_of ob st)"

definition query_ip_name :: "nat option \<Rightarrow> comm \<Rightarrow> u8 list option option" where
  "query_ip_name ob st =
     map_option (map_option (\<lambda>ip. case lookup_ip (ip_addr ip) (c_iptable st) of Some n \<Rightarrow> n | None \<Rightarrow> inet_ntoa (ip_addr ip))) (ip_of ob st)"

text \<open>A new connection belongs to the master object, until the object that is to be the player is known.\<close>

definition new_interactive :: "comm_env \<Rightarrow> nat \<Rightarrow> u32 \<Rightarrow> u16 \<Rightarrow> comm \<Rightarrow> interactive" where
  "new_interactive E tp addr port st =
     \<lparr>ip_tp = tp, ip_ob = e_master E, ip_input_to = None, ip_addr = addr, ip_prompt = [62, 32], ip_closing = False,
      ip_do_close = False, ip_snoop_on = None, ip_snoop_by = None, ip_noecho = False, ip_last_time = e_time E st,
      ip_default_err = None, ip_ed_buffer = False, ip_rname = None, ip_lport = e_port E, ip_rport = ucast port,
      ip_screen_width = 0, ip_current_column = 0\<rparr>"

definition open_connection :: "comm_env \<Rightarrow> nat \<Rightarrow> nat \<Rightarrow> u32 \<Rightarrow> u16 \<Rightarrow> comm \<Rightarrow> comm" where
  "open_connection E i tp addr port st =
     (let p = c_next st; m = e_master E
      in st\<lparr>c_giver := Some m, c_next := p + 1, c_ips := (c_ips st)(p \<mapsto> new_interactive E tp addr port st),
            c_interactive := (c_interactive st)(m \<mapsto> p), c_once := (c_once st)(m := True),
            all_players := (all_players st)[i := Some p], num_player := num_player st + 1\<rparr>)"

definition pass_to :: "comm_env \<Rightarrow> nat \<Rightarrow> comm \<Rightarrow> comm option" where
  "pass_to E ob st = do {
     let m = e_master E;
     q \<leftarrow> c_interactive st m;
     let st = st\<lparr>c_interactive := (c_interactive st)(ob \<mapsto> q)\<rparr>;
     st \<leftarrow> set_ip q (\<lambda>ip. ip\<lparr>ip_ob := ob\<rparr>) st;
     Some (st\<lparr>c_once := (c_once st)(ob := True, m := False), c_interactive := (c_interactive st)(m := None), c_giver := Some ob\<rparr>) }"

definition ask_host_name :: "comm_env \<Rightarrow> nat \<Rightarrow> nat \<Rightarrow> comm \<Rightarrow> comm option" where
  "ask_host_name E ob i st =
     (if e_no_ip_demon E then Some st
      else do {
        p \<leftarrow> all_players st ! i;
        ip \<leftarrow> c_ips st p;
        num \<leftarrow> query_ip_number (Some ob) st;
        Some (log_out (Ask_host_name num (ucast (ip_lport ip)) (ucast (ip_rport ip))) st) })"

definition logon :: "comm_env \<Rightarrow> nat \<Rightarrow> comm \<Rightarrow> unit cresult" where
  "logon E ob st =
     (let save = c_current st
      in go_on (lpc E (Logon ob) (st\<lparr>c_current := Some ob\<rparr>)) (\<lambda>ret st.
           if ret = None then None else Some (Some (), st\<lparr>c_current := save\<rparr>)))"

definition mud_is_full :: "u8 list" where
  "mud_is_full = [76, 112, 109, 117, 100, 32, 105, 115, 32, 102, 117, 108, 108, 46, 32, 67, 111, 109, 101, 32, 98, 97, 99, 107, 32, 108, 97, 116, 101, 114, 46, 10]"

definition new_player :: "comm_env \<Rightarrow> nat \<Rightarrow> u32 \<Rightarrow> u16 \<Rightarrow> comm \<Rightarrow> nat option cresult" where
  "new_player E tp addr port st =
     (case find_place None (all_players st) of
        None \<Rightarrow> Some (Some None, log_out (Telnet_output tp mud_is_full) st)
      | Some i \<Rightarrow>
          go_on (lpc E Connect (open_connection E i tp addr port st)) (\<lambda>ret st.
            case ret of
              Some (T_OBJECT ob) \<Rightarrow> do {
                st \<leftarrow> pass_to E ob st;
                st \<leftarrow> ask_host_name E ob i st;
                go_on (logon E ob st) (\<lambda>_ st. Some (Some (all_players st ! i), st)) }
            | _ \<Rightarrow> do {
                p \<leftarrow> c_interactive st (e_master E);
                go_on (disconnect E p False st) (\<lambda>_ st. Some (Some None, st)) }))"

text \<open>A connection passes from one object to another, or is closed.\<close>

definition move_connection :: "nat \<Rightarrow> nat \<Rightarrow> nat \<Rightarrow> comm \<Rightarrow> comm option" where
  "move_connection ob obfrom p st = do {
     st \<leftarrow> set_ip p (\<lambda>ip. ip\<lparr>ip_ob := ob\<rparr>) (st\<lparr>c_interactive := (c_interactive st)(ob \<mapsto> p)\<rparr>);
     Some (st\<lparr>c_once := (c_once st)(ob := True, obfrom := False), c_interactive := (c_interactive st)(obfrom := None)\<rparr>) }"

definition replace_interactive :: "comm_env \<Rightarrow> nat option \<Rightarrow> nat \<Rightarrow> u8 list \<Rightarrow> comm \<Rightarrow> bool cresult" where
  "replace_interactive E ob obfrom name st =
     go_on (lpc E (Valid_exec name ob obfrom) st) (\<lambda>v st.
       if \<not> permits v then Some (Some False, st)
       else if (case ob of None \<Rightarrow> False | Some b \<Rightarrow> c_interactive st b \<noteq> None) then Some (None, st)
       else case c_interactive st obfrom of
              None \<Rightarrow> Some (None, st)
            | Some p \<Rightarrow>
                go_on (case ob of
                         Some b \<Rightarrow> do { st \<leftarrow> move_connection b obfrom p st; Some (Some (), st) }
                       | None \<Rightarrow> disconnect E p False st)
                  (\<lambda>_ st. Some (Some True, if c_giver st = Some obfrom then give_order ob st else st)))"

text \<open>What \<^verbatim>\<open>destruct_object\<close> does for the connection of an object.\<close>

definition destruct_connection :: "comm_env \<Rightarrow> nat \<Rightarrow> comm \<Rightarrow> unit cresult" where
  "destruct_connection E ob st =
     (case c_interactive st ob of
        None \<Rightarrow> Some (Some (), st)
      | Some p \<Rightarrow> do {
          ip \<leftarrow> c_ips st p;
          let save = c_giver st;
          go_on (if ip_ed_buffer ip then lpc E (Save_ed_buffer ob) (give_order (Some ob) st) else Some (Some None, st)) (\<lambda>_ st. do {
            let st = give_order save st;
            q \<leftarrow> c_interactive st ob;
            disconnect E q False st }) })"

section \<open>Input\<close>

text \<open>A function is to be called with the next line.\<close>

definition set_call :: "nat option \<Rightarrow> nat option \<Rightarrow> bool \<Rightarrow> comm \<Rightarrow> (int \<times> comm) option" where
  "set_call ob sent noecho st =
     (case (ob, sent) of
        (Some x, Some f) \<Rightarrow>
          (case c_interactive st x of
             None \<Rightarrow> Some (- 2, st)
           | Some p \<Rightarrow> do {
               ip \<leftarrow> c_ips st p;
               (if ip_input_to ip \<noteq> None then Some (- 2, st)
                else do {
                  st \<leftarrow> set_ip p (\<lambda>ip. ip\<lparr>ip_input_to := Some f, ip_noecho := noecho\<rparr>) st;
                  Some (1, if noecho then log_out (Telnet_echo (ip_tp ip) True) st else st) }) })
      | _ \<Rightarrow> Some (- 1, st))"

definition input_to :: "nat \<Rightarrow> bool \<Rightarrow> comm \<Rightarrow> (int \<times> comm) option" where
  "input_to f noecho st =
     (case c_giver st of
        None \<Rightarrow> Some (0, st)
      | Some g \<Rightarrow> if c_destructed st g then Some (0, st) else set_call (Some g) (Some f) noecho st)"

definition call_function_interactive :: "comm_env \<Rightarrow> nat \<Rightarrow> u8 list \<Rightarrow> comm \<Rightarrow> bool cresult" where
  "call_function_interactive E p str st = do {
     ip \<leftarrow> c_ips st p;
     (case ip_input_to ip of
        None \<Rightarrow> Some (Some False, st)
      | Some f \<Rightarrow> do {
          st1 \<leftarrow> set_ip p (\<lambda>ip. ip\<lparr>ip_input_to := None\<rparr>) st;
          (if \<not> e_legal E f st then Some (Some False, st1)
           else go_on (lpc E (Call_closure f str) (st1\<lparr>c_current := Some (e_funobj E f)\<rparr>)) (\<lambda>_ st. Some (Some True, st))) }) }"

text \<open>The prompt.\<close>

definition set_prompt :: "u8 list option \<Rightarrow> comm \<Rightarrow> comm option" where
  "set_prompt str st = do {
     g \<leftarrow> c_giver st;
     p \<leftarrow> c_interactive st g;
     set_ip p (\<lambda>ip. ip\<lparr>ip_prompt := (case str of Some s \<Rightarrow> s | None \<Rightarrow> [62, 32])\<rparr>) st }"

definition print_prompt :: "comm_env \<Rightarrow> comm \<Rightarrow> unit cresult" where
  "print_prompt E st = do {
     g \<leftarrow> c_giver st;
     p \<leftarrow> c_interactive st g;
     ip \<leftarrow> c_ips st p;
     (if ip_input_to ip = None \<and> \<not> c_destructed st g then add_message E (ip_prompt ip) st else Some (Some (), st)) }"

text \<open>The message for a command that nothing took.\<close>

definition clear_notify :: "comm \<Rightarrow> comm option" where
  "clear_notify st =
     (case c_giver st of
        None \<Rightarrow> Some st
      | Some g \<Rightarrow> (case c_interactive st g of None \<Rightarrow> Some st | Some p \<Rightarrow> set_ip p (\<lambda>ip. ip\<lparr>ip_default_err := None\<rparr>) st))"

definition set_notify_fail_message :: "u8 list \<Rightarrow> u32 \<Rightarrow> comm \<Rightarrow> comm option" where
  "set_notify_fail_message str pri st =
     (case c_giver st of
        None \<Rightarrow> Some st
      | Some g \<Rightarrow>
          (case c_interactive st g of
             None \<Rightarrow> Some st
           | Some p \<Rightarrow> do {
               ip \<leftarrow> c_ips st p;
               (if ip_default_err ip \<noteq> None \<and> pri = 0 then Some st
                else do { st \<leftarrow> clear_notify st; set_ip p (\<lambda>ip. ip\<lparr>ip_default_err := Some str\<rparr>) st }) }))"

text \<open>
  The text is processed first, which may call LPC code; there is an answer when that makes it another text.
\<close>

definition notify_no_command :: "comm_env \<Rightarrow> comm \<Rightarrow> unit cresult" where
  "notify_no_command E st = do {
     g \<leftarrow> c_giver st;
     (case c_interactive st g of
        None \<Rightarrow> Some (Some (), st)
      | Some p \<Rightarrow> do {
          ip \<leftarrow> c_ips st p;
          (case ip_default_err ip of
             Some s \<Rightarrow>
               go_on (lpc E (Process_string s) st) (\<lambda>v st.
                 go_on (add_message E (case v of Some (T_STRING m) \<Rightarrow> m | _ \<Rightarrow> s) st) (\<lambda>_ st. do {
                   g \<leftarrow> c_giver st;
                   p \<leftarrow> c_interactive st g;
                   st \<leftarrow> set_ip p (\<lambda>ip. ip\<lparr>ip_default_err := None\<rparr>) st;
                   Some (Some (), st) }))
           | None \<Rightarrow> add_message E [83, 108, 117, 99, 104, 97, 109, 63, 10] st) }) }"

text \<open>An error that the function catches itself.\<close>

definition catching :: "'a cresult \<Rightarrow> (comm \<Rightarrow> 'b cresult) \<Rightarrow> 'b cresult" where
  "catching r f = (case r of None \<Rightarrow> None | Some (_, st) \<Rightarrow> f st)"

definition dispatch_line :: "comm_env \<Rightarrow> u8 list \<Rightarrow> comm \<Rightarrow> unit cresult" where
  "dispatch_line E cp st = do {
     g \<leftarrow> c_giver st;
     (if cp \<noteq> [] \<and> hd cp = 33 \<and> e_super E g st then go_on (lpc E (Parse_command (tl cp) g) st) (\<lambda>_ st. Some (Some (), st))
      else do {
        p \<leftarrow> c_interactive st g;
        ip \<leftarrow> c_ips st p;
        (if ip_ed_buffer ip then go_on (lpc E (Ed_cmd cp) st) (\<lambda>_ st. Some (Some (), st))
         else go_on (call_function_interactive E p cp st) (\<lambda>done st.
                if done then Some (Some (), st)
                else do { g \<leftarrow> c_giver st; go_on (lpc E (Parse_command cp g) st) (\<lambda>_ st. Some (Some (), st)) })) }) }"

definition prompt_again :: "comm_env \<Rightarrow> comm \<Rightarrow> unit cresult" where
  "prompt_again E st =
     (case c_giver st of
        None \<Rightarrow> Some (Some (), st)
      | Some g \<Rightarrow> if c_interactive st g = None then Some (Some (), st) else print_prompt E st)"

definition input_line :: "comm_env \<Rightarrow> nat \<Rightarrow> u8 list \<Rightarrow> comm \<Rightarrow> unit cresult" where
  "input_line E p cp st = do {
     st \<leftarrow> set_ip p (\<lambda>ip. ip\<lparr>ip_current_column := 0\<rparr>) st;
     ip \<leftarrow> c_ips st p;
     go_on (if ip_noecho ip \<and> (cp = [] \<or> hd cp \<noteq> 33 \<or> \<not> e_super E (ip_ob ip) st)
            then do {
              st \<leftarrow> set_ip p (\<lambda>ip. ip\<lparr>ip_noecho := False\<rparr>) st;
              Some (Some cp, log_out (Telnet_echo (ip_tp ip) False) st) }
            else tell_snooper E p [37, 32] cp [10] st)
       (\<lambda>cp st. do {
          st \<leftarrow> set_ip p (\<lambda>ip. ip\<lparr>ip_last_time := e_time E st\<rparr>) st;
          ip \<leftarrow> c_ips st p;
          catching (dispatch_line E cp (st\<lparr>c_giver := Some (ip_ob ip), c_current := None\<rparr>)) (prompt_again E) }) }"

section \<open>Efuns\<close>

text \<open>A number is written to \<^verbatim>\<open>char tmpbuf[10]\<close>.\<close>

definition f_write_socket :: "comm_env \<Rightarrow> sval \<Rightarrow> comm \<Rightarrow> unit cresult" where
  "f_write_socket E v st = do {
     cur \<leftarrow> c_current st;
     cp \<leftarrow> (case v of T_NUMBER n \<Rightarrow> if length (fmt_d n) + 1 \<le> 10 then Some (fmt_d n) else None | T_STRING s \<Rightarrow> Some s | _ \<Rightarrow> None);
     (if c_interactive st cur \<noteq> None then write_socket E cp (Some cur) st
      else if cur = e_master E then write_socket E cp None st
      else Some (Some (), st)) }"

definition f_set_screen_width :: "u32 \<Rightarrow> comm \<Rightarrow> unit cresult" where
  "f_set_screen_width n st = do {
     cur \<leftarrow> c_current st;
     (case c_interactive st cur of
        None \<Rightarrow> Some (Some (), st)
      | Some p \<Rightarrow>
          if n <s 0 \<or> n = 1 then Some (None, st)
          else do {
            st \<leftarrow> set_ip p (\<lambda>ip. ip\<lparr>ip_screen_width := n, ip_current_column := (if n \<le> ip_current_column ip then n - 1 else ip_current_column ip)\<rparr>) st;
            Some (Some (), st) }) }"

definition f_query_screen_width :: "comm \<Rightarrow> u32 option" where
  "f_query_screen_width st = do {
     cur \<leftarrow> c_current st;
     (case c_interactive st cur of None \<Rightarrow> Some (- 1) | Some p \<Rightarrow> map_option ip_screen_width (c_ips st p)) }"

section \<open>Host names\<close>

text \<open>\<^verbatim>\<open>strtok\<close>, with another set of separators for each token.\<close>

definition strtok :: "u8 list \<Rightarrow> u8 list \<Rightarrow> (u8 list \<times> u8 list) option" where
  "strtok seps s =
     (let s = dropWhile (\<lambda>c. c \<in> set seps) s
      in if s = [] then None else Some (takeWhile (\<lambda>c. c \<notin> set seps) s, drop 1 (dropWhile (\<lambda>c. c \<notin> set seps) s)))"

fun tokens :: "u8 list list \<Rightarrow> u8 list \<Rightarrow> u8 list list" where
  "tokens [] s = []"
| "tokens (sep # seps) s = (case strtok sep s of None \<Rightarrow> [] | Some (t, s) \<Rightarrow> t # tokens seps s)"

fun find_address :: "u32 \<Rightarrow> u32 \<Rightarrow> u32 \<Rightarrow> comm \<Rightarrow> nat option list \<Rightarrow> nat option option" where
  "find_address addr lport rport st [] = Some None"
| "find_address addr lport rport st (None # es) = find_address addr lport rport st es"
| "find_address addr lport rport st (Some p # es) = do {
     ip \<leftarrow> c_ips st p;
     (if ip_addr ip = addr \<and> ip_lport ip = lport \<and> ip_rport ip = rport then Some (Some p) else find_address addr lport rport st es) }"

text \<open>
  A reply of the name server: the address and the name, and for the owner of a connection its ports and the name of the owner.
  \<open>inet_addr\<close>, of the C library, reads the address.
\<close>

definition hname_input :: "(u8 list \<Rightarrow> u32) \<Rightarrow> u8 list \<Rightarrow> comm \<Rightarrow> comm option" where
  "hname_input inet_addr cp st =
     (let tok = tokens [[32], [44, 10], [44], [58], [10]] cp; ntok = length tok
      in if ntok \<noteq> 2 \<and> ntok \<noteq> 4 \<and> ntok \<noteq> 5 then Some st
         else let addr = inet_addr (tok ! 0)
              in if addr = 0xffffffff then Some st
                 else let st = st\<lparr>c_iptable := add_ip_entry (ucast addr) (tok ! 1) (c_iptable st)\<rparr>
                      in if ntok \<noteq> 5 then Some st
                         else do {
                           p \<leftarrow> find_address addr (atoi (tok ! 2)) (atoi (tok ! 3)) st (all_players st);
                           (case p of None \<Rightarrow> Some st | Some p \<Rightarrow> set_ip p (\<lambda>ip. ip\<lparr>ip_rname := Some (tok ! 4)\<rparr>) st) })"

section \<open>What LPC code can do\<close>

text \<open>
  The steps of LPC code that concern players.  A program is a function from the call and the state to the steps it takes and the value it
  returns; a call within it is answered by the same program, \<open>n\<close> levels deep, and deeper ones by an error, as the driver does.
\<close>

datatype lpc_op =
    Op_current "nat option"
  | Op_giver "nat option"
  | Op_snoop nat "nat option"
  | Op_exec "nat option" nat "u8 list"
  | Op_destruct nat
  | Op_write_socket sval
  | Op_write "u8 list"
  | Op_input_to nat bool
  | Op_notify_fail "u8 list" u32
  | Op_screen_width u32

definition ends :: "comm \<Rightarrow> unit cresult" where "ends st = Some (Some (), st)"

fun run_op :: "comm_env \<Rightarrow> lpc_op \<Rightarrow> comm \<Rightarrow> unit cresult" where
  "run_op E (Op_current c) st = ends (st\<lparr>c_current := c\<rparr>)"
| "run_op E (Op_giver g) st = ends (give_order g st)"
| "run_op E (Op_snoop me you) st = go_on (f_snoop E me you st) (\<lambda>_. ends)"
| "run_op E (Op_exec ob obfrom name) st = go_on (replace_interactive E ob obfrom name st) (\<lambda>_. ends)"
| "run_op E (Op_destruct ob) st =
     (if c_destructed st ob then ends st
      else go_on (destruct_connection E ob st) (\<lambda>_ st. ends (st\<lparr>c_destructed := (c_destructed st)(ob := True)\<rparr>)))"
| "run_op E (Op_write_socket v) st = f_write_socket E v st"
| "run_op E (Op_write s) st = add_message E s st"
| "run_op E (Op_input_to f noecho) st = Option.bind (input_to f noecho st) (\<lambda>(_, st). ends st)"
| "run_op E (Op_notify_fail s pri) st = Option.bind (set_notify_fail_message s pri st) ends"
| "run_op E (Op_screen_width n) st = f_set_screen_width n st"

fun run_ops :: "comm_env \<Rightarrow> lpc_op list \<Rightarrow> comm \<Rightarrow> unit cresult" where
  "run_ops E [] st = ends st"
| "run_ops E (op # ops) st = go_on (run_op E op st) (\<lambda>_. run_ops E ops)"

definition lpc_return :: "unit cresult \<Rightarrow> sval option \<Rightarrow> comm \<Rightarrow> lpc_answer \<times> comm" where
  "lpc_return r v st = (case r of None \<Rightarrow> (Crashed, st) | Some (None, st) \<Rightarrow> (Lpc_raised, st) | Some (Some _, st) \<Rightarrow> (Returned v, st))"

type_synonym lpc_program = "lpc_event \<Rightarrow> comm \<Rightarrow> lpc_op list \<times> sval option"

fun play :: "nat \<Rightarrow> lpc_program \<Rightarrow> comm_env \<Rightarrow> lpc_event \<Rightarrow> comm \<Rightarrow> lpc_answer \<times> comm" where
  "play 0 prog E ev st = (Lpc_raised, st)"
| "play (Suc n) prog E ev st =
     (let (ops, v) = prog ev st in lpc_return (run_ops (E\<lparr>e_call := play n prog E\<rparr>) ops st) v st)"

section \<open>The invariant\<close>

text \<open>The connections in the table, and whose they are; who snoops whom.\<close>

definition conns :: "nat option list \<Rightarrow> nat list" where "conns es = map the (filter (\<lambda>e. e \<noteq> None) es)"

definition owner :: "comm \<Rightarrow> nat \<Rightarrow> nat option" where "owner st p = map_option ip_ob (c_ips st p)"

definition snoops :: "comm \<Rightarrow> nat \<Rightarrow> nat option" where "snoops st p = Option.bind (c_ips st p) ip_snoop_on"

definition snooped :: "comm \<Rightarrow> nat \<Rightarrow> nat option" where "snooped st p = Option.bind (c_ips st p) ip_snoop_by"

definition players_table :: "comm \<Rightarrow> bool" where
  "players_table st \<longleftrightarrow> length (all_players st) = MAX_PLAYERS \<and> distinct (conns (all_players st)) \<and>
     set (conns (all_players st)) = dom (c_ips st) \<and> num_player st = int (length (conns (all_players st))) \<and>
     (\<forall>p\<in>dom (c_ips st). p < c_next st) \<and> (\<forall>ob p. c_interactive st ob = Some p \<longleftrightarrow> owner st p = Some ob)"

definition snoop_ok :: "comm \<Rightarrow> bool" where
  "snoop_ok st \<longleftrightarrow> (\<forall>p q. snoops st p = Some q \<longleftrightarrow> snooped st q = Some p) \<and> acyclic {(p, q). snoops st p = Some q}"

definition quiet_but :: "nat set \<Rightarrow> comm \<Rightarrow> bool" where
  "quiet_but Q st \<longleftrightarrow> (\<forall>p ip. c_ips st p = Some ip \<longrightarrow> \<not> ip_ed_buffer ip \<and> (ip_closing ip \<longrightarrow> p \<in> Q))"

definition ok_but :: "nat set \<Rightarrow> comm \<Rightarrow> bool" where "ok_but Q st \<longleftrightarrow> players_table st \<and> snoop_ok st \<and> quiet_but Q st"

abbreviation players_ok :: "comm \<Rightarrow> bool" where "players_ok \<equiv> ok_but {}"

text \<open>States that do not differ in what the invariant is about.\<close>

definition marks :: "interactive \<Rightarrow> nat \<times> nat option \<times> nat option \<times> bool \<times> bool" where
  "marks ip = (ip_ob ip, ip_snoop_on ip, ip_snoop_by ip, ip_closing ip, ip_ed_buffer ip)"

definition alike :: "comm \<Rightarrow> comm \<Rightarrow> bool" where
  "alike st st' \<longleftrightarrow> all_players st' = all_players st \<and> num_player st' = num_player st \<and> c_next st' = c_next st \<and>
     c_interactive st' = c_interactive st \<and> (\<forall>p. map_option marks (c_ips st' p) = map_option marks (c_ips st p))"

lemma alike_refl [simp]: "alike st st"
  by (simp add: alike_def)

lemma alike_trans: "alike st st1 \<Longrightarrow> alike st1 st2 \<Longrightarrow> alike st st2"
  by (simp add: alike_def)

lemma alike_views:
  assumes "alike st st'"
  shows "owner st' = owner st" "snoops st' = snoops st" "snooped st' = snooped st" "dom (c_ips st') = dom (c_ips st)"
    "quiet_but Q st' = quiet_but Q st"
proof -
  have m: "map_option marks (c_ips st' p) = map_option marks (c_ips st p)" for p using assms by (simp add: alike_def)
  have "owner st' p = owner st p \<and> snoops st' p = snoops st p \<and> snooped st' p = snooped st p \<and> (p \<in> dom (c_ips st') \<longleftrightarrow> p \<in> dom (c_ips st))" for p
    using m [of p] by (cases "c_ips st p"; cases "c_ips st' p") (auto simp: owner_def snoops_def snooped_def marks_def)
  then show "owner st' = owner st" "snoops st' = snoops st" "snooped st' = snooped st" "dom (c_ips st') = dom (c_ips st)" by auto
  have "(\<forall>ip. c_ips st' p = Some ip \<longrightarrow> \<not> ip_ed_buffer ip \<and> (ip_closing ip \<longrightarrow> p \<in> Q)) \<longleftrightarrow>
      (\<forall>ip. c_ips st p = Some ip \<longrightarrow> \<not> ip_ed_buffer ip \<and> (ip_closing ip \<longrightarrow> p \<in> Q))" for p
    using m [of p] by (cases "c_ips st p"; cases "c_ips st' p") (auto simp: marks_def)
  then show "quiet_but Q st' = quiet_but Q st" by (simp add: quiet_but_def)
qed

lemma alike_ok:
  assumes a: "alike st st'" and ok: "ok_but Q st"
  shows "ok_but Q st'"
proof -
  note v = alike_views [OF a]
  have "players_table st'" using ok v a by (simp add: ok_but_def players_table_def alike_def)
  moreover have "snoop_ok st' = snoop_ok st" by (simp only: snoop_ok_def v)
  ultimately show ?thesis using ok v by (simp add: ok_but_def)
qed

lemma alike_set_ip: "set_ip p f st = Some st' \<Longrightarrow> (\<And>ip. marks (f ip) = marks ip) \<Longrightarrow> alike st st'"
  by (auto simp: set_ip_def alike_def split: option.splits)

lemma alike_simps [simp]:
  "alike st (log_out x st') = alike st st'" "alike st (st'\<lparr>c_giver := g\<rparr>) = alike st st'" "alike st (st'\<lparr>c_current := c\<rparr>) = alike st st'"
  "alike st (st'\<lparr>c_destructed := d\<rparr>) = alike st st'" "alike st (st'\<lparr>c_once := d\<rparr>) = alike st st'" "alike st (st'\<lparr>c_iptable := t\<rparr>) = alike st st'"
  "alike st (give_order g st') = alike st st'"
  by (simp_all add: alike_def log_out_def give_order_def)

lemma ok_simps [simp]:
  "ok_but Q (log_out x st) = ok_but Q st" "ok_but Q (st\<lparr>c_giver := g\<rparr>) = ok_but Q st" "ok_but Q (st\<lparr>c_current := c\<rparr>) = ok_but Q st"
  "ok_but Q (st\<lparr>c_destructed := d\<rparr>) = ok_but Q st" "ok_but Q (st\<lparr>c_once := d\<rparr>) = ok_but Q st" "ok_but Q (st\<lparr>c_iptable := t\<rparr>) = ok_but Q st"
  "ok_but Q (give_order g st) = ok_but Q st"
  by (simp_all add: ok_but_def players_table_def snoop_ok_def quiet_but_def owner_def snoops_def snooped_def log_out_def give_order_def)

section \<open>Pairs of players\<close>

text \<open>What the steps that change such pairs leave alone.\<close>

definition base_same :: "comm \<Rightarrow> comm \<Rightarrow> bool" where
  "base_same st st' \<longleftrightarrow> all_players st' = all_players st \<and> num_player st' = num_player st \<and> c_next st' = c_next st \<and>
     c_interactive st' = c_interactive st \<and> c_giver st' = c_giver st \<and> c_destructed st' = c_destructed st \<and>
     owner st' = owner st \<and> dom (c_ips st') = dom (c_ips st) \<and> (\<forall>Q. quiet_but Q st' = quiet_but Q st)"

lemma base_refl [simp]: "base_same st st"
  by (simp add: base_same_def)

lemma base_trans: "base_same st st1 \<Longrightarrow> base_same st1 st2 \<Longrightarrow> base_same st st2"
  by (simp add: base_same_def)

lemma base_table: "base_same st st' \<Longrightarrow> players_table st' = players_table st"
  by (simp add: base_same_def players_table_def)

lemma base_ok: "base_same st st' \<Longrightarrow> snoop_ok st' \<Longrightarrow> ok_but Q st \<Longrightarrow> ok_but Q st'"
  using base_table [of st st'] by (simp add: ok_but_def base_same_def)

lemma quiet_upd:
  "c_ips st p = Some ip \<Longrightarrow> ip_ed_buffer ip' = ip_ed_buffer ip \<Longrightarrow> ip_closing ip' = ip_closing ip \<Longrightarrow>
    quiet_but Q (st\<lparr>c_ips := (c_ips st)(p \<mapsto> ip')\<rparr>) = quiet_but Q st"
  by (auto simp: quiet_but_def)

lemma set_snoop_on:
  assumes "p \<in> dom (c_ips st)"
  shows "\<exists>st'. set_ip p (\<lambda>ip. ip\<lparr>ip_snoop_on := v\<rparr>) st = Some st' \<and> base_same st st' \<and> snoops st' = (snoops st)(p := v) \<and> snooped st' = snooped st"
proof -
  obtain ip where ip: "c_ips st p = Some ip" using assms by auto
  have "dom (c_ips (st\<lparr>c_ips := (c_ips st)(p \<mapsto> ip\<lparr>ip_snoop_on := v\<rparr>)\<rparr>)) = dom (c_ips st)" using ip by auto
  then show ?thesis using ip
    by (auto simp: set_ip_def base_same_def quiet_upd owner_def snoops_def snooped_def fun_eq_iff)
qed

lemma set_snoop_by:
  assumes "p \<in> dom (c_ips st)"
  shows "\<exists>st'. set_ip p (\<lambda>ip. ip\<lparr>ip_snoop_by := v\<rparr>) st = Some st' \<and> base_same st st' \<and> snoops st' = snoops st \<and> snooped st' = (snooped st)(p := v)"
proof -
  obtain ip where ip: "c_ips st p = Some ip" using assms by auto
  have "dom (c_ips (st\<lparr>c_ips := (c_ips st)(p \<mapsto> ip\<lparr>ip_snoop_by := v\<rparr>)\<rparr>)) = dom (c_ips st)" using ip by auto
  then show ?thesis using ip
    by (auto simp: set_ip_def base_same_def quiet_upd owner_def snoops_def snooped_def fun_eq_iff)
qed

lemma snoop_live: "snoop_ok st \<Longrightarrow> snoops st p = Some q \<Longrightarrow> p \<in> dom (c_ips st) \<and> q \<in> dom (c_ips st)"
  by (auto simp: snoop_ok_def snoops_def snooped_def bind_eq_Some_conv) (metis bind_eq_Some_conv)

lemma snoop_pair: "snoop_ok st \<Longrightarrow> snooped st q = Some p \<longleftrightarrow> snoops st p = Some q"
  by (simp add: snoop_ok_def)

text \<open>A pair is separated.\<close>

lemma unpair_ok:
  assumes ok: "snoop_ok st" and pq: "snoops st p = Some q"
    and on: "snoops st' = (snoops st)(p := None)" and by_q: "snooped st' = (snooped st)(q := None)"
  shows "snoop_ok st'"
proof -
  have "{(a, b). snoops st' a = Some b} \<subseteq> {(a, b). snoops st a = Some b}" using on by (auto split: if_splits)
  moreover have "snoops st' a = Some b \<longleftrightarrow> snooped st' b = Some a" for a b
    using pq on by_q snoop_pair [OF ok, of b a] snoop_pair [OF ok, of q p] by auto
  ultimately show ?thesis using ok acyclic_subset unfolding snoop_ok_def by blast
qed

lemma stop_snooping_pair:
  assumes ok: "snoop_ok st" and p: "p \<in> dom (c_ips st)"
  shows "\<exists>st'. stop_snooping p st = Some st' \<and> base_same st st' \<and> snoop_ok st' \<and> snoops st' = (snoops st)(p := None) \<and>
    snooped st' = (case snoops st p of None \<Rightarrow> snooped st | Some q \<Rightarrow> (snooped st)(q := None))"
proof -
  obtain ip where ip: "c_ips st p = Some ip" using p by auto
  then have on: "snoops st p = ip_snoop_on ip" by (simp add: snoops_def)
  show ?thesis
  proof (cases "ip_snoop_on ip")
    case None
    then show ?thesis using ip on ok by (auto simp: stop_snooping_def fun_eq_iff)
  next
    case (Some q)
    then have q: "q \<in> dom (c_ips st)" using snoop_live [OF ok] on by simp
    obtain st1 where 1: "set_ip q (\<lambda>ip. ip\<lparr>ip_snoop_by := None\<rparr>) st = Some st1" "base_same st st1" "snoops st1 = snoops st" "snooped st1 = (snooped st)(q := None)"
      using set_snoop_by [OF q] by blast
    have "p \<in> dom (c_ips st1)" using p 1(2) by (simp add: base_same_def)
    then obtain st2 where 2: "set_ip p (\<lambda>ip. ip\<lparr>ip_snoop_on := None\<rparr>) st1 = Some st2" "base_same st1 st2" "snoops st2 = (snoops st1)(p := None)" "snooped st2 = snooped st1"
      using set_snoop_on by blast
    have s: "snoops st p = Some q" "snoops st2 = (snoops st)(p := None)" "snooped st2 = (snooped st)(q := None)" using 1 2 on Some by simp_all
    have "stop_snooping p st = Some st2" using ip Some 1(1) 2(1) by (simp add: stop_snooping_def)
    then show ?thesis using base_trans [OF 1(2) 2(2)] unpair_ok [OF ok s] s by auto
  qed
qed

lemma stop_snooped_pair:
  assumes ok: "snoop_ok st" and q: "q \<in> dom (c_ips st)"
  shows "\<exists>st'. stop_snooped q st = Some st' \<and> base_same st st' \<and> snoop_ok st' \<and> snooped st' = (snooped st)(q := None) \<and>
    snoops st' = (case snooped st q of None \<Rightarrow> snoops st | Some p \<Rightarrow> (snoops st)(p := None))"
proof -
  obtain ip where ip: "c_ips st q = Some ip" using q by auto
  then have by_q: "snooped st q = ip_snoop_by ip" by (simp add: snooped_def)
  show ?thesis
  proof (cases "ip_snoop_by ip")
    case None
    then show ?thesis using ip by_q ok by (auto simp: stop_snooped_def fun_eq_iff)
  next
    case (Some p)
    then have s: "snoops st p = Some q" using by_q snoop_pair [OF ok] by simp
    then have p: "p \<in> dom (c_ips st)" using snoop_live [OF ok] by simp
    obtain st1 where 1: "set_ip p (\<lambda>ip. ip\<lparr>ip_snoop_on := None\<rparr>) st = Some st1" "base_same st st1" "snoops st1 = (snoops st)(p := None)" "snooped st1 = snooped st"
      using set_snoop_on [OF p] by blast
    have "q \<in> dom (c_ips st1)" using q 1(2) by (simp add: base_same_def)
    then obtain st2 where 2: "set_ip q (\<lambda>ip. ip\<lparr>ip_snoop_by := None\<rparr>) st1 = Some st2" "base_same st1 st2" "snoops st2 = snoops st1" "snooped st2 = (snooped st1)(q := None)"
      using set_snoop_by by blast
    have t: "snoops st2 = (snoops st)(p := None)" "snooped st2 = (snooped st)(q := None)" using 1 2 by simp_all
    have "stop_snooped q st = Some st2" using ip Some 1(1) 2(1) by (simp add: stop_snooped_def)
    then show ?thesis using base_trans [OF 1(2) 2(2)] unpair_ok [OF ok s t] t by_q Some by auto
  qed
qed

text \<open>The search for a loop ends, and says whether there would be one.\<close>

definition snoop_rel :: "comm \<Rightarrow> (nat \<times> nat) set" where "snoop_rel st = {(p, q). snoops st p = Some q}"

lemma snoop_chain_total:
  assumes ok: "snoop_ok st" and fin: "finite (dom (c_ips st))" and p: "p \<in> dom (c_ips st)"
  shows "snoop_chain st t (Some p) = Some ((p, t) \<in> (snoop_rel st)\<^sup>*)"
proof -
  have "snoop_rel st \<subseteq> dom (c_ips st) \<times> dom (c_ips st)" using snoop_live [OF ok] by (auto simp: snoop_rel_def)
  then have "finite (snoop_rel st)" using fin finite_subset by blast
  moreover have "acyclic (snoop_rel st)" using ok unfolding snoop_ok_def snoop_rel_def by blast
  ultimately have "wf ((snoop_rel st)\<inverse>)" by (rule finite_acyclic_wf_converse)
  then show ?thesis using p
  proof (induction p rule: wf_induct_rule)
    case (less p)
    obtain ip where ip: "c_ips st p = Some ip" using less.prems by auto
    then have on: "snoops st p = ip_snoop_on ip" by (simp add: snoops_def)
    show ?case
    proof (cases "p = t")
      case True
      then show ?thesis by (subst snoop_chain.simps) simp
    next
      case False
      then have step: "(p, t) \<in> (snoop_rel st)\<^sup>* \<longleftrightarrow> (\<exists>q. snoops st p = Some q \<and> (q, t) \<in> (snoop_rel st)\<^sup>*)"
        by (metis (mono_tags, lifting) case_prodD case_prodI converse_rtranclE converse_rtrancl_into_rtrancl mem_Collect_eq snoop_rel_def)
      have c: "snoop_chain st t (Some p) = snoop_chain st t (snoops st p)"
        using False ip on by (simp add: snoop_chain.simps [of _ _ "Some p"])
      show ?thesis
      proof (cases "snoops st p")
        case None
        then show ?thesis using c step by (simp add: snoop_chain.simps [of _ _ None])
      next
        case (Some q)
        then have "(q, p) \<in> (snoop_rel st)\<inverse>" "q \<in> dom (c_ips st)" using snoop_live [OF ok] by (auto simp: snoop_rel_def)
        then show ?thesis using less.IH [of q] c step Some by simp
      qed
    qed
  qed
qed

lemma new_pair_ok:
  assumes ok: "snoop_ok st" and free: "snoops st p = None" "snooped st q = None" and no_loop: "(q, p) \<notin> (snoop_rel st)\<^sup>*"
    and on: "snoops st' = (snoops st)(p := Some q)" and by_q: "snooped st' = (snooped st)(q := Some p)"
  shows "snoop_ok st'"
proof -
  have "{(a, b). snoops st' a = Some b} = insert (p, q) (snoop_rel st)"
    using on free by (auto simp: snoop_rel_def split: if_splits)
  moreover have "acyclic (insert (p, q) (snoop_rel st))" 
    using ok no_loop unfolding acyclic_insert snoop_ok_def snoop_rel_def by blast
  moreover have "snoops st' a = Some b \<longleftrightarrow> snooped st' b = Some a" for a b
    using on by_q free snoop_pair [OF ok, of b a] snoop_pair [OF ok, of q a] by auto
  ultimately show ?thesis by (simp add: snoop_ok_def)
qed

text \<open>A new pair: the old ones of the two are separated, the others stay.\<close>

definition new_pair :: "nat \<Rightarrow> nat \<Rightarrow> comm \<Rightarrow> nat \<Rightarrow> nat option" where
  "new_pair p q st = (\<lambda>x. if x = p then Some q else if snoops st x = Some q then None else snoops st x)"

lemma start_snoop_pairs:
  assumes ok: "snoop_ok st" and fin: "finite (dom (c_ips st))" and p: "p \<in> dom (c_ips st)" and q: "q \<in> dom (c_ips st)"
  shows "\<exists>r st'. start_snoop (Some q) (Some p) st = Some (Some r, st') \<and> base_same st st' \<and> snoop_ok st' \<and>
    (r \<longleftrightarrow> (q, p) \<notin> (snoop_rel st)\<^sup>*) \<and> snoops st' = (if r then new_pair p q st else snoops st) \<and> (\<not> r \<longrightarrow> st' = st)"
proof (cases "(q, p) \<in> (snoop_rel st)\<^sup>*")
  case True
  then have "start_snoop (Some q) (Some p) st = Some (Some False, st)"
    using snoop_chain_total [OF ok fin q, of p] by (simp add: start_snoop_def)
  then show ?thesis using ok True by auto
next
  case False
  obtain st1 where 1: "stop_snooping p st = Some st1" "base_same st st1" "snoop_ok st1" "snoops st1 = (snoops st)(p := None)"
    using stop_snooping_pair [OF ok p] by blast
  have d1: "dom (c_ips st1) = dom (c_ips st)" using 1(2) by (simp add: base_same_def)
  obtain st2 where 2: "stop_snooped q st1 = Some st2" "base_same st1 st2" "snoop_ok st2" "snooped st2 = (snooped st1)(q := None)"
    "snoops st2 = (case snooped st1 q of None \<Rightarrow> snoops st1 | Some p \<Rightarrow> (snoops st1)(p := None))"
    using stop_snooped_pair [OF 1(3), of q] d1 q by auto
  have s2: "snoops st2 = (\<lambda>x. if x = p \<or> snoops st x = Some q then None else snoops st x)"
  proof (cases "snooped st1 q")
    case None
    then have "snoops st1 x \<noteq> Some q" for x using snoop_pair [OF 1(3)] by (metis option.distinct(1))
    then have "snoops st2 x = (if x = p \<or> snoops st x = Some q then None else snoops st x)" for x
      using 2(5) None 1(4) by (metis fun_upd_apply option.case(1))
    then show ?thesis by (rule ext)
  next
    case (Some r)
    then have n: "snoops st1 x = Some q \<longleftrightarrow> x = r" for x using snoop_pair [OF 1(3)] by (metis option.inject)
    have "snoops st2 x = (if x = p \<or> snoops st x = Some q then None else snoops st x)" for x
      using 2(5) Some 1(4) n [of x] by (cases "x = p"; cases "x = r") auto
    then show ?thesis by (rule ext)
  qed
  have d2: "dom (c_ips st2) = dom (c_ips st)" using 2(2) d1 by (simp add: base_same_def)
  obtain st3 where 3: "set_ip q (\<lambda>ip. ip\<lparr>ip_snoop_by := Some p\<rparr>) st2 = Some st3" "base_same st2 st3" "snoops st3 = snoops st2"
    "snooped st3 = (snooped st2)(q := Some p)" using set_snoop_by [of q st2 "Some p"] d2 q by auto
  have d3: "dom (c_ips st3) = dom (c_ips st)" using 3(2) d2 by (simp add: base_same_def)
  obtain st4 where 4: "set_ip p (\<lambda>ip. ip\<lparr>ip_snoop_on := Some q\<rparr>) st3 = Some st4" "base_same st3 st4" "snoops st4 = (snoops st3)(p := Some q)"
    "snooped st4 = snooped st3" using set_snoop_on [of p st3 "Some q"] d3 p by auto
  have "snoop_rel st2 \<subseteq> snoop_rel st" by (auto simp: snoop_rel_def s2 split: if_splits)
  then have "(q, p) \<notin> (snoop_rel st2)\<^sup>*" using False rtrancl_mono by blast
  then have "snoop_ok st4" using new_pair_ok [OF 2(3), of p q st4] 2(4) 3(3,4) 4(3,4) s2 by simp
  moreover have "snoops st4 = new_pair p q st" using 4(3) 3(3) s2 by (auto simp: new_pair_def)
  moreover have "base_same st st4" using 1(2) 2(2) 3(2) 4(2) base_trans by blast
  moreover have "start_snoop (Some q) (Some p) st = Some (Some True, st4)"
    using False snoop_chain_total [OF ok fin q, of p] 1(1) 2(1) 3(1) 4(1) by (simp add: start_snoop_def)
  ultimately show ?thesis using False by auto
qed

section \<open>The table\<close>

lemma conns_append: "conns (us @ vs) = conns us @ conns vs"
  by (simp add: conns_def)

lemma conns_upd:
  assumes "i < length es"
  shows "conns (es[i := x]) = conns (take i es) @ conns [x] @ conns (drop (Suc i) es)"
    "conns es = conns (take i es) @ conns [es ! i] @ conns (drop (Suc i) es)"
proof -
  have "es[i := x] = take i es @ [x] @ drop (Suc i) es" using upd_conv_take_nth_drop [OF assms] by simp
  then have "conns (es[i := x]) = conns (take i es @ [x] @ drop (Suc i) es)" by (rule arg_cong)
  then show "conns (es[i := x]) = conns (take i es) @ conns [x] @ conns (drop (Suc i) es)" by (simp only: conns_append)
  have "es = take i es @ [es ! i] @ drop (Suc i) es" using id_take_nth_drop [OF assms] by simp
  then have "conns es = conns (take i es @ [es ! i] @ drop (Suc i) es)" by (rule arg_cong)
  then show "conns es = conns (take i es) @ conns [es ! i] @ conns (drop (Suc i) es)" by (simp only: conns_append)
qed

lemma conns_one [simp]: "conns [None] = []" "conns [Some p] = [p]" "conns [] = []"
  by (simp_all add: conns_def)

lemma conns_mem: "p \<in> set (conns es) \<longleftrightarrow> Some p \<in> set es"
  by (force simp: conns_def image_iff)

lemma find_place_Some: "find_place e es = Some i \<Longrightarrow> i < length es \<and> es ! i = e"
  by (induction es arbitrary: i) (auto split: if_splits)

lemma find_place_None: "find_place e es = None \<longleftrightarrow> e \<notin> set es"
  by (induction es) auto

text \<open>A connection is taken out of the table.\<close>

lemma free_interactive_ok:
  assumes ok: "ok_but {q} st" and ob: "c_interactive st ob = Some q" and i: "i < length (all_players st)" "all_players st ! i = Some q"
    and alone: "snoops st q = None" "snooped st q = None"
  shows "\<exists>st'. free_interactive ob i st = Some st' \<and> players_ok st' \<and> dom (c_ips st') = dom (c_ips st) - {q} \<and>
    conns (all_players st') = filter (\<lambda>p. p \<noteq> q) (conns (all_players st)) \<and> c_interactive st' = (c_interactive st)(ob := None) \<and>
    c_giver st' = c_giver st \<and> c_destructed st' = c_destructed st \<and> snoops st' = snoops st"
proof -
  let ?es = "all_players st"
  have t: "players_table st" "snoop_ok st" "quiet_but {q} st" using ok by (simp_all add: ok_but_def)
  have own: "owner st q = Some ob" using t(1) ob by (simp add: players_table_def)
  then obtain ip where ip: "c_ips st q = Some ip" by (auto simp: owner_def)
  define st' where "st' = (log_out (Telnet_detach (ip_tp ip)) st)\<lparr>num_player := num_player st - 1, c_ips := (c_ips st)(q := None),
    c_interactive := (c_interactive st)(ob := None), all_players := ?es[i := None]\<rparr>"
  have run: "free_interactive ob i st = Some st'" using ob ip by (simp add: free_interactive_def st'_def log_out_def Let_def)
  have c: "conns ?es = conns (take i ?es) @ q # conns (drop (Suc i) ?es)" using conns_upd(2) [OF i(1)] i(2) by simp
  have d: "distinct (conns ?es)" using t(1) by (simp add: players_table_def)
  then have nq: "q \<notin> set (conns (take i ?es))" "q \<notin> set (conns (drop (Suc i) ?es))" using c by auto
  have f: "filter (\<lambda>p. p \<noteq> q) xs = xs" if "q \<notin> set xs" for xs using that by (induction xs) auto
  have c': "conns (?es[i := None]) = filter (\<lambda>p. p \<noteq> q) (conns ?es)"
    unfolding c conns_upd(1) [OF i(1), of None] using f [OF nq(1)] f [OF nq(2)] by simp
  have n: "int (length (conns (?es[i := None]))) = int (length (conns ?es)) - 1" unfolding c conns_upd(1) [OF i(1), of None] by simp
  have v: "owner st' = (owner st)(q := None)" "snoops st' = snoops st" "snooped st' = snooped st"
    using alone by (auto simp: st'_def owner_def snoops_def snooped_def fun_eq_iff log_out_def)
  note tab = t(1) [unfolded players_table_def]
  have uniq: "c_interactive st' x = Some p \<longleftrightarrow> owner st' p = Some x" for x p
  proof -
    have "owner st p = Some ob \<longleftrightarrow> p = q" using tab ob by (metis option.inject)
    then show ?thesis using tab own unfolding v(1) by (auto simp: st'_def log_out_def)
  qed
  have "all_players st' = ?es[i := None]" "num_player st' = num_player st - 1" "c_next st' = c_next st" "dom (c_ips st') = dom (c_ips st) - {q}"
    by (auto simp: st'_def log_out_def)
  moreover have "{x \<in> dom (c_ips st). x \<noteq> q} = dom (c_ips st) - {q}" by auto
  ultimately have "players_table st'" using tab c' n uniq unfolding players_table_def by simp
  moreover have "snoop_ok st'" using t(2) unfolding snoop_ok_def v .
  moreover have "quiet_but {} st'" using t(3) by (auto simp: quiet_but_def st'_def log_out_def)
  ultimately show ?thesis using run c' v(2) by (auto simp: ok_but_def st'_def log_out_def)
qed

text \<open>The farewell reaches the terminal, or standard error, and no error comes of it.\<close>

lemma farewell_sent:
  assumes "c_interactive st ob = Some q" "c_ips st q = Some ip" "ip_snoop_by ip = None" "c_giver st = Some ob"
  shows "\<exists>st'. write_socket E (farewell r) (c_giver st) st = Some (Some (), st') \<and> alike st st' \<and> c_giver st' = c_giver st \<and> c_destructed st' = c_destructed st"
proof -
  have l: "length (farewell r) < 30" by (simp add: farewell_def)
  have "wrapped w col (farewell r) \<noteq> None" for w col
    using l wrap_total [of "[]" "farewell r" col w] by (auto simp: wrapped_def MAX_WRITE_SOCKET_SIZE_def)
  then obtain buf col where w: "wrapped (ip_screen_width ip) (ip_current_column ip) (farewell r) = Some (buf, col)" by force
  obtain st1 where 1: "set_ip q (\<lambda>ip. ip\<lparr>ip_current_column := col\<rparr>) st = Some st1" "c_giver st1 = c_giver st" "c_destructed st1 = c_destructed st"
    using assms(2) by (auto simp: set_ip_def)
  have "alike st st1" using 1(1) by (rule alike_set_ip) (simp add: marks_def)
  then show ?thesis using assms w 1
    by (auto simp: write_socket_def to_stderr_def tell_snooper_def go_on_def send_text_def log_out_def alike_def)
qed

lemma set_closing:
  assumes ok: "players_ok st" and q: "q \<in> dom (c_ips st)"
  shows "\<exists>st'. set_ip q (\<lambda>ip. ip\<lparr>ip_closing := True\<rparr>) st = Some st' \<and> ok_but {q} st' \<and> c_giver st' = c_giver st \<and> c_destructed st' = c_destructed st \<and>
    c_interactive st' = c_interactive st \<and> all_players st' = all_players st \<and> dom (c_ips st') = dom (c_ips st) \<and> snoops st' = snoops st \<and> snooped st' = snooped st"
proof -
  obtain ip where ip: "c_ips st q = Some ip" using q by auto
  let ?st = "st\<lparr>c_ips := (c_ips st)(q \<mapsto> ip\<lparr>ip_closing := True\<rparr>)\<rparr>"
  have v: "owner ?st = owner st" "snoops ?st = snoops st" "snooped ?st = snooped st" "dom (c_ips ?st) = dom (c_ips st)"
    using ip by (auto simp: owner_def snoops_def snooped_def fun_eq_iff)
  have "players_table ?st" using ok v by (simp add: ok_but_def players_table_def)
  moreover have "snoop_ok ?st" using ok unfolding ok_but_def snoop_ok_def v by blast
  moreover have "quiet_but {q} ?st" using ok ip by (auto simp: ok_but_def quiet_but_def)
  ultimately show ?thesis using ip v by (auto simp: set_ip_def ok_but_def)
qed

text \<open>
  Closing a connection: the pairs it is part of are separated, it leaves the table and its object, the Telnet server is told to close it,
  and then the master object hears of it.
\<close>

lemma disconnect_runs:
  assumes ok: "players_ok st" and ip: "c_ips st p = Some ip"
  shows "\<exists>st1. disconnect E p ld st =
      go_on (lpc E (Left_game (ip_ob ip) ld) st1) (\<lambda>_ st2. Some (Some (), give_order (c_giver st) st2)) \<and> players_ok st1 \<and>
    dom (c_ips st1) = dom (c_ips st) - {p} \<and> conns (all_players st1) = filter (\<lambda>q. q \<noteq> p) (conns (all_players st)) \<and>
    c_interactive st1 = (c_interactive st)(ip_ob ip := None) \<and> c_destructed st1 = c_destructed st \<and>
    snoops st1 = (\<lambda>x. if x = p \<or> snoops st x = Some p then None else snoops st x)"
proof -
  define ob where "ob = ip_ob ip"
  have t: "players_table st" "snoop_ok st" "quiet_but {} st" using ok by (simp_all add: ok_but_def)
  have p: "p \<in> dom (c_ips st)" using ip by auto
  have ob: "c_interactive st ob = Some p" using t(1) ip by (simp add: players_table_def owner_def ob_def)
  have "p \<in> set (conns (all_players st))" using t(1) p by (simp add: players_table_def)
  then obtain i where i: "find_place (Some p) (all_players st) = Some i"
    using find_place_None [of "Some p"] by (cases "find_place (Some p) (all_players st)") (auto simp: conns_mem)
  note il = find_place_Some [OF i]
  have leaves_ok: "\<not> ip_ed_buffer ip" "\<not> ip_closing ip" using t(3) ip by (auto simp: quiet_but_def)
  let ?st = "give_order (Some ob) st"
  have rem: "disconnect E p ld st = close_interactive E ob i ld (c_giver st) ?st"
    using ip ob i leaves_ok by (simp add: disconnect_def ob_def Let_def go_on_def)
  have ok0: "players_ok ?st" "p \<in> dom (c_ips ?st)" using ok p by (simp_all add: give_order_def)
  obtain st1 where 1: "set_ip p (\<lambda>ip. ip\<lparr>ip_closing := True\<rparr>) ?st = Some st1" "ok_but {p} st1" "c_giver st1 = Some ob"
    "c_destructed st1 = c_destructed st" "c_interactive st1 = c_interactive st" "all_players st1 = all_players st" "dom (c_ips st1) = dom (c_ips st)"
    "snoops st1 = snoops ?st" "snooped st1 = snooped ?st"
    using set_closing [OF ok0] by (auto simp: give_order_def)
  have s1: "snoops st1 = snoops st" using 1(8) by (simp add: give_order_def snoops_def fun_eq_iff)
  obtain st2 where 2: "stop_snooped p st1 = Some st2" "base_same st1 st2" "snoop_ok st2" "snooped st2 = (snooped st1)(p := None)"
    "snoops st2 = (case snooped st1 p of None \<Rightarrow> snoops st1 | Some x \<Rightarrow> (snoops st1)(x := None))"
    using stop_snooped_pair [of st1 p] 1(2,7) p by (auto simp: ok_but_def)
  have d2: "p \<in> dom (c_ips st2)" using 2(2) 1(7) p by (simp add: base_same_def)
  obtain st3 where 3: "stop_snooping p st2 = Some st3" "base_same st2 st3" "snoop_ok st3" "snoops st3 = (snoops st2)(p := None)"
    "snooped st3 = (case snoops st2 p of None \<Rightarrow> snooped st2 | Some x \<Rightarrow> (snooped st2)(x := None))"
    using stop_snooping_pair [OF 2(3) d2] by auto
  have b3: "base_same st1 st3" using 2(2) 3(2) by (rule base_trans)
  then have ok3: "ok_but {p} st3" using 1(2) 3(3) base_ok by blast
  have "snoop_ok st1" using 1(2) by (simp add: ok_but_def)
  note pr = snoop_pair [OF this, of p]
  have s2: "snoops st2 x = (if snoops st x = Some p then None else snoops st x)" for x
    using 2(5) pr [of x] s1 by (cases "snooped st1 p") auto
  have s3: "snoops st3 x = (if x = p \<or> snoops st x = Some p then None else snoops st x)" for x using 3(4) s2 [of x] by simp
  have alone: "snoops st3 p = None" "snooped st3 p = None" using 3(4,5) 2(4) by (auto split: option.splits)
  have at3: "c_interactive st3 ob = Some p" "c_giver st3 = Some ob" "c_destructed st3 = c_destructed st" "all_players st3 = all_players st"
    "dom (c_ips st3) = dom (c_ips st)" "c_interactive st3 = c_interactive st"
    using b3 1 ob by (simp_all add: base_same_def)
  then obtain ip3 where ip3: "c_ips st3 p = Some ip3" using p by auto
  have "ip_snoop_by ip3 = None" using alone(2) ip3 by (simp add: snooped_def)
  then obtain st4 where 4: "write_socket E (farewell (e_random E st3)) (c_giver st3) st3 = Some (Some (), st4)" "alike st3 st4"
    "c_giver st4 = c_giver st3" "c_destructed st4 = c_destructed st3"
    using farewell_sent [OF at3(1) ip3 _ at3(2)] by blast
  have v4: "snoops st4 = snoops st3" "snooped st4 = snooped st3" "dom (c_ips st4) = dom (c_ips st3)" "all_players st4 = all_players st3"
    "c_interactive st4 = c_interactive st3" using alike_views [OF 4(2)] 4(2) by (simp_all add: alike_def)
  obtain st5 where 5: "free_interactive ob i st4 = Some st5" "players_ok st5" "dom (c_ips st5) = dom (c_ips st4) - {p}"
    "conns (all_players st5) = filter (\<lambda>q. q \<noteq> p) (conns (all_players st4))" "c_interactive st5 = (c_interactive st4)(ob := None)"
    "c_destructed st5 = c_destructed st4" "snoops st5 = snoops st4"
    using free_interactive_ok [OF alike_ok [OF 4(2) ok3], of ob i] v4 at3 il alone by auto
  have "close_interactive E ob i ld (c_giver st) ?st =
      go_on (lpc E (Left_game ob ld) st5) (\<lambda>_ st2. Some (Some (), give_order (c_giver st) st2))"
    using ob 1(1) 2(1) 3(1) 4(1) 5(1) by (simp add: close_interactive_def give_order_def go_on_def)
  moreover have "snoops st5 = (\<lambda>x. if x = p \<or> snoops st x = Some p then None else snoops st x)"
    unfolding 5(7) v4(1) using s3 by (rule ext)
  ultimately show ?thesis using rem 5 4(4) v4 at3 unfolding ob_def by (intro exI [of _ st5]) simp
qed

section \<open>LPC code cannot break the invariant\<close>

definition leaves_ok :: "'a cresult \<Rightarrow> bool" where
  "leaves_ok r \<longleftrightarrow> (case r of None \<Rightarrow> True | Some (_, st) \<Rightarrow> players_ok st)"

lemma leaves_ok_simps [simp]: "leaves_ok None" "leaves_ok (Some (v, st)) = players_ok st"
  by (simp_all add: leaves_ok_def)

lemma leaves_okD: "leaves_ok r \<Longrightarrow> r = Some (v, st) \<Longrightarrow> players_ok st"
  by simp

lemma leaves_ok_go_on: "leaves_ok r \<Longrightarrow> (\<And>a st. players_ok st \<Longrightarrow> leaves_ok (f a st)) \<Longrightarrow> leaves_ok (go_on r f)"
  by (auto simp: go_on_def split: option.splits)

lemma leaves_ok_catching: "leaves_ok r \<Longrightarrow> (\<And>st. players_ok st \<Longrightarrow> leaves_ok (f st)) \<Longrightarrow> leaves_ok (catching r f)"
  by (auto simp: catching_def split: option.splits)

lemma leaves_ok_bind: "(\<And>x. m = Some x \<Longrightarrow> leaves_ok (f x)) \<Longrightarrow> leaves_ok (Option.bind m f)"
  by (cases m) simp_all

lemma set_ip_ok: "set_ip p f st = Some st' \<Longrightarrow> (\<And>ip. marks (f ip) = marks ip) \<Longrightarrow> players_ok st \<Longrightarrow> players_ok st'"
  using alike_ok alike_set_ip by blast

lemma stop_snooping_ok:
  assumes "players_ok st" "stop_snooping p st = Some st'"
  shows "players_ok st'"
proof -
  have "p \<in> dom (c_ips st)" "snoop_ok st" using assms by (auto simp: stop_snooping_def bind_eq_Some_conv ok_but_def)
  then show ?thesis using stop_snooping_pair assms base_ok by fastforce
qed

lemma start_snoop_ok:
  assumes ok: "players_ok st" and r: "start_snoop on by_p st = Some (r, st')"
  shows "players_ok st'"
proof (cases on; cases by_p)
  fix q p assume qp: "on = Some q" "by_p = Some p"
  have fin: "finite (dom (c_ips st))" "snoop_ok st" using ok unfolding ok_but_def players_table_def by (metis List.finite_set, blast)
  show ?thesis
  proof (cases "q = p")
    case True
    then show ?thesis using r qp ok by (auto simp: start_snoop_def snoop_chain.simps [of _ _ "Some p"])
  next
    case False
    have q: "q \<in> dom (c_ips st)" using r qp False
      by (auto simp: start_snoop_def snoop_chain.simps [of _ _ "Some q"] bind_eq_Some_conv)
    show ?thesis
    proof (cases "p \<in> dom (c_ips st)")
      case True
      from start_snoop_pairs [OF fin(2,1) True q] show ?thesis using r qp ok base_ok by fastforce
    next
      case False
      then show ?thesis using r qp ok
        by (auto simp: start_snoop_def stop_snooping_def bind_eq_Some_conv split: if_splits)
    qed
  qed
qed (use r ok in \<open>simp_all add: start_snoop_def\<close>)

lemma start_snoop_keeps: "players_ok st \<Longrightarrow> leaves_ok (start_snoop on by_p st)"
  using start_snoop_ok by (auto simp: leaves_ok_def split: option.splits)

lemma stop_snoop_keeps: "players_ok st \<Longrightarrow> leaves_ok (stop_snoop by_p st)"
  using stop_snooping_ok by (auto simp: stop_snoop_def intro!: leaves_ok_bind split: option.splits)

text \<open>A connection passes from one object to another that has none.\<close>

lemma attach_ok:
  assumes ok: "players_ok st" and p: "c_interactive st from = Some p" and to: "c_interactive st to = None"
    and ip: "c_ips st p = Some ip"
    and st': "c_ips st' = (c_ips st)(p \<mapsto> ip\<lparr>ip_ob := to\<rparr>)" "c_interactive st' = (c_interactive st)(to \<mapsto> p, from := None)"
      "all_players st' = all_players st" "num_player st' = num_player st" "c_next st' = c_next st"
  shows "players_ok st'"
proof -
  note tab = ok [unfolded ok_but_def players_table_def, THEN conjunct1]
  have v: "owner st' = (owner st)(p \<mapsto> to)" "snoops st' = snoops st" "snooped st' = snooped st" "dom (c_ips st') = dom (c_ips st)"
    using ip st'(1) by (auto simp: owner_def snoops_def snooped_def fun_eq_iff split: if_splits)
  have ne: "to \<noteq> from" using p to by auto
  have pair: "c_interactive st' x = Some q \<longleftrightarrow> owner st' q = Some x" for x q
  proof -
    have "owner st q = Some x \<longleftrightarrow> c_interactive st x = Some q" "owner st p = Some from" using tab p by blast+
    then show ?thesis using p to ne unfolding st'(2) v(1) by auto
  qed
  have "players_table st'" using tab pair st'(3-5) v(4) unfolding players_table_def by simp
  moreover have "snoop_ok st'" using ok unfolding ok_but_def snoop_ok_def v by blast
  moreover have "quiet_but {} st'" using ok ip st'(1) by (auto simp: ok_but_def quiet_but_def)
  ultimately show ?thesis by (simp add: ok_but_def)
qed

lemma move_connection_ok:
  assumes "players_ok st" "c_interactive st obfrom = Some p" "c_interactive st ob = None" "move_connection ob obfrom p st = Some st'"
  shows "players_ok st'"
proof -
  obtain ip where ip: "c_ips st p = Some ip" using assms(4) by (auto simp: move_connection_def set_ip_def split: option.splits)
  show ?thesis by (rule attach_ok [OF assms(1-3) ip]) (use assms(4) ip in \<open>auto simp: move_connection_def set_ip_def\<close>)
qed

lemma move_connection_keeps:
  "players_ok st \<Longrightarrow> c_interactive st obfrom = Some p \<Longrightarrow> c_interactive st ob = None \<Longrightarrow>
    leaves_ok (Option.bind (move_connection ob obfrom p st) (\<lambda>st. Some (Some (), st)))"
  using move_connection_ok by (auto intro!: leaves_ok_bind)

lemma pass_to_ok:
  assumes "players_ok st" "c_interactive st ob = None" "pass_to E ob st = Some st'"
  shows "players_ok st'"
proof -
  obtain q where q: "c_interactive st (e_master E) = Some q" using assms(3) by (auto simp: pass_to_def Let_def bind_eq_Some_conv)
  obtain ip where ip: "c_ips st q = Some ip" using assms(3) q by (cases "c_ips st q") (auto simp: pass_to_def set_ip_def Let_def)
  show ?thesis by (rule attach_ok [OF assms(1) q assms(2) ip]) (use assms(3) q ip in \<open>auto simp: pass_to_def set_ip_def Let_def\<close>)
qed

lemma open_connection_ok:
  assumes ok: "players_ok st" and m: "c_interactive st (e_master E) = None" and i: "find_place None (all_players st) = Some i"
  shows "players_ok (open_connection E i tp addr port st)"
proof -
  note tab = ok [unfolded ok_but_def players_table_def, THEN conjunct1]
  define p where "p = c_next st"
  let ?st = "open_connection E i tp addr port st"
  have fresh: "c_ips st p = None" using tab unfolding p_def by blast
  have o1: "c_ips ?st = (c_ips st)(p \<mapsto> new_interactive E tp addr port st)" "c_interactive ?st = (c_interactive st)(e_master E \<mapsto> p)"
    "all_players ?st = (all_players st)[i := Some p]" "num_player ?st = num_player st + 1" "c_next ?st = p + 1"
    by (simp_all add: open_connection_def p_def Let_def)
  have dead: "snoops st p = None" "snooped st p = None" "owner st p = None" using fresh by (simp_all add: snoops_def snooped_def owner_def)
  have v: "owner ?st = (owner st)(p \<mapsto> e_master E)" "snoops ?st = snoops st" "snooped ?st = snooped st"
    using dead unfolding o1(1) snoops_def snooped_def owner_def fun_eq_iff by (auto simp: o1(1) new_interactive_def)
  have pair: "c_interactive ?st x = Some q \<longleftrightarrow> owner ?st q = Some x" for x q
  proof -
    have t: "owner st q = Some x \<longleftrightarrow> c_interactive st x = Some q" for q x using tab by blast
    show ?thesis using t [of q x] t [of p x] m dead(3) unfolding o1(2) v(1) by auto
  qed
  note il = find_place_Some [OF i]
  have c: "conns (all_players ?st) = conns (take i (all_players st)) @ p # conns (drop (Suc i) (all_players st))"
    "conns (all_players st) = conns (take i (all_players st)) @ conns (drop (Suc i) (all_players st))"
    using conns_upd(1) [of i "all_players st" "Some p"] conns_upd(2) [of i "all_players st"] il unfolding o1(3) by simp_all
  have "p \<notin> set (conns (all_players st))" using tab fresh by auto
  then have "distinct (conns (all_players ?st))" "set (conns (all_players ?st)) = insert p (set (conns (all_players st)))"
    "length (conns (all_players ?st)) = Suc (length (conns (all_players st)))" using tab c by auto
  moreover have "\<forall>q\<in>dom (c_ips ?st). q < c_next ?st" using tab unfolding o1 by (auto simp: p_def less_Suc_eq)
  moreover have "dom (c_ips ?st) = insert p (dom (c_ips st))" "length (all_players ?st) = MAX_PLAYERS" using tab unfolding o1 by auto
  ultimately have "players_table ?st" using tab pair o1(4) unfolding players_table_def by simp
  moreover have "snoop_ok ?st" using ok unfolding ok_but_def snoop_ok_def v by blast
  moreover have "quiet_but {} ?st" using ok unfolding o1(1) ok_but_def quiet_but_def by (auto simp: o1(1) new_interactive_def)
  ultimately show ?thesis by (simp add: ok_but_def)
qed

text \<open>
  The contract of the calls of LPC code: they keep the invariant, whether they return or raise an error.  Every operation then leaves_ok it too.
\<close>

locale lpc_contract =
  fixes E :: comm_env
  assumes call_keeps: "players_ok st \<Longrightarrow> e_call E ev st = (r, st') \<Longrightarrow> r \<noteq> Crashed \<Longrightarrow> players_ok st'"
begin

lemma lpc_keeps: "players_ok st \<Longrightarrow> leaves_ok (lpc E ev st)"
  using call_keeps by (auto simp: lpc_def split: prod.splits lpc_answer.splits)

lemma to_stderr_keeps: "players_ok st \<Longrightarrow> leaves_ok (to_stderr s st)"
  by (simp add: to_stderr_def)

lemma add_message2_keeps: "players_ok st \<Longrightarrow> leaves_ok (add_message2 E ob s st)"
  by (auto simp: add_message2_def Let_def intro!: leaves_ok_go_on lpc_keeps to_stderr_keeps)

lemma add_message_keeps: "players_ok st \<Longrightarrow> leaves_ok (add_message E s st)"
  by (auto simp: add_message_def intro!: leaves_ok_go_on lpc_keeps to_stderr_keeps split: option.splits)

lemma tell_snooper_keeps: "players_ok st \<Longrightarrow> leaves_ok (tell_snooper E p pre cp post st)"
  by (auto simp: tell_snooper_def Let_def intro!: leaves_ok_bind leaves_ok_go_on add_message2_keeps split: option.splits)

lemma send_text_keeps: "players_ok st \<Longrightarrow> leaves_ok (send_text p cp st)"
  by (auto simp: send_text_def marks_def intro!: leaves_ok_bind elim!: set_ip_ok split: option.splits)

lemma write_socket_keeps: "players_ok st \<Longrightarrow> leaves_ok (write_socket E cp ob st)"
  by (auto simp: write_socket_def intro!: leaves_ok_bind leaves_ok_go_on tell_snooper_keeps send_text_keeps to_stderr_keeps split: option.splits)

lemma disconnect_keeps:
  assumes "players_ok st"
  shows "leaves_ok (disconnect E p ld st)"
proof (cases "c_ips st p")
  case None
  then show ?thesis by (simp add: disconnect_def)
next
  case (Some ip)
  from disconnect_runs [OF assms Some, of E ld] obtain st1 where
    "disconnect E p ld st = go_on (lpc E (Left_game (ip_ob ip) ld) st1) (\<lambda>_ st2. Some (Some (), give_order (c_giver st) st2))"
    "players_ok st1" by blast
  then show ?thesis by (auto intro!: leaves_ok_go_on lpc_keeps)
qed

lemma set_snoop_keeps: "players_ok st \<Longrightarrow> leaves_ok (set_snoop E me you st)"
  by (auto simp: set_snoop_def snoop_allowed_def intro!: leaves_ok_bind leaves_ok_go_on lpc_keeps stop_snoop_keeps start_snoop_keeps
    split: option.splits)

lemma f_snoop_keeps: "players_ok st \<Longrightarrow> leaves_ok (f_snoop E me you st)"
  by (auto simp: f_snoop_def intro!: leaves_ok_go_on set_snoop_keeps)

lemma replace_interactive_keeps: "players_ok st \<Longrightarrow> leaves_ok (replace_interactive E ob obfrom name st)"
  by (auto simp: replace_interactive_def intro!: leaves_ok_go_on lpc_keeps disconnect_keeps move_connection_keeps split: option.splits)

lemma destruct_connection_keeps: "players_ok st \<Longrightarrow> leaves_ok (destruct_connection E ob st)"
  by (auto simp: destruct_connection_def Let_def intro!: leaves_ok_go_on leaves_ok_bind lpc_keeps disconnect_keeps split: option.splits)

lemma input_to_ok: "players_ok st \<Longrightarrow> input_to f noecho st = Some (r, st') \<Longrightarrow> players_ok st'"
  by (auto simp: input_to_def set_call_def bind_eq_Some_conv marks_def elim!: set_ip_ok split: option.splits if_splits)

lemma notify_fail_ok: "players_ok st \<Longrightarrow> set_notify_fail_message s pri st = Some st' \<Longrightarrow> players_ok st'"
  by (auto simp: set_notify_fail_message_def clear_notify_def bind_eq_Some_conv marks_def elim!: set_ip_ok split: option.splits if_splits)

lemma f_set_screen_width_keeps: "players_ok st \<Longrightarrow> leaves_ok (f_set_screen_width n st)"
  by (auto simp: f_set_screen_width_def marks_def intro!: leaves_ok_bind elim!: set_ip_ok split: option.splits)

lemma f_write_socket_keeps: "players_ok st \<Longrightarrow> leaves_ok (f_write_socket E v st)"
  by (auto simp: f_write_socket_def intro!: leaves_ok_bind write_socket_keeps split: sval.splits)

lemmas operation_keeps = f_snoop_keeps replace_interactive_keeps destruct_connection_keeps f_set_screen_width_keeps
  f_write_socket_keeps add_message_keeps

lemma run_op_keeps: "players_ok st \<Longrightarrow> leaves_ok (run_op E op st)"
  by (cases op) (auto simp: ends_def intro!: leaves_ok_go_on leaves_ok_bind operation_keeps elim: input_to_ok notify_fail_ok)

lemma run_ops_keeps: "players_ok st \<Longrightarrow> leaves_ok (run_ops E ops st)"
  by (induction ops arbitrary: st) (auto simp: ends_def intro!: leaves_ok_go_on run_op_keeps)

lemma call_function_keeps: "players_ok st \<Longrightarrow> leaves_ok (call_function_interactive E p str st)"
  by (auto simp: call_function_interactive_def marks_def intro!: leaves_ok_bind leaves_ok_go_on lpc_keeps elim!: set_ip_ok split: option.splits)

lemma print_prompt_keeps: "players_ok st \<Longrightarrow> leaves_ok (print_prompt E st)"
  by (auto simp: print_prompt_def intro!: leaves_ok_bind add_message_keeps)

lemma dispatch_line_keeps: "players_ok st \<Longrightarrow> leaves_ok (dispatch_line E cp st)"
  by (auto simp: dispatch_line_def intro!: leaves_ok_bind leaves_ok_go_on lpc_keeps call_function_keeps)

lemma prompt_again_keeps: "players_ok st \<Longrightarrow> leaves_ok (prompt_again E st)"
  by (auto simp: prompt_again_def intro!: print_prompt_keeps split: option.splits)

lemma input_line_keeps: "players_ok st \<Longrightarrow> leaves_ok (input_line E p cp st)"
  by (auto simp: input_line_def marks_def intro!: leaves_ok_bind leaves_ok_go_on leaves_ok_catching tell_snooper_keeps dispatch_line_keeps prompt_again_keeps
    elim!: set_ip_ok)

lemma logon_keeps: "players_ok st \<Longrightarrow> leaves_ok (logon E ob st)"
  by (auto simp: logon_def Let_def intro!: leaves_ok_go_on lpc_keeps)

lemma ask_host_name_ok: "players_ok st \<Longrightarrow> ask_host_name E ob i st = Some st' \<Longrightarrow> players_ok st'"
  by (auto simp: ask_host_name_def bind_eq_Some_conv split: if_splits)

lemma new_player_keeps:
  assumes ok: "players_ok st" and m: "c_interactive st (e_master E) = None"
    and connect: "\<And>st1 st2 ob. e_call E Connect st1 = (Returned (Some (T_OBJECT ob)), st2) \<Longrightarrow> c_interactive st2 ob = None"
  shows "leaves_ok (new_player E tp addr port st)"
proof (cases "find_place None (all_players st)")
  case None
  then show ?thesis using ok by (simp add: new_player_def)
next
  case (Some i)
  let ?st = "open_connection E i tp addr port st"
  have ok1: "players_ok ?st" using open_connection_ok [OF ok m Some] .
  obtain r st2 where call: "e_call E Connect ?st = (r, st2)" by (cases "e_call E Connect ?st")
  show ?thesis
  proof (cases r)
    case (Returned ret)
    then have ok2: "players_ok st2" using call_keeps [OF ok1 call] by simp
    show ?thesis
    proof (cases "\<exists>ob. ret = Some (T_OBJECT ob)")
      case True
      then obtain ob where ob: "ret = Some (T_OBJECT ob)" by blast
      have free: "c_interactive st2 ob = None" using connect call Returned ob by blast
      show ?thesis using Some call Returned ob ok2
          by (auto simp: new_player_def lpc_def go_on_def [of "Some _"] intro!: leaves_ok_bind leaves_ok_go_on
            intro: logon_keeps ask_host_name_ok pass_to_ok [OF ok2 free])
    next
      case False
      then show ?thesis using Some call Returned ok2
        by (auto simp: new_player_def lpc_def go_on_def [of "Some _"] intro!: leaves_ok_bind leaves_ok_go_on disconnect_keeps
          split: option.splits sval.splits)
    qed
  qed (use Some call call_keeps [OF ok1 call] in \<open>simp_all add: new_player_def lpc_def go_on_def\<close>)
qed

end

section \<open>LPC programs\<close>

lemma play_contract: "lpc_contract (E\<lparr>e_call := play n prog E\<rparr>)"
proof (induction n)
  case 0
  show ?case by unfold_locales auto
next
  case (Suc n)
  show ?case
  proof
    fix st ev r st'
    assume ok: "players_ok st" and call: "e_call (E\<lparr>e_call := play (Suc n) prog E\<rparr>) ev st = (r, st')" and live: "r \<noteq> Crashed"
    obtain ops v where p: "prog ev st = (ops, v)" by (cases "prog ev st")
    have "leaves_ok (run_ops (E\<lparr>e_call := play n prog E\<rparr>) ops st)" by (rule lpc_contract.run_ops_keeps [OF Suc ok])
    moreover have "(r, st') = lpc_return (run_ops (E\<lparr>e_call := play n prog E\<rparr>) ops st) v st" using call p by simp
    ultimately show "players_ok st'" using live by (auto simp: lpc_return_def split: option.splits)
  qed
qed

interpretation played: lpc_contract "E\<lparr>e_call := play n prog E\<rparr>" for n prog E
  by (rule play_contract)

section \<open>The life of the table\<close>

definition new_comm :: comm where
  "new_comm = \<lparr>all_players = replicate MAX_PLAYERS None, num_player = 0, c_ips = Map.empty, c_next = 0, c_interactive = Map.empty,
     c_destructed = (\<lambda>_. False), c_once = (\<lambda>_. False), c_giver = None, c_current = None, c_iptable = iptable0, c_log = []\<rparr>"

text \<open>What the network and the main loop make happen.\<close>

inductive comm_step :: "comm_env \<Rightarrow> comm \<Rightarrow> comm \<Rightarrow> bool" for E where
  arrives: "c_interactive st (e_master E) = None \<Longrightarrow> new_player E tp addr port st = Some (r, st') \<Longrightarrow> comm_step E st st'"
| line: "input_line E p cp st = Some (r, st') \<Longrightarrow> comm_step E st st'"
| leaves: "disconnect E p True st = Some (r, st') \<Longrightarrow> comm_step E st st'"
| host: "hname_input inet_addr cp st = Some st' \<Longrightarrow> comm_step E st st'"
| called: "e_call E ev st = (r, st') \<Longrightarrow> r \<noteq> Crashed \<Longrightarrow> comm_step E st st'"
| between: "comm_step E st (st\<lparr>c_giver := g, c_current := c\<rparr>)"

inductive_cases comm_stepE: "comm_step E st st'"

lemma new_comm_ok: "players_ok new_comm"
proof -
  have "conns (replicate n None) = []" for n by (simp add: conns_def)
  then show ?thesis
    by (simp add: ok_but_def players_table_def snoop_ok_def quiet_but_def new_comm_def snoops_def snooped_def owner_def acyclic_def)
qed

lemma hname_input_ok: "players_ok st \<Longrightarrow> hname_input inet_addr cp st = Some st' \<Longrightarrow> players_ok st'"
  by (auto simp: hname_input_def Let_def bind_eq_Some_conv marks_def elim!: set_ip_ok split: option.splits if_splits)

lemma comm_step_ok:
  assumes connect: "\<forall>st1 st2 ob. play n prog E Connect st1 = (Returned (Some (T_OBJECT ob)), st2) \<longrightarrow> c_interactive st2 ob = None"
    and step: "comm_step (E\<lparr>e_call := play n prog E\<rparr>) st st'" and ok: "players_ok st"
  shows "players_ok st'"
  using step
proof cases
  case (arrives tp addr port r)
  have "leaves_ok (new_player (E\<lparr>e_call := play n prog E\<rparr>) tp addr port st)"
    using arrives(1) connect by (intro played.new_player_keeps ok) auto
  then show ?thesis using arrives(2) by simp
next
  case (line p cp r)
  then show ?thesis using played.input_line_keeps [OF ok, of n prog E p cp] by simp
next
  case (leaves p r)
  then show ?thesis using played.disconnect_keeps [OF ok, of n prog E p True] by simp
next
  case (host inet_addr cp)
  then show ?thesis using hname_input_ok ok by blast
next
  case (called ev r)
  then show ?thesis using played.call_keeps ok by blast
qed (use ok in simp)

lemma nth_player_conns:
  "set (conns es) \<subseteq> dom (c_ips st) \<Longrightarrow> i < length (conns es) \<Longrightarrow> nth_player st es (int i) = owner st (conns es ! i)"
proof (induction es arbitrary: i)
  case (Cons e es)
  show ?case
  proof (cases e)
    case None
    then show ?thesis using Cons by (simp add: conns_def)
  next
    case (Some p)
    have "conns (e # es) = p # conns es" using Some by (simp add: conns_def)
    then show ?thesis using Cons Some by (cases i) (auto simp: owner_def)
  qed
qed (simp add: conns_def)

lemma users_list:
  assumes "players_table st"
  shows "users st = Some (map (\<lambda>p. the (owner st p)) (conns (all_players st)))"
proof -
  let ?c = "conns (all_players st)"
  have n: "num_player st = int (length ?c)" and live: "set ?c = dom (c_ips st)" using assms by (simp_all add: players_table_def)
  have "get_interactive_object (int i) st = Some (the (owner st (?c ! i)))" if "i < length ?c" for i
  proof -
    have "?c ! i \<in> dom (c_ips st)" using that live nth_mem by blast
    then show ?thesis using that n nth_player_conns [of "all_players st" st i] live
      by (auto simp: get_interactive_object_def owner_def)
  qed
  then have g: "map (\<lambda>i. get_interactive_object i st) (map int [0..<length ?c]) = map Some (map (\<lambda>i. the (owner st (?c ! i))) [0..<length ?c])"
    by simp
  have u: "[0..int m - 1] = map int [0..<m]" for m
    by (induction m) (simp_all add: upto_rec2)
  have those: "those (map Some xs) = Some xs" for xs :: "nat list" by (induction xs) simp_all
  have "map (\<lambda>i. the (owner st (?c ! i))) [0..<length ?c] = map (\<lambda>p. the (owner st p)) ?c" by (rule nth_equalityI) simp_all
  then have "those (map (\<lambda>i. get_interactive_object i st) [0..num_player st - 1]) = Some (map (\<lambda>p. the (owner st p)) ?c)"
    unfolding n u g those by simp
  then show ?thesis using n by (simp add: users_def)
qed

text \<open>Whatever happens to the table of players, and whatever LPC code does when it is called in the middle of it, as long as
  nobody uses the line editor and the master object gives new connections to objects that have none: an object has a connection exactly
  when the connection is in the table and belongs to it, the efun \<^verbatim>\<open>users\<close> lists the owners of all the connections in the order of the
  table, a player is snooped by exactly the one who snoops it, and nobody snoops itself in a circle.\<close>

lemma players_consistent:
  assumes "\<forall>st1 st2 ob. play n prog E Connect st1 = (Returned (Some (T_OBJECT ob)), st2) \<longrightarrow> c_interactive st2 ob = None"
    and "(comm_step (E\<lparr>e_call := play n prog E\<rparr>))\<^sup>*\<^sup>* new_comm st"
  shows "(\<forall>ob p. c_interactive st ob = Some p \<longleftrightarrow> Some p \<in> set (all_players st) \<and> owner st p = Some ob) \<and>
    users st = Some (map (\<lambda>p. the (owner st p)) (conns (all_players st))) \<and>
    (\<forall>p q. snoops st p = Some q \<longleftrightarrow> snooped st q = Some p) \<and> acyclic (snoop_rel st)"
proof -
  from assms(2) have "players_ok st"
    by (induction rule: rtranclp_induct) (use new_comm_ok comm_step_ok [OF assms(1)] in blast)+
  then have t: "players_table st" "snoop_ok st" by (simp_all add: ok_but_def)
  have "c_interactive st ob = Some p \<longleftrightarrow> Some p \<in> set (all_players st) \<and> owner st p = Some ob" for ob p
    using t(1) unfolding players_table_def conns_mem [symmetric] by (auto simp: owner_def)
  then show ?thesis using users_list [OF t(1)] t(2) unfolding snoop_ok_def snoop_rel_def by blast
qed

section \<open>Snooping, step by step\<close>

lemma find_snoopers_two:
  assumes "set (conns es) \<subseteq> dom (c_ips st)" "me \<noteq> y"
    and "\<And>x. owner st x = Some me \<longleftrightarrow> x = p" "\<And>x. owner st x = Some y \<longleftrightarrow> x = q"
    and "on = None \<and> q \<in> set (conns es) \<or> on = Some q" "by_p = None \<and> p \<in> set (conns es) \<or> by_p = Some p"
  shows "find_snoopers me (Some y) st es on by_p = Some (Some q, Some p)"
  using assms(1,5,6)
proof (induction es arbitrary: on by_p)
  case Nil
  then show ?case by simp
next
  case (Cons e es)
  show ?case
  proof (cases "on \<noteq> None \<and> by_p \<noteq> None")
    case True
    then show ?thesis using Cons.prems by auto
  next
    case False
    show ?thesis
    proof (cases e)
      case None
      then show ?thesis using Cons False by (auto simp: conns_def)
    next
      case (Some x)
      have c: "conns (e # es) = x # conns es" using Some by (simp add: conns_def)
      then obtain ip where ip: "c_ips st x = Some ip" using Cons.prems(1) by auto
      have "ip_ob ip = me \<longleftrightarrow> x = p" "ip_ob ip = y \<longleftrightarrow> x = q" using assms(3,4) [of x] ip by (simp_all add: owner_def)
      moreover have "p \<noteq> q" using assms(2-4) by (metis option.inject)
      ultimately show ?thesis using Cons.IH Cons.prems c ip Some False by auto
    qed
  qed
qed

lemma find_snoopers_pair:
  assumes ok: "players_ok st" and "me \<noteq> y" "c_interactive st me = Some p" "c_interactive st y = Some q"
  shows "find_snoopers me (Some y) st (all_players st) None None = Some (Some q, Some p)"
proof -
  note tab = ok [unfolded ok_but_def players_table_def, THEN conjunct1]
  have own: "owner st x = Some me \<longleftrightarrow> x = p" "owner st x = Some y \<longleftrightarrow> x = q" for x using tab assms(3,4) by (metis option.inject)+
  then have "p \<in> dom (c_ips st)" "q \<in> dom (c_ips st)" by (force simp: owner_def)+
  then show ?thesis using tab assms(2) own by (intro find_snoopers_two) auto
qed

text \<open>C25. An order to snoop.  When both objects are alive and have connections, \<^verbatim>\<open>set_snoop\<close> always comes to an end, and the answer is
  yes exactly when the order comes from the master object or the master object, which is asked otherwise, permits it, and the other does not
  already snoop the first, directly or through other players.  After a no nothing is changed but what the master object did while it was asked.
  After a yes the first snoops the other, whoever snooped the other no longer does, whomever the first snooped is free, and no other pair is changed;
  who snoops and who is snooped still agree, without circles.  This is for a well-formed table of players, nobody using the line editor, which the
  master object leaves well-formed, with both connections still open.\<close>

theorem set_snoop_pairs:
  assumes ok: "players_ok st" and ne: "me \<noteq> y"
    and me: "c_interactive st me = Some p" "\<not> c_destructed st me" and you: "c_interactive st y = Some q" "\<not> c_destructed st y"
    and ask: "if c_current st = Some (e_master E) then permit \<and> st1 = st
      else e_call E (Valid_snoop (c_current st) me (Some y)) st = (Returned v, st1) \<and> permit = permits v"
    and ok1: "players_ok st1" and live: "{p, q} \<subseteq> dom (c_ips st1)"
  shows "\<exists>r st'. set_snoop E me (Some y) st = Some (Some r, st') \<and> players_ok st' \<and>
    (r \<longleftrightarrow> permit \<and> (q, p) \<notin> (snoop_rel st1)\<^sup>*) \<and> (\<not> r \<longrightarrow> st' = st1) \<and>
    (r \<longrightarrow> snoops st' = (\<lambda>x. if x = p then Some q else if snoops st1 x = Some q then None else snoops st1 x))"
proof -
  have fin: "finite (dom (c_ips st1))" "snoop_ok st1" using ok1 unfolding ok_but_def players_table_def by (metis List.finite_set, blast)
  have pq: "p \<in> dom (c_ips st1)" "q \<in> dom (c_ips st1)" using live by simp_all
  have run: "set_snoop E me (Some y) st = (if permit then start_snoop (Some q) (Some p) st1 else Some (Some False, st1))"
    using find_snoopers_pair [OF ok ne me(1) you(1)] me(2) you(2) ask
    by (auto simp: set_snoop_def snoop_allowed_def lpc_def go_on_def split: if_splits)
  show ?thesis
  proof (cases permit)
    case True
    obtain r st' where r: "start_snoop (Some q) (Some p) st1 = Some (Some r, st')" "base_same st1 st'" "snoop_ok st'"
      "r \<longleftrightarrow> (q, p) \<notin> (snoop_rel st1)\<^sup>*" "snoops st' = (if r then new_pair p q st1 else snoops st1)" "\<not> r \<longrightarrow> st' = st1"
      using start_snoop_pairs [OF fin(2,1) pq] by blast
    then show ?thesis using run True base_ok [OF r(2,3) ok1] unfolding new_pair_def by auto
  next
    case False
    then show ?thesis using run ok1 by (intro exI [of _ False] exI [of _ st1]) simp
  qed
qed

text \<open>\<^verbatim>\<open>set_snoop\<close> looks the two connections up before it asks the master object, and uses them after: when the master object gives its
  permission but the one to be snooped has left the game in the meantime, the driver reads freed memory.\<close>

lemma set_snoop_after_leaving:
  assumes ok: "players_ok st" and cur: "c_current st \<noteq> Some (e_master E)"
    and me: "c_interactive st me = Some p" "\<not> c_destructed st me" and you: "c_interactive st y = Some q" "\<not> c_destructed st y" and ne: "me \<noteq> y"
    and call: "e_call E (Valid_snoop (c_current st) me (Some y)) st = (Returned v, st')" "permits v" and gone: "c_ips st' q = None"
  shows "set_snoop E me (Some y) st = None"
proof -
  note tab = ok [unfolded ok_but_def players_table_def, THEN conjunct1]
  have "q \<noteq> p" using tab me you ne by (metis option.inject)
  then have "start_snoop (Some q) (Some p) st' = None"
    using gone by (simp add: start_snoop_def snoop_chain.simps [of _ _ "Some q"])
  then show ?thesis using find_snoopers_pair [OF ok ne me(1) you(1)] me(2) you(2) cur call
    by (simp add: set_snoop_def snoop_allowed_def lpc_def go_on_def)
qed

section \<open>Where the driver goes wrong\<close>

text \<open>A number of ten digits does not fit into the buffer of the efun \<^verbatim>\<open>write_socket\<close>.\<close>

lemma write_socket_overflows: "f_write_socket E (T_NUMBER 1000000000) st = None"
proof -
  have "length (fmt_d 1000000000) = 10" by (simp add: fmt_d_def dec_nat.simps)
  then show ?thesis by (simp add: f_write_socket_def)
qed

text \<open>A message of \<^verbatim>\<open>notify_fail\<close> that is too long does not fit into the buffer of \<^verbatim>\<open>add_message\<close>.\<close>

lemma notify_overflows:
  assumes "c_giver st = Some g" "c_interactive st g = Some p" "c_ips st p = Some ip" "ip_default_err ip = Some s" "10000 \<le> length s"
    and "e_call E (Process_string s) st = (Returned None, st)"
  shows "notify_no_command E st = None"
  using assms by (simp add: notify_no_command_def lpc_def go_on_def add_message_def)

text \<open>
  An object that has a connection already is given a second one: the first one still claims the object, which does not know it any more.
\<close>

lemma new_player_forgets:
  assumes ok: "players_ok st" and i: "find_place None (all_players st) = Some i" and no_ip: "e_no_ip_demon E"
    and ob: "c_interactive st ob = Some p" "ob \<noteq> e_master E"
    and connect: "\<And>st1. e_call E Connect st1 = (Returned (Some (T_OBJECT ob)), st1)"
    and logon: "\<And>st1. e_call E (Logon ob) st1 = (Returned (Some v), st1)"
  shows "\<exists>st'. new_player E tp addr port st = Some (Some (Some (c_next st)), st') \<and> p \<noteq> c_next st \<and> owner st' p = Some ob \<and>
    owner st' (c_next st) = Some ob \<and> c_interactive st' ob = Some (c_next st)"
proof -
  have own: "owner st p = Some ob" using ok ob unfolding ok_but_def players_table_def by blast
  then have "p \<in> dom (c_ips st)" by (auto simp: owner_def)
  then have ne: "p \<noteq> c_next st" using ok unfolding ok_but_def players_table_def by blast
  then show ?thesis using own ob i no_ip connect logon find_place_Some [OF i]
    by (auto simp: new_player_def go_on_def lpc_def open_connection_def Let_def pass_to_def set_ip_def ask_host_name_def logon_def
      new_interactive_def owner_def)
qed

section \<open>An example\<close>

text \<open>
  The master object 1 gives the connection at the address \<open>p\<close> to the object \<open>6 + p\<close>; asked whether someone may snoop the object 7, it
  destructs 7 and says yes.
\<close>

definition demo_program :: lpc_program where
  "demo_program ev st =
     (case ev of
        Connect \<Rightarrow> ([], if c_interactive st (5 + c_next st) = None then Some (T_OBJECT (5 + c_next st)) else None)
      | Valid_snoop cur me you \<Rightarrow> ([Op_destruct 7], Some const1)
      | _ \<Rightarrow> ([], Some const0))"

definition demo_base :: comm_env where
  "demo_base = \<lparr>e_call = (\<lambda>_ st. (Lpc_raised, st)), e_master = 1, e_random = (\<lambda>_. 0), e_time = (\<lambda>_. 0), e_legal = (\<lambda>_ _. True),
     e_funobj = (\<lambda>_. 0), e_super = (\<lambda>_ _. False), e_port = 3011, e_no_ip_demon = True\<rparr>"

definition demo_comm_env :: comm_env where "demo_comm_env = demo_base\<lparr>e_call := play 2 demo_program demo_base\<rparr>"

lemma demo_comm_calls:
  "e_call demo_comm_env Connect st = (Returned (if c_interactive st (5 + c_next st) = None then Some (T_OBJECT (5 + c_next st)) else None), st)"
  "e_call demo_comm_env (Logon ob) st = (Returned (Some const0), st)" "e_call demo_comm_env (Left_game ob ld) st = (Returned (Some const0), st)"
  by (simp_all add: demo_comm_env_def numeral_2_eq_2 demo_program_def ends_def lpc_return_def)

lemma demo_connect:
  "play 2 demo_program demo_base Connect st1 = (Returned (Some (T_OBJECT ob)), st2) \<Longrightarrow> c_interactive st2 ob = None"
  by (auto simp: numeral_2_eq_2 demo_program_def ends_def lpc_return_def split: if_splits)

text \<open>A player arrives.\<close>

lemma demo_arrives:
  assumes "find_place None (all_players st) = Some i" "i < length (all_players st)" "c_interactive st (6 + c_next st) = None" "c_next st = k"
  shows "\<exists>st'. new_player demo_comm_env 0 0 0 st = Some (Some (Some k), st') \<and> all_players st' = (all_players st)[i := Some k] \<and> c_next st' = k + 1 \<and>
    c_interactive st' = (c_interactive st)(6 + k \<mapsto> k, 1 := None) \<and> c_destructed st' = c_destructed st \<and> owner st' = (owner st)(k \<mapsto> 6 + k) \<and>
    snoops st' = (snoops st)(k := None)"
  using assms
  by (auto simp: new_player_def go_on_def lpc_def demo_comm_calls open_connection_def Let_def pass_to_def set_ip_def ask_host_name_def logon_def
    new_interactive_def demo_comm_env_def [THEN arg_cong, of e_no_ip_demon] demo_comm_env_def [THEN arg_cong, of e_master] demo_base_def
    owner_def snoops_def fun_eq_iff)

lemma demo_steps:
  "\<exists>st1 st2. comm_step demo_comm_env new_comm st1 \<and> comm_step demo_comm_env st1 st2 \<and> all_players st2 = Some 0 # Some 1 # replicate 498 None \<and>
     c_interactive st2 = [7 \<mapsto> 1, 6 \<mapsto> 0] \<and> c_destructed st2 = (\<lambda>_. False) \<and> owner st2 = [1 \<mapsto> 7, 0 \<mapsto> 6] \<and> snoops st2 = Map.empty"
proof -
  have l: "all_players new_comm = None # None # replicate 498 None"
    using replicate_Suc [of 499 "None :: nat option"] replicate_Suc [of 498 "None :: nat option"] by (simp add: new_comm_def MAX_PLAYERS_def)
  have e: "c_interactive new_comm = Map.empty" "c_next new_comm = 0" "c_destructed new_comm = (\<lambda>_. False)" "owner new_comm = Map.empty" "snoops new_comm = Map.empty"
    by (simp_all add: new_comm_def owner_def snoops_def fun_eq_iff)
  obtain st1 where 1: "new_player demo_comm_env 0 0 0 new_comm = Some (Some (Some 0), st1)" "all_players st1 = Some 0 # None # replicate 498 None" "c_next st1 = 1"
    "c_interactive st1 = [6 \<mapsto> 0]" "c_destructed st1 = (\<lambda>_. False)" "owner st1 = [0 \<mapsto> 6]" "snoops st1 = Map.empty"
    using demo_arrives [of new_comm 0 0] unfolding l e by (auto simp: fun_upd_idem)
  obtain st2 where 2: "new_player demo_comm_env 0 0 0 st1 = Some (Some (Some 1), st2)" "all_players st2 = Some 0 # Some 1 # replicate 498 None"
    "c_interactive st2 = [6 \<mapsto> 0, 7 \<mapsto> 1]" "c_destructed st2 = (\<lambda>_. False)" "owner st2 = [0 \<mapsto> 6, 1 \<mapsto> 7]" "snoops st2 = Map.empty"
    using demo_arrives [of st1 1 1] unfolding 1 by (auto simp: fun_upd_idem)
  have m: "e_master demo_comm_env = 1" by (simp add: demo_comm_env_def demo_base_def)
  have "comm_step demo_comm_env new_comm st1" "comm_step demo_comm_env st1 st2"
    by (rule comm_step.arrives [OF _ 1(1)], simp add: e m) (rule comm_step.arrives [OF _ 2(1)], simp add: 1(4) m)
  then show ?thesis using 2 by (intro exI [of _ st1] exI [of _ st2]) (simp add: fun_upd_twist)
qed

lemma demo_two:
  "\<exists>st. players_ok st \<and> c_interactive st 6 = Some 0 \<and> c_interactive st 7 = Some 1 \<and> c_destructed st = (\<lambda>_. False) \<and> snoops st = Map.empty"
proof -
  obtain st1 st2 where s: "comm_step demo_comm_env new_comm st1" "comm_step demo_comm_env st1 st2" and st2: "c_interactive st2 = [7 \<mapsto> 1, 6 \<mapsto> 0]"
    "c_destructed st2 = (\<lambda>_. False)" "snoops st2 = Map.empty" using demo_steps by blast
  have "\<forall>st1 st2 ob. play 2 demo_program demo_base Connect st1 = (Returned (Some (T_OBJECT ob)), st2) \<longrightarrow> c_interactive st2 ob = None"
    using demo_connect by blast
  then have "players_ok st2" using comm_step_ok [OF _ _ new_comm_ok] comm_step_ok s unfolding demo_comm_env_def by blast
  then show ?thesis using st2 by (intro exI [of _ st2]) simp
qed

lemma players_consistent_example:
  "\<exists>st. (comm_step demo_comm_env)\<^sup>*\<^sup>* new_comm st \<and> users st = Some [6, 7] \<and> acyclic (snoop_rel st)"
proof -
  obtain st1 st2 where s: "comm_step demo_comm_env new_comm st1" "comm_step demo_comm_env st1 st2" and st2: "all_players st2 = Some 0 # Some 1 # replicate 498 None"
    "owner st2 = [1 \<mapsto> 7, 0 \<mapsto> 6]" using demo_steps by blast
  have r: "(comm_step demo_comm_env)\<^sup>*\<^sup>* new_comm st2" using s by (meson converse_rtranclp_into_rtranclp rtranclp.rtrancl_refl)
  have "conns (replicate n None) = []" for n by (simp add: conns_def)
  then have "conns (all_players st2) = [0, 1]" using st2(1) by (simp add: conns_def)
  moreover have "\<forall>st1 st2 ob. play 2 demo_program demo_base Connect st1 = (Returned (Some (T_OBJECT ob)), st2) \<longrightarrow> c_interactive st2 ob = None"
    using demo_connect by blast
  ultimately show ?thesis using players_consistent [OF _ r [unfolded demo_comm_env_def]] r st2(2) by (intro exI [of _ st2]) simp
qed

theorem set_snoop_pairs_witness:
  "\<exists>st st'. set_snoop demo_comm_env 6 (Some 7) st = Some (Some True, st') \<and> snoops st' = [0 \<mapsto> 1]"
proof -
  obtain st where st: "players_ok st" "c_interactive st 6 = Some 0" "c_interactive st 7 = Some 1" "c_destructed st = (\<lambda>_. False)" "snoops st = Map.empty"
    using demo_two by blast
  let ?st = "st\<lparr>c_current := Some 1\<rparr>"
  have s: "snoops ?st = Map.empty" using st(5) by (simp add: snoops_def fun_eq_iff)
  then have "snoop_rel ?st = {}" by (simp add: snoop_rel_def)
  then have n: "(1, 0) \<notin> (snoop_rel ?st)\<^sup>*" by simp
  have "owner st 0 = Some 6" "owner st 1 = Some 7" using st(1-3) unfolding ok_but_def players_table_def by blast+
  then have l: "{0, 1} \<subseteq> dom (c_ips ?st)" by (auto simp: owner_def)
  have "if c_current ?st = Some (e_master demo_comm_env) then True \<and> ?st = ?st
      else e_call demo_comm_env (Valid_snoop (c_current ?st) 6 (Some 7)) ?st = (Returned None, ?st) \<and> True = permits None"
    by (simp add: demo_comm_env_def demo_base_def)
  from set_snoop_pairs [OF _ _ _ _ _ _ this _ l] n st obtain st' where st': "set_snoop demo_comm_env 6 (Some 7) ?st = Some (Some True, st')"
    "snoops st' = (\<lambda>x. if x = 0 then Some 1 else if snoops ?st x = Some 1 then None else snoops ?st x)" by auto
  have "snoops st' = [0 \<mapsto> 1]" unfolding st'(2) s by (simp add: fun_eq_iff)
  then show ?thesis using st'(1) by blast
qed

lemma set_snoop_after_leaving_example:
  "\<exists>st. c_interactive st 6 = Some 0 \<and> c_interactive st 7 = Some 1 \<and> set_snoop demo_comm_env 6 (Some 7) st = None"
proof -
  obtain st0 where st0: "players_ok st0" "c_interactive st0 6 = Some 0" "c_interactive st0 7 = Some 1" "c_destructed st0 = (\<lambda>_. False)" "snoops st0 = Map.empty"
    using demo_two by blast
  define st where "st = st0\<lparr>c_current := Some 6\<rparr>"
  have st: "players_ok st" "c_interactive st 6 = Some 0" "c_interactive st 7 = Some 1" "c_destructed st = (\<lambda>_. False)" using st0 by (simp_all add: st_def)
  have "owner st 1 = Some 7" using st(1,3) unfolding ok_but_def players_table_def by blast
  then obtain ip where ip: "c_ips st 1 = Some ip" "ip_ob ip = 7" by (auto simp: owner_def)
  then have ed: "\<not> ip_ed_buffer ip" using st(1) by (auto simp: ok_but_def quiet_but_def)
  let ?E = "demo_base\<lparr>e_call := play 1 demo_program demo_base\<rparr>"
  let ?st = "give_order (c_giver st) st"
  have ok: "players_ok ?st" "c_ips ?st 1 = Some ip" using st(1) ip by (simp_all add: give_order_def)
  obtain st1 where r: "disconnect ?E 1 False ?st =
      go_on (lpc ?E (Left_game (ip_ob ip) False) st1) (\<lambda>_ st2. Some (Some (), give_order (c_giver ?st) st2))" "dom (c_ips st1) = dom (c_ips ?st) - {1}"
    using disconnect_runs [OF ok, of ?E False] by blast
  have gone: "c_ips st1 1 = None" using r(2) by auto
  have "e_call ?E (Left_game x ld) s = (Returned (Some const0), s)" for x ld s by (simp add: demo_program_def ends_def lpc_return_def)
  then have run: "disconnect ?E 1 False ?st = Some (Some (), give_order (c_giver st) st1)"
    unfolding r(1) by (simp add: lpc_def go_on_def give_order_def)
  define st' where "st' = (give_order (c_giver st) st1)\<lparr>c_destructed := (c_destructed st1)(7 := True)\<rparr>"
  have "destruct_connection ?E 7 st = Some (Some (), give_order (c_giver st) st1)"
    using run st(3) ip ed by (simp add: destruct_connection_def go_on_def Let_def give_order_def)
  then have "run_op ?E (Op_destruct 7) st = Some (Some (), st')" using st(4) by (simp add: go_on_def ends_def st'_def give_order_def)
  then have "e_call demo_comm_env (Valid_snoop (c_current st) 6 (Some 7)) st = (Returned (Some const1), st')"
    by (simp add: demo_comm_env_def numeral_2_eq_2 demo_program_def go_on_def ends_def lpc_return_def)
  moreover have "c_ips st' 1 = None" using gone by (simp add: st'_def give_order_def)
  moreover have "c_current st \<noteq> Some (e_master demo_comm_env)" by (simp add: st_def demo_comm_env_def demo_base_def)
  ultimately have "set_snoop demo_comm_env 6 (Some 7) st = None"
    using set_snoop_after_leaving [of st demo_comm_env 6 0 7 1 "Some const1" st'] st by (simp add: permits_def const1_def)
  then show ?thesis using st by blast
qed

end
