(* ===== verification/Spec2Isabelle.thy ===== *)
theory Spec2Isabelle
  imports Telnet_Protocol Drand48 Wildmat Call_Out Eval Swap_Values Destruct Players
begin

text \<open>
  A verification library for the LPmud game driver (the C program under \<^verbatim>\<open>src/\<close>).

  The driver runs a multi-user game that is written in the language LPC.  Players come in through the telnet server, which the
  network descriptor manager calls when \<^verbatim>\<open>select()\<close> reports an event; whole lines go to the game.  Objects of the game are compiled to
  byte code, which the interpreter carries out on a stack of values; values are numbers, floats, strings, arrays, mappings,
  objects and functions.  Objects are found by name in a hash table, stand in one another's inventories, are called at later times
  by alarms, are saved as text, and are swapped to a file when they are idle.

  \<^bold>\<open>Theories.\<close>  Each theory models one part, in the order of the code, and proves what makes the part correct.

  \<^item> \<open>Driver_Prelude\<close>: the C integer types, flag words, checked writes into a block of bytes, the collections of hints, and the
    lemmas on words, lists and linked chains that the other theories share.

  \<^item> \<open>Nqueue\<close> (\<^verbatim>\<open>nqueue.c\<close>): ring buffers of bytes with indices of 16 bits.  Every operation is shown to be the one on the list of
    queued bytes; the locale \<open>byte_queue\<close> states the laws of putting and getting, and is interpreted on the ring buffer.

  \<^item> \<open>Ndesc\<close> (\<^verbatim>\<open>ndesc.c\<close>): the doubly linked list of descriptors as a heap of records, the sets of \<^verbatim>\<open>select()\<close> and the table from file
    descriptors to descriptors: attaching, detaching, enabling, shutting down, and the loop that calls back.

  \<^item> \<open>Telnet\<close>, \<open>Telnet_Safety\<close>, \<open>Telnet_Protocol\<close> (\<^verbatim>\<open>telnet.c\<close>): the control block of a session, the encoding of output, the
    negotiation of options, the state machine of input and the callbacks; then the invariant of a session and its preservation by
    every callback, whatever the network delivers and the game does; then what a session does: reachable sessions are in
    order, a line that is sent is the line that the game gets, what goes out is the encoding of what the game said, and the
    negotiation of an option is the Q method of RFC 1143.

  \<^item> \<open>Drand48\<close> (\<^verbatim>\<open>drand48.c\<close>): the generator in limbs of 16 bits is the congruence on 48 bits.

  \<^item> \<open>Wildmat\<close> (\<^verbatim>\<open>wildmat.c\<close>): the matcher with its early abort decides the usual meaning of a pattern.

  \<^item> \<open>Hash\<close> (\<^verbatim>\<open>hash.c\<close>): Pearson's hash function with its table.

  \<^item> \<open>Mstring\<close> (\<^verbatim>\<open>mstring.c\<close>) and \<open>Otable\<close> (\<^verbatim>\<open>otable.c\<close>): shared strings and the names of objects, two hash tables of chains in which
    what is found moves to the front.  The locale \<open>name_table\<close> says what a search may change; it is interpreted on both.  The
    tables refine a map from texts to their counts and a map from names to objects.

  \<^item> \<open>Svalue\<close> (\<^verbatim>\<open>interpret.h\<close>, \<^verbatim>\<open>inline_eqs.h\<close>): LPC values, their equality and their hash value; the locale \<open>hash_keys\<close> collects
    what a hash table needs of its keys and is interpreted on the keys for which the code provides it.

  \<^item> \<open>Lpc_Mapping\<close> (\<^verbatim>\<open>mapping.c\<close>) and \<open>Lpc_Array\<close> (\<^verbatim>\<open>array.c\<close>): mappings as growing hash tables, an instance of the locale
    \<open>assoc_table\<close>, whose lemmas give the algebra of mappings; arrays, splitting and joining of strings, set operations, the unique
    maker, inventories.

  \<^item> \<open>Call_Out\<close> (\<^verbatim>\<open>call_out.c\<close>): alarms in a wheel of slots with chains of objects: the table stays consistent, and what is due is
    executed.

  \<^item> \<open>C_Stdio\<close>, \<open>Lpc_Save\<close> (\<^verbatim>\<open>object.c\<close>): the conversions of the C library that the driver uses, and values as text in both
    directions.

  \<^item> \<open>Environment\<close> (\<^verbatim>\<open>simulate.c\<close>): where objects are, moving them, and the commands that living objects meet.

  \<^item> \<open>Living\<close> (\<^verbatim>\<open>object.c\<close>): the hash table of the names of living objects.

  \<^item> \<open>Destruct\<close> (\<^verbatim>\<open>simulate.c\<close>): \<^verbatim>\<open>destruct_object\<close>, which acts on the state of \<open>Environment\<close>, \<open>Otable\<close>, \<open>Call_Out\<close> and \<open>Living\<close>
    together with the ring of all objects.  The invariant of the whole is kept, and a destructed object and all that was in it
    are gone from every table.

  \<^item> \<open>Terminal\<close>, \<open>Players\<close> (\<^verbatim>\<open>comm1.c\<close>, with \<^verbatim>\<open>hname_input\<close> of \<^verbatim>\<open>hname.c\<close> and the efuns that lead there): the word wrap of the text for a
    terminal and the table of host names; then the interactive players: their table, arrival and departure, \<^verbatim>\<open>exec\<close>, snooping,
    prompts and input.  LPC code may do all of this again whenever the driver calls it; the invariant of the table survives
    that (\<open>players_consistent\<close>), and an order to snoop does what it should (\<open>set_snoop_pairs\<close>).

  \<^item> \<open>Operators\<close>, \<open>Lpc_Switch\<close>, \<open>Eval\<close> (\<^verbatim>\<open>interpret.c\<close>): the operators on the stack of values, the search of a \<^verbatim>\<open>switch\<close>, and the
    machine: frames, calls and returns, \<^verbatim>\<open>catch\<close> with its error contexts, and the loop over instructions.

  \<^item> \<open>Swap_File\<close>, \<open>Swap_Values\<close> (\<^verbatim>\<open>swap.c\<close>): the swap file as a bitmap of free blocks and chains of blocks, which is an instance of
    the locale \<open>stream_store\<close>; the segments of programs, and the variables of objects, out of memory and back.

  \<^bold>\<open>How the code is modelled.\<close>  A structure is a record, the static variables of a file are the fields of a record, and a
  function takes and returns that state.  Integers have their width where wrapping matters, as words or with the reduction
  written out.  Heaps are maps from addresses; a list that the code links through pointers is either such a heap
  (\<open>Ndesc\<close>, \<open>Mstring\<close>, \<open>Otable\<close>), when its operations rely on the links, or the list of its elements.  A
  result in an option type is \<^const>\<open>None\<close> for an access outside of an object, a call of \<^verbatim>\<open>fatal()\<close>, or a loop that never ends, so that a
  theorem that concludes \<^const>\<open>Some\<close> is one about memory safety and termination too; \<^verbatim>\<open>error()\<close>, which LPC code can catch, is a
  value of a sum or of a type of errors, with the state in which it was raised where that can be seen.  Signed addition, subtraction
  and multiplication wrap around, as on the processors the driver runs on; a shift by a count that is negative or above 31, which is
  undefined too, has no result.

  \<^bold>\<open>Parameters.\<close>  What is not code of the driver is an argument of the definitions: \<^verbatim>\<open>recv\<close>, \<^verbatim>\<open>send\<close>, \<^verbatim>\<open>select\<close> and \<^verbatim>\<open>dup\<close> of the
  system, the addresses that \<^verbatim>\<open>xalloc\<close> returns, the functions of LPC that the driver calls (\<open>game\<close> in \<open>Call_Out\<close> and
  \<open>Environment\<close>, \<open>g_call\<close> in \<open>Destruct\<close>, \<open>tenv\<close> in \<open>Telnet\<close>, closures in \<open>Lpc_Array\<close> and \<open>Lpc_Mapping\<close>), the size of a page, the bytes of a value that it does
  not use, and the tables that are generated when the driver is built: the numbers of instructions, the types of their arguments, and
  the functions that carry them out (\<open>vm\<close> in \<open>Eval\<close>), which may also never return, \<open>e_call\<close> for the LPC code that the functions of
  \<open>Players\<close> call.  The examples of \<open>Eval\<close> use small tables of instructions, because the numbers of the real ones are made when the
  driver is built; \<open>full_vm\<close> has all instructions that are modelled.  Hypotheses on them state what their documentation promises, for example
  that a new address is not in use.  Clearing the command giver of a repeating alarm whose object was destructed is left to \<open>game\<close>.

  \<^bold>\<open>Bounds.\<close>  Loops that may not end are partial functions in the option monad, and their end is proved: that of an evaluation because
  every instruction is counted and the handlers of a catch grant a bounded number more, unless it is the outermost one.  The
  search for the next alarm has one turn for each slot of the wheel, after which it is back at the slot where it began.  \<open>Lpc_Save\<close>, \<open>Swap_Values\<close> and \<open>Destruct\<close> bound
  the depth of recursion by a number \<open>n\<close>, the room on the stack of the process; it is enough when it exceeds the length of the text, the
  size of the value, or twice the number of objects.  The swap file is taken to hold fewer than \<open>2 ^ 32\<close> blocks.

  \<^bold>\<open>Errors of the program\<close> that the theorems show: a telnet session that loses every line after an urgent message
  (\<open>telnet_deaf_forever\<close>), a destructor that makes the driver die (\<open>destructor_move_fatal\<close>), the look-up of commands that never ends (\<open>update_actions_hangs\<close>), an evaluation that no limit stops
  (\<open>catch_loop_never_ends\<close>), a conversion that overwrites the string it is given (\<open>str2val_overwrites_argument\<close>), two buffers that overflow
  (\<open>write_socket_overflows\<close>, \<open>notify_overflows\<close>), and an order to snoop that uses freed memory (\<open>set_snoop_after_leaving\<close>).

  \<^bold>\<open>Not modelled.\<close>  The compiler (a yacc grammar with code generation), the lexer and preprocessor, \<^verbatim>\<open>parse_command\<close>, the
  line editor, \<^verbatim>\<open>sprintf\<close> and regular expressions; loading and cloning of objects and the file functions, which are
  mostly calls of the system, the compiler and the game; freeing the memory of destructed objects; the main loop and
  start-up; the small block allocator, since memory is abstracted to maps; reference counts of values, objects and arrays,
  except those of strings; statistics, debugging, tracing and profiling.
\<close>

end
